(* ===== verification/Prelude.thy ===== *)
theory Prelude
  imports Main "HOL-Library.Word" "HOL-Library.Monad_Syntax"
begin

text \<open>
  Shared vocabulary of the development: the names of the machine integer types of the
  firmware (an LP64 RISC-V build, so \<open>size_t\<close>, \<open>unsigned long\<close> and pointers are 64 bits
  wide), the collections of facts the component theories add to, and the generic lemmas on
  words, ring buffers and lists that several components use.

  Convention for control flow: an operation whose execution can stop (a failed assertion
  of the code, an access outside an array) or fail to return (a loop that never ends) has an
  \<open>option\<close> result, and \<open>None\<close> is that outcome. Error codes that the code returns are values.
\<close>

unbundle bit_operations_syntax

type_synonym u8 = "8 word"
type_synonym u16 = "16 word"
type_synonym u32 = "32 word"
type_synonym u64 = "64 word"

named_theorems ring_simps \<open>free-running ring indices\<close>
named_theorems frame_simps \<open>fields an operation leaves alone\<close>
named_theorems inv_intros \<open>preservation of component invariants\<close>

subsection \<open>Checked array access\<close>

text \<open>
  \<open>a[i]\<close> as the code reads and writes it: outside the array there is no defined behaviour,
  and the operation has no result.
\<close>

definition get_at :: "'a list \<Rightarrow> nat \<Rightarrow> 'a option" where
  "get_at xs i = (if i < length xs then Some (xs ! i) else None)"

definition set_at :: "'a list \<Rightarrow> nat \<Rightarrow> 'a \<Rightarrow> 'a list option" where
  "set_at xs i x = (if i < length xs then Some (xs[i := x]) else None)"

text \<open>An assertion of the code: execution goes on only when the condition holds.\<close>

definition check :: "bool \<Rightarrow> unit option" where
  "check b = (if b then Some () else None)"

lemma get_at_in [simp]: "i < length xs \<Longrightarrow> get_at xs i = Some (xs ! i)"
  by (simp add: get_at_def)

lemma set_at_in [simp]: "i < length xs \<Longrightarrow> set_at xs i x = Some (xs[i := x])"
  by (simp add: set_at_def)

lemma get_at_Some_iff: "get_at xs i = Some y \<longleftrightarrow> i < length xs \<and> y = xs ! i"
  by (auto simp: get_at_def)

lemma set_at_Some_iff: "set_at xs i x = Some ys \<longleftrightarrow> i < length xs \<and> ys = xs[i := x]"
  by (auto simp: set_at_def)

lemma check_True [simp]: "check True = Some ()"
  by (simp add: check_def)

lemma check_False [simp]: "check False = None"
  by (simp add: check_def)

lemma check_Some_iff [simp]: "check b = Some u \<longleftrightarrow> b"
  by (simp add: check_def)

lemmas access_iffs = get_at_Some_iff set_at_Some_iff check_Some_iff bind_eq_Some_conv

lemma in_set_tlD: "x \<in> set (tl xs) \<Longrightarrow> x \<in> set xs"
  by (cases xs) auto

subsection \<open>Words\<close>

lemma unat_plus_one: "unat (x :: 'a::len word) + 1 < 2 ^ LENGTH('a) \<Longrightarrow> unat (x + 1) = unat x + 1"
  by (simp add: unat_word_ariths)

lemma unat_add_lt:
  "unat (x :: 'a::len word) + unat y < 2 ^ LENGTH('a) \<Longrightarrow> unat (x + y) = unat x + unat y"
  by (simp add: unat_word_ariths)

lemma unat_sub_le: "y \<le> x \<Longrightarrow> unat (x - y :: 'a::len word) = unat x - unat y"
  by (simp add: unat_sub)

lemma unat_of_nat_lt: "n < 2 ^ LENGTH('a) \<Longrightarrow> unat (of_nat n :: 'a::len word) = n"
  by (simp add: unsigned_of_nat take_bit_nat_eq_self)

lemma eq_of_nat_unat: "unat (w :: 'a::len word) = n \<Longrightarrow> w = of_nat n"
  by (drule sym) simp

lemma of_nat_less_word: "n < unat w \<Longrightarrow> (of_nat n :: 'a::len word) < w"
proof -
  assume n: "n < unat w"
  have "n < 2 ^ LENGTH('a)" by (rule order.strict_trans [OF n unsigned_less])
  then have "unat (of_nat n :: 'a word) = n" by (rule unat_of_nat_lt)
  then show ?thesis using n by (simp add: word_less_nat_alt)
qed

lemma sint_unat_small:
  assumes "unat (w :: 32 word) < 2 ^ 31"
  shows "sint w = int (unat w)"
proof -
  have u: "uint w = int (unat w)" by simp
  have "int (unat w) < int (2 ^ 31)" using assms by (simp only: of_nat_less_iff)
  then have "int (unat w) < 2 ^ 31" by (simp only: of_nat_power of_nat_numeral)
  then have "signed_take_bit 31 (uint w) = uint w"
    unfolding u by (rule signed_take_bit_int_eq_self [rotated]) (rule order_trans [OF _ of_nat_0_le_iff], simp)
  then show ?thesis by (simp add: sint_uint)
qed

lemma ucast_16_32_16 [simp]: "ucast (ucast (w :: u16) :: u32) = w"
  by (rule bit_word_eqI) (simp add: bit_ucast_iff)

text \<open>Conversion of an unsigned long to \<open>int\<close>.\<close>

definition int_of_ulong :: "u64 \<Rightarrow> int" where
  "int_of_ulong x = sint (ucast x :: u32)"

lemma int_of_ulong_nat: "m < 2 ^ 31 \<Longrightarrow> int_of_ulong (of_nat m) = int m"
proof -
  assume m: "m < 2 ^ 31"
  have "(ucast (of_nat m :: u64) :: u32) = of_nat m"
    using m by (simp add: unsigned_of_nat take_bit_nat_eq_self)
  moreover have "unat (of_nat m :: u32) = m" using m by (simp add: unat_of_nat_lt)
  ultimately show ?thesis
    unfolding int_of_ulong_def using m by (simp only: sint_unat_small)
qed

text \<open>The words below \<open>n\<close>, as an image of the naturals and as a list.\<close>

lemma words_below: "{i :: 'a::len word. i < n} = of_nat ` {..<unat n}"
proof (intro equalityI subsetI)
  fix i assume "i \<in> {i. i < n}"
  then have "unat i \<in> {..<unat n}" "i = of_nat (unat i)" by (simp_all add: word_less_nat_alt)
  then show "i \<in> of_nat ` {..<unat n}" by blast
next
  fix i assume "i \<in> (of_nat :: nat \<Rightarrow> 'a word) ` {..<unat n}"
  then show "i \<in> {i. i < n}" by (auto intro: of_nat_less_word)
qed

lemma inj_on_of_nat_word: "inj_on (of_nat :: nat \<Rightarrow> 'a::len word) {..<unat (n :: 'a word)}"
proof (rule inj_onI)
  fix x y assume "x \<in> {..<unat n}" "y \<in> {..<unat n}" and eq: "(of_nat x :: 'a word) = of_nat y"
  then have "x < 2 ^ LENGTH('a)" "y < 2 ^ LENGTH('a)"
    by (auto intro: order.strict_trans [OF _ unsigned_less])
  then show "x = y" using eq by (metis unat_of_nat_lt)
qed

lemma card_words_below: "card {i :: 'a::len word. i < n} = unat n"
  by (simp add: words_below card_image inj_on_of_nat_word)

lemma distinct_words_upt: "distinct (map (of_nat :: nat \<Rightarrow> 'a::len word) [0..<unat (n :: 'a word)])"
  using inj_on_of_nat_word [of n] by (simp add: distinct_map lessThan_atLeast0)

lemma set_words_upt: "set (map (of_nat :: nat \<Rightarrow> 'a::len word) [0..<unat n]) = {i. i < n}"
  by (simp add: words_below lessThan_atLeast0)

text \<open>Masking with \<open>2 ^ k - 1\<close> is the remainder modulo \<open>2 ^ k\<close>.\<close>

lemma unat_two_power:
  fixes n :: "'a::len word"
  assumes "unat n = 2 ^ k"
  shows "k < LENGTH('a)" and "n = 2 ^ k"
proof -
  have "(2::nat) ^ k < 2 ^ LENGTH('a)"
    using assms unsigned_less [of n, where ?'a = nat] by simp
  then show k: "k < LENGTH('a)" by simp
  have "n = of_nat (unat n)" by simp
  then show "n = 2 ^ k" by (simp add: assms)
qed

lemma unat_and_mask_mod:
  fixes x n :: "'a::len word"
  assumes "unat n = 2 ^ k"
  shows "unat (x AND (n - 1)) = unat x mod unat n"
proof -
  have "n - 1 = mask k"
    using unat_two_power(2) [OF assms] by (simp add: mask_eq_decr_exp)
  then have "unat (x AND (n - 1)) = take_bit k (unat x)"
    by (simp add: take_bit_eq_mask [symmetric] unsigned_take_bit_eq)
  then show ?thesis
    by (simp add: assms take_bit_eq_mod)
qed

lemma unat_and_not_mask:
  fixes x :: "'a::len word"
  shows "unat (x AND NOT (mask k)) = unat x - unat x mod 2 ^ k"
proof -
  have eq: "x AND NOT (mask k) = push_bit k (drop_bit k x)"
    by (rule bit_word_eqI) (auto simp: bit_simps not_less)
  have le: "unat x div 2 ^ k * 2 ^ k \<le> unat x" by simp
  have "unat x div 2 ^ k * 2 ^ k < 2 ^ LENGTH('a)"
    by (rule order.strict_trans1 [OF le unsigned_less])
  moreover have "unat (push_bit k (drop_bit k x)) = take_bit LENGTH('a) (push_bit k (unat (drop_bit k x)))"
    by (rule unsigned_push_bit_eq)
  moreover have "unat (drop_bit k x) = unat x div 2 ^ k"
    by (simp only: unat_drop_bit_eq) (simp add: drop_bit_eq_div)
  ultimately show ?thesis
    by (simp only: eq push_bit_eq_mult take_bit_nat_eq_self minus_mod_eq_div_mult)
qed

subsection \<open>Ring buffers with free-running 16-bit counters\<close>

text \<open>
  A virtio ring of \<open>n\<close> entries keeps a producer and a consumer counter that run through all
  16-bit values and are reduced modulo \<open>n\<close> (a power of two) only to address the array.
  \<open>ring_slice\<close> is the queue such a pair of counters denotes, oldest entry first.
\<close>

definition ring_slice :: "nat \<Rightarrow> 'a list \<Rightarrow> u16 \<Rightarrow> u16 \<Rightarrow> 'a list" where
  "ring_slice n r c p = map (\<lambda>k. r ! ((unat c + k) mod n)) [0..<unat (p - c)]"

definition ring_size_ok :: "nat \<Rightarrow> bool" where
  "ring_size_ok n \<longleftrightarrow> 0 < n \<and> n < 2 ^ 16 \<and> n dvd 2 ^ 16"

lemma ring_size_okD: "ring_size_ok n \<Longrightarrow> 0 < n" "ring_size_ok n \<Longrightarrow> n < 2 ^ 16"
  "ring_size_ok n \<Longrightarrow> n dvd 2 ^ 16"
  by (simp_all add: ring_size_ok_def)

lemma ring_size_ok_power: "unat (n :: u16) = 2 ^ k \<Longrightarrow> ring_size_ok (unat n)"
  using unat_two_power(1) [of n k] unsigned_less [of n, where ?'a = nat]
  using le_imp_power_dvd [of k 16 "2::nat"] by (auto simp: ring_size_ok_def)

lemma length_ring_slice [ring_simps]: "length (ring_slice n r c p) = unat (p - c)"
  by (simp add: ring_slice_def)

lemma ring_slice_empty [ring_simps]: "ring_slice n r i i = []"
  by (simp add: ring_slice_def)

lemma ring_slice_eq_Nil_iff [ring_simps]: "ring_slice n r c p = [] \<longleftrightarrow> c = p"
  by (auto simp: ring_slice_def unat_eq_0)

lemma unat_succ_mod: "n dvd 2 ^ 16 \<Longrightarrow> unat (i + 1 :: u16) mod n = (unat i + 1) mod n"
  by (simp add: unat_word_ariths mod_mod_cancel)

lemma unat_add_mod: "n dvd 2 ^ 16 \<Longrightarrow> unat (i + j :: u16) mod n = (unat i + unat j) mod n"
  by (simp add: unat_word_ariths mod_mod_cancel)

lemma mod_add_inj_lt:
  fixes a j k n :: nat
  assumes "(a + j) mod n = (a + k) mod n" "j < n" "k < n"
  shows "j = k"
proof (rule ccontr)
  assume "j \<noteq> k"
  then consider "j < k" | "k < j" by linarith
  then show False
  proof cases
    case 1
    then have "n dvd k - j"
      using assms(1) mod_eq_dvd_iff_nat [of "a + j" "a + k" n] by simp
    then show False using 1 assms(3) by (auto dest!: dvd_imp_le)
  next
    case 2
    then have "n dvd j - k"
      using assms(1) mod_eq_dvd_iff_nat [of "a + k" "a + j" n] by simp
    then show False using 2 assms(2) by (auto dest!: dvd_imp_le)
  qed
qed

lemma ring_slice_push [ring_simps]:
  assumes n: "ring_size_ok n" and room: "unat (p - c) < n" and len: "n \<le> length r"
  shows "ring_slice n (r[unat p mod n := x]) c (p + 1) = ring_slice n r c p @ [x]"
proof -
  let ?d = "unat (p - c)"
  have d1: "unat (p + 1 - c) = ?d + 1"
  proof -
    have "p + 1 - c = (p - c) + 1" by simp
    moreover have "unat ((p - c) + 1) = ?d + 1"
      using room ring_size_okD(2) [OF n] by (intro unat_plus_one) simp
    ultimately show ?thesis by (simp only:)
  qed
  have pmod: "unat p mod n = (unat c + ?d) mod n"
    using unat_add_mod [OF ring_size_okD(3) [OF n], of c "p - c"] by simp
  have other: "(unat c + k) mod n \<noteq> unat p mod n" if "k < ?d" for k
    using that pmod room mod_add_inj_lt [of "unat c" k n ?d] by auto
  have "unat p mod n < length r"
    using len ring_size_okD(1) [OF n] by (meson mod_less_divisor order_less_le_trans)
  then show ?thesis
    using other [THEN not_sym] by (auto simp: ring_slice_def d1 pmod)
qed

lemma ring_slice_pop [ring_simps]:
  assumes n: "ring_size_ok n" and ne: "c \<noteq> p"
  shows "ring_slice n r c p = r ! (unat c mod n) # ring_slice n r (c + 1) p"
proof -
  have pos: "0 < unat (p - c)" using ne by (simp add: unat_gt_0)
  moreover have "unat (p - (c + 1)) = unat (p - c) - 1"
  proof -
    have "1 \<le> p - c" using pos by (simp add: word_le_nat_alt)
    then have "unat (p - c - 1) = unat (p - c) - 1" by (simp add: unat_sub_le)
    then show ?thesis by (simp add: diff_diff_eq)
  qed
  moreover have "(unat (c + 1) + k) mod n = (unat c + Suc k) mod n" for k
    using unat_succ_mod [OF ring_size_okD(3) [OF n], of c]
    by (metis add_Suc_right add_Suc_shift mod_add_left_eq Suc_eq_plus1 add.assoc)
  ultimately show ?thesis
    by (intro nth_equalityI) (auto simp: ring_slice_def nth_Cons split: nat.split)
qed

end
