(* ===== verification/Metal_Io.thy ===== *)
theory Metal_Io
  imports Prelude
begin

text \<open>
  libmetal I/O regions: \<^verbatim>\<open>openamp/include/metal/io.h\<close> (address translation),
  \<^verbatim>\<open>openamp/libmetal/io.c\<close> (region setup and the block operations) and the shared-memory
  operations of \<^verbatim>\<open>openamp/platform/shmem_ops.c\<close>. Addresses and offsets are 64-bit words,
  memory is a byte store. The operation tables the source defines are the empty one and
  \<open>shmem_sunxi_io_ops\<close>; both leave \<open>offset_to_phys\<close> and \<open>phys_to_offset\<close> null, so the
  translations are always the generic ones. Cache maintenance and fences have no effect on a
  sequential byte store and are not represented.
\<close>

datatype io_ops = Nops | Shmem_sunxi_io_ops

record io_region =
  io_virt :: u64
  io_physmap :: "u64 list option"
  io_size :: u64
  io_page_shift :: u64
  io_page_mask :: u64
  io_mem_flags :: u32
  io_ops_of :: io_ops

definition METAL_BAD_OFFSET :: u64 where "METAL_BAD_OFFSET = - 1"
definition METAL_BAD_PHYS :: u64 where "METAL_BAD_PHYS = - 1"
definition METAL_BAD_VA :: u64 where "METAL_BAD_VA = - 1"

definition metal_io_init ::
  "u64 \<Rightarrow> u64 list option \<Rightarrow> u64 \<Rightarrow> u32 \<Rightarrow> u32 \<Rightarrow> io_ops option \<Rightarrow> io_region" where
  "metal_io_init virt physmap sz page_shift mem_flags ops =
     \<lparr>io_virt = virt, io_physmap = physmap, io_size = sz, io_page_shift = ucast page_shift,
      io_page_mask = (if 64 \<le> unat page_shift then - 1 else push_bit (unat page_shift) 1 - 1),
      io_mem_flags = mem_flags,
      io_ops_of = (case ops of Some t \<Rightarrow> t | None \<Rightarrow> Nops)\<rparr>"

definition metal_io_region_size :: "io_region \<Rightarrow> u64" where
  "metal_io_region_size io = io_size io"

text \<open>The null pointer is 0.\<close>

definition metal_io_virt :: "io_region \<Rightarrow> u64 \<Rightarrow> u64" where
  "metal_io_virt io offset =
     (if io_virt io \<noteq> METAL_BAD_VA \<and> offset < io_size io then io_virt io + offset else 0)"

definition metal_io_virt_to_offset :: "io_region \<Rightarrow> u64 \<Rightarrow> u64" where
  "metal_io_virt_to_offset io virt =
     (let offset = virt - io_virt io in if offset < io_size io then offset else METAL_BAD_OFFSET)"

definition metal_io_phys :: "io_region \<Rightarrow> u64 \<Rightarrow> u64 option" where
  "metal_io_phys io offset =
     (let page = (if 64 \<le> io_page_shift io then 0 else drop_bit (unat (io_page_shift io)) offset)
      in case io_physmap io of
           None \<Rightarrow> Some METAL_BAD_PHYS
         | Some pm \<Rightarrow>
             if offset < io_size io
             then do { p \<leftarrow> get_at pm (unat page); Some (p + (offset AND io_page_mask io)) }
             else Some METAL_BAD_PHYS)"

text \<open>
  The search of \<open>metal_io_phys_to_offset\<close>, a do-while loop over the pages. It may run
  forever on a malformed region, hence \<open>partial_function\<close>.
\<close>

partial_function (option) phys_to_offset_loop :: "io_region \<Rightarrow> u64 \<Rightarrow> u64 \<Rightarrow> u64 option" where
  "phys_to_offset_loop io phys offset =
     Option.bind (metal_io_phys io offset) (\<lambda>p.
       if p = phys then Some offset
       else if offset + (io_page_mask io + 1) < io_size io
       then phys_to_offset_loop io phys (offset + (io_page_mask io + 1))
       else Some METAL_BAD_OFFSET)"

declare phys_to_offset_loop.simps [code]

definition metal_io_phys_to_offset :: "io_region \<Rightarrow> u64 \<Rightarrow> u64 option" where
  "metal_io_phys_to_offset io phys = do {
     start \<leftarrow> (if io_page_mask io = - 1
               then do { pm \<leftarrow> io_physmap io; p0 \<leftarrow> get_at pm 0; Some (phys - p0) }
               else Some (phys AND io_page_mask io));
     phys_to_offset_loop io phys start }"

definition metal_io_phys_to_virt :: "io_region \<Rightarrow> u64 \<Rightarrow> u64 option" where
  "metal_io_phys_to_virt io phys = do {
     offset \<leftarrow> metal_io_phys_to_offset io phys;
     Some (metal_io_virt io offset) }"

definition metal_io_virt_to_phys :: "io_region \<Rightarrow> u64 \<Rightarrow> u64 option" where
  "metal_io_virt_to_phys io virt = metal_io_phys io (metal_io_virt_to_offset io virt)"

subsection \<open>Well-formed regions\<close>

text \<open>
  A region as \<open>metal_io_init\<close> builds it: either one contiguous page (any page shift of 64 or
  more, the case of \<open>platform_rproc_mmap\<close>), or pages of \<open>2 ^ page_shift\<close> bytes at distinct
  aligned physical addresses that cover the region.
\<close>

definition flat_region :: "io_region \<Rightarrow> bool" where
  "flat_region io \<longleftrightarrow> 64 \<le> io_page_shift io \<and> io_page_mask io = - 1 \<and>
     (\<exists>p0 ps. io_physmap io = Some (p0 # ps))"

definition paged_region :: "io_region \<Rightarrow> bool" where
  "paged_region io \<longleftrightarrow> unat (io_page_shift io) < 63 \<and>
     io_page_mask io = push_bit (unat (io_page_shift io)) 1 - 1 \<and>
     (\<exists>pm. io_physmap io = Some pm \<and> distinct pm \<and>
        unat (io_size io) \<le> length pm * 2 ^ unat (io_page_shift io) \<and>
        (\<forall>p \<in> set pm. p AND io_page_mask io = 0)) \<and>
     unat (io_size io) + 2 ^ unat (io_page_shift io) \<le> 2 ^ 64"

definition region_ok :: "io_region \<Rightarrow> bool" where
  "region_ok io \<longleftrightarrow> flat_region io \<or> paged_region io"

lemma metal_io_init_flat:
  assumes "64 \<le> unat page_shift" "pm \<noteq> []"
  shows "flat_region (metal_io_init virt (Some pm) sz page_shift mem_flags ops)"
  using assms unsigned_less [of page_shift, where ?'a = nat]
  by (cases pm) (auto simp: flat_region_def metal_io_init_def word_le_nat_alt unsigned_ucast_eq take_bit_nat_eq_self)

lemma virt_to_offset_virt:
  "offset < io_size io \<Longrightarrow> io_virt io \<noteq> METAL_BAD_VA \<Longrightarrow>
     metal_io_virt_to_offset io (metal_io_virt io offset) = offset"
  by (simp add: metal_io_virt_to_offset_def metal_io_virt_def)

lemma phys_to_offset_flat:
  assumes "flat_region io" "offset < io_size io"
  shows "\<exists>p. metal_io_phys io offset = Some p \<and> metal_io_phys_to_offset io p = Some offset"
  using assms
  by (auto simp: flat_region_def metal_io_phys_def metal_io_phys_to_offset_def
      phys_to_offset_loop.simps [of io _ offset])


lemma page_low_bits:
  fixes p r :: u64
  assumes "p AND mask k = 0" "r AND mask k = r"
  shows "(p + r) AND mask k = r"
proof -
  have "p AND r = p AND (mask k AND r)" using assms(2) by (simp add: and.commute)
  also have "\<dots> = 0" using assms(1) by (simp add: and.assoc [symmetric])
  finally have "p + r = p OR r" by (rule disjunctive_add_eq_or)
  then show ?thesis using assms by (metis or_eq_0_iff bit.conj_disj_distrib2 or.left_neutral)
qed

lemma metal_io_phys_page:
  assumes "paged_region io" "io_physmap io = Some pm" "k = unat (io_page_shift io)"
    and "i * 2 ^ k + r < unat (io_size io)" "r < 2 ^ k"
  shows "i < length pm" "metal_io_phys io (of_nat (i * 2 ^ k + r)) = Some (pm ! i + of_nat r)"
proof -
  let ?o = "i * 2 ^ k + r"
  have k: "k < 63" "io_page_mask io = mask k" "unat (io_size io) \<le> length pm * 2 ^ k"
    using assms(1-3) by (auto simp: paged_region_def mask_eq_decr_exp)
  have lt: "?o < 2 ^ 64"
    using assms(4) unsigned_less [of "io_size io", where ?'a = nat] by simp
  have o: "unat (of_nat ?o :: u64) = ?o" by (rule unat_of_nat_lt) (use lt in simp)
  have "i * 2 ^ k < length pm * 2 ^ k" using k(3) assms(4) by linarith
  then show i: "i < length pm" by simp
  have "unat (drop_bit k (of_nat ?o :: u64)) = i"
    unfolding unat_drop_bit_eq o using assms(5) by (simp add: drop_bit_eq_div)
  moreover have "(of_nat ?o :: u64) AND mask k = of_nat r"
  proof -
    have "unat ((of_nat ?o :: u64) AND mask k) = r"
      unfolding take_bit_eq_mask [symmetric] unsigned_take_bit_eq o
      using assms(5) by (simp add: take_bit_eq_mod)
    then show ?thesis by (rule eq_of_nat_unat)
  qed
  moreover have "(of_nat ?o :: u64) < io_size io"
    using o assms(4) by (simp add: word_less_nat_alt)
  moreover have "\<not> 64 \<le> io_page_shift io"
    using k(1) assms(3) by (simp add: word_le_nat_alt)
  ultimately show "metal_io_phys io (of_nat ?o) = Some (pm ! i + of_nat r)"
    using i k(2) assms(2,3) by (simp add: metal_io_phys_def Let_def)
qed

lemma phys_to_offset_loop_page:
  assumes io: "paged_region io" "io_physmap io = Some pm" "k = unat (io_page_shift io)"
    and off: "j * 2 ^ k + r < unat (io_size io)" "r < 2 ^ k" and le: "i \<le> j"
  shows "phys_to_offset_loop io (pm ! j + of_nat r) (of_nat (i * 2 ^ k + r)) =
    Some (of_nat (j * 2 ^ k + r))"
  using le
proof (induction "j - i" arbitrary: i)
  case 0
  then have "i = j" by simp
  then show ?case
    using metal_io_phys_page(2) [OF io off] by (simp add: phys_to_offset_loop.simps [of io])
next
  case (Suc d)
  then have ij: "i < j" "d = j - Suc i" "Suc i \<le> j" by auto
  define o1 o2 where "o1 = (of_nat (i * 2 ^ k + r) :: u64)"
    and "o2 = (of_nat (Suc i * 2 ^ k + r) :: u64)"
  have mono: "i * 2 ^ k + r < unat (io_size io)" "Suc i * 2 ^ k + r < unat (io_size io)"
    using off(1) mult_le_mono1 [OF ij(3), of "2 ^ k"] by auto
  have "pm ! i \<noteq> pm ! j"
    using ij(1) metal_io_phys_page(1) [OF io off] io(1,2)
    by (auto simp: paged_region_def nth_eq_iff_index_eq)
  moreover have "o1 + (io_page_mask io + 1) = o2"
    using io(1,3) by (simp add: o1_def o2_def paged_region_def algebra_simps)
  moreover have "o2 < io_size io"
    unfolding o2_def using mono(2) by (rule of_nat_less_word)
  moreover have "phys_to_offset_loop io (pm ! j + of_nat r) o2 = Some (of_nat (j * 2 ^ k + r))"
    unfolding o2_def by (rule Suc.hyps(1) [OF ij(2,3)])
  moreover have "metal_io_phys io o1 = Some (pm ! i + of_nat r)"
    unfolding o1_def by (rule metal_io_phys_page(2) [OF io mono(1) off(2)])
  ultimately show ?case
    unfolding o1_def [symmetric] by (subst phys_to_offset_loop.simps) (simp only: Option.bind.simps if_False if_True add_right_cancel)
qed

lemma phys_to_offset_paged:
  assumes io: "paged_region io" and lt: "offset < io_size io"
  shows "\<exists>p. metal_io_phys io offset = Some p \<and> metal_io_phys_to_offset io p = Some offset"
proof -
  define k where "k = unat (io_page_shift io)"
  define j r where "j = unat offset div 2 ^ k" and "r = unat offset mod 2 ^ k"
  obtain pm where pm: "io_physmap io = Some pm" "\<forall>p \<in> set pm. p AND io_page_mask io = 0"
    using io by (auto simp: paged_region_def)
  have jr: "j * 2 ^ k + r = unat offset" "r < 2 ^ k"
    unfolding j_def r_def by (rule div_mult_mod_eq) simp
  have lt': "j * 2 ^ k + r < unat (io_size io)" using lt jr by (simp add: word_less_nat_alt)
  note page = metal_io_phys_page [OF io pm(1) k_def lt' jr(2)]
  have k: "k < 63" "io_page_mask io = mask k"
    using io by (auto simp: paged_region_def k_def mask_eq_decr_exp)
  have "(of_nat r :: u64) AND mask k = of_nat r"
    using jr(2) by (simp add: take_bit_eq_mask [symmetric] flip: of_nat_take_bit) (simp add: take_bit_nat_eq_self)
  then have start: "(pm ! j + of_nat r) AND io_page_mask io = of_nat (0 * 2 ^ k + r)"
    using page_low_bits [of "pm ! j" k "of_nat r"] pm(2) page(1) k(2) by simp
  have "io_page_mask io \<noteq> - 1"
  proof
    assume "io_page_mask io = - 1"
    then have "bit (mask k :: u64) 63" using k(2) by simp
    then show False using k(1) by (simp add: bit_mask_iff)
  qed
  with start have "metal_io_phys_to_offset io (pm ! j + of_nat r) = Some (of_nat (j * 2 ^ k + r))"
    using phys_to_offset_loop_page [OF io pm(1) k_def lt' jr(2), of 0]
    by (simp add: metal_io_phys_to_offset_def)
  then show ?thesis using page(2) jr(1) by simp
qed

lemma phys_to_offset_region:
  "region_ok io \<Longrightarrow> offset < io_size io \<Longrightarrow>
     \<exists>p. metal_io_phys io offset = Some p \<and> metal_io_phys_to_offset io p = Some offset"
  using phys_to_offset_flat phys_to_offset_paged by (auto simp: region_ok_def)

text \<open>The translation the virtqueues use: a buffer address goes to physical and back.\<close>

lemma virt_phys_virt:
  assumes "region_ok io" "io_virt io \<noteq> METAL_BAD_VA" "virt - io_virt io < io_size io"
  shows "\<exists>p. metal_io_virt_to_phys io virt = Some p \<and> metal_io_phys_to_virt io p = Some virt"
  using phys_to_offset_region [OF assms(1,3)] assms(2,3)
  by (auto simp: metal_io_virt_to_phys_def metal_io_phys_to_virt_def metal_io_virt_to_offset_def
      metal_io_virt_def Let_def)

end
