(* ===== verification/Virtqueue.thy ===== *)
theory Virtqueue
  imports Metal_Io
begin

text \<open>
  The split virtqueue of \<^verbatim>\<open>openamp/open-amp/virtio/virtqueue.c\<close> and its headers
  \<^verbatim>\<open>virtqueue.h\<close> and \<^verbatim>\<open>virtio_ring.h\<close>, both roles. A queue is its private part
  (\<open>virtqueue\<close>, one per side) and the ring in shared memory (\<open>vring\<close>, one for both sides);
  every operation takes and returns both. The build has \<open>VQUEUE_DEBUG\<close>, so a failed
  \<open>VQASSERT\<close> stops the firmware: such an execution, and an access outside the ring, has the
  result \<open>None\<close>. Counters and indices keep their 16 bits. The two event words behind the
  rings (\<open>avail->ring[num]\<close>, \<open>used->ring[num].event\<close>) are fields of their own.
\<close>

datatype vdev_role = VIRTIO_DEV_MASTER | VIRTIO_DEV_SLAVE

record vring_desc =
  d_addr :: u64
  d_len :: u32
  d_flags :: u16
  d_next :: u16

record vring_used_elem =
  ue_id :: u32
  ue_len :: u32

record vring =
  vr_desc :: "vring_desc list"
  avail_flags :: u16
  avail_idx :: u16
  avail_ring :: "u16 list"
  vr_used_event :: u16
  used_flags :: u16
  used_idx :: u16
  used_ring :: "vring_used_elem list"
  vr_avail_event :: u16

record vq_desc_extra =
  x_cookie :: u64
  x_ndescs :: u16

record virtqueue_buf =
  vb_buf :: u64
  vb_len :: int

record vring_alloc_info =
  vi_vaddr :: u64
  vi_align :: u32
  vi_num_descs :: u16

record virtqueue =
  vq_role :: vdev_role
  vq_features :: u32
  vq_queue_index :: u16
  vq_nentries :: u16
  vq_callback :: "nat option"
  vq_notify :: "nat option"
  vq_free_cnt :: u16
  vq_queued_cnt :: u16
  vq_shm_io :: io_region
  vq_desc_head_idx :: u16
  vq_used_cons_idx :: u16
  vq_available_idx :: u16
  vq_inuse :: bool
  vq_descx :: "vq_desc_extra list"

definition VQUEUE_SUCCESS :: int where "VQUEUE_SUCCESS = 0"
definition VQ_ERROR_BASE :: int where "VQ_ERROR_BASE = - 3000"
definition ERROR_VRING_FULL :: int where "ERROR_VRING_FULL = VQ_ERROR_BASE - 1"
definition ERROR_NO_MEM :: int where "ERROR_NO_MEM = VQ_ERROR_BASE - 4"
definition ERROR_VRING_ALIGN :: int where "ERROR_VRING_ALIGN = VQ_ERROR_BASE - 6"
definition ERROR_VRING_NO_BUFF :: int where "ERROR_VRING_NO_BUFF = VQ_ERROR_BASE - 7"
definition ERROR_VQUEUE_INVLD_PARAM :: int where "ERROR_VQUEUE_INVLD_PARAM = VQ_ERROR_BASE - 8"

definition VQ_RING_DESC_CHAIN_END :: u16 where "VQ_RING_DESC_CHAIN_END = 32768"
definition VIRTIO_RING_F_EVENT_IDX :: u32 where "VIRTIO_RING_F_EVENT_IDX = push_bit 29 1"
definition VRING_DESC_F_NEXT :: u16 where "VRING_DESC_F_NEXT = 1"
definition VRING_DESC_F_WRITE :: u16 where "VRING_DESC_F_WRITE = 2"
definition VRING_DESC_F_INDIRECT :: u16 where "VRING_DESC_F_INDIRECT = 4"
definition VRING_USED_F_NO_NOTIFY :: u16 where "VRING_USED_F_NO_NOTIFY = 1"
definition VRING_AVAIL_F_NO_INTERRUPT :: u16 where "VRING_AVAIL_F_NO_INTERRUPT = 1"

lemmas vq_codes = VQUEUE_SUCCESS_def VQ_ERROR_BASE_def ERROR_VRING_FULL_def ERROR_NO_MEM_def
  ERROR_VRING_ALIGN_def ERROR_VRING_NO_BUFF_def ERROR_VQUEUE_INVLD_PARAM_def

lemmas vq_flags = VRING_DESC_F_NEXT_def VRING_DESC_F_WRITE_def VRING_DESC_F_INDIRECT_def
  VRING_USED_F_NO_NOTIFY_def VRING_AVAIL_F_NO_INTERRUPT_def

text \<open>\<open>VQ_PARAM_CHK\<close>: the first condition that holds decides the status.\<close>

definition VQ_PARAM_CHK :: "bool \<Rightarrow> int \<Rightarrow> int \<Rightarrow> int" where
  "VQ_PARAM_CHK condition status err = (if status = 0 \<and> condition then err else status)"

definition VQUEUE_BUSY :: "virtqueue \<Rightarrow> virtqueue option" where
  "VQUEUE_BUSY vq = (if \<not> vq_inuse vq then Some (vq\<lparr>vq_inuse := True\<rparr>) else None)"

definition VQUEUE_IDLE :: "virtqueue \<Rightarrow> virtqueue" where
  "VQUEUE_IDLE vq = vq\<lparr>vq_inuse := False\<rparr>"

subsection \<open>Layout of the ring (virtio\_ring.h)\<close>

text \<open>\<open>size\<close> is an \<open>int\<close> that every statement of the function truncates again.\<close>

definition vring_size :: "u32 \<Rightarrow> u64 \<Rightarrow> int" where
  "vring_size num align =
     (let s = int_of_ulong (ucast num * 16);
          s = int_of_ulong (of_int s + (4 + ucast num * 2 + 2));
          s = int_of_ulong ((of_int s + align - 1) AND NOT (align - 1));
          s = int_of_ulong (of_int s + (4 + ucast num * 8 + 2))
      in s)"

text \<open>The addresses of the descriptor table, the available ring and the used ring.\<close>

definition vring_layout :: "u32 \<Rightarrow> u64 \<Rightarrow> u64 \<Rightarrow> u64 \<times> u64 \<times> u64" where
  "vring_layout num p align =
     (let desc = p;
          avail = p + ucast num * 16;
          used = (avail + 4 + ucast num * 2 + 2 + align - 1) AND NOT (align - 1)
      in (desc, avail, used))"

definition vring_need_event :: "u16 \<Rightarrow> u16 \<Rightarrow> u16 \<Rightarrow> bool" where
  "vring_need_event event_idx new_idx old \<longleftrightarrow> new_idx - event_idx - 1 < new_idx - old"

subsection \<open>Internal operations\<close>

definition virtqueue_phys_to_virt :: "virtqueue \<Rightarrow> u64 \<Rightarrow> u64 option" where
  "virtqueue_phys_to_virt vq phys = metal_io_phys_to_virt (vq_shm_io vq) phys"

definition virtqueue_virt_to_phys :: "virtqueue \<Rightarrow> u64 \<Rightarrow> u64 option" where
  "virtqueue_virt_to_phys vq buf = metal_io_virt_to_phys (vq_shm_io vq) buf"

text \<open>The loop of \<open>vq_ring_init\<close> for the driver side: \<open>desc[i].next = i + 1\<close>, last one the end mark.\<close>

fun init_chain :: "nat \<Rightarrow> nat \<Rightarrow> vring_desc list \<Rightarrow> vring_desc list option" where
  "init_chain i 0 ds = None"
| "init_chain i (Suc 0) ds = do {
     d \<leftarrow> get_at ds i;
     set_at ds i (d\<lparr>d_next := VQ_RING_DESC_CHAIN_END\<rparr>) }"
| "init_chain i (Suc (Suc m)) ds = do {
     d \<leftarrow> get_at ds i;
     ds \<leftarrow> set_at ds i (d\<lparr>d_next := of_nat (i + 1)\<rparr>);
     init_chain (i + 1) (Suc m) ds }"

definition vq_ring_init :: "virtqueue \<Rightarrow> vring \<Rightarrow> vring option" where
  "vq_ring_init vq vr =
     (case vq_role vq of
        VIRTIO_DEV_MASTER \<Rightarrow> do {
          ds \<leftarrow> init_chain 0 (unat (vq_nentries vq)) (vr_desc vr);
          Some (vr\<lparr>vr_desc := ds\<rparr>) }
      | VIRTIO_DEV_SLAVE \<Rightarrow> Some vr)"

definition vq_ring_update_avail :: "virtqueue \<Rightarrow> vring \<Rightarrow> u16 \<Rightarrow> (virtqueue \<times> vring) option" where
  "vq_ring_update_avail vq vr desc_idx = do {
     let i = avail_idx vr AND (vq_nentries vq - 1);
     ar \<leftarrow> set_at (avail_ring vr) (unat i) desc_idx;
     Some (vq\<lparr>vq_queued_cnt := vq_queued_cnt vq + 1\<rparr>,
           vr\<lparr>avail_ring := ar, avail_idx := avail_idx vr + 1\<rparr>) }"

text \<open>
  The loop of \<open>vq_ring_add_buffer\<close>: \<open>i\<close> descriptors are filled, \<open>bufs\<close> is the rest of the
  buffer list; the result is the index after the last one used and the table.
\<close>

fun vq_ring_add_loop ::
  "virtqueue \<Rightarrow> int \<Rightarrow> nat \<Rightarrow> nat \<Rightarrow> u16 \<Rightarrow> virtqueue_buf list \<Rightarrow> vring_desc list \<Rightarrow>
     (u16 \<times> vring_desc list) option" where
  "vq_ring_add_loop vq readable i 0 idx bufs ds = Some (idx, ds)"
| "vq_ring_add_loop vq readable i (Suc left) idx bufs ds = do {
     check (idx \<noteq> VQ_RING_DESC_CHAIN_END);
     dp \<leftarrow> get_at ds (unat idx);
     b \<leftarrow> get_at bufs i;
     pa \<leftarrow> virtqueue_virt_to_phys vq (vb_buf b);
     let dp = dp\<lparr>d_addr := pa, d_len := of_int (vb_len b),
       d_flags := (if 0 < left then VRING_DESC_F_NEXT else 0) OR
                  (if readable \<le> int i then VRING_DESC_F_WRITE else 0)\<rparr>;
     ds \<leftarrow> set_at ds (unat idx) dp;
     vq_ring_add_loop vq readable (i + 1) left (d_next dp) bufs ds }"

definition vq_ring_add_buffer ::
  "virtqueue \<Rightarrow> vring_desc list \<Rightarrow> u16 \<Rightarrow> virtqueue_buf list \<Rightarrow> int \<Rightarrow> int \<Rightarrow>
     (u16 \<times> vring_desc list) option" where
  "vq_ring_add_buffer vq desc head_idx buf_list readable writable =
     vq_ring_add_loop vq readable 0 (nat (readable + writable)) head_idx buf_list desc"

text \<open>The walk of \<open>vq_ring_free_chain\<close> along the chain; it does not end on a cyclic one.\<close>

partial_function (option) free_chain_walk ::
  "virtqueue \<Rightarrow> vring_desc list \<Rightarrow> u16 \<Rightarrow> u16 \<Rightarrow> (u16 \<times> u16) option" where
  "free_chain_walk vq ds i nd =
     Option.bind (get_at ds (unat i)) (\<lambda>dp.
       if d_flags dp AND VRING_DESC_F_NEXT \<noteq> 0
       then Option.bind (check (d_next dp < vq_nentries vq))
              (\<lambda>_. free_chain_walk vq ds (d_next dp) (nd - 1))
       else Some (i, nd))"

declare free_chain_walk.simps [code]

definition vq_ring_free_chain :: "virtqueue \<Rightarrow> vring \<Rightarrow> u16 \<Rightarrow> (virtqueue \<times> vring) option" where
  "vq_ring_free_chain vq vr desc_idx = do {
     check (desc_idx < vq_nentries vq);
     dp \<leftarrow> get_at (vr_desc vr) (unat desc_idx);
     dxp \<leftarrow> get_at (vq_descx vq) (unat desc_idx);
     check (vq_free_cnt vq = 0 \<longrightarrow> vq_desc_head_idx vq = VQ_RING_DESC_CHAIN_END);
     let vq = vq\<lparr>vq_free_cnt := vq_free_cnt vq + x_ndescs dxp\<rparr>;
     let nd = x_ndescs dxp - 1;
     (last, nd) \<leftarrow> (if d_flags dp AND VRING_DESC_F_INDIRECT = 0
                    then free_chain_walk vq (vr_desc vr) desc_idx nd
                    else Some (desc_idx, nd));
     check (nd = 0);
     dx \<leftarrow> set_at (vq_descx vq) (unat desc_idx) (dxp\<lparr>x_ndescs := nd\<rparr>);
     dl \<leftarrow> get_at (vr_desc vr) (unat last);
     ds \<leftarrow> set_at (vr_desc vr) (unat last) (dl\<lparr>d_next := vq_desc_head_idx vq\<rparr>);
     Some (vq\<lparr>vq_descx := dx, vq_desc_head_idx := desc_idx\<rparr>, vr\<lparr>vr_desc := ds\<rparr>) }"

definition virtqueue_nused :: "virtqueue \<Rightarrow> vring \<Rightarrow> u16 option" where
  "virtqueue_nused vq vr = do {
     let nused = used_idx vr - vq_used_cons_idx vq;
     check (nused \<le> vq_nentries vq);
     Some nused }"

definition virtqueue_navail :: "virtqueue \<Rightarrow> vring \<Rightarrow> u16 option" where
  "virtqueue_navail vq vr = do {
     let navail = avail_idx vr - vq_available_idx vq;
     check (navail \<le> vq_nentries vq);
     Some navail }"

definition event_idx_on :: "virtqueue \<Rightarrow> bool" where
  "event_idx_on vq \<longleftrightarrow> vq_features vq AND VIRTIO_RING_F_EVENT_IDX \<noteq> 0"

definition vq_ring_enable_interrupt :: "virtqueue \<Rightarrow> vring \<Rightarrow> u16 \<Rightarrow> (bool \<times> vring) option" where
  "vq_ring_enable_interrupt vq vr ndesc = do {
     let vr = (if event_idx_on vq then
                 (case vq_role vq of
                    VIRTIO_DEV_MASTER \<Rightarrow> vr\<lparr>vr_used_event := vq_used_cons_idx vq + ndesc\<rparr>
                  | VIRTIO_DEV_SLAVE \<Rightarrow> vr\<lparr>vr_avail_event := vq_available_idx vq + ndesc\<rparr>)
               else
                 (case vq_role vq of
                    VIRTIO_DEV_MASTER \<Rightarrow>
                      vr\<lparr>avail_flags := avail_flags vr AND NOT VRING_AVAIL_F_NO_INTERRUPT\<rparr>
                  | VIRTIO_DEV_SLAVE \<Rightarrow>
                      vr\<lparr>used_flags := used_flags vr AND NOT VRING_USED_F_NO_NOTIFY\<rparr>));
     pending \<leftarrow> (case vq_role vq of
                   VIRTIO_DEV_MASTER \<Rightarrow> virtqueue_nused vq vr
                 | VIRTIO_DEV_SLAVE \<Rightarrow> virtqueue_navail vq vr);
     Some (ndesc < pending, vr) }"

definition vq_ring_must_notify :: "virtqueue \<Rightarrow> vring \<Rightarrow> bool" where
  "vq_ring_must_notify vq vr =
     (if event_idx_on vq then
        (case vq_role vq of
           VIRTIO_DEV_MASTER \<Rightarrow>
             vring_need_event (vr_avail_event vr) (avail_idx vr) (avail_idx vr - vq_queued_cnt vq)
         | VIRTIO_DEV_SLAVE \<Rightarrow>
             vring_need_event (vr_used_event vr) (used_idx vr) (used_idx vr - vq_queued_cnt vq))
      else
        (case vq_role vq of
           VIRTIO_DEV_MASTER \<Rightarrow> used_flags vr AND VRING_USED_F_NO_NOTIFY = 0
         | VIRTIO_DEV_SLAVE \<Rightarrow> avail_flags vr AND VRING_AVAIL_F_NO_INTERRUPT = 0))"

subsection \<open>The interface\<close>

text \<open>
  \<open>virtqueue_create\<close> fills a queue the caller has allocated and zeroed
  (\<open>virtqueue_allocate\<close>); \<open>vr\<close> is the ring memory at the address given, laid out by
  \<open>vring_layout\<close>.
\<close>

definition virtqueue_allocate :: "vdev_role \<Rightarrow> u32 \<Rightarrow> io_region \<Rightarrow> nat \<Rightarrow> virtqueue" where
  "virtqueue_allocate role features io num_desc_extra =
     \<lparr>vq_role = role, vq_features = features, vq_queue_index = 0, vq_nentries = 0,
      vq_callback = None, vq_notify = None, vq_free_cnt = 0, vq_queued_cnt = 0, vq_shm_io = io,
      vq_desc_head_idx = 0, vq_used_cons_idx = 0, vq_available_idx = 0, vq_inuse = False,
      vq_descx = replicate num_desc_extra \<lparr>x_cookie = 0, x_ndescs = 0\<rparr>\<rparr>"

definition virtqueue_create ::
  "u16 \<Rightarrow> vring_alloc_info option \<Rightarrow> nat option \<Rightarrow> nat option \<Rightarrow> virtqueue option \<Rightarrow> vring \<Rightarrow>
     (int \<times> virtqueue option \<times> vring) option" where
  "virtqueue_create qid ring callback notify vq vr =
     (let status = VQUEUE_SUCCESS;
          status = VQ_PARAM_CHK (ring = None) status ERROR_VQUEUE_INVLD_PARAM;
          n = (case ring of Some r \<Rightarrow> vi_num_descs r | None \<Rightarrow> 0);
          status = VQ_PARAM_CHK (n = 0) status ERROR_VQUEUE_INVLD_PARAM;
          status = VQ_PARAM_CHK (n AND (n - 1) \<noteq> 0) status ERROR_VRING_ALIGN;
          status = VQ_PARAM_CHK (vq = None) status ERROR_NO_MEM
      in case vq of
           Some v \<Rightarrow>
             if status = VQUEUE_SUCCESS then do {
               let v = v\<lparr>vq_queue_index := qid, vq_nentries := n, vq_free_cnt := n,
                         vq_callback := callback, vq_notify := notify\<rparr>;
               vr \<leftarrow> vq_ring_init v vr;
               Some (status, Some v, vr) }
             else Some (status, vq, vr)
         | None \<Rightarrow> Some (status, vq, vr))"

definition virtqueue_add_buffer ::
  "virtqueue \<Rightarrow> vring \<Rightarrow> virtqueue_buf list \<Rightarrow> int \<Rightarrow> int \<Rightarrow> u64 \<Rightarrow>
     (int \<times> virtqueue \<times> vring) option" where
  "virtqueue_add_buffer vq vr buf_list readable writable cookie = do {
     let needed = readable + writable;
     let status = VQ_PARAM_CHK (needed < 1) VQUEUE_SUCCESS ERROR_VQUEUE_INVLD_PARAM;
     let status = VQ_PARAM_CHK (vq_free_cnt vq = 0) status ERROR_VRING_FULL;
     vq \<leftarrow> VQUEUE_BUSY vq;
     (vq, vr) \<leftarrow>
       (if status = VQUEUE_SUCCESS then do {
          check (cookie \<noteq> 0);
          let head_idx = vq_desc_head_idx vq;
          check (head_idx < vq_nentries vq);
          dxp \<leftarrow> get_at (vq_descx vq) (unat head_idx);
          check (x_cookie dxp = 0);
          dx \<leftarrow> set_at (vq_descx vq) (unat head_idx) \<lparr>x_cookie = cookie, x_ndescs = of_int needed\<rparr>;
          let vq = vq\<lparr>vq_descx := dx\<rparr>;
          (idx, ds) \<leftarrow> vq_ring_add_buffer vq (vr_desc vr) head_idx buf_list readable writable;
          let vq = vq\<lparr>vq_desc_head_idx := idx, vq_free_cnt := vq_free_cnt vq - of_int needed\<rparr>;
          check (if vq_free_cnt vq = 0 then vq_desc_head_idx vq = VQ_RING_DESC_CHAIN_END
                 else idx < vq_nentries vq);
          vq_ring_update_avail vq (vr\<lparr>vr_desc := ds\<rparr>) head_idx }
        else Some (vq, vr));
     Some (status, VQUEUE_IDLE vq, vr) }"

text \<open>The result \<open>None\<close> inside is the null pointer; \<open>len\<close> and \<open>idx\<close> are then not written.\<close>

definition virtqueue_get_buffer ::
  "virtqueue \<Rightarrow> vring \<Rightarrow> ((u64 \<times> u32 \<times> u16) option \<times> virtqueue \<times> vring) option" where
  "virtqueue_get_buffer vq vr =
     (if vq_used_cons_idx vq = used_idx vr then Some (None, vq, vr)
      else do {
        vq \<leftarrow> VQUEUE_BUSY vq;
        let slot = vq_used_cons_idx vq AND (vq_nentries vq - 1);
        let vq = vq\<lparr>vq_used_cons_idx := vq_used_cons_idx vq + 1\<rparr>;
        uep \<leftarrow> get_at (used_ring vr) (unat slot);
        let desc_idx = ucast (ue_id uep);
        (vq, vr) \<leftarrow> vq_ring_free_chain vq vr desc_idx;
        dxp \<leftarrow> get_at (vq_descx vq) (unat desc_idx);
        dx \<leftarrow> set_at (vq_descx vq) (unat desc_idx) (dxp\<lparr>x_cookie := 0\<rparr>);
        Some (Some (x_cookie dxp, ue_len uep, slot), VQUEUE_IDLE (vq\<lparr>vq_descx := dx\<rparr>), vr) })"

definition virtqueue_get_buffer_length :: "virtqueue \<Rightarrow> vring \<Rightarrow> u16 \<Rightarrow> u32 option" where
  "virtqueue_get_buffer_length vq vr idx = do {
     d \<leftarrow> get_at (vr_desc vr) (unat idx);
     Some (d_len d) }"

definition virtqueue_get_available_buffer ::
  "virtqueue \<Rightarrow> vring \<Rightarrow> ((u64 \<times> u16 \<times> u32) option \<times> virtqueue) option" where
  "virtqueue_get_available_buffer vq vr =
     (if vq_available_idx vq = avail_idx vr then Some (None, vq)
      else do {
        vq \<leftarrow> VQUEUE_BUSY vq;
        let head_idx = vq_available_idx vq AND (vq_nentries vq - 1);
        let vq = vq\<lparr>vq_available_idx := vq_available_idx vq + 1\<rparr>;
        ai \<leftarrow> get_at (avail_ring vr) (unat head_idx);
        d \<leftarrow> get_at (vr_desc vr) (unat ai);
        buffer \<leftarrow> virtqueue_phys_to_virt vq (d_addr d);
        Some (Some (buffer, ai, d_len d), VQUEUE_IDLE vq) })"

definition virtqueue_add_consumed_buffer ::
  "virtqueue \<Rightarrow> vring \<Rightarrow> u16 \<Rightarrow> u32 \<Rightarrow> (int \<times> virtqueue \<times> vring) option" where
  "virtqueue_add_consumed_buffer vq vr head_idx len =
     (if vq_nentries vq < head_idx then Some (ERROR_VRING_NO_BUFF, vq, vr)
      else do {
        vq \<leftarrow> VQUEUE_BUSY vq;
        let slot = used_idx vr AND (vq_nentries vq - 1);
        ur \<leftarrow> set_at (used_ring vr) (unat slot) \<lparr>ue_id = ucast head_idx, ue_len = len\<rparr>;
        let vr = vr\<lparr>used_ring := ur, used_idx := used_idx vr + 1\<rparr>;
        let vq = vq\<lparr>vq_queued_cnt := vq_queued_cnt vq + 1\<rparr>;
        Some (VQUEUE_SUCCESS, VQUEUE_IDLE vq, vr) })"

definition virtqueue_enable_cb :: "virtqueue \<Rightarrow> vring \<Rightarrow> (bool \<times> vring) option" where
  "virtqueue_enable_cb vq vr = vq_ring_enable_interrupt vq vr 0"

definition virtqueue_disable_cb :: "virtqueue \<Rightarrow> vring \<Rightarrow> (virtqueue \<times> vring) option" where
  "virtqueue_disable_cb vq vr = do {
     vq \<leftarrow> VQUEUE_BUSY vq;
     let vr = (if event_idx_on vq then
                 (case vq_role vq of
                    VIRTIO_DEV_MASTER \<Rightarrow>
                      vr\<lparr>vr_used_event := vq_used_cons_idx vq - vq_nentries vq - 1\<rparr>
                  | VIRTIO_DEV_SLAVE \<Rightarrow>
                      vr\<lparr>vr_avail_event := vq_available_idx vq - vq_nentries vq - 1\<rparr>)
               else
                 (case vq_role vq of
                    VIRTIO_DEV_MASTER \<Rightarrow>
                      vr\<lparr>avail_flags := avail_flags vr OR VRING_AVAIL_F_NO_INTERRUPT\<rparr>
                  | VIRTIO_DEV_SLAVE \<Rightarrow>
                      vr\<lparr>used_flags := used_flags vr OR VRING_USED_F_NO_NOTIFY\<rparr>));
     Some (VQUEUE_IDLE vq, vr) }"

text \<open>The Boolean is whether the notify function of the queue is called.\<close>

definition virtqueue_kick :: "virtqueue \<Rightarrow> vring \<Rightarrow> (bool \<times> virtqueue) option" where
  "virtqueue_kick vq vr = do {
     vq \<leftarrow> VQUEUE_BUSY vq;
     let notified = (vq_ring_must_notify vq vr \<and> vq_notify vq \<noteq> None);
     Some (notified, VQUEUE_IDLE (vq\<lparr>vq_queued_cnt := 0\<rparr>)) }"

definition virtqueue_get_desc_size :: "virtqueue \<Rightarrow> vring \<Rightarrow> (u32 \<times> virtqueue) option" where
  "virtqueue_get_desc_size vq vr =
     (if vq_available_idx vq = avail_idx vr then Some (0, vq)
      else do {
        vq \<leftarrow> VQUEUE_BUSY vq;
        ai \<leftarrow> get_at (avail_ring vr) (unat (vq_available_idx vq AND (vq_nentries vq - 1)));
        d \<leftarrow> get_at (vr_desc vr) (unat ai);
        Some (d_len d, VQUEUE_IDLE vq) })"

text \<open>Whether the callback of the queue runs.\<close>

definition virtqueue_notification :: "virtqueue \<Rightarrow> nat option" where
  "virtqueue_notification vq = vq_callback vq"

end
