(* ===== verification/Virtqueue_Driver.thy ===== *)
theory Virtqueue_Driver
  imports Virtqueue
begin

text \<open>
  The driver side (\<open>VIRTIO_DEV_MASTER\<close>) of a virtqueue: the invariant that ties the free
  descriptor chain, the chains in flight and the cookies together, and what
  \<open>virtqueue_create\<close>, \<open>virtqueue_add_buffer\<close> and \<open>virtqueue_get_buffer\<close> do to them. The
  invariant has two ghost arguments: the free chain in order, and the chains in flight.
\<close>

subsection \<open>Chains of descriptors\<close>

text \<open>Following \<open>next\<close> from \<open>x\<close> visits the descriptors of the list and arrives at \<open>y\<close>.\<close>

fun next_chain :: "vring_desc list \<Rightarrow> u16 \<Rightarrow> u16 list \<Rightarrow> u16 \<Rightarrow> bool" where
  "next_chain ds x [] y \<longleftrightarrow> x = y"
| "next_chain ds x (i # is) y \<longleftrightarrow>
     x = i \<and> unat i < length ds \<and> next_chain ds (d_next (ds ! unat i)) is y"

text \<open>A chain handed to the device: the \<open>NEXT\<close> flags link it, the last one is unflagged.\<close>

fun busy_chain :: "vring_desc list \<Rightarrow> u16 list \<Rightarrow> bool" where
  "busy_chain ds [] \<longleftrightarrow> False"
| "busy_chain ds [i] \<longleftrightarrow> unat i < length ds \<and> d_flags (ds ! unat i) AND VRING_DESC_F_INDIRECT = 0 \<and>
     d_flags (ds ! unat i) AND VRING_DESC_F_NEXT = 0"
| "busy_chain ds (i # j # is) \<longleftrightarrow> unat i < length ds \<and>
     d_flags (ds ! unat i) AND VRING_DESC_F_INDIRECT = 0 \<and>
     d_flags (ds ! unat i) AND VRING_DESC_F_NEXT \<noteq> 0 \<and>
     d_next (ds ! unat i) = j \<and> busy_chain ds (j # is)"

lemma busy_chain_not_Nil: "busy_chain ds c \<Longrightarrow> c \<noteq> []"
  by auto

lemma next_chain_cong:
  "length ds' = length ds \<Longrightarrow> (\<And>j. j \<in> set is \<Longrightarrow> d_next (ds' ! unat j) = d_next (ds ! unat j)) \<Longrightarrow>
     next_chain ds' x is y \<longleftrightarrow> next_chain ds x is y"
  by (induction "is" arbitrary: x) auto

lemma busy_chain_cong:
  "length ds' = length ds \<Longrightarrow> (\<And>j. j \<in> set c \<Longrightarrow> ds' ! unat j = ds ! unat j) \<Longrightarrow>
     busy_chain ds' c \<longleftrightarrow> busy_chain ds c"
  by (induction ds c rule: busy_chain.induct) auto

lemma next_chain_append:
  "next_chain ds x (is @ js) y \<longleftrightarrow> (\<exists>z. next_chain ds x is z \<and> next_chain ds z js y)"
  by (induction "is" arbitrary: x) auto

lemma next_chain_head: "next_chain ds x is y \<Longrightarrow> x = (if is = [] then y else hd is)"
  by (cases "is") auto

lemma next_chain_indices: "next_chain ds x is y \<Longrightarrow> i \<in> set is \<Longrightarrow> unat i < length ds"
  by (induction "is" arbitrary: x) auto

lemma nth_list_update_unat:
  "unat i < length xs \<Longrightarrow> xs[unat i := v] ! unat j = (if j = i then v else xs ! unat j)"
  by (auto simp: nth_list_update dest: unsigned_word_eqI)

lemma busy_chain_links:
  "busy_chain ds c \<Longrightarrow> distinct c \<Longrightarrow> length ds' = length ds \<Longrightarrow>
     (\<And>j. j \<in> set c \<Longrightarrow> j \<noteq> last c \<Longrightarrow> d_next (ds' ! unat j) = d_next (ds ! unat j)) \<Longrightarrow>
     next_chain ds' (hd c) c (d_next (ds' ! unat (last c)))"
proof (induction ds c rule: busy_chain.induct)
  case (3 ds i j "is")
  have "i \<noteq> last (j # is)" using 3(3) last_in_set [of "j # is"] by auto
  moreover have "next_chain ds' j (j # is) (d_next (ds' ! unat (last (j # is))))"
    using 3 by simp
  ultimately show ?case using 3 by simp
qed simp_all

text \<open>Giving the last descriptor of a busy chain \<open>next := h\<close> prepends it to the free chain.\<close>

lemma busy_chain_to_free:
  assumes "busy_chain ds c" "distinct (c @ free)" "next_chain ds h free y"
  shows "next_chain (ds[unat (last c) := (ds ! unat (last c))\<lparr>d_next := h\<rparr>]) (hd c) (c @ free) y"
proof -
  let ?ds = "ds[unat (last c) := (ds ! unat (last c))\<lparr>d_next := h\<rparr>]"
  have "last c \<in> set c" using assms(1) busy_chain_not_Nil last_in_set by blast
  have lastlt: "unat (last c) < length ds"
    using assms(1) by (induction ds c rule: busy_chain.induct) auto
  have "next_chain ?ds h free y"
    using assms(2,3) \<open>last c \<in> set c\<close> lastlt
    by (subst next_chain_cong) (auto simp: nth_list_update_unat)
  moreover have "next_chain ?ds (hd c) c (d_next (?ds ! unat (last c)))"
    using assms(1,2) lastlt by (intro busy_chain_links) (auto simp: nth_list_update_unat)
  ultimately show ?thesis using lastlt by (auto simp: next_chain_append)
qed

lemma free_chain_walk_busy:
  "busy_chain ds c \<Longrightarrow> (\<And>i. i \<in> set c \<Longrightarrow> i < vq_nentries vq) \<Longrightarrow>
     free_chain_walk vq ds (hd c) nd = Some (last c, nd - of_nat (length c - 1))"
proof (induction ds c arbitrary: nd rule: busy_chain.induct)
  case (2 ds i)
  then show ?case by (simp add: free_chain_walk.simps [of vq ds i])
next
  case (3 ds i j "is")
  then have "free_chain_walk vq ds j (nd - 1) = Some (last (j # is), nd - 1 - of_nat (length is))"
    by simp
  with 3 show ?case
    by (simp add: free_chain_walk.simps [of vq ds i] algebra_simps)
qed simp

subsection \<open>Filling descriptors from the free chain\<close>

text \<open>The \<open>k\<close>-th buffer of a request has a physical address, and the descriptor says so.\<close>

definition desc_of_buf :: "virtqueue \<Rightarrow> int \<Rightarrow> nat \<Rightarrow> virtqueue_buf \<Rightarrow> vring_desc \<Rightarrow> bool" where
  "desc_of_buf vq readable k b d \<longleftrightarrow>
     virtqueue_virt_to_phys vq (vb_buf b) = Some (d_addr d) \<and> d_len d = of_int (vb_len b) \<and>
     (d_flags d AND VRING_DESC_F_WRITE \<noteq> 0 \<longleftrightarrow> readable \<le> int k)"

definition bufs_mapped :: "virtqueue \<Rightarrow> virtqueue_buf list \<Rightarrow> bool" where
  "bufs_mapped vq bufs \<longleftrightarrow> (\<forall>b \<in> set bufs. virtqueue_virt_to_phys vq (vb_buf b) \<noteq> None)"

lemma add_loop_spec:
  assumes "next_chain ds idx (xs @ ys) VQ_RING_DESC_CHAIN_END" "distinct (xs @ ys)"
    "VQ_RING_DESC_CHAIN_END \<notin> set xs" "bufs_mapped vq bufs" "i + length xs \<le> length bufs"
  shows "\<exists>idx' ds'. vq_ring_add_loop vq readable i (length xs) idx bufs ds = Some (idx', ds') \<and>
    length ds' = length ds \<and> next_chain ds' idx' ys VQ_RING_DESC_CHAIN_END \<and>
    (xs \<noteq> [] \<longrightarrow> busy_chain ds' xs) \<and>
    (\<forall>j. j \<notin> set xs \<longrightarrow> ds' ! unat j = ds ! unat j) \<and>
    (\<forall>k < length xs. desc_of_buf vq readable (i + k) (bufs ! (i + k)) (ds' ! unat (xs ! k)))"
  using assms
proof (induction xs arbitrary: i idx ds)
  case Nil
  then show ?case by simp
next
  case (Cons x xs)
  then have x: "idx = x" "unat x < length ds" "x \<noteq> VQ_RING_DESC_CHAIN_END" "x \<notin> set (xs @ ys)"
    and rest: "next_chain ds (d_next (ds ! unat x)) (xs @ ys) VQ_RING_DESC_CHAIN_END"
    by auto
  have i: "i < length bufs" using Cons.prems(5) by simp
  have "virtqueue_virt_to_phys vq (vb_buf (bufs ! i)) \<noteq> None"
    using Cons.prems(4) nth_mem [OF i] unfolding bufs_mapped_def by blast
  then obtain pa where pa: "virtqueue_virt_to_phys vq (vb_buf (bufs ! i)) = Some pa"
    by blast
  define fl where "fl = (if 0 < length xs then VRING_DESC_F_NEXT else 0) OR
    (if readable \<le> int i then VRING_DESC_F_WRITE else 0)"
  define dp where "dp = (ds ! unat x)\<lparr>d_addr := pa, d_len := of_int (vb_len (bufs ! i)), d_flags := fl\<rparr>"
  define ds1 where "ds1 = ds[unat x := dp]"
  have fl: "fl AND VRING_DESC_F_INDIRECT = 0" "fl AND VRING_DESC_F_NEXT \<noteq> 0 \<longleftrightarrow> xs \<noteq> []"
    "fl AND VRING_DESC_F_WRITE \<noteq> 0 \<longleftrightarrow> readable \<le> int i"
    by (auto simp: fl_def vq_flags)
  have step: "vq_ring_add_loop vq readable i (length (x # xs)) idx bufs ds =
      vq_ring_add_loop vq readable (i + 1) (length xs) (d_next (ds ! unat x)) bufs ds1"
    using x i pa by (simp add: Let_def dp_def ds1_def fl_def)
  have "next_chain ds1 (d_next (ds ! unat x)) (xs @ ys) VQ_RING_DESC_CHAIN_END"
    using rest x(2,4) by (subst next_chain_cong) (auto simp: ds1_def nth_list_update_unat)
  then obtain idx' ds' where ih: "vq_ring_add_loop vq readable (i + 1) (length xs)
      (d_next (ds ! unat x)) bufs ds1 = Some (idx', ds')"
    "length ds' = length ds1" "next_chain ds' idx' ys VQ_RING_DESC_CHAIN_END"
    "xs \<noteq> [] \<longrightarrow> busy_chain ds' xs" "\<forall>j. j \<notin> set xs \<longrightarrow> ds' ! unat j = ds1 ! unat j"
    "\<forall>k < length xs. desc_of_buf vq readable (i + 1 + k) (bufs ! (i + 1 + k)) (ds' ! unat (xs ! k))"
    using Cons.IH [of ds1 "d_next (ds ! unat x)" "i + 1"] Cons.prems by auto
  have dx: "ds' ! unat x = dp"
    using ih(5) x(2,4) by (simp add: ds1_def)
  have "busy_chain ds' (x # xs)"
  proof (cases xs)
    case Nil
    then show ?thesis using dx fl ih(2) x(2) by (simp add: dp_def ds1_def)
  next
    case (Cons y zs)
    then show ?thesis
      using dx fl ih(2,4) x(2) rest by (simp add: dp_def ds1_def)
  qed
  moreover have "desc_of_buf vq readable (i + k) (bufs ! (i + k)) (ds' ! unat ((x # xs) ! k))"
    if "k < length (x # xs)" for k
    using that ih(6) dx pa fl(3) by (cases k) (auto simp: desc_of_buf_def dp_def)
  moreover have "ds' ! unat j = ds ! unat j" if "j \<notin> set (x # xs)" for j
    using that ih(5) x(2) by (simp add: ds1_def nth_list_update_unat)
  ultimately show ?case
    using step ih(1-3) by (auto simp: ds1_def)
qed

subsection \<open>The invariant\<close>

definition ring_shape :: "virtqueue \<Rightarrow> vring \<Rightarrow> bool" where
  "ring_shape vq vr \<longleftrightarrow> (\<exists>k. unat (vq_nentries vq) = 2 ^ k) \<and>
     length (vr_desc vr) = unat (vq_nentries vq) \<and>
     length (avail_ring vr) = unat (vq_nentries vq) \<and>
     length (used_ring vr) = unat (vq_nentries vq)"

definition drv_inv :: "virtqueue \<Rightarrow> vring \<Rightarrow> u16 list \<Rightarrow> u16 list list \<Rightarrow> bool" where
  "drv_inv vq vr free infl \<longleftrightarrow> ring_shape vq vr \<and> \<not> vq_inuse vq \<and>
     length (vq_descx vq) = unat (vq_nentries vq) \<and>
     next_chain (vr_desc vr) (vq_desc_head_idx vq) free VQ_RING_DESC_CHAIN_END \<and>
     unat (vq_free_cnt vq) = length free \<and>
     distinct (free @ concat infl) \<and> set (free @ concat infl) = {i. i < vq_nentries vq} \<and>
     (\<forall>c \<in> set infl. busy_chain (vr_desc vr) c \<and>
        x_cookie (vq_descx vq ! unat (hd c)) \<noteq> 0 \<and>
        x_ndescs (vq_descx vq ! unat (hd c)) = of_nat (length c)) \<and>
     (\<forall>i < vq_nentries vq. i \<notin> hd ` set infl \<longrightarrow> x_cookie (vq_descx vq ! unat i) = 0)"

lemma ring_shape_le: "ring_shape vq vr \<Longrightarrow> unat (vq_nentries vq) \<le> 2 ^ 15"
proof -
  assume "ring_shape vq vr"
  then obtain k where k: "unat (vq_nentries vq) = 2 ^ k" by (auto simp: ring_shape_def)
  then have "k < 16" using unat_two_power(1) [of "vq_nentries vq" k] by simp
  then show ?thesis using k power_increasing [of k 15 "2::nat"] by simp
qed

lemma ring_shape_ring_ok: "ring_shape vq vr \<Longrightarrow> ring_size_ok (unat (vq_nentries vq))"
  using ring_size_ok_power by (auto simp: ring_shape_def)

lemma ring_shape_mask:
  "ring_shape vq vr \<Longrightarrow> unat (i AND (vq_nentries vq - 1)) = unat i mod unat (vq_nentries vq)"
  using unat_and_mask_mod by (auto simp: ring_shape_def)

lemma ring_shape_slot:
  "ring_shape vq vr \<Longrightarrow> unat i mod unat (vq_nentries vq) < unat (vq_nentries vq)"
  using ring_size_okD(1) [OF ring_shape_ring_ok] by simp

lemma chain_end_not_index:
  "ring_shape vq vr \<Longrightarrow> \<not> VQ_RING_DESC_CHAIN_END < vq_nentries vq"
  using ring_shape_le [of vq vr] by (auto simp: VQ_RING_DESC_CHAIN_END_def word_less_nat_alt)

text \<open>Free descriptors and descriptors in flight are together all of them.\<close>

lemma drv_inv_count:
  assumes "drv_inv vq vr free infl"
  shows "length free + length (concat infl) = unat (vq_nentries vq)"
proof -
  have "length (free @ concat infl) = card {i. i < vq_nentries vq}"
    using assms distinct_card [of "free @ concat infl"] by (auto simp: drv_inv_def)
  then show ?thesis by (simp add: card_words_below)
qed

lemma drv_inv_indices:
  assumes "drv_inv vq vr free infl" "i \<in> set free \<or> i \<in> set (concat infl)"
  shows "i < vq_nentries vq" "unat i < unat (vq_nentries vq)" "i \<noteq> VQ_RING_DESC_CHAIN_END"
proof -
  show "i < vq_nentries vq" using assms unfolding drv_inv_def by auto
  then show "unat i < unat (vq_nentries vq)" "i \<noteq> VQ_RING_DESC_CHAIN_END"
    using assms(1) chain_end_not_index by (auto simp: drv_inv_def word_less_nat_alt)
qed

subsection \<open>Creating the queue\<close>

lemma init_chain_spec:
  "0 < m \<Longrightarrow> i + m = length ds \<Longrightarrow> length ds \<le> 2 ^ 15 \<Longrightarrow>
     \<exists>ds'. init_chain i m ds = Some ds' \<and> length ds' = length ds \<and> take i ds' = take i ds \<and>
       next_chain ds' (of_nat i) (map of_nat [i..<i + m]) VQ_RING_DESC_CHAIN_END"
proof (induction m arbitrary: i ds)
  case (Suc m)
  show ?case
  proof (cases m)
    case 0
    with Suc.prems have "[i..<length ds] = [i]" by (simp add: upt_rec)
    with 0 Suc.prems show ?thesis by (auto simp: unat_of_nat_lt)
  next
    case m: (Suc m')
    define ds1 where "ds1 = ds[i := (ds ! i)\<lparr>d_next := of_nat (i + 1)\<rparr>]"
    have len: "i + 1 + m = length ds1" "length ds1 \<le> 2 ^ 15" "0 < m"
      using Suc.prems m by (simp_all add: ds1_def)
    obtain ds' where ds': "init_chain (i + 1) m ds1 = Some ds'" "length ds' = length ds1"
      "take (i + 1) ds' = take (i + 1) ds1"
      "next_chain ds' (of_nat (i + 1)) (map of_nat [i + 1..<i + 1 + m]) VQ_RING_DESC_CHAIN_END"
      using Suc.IH [OF len(3,1,2)] by blast
    have "init_chain i (Suc m) ds = Some ds'"
      using ds'(1) Suc.prems m by (simp add: ds1_def)
    moreover have "ds' ! i = ds1 ! i" using ds'(3) by (metis less_add_one nth_take)
    moreover have "take i ds' = take i ds"
      using arg_cong [OF ds'(3), of "take i"] by (simp add: ds1_def min_def)
    moreover have "[i..<i + Suc m] = i # [i + 1..<i + 1 + m]" by (simp add: upt_conv_Cons)
    ultimately show ?thesis
      using ds'(2,4) Suc.prems by (simp add: ds1_def unat_of_nat_lt del: upt_Suc)
  qed
qed simp

text \<open>
  A zeroed queue with as many cookie slots as descriptors, on a ring of a power of two of
  them: after \<open>virtqueue_create\<close> all descriptors are free, in order.
\<close>

lemma create_drv_inv:
  assumes "unat (vi_num_descs ring) = 2 ^ k" "vq_role vq = VIRTIO_DEV_MASTER" "\<not> vq_inuse vq"
    and "vq_desc_head_idx vq = 0"
    and "length (vq_descx vq) = 2 ^ k" "\<forall>x \<in> set (vq_descx vq). x_cookie x = 0"
    and "length (vr_desc vr) = 2 ^ k" "length (avail_ring vr) = 2 ^ k" "length (used_ring vr) = 2 ^ k"
  shows "\<exists>vq' vr'. virtqueue_create qid (Some ring) cb nf (Some vq) vr =
      Some (VQUEUE_SUCCESS, Some vq', vr') \<and>
      drv_inv vq' vr' (map of_nat [0..<2 ^ k]) [] \<and>
      vq_used_cons_idx vq' = vq_used_cons_idx vq \<and> vq_role vq' = VIRTIO_DEV_MASTER"
proof -
  let ?n = "vi_num_descs ring"
  have le: "(2::nat) ^ k \<le> 2 ^ 15"
    using unat_two_power(1) [OF assms(1)] by (intro power_increasing) simp_all
  have n0: "?n \<noteq> 0" using assms(1) by (metis power_not_zero unat_0 zero_neq_numeral)
  have "unat (?n AND (?n - 1)) = 0"
    using unat_and_mask_mod [OF assms(1)] assms(1) by simp
  then have mask: "?n AND (?n - 1) = 0" by (simp only: unat_eq_0)
  obtain ds' where ds': "init_chain 0 (2 ^ k) (vr_desc vr) = Some ds'" "length ds' = 2 ^ k"
    "next_chain ds' 0 (map of_nat [0..<2 ^ k]) VQ_RING_DESC_CHAIN_END"
    using init_chain_spec [of "2 ^ k" 0 "vr_desc vr"] assms(7) le by auto
  have "distinct (map (of_nat :: nat \<Rightarrow> u16) [0..<2 ^ k])"
    using distinct_words_upt [of ?n] assms(1) by simp
  moreover have "set (map (of_nat :: nat \<Rightarrow> u16) [0..<2 ^ k]) = {i. i < ?n}"
    using set_words_upt [of ?n] assms(1) by simp
  moreover have "x_cookie (vq_descx vq ! j) = 0" if "j < 2 ^ k" for j
    using that assms(5,6) by (metis nth_mem)
  ultimately have "drv_inv (vq\<lparr>vq_queue_index := qid, vq_nentries := ?n, vq_free_cnt := ?n,
      vq_callback := cb, vq_notify := nf\<rparr>) (vr\<lparr>vr_desc := ds'\<rparr>) (map of_nat [0..<2 ^ k]) []"
    using assms ds' by (auto simp: drv_inv_def ring_shape_def word_less_nat_alt)
  then show ?thesis
    using assms ds' n0 mask
    by (simp add: virtqueue_create_def VQ_PARAM_CHK_def VQUEUE_SUCCESS_def vq_ring_init_def Let_def)
qed

subsection \<open>Adding a buffer\<close>

lemma virt_to_phys_frame [simp]:
  "virtqueue_virt_to_phys (vq\<lparr>vq_descx := dx\<rparr>) = virtqueue_virt_to_phys vq"
  "virtqueue_virt_to_phys (vq\<lparr>vq_inuse := b\<rparr>) = virtqueue_virt_to_phys vq"
  by (simp_all add: virtqueue_virt_to_phys_def fun_eq_iff)

lemma bufs_mapped_frame [simp]:
  "bufs_mapped (vq\<lparr>vq_descx := dx\<rparr>) = bufs_mapped vq"
  "bufs_mapped (vq\<lparr>vq_inuse := b\<rparr>) = bufs_mapped vq"
  by (simp_all add: bufs_mapped_def fun_eq_iff)

lemma desc_of_buf_frame [simp]:
  "desc_of_buf (vq\<lparr>vq_descx := dx\<rparr>) = desc_of_buf vq"
  "desc_of_buf (vq\<lparr>vq_inuse := b\<rparr>) = desc_of_buf vq"
  by (simp_all add: desc_of_buf_def fun_eq_iff)

text \<open>
  What a successful \<open>virtqueue_add_buffer\<close> leaves behind: the first \<open>k\<close> free descriptors are
  a chain in flight that describes the buffers, its head is published in the available ring
  and carries the cookie, and nothing else has changed.
\<close>

definition added ::
  "virtqueue \<Rightarrow> vring \<Rightarrow> u16 list \<Rightarrow> nat \<Rightarrow> virtqueue_buf list \<Rightarrow> int \<Rightarrow> u64 \<Rightarrow> virtqueue \<Rightarrow> vring \<Rightarrow> bool"
  where
  "added vq vr c k bufs readable cookie vq' vr' \<longleftrightarrow>
     length c = k \<and> c \<noteq> [] \<and>
     vq' = vq\<lparr>vq_desc_head_idx := vq_desc_head_idx vq', vq_free_cnt := vq_free_cnt vq - of_nat k,
              vq_queued_cnt := vq_queued_cnt vq + 1,
              vq_descx := (vq_descx vq)[unat (hd c) := \<lparr>x_cookie = cookie, x_ndescs = of_nat k\<rparr>]\<rparr> \<and>
     vr' = vr\<lparr>vr_desc := vr_desc vr', avail_idx := avail_idx vr + 1,
              avail_ring := (avail_ring vr)[unat (avail_idx vr) mod unat (vq_nentries vq) := hd c]\<rparr> \<and>
     (\<forall>j. j \<notin> set c \<longrightarrow> vr_desc vr' ! unat j = vr_desc vr ! unat j) \<and>
     (\<forall>i < k. desc_of_buf vq readable i (bufs ! i) (vr_desc vr' ! unat (c ! i)))"

lemma add_buffer_spec:
  assumes inv: "drv_inv vq vr free infl"
    and k: "readable + writable = int k" "0 < k" "k \<le> length free"
    and cookie: "cookie \<noteq> 0" and bufs: "bufs_mapped vq bufs" "k \<le> length bufs"
  shows "\<exists>vq' vr'. virtqueue_add_buffer vq vr bufs readable writable cookie =
      Some (VQUEUE_SUCCESS, vq', vr') \<and>
      drv_inv vq' vr' (drop k free) (infl @ [take k free]) \<and>
      added vq vr (take k free) k bufs readable cookie vq' vr'"
proof -
  note inv' = inv [unfolded drv_inv_def]
  define h where "h = vq_desc_head_idx vq"
  define vqc where "vqc = vq\<lparr>vq_inuse := True, vq_descx :=
    (vq_descx vq)[unat h := \<lparr>x_cookie = cookie, x_ndescs = of_nat k\<rparr>]\<rparr>"
  obtain x xs where free: "free = x # xs" using k(2,3) by (cases free) auto
  have hx: "h = x" "hd (take k free) = h"
    using inv' k(2) by (auto simp: h_def free dest: next_chain_head)
  note idx = drv_inv_indices [OF inv]
  have hlt: "h < vq_nentries vq" "unat h < unat (vq_nentries vq)"
    using idx [of h] hx(1) free by auto
  have "h \<notin> hd ` set infl"
  proof
    assume "h \<in> hd ` set infl"
    then obtain c where c: "c \<in> set infl" "h = hd c" by auto
    then have "hd c \<in> set c" using inv' busy_chain_not_Nil by (intro hd_in_set) blast
    then have "h \<in> set (concat infl)" using c by auto
    then show False using inv' hx(1) free by auto
  qed
  then have ck0: "x_cookie (vq_descx vq ! unat h) = 0" using inv' hlt(1) by blast
  have fl: "free = take k free @ drop k free" by simp
  have add: "next_chain (vr_desc vr) h (take k free @ drop k free) VQ_RING_DESC_CHAIN_END"
    "distinct (take k free @ drop k free)" "VQ_RING_DESC_CHAIN_END \<notin> set (take k free)"
    "bufs_mapped vqc bufs" "0 + length (take k free) \<le> length bufs"
    using inv' bufs k(3) idx(3) [of VQ_RING_DESC_CHAIN_END]
    by (simp_all add: h_def vqc_def) (blast dest: in_set_takeD)
  obtain idx' ds' where ds': "vq_ring_add_loop vqc readable 0 k h bufs (vr_desc vr) = Some (idx', ds')"
    "length ds' = length (vr_desc vr)" "next_chain ds' idx' (drop k free) VQ_RING_DESC_CHAIN_END"
    "busy_chain ds' (take k free)" "\<forall>j. j \<notin> set (take k free) \<longrightarrow> ds' ! unat j = vr_desc vr ! unat j"
    "\<forall>i < k. desc_of_buf vq readable i (bufs ! i) (ds' ! unat (take k free ! i))"
  proof -
    have "desc_of_buf vqc = desc_of_buf vq" by (simp add: vqc_def)
    moreover have "take k free \<noteq> []" "length (take k free) = k" using k(2,3) by auto
    ultimately show ?thesis
      using add_loop_spec [OF add, of readable] that by (simp del: nth_take take_eq_Nil) blast
  qed
  define vq' where "vq' = vq\<lparr>vq_desc_head_idx := idx', vq_free_cnt := vq_free_cnt vq - of_nat k,
    vq_queued_cnt := vq_queued_cnt vq + 1,
    vq_descx := (vq_descx vq)[unat h := \<lparr>x_cookie = cookie, x_ndescs = of_nat k\<rparr>]\<rparr>"
  define vr' where "vr' = vr\<lparr>vr_desc := ds', avail_idx := avail_idx vr + 1,
    avail_ring := (avail_ring vr)[unat (avail_idx vr) mod unat (vq_nentries vq) := h]\<rparr>"
  have kn: "k < 2 ^ 16"
    using k(3) inv' unsigned_less [of "vq_free_cnt vq", where ?'a = nat] by simp
  have fc: "unat (vq_free_cnt vq - of_nat k) = length free - k"
    using inv' k(3) kn by (simp add: unat_sub_le word_le_nat_alt unat_of_nat_lt)
  have end_or_idx: "if vq_free_cnt vq - of_nat k = 0 then idx' = VQ_RING_DESC_CHAIN_END else idx' < vq_nentries vq"
  proof (cases "drop k free = []")
    case True
    then have "vq_free_cnt vq - of_nat k = 0" using fc k(3) by (simp flip: unat_eq_0)
    then show ?thesis using next_chain_head [OF ds'(3)] True by simp
  next
    case False
    then have "idx' \<in> set (drop k free)" using next_chain_head [OF ds'(3)] by simp
    moreover have "vq_free_cnt vq - of_nat k \<noteq> 0" using fc False by (auto simp flip: unat_eq_0)
    ultimately show ?thesis using idx(1) [of idx'] by (auto dest: in_set_dropD)
  qed
  have fcnz: "vq_free_cnt vq \<noteq> 0" using inv' k by (auto simp flip: unat_eq_0)
  have slot: "unat (avail_idx vr) mod unat (vq_nentries vq) < length (avail_ring vr)"
    "unat (avail_idx vr AND (vq_nentries vq - 1)) = unat (avail_idx vr) mod unat (vq_nentries vq)"
    using inv' ring_shape_slot ring_shape_mask by (auto simp: ring_shape_def)
  have run: "virtqueue_add_buffer vq vr bufs readable writable cookie = Some (VQUEUE_SUCCESS, vq', vr')"
    using inv' k(1,2) cookie ck0 hlt fcnz ds'(1) end_or_idx slot
    by (simp add: virtqueue_add_buffer_def VQ_PARAM_CHK_def VQUEUE_SUCCESS_def VQUEUE_BUSY_def
        vq_ring_add_buffer_def vq_ring_update_avail_def VQUEUE_IDLE_def Let_def
        h_def [symmetric] vqc_def [symmetric])
      (auto simp: vqc_def vq'_def vr'_def split: if_splits)
  have old: "busy_chain ds' c \<and> unat (hd c) < unat (vq_nentries vq) \<and> hd c \<noteq> h" if "c \<in> set infl" for c
  proof -
    have c: "busy_chain (vr_desc vr) c" "hd c \<in> set c"
      using inv' that busy_chain_not_Nil hd_in_set by blast+
    then have sub: "set c \<subseteq> set (concat infl)" using that by auto
    then have dis: "set c \<inter> set free = {}" using inv' by auto
    have "busy_chain ds' c"
      using c(1) ds'(2,5) dis by (subst busy_chain_cong [of _ "vr_desc vr"]) (auto dest: in_set_takeD)
    then show ?thesis using idx(2) [of "hd c"] sub c(2) dis hx(1) free by auto
  qed
  have hl: "unat h < length (vq_descx vq)" using inv' hlt by simp
  have inv'': "drv_inv vq' vr' (drop k free) (infl @ [take k free])"
  proof -
    have perm: "distinct (drop k free @ concat infl @ take k free)"
      "set (drop k free @ concat infl @ take k free) = set (free @ concat infl)"
    proof -
      have "distinct ((take k free @ drop k free) @ concat infl)" using inv' by simp
      then show "distinct (drop k free @ concat infl @ take k free)"
        unfolding distinct_append set_append by blast
      have "set free = set (take k free @ drop k free)" by simp
      then show "set (drop k free @ concat infl @ take k free) = set (free @ concat infl)"
        by (auto simp del: append_take_drop_id)
    qed
    have shape: "ring_shape vq' vr'" using inv' ds'(2) by (simp add: ring_shape_def vq'_def vr'_def)
    have chains: "\<forall>c \<in> set (infl @ [take k free]). busy_chain ds' c \<and>
        x_cookie (vq_descx vq' ! unat (hd c)) \<noteq> 0 \<and>
        x_ndescs (vq_descx vq' ! unat (hd c)) = of_nat (length c)"
      using old inv' ds'(4) hx(2) hl cookie k(3)
      by (auto simp: vq'_def nth_list_update_unat min_def)
    have cookies: "\<forall>i < vq_nentries vq. i \<notin> hd ` set (infl @ [take k free]) \<longrightarrow>
        x_cookie (vq_descx vq' ! unat i) = 0"
      using inv' hx(2) hl by (auto simp: vq'_def nth_list_update_unat)
    show ?thesis
      using shape chains cookies perm inv' ds'(3) fc
      unfolding drv_inv_def by (simp add: vq'_def vr'_def)
  qed
  have "added vq vr (take k free) k bufs readable cookie vq' vr'"
    using hx(2) ds'(5,6) k(2,3) free by (auto simp: added_def vq'_def vr'_def min_def)
  with inv'' run show ?thesis by blast
qed

subsection \<open>Getting a buffer back\<close>

lemma drv_inv_chain:
  assumes "drv_inv vq vr free infl" "c \<in> set infl"
  shows "busy_chain (vr_desc vr) c" "hd c \<in> set c" "distinct (c @ free)" "i \<in> set c \<Longrightarrow> i < vq_nentries vq"
    "length free + length c \<le> unat (vq_nentries vq)"
proof -
  show b: "busy_chain (vr_desc vr) c" using assms by (simp add: drv_inv_def)
  then show "hd c \<in> set c" using busy_chain_not_Nil by (intro hd_in_set) blast
  obtain l1 l2 where "infl = l1 @ c # l2" using split_list [OF assms(2)] by blast
  then show "distinct (c @ free)" "length free + length c \<le> unat (vq_nentries vq)"
    using assms(1) drv_inv_count [OF assms(1)] by (auto simp: drv_inv_def)
  show "i \<in> set c \<Longrightarrow> i < vq_nentries vq"
    using drv_inv_indices(1) [OF assms(1)] assms(2) by auto
qed

lemma free_chain_spec:
  assumes inv: "drv_inv vq vr free infl" and c: "c \<in> set infl"
  shows "vq_ring_free_chain (vq\<lparr>vq_inuse := u, vq_used_cons_idx := ci\<rparr>) vr (hd c) =
    Some (vq\<lparr>vq_inuse := u, vq_used_cons_idx := ci, vq_free_cnt := vq_free_cnt vq + of_nat (length c),
             vq_desc_head_idx := hd c,
             vq_descx := (vq_descx vq)[unat (hd c) := (vq_descx vq ! unat (hd c))\<lparr>x_ndescs := 0\<rparr>]\<rparr>,
          vr\<lparr>vr_desc := (vr_desc vr)[unat (last c) :=
             (vr_desc vr ! unat (last c))\<lparr>d_next := vq_desc_head_idx vq\<rparr>]\<rparr>)"
proof -
  note inv' = inv [unfolded drv_inv_def] and ch = drv_inv_chain [OF inv c]
  have hd: "hd c < vq_nentries vq" "unat (hd c) < unat (vq_nentries vq)"
    using ch(2,4) by (simp_all add: word_less_nat_alt)
  have nd: "x_ndescs (vq_descx vq ! unat (hd c)) = of_nat (length c)" using inv' c by blast
  have ne: "c \<noteq> []" using ch(1) busy_chain_not_Nil by blast
  then have "last c \<in> set c" by simp
  then have lt: "unat (last c) < unat (vq_nentries vq)"
    using ch(4) by (simp add: word_less_nat_alt)
  have walk: "free_chain_walk (vq\<lparr>vq_inuse := u, vq_used_cons_idx := ci, vq_free_cnt := fc\<rparr>)
      (vr_desc vr) (hd c) (of_nat (length c) - 1) = Some (last c, 0)" for fc
  proof -
    have one: "(of_nat (length c) :: u16) - 1 - of_nat (length c - 1) = 0" using ne by (cases c) auto
    show ?thesis
      by (subst free_chain_walk_busy [OF ch(1)]) (use ch(4) one in auto)
  qed
  have ind: "d_flags (vr_desc vr ! unat (hd c)) AND VRING_DESC_F_INDIRECT = 0"
    using ch(1) by (induction "vr_desc vr" c rule: busy_chain.induct) auto
  have "vq_desc_head_idx vq = VQ_RING_DESC_CHAIN_END" if "vq_free_cnt vq = 0"
    using that inv' by auto
  then show ?thesis
    using inv' hd lt nd walk ind
    by (simp add: vq_ring_free_chain_def Let_def ring_shape_def)
qed

definition got ::
  "virtqueue \<Rightarrow> vring \<Rightarrow> u16 list \<Rightarrow> virtqueue \<Rightarrow> vring \<Rightarrow> bool" where
  "got vq vr c vq' vr' \<longleftrightarrow>
     vq' = vq\<lparr>vq_desc_head_idx := hd c, vq_free_cnt := vq_free_cnt vq + of_nat (length c),
              vq_used_cons_idx := vq_used_cons_idx vq + 1, vq_descx := vq_descx vq'\<rparr> \<and>
     vr' = vr\<lparr>vr_desc := vr_desc vr'\<rparr> \<and>
     (\<forall>j. j \<notin> set c \<longrightarrow> vr_desc vr' ! unat j = vr_desc vr ! unat j) \<and>
     (\<forall>j. j \<noteq> hd c \<longrightarrow> vq_descx vq' ! unat j = vq_descx vq ! unat j)"

lemma descx_set: "(d :: vq_desc_extra)\<lparr>x_ndescs := n, x_cookie := ck\<rparr> = \<lparr>x_cookie = ck, x_ndescs = n\<rparr>"
  by (cases d) simp

lemma get_buffer_spec:
  assumes inv: "drv_inv vq vr free (l1 @ c # l2)"
    and used: "vq_used_cons_idx vq \<noteq> used_idx vr"
      "used_ring vr ! (unat (vq_used_cons_idx vq) mod unat (vq_nentries vq)) = \<lparr>ue_id = ucast (hd c), ue_len = len\<rparr>"
  shows "\<exists>vq' vr'. virtqueue_get_buffer vq vr =
      Some (Some (x_cookie (vq_descx vq ! unat (hd c)), len,
                  vq_used_cons_idx vq AND (vq_nentries vq - 1)), vq', vr') \<and>
      drv_inv vq' vr' (c @ free) (l1 @ l2) \<and> got vq vr c vq' vr'"
proof -
  note inv' = inv [unfolded drv_inv_def]
  have cin: "c \<in> set (l1 @ c # l2)" by simp
  note ch = drv_inv_chain [OF inv cin]
  define h where "h = hd c"
  define ck where "ck = x_cookie (vq_descx vq ! unat h)"
  define dx where "dx = (vq_descx vq)[unat h := \<lparr>x_cookie = 0, x_ndescs = 0\<rparr>]"
  define ds where "ds = (vr_desc vr)[unat (last c) := (vr_desc vr ! unat (last c))\<lparr>d_next := vq_desc_head_idx vq\<rparr>]"
  define vq' where "vq' = vq\<lparr>vq_desc_head_idx := h, vq_free_cnt := vq_free_cnt vq + of_nat (length c),
    vq_used_cons_idx := vq_used_cons_idx vq + 1, vq_descx := dx\<rparr>"
  define vr' where "vr' = vr\<lparr>vr_desc := ds\<rparr>"
  have hin: "h \<in> set c" and lin: "last c \<in> set c"
    using ch(1,2) busy_chain_not_Nil by (auto simp: h_def intro!: last_in_set)
  have hl: "unat h < length (vq_descx vq)" and ll: "unat (last c) < length (vr_desc vr)"
    using ch(4) hin lin inv' by (auto simp: ring_shape_def word_less_nat_alt)
  have slot: "unat (vq_used_cons_idx vq AND (vq_nentries vq - 1)) =
      unat (vq_used_cons_idx vq) mod unat (vq_nentries vq)"
    "unat (vq_used_cons_idx vq) mod unat (vq_nentries vq) < length (used_ring vr)"
    using inv' ring_shape_slot ring_shape_mask by (auto simp: ring_shape_def)
  have idle: "\<not> vq_inuse vq" using inv' by blast
  note fcs = free_chain_spec [OF inv cin, folded h_def]
  note used = used [folded h_def]
  have run: "virtqueue_get_buffer vq vr =
      Some (Some (ck, len, vq_used_cons_idx vq AND (vq_nentries vq - 1)), vq', vr')"
    using used slot idle hl fcs
    by (simp add: virtqueue_get_buffer_def VQUEUE_BUSY_def VQUEUE_IDLE_def Let_def
        ck_def vq'_def vr'_def dx_def ds_def descx_set)
  have dis: "set c \<inter> set free = {}" "\<And>b. b \<in> set (l1 @ l2) \<Longrightarrow> set b \<inter> set c = {}"
    using inv' by auto
  have old: "busy_chain ds b \<and> hd b \<noteq> h" if "b \<in> set (l1 @ l2)" for b
  proof -
    have b: "busy_chain (vr_desc vr) b" "hd b \<in> set b"
      using that drv_inv_chain [OF inv, of b] by auto
    have "last c \<notin> set b" "hd b \<noteq> h" using dis(2) [OF that] lin hin b(2) by auto
    then show ?thesis
      using b(1) ll by (subst busy_chain_cong [of _ "vr_desc vr"]) (auto simp: ds_def nth_list_update_unat)
  qed
  have "drv_inv vq' vr' (c @ free) (l1 @ l2)"
  proof -
    have perm: "distinct ((c @ free) @ concat (l1 @ l2))"
      "set ((c @ free) @ concat (l1 @ l2)) = set (free @ concat (l1 @ c # l2))"
    proof -
      have "distinct (free @ concat l1 @ c @ concat l2)" using inv' by simp
      then show "distinct ((c @ free) @ concat (l1 @ l2))"
        unfolding concat_append distinct_append set_append by blast
    qed auto
    have free: "next_chain ds h (c @ free) VQ_RING_DESC_CHAIN_END"
      unfolding ds_def h_def using ch(1,3) inv' by (intro busy_chain_to_free) auto
    have cnt: "unat (vq_free_cnt vq + of_nat (length c)) = length c + length free"
      using ch(5) inv' ring_shape_le [of vq vr] by (subst unat_add_lt) (simp_all add: unat_of_nat_lt)
    have chains: "\<forall>b \<in> set (l1 @ l2). busy_chain ds b \<and> x_cookie (dx ! unat (hd b)) \<noteq> 0 \<and>
        x_ndescs (dx ! unat (hd b)) = of_nat (length b)"
      using old inv' hl by (auto simp: dx_def nth_list_update_unat)
    have cookies: "\<forall>i < vq_nentries vq. i \<notin> hd ` set (l1 @ l2) \<longrightarrow> x_cookie (dx ! unat i) = 0"
      using inv' hl h_def by (auto simp: dx_def nth_list_update_unat)
    have shape: "ring_shape vq' vr'" using inv' by (simp add: ring_shape_def vq'_def vr'_def ds_def)
    show ?thesis
      unfolding drv_inv_def perm(2)
      using shape chains cookies perm(1) inv' free cnt by (simp add: vq'_def vr'_def dx_def)
  qed
  moreover have "got vq vr c vq' vr'"
    using hl ll lin by (auto simp: got_def vq'_def vr'_def dx_def ds_def h_def nth_list_update_unat)
  ultimately show ?thesis using run by (auto simp: ck_def h_def)
qed

subsection \<open>Refused requests\<close>

lemma add_buffer_errors:
  assumes "\<not> vq_inuse vq"
  shows "readable + writable < 1 \<Longrightarrow>
      virtqueue_add_buffer vq vr bufs readable writable cookie = Some (ERROR_VQUEUE_INVLD_PARAM, vq, vr)"
    and "1 \<le> readable + writable \<Longrightarrow> vq_free_cnt vq = 0 \<Longrightarrow>
      virtqueue_add_buffer vq vr bufs readable writable cookie = Some (ERROR_VRING_FULL, vq, vr)"
  using assms
  by (simp_all add: virtqueue_add_buffer_def VQ_PARAM_CHK_def VQUEUE_BUSY_def VQUEUE_IDLE_def vq_codes Let_def)

end
