(* ===== verification/Fifo.thy ===== *)
theory Fifo
  imports Prelude
begin

text \<open>
  The contract of a first-in first-out buffer, as the two rings of a virtqueue, the stream
  buffers and the queues of the kernel promise it to their users. \<open>contents\<close> is the queue
  that a representation stands for, oldest item first; \<open>put\<close> has no result when the
  representation cannot take the item, \<open>get\<close> none when there is nothing to take.
\<close>

datatype 'x fifo_op = Put 'x | Get

fun fifo_inputs :: "'x fifo_op list \<Rightarrow> 'x list" where
  "fifo_inputs [] = []"
| "fifo_inputs (Put x # ops) = x # fifo_inputs ops"
| "fifo_inputs (Get # ops) = fifo_inputs ops"

text \<open>Runs a sequence of operations; a \<open>Get\<close> of an empty buffer takes nothing.\<close>

fun fifo_run ::
  "('s \<Rightarrow> 'x \<Rightarrow> 's option) \<Rightarrow> ('s \<Rightarrow> ('x \<times> 's) option) \<Rightarrow> 's \<Rightarrow> 'x fifo_op list \<Rightarrow> ('x list \<times> 's) option"
  where
  "fifo_run put get s [] = Some ([], s)"
| "fifo_run put get s (Put x # ops) =
     Option.bind (put s x) (\<lambda>s'. fifo_run put get s' ops)"
| "fifo_run put get s (Get # ops) =
     (case get s of
        None \<Rightarrow> fifo_run put get s ops
      | Some (x, s') \<Rightarrow> map_option (\<lambda>(out, t). (x # out, t)) (fifo_run put get s' ops))"

locale fifo =
  fixes ok :: "'s \<Rightarrow> bool"
    and contents :: "'s \<Rightarrow> 'x list"
    and room :: "'s \<Rightarrow> nat"
    and item :: "'x \<Rightarrow> bool"
    and put :: "'s \<Rightarrow> 'x \<Rightarrow> 's option"
    and get :: "'s \<Rightarrow> ('x \<times> 's) option"
  assumes put_ok: "ok s \<Longrightarrow> item x \<Longrightarrow> put s x = Some s' \<Longrightarrow>
      ok s' \<and> contents s' = contents s @ [x] \<and> room s' = room s - 1"
    and put_room: "ok s \<Longrightarrow> item x \<Longrightarrow> 0 < room s \<Longrightarrow> put s x \<noteq> None"
    and get_empty: "ok s \<Longrightarrow> get s = None \<longleftrightarrow> contents s = []"
    and get_ok: "ok s \<Longrightarrow> get s = Some (x, s') \<Longrightarrow>
      ok s' \<and> contents s = x # contents s' \<and> room s' = room s + 1"
begin

lemma get_front: "ok s \<Longrightarrow> contents s = x # xs \<Longrightarrow> \<exists>s'. get s = Some (x, s') \<and> ok s' \<and> contents s' = xs"
  using get_empty [of s] get_ok [of s] by (cases "get s") auto

text \<open>Nothing is lost, duplicated or reordered by any run of the operations.\<close>

lemma run_order:
  "ok s \<Longrightarrow> (\<forall>x \<in> set (fifo_inputs ops). item x) \<Longrightarrow> fifo_run put get s ops = Some (out, t) \<Longrightarrow>
     ok t \<and> contents s @ fifo_inputs ops = out @ contents t"
proof (induction ops arbitrary: s out)
  case (Cons op ops)
  show ?case
  proof (cases op)
    case (Put x)
    with Cons.prems obtain s' where "put s x = Some s'" "fifo_run put get s' ops = Some (out, t)"
      by (auto simp: bind_eq_Some_conv)
    with Cons.IH [of s' out] put_ok [of s x s'] Cons.prems Put show ?thesis by simp
  next
    case Get
    show ?thesis
    proof (cases "get s")
      case None
      with Cons.IH [of s out] Cons.prems Get show ?thesis by simp
    next
      case (Some p)
      obtain x s' where p: "p = (x, s')" by fastforce
      with Some Cons.prems Get obtain out' where "fifo_run put get s' ops = Some (out', t)" "out = x # out'"
        by auto
      with Cons.IH [of s' out'] get_ok [of s x s'] Some p Cons.prems Get show ?thesis by simp
    qed
  qed
qed simp

text \<open>A run that puts no more than there is room for at its start is completed.\<close>

lemma run_total:
  "ok s \<Longrightarrow> (\<forall>x \<in> set (fifo_inputs ops). item x) \<Longrightarrow> length (fifo_inputs ops) \<le> room s \<Longrightarrow>
     \<exists>out t. fifo_run put get s ops = Some (out, t)"
proof (induction ops arbitrary: s)
  case (Cons op ops)
  show ?case
  proof (cases op)
    case (Put x)
    with Cons.prems put_room [of s x] obtain s' where s': "put s x = Some s'" by auto
    with put_ok [of s x s'] Cons.prems Put have "ok s'" "length (fifo_inputs ops) \<le> room s'" by auto
    with Cons.IH [of s'] Cons.prems Put s' show ?thesis by auto
  next
    case Get
    show ?thesis
    proof (cases "get s")
      case None
      with Cons.IH [of s] Cons.prems Get show ?thesis by simp
    next
      case (Some p)
      obtain x s' where p: "p = (x, s')" by fastforce
      with get_ok [of s x s'] Some Cons.prems Get have "ok s'" "length (fifo_inputs ops) \<le> room s'"
        by auto
      with Cons.IH [of s'] Cons.prems Get Some p show ?thesis by auto
    qed
  qed
qed simp

end

end
