(* ===== verification/Virtqueue_Protocol.thy ===== *)
theory Virtqueue_Protocol
  imports Virtqueue_Driver Fifo "HOL-Library.Multiset"
begin

text \<open>
  The two sides of a virtqueue working on one ring: the steps each side may take, the
  specification they implement together (a queue of posted buffers, the buffers the device
  holds, a queue of returned ones) and the simulation between them.
\<close>

record vq_sys =
  s_drv :: virtqueue
  s_dev :: virtqueue
  s_vr :: vring
  s_held :: "u16 list"

subsection \<open>Specification\<close>

text \<open>Chains are known by their head: posted ones with the device's view of their first buffer.\<close>

record vq_abs =
  a_avail :: "(u16 \<times> u64 \<times> u32) list"
  a_held :: "u16 list"
  a_used :: "(u16 \<times> u32) list"
  a_cookie :: "u16 \<Rightarrow> u64"

datatype vq_event =
    DrvAdd u64 u64 u32
  | DevGet u64 u16 u32
  | DevPut u16 u32
  | DrvGet u64 u32
  | Quiet

definition a_heads :: "vq_abs \<Rightarrow> u16 list" where
  "a_heads a = map fst (a_avail a) @ a_held a @ map fst (a_used a)"

inductive abs_step :: "vq_abs \<Rightarrow> vq_event \<Rightarrow> vq_abs \<Rightarrow> bool" where
  a_add: "cookie \<noteq> 0 \<Longrightarrow> a_cookie a h = 0 \<Longrightarrow> h \<notin> set (a_heads a) \<Longrightarrow>
     abs_step a (DrvAdd cookie va len)
       (a\<lparr>a_avail := a_avail a @ [(h, va, len)], a_cookie := (a_cookie a)(h := cookie)\<rparr>)"
| a_dev_get: "a_avail a = (h, va, len) # rest \<Longrightarrow>
     abs_step a (DevGet va h len) (a\<lparr>a_avail := rest, a_held := a_held a @ [h]\<rparr>)"
| a_dev_put: "h \<in> set (a_held a) \<Longrightarrow>
     abs_step a (DevPut h len) (a\<lparr>a_held := remove1 h (a_held a), a_used := a_used a @ [(h, len)]\<rparr>)"
| a_drv_get: "a_used a = (h, len) # rest \<Longrightarrow> cookie = a_cookie a h \<Longrightarrow>
     abs_step a (DrvGet cookie len) (a\<lparr>a_used := rest, a_cookie := (a_cookie a)(h := 0)\<rparr>)"
| a_quiet: "abs_step a Quiet a"

inductive_cases abs_stepE: "abs_step a e a'"

subsection \<open>The steps of the two sides\<close>

definition in_region :: "virtqueue \<Rightarrow> virtqueue_buf \<Rightarrow> bool" where
  "in_region vq b \<longleftrightarrow> vb_buf b - io_virt (vq_shm_io vq) < io_size (vq_shm_io vq)"

text \<open>
  The driver posts buffers of the shared region, no more than there are free descriptors,
  under a cookie that is not null. The device returns what it holds. Both may switch
  notifications and kick at any time.
\<close>

inductive sys_step :: "vq_sys \<Rightarrow> vq_event \<Rightarrow> vq_sys \<Rightarrow> bool" where
  drv_add: "virtqueue_add_buffer (s_drv s) (s_vr s) bufs readable writable cookie = Some (VQUEUE_SUCCESS, vq, vr) \<Longrightarrow>
     \<forall>b \<in> set bufs. in_region (s_drv s) b \<Longrightarrow> cookie \<noteq> 0 \<Longrightarrow>
     readable + writable = int k \<Longrightarrow> 0 < k \<Longrightarrow> k \<le> length bufs \<Longrightarrow> k \<le> unat (vq_free_cnt (s_drv s)) \<Longrightarrow>
     sys_step s (DrvAdd cookie (vb_buf (hd bufs)) (of_int (vb_len (hd bufs)))) (s\<lparr>s_drv := vq, s_vr := vr\<rparr>)"
| drv_add_refused: "virtqueue_add_buffer (s_drv s) (s_vr s) bufs readable writable cookie = Some (st, vq, vr) \<Longrightarrow>
     readable + writable < 1 \<or> vq_free_cnt (s_drv s) = 0 \<Longrightarrow>
     sys_step s Quiet (s\<lparr>s_drv := vq, s_vr := vr\<rparr>)"
| drv_get: "virtqueue_get_buffer (s_drv s) (s_vr s) = Some (Some (cookie, len, slot), vq, vr) \<Longrightarrow>
     sys_step s (DrvGet cookie len) (s\<lparr>s_drv := vq, s_vr := vr\<rparr>)"
| drv_get_none: "virtqueue_get_buffer (s_drv s) (s_vr s) = Some (None, vq, vr) \<Longrightarrow>
     sys_step s Quiet (s\<lparr>s_drv := vq, s_vr := vr\<rparr>)"
| dev_get: "virtqueue_get_available_buffer (s_dev s) (s_vr s) = Some (Some (va, h, len), vq) \<Longrightarrow>
     sys_step s (DevGet va h len) (s\<lparr>s_dev := vq, s_held := s_held s @ [h]\<rparr>)"
| dev_get_none: "virtqueue_get_available_buffer (s_dev s) (s_vr s) = Some (None, vq) \<Longrightarrow>
     sys_step s Quiet (s\<lparr>s_dev := vq\<rparr>)"
| dev_put: "h \<in> set (s_held s) \<Longrightarrow>
     virtqueue_add_consumed_buffer (s_dev s) (s_vr s) h len = Some (VQUEUE_SUCCESS, vq, vr) \<Longrightarrow>
     sys_step s (DevPut h len) (s\<lparr>s_dev := vq, s_vr := vr, s_held := remove1 h (s_held s)\<rparr>)"
| drv_enable: "virtqueue_enable_cb (s_drv s) (s_vr s) = Some (b, vr) \<Longrightarrow> sys_step s Quiet (s\<lparr>s_vr := vr\<rparr>)"
| dev_enable: "virtqueue_enable_cb (s_dev s) (s_vr s) = Some (b, vr) \<Longrightarrow> sys_step s Quiet (s\<lparr>s_vr := vr\<rparr>)"
| drv_disable: "virtqueue_disable_cb (s_drv s) (s_vr s) = Some (vq, vr) \<Longrightarrow>
     sys_step s Quiet (s\<lparr>s_drv := vq, s_vr := vr\<rparr>)"
| dev_disable: "virtqueue_disable_cb (s_dev s) (s_vr s) = Some (vq, vr) \<Longrightarrow>
     sys_step s Quiet (s\<lparr>s_dev := vq, s_vr := vr\<rparr>)"
| drv_kick: "virtqueue_kick (s_drv s) (s_vr s) = Some (b, vq) \<Longrightarrow> sys_step s Quiet (s\<lparr>s_drv := vq\<rparr>)"
| dev_kick: "virtqueue_kick (s_dev s) (s_vr s) = Some (b, vq) \<Longrightarrow> sys_step s Quiet (s\<lparr>s_dev := vq\<rparr>)"

inductive sys_run :: "vq_sys \<Rightarrow> vq_event list \<Rightarrow> vq_sys \<Rightarrow> bool" where
  run_Nil: "sys_run s [] s"
| run_snoc: "sys_run s es t \<Longrightarrow> sys_step t e u \<Longrightarrow> sys_run s (es @ [e]) u"

inductive abs_run :: "vq_abs \<Rightarrow> vq_event list \<Rightarrow> vq_abs \<Rightarrow> bool" where
  arun_Nil: "abs_run a [] a"
| arun_snoc: "abs_run a es b \<Longrightarrow> abs_step b e c \<Longrightarrow> abs_run a (es @ [e]) c"

subsection \<open>Abstraction and invariant\<close>

definition avail_q :: "vq_sys \<Rightarrow> u16 list" where
  "avail_q s = ring_slice (unat (vq_nentries (s_drv s))) (avail_ring (s_vr s))
     (vq_available_idx (s_dev s)) (avail_idx (s_vr s))"

definition used_q :: "vq_sys \<Rightarrow> vring_used_elem list" where
  "used_q s = ring_slice (unat (vq_nentries (s_drv s))) (used_ring (s_vr s))
     (vq_used_cons_idx (s_drv s)) (used_idx (s_vr s))"

definition used_head :: "vring_used_elem \<Rightarrow> u16" where
  "used_head e = ucast (ue_id e)"

definition heads :: "vq_sys \<Rightarrow> u16 list" where
  "heads s = avail_q s @ s_held s @ map used_head (used_q s)"

definition dev_view :: "vq_sys \<Rightarrow> u16 \<Rightarrow> u16 \<times> u64 \<times> u32" where
  "dev_view s h = (let d = vr_desc (s_vr s) ! unat h in
     (h, the (virtqueue_phys_to_virt (s_dev s) (d_addr d)), d_len d))"

definition vq_abs_of :: "vq_sys \<Rightarrow> vq_abs" where
  "vq_abs_of s = \<lparr>a_avail = map (dev_view s) (avail_q s), a_held = s_held s,
     a_used = map (\<lambda>e. (used_head e, ue_len e)) (used_q s),
     a_cookie = (\<lambda>h. if h < vq_nentries (s_drv s) then x_cookie (vq_descx (s_drv s) ! unat h) else 0)\<rparr>"

definition sides_ok :: "virtqueue \<Rightarrow> virtqueue \<Rightarrow> bool" where
  "sides_ok drv dev \<longleftrightarrow> vq_role drv = VIRTIO_DEV_MASTER \<and> vq_role dev = VIRTIO_DEV_SLAVE \<and>
     \<not> vq_inuse drv \<and> \<not> vq_inuse dev \<and> vq_nentries dev = vq_nentries drv \<and> vq_shm_io dev = vq_shm_io drv \<and>
     region_ok (vq_shm_io drv) \<and> io_virt (vq_shm_io drv) \<noteq> METAL_BAD_VA"

definition sys_ok :: "vq_sys \<Rightarrow> u16 list \<Rightarrow> u16 list list \<Rightarrow> bool" where
  "sys_ok s free infl \<longleftrightarrow> drv_inv (s_drv s) (s_vr s) free infl \<and> sides_ok (s_drv s) (s_dev s) \<and>
     distinct (heads s) \<and> set (heads s) = hd ` set infl \<and>
     (\<forall>e \<in> set (used_q s). ue_id e = ucast (used_head e)) \<and>
     (\<forall>h \<in> set (heads s). virtqueue_phys_to_virt (s_dev s) (d_addr (vr_desc (s_vr s) ! unat h)) \<noteq> None)"

definition sys_inv :: "vq_sys \<Rightarrow> bool" where
  "sys_inv s \<longleftrightarrow> (\<exists>free infl. sys_ok s free infl)"

subsection \<open>The driver posts a buffer\<close>

lemma sys_ok_head:
  assumes "sys_ok s free infl" "h \<in> set (heads s)"
  shows "\<exists>c \<in> set infl. hd c = h" "h < vq_nentries (s_drv s)" "h \<notin> set free"
proof -
  show "\<exists>c \<in> set infl. hd c = h" using assms by (auto simp: sys_ok_def)
  then obtain c where c: "c \<in> set infl" "hd c = h" by blast
  have inv: "drv_inv (s_drv s) (s_vr s) free infl" using assms(1) by (simp add: sys_ok_def)
  note ch = drv_inv_chain [OF inv c(1)]
  show "h < vq_nentries (s_drv s)" "h \<notin> set free" using ch(2,3,4) c(2) by auto
qed

lemma sys_ok_room:
  assumes "sys_ok s free infl"
  shows "length (heads s) + length free \<le> unat (vq_nentries (s_drv s))"
proof -
  have "distinct (heads s @ free)"
    using assms sys_ok_head(3) [OF assms] by (auto simp: sys_ok_def drv_inv_def)
  moreover have "set (heads s @ free) \<subseteq> {i. i < vq_nentries (s_drv s)}"
    using sys_ok_head(2) [OF assms] drv_inv_indices(1) [of "s_drv s" "s_vr s" free infl] assms
    by (auto simp: sys_ok_def)
  ultimately show ?thesis
    using card_mono [of "{i. i < vq_nentries (s_drv s)}" "set (heads s @ free)"]
    by (simp add: distinct_card card_words_below flip: distinct_append set_append)
qed

lemma sys_ok_rings:
  assumes "sys_ok s free infl"
  shows "ring_size_ok (unat (vq_nentries (s_drv s)))"
    "length (avail_ring (s_vr s)) = unat (vq_nentries (s_drv s))"
    "length (used_ring (s_vr s)) = unat (vq_nentries (s_drv s))"
  using assms ring_shape_ring_ok by (auto simp: sys_ok_def drv_inv_def ring_shape_def)

lemma added_fields:
  assumes "added vq vr c k bufs readable cookie vq' vr'"
  shows "vq_nentries vq' = vq_nentries vq" "vq_role vq' = vq_role vq" "vq_shm_io vq' = vq_shm_io vq"
    "vq_used_cons_idx vq' = vq_used_cons_idx vq" "vq_inuse vq' = vq_inuse vq"
    "vq_descx vq' = (vq_descx vq)[unat (hd c) := \<lparr>x_cookie = cookie, x_ndescs = of_nat k\<rparr>]"
    "avail_idx vr' = avail_idx vr + 1"
    "avail_ring vr' = (avail_ring vr)[unat (avail_idx vr) mod unat (vq_nentries vq) := hd c]"
    "used_idx vr' = used_idx vr" "used_ring vr' = used_ring vr"
proof -
  obtain hx where vq: "vq' = vq\<lparr>vq_desc_head_idx := hx, vq_free_cnt := vq_free_cnt vq - of_nat k,
      vq_queued_cnt := vq_queued_cnt vq + 1,
      vq_descx := (vq_descx vq)[unat (hd c) := \<lparr>x_cookie = cookie, x_ndescs = of_nat k\<rparr>]\<rparr>"
    using assms unfolding added_def by blast
  then show "vq_nentries vq' = vq_nentries vq" "vq_role vq' = vq_role vq" "vq_shm_io vq' = vq_shm_io vq"
    "vq_used_cons_idx vq' = vq_used_cons_idx vq" "vq_inuse vq' = vq_inuse vq"
    "vq_descx vq' = (vq_descx vq)[unat (hd c) := \<lparr>x_cookie = cookie, x_ndescs = of_nat k\<rparr>]"
    by simp_all
  obtain ds where vr: "vr' = vr\<lparr>vr_desc := ds, avail_idx := avail_idx vr + 1,
      avail_ring := (avail_ring vr)[unat (avail_idx vr) mod unat (vq_nentries vq) := hd c]\<rparr>"
    using assms unfolding added_def by blast
  then show "avail_idx vr' = avail_idx vr + 1"
    "avail_ring vr' = (avail_ring vr)[unat (avail_idx vr) mod unat (vq_nentries vq) := hd c]"
    "used_idx vr' = used_idx vr" "used_ring vr' = used_ring vr"
    by simp_all
qed

lemma in_region_phys:
  assumes "sides_ok drv dev" "in_region drv b"
  shows "\<exists>p. virtqueue_virt_to_phys drv (vb_buf b) = Some p \<and> virtqueue_phys_to_virt dev p = Some (vb_buf b)"
  using assms virt_phys_virt [of "vq_shm_io drv" "vb_buf b"]
  by (auto simp: sides_ok_def in_region_def virtqueue_virt_to_phys_def virtqueue_phys_to_virt_def)

lemma sys_add:
  assumes ok: "sys_ok s free infl"
    and bufs: "\<forall>b \<in> set bufs. in_region (s_drv s) b" "k \<le> length bufs" and cookie: "cookie \<noteq> 0"
    and k: "readable + writable = int k" "0 < k" "k \<le> unat (vq_free_cnt (s_drv s))"
  shows "\<exists>vq vr free' infl'.
    virtqueue_add_buffer (s_drv s) (s_vr s) bufs readable writable cookie = Some (VQUEUE_SUCCESS, vq, vr) \<and>
    sys_ok (s\<lparr>s_drv := vq, s_vr := vr\<rparr>) free' infl' \<and>
    abs_step (vq_abs_of s) (DrvAdd cookie (vb_buf (hd bufs)) (of_int (vb_len (hd bufs))))
      (vq_abs_of (s\<lparr>s_drv := vq, s_vr := vr\<rparr>))"
proof -
  have inv: "drv_inv (s_drv s) (s_vr s) free infl" and sides: "sides_ok (s_drv s) (s_dev s)"
    using ok by (simp_all add: sys_ok_def)
  have kf: "k \<le> length free" using inv k(3) by (simp add: drv_inv_def)
  have mapped: "bufs_mapped (s_drv s) bufs"
    using bufs(1) in_region_phys [OF sides] by (auto simp: bufs_mapped_def)
  obtain vq vr where run: "virtqueue_add_buffer (s_drv s) (s_vr s) bufs readable writable cookie =
      Some (VQUEUE_SUCCESS, vq, vr)"
    and inv': "drv_inv vq vr (drop k free) (infl @ [take k free])"
    and add: "added (s_drv s) (s_vr s) (take k free) k bufs readable cookie vq vr"
    using add_buffer_spec [OF inv k(1,2) kf cookie mapped bufs(2)] by blast
  note fld = added_fields [OF add] and rings = sys_ok_rings [OF ok]
  define h where "h = hd (take k free)"
  define s' where "s' = s\<lparr>s_drv := vq, s_vr := vr\<rparr>"
  have hin: "h \<in> set (take k free)" unfolding h_def using k(2) kf by (intro hd_in_set) auto
  then have hfree: "h \<in> set free" by (rule in_set_takeD)
  then have hnew: "h \<notin> set (heads s)" using sys_ok_head(3) [OF ok] by blast
  have hlt: "h < vq_nentries (s_drv s)" using drv_inv_indices(1) [OF inv] hfree by blast
  have avail: "avail_q s' = avail_q s @ [h]"
  proof -
    have "length (avail_q s) < unat (vq_nentries (s_drv s))"
      using sys_ok_room [OF ok] k(2) kf by (simp add: heads_def)
    then show ?thesis
      using rings by (simp add: avail_q_def s'_def fld h_def [symmetric] ring_simps)
  qed
  have used: "used_q s' = used_q s" by (simp add: used_q_def s'_def fld)
  have held: "s_held s' = s_held s" by (simp add: s'_def)
  have hd: "set (heads s') = insert h (set (heads s))" "distinct (heads s')"
    using hnew ok by (auto simp: heads_def avail used held sys_ok_def)
  have desc: "vr_desc vr ! unat j = vr_desc (s_vr s) ! unat j" if "j \<in> set (heads s)" for j
    using that add sys_ok_head(3) [OF ok that] unfolding added_def by (blast dest: in_set_takeD)
  have view: "dev_view s' j = dev_view s j" if "j \<in> set (heads s)" for j
    using desc [OF that] by (simp add: dev_view_def s'_def)
  obtain b bs where b: "bufs = b # bs" using k(2) bufs(2) by (cases bufs) auto
  have "desc_of_buf (s_drv s) readable 0 b (vr_desc vr ! unat h)"
    using add k(2) kf b unfolding added_def h_def by (cases free) auto
  then have d: "virtqueue_phys_to_virt (s_dev s) (d_addr (vr_desc vr ! unat h)) = Some (vb_buf b)"
    "d_len (vr_desc vr ! unat h) = of_int (vb_len b)"
    using in_region_phys [OF sides, of b] bufs(1) b by (auto simp: desc_of_buf_def)
  have viewh: "dev_view s' h = (h, vb_buf (hd bufs), of_int (vb_len (hd bufs)))"
    using d b by (simp add: dev_view_def s'_def)
  have "sys_ok s' (drop k free) (infl @ [take k free])"
    unfolding sys_ok_def
  proof (intro conjI)
    show "drv_inv (s_drv s') (s_vr s') (drop k free) (infl @ [take k free])"
      using inv' by (simp add: s'_def)
    show "sides_ok (s_drv s') (s_dev s')" using sides by (simp add: sides_ok_def s'_def fld)
    show "distinct (heads s')" by (rule hd(2))
    show "set (heads s') = hd ` set (infl @ [take k free])"
      using hd(1) ok by (simp add: sys_ok_def h_def)
    show "\<forall>e \<in> set (used_q s'). ue_id e = ucast (used_head e)" using ok by (simp add: used sys_ok_def)
    show "\<forall>j \<in> set (heads s'). virtqueue_phys_to_virt (s_dev s') (d_addr (vr_desc (s_vr s') ! unat j)) \<noteq> None"
      unfolding hd(1) using ok d(1) by (auto simp: s'_def sys_ok_def desc)
  qed
  moreover have "vq_abs_of s' = (vq_abs_of s)\<lparr>
      a_avail := a_avail (vq_abs_of s) @ [(h, vb_buf (hd bufs), of_int (vb_len (hd bufs)))],
      a_cookie := (a_cookie (vq_abs_of s))(h := cookie)\<rparr>"
  proof -
    have "unat h < length (vq_descx (s_drv s))" using hlt inv by (simp add: drv_inv_def word_less_nat_alt)
    then have "x_cookie (vq_descx vq ! unat i) = (if i = h then cookie else x_cookie (vq_descx (s_drv s) ! unat i))" for i
      by (simp add: fld h_def [symmetric] nth_list_update_unat)
    then show ?thesis
      using view viewh hlt
      by (auto simp: vq_abs_of_def avail used held heads_def fun_eq_iff) (auto simp: s'_def fld)
  qed
  moreover have "a_cookie (vq_abs_of s) h = 0" "h \<notin> set (a_heads (vq_abs_of s))"
  proof -
    have "h \<notin> hd ` set infl" using hnew ok by (simp add: sys_ok_def)
    then show "a_cookie (vq_abs_of s) h = 0" using inv hlt by (simp add: vq_abs_of_def drv_inv_def)
    show "h \<notin> set (a_heads (vq_abs_of s))"
      using hnew by (simp add: a_heads_def vq_abs_of_def heads_def dev_view_def Let_def image_image)
  qed
  ultimately show ?thesis using run a_add [OF cookie] unfolding s'_def by metis
qed

subsection \<open>The driver takes a returned buffer\<close>

lemma got_fields:
  assumes "got vq vr c vq' vr'"
  shows "vq_nentries vq' = vq_nentries vq" "vq_role vq' = vq_role vq" "vq_shm_io vq' = vq_shm_io vq"
    "vq_used_cons_idx vq' = vq_used_cons_idx vq + 1" "vq_inuse vq' = vq_inuse vq"
    "avail_idx vr' = avail_idx vr" "avail_ring vr' = avail_ring vr"
    "used_idx vr' = used_idx vr" "used_ring vr' = used_ring vr"
proof -
  obtain dx where vq: "vq' = vq\<lparr>vq_desc_head_idx := hd c, vq_free_cnt := vq_free_cnt vq + of_nat (length c),
      vq_used_cons_idx := vq_used_cons_idx vq + 1, vq_descx := dx\<rparr>"
    using assms unfolding got_def by blast
  then show "vq_nentries vq' = vq_nentries vq" "vq_role vq' = vq_role vq" "vq_shm_io vq' = vq_shm_io vq"
    "vq_used_cons_idx vq' = vq_used_cons_idx vq + 1" "vq_inuse vq' = vq_inuse vq"
    by simp_all
  obtain ds where vr: "vr' = vr\<lparr>vr_desc := ds\<rparr>"
    using assms unfolding got_def by blast
  then show "avail_idx vr' = avail_idx vr" "avail_ring vr' = avail_ring vr"
    "used_idx vr' = used_idx vr" "used_ring vr' = used_ring vr"
    by simp_all
qed

lemma sys_drv_get_none:
  assumes "used_q s = []"
  shows "virtqueue_get_buffer (s_drv s) (s_vr s) = Some (None, s_drv s, s_vr s)"
  using assms by (simp add: used_q_def virtqueue_get_buffer_def ring_simps)

lemma sys_drv_get:
  assumes ok: "sys_ok s free infl" and ne: "used_q s \<noteq> []"
  shows "\<exists>cookie len slot vq vr free' infl'.
    virtqueue_get_buffer (s_drv s) (s_vr s) = Some (Some (cookie, len, slot), vq, vr) \<and>
    cookie \<noteq> 0 \<and> sys_ok (s\<lparr>s_drv := vq, s_vr := vr\<rparr>) free' infl' \<and>
    abs_step (vq_abs_of s) (DrvGet cookie len) (vq_abs_of (s\<lparr>s_drv := vq, s_vr := vr\<rparr>))"
proof -
  have inv: "drv_inv (s_drv s) (s_vr s) free infl" and sides: "sides_ok (s_drv s) (s_dev s)"
    using ok by (simp_all add: sys_ok_def)
  note rings = sys_ok_rings [OF ok]
  let ?cons = "vq_used_cons_idx (s_drv s)" and ?n = "unat (vq_nentries (s_drv s))"
  have ne': "?cons \<noteq> used_idx (s_vr s)" using ne by (simp add: used_q_def ring_simps)
  define e rest where "e = used_ring (s_vr s) ! (unat ?cons mod ?n)"
    and "rest = ring_slice ?n (used_ring (s_vr s)) (?cons + 1) (used_idx (s_vr s))"
  have q: "used_q s = e # rest"
    using ring_slice_pop [OF rings(1) ne'] by (simp add: used_q_def e_def rest_def)
  have ein: "used_head e \<in> set (heads s)" by (simp add: heads_def q)
  then obtain c where c: "c \<in> set infl" "hd c = used_head e" using sys_ok_head(1) [OF ok] by blast
  obtain l1 l2 where l: "infl = l1 @ c # l2" using split_list [OF c(1)] by blast
  have ue: "e = \<lparr>ue_id = ucast (hd c), ue_len = ue_len e\<rparr>"
    using ok c(2) by (cases e) (simp add: sys_ok_def q)
  define cookie where "cookie = x_cookie (vq_descx (s_drv s) ! unat (hd c))"
  obtain vq vr slot where run: "virtqueue_get_buffer (s_drv s) (s_vr s) = Some (Some (cookie, ue_len e, slot), vq, vr)"
    and inv': "drv_inv vq vr (c @ free) (l1 @ l2)" and got: "got (s_drv s) (s_vr s) c vq vr"
    using get_buffer_spec [OF inv [unfolded l] ne', of "ue_len e"] ue unfolding cookie_def e_def by metis
  note fld = got_fields [OF got]
  define s' where "s' = s\<lparr>s_drv := vq, s_vr := vr\<rparr>"
  have used: "used_q s' = rest" by (simp add: used_q_def s'_def fld rest_def)
  have avail: "avail_q s' = avail_q s" by (simp add: avail_q_def s'_def fld)
  have held: "s_held s' = s_held s" by (simp add: s'_def)
  have hd: "set (heads s) = insert (hd c) (set (heads s'))" "distinct (heads s')" "hd c \<notin> set (heads s')"
    using ok c(2) by (auto simp: heads_def avail used held sys_ok_def q)
  note ch = drv_inv_chain [OF inv c(1)]
  have "distinct (concat infl)" using inv by (simp add: drv_inv_def)
  then have dis: "set c \<inter> set b = {}" if "b \<in> set (l1 @ l2)" for b using that unfolding l by auto
  have heads': "\<exists>b \<in> set (l1 @ l2). hd b = j \<and> j \<notin> set c" if "j \<in> set (heads s')" for j
  proof -
    from that obtain b where b: "b \<in> set infl" "hd b = j" using hd(1) sys_ok_head(1) [OF ok, of j] by auto
    then have b': "b \<in> set (l1 @ l2)" using that hd(3) l by auto
    then show ?thesis using dis [OF b'] drv_inv_chain(2) [OF inv b(1)] b(2) by blast
  qed
  have desc: "vr_desc vr ! unat j = vr_desc (s_vr s) ! unat j" if "j \<in> set (heads s')" for j
    using heads' [OF that] got by (auto simp: got_def)
  have view: "dev_view s' j = dev_view s j" if "j \<in> set (heads s')" for j
    using desc [OF that] by (simp add: dev_view_def s'_def)
  have notin: "hd c \<notin> hd ` set (l1 @ l2)"
  proof
    assume "hd c \<in> hd ` set (l1 @ l2)"
    then obtain b where b: "b \<in> set (l1 @ l2)" "hd b = hd c" by force
    then have "hd b \<in> set b" using drv_inv_chain(2) [OF inv, of b] l by auto
    then show False using dis [OF b(1)] ch(2) b(2) by auto
  qed
  have ok': "sys_ok s' (c @ free) (l1 @ l2)"
    unfolding sys_ok_def
  proof (intro conjI)
    show "drv_inv (s_drv s') (s_vr s') (c @ free) (l1 @ l2)" using inv' by (simp add: s'_def)
    show "sides_ok (s_drv s') (s_dev s')" using sides by (simp add: sides_ok_def s'_def fld)
    show "distinct (heads s')" by (rule hd(2))
    have "insert (hd c) (set (heads s')) = insert (hd c) (hd ` set (l1 @ l2))"
      using ok hd(1) unfolding l sys_ok_def by auto
    then show "set (heads s') = hd ` set (l1 @ l2)" by (simp only: insert_ident [OF hd(3) notin])
    show "\<forall>e \<in> set (used_q s'). ue_id e = ucast (used_head e)" using ok by (simp add: used q sys_ok_def)
    show "\<forall>j \<in> set (heads s'). virtqueue_phys_to_virt (s_dev s') (d_addr (vr_desc (s_vr s') ! unat j)) \<noteq> None"
    proof
      fix j assume j: "j \<in> set (heads s')"
      then have "j \<in> set (heads s)" by (simp add: hd(1))
      then show "virtqueue_phys_to_virt (s_dev s') (d_addr (vr_desc (s_vr s') ! unat j)) \<noteq> None"
        using ok desc [OF j] by (simp add: s'_def sys_ok_def)
    qed
  qed
  have front: "a_used (vq_abs_of s) = (hd c, ue_len e) # map (\<lambda>e. (used_head e, ue_len e)) rest"
    by (simp add: vq_abs_of_def q c(2))
  have hlt: "hd c < vq_nentries (s_drv s)" using ch(2,4) by blast
  then have ck: "a_cookie (vq_abs_of s) (hd c) = cookie" by (simp add: vq_abs_of_def cookie_def)
  have abs: "vq_abs_of s' = (vq_abs_of s)\<lparr>a_used := map (\<lambda>e. (used_head e, ue_len e)) rest,
      a_cookie := (a_cookie (vq_abs_of s))(hd c := 0)\<rparr>"
  proof -
    have "x_cookie (vq_descx vq ! unat i) = (if i = hd c then 0 else x_cookie (vq_descx (s_drv s) ! unat i))"
      if "i < vq_nentries (s_drv s)" for i
      using that inv' notin got by (auto simp: drv_inv_def got_def fld)
    then have "(\<lambda>h. if h < vq_nentries vq then x_cookie (vq_descx vq ! unat h) else 0) =
        (a_cookie (vq_abs_of s))(hd c := 0)"
      by (simp add: vq_abs_of_def fun_eq_iff fld)
    moreover have "map (dev_view s') (avail_q s') = map (dev_view s) (avail_q s)"
      using view by (simp add: avail heads_def)
    moreover have "s_drv s' = vq" by (simp add: s'_def)
    ultimately show ?thesis by (simp add: vq_abs_of_def used held cong: if_cong)
  qed
  have "abs_step (vq_abs_of s) (DrvGet cookie (ue_len e)) (vq_abs_of s')"
    unfolding abs by (rule a_drv_get [OF front ck [symmetric]])
  moreover have "cookie \<noteq> 0" using inv c(1) by (simp add: drv_inv_def cookie_def)
  ultimately show ?thesis using run ok' unfolding s'_def by blast
qed

subsection \<open>The device takes and returns a buffer\<close>

lemma sys_ok_count:
  assumes "sys_ok s free infl"
  shows "length (avail_q s) + length (s_held s) + length (used_q s) \<le> unat (vq_nentries (s_drv s))"
  using sys_ok_room [OF assms] by (simp add: heads_def)

lemma sys_dev_get_none:
  assumes "avail_q s = []"
  shows "virtqueue_get_available_buffer (s_dev s) (s_vr s) = Some (None, s_dev s)"
  using assms by (simp add: avail_q_def virtqueue_get_available_buffer_def ring_simps)

lemma sys_dev_get:
  assumes ok: "sys_ok s free infl" and ne: "avail_q s \<noteq> []"
  shows "\<exists>va h len vq.
    virtqueue_get_available_buffer (s_dev s) (s_vr s) = Some (Some (va, h, len), vq) \<and>
    sys_ok (s\<lparr>s_dev := vq, s_held := s_held s @ [h]\<rparr>) free infl \<and>
    abs_step (vq_abs_of s) (DevGet va h len) (vq_abs_of (s\<lparr>s_dev := vq, s_held := s_held s @ [h]\<rparr>))"
proof -
  have inv: "drv_inv (s_drv s) (s_vr s) free infl" and sides: "sides_ok (s_drv s) (s_dev s)"
    using ok by (simp_all add: sys_ok_def)
  note rings = sys_ok_rings [OF ok]
  let ?ai = "vq_available_idx (s_dev s)" and ?n = "unat (vq_nentries (s_drv s))"
  have ne': "?ai \<noteq> avail_idx (s_vr s)" using ne by (simp add: avail_q_def ring_simps)
  define h rest where "h = avail_ring (s_vr s) ! (unat ?ai mod ?n)"
    and "rest = ring_slice ?n (avail_ring (s_vr s)) (?ai + 1) (avail_idx (s_vr s))"
  have q: "avail_q s = h # rest"
    using ring_slice_pop [OF rings(1) ne'] by (simp add: avail_q_def h_def rest_def)
  have hin: "h \<in> set (heads s)" by (simp add: heads_def q)
  then obtain va where va: "virtqueue_phys_to_virt (s_dev s) (d_addr (vr_desc (s_vr s) ! unat h)) = Some va"
    using ok unfolding sys_ok_def by blast
  define len where "len = d_len (vr_desc (s_vr s) ! unat h)"
  define vq where "vq = (s_dev s)\<lparr>vq_available_idx := ?ai + 1\<rparr>"
  define s' where "s' = s\<lparr>s_dev := vq, s_held := s_held s @ [h]\<rparr>"
  have shape: "ring_shape (s_drv s) (s_vr s)" using inv by (simp add: drv_inv_def)
  have hlt: "unat h < length (vr_desc (s_vr s))"
    using sys_ok_head(2) [OF ok hin] shape by (simp add: ring_shape_def word_less_nat_alt)
  have slot: "unat (?ai AND (vq_nentries (s_dev s) - 1)) = unat ?ai mod ?n" "unat ?ai mod ?n < length (avail_ring (s_vr s))"
    using sides ring_shape_mask [OF shape] ring_shape_slot [OF shape] rings(2) by (simp_all add: sides_ok_def)
  have trans: "virtqueue_phys_to_virt (v\<lparr>vq_available_idx := i\<rparr>) = virtqueue_phys_to_virt v"
    "virtqueue_phys_to_virt (v\<lparr>vq_inuse := u\<rparr>) = virtqueue_phys_to_virt v" for v i u
    by (simp_all add: virtqueue_phys_to_virt_def fun_eq_iff)
  have run: "virtqueue_get_available_buffer (s_dev s) (s_vr s) = Some (Some (va, h, len), vq)"
    using ne' slot hlt va sides
    by (simp add: virtqueue_get_available_buffer_def VQUEUE_BUSY_def VQUEUE_IDLE_def Let_def sides_ok_def trans
        h_def [symmetric] len_def vq_def)
  have avail: "avail_q s' = rest" by (simp add: avail_q_def s'_def vq_def rest_def)
  have used: "used_q s' = used_q s" by (simp add: used_q_def s'_def)
  have held: "s_held s' = s_held s @ [h]" and drv: "s_drv s' = s_drv s" by (simp_all add: s'_def)
  have view: "dev_view s' = dev_view s" by (simp add: dev_view_def s'_def vq_def fun_eq_iff trans)
  have hd: "set (heads s') = set (heads s)" "distinct (heads s')"
    using ok by (auto simp: heads_def avail used held q sys_ok_def)
  have ok': "sys_ok s' free infl"
    using ok unfolding sys_ok_def hd(1) used
    by (simp add: hd(2)) (simp add: s'_def vq_def trans sides_ok_def)
  have "abs_step (vq_abs_of s) (DevGet va h len)
      ((vq_abs_of s)\<lparr>a_avail := map (dev_view s) rest, a_held := a_held (vq_abs_of s) @ [h]\<rparr>)"
    by (rule a_dev_get) (simp add: vq_abs_of_def q dev_view_def Let_def va len_def)
  moreover have "vq_abs_of s' =
      (vq_abs_of s)\<lparr>a_avail := map (dev_view s) rest, a_held := a_held (vq_abs_of s) @ [h]\<rparr>"
    by (simp add: vq_abs_of_def avail used held view drv cong: if_cong)
  ultimately show ?thesis using run ok' unfolding s'_def by metis
qed

lemma sys_dev_put:
  assumes ok: "sys_ok s free infl" and h: "h \<in> set (s_held s)"
  shows "\<exists>vq vr.
    virtqueue_add_consumed_buffer (s_dev s) (s_vr s) h len = Some (VQUEUE_SUCCESS, vq, vr) \<and>
    sys_ok (s\<lparr>s_dev := vq, s_vr := vr, s_held := remove1 h (s_held s)\<rparr>) free infl \<and>
    abs_step (vq_abs_of s) (DevPut h len)
      (vq_abs_of (s\<lparr>s_dev := vq, s_vr := vr, s_held := remove1 h (s_held s)\<rparr>))"
proof -
  have inv: "drv_inv (s_drv s) (s_vr s) free infl" and sides: "sides_ok (s_drv s) (s_dev s)"
    using ok by (simp_all add: sys_ok_def)
  note rings = sys_ok_rings [OF ok]
  let ?ui = "used_idx (s_vr s)" and ?n = "unat (vq_nentries (s_drv s))"
  have hin: "h \<in> set (heads s)" using h by (simp add: heads_def)
  have hn: "\<not> vq_nentries (s_dev s) < h"
    using sys_ok_head(2) [OF ok hin] sides by (simp add: sides_ok_def)
  have shape: "ring_shape (s_drv s) (s_vr s)" using inv by (simp add: drv_inv_def)
  have slot: "unat (?ui AND (vq_nentries (s_dev s) - 1)) = unat ?ui mod ?n" "unat ?ui mod ?n < length (used_ring (s_vr s))"
    using sides ring_shape_mask [OF shape] ring_shape_slot [OF shape] rings(3) by (simp_all add: sides_ok_def)
  define e where "e = \<lparr>ue_id = (ucast h :: u32), ue_len = len\<rparr>"
  define vq where "vq = (s_dev s)\<lparr>vq_queued_cnt := vq_queued_cnt (s_dev s) + 1\<rparr>"
  define vr where "vr = (s_vr s)\<lparr>used_ring := (used_ring (s_vr s))[unat ?ui mod ?n := e], used_idx := ?ui + 1\<rparr>"
  define s' where "s' = s\<lparr>s_dev := vq, s_vr := vr, s_held := remove1 h (s_held s)\<rparr>"
  have run: "virtqueue_add_consumed_buffer (s_dev s) (s_vr s) h len = Some (VQUEUE_SUCCESS, vq, vr)"
    using hn slot sides
    by (simp add: virtqueue_add_consumed_buffer_def VQUEUE_BUSY_def VQUEUE_IDLE_def Let_def sides_ok_def
        e_def vq_def vr_def)
  have used: "used_q s' = used_q s @ [e]"
  proof -
    have "0 < length (s_held s)" using h by (cases "s_held s") auto
    then have "length (used_q s) < ?n" using sys_ok_count [OF ok] by linarith
    then show ?thesis using rings by (simp add: used_q_def s'_def vr_def ring_simps)
  qed
  have avail: "avail_q s' = avail_q s" by (simp add: avail_q_def s'_def vq_def vr_def)
  have held: "s_held s' = remove1 h (s_held s)" and drv: "s_drv s' = s_drv s" by (simp_all add: s'_def)
  have eh: "used_head e = h" by (simp add: used_head_def e_def)
  have view: "dev_view s' = dev_view s"
    by (simp add: dev_view_def s'_def vq_def vr_def fun_eq_iff virtqueue_phys_to_virt_def)
  have hd: "set (heads s') = set (heads s)" "distinct (heads s')"
    using ok h by (auto simp: heads_def avail used held eh sys_ok_def)
  have ok': "sys_ok s' free infl"
    unfolding sys_ok_def
  proof (intro conjI)
    show "drv_inv (s_drv s') (s_vr s') free infl"
      using inv by (simp add: drv_inv_def ring_shape_def s'_def vr_def)
    show "sides_ok (s_drv s') (s_dev s')" using sides by (simp add: sides_ok_def s'_def vq_def)
    show "distinct (heads s')" by (rule hd(2))
    show "set (heads s') = hd ` set infl" using hd(1) ok by (simp add: sys_ok_def)
    show "\<forall>e \<in> set (used_q s'). ue_id e = ucast (used_head e)"
      using ok eh by (simp add: used sys_ok_def e_def)
    show "\<forall>j \<in> set (heads s'). virtqueue_phys_to_virt (s_dev s') (d_addr (vr_desc (s_vr s') ! unat j)) \<noteq> None"
      unfolding hd(1) using ok by (simp add: sys_ok_def s'_def vq_def vr_def virtqueue_phys_to_virt_def)
  qed
  have "abs_step (vq_abs_of s) (DevPut h len) ((vq_abs_of s)\<lparr>a_held := remove1 h (a_held (vq_abs_of s)),
      a_used := a_used (vq_abs_of s) @ [(h, len)]\<rparr>)"
    using h by (intro a_dev_put) (simp add: vq_abs_of_def)
  moreover have "vq_abs_of s' = (vq_abs_of s)\<lparr>a_held := remove1 h (a_held (vq_abs_of s)),
      a_used := a_used (vq_abs_of s) @ [(h, len)]\<rparr>"
    by (simp add: vq_abs_of_def avail used held view drv eh cong: if_cong) (simp add: e_def)
  ultimately show ?thesis using run ok' unfolding s'_def by metis
qed

subsection \<open>Notification steps\<close>

text \<open>Nothing but the notification words and the counters of queued buffers differs.\<close>

definition same_queue :: "virtqueue \<Rightarrow> virtqueue \<Rightarrow> bool" where
  "same_queue vq vq' \<longleftrightarrow> vq' = vq\<lparr>vq_queued_cnt := vq_queued_cnt vq'\<rparr>"

definition same_ring :: "vring \<Rightarrow> vring \<Rightarrow> bool" where
  "same_ring vr vr' \<longleftrightarrow> vr' = vr\<lparr>avail_flags := avail_flags vr', vr_used_event := vr_used_event vr',
     used_flags := used_flags vr', vr_avail_event := vr_avail_event vr'\<rparr>"

lemma same_queue_fields:
  assumes "same_queue vq vq'"
  shows "vq_nentries vq' = vq_nentries vq" "vq_role vq' = vq_role vq" "vq_shm_io vq' = vq_shm_io vq"
    "vq_used_cons_idx vq' = vq_used_cons_idx vq" "vq_inuse vq' = vq_inuse vq" "vq_descx vq' = vq_descx vq"
    "vq_available_idx vq' = vq_available_idx vq" "vq_desc_head_idx vq' = vq_desc_head_idx vq"
    "vq_free_cnt vq' = vq_free_cnt vq"
proof -
  obtain q where "vq' = vq\<lparr>vq_queued_cnt := q\<rparr>" using assms unfolding same_queue_def by blast
  then show "vq_nentries vq' = vq_nentries vq" "vq_role vq' = vq_role vq" "vq_shm_io vq' = vq_shm_io vq"
    "vq_used_cons_idx vq' = vq_used_cons_idx vq" "vq_inuse vq' = vq_inuse vq" "vq_descx vq' = vq_descx vq"
    "vq_available_idx vq' = vq_available_idx vq" "vq_desc_head_idx vq' = vq_desc_head_idx vq"
    "vq_free_cnt vq' = vq_free_cnt vq"
    by simp_all
qed

lemma same_ring_fields:
  assumes "same_ring vr vr'"
  shows "avail_idx vr' = avail_idx vr" "avail_ring vr' = avail_ring vr"
    "used_idx vr' = used_idx vr" "used_ring vr' = used_ring vr" "vr_desc vr' = vr_desc vr"
proof -
  obtain a b c d where "vr' = vr\<lparr>avail_flags := a, vr_used_event := b, used_flags := c, vr_avail_event := d\<rparr>"
    using assms unfolding same_ring_def by blast
  then show "avail_idx vr' = avail_idx vr" "avail_ring vr' = avail_ring vr"
    "used_idx vr' = used_idx vr" "used_ring vr' = used_ring vr" "vr_desc vr' = vr_desc vr"
    by simp_all
qed

lemmas same_fields = same_queue_fields same_ring_fields

lemma same_refl [intro, simp]: "same_queue vq vq" "same_ring vr vr"
  by (simp_all add: same_queue_def same_ring_def)

lemma sys_quiet:
  assumes ok: "sys_ok s free infl"
    and same: "same_queue (s_drv s) (s_drv s')" "same_queue (s_dev s) (s_dev s')" "same_ring (s_vr s) (s_vr s')"
      "s_held s' = s_held s"
  shows "sys_ok s' free infl" "vq_abs_of s' = vq_abs_of s"
proof -
  note fld = same(1,2) [THEN same_queue_fields(1)] same(1,2) [THEN same_queue_fields(2)]
    same(1,2) [THEN same_queue_fields(3)] same(1,2) [THEN same_queue_fields(4)]
    same(1,2) [THEN same_queue_fields(5)] same(1,2) [THEN same_queue_fields(6)]
    same(1,2) [THEN same_queue_fields(7)] same(1,2) [THEN same_queue_fields(8)]
    same(1,2) [THEN same_queue_fields(9)] same_ring_fields [OF same(3)]
  have q: "avail_q s' = avail_q s" "used_q s' = used_q s" "heads s' = heads s"
    by (simp_all add: avail_q_def used_q_def heads_def fld same(4))
  have tr: "virtqueue_phys_to_virt (s_dev s') = virtqueue_phys_to_virt (s_dev s)"
    by (simp add: virtqueue_phys_to_virt_def fun_eq_iff fld)
  have inv: "drv_inv (s_drv s') (s_vr s') free infl = drv_inv (s_drv s) (s_vr s) free infl"
    by (simp add: drv_inv_def ring_shape_def fld)
  show "sys_ok s' free infl"
    using ok by (simp add: sys_ok_def q tr inv) (simp add: sides_ok_def fld)
  have "dev_view s' = dev_view s" by (simp add: dev_view_def fun_eq_iff tr fld)
  then show "vq_abs_of s' = vq_abs_of s"
    by (simp add: vq_abs_of_def q fld same(4) cong: if_cong)
qed

lemma enable_cb_same:
  assumes "virtqueue_enable_cb vq vr = Some (b, vr')"
  shows "same_ring vr vr'"
  using assms
  by (auto simp: virtqueue_enable_cb_def vq_ring_enable_interrupt_def same_ring_def Let_def
      bind_eq_Some_conv split: vdev_role.splits)

lemma disable_cb_same:
  assumes "virtqueue_disable_cb vq vr = Some (vq', vr')"
  shows "same_queue vq vq' \<and> same_ring vr vr'"
  using assms
  by (auto simp: virtqueue_disable_cb_def same_ring_def same_queue_def Let_def VQUEUE_BUSY_def VQUEUE_IDLE_def
      bind_eq_Some_conv split: vdev_role.splits if_splits)

lemma kick_same:
  assumes "virtqueue_kick vq vr = Some (b, vq')"
  shows "same_queue vq vq'"
  using assms
  by (auto simp: virtqueue_kick_def same_queue_def Let_def VQUEUE_BUSY_def VQUEUE_IDLE_def
      bind_eq_Some_conv split: if_splits)

subsection \<open>Simulation\<close>

lemma sys_step_simulates:
  assumes step: "sys_step s e s'" and inv: "sys_inv s"
  shows "sys_inv s' \<and> abs_step (vq_abs_of s) e (vq_abs_of s')"
proof -
  obtain free infl where ok: "sys_ok s free infl" using inv by (auto simp: sys_inv_def)
  have quiet: ?thesis if "e = Quiet" "same_queue (s_drv s) (s_drv s')" "same_queue (s_dev s) (s_dev s')"
    "same_ring (s_vr s) (s_vr s')" "s_held s' = s_held s"
    using sys_quiet [OF ok that(2-5)] that(1) a_quiet by (auto simp: sys_inv_def)
  show ?thesis
    using step
  proof cases
    case drv_add
    then show ?thesis using sys_add [OF ok drv_add(4,8,5,6,7,9)] by (auto simp: sys_inv_def)
  next
    case (drv_add_refused bufs readable writable cookie st vq vr)
    have "\<not> vq_inuse (s_drv s)" using ok by (simp add: sys_ok_def sides_ok_def)
    then have "vq = s_drv s" "vr = s_vr s"
      using drv_add_refused(3,4) add_buffer_errors [of "s_drv s" readable writable]
      by (cases "readable + writable < 1"; simp)+
    then show ?thesis using drv_add_refused by (intro quiet) auto
  next
    case drv_get
    then have "used_q s \<noteq> []" using sys_drv_get_none [of s] by auto
    then show ?thesis using sys_drv_get [OF ok] drv_get by (auto simp: sys_inv_def)
  next
    case drv_get_none
    then have "used_q s = []" using sys_drv_get [OF ok] by auto
    then show ?thesis using sys_drv_get_none [of s] drv_get_none by (intro quiet) auto
  next
    case dev_get
    then have "avail_q s \<noteq> []" using sys_dev_get_none [of s] by auto
    then show ?thesis using sys_dev_get [OF ok] dev_get by (auto simp: sys_inv_def)
  next
    case dev_get_none
    then have "avail_q s = []" using sys_dev_get [OF ok] by auto
    then show ?thesis using sys_dev_get_none [of s] dev_get_none by (intro quiet) auto
  next
    case (dev_put h len vq vr)
    then show ?thesis using sys_dev_put [OF ok dev_put(3), of len] by (auto simp: sys_inv_def)
  next
    case drv_enable
    then show ?thesis using enable_cb_same by (intro quiet) auto
  next
    case dev_enable
    then show ?thesis using enable_cb_same by (intro quiet) auto
  next
    case drv_disable
    then show ?thesis using disable_cb_same by (intro quiet) auto
  next
    case dev_disable
    then show ?thesis using disable_cb_same by (intro quiet) auto
  next
    case drv_kick
    then show ?thesis using kick_same by (intro quiet) auto
  next
    case dev_kick
    then show ?thesis using kick_same by (intro quiet) auto
  qed
qed

lemma sys_run_simulates:
  "sys_run s es t \<Longrightarrow> sys_inv s \<Longrightarrow> sys_inv t \<and> abs_run (vq_abs_of s) es (vq_abs_of t)"
  by (induction rule: sys_run.induct) (auto intro: abs_run.intros dest: sys_step_simulates)

subsection \<open>What the specification says of a whole run\<close>

fun added_cookie :: "vq_event \<Rightarrow> u64 list" where
  "added_cookie (DrvAdd c va len) = [c]"
| "added_cookie e = []"

fun returned_cookie :: "vq_event \<Rightarrow> u64 list" where
  "returned_cookie (DrvGet c len) = [c]"
| "returned_cookie e = []"

fun posted_buf :: "vq_event \<Rightarrow> (u64 \<times> u32) list" where
  "posted_buf (DrvAdd c va len) = [(va, len)]"
| "posted_buf e = []"

fun received_buf :: "vq_event \<Rightarrow> (u64 \<times> u32) list" where
  "received_buf (DevGet va h len) = [(va, len)]"
| "received_buf e = []"

fun returned_len :: "vq_event \<Rightarrow> u32 list" where
  "returned_len (DrvGet c len) = [len]"
| "returned_len e = []"

fun put_len :: "vq_event \<Rightarrow> u32 list" where
  "put_len (DevPut h len) = [len]"
| "put_len e = []"

definition log_of :: "(vq_event \<Rightarrow> 'a list) \<Rightarrow> vq_event list \<Rightarrow> 'a list" where
  "log_of f es = concat (map f es)"

lemma log_of_simps [simp]: "log_of f [] = []" "log_of f (es @ [e]) = log_of f es @ f e"
  by (simp_all add: log_of_def)

definition a_ok :: "vq_abs \<Rightarrow> bool" where
  "a_ok a \<longleftrightarrow> distinct (a_heads a) \<and> (\<forall>h. a_cookie a h \<noteq> 0 \<longleftrightarrow> h \<in> set (a_heads a))"

text \<open>What the device receives is what was posted, in order; the lengths come back in order.\<close>

lemma abs_run_fifo:
  "abs_run a es b \<Longrightarrow>
     map snd (a_avail a) @ log_of posted_buf es = log_of received_buf es @ map snd (a_avail b) \<and>
     map snd (a_used a) @ log_of put_len es = log_of returned_len es @ map snd (a_used b)"
proof (induction rule: abs_run.induct)
  case (arun_snoc a es b e c)
  from arun_snoc(2) show ?case
    by cases (use arun_snoc.IH in \<open>auto\<close>)
qed simp

text \<open>Cookies are neither lost nor made up.\<close>

definition held_cookies :: "vq_abs \<Rightarrow> u64 list" where
  "held_cookies a = map (a_cookie a) (a_heads a)"

lemma abs_step_ok: "abs_step a e b \<Longrightarrow> a_ok a \<Longrightarrow> a_ok b"
  by (induction rule: abs_step.induct) (auto simp: a_ok_def a_heads_def)

lemma mset_map_upd:
  "h \<notin> set xs \<Longrightarrow> image_mset (f(h := c)) (mset xs) = image_mset f (mset xs)"
  "h \<notin> fst ` set ys \<Longrightarrow> image_mset (f(h := c) \<circ> fst) (mset ys) = image_mset (f \<circ> fst) (mset ys)"
  by (force intro!: image_mset_cong)+

lemma abs_run_cookies:
  "abs_run a es b \<Longrightarrow> a_ok a \<Longrightarrow> a_ok b \<and>
     mset (held_cookies a) + mset (log_of added_cookie es) = mset (log_of returned_cookie es) + mset (held_cookies b)"
proof (induction rule: abs_run.induct)
  case (arun_snoc a es b e c)
  then have ih: "a_ok b" "mset (held_cookies a) + mset (log_of added_cookie es) =
      mset (log_of returned_cookie es) + mset (held_cookies b)" by auto
  have "mset (held_cookies b) + mset (added_cookie e) = mset (returned_cookie e) + mset (held_cookies c)"
    using arun_snoc(2)
  proof cases
    case (a_add cookie h va len)
    then have "h \<notin> set (a_heads b)" by simp
    with a_add show ?thesis by (auto simp: held_cookies_def a_heads_def mset_map_upd)
  next
    case (a_dev_get h va len rest)
    then show ?thesis by (simp add: held_cookies_def a_heads_def)
  next
    case (a_dev_put h len)
    then have "mset (a_held b) = add_mset h (mset (remove1 h (a_held b)))" by simp
    then have "image_mset (a_cookie b) (mset (a_held b)) =
        add_mset (a_cookie b h) (image_mset (a_cookie b) (mset (remove1 h (a_held b))))"
      by (metis image_mset_add_mset)
    with a_dev_put show ?thesis by (simp add: held_cookies_def a_heads_def del: mset_remove1)
  next
    case (a_drv_get h len rest cookie)
    then have "h \<notin> set (map fst (a_avail b) @ a_held b @ map fst rest)"
      using ih(1) by (auto simp: a_ok_def a_heads_def)
    with a_drv_get show ?thesis by (auto simp: held_cookies_def a_heads_def mset_map_upd)
  next
    case a_quiet
    then show ?thesis by simp
  qed
  with ih abs_step_ok [OF arun_snoc(2)] show ?case by (simp add: add.assoc [symmetric])
qed simp

end
