(* ===== verification/Virtqueue_Props.thy ===== *)
theory Virtqueue_Props
  imports Virtqueue_Protocol
begin

text \<open>
  The properties of a virtqueue with its two sides: set-up, refinement of the queue
  specification, absence of faults, the device's ring as a first-in first-out buffer, and
  the notification rule.
\<close>

subsection \<open>Set-up\<close>

definition ring_mem :: "nat \<Rightarrow> vring \<Rightarrow> bool" where
  "ring_mem n vr \<longleftrightarrow> length (vr_desc vr) = n \<and> length (avail_ring vr) = n \<and> length (used_ring vr) = n \<and>
     avail_idx vr = 0 \<and> used_idx vr = 0"

definition vq_abs_empty :: vq_abs where
  "vq_abs_empty = \<lparr>a_avail = [], a_held = [], a_used = [], a_cookie = (\<lambda>_. 0)\<rparr>"

lemma create_slave:
  assumes "unat (vi_num_descs ring) = 2 ^ k"
  shows "virtqueue_create qid (Some ring) cb nf (Some (virtqueue_allocate VIRTIO_DEV_SLAVE f io m)) vr =
    Some (VQUEUE_SUCCESS, Some ((virtqueue_allocate VIRTIO_DEV_SLAVE f io m)\<lparr>vq_queue_index := qid,
      vq_nentries := vi_num_descs ring, vq_free_cnt := vi_num_descs ring,
      vq_callback := cb, vq_notify := nf\<rparr>), vr)"
proof -
  let ?n = "vi_num_descs ring"
  have n0: "?n \<noteq> 0" using assms by (metis power_not_zero unat_0 zero_neq_numeral)
  have "unat (?n AND (?n - 1)) = 0" using unat_and_mask_mod [OF assms] assms by simp
  then have "?n AND (?n - 1) = 0" by (simp only: unat_eq_0)
  then show ?thesis
    using n0 by (simp add: virtqueue_create_def VQ_PARAM_CHK_def VQUEUE_SUCCESS_def vq_ring_init_def
        virtqueue_allocate_def Let_def)
qed

lemma create_pair:
  assumes n: "unat (vi_num_descs ring) = 2 ^ k" and mem: "ring_mem (2 ^ k) vr0"
    and io: "region_ok io" "io_virt io \<noteq> METAL_BAD_VA"
  shows "\<exists>drv dev vr.
    virtqueue_create qid (Some ring) cb nf (Some (virtqueue_allocate VIRTIO_DEV_MASTER f io (2 ^ k))) vr0 =
      Some (VQUEUE_SUCCESS, Some drv, vr) \<and>
    virtqueue_create qid' (Some ring) cb' nf' (Some (virtqueue_allocate VIRTIO_DEV_SLAVE f' io m)) vr =
      Some (VQUEUE_SUCCESS, Some dev, vr) \<and>
    sys_inv \<lparr>s_drv = drv, s_dev = dev, s_vr = vr, s_held = []\<rparr> \<and>
    vq_abs_of \<lparr>s_drv = drv, s_dev = dev, s_vr = vr, s_held = []\<rparr> = vq_abs_empty"
proof -
  let ?v = "virtqueue_allocate VIRTIO_DEV_MASTER f io (2 ^ k)"
  obtain drv vr where c: "virtqueue_create qid (Some ring) cb nf (Some ?v) vr0 = Some (VQUEUE_SUCCESS, Some drv, vr)"
    and inv: "drv_inv drv vr (map of_nat [0..<2 ^ k]) []"
    using create_drv_inv [OF n, of ?v vr0 qid cb nf] mem by (auto simp: virtqueue_allocate_def ring_mem_def)
  have fld: "vq_role drv = VIRTIO_DEV_MASTER" "\<not> vq_inuse drv" "vq_shm_io drv = io"
    "vq_used_cons_idx drv = 0" "vq_nentries drv = vi_num_descs ring" "avail_idx vr = 0" "used_idx vr = 0"
    using c mem by (auto simp: virtqueue_create_def VQ_PARAM_CHK_def Let_def virtqueue_allocate_def
        vq_ring_init_def ring_mem_def bind_eq_Some_conv split: if_splits)
  define dev where "dev = (virtqueue_allocate VIRTIO_DEV_SLAVE f' io m)\<lparr>vq_queue_index := qid',
      vq_nentries := vi_num_descs ring, vq_free_cnt := vi_num_descs ring, vq_callback := cb', vq_notify := nf'\<rparr>"
  let ?s = "\<lparr>s_drv = drv, s_dev = dev, s_vr = vr, s_held = []\<rparr>"
  have q: "avail_q ?s = []" "used_q ?s = []"
    by (simp_all add: avail_q_def used_q_def fld dev_def virtqueue_allocate_def ring_simps)
  have "sides_ok drv dev" using io by (simp add: sides_ok_def fld dev_def virtqueue_allocate_def)
  then have ok: "sys_ok ?s (map of_nat [0..<2 ^ k]) []"
    using inv by (simp add: sys_ok_def q heads_def)
  have "x_cookie (vq_descx drv ! unat h) = 0" if "h < vq_nentries drv" for h
    using inv that by (simp add: drv_inv_def)
  then have "vq_abs_of ?s = vq_abs_empty"
    by (simp add: vq_abs_of_def q vq_abs_empty_def fun_eq_iff)
  then show ?thesis using c create_slave [OF n] ok unfolding sys_inv_def dev_def by blast
qed

subsection \<open>No operation faults\<close>

lemma sys_pending:
  assumes "sys_ok s free infl"
  shows "virtqueue_nused (s_drv s) (s_vr s) = Some (of_nat (length (used_q s)))"
    "virtqueue_navail (s_dev s) (s_vr s) = Some (of_nat (length (avail_q s)))"
  using sys_ok_count [OF assms] assms
  by (auto simp: virtqueue_nused_def virtqueue_navail_def Let_def used_q_def avail_q_def ring_simps
      word_le_nat_alt sys_ok_def sides_ok_def)

lemma sys_total:
  assumes "sys_inv s"
  shows "virtqueue_get_buffer (s_drv s) (s_vr s) \<noteq> None"
    and "virtqueue_get_available_buffer (s_dev s) (s_vr s) \<noteq> None"
    and "h \<in> set (s_held s) \<Longrightarrow>
      \<exists>vq vr. virtqueue_add_consumed_buffer (s_dev s) (s_vr s) h len = Some (VQUEUE_SUCCESS, vq, vr)"
    and "virtqueue_enable_cb (s_drv s) (s_vr s) \<noteq> None"
    and "virtqueue_enable_cb (s_dev s) (s_vr s) \<noteq> None"
proof -
  obtain free infl where ok: "sys_ok s free infl" using assms by (auto simp: sys_inv_def)
  have role: "vq_role (s_drv s) = VIRTIO_DEV_MASTER" "vq_role (s_dev s) = VIRTIO_DEV_SLAVE"
    using ok by (simp_all add: sys_ok_def sides_ok_def)
  show "virtqueue_get_buffer (s_drv s) (s_vr s) \<noteq> None"
    using sys_drv_get [OF ok] sys_drv_get_none [of s] by (cases "used_q s = []") auto
  show "virtqueue_get_available_buffer (s_dev s) (s_vr s) \<noteq> None"
    using sys_dev_get [OF ok] sys_dev_get_none [of s] by (cases "avail_q s = []") auto
  show "h \<in> set (s_held s) \<Longrightarrow>
      \<exists>vq vr. virtqueue_add_consumed_buffer (s_dev s) (s_vr s) h len = Some (VQUEUE_SUCCESS, vq, vr)"
    using sys_dev_put [OF ok] by blast
  have "virtqueue_nused (s_drv s) (vr\<lparr>avail_flags := x\<rparr>) = virtqueue_nused (s_drv s) vr"
    "virtqueue_nused (s_drv s) (vr\<lparr>vr_used_event := x\<rparr>) = virtqueue_nused (s_drv s) vr"
    "virtqueue_navail (s_dev s) (vr\<lparr>used_flags := x\<rparr>) = virtqueue_navail (s_dev s) vr"
    "virtqueue_navail (s_dev s) (vr\<lparr>vr_avail_event := x\<rparr>) = virtqueue_navail (s_dev s) vr" for vr x
    by (simp_all add: virtqueue_nused_def virtqueue_navail_def)
  then show "virtqueue_enable_cb (s_drv s) (s_vr s) \<noteq> None" "virtqueue_enable_cb (s_dev s) (s_vr s) \<noteq> None"
    by (simp_all add: virtqueue_enable_cb_def vq_ring_enable_interrupt_def role sys_pending [OF ok] Let_def)
qed

subsection \<open>The available ring as a first-in first-out buffer\<close>

type_synonym avail_side = "virtqueue \<times> virtqueue \<times> vring"

definition avail_contents :: "avail_side \<Rightarrow> u16 list" where
  "avail_contents = (\<lambda>(drv, dev, vr).
     ring_slice (unat (vq_nentries dev)) (avail_ring vr) (vq_available_idx dev) (avail_idx vr))"

definition avail_ok :: "u16 \<Rightarrow> avail_side \<Rightarrow> bool" where
  "avail_ok n = (\<lambda>(drv, dev, vr). vq_nentries drv = n \<and> vq_nentries dev = n \<and> ring_shape drv vr \<and>
     \<not> vq_inuse dev \<and> unat (avail_idx vr - vq_available_idx dev) \<le> unat n \<and>
     (\<forall>h \<in> set (avail_contents (drv, dev, vr)). h < n) \<and>
     (\<forall>h < n. virtqueue_phys_to_virt dev (d_addr (vr_desc vr ! unat h)) \<noteq> None))"

definition avail_room :: "u16 \<Rightarrow> avail_side \<Rightarrow> nat" where
  "avail_room n s = unat n - length (avail_contents s)"

text \<open>The driver publishes a head as long as the counters leave a slot; the device takes one.\<close>

definition avail_put :: "avail_side \<Rightarrow> u16 \<Rightarrow> avail_side option" where
  "avail_put = (\<lambda>(drv, dev, vr) h.
     if unat (avail_idx vr - vq_available_idx dev) < unat (vq_nentries drv)
     then map_option (\<lambda>(drv, vr). (drv, dev, vr)) (vq_ring_update_avail drv vr h)
     else None)"

definition avail_get :: "avail_side \<Rightarrow> (u16 \<times> avail_side) option" where
  "avail_get = (\<lambda>(drv, dev, vr).
     case virtqueue_get_available_buffer dev vr of
       Some (Some (va, ai, len), dev) \<Rightarrow> Some (ai, (drv, dev, vr))
     | _ \<Rightarrow> None)"

lemma avail_put_ok:
  assumes ok: "avail_ok n s" and h: "h < n" and put: "avail_put s h = Some s'"
  shows "avail_ok n s'" "avail_contents s' = avail_contents s @ [h]" "avail_room n s' = avail_room n s - 1"
proof -
  obtain drv dev vr where s: "s = (drv, dev, vr)" by (cases s) auto
  note ok' = ok [unfolded s avail_ok_def prod.case]
  have shape: "ring_shape drv vr" and nd: "vq_nentries drv = n" "vq_nentries dev = n" using ok' by simp_all
  have room: "unat (avail_idx vr - vq_available_idx dev) < unat n"
    using put ok' by (auto simp: s avail_put_def split: if_splits)
  have slot: "unat (avail_idx vr AND (n - 1)) = unat (avail_idx vr) mod unat n"
    "unat (avail_idx vr) mod unat n < length (avail_ring vr)"
    using ring_shape_mask [OF shape] ring_shape_slot [OF shape] ok' by (auto simp: ring_shape_def)
  have s': "s' = (drv\<lparr>vq_queued_cnt := vq_queued_cnt drv + 1\<rparr>, dev,
      vr\<lparr>avail_ring := (avail_ring vr)[unat (avail_idx vr) mod unat n := h], avail_idx := avail_idx vr + 1\<rparr>)"
    using put ok' slot by (auto simp: s avail_put_def vq_ring_update_avail_def Let_def split: if_splits)
  have sz: "ring_size_ok (unat n)" "length (avail_ring vr) = unat n"
    using ring_shape_ring_ok [OF shape] ok' by (auto simp: ring_shape_def)
  show c: "avail_contents s' = avail_contents s @ [h]"
    using ring_slice_push [OF sz(1) room, of "avail_ring vr" h] sz(2) by (simp add: avail_contents_def s s' nd)
  then show "avail_room n s' = avail_room n s - 1" by (simp add: avail_room_def)
  have "unat (avail_idx vr + 1 - vq_available_idx dev) = length (avail_contents s')"
    using ok' by (simp add: avail_contents_def s' ring_simps)
  also have "\<dots> \<le> unat n" unfolding c using room ok' by (simp add: s avail_contents_def ring_simps)
  finally have le: "unat (avail_idx vr + 1 - vq_available_idx dev) \<le> unat n" .
  have "\<forall>x \<in> set (avail_contents s'). x < n" unfolding c using ok' h by (auto simp: s)
  then show "avail_ok n s'"
    using ok' le nd by (simp add: avail_ok_def s s' ring_shape_def)
qed

lemma avail_get_cases:
  assumes ok: "avail_ok n s"
  shows "avail_contents s = [] \<Longrightarrow> avail_get s = None"
    "avail_contents s = h # hs \<Longrightarrow> \<exists>s'. avail_get s = Some (h, s') \<and> avail_ok n s' \<and> avail_contents s' = hs"
proof -
  obtain drv dev vr where s: "s = (drv, dev, vr)" by (cases s) auto
  note ok' = ok [unfolded s avail_ok_def prod.case]
  have shape: "ring_shape drv vr" using ok' by simp
  have sz: "ring_size_ok (unat n)" "length (avail_ring vr) = unat n"
    using ring_shape_ring_ok [OF shape] ok' by (auto simp: ring_shape_def)
  show "avail_contents s = [] \<Longrightarrow> avail_get s = None"
    by (simp add: s avail_contents_def avail_get_def virtqueue_get_available_buffer_def ring_simps)
  let ?ai = "vq_available_idx dev"
  assume c: "avail_contents s = h # hs"
  then have ne: "?ai \<noteq> avail_idx vr" by (auto simp: s avail_contents_def ring_simps)
  have hh: "avail_ring vr ! (unat ?ai mod unat n) = h"
    "ring_slice (unat n) (avail_ring vr) (?ai + 1) (avail_idx vr) = hs"
    using ring_slice_pop [OF sz(1) ne, of "avail_ring vr"] c ok' by (auto simp: s avail_contents_def)
  have slot: "unat (?ai AND (n - 1)) = unat ?ai mod unat n" "unat ?ai mod unat n < length (avail_ring vr)"
    using ring_shape_mask [OF shape] ring_shape_slot [OF shape] ok' by (auto simp: ring_shape_def)
  have hn: "h < n" "unat h < length (vr_desc vr)"
    using ok' c by (auto simp: s ring_shape_def word_less_nat_alt)
  obtain va where va: "virtqueue_phys_to_virt dev (d_addr (vr_desc vr ! unat h)) = Some va"
    using ok' hn by blast
  have tr: "virtqueue_phys_to_virt (dev\<lparr>vq_inuse := u, vq_available_idx := i\<rparr>) = virtqueue_phys_to_virt dev" for u i
    by (simp add: virtqueue_phys_to_virt_def fun_eq_iff)
  define s' where "s' = (drv, dev\<lparr>vq_available_idx := ?ai + 1\<rparr>, vr)"
  have "avail_get s = Some (h, s')"
    using ne slot hh hn va ok'
    by (simp add: s s'_def avail_get_def virtqueue_get_available_buffer_def VQUEUE_BUSY_def VQUEUE_IDLE_def Let_def tr)
  moreover have c': "avail_contents s' = hs" using hh ok' by (simp add: s'_def avail_contents_def)
  moreover have "avail_ok n s'"
  proof -
    have "unat (avail_idx vr - (?ai + 1)) = length hs" using c' ok' by (auto simp: s'_def avail_contents_def ring_simps)
    moreover have "length (h # hs) \<le> unat n" unfolding c [symmetric] using ok' by (simp add: s avail_contents_def ring_simps)
    ultimately have "unat (avail_idx vr - (?ai + 1)) \<le> unat n" by simp
    then show ?thesis
      using ok' c c' by (simp add: avail_ok_def s s'_def virtqueue_phys_to_virt_def)
  qed
  ultimately show "\<exists>s'. avail_get s = Some (h, s') \<and> avail_ok n s' \<and> avail_contents s' = hs" by blast
qed

interpretation avail: fifo "avail_ok n" avail_contents "avail_room n" "\<lambda>h. h < n" avail_put avail_get for n
proof unfold_locales
  show "avail_ok n s' \<and> avail_contents s' = avail_contents s @ [x] \<and> avail_room n s' = avail_room n s - 1"
    if "avail_ok n s" "x < n" "avail_put s x = Some s'" for s x s'
    using avail_put_ok [OF that] by simp
  show "avail_put s x \<noteq> None" if "avail_ok n s" "x < n" "0 < avail_room n s" for s x
    using that ring_shape_mask [of "fst s" "snd (snd s)"] ring_shape_slot [of "fst s" "snd (snd s)"]
    by (cases s) (auto simp: avail_ok_def avail_room_def avail_contents_def avail_put_def ring_simps
        vq_ring_update_avail_def Let_def ring_shape_def)
  show "avail_get s = None \<longleftrightarrow> avail_contents s = []" if "avail_ok n s" for s
    using avail_get_cases [OF that] by (cases "avail_contents s") auto
  show "avail_ok n s' \<and> avail_contents s = x # avail_contents s' \<and> avail_room n s' = avail_room n s + 1"
    if ok: "avail_ok n s" and get: "avail_get s = Some (x, s')" for s x s'
  proof (cases "avail_contents s")
    case Nil
    then show ?thesis using avail_get_cases(1) [OF ok] get by simp
  next
    case (Cons h hs)
    moreover have "length (avail_contents s) \<le> unat n"
      using ok by (auto simp: avail_ok_def avail_contents_def ring_simps)
    ultimately show ?thesis using avail_get_cases(2) [OF ok Cons] get by (auto simp: avail_room_def)
  qed
qed

subsection \<open>Layout and notification arithmetic\<close>

lemma need_event_iff:
  "vring_need_event ev new old \<longleftrightarrow> (\<exists>k < unat (new - old). ev = old + of_nat k)"
proof -
  define d e where "d = new - old" and "e = ev - old"
  have "new - ev - 1 = d - e - 1" by (simp add: d_def e_def)
  then have "vring_need_event ev new old \<longleftrightarrow> d - e - 1 < d"
    unfolding vring_need_event_def by (simp only: d_def)
  also have "\<dots> \<longleftrightarrow> e < d"
  proof (cases "e < d")
    case True
    then have "unat (d - e - 1) = unat d - unat e - 1"
      by (simp add: unat_sub_le word_le_nat_alt word_less_nat_alt)
    with True show ?thesis by (simp add: word_less_nat_alt)
  next
    case False
    then have le: "unat d \<le> unat e" by (simp add: word_less_nat_alt)
    have "d - e - 1 = - (e - d + 1)" by simp
    have "unat (e - d) = unat e - unat d" using le by (simp add: unat_sub_le word_le_nat_alt)
    then have "unat (e - d) + unat d < 2 ^ 16" using le unsigned_less [of e, where ?'a = nat] by simp
    moreover have "d - e - 1 = NOT (e - d)" by (simp add: not_eq_complement)
    moreover have "unat (NOT (e - d)) = 2 ^ 16 - 1 - unat (e - d)"
    proof -
      have "e - d \<le> - 1" by (rule word_n1_ge)
      then have "unat (- 1 - (e - d)) = unat (- 1 :: u16) - unat (e - d)" by (rule unat_sub_le)
      moreover have "NOT (e - d) = - 1 - (e - d)" by (simp add: not_eq_complement)
      moreover have "unat (- 1 :: u16) = 2 ^ 16 - 1" by (simp add: unsigned_minus_1_eq_mask mask_eq_exp_minus_1)
      ultimately show ?thesis by (simp only:)
    qed
    ultimately show ?thesis using False by (simp add: word_less_nat_alt)
  qed
  also have "\<dots> \<longleftrightarrow> (\<exists>k < unat d. ev = old + of_nat k)"
  proof
    assume "e < d"
    then show "\<exists>k < unat d. ev = old + of_nat k"
      by (intro exI [of _ "unat e"]) (simp add: e_def word_less_nat_alt)
  next
    assume "\<exists>k < unat d. ev = old + of_nat k"
    then show "e < d" by (auto simp: e_def of_nat_less_word)
  qed
  finally show ?thesis by (simp add: d_def)
qed


lemma vring_layout_fits:
  assumes num: "unat num \<le> 2 ^ 15" and a: "a \<le> 20" "align = 2 ^ a"
    and p: "unat p mod 2 ^ a = 0" "unat p + 2 ^ 22 < 2 ^ 64"
    and lay: "vring_layout num p align = (desc, avail, used)"
  shows "desc = p" "unat avail = unat p + 16 * unat num" "unat avail + 6 + 2 * unat num \<le> unat used"
    "unat used mod 2 ^ a = 0" "int (unat used) + 6 + 8 * int (unat num) = int (unat p) + vring_size num align"
proof -
  define n where "n = unat num"
  have n: "n \<le> 32768" using num by (simp add: n_def)
  have a2: "(2::nat) ^ a \<le> 2 ^ 20" using a(1) by (intro power_increasing) simp_all
  have "(2::u64) ^ a = of_nat (2 ^ a)" by simp
  moreover have "unat (of_nat (2 ^ a) :: u64) = 2 ^ a" using a2 by (intro unat_of_nat_lt) simp
  ultimately have al: "unat align = 2 ^ a" "align - 1 = mask a"
    unfolding a(2) by (simp_all only: mask_eq_decr_exp)
  define K where "K = 18 * n + 6 + 2 ^ a - 1"
  have K: "K < 2 ^ 21" "K - K mod 2 ^ a + K mod 2 ^ a = K" "K mod 2 ^ a < 2 ^ a" "18 * n + 6 + 2 ^ a = K + 1"
    using n a2 by (simp_all add: K_def)
  have num': "num = of_nat n" and numc: "(ucast num :: u64) = of_nat n"
    by (simp_all add: n_def)
  have p64: "unat p + 4194304 < 18446744073709551616" using p(2) by simp
  have d: "desc = p" "avail = p + ucast num * 16"
    "used = (avail + 4 + ucast num * 2 + 2 + align - 1) AND NOT (align - 1)"
    using lay by (auto simp: vring_layout_def Let_def)
  show "desc = p" by (rule d(1))
  have "avail = of_nat (unat p + 16 * n)" by (simp add: d(2) numc)
  moreover have "unat (of_nat (unat p + 16 * n) :: u64) = unat p + 16 * n"
    using n p64 by (intro unat_of_nat_lt) simp
  ultimately show av: "unat avail = unat p + 16 * unat num" by (simp only: n_def)
  have "avail + 4 + ucast num * 2 + 2 + align - 1 = p + of_nat K"
    by (simp add: d(2) numc K_def a(2) algebra_simps of_nat_diff)
  also have "\<dots> = of_nat (unat p + K)" by simp
  finally have sum: "avail + 4 + ucast num * 2 + 2 + align - 1 = of_nat (unat p + K)" .
  have "unat (of_nat (unat p + K) :: u64) = unat p + K"
    using K(1) p64 by (intro unat_of_nat_lt) simp
  then have us: "unat used = unat p + K - (unat p + K) mod 2 ^ a"
    unfolding d(3) al(2) sum by (simp only: unat_and_not_mask)
  have us: "unat used = unat p + (K - K mod 2 ^ a)"
  proof -
    have "(unat p + K) mod 2 ^ a = K mod 2 ^ a" using p(1) by (simp add: mod_add_eq [symmetric])
    then show ?thesis using us by simp
  qed
  show "unat avail + 6 + 2 * unat num \<le> unat used"
    using K(2,3,4) unfolding us av n_def [symmetric] by linarith
  have "2 ^ a dvd K - K mod 2 ^ a" by (simp add: minus_mod_eq_mult_div)
  moreover have "2 ^ a dvd unat p" using p(1) by (simp add: dvd_eq_mod_eq_0)
  ultimately show "unat used mod 2 ^ a = 0" unfolding us by (simp only: dvd_add dvd_eq_mod_eq_0 [symmetric])
  have sz: "vring_size num align = int (K - K mod 2 ^ a + 8 * n + 6)"
  proof -
    have e1: "int_of_ulong (ucast num * 16) = int (16 * n)"
      using int_of_ulong_nat [of "16 * n"] n by (simp add: numc mult.commute)
    have e2: "int_of_ulong (of_int (int (16 * n)) + (4 + ucast num * 2 + 2)) = int (18 * n + 6)"
      using int_of_ulong_nat [of "18 * n + 6"] n by (simp add: numc algebra_simps)
    have "of_int (int (18 * n + 6)) + align - 1 = of_nat K"
      by (simp add: K_def a(2) algebra_simps of_nat_diff)
    moreover have "of_nat K AND NOT (mask a) = (of_nat (K - K mod 2 ^ a) :: u64)"
    proof (rule eq_of_nat_unat)
      have "unat (of_nat K :: u64) = K" using K(1) by (intro unat_of_nat_lt) simp
      then show "unat (of_nat K AND NOT (mask a) :: u64) = K - K mod 2 ^ a"
        by (simp only: unat_and_not_mask)
    qed
    moreover have "K - K mod 2 ^ a < 2 ^ 31" using K(1) by simp
    ultimately have e3: "int_of_ulong ((of_int (int (18 * n + 6)) + align - 1) AND NOT (align - 1)) =
        int (K - K mod 2 ^ a)"
      by (simp only: al(2) int_of_ulong_nat)
    have "of_int (int L) + (4 + ucast num * 8 + 2) = (of_nat (L + 8 * n + 6) :: u64)" for L
      by (simp add: numc algebra_simps)
    moreover have "K - K mod 2 ^ a + 8 * n + 6 < 2 ^ 31" using K(1) n by simp
    ultimately have e4: "int_of_ulong (of_int (int (K - K mod 2 ^ a)) + (4 + ucast num * 8 + 2)) =
        int (K - K mod 2 ^ a + 8 * n + 6)"
      by (simp only: int_of_ulong_nat)
    show ?thesis unfolding vring_size_def Let_def e1 e2 e3 e4 by (rule refl)
  qed
  show "int (unat used) + 6 + 8 * int (unat num) = int (unat p) + vring_size num align"
    unfolding us sz n_def [symmetric] by (simp only: of_nat_add of_nat_mult of_nat_numeral add.assoc add.left_commute add.commute)
qed


subsection \<open>A queue of two descriptors\<close>

definition ex_io :: io_region where
  "ex_io = metal_io_init 4096 (Some [1048576]) 65536 64 0 None"

definition ex_ring :: vring_alloc_info where
  "ex_ring = \<lparr>vi_vaddr = 4096, vi_align = 4096, vi_num_descs = 2\<rparr>"

definition ex_mem :: vring where
  "ex_mem = \<lparr>vr_desc = replicate 2 \<lparr>d_addr = 0, d_len = 0, d_flags = 0, d_next = 0\<rparr>,
     avail_flags = 0, avail_idx = 0, avail_ring = [0, 0], vr_used_event = 0,
     used_flags = 0, used_idx = 0, used_ring = replicate 2 \<lparr>ue_id = 0, ue_len = 0\<rparr>, vr_avail_event = 0\<rparr>"

definition ex_drv :: "virtqueue \<times> vring" where
  "ex_drv = (case virtqueue_create 0 (Some ex_ring) None None
       (Some (virtqueue_allocate VIRTIO_DEV_MASTER 0 ex_io (2 ^ 1))) ex_mem of
     Some (st, Some vq, vr) \<Rightarrow> (vq, vr) | _ \<Rightarrow> (virtqueue_allocate VIRTIO_DEV_MASTER 0 ex_io 0, ex_mem))"

definition ex_dev :: virtqueue where
  "ex_dev = (virtqueue_allocate VIRTIO_DEV_SLAVE 0 ex_io 0)\<lparr>vq_nentries := 2, vq_free_cnt := 2\<rparr>"

definition ex_s0 :: vq_sys where
  "ex_s0 = \<lparr>s_drv = fst ex_drv, s_dev = ex_dev, s_vr = snd ex_drv, s_held = []\<rparr>"

definition ex_bufs :: "virtqueue_buf list" where
  "ex_bufs = [\<lparr>vb_buf = 5000, vb_len = 64\<rparr>]"

definition ex_s1 :: vq_sys where
  "ex_s1 = (case virtqueue_add_buffer (s_drv ex_s0) (s_vr ex_s0) ex_bufs 0 1 7 of
     Some (st, vq, vr) \<Rightarrow> ex_s0\<lparr>s_drv := vq, s_vr := vr\<rparr> | None \<Rightarrow> ex_s0)"

definition ex_s2 :: vq_sys where
  "ex_s2 = (case virtqueue_get_available_buffer (s_dev ex_s1) (s_vr ex_s1) of
     Some (Some (va, h, len), vq) \<Rightarrow> ex_s1\<lparr>s_dev := vq, s_held := s_held ex_s1 @ [h]\<rparr> | _ \<Rightarrow> ex_s1)"

definition ex_s3 :: vq_sys where
  "ex_s3 = (case virtqueue_add_consumed_buffer (s_dev ex_s2) (s_vr ex_s2) 0 10 of
     Some (st, vq, vr) \<Rightarrow> ex_s2\<lparr>s_dev := vq, s_vr := vr, s_held := remove1 0 (s_held ex_s2)\<rparr> | None \<Rightarrow> ex_s2)"

definition ex_s4 :: vq_sys where
  "ex_s4 = (case virtqueue_get_buffer (s_drv ex_s3) (s_vr ex_s3) of
     Some (r, vq, vr) \<Rightarrow> ex_s3\<lparr>s_drv := vq, s_vr := vr\<rparr> | None \<Rightarrow> ex_s3)"

lemma ex_steps:
  "case virtqueue_create 0 (Some ex_ring) None None
       (Some (virtqueue_allocate VIRTIO_DEV_MASTER 0 ex_io (2 ^ 1))) ex_mem of
     Some (st, Some vq, vr) \<Rightarrow> st = VQUEUE_SUCCESS | _ \<Rightarrow> False"
  "case virtqueue_add_buffer (s_drv ex_s0) (s_vr ex_s0) ex_bufs 0 1 7 of
     Some (st, vq, vr) \<Rightarrow> st = VQUEUE_SUCCESS | None \<Rightarrow> False"
  "vq_free_cnt (s_drv ex_s0) = 2"
  "\<forall>b \<in> set ex_bufs. in_region (s_drv ex_s0) b"
  "case virtqueue_get_available_buffer (s_dev ex_s1) (s_vr ex_s1) of
     Some (Some (va, h, len), vq) \<Rightarrow> va = 5000 \<and> h = 0 \<and> len = 64 | _ \<Rightarrow> False"
  "0 \<in> set (s_held ex_s2)"
  "case virtqueue_add_consumed_buffer (s_dev ex_s2) (s_vr ex_s2) 0 10 of
     Some (st, vq, vr) \<Rightarrow> st = VQUEUE_SUCCESS | None \<Rightarrow> False"
  "case virtqueue_get_buffer (s_drv ex_s3) (s_vr ex_s3) of
     Some (Some (c, len, slot), vq, vr) \<Rightarrow> c = 7 \<and> len = 10 | _ \<Rightarrow> False"
  by code_simp+

lemma ex_io_ok: "region_ok ex_io" "io_virt ex_io \<noteq> METAL_BAD_VA"
  using metal_io_init_flat [of 64 "[1048576]"]
  by (auto simp: region_ok_def ex_io_def) (simp add: metal_io_init_def METAL_BAD_VA_def)

lemma ex_created:
  "virtqueue_create 0 (Some ex_ring) None None
     (Some (virtqueue_allocate VIRTIO_DEV_MASTER 0 ex_io (2 ^ 1))) ex_mem =
   Some (VQUEUE_SUCCESS, Some (s_drv ex_s0), s_vr ex_s0)"
  "virtqueue_create 0 (Some ex_ring) None None
     (Some (virtqueue_allocate VIRTIO_DEV_SLAVE 0 ex_io 0)) (s_vr ex_s0) =
   Some (VQUEUE_SUCCESS, Some (s_dev ex_s0), s_vr ex_s0)"
proof -
  show "virtqueue_create 0 (Some ex_ring) None None
     (Some (virtqueue_allocate VIRTIO_DEV_MASTER 0 ex_io (2 ^ 1))) ex_mem =
   Some (VQUEUE_SUCCESS, Some (s_drv ex_s0), s_vr ex_s0)"
    using ex_steps(1) by (auto simp: ex_s0_def ex_drv_def split: option.splits prod.splits)
  have n: "unat (vi_num_descs ex_ring) = 2 ^ 1" by (simp add: ex_ring_def)
  show "virtqueue_create 0 (Some ex_ring) None None
     (Some (virtqueue_allocate VIRTIO_DEV_SLAVE 0 ex_io 0)) (s_vr ex_s0) =
   Some (VQUEUE_SUCCESS, Some (s_dev ex_s0), s_vr ex_s0)"
    unfolding create_slave [OF n] by (simp add: ex_s0_def ex_dev_def ex_ring_def virtqueue_allocate_def)
qed

lemma ex_ring_facts: "unat (vi_num_descs ex_ring) = 2 ^ 1" "ring_mem (2 ^ 1) ex_mem"
  by (simp_all add: ex_ring_def ring_mem_def ex_mem_def)

lemma ex_inv: "sys_inv ex_s0"
proof -
  obtain drv dev vr where
    c: "virtqueue_create 0 (Some ex_ring) None None
         (Some (virtqueue_allocate VIRTIO_DEV_MASTER 0 ex_io (2 ^ 1))) ex_mem = Some (VQUEUE_SUCCESS, Some drv, vr)"
       "virtqueue_create 0 (Some ex_ring) None None
         (Some (virtqueue_allocate VIRTIO_DEV_SLAVE 0 ex_io 0)) vr = Some (VQUEUE_SUCCESS, Some dev, vr)"
    and i: "sys_inv \<lparr>s_drv = drv, s_dev = dev, s_vr = vr, s_held = []\<rparr>"
    using create_pair [OF ex_ring_facts ex_io_ok, of 0 None None 0 0 None None 0 0] by blast
  then have "drv = s_drv ex_s0" "vr = s_vr ex_s0" "dev = s_dev ex_s0"
    using ex_created by auto
  moreover have "ex_s0 = \<lparr>s_drv = s_drv ex_s0, s_dev = s_dev ex_s0, s_vr = s_vr ex_s0, s_held = []\<rparr>"
    by (simp add: ex_s0_def)
  ultimately show ?thesis using i by simp
qed

definition ex_events :: "vq_event list" where
  "ex_events = [DrvAdd 7 5000 64, DevGet 5000 0 64, DevPut 0 10, DrvGet 7 10]"

lemma ex_run: "sys_run ex_s0 ex_events ex_s4"
proof -
  obtain vq vr where a: "virtqueue_add_buffer (s_drv ex_s0) (s_vr ex_s0) ex_bufs 0 1 7 = Some (VQUEUE_SUCCESS, vq, vr)"
    using ex_steps(2) by (auto split: option.splits prod.splits)
  then have "ex_s1 = ex_s0\<lparr>s_drv := vq, s_vr := vr\<rparr>" by (simp add: ex_s1_def)
  moreover have "DrvAdd 7 5000 64 = DrvAdd 7 (vb_buf (hd ex_bufs)) (of_int (vb_len (hd ex_bufs)))"
    by (simp add: ex_bufs_def)
  ultimately have 1: "sys_step ex_s0 (DrvAdd 7 5000 64) ex_s1"
    using drv_add [OF a ex_steps(4), of 1] ex_steps(3) by (simp add: ex_bufs_def)
  have 2: "sys_step ex_s1 (DevGet 5000 0 64) ex_s2"
    using ex_steps(5) by (auto simp: ex_s2_def intro!: dev_get split: option.splits prod.splits)
  have 3: "sys_step ex_s2 (DevPut 0 10) ex_s3"
    using ex_steps(6,7) by (auto simp: ex_s3_def intro!: dev_put split: option.splits prod.splits)
  have 4: "sys_step ex_s3 (DrvGet 7 10) ex_s4"
    using ex_steps(8) by (auto simp: ex_s4_def intro!: drv_get split: option.splits prod.splits)
  have "sys_run ex_s0 ((([] @ [DrvAdd 7 5000 64]) @ [DevGet 5000 0 64]) @ [DevPut 0 10]) ex_s3"
    by (rule run_snoc [OF run_snoc [OF run_snoc [OF run_Nil 1] 2] 3])
  from run_snoc [OF this 4] show ?thesis by (simp add: ex_events_def)
qed

subsection \<open>Properties\<close>

text \<open>C3: the two sides of a virtqueue, in any interleaving of their operations, refine the
  abstract queue of posted, held and returned buffers: every step of the code is a step of the
  specification with the same observable values, and the invariant of free descriptor chain,
  chains in flight, cookies and ring contents is kept.\<close>

theorem vq_refines_spec:
  assumes "sys_inv s" and "sys_run s es t"
  shows "sys_inv t \<and> abs_run (vq_abs_of s) es (vq_abs_of t)"
  using sys_run_simulates assms by blast

theorem vq_refines_spec_witness:
  "sys_inv ex_s4 \<and> abs_run (vq_abs_of ex_s0) ex_events (vq_abs_of ex_s4)"
  using vq_refines_spec [OF ex_inv ex_run] .

text \<open>C9: from a queue pair set up by \<open>virtqueue_create\<close>, whatever the two sides do, the device
  receives the posted buffers (address and length) in posting order, the driver receives the
  used lengths in the order the device returned them, and the cookies returned are exactly
  those posted and not still in flight.\<close>

theorem vq_transport:
  assumes "unat (vi_num_descs ring) = 2 ^ k" and "ring_mem (2 ^ k) vr0"
    and "region_ok io" and "io_virt io \<noteq> METAL_BAD_VA"
    and "virtqueue_create qid (Some ring) cb nf (Some (virtqueue_allocate VIRTIO_DEV_MASTER f io (2 ^ k))) vr0 =
      Some (VQUEUE_SUCCESS, Some drv, vr)"
    and "virtqueue_create qid' (Some ring) cb' nf' (Some (virtqueue_allocate VIRTIO_DEV_SLAVE f' io m)) vr =
      Some (VQUEUE_SUCCESS, Some dev, vr)"
    and "sys_run \<lparr>s_drv = drv, s_dev = dev, s_vr = vr, s_held = []\<rparr> es t"
  shows "log_of posted_buf es = log_of received_buf es @ map snd (a_avail (vq_abs_of t)) \<and>
    log_of put_len es = log_of returned_len es @ map snd (a_used (vq_abs_of t)) \<and>
    mset (log_of added_cookie es) = mset (log_of returned_cookie es) + mset (held_cookies (vq_abs_of t))"
proof -
  let ?s = "\<lparr>s_drv = drv, s_dev = dev, s_vr = vr, s_held = []\<rparr>"
  have "sys_inv ?s \<and> vq_abs_of ?s = vq_abs_empty"
    using create_pair [OF assms(1-4), of qid cb nf f qid' cb' nf' f' m] assms(5,6) by auto
  then have "abs_run vq_abs_empty es (vq_abs_of t)"
    using sys_run_simulates [OF assms(7)] by simp
  moreover have "a_ok vq_abs_empty" by (simp add: a_ok_def vq_abs_empty_def a_heads_def)
  ultimately show ?thesis
    using abs_run_fifo [of vq_abs_empty es] abs_run_cookies [of vq_abs_empty es]
    by (simp add: vq_abs_empty_def held_cookies_def a_heads_def)
qed

theorem vq_transport_witness:
  "log_of posted_buf ex_events = log_of received_buf ex_events @ map snd (a_avail (vq_abs_of ex_s4)) \<and>
    log_of put_len ex_events = log_of returned_len ex_events @ map snd (a_used (vq_abs_of ex_s4)) \<and>
    mset (log_of added_cookie ex_events) =
      mset (log_of returned_cookie ex_events) + mset (held_cookies (vq_abs_of ex_s4))"
proof -
  have "ex_s0 = \<lparr>s_drv = s_drv ex_s0, s_dev = s_dev ex_s0, s_vr = s_vr ex_s0, s_held = []\<rparr>"
    by (simp add: ex_s0_def)
  then show ?thesis
    using vq_transport [OF ex_ring_facts ex_io_ok ex_created, of ex_events ex_s4] ex_run by simp
qed

text \<open>Under the invariant no operation of either side hits an assertion, an access outside the
  ring or an endless descriptor walk: taking buffers on either side and enabling callbacks always
  return, returning a held buffer succeeds, and posting \<open>k\<close> buffers of the shared region
  succeeds whenever \<open>k\<close> descriptors are free.\<close>

theorem vq_no_fault:
  assumes "sys_inv s"
  shows "virtqueue_get_buffer (s_drv s) (s_vr s) \<noteq> None \<and>
    virtqueue_get_available_buffer (s_dev s) (s_vr s) \<noteq> None \<and>
    virtqueue_enable_cb (s_drv s) (s_vr s) \<noteq> None \<and> virtqueue_enable_cb (s_dev s) (s_vr s) \<noteq> None \<and>
    (\<forall>h \<in> set (s_held s). \<exists>vq vr.
       virtqueue_add_consumed_buffer (s_dev s) (s_vr s) h len = Some (VQUEUE_SUCCESS, vq, vr)) \<and>
    ((\<forall>b \<in> set bufs. in_region (s_drv s) b) \<longrightarrow> k \<le> length bufs \<longrightarrow> cookie \<noteq> 0 \<longrightarrow>
       readable + writable = int k \<longrightarrow> 0 < k \<longrightarrow> k \<le> unat (vq_free_cnt (s_drv s)) \<longrightarrow>
       (\<exists>vq vr. virtqueue_add_buffer (s_drv s) (s_vr s) bufs readable writable cookie =
          Some (VQUEUE_SUCCESS, vq, vr)))"
proof -
  obtain free infl where ok: "sys_ok s free infl" using assms by (auto simp: sys_inv_def)
  show ?thesis using sys_total [OF assms] sys_add [OF ok] by blast
qed

theorem vq_no_fault_witness:
  "virtqueue_get_buffer (s_drv ex_s0) (s_vr ex_s0) \<noteq> None \<and>
    (\<exists>vq vr. virtqueue_add_buffer (s_drv ex_s0) (s_vr ex_s0) ex_bufs 0 1 7 = Some (VQUEUE_SUCCESS, vq, vr))"
  using vq_no_fault [OF ex_inv, of 0 ex_bufs 1 7 0 1] ex_steps(3,4) by (simp add: ex_bufs_def)

text \<open>\<open>virtqueue_add_buffer\<close> on a consistent driver queue takes the first \<open>k\<close> descriptors of the
  free chain, writes address, length and direction of each buffer into them, links them, stores
  the cookie, publishes the head in the next slot of the available ring and changes nothing else.\<close>

theorem virtqueue_add_buffer_correct:
  assumes "drv_inv vq vr free infl" and "readable + writable = int k" "0 < k" "k \<le> length free"
    and "cookie \<noteq> 0" and "bufs_mapped vq bufs" "k \<le> length bufs"
  shows "\<exists>vq' vr'. virtqueue_add_buffer vq vr bufs readable writable cookie =
      Some (VQUEUE_SUCCESS, vq', vr') \<and>
      drv_inv vq' vr' (drop k free) (infl @ [take k free]) \<and>
      added vq vr (take k free) k bufs readable cookie vq' vr'"
  by (rule add_buffer_spec) (use assms in auto)

lemma ex_drv_inv: "\<exists>vq. drv_inv vq (snd ex_drv) [0, 1] [] \<and> vq = fst ex_drv"
proof -
  let ?v = "virtqueue_allocate VIRTIO_DEV_MASTER 0 ex_io (2 ^ 1)"
  obtain vq vr where "virtqueue_create 0 (Some ex_ring) None None (Some ?v) ex_mem = Some (VQUEUE_SUCCESS, Some vq, vr)"
    "drv_inv vq vr (map of_nat [0..<2 ^ 1]) []"
    using create_drv_inv [OF ex_ring_facts(1), of ?v ex_mem 0 None None] ex_ring_facts(2)
    by (auto simp: ring_mem_def virtqueue_allocate_def)
  moreover from this have "vq = fst ex_drv" "vr = snd ex_drv" using ex_created(1) by (auto simp: ex_s0_def)
  moreover have "[0..<2 ^ 1] = [0, 1::nat]" by (simp add: upt_rec)
  ultimately show ?thesis by simp
qed

lemma ex_lengths: "vq_used_cons_idx (fst ex_drv) = 0" "length (used_ring (snd ex_drv)) = 2"
  "length (vq_descx (fst ex_drv)) = 2"
  by code_simp+

lemma ex_mapped: "bufs_mapped (fst ex_drv) ex_bufs"
  by code_simp

theorem virtqueue_add_buffer_correct_witness:
  "\<exists>vq' vr'. virtqueue_add_buffer (fst ex_drv) (snd ex_drv) ex_bufs 0 1 7 = Some (VQUEUE_SUCCESS, vq', vr') \<and>
     drv_inv vq' vr' [1] [[0]]"
proof -
  have inv: "drv_inv (fst ex_drv) (snd ex_drv) [0, 1] []" using ex_drv_inv by blast
  from ex_mapped show ?thesis
    using virtqueue_add_buffer_correct [OF inv, of 0 1 1 7 ex_bufs] by (auto simp: ex_bufs_def)
qed

text \<open>\<open>virtqueue_get_buffer\<close> on a consistent driver queue whose next used entry names the head of
  a chain in flight returns that chain's cookie, the length the device wrote and the ring slot;
  the chain's descriptors, however many, are back at the front of the free chain, the cookie is
  cleared and no other chain is touched.\<close>

theorem virtqueue_get_buffer_correct:
  assumes "drv_inv vq vr free (l1 @ c # l2)" and "vq_used_cons_idx vq \<noteq> used_idx vr"
    and "used_ring vr ! (unat (vq_used_cons_idx vq) mod unat (vq_nentries vq)) =
      \<lparr>ue_id = ucast (hd c), ue_len = len\<rparr>"
  shows "\<exists>vq' vr'. virtqueue_get_buffer vq vr =
      Some (Some (x_cookie (vq_descx vq ! unat (hd c)), len,
                  vq_used_cons_idx vq AND (vq_nentries vq - 1)), vq', vr') \<and>
      drv_inv vq' vr' (c @ free) (l1 @ l2) \<and> got vq vr c vq' vr'"
  by (rule get_buffer_spec) (use assms in auto)

theorem virtqueue_get_buffer_correct_witness:
  "\<exists>vq vr vq' vr'. drv_inv vq vr [1] [[0]] \<and>
     virtqueue_get_buffer vq vr = Some (Some (7, 10, 0), vq', vr') \<and> drv_inv vq' vr' [0, 1] []"
proof -
  have inv: "drv_inv (fst ex_drv) (snd ex_drv) [0, 1] []" using ex_drv_inv by blast
  obtain vq vr where a: "drv_inv vq vr [1] [[0]]" "added (fst ex_drv) (snd ex_drv) [0] 1 ex_bufs 0 7 vq vr"
    using add_buffer_spec [OF inv, of 0 1 1 7 ex_bufs] ex_mapped by (auto simp: ex_bufs_def)
  define vr1 where "vr1 = vr\<lparr>used_ring := (used_ring vr)[0 := \<lparr>ue_id = 0, ue_len = 10\<rparr>], used_idx := 1\<rparr>"
  have f: "vq_used_cons_idx vq = 0" "used_ring vr \<noteq> []" "x_cookie (vq_descx vq ! 0) = 7"
    using added_fields [OF a(2)] ex_lengths by auto
  have "drv_inv vq vr1 [1] ([] @ [0] # [])"
    using a(1) by (simp add: vr1_def drv_inv_def ring_shape_def)
  from virtqueue_get_buffer_correct [OF this, of 10] f show ?thesis
    using \<open>drv_inv vq vr1 [1] ([] @ [0] # [])\<close> by (force simp: vr1_def)
qed

text \<open>Refused requests leave queue and ring as they are: an empty request is reported as an
  invalid parameter, a request on a queue with no free descriptor as full, and a driver with no
  used entry and a device with no available one get the null pointer.\<close>

theorem virtqueue_refusals:
  assumes "\<not> vq_inuse vq"
  shows "(readable + writable < 1 \<longrightarrow>
      virtqueue_add_buffer vq vr bufs readable writable cookie = Some (ERROR_VQUEUE_INVLD_PARAM, vq, vr)) \<and>
    (1 \<le> readable + writable \<and> vq_free_cnt vq = 0 \<longrightarrow>
      virtqueue_add_buffer vq vr bufs readable writable cookie = Some (ERROR_VRING_FULL, vq, vr)) \<and>
    (vq_used_cons_idx vq = used_idx vr \<longrightarrow> virtqueue_get_buffer vq vr = Some (None, vq, vr)) \<and>
    (vq_available_idx vq = avail_idx vr \<longrightarrow> virtqueue_get_available_buffer vq vr = Some (None, vq)) \<and>
    (vq_nentries vq < h \<longrightarrow> virtqueue_add_consumed_buffer vq vr h len = Some (ERROR_VRING_NO_BUFF, vq, vr))"
  using add_buffer_errors [OF assms]
  by (simp add: virtqueue_get_buffer_def virtqueue_get_available_buffer_def virtqueue_add_consumed_buffer_def)

theorem virtqueue_refusals_witness:
  "virtqueue_add_buffer ex_dev ex_mem ex_bufs 0 0 7 = Some (ERROR_VQUEUE_INVLD_PARAM, ex_dev, ex_mem)"
proof -
  have "\<not> vq_inuse ex_dev" by (simp add: ex_dev_def virtqueue_allocate_def)
  from virtqueue_refusals [OF this, where readable = 0 and writable = 0 and bufs = ex_bufs and cookie = 7 and vr = ex_mem]
  show ?thesis by simp
qed

text \<open>The available ring with its two free-running 16-bit counters is a first-in first-out buffer
  from the driver's publication to the device's take, across wrap-around of the counters: any run
  of the two operations delivers exactly the published heads in order, and a run that publishes
  no more than the free slots completes.\<close>

theorem avail_ring_fifo:
  assumes "avail_ok n s" and "\<forall>h \<in> set (fifo_inputs ops). h < n"
  shows "(\<forall>out t. fifo_run avail_put avail_get s ops = Some (out, t) \<longrightarrow>
      avail_contents s @ fifo_inputs ops = out @ avail_contents t) \<and>
    (length (fifo_inputs ops) \<le> avail_room n s \<longrightarrow> fifo_run avail_put avail_get s ops \<noteq> None)"
  using avail.run_order [OF assms] avail.run_total [OF assms] by fastforce

theorem avail_ring_fifo_witness:
  "\<exists>out t. fifo_run avail_put avail_get (s_drv ex_s0, s_dev ex_s0, s_vr ex_s0) [Put 1, Put 0, Get] = Some (out, t) \<and>
     [1, 0] = out @ avail_contents t"
proof -
  let ?s = "(s_drv ex_s0, s_dev ex_s0, s_vr ex_s0)"
  have c: "avail_contents ?s = []" "vq_nentries (s_drv ex_s0) = 2" by code_simp+
  have tr: "virtqueue_phys_to_virt (s_dev ex_s0) (d_addr (vr_desc (s_vr ex_s0) ! 0)) \<noteq> None"
    "virtqueue_phys_to_virt (s_dev ex_s0) (d_addr (vr_desc (s_vr ex_s0) ! 1)) \<noteq> None" by code_simp+
  obtain free infl where ok: "sys_ok ex_s0 free infl" using ex_inv by (auto simp: sys_inv_def)
  have two: "h = 0 \<or> h = 1" if "h < 2" for h :: u16
  proof -
    have "unat h = 0 \<or> unat h = 1" using that by (simp add: word_less_nat_alt) linarith
    then show ?thesis using eq_of_nat_unat [of h 0] eq_of_nat_unat [of h 1] by auto
  qed
  have "vq_nentries (s_dev ex_s0) = 2" "avail_idx (s_vr ex_s0) = vq_available_idx (s_dev ex_s0)" by code_simp+
  then have "avail_ok 2 ?s"
    using ok c tr by (auto simp: avail_ok_def sys_ok_def sides_ok_def drv_inv_def dest!: two)
  from avail_ring_fifo [OF this, of "[Put 1, Put 0, Get]"] c show ?thesis
    by (force simp: avail_room_def)
qed

text \<open>\<open>vring_need_event\<close> holds exactly when the event index is one of the entries
  \<open>old, old + 1, ..., new - 1\<close>, with all arithmetic modulo \<open>2 ^ 16\<close>.\<close>

theorem vring_need_event_correct:
  "vring_need_event event_idx new_idx old \<longleftrightarrow> (\<exists>k < unat (new_idx - old). event_idx = old + of_nat k)"
  by (rule need_event_iff)

text \<open>\<open>virtqueue_kick\<close> runs the notify function exactly when there is one and the other side asked
  for it: with event indices, when the requested index is among the entries queued since the last
  kick; without, when the suppression flag is clear. Afterwards nothing counts as queued.\<close>

theorem virtqueue_kick_correct:
  assumes "\<not> vq_inuse vq"
  shows "\<exists>b vq'. virtqueue_kick vq vr = Some (b, vq') \<and> vq' = vq\<lparr>vq_queued_cnt := 0\<rparr> \<and>
    (b \<longleftrightarrow> vq_notify vq \<noteq> None \<and>
      (let (ev, idx, fl) = (case vq_role vq of
           VIRTIO_DEV_MASTER \<Rightarrow> (vr_avail_event vr, avail_idx vr, used_flags vr AND VRING_USED_F_NO_NOTIFY)
         | VIRTIO_DEV_SLAVE \<Rightarrow> (vr_used_event vr, used_idx vr, avail_flags vr AND VRING_AVAIL_F_NO_INTERRUPT))
       in if event_idx_on vq
          then \<exists>k < unat (vq_queued_cnt vq). ev = idx - vq_queued_cnt vq + of_nat k
          else fl = 0))"
  using assms
  by (auto simp: virtqueue_kick_def VQUEUE_BUSY_def VQUEUE_IDLE_def Let_def vq_ring_must_notify_def
      need_event_iff event_idx_on_def split: vdev_role.splits)

theorem virtqueue_kick_correct_witness:
  "\<exists>b vq'. virtqueue_kick (ex_dev\<lparr>vq_notify := Some 1\<rparr>) ex_mem = Some (b, vq') \<and> b"
proof -
  have "\<not> vq_inuse (ex_dev\<lparr>vq_notify := Some 1\<rparr>)" by (simp add: ex_dev_def virtqueue_allocate_def)
  from virtqueue_kick_correct [OF this, of ex_mem] show ?thesis
    by (auto simp: ex_dev_def virtqueue_allocate_def event_idx_on_def ex_mem_def)
qed

text \<open>\<open>vring_init\<close> places descriptor table, available ring with its event word, and used ring
  with its event word one after the other without overlap, the used ring aligned, and the whole
  ends exactly \<open>vring_size\<close> bytes after an aligned start.\<close>

theorem vring_layout_correct:
  assumes "unat num \<le> 2 ^ 15" and "a \<le> 20" "align = 2 ^ a"
    and "unat p mod 2 ^ a = 0" "unat p + 2 ^ 22 < 2 ^ 64"
    and "vring_layout num p align = (desc, avail, used)"
  shows "desc = p \<and> unat avail = unat p + 16 * unat num \<and> unat avail + 6 + 2 * unat num \<le> unat used \<and>
    unat used mod 2 ^ a = 0 \<and> int (unat used) + 6 + 8 * int (unat num) = int (unat p) + vring_size num align"
  using vring_layout_fits [OF assms] by blast

theorem vring_layout_correct_witness:
  "\<exists>desc avail used. vring_layout 16 65536 4096 = (desc, avail, used) \<and> unat avail = 65536 + 256 \<and>
     unat used mod 4096 = 0"
proof -
  obtain desc avail used where l: "vring_layout 16 65536 4096 = (desc, avail, used)"
    by (cases "vring_layout 16 65536 4096") auto
  have "unat avail = unat (65536 :: u64) + 16 * unat (16 :: u32) \<and> unat used mod 2 ^ 12 = 0"
    using vring_layout_correct [of 16 12 4096 65536, OF _ _ _ _ _ l] by simp
  then show ?thesis using l by simp
qed

end
