(* ===== verification/Bitmap.thy ===== *)
theory Bitmap
  imports Prelude
begin

text \<open>
  The bitmap helpers of \<^verbatim>\<open>openamp/include/metal/utilities.h\<close>. A bitmap is the array of
  64-bit words the code indexes (\<open>unsigned long *\<close>); its meaning is the set of bit numbers
  that are set (\<open>bm_set\<close>). The interface its clients rely on (the endpoint addresses of
  rpmsg and the notification identifiers of remoteproc) is the locale \<open>id_pool\<close>, and the
  bitmap is interpreted as one.
\<close>

definition metal_bit :: "nat \<Rightarrow> u64" where
  "metal_bit b = push_bit b 1"

definition metal_bitmap_set_bit :: "u64 list \<Rightarrow> nat \<Rightarrow> u64 list option" where
  "metal_bitmap_set_bit bm b = do {
     w \<leftarrow> get_at bm (b div 64);
     set_at bm (b div 64) (w OR metal_bit (b mod 64)) }"

definition metal_bitmap_is_bit_set :: "u64 list \<Rightarrow> nat \<Rightarrow> bool option" where
  "metal_bitmap_is_bit_set bm b = do {
     w \<leftarrow> get_at bm (b div 64);
     Some (w AND metal_bit (b mod 64) \<noteq> 0) }"

definition metal_bitmap_clear_bit :: "u64 list \<Rightarrow> nat \<Rightarrow> u64 list option" where
  "metal_bitmap_clear_bit bm b = do {
     w \<leftarrow> get_at bm (b div 64);
     set_at bm (b div 64) (w AND NOT (metal_bit (b mod 64))) }"

definition metal_bitmap_is_bit_clear :: "u64 list \<Rightarrow> nat \<Rightarrow> bool option" where
  "metal_bitmap_is_bit_clear bm b = map_option Not (metal_bitmap_is_bit_set bm b)"

function metal_bitmap_next_set_bit :: "u64 list \<Rightarrow> nat \<Rightarrow> nat \<Rightarrow> nat option" where
  "metal_bitmap_next_set_bit bm b m =
     (if b < m then
        (case metal_bitmap_is_bit_set bm b of
           None \<Rightarrow> None
         | Some s \<Rightarrow> if \<not> s then metal_bitmap_next_set_bit bm (b + 1) m else Some b)
      else Some b)"
  by pat_completeness auto
termination by (relation "measure (\<lambda>(bm, b, m). m - b)") auto

function metal_bitmap_next_clear_bit :: "u64 list \<Rightarrow> nat \<Rightarrow> nat \<Rightarrow> nat option" where
  "metal_bitmap_next_clear_bit bm b m =
     (if b < m then
        (case metal_bitmap_is_bit_clear bm b of
           None \<Rightarrow> None
         | Some c \<Rightarrow> if \<not> c then metal_bitmap_next_clear_bit bm (b + 1) m else Some b)
      else Some b)"
  by pat_completeness auto
termination by (relation "measure (\<lambda>(bm, b, m). m - b)") auto

declare metal_bitmap_next_set_bit.simps [simp del]
declare metal_bitmap_next_clear_bit.simps [simp del]

subsection \<open>The set of bits a bitmap denotes\<close>

definition bm_cap :: "u64 list \<Rightarrow> nat" where
  "bm_cap bm = 64 * length bm"

definition bm_set :: "u64 list \<Rightarrow> nat set" where
  "bm_set bm = {b. b < bm_cap bm \<and> bit (bm ! (b div 64)) (b mod 64)}"

lemma bm_index: "b < bm_cap bm \<longleftrightarrow> b div 64 < length bm"
  by (auto simp: bm_cap_def div_less_iff_less_mult less_mult_imp_div_less mult.commute)

lemma bit_metal_bit [simp]: "b < 64 \<Longrightarrow> bit (metal_bit b) k \<longleftrightarrow> k = b"
  by (auto simp: metal_bit_def bit_exp_iff possible_bit_word)

lemma and_metal_bit: "b < 64 \<Longrightarrow> (w AND metal_bit b \<noteq> 0) \<longleftrightarrow> bit w b"
proof -
  assume b: "b < 64"
  have "bit (w AND metal_bit b) k \<longleftrightarrow> k = b \<and> bit w b" for k
    using b by (auto simp: bit_and_iff)
  then show ?thesis by (metis bit_0_eq bit_eqI bot_apply bot_bool_def bit_0)
qed

lemma is_bit_set_spec: "b < bm_cap bm \<Longrightarrow> metal_bitmap_is_bit_set bm b = Some (b \<in> bm_set bm)"
  by (simp add: metal_bitmap_is_bit_set_def bm_index bm_set_def and_metal_bit)

lemma is_bit_set_outside: "\<not> b < bm_cap bm \<Longrightarrow> metal_bitmap_is_bit_set bm b = None"
  by (simp add: metal_bitmap_is_bit_set_def bm_index get_at_def)

lemma is_bit_clear_spec: "b < bm_cap bm \<Longrightarrow> metal_bitmap_is_bit_clear bm b = Some (b \<notin> bm_set bm)"
  by (simp add: metal_bitmap_is_bit_clear_def is_bit_set_spec)

lemma bit_index_neq: "a \<noteq> (b :: nat) \<Longrightarrow> a div 64 = b div 64 \<Longrightarrow> a mod 64 \<noteq> b mod 64"
  by (metis mod_div_decomp)

lemma bm_set_update:
  assumes "b < bm_cap bm" and "\<And>k. k \<noteq> b mod 64 \<Longrightarrow> bit w k \<longleftrightarrow> bit (bm ! (b div 64)) k"
  shows "bm_set (bm[b div 64 := w]) =
    (if bit w (b mod 64) then insert b (bm_set bm) else bm_set bm - {b})"
proof (rule set_eqI)
  fix x
  have "x \<in> bm_set (bm[b div 64 := w]) \<longleftrightarrow> x \<in> bm_set bm" if "x \<noteq> b"
    using that assms bit_index_neq [of x b]
    by (cases "x div 64 = b div 64") (auto simp: bm_set_def bm_cap_def)
  moreover have "b \<in> bm_set (bm[b div 64 := w]) \<longleftrightarrow> bit w (b mod 64)"
    using assms(1) by (auto simp: bm_set_def bm_index bm_cap_def)
  ultimately show "x \<in> bm_set (bm[b div 64 := w]) \<longleftrightarrow>
      x \<in> (if bit w (b mod 64) then insert b (bm_set bm) else bm_set bm - {b})"
    by auto
qed

lemma set_bit_spec:
  assumes "b < bm_cap bm"
  shows "\<exists>bm'. metal_bitmap_set_bit bm b = Some bm' \<and> bm_cap bm' = bm_cap bm \<and>
     bm_set bm' = insert b (bm_set bm)"
  using assms bm_set_update [OF assms, of "bm ! (b div 64) OR metal_bit (b mod 64)"]
  by (simp add: metal_bitmap_set_bit_def bm_index bit_or_iff) (simp add: bm_cap_def)

lemma clear_bit_spec:
  assumes "b < bm_cap bm"
  shows "\<exists>bm'. metal_bitmap_clear_bit bm b = Some bm' \<and> bm_cap bm' = bm_cap bm \<and>
     bm_set bm' = bm_set bm - {b}"
  using assms bm_set_update [OF assms, of "bm ! (b div 64) AND NOT (metal_bit (b mod 64))"]
    bit_imp_le_length [of "bm ! (b div 64)"]
  by (auto simp: metal_bitmap_clear_bit_def bm_index bit_and_iff bit_not_iff possible_bit_word bm_cap_def)

lemma next_clear_spec:
  "m \<le> bm_cap bm \<Longrightarrow> b \<le> m \<Longrightarrow> \<exists>k. metal_bitmap_next_clear_bit bm b m = Some k \<and>
     b \<le> k \<and> k \<le> m \<and> {b..<k} \<subseteq> bm_set bm \<and> (k < m \<longrightarrow> k \<notin> bm_set bm)"
proof (induction bm b m rule: metal_bitmap_next_clear_bit.induct)
  case (1 bm b m)
  show ?case
  proof (cases "b < m \<and> b \<in> bm_set bm")
    case True
    then have "metal_bitmap_is_bit_clear bm b = Some False"
      using "1.prems" by (simp add: is_bit_clear_spec)
    with True "1.IH" [of False] "1.prems" obtain k where
      "metal_bitmap_next_clear_bit bm (b + 1) m = Some k" "b + 1 \<le> k" "k \<le> m"
      "{b + 1..<k} \<subseteq> bm_set bm" "k < m \<longrightarrow> k \<notin> bm_set bm"
      by auto
    moreover from this have "{b..<k} = insert b {b + 1..<k}" by auto
    ultimately show ?thesis
      using True \<open>metal_bitmap_is_bit_clear bm b = Some False\<close>
      by (auto simp: metal_bitmap_next_clear_bit.simps [of bm b m])
  next
    case False
    with "1.prems" show ?thesis
      by (auto simp: metal_bitmap_next_clear_bit.simps [of bm b m] is_bit_clear_spec)
  qed
qed

lemma next_set_spec:
  "m \<le> bm_cap bm \<Longrightarrow> b \<le> m \<Longrightarrow> \<exists>k. metal_bitmap_next_set_bit bm b m = Some k \<and>
     b \<le> k \<and> k \<le> m \<and> {b..<k} \<inter> bm_set bm = {} \<and> (k < m \<longrightarrow> k \<in> bm_set bm)"
proof (induction bm b m rule: metal_bitmap_next_set_bit.induct)
  case (1 bm b m)
  show ?case
  proof (cases "b < m \<and> b \<notin> bm_set bm")
    case True
    then have s: "metal_bitmap_is_bit_set bm b = Some False"
      using "1.prems" by (simp add: is_bit_set_spec)
    with True "1.IH" [of False] "1.prems" obtain k where
      "metal_bitmap_next_set_bit bm (b + 1) m = Some k" "b + 1 \<le> k" "k \<le> m"
      "{b + 1..<k} \<inter> bm_set bm = {}" "k < m \<longrightarrow> k \<in> bm_set bm"
      by auto
    moreover from this have "{b..<k} = insert b {b + 1..<k}" by auto
    ultimately show ?thesis
      using True s by (auto simp: metal_bitmap_next_set_bit.simps [of bm b m])
  next
    case False
    with "1.prems" show ?thesis
      by (auto simp: metal_bitmap_next_set_bit.simps [of bm b m] is_bit_set_spec)
  qed
qed

subsection \<open>The interface: a pool of numbered identifiers\<close>

text \<open>
  What the allocators above the bitmap use of it: test, take and give back one identifier,
  and find the first free one of a range.
\<close>

locale id_pool =
  fixes cap :: "'b \<Rightarrow> nat"
    and taken :: "'b \<Rightarrow> nat set"
    and test :: "'b \<Rightarrow> nat \<Rightarrow> bool option"
    and take_id :: "'b \<Rightarrow> nat \<Rightarrow> 'b option"
    and give :: "'b \<Rightarrow> nat \<Rightarrow> 'b option"
    and first_free :: "'b \<Rightarrow> nat \<Rightarrow> nat \<Rightarrow> nat option"
  assumes test_spec: "i < cap b \<Longrightarrow> test b i = Some (i \<in> taken b)"
    and take_spec: "i < cap b \<Longrightarrow>
      \<exists>b'. take_id b i = Some b' \<and> cap b' = cap b \<and> taken b' = insert i (taken b)"
    and give_spec: "i < cap b \<Longrightarrow>
      \<exists>b'. give b i = Some b' \<and> cap b' = cap b \<and> taken b' = taken b - {i}"
    and free_spec: "m \<le> cap b \<Longrightarrow> s \<le> m \<Longrightarrow> \<exists>k. first_free b s m = Some k \<and>
      s \<le> k \<and> k \<le> m \<and> {s..<k} \<subseteq> taken b \<and> (k < m \<longrightarrow> k \<notin> taken b)"
begin

lemma takeE:
  assumes "i < cap b"
  obtains b' where "take_id b i = Some b'" "cap b' = cap b" "taken b' = insert i (taken b)"
  using take_spec [OF assms] by blast

lemma giveE:
  assumes "i < cap b"
  obtains b' where "give b i = Some b'" "cap b' = cap b" "taken b' = taken b - {i}"
  using give_spec [OF assms] by blast

text \<open>Either the first free identifier is found, or every one of the range is taken.\<close>

lemma first_free_cases:
  assumes "m \<le> cap b" "s \<le> m"
  obtains (found) k where "first_free b s m = Some k" "s \<le> k" "k < m" "k \<notin> taken b" "{s..<k} \<subseteq> taken b"
  | (full) "first_free b s m = Some m" "{s..<m} \<subseteq> taken b"
  using free_spec [OF assms] by (metis order_le_less)

lemma take_free_fresh:
  assumes "m \<le> cap b" "s \<le> m" "first_free b s m = Some k" "k < m"
  shows "k \<notin> taken b" "s \<le> k" "\<exists>b'. take_id b k = Some b' \<and> cap b' = cap b \<and> taken b' = insert k (taken b)"
  using free_spec [OF assms(1,2)] take_spec [of k b] assms by auto

lemma take_give:
  assumes "i < cap b" "i \<notin> taken b" "take_id b i = Some b'"
  shows "\<exists>b''. give b' i = Some b'' \<and> taken b'' = taken b \<and> cap b'' = cap b"
  using take_spec [OF assms(1)] give_spec [of i b'] assms by auto

end

interpretation bm: id_pool bm_cap bm_set metal_bitmap_is_bit_set metal_bitmap_set_bit
    metal_bitmap_clear_bit metal_bitmap_next_clear_bit
  by unfold_locales
    (simp_all add: is_bit_set_spec set_bit_spec clear_bit_spec next_clear_spec)

end
