(* ===== verification/Metal_Block.thy ===== *)
theory Metal_Block
  imports Metal_Io
begin

text \<open>
  The block operations of \<^verbatim>\<open>openamp/libmetal/io.c\<close> and of
  \<^verbatim>\<open>openamp/platform/shmem_ops.c\<close> on a byte store: a byte loop up to the first aligned
  address, a loop of 32-bit accesses, and a byte loop for the rest. Lengths are the C \<open>int\<close>s
  they are in the code; a negative one makes the last loop run away, which is the result
  \<open>None\<close> of the \<open>partial_function\<close>s. The reference semantics is \<open>mem_fill\<close> and \<open>mem_copy\<close>.
\<close>

type_synonym mem = "u64 \<Rightarrow> u8"

definition ERANGE :: int where "ERANGE = 34"

definition load32 :: "mem \<Rightarrow> u64 \<Rightarrow> u32" where
  "load32 m a = ucast (m a) OR push_bit 8 (ucast (m (a + 1))) OR
     push_bit 16 (ucast (m (a + 2))) OR push_bit 24 (ucast (m (a + 3)))"

definition store32 :: "mem \<Rightarrow> u64 \<Rightarrow> u32 \<Rightarrow> mem" where
  "store32 m a w = m(a := ucast w, a + 1 := ucast (drop_bit 8 w),
     a + 2 := ucast (drop_bit 16 w), a + 3 := ucast (drop_bit 24 w))"

subsection \<open>Filling\<close>

partial_function (option) set_head :: "u8 \<Rightarrow> u64 \<Rightarrow> int \<Rightarrow> mem \<Rightarrow> (u64 \<times> int \<times> mem) option" where
  "set_head v ptr len m =
     (if len \<noteq> 0 \<and> ptr mod 4 \<noteq> 0 then set_head v (ptr + 1) (len - 1) (m(ptr := v))
      else Some (ptr, len, m))"

partial_function (option) set_words :: "u32 \<Rightarrow> u64 \<Rightarrow> int \<Rightarrow> mem \<Rightarrow> (u64 \<times> int \<times> mem) option" where
  "set_words c ptr len m =
     (if 4 \<le> len then set_words c (ptr + 4) (len - 4) (store32 m ptr c)
      else Some (ptr, len, m))"

partial_function (option) set_tail :: "u8 \<Rightarrow> u64 \<Rightarrow> int \<Rightarrow> mem \<Rightarrow> mem option" where
  "set_tail v ptr len m =
     (if len \<noteq> 0 then set_tail v (ptr + 1) (len - 1) (m(ptr := v)) else Some m)"

text \<open>\<open>cint\<close>: the byte repeated four times, built by the code's shift loop.\<close>

definition rep_byte :: "u8 \<Rightarrow> u32" where
  "rep_byte v = fold (\<lambda>i c. c OR push_bit (8 * i) (ucast v)) [1..<4] (ucast v)"

definition set_loops :: "u8 \<Rightarrow> u64 \<Rightarrow> int \<Rightarrow> mem \<Rightarrow> mem option" where
  "set_loops v ptr len m = do {
     (ptr1, len1, m1) \<leftarrow> set_head v ptr len m;
     (ptr2, len2, m2) \<leftarrow> set_words (rep_byte v) ptr1 len1 m1;
     set_tail v ptr2 len2 m2 }"

definition shmem_metal_io_block_set :: "io_region \<Rightarrow> u64 \<Rightarrow> u8 \<Rightarrow> int \<Rightarrow> mem \<Rightarrow> mem option" where
  "shmem_metal_io_block_set io offset v len m =
     (let ptr = metal_io_virt io offset in if ptr = 0 then Some m else set_loops v ptr len m)"

text \<open>\<open>if ((offset + len) > io->size) len = io->size - offset;\<close>\<close>

definition clip_len :: "io_region \<Rightarrow> u64 \<Rightarrow> int \<Rightarrow> int" where
  "clip_len io offset len =
     (if offset + of_int len > io_size io then int_of_ulong (io_size io - offset) else len)"

definition metal_io_block_set ::
  "io_region \<Rightarrow> u64 \<Rightarrow> u8 \<Rightarrow> int \<Rightarrow> mem \<Rightarrow> (int \<times> mem) option" where
  "metal_io_block_set io offset v len m =
     (let ptr = metal_io_virt io offset in
      if ptr = 0 then Some (- ERANGE, m)
      else
        let len = clip_len io offset len in
        case io_ops_of io of
          Shmem_sunxi_io_ops \<Rightarrow> do { m \<leftarrow> shmem_metal_io_block_set io offset v len m; Some (len, m) }
        | Nops \<Rightarrow> do { m \<leftarrow> set_loops v ptr len m; Some (len, m) })"

subsection \<open>Copying\<close>

partial_function (option) copy_head ::
  "u64 \<Rightarrow> u64 \<Rightarrow> int \<Rightarrow> mem \<Rightarrow> (u64 \<times> u64 \<times> int \<times> mem) option" where
  "copy_head dest src len m =
     (if len \<noteq> 0 \<and> (dest mod 4 \<noteq> 0 \<or> src mod 4 \<noteq> 0)
      then copy_head (dest + 1) (src + 1) (len - 1) (m(dest := m src))
      else Some (dest, src, len, m))"

partial_function (option) copy_words ::
  "u64 \<Rightarrow> u64 \<Rightarrow> int \<Rightarrow> mem \<Rightarrow> (u64 \<times> u64 \<times> int \<times> mem) option" where
  "copy_words dest src len m =
     (if 4 \<le> len then copy_words (dest + 4) (src + 4) (len - 4) (store32 m dest (load32 m src))
      else Some (dest, src, len, m))"

partial_function (option) copy_tail :: "u64 \<Rightarrow> u64 \<Rightarrow> int \<Rightarrow> mem \<Rightarrow> mem option" where
  "copy_tail dest src len m =
     (if len \<noteq> 0 then copy_tail (dest + 1) (src + 1) (len - 1) (m(dest := m src)) else Some m)"

definition copy_loops :: "u64 \<Rightarrow> u64 \<Rightarrow> int \<Rightarrow> mem \<Rightarrow> mem option" where
  "copy_loops dest src len m = do {
     (d1, s1, len1, m1) \<leftarrow> copy_head dest src len m;
     (d2, s2, len2, m2) \<leftarrow> copy_words d1 s1 len1 m1;
     copy_tail d2 s2 len2 m2 }"

definition shmem_metal_io_block_read ::
  "io_region \<Rightarrow> u64 \<Rightarrow> u64 \<Rightarrow> int \<Rightarrow> mem \<Rightarrow> (int \<times> mem) option" where
  "shmem_metal_io_block_read io offset dst len m =
     (let ptr = metal_io_virt io offset in
      if ptr = 0 then Some (0, m) else do { m \<leftarrow> copy_loops dst ptr len m; Some (len, m) })"

definition shmem_metal_io_block_write ::
  "io_region \<Rightarrow> u64 \<Rightarrow> u64 \<Rightarrow> int \<Rightarrow> mem \<Rightarrow> (int \<times> mem) option" where
  "shmem_metal_io_block_write io offset src len m =
     (let ptr = metal_io_virt io offset in
      if ptr = 0 then Some (0, m) else do { m \<leftarrow> copy_loops ptr src len m; Some (len, m) })"

definition metal_io_block_read ::
  "io_region \<Rightarrow> u64 \<Rightarrow> u64 \<Rightarrow> int \<Rightarrow> mem \<Rightarrow> (int \<times> mem) option" where
  "metal_io_block_read io offset dst len m =
     (let ptr = metal_io_virt io offset in
      if ptr = 0 then Some (- ERANGE, m)
      else
        let len = clip_len io offset len in
        case io_ops_of io of
          Shmem_sunxi_io_ops \<Rightarrow> shmem_metal_io_block_read io offset dst len m
        | Nops \<Rightarrow> do { m \<leftarrow> copy_loops dst ptr len m; Some (len, m) })"

definition metal_io_block_write ::
  "io_region \<Rightarrow> u64 \<Rightarrow> u64 \<Rightarrow> int \<Rightarrow> mem \<Rightarrow> (int \<times> mem) option" where
  "metal_io_block_write io offset src len m =
     (let ptr = metal_io_virt io offset in
      if ptr = 0 then Some (- ERANGE, m)
      else
        let len = clip_len io offset len in
        case io_ops_of io of
          Shmem_sunxi_io_ops \<Rightarrow> shmem_metal_io_block_write io offset src len m
        | Nops \<Rightarrow> do { m \<leftarrow> copy_loops ptr src len m; Some (len, m) })"

subsection \<open>Reference semantics\<close>

definition mem_fill :: "mem \<Rightarrow> u64 \<Rightarrow> nat \<Rightarrow> u8 \<Rightarrow> mem" where
  "mem_fill m p n v = (\<lambda>a. if unat (a - p) < n then v else m a)"

definition mem_copy :: "mem \<Rightarrow> u64 \<Rightarrow> u64 \<Rightarrow> nat \<Rightarrow> mem" where
  "mem_copy m d s n = (\<lambda>a. if unat (a - d) < n then m (s + (a - d)) else m a)"

text \<open>No byte of the source range lies in the destination range (the code's \<open>restrict\<close>).\<close>

definition mem_disjoint :: "u64 \<Rightarrow> u64 \<Rightarrow> nat \<Rightarrow> bool" where
  "mem_disjoint d s n \<longleftrightarrow> (\<forall>i < n. \<not> unat (s + of_nat i - d) < n)"

lemma unat_sub_of_nat:
  "k < 2 ^ 64 \<Longrightarrow> unat (x - of_nat k :: u64) =
     (if k \<le> unat x then unat x - k else unat x + 2 ^ 64 - k)"
  by (auto simp: unat_sub_if' unat_of_nat_lt word_le_nat_alt)

lemma mem_fill_0 [simp]: "mem_fill m p 0 v = m"
  by (simp add: mem_fill_def)

lemma mem_fill_1: "m(p := v) = mem_fill m p 1 v"
  by (auto simp: mem_fill_def fun_eq_iff unat_eq_0)

lemma mem_fill_fill:
  assumes "k + j < 2 ^ 64"
  shows "mem_fill (mem_fill m p k v) (p + of_nat k) j v = mem_fill m p (k + j) v"
proof (rule ext)
  fix a
  have "unat (a - (p + of_nat k)) = unat ((a - p) - of_nat k)" by (simp add: algebra_simps)
  then show "mem_fill (mem_fill m p k v) (p + of_nat k) j v a = mem_fill m p (k + j) v a"
    using assms unsigned_less [of "a - p", where ?'a = nat]
    by (auto simp: mem_fill_def unat_sub_of_nat split: if_splits)
qed

lemma mem_copy_0 [simp]: "mem_copy m d s 0 = m"
  by (simp add: mem_copy_def)

lemma mem_copy_1: "m(d := m s) = mem_copy m d s 1"
  by (auto simp: mem_copy_def fun_eq_iff unat_eq_0)

lemma mem_copy_copy:
  assumes "k + j < 2 ^ 64" "mem_disjoint d s (k + j)"
  shows "mem_copy (mem_copy m d s k) (d + of_nat k) (s + of_nat k) j = mem_copy m d s (k + j)"
proof (rule ext)
  fix a
  define x where "x = a - d"
  have a: "a - (d + of_nat k) = x - of_nat k" by (simp add: x_def algebra_simps)
  have src: "m (s + x) = mem_copy m d s k (s + x)" if "unat x < k + j"
    using assms(2) that by (auto simp: mem_disjoint_def mem_copy_def dest!: spec [of _ "unat x"])
  have "s + of_nat k + (x - of_nat k) = s + x" by simp
  then show "mem_copy (mem_copy m d s k) (d + of_nat k) (s + of_nat k) j a = mem_copy m d s (k + j) a"
    using assms(1) src unsigned_less [of x, where ?'a = nat]
    by (auto simp: mem_copy_def a x_def [symmetric] unat_sub_of_nat split: if_splits)
qed

subsection \<open>The loops compute the reference semantics\<close>

text \<open>
  The cells that are \<open>a + i\<close> for one of the four byte positions, used to compare a 32-bit
  store with four byte stores.
\<close>

lemma unat_less_4: "unat (x :: u64) < 4 \<longleftrightarrow> x = 0 \<or> x = 1 \<or> x = 2 \<or> x = 3"
proof
  assume "unat x < 4"
  then have "unat x = 0 \<or> unat x = 1 \<or> unat x = 2 \<or> unat x = 3" by linarith
  then show "x = 0 \<or> x = 1 \<or> x = 2 \<or> x = 3" by (auto dest!: eq_of_nat_unat)
qed auto

lemma store32_cases:
  "store32 m p w a = (if a - p = 0 then ucast w else if a - p = 1 then ucast (drop_bit 8 w)
     else if a - p = 2 then ucast (drop_bit 16 w) else if a - p = 3 then ucast (drop_bit 24 w)
     else m a)"
proof -
  define x where "x = a - p"
  have a: "a = p + x" by (simp add: x_def)
  have "store32 m p w (p + x) = (if x = 0 then ucast w else if x = 1 then ucast (drop_bit 8 w)
     else if x = 2 then ucast (drop_bit 16 w) else if x = 3 then ucast (drop_bit 24 w)
     else m (p + x))"
    by (simp add: store32_def)
  then show ?thesis by (simp add: a)
qed

lemma no_bit_u8: "8 \<le> k \<Longrightarrow> \<not> bit (x :: u8) k"
  using bit_imp_le_length [of x k] by auto

lemma rep_byte_bytes:
  "ucast (rep_byte v) = v" "ucast (drop_bit 8 (rep_byte v)) = v"
  "ucast (drop_bit 16 (rep_byte v)) = v" "ucast (drop_bit 24 (rep_byte v)) = v"
  by (auto simp: rep_byte_def upt_conv_Cons bit_simps intro!: bit_word_eqI simp: no_bit_u8)

lemma store32_rep_byte: "store32 m p (rep_byte v) = mem_fill m p 4 v"
  by (rule ext) (simp add: store32_cases mem_fill_def unat_less_4 rep_byte_bytes)

lemma load32_bytes:
  "ucast (load32 m a) = m a" "ucast (drop_bit 8 (load32 m a)) = m (a + 1)"
  "ucast (drop_bit 16 (load32 m a)) = m (a + 2)" "ucast (drop_bit 24 (load32 m a)) = m (a + 3)"
  by (auto simp: load32_def bit_simps intro!: bit_word_eqI simp: no_bit_u8)

lemma store32_load32: "store32 m d (load32 m s) = mem_copy m d s 4"
  by (rule ext) (auto simp: store32_cases mem_copy_def unat_less_4 load32_bytes)

lemma set_head_fill:
  "n < 2 ^ 64 \<Longrightarrow> \<exists>k \<le> n. set_head v p (int n) m = Some (p + of_nat k, int n - int k, mem_fill m p k v)"
proof (induction n arbitrary: p m)
  case 0
  then show ?case by (simp add: set_head.simps)
next
  case (Suc n)
  show ?case
  proof (cases "p mod 4 = 0")
    case True
    then show ?thesis by (intro exI [of _ 0]) (simp add: set_head.simps)
  next
    case False
    obtain k where k: "k \<le> n" "set_head v (p + 1) (int n) (m(p := v)) =
        Some (p + 1 + of_nat k, int n - int k, mem_fill (m(p := v)) (p + 1) k v)"
      using Suc.IH [of "p + 1" "m(p := v)"] Suc.prems by (auto simp del: fun_upd_apply)
    moreover have "mem_fill (m(p := v)) (p + 1) k v = mem_fill m p (Suc k) v"
      using mem_fill_fill [of 1 k m p v] Suc.prems k(1) by (simp add: mem_fill_1)
    ultimately show ?thesis
      using False by (intro exI [of _ "Suc k"]) (simp add: set_head.simps [of v p] algebra_simps)
  qed
qed

lemma set_words_fill:
  "n < 2 ^ 64 \<Longrightarrow> \<exists>k \<le> n. set_words (rep_byte v) p (int n) m =
     Some (p + of_nat k, int n - int k, mem_fill m p k v)"
proof (induction n arbitrary: p m rule: less_induct)
  case (less n)
  show ?case
  proof (cases "4 \<le> n")
    case False
    then show ?thesis by (intro exI [of _ 0]) (simp add: set_words.simps)
  next
    case True
    obtain k where k: "k \<le> n - 4" "set_words (rep_byte v) (p + 4) (int n - 4) (mem_fill m p 4 v) =
        Some (p + 4 + of_nat k, int n - 4 - int k, mem_fill (mem_fill m p 4 v) (p + 4) k v)"
      using less.IH [of "n - 4" "p + 4" "mem_fill m p 4 v"] less.prems True
        order_le_less_trans [OF diff_le_self less.prems, of 4]
      by (auto simp: of_nat_diff)
    moreover have "mem_fill (mem_fill m p 4 v) (p + 4) k v = mem_fill m p (4 + k) v"
      using mem_fill_fill [of 4 k m p v] less.prems k(1) True by simp
    ultimately show ?thesis
      using True
      by (intro exI [of _ "4 + k"])
        (auto simp: set_words.simps [of _ p] store32_rep_byte of_nat_diff algebra_simps)
  qed
qed

lemma set_tail_fill: "n < 2 ^ 64 \<Longrightarrow> set_tail v p (int n) m = Some (mem_fill m p n v)"
proof (induction n arbitrary: p m)
  case 0
  then show ?case by (simp add: set_tail.simps)
next
  case (Suc n)
  then show ?case
    using mem_fill_fill [of 1 n m p v] by (simp add: set_tail.simps [of v p] mem_fill_1)
qed

lemma set_loops_fill:
  assumes "n < 2 ^ 64"
  shows "set_loops v p (int n) m = Some (mem_fill m p n v)"
proof -
  obtain k1 where k1: "k1 \<le> n"
    "set_head v p (int n) m = Some (p + of_nat k1, int n - int k1, mem_fill m p k1 v)"
    using set_head_fill [OF assms] by blast
  obtain k2 where k2: "k2 \<le> n - k1"
    "set_words (rep_byte v) (p + of_nat k1) (int (n - k1)) (mem_fill m p k1 v) =
       Some (p + of_nat k1 + of_nat k2, int (n - k1) - int k2,
         mem_fill (mem_fill m p k1 v) (p + of_nat k1) k2 v)"
    using set_words_fill [of "n - k1"] assms by (meson diff_le_self order_le_less_trans)
  have 1: "mem_fill (mem_fill m p k1 v) (p + of_nat k1) k2 v = mem_fill m p (k1 + k2) v"
    using k1(1) k2(1) assms by (intro mem_fill_fill) simp
  have "mem_fill (mem_fill m p (k1 + k2) v) (p + of_nat (k1 + k2)) (n - k1 - k2) v = mem_fill m p n v"
    using mem_fill_fill [of "k1 + k2" "n - k1 - k2" m p v] k1(1) k2(1) assms by simp
  moreover have "int n - int k1 = int (n - k1)" "int (n - k1) - int k2 = int (n - k1 - k2)"
    using k1(1) k2(1) by simp_all
  moreover have "n - k1 - k2 < 2 ^ 64" using assms by linarith
  ultimately show ?thesis
    using k1(2) k2(2) 1 set_tail_fill [of "n - k1 - k2"]
    by (simp only: set_loops_def Option.bind.simps split of_nat_add add.assoc)
qed

lemma mem_disjoint_shift:
  assumes "mem_disjoint d s (k + j)"
  shows "mem_disjoint (d + of_nat k) (s + of_nat k) j"
  unfolding mem_disjoint_def
proof (intro allI impI)
  fix i assume "i < j"
  then have "\<not> unat (s + of_nat i - d) < k + j"
    using assms by (simp add: mem_disjoint_def)
  then show "\<not> unat (s + of_nat k + of_nat i - (d + of_nat k)) < j"
    by (simp add: algebra_simps)
qed

lemma mem_disjoint_le:
  assumes "mem_disjoint d s n" "k \<le> n"
  shows "mem_disjoint d s k"
  unfolding mem_disjoint_def
proof (intro allI impI)
  fix i assume "i < k"
  then have "\<not> unat (s + of_nat i - d) < n"
    using assms by (simp add: mem_disjoint_def)
  then show "\<not> unat (s + of_nat i - d) < k" using assms(2) by simp
qed

lemma copy_head_copy:
  "n < 2 ^ 64 \<Longrightarrow> mem_disjoint d s n \<Longrightarrow> \<exists>k \<le> n. copy_head d s (int n) m =
     Some (d + of_nat k, s + of_nat k, int n - int k, mem_copy m d s k)"
proof (induction n arbitrary: d s m)
  case 0
  then show ?case by (simp add: copy_head.simps)
next
  case (Suc n)
  show ?case
  proof (cases "d mod 4 = 0 \<and> s mod 4 = 0")
    case True
    then show ?thesis by (intro exI [of _ 0]) (simp add: copy_head.simps)
  next
    case False
    obtain k where k: "k \<le> n" "copy_head (d + 1) (s + 1) (int n) (m(d := m s)) =
        Some (d + 1 + of_nat k, s + 1 + of_nat k, int n - int k,
          mem_copy (m(d := m s)) (d + 1) (s + 1) k)"
      using Suc.IH [of "d + 1" "s + 1" "m(d := m s)"] Suc.prems mem_disjoint_shift [of d s 1 n]
      by (auto simp del: fun_upd_apply)
    moreover have "mem_copy (m(d := m s)) (d + 1) (s + 1) k = mem_copy m d s (Suc k)"
      using mem_copy_copy [of 1 k d s m] Suc.prems k(1) mem_disjoint_le [of d s "Suc n" "Suc k"]
      by (simp add: mem_copy_1)
    ultimately show ?thesis
      using False by (intro exI [of _ "Suc k"]) (simp add: copy_head.simps [of d s] algebra_simps)
  qed
qed

lemma copy_words_copy:
  "n < 2 ^ 64 \<Longrightarrow> mem_disjoint d s n \<Longrightarrow> \<exists>k \<le> n. copy_words d s (int n) m =
     Some (d + of_nat k, s + of_nat k, int n - int k, mem_copy m d s k)"
proof (induction n arbitrary: d s m rule: less_induct)
  case (less n)
  show ?case
  proof (cases "4 \<le> n")
    case False
    then show ?thesis by (intro exI [of _ 0]) (simp add: copy_words.simps)
  next
    case True
    obtain k where k: "k \<le> n - 4" "copy_words (d + 4) (s + 4) (int n - 4) (mem_copy m d s 4) =
        Some (d + 4 + of_nat k, s + 4 + of_nat k, int n - 4 - int k,
          mem_copy (mem_copy m d s 4) (d + 4) (s + 4) k)"
      using less.IH [of "n - 4" "d + 4" "s + 4" "mem_copy m d s 4"] less.prems True
        order_le_less_trans [OF diff_le_self less.prems(1), of 4] mem_disjoint_shift [of d s 4 "n - 4"]
      by (auto simp: of_nat_diff)
    moreover have "mem_copy (mem_copy m d s 4) (d + 4) (s + 4) k = mem_copy m d s (4 + k)"
      using mem_copy_copy [of 4 k d s m] less.prems k(1) True mem_disjoint_le [of d s n "4 + k"] by simp
    ultimately show ?thesis
      using True
      by (intro exI [of _ "4 + k"])
        (auto simp: copy_words.simps [of d s] store32_load32 of_nat_diff algebra_simps)
  qed
qed

lemma copy_tail_copy:
  "n < 2 ^ 64 \<Longrightarrow> mem_disjoint d s n \<Longrightarrow> copy_tail d s (int n) m = Some (mem_copy m d s n)"
proof (induction n arbitrary: d s m)
  case 0
  then show ?case by (simp add: copy_tail.simps)
next
  case (Suc n)
  then show ?case
    using mem_copy_copy [of 1 n d s m] mem_disjoint_shift [of d s 1 n]
    by (simp add: copy_tail.simps [of d s] mem_copy_1)
qed

lemma copy_loops_copy:
  assumes n: "n < 2 ^ 64" and dis: "mem_disjoint d s n"
  shows "copy_loops d s (int n) m = Some (mem_copy m d s n)"
proof -
  obtain k1 where k1: "k1 \<le> n" "copy_head d s (int n) m =
      Some (d + of_nat k1, s + of_nat k1, int n - int k1, mem_copy m d s k1)"
    using copy_head_copy [OF n dis] by blast
  have d1: "mem_disjoint (d + of_nat k1) (s + of_nat k1) (n - k1)"
    using mem_disjoint_shift [of d s k1 "n - k1"] dis k1(1) by simp
  obtain k2 where k2: "k2 \<le> n - k1"
    "copy_words (d + of_nat k1) (s + of_nat k1) (int (n - k1)) (mem_copy m d s k1) =
       Some (d + of_nat k1 + of_nat k2, s + of_nat k1 + of_nat k2, int (n - k1) - int k2,
         mem_copy (mem_copy m d s k1) (d + of_nat k1) (s + of_nat k1) k2)"
    using copy_words_copy [OF _ d1] n by (meson diff_le_self order_le_less_trans)
  have 1: "mem_copy (mem_copy m d s k1) (d + of_nat k1) (s + of_nat k1) k2 = mem_copy m d s (k1 + k2)"
    using k1(1) k2(1) n mem_disjoint_le [OF dis, of "k1 + k2"] by (intro mem_copy_copy) simp_all
  have d2: "mem_disjoint (d + of_nat (k1 + k2)) (s + of_nat (k1 + k2)) (n - k1 - k2)"
    using mem_disjoint_shift [of d s "k1 + k2" "n - k1 - k2"] dis k1(1) k2(1) by simp
  have 2: "mem_copy (mem_copy m d s (k1 + k2)) (d + of_nat (k1 + k2)) (s + of_nat (k1 + k2))
      (n - k1 - k2) = mem_copy m d s n"
    using mem_copy_copy [of "k1 + k2" "n - k1 - k2" d s m] k1(1) k2(1) n dis by simp
  have "int n - int k1 = int (n - k1)" "int (n - k1) - int k2 = int (n - k1 - k2)" "n - k1 - k2 < 2 ^ 64"
    using k1(1) k2(1) n by simp_all
  then show ?thesis
    using k1(2) k2(2) 1 2 copy_tail_copy [OF _ d2]
    by (simp only: copy_loops_def Option.bind.simps split of_nat_add add.assoc)
qed

subsection \<open>The block operations\<close>

text \<open>
  An access inside a region of at most \<open>INT_MAX\<close> bytes is clipped to the bytes the region
  has left.
\<close>

definition clipped :: "io_region \<Rightarrow> u64 \<Rightarrow> nat \<Rightarrow> nat" where
  "clipped io offset n = min n (unat (io_size io) - unat offset)"

lemma clip_len_clipped:
  assumes "offset < io_size io" "unat (io_size io) < 2 ^ 31" "n < 2 ^ 31"
  shows "clip_len io offset (int n) = int (clipped io offset n)"
proof -
  have off: "unat offset < unat (io_size io)" using assms(1) by (simp add: word_less_nat_alt)
  have sum: "unat (offset + of_nat n) = unat offset + n"
    using off assms by (simp add: unat_add_lt unat_of_nat_lt)
  have "int_of_ulong (io_size io - offset) = int (unat (io_size io) - unat offset)"
  proof -
    have d: "unat (io_size io - offset) = unat (io_size io) - unat offset"
      using assms(1) by (simp add: unat_sub_le)
    have "unat (ucast (io_size io - offset) :: u32) = unat (io_size io) - unat offset"
      using assms(2) d by (simp add: unsigned_ucast_eq take_bit_nat_eq_self)
    then show ?thesis using assms(2) by (simp add: int_of_ulong_def sint_unat_small)
  qed
  then show ?thesis
    using sum off by (auto simp: clip_len_def clipped_def word_less_nat_alt)
qed

lemma metal_io_virt_ok:
  "offset < io_size io \<Longrightarrow> io_virt io \<noteq> METAL_BAD_VA \<Longrightarrow> metal_io_virt io offset = io_virt io + offset"
  by (simp add: metal_io_virt_def)

lemma block_set_fill:
  assumes "offset < io_size io" "unat (io_size io) < 2 ^ 31" "n < 2 ^ 31" "metal_io_virt io offset \<noteq> 0"
  shows "metal_io_block_set io offset v (int n) m =
    Some (int (clipped io offset n), mem_fill m (metal_io_virt io offset) (clipped io offset n) v)"
proof -
  have "clipped io offset n < 2 ^ 64" using assms(3) by (simp add: clipped_def)
  then show ?thesis
    using assms clip_len_clipped [OF assms(1-3)] set_loops_fill
    by (simp add: metal_io_block_set_def shmem_metal_io_block_set_def Let_def split: io_ops.split)
qed

lemma block_read_copy:
  assumes "offset < io_size io" "unat (io_size io) < 2 ^ 31" "n < 2 ^ 31" "metal_io_virt io offset \<noteq> 0"
    and "mem_disjoint dst (metal_io_virt io offset) (clipped io offset n)"
  shows "metal_io_block_read io offset dst (int n) m =
    Some (int (clipped io offset n), mem_copy m dst (metal_io_virt io offset) (clipped io offset n))"
proof -
  have "clipped io offset n < 2 ^ 64" using assms(3) by (simp add: clipped_def)
  then show ?thesis
    using assms clip_len_clipped [OF assms(1-3)] copy_loops_copy
    by (simp add: metal_io_block_read_def shmem_metal_io_block_read_def Let_def split: io_ops.split)
qed

lemma block_write_copy:
  assumes "offset < io_size io" "unat (io_size io) < 2 ^ 31" "n < 2 ^ 31" "metal_io_virt io offset \<noteq> 0"
    and "mem_disjoint (metal_io_virt io offset) src (clipped io offset n)"
  shows "metal_io_block_write io offset src (int n) m =
    Some (int (clipped io offset n), mem_copy m (metal_io_virt io offset) src (clipped io offset n))"
proof -
  have "clipped io offset n < 2 ^ 64" using assms(3) by (simp add: clipped_def)
  then show ?thesis
    using assms clip_len_clipped [OF assms(1-3)] copy_loops_copy
    by (simp add: metal_io_block_write_def shmem_metal_io_block_write_def Let_def split: io_ops.split)
qed

end
