(* ===== verification/Libmetal_Props.thy ===== *)
theory Libmetal_Props
  imports Bitmap Metal_Block
begin

text \<open>
  The properties of the libmetal layer: address translation, block operations against
  \<open>memset\<close> and \<open>memcpy\<close> on a byte store, and the bitmap as an identifier pool.
\<close>

definition demo_io :: io_region where
  "demo_io = metal_io_init 4096 (Some [1048576]) 65536 64 0 (Some Shmem_sunxi_io_ops)"

lemma demo_io_facts:
  "region_ok demo_io" "io_virt demo_io \<noteq> METAL_BAD_VA" "io_size demo_io = 65536" "io_virt demo_io = 4096"
  using metal_io_init_flat [of 64 "[1048576]"]
  by (auto simp: region_ok_def demo_io_def) (simp_all add: metal_io_init_def METAL_BAD_VA_def)

text \<open>C19: in a region of one contiguous page, or of aligned pages at distinct physical addresses,
  every address of the region has a physical address, and translating that back gives the
  address again; the page search ends. The virtqueues pass buffers between the cores this way.\<close>

theorem io_translation_roundtrip:
  assumes "region_ok io" "io_virt io \<noteq> METAL_BAD_VA" "virt - io_virt io < io_size io"
  shows "\<exists>p. metal_io_virt_to_phys io virt = Some p \<and> metal_io_phys_to_virt io p = Some virt"
  by (rule virt_phys_virt) (use assms in auto)

theorem io_translation_roundtrip_witness:
  "\<exists>p. metal_io_virt_to_phys demo_io 5000 = Some p \<and> metal_io_phys_to_virt demo_io p = Some 5000"
  by (rule io_translation_roundtrip) (simp_all add: demo_io_facts METAL_BAD_VA_def)

text \<open>\<open>metal_io_block_set\<close> inside a region fills exactly the requested bytes, clipped to the end
  of the region, and returns how many; head, word and tail loops together are one \<open>memset\<close>.
  Outside the region it reports \<open>-ERANGE\<close> and writes nothing.\<close>

theorem io_block_set_correct:
  assumes "unat (io_size io) < 2 ^ 31" "n < 2 ^ 31" "io_virt io \<noteq> METAL_BAD_VA"
    and "offset < io_size io \<longrightarrow> io_virt io + offset \<noteq> 0"
  shows "metal_io_block_set io offset v (int n) m =
    (if offset < io_size io
     then Some (int (clipped io offset n), mem_fill m (io_virt io + offset) (clipped io offset n) v)
     else Some (- ERANGE, m))"
proof (cases "offset < io_size io")
  case True
  then have "metal_io_virt io offset = io_virt io + offset" using assms(3) by (rule metal_io_virt_ok)
  then show ?thesis using block_set_fill [OF True assms(1,2)] assms(4) True by simp
next
  case False
  then show ?thesis by (simp add: metal_io_block_set_def metal_io_virt_def)
qed

theorem io_block_set_correct_witness:
  "metal_io_block_set demo_io 65530 7 (int 100) (\<lambda>_. 0) = Some (6, mem_fill (\<lambda>_. 0) 69626 6 7)"
  using io_block_set_correct [of demo_io 100 65530 7 "\<lambda>_. 0"] demo_io_facts by (simp add: clipped_def)

text \<open>C20: \<open>metal_io_block_read\<close> and \<open>metal_io_block_write\<close> between a region and memory that does not
  overlap it copy exactly the requested bytes, clipped to the end of the region, byte for byte
  in order, whatever the alignment of the two addresses, and return how many.\<close>

theorem io_block_copy_correct:
  assumes "offset < io_size io" "unat (io_size io) < 2 ^ 31" "n < 2 ^ 31"
    and "io_virt io \<noteq> METAL_BAD_VA" "io_virt io + offset \<noteq> 0"
  shows "(mem_disjoint buf (io_virt io + offset) (clipped io offset n) \<longrightarrow>
      metal_io_block_read io offset buf (int n) m =
        Some (int (clipped io offset n), mem_copy m buf (io_virt io + offset) (clipped io offset n))) \<and>
    (mem_disjoint (io_virt io + offset) buf (clipped io offset n) \<longrightarrow>
      metal_io_block_write io offset buf (int n) m =
        Some (int (clipped io offset n), mem_copy m (io_virt io + offset) buf (clipped io offset n)))"
  using block_read_copy [OF assms(1-3)] block_write_copy [OF assms(1-3)] metal_io_virt_ok [OF assms(1,4)] assms(5)
  by simp

theorem io_block_copy_correct_witness:
  "metal_io_block_read demo_io 0 100 (int 3) (\<lambda>_. 5) = Some (3, mem_copy (\<lambda>_. 5) 100 4096 3)"
proof -
  have d: "mem_disjoint 100 4096 3" by (auto simp: mem_disjoint_def numeral_3_eq_3 less_Suc_eq)
  show ?thesis
    using io_block_copy_correct [of 0 demo_io 3 100 "\<lambda>_. 5"] demo_io_facts d by (simp add: clipped_def)
qed

text \<open>On a bitmap of \<open>m\<close> bits \<open>metal_bitmap_next_clear_bit\<close> from \<open>s\<close> finds the least clear bit not
  below \<open>s\<close>, or \<open>m\<close> when all of them are set; setting that bit and clearing it again restores the
  set of bits the map denotes.\<close>

theorem bitmap_first_clear_correct:
  assumes "m \<le> bm_cap bm" "s \<le> m"
  shows "\<exists>k. metal_bitmap_next_clear_bit bm s m = Some k \<and> s \<le> k \<and> k \<le> m \<and> {s..<k} \<subseteq> bm_set bm \<and>
    (k < m \<longrightarrow> k \<notin> bm_set bm \<and> (\<exists>bm' bm''. metal_bitmap_set_bit bm k = Some bm' \<and>
       bm_set bm' = insert k (bm_set bm) \<and> metal_bitmap_clear_bit bm' k = Some bm'' \<and> bm_set bm'' = bm_set bm))"
proof -
  obtain k where k: "metal_bitmap_next_clear_bit bm s m = Some k" "s \<le> k" "k \<le> m" "{s..<k} \<subseteq> bm_set bm"
    "k < m \<longrightarrow> k \<notin> bm_set bm"
    using bm.free_spec [OF assms] by blast
  have "\<exists>bm' bm''. metal_bitmap_set_bit bm k = Some bm' \<and> bm_set bm' = insert k (bm_set bm) \<and>
      metal_bitmap_clear_bit bm' k = Some bm'' \<and> bm_set bm'' = bm_set bm" if "k < m"
  proof -
    have kc: "k < bm_cap bm" "k \<notin> bm_set bm" using that assms k(5) by auto
    from bm.takeE [OF kc(1)] obtain bm' where "metal_bitmap_set_bit bm k = Some bm'" "bm_set bm' = insert k (bm_set bm)"
      by blast
    with bm.take_give [OF kc] show ?thesis by blast
  qed
  with k show ?thesis by blast
qed

theorem bitmap_first_clear_correct_witness:
  "\<exists>k. metal_bitmap_next_clear_bit [7, 0] 0 128 = Some k \<and> k = 3"
proof -
  obtain k where k: "metal_bitmap_next_clear_bit [7, 0] 0 128 = Some k"
    using bitmap_first_clear_correct [of 128 "[7, 0]" 0] by (auto simp: bm_cap_def)
  moreover have "metal_bitmap_next_clear_bit [7, 0] 0 128 = Some 3" by code_simp
  ultimately show ?thesis by simp
qed

end
