(* ===== verification/Ring_List.thy ===== *)
theory Ring_List
  imports Prelude
begin

text \<open>
  Circular doubly linked lists, the representation behind \<open>metal_list\<close> and the lists of the
  kernel: a head node and the members, linked forwards and backwards into a ring. \<open>links\<close>
  follows a sequence of nodes in both directions; \<open>ring_list nx pv h xs\<close> says that the ring
  through the head \<open>h\<close> has the members \<open>xs\<close>, in order.
\<close>

fun links :: "('p \<Rightarrow> 'p) \<Rightarrow> ('p \<Rightarrow> 'p) \<Rightarrow> 'p list \<Rightarrow> bool" where
  "links nx pv (a # b # r) \<longleftrightarrow> nx a = b \<and> pv b = a \<and> links nx pv (b # r)"
| "links nx pv _ \<longleftrightarrow> True"

lemma links_split:
  assumes "links nx pv (l @ a # r)"
  shows "links nx pv (l @ [a])" "links nx pv (a # r)"
  using assms by (induction l rule: induct_list012) auto

lemma links_join: "links nx pv (l @ [a]) \<Longrightarrow> links nx pv (a # r) \<Longrightarrow> links nx pv (l @ a # r)"
  by (induction l rule: induct_list012) auto

lemma links_at: "links nx pv (l @ a # b # r) \<Longrightarrow> nx a = b \<and> pv b = a"
  using links_split(2) [of nx pv l a "b # r"] by simp

lemma links_cong:
  "(\<And>x. x \<in> set (butlast xs) \<Longrightarrow> nx' x = nx x) \<Longrightarrow> (\<And>x. x \<in> set (tl xs) \<Longrightarrow> pv' x = pv x) \<Longrightarrow>
     links nx' pv' xs \<longleftrightarrow> links nx pv xs"
  by (induction nx pv xs rule: links.induct) auto

definition ring_list :: "('p \<Rightarrow> 'p) \<Rightarrow> ('p \<Rightarrow> 'p) \<Rightarrow> 'p \<Rightarrow> 'p list \<Rightarrow> bool" where
  "ring_list nx pv h xs \<longleftrightarrow> distinct (h # xs) \<and> links nx pv (h # xs @ [h])"

lemma ring_list_empty: "ring_list nx pv h [] \<longleftrightarrow> nx h = h \<and> pv h = h"
  by (auto simp: ring_list_def)

lemma ring_list_empty_iff: "ring_list nx pv h xs \<Longrightarrow> nx h = h \<longleftrightarrow> xs = []"
  by (cases xs) (auto simp: ring_list_def)

lemma ring_list_next:
  assumes "ring_list nx pv h (ys @ x # zs)"
  shows "nx x = (if zs = [] then h else hd zs)" "pv x = (if ys = [] then h else last ys)"
proof -
  have l: "links nx pv ((h # ys) @ x # (zs @ [h]))" using assms by (simp add: ring_list_def)
  from links_split(2) [OF l] show "nx x = (if zs = [] then h else hd zs)" by (cases zs) simp_all
  from links_split(1) [OF l] show "pv x = (if ys = [] then h else last ys)"
  proof (cases ys rule: rev_cases)
    case (snoc ws w)
    then show ?thesis using links_split(1) [OF l] links_at [of nx pv "h # ws" w x "[]"] by simp
  qed simp
qed

lemma ring_list_ends:
  assumes "ring_list nx pv h xs"
  shows "nx h = (if xs = [] then h else hd xs)" "pv h = (if xs = [] then h else last xs)"
proof -
  show "nx h = (if xs = [] then h else hd xs)" using assms by (cases xs) (auto simp: ring_list_def)
  show "pv h = (if xs = [] then h else last xs)"
  proof (cases xs rule: rev_cases)
    case Nil
    then show ?thesis using assms by (simp add: ring_list_def)
  next
    case (snoc ys y)
    then have "links nx pv ((h # ys) @ y # [h])" using assms by (simp add: ring_list_def)
    then show ?thesis using snoc links_at [of nx pv "h # ys" y h "[]"] by simp
  qed
qed

text \<open>Linking a new node between two neighbours, and unlinking one.\<close>

lemma links_insert:
  assumes l: "links nx pv (l @ a # b # r)" and n: "n \<notin> set (l @ a # b # r)"
    and d: "distinct (l @ a # butlast (b # r))" "distinct (tl (l @ [a]) @ b # r)"
  shows "links (nx(n := b, a := n)) (pv(n := a, b := n)) (l @ a # n # b # r)"
proof -
  have "links (nx(n := b, a := n)) (pv(n := a, b := n)) (l @ [a])"
    using links_split(1) [OF l] n d
    by (subst links_cong [of _ _ nx _ pv]) (auto dest: in_set_tlD simp: butlast_append)
  moreover have "links nx pv (b # r)" using links_split(2) [OF l] by simp
  then have "links (nx(n := b, a := n)) (pv(n := a, b := n)) (b # r)"
    using n d
    by (subst links_cong [of _ _ nx _ pv]) (auto split: if_splits dest: in_set_butlastD)
  moreover have "a \<noteq> n" using n by auto
  ultimately have "links (nx(n := b, a := n)) (pv(n := a, b := n)) (a # n # b # r)"
    and head: "links (nx(n := b, a := n)) (pv(n := a, b := n)) (l @ [a])"
    using n by auto
  from links_join [OF this(2) this(1)] show ?thesis .
qed

lemma links_remove:
  assumes l: "links nx pv (l @ a # x # b # r)"
    and d: "distinct (l @ a # butlast (b # r))" "distinct (tl (l @ [a]) @ b # r)"
  shows "links (nx(a := b)) (pv(b := a)) (l @ a # b # r)"
proof -
  have "links (nx(a := b)) (pv(b := a)) (l @ [a])"
    using links_split(1) [OF l] d
    by (subst links_cong [of _ _ nx _ pv]) (auto dest: in_set_tlD simp: butlast_append)
  moreover have "links nx pv (b # r)" using links_split(2) [OF l] by simp
  then have "links (nx(a := b)) (pv(b := a)) (b # r)"
    using d by (subst links_cong [of _ _ nx _ pv]) (auto split: if_splits dest: in_set_butlastD)
  ultimately have "links (nx(a := b)) (pv(b := a)) (l @ [a])" "links (nx(a := b)) (pv(b := a)) (a # b # r)"
    by simp_all
  then show ?thesis by (rule links_join)
qed

text \<open>The sequence of a ring around a gap between two of its nodes.\<close>

lemma ring_seq:
  obtains l a b r where "h # ys @ zs @ [h] = l @ a # b # r" "l @ [a] = h # ys" "b # r = zs @ [h]"
    "a = last (h # ys)" "b = hd (zs @ [h])"
proof -
  have 1: "h # ys = butlast (h # ys) @ [last (h # ys)]" by (metis append_butlast_last_id list.distinct(1))
  have 2: "zs @ [h] = hd (zs @ [h]) # tl (zs @ [h])" by simp
  have "h # ys @ zs @ [h] = butlast (h # ys) @ last (h # ys) # hd (zs @ [h]) # tl (zs @ [h])"
    using 1 2 by (metis append.assoc append_Cons append_Nil)
  with 1 2 that show ?thesis by metis
qed

lemma ring_insert:
  assumes ring: "ring_list nx pv h (ys @ zs)" and n: "n \<notin> set (h # ys @ zs)"
    and ab: "a = last (h # ys)" "b = hd (zs @ [h])"
  shows "ring_list (nx(n := b, a := n)) (pv(n := a, b := n)) h (ys @ n # zs)"
proof -
  obtain l r where s: "h # ys @ zs @ [h] = l @ a # b # r" "l @ [a] = h # ys" "b # r = zs @ [h]"
    using ring_seq [of h ys zs] ab by metis
  have dist: "distinct (h # ys @ zs)" using ring by (simp add: ring_list_def)
  have "links nx pv (l @ a # b # r)" using ring s(1) by (simp add: ring_list_def)
  moreover have "n \<notin> set (l @ a # b # r)" using n unfolding s(1) [symmetric] by simp
  moreover have "distinct (l @ a # butlast (b # r))"
  proof -
    have "l @ a # butlast (b # r) = (l @ [a]) @ butlast (b # r)" by simp
    also have "\<dots> = h # ys @ zs" unfolding s(2,3) by simp
    finally show ?thesis using dist by simp
  qed
  moreover have "distinct (tl (l @ [a]) @ b # r)" unfolding s(2,3) using dist by auto
  ultimately have "links (nx(n := b, a := n)) (pv(n := a, b := n)) (l @ a # n # b # r)"
    by (rule links_insert)
  moreover have "l @ a # n # b # r = h # (ys @ n # zs) @ [h]"
  proof -
    have "l @ a # n # b # r = (l @ [a]) @ n # (b # r)" by simp
    then show ?thesis unfolding s(2,3) by simp
  qed
  ultimately show ?thesis using dist n by (auto simp: ring_list_def)
qed

lemma ring_remove:
  assumes ring: "ring_list nx pv h (ys @ x # zs)" and ab: "a = last (h # ys)" "b = hd (zs @ [h])"
  shows "ring_list (nx(a := b)) (pv(b := a)) h (ys @ zs)"
proof -
  obtain l r where s: "h # ys @ zs @ [h] = l @ a # b # r" "l @ [a] = h # ys" "b # r = zs @ [h]"
    using ring_seq [of h ys zs] ab by metis
  have dist: "distinct (h # ys @ zs)" using ring by (auto simp: ring_list_def)
  have "l @ a # x # b # r = (l @ [a]) @ x # (b # r)" by simp
  also have "\<dots> = h # (ys @ x # zs) @ [h]" unfolding s(2,3) by simp
  finally have "links nx pv (l @ a # x # b # r)" using ring by (simp add: ring_list_def)
  moreover have "distinct (l @ a # butlast (b # r))"
  proof -
    have "l @ a # butlast (b # r) = (l @ [a]) @ butlast (b # r)" by simp
    also have "\<dots> = h # ys @ zs" unfolding s(2,3) by simp
    finally show ?thesis using dist by simp
  qed
  moreover have "distinct (tl (l @ [a]) @ b # r)" unfolding s(2,3) using dist by auto
  ultimately have "links (nx(a := b)) (pv(b := a)) (l @ a # b # r)"
    by (rule links_remove)
  then show ?thesis unfolding s(1) [symmetric] using dist by (simp add: ring_list_def)
qed

text \<open>Nodes outside the ring may be linked in any way.\<close>

lemma ring_list_cong:
  "(\<And>x. x \<in> set (h # xs) \<Longrightarrow> nx' x = nx x) \<Longrightarrow> (\<And>x. x \<in> set (h # xs) \<Longrightarrow> pv' x = pv x) \<Longrightarrow>
     ring_list nx' pv' h xs \<longleftrightarrow> ring_list nx pv h xs"
  unfolding ring_list_def by (intro conj_cong refl links_cong) (auto dest: in_set_butlastD)

end
