(* ===== verification/Node_List.thy ===== *)
theory Node_List
  imports Ring_List
begin

text \<open>
  The contract the users of an intrusive list rely on, and \<open>metal_list\<close>
  (\<^verbatim>\<open>openamp/include/metal/list.h\<close>), its first provider. A state \<open>s\<close> links nodes into
  rings, \<open>members s h xs\<close> says that the list headed by \<open>h\<close> holds \<open>xs\<close> in order.
\<close>

locale node_list =
  fixes members :: "'s \<Rightarrow> 'h \<Rightarrow> 'p list \<Rightarrow> bool"
    and node_free :: "'s \<Rightarrow> 'h \<Rightarrow> 'p \<Rightarrow> bool"
    and init_ok :: "'s \<Rightarrow> 'h \<Rightarrow> bool"
    and init :: "'s \<Rightarrow> 'h \<Rightarrow> 's"
    and add_tail :: "'s \<Rightarrow> 'h \<Rightarrow> 'p \<Rightarrow> 's"
    and del :: "'s \<Rightarrow> 'p \<Rightarrow> 's"
    and first :: "'s \<Rightarrow> 'h \<Rightarrow> 'p option"
  assumes init_members: "init_ok s h \<Longrightarrow> members (init s h) h []"
    and tail_members: "members s h xs \<Longrightarrow> node_free s h n \<Longrightarrow> members (add_tail s h n) h (xs @ [n])"
    and del_members: "members s h (ys @ x # zs) \<Longrightarrow> members (del s x) h (ys @ zs)"
    and del_free: "members s h (ys @ x # zs) \<Longrightarrow> node_free (del s x) h x"
    and first_members: "members s h xs \<Longrightarrow> first s h = (if xs = [] then None else Some (hd xs))"
    and members_distinct: "members s h xs \<Longrightarrow> distinct xs"
begin

text \<open>Taking the first node off until none is left visits the members in order.\<close>

fun drain :: "nat \<Rightarrow> 's \<Rightarrow> 'h \<Rightarrow> 'p list \<times> 's" where
  "drain 0 s h = ([], s)"
| "drain (Suc n) s h =
     (case first s h of
        None \<Rightarrow> ([], s)
      | Some x \<Rightarrow> (case drain n (del s x) h of (ys, t) \<Rightarrow> (x # ys, t)))"

lemma drain_members:
  "members s h xs \<Longrightarrow> length xs \<le> n \<Longrightarrow> \<exists>t. drain n s h = (xs, t) \<and> members t h []"
proof (induction n arbitrary: s xs)
  case (Suc n)
  show ?case
  proof (cases xs)
    case Nil
    then show ?thesis using Suc.prems first_members [OF Suc.prems(1)] by simp
  next
    case (Cons x ys)
    then have "members (del s x) h ys" using Suc.prems(1) del_members [of s h "[]" x ys] by simp
    from Suc.IH [OF this] Cons Suc.prems obtain t where "drain n (del s x) h = (ys, t)" "members t h []"
      by auto
    then show ?thesis using Cons first_members [OF Suc.prems(1)] by simp
  qed
qed simp

text \<open>Removing a node and adding it at the tail moves it behind the others.\<close>

lemma move_to_tail:
  assumes "members s h (ys @ x # zs)"
  shows "members (add_tail (del s x) h x) h (ys @ zs @ [x])"
  using tail_members [OF del_members [OF assms] del_free [OF assms]] by simp

end

subsection \<open>metal\_list\<close>

record 'p metal_list =
  ml_next :: "'p \<Rightarrow> 'p"
  ml_prev :: "'p \<Rightarrow> 'p"

definition metal_list_init :: "'p metal_list \<Rightarrow> 'p \<Rightarrow> 'p metal_list" where
  "metal_list_init s list =
     (let s = s\<lparr>ml_prev := (ml_prev s)(list := list)\<rparr> in s\<lparr>ml_next := (ml_next s)(list := list)\<rparr>)"

definition metal_list_add_before :: "'p metal_list \<Rightarrow> 'p \<Rightarrow> 'p \<Rightarrow> 'p metal_list" where
  "metal_list_add_before s node new_node =
     (let s = s\<lparr>ml_prev := (ml_prev s)(new_node := ml_prev s node)\<rparr>;
          s = s\<lparr>ml_next := (ml_next s)(new_node := node)\<rparr>;
          s = s\<lparr>ml_prev := (ml_prev s)(ml_next s new_node := new_node)\<rparr>
      in s\<lparr>ml_next := (ml_next s)(ml_prev s new_node := new_node)\<rparr>)"

definition metal_list_add_after :: "'p metal_list \<Rightarrow> 'p \<Rightarrow> 'p \<Rightarrow> 'p metal_list" where
  "metal_list_add_after s node new_node =
     (let s = s\<lparr>ml_prev := (ml_prev s)(new_node := node)\<rparr>;
          s = s\<lparr>ml_next := (ml_next s)(new_node := ml_next s node)\<rparr>;
          s = s\<lparr>ml_prev := (ml_prev s)(ml_next s new_node := new_node)\<rparr>
      in s\<lparr>ml_next := (ml_next s)(ml_prev s new_node := new_node)\<rparr>)"

definition metal_list_add_head :: "'p metal_list \<Rightarrow> 'p \<Rightarrow> 'p \<Rightarrow> 'p metal_list" where
  "metal_list_add_head s list node = metal_list_add_after s list node"

definition metal_list_add_tail :: "'p metal_list \<Rightarrow> 'p \<Rightarrow> 'p \<Rightarrow> 'p metal_list" where
  "metal_list_add_tail s list node = metal_list_add_before s list node"

definition metal_list_is_empty :: "'p metal_list \<Rightarrow> 'p \<Rightarrow> bool" where
  "metal_list_is_empty s list \<longleftrightarrow> ml_next s list = list"

definition metal_list_del :: "'p metal_list \<Rightarrow> 'p \<Rightarrow> 'p metal_list" where
  "metal_list_del s node =
     (let s = s\<lparr>ml_prev := (ml_prev s)(ml_next s node := ml_prev s node)\<rparr>;
          s = s\<lparr>ml_next := (ml_next s)(ml_prev s node := ml_next s node)\<rparr>;
          s = s\<lparr>ml_prev := (ml_prev s)(node := node)\<rparr>
      in s\<lparr>ml_next := (ml_next s)(node := node)\<rparr>)"

definition metal_list_first :: "'p metal_list \<Rightarrow> 'p \<Rightarrow> 'p option" where
  "metal_list_first s list = (if metal_list_is_empty s list then None else Some (ml_next s list))"

text \<open>\<open>metal_list_for_each\<close>: the nodes the loop visits; on a broken ring it may not end.\<close>

partial_function (option) metal_list_walk :: "'p metal_list \<Rightarrow> 'p \<Rightarrow> 'p \<Rightarrow> 'p list option" where
  "metal_list_walk s list node =
     (if node = list then Some []
      else Option.bind (metal_list_walk s list (ml_next s node)) (\<lambda>ns. Some (node # ns)))"

declare metal_list_walk.simps [code]

definition metal_list_for_each :: "'p metal_list \<Rightarrow> 'p \<Rightarrow> 'p list option" where
  "metal_list_for_each s list = metal_list_walk s list (ml_next s list)"

definition ml_members :: "'p metal_list \<Rightarrow> 'p \<Rightarrow> 'p list \<Rightarrow> bool" where
  "ml_members s h xs \<longleftrightarrow> ring_list (ml_next s) (ml_prev s) h xs"

lemma ml_init: "ml_members (metal_list_init s h) h []"
  by (simp add: ml_members_def metal_list_init_def ring_list_empty)

lemma ml_add_before:
  assumes "ml_members s h (ys @ zs)" and n: "n \<notin> set (h # ys @ zs)" and b: "b = hd (zs @ [h])"
  shows "ml_members (metal_list_add_before s b n) h (ys @ n # zs)"
proof -
  have ring: "ring_list (ml_next s) (ml_prev s) h (ys @ zs)" using assms(1) by (simp add: ml_members_def)
  have a: "ml_prev s b = last (h # ys)"
  proof (cases zs)
    case Nil
    then show ?thesis using ring_list_ends [OF ring] b by auto
  next
    case (Cons z zs')
    then show ?thesis using ring_list_next(2) [of "ml_next s" "ml_prev s" h ys z zs'] ring b by auto
  qed
  have "b \<noteq> n" using n b by (cases zs) auto
  then show ?thesis
    using ring_insert [OF ring n a [symmetric, THEN sym] b]
    by (simp add: ml_members_def metal_list_add_before_def Let_def)
qed

lemma ml_add_after:
  assumes "ml_members s h (ys @ zs)" and n: "n \<notin> set (h # ys @ zs)" and a: "a = last (h # ys)"
  shows "ml_members (metal_list_add_after s a n) h (ys @ n # zs)"
proof -
  have ring: "ring_list (ml_next s) (ml_prev s) h (ys @ zs)" using assms(1) by (simp add: ml_members_def)
  have b: "ml_next s a = hd (zs @ [h])"
  proof (cases ys rule: rev_cases)
    case Nil
    then show ?thesis using ring_list_ends [OF ring] a by auto
  next
    case (snoc ws w)
    then show ?thesis using ring_list_next(1) [of "ml_next s" "ml_prev s" h ws w zs] ring a by auto
  qed
  have "a \<noteq> n" using n a by (cases ys rule: rev_cases) auto
  moreover have "ml_next s a \<noteq> n" unfolding b using n by (cases zs) auto
  ultimately show ?thesis
    using ring_insert [OF ring n a b [symmetric, THEN sym]]
    by (simp add: ml_members_def metal_list_add_after_def Let_def)
qed

lemma ml_add_tail: "ml_members s h xs \<Longrightarrow> n \<notin> set (h # xs) \<Longrightarrow> ml_members (metal_list_add_tail s h n) h (xs @ [n])"
  using ml_add_before [of s h xs "[]" n h] by (simp add: metal_list_add_tail_def)

lemma ml_add_head: "ml_members s h xs \<Longrightarrow> n \<notin> set (h # xs) \<Longrightarrow> ml_members (metal_list_add_head s h n) h (n # xs)"
  using ml_add_after [of s h "[]" xs n h] by (simp add: metal_list_add_head_def)

lemma ml_del:
  assumes "ml_members s h (ys @ x # zs)"
  shows "ml_members (metal_list_del s x) h (ys @ zs)"
proof -
  have ring: "ring_list (ml_next s) (ml_prev s) h (ys @ x # zs)" using assms by (simp add: ml_members_def)
  have ab: "ml_prev s x = last (h # ys)" "ml_next s x = hd (zs @ [h])"
    using ring_list_next [OF ring] by auto
  let ?a = "last (h # ys)" and ?b = "hd (zs @ [h])"
  have out: "x \<notin> set (h # ys @ zs)" using ring by (auto simp: ring_list_def)
  have inr: "?a \<in> set (h # ys @ zs)" "?b \<in> set (h # ys @ zs)"
    by (cases ys rule: rev_cases, simp_all) (cases zs, simp_all)
  then have ne: "?a \<noteq> x" "?b \<noteq> x" using out by auto
  have "ring_list ((ml_next s)(?a := ?b)) ((ml_prev s)(?b := ?a)) h (ys @ zs)"
    by (rule ring_remove [OF ring refl refl])
  then have "ring_list ((ml_next s)(?a := ?b, x := x)) ((ml_prev s)(?b := ?a, x := x)) h (ys @ zs)"
    using out by (subst ring_list_cong) auto
  moreover have "ml_next (metal_list_del s x) = (ml_next s)(?a := ?b, x := x)"
    "ml_prev (metal_list_del s x) = (ml_prev s)(?b := ?a, x := x)"
    unfolding metal_list_del_def Let_def using ab ne by (simp_all add: fun_upd_twist)
  ultimately show ?thesis by (simp add: ml_members_def)
qed

lemma ml_is_empty: "ml_members s h xs \<Longrightarrow> metal_list_is_empty s h \<longleftrightarrow> xs = []"
  unfolding ml_members_def metal_list_is_empty_def by (rule ring_list_empty_iff)

lemma ml_first: "ml_members s h xs \<Longrightarrow> metal_list_first s h = (if xs = [] then None else Some (hd xs))"
  using ring_list_ends(1) [of "ml_next s" "ml_prev s" h xs] ml_is_empty [of s h xs]
  by (auto simp: metal_list_first_def ml_members_def)

lemma ml_walk:
  "ml_members s h (ys @ zs) \<Longrightarrow> metal_list_walk s h (hd (zs @ [h])) = Some zs"
proof (induction zs arbitrary: ys)
  case Nil
  then show ?case by (simp add: metal_list_walk.simps)
next
  case (Cons z zs)
  have "z \<noteq> h" using Cons.prems by (auto simp: ml_members_def ring_list_def)
  moreover have "ml_next s z = hd (zs @ [h])"
    using ring_list_next(1) [of "ml_next s" "ml_prev s" h ys z zs] Cons.prems by (cases zs) (auto simp: ml_members_def)
  moreover have "metal_list_walk s h (hd (zs @ [h])) = Some zs" using Cons.IH [of "ys @ [z]"] Cons.prems by simp
  ultimately show ?case by (simp add: metal_list_walk.simps [of s h z])
qed

lemma ml_for_each:
  assumes "ml_members s h xs"
  shows "metal_list_for_each s h = Some xs"
  using ml_walk [of s h "[]" xs] assms ring_list_ends(1) [of "ml_next s" "ml_prev s" h xs]
  by (cases xs) (auto simp: metal_list_for_each_def ml_members_def)

interpretation ml: node_list ml_members "\<lambda>s h n. n \<noteq> h \<and> (\<forall>xs. ml_members s h xs \<longrightarrow> n \<notin> set xs)"
    "\<lambda>_ _. True" metal_list_init metal_list_add_tail metal_list_del metal_list_first
proof unfold_locales
  fix s :: "'a metal_list" and h x ys zs
  assume m: "ml_members s h (ys @ x # zs)"
  show "ml_members (metal_list_del s x) h (ys @ zs)" by (rule ml_del [OF m])
  have "x \<noteq> h" "x \<notin> set (ys @ zs)" using m by (auto simp: ml_members_def ring_list_def)
  moreover have "xs = ys @ zs" if "ml_members (metal_list_del s x) h xs" for xs
    using ml_for_each [OF that] ml_for_each [OF ml_del [OF m]] by simp
  ultimately show "x \<noteq> h \<and> (\<forall>xs. ml_members (metal_list_del s x) h xs \<longrightarrow> x \<notin> set xs)" by blast
next
  show "distinct xs" if "ml_members s h xs" for s :: "'a metal_list" and h xs
    using that by (simp add: ml_members_def ring_list_def)
next
  fix s :: "'a metal_list" and h n xs
  show "ml_members (metal_list_init s h) h []" by (rule ml_init)
  show "ml_members s h xs \<Longrightarrow> metal_list_first s h = (if xs = [] then None else Some (hd xs))"
    by (rule ml_first)
  assume "ml_members s h xs" "n \<noteq> h \<and> (\<forall>xs. ml_members s h xs \<longrightarrow> n \<notin> set xs)"
  then show "ml_members (metal_list_add_tail s h n) h (xs @ [n])" by (intro ml_add_tail) auto
qed

end
