(* ===== verification/Kernel_List.thy ===== *)
theory Kernel_List
  imports Node_List
begin

text \<open>
  The lists of the kernel, \<^verbatim>\<open>FreeRTOS/Source/list.c\<close> and the access macros of
  \<^verbatim>\<open>include/list.h\<close>, at the level of the pointers: a store of list items and of the lists'
  end markers. Lists and owners are numbered. A list is sorted by item value, or in the order
  of a ring buffer that \<open>pxIndex\<close> walks. Tick counts and \<open>UBaseType_t\<close> have 64 bits on this
  port; the integrity check words are configured off.
\<close>

datatype node = Item nat | End nat

record list_store =
  xItemValue :: "node \<Rightarrow> u64"
  pxNext :: "node \<Rightarrow> node"
  pxPrevious :: "node \<Rightarrow> node"
  pvOwner :: "node \<Rightarrow> nat"
  pxContainer :: "node \<Rightarrow> nat option"
  uxNumberOfItems :: "nat \<Rightarrow> u64"
  pxIndex :: "nat \<Rightarrow> node"

definition portMAX_DELAY :: u64 where "portMAX_DELAY = - 1"

definition vListInitialise :: "list_store \<Rightarrow> nat \<Rightarrow> list_store" where
  "vListInitialise s pxList = s\<lparr>
     pxIndex := (pxIndex s)(pxList := End pxList),
     xItemValue := (xItemValue s)(End pxList := portMAX_DELAY),
     pxNext := (pxNext s)(End pxList := End pxList),
     pxPrevious := (pxPrevious s)(End pxList := End pxList),
     uxNumberOfItems := (uxNumberOfItems s)(pxList := 0)\<rparr>"

definition vListInitialiseItem :: "list_store \<Rightarrow> node \<Rightarrow> list_store" where
  "vListInitialiseItem s pxItem = s\<lparr>pxContainer := (pxContainer s)(pxItem := None)\<rparr>"

definition vListInsertEnd :: "list_store \<Rightarrow> nat \<Rightarrow> node \<Rightarrow> list_store" where
  "vListInsertEnd s pxList pxNewListItem =
     (let index = pxIndex s pxList;
          s = s\<lparr>pxNext := (pxNext s)(pxNewListItem := index)\<rparr>;
          s = s\<lparr>pxPrevious := (pxPrevious s)(pxNewListItem := pxPrevious s index)\<rparr>;
          s = s\<lparr>pxNext := (pxNext s)(pxPrevious s index := pxNewListItem)\<rparr>;
          s = s\<lparr>pxPrevious := (pxPrevious s)(index := pxNewListItem)\<rparr>;
          s = s\<lparr>pxContainer := (pxContainer s)(pxNewListItem := Some pxList)\<rparr>
      in s\<lparr>uxNumberOfItems := (uxNumberOfItems s)(pxList := uxNumberOfItems s pxList + 1)\<rparr>)"

text \<open>The \<open>for\<close> loop of \<open>vListInsert\<close>.\<close>

partial_function (option) list_insert_search :: "list_store \<Rightarrow> u64 \<Rightarrow> node \<Rightarrow> node option" where
  "list_insert_search s v it =
     (if xItemValue s (pxNext s it) \<le> v then list_insert_search s v (pxNext s it) else Some it)"

declare list_insert_search.simps [code]

definition vListInsert :: "list_store \<Rightarrow> nat \<Rightarrow> node \<Rightarrow> list_store option" where
  "vListInsert s pxList pxNewListItem = do {
     let xValueOfInsertion = xItemValue s pxNewListItem;
     pxIterator \<leftarrow> (if xValueOfInsertion = portMAX_DELAY then Some (pxPrevious s (End pxList))
                    else list_insert_search s xValueOfInsertion (End pxList));
     let s = s\<lparr>pxNext := (pxNext s)(pxNewListItem := pxNext s pxIterator)\<rparr>;
     let s = s\<lparr>pxPrevious := (pxPrevious s)(pxNext s pxNewListItem := pxNewListItem)\<rparr>;
     let s = s\<lparr>pxPrevious := (pxPrevious s)(pxNewListItem := pxIterator)\<rparr>;
     let s = s\<lparr>pxNext := (pxNext s)(pxIterator := pxNewListItem)\<rparr>;
     let s = s\<lparr>pxContainer := (pxContainer s)(pxNewListItem := Some pxList)\<rparr>;
     Some (s\<lparr>uxNumberOfItems := (uxNumberOfItems s)(pxList := uxNumberOfItems s pxList + 1)\<rparr>) }"

text \<open>Removing an item that is in no list reads its null container: no result.\<close>

definition uxListRemove :: "list_store \<Rightarrow> node \<Rightarrow> (u64 \<times> list_store) option" where
  "uxListRemove s pxItemToRemove = do {
     pxList \<leftarrow> pxContainer s pxItemToRemove;
     let s = s\<lparr>pxPrevious := (pxPrevious s)(pxNext s pxItemToRemove := pxPrevious s pxItemToRemove)\<rparr>;
     let s = s\<lparr>pxNext := (pxNext s)(pxPrevious s pxItemToRemove := pxNext s pxItemToRemove)\<rparr>;
     let s = (if pxIndex s pxList = pxItemToRemove
              then s\<lparr>pxIndex := (pxIndex s)(pxList := pxPrevious s pxItemToRemove)\<rparr> else s);
     let s = s\<lparr>pxContainer := (pxContainer s)(pxItemToRemove := None)\<rparr>;
     let s = s\<lparr>uxNumberOfItems := (uxNumberOfItems s)(pxList := uxNumberOfItems s pxList - 1)\<rparr>;
     Some (uxNumberOfItems s pxList, s) }"

definition listLIST_IS_EMPTY :: "list_store \<Rightarrow> nat \<Rightarrow> bool" where
  "listLIST_IS_EMPTY s pxList \<longleftrightarrow> uxNumberOfItems s pxList = 0"

definition listGET_HEAD_ENTRY :: "list_store \<Rightarrow> nat \<Rightarrow> node" where
  "listGET_HEAD_ENTRY s pxList = pxNext s (End pxList)"

definition listGET_ITEM_VALUE_OF_HEAD_ENTRY :: "list_store \<Rightarrow> nat \<Rightarrow> u64" where
  "listGET_ITEM_VALUE_OF_HEAD_ENTRY s pxList = xItemValue s (pxNext s (End pxList))"

definition listGET_OWNER_OF_HEAD_ENTRY :: "list_store \<Rightarrow> nat \<Rightarrow> nat" where
  "listGET_OWNER_OF_HEAD_ENTRY s pxList = pvOwner s (pxNext s (End pxList))"

definition listIS_CONTAINED_WITHIN :: "list_store \<Rightarrow> nat \<Rightarrow> node \<Rightarrow> bool" where
  "listIS_CONTAINED_WITHIN s pxList pxListItem \<longleftrightarrow> pxContainer s pxListItem = Some pxList"

definition listGET_OWNER_OF_NEXT_ENTRY :: "list_store \<Rightarrow> nat \<Rightarrow> nat \<times> list_store" where
  "listGET_OWNER_OF_NEXT_ENTRY s pxList =
     (let s = s\<lparr>pxIndex := (pxIndex s)(pxList := pxNext s (pxIndex s pxList))\<rparr>;
          s = (if pxIndex s pxList = End pxList
               then s\<lparr>pxIndex := (pxIndex s)(pxList := pxNext s (pxIndex s pxList))\<rparr> else s)
      in (pvOwner s (pxIndex s pxList), s))"

subsection \<open>Well-formed lists\<close>

text \<open>
  \<open>klist s l xs\<close>: list \<open>l\<close> consists of the items \<open>xs\<close>. The counter is the length (which fits
  64 bits), exactly the members name the list as their container, and the index is on the ring.
\<close>

definition klist :: "list_store \<Rightarrow> nat \<Rightarrow> node list \<Rightarrow> bool" where
  "klist s l xs \<longleftrightarrow> ring_list (pxNext s) (pxPrevious s) (End l) xs \<and>
     (\<forall>x. pxContainer s x = Some l \<longleftrightarrow> x \<in> set xs) \<and> (\<forall>m. pxContainer s (End m) = None) \<and>
     unat (uxNumberOfItems s l) = length xs \<and>
     pxIndex s l \<in> set (End l # xs) \<and> xItemValue s (End l) = portMAX_DELAY"

definition sorted_by :: "(node \<Rightarrow> u64) \<Rightarrow> node list \<Rightarrow> bool" where
  "sorted_by v xs \<longleftrightarrow> sorted (map v xs)"

lemma klist_ring: "klist s l xs \<Longrightarrow> ring_list (pxNext s) (pxPrevious s) (End l) xs"
  by (simp add: klist_def)

lemma klist_container: "klist s l xs \<Longrightarrow> pxContainer s x = Some l \<longleftrightarrow> x \<in> set xs"
  by (simp add: klist_def)

lemma klist_distinct: "klist s l xs \<Longrightarrow> distinct xs"
  by (simp add: klist_def ring_list_def)

lemma klist_no_end: "klist s l xs \<Longrightarrow> End m \<notin> set xs"
  unfolding klist_def by (metis option.distinct(1))

lemma vListInitialise_klist:
  assumes "\<forall>x. pxContainer s x \<noteq> Some l" "\<forall>m. pxContainer s (End m) = None"
  shows "klist (vListInitialise s l) l []"
  using assms by (simp add: klist_def vListInitialise_def ring_list_empty)

lemma klist_is_empty: "klist s l xs \<Longrightarrow> listLIST_IS_EMPTY s l \<longleftrightarrow> xs = []"
  by (auto simp: klist_def listLIST_IS_EMPTY_def simp flip: unat_eq_0)

lemma klist_head:
  "klist s l xs \<Longrightarrow> listGET_HEAD_ENTRY s l = (if xs = [] then End l else hd xs)"
  using ring_list_ends(1) [OF klist_ring] by (simp add: listGET_HEAD_ENTRY_def)

text \<open>Linking an item into a gap of the ring, whichever statements did it.\<close>

lemma klist_link:
  assumes k: "klist s l (ys @ zs)" and n: "pxContainer s n = None" "\<forall>m. n \<noteq> End m"
    and len: "length (ys @ zs) + 1 < 2 ^ 64"
    and ab: "a = last (End l # ys)" "b = hd (zs @ [End l])"
    and s': "pxNext s' = (pxNext s)(n := b, a := n)" "pxPrevious s' = (pxPrevious s)(n := a, b := n)"
      "pxContainer s' = (pxContainer s)(n := Some l)" "uxNumberOfItems s' l = uxNumberOfItems s l + 1"
      "pxIndex s' l = pxIndex s l" "xItemValue s' = xItemValue s"
  shows "klist s' l (ys @ n # zs)"
proof -
  have out: "n \<notin> set (End l # ys @ zs)" using klist_container [OF k, of n] n by auto
  have "ring_list (pxNext s') (pxPrevious s') (End l) (ys @ n # zs)"
    unfolding s' by (rule ring_insert [OF klist_ring [OF k] out ab])
  moreover have "unat (uxNumberOfItems s l + 1) = length (ys @ n # zs)"
    using k len by (simp add: klist_def unat_plus_one)
  ultimately show ?thesis
    using k n by (auto simp: klist_def s')
qed

text \<open>Other lists are not affected.\<close>

lemma klist_other:
  assumes k: "klist s m ws" and lm: "m \<noteq> l"
    and same: "\<And>x. x \<in> set (End m # ws) \<Longrightarrow> pxNext s' x = pxNext s x \<and> pxPrevious s' x = pxPrevious s x"
      "\<And>x. pxContainer s' x = Some m \<longleftrightarrow> pxContainer s x = Some m" "\<And>i. pxContainer s' (End i) = None"
      "uxNumberOfItems s' m = uxNumberOfItems s m" "pxIndex s' m = pxIndex s m" "xItemValue s' (End m) = xItemValue s (End m)"
  shows "klist s' m ws"
proof -
  have "ring_list (pxNext s') (pxPrevious s') (End m) ws"
    using k same(1) by (subst ring_list_cong [of _ _ _ "pxNext s" _ "pxPrevious s"]) (auto simp: klist_def)
  then show ?thesis using k same by (simp add: klist_def)
qed

lemma klist_disjoint:
  assumes "klist s l xs" "klist s m ws" "l \<noteq> m"
  shows "set xs \<inter> set ws = {}"
proof (rule Int_emptyI)
  fix x assume "x \<in> set xs" "x \<in> set ws"
  then have "Some l = Some m"
    using klist_container [OF assms(1), of x] klist_container [OF assms(2), of x] by metis
  then show False using assms(3) by simp
qed

lemma klist_gap:
  assumes "klist s l (ys @ zs)"
  shows "pxNext s (last (End l # ys)) = hd (zs @ [End l])" "pxPrevious s (hd (zs @ [End l])) = last (End l # ys)"
proof -
  note ring = klist_ring [OF assms]
  show "pxNext s (last (End l # ys)) = hd (zs @ [End l])"
  proof (cases ys rule: rev_cases)
    case Nil
    then show ?thesis using ring_list_ends(1) [OF ring] by auto
  next
    case (snoc ws w)
    then show ?thesis using ring_list_next(1) [of _ _ "End l" ws w zs] ring by (cases zs) auto
  qed
  show "pxPrevious s (hd (zs @ [End l])) = last (End l # ys)"
  proof (cases zs)
    case Nil
    then show ?thesis using ring_list_ends(2) [OF ring] by auto
  next
    case (Cons z ws)
    then show ?thesis using ring_list_next(2) [of _ _ "End l" ys z ws] ring by auto
  qed
qed

subsection \<open>Sorted insertion\<close>

text \<open>Behind all items of at most the same value that head the list: for a sorted list, last of its equals.\<close>

definition insert_pos :: "(node \<Rightarrow> u64) \<Rightarrow> node \<Rightarrow> node list \<Rightarrow> node list" where
  "insert_pos v n xs = takeWhile (\<lambda>x. v x \<le> v n) xs @ n # dropWhile (\<lambda>x. v x \<le> v n) xs"

lemma search_spec:
  "klist s l (ys @ zs) \<Longrightarrow> v \<noteq> portMAX_DELAY \<Longrightarrow>
     list_insert_search s v (last (End l # ys)) =
       Some (last (End l # ys @ takeWhile (\<lambda>x. xItemValue s x \<le> v) zs))"
proof (induction zs arbitrary: ys)
  case Nil
  have "\<not> portMAX_DELAY \<le> v"
    using Nil.prems(2) word_n1_ge [of v] order_antisym [of v "- 1"] by (auto simp: portMAX_DELAY_def)
  then show ?case
    using klist_gap(1) [OF Nil.prems(1)] Nil.prems(1)
    by (simp add: list_insert_search.simps [of s v "last (End l # ys)"] klist_def del: last.simps)
next
  case (Cons z zs)
  show ?case
  proof (cases "xItemValue s z \<le> v")
    case True
    have "last (End l # ys @ [z]) = z" by simp
    with True show ?thesis
      using klist_gap(1) [OF Cons.prems(1)] Cons.IH [of "ys @ [z]"] Cons.prems
      by (simp add: list_insert_search.simps [of s v "last (End l # ys)"] del: last.simps)
  next
    case False
    then show ?thesis
      using klist_gap(1) [OF Cons.prems(1)]
      by (simp add: list_insert_search.simps [of s v "last (End l # ys)"] del: last.simps)
  qed
qed

lemma takeWhile_le_max: "takeWhile (\<lambda>x. f x \<le> portMAX_DELAY) xs = xs"
  by (simp add: portMAX_DELAY_def)

lemma vListInsert_klist:
  assumes k: "klist s l xs" and n: "pxContainer s n = None" "\<forall>m. n \<noteq> End m" and len: "length xs + 1 < 2 ^ 64"
  shows "\<exists>s'. vListInsert s l n = Some s' \<and> klist s' l (insert_pos (xItemValue s) n xs) \<and>
    xItemValue s' = xItemValue s \<and> pvOwner s' = pvOwner s \<and>
    (\<forall>m ws. m \<noteq> l \<longrightarrow> klist s m ws \<longrightarrow> klist s' m ws)"
proof -
  let ?v = "xItemValue s n"
  define ys zs where "ys = takeWhile (\<lambda>x. xItemValue s x \<le> ?v) xs" and "zs = dropWhile (\<lambda>x. xItemValue s x \<le> ?v) xs"
  have xs: "xs = ys @ zs" by (simp add: ys_def zs_def)
  define a b where "a = last (End l # ys)" and "b = hd (zs @ [End l])"
  have gap: "pxNext s a = b" "pxPrevious s b = a" using klist_gap k unfolding xs a_def b_def by blast+
  have it: "(if ?v = portMAX_DELAY then Some (pxPrevious s (End l)) else list_insert_search s ?v (End l)) = Some a"
  proof (cases "?v = portMAX_DELAY")
    case True
    then have "zs = []" "ys = xs" by (simp_all add: zs_def ys_def portMAX_DELAY_def)
    then show ?thesis using True gap(2) by (simp add: b_def)
  next
    case False
    then show ?thesis using search_spec [of s l "[]" xs ?v] k by (simp add: ys_def a_def)
  qed
  define s' where "s' = s\<lparr>pxNext := (pxNext s)(n := b, a := n), pxPrevious := (pxPrevious s)(n := a, b := n),
    pxContainer := (pxContainer s)(n := Some l), uxNumberOfItems := (uxNumberOfItems s)(l := uxNumberOfItems s l + 1)\<rparr>"
  have out: "n \<notin> set (End l # ys @ zs)" using klist_container [OF k, of n] n xs by auto
  have nb: "n \<noteq> b" using out unfolding b_def by (cases zs) auto
  have run: "vListInsert s l n = Some s'"
    using it gap nb unfolding vListInsert_def Let_def
    by (simp add: s'_def fun_upd_twist [of n b] list_store.equality)
  have "klist s' l (ys @ n # zs)"
    by (rule klist_link [of s l ys zs n a b]) (use k n len xs a_def b_def in \<open>auto simp: s'_def\<close>)
  moreover have "klist s' m ws" if m: "m \<noteq> l" "klist s m ws" for m ws
  proof (rule klist_other [OF m(2,1)])
    have an: "a \<in> set (End l # xs)" "b \<in> set (End l # xs)"
      unfolding a_def b_def xs by (cases ys rule: rev_cases, simp_all) (cases zs, simp_all)
    fix x assume "x \<in> set (End m # ws)"
    moreover have "n \<notin> set (End m # ws)" using klist_container [OF m(2), of n] n by auto
    moreover have "set (End l # xs) \<inter> set (End m # ws) = {}"
      using klist_disjoint [OF k m(2)] m(1) klist_no_end [OF k] klist_no_end [OF m(2)] by auto
    ultimately have "x \<noteq> n" "x \<noteq> a" "x \<noteq> b" using an by auto
    then show "pxNext s' x = pxNext s x \<and> pxPrevious s' x = pxPrevious s x" by (simp add: s'_def)
  next
    show "\<And>x. pxContainer s' x = Some m \<longleftrightarrow> pxContainer s x = Some m" using n m by (simp add: s'_def)
    show "\<And>i. pxContainer s' (End i) = None" using n(2) m(2) by (auto simp: s'_def klist_def)
  qed (use m in \<open>simp_all add: s'_def\<close>)
  ultimately show ?thesis
    using run unfolding insert_pos_def ys_def [symmetric] zs_def [symmetric]
    by (intro exI [of _ s']) (simp add: s'_def)
qed

lemma insert_pos_simps [simp]:
  "insert_pos v n [] = [n]"
  "insert_pos v n (x # xs) = (if v x \<le> v n then x # insert_pos v n xs else n # x # xs)"
  by (simp_all add: insert_pos_def)

lemma set_insert_pos [simp]: "set (insert_pos v n xs) = insert n (set xs)"
  by (induction xs) auto

lemma sorted_insert_pos: "sorted_by v xs \<Longrightarrow> sorted_by v (insert_pos v n xs)"
  unfolding sorted_by_def by (induction xs) (auto simp: not_le intro: less_imp_le order_less_le_trans)

subsection \<open>Removal\<close>

lemma ring_neighbours:
  "last (h # ys) \<in> set (h # ys @ zs)" "hd (zs @ [h]) \<in> set (h # ys @ zs)"
  by (cases ys rule: rev_cases, simp_all) (cases zs, simp_all)

lemma uxListRemove_klist:
  assumes k: "klist s l (ys @ x # zs)"
  shows "\<exists>s'. uxListRemove s x = Some (of_nat (length (ys @ zs)), s') \<and> klist s' l (ys @ zs) \<and>
    pxContainer s' x = None \<and> xItemValue s' = xItemValue s \<and> pvOwner s' = pvOwner s \<and>
    (pxIndex s l \<noteq> x \<longrightarrow> pxIndex s' l = pxIndex s l) \<and>
    (pxIndex s l = x \<longrightarrow> pxIndex s' l = last (End l # ys)) \<and>
    (\<forall>m ws. m \<noteq> l \<longrightarrow> klist s m ws \<longrightarrow> klist s' m ws)"
proof -
  let ?a = "last (End l # ys)" and ?b = "hd (zs @ [End l])"
  note ring = klist_ring [OF k]
  have ab: "pxPrevious s x = ?a" "pxNext s x = ?b" using ring_list_next [OF ring] by auto
  have out: "x \<notin> set (End l # ys @ zs)" using ring by (auto simp: ring_list_def)
  then have ne: "?a \<noteq> x" "?b \<noteq> x" using ring_neighbours [where h = "End l" and ys = ys and zs = zs] by metis+
  have cont: "pxContainer s x = Some l" using klist_container [OF k, of x] by simp
  define s' where "s' = s\<lparr>pxPrevious := (pxPrevious s)(?b := ?a), pxNext := (pxNext s)(?a := ?b),
    pxIndex := (if pxIndex s l = x then (pxIndex s)(l := ?a) else pxIndex s),
    pxContainer := (pxContainer s)(x := None), uxNumberOfItems := (uxNumberOfItems s)(l := uxNumberOfItems s l - 1)\<rparr>"
  have pv: "((pxPrevious s)(?b := ?a)) x = ?a" using ne ab by simp
  have cnt: "uxNumberOfItems s l - 1 = of_nat (length (ys @ zs))"
  proof (rule eq_of_nat_unat)
    have u: "unat (uxNumberOfItems s l) = length (ys @ x # zs)" using k by (simp add: klist_def)
    then have "1 \<le> uxNumberOfItems s l" by (simp add: word_le_nat_alt)
    then show "unat (uxNumberOfItems s l - 1) = length (ys @ zs)" using u by (simp add: unat_sub_le)
  qed
  have run: "uxListRemove s x = Some (of_nat (length (ys @ zs)), s')"
    unfolding uxListRemove_def Let_def cont Option.bind.simps
    using ab ne cnt by (simp add: s'_def pv del: last.simps)
  have "ring_list (pxNext s') (pxPrevious s') (End l) (ys @ zs)"
    unfolding s'_def by (simp add: ring_remove [OF ring refl refl] del: last.simps)
  moreover have "unat (uxNumberOfItems s' l) = length (ys @ zs)"
  proof -
    have "length (ys @ zs) < 2 ^ 64"
      using k unsigned_less [of "uxNumberOfItems s l", where ?'a = nat] by (simp add: klist_def)
    then have "unat (of_nat (length (ys @ zs)) :: u64) = length (ys @ zs)" by (intro unat_of_nat_lt) simp
    moreover have "uxNumberOfItems s' l = of_nat (length (ys @ zs))" unfolding s'_def cnt by simp
    ultimately show ?thesis by (simp only:)
  qed
  moreover have "pxIndex s' l \<in> set (End l # ys @ zs)"
    using k ring_neighbours(1) [where h = "End l" and ys = ys and zs = zs] out by (auto simp: s'_def klist_def simp del: last.simps)
  ultimately have k': "klist s' l (ys @ zs)"
    using k out by (auto simp: klist_def s'_def)
  moreover have "klist s' m ws" if m: "m \<noteq> l" "klist s m ws" for m ws
  proof (rule klist_other [OF m(2,1)])
    fix y assume "y \<in> set (End m # ws)"
    moreover have "set (End l # ys @ x # zs) \<inter> set (End m # ws) = {}"
      using klist_disjoint [OF k m(2)] m(1) klist_no_end [OF k] klist_no_end [OF m(2)] by auto
    ultimately have "y \<noteq> ?a" "y \<noteq> ?b" using ring_neighbours [where h = "End l" and ys = ys and zs = zs] by auto
    then show "pxNext s' y = pxNext s y \<and> pxPrevious s' y = pxPrevious s y" by (simp add: s'_def del: last.simps)
  next
    show "\<And>y. pxContainer s' y = Some m \<longleftrightarrow> pxContainer s y = Some m" using cont m by (simp add: s'_def)
    show "\<And>i. pxContainer s' (End i) = None" using m(2) by (auto simp: s'_def klist_def)
  qed (use m in \<open>simp_all add: s'_def\<close>)
  ultimately show ?thesis using run by (intro exI [of _ s']) (simp add: s'_def)
qed

subsection \<open>The round robin\<close>

text \<open>
  The order in which the walk of \<open>pxIndex\<close> will meet the members: the ones behind the index
  first, the one at the index last.
\<close>

definition walk_order :: "list_store \<Rightarrow> nat \<Rightarrow> node list \<Rightarrow> node list" where
  "walk_order s l xs =
     (if pxIndex s l = End l then xs
      else tl (dropWhile (\<lambda>x. x \<noteq> pxIndex s l) xs) @ takeWhile (\<lambda>x. x \<noteq> pxIndex s l) xs @ [pxIndex s l])"

lemma walk_order_End: "pxIndex s l = End l \<Longrightarrow> walk_order s l xs = xs"
  by (simp add: walk_order_def)

lemma walk_order_at:
  assumes "pxIndex s l = x" "x \<noteq> End l" "x \<notin> set ys"
  shows "walk_order s l (ys @ x # zs) = zs @ ys @ [x]"
proof -
  have "dropWhile (\<lambda>y. y \<noteq> x) (ys @ x # zs) = x # zs" "takeWhile (\<lambda>y. y \<noteq> x) (ys @ x # zs) = ys"
    using assms(3) by (induction ys) auto
  then show ?thesis using assms by (simp add: walk_order_def)
qed

lemma klist_index_cases:
  assumes "klist s l xs"
  obtains (at_end) "pxIndex s l = End l" "walk_order s l xs = xs"
  | (at_item) ys x zs where "xs = ys @ x # zs" "pxIndex s l = x" "x \<noteq> End l" "walk_order s l xs = zs @ ys @ [x]"
proof (cases "pxIndex s l = End l")
  case True
  then show ?thesis using at_end by (simp add: walk_order_End)
next
  case False
  then have "pxIndex s l \<in> set xs" using assms by (simp add: klist_def)
  then obtain ys zs where xs: "xs = ys @ pxIndex s l # zs" "pxIndex s l \<notin> set ys"
    using split_list_first by metis
  then show ?thesis using at_item [OF xs(1) refl False] walk_order_at [OF refl False xs(2), of zs] by metis
qed

lemma mset_walk_order: "klist s l xs \<Longrightarrow> set (walk_order s l xs) = set xs \<and> length (walk_order s l xs) = length xs"
  by (erule klist_index_cases) auto

text \<open>
  \<open>vListInsertEnd\<close> makes the new item the last one met before the walk is back at the
  current one; with the index on the end marker it is appended.
\<close>

lemma vListInsertEnd_klist:
  assumes k: "klist s l xs" and n: "pxContainer s n = None" "\<forall>m. n \<noteq> End m" and len: "length xs + 1 < 2 ^ 64"
  shows "\<exists>xs'. klist (vListInsertEnd s l n) l xs' \<and>
    walk_order (vListInsertEnd s l n) l xs' =
      (if pxIndex s l = End l then walk_order s l xs @ [n]
       else butlast (walk_order s l xs) @ [n, pxIndex s l]) \<and>
    (\<forall>m ws. m \<noteq> l \<longrightarrow> klist s m ws \<longrightarrow> klist (vListInsertEnd s l n) m ws)"
proof -
  let ?s = "vListInsertEnd s l n"
  obtain ys zs where xs: "xs = ys @ zs" and b: "pxIndex s l = hd (zs @ [End l])"
    "pxIndex s l = End l \<longrightarrow> zs = []"
    using k by (cases rule: klist_index_cases) (metis append_Nil2 append_Nil list.sel(1), metis append_Cons list.sel(1))
  define a where "a = last (End l # ys)"
  have gap: "pxPrevious s (pxIndex s l) = a" using klist_gap(2) k unfolding xs b(1) a_def by blast
  have out: "n \<notin> set (End l # ys @ zs)" using klist_container [OF k, of n] n xs by auto
  then have ne: "pxIndex s l \<noteq> n" "a \<noteq> n"
    using ring_neighbours [where h = "End l" and ys = ys and zs = zs] unfolding b(1) a_def by metis+
  have fld: "pxNext ?s = (pxNext s)(n := pxIndex s l, a := n)" "pxPrevious ?s = (pxPrevious s)(n := a, pxIndex s l := n)"
    "pxContainer ?s = (pxContainer s)(n := Some l)" "uxNumberOfItems ?s l = uxNumberOfItems s l + 1"
    "pxIndex ?s = pxIndex s" "xItemValue ?s = xItemValue s" "\<And>m. m \<noteq> l \<Longrightarrow> uxNumberOfItems ?s m = uxNumberOfItems s m"
    using gap ne by (simp_all add: vListInsertEnd_def Let_def)
  have k': "klist ?s l (ys @ n # zs)"
    by (rule klist_link [OF k [unfolded xs] n len [unfolded xs] a_def b(1) fld(1-4) _ fld(6)]) (simp add: fld(5))
  have w: "walk_order ?s l (ys @ n # zs) =
      (if pxIndex s l = End l then walk_order s l xs @ [n] else butlast (walk_order s l xs) @ [n, pxIndex s l])"
  proof (cases "pxIndex s l = End l")
    case True
    then show ?thesis using b(2) xs by (simp add: walk_order_End fld(5))
  next
    case False
    then obtain z zs' where z: "zs = z # zs'" "pxIndex s l = z" using b by (cases zs) auto
    have "distinct xs" using klist_distinct [OF k] .
    then have "z \<notin> set ys" "z \<noteq> n" using xs z out by auto
    then show ?thesis
      using walk_order_at [of ?s l z "ys @ [n]" zs'] walk_order_at [of s l z ys zs'] False z xs fld(5)
      by (simp add: butlast_append)
  qed
  have "klist ?s m ws" if m: "m \<noteq> l" "klist s m ws" for m ws
  proof (rule klist_other [OF m(2,1)])
    fix x assume "x \<in> set (End m # ws)"
    moreover have "n \<notin> set (End m # ws)" using klist_container [OF m(2), of n] n by auto
    moreover have "set (End l # ys @ zs) \<inter> set (End m # ws) = {}"
      using klist_disjoint [OF k m(2)] m(1) klist_no_end [OF k] klist_no_end [OF m(2)] xs by auto
    ultimately have "x \<noteq> n" "x \<noteq> a" "x \<noteq> pxIndex s l"
      using ring_neighbours [where h = "End l" and ys = ys and zs = zs] unfolding a_def b(1) by auto
    then show "pxNext ?s x = pxNext s x \<and> pxPrevious ?s x = pxPrevious s x" by (simp add: fld)
  next
    show "\<And>x. pxContainer ?s x = Some m \<longleftrightarrow> pxContainer s x = Some m" using n m by (simp add: fld)
    show "\<And>i. pxContainer ?s (End i) = None" using n(2) m(2) by (auto simp: fld klist_def)
  qed (use m in \<open>simp_all add: fld\<close>)
  then show ?thesis using k' w by blast
qed

lemma klist_index_move:
  assumes "klist s l xs" "i \<in> set (End l # xs)"
  shows "klist (s\<lparr>pxIndex := (pxIndex s)(l := i)\<rparr>) l xs"
  using assms by (simp add: klist_def)

lemma next_entry_klist:
  assumes k: "klist s l xs" and w: "walk_order s l xs = x # ws"
  shows "\<exists>s'. listGET_OWNER_OF_NEXT_ENTRY s l = (pvOwner s x, s') \<and> klist s' l xs \<and> pxIndex s' l = x \<and>
    walk_order s' l xs = ws @ [x] \<and> pvOwner s' = pvOwner s"
proof -
  let ?i = "pxIndex s l"
  have ne: "xs \<noteq> []" using w k by (cases rule: klist_index_cases [OF k]) auto
  have dist: "distinct xs" "\<And>m. End m \<notin> set xs" using klist_distinct [OF k] klist_no_end [OF k] by auto
  define s' where "s' = s\<lparr>pxIndex := (pxIndex s)(l := x)\<rparr>"
  have xin: "x \<in> set xs" using mset_walk_order [OF k] w by auto
  have xe: "x \<noteq> End l" using xin dist(2) by auto
  have step: "listGET_OWNER_OF_NEXT_ENTRY s l = (pvOwner s x, s')"
  proof (cases "pxNext s ?i = End l")
    case True
    have "pxNext s (End l) = x"
      using k
    proof (cases rule: klist_index_cases)
      case at_end
      then show ?thesis using True ring_list_ends(1) [OF klist_ring [OF k]] ne dist(2) by (auto split: if_splits) (metis list.set_sel(1))
    next
      case (at_item ys y zs)
      have "zs = []" using ring_list_next(1) [OF klist_ring [OF k [unfolded at_item(1)]]] True at_item dist(2)
        by (auto split: if_splits) (metis Un_iff hd_in_set list.set_intros(2) set_append)
      then have "x = hd (ys @ [y])" using w at_item by (cases ys) auto
      then show ?thesis using ring_list_ends(1) [OF klist_ring [OF k]] at_item \<open>zs = []\<close> by (cases ys) auto
    qed
    then show ?thesis using True by (simp add: listGET_OWNER_OF_NEXT_ENTRY_def Let_def s'_def)
  next
    case False
    have "pxNext s ?i = x"
      using k
    proof (cases rule: klist_index_cases)
      case at_end
      then show ?thesis using w ring_list_ends(1) [OF klist_ring [OF k]] ne by auto
    next
      case (at_item ys y zs)
      have "pxNext s y = (if zs = [] then End l else hd zs)"
        using ring_list_next(1) [OF klist_ring [OF k [unfolded at_item(1)]]] .
      then show ?thesis using False at_item w by (cases zs) auto
    qed
    then show ?thesis using False by (simp add: listGET_OWNER_OF_NEXT_ENTRY_def Let_def s'_def)
  qed
  moreover have "klist s' l xs" unfolding s'_def by (rule klist_index_move [OF k]) (use xin in simp)
  moreover have "walk_order s' l xs = ws @ [x]"
    using k
  proof (cases rule: klist_index_cases)
    case at_end
    then have "xs = [] @ x # ws" using w by simp
    then show ?thesis using walk_order_at [of s' l x "[]" ws] xe by (simp add: s'_def)
  next
    case (at_item ys y zs)
    show ?thesis
    proof (cases zs)
      case Nil
      show ?thesis
      proof (cases ys)
        case Nil
        then show ?thesis using at_item \<open>zs = []\<close> w xe walk_order_at [of s' l x "[]" "[]"] by (simp add: s'_def)
      next
        case (Cons u us)
        then have "x = u" "ws = us @ [y]" using at_item Nil w by auto
        then show ?thesis using at_item Nil Cons xe walk_order_at [of s' l x "[]" "us @ [y]"] by (simp add: s'_def)
      qed
    next
      case (Cons u us)
      then have x: "x = u" "ws = us @ ys @ [y]" using at_item w by auto
      have "x \<notin> set (ys @ [y])" using dist(1) at_item(1) Cons x by auto
      then show ?thesis using at_item Cons x xe walk_order_at [of s' l x "ys @ [y]" us] by (simp add: s'_def)
    qed
  qed
  ultimately show ?thesis by (intro exI [of _ s']) (simp add: s'_def)
qed

text \<open>\<open>n\<close> calls in a row.\<close>

fun next_entries :: "nat \<Rightarrow> list_store \<Rightarrow> nat \<Rightarrow> nat list \<times> list_store" where
  "next_entries 0 s l = ([], s)"
| "next_entries (Suc n) s l =
     (let (w, s) = listGET_OWNER_OF_NEXT_ENTRY s l; (ws, s) = next_entries n s l in (w # ws, s))"

lemma next_entries_klist:
  "klist s l xs \<Longrightarrow> walk_order s l xs = us @ vs \<Longrightarrow>
     \<exists>s'. next_entries (length us) s l = (map (pvOwner s) us, s') \<and> klist s' l xs \<and>
       walk_order s' l xs = vs @ us \<and> pvOwner s' = pvOwner s"
proof (induction us arbitrary: s vs)
  case (Cons u us)
  obtain s1 where s1: "listGET_OWNER_OF_NEXT_ENTRY s l = (pvOwner s u, s1)" "klist s1 l xs"
    "walk_order s1 l xs = us @ (vs @ [u])" "pvOwner s1 = pvOwner s"
    using next_entry_klist [OF Cons.prems(1), of u "us @ vs"] Cons.prems(2) by auto
  from Cons.IH [OF s1(2,3)] s1 show ?case by auto
qed simp

subsection \<open>The list as an instance of the list contract\<close>

definition kl_members :: "list_store \<Rightarrow> nat \<Rightarrow> node list \<Rightarrow> bool" where
  "kl_members s l xs \<longleftrightarrow> klist s l xs \<and> pxIndex s l = End l"

definition kl_free :: "list_store \<Rightarrow> nat \<Rightarrow> node \<Rightarrow> bool" where
  "kl_free s l n \<longleftrightarrow> pxContainer s n = None \<and> (\<forall>m. n \<noteq> End m) \<and> unat (uxNumberOfItems s l) + 1 < 2 ^ 64"

definition kl_remove :: "list_store \<Rightarrow> node \<Rightarrow> list_store" where
  "kl_remove s x = (case uxListRemove s x of Some (n, s') \<Rightarrow> s' | None \<Rightarrow> s)"

definition kl_first :: "list_store \<Rightarrow> nat \<Rightarrow> node option" where
  "kl_first s l = (if listLIST_IS_EMPTY s l then None else Some (listGET_HEAD_ENTRY s l))"

interpretation kl: node_list kl_members kl_free
    "\<lambda>s l. (\<forall>x. pxContainer s x \<noteq> Some l) \<and> (\<forall>m. pxContainer s (End m) = None)"
    vListInitialise vListInsertEnd kl_remove kl_first
proof unfold_locales
  fix s :: list_store and l
  assume "(\<forall>x. pxContainer s x \<noteq> Some l) \<and> (\<forall>m. pxContainer s (End m) = None)"
  then show "kl_members (vListInitialise s l) l []"
    using vListInitialise_klist [of s l] by (simp add: kl_members_def vListInitialise_def)
next
  fix s l xs n
  assume "kl_members s l xs" "kl_free s l n"
  then have k: "klist s l xs" "pxIndex s l = End l" "pxContainer s n = None" "\<forall>m. n \<noteq> End m" "length xs + 1 < 2 ^ 64"
    by (auto simp: kl_members_def kl_free_def klist_def)
  obtain xs' where "klist (vListInsertEnd s l n) l xs'" "walk_order (vListInsertEnd s l n) l xs' = xs @ [n]"
    using vListInsertEnd_klist [OF k(1,3,4,5)] k(2) by (auto simp: walk_order_End)
  moreover have "pxIndex (vListInsertEnd s l n) l = End l" using k(2) by (simp add: vListInsertEnd_def Let_def)
  ultimately show "kl_members (vListInsertEnd s l n) l (xs @ [n])"
    by (simp add: kl_members_def walk_order_End)
next
  fix s l ys x zs
  assume "kl_members s l (ys @ x # zs)"
  then have k: "klist s l (ys @ x # zs)" "pxIndex s l = End l" by (simp_all add: kl_members_def)
  have "x \<noteq> End m" for m using klist_no_end [OF k(1), of m] by auto
  moreover obtain s' where s': "uxListRemove s x = Some (of_nat (length (ys @ zs)), s')" "klist s' l (ys @ zs)"
    "pxContainer s' x = None" "pxIndex s l \<noteq> x \<longrightarrow> pxIndex s' l = pxIndex s l"
    using uxListRemove_klist [OF k(1)] by blast
  moreover have "length (ys @ zs) + 1 < 2 ^ 64"
    using k(1) unsigned_less [of "uxNumberOfItems s l", where ?'a = nat] by (simp add: klist_def)
  ultimately show "kl_members (kl_remove s x) l (ys @ zs)" "kl_free (kl_remove s x) l x"
    using k by (auto simp: kl_members_def kl_remove_def kl_free_def klist_def)
next
  show "kl_first s l = (if xs = [] then None else Some (hd xs))" if "kl_members s l xs" for s l xs
    using that klist_is_empty [of s l xs] klist_head [of s l xs] by (simp add: kl_members_def kl_first_def)
next
  show "distinct xs" if "kl_members s l xs" for s l xs
    using that klist_distinct [of s l xs] by (simp add: kl_members_def)
qed

subsection \<open>Properties\<close>

definition ex_store :: list_store where
  "ex_store = vListInitialise \<lparr>xItemValue = (\<lambda>n. case n of Item k \<Rightarrow> of_nat (10 * k) | End k \<Rightarrow> 0),
     pxNext = (\<lambda>n. n), pxPrevious = (\<lambda>n. n), pvOwner = (\<lambda>n. case n of Item k \<Rightarrow> k + 100 | End k \<Rightarrow> 0),
     pxContainer = (\<lambda>_. None), uxNumberOfItems = (\<lambda>_. 0), pxIndex = (\<lambda>l. End l)\<rparr> 0"

lemma ex_store_klist: "klist ex_store 0 []"
  unfolding ex_store_def by (rule vListInitialise_klist) simp_all

lemma ex_store_two: "\<exists>s. klist s 0 [Item 3, Item 5] \<and> pxContainer s (Item 4) = None \<and>
  xItemValue s (Item 3) = 30 \<and> xItemValue s (Item 4) = 40 \<and> xItemValue s (Item 5) = 50 \<and>
  pvOwner s (Item 3) = 103 \<and> pvOwner s (Item 5) = 105"
proof -
  have c: "pxContainer ex_store x = None" for x by (simp add: ex_store_def vListInitialise_def)
  obtain s1 where s1: "vListInsert ex_store 0 (Item 5) = Some s1" "klist s1 0 [Item 5]"
    "xItemValue s1 = xItemValue ex_store" "pvOwner s1 = pvOwner ex_store"
    using vListInsert_klist [OF ex_store_klist, of "Item 5"] c by auto
  have c1: "pxContainer s1 (Item 3) = None" "pxContainer s1 (Item 4) = None"
    using s1(1) by (auto simp: vListInsert_def Let_def bind_eq_Some_conv c)
  obtain s2 where s2: "vListInsert s1 0 (Item 3) = Some s2" "klist s2 0 (insert_pos (xItemValue s1) (Item 3) [Item 5])"
    "xItemValue s2 = xItemValue s1" "pvOwner s2 = pvOwner s1"
    using vListInsert_klist [OF s1(2), of "Item 3"] c1 by auto
  have "pxContainer s2 (Item 4) = None"
    using s2(1) c1 by (auto simp: vListInsert_def Let_def bind_eq_Some_conv)
  moreover have "xItemValue ex_store (Item 3) = 30" "xItemValue ex_store (Item 4) = 40" "xItemValue ex_store (Item 5) = 50"
    "pvOwner ex_store (Item 3) = 103" "pvOwner ex_store (Item 5) = 105"
    by (simp_all add: ex_store_def vListInitialise_def)
  ultimately show ?thesis using s1 s2 by auto
qed

text \<open>C18: \<open>vListInsert\<close> into a well-formed list ends, links the item behind every item of at most its
  value (so a sorted list stays sorted and equal values keep their order of arrival), keeps the
  counter, the containers and the ring consistent, and leaves every other list alone.\<close>

theorem vListInsert_correct:
  assumes "klist s l xs" and "pxContainer s n = None" "\<forall>m. n \<noteq> End m" and "length xs + 1 < 2 ^ 64"
  shows "\<exists>s'. vListInsert s l n = Some s' \<and> klist s' l (insert_pos (xItemValue s) n xs) \<and>
    (sorted_by (xItemValue s) xs \<longrightarrow> sorted_by (xItemValue s') (insert_pos (xItemValue s) n xs)) \<and>
    (\<forall>m ws. m \<noteq> l \<longrightarrow> klist s m ws \<longrightarrow> klist s' m ws)"
  using vListInsert_klist [OF assms] sorted_insert_pos by metis

theorem vListInsert_correct_witness:
  "\<exists>s s'. klist s 0 [Item 3, Item 5] \<and> vListInsert s 0 (Item 4) = Some s' \<and> klist s' 0 [Item 3, Item 4, Item 5]"
proof -
  obtain s where s: "klist s 0 [Item 3, Item 5]" "pxContainer s (Item 4) = None"
    "xItemValue s (Item 3) = 30" "xItemValue s (Item 4) = 40" "xItemValue s (Item 5) = 50"
    using ex_store_two by blast
  obtain s' where "vListInsert s 0 (Item 4) = Some s'" "klist s' 0 (insert_pos (xItemValue s) (Item 4) [Item 3, Item 5])"
    using vListInsert_correct [OF s(1,2)] by auto
  moreover have "insert_pos (xItemValue s) (Item 4) [Item 3, Item 5] = [Item 3, Item 4, Item 5]" using s by simp
  ultimately show ?thesis using s(1) by metis
qed

text \<open>\<open>uxListRemove\<close> of a member unlinks exactly that item, returns the number of items left, moves
  the index back to the predecessor when it stood on the item, and leaves every other list
  alone; inserting the item again is possible.\<close>

theorem uxListRemove_correct:
  assumes "klist s l (ys @ x # zs)"
  shows "\<exists>s'. uxListRemove s x = Some (of_nat (length (ys @ zs)), s') \<and> klist s' l (ys @ zs) \<and>
    pxContainer s' x = None \<and>
    pxIndex s' l = (if pxIndex s l = x then last (End l # ys) else pxIndex s l) \<and>
    (\<forall>m ws. m \<noteq> l \<longrightarrow> klist s m ws \<longrightarrow> klist s' m ws)"
  using uxListRemove_klist [OF assms] by auto

theorem uxListRemove_correct_witness:
  "\<exists>s s'. klist s 0 [Item 3, Item 5] \<and> uxListRemove s (Item 3) = Some (1, s') \<and> klist s' 0 [Item 5]"
proof -
  obtain s where s: "klist s 0 [Item 3, Item 5]" using ex_store_two by blast
  have "klist s 0 ([] @ Item 3 # [Item 5])" using s by simp
  from uxListRemove_correct [OF this] show ?thesis using s by auto
qed

text \<open>C21: \<open>listGET_OWNER_OF_NEXT_ENTRY\<close> is a fair round robin: over as many calls as the list has
  members every member's owner is returned exactly once, in ring order from the index on, and
  the walk is then back where it was.\<close>

theorem round_robin_fair:
  assumes "klist s l xs"
  shows "\<exists>s'. next_entries (length xs) s l = (map (pvOwner s) (walk_order s l xs), s') \<and>
    set (walk_order s l xs) = set xs \<and> distinct (walk_order s l xs) \<and> klist s' l xs \<and>
    walk_order s' l xs = walk_order s l xs"
proof -
  have m: "set (walk_order s l xs) = set xs" "length (walk_order s l xs) = length xs"
    using mset_walk_order [OF assms] by simp_all
  then have "distinct (walk_order s l xs)"
    using klist_distinct [OF assms] by (metis card_distinct distinct_card)
  then show ?thesis
    using next_entries_klist [OF assms, of "walk_order s l xs" "[]"] m by auto
qed

theorem round_robin_fair_witness:
  "\<exists>s s'. klist s 0 [Item 3, Item 5] \<and> (\<exists>os. next_entries 2 s 0 = (os, s') \<and> set os = {103, 105})"
proof -
  obtain s where s: "klist s 0 [Item 3, Item 5]" "pvOwner s (Item 3) = 103" "pvOwner s (Item 5) = 105"
    using ex_store_two by blast
  obtain s' where "next_entries 2 s 0 = (map (pvOwner s) (walk_order s 0 [Item 3, Item 5]), s')"
    "set (walk_order s 0 [Item 3, Item 5]) = {Item 3, Item 5}"
    using round_robin_fair [OF s(1)] by (auto simp: numeral_2_eq_2)
  then show ?thesis using s by (intro exI [of _ s] exI [of _ s']) simp
qed

text \<open>Taking the head entry off a list until it is empty, as the kernel does when it wakes all
  waiting tasks, visits every member once, in list order, and ends.\<close>

theorem list_drain_correct:
  assumes "kl_members s l xs" and "length xs \<le> n"
  shows "\<exists>t. kl.drain n s l = (xs, t) \<and> kl_members t l []"
  by (rule kl.drain_members [OF assms])

theorem list_drain_correct_witness:
  "\<exists>t. kl.drain 5 (vListInsertEnd ex_store 0 (Item 1)) 0 = ([Item 1], t)"
proof -
  have "kl_members ex_store 0 []"
    using ex_store_klist by (simp add: kl_members_def ex_store_def vListInitialise_def)
  moreover have "kl_free ex_store 0 (Item 1)"
    by (simp add: kl_free_def ex_store_def vListInitialise_def)
  ultimately have "kl_members (vListInsertEnd ex_store 0 (Item 1)) 0 [Item 1]"
    using kl.tail_members by fastforce
  from list_drain_correct [OF this, of 5] show ?thesis by auto
qed

end
