(* ===== verification/Heap4.thy ===== *)
theory Heap4
  imports Metal_Block
begin

text \<open>
  The memory allocator, \<^verbatim>\<open>FreeRTOS/Source/portable/MemMang/heap_4.c\<close>: a free list of blocks in
  address order, threaded through the headers in front of the blocks, with first fit, splitting
  and merging of neighbours. Headers are found by address (\<open>hp_size\<close>, \<open>hp_next\<close>); the user bytes
  are a byte store of their own. The null pointer is 0, and reading a header through it has no
  result. The two static objects \<open>xStart\<close> and \<open>ucHeap\<close> have given addresses. Interrupt masking
  around the list updates is not represented; \<open>configASSERT\<close> is empty in this configuration.
\<close>

record heap4 =
  hp_xStart :: u64
  hp_ucHeap :: u64
  hp_next :: "u64 \<Rightarrow> u64"
  hp_size :: "u64 \<Rightarrow> u64"
  hp_end :: u64
  hp_free :: u64
  hp_min :: u64
  hp_allocs :: u64
  hp_frees :: u64
  hp_bit :: u64
  hp_mem :: mem

definition portBYTE_ALIGNMENT :: u64 where "portBYTE_ALIGNMENT = 16"
definition portBYTE_ALIGNMENT_MASK :: u64 where "portBYTE_ALIGNMENT_MASK = 15"
definition xHeapStructSize :: u64 where
  "xHeapStructSize = (16 + (portBYTE_ALIGNMENT - 1)) AND NOT portBYTE_ALIGNMENT_MASK"
definition heapMINIMUM_BLOCK_SIZE :: u64 where "heapMINIMUM_BLOCK_SIZE = push_bit 1 xHeapStructSize"
definition configTOTAL_HEAP_SIZE :: u64 where "configTOTAL_HEAP_SIZE = 0x40000"

lemma heap_consts: "xHeapStructSize = 16" "heapMINIMUM_BLOCK_SIZE = 32" "portBYTE_ALIGNMENT = 16"
  "portBYTE_ALIGNMENT_MASK = 15"
  by (simp_all add: xHeapStructSize_def heapMINIMUM_BLOCK_SIZE_def portBYTE_ALIGNMENT_def portBYTE_ALIGNMENT_MASK_def)

definition blk_size :: "heap4 \<Rightarrow> u64 \<Rightarrow> u64 option" where
  "blk_size s p = (if p = 0 then None else Some (hp_size s p))"

definition blk_next :: "heap4 \<Rightarrow> u64 \<Rightarrow> u64 option" where
  "blk_next s p = (if p = 0 then None else Some (hp_next s p))"

definition set_size :: "heap4 \<Rightarrow> u64 \<Rightarrow> u64 \<Rightarrow> heap4" where
  "set_size s p v = s\<lparr>hp_size := (hp_size s)(p := v)\<rparr>"

definition set_next :: "heap4 \<Rightarrow> u64 \<Rightarrow> u64 \<Rightarrow> heap4" where
  "set_next s p v = s\<lparr>hp_next := (hp_next s)(p := v)\<rparr>"

subsection \<open>The free list\<close>

partial_function (option) insert_search :: "heap4 \<Rightarrow> u64 \<Rightarrow> u64 \<Rightarrow> u64 option" where
  "insert_search s blk it =
     Option.bind (blk_next s it) (\<lambda>n. if n < blk then insert_search s blk n else Some it)"

declare insert_search.simps [code]

definition prvInsertBlockIntoFreeList :: "heap4 \<Rightarrow> u64 \<Rightarrow> heap4 option" where
  "prvInsertBlockIntoFreeList s pxBlockToInsert = do {
     pxIterator \<leftarrow> insert_search s pxBlockToInsert (hp_xStart s);
     let (s, blk) =
       (if pxIterator + hp_size s pxIterator = pxBlockToInsert
        then (set_size s pxIterator (hp_size s pxIterator + hp_size s pxBlockToInsert), pxIterator)
        else (s, pxBlockToInsert));
     let nxt = hp_next s pxIterator;
     s \<leftarrow> (if blk + hp_size s blk = nxt
           then if nxt \<noteq> hp_end s
                then do {
                  nsize \<leftarrow> blk_size s nxt;
                  let s = set_size s blk (hp_size s blk + nsize);
                  Some (set_next s blk (hp_next s nxt)) }
                else Some (set_next s blk (hp_end s))
           else Some (set_next s blk nxt));
     Some (if pxIterator \<noteq> blk then set_next s pxIterator blk else s) }"

definition prvHeapInit :: "heap4 \<Rightarrow> heap4" where
  "prvHeapInit s =
     (let total = configTOTAL_HEAP_SIZE;
          uxAddress = hp_ucHeap s;
          (uxAddress, total) =
            (if uxAddress AND portBYTE_ALIGNMENT_MASK \<noteq> 0
             then let a = (uxAddress + (portBYTE_ALIGNMENT - 1)) AND NOT portBYTE_ALIGNMENT_MASK
                  in (a, total - (a - hp_ucHeap s))
             else (uxAddress, total));
          pucAlignedHeap = uxAddress;
          s = set_next s (hp_xStart s) pucAlignedHeap;
          s = set_size s (hp_xStart s) 0;
          uxAddress = (pucAlignedHeap + total - xHeapStructSize) AND NOT portBYTE_ALIGNMENT_MASK;
          s = s\<lparr>hp_end := uxAddress\<rparr>;
          s = set_size s uxAddress 0;
          s = set_next s uxAddress 0;
          s = set_size s pucAlignedHeap (uxAddress - pucAlignedHeap);
          s = set_next s pucAlignedHeap (hp_end s)
      in s\<lparr>hp_min := hp_size s pucAlignedHeap, hp_free := hp_size s pucAlignedHeap, hp_bit := push_bit 63 1\<rparr>)"

subsection \<open>Allocation and release\<close>

text \<open>The first-fit loop; the result is the block and the one before it on the free list.\<close>

partial_function (option) fit_search :: "heap4 \<Rightarrow> u64 \<Rightarrow> u64 \<Rightarrow> u64 \<Rightarrow> (u64 \<times> u64) option" where
  "fit_search s wanted prev blk =
     Option.bind (blk_size s blk) (\<lambda>sz. Option.bind (blk_next s blk) (\<lambda>n.
       if sz < wanted \<and> n \<noteq> 0 then fit_search s wanted blk n else Some (prev, blk)))"

declare fit_search.simps [code]

text \<open>The size with its header, rounded up to the alignment; 0 when that wraps around.\<close>

definition wanted_size :: "u64 \<Rightarrow> u64" where
  "wanted_size w =
     (if 0 < w \<and> w < w + xHeapStructSize
      then let w = w + xHeapStructSize
           in if w AND portBYTE_ALIGNMENT_MASK \<noteq> 0
              then if w < w + (portBYTE_ALIGNMENT - (w AND portBYTE_ALIGNMENT_MASK))
                   then w + (portBYTE_ALIGNMENT - (w AND portBYTE_ALIGNMENT_MASK)) else 0
              else w
      else 0)"

definition internal_malloc :: "heap4 \<Rightarrow> u64 \<Rightarrow> (u64 \<times> heap4) option" where
  "internal_malloc s xWantedSize = do {
     let s = (if hp_end s = 0 then prvHeapInit s else s);
     if xWantedSize AND hp_bit s = 0 then do {
       let w = wanted_size xWantedSize;
       if 0 < w \<and> w \<le> hp_free s then do {
         (prev, blk) \<leftarrow> fit_search s w (hp_xStart s) (hp_next s (hp_xStart s));
         if blk \<noteq> hp_end s then do {
           let pvReturn = hp_next s prev + xHeapStructSize;
           let s = set_next s prev (hp_next s blk);
           s \<leftarrow> (if heapMINIMUM_BLOCK_SIZE < hp_size s blk - w
                 then do {
                   let new = blk + w;
                   let s = set_size s new (hp_size s blk - w);
                   let s = set_size s blk w;
                   prvInsertBlockIntoFreeList s new }
                 else Some s);
           let s = s\<lparr>hp_free := hp_free s - hp_size s blk\<rparr>;
           let s = (if hp_free s < hp_min s then s\<lparr>hp_min := hp_free s\<rparr> else s);
           let s = set_size s blk (hp_size s blk OR hp_bit s);
           let s = set_next s blk 0;
           Some (pvReturn, s\<lparr>hp_allocs := hp_allocs s + 1\<rparr>) }
         else Some (0, s) }
       else Some (0, s) }
     else Some (0, s) }"

definition internal_free :: "heap4 \<Rightarrow> u64 \<Rightarrow> heap4 option" where
  "internal_free s pv =
     (if pv \<noteq> 0 then do {
        let pxLink = pv - xHeapStructSize;
        size \<leftarrow> blk_size s pxLink;
        if size AND hp_bit s \<noteq> 0 then
          if hp_next s pxLink = 0 then do {
            let s = set_size s pxLink (size AND NOT (hp_bit s));
            let s = s\<lparr>hp_free := hp_free s + hp_size s pxLink\<rparr>;
            s \<leftarrow> prvInsertBlockIntoFreeList s pxLink;
            Some (s\<lparr>hp_frees := hp_frees s + 1\<rparr>) }
          else Some s
        else Some s }
      else Some s)"

text \<open>The public entry points; the leak-check hooks they call after the fact do not see the heap.\<close>

definition pvPortMalloc :: "heap4 \<Rightarrow> u64 \<Rightarrow> (u64 \<times> heap4) option" where
  "pvPortMalloc s sz = internal_malloc s sz"

definition vPortFree :: "heap4 \<Rightarrow> u64 \<Rightarrow> heap4 option" where
  "vPortFree s ptr = internal_free s ptr"

definition xPortGetFreeHeapSize :: "heap4 \<Rightarrow> u64" where
  "xPortGetFreeHeapSize s = hp_free s"

definition xPortGetMinimumEverFreeHeapSize :: "heap4 \<Rightarrow> u64" where
  "xPortGetMinimumEverFreeHeapSize s = hp_min s"

definition xPortGetTotalHeapSize :: u64 where
  "xPortGetTotalHeapSize = configTOTAL_HEAP_SIZE"

text \<open>\<open>memset\<close> and \<open>memcpy\<close> are \<open>mem_fill\<close> and \<open>mem_copy\<close>.\<close>

definition pvPortCalloc :: "heap4 \<Rightarrow> u64 \<Rightarrow> u64 \<Rightarrow> (u64 \<times> heap4) option" where
  "pvPortCalloc s count sz = do {
     (result, s) \<leftarrow> pvPortMalloc s (count * sz);
     Some (result, if result \<noteq> 0 then s\<lparr>hp_mem := mem_fill (hp_mem s) result (unat (count * sz)) 0\<rparr> else s) }"

definition pvPortRealloc :: "heap4 \<Rightarrow> u64 \<Rightarrow> u64 \<Rightarrow> (u64 \<times> heap4) option" where
  "pvPortRealloc s old newlen =
     (if old = 0 then pvPortMalloc s newlen
      else if newlen = 0 then do { s \<leftarrow> vPortFree s old; Some (0, s) }
      else do {
        (result, s) \<leftarrow> pvPortMalloc s newlen;
        if result = 0 then Some (result, s)
        else do {
          size \<leftarrow> blk_size s (old - xHeapStructSize);
          let oldsize = size - xHeapStructSize;
          let s = s\<lparr>hp_mem := mem_copy (hp_mem s) result old (unat (if oldsize < newlen then oldsize else newlen))\<rparr>;
          s \<leftarrow> vPortFree s old;
          Some (result, s) } })"

text \<open>A pointer stored in memory, lowest byte first.\<close>

definition store64 :: "mem \<Rightarrow> u64 \<Rightarrow> u64 \<Rightarrow> mem" where
  "store64 m a w = store32 (store32 m a (ucast w)) (a + 4) (ucast (drop_bit 32 w))"

definition load64 :: "mem \<Rightarrow> u64 \<Rightarrow> u64" where
  "load64 m a = ucast (load32 m a) OR push_bit 32 (ucast (load32 m (a + 4)))"

definition pvPortMallocAlign :: "heap4 \<Rightarrow> u64 \<Rightarrow> u64 \<Rightarrow> (u64 \<times> heap4) option" where
  "pvPortMallocAlign s xWantedSize align = do {
     let uintptr_size = 8 - 1;
     let align = (align + uintptr_size) AND NOT uintptr_size;
     let align_size = ((xWantedSize + uintptr_size) AND NOT uintptr_size) + align;
     (ptr, s) \<leftarrow> pvPortMalloc s align_size;
     if ptr \<noteq> 0 then do {
       let align_ptr = (if ptr AND (align - 1) = 0 then ptr + align
                        else (ptr + (align - 1)) AND NOT (align - 1));
       Some (align_ptr, s\<lparr>hp_mem := store64 (hp_mem s) (align_ptr - 8) ptr\<rparr>) }
     else Some (ptr, s) }"

definition vPortFreeAlign :: "heap4 \<Rightarrow> u64 \<Rightarrow> heap4 option" where
  "vPortFreeAlign s ptr = vPortFree s (load64 (hp_mem s) (ptr - 8))"

record HeapStats =
  xAvailableHeapSpaceInBytes :: u64
  xSizeOfLargestFreeBlockInBytes :: u64
  xSizeOfSmallestFreeBlockInBytes :: u64
  xNumberOfFreeBlocks :: u64
  xMinimumEverFreeBytesRemaining :: u64
  xNumberOfSuccessfulAllocations :: u64
  xNumberOfSuccessfulFrees :: u64

text \<open>The do-while loop of the statistics.\<close>

partial_function (option) stats_loop :: "heap4 \<Rightarrow> u64 \<Rightarrow> u64 \<Rightarrow> u64 \<Rightarrow> u64 \<Rightarrow> (u64 \<times> u64 \<times> u64) option" where
  "stats_loop s blk blocks mx mn =
     Option.bind (blk_size s blk) (\<lambda>sz.
       if hp_next s blk \<noteq> hp_end s
       then stats_loop s (hp_next s blk) (blocks + 1) (if mx < sz then sz else mx) (if sz < mn then sz else mn)
       else Some (blocks + 1, if mx < sz then sz else mx, if sz < mn then sz else mn))"

declare stats_loop.simps [code]

definition vPortGetHeapStats :: "heap4 \<Rightarrow> HeapStats option" where
  "vPortGetHeapStats s = do {
     (blocks, mx, mn) \<leftarrow> (if hp_next s (hp_xStart s) \<noteq> 0
        then stats_loop s (hp_next s (hp_xStart s)) 0 0 (- 1) else Some (0, 0, - 1));
     Some \<lparr>xAvailableHeapSpaceInBytes = hp_free s, xSizeOfLargestFreeBlockInBytes = mx,
           xSizeOfSmallestFreeBlockInBytes = mn, xNumberOfFreeBlocks = blocks,
           xMinimumEverFreeBytesRemaining = hp_min s, xNumberOfSuccessfulAllocations = hp_allocs s,
           xNumberOfSuccessfulFrees = hp_frees s\<rparr> }"

end
