(* ===== verification/Heap4_Blocks.thy ===== *)
theory Heap4_Blocks
  imports Heap4
begin

text \<open>
  The heap as a row of blocks: the specification of the allocator and the tie to its headers.
  A block row tiles the heap area; the free list is the free blocks of the row in order, and
  no two neighbours are both free.
\<close>

datatype blk = Blk (b_addr: nat) (b_len: nat) (b_used: bool)

abbreviation adr :: "nat \<Rightarrow> u64" where "adr \<equiv> of_nat"

lemma unat_adr: "n < 2 ^ 64 \<Longrightarrow> unat (adr n) = n"
  by (rule unat_of_nat_lt) simp

lemma adr_eq:
  assumes "m < 2 ^ 64" "n < 2 ^ 64"
  shows "adr m = adr n \<longleftrightarrow> m = n"
proof
  assume "adr m = adr n"
  then have "unat (adr m) = unat (adr n)" by (rule arg_cong)
  then show "m = n" using assms by (simp add: unat_of_nat_lt)
qed simp

lemma adr_less: "m < 2 ^ 64 \<Longrightarrow> n < 2 ^ 64 \<Longrightarrow> adr m < adr n \<longleftrightarrow> m < n"
  by (simp add: word_less_nat_alt unat_of_nat_lt)

subsection \<open>Rows of blocks\<close>

fun tiles :: "nat \<Rightarrow> blk list \<Rightarrow> nat \<Rightarrow> bool" where
  "tiles lo [] hi \<longleftrightarrow> lo = hi"
| "tiles lo (b # bs) hi \<longleftrightarrow> b_addr b = lo \<and> 0 < b_len b \<and> 16 dvd b_len b \<and> tiles (lo + b_len b) bs hi"

fun coalesced :: "blk list \<Rightarrow> bool" where
  "coalesced (b # c # bs) \<longleftrightarrow> (b_used b \<or> b_used c) \<and> coalesced (c # bs)"
| "coalesced _ \<longleftrightarrow> True"

lemma tiles_append: "tiles lo (bs @ cs) hi \<longleftrightarrow> (\<exists>m. tiles lo bs m \<and> tiles m cs hi)"
  by (induction bs arbitrary: lo) auto

lemma tiles_le: "tiles lo bs hi \<Longrightarrow> lo \<le> hi"
  by (induction bs arbitrary: lo) fastforce+

lemma tiles_in: "tiles lo bs hi \<Longrightarrow> b \<in> set bs \<Longrightarrow> lo \<le> b_addr b \<and> b_addr b + b_len b \<le> hi \<and> 0 < b_len b"
proof (induction bs arbitrary: lo)
  case (Cons c bs)
  then show ?case using tiles_le [of "lo + b_len c" bs hi] by fastforce
qed simp

lemma tiles_addr_inj:
  "tiles lo bs hi \<Longrightarrow> distinct (map b_addr bs)"
proof (induction bs arbitrary: lo)
  case (Cons c bs)
  then show ?case using tiles_in [of "lo + b_len c" bs hi] by fastforce
qed simp

lemma coalesced_Cons: "coalesced (b # bs) \<longleftrightarrow> coalesced bs \<and> (bs = [] \<or> b_used b \<or> b_used (hd bs))"
  by (cases bs) auto

lemma coalesced_append:
  "coalesced (bs @ cs) \<longleftrightarrow> coalesced bs \<and> coalesced cs \<and>
     (bs = [] \<or> cs = [] \<or> b_used (last bs) \<or> b_used (hd cs))"
  by (induction bs) (auto simp: coalesced_Cons)

definition free_bytes :: "blk list \<Rightarrow> nat" where
  "free_bytes bs = sum_list (map b_len (filter (\<lambda>b. \<not> b_used b) bs))"

lemma free_bytes_simps [simp]:
  "free_bytes [] = 0" "free_bytes (b # bs) = (if b_used b then 0 else b_len b) + free_bytes bs"
  "free_bytes (bs @ cs) = free_bytes bs + free_bytes cs"
  by (simp_all add: free_bytes_def)

lemma free_bytes_le: "tiles lo bs hi \<Longrightarrow> free_bytes bs \<le> hi - lo"
proof (induction bs arbitrary: lo)
  case (Cons b bs)
  then show ?case using tiles_le [of "lo + b_len b" bs hi] by fastforce
qed simp

subsection \<open>What allocation and release do to a row\<close>

fun alloc_first :: "nat \<Rightarrow> blk list \<Rightarrow> (nat \<times> blk list) option" where
  "alloc_first w [] = None"
| "alloc_first w (b # bs) =
     (if \<not> b_used b \<and> w \<le> b_len b
      then Some (b_addr b,
        if 32 < b_len b - w
        then Blk (b_addr b) w True # Blk (b_addr b + w) (b_len b - w) False # bs
        else Blk (b_addr b) (b_len b) True # bs)
      else map_option (\<lambda>(a, bs'). (a, b # bs')) (alloc_first w bs))"

definition join_right :: "blk \<Rightarrow> blk list \<Rightarrow> blk list" where
  "join_right b r =
     (case r of
        c # cs \<Rightarrow> if b_used c then b # r else Blk (b_addr b) (b_len b + b_len c) False # cs
      | [] \<Rightarrow> [b])"

definition free_into :: "blk list \<Rightarrow> nat \<Rightarrow> nat \<Rightarrow> blk list \<Rightarrow> blk list" where
  "free_into l a n r =
     (if l \<noteq> [] \<and> \<not> b_used (last l)
      then butlast l @ join_right (Blk (b_addr (last l)) (b_len (last l) + n) False) r
      else l @ join_right (Blk a n False) r)"

lemma free_into_snoc:
  "free_into (l @ [p]) a n r =
     (if b_used p then l @ p # join_right (Blk a n False) r
      else l @ join_right (Blk (b_addr p) (b_len p + n) False) r)"
  by (simp add: free_into_def)

lemma join_right_tiles:
  "tiles lo (b # r) hi \<Longrightarrow> tiles lo (join_right b r) hi"
  by (cases r) (auto simp: join_right_def add.assoc)

lemma free_into_tiles:
  assumes "tiles lo (l @ Blk a n u # r) hi"
  shows "tiles lo (free_into l a n r) hi"
proof (cases l rule: rev_cases)
  case Nil
  then show ?thesis using assms join_right_tiles [of lo "Blk a n False" r hi] by (simp add: free_into_def)
next
  case (snoc ks p)
  obtain m where m: "tiles lo ks m" "tiles m (p # Blk a n u # r) hi"
    using assms snoc by (auto simp: tiles_append)
  have "tiles m (p # join_right (Blk a n False) r) hi"
    using m(2) join_right_tiles [of "m + b_len p" "Blk a n False" r hi] by simp
  moreover have "tiles m (join_right (Blk (b_addr p) (b_len p + n) False) r) hi"
    by (rule join_right_tiles) (use m(2) in \<open>auto simp: add.assoc\<close>)
  ultimately show ?thesis using m(1) snoc by (auto simp: free_into_snoc tiles_append)
qed

lemma join_right_coalesced:
  "coalesced r \<Longrightarrow> \<not> b_used b \<Longrightarrow> coalesced (join_right b r) \<and> \<not> b_used (hd (join_right b r)) \<and> join_right b r \<noteq> []"
  by (cases r rule: coalesced.cases) (auto simp: join_right_def split: list.split)

lemma free_into_coalesced:
  assumes "coalesced (l @ Blk a n True # r)"
  shows "coalesced (free_into l a n r)"
proof -
  have r: "coalesced r" and l: "coalesced l"
    using assms by (auto simp: coalesced_append) (cases r; simp)
  show ?thesis
  proof (cases l rule: rev_cases)
    case Nil
    then show ?thesis using join_right_coalesced [OF r] by (simp add: free_into_def)
  next
    case (snoc ks p)
    then have k: "coalesced (ks @ [p])" using l by simp
    have "coalesced (ks @ join_right (Blk (b_addr p) (b_len p + n) False) r)" if "\<not> b_used p"
      using k that join_right_coalesced [OF r, of "Blk (b_addr p) (b_len p + n) False"]
      by (auto simp: coalesced_append)
    moreover have "coalesced ((ks @ [p]) @ join_right (Blk a n False) r)" if "b_used p"
      using k that join_right_coalesced [OF r, of "Blk a n False"] unfolding coalesced_append [of "ks @ [p]"] by simp
    ultimately show ?thesis using snoc by (auto simp: free_into_snoc)
  qed
qed

lemma join_right_bytes: "\<not> b_used b \<Longrightarrow> free_bytes (join_right b r) = b_len b + free_bytes r"
  by (cases r) (auto simp: join_right_def)

lemma free_into_bytes: "free_bytes (free_into l a n r) = free_bytes l + n + free_bytes r"
  by (cases l rule: rev_cases) (auto simp: free_into_snoc join_right_bytes, simp add: free_into_def join_right_bytes)

text \<open>The used blocks of a row: allocation adds one, release takes exactly that one away.\<close>

definition used_blocks :: "blk list \<Rightarrow> blk set" where
  "used_blocks bs = {b \<in> set bs. b_used b}"

lemma free_into_used: "used_blocks (free_into l a n r) = used_blocks l \<union> used_blocks r"
proof -
  have j: "used_blocks (join_right b r) = used_blocks r" if "\<not> b_used b" for b
    using that by (cases r) (auto simp: used_blocks_def join_right_def)
  show ?thesis
  proof (cases l rule: rev_cases)
    case Nil
    then show ?thesis using j [of "Blk a n False"] by (auto simp: free_into_def used_blocks_def)
  next
    case (snoc ks p)
    then show ?thesis
      using j [of "Blk a n False"] j [of "Blk (b_addr p) (b_len p + n) False"]
      by (auto simp: free_into_snoc used_blocks_def)
  qed
qed

lemma alloc_first_split:
  "alloc_first w bs = Some (a, bs') \<Longrightarrow> \<exists>l n r. bs = l @ Blk a n False # r \<and> w \<le> n \<and>
     (\<forall>b \<in> set l. \<not> b_used b \<longrightarrow> b_len b < w) \<and>
     bs' = l @ (if 32 < n - w then Blk a w True # Blk (a + w) (n - w) False # r else Blk a n True # r)"
proof (induction bs arbitrary: bs')
  case (Cons b bs)
  show ?case
  proof (cases "\<not> b_used b \<and> w \<le> b_len b")
    case True
    then have "b = Blk a (b_len b) False" using Cons.prems by (cases b) auto
    then show ?thesis using True Cons.prems by (intro exI [of _ "[]"] exI [of _ "b_len b"] exI [of _ bs]) auto
  next
    case False
    then obtain bs1 where "alloc_first w bs = Some (a, bs1)" "bs' = b # bs1"
      using Cons.prems by (auto split: if_splits)
    from Cons.IH [OF this(1)] obtain l n r where "bs = l @ Blk a n False # r" "w \<le> n"
      "\<forall>b \<in> set l. \<not> b_used b \<longrightarrow> b_len b < w"
      "bs1 = l @ (if 32 < n - w then Blk a w True # Blk (a + w) (n - w) False # r else Blk a n True # r)"
      by blast
    then show ?thesis using False \<open>bs' = b # bs1\<close>
      by (intro exI [of _ "b # l"] exI [of _ n] exI [of _ r]) auto
  qed
qed simp

lemma alloc_first_None: "alloc_first w bs = None \<longleftrightarrow> (\<forall>b \<in> set bs. \<not> b_used b \<longrightarrow> b_len b < w)"
  by (induction bs) (auto simp: not_le)

lemma alloc_first_prefix:
  "\<forall>b \<in> set l. \<not> b_used b \<longrightarrow> b_len b < w \<Longrightarrow> w \<le> n \<Longrightarrow>
     alloc_first w (l @ Blk a n False # r) = Some (a,
       l @ (if 32 < n - w then Blk a w True # Blk (a + w) (n - w) False # r else Blk a n True # r))"
  by (induction l) auto

subsection \<open>The free list of a row\<close>

text \<open>\<open>flinks nx p bs\<close>: from \<open>p\<close> the links visit the free blocks; \<open>last_free\<close> is the last of them.\<close>

fun flinks :: "(u64 \<Rightarrow> u64) \<Rightarrow> u64 \<Rightarrow> blk list \<Rightarrow> bool" where
  "flinks nx p [] \<longleftrightarrow> True"
| "flinks nx p (b # bs) \<longleftrightarrow>
     (if b_used b then flinks nx p bs else nx p = adr (b_addr b) \<and> flinks nx (adr (b_addr b)) bs)"

fun last_free :: "u64 \<Rightarrow> blk list \<Rightarrow> u64" where
  "last_free p [] = p"
| "last_free p (b # bs) = last_free (if b_used b then p else adr (b_addr b)) bs"

definition fpath :: "(u64 \<Rightarrow> u64) \<Rightarrow> u64 \<Rightarrow> blk list \<Rightarrow> u64 \<Rightarrow> bool" where
  "fpath nx p bs e \<longleftrightarrow> flinks nx p bs \<and> nx (last_free p bs) = e"

lemma fpath_simps [simp]:
  "fpath nx p [] e \<longleftrightarrow> nx p = e"
  "fpath nx p (b # bs) e \<longleftrightarrow>
     (if b_used b then fpath nx p bs e else nx p = adr (b_addr b) \<and> fpath nx (adr (b_addr b)) bs e)"
  by (auto simp: fpath_def)

lemma fpath_append: "fpath nx p (l @ r) e \<longleftrightarrow> flinks nx p l \<and> fpath nx (last_free p l) r e"
  by (induction l arbitrary: p) auto

lemma last_free_cases: "last_free p l = p \<or> (\<exists>b \<in> set l. \<not> b_used b \<and> last_free p l = adr (b_addr b))"
  by (induction l arbitrary: p) fastforce+

lemma last_free_snoc: "last_free p (l @ [b]) = (if b_used b then last_free p l else adr (b_addr b))"
  by (induction l arbitrary: p) auto

lemma flinks_snoc: "flinks nx p (l @ [b]) \<longleftrightarrow> flinks nx p l \<and> (b_used b \<or> nx (last_free p l) = adr (b_addr b))"
  by (induction l arbitrary: p) auto

lemma fpath_start:
  "fpath nx p r e \<Longrightarrow> nx' p' = nx p \<Longrightarrow> (\<And>b. b \<in> set r \<Longrightarrow> \<not> b_used b \<Longrightarrow> nx' (adr (b_addr b)) = nx (adr (b_addr b))) \<Longrightarrow>
     fpath nx' p' r e"
proof (induction r arbitrary: p p')
  case (Cons b r)
  then show ?case by (cases "b_used b") auto
qed simp

text \<open>Changing the link of the last free block leaves the links up to it.\<close>

lemma flinks_update_last:
  "flinks nx p l \<Longrightarrow> distinct (p # map (\<lambda>b. adr (b_addr b)) l) \<Longrightarrow> flinks (nx(last_free p l := v)) p l"
proof (induction l arbitrary: p)
  case (Cons b l)
  show ?case
  proof (cases "b_used b")
    case True
    then show ?thesis using Cons by simp
  next
    case False
    have "last_free (adr (b_addr b)) l \<noteq> p"
      using last_free_cases [of "adr (b_addr b)" l] Cons.prems(2) by auto
    then show ?thesis using False Cons by simp
  qed
qed simp

lemma flinks_cong:
  "(\<And>b. b \<in> set l \<Longrightarrow> \<not> b_used b \<Longrightarrow> nx' (adr (b_addr b)) = nx (adr (b_addr b))) \<Longrightarrow> nx' p = nx p \<Longrightarrow>
     flinks nx' p l \<longleftrightarrow> flinks nx p l"
  by (induction l arbitrary: p) auto

end
