(* ===== verification/Heap4_Proof.thy ===== *)
theory Heap4_Proof
  imports Heap4_Blocks
begin

text \<open>
  The allocator implements the specification on rows of blocks: the invariant that ties the
  headers to a row, and what the list insertion, allocation, release and set-up do to it.
\<close>

definition place_ok :: "heap4 \<Rightarrow> nat \<Rightarrow> nat \<Rightarrow> bool" where
  "place_ok s lo hi \<longleftrightarrow> 16 dvd lo \<and> 0 < lo \<and> lo \<le> hi \<and> hi + 16 \<le> 2 ^ 63 \<and>
     hp_end s = adr hi \<and> hp_xStart s \<noteq> 0 \<and> \<not> (lo \<le> unat (hp_xStart s) \<and> unat (hp_xStart s) < hi + 16) \<and>
     hp_size s (hp_xStart s) = 0 \<and> hp_bit s = push_bit 63 1 \<and>
     hp_size s (adr hi) = 0 \<and> hp_next s (adr hi) = 0"

definition free_sizes :: "heap4 \<Rightarrow> blk list \<Rightarrow> bool" where
  "free_sizes s bs \<longleftrightarrow> (\<forall>b \<in> set bs. \<not> b_used b \<longrightarrow> hp_size s (adr (b_addr b)) = adr (b_len b))"

definition used_hdrs :: "heap4 \<Rightarrow> blk list \<Rightarrow> bool" where
  "used_hdrs s bs \<longleftrightarrow> (\<forall>b \<in> set bs. b_used b \<longrightarrow>
     hp_size s (adr (b_addr b)) = adr (b_len b) OR push_bit 63 1 \<and> hp_next s (adr (b_addr b)) = 0)"

definition heap_inv :: "heap4 \<Rightarrow> nat \<Rightarrow> nat \<Rightarrow> blk list \<Rightarrow> bool" where
  "heap_inv s lo hi bs \<longleftrightarrow> place_ok s lo hi \<and> tiles lo bs hi \<and> coalesced bs \<and>
     fpath (hp_next s) (hp_xStart s) bs (adr hi) \<and> free_sizes s bs \<and> used_hdrs s bs \<and>
     hp_free s = adr (free_bytes bs)"

subsection \<open>Addresses of a row\<close>

lemma place_bounds:
  assumes "place_ok s lo hi" "tiles lo bs hi" "b \<in> set bs"
  shows "b_addr b + b_len b \<le> hi" "lo \<le> b_addr b" "b_addr b < 2 ^ 63" "b_addr b + b_len b < 2 ^ 63"
    "0 < b_len b" "adr (b_addr b) \<noteq> hp_xStart s" "adr (b_addr b) \<noteq> 0" "adr (b_addr b) \<noteq> adr hi"
proof -
  have hi: "hi + 16 \<le> 2 ^ 63" "0 < lo" using assms(1) by (simp_all add: place_ok_def)
  show t: "b_addr b + b_len b \<le> hi" "lo \<le> b_addr b" "0 < b_len b" using tiles_in [OF assms(2,3)] by auto
  then show "b_addr b < 2 ^ 63" "b_addr b + b_len b < 2 ^ 63" using hi by auto
  then have lt: "b_addr b < 2 ^ 64" by simp
  show "adr (b_addr b) \<noteq> hp_xStart s"
  proof
    assume "adr (b_addr b) = hp_xStart s"
    then have "unat (hp_xStart s) = b_addr b" using unat_adr [OF lt] by simp
    then show False using assms(1) t by (auto simp: place_ok_def)
  qed
  show "adr (b_addr b) \<noteq> 0" using adr_eq [OF lt, of 0] hi(2) t(2) by simp
  show "adr (b_addr b) \<noteq> adr hi" using adr_eq [OF lt, of hi] hi t by simp
qed

lemma tiles_split:
  assumes "tiles lo (l @ Blk a n u # r) hi"
  shows "tiles lo l a" "tiles (a + n) r hi" "0 < n" "16 dvd n"
    "\<And>b. b \<in> set l \<Longrightarrow> b_addr b + b_len b \<le> a \<and> lo \<le> b_addr b \<and> 0 < b_len b"
    "\<And>b. b \<in> set r \<Longrightarrow> a + n \<le> b_addr b \<and> b_addr b + b_len b \<le> hi" "lo \<le> a" "a + n \<le> hi"
proof -
  show t: "tiles lo l a" "tiles (a + n) r hi" "0 < n" "16 dvd n" using assms by (auto simp: tiles_append)
  show "\<And>b. b \<in> set l \<Longrightarrow> b_addr b + b_len b \<le> a \<and> lo \<le> b_addr b \<and> 0 < b_len b" using tiles_in [OF t(1)] by blast
  show "\<And>b. b \<in> set r \<Longrightarrow> a + n \<le> b_addr b \<and> b_addr b + b_len b \<le> hi" using tiles_in [OF t(2)] by blast
  show "lo \<le> a" "a + n \<le> hi" using tiles_le [OF t(1)] tiles_le [OF t(2)] by auto
qed

subsection \<open>The insertion point\<close>

lemma insert_search_spec:
  "flinks (hp_next s) p l \<Longrightarrow> p \<noteq> 0 \<Longrightarrow>
     (\<forall>b \<in> set l. \<not> b_used b \<longrightarrow> 0 < b_addr b \<and> b_addr b < a) \<Longrightarrow> a < 2 ^ 64 \<Longrightarrow>
     hp_next s (last_free p l) = adr z \<Longrightarrow> a \<le> z \<Longrightarrow> z < 2 ^ 64 \<Longrightarrow>
     insert_search s (adr a) p = Some (last_free p l)"
proof (induction l arbitrary: p)
  case Nil
  then have "\<not> adr z < adr a" using adr_less [of z a] by simp
  then show ?case using Nil by (simp add: insert_search.simps [of s "adr a" p] blk_next_def)
next
  case (Cons b l)
  show ?case
  proof (cases "b_used b")
    case True
    then show ?thesis using Cons by simp
  next
    case False
    then have b: "0 < b_addr b" "b_addr b < a" "hp_next s p = adr (b_addr b)" using Cons.prems by auto
    then have "adr (b_addr b) < adr a" "adr (b_addr b) \<noteq> 0"
      using adr_less [of "b_addr b" a] adr_eq [of "b_addr b" 0] Cons.prems(4) by auto
    then show ?thesis
      using Cons.IH [of "adr (b_addr b)"] Cons.prems False b(3)
      by (simp add: insert_search.simps [of s "adr a" p] blk_next_def)
  qed
qed

text \<open>Where the free list goes on behind a gap that ends at \<open>m\<close>.\<close>

lemma fpath_first:
  "tiles m r hi \<Longrightarrow> fpath nx q r (adr hi) \<Longrightarrow>
     \<exists>z. nx q = adr z \<and> m \<le> z \<and> z \<le> hi \<and> (z = m \<longleftrightarrow> r = [] \<or> \<not> b_used (hd r)) \<and>
       (r \<noteq> [] \<longrightarrow> \<not> b_used (hd r) \<longrightarrow> z < hi)"
proof (induction r arbitrary: m)
  case (Cons b r)
  have t: "b_addr b = m" "0 < b_len b" "tiles (m + b_len b) r hi" using Cons.prems(1) by auto
  show ?case
  proof (cases "b_used b")
    case True
    then obtain z where "nx q = adr z" "m + b_len b \<le> z" "z \<le> hi" using Cons.IH [OF t(3)] Cons.prems(2) by auto
    then show ?thesis using True t(2) by (intro exI [of _ z]) auto
  next
    case False
    then show ?thesis using Cons.prems(2) t tiles_le [OF t(3)] by (intro exI [of _ m]) auto
  qed
qed simp

text \<open>The block in front of the gap is the last one of \<open>l\<close> exactly when that is free.\<close>

lemma left_neighbour:
  assumes place: "place_ok s lo hi" and t: "tiles lo (l @ Blk a n u # r) hi" and fs: "free_sizes s l"
  shows "last_free (hp_xStart s) l + hp_size s (last_free (hp_xStart s) l) = adr a \<longleftrightarrow>
    l \<noteq> [] \<and> \<not> b_used (last l)"
proof -
  let ?x = "hp_xStart s"
  note ts = tiles_split [OF t]
  have a: "a < 2 ^ 63" "adr a \<noteq> ?x"
    using place_bounds(3,6) [OF place t, of "Blk a n u"] by auto
  have no: "last_free ?x k + hp_size s (last_free ?x k) \<noteq> adr a"
    if "set k \<subseteq> set l" "\<forall>b \<in> set k. b_addr b + b_len b < a" for k
    using last_free_cases [of ?x k]
  proof
    assume "last_free ?x k = ?x"
    then show ?thesis using a(2) place by (simp add: place_ok_def)
  next
    assume "\<exists>b \<in> set k. \<not> b_used b \<and> last_free ?x k = adr (b_addr b)"
    then obtain b where b: "b \<in> set k" "\<not> b_used b" "last_free ?x k = adr (b_addr b)" by blast
    then have "hp_size s (last_free ?x k) = adr (b_len b)" using fs that(1) by (auto simp: free_sizes_def)
    moreover have "adr (b_addr b + b_len b) \<noteq> adr a"
      using that(2) b(1) a(1) by (subst adr_eq) auto
    ultimately show ?thesis using b(3) by simp
  qed
  show ?thesis
  proof (cases l rule: rev_cases)
    case Nil
    then show ?thesis using no [of "[]"] by simp
  next
    case (snoc ks p)
    have pa: "b_addr p + b_len p = a" "tiles lo ks (b_addr p)"
      using ts(1) snoc by (auto simp: tiles_append)
    show ?thesis
    proof (cases "b_used p")
      case True
      have "\<forall>b \<in> set ks. b_addr b + b_len b < a"
        using tiles_in [OF pa(2)] pa(1) ts(5) [of p] snoc by force
      then show ?thesis using no [of ks] snoc True by (auto simp: last_free_snoc)
    next
      case False
      have "hp_size s (adr (b_addr p)) = adr (b_len p)" using fs snoc False by (simp add: free_sizes_def)
      then have "adr (b_addr p) + hp_size s (adr (b_addr p)) = adr a" using pa(1) by (simp flip: of_nat_add)
      then show ?thesis using snoc False by (simp add: last_free_snoc)
    qed
  qed
qed

text \<open>The second half of the insertion: joining with the block behind.\<close>

definition right_part :: "heap4 \<Rightarrow> u64 \<Rightarrow> u64 \<Rightarrow> heap4 option" where
  "right_part s blk nxt =
     (if blk + hp_size s blk = nxt
      then if nxt \<noteq> hp_end s
           then do {
             nsize \<leftarrow> blk_size s nxt;
             let s = set_size s blk (hp_size s blk + nsize);
             Some (set_next s blk (hp_next s nxt)) }
           else Some (set_next s blk (hp_end s))
      else Some (set_next s blk nxt))"

lemma right_part_spec:
  assumes place: "place_ok s lo hi" and r: "tiles m r hi" "free_sizes s r"
    and path: "fpath (hp_next s) q r (adr hi)"
    and b: "hp_size s (adr b) = adr k" "b + k = m" "0 < k" "lo \<le> b"
  shows "\<exists>k' r' w. right_part s (adr b) (hp_next s q) =
      Some (s\<lparr>hp_size := (hp_size s)(adr b := adr k'), hp_next := (hp_next s)(adr b := hp_next s w)\<rparr>) \<and>
    join_right (Blk b k False) r = Blk b k' False # r' \<and> fpath (hp_next s) w r' (adr hi) \<and> set r' \<subseteq> set r"
proof -
  obtain z where z: "hp_next s q = adr z" "m \<le> z" "z \<le> hi" "z = m \<longleftrightarrow> r = [] \<or> \<not> b_used (hd r)"
    "r \<noteq> [] \<longrightarrow> \<not> b_used (hd r) \<longrightarrow> z < hi"
    using fpath_first [OF r(1) path] by blast
  have hi: "hi + 16 \<le> 2 ^ 63" "0 < lo" "hp_end s = adr hi" using place by (simp_all add: place_ok_def)
  have sum: "adr b + hp_size s (adr b) = adr m" using b by (simp flip: of_nat_add)
  have eq: "adr m = adr z \<longleftrightarrow> r = [] \<or> \<not> b_used (hd r)"
    using z hi by (subst adr_eq) auto
  consider (empty) "r = []" | (used) c cs where "r = c # cs" "b_used c" | (free) c cs where "r = c # cs" "\<not> b_used c"
    by (cases r) auto
  then show ?thesis
  proof cases
    case empty
    then have "z = hi" using z r(1) by simp
    then show ?thesis
      using empty sum eq z(1) hi(3) b(1) path
      by (intro exI [of _ k] exI [of _ "[]"] exI [of _ q])
        (simp add: right_part_def set_next_def join_right_def fun_upd_idem)
  next
    case (used c cs)
    then show ?thesis
      using sum eq z(1) b(1) path
      by (intro exI [of _ k] exI [of _ r] exI [of _ q])
        (simp add: right_part_def set_next_def join_right_def fun_upd_idem)
  next
    case (free c cs)
    have zc: "z = b_addr c" "z = m" using z(4) free r(1) by auto
    have zhi: "adr z \<noteq> adr hi" using z(5) free hi by (subst adr_eq) auto
    have z0: "adr z \<noteq> 0" using adr_eq [of z 0] zc b hi z(3) by simp
    have sc: "hp_size s (adr z) = adr (b_len c)" using r(2) free zc by (simp add: free_sizes_def)
    have "fpath (hp_next s) (adr z) cs (adr hi)" using path free zc by simp
    then show ?thesis
      using free sum eq z(1) hi(3) zhi z0 sc b(1)
      by (intro exI [of _ "k + b_len c"] exI [of _ cs] exI [of _ "adr z"])
        (auto simp: right_part_def blk_size_def set_next_def set_size_def join_right_def)
  qed
qed

text \<open>The whole insertion in the two halves.\<close>

lemma insert_unfold:
  "insert_search s blk0 (hp_xStart s) = Some it \<Longrightarrow>
   prvInsertBlockIntoFreeList s blk0 =
     (let (s1, blk) = (if it + hp_size s it = blk0
        then (set_size s it (hp_size s it + hp_size s blk0), it) else (s, blk0))
      in Option.bind (right_part s1 blk (hp_next s1 it))
           (\<lambda>s2. Some (if it \<noteq> blk then set_next s2 it blk else s2)))"
  by (simp add: prvInsertBlockIntoFreeList_def right_part_def Let_def split: prod.splits)

definition outside :: "heap4 \<Rightarrow> nat \<Rightarrow> blk list \<Rightarrow> u64 \<Rightarrow> bool" where
  "outside s a bs x \<longleftrightarrow> x \<noteq> hp_xStart s \<and> x \<noteq> adr a \<and> (\<forall>b \<in> set bs. \<not> b_used b \<longrightarrow> x \<noteq> adr (b_addr b))"

lemma insert_spec:
  assumes place: "place_ok s lo hi" and t: "tiles lo (l @ Blk a n u # r) hi"
    and path: "fpath (hp_next s) (hp_xStart s) (l @ r) (adr hi)"
    and fs: "free_sizes s (l @ r)" and sz: "hp_size s (adr a) = adr n"
  shows "\<exists>s'. prvInsertBlockIntoFreeList s (adr a) = Some s' \<and>
    fpath (hp_next s') (hp_xStart s) (free_into l a n r) (adr hi) \<and> free_sizes s' (free_into l a n r) \<and>
    (\<forall>x. outside s a (l @ r) x \<longrightarrow> hp_next s' x = hp_next s x \<and> hp_size s' x = hp_size s x) \<and>
    (\<exists>nx sz. s' = s\<lparr>hp_size := sz, hp_next := nx\<rparr>) \<and> hp_size s' (hp_xStart s) = 0"
proof -
  let ?x = "hp_xStart s" and ?nx = "hp_next s"
  note ts = tiles_split [OF t]
  have pl: "hi + 16 \<le> 2 ^ 63" "0 < lo" "?x \<noteq> 0" "hp_size s ?x = 0" using place by (simp_all add: place_ok_def)
  have pb: "b_addr b < 2 ^ 63" "adr (b_addr b) \<noteq> ?x" "adr (b_addr b) \<noteq> adr a"
    if "b \<in> set (l @ r)" for b
  proof -
    have bin: "b \<in> set (l @ Blk a n u # r)" using that by auto
    show "b_addr b < 2 ^ 63" "adr (b_addr b) \<noteq> ?x" using place_bounds(3,6) [OF place t bin] by auto
    have "b_addr b \<noteq> a" using that ts(3,5,6) by fastforce
    then show "adr (b_addr b) \<noteq> adr a"
      using place_bounds(3) [OF place t bin] place_bounds(3) [OF place t, of "Blk a n u"] by (subst adr_eq) auto
  qed
  have a: "a < 2 ^ 63" "adr a \<noteq> ?x" "lo \<le> a" using place_bounds(2,3,6) [OF place t, of "Blk a n u"] by auto
  have inj: "adr (b_addr b) = adr (b_addr c) \<longleftrightarrow> b_addr b = b_addr c" if "b \<in> set (l @ r)" "c \<in> set (l @ r)" for b c
    using pb(1) [OF that(1)] pb(1) [OF that(2)] by (intro adr_eq) auto
  define q where "q = last_free ?x l"
  have fl: "flinks ?nx ?x l" and fr: "fpath ?nx q r (adr hi)" using path by (simp_all add: fpath_append q_def)
  obtain z where z: "?nx q = adr z" "a + n \<le> z" "z \<le> hi" using fpath_first [OF ts(2) fr] by blast
  have search: "insert_search s (adr a) ?x = Some q"
    unfolding q_def
  proof (rule insert_search_spec [OF fl pl(3)])
    show "\<forall>b \<in> set l. \<not> b_used b \<longrightarrow> 0 < b_addr b \<and> b_addr b < a" using ts(5) pl(2) by fastforce
    show "a < 2 ^ 64" "hp_next s (last_free ?x l) = adr z" "a \<le> z" "z < 2 ^ 64"
      using a z pl by (simp_all add: q_def)
  qed
  have fsl: "free_sizes s l" "free_sizes s r" using fs by (auto simp: free_sizes_def)
  have left: "q + hp_size s q = adr a \<longleftrightarrow> l \<noteq> [] \<and> \<not> b_used (last l)"
    unfolding q_def by (rule left_neighbour [OF place t fsl(1)])
  have dl: "distinct (?x # map (\<lambda>b. adr (b_addr b)) l)"
  proof -
    have "distinct (map b_addr l)" using tiles_addr_inj [OF ts(1)] .
    then have "distinct (map adr (map b_addr l))"
      using inj by (auto simp: distinct_map inj_on_def)
    moreover have "?x \<notin> (\<lambda>b. adr (b_addr b)) ` set l"
    proof
      assume "?x \<in> (\<lambda>b. adr (b_addr b)) ` set l"
      then obtain b where "b \<in> set l" "?x = adr (b_addr b)" by blast
      then show False using pb(2) [of b] by simp
    qed
    ultimately show ?thesis by (simp add: comp_def)
  qed
  have qx: "q = ?x \<or> (\<exists>b \<in> set l. \<not> b_used b \<and> q = adr (b_addr b))" unfolding q_def by (rule last_free_cases)
  have rl: "adr (b_addr c) \<noteq> q" if "c \<in> set r" for c
    using qx
  proof
    assume "\<exists>b \<in> set l. \<not> b_used b \<and> q = adr (b_addr b)"
    then obtain b where b: "b \<in> set l" "q = adr (b_addr b)" by blast
    then have "b_addr b \<noteq> b_addr c" using ts(5) [OF b(1)] ts(6) [OF that] ts(3) by auto
    then show ?thesis using inj [of c b] b that by auto
  qed (use pb(2) that in auto)
  show ?thesis
  proof (cases "l \<noteq> [] \<and> \<not> b_used (last l)")
    case False
    obtain k' r' w where rp: "right_part s (adr a) (hp_next s q) =
        Some (s\<lparr>hp_size := (hp_size s)(adr a := adr k'), hp_next := ?nx(adr a := ?nx w)\<rparr>)"
      "join_right (Blk a n False) r = Blk a k' False # r'" "fpath ?nx w r' (adr hi)" "set r' \<subseteq> set r"
      using right_part_spec [OF place ts(2) fsl(2) fr sz refl ts(3) a(3)] by blast
    define s' where "s' = s\<lparr>hp_size := (hp_size s)(adr a := adr k'), hp_next := ?nx(adr a := ?nx w, q := adr a)\<rparr>"
    have qa: "q \<noteq> adr a"
    proof
      assume eq: "q = adr a"
      from qx show False
      proof
        assume "\<exists>b \<in> set l. \<not> b_used b \<and> q = adr (b_addr b)"
        then obtain b where "b \<in> set l" "q = adr (b_addr b)" by blast
        then show False using pb(3) [of b] eq by simp
      qed (use eq a(2) in simp)
    qed
    have run: "prvInsertBlockIntoFreeList s (adr a) = Some s'"
      using insert_unfold [OF search] rp(1) left False qa by (simp add: s'_def set_next_def)
    have new: "free_into l a n r = l @ Blk a k' False # r'" using False rp(2) by (auto simp: free_into_def)
    have "flinks (?nx(adr a := ?nx w)) ?x l"
      using fl a(2) pb(3) by (subst flinks_cong [of l _ ?nx]) auto
    then have "flinks (hp_next s') ?x l" unfolding s'_def q_def using flinks_update_last [OF _ dl] by simp
    moreover have "hp_next s' q = adr a" by (simp add: s'_def)
    moreover have "fpath (hp_next s') (adr a) r' (adr hi)"
      by (rule fpath_start [OF rp(3)]) (use qa rp(4) pb(3) rl in \<open>auto simp: s'_def subset_iff\<close>)
    ultimately have "fpath (hp_next s') ?x (free_into l a n r) (adr hi)"
      unfolding new by (simp add: fpath_append q_def)
    moreover have "free_sizes s' (free_into l a n r)"
      using fsl rp(4) pb(3) unfolding new free_sizes_def s'_def by (auto simp: subset_iff)
    moreover have "\<forall>x. outside s a (l @ r) x \<longrightarrow> hp_next s' x = ?nx x \<and> hp_size s' x = hp_size s x"
      using qx by (auto simp: s'_def outside_def)
    moreover have "\<exists>nx sz. s' = s\<lparr>hp_size := sz, hp_next := nx\<rparr>" unfolding s'_def by blast
    moreover have "hp_size s' ?x = 0" using pl(4) a(2) by (simp add: s'_def)
    ultimately show ?thesis using run by blast
  next
    case True
    then obtain ks p where kp: "l = ks @ [p]" "\<not> b_used p" by (cases l rule: rev_cases) auto
    have qp: "q = adr (b_addr p)" using kp by (simp add: q_def last_free_snoc)
    have pa: "b_addr p + b_len p = a" "tiles lo ks (b_addr p)" using ts(1) kp by (auto simp: tiles_append)
    define s1 where "s1 = set_size s q (hp_size s q + hp_size s (adr a))"
    have szq: "hp_size s q = adr (b_len p)" using fsl(1) kp qp by (simp add: free_sizes_def)
    have place1: "place_ok s1 lo hi"
      using place qp pb(2) [of p] kp place_bounds(8) [OF place t, of p] by (auto simp: place_ok_def s1_def set_size_def)
    have fs1: "free_sizes s1 r" using fsl(2) rl by (auto simp: free_sizes_def s1_def set_size_def)
    have nx1: "hp_next s1 = ?nx" by (simp add: s1_def set_size_def)
    have plo: "lo \<le> b_addr p" "0 < b_len p" using ts(5) [of p] kp by auto
    have bk: "hp_size s1 (adr (b_addr p)) = adr (b_len p + n)" "b_addr p + (b_len p + n) = a + n" "0 < b_len p + n"
      using szq sz pa(1) ts(3) by (simp_all add: s1_def set_size_def qp)
    obtain k' r' w where rp: "right_part s1 q (hp_next s1 q) =
        Some (s1\<lparr>hp_size := (hp_size s1)(q := adr k'), hp_next := ?nx(q := ?nx w)\<rparr>)"
      "join_right (Blk (b_addr p) (b_len p + n) False) r = Blk (b_addr p) k' False # r'"
      "fpath ?nx w r' (adr hi)" "set r' \<subseteq> set r"
      using right_part_spec [OF place1 ts(2) fs1 fr [folded nx1] bk plo(1)] unfolding qp nx1 by blast
    define s' where "s' = s1\<lparr>hp_size := (hp_size s1)(q := adr k'), hp_next := ?nx(q := ?nx w)\<rparr>"
    have run: "prvInsertBlockIntoFreeList s (adr a) = Some s'"
      using insert_unfold [OF search] rp(1) left True by (simp add: s'_def s1_def)
    have new: "free_into l a n r = ks @ Blk (b_addr p) k' False # r'" using kp rp(2) by (simp add: free_into_snoc)
    have "p \<in> set l" using kp by simp
    then have qnx: "q \<noteq> ?x" using pb(2) [of p] qp by simp
    have ksq: "adr (b_addr b) \<noteq> q" if "b \<in> set ks" for b
    proof
      assume "adr (b_addr b) = q"
      then have "adr (b_addr p) \<in> (\<lambda>b. adr (b_addr b)) ` set ks" using that qp by (intro image_eqI [of _ _ b]) simp_all
      then show False using dl kp by simp
    qed
    have "flinks ?nx ?x ks" "?nx (last_free ?x ks) = q" using fl kp qp by (simp_all add: flinks_snoc)
    moreover have "last_free ?x ks \<noteq> q"
      using last_free_cases [of ?x ks] ksq qnx by (metis (no_types))
    moreover have "hp_next s' y = ?nx y" if "y \<noteq> q" for y using that by (simp add: s'_def)
    ultimately have "flinks (hp_next s') ?x ks" "hp_next s' (last_free ?x ks) = q"
      using ksq qnx by (simp_all add: flinks_cong [of ks "hp_next s'" ?nx ?x])
    moreover have "fpath (hp_next s') q r' (adr hi)"
      by (rule fpath_start [OF rp(3)]) (use rp(4) rl in \<open>auto simp: s'_def subset_iff\<close>)
    ultimately have "fpath (hp_next s') ?x (free_into l a n r) (adr hi)"
      unfolding new by (simp add: fpath_append qp)
    moreover have "free_sizes s' (free_into l a n r)"
      using fsl rp(4) ksq rl kp unfolding new free_sizes_def s'_def s1_def set_size_def qp by (auto simp: subset_iff)
    moreover have "\<forall>x. outside s a (l @ r) x \<longrightarrow> hp_next s' x = ?nx x \<and> hp_size s' x = hp_size s x"
      using qp kp by (auto simp: s'_def s1_def set_size_def outside_def)
    moreover have "s' = s\<lparr>hp_size := hp_size s', hp_next := hp_next s'\<rparr>" by (simp add: s'_def s1_def set_size_def)
    then have "\<exists>nx sz. s' = s\<lparr>hp_size := sz, hp_next := nx\<rparr>" by blast
    moreover have "hp_size s' ?x = 0" using pl(4) qnx by (simp add: s'_def s1_def set_size_def)
    ultimately show ?thesis using run by blast
  qed
qed

end
