(* ===== verification/Heap4_Alloc.thy ===== *)
theory Heap4_Alloc
  imports Heap4_Proof
begin

text \<open>
  Allocation against the specification: the first-fit loop finds the block that \<open>alloc_first\<close>
  finds, and taking it off the list, with or without the split, gives the row of the
  specification.
\<close>

subsection \<open>First fit\<close>

lemma fit_search_stop:
  assumes "blk_size s q = Some sz" "blk_next s q = Some n" "\<not> (sz < w \<and> n \<noteq> 0)"
  shows "fit_search s w p q = Some (p, q)"
  using assms by (subst fit_search.simps) auto

lemma fit_search_on:
  assumes "blk_size s q = Some sz" "blk_next s q = Some n" "sz < w" "n \<noteq> 0"
  shows "fit_search s w p q = fit_search s w q n"
  using assms by (subst fit_search.simps) auto

lemma flinks_first: "flinks nx p l \<Longrightarrow> c \<in> set l \<Longrightarrow> \<not> b_used c \<Longrightarrow> \<exists>b \<in> set l. \<not> b_used b \<and> nx p = adr (b_addr b)"
  by (induction l arbitrary: p) (auto split: if_splits)

text \<open>The loop passes over a stretch of blocks that are too small.\<close>

lemma fit_search_skip:
  "flinks (hp_next s) p l \<Longrightarrow> free_sizes s l \<Longrightarrow> w < 2 ^ 64 \<Longrightarrow>
     \<forall>b \<in> set l. \<not> b_used b \<longrightarrow> b_len b < w \<and> adr (b_addr b) \<noteq> 0 \<Longrightarrow> hp_next s (last_free p l) \<noteq> 0 \<Longrightarrow>
     fit_search s (adr w) p (hp_next s p) =
       fit_search s (adr w) (last_free p l) (hp_next s (last_free p l))"
proof (induction l arbitrary: p)
  case (Cons b l)
  show ?case
  proof (cases "b_used b")
    case True
    then show ?thesis using Cons by (simp add: free_sizes_def)
  next
    case False
    have b: "hp_next s p = adr (b_addr b)" "hp_size s (adr (b_addr b)) = adr (b_len b)" "adr (b_addr b) \<noteq> 0" "b_len b < w"
      using False Cons.prems by (auto simp: free_sizes_def)
    have lt: "adr (b_len b) < adr w" using b(4) Cons.prems(3) by (subst adr_less) auto
    have rest: "flinks (hp_next s) (adr (b_addr b)) l" "free_sizes s l"
      using False Cons.prems by (auto simp: free_sizes_def)
    have "hp_next s (adr (b_addr b)) \<noteq> 0"
    proof (cases "\<exists>c \<in> set l. \<not> b_used c")
      case True
      then obtain d where "d \<in> set l" "\<not> b_used d" "hp_next s (adr (b_addr b)) = adr (b_addr d)"
        using flinks_first [OF rest(1)] by blast
      then show ?thesis using Cons.prems(4) by simp
    next
      case nofree: False
      then have "last_free (adr (b_addr b)) l = adr (b_addr b)"
        using last_free_cases [of "adr (b_addr b)" l] by blast
      then show ?thesis using Cons.prems(5) False by simp
    qed
    then have "fit_search s (adr w) p (adr (b_addr b)) =
        fit_search s (adr w) (adr (b_addr b)) (hp_next s (adr (b_addr b)))"
      using b lt by (intro fit_search_on) (auto simp: blk_size_def blk_next_def)
    moreover have "\<dots> = fit_search s (adr w) (last_free (adr (b_addr b)) l) (hp_next s (last_free (adr (b_addr b)) l))"
      by (rule Cons.IH [OF rest Cons.prems(3)]) (use Cons.prems False in auto)
    ultimately show ?thesis using b(1) False by simp
  qed
qed simp

text \<open>What the loop returns: the specification's block, or the end marker.\<close>

lemma fit_search_found:
  assumes inv: "heap_inv s lo hi (l @ Blk a n False # r)" and small: "\<forall>b \<in> set l. \<not> b_used b \<longrightarrow> b_len b < w"
    and w: "w \<le> n"
  shows "fit_search s (adr w) (hp_xStart s) (hp_next s (hp_xStart s)) =
    Some (last_free (hp_xStart s) l, adr a) \<and> hp_next s (last_free (hp_xStart s) l) = adr a"
proof -
  let ?x = "hp_xStart s" let ?bs = "l @ Blk a n False # r"
  have pl: "place_ok s lo hi" and t: "tiles lo ?bs hi" and p: "fpath (hp_next s) ?x ?bs (adr hi)"
    and fs: "free_sizes s ?bs" using inv by (auto simp: heap_inv_def)
  have a: "adr a \<noteq> 0" "a + n < 2 ^ 63" using place_bounds(7,4) [OF pl t, of "Blk a n False"] by auto
  have nx: "flinks (hp_next s) ?x l" "hp_next s (last_free ?x l) = adr a" using p by (auto simp: fpath_append)
  have sz: "hp_size s (adr a) = adr n" using fs by (auto simp: free_sizes_def)
  have "\<not> adr n < adr w" using a(2) w by (subst adr_less) auto
  then have "fit_search s (adr w) (last_free ?x l) (adr a) = Some (last_free ?x l, adr a)"
    using a sz by (intro fit_search_stop) (auto simp: blk_size_def blk_next_def)
  moreover have "\<forall>b \<in> set l. \<not> b_used b \<longrightarrow> b_len b < w \<and> adr (b_addr b) \<noteq> 0"
    using small place_bounds(7) [OF pl t] by auto
  moreover have "free_sizes s l" using fs by (auto simp: free_sizes_def)
  ultimately show ?thesis using fit_search_skip [OF nx(1), of w] nx(2) a w by simp
qed

lemma fit_search_none:
  assumes inv: "heap_inv s lo hi bs" and small: "\<forall>b \<in> set bs. \<not> b_used b \<longrightarrow> b_len b < w" and w: "w < 2 ^ 64"
  shows "\<exists>prev. fit_search s (adr w) (hp_xStart s) (hp_next s (hp_xStart s)) = Some (prev, adr hi)"
proof -
  let ?x = "hp_xStart s"
  have pl: "place_ok s lo hi" and t: "tiles lo bs hi" and p: "fpath (hp_next s) ?x bs (adr hi)"
    and fs: "free_sizes s bs" using inv by (auto simp: heap_inv_def)
  have hi: "adr hi \<noteq> 0" using pl adr_eq [of hi 0] by (simp add: place_ok_def)
  have e: "hp_next s (adr hi) = 0" "hp_size s (adr hi) = 0" using pl by (simp_all add: place_ok_def)
  have nx: "flinks (hp_next s) ?x bs" "hp_next s (last_free ?x bs) = adr hi" using p by (auto simp: fpath_def)
  have "fit_search s (adr w) (last_free ?x bs) (adr hi) = Some (last_free ?x bs, adr hi)"
    using hi e by (intro fit_search_stop) (auto simp: blk_size_def blk_next_def)
  moreover have "\<forall>b \<in> set bs. \<not> b_used b \<longrightarrow> b_len b < w \<and> adr (b_addr b) \<noteq> 0"
    using small place_bounds(7) [OF pl t] by auto
  ultimately show ?thesis using fit_search_skip [OF nx(1) fs w] nx(2) hi by simp
qed

subsection \<open>The allocated bit\<close>

lemma top_bit_clear:
  assumes "v < 2 ^ 63"
  shows "\<not> bit (adr v) 63"
proof -
  have "\<not> bit (unat (adr v)) 63" using assms by (simp add: unat_adr bit_iff_odd)
  then show ?thesis by (simp add: bit_unsigned_iff)
qed

lemma one_bit_word:
  fixes w b :: u64
  assumes b: "\<And>i. bit b i \<longleftrightarrow> i = 63" and w: "\<not> bit w 63"
  shows "(w OR b) AND NOT b = w" "(w OR b) AND b \<noteq> 0" "w AND b = 0"
proof -
  have nw: "bit w i \<Longrightarrow> i \<noteq> 63" for i using w by auto
  show "(w OR b) AND NOT b = w"
    using nw b by (intro bit_word_eqI) (auto simp: bit_and_iff bit_or_iff bit_not_iff)
  show "w AND b = 0"
    using nw b by (intro bit_word_eqI) (auto simp: bit_and_iff)
  have "bit ((w OR b) AND b) 63" using b [of 63] by (simp add: bit_and_iff bit_or_iff)
  then show "(w OR b) AND b \<noteq> 0" by auto
qed

lemma top_bit:
  assumes "v < 2 ^ 63"
  shows "(adr v OR push_bit 63 1) AND NOT (push_bit 63 1) = adr v" "(adr v OR push_bit 63 1) AND push_bit 63 1 \<noteq> 0"
    "adr v AND push_bit 63 1 = 0"
proof -
  have b: "bit (push_bit 63 1 :: u64) i \<longleftrightarrow> i = 63" for i
    by (subst bit_push_bit_iff) (auto simp: bit_1_iff)
  show "(adr v OR push_bit 63 1) AND NOT (push_bit 63 1) = adr v" "(adr v OR push_bit 63 1) AND push_bit 63 1 \<noteq> 0"
    "adr v AND push_bit 63 1 = 0"
    by (rule one_bit_word [OF b top_bit_clear [OF assms]])+
qed

subsection \<open>Handing a block out\<close>

lemma row_adr_inj:
  assumes "place_ok s lo hi" "tiles lo bs hi" "b \<in> set bs" "c \<in> set bs" "b \<noteq> c"
  shows "adr (b_addr b) \<noteq> adr (b_addr c)"
proof -
  have "b_addr b \<noteq> b_addr c" using tiles_addr_inj [OF assms(2)] assms(3-5) by (auto simp: distinct_map inj_on_def)
  then show ?thesis using place_bounds(3) [OF assms(1,2)] assms(3,4) by (subst adr_eq) force+
qed

lemma tiles_once: "tiles lo (l @ Blk a n u # r) hi \<Longrightarrow> Blk a m v \<notin> set (l @ r)"
  using tiles_split(3) [of lo l a n u r hi] tiles_split(5) [of lo l a n u r hi] tiles_split(6) [of lo l a n u r hi] by fastforce

lemma row_adr_neq:
  assumes "place_ok s lo hi" "tiles lo (l @ Blk a n u # r) hi" "b \<in> set (l @ r)"
  shows "adr (b_addr b) \<noteq> adr a"
  using row_adr_inj [OF assms(1,2), of b "Blk a n u"] tiles_once [OF assms(2), of n u] assms(3) by auto

lemma fpath_cong:
  "fpath nx p bs e \<Longrightarrow> (\<And>b. b \<in> set bs \<Longrightarrow> \<not> b_used b \<Longrightarrow> nx' (adr (b_addr b)) = nx (adr (b_addr b))) \<Longrightarrow>
     nx' p = nx p \<Longrightarrow> fpath nx' p bs e"
  by (rule fpath_start)

definition hand_out :: "heap4 \<Rightarrow> u64 \<Rightarrow> heap4" where
  "hand_out s blk =
     (let s = s\<lparr>hp_free := hp_free s - hp_size s blk\<rparr>;
          s = (if hp_free s < hp_min s then s\<lparr>hp_min := hp_free s\<rparr> else s);
          s = set_size s blk (hp_size s blk OR hp_bit s);
          s = set_next s blk 0
      in s\<lparr>hp_allocs := hp_allocs s + 1\<rparr>)"

lemma hand_out_sel:
  "hp_next (hand_out s blk) = (hp_next s)(blk := 0)"
  "hp_size (hand_out s blk) = (hp_size s)(blk := hp_size s blk OR hp_bit s)"
  "hp_free (hand_out s blk) = hp_free s - hp_size s blk"
  "hp_min (hand_out s blk) = min (hp_min s) (hp_free s - hp_size s blk)"
  "hp_allocs (hand_out s blk) = hp_allocs s + 1" "hp_frees (hand_out s blk) = hp_frees s"
  "hp_mem (hand_out s blk) = hp_mem s" "hp_xStart (hand_out s blk) = hp_xStart s"
  "hp_end (hand_out s blk) = hp_end s" "hp_bit (hand_out s blk) = hp_bit s"
  by (auto simp: hand_out_def Let_def set_size_def set_next_def min_def not_less)

lemma hand_out_inv:
  assumes place: "place_ok s lo hi" and t: "tiles lo (l @ Blk a m True # r) hi" and c: "coalesced (l @ Blk a m True # r)"
    and path: "fpath (hp_next s) (hp_xStart s) (l @ Blk a m True # r) (adr hi)"
    and fs: "free_sizes s (l @ r)" and us: "used_hdrs s (l @ r)"
    and sz: "hp_size s (adr a) = adr m" and fr: "hp_free s = adr (free_bytes (l @ r) + m)"
  shows "heap_inv (hand_out s (adr a)) lo hi (l @ Blk a m True # r)"
proof -
  have neq: "adr (b_addr b) \<noteq> adr a" if "b \<in> set (l @ r)" for b using row_adr_neq [OF place t that] .
  have pb: "adr a \<noteq> hp_xStart s" "adr a \<noteq> adr hi" using place_bounds(6,8) [OF place t, of "Blk a m True"] by auto
  have "place_ok (hand_out s (adr a)) lo hi"
    using place pb by (auto simp: place_ok_def hand_out_sel)
  moreover have "fpath (hp_next (hand_out s (adr a))) (hp_xStart s) (l @ Blk a m True # r) (adr hi)"
    by (rule fpath_cong [OF path]) (use neq pb in \<open>auto simp: hand_out_sel\<close>)
  moreover have "free_sizes (hand_out s (adr a)) (l @ Blk a m True # r)"
    using fs neq by (auto simp: free_sizes_def hand_out_sel)
  moreover have "used_hdrs (hand_out s (adr a)) (l @ Blk a m True # r)"
    using us neq sz place by (auto simp: used_hdrs_def hand_out_sel place_ok_def)
  moreover have "hp_free (hand_out s (adr a)) = adr (free_bytes (l @ Blk a m True # r))"
    using fr sz by (simp add: hand_out_sel)
  ultimately show ?thesis using t c by (simp add: heap_inv_def hand_out_sel)
qed

subsection \<open>Taking a block off the list\<close>

lemma row_distinct:
  assumes "place_ok s lo hi" "tiles lo (l @ r) hi"
  shows "distinct (hp_xStart s # map (\<lambda>b. adr (b_addr b)) l)"
proof -
  have "adr (b_addr b) = adr (b_addr c) \<Longrightarrow> b = c" if "b \<in> set l" "c \<in> set l" for b c
    using row_adr_inj [OF assms, of b c] that by auto
  moreover have "distinct l" using tiles_addr_inj [OF assms(2)] by (simp add: distinct_map)
  ultimately have "distinct (map (\<lambda>b. adr (b_addr b)) l)" by (auto simp: distinct_map inj_on_def)
  moreover have "hp_xStart s \<notin> (\<lambda>b. adr (b_addr b)) ` set l"
  proof
    assume "hp_xStart s \<in> (\<lambda>b. adr (b_addr b)) ` set l"
    then obtain b where "b \<in> set l" "hp_xStart s = adr (b_addr b)" by blast
    then show False using place_bounds(6) [OF assms, of b] by simp
  qed
  ultimately show ?thesis by simp
qed

lemma coalesced_used:
  "coalesced (l @ Blk a n False # r) \<Longrightarrow> coalesced (l @ Blk a m True # r) \<and> (r = [] \<or> b_used (hd r))"
  by (auto simp: coalesced_append coalesced_Cons)

lemma unlink:
  fixes s :: heap4
  assumes inv: "heap_inv s lo hi (l @ Blk a n False # r)"
  defines "q \<equiv> last_free (hp_xStart s) l"
  shows "fpath ((hp_next s)(q := hp_next s (adr a))) (hp_xStart s) (l @ r) (adr hi)"
    "place_ok (set_next s q (hp_next s (adr a))) lo hi"
    "used_hdrs (set_next s q (hp_next s (adr a))) (l @ r)" "q \<noteq> adr a"
proof -
  let ?x = "hp_xStart s" let ?bs = "l @ Blk a n False # r"
  have pl: "place_ok s lo hi" and t: "tiles lo ?bs hi" and p: "fpath (hp_next s) ?x ?bs (adr hi)"
    and us: "used_hdrs s ?bs" using inv by (auto simp: heap_inv_def)
  have qx: "q = ?x \<or> (\<exists>b \<in> set l. \<not> b_used b \<and> q = adr (b_addr b))" unfolding q_def by (rule last_free_cases)
  have neq: "adr (b_addr c) \<noteq> q" if "c \<in> set ?bs" "b_used c \<or> c \<notin> set l" for c
    using qx
  proof
    assume "\<exists>b \<in> set l. \<not> b_used b \<and> q = adr (b_addr b)"
    then obtain b where b: "b \<in> set l" "\<not> b_used b" "q = adr (b_addr b)" by blast
    then show ?thesis using row_adr_inj [OF pl t, of c b] that by auto
  next
    assume "q = ?x"
    then show ?thesis using place_bounds(6) [OF pl t that(1)] by simp
  qed
  have fl: "flinks (hp_next s) ?x l" "fpath (hp_next s) (adr a) r (adr hi)" using p by (auto simp: fpath_append)
  have "flinks ((hp_next s)(q := hp_next s (adr a))) ?x l"
    unfolding q_def by (rule flinks_update_last [OF fl(1) row_distinct [OF pl t]])
  moreover have "fpath ((hp_next s)(q := hp_next s (adr a))) q r (adr hi)"
  proof (rule fpath_start [OF fl(2)])
    fix b assume "b \<in> set r"
    moreover have "b \<notin> set l" if "b \<in> set r"
      using that tiles_split(3) [OF t] tiles_split(5) [OF t, of b] tiles_split(6) [OF t, of b] by fastforce
    ultimately show "((hp_next s)(q := hp_next s (adr a))) (adr (b_addr b)) = hp_next s (adr (b_addr b))"
      using neq [of b] by auto
  qed simp
  ultimately show "fpath ((hp_next s)(q := hp_next s (adr a))) ?x (l @ r) (adr hi)"
    by (simp add: fpath_append q_def)
  have "q \<noteq> adr hi"
  proof
    assume e: "q = adr hi"
    have "?x \<noteq> adr hi" using pl unat_adr [of hi] by (auto simp: place_ok_def)
    then obtain b where "b \<in> set l" "q = adr (b_addr b)" using qx e by auto
    then show False using place_bounds(8) [OF pl t, of b] e by auto
  qed
  then show "place_ok (set_next s q (hp_next s (adr a))) lo hi"
    using pl by (auto simp: place_ok_def set_next_def)
  show "used_hdrs (set_next s q (hp_next s (adr a))) (l @ r)"
    using us neq by (auto simp: used_hdrs_def set_next_def)
  have "Blk a n False \<notin> set l" using tiles_once [OF t, of n False] by auto
  then show "q \<noteq> adr a" using neq [of "Blk a n False"] by auto
qed

lemma unlink_sel:
  "hp_xStart (set_next s q v) = hp_xStart s" "hp_size (set_next s q v) = hp_size s" "hp_free (set_next s q v) = hp_free s"
  "hp_next (set_next s q v) = (hp_next s)(q := v)" "hp_end (set_next s q v) = hp_end s" "hp_bit (set_next s q v) = hp_bit s"
  "hp_min (set_next s q v) = hp_min s" "hp_mem (set_next s q v) = hp_mem s" "hp_allocs (set_next s q v) = hp_allocs s"
  "hp_frees (set_next s q v) = hp_frees s"
  by (simp_all add: set_next_def)

text \<open>The whole block is handed out.\<close>

lemma take_whole:
  assumes inv: "heap_inv s lo hi (l @ Blk a n False # r)"
  shows "heap_inv (hand_out (set_next s (last_free (hp_xStart s) l) (hp_next s (adr a))) (adr a)) lo hi
    (l @ Blk a n True # r)"
proof -
  let ?s1 = "set_next s (last_free (hp_xStart s) l) (hp_next s (adr a))"
  have t: "tiles lo (l @ Blk a n False # r) hi" and c: "coalesced (l @ Blk a n False # r)"
    and fs: "free_sizes s (l @ Blk a n False # r)" and fr: "hp_free s = adr (free_bytes (l @ Blk a n False # r))"
    using inv by (auto simp: heap_inv_def)
  note u = unlink [OF inv]
  show ?thesis
  proof (rule hand_out_inv [OF u(2)])
    show "tiles lo (l @ Blk a n True # r) hi" using t by (auto simp: tiles_append)
    show "coalesced (l @ Blk a n True # r)" using coalesced_used [OF c] by blast
    show "fpath (hp_next ?s1) (hp_xStart ?s1) (l @ Blk a n True # r) (adr hi)"
      using u(1) by (simp add: unlink_sel fpath_append)
    show "free_sizes ?s1 (l @ r)" "hp_size ?s1 (adr a) = adr n" using fs by (auto simp: free_sizes_def unlink_sel)
    show "used_hdrs ?s1 (l @ r)" by (rule u(3))
    show "hp_free ?s1 = adr (free_bytes (l @ r) + n)" using fr by (simp add: unlink_sel ac_simps)
  qed
qed

text \<open>The block is split; the rest goes back on the list, where it has no free neighbour.\<close>

lemma take_split:
  assumes inv: "heap_inv s lo hi (l @ Blk a n False # r)" and w: "0 < w" "w < n" "16 dvd w"
  defines "s1 \<equiv> set_next s (last_free (hp_xStart s) l) (hp_next s (adr a))"
  defines "s3 \<equiv> set_size (set_size s1 (adr (a + w)) (adr (n - w))) (adr a) (adr w)"
  shows "\<exists>s4. prvInsertBlockIntoFreeList s3 (adr (a + w)) = Some s4 \<and> (\<exists>nx sz. s4 = s\<lparr>hp_size := sz, hp_next := nx\<rparr>) \<and>
     hp_size s4 (adr a) = adr w \<and>
     heap_inv (hand_out s4 (adr a)) lo hi (l @ Blk a w True # Blk (a + w) (n - w) False # r)"
proof -
  let ?x = "hp_xStart s" and ?l = "l @ [Blk a w True]" and ?R = "Blk (a + w) (n - w) False # r"
  have pl: "place_ok s lo hi" and t: "tiles lo (l @ Blk a n False # r) hi" and c: "coalesced (l @ Blk a n False # r)"
    and fs: "free_sizes s (l @ Blk a n False # r)" and fr: "hp_free s = adr (free_bytes (l @ Blk a n False # r))"
    using inv by (auto simp: heap_inv_def)
  note u = unlink [OF inv, folded s1_def]
  have t': "tiles lo (?l @ Blk (a + w) (n - w) False # r) hi" and t2: "tiles lo (l @ Blk a w True # ?R) hi"
    using t w by (auto simp: tiles_append dvd_diff_nat)
  have pb: "adr a \<noteq> ?x" "adr a \<noteq> adr hi" "adr (a + w) \<noteq> ?x" "adr (a + w) \<noteq> adr hi"
    using place_bounds(6,8) [OF pl t', of "Blk a w True"] place_bounds(6,8) [OF pl t', of "Blk (a + w) (n - w) False"] by auto
  have ne: "adr (b_addr b) \<noteq> adr a" "adr (b_addr b) \<noteq> adr (a + w)" if "b \<in> set (l @ r)" for b
    using row_adr_neq [OF pl t2, of b] row_adr_neq [OF pl t', of b] that by auto
  have naw: "adr a \<noteq> adr (a + w)" using row_adr_neq [OF pl t', of "Blk a w True"] by simp
  have s3: "hp_next s3 = hp_next s1" "hp_size s3 = (hp_size s)(adr (a + w) := adr (n - w), adr a := adr w)"
    "hp_xStart s3 = ?x" "hp_end s3 = hp_end s" "hp_bit s3 = hp_bit s" "hp_free s3 = hp_free s"
    by (simp_all add: s3_def s1_def set_size_def set_next_def)
  have place3: "place_ok s3 lo hi"
    using u(2) pb by (auto simp: place_ok_def s3 s1_def unlink_sel)
  have path3: "fpath (hp_next s3) (hp_xStart s3) (?l @ r) (adr hi)"
    using u(1) by (simp add: s3 s1_def unlink_sel fpath_append)
  have fs3: "free_sizes s3 (?l @ r)" using fs ne by (auto simp: free_sizes_def s3)
  have us3: "used_hdrs s3 (l @ r)" using u(3) ne by (auto simp: used_hdrs_def s3 s1_def unlink_sel)
  have "hp_size s3 (adr (a + w)) = adr (n - w)" using naw by (simp add: s3)
  from insert_spec [OF place3 t' path3 fs3 this]
  obtain s4 nx sz where s4: "prvInsertBlockIntoFreeList s3 (adr (a + w)) = Some s4"
    "fpath (hp_next s4) ?x (free_into ?l (a + w) (n - w) r) (adr hi)" "free_sizes s4 (free_into ?l (a + w) (n - w) r)"
    "\<And>y. outside s3 (a + w) (?l @ r) y \<Longrightarrow> hp_next s4 y = hp_next s3 y \<and> hp_size s4 y = hp_size s3 y"
    "s4 = s3\<lparr>hp_size := sz, hp_next := nx\<rparr>" "hp_size s4 ?x = 0"
    by (auto simp: s3(3))
  have shape: "free_into ?l (a + w) (n - w) r = l @ Blk a w True # ?R"
    using coalesced_used [OF c] by (cases r) (auto simp: free_into_snoc join_right_def)
  have oa: "outside s3 (a + w) (?l @ r) (adr a)" using pb naw ne by (fastforce simp: outside_def s3)
  have ohi: "outside s3 (a + w) (?l @ r) (adr hi)"
    using pb(4) place_bounds(8) [OF pl t'] pl unat_adr [of hi] by (fastforce simp: outside_def s3 place_ok_def)
  have ob: "outside s3 (a + w) (?l @ r) (adr (b_addr b))" if "b \<in> set (l @ r)" "b_used b" for b
    using that ne [OF that(1)] place_bounds(6) [OF pl t', of b] row_adr_inj [OF pl t', of b] by (fastforce simp: outside_def s3)
  have sa: "hp_size s4 (adr a) = adr w" using s4(4) [OF oa] by (simp add: s3)
  have place4: "place_ok s4 lo hi"
    using place3 s4(4) [OF ohi] s4(6) by (simp add: place_ok_def s4(5) s3)
  have fr4: "hp_free s4 = hp_free s" "hp_xStart s4 = ?x" by (simp_all add: s4(5) s3)
  have "heap_inv (hand_out s4 (adr a)) lo hi (l @ Blk a w True # ?R)"
  proof (rule hand_out_inv [OF place4 t2])
    show "coalesced (l @ Blk a w True # ?R)"
      using coalesced_used [OF c] by (auto simp: coalesced_append coalesced_Cons)
    show "fpath (hp_next s4) (hp_xStart s4) (l @ Blk a w True # ?R) (adr hi)" using s4(2) by (simp add: shape fr4)
    show "free_sizes s4 (l @ ?R)" using s4(3) by (auto simp: shape free_sizes_def)
    show "used_hdrs s4 (l @ ?R)"
      using us3 s4(4) [OF ob] by (auto simp: used_hdrs_def)
    show "hp_size s4 (adr a) = adr w" by (rule sa)
    show "hp_free s4 = adr (free_bytes (l @ ?R) + w)" using fr w by (simp add: fr4)
  qed
  moreover have "s4 = s\<lparr>hp_size := sz, hp_next := nx\<rparr>"
    by (simp add: s4(5) s3_def s1_def set_size_def set_next_def)
  ultimately show ?thesis using s4(1) sa by blast
qed

end
