(* ===== verification/Heap4_Spec.thy ===== *)
theory Heap4_Spec
  imports Heap4_Alloc
begin

text \<open>
  The entry points of the allocator against the specification: allocation is \<open>alloc_first\<close> of
  the rounded size, release is \<open>free_into\<close>, set-up gives one free block.
\<close>

subsection \<open>The rounded size\<close>

lemma low_bits: "adr k AND 15 = adr (k mod 16)"
proof -
  have "(15::u64) = mask 4" by (simp add: mask_eq_exp_minus_1)
  then have "adr k AND 15 = take_bit 4 (adr k)" by (simp only: take_bit_eq_mask)
  also have "\<dots> = adr (take_bit 4 k)" by (rule take_bit_of_nat)
  finally show ?thesis by (simp only: take_bit_eq_mod) simp
qed

definition want :: "nat \<Rightarrow> nat" where "want m = 16 * ((m + 31) div 16)"

lemma want_bounds: "m + 16 \<le> want m" "want m \<le> m + 31" "16 dvd want m" "0 < want m"
  unfolding want_def by presburger+

lemma want_round: 
  assumes "0 < m mod 16" shows "want m = m + 16 + (16 - m mod 16)"
proof -
  obtain d e where de: "m = 16 * d + e" "m mod 16 = e" "e < 16"
    by (metis mod_less_divisor mult_div_mod_eq zero_less_numeral)
  have "(16 * d + e + 31) div 16 = d + 2"
    by (rule div_nat_eqI) (use assms de(2,3) in simp_all)
  then show ?thesis using de(3) unfolding want_def de(2) by (simp add: de(1))
qed

lemma adr_zero: "n < 2 ^ 64 \<Longrightarrow> adr n = 0 \<longleftrightarrow> n = 0"
  using adr_eq [of n 0] by simp

lemma wanted_size_want:
  assumes m: "0 < m" "m < 2 ^ 63"
  shows "wanted_size (adr m) = adr (want m)"
proof -
  let ?v = "adr (m + 16)" let ?r = "m mod 16"
  have s: "adr m + 16 = ?v" by simp
  have lt: "adr m < ?v" using m by (subst adr_less) auto
  have a0: "0 < adr m" using m adr_less [of 0 m] by simp
  have k: "?v AND 15 = adr ?r" by (simp only: low_bits) simp
  have unf: "wanted_size (adr m) = (if adr ?r \<noteq> 0 then if ?v < ?v + (16 - adr ?r) then ?v + (16 - adr ?r) else 0 else ?v)"
    using lt a0 by (simp only: wanted_size_def heap_consts Let_def s k simp_thms if_True)
  show ?thesis
  proof (cases "?r = 0")
    case True
    then have "want m = m + 16" unfolding want_def by presburger
    then show ?thesis using True unf by simp
  next
    case False
    have r: "0 < ?r" "?r < 16" using False by auto
    have nz: "adr ?r \<noteq> 0" using r by (subst adr_zero) auto
    have "(16::u64) - adr ?r = adr (16 - ?r)" using r by (simp add: of_nat_diff)
    then have e: "?v + (16 - adr ?r) = adr (m + 16 + (16 - ?r))" by (simp only: of_nat_add)
    have w: "want m = m + 16 + (16 - ?r)" using want_round r by blast
    have "?v < adr (m + 16 + (16 - ?r))" using m r by (subst adr_less) auto
    then have "?v < ?v + (16 - adr ?r)" by (subst e)
    from unf [unfolded if_P [OF nz] if_P [OF this]] show ?thesis by (subst w) (rule trans [OF _ e])
  qed
qed

subsection \<open>Allocation\<close>

lemma heap_invD:
  assumes "heap_inv s lo hi bs"
  shows "place_ok s lo hi" "tiles lo bs hi" "coalesced bs" "fpath (hp_next s) (hp_xStart s) bs (adr hi)"
    "free_sizes s bs" "used_hdrs s bs" "hp_free s = adr (free_bytes bs)"
  using assms by (simp_all add: heap_inv_def)

lemma heap_end:
  assumes "heap_inv s lo hi bs"
  shows "hp_end s \<noteq> 0" "hp_end s = adr hi" "hp_bit s = push_bit 63 1" "free_bytes bs < 2 ^ 63"
proof -
  have p: "place_ok s lo hi" "tiles lo bs hi" using heap_invD [OF assms] by blast+
  then show "hp_end s = adr hi" "hp_bit s = push_bit 63 1" by (simp_all add: place_ok_def)
  then show "hp_end s \<noteq> 0" using p(1) adr_zero [of hi] by (simp add: place_ok_def)
  show "free_bytes bs < 2 ^ 63" using free_bytes_le [OF p(2)] p(1) by (auto simp: place_ok_def)
qed

text \<open>The body of the allocator after the block has been found.\<close>

lemma malloc_unfold:
  assumes inv: "heap_inv s lo hi bs" and w: "sz AND push_bit 63 1 = 0" "0 < wanted_size sz" "wanted_size sz \<le> hp_free s"
    and f: "fit_search s (wanted_size sz) (hp_xStart s) (hp_next s (hp_xStart s)) = Some (q, b)" and b: "b \<noteq> adr hi"
  shows "internal_malloc s sz =
    Option.bind
      (if heapMINIMUM_BLOCK_SIZE < hp_size s b - wanted_size sz
       then prvInsertBlockIntoFreeList
         (set_size (set_size (set_next s q (hp_next s b)) (b + wanted_size sz) (hp_size s b - wanted_size sz)) b (wanted_size sz))
         (b + wanted_size sz)
       else Some (set_next s q (hp_next s b)))
      (\<lambda>s4. Some (hp_next s q + 16, hand_out s4 b))"
proof -
  note e = heap_end [OF inv]
  show ?thesis
    unfolding internal_malloc_def using w f b e
    by (simp add: Let_def hand_out_def heap_consts set_next_def cong: if_cong)
qed

lemma malloc_found:
  assumes inv: "heap_inv s lo hi bs" and m: "0 < m" "m < 2 ^ 63"
    and al: "alloc_first (want m) bs = Some (a, bs')"
  shows "\<exists>s'. internal_malloc s (adr m) = Some (adr (a + 16), s') \<and> heap_inv s' lo hi bs' \<and>
     hp_mem s' = hp_mem s \<and> hp_allocs s' = hp_allocs s + 1 \<and> hp_frees s' = hp_frees s \<and>
     hp_min s' = min (hp_min s) (adr (free_bytes bs'))"
proof -
  obtain l n r where row: "bs = l @ Blk a n False # r" "want m \<le> n" "\<forall>b \<in> set l. \<not> b_used b \<longrightarrow> b_len b < want m"
    "bs' = l @ (if 32 < n - want m then Blk a (want m) True # Blk (a + want m) (n - want m) False # r else Blk a n True # r)"
    using alloc_first_split [OF al] by blast
  note inv' = inv [unfolded row(1)]
  note h = heap_invD [OF inv'] and e = heap_end [OF inv']
  let ?q = "last_free (hp_xStart s) l" let ?s1 = "set_next s ?q (hp_next s (adr a))"
  have wm: "wanted_size (adr m) = adr (want m)" by (rule wanted_size_want [OF m])
  have an: "a + n < 2 ^ 63" "adr a \<noteq> adr hi" using place_bounds(4,8) [OF h(1,2), of "Blk a n False"] by auto
  have sz: "hp_size s (adr a) = adr n" using h(5) by (simp add: free_sizes_def)
  have lt: "0 < wanted_size (adr m)" "wanted_size (adr m) \<le> hp_free s"
  proof -
    have fb: "want m \<le> free_bytes bs" using row(1,2) by simp
    have "0 < adr (want m)" using want_bounds(4) [of m] fb heap_end(4) [OF inv] by (subst adr_less [of 0, simplified]) auto
    then show "0 < wanted_size (adr m)" by (simp only: wm)
    have "\<not> adr (free_bytes bs) < adr (want m)" using fb heap_end(4) [OF inv] by (subst adr_less) auto
    then show "wanted_size (adr m) \<le> hp_free s" by (simp only: wm heap_invD(7) [OF inv] not_less)
  qed
  have fit: "fit_search s (wanted_size (adr m)) (hp_xStart s) (hp_next s (hp_xStart s)) = Some (?q, adr a)"
    and nq: "hp_next s ?q = adr a"
    using fit_search_found [OF inv' row(3,2)] by (simp_all add: wm)
  have rest: "hp_size s (adr a) - adr (want m) = adr (n - want m)"
    using row(2) by (simp add: sz of_nat_diff)
  have cmp: "heapMINIMUM_BLOCK_SIZE < adr (n - want m) \<longleftrightarrow> 32 < n - want m"
    unfolding heap_consts by (rule adr_less [of 32, unfolded of_nat_numeral]) (use an(1) in auto)
  have top: "adr m AND push_bit 63 1 = 0" by (rule top_bit(3) [OF m(2)])
  note run = malloc_unfold [OF inv' top lt fit an(2), unfolded wm rest cmp nq]
  have ret: "adr a + 16 = adr (a + 16)" "adr a + adr (want m) = adr (a + want m)" by simp_all
  show ?thesis
  proof (cases "32 < n - want m")
    case False
    have "internal_malloc s (adr m) = Some (adr (a + 16), hand_out ?s1 (adr a))"
      using run by (simp only: False ret if_False Option.bind.simps)
    moreover have "heap_inv (hand_out ?s1 (adr a)) lo hi bs'" using take_whole [OF inv'] row(4) False by simp
    moreover have "hp_free ?s1 - hp_size ?s1 (adr a) = adr (free_bytes bs')"
      using h(7) row(4) False sz by (simp add: unlink_sel)
    ultimately show ?thesis by (auto simp: hand_out_sel unlink_sel)
  next
    case True
    have w: "0 < want m" "want m < n" "16 dvd want m" using want_bounds [of m] True by auto
    obtain s4 nx sizes where s4: "prvInsertBlockIntoFreeList
        (set_size (set_size ?s1 (adr (a + want m)) (adr (n - want m))) (adr a) (adr (want m))) (adr (a + want m)) = Some s4"
      "s4 = s\<lparr>hp_size := sizes, hp_next := nx\<rparr>" "hp_size s4 (adr a) = adr (want m)"
      "heap_inv (hand_out s4 (adr a)) lo hi (l @ Blk a (want m) True # Blk (a + want m) (n - want m) False # r)"
      using take_split [OF inv' w] by blast
    have "internal_malloc s (adr m) = Some (adr (a + 16), hand_out s4 (adr a))"
      using run by (simp only: True ret if_True s4(1) Option.bind.simps)
    moreover have "heap_inv (hand_out s4 (adr a)) lo hi bs'" using s4(4) row(4) True by simp
    moreover have "hp_free s4 - hp_size s4 (adr a) = adr (free_bytes bs')"
      using h(7) row(4) True s4(2,3) w(2) by (simp add: of_nat_diff)
    ultimately show ?thesis using s4(2) by (auto simp: hand_out_sel)
  qed
qed

lemma malloc_full:
  assumes inv: "heap_inv s lo hi bs" and m: "0 < m" "m < 2 ^ 63" and al: "alloc_first (want m) bs = None"
  shows "internal_malloc s (adr m) = Some (0, s)"
proof -
  note e = heap_end [OF inv]
  have small: "\<forall>b \<in> set bs. \<not> b_used b \<longrightarrow> b_len b < want m" using al by (simp only: alloc_first_None)
  have "want m < 2 ^ 64" using want_bounds(2) [of m] m(2) by simp
  from fit_search_none [OF inv small this]
  obtain q where fit: "fit_search s (adr (want m)) (hp_xStart s) (hp_next s (hp_xStart s)) = Some (q, hp_end s)"
    by (auto simp: e(2))
  show ?thesis
    unfolding internal_malloc_def wanted_size_want [OF m] Let_def if_not_P [OF e(1)] e(3) top_bit(3) [OF m(2)]
    by (simp add: fit)
qed

lemma malloc_refused:
  assumes inv: "heap_inv s lo hi bs" and sz: "sz = 0 \<or> sz AND push_bit 63 1 \<noteq> 0"
  shows "internal_malloc s sz = Some (0, s)"
  using sz heap_end [OF inv] by (auto simp: internal_malloc_def wanted_size_def Let_def)

subsection \<open>Release\<close>

lemma free_used:
  assumes inv: "heap_inv s lo hi (l @ Blk a n True # r)"
  shows "\<exists>s'. internal_free s (adr (a + 16)) = Some s' \<and> heap_inv s' lo hi (free_into l a n r) \<and>
     hp_mem s' = hp_mem s \<and> hp_allocs s' = hp_allocs s \<and> hp_frees s' = hp_frees s + 1 \<and> hp_min s' = hp_min s"
proof -
  let ?row = "l @ Blk a n True # r" and ?x = "hp_xStart s"
  note h = heap_invD [OF inv] and e = heap_end [OF inv]
  note pb = place_bounds [OF h(1,2), of "Blk a n True", simplified]
  have ne: "adr (b_addr b) \<noteq> adr a" if "b \<in> set (l @ r)" for b by (rule row_adr_neq [OF h(1,2) that])
  have n: "n < 2 ^ 63" using pb(4) by simp
  have hdr: "hp_size s (adr a) = adr n OR push_bit 63 1" "hp_next s (adr a) = 0"
    using h(6) by (auto simp: used_hdrs_def)
  define s1 where "s1 = s\<lparr>hp_size := (hp_size s)(adr a := adr n), hp_free := hp_free s + adr n\<rparr>"
  have s1: "hp_next s1 = hp_next s" "hp_size s1 = (hp_size s)(adr a := adr n)" "hp_xStart s1 = ?x"
    "hp_end s1 = hp_end s" "hp_bit s1 = hp_bit s"
    by (simp_all add: s1_def)
  have place1: "place_ok s1 lo hi" using h(1) pb by (auto simp: place_ok_def s1)
  have path1: "fpath (hp_next s1) (hp_xStart s1) (l @ r) (adr hi)" using h(4) by (simp add: s1 fpath_append)
  have fs1: "free_sizes s1 (l @ r)" using h(5) ne by (auto simp: free_sizes_def s1)
  have sz1: "hp_size s1 (adr a) = adr n" by (simp add: s1)
  from insert_spec [OF place1 h(2) path1 fs1 sz1]
  obtain s2 nx sz where s2: "prvInsertBlockIntoFreeList s1 (adr a) = Some s2"
    "fpath (hp_next s2) ?x (free_into l a n r) (adr hi)" "free_sizes s2 (free_into l a n r)"
    "\<And>y. outside s1 a (l @ r) y \<Longrightarrow> hp_next s2 y = hp_next s1 y \<and> hp_size s2 y = hp_size s1 y"
    "s2 = s1\<lparr>hp_size := sz, hp_next := nx\<rparr>" "hp_size s2 ?x = 0"
    by (auto simp: s1(3))
  have "adr (a + 16) \<noteq> 0" by (subst adr_zero) (use pb(3) in auto)
  moreover have "adr (a + 16) - xHeapStructSize = adr a" by (simp add: heap_consts)
  ultimately have run: "internal_free s (adr (a + 16)) = Some (s2\<lparr>hp_frees := hp_frees s2 + 1\<rparr>)"
    unfolding internal_free_def
    using pb(7) hdr e(3) top_bit(1,2) [OF n] s2(1) by (simp add: blk_size_def set_size_def s1_def Let_def del: of_nat_add)
  have ohi: "outside s1 a (l @ r) (adr hi)"
    using pb(8) place_bounds(8) [OF h(1,2)] h(1) unat_adr [of hi] by (fastforce simp: outside_def s1 place_ok_def)
  have ob: "outside s1 a (l @ r) (adr (b_addr b))" if "b \<in> set (l @ r)" "b_used b" for b
    using that ne [OF that(1)] place_bounds(6) [OF h(1,2), of b] row_adr_inj [OF h(1,2), of b] by (fastforce simp: outside_def s1)
  have "place_ok s2 lo hi" using place1 s2(4) [OF ohi] s2(6) by (simp add: place_ok_def s2(5) s1)
  moreover have "used_hdrs s2 (free_into l a n r)"
    unfolding used_hdrs_def
  proof (intro ballI impI)
    fix b assume b: "b \<in> set (free_into l a n r)" "b_used b"
    then have "b \<in> used_blocks (free_into l a n r)" by (simp add: used_blocks_def)
    then have lr: "b \<in> set (l @ r)" by (auto simp: free_into_used) (auto simp: used_blocks_def)
    then show "hp_size s2 (adr (b_addr b)) = adr (b_len b) OR push_bit 63 1 \<and> hp_next s2 (adr (b_addr b)) = 0"
      using s2(4) [OF ob [OF lr b(2)]] h(6) b(2) ne [OF lr] by (auto simp: used_hdrs_def s1)
  qed
  moreover have "hp_free s2 = adr (free_bytes (free_into l a n r))"
    using h(7) by (simp add: s2(5) s1_def free_into_bytes)
  ultimately have "heap_inv s2 lo hi (free_into l a n r)"
    using s2(2,3) free_into_tiles [OF h(2)] free_into_coalesced [OF h(3)] by (simp add: heap_inv_def s2(5) s1)
  then have "heap_inv (s2\<lparr>hp_frees := hp_frees s2 + 1\<rparr>) lo hi (free_into l a n r)"
    by (simp add: heap_inv_def place_ok_def free_sizes_def used_hdrs_def)
  then show ?thesis using run by (simp add: s2(5) s1_def)
qed

text \<open>Releasing a block that is free already, or the null pointer, changes nothing.\<close>

lemma free_again:
  assumes inv: "heap_inv s lo hi bs" and b: "Blk a n False \<in> set bs"
  shows "internal_free s (adr (a + 16)) = Some s"
proof -
  note h = heap_invD [OF inv] and e = heap_end [OF inv]
  note pb = place_bounds [OF h(1,2) b, simplified]
  have "hp_size s (adr a) = adr n" using h(5) b by (auto simp: free_sizes_def)
  then show ?thesis
    using pb(7) e(3) top_bit(3) [of n] pb(4)
    by (simp add: internal_free_def heap_consts blk_size_def)
qed

end
