(* ===== verification/Heap4_Run.thy ===== *)
theory Heap4_Run
  imports Heap4_Spec
begin

text \<open>
  Set-up of the heap, and the allocator over a whole run of calls: the blocks that are handed
  out are the used blocks of the row, whatever the order of the calls.
\<close>

subsection \<open>Set-up\<close>

definition heap_static :: "heap4 \<Rightarrow> bool" where
  "heap_static s \<longleftrightarrow> hp_end s = 0 \<and> 0 < unat (hp_ucHeap s) \<and> unat (hp_ucHeap s) + 0x40000 \<le> 2 ^ 63 \<and> hp_xStart s \<noteq> 0 \<and>
     \<not> (unat (hp_ucHeap s) \<le> unat (hp_xStart s) \<and> unat (hp_xStart s) < unat (hp_ucHeap s) + 0x40000)"

definition heap_lo :: "heap4 \<Rightarrow> nat" where
  "heap_lo s = 16 * ((unat (hp_ucHeap s) + 15) div 16)"

definition heap_hi :: "heap4 \<Rightarrow> nat" where
  "heap_hi s = 16 * ((unat (hp_ucHeap s) + 0x3FFF0) div 16)"

lemma round_down: "k < 2 ^ 64 \<Longrightarrow> adr k AND NOT 15 = adr (16 * (k div 16))"
proof -
  assume k: "k < 2 ^ 64"
  have "unat (adr k AND NOT (mask 4)) = k - k mod 2 ^ 4"
    using unat_and_not_mask [of "adr k" 4] k by (simp add: unat_adr)
  then have "unat (adr k AND NOT 15) = 16 * (k div 16)"
    by (simp add: mask_eq_exp_minus_1 minus_mod_eq_mult_div)
  then have "adr (unat (adr k AND NOT 15)) = adr (16 * (k div 16))" by (rule arg_cong)
  then show ?thesis by (simp del: of_nat_mult)
qed

lemma heap_area:
  assumes "heap_static s"
  shows "unat (hp_ucHeap s) \<le> heap_lo s" "heap_lo s \<le> unat (hp_ucHeap s) + 15" "0x3FFC0 \<le> heap_hi s - heap_lo s"
    "heap_hi s + 16 \<le> unat (hp_ucHeap s) + 0x40000" "heap_lo s < heap_hi s" "16 dvd heap_lo s" "16 dvd heap_hi s"
    "heap_hi s + 16 \<le> 2 ^ 63"
proof -
  have d: "16 * (x div 16) \<le> x" "x < 16 * (x div 16) + 16" for x :: nat by presburger+
  let ?u = "unat (hp_ucHeap s)"
  note e = d(1) [of "?u + 15"] d(2) [of "?u + 15"] d(1) [of "?u + 0x3FFF0"] d(2) [of "?u + 0x3FFF0"]
  show a: "?u \<le> heap_lo s" "heap_lo s \<le> ?u + 15" "heap_hi s + 16 \<le> ?u + 0x40000" "0x3FFC0 \<le> heap_hi s - heap_lo s"
    "heap_lo s < heap_hi s"
    using e unfolding heap_lo_def heap_hi_def by linarith+
  show "16 dvd heap_lo s" "16 dvd heap_hi s" by (simp_all add: heap_lo_def heap_hi_def)
  show "heap_hi s + 16 \<le> 2 ^ 63" using a(3) assms unfolding heap_static_def by linarith
qed

lemma heap_init_words:
  assumes "heap_static s"
  shows "prvHeapInit s =
    (let s1 = set_size (set_next s (hp_xStart s) (adr (heap_lo s))) (hp_xStart s) 0;
         s2 = set_next (set_size (s1\<lparr>hp_end := adr (heap_hi s)\<rparr>) (adr (heap_hi s)) 0) (adr (heap_hi s)) 0;
         s3 = set_next (set_size s2 (adr (heap_lo s)) (adr (heap_hi s - heap_lo s))) (adr (heap_lo s)) (adr (heap_hi s))
     in s3\<lparr>hp_min := adr (heap_hi s - heap_lo s), hp_free := adr (heap_hi s - heap_lo s), hp_bit := push_bit 63 1\<rparr>)"
proof -
  let ?u = "unat (hp_ucHeap s)"
  have u: "hp_ucHeap s = adr ?u" by simp
  note ar = heap_area [OF assms]
  have lt: "?u + 0x40000 < 2 ^ 64" using assms unfolding heap_static_def by auto
  have up: "(adr ?u + (16 - 1)) AND NOT 15 = adr (heap_lo s)"
    using round_down [of "?u + 15"] lt unfolding heap_lo_def by simp
  have al: "adr ?u AND 15 = 0 \<Longrightarrow> adr ?u = adr (heap_lo s)"
  proof -
    assume "adr ?u AND 15 = 0"
    then have "adr (?u mod 16) = 0" by (simp only: low_bits)
    then have "?u mod 16 = 0" by (subst (asm) adr_zero) auto
    then have "heap_lo s = ?u" unfolding heap_lo_def by presburger
    then show ?thesis by simp
  qed
  have down: "adr (heap_lo s) + (0x40000 - (adr (heap_lo s) - adr ?u)) - 16 = adr (?u + 0x3FFF0)" by simp
  have hi: "adr (?u + 0x3FFF0) AND NOT 15 = adr (heap_hi s)"
    unfolding heap_hi_def by (rule round_down) (use lt in simp)
  have diff: "adr (heap_hi s) - adr (heap_lo s) = adr (heap_hi s - heap_lo s)" using ar(5) by (simp add: of_nat_diff)
  have neq: "adr (heap_lo s) \<noteq> adr (heap_hi s)" using ar(5,8) by (subst adr_eq) auto
  have start: "(if hp_ucHeap s AND 15 \<noteq> 0
      then let a = (hp_ucHeap s + (16 - 1)) AND NOT 15 in (a, 0x40000 - (a - hp_ucHeap s)) else (hp_ucHeap s, 0x40000)) =
      (adr (heap_lo s), 0x40000 - (adr (heap_lo s) - adr ?u))"
    by (subst (1 2 3 4) u) (use up al in \<open>auto simp: Let_def\<close>)
  show ?thesis
    unfolding prvHeapInit_def heap_consts configTOTAL_HEAP_SIZE_def Let_def start [unfolded Let_def] prod.case down hi diff
    using neq by (simp add: set_size_def set_next_def Let_def fun_upd_def)
qed

lemma heap_init_inv:
  assumes "heap_static s"
  shows "heap_inv (prvHeapInit s) (heap_lo s) (heap_hi s) [Blk (heap_lo s) (heap_hi s - heap_lo s) False]"
proof -
  note ar = heap_area [OF assms]
  have x: "hp_xStart s \<noteq> 0" and xo: "\<not> (heap_lo s \<le> unat (hp_xStart s) \<and> unat (hp_xStart s) < heap_hi s + 16)"
    using assms ar(1,4) unfolding heap_static_def by auto
  have "hp_xStart s \<noteq> adr (heap_lo s)" "hp_xStart s \<noteq> adr (heap_hi s)"
    using xo unat_adr [of "heap_lo s"] unat_adr [of "heap_hi s"] ar(5,8) by auto
  moreover have "adr (heap_lo s) \<noteq> adr (heap_hi s)" using ar(5,8) by (subst adr_eq) auto
  moreover have "0 < heap_lo s" using ar(1) assms unfolding heap_static_def by linarith
  moreover have "16 dvd heap_hi s - heap_lo s" using ar(6,7) by (rule dvd_diff_nat [rotated])
  ultimately show ?thesis
    unfolding heap_init_words [OF assms]
    using x xo ar(5,6,8) by (simp add: heap_inv_def place_ok_def free_sizes_def used_hdrs_def Let_def set_size_def set_next_def)
qed

lemma malloc_first:
  assumes "heap_static s"
  shows "internal_malloc s sz = internal_malloc (prvHeapInit s) sz"
  using heap_end(1) [OF heap_init_inv [OF assms]] assms by (simp add: internal_malloc_def heap_static_def)

subsection \<open>Runs of calls\<close>

text \<open>
  A client allocates, and releases what it holds; the second component of the state lists the
  pointers it holds with the sizes it asked for.
\<close>

datatype heap_op = Acquire u64 | Release nat

fun heap_call :: "heap_op \<Rightarrow> heap4 \<times> (u64 \<times> u64) list \<Rightarrow> (heap4 \<times> (u64 \<times> u64) list) option" where
  "heap_call (Acquire m) (s, live) = do {
     (p, s) \<leftarrow> pvPortMalloc s m;
     Some (s, if p = 0 then live else live @ [(p, m)]) }"
| "heap_call (Release i) (s, live) =
     (if i < length live then do {
        s \<leftarrow> vPortFree s (fst (live ! i));
        Some (s, take i live @ drop (Suc i) live) }
      else Some (s, live))"

fun heap_calls :: "heap_op list \<Rightarrow> heap4 \<times> (u64 \<times> u64) list \<Rightarrow> (heap4 \<times> (u64 \<times> u64) list) option" where
  "heap_calls [] st = Some st"
| "heap_calls (c # cs) st = Option.bind (heap_call c st) (heap_calls cs)"

definition held :: "blk list \<Rightarrow> u64 \<times> u64 \<Rightarrow> blk \<Rightarrow> bool" where
  "held bs pm b \<longleftrightarrow> b \<in> set bs \<and> b_used b \<and> fst pm = adr (b_addr b + 16) \<and> unat (snd pm) + 16 \<le> b_len b"

definition owns :: "blk list \<Rightarrow> (u64 \<times> u64) list \<Rightarrow> bool" where
  "owns bs live \<longleftrightarrow> (\<exists>us. list_all2 (held bs) live us \<and> distinct us \<and> set us = used_blocks bs)"

lemma used_blocks_split: "used_blocks (l @ b # r) = used_blocks l \<union> (if b_used b then {b} else {}) \<union> used_blocks r"
  "used_blocks (b # r) = (if b_used b then {b} else {}) \<union> used_blocks r"
  by (auto simp: used_blocks_def)

lemma owns_alloc:
  assumes o: "owns bs live" and t: "tiles lo bs hi" and al: "alloc_first (want m) bs = Some (a, bs')" and m: "m < 2 ^ 63"
  shows "owns bs' (live @ [(adr (a + 16), adr m)])"
proof -
  obtain us where us: "list_all2 (held bs) live us" "distinct us" "set us = used_blocks bs"
    using o by (auto simp: owns_def)
  obtain l n r where row: "bs = l @ Blk a n False # r" "want m \<le> n"
    "bs' = l @ (if 32 < n - want m then Blk a (want m) True # Blk (a + want m) (n - want m) False # r else Blk a n True # r)"
    using alloc_first_split [OF al] by blast
  obtain n' where n': "want m \<le> n'" "Blk a n' True \<in> set bs'" "used_blocks bs' = insert (Blk a n' True) (used_blocks bs)"
  proof (cases "32 < n - want m")
    case True
    then show ?thesis using row by (intro that [of "want m"]) (auto simp: used_blocks_split)
  next
    case False
    then show ?thesis using row by (intro that [of n]) (auto simp: used_blocks_split)
  qed
  have sub: "used_blocks bs \<subseteq> set bs'" using n'(3) by (auto simp: used_blocks_def)
  have "Blk a n' True \<notin> set bs"
    using tiles_once [OF t [unfolded row(1)], of n' True] row(1) by auto
  then have "Blk a n' True \<notin> set us" using us(3) by (auto simp: used_blocks_def)
  moreover have "list_all2 (held bs') live us"
    using us(1) by (rule list_all2_mono) (use sub in \<open>auto simp: held_def used_blocks_def\<close>)
  moreover have "held bs' (adr (a + 16), adr m) (Blk a n' True)"
    using n' m want_bounds(1) [of m] unat_adr [of m] by (simp add: held_def)
  ultimately show ?thesis
    unfolding owns_def using us(2,3) n'(3) by (intro exI [of _ "us @ [Blk a n' True]"]) (auto simp: list_all2_appendI)
qed

lemma owns_free:
  assumes o: "owns bs live" and i: "i < length live" and t: "tiles lo bs hi"
  shows "\<exists>l a n r. bs = l @ Blk a n True # r \<and> fst (live ! i) = adr (a + 16) \<and>
    owns (free_into l a n r) (take i live @ drop (Suc i) live)"
proof -
  obtain us where us: "list_all2 (held bs) live us" "distinct us" "set us = used_blocks bs"
    using o by (auto simp: owns_def)
  have len: "length live = length us" using us(1) by (rule list_all2_lengthD)
  obtain a n u where b: "us ! i = Blk a n u" by (cases "us ! i")
  have h: "held bs (live ! i) (Blk a n u)" using list_all2_nthD [OF us(1) i] b by simp
  then obtain l r where row: "bs = l @ Blk a n True # r" "u = True" using split_list [of "Blk a n u" bs] by (auto simp: held_def)
  have us_i: "us = take i us @ Blk a n True # drop (Suc i) us" using id_take_nth_drop [of i us] b row(2) i len by simp
  have once: "Blk a n True \<notin> set (l @ r)" by (rule tiles_once [OF t [unfolded row(1)]])
  have ub: "used_blocks (free_into l a n r) = used_blocks bs - {Blk a n True}"
    using once by (auto simp: free_into_used row(1) used_blocks_split) (auto simp: used_blocks_def)
  have d: "distinct (take i us @ drop (Suc i) us)" "set (take i us @ drop (Suc i) us) = set us - {Blk a n True}"
  proof -
    have "distinct (take i us @ Blk a n True # drop (Suc i) us)" using us(2) us_i by simp
    then show "distinct (take i us @ drop (Suc i) us)"
      "set (take i us @ drop (Suc i) us) = set us - {Blk a n True}"
      using arg_cong [OF us_i, of set] by auto
  qed
  have "list_all2 (held bs) (take i live @ drop (Suc i) live) (take i us @ drop (Suc i) us)"
    using us(1) by (intro list_all2_appendI list_all2_takeI list_all2_dropI)
  moreover have "held (free_into l a n r) p c" if "held bs p c" "c \<in> set (take i us @ drop (Suc i) us)" for p c
  proof -
    have "c \<in> used_blocks (free_into l a n r)"
      using that(2) unfolding d(2) ub us(3) .
    then show ?thesis using that(1) by (simp add: held_def used_blocks_def)
  qed
  ultimately have "list_all2 (held (free_into l a n r)) (take i live @ drop (Suc i) live) (take i us @ drop (Suc i) us)"
    by (rule list.rel_mono_strong)
  then have "owns (free_into l a n r) (take i live @ drop (Suc i) live)"
    unfolding owns_def using d ub us(3) by blast
  then show ?thesis using row h by (auto simp: held_def)
qed

text \<open>The states of a run: before the first call, or a row whose used blocks are those held.\<close>

definition run_inv :: "heap4 \<Rightarrow> heap4 \<times> (u64 \<times> u64) list \<Rightarrow> bool" where
  "run_inv s0 st \<longleftrightarrow> (case st of (s, live) \<Rightarrow>
     (s = s0 \<and> live = []) \<or> (\<exists>bs. heap_inv s (heap_lo s0) (heap_hi s0) bs \<and> owns bs live))"

lemma owns_nil: "owns bs [] \<longleftrightarrow> used_blocks bs = {}"
  by (auto simp: owns_def)

lemma word_nat: "\<exists>m. w = adr m \<and> m < 2 ^ 64"
  by (intro exI [of _ "unat w"]) (use unsigned_less [of w] in simp)

lemma top_bit_set:
  assumes "2 ^ 63 \<le> m" "m < 2 ^ 64"
  shows "adr m AND push_bit 63 1 \<noteq> 0"
proof -
  have "m div 2 ^ 63 = 1" by (rule div_nat_eqI) (use assms in auto)
  then have "bit (unat (adr m)) 63" using assms by (simp add: unat_adr bit_iff_odd)
  then have "bit (adr m) 63" by (simp add: bit_unsigned_iff)
  moreover have "bit (push_bit 63 1 :: u64) 63" by (subst bit_push_bit_iff) (simp add: bit_1_iff)
  ultimately have "bit (adr m AND push_bit 63 1) 63" by (simp add: bit_and_iff)
  then show ?thesis by auto
qed

lemma acquire_step:
  assumes inv: "heap_inv s lo hi bs" and o: "owns bs live"
  shows "\<exists>p s' bs'. internal_malloc s w = Some (p, s') \<and> heap_inv s' lo hi bs' \<and>
    owns bs' (if p = 0 then live else live @ [(p, w)])"
proof -
  obtain m where m: "w = adr m" "m < 2 ^ 64" using word_nat by blast
  show ?thesis
  proof (cases "m = 0 \<or> 2 ^ 63 \<le> m")
    case True
    then have "internal_malloc s w = Some (0, s)"
      using malloc_refused [OF inv, of w] top_bit_set [of m] m by (auto simp del: push_bit_numeral_minus_1)
    then show ?thesis using inv o by auto
  next
    case False
    then have m': "0 < m" "m < 2 ^ 63" by auto
    show ?thesis
    proof (cases "alloc_first (want m) bs")
      case None
      then show ?thesis using malloc_full [OF inv m'] inv o m(1) by auto
    next
      case (Some ab)
      then obtain a bs' where al: "alloc_first (want m) bs = Some (a, bs')" by (cases ab) auto
      obtain s' where s': "internal_malloc s w = Some (adr (a + 16), s')" "heap_inv s' lo hi bs'"
        using malloc_found [OF inv m' al] m(1) by blast
      obtain l n r where "bs = l @ Blk a n False # r" using alloc_first_split [OF al] by blast
      then have "Blk a n False \<in> set bs" by simp
      from place_bounds(3) [OF heap_invD(1,2) [OF inv] this] have "adr (a + 16) \<noteq> 0"
        by (subst adr_zero) auto
      then show ?thesis
        using s' owns_alloc [OF o heap_invD(2) [OF inv] al m'(2)] m(1) by (simp del: of_nat_add) blast
    qed
  qed
qed

lemma heap_call_inv:
  assumes st: "heap_static s0" and inv: "run_inv s0 x"
  shows "\<exists>y. heap_call c x = Some y \<and> run_inv s0 y"
proof -
  obtain s live where x: "x = (s, live)" by (cases x)
  let ?lo = "heap_lo s0" and ?hi = "heap_hi s0"
  have start: "heap_inv (prvHeapInit s0) ?lo ?hi [Blk ?lo (?hi - ?lo) False]" by (rule heap_init_inv [OF st])
  show ?thesis
  proof (cases c)
    case (Acquire w)
    have "\<exists>p s' bs'. internal_malloc s w = Some (p, s') \<and> heap_inv s' ?lo ?hi bs' \<and>
        owns bs' (if p = 0 then live else live @ [(p, w)])"
    proof (cases "s = s0 \<and> live = []")
      case True
      have "owns [Blk ?lo (?hi - ?lo) False] live" using True by (simp add: owns_nil used_blocks_def)
      from acquire_step [OF start this, of w] show ?thesis using malloc_first [OF st, of w] True by simp
    next
      case False
      then obtain bs where "heap_inv s ?lo ?hi bs" "owns bs live" using inv x by (auto simp: run_inv_def)
      then show ?thesis by (rule acquire_step)
    qed
    then obtain p s' bs' where r: "internal_malloc s w = Some (p, s')" "heap_inv s' ?lo ?hi bs'"
      "owns bs' (if p = 0 then live else live @ [(p, w)])"
      by blast
    have "heap_call c x = Some (s', if p = 0 then live else live @ [(p, w)])"
      using Acquire x r(1) by (simp add: pvPortMalloc_def)
    moreover have "run_inv s0 (s', if p = 0 then live else live @ [(p, w)])"
      unfolding run_inv_def prod.case using r(2,3) by blast
    ultimately show ?thesis by blast
  next
    case (Release i)
    show ?thesis
    proof (cases "i < length live")
      case False
      then show ?thesis using Release x inv by simp
    next
      case True
      then obtain bs where bs: "heap_inv s ?lo ?hi bs" "owns bs live" using inv x by (auto simp: run_inv_def)
      obtain l a n r where row: "bs = l @ Blk a n True # r" "fst (live ! i) = adr (a + 16)"
        "owns (free_into l a n r) (take i live @ drop (Suc i) live)"
        using owns_free [OF bs(2) True heap_invD(2) [OF bs(1)]] by blast
      obtain s' where "internal_free s (adr (a + 16)) = Some s'" "heap_inv s' ?lo ?hi (free_into l a n r)"
        using free_used [OF bs(1) [unfolded row(1)]] by blast
      then show ?thesis
        using Release x True row(2,3) by (auto simp: vPortFree_def run_inv_def simp del: of_nat_add)
    qed
  qed
qed

lemma heap_calls_inv:
  "heap_static s0 \<Longrightarrow> run_inv s0 x \<Longrightarrow> \<exists>y. heap_calls cs x = Some y \<and> run_inv s0 y"
proof (induction cs arbitrary: x)
  case (Cons c cs)
  obtain y where "heap_call c x = Some y" "run_inv s0 y" using heap_call_inv [OF Cons.prems] by blast
  then show ?case using Cons.IH [OF Cons.prems(1)] by simp
qed simp

end
