(* ===== verification/Heap4_Props.thy ===== *)
theory Heap4_Props
  imports Heap4_Run
begin

text \<open>
  The properties of the allocator: safety of whole runs, no leak, refinement of the row
  specification, exact restoration by release, the statistics, the aligned variants and
  \<open>realloc\<close>.
\<close>

subsection \<open>Consequences of the row\<close>

lemma all_free_single:
  assumes "tiles lo bs hi" "coalesced bs" "used_blocks bs = {}" "lo < hi"
  shows "bs = [Blk lo (hi - lo) False]"
proof (cases bs)
  case Nil
  then show ?thesis using assms(1,4) by simp
next
  case (Cons b cs)
  then have "cs = []" using assms(2,3) by (cases cs) (auto simp: used_blocks_def)
  then show ?thesis using Cons assms(1,3) by (cases b) (auto simp: used_blocks_def)
qed

lemma tiles_disjoint:
  assumes "tiles lo bs hi" "b \<in> set bs" "c \<in> set bs" "b \<noteq> c"
  shows "b_addr b + b_len b \<le> b_addr c \<or> b_addr c + b_len c \<le> b_addr b"
proof -
  obtain l r where s: "bs = l @ b # r" using split_list [OF assms(2)] by blast
  then have t: "tiles lo (l @ Blk (b_addr b) (b_len b) (b_used b) # r) hi" using assms(1) by simp
  have "c \<in> set l \<or> c \<in> set r" using assms(3,4) s by auto
  then show ?thesis using tiles_split(5) [OF t, of c] tiles_split(6) [OF t, of c] by auto
qed

lemma tiles_16: "tiles lo bs hi \<Longrightarrow> 16 dvd lo \<Longrightarrow> b \<in> set bs \<Longrightarrow> 16 dvd b_addr b"
  by (induction bs arbitrary: lo) (auto intro: dvd_add)

lemma tiles_16n: "tiles lo bs hi \<Longrightarrow> b \<in> set bs \<Longrightarrow> 16 dvd b_len b"
  by (induction bs arbitrary: lo) auto

lemma owned_block:
  assumes inv: "heap_inv s lo hi bs" and us: "list_all2 (held bs) live us" and i: "i < length live" and p: "live ! i = (p, m)"
  shows "us ! i \<in> set bs" "unat p = b_addr (us ! i) + 16" "16 dvd unat p" "lo + 16 \<le> unat p"
    "unat p + unat m \<le> b_addr (us ! i) + b_len (us ! i)" "unat p + unat m \<le> hi"
proof -
  note h = heap_invD(1,2) [OF inv]
  have b: "held bs (p, m) (us ! i)" using list_all2_nthD [OF us i] p by simp
  then show m: "us ! i \<in> set bs" by (simp add: held_def)
  note pb = place_bounds [OF h m]
  show up: "unat p = b_addr (us ! i) + 16" using b pb(3) by (simp add: held_def unat_adr del: of_nat_add)
  then show "lo + 16 \<le> unat p" "unat p + unat m \<le> b_addr (us ! i) + b_len (us ! i)" "unat p + unat m \<le> hi"
    using b pb(1,2) by (auto simp: held_def)
  have "16 dvd b_addr (us ! i)" using tiles_16 [OF h(2) _ m] h(1) by (simp add: place_ok_def)
  then show "16 dvd unat p" unfolding up by simp
qed

definition ex_heap :: heap4 where
  "ex_heap = \<lparr>hp_xStart = 0x3FFFFF00, hp_ucHeap = 0x40000008, hp_next = (\<lambda>_. 0), hp_size = (\<lambda>_. 0), hp_end = 0,
     hp_free = 0, hp_min = 0, hp_allocs = 0, hp_frees = 0, hp_bit = 0, hp_mem = (\<lambda>_. 0)\<rparr>"

lemma ex_heap_static: "heap_static ex_heap"
  by (simp add: heap_static_def ex_heap_def)

text \<open>C4: Whatever sequence of allocations and releases a client makes, starting with the heap not
  yet set up, every call returns, and the regions it holds lie in the heap array, are aligned to 16,
  have at least the size asked for and do not overlap, their headers included.\<close>

theorem heap_calls_safe:
  assumes "heap_static s0"
  shows "\<exists>s live. heap_calls cs (s0, []) = Some (s, live) \<and>
    (\<forall>i p m. i < length live \<and> live ! i = (p, m) \<longrightarrow> 16 dvd unat p \<and> unat (hp_ucHeap s0) + 16 \<le> unat p \<and>
       unat p + unat m \<le> unat (hp_ucHeap s0) + 0x40000 \<and>
       (\<forall>j q n. j < length live \<and> live ! j = (q, n) \<and> i \<noteq> j \<longrightarrow>
          unat p + unat m \<le> unat q - 16 \<or> unat q + unat n \<le> unat p - 16))"
proof -
  obtain s live where run: "heap_calls cs (s0, []) = Some (s, live)" and inv: "run_inv s0 (s, live)"
    using heap_calls_inv [OF assms, of "(s0, [])" cs] by (auto simp: run_inv_def)
  note ar = heap_area [OF assms]
  have "16 dvd unat p \<and> unat (hp_ucHeap s0) + 16 \<le> unat p \<and> unat p + unat m \<le> unat (hp_ucHeap s0) + 0x40000 \<and>
      (\<forall>j q n. j < length live \<and> live ! j = (q, n) \<and> i \<noteq> j \<longrightarrow>
        unat p + unat m \<le> unat q - 16 \<or> unat q + unat n \<le> unat p - 16)"
    if i: "i < length live" "live ! i = (p, m)" for i p m
  proof -
    obtain bs us where bs: "heap_inv s (heap_lo s0) (heap_hi s0) bs" "list_all2 (held bs) live us" "distinct us"
      using inv i by (auto simp: run_inv_def owns_def)
    note oi = owned_block [OF bs(1,2) i]
    have "unat p + unat m \<le> unat q - 16 \<or> unat q + unat n \<le> unat p - 16"
      if j: "j < length live" "live ! j = (q, n)" "i \<noteq> j" for j q n
    proof -
      note oj = owned_block [OF bs(1,2) j(1,2)]
      have "us ! i \<noteq> us ! j" using bs(3) i(1) j(1,3) list_all2_lengthD [OF bs(2)] by (simp add: nth_eq_iff_index_eq)
      from tiles_disjoint [OF heap_invD(2) [OF bs(1)] oi(1) oj(1) this] show ?thesis
        using oi(2,5) oj(2,5) by auto
    qed
    moreover have "unat (hp_ucHeap s0) + 16 \<le> unat p" "unat p + unat m \<le> unat (hp_ucHeap s0) + 0x40000"
      using oi(4,6) ar(1,4) by linarith+
    ultimately show ?thesis using oi(3) by blast
  qed
  then show ?thesis using run by blast
qed

theorem heap_calls_safe_witness:
  "\<exists>s live. heap_calls [Acquire 100, Acquire 7, Release 0] (ex_heap, []) = Some (s, live)"
  using heap_calls_safe [OF ex_heap_static, of "[Acquire 100, Acquire 7, Release 0]"] by blast

text \<open>C22: When a run has released everything, the heap is one free block again: the free count is the
  whole area and the first free block spans it, so nothing leaks and no fragmentation is left.\<close>

theorem heap_no_leak:
  assumes "heap_static s0" "heap_calls cs (s0, []) = Some (s, [])" "hp_end s \<noteq> 0"
  shows "unat (xPortGetFreeHeapSize s) = heap_hi s0 - heap_lo s0 \<and> hp_next s (hp_xStart s) = of_nat (heap_lo s0) \<and>
    hp_next s (of_nat (heap_lo s0)) = hp_end s \<and> unat (hp_size s (of_nat (heap_lo s0))) = heap_hi s0 - heap_lo s0"
proof -
  have "run_inv s0 (s, [])" using heap_calls_inv [OF assms(1), of "(s0, [])" cs] assms(2) by (auto simp: run_inv_def)
  moreover have "s \<noteq> s0" using assms(1,3) by (auto simp: heap_static_def)
  ultimately obtain bs where inv: "heap_inv s (heap_lo s0) (heap_hi s0) bs" and u: "used_blocks bs = {}"
    by (auto simp: run_inv_def owns_nil)
  note h = heap_invD [OF inv] and ar = heap_area [OF assms(1)]
  have bs: "bs = [Blk (heap_lo s0) (heap_hi s0 - heap_lo s0) False]"
    by (rule all_free_single [OF h(2,3) u ar(5)])
  have lt: "heap_hi s0 - heap_lo s0 < 2 ^ 64" using ar(8) by simp
  have "unat (hp_free s) = heap_hi s0 - heap_lo s0" using h(7) bs unat_adr [OF lt] by simp
  moreover have "hp_size s (adr (heap_lo s0)) = adr (heap_hi s0 - heap_lo s0)" using h(5) by (simp add: bs free_sizes_def)
  then have "unat (hp_size s (adr (heap_lo s0))) = heap_hi s0 - heap_lo s0" using unat_adr [OF lt] by (simp only:)
  ultimately show ?thesis using h(4) heap_end(2) [OF inv] by (simp add: bs xPortGetFreeHeapSize_def)
qed

lemma ex_run_ends:
  "case heap_calls [Acquire 100, Acquire 7, Release 0, Release 0] (ex_heap, []) of
     Some (s, live) \<Rightarrow> live = [] \<and> hp_end s \<noteq> 0 | None \<Rightarrow> False"
  by code_simp

theorem heap_no_leak_witness:
  "\<exists>s. heap_calls [Acquire 100, Acquire 7, Release 0, Release 0] (ex_heap, []) = Some (s, []) \<and>
    unat (xPortGetFreeHeapSize s) = 0x3FFE0"
proof -
  obtain s where s: "heap_calls [Acquire 100, Acquire 7, Release 0, Release 0] (ex_heap, []) = Some (s, [])" "hp_end s \<noteq> 0"
    using ex_run_ends by (auto split: option.splits)
  have "heap_hi ex_heap - heap_lo ex_heap = 0x3FFE0" by (simp add: heap_hi_def heap_lo_def ex_heap_def)
  then show ?thesis using heap_no_leak [OF ex_heap_static s] s(1) by auto
qed

subsection \<open>Refinement of the row specification\<close>

definition ex_row :: "blk list" where
  "ex_row = [Blk (heap_lo ex_heap) (heap_hi ex_heap - heap_lo ex_heap) False]"

lemma ex_row: "heap_inv (prvHeapInit ex_heap) (heap_lo ex_heap) (heap_hi ex_heap) ex_row"
  "alloc_first (want 100) ex_row = Some (0x40000010, [Blk 0x40000010 128 True, Blk 0x40000090 0x3FF60 False])"
  unfolding ex_row_def
  by (rule heap_init_inv [OF ex_heap_static]) (simp add: ex_heap_def heap_lo_def heap_hi_def want_def)

text \<open>C12: On a set-up heap \<open>pvPortMalloc\<close> is first fit on the row of blocks: it hands out the block of
  the specification, split when the rest is larger than the minimum, and the heap then represents
  the specification's row; when no free block is large enough it returns the null pointer and
  changes nothing.\<close>

theorem pvPortMalloc_refines:
  assumes "heap_inv s lo hi bs" "0 < m" "m < 2 ^ 63"
  shows "case alloc_first (want m) bs of
      None \<Rightarrow> pvPortMalloc s (of_nat m) = Some (0, s)
    | Some (a, bs') \<Rightarrow> (\<exists>s'. pvPortMalloc s (of_nat m) = Some (of_nat (a + 16), s') \<and> heap_inv s' lo hi bs' \<and>
        hp_mem s' = hp_mem s \<and> hp_allocs s' = hp_allocs s + 1)"
  using malloc_full [OF assms] malloc_found [OF assms]
  by (auto simp: pvPortMalloc_def simp del: of_nat_add split: option.split)

theorem pvPortMalloc_refines_witness:
  "\<exists>s'. pvPortMalloc (prvHeapInit ex_heap) 100 = Some (0x40000020, s')"
  using pvPortMalloc_refines [OF ex_row(1), of 100] by (auto simp: ex_row(2))

text \<open>On a set-up heap \<open>vPortFree\<close> of a block that is handed out gives the row in which that block
  is free and joined with every free neighbour; the row stays without two free neighbours.\<close>

theorem vPortFree_refines:
  assumes "heap_inv s lo hi (l @ Blk a n True # r)"
  shows "\<exists>s'. vPortFree s (of_nat (a + 16)) = Some s' \<and> heap_inv s' lo hi (free_into l a n r) \<and>
    free_bytes (free_into l a n r) = free_bytes (l @ r) + n \<and> coalesced (free_into l a n r) \<and>
    hp_mem s' = hp_mem s \<and> hp_frees s' = hp_frees s + 1"
  using free_used [OF assms] free_into_coalesced [OF heap_invD(3) [OF assms]]
  by (auto simp: vPortFree_def free_into_bytes simp del: of_nat_add)

theorem vPortFree_refines_witness:
  "\<exists>s s'. heap_inv s (heap_lo ex_heap) (heap_hi ex_heap) ([] @ Blk 0x40000010 128 True # [Blk 0x40000090 0x3FF60 False]) \<and>
    vPortFree s (of_nat (0x40000010 + 16)) = Some s' \<and>
    heap_inv s' (heap_lo ex_heap) (heap_hi ex_heap) [Blk 0x40000010 0x3FFE0 False]"
proof -
  obtain s where s: "heap_inv s (heap_lo ex_heap) (heap_hi ex_heap) ([] @ Blk 0x40000010 128 True # [Blk 0x40000090 0x3FF60 False])"
    using malloc_found [OF ex_row(1) _ _ ex_row(2)] by auto
  have "free_into [] 0x40000010 128 [Blk 0x40000090 0x3FF60 False] = [Blk 0x40000010 0x3FFE0 False]"
    by (simp add: free_into_def join_right_def)
  then show ?thesis using vPortFree_refines [OF s] s by auto
qed

lemma malloc_free_row:
  assumes "heap_inv s lo hi bs" "0 < m" "m < 2 ^ 63" "pvPortMalloc s (of_nat m) = Some (p, s1)" "p \<noteq> 0"
  shows "\<exists>s2. vPortFree s1 p = Some s2 \<and> heap_inv s2 lo hi bs \<and> xPortGetFreeHeapSize s2 = xPortGetFreeHeapSize s"
proof -
  obtain a bs' where al: "alloc_first (want m) bs = Some (a, bs')"
    using malloc_full [OF assms(1-3)] assms(4,5) by (cases "alloc_first (want m) bs") (auto simp: pvPortMalloc_def)
  then obtain l n r where row: "bs = l @ Blk a n False # r" "want m \<le> n"
    "bs' = l @ (if 32 < n - want m then Blk a (want m) True # Blk (a + want m) (n - want m) False # r else Blk a n True # r)"
    using alloc_first_split by blast
  have p: "p = of_nat (a + 16)" "heap_inv s1 lo hi bs'"
    using malloc_found [OF assms(1-3) al] assms(4) by (auto simp: pvPortMalloc_def simp del: of_nat_add)
  have c: "l = [] \<or> b_used (last l)" "r = [] \<or> b_used (hd r)"
    using heap_invD(3) [OF assms(1)] row(1) by (auto simp: coalesced_append coalesced_Cons)
  obtain k r' where shape: "bs' = l @ Blk a k True # r'" "free_into l a k r' = bs"
  proof (cases "32 < n - want m")
    case True
    then show ?thesis using c(1) row
      by (intro that [of "want m" "Blk (a + want m) (n - want m) False # r"]) (auto simp: free_into_def join_right_def)
  next
    case False
    have "join_right (Blk a n False) r = Blk a n False # r" using c(2) by (cases r) (auto simp: join_right_def)
    then show ?thesis using c(1) row False by (intro that [of n r]) (auto simp: free_into_def)
  qed
  obtain s2 where s2: "internal_free s1 p = Some s2" "heap_inv s2 lo hi bs"
    using free_used [OF p(2) [unfolded shape(1)]] by (auto simp: shape(2) p(1) simp del: of_nat_add)
  then show ?thesis
    using heap_invD(7) [OF s2(2)] heap_invD(7) [OF assms(1)] by (simp add: vPortFree_def xPortGetFreeHeapSize_def)
qed

text \<open>Releasing a block right after it was handed out restores the row exactly: block boundaries,
  free blocks and the free count are those from before the allocation.\<close>

theorem malloc_free_restores:
  assumes "heap_inv s lo hi bs" "0 < m" "m < 2 ^ 63" "pvPortMalloc s (of_nat m) = Some (p, s1)" "p \<noteq> 0"
  shows "\<exists>s2. vPortFree s1 p = Some s2 \<and> heap_inv s2 lo hi bs \<and> xPortGetFreeHeapSize s2 = xPortGetFreeHeapSize s"
  by (rule malloc_free_row [OF assms])

theorem malloc_free_restores_witness:
  "\<exists>s1 s2. pvPortMalloc (prvHeapInit ex_heap) 100 = Some (0x40000020, s1) \<and> vPortFree s1 0x40000020 = Some s2 \<and>
    heap_inv s2 (heap_lo ex_heap) (heap_hi ex_heap) ex_row"
proof -
  obtain s1 where s1: "pvPortMalloc (prvHeapInit ex_heap) (of_nat 100) = Some (0x40000020, s1)"
    using malloc_found [OF ex_row(1) _ _ ex_row(2)] by (auto simp: pvPortMalloc_def)
  then show ?thesis using malloc_free_restores [OF ex_row(1) _ _ s1] by auto
qed

subsection \<open>Statistics\<close>

definition free_lens :: "blk list \<Rightarrow> u64 set" where
  "free_lens bs = (\<lambda>b. of_nat (b_len b)) ` {b \<in> set bs. \<not> b_used b}"

lemma free_lens_simps [simp]:
  "free_lens [] = {}" "free_lens (b # bs) = (if b_used b then free_lens bs else insert (of_nat (b_len b)) (free_lens bs))"
  by (auto simp: free_lens_def)

lemma free_lens_append: "free_lens (l @ r) = free_lens l \<union> free_lens r" "\<forall>b \<in> set l. b_used b \<Longrightarrow> free_lens l = {}"
  by (auto simp: free_lens_def)

lemma free_lens_finite [simp]: "finite (free_lens bs)"
  by (simp add: free_lens_def)

lemma stats_loop_spec:
  "fpath (hp_next s) (adr a) r (hp_end s) \<Longrightarrow> free_sizes s r \<Longrightarrow> adr a \<noteq> 0 \<Longrightarrow> hp_size s (adr a) = v \<Longrightarrow>
     \<forall>b \<in> set r. \<not> b_used b \<longrightarrow> adr (b_addr b) \<noteq> 0 \<and> adr (b_addr b) \<noteq> hp_end s \<Longrightarrow>
     stats_loop s (adr a) k mx mn = Some (k + 1 + of_nat (length (filter (\<lambda>b. \<not> b_used b) r)),
       Max (insert mx (insert v (free_lens r))), Min (insert mn (insert v (free_lens r))))"
proof (induction r arbitrary: a v k mx mn)
  case Nil
  then show ?case by (subst stats_loop.simps) (auto simp: blk_size_def max_def min_def)
next
  case (Cons b r)
  show ?case
  proof (cases "b_used b")
    case True
    then show ?thesis using Cons by (simp add: free_sizes_def)
  next
    case False
    have b: "hp_next s (adr a) = adr (b_addr b)" "fpath (hp_next s) (adr (b_addr b)) r (hp_end s)"
      "adr (b_addr b) \<noteq> 0" "adr (b_addr b) \<noteq> hp_end s" "hp_size s (adr (b_addr b)) = adr (b_len b)" "free_sizes s r"
      using Cons.prems False by (auto simp: free_sizes_def)
    have "stats_loop s (adr a) k mx mn = stats_loop s (adr (b_addr b)) (k + 1) (max mx v) (min mn v)"
      using Cons.prems(3,4) b(1,4) by (subst stats_loop.simps) (auto simp: blk_size_def max_def min_def)
    also have "\<dots> = Some (k + 1 + 1 + of_nat (length (filter (\<lambda>b. \<not> b_used b) r)),
        Max (insert (max mx v) (insert (adr (b_len b)) (free_lens r))), Min (insert (min mn v) (insert (adr (b_len b)) (free_lens r))))"
      by (rule Cons.IH [OF b(2,6,3,5)]) (use Cons.prems(5) in auto)
    also have "Max (insert (max mx v) (insert (adr (b_len b)) (free_lens r))) =
        Max (insert mx (insert v (insert (adr (b_len b)) (free_lens r))))" by (simp add: max.assoc)
    also have "Min (insert (min mn v) (insert (adr (b_len b)) (free_lens r))) =
        Min (insert mn (insert v (insert (adr (b_len b)) (free_lens r))))" by (simp add: min.assoc)
    finally show ?thesis using False by (simp add: ac_simps)
  qed
qed

lemma stats_first:
  "fpath nx p bs e \<Longrightarrow> \<exists>b \<in> set bs. \<not> b_used b \<Longrightarrow>
     \<exists>l a n r. bs = l @ Blk a n False # r \<and> (\<forall>b \<in> set l. b_used b) \<and> nx p = adr a \<and> fpath nx (adr a) r e"
proof (induction bs)
  case (Cons b bs)
  show ?case
  proof (cases "b_used b")
    case True
    then obtain l a n r where "bs = l @ Blk a n False # r" "\<forall>b \<in> set l. b_used b" "nx p = adr a" "fpath nx (adr a) r e"
      using Cons by auto
    then show ?thesis using True by (intro exI [of _ "b # l"] exI [of _ a] exI [of _ n] exI [of _ r]) auto
  next
    case False
    then show ?thesis using Cons.prems(1)
      by (intro exI [of _ "[]"] exI [of _ "b_addr b"] exI [of _ "b_len b"] exI [of _ bs]) (cases b, auto)
  qed
qed simp

text \<open>While a free block is left, \<open>vPortGetHeapStats\<close> reports the number of free blocks and the
  largest and the smallest of their lengths.\<close>

theorem heap_stats_correct:
  assumes "heap_inv s lo hi bs" "\<exists>b \<in> set bs. \<not> b_used b"
  shows "\<exists>st. vPortGetHeapStats s = Some st \<and>
    xNumberOfFreeBlocks st = of_nat (length (filter (\<lambda>b. \<not> b_used b) bs)) \<and>
    xSizeOfLargestFreeBlockInBytes st = Max (free_lens bs) \<and> xSizeOfSmallestFreeBlockInBytes st = Min (free_lens bs) \<and>
    xAvailableHeapSpaceInBytes st = of_nat (free_bytes bs)"
proof -
  note h = heap_invD [OF assms(1)] and e = heap_end [OF assms(1)]
  obtain l a n r where row: "bs = l @ Blk a n False # r" "\<forall>b \<in> set l. b_used b" "hp_next s (hp_xStart s) = adr a"
    "fpath (hp_next s) (adr a) r (hp_end s)"
    using stats_first [OF h(4) assms(2)] e(2) by metis
  have sz: "hp_size s (adr a) = adr n" "free_sizes s r" using h(5) row(1) by (auto simp: free_sizes_def)
  have nz: "adr a \<noteq> 0" "\<forall>b \<in> set r. \<not> b_used b \<longrightarrow> adr (b_addr b) \<noteq> 0 \<and> adr (b_addr b) \<noteq> hp_end s"
    using place_bounds(7,8) [OF h(1,2)] row(1) e(2) by force+
  have loop: "stats_loop s (adr a) 0 0 (- 1) = Some (0 + 1 + of_nat (length (filter (\<lambda>b. \<not> b_used b) r)),
      Max (insert 0 (insert (adr n) (free_lens r))), Min (insert (- 1) (insert (adr n) (free_lens r))))"
    by (rule stats_loop_spec [OF row(4) sz(2) nz(1) sz(1) nz(2)])
  have fl: "filter (\<lambda>b. \<not> b_used b) bs = Blk a n False # filter (\<lambda>b. \<not> b_used b) r" "free_lens bs = insert (adr n) (free_lens r)"
    using row(1,2) by (simp_all add: free_lens_append)
  have "Max (insert 0 (insert (adr n) (free_lens r))) = Max (insert (adr n) (free_lens r))"
    by (subst Max_insert) auto
  moreover have "Min (insert (- 1) (insert (adr n) (free_lens r))) = Min (insert (adr n) (free_lens r))"
    by (subst Min_insert) (auto simp: min_def word_order.extremum_unique)
  ultimately show ?thesis
    using nz(1) loop h(7) by (simp add: vPortGetHeapStats_def row(3) fl)
qed

theorem heap_stats_correct_witness:
  "\<exists>st. vPortGetHeapStats (prvHeapInit ex_heap) = Some st \<and> xNumberOfFreeBlocks st = 1 \<and>
    xSizeOfLargestFreeBlockInBytes st = 0x3FFE0"
  using heap_stats_correct [OF ex_row(1)] by (auto simp: ex_row_def ex_heap_def heap_lo_def heap_hi_def)

text \<open>When every block is handed out, \<open>vPortGetHeapStats\<close> follows the null link of the end marker:
  the call has no result.\<close>

theorem heap_stats_fault:
  assumes "heap_inv s lo hi bs" "\<forall>b \<in> set bs. b_used b"
  shows "vPortGetHeapStats s = None"
proof -
  note h = heap_invD [OF assms(1)] and e = heap_end [OF assms(1)]
  have p: "fpath (hp_next s) (hp_xStart s) bs (hp_end s) \<Longrightarrow> hp_next s (hp_xStart s) = hp_end s"
    using assms(2) by (induction bs) auto
  have "hp_next s (hp_end s) = 0" using h(1) by (simp add: place_ok_def)
  then have "stats_loop s (hp_end s) 0 0 (- 1) = None"
    using e(1) by (simp add: stats_loop.simps [of s "hp_end s"] stats_loop.simps [of s 0] blk_size_def)
  then show ?thesis using p h(4) e by (simp add: vPortGetHeapStats_def)
qed

theorem heap_stats_fault_witness:
  "\<exists>s1. pvPortMalloc (prvHeapInit ex_heap) 0x3FFD0 = Some (0x40000020, s1) \<and> vPortGetHeapStats s1 = None"
proof -
  have "alloc_first (want 0x3FFD0) ex_row = Some (0x40000010, [Blk 0x40000010 0x3FFE0 True])"
    by (simp add: ex_row_def ex_heap_def heap_lo_def heap_hi_def want_def)
  from malloc_found [OF ex_row(1) _ _ this]
  obtain s1 where s1: "internal_malloc (prvHeapInit ex_heap) 0x3FFD0 = Some (0x40000020, s1)"
    "heap_inv s1 (heap_lo ex_heap) (heap_hi ex_heap) [Blk 0x40000010 0x3FFE0 True]"
    by auto
  show ?thesis using heap_stats_fault [OF s1(2)] s1(1) by (simp add: pvPortMalloc_def)
qed

subsection \<open>Aligned blocks\<close>

lemma load32_store32: "load32 (store32 m a w) a = w"
proof (rule bit_word_eqI)
  fix n assume "n < LENGTH(32)"
  then have n: "n < 32" by simp
  consider "n < 8" | "8 \<le> n" "n < 16" | "16 \<le> n" "n < 24" | "24 \<le> n" by linarith
  then show "bit (load32 (store32 m a w) a) n = bit w n"
  proof cases
    case 4
    then have "24 + (n - 24) = n" "n - 24 < 8" "\<not> n < 8" "\<not> n - 8 < 8" "\<not> n - 16 < 8" using n by auto
    then show ?thesis using n 4 by (simp add: load32_def store32_cases bit_simps)
  qed (auto simp: load32_def store32_cases bit_simps)
qed

lemma load32_store32_above: "load32 (store32 m (a + 4) w) a = load32 m a"
  by (simp add: load32_def store32_cases)

lemma load64_store64: "load64 (store64 m a w) a = w"
  by (rule bit_word_eqI) (auto simp: load64_def store64_def load32_store32 load32_store32_above bit_simps)

lemma adr_and_not_mask:
  assumes "x < 2 ^ 64"
  shows "adr x AND NOT (mask j) = adr (x - x mod 2 ^ j)"
proof -
  have "unat (adr x AND NOT (mask j)) = x - x mod 2 ^ j"
    using unat_and_not_mask [of "adr x" j] assms by (simp add: unat_adr)
  then have "adr (unat (adr x AND NOT (mask j))) = adr (x - x mod 2 ^ j)" by (rule arg_cong)
  then show ?thesis by simp
qed

lemma round_up:
  fixes x A :: nat
  assumes "0 < A"
  defines "y \<equiv> x + (A - 1) - (x + (A - 1)) mod A"
  shows "A dvd y" "x \<le> y" "y \<le> x + (A - 1)"
proof -
  have "(x + (A - 1)) mod A < A" using assms(1) by simp
  then show "x \<le> y" "y \<le> x + (A - 1)" unfolding y_def using assms(1) by linarith+
  show "A dvd y" unfolding y_def by (simp add: minus_mod_eq_mult_div)
qed

lemma mask_power: "(2 :: u64) ^ k - 1 = mask k"
  by (simp add: mask_eq_decr_exp)

lemma align_up:
  assumes "x + 2 ^ k < 2 ^ 64"
  shows "(adr x + (2 ^ k - 1)) AND NOT (2 ^ k - 1) = adr (x + (2 ^ k - 1) - (x + (2 ^ k - 1)) mod 2 ^ k)"
proof -
  have "adr x + (2 ^ k - 1) = adr (x + (2 ^ k - 1))"
    by (subst of_nat_add, subst of_nat_diff) simp_all
  then show ?thesis using assms adr_and_not_mask [of "x + (2 ^ k - 1)" k] by (simp only: mask_power)
qed

lemma dvd_gap: "8 dvd y \<Longrightarrow> 8 dvd x \<Longrightarrow> y \<noteq> x \<Longrightarrow> x \<le> y \<Longrightarrow> x + 8 \<le> (y :: nat)"
  by (elim dvdE) simp

text \<open>Where the aligned pointer of \<open>pvPortMallocAlign\<close> lies behind the pointer of the block.\<close>

lemma aligned_ptr:
  assumes "16 dvd P" "3 \<le> k" "k \<le> 32" "P < 2 ^ 63"
  shows "\<exists>y. (if adr P AND (2 ^ k - 1) = 0 then adr P + 2 ^ k else (adr P + (2 ^ k - 1)) AND NOT (2 ^ k - 1)) = adr y \<and>
    2 ^ k dvd y \<and> P + 8 \<le> y \<and> y \<le> P + 2 ^ k"
proof -
  have A: "(2::nat) ^ k \<le> 2 ^ 32" "(2::nat) ^ 3 \<le> 2 ^ k" using assms(2,3) by (simp_all only: power_increasing one_le_numeral)
  have lt: "P + 2 ^ k < 2 ^ 64" using A(1) assms(4) by simp
  have uk: "unat ((2::u64) ^ k) = 2 ^ k" using unat_adr [of "2 ^ k"] A(1) by simp
  have m: "adr P AND (2 ^ k - 1) = 0 \<longleftrightarrow> 2 ^ k dvd P"
    using unat_and_mask_mod [OF uk, of "adr P"] assms(4) uk
    by (simp add: unat_eq_0 [symmetric] unat_adr dvd_eq_mod_eq_0)
  show ?thesis
  proof (cases "2 ^ k dvd P")
    case True
    then have "adr P AND (2 ^ k - 1) = 0" using m by blast
    moreover have "adr P + 2 ^ k = adr (P + 2 ^ k)" by simp
    moreover have "2 ^ k dvd P + 2 ^ k" using True by simp
    moreover have "P + 8 \<le> P + 2 ^ k" using A(2) by simp
    ultimately show ?thesis by (intro exI [of _ "P + 2 ^ k"] conjI) (simp_all only: if_True order_refl simp_thms)
  next
    case False
    let ?y = "P + (2 ^ k - 1) - (P + (2 ^ k - 1)) mod 2 ^ k"
    have y: "2 ^ k dvd ?y" "P \<le> ?y" "?y \<le> P + (2 ^ k - 1)" by (rule round_up; simp)+
    have "(8::nat) dvd 2 ^ k" using le_imp_power_dvd [OF assms(2), of 2] by simp
    then have "8 dvd ?y" using y(1) by (rule dvd_trans)
    moreover have "8 dvd P" using assms(1) by (rule dvd_trans [rotated]) simp
    moreover have "?y \<noteq> P" using y(1) False by auto
    ultimately have "P + 8 \<le> ?y" using y(2) dvd_gap by blast
    moreover have nm: "adr P AND (2 ^ k - 1) \<noteq> 0" using m False by blast
    moreover have "?y \<le> P + 2 ^ k" using y(3) by (rule order_trans) simp
    ultimately show ?thesis unfolding if_not_P [OF nm] align_up [OF lt] using y(1) by blast
  qed
qed

lemma alloc_first_in: "alloc_first w bs = Some (a, bs') \<Longrightarrow> \<exists>n. Blk a n True \<in> set bs' \<and> w \<le> n"
  using alloc_first_split [of w bs a bs'] by (auto split: if_splits intro: exI [of _ w])

lemma heap_inv_mem [simp]: "heap_inv (s\<lparr>hp_mem := v\<rparr>) lo hi bs = heap_inv s lo hi bs"
  by (simp add: heap_inv_def place_ok_def free_sizes_def used_hdrs_def)

text \<open>C23: For an alignment that is a power of two, a pointer from \<open>pvPortMallocAlign\<close> is aligned, the
  bytes asked for lie inside the block that was handed out, behind the word that keeps the block's own
  pointer, and \<open>vPortFreeAlign\<close> of it is \<open>vPortFree\<close> of that block.\<close>

theorem malloc_align_roundtrip:
  assumes "heap_inv s lo hi bs" "3 \<le> k" "k \<le> 32" "m \<le> 2 ^ 32"
    and "pvPortMallocAlign s (of_nat m) (2 ^ k) = Some (p, s1)" "p \<noteq> 0"
  shows "\<exists>a n bs'. heap_inv s1 lo hi bs' \<and> Blk a n True \<in> set bs' \<and> a + 24 \<le> unat p \<and> unat p + m \<le> a + n \<and>
    2 ^ k dvd unat p \<and> vPortFreeAlign s1 p = vPortFree s1 (of_nat (a + 16))"
proof -
  define m8 where "m8 = m + 7 - (m + 7) mod 8"
  have m8: "m \<le> m8" "m8 \<le> m + 7" using round_up [of 8 m] by (simp_all add: m8_def)
  have A: "(2::nat) ^ k \<le> 2 ^ 32" "(2::nat) ^ 3 \<le> 2 ^ k" using assms(2,3) by (simp_all only: power_increasing one_le_numeral)
  have al: "((2::u64) ^ k + (8 - 1)) AND NOT (8 - 1) = 2 ^ k"
  proof -
    have "8 dvd (2::nat) ^ k" using le_imp_power_dvd [OF assms(2), of 2] by simp
    then have "(2 ^ k + 7 - (2 ^ k + 7) mod 8 :: nat) = 2 ^ k" by (elim dvdE) (simp add: mod_add_left_eq [symmetric])
    then show ?thesis using align_up [of "2 ^ k" 3] A(1) by simp
  qed
  have sz: "((of_nat m + (8 - 1)) AND NOT (8 - 1)) + 2 ^ k = adr (m8 + 2 ^ k)"
    using align_up [of m 3] assms(4) by (simp add: m8_def)
  let ?M = "m8 + 2 ^ k"
  note unf = assms(5) [unfolded pvPortMallocAlign_def Let_def al sz]
  have M: "0 < ?M" "?M < 2 ^ 63" using A m8(2) assms(4) by simp_all
  obtain q s2 where q: "pvPortMalloc s (adr ?M) = Some (q, s2)" "q \<noteq> 0"
    using unf assms(6) by (cases "pvPortMalloc s (adr ?M)") (auto simp del: of_nat_add split: if_splits)
  obtain a bs' where ab: "alloc_first (want ?M) bs = Some (a, bs')"
    using malloc_full [OF assms(1) M] q by (cases "alloc_first (want ?M) bs") (auto simp: pvPortMalloc_def)
  have run: "q = adr (a + 16)" "heap_inv s2 lo hi bs'"
    using malloc_found [OF assms(1) M ab] q(1) by (auto simp: pvPortMalloc_def simp del: of_nat_add)
  obtain n where blk: "Blk a n True \<in> set bs'" "want ?M \<le> n"
    using alloc_first_in [OF ab] by blast
  note h = heap_invD(1,2) [OF run(2)]
  note pb = place_bounds [OF h blk(1), simplified]
  have "16 dvd a" using tiles_16 [OF h(2) _ blk(1)] h(1) by (simp add: place_ok_def)
  then have "16 dvd a + 16" by simp
  moreover have aM: "a + 16 + ?M \<le> a + n" using blk(2) want_bounds(1) [of ?M] by simp
  then have "a + 16 < 2 ^ 63" using pb(4) M(1) by simp
  ultimately obtain y where y: "(if q AND (2 ^ k - 1) = 0 then q + 2 ^ k else (q + (2 ^ k - 1)) AND NOT (2 ^ k - 1)) = adr y"
    "2 ^ k dvd y" "a + 16 + 8 \<le> y" "y \<le> a + 16 + 2 ^ k"
    using aligned_ptr [of "a + 16" k] assms(2,3) run(1) by blast
  have p: "p = adr y" "s1 = s2\<lparr>hp_mem := store64 (hp_mem s2) (p - 8) q\<rparr>"
    using unf by (auto simp add: q y(1) simp del: of_nat_add)
  have "unat p = y" unfolding p(1) by (rule unat_adr) (use y(4) aM pb(4) in simp)
  moreover have "vPortFreeAlign s1 p = vPortFree s1 q" by (simp add: vPortFreeAlign_def p(2) load64_store64)
  moreover have "heap_inv s1 lo hi bs'" using run(2) by (simp add: p(2))
  ultimately show ?thesis using y blk(1) aM m8(1) run(1) by (intro exI [of _ a] exI [of _ n] exI [of _ bs']) auto
qed

lemma ex_align:
  "case pvPortMallocAlign (prvHeapInit ex_heap) 100 64 of Some (p, s) \<Rightarrow> p = 0x40000040 | None \<Rightarrow> False"
  by code_simp

theorem malloc_align_roundtrip_witness:
  "\<exists>s1. pvPortMallocAlign (prvHeapInit ex_heap) 100 64 = Some (0x40000040, s1) \<and>
    (\<exists>a. vPortFreeAlign s1 0x40000040 = vPortFree s1 (of_nat (a + 16)))"
proof -
  obtain s1 where s1: "pvPortMallocAlign (prvHeapInit ex_heap) (of_nat 100) (2 ^ 6) = Some (0x40000040, s1)"
    using ex_align by (auto split: option.splits)
  then show ?thesis using malloc_align_roundtrip [OF ex_row(1) _ _ _ s1] by auto
qed

subsection \<open>Resizing\<close>

lemma unat_marked:
  assumes "n < 2 ^ 63"
  shows "unat (adr n OR push_bit 63 1) = n + 2 ^ 63"
proof -
  have "adr n OR push_bit 63 1 = adr n + push_bit 63 1"
    using word_plus_and_or [of "adr n" "push_bit 63 1"] by (simp only: top_bit(3) [OF assms] add_0)
  also have "\<dots> = adr (n + 2 ^ 63)" by simp
  finally show ?thesis using unat_adr [of "n + 2 ^ 63"] assms by (simp only:) simp
qed

lemma alloc_first_keeps:
  "alloc_first w bs = Some (a, bs') \<Longrightarrow> Blk c n True \<in> set bs \<Longrightarrow> Blk c n True \<in> set bs'"
  using alloc_first_split [of w bs a bs'] by (auto split: if_splits)

text \<open>\<open>pvPortRealloc\<close> of a live block always copies as many bytes as the new length asks for, however
  long the old block is (the old size is read with the allocated bit still set), then releases the
  old block; the heap stays well formed.\<close>

theorem realloc_copies_new_length:
  assumes "heap_inv s lo hi bs" "Blk a n True \<in> set bs" "0 < m" "m < 2 ^ 63"
    and "pvPortMalloc s (of_nat m) = Some (p, s1)" "p \<noteq> 0"
  shows "\<exists>s2 bs2. pvPortRealloc s (of_nat (a + 16)) (of_nat m) = Some (p, s2) \<and> heap_inv s2 lo hi bs2 \<and>
    hp_mem s2 = mem_copy (hp_mem s) p (of_nat (a + 16)) m"
proof -
  obtain c bs' where al: "alloc_first (want m) bs = Some (c, bs')"
    using malloc_full [OF assms(1,3,4)] assms(5,6) by (cases "alloc_first (want m) bs") (auto simp: pvPortMalloc_def)
  have s1: "heap_inv s1 lo hi bs'" "hp_mem s1 = hp_mem s"
    using malloc_found [OF assms(1,3,4) al] assms(5) by (auto simp: pvPortMalloc_def simp del: of_nat_add)
  have blk: "Blk a n True \<in> set bs'" by (rule alloc_first_keeps [OF al assms(2)])
  note h = heap_invD [OF s1(1)]
  note pb = place_bounds [OF h(1,2) blk, simplified]
  have n: "n < 2 ^ 63" "16 \<le> n" using pb(4,5) tiles_16n [OF h(2) blk] by (auto dest: dvd_imp_le)
  have nz: "adr (a + 16) \<noteq> 0" "adr m \<noteq> 0" using pb(3) assms(3,4) by (subst adr_zero; simp)+
  have hdr: "hp_size s1 (adr a) = adr n OR push_bit 63 1" using h(6) blk by (auto simp: used_hdrs_def)
  define v where "v = (adr n OR push_bit 63 1) - 16"
  have "unat v = n + 2 ^ 63 - 16" unfolding v_def
    by (subst unat_sub) (use unat_marked [OF n(1)] n(2) in \<open>auto simp: word_le_nat_alt\<close>)
  then have "\<not> v < adr m" using n(2) assms(4) by (simp add: word_less_nat_alt unat_adr)
  define s1' where "s1' = s1\<lparr>hp_mem := mem_copy (hp_mem s1) p (adr (a + 16)) m\<rparr>"
  obtain l r where row: "bs' = l @ Blk a n True # r" using split_list [OF blk] by blast
  have "heap_inv s1' lo hi (l @ Blk a n True # r)" using s1(1) by (simp add: s1'_def row)
  from free_used [OF this] obtain s2 where s2: "vPortFree s1' (adr (a + 16)) = Some s2"
    "heap_inv s2 lo hi (free_into l a n r)" "hp_mem s2 = hp_mem s1'"
    by (auto simp: vPortFree_def)
  have "adr (a + 16) - xHeapStructSize = adr a" by (simp add: heap_consts)
  then have "pvPortRealloc s (adr (a + 16)) (adr m) = Some (p, s2)"
    unfolding pvPortRealloc_def if_not_P [OF nz(1)] if_not_P [OF nz(2)] assms(5)
    using assms(4,6) pb(7) hdr s2(1) \<open>\<not> v < adr m\<close> [unfolded v_def]
    by (simp add: blk_size_def heap_consts s1'_def unat_adr Let_def del: of_nat_add)
  then show ?thesis using s2(2,3) s1(2) by (auto simp: s1'_def simp del: of_nat_add)
qed

lemma ex_realloc:
  "case pvPortMalloc (prvHeapInit ex_heap) 100 of Some (p, s) \<Rightarrow> p = 0x40000020 \<and>
     (case pvPortMalloc s 200 of Some (q, t) \<Rightarrow> q = 0x400000A0 | None \<Rightarrow> False) | None \<Rightarrow> False"
  by code_simp

theorem realloc_copies_new_length_witness:
  "\<exists>s t. pvPortMalloc (prvHeapInit ex_heap) 100 = Some (0x40000020, s) \<and>
    pvPortRealloc s 0x40000020 200 = Some (0x400000A0, t) \<and>
    hp_mem t = mem_copy (hp_mem s) 0x400000A0 0x40000020 200"
proof -
  obtain s t where st: "pvPortMalloc (prvHeapInit ex_heap) 100 = Some (0x40000020, s)"
    "pvPortMalloc s (of_nat 200) = Some (0x400000A0, t)"
    using ex_realloc by (auto split: option.splits)
  have inv: "heap_inv s (heap_lo ex_heap) (heap_hi ex_heap) [Blk 0x40000010 128 True, Blk 0x40000090 0x3FF60 False]"
    using malloc_found [OF ex_row(1) _ _ ex_row(2)] st(1) by (auto simp: pvPortMalloc_def)
  show ?thesis using realloc_copies_new_length [OF inv _ _ _ st(2), where a = "0x40000010" and n = "128"] st(1) by auto
qed

end
