(* ===== verification/Byte_Ring.thy ===== *)
theory Byte_Ring
  imports Prelude
begin

text \<open>
  Copying in and out of a circular array in at most two pieces, against the array read modulo
  its length. The storage areas of the stream buffers and of the queues are such arrays.
\<close>

text \<open>\<open>memcpy\<close> out of and into an array of items; a range outside it has no result.\<close>

definition copy_out :: "'x list \<Rightarrow> nat \<Rightarrow> nat \<Rightarrow> 'x list option" where
  "copy_out xs i n = (if i + n \<le> length xs then Some (take n (drop i xs)) else None)"

definition copy_in :: "'x list \<Rightarrow> nat \<Rightarrow> 'x list \<Rightarrow> 'x list option" where
  "copy_in xs i ys = (if i + length ys \<le> length xs then Some (take i xs @ ys @ drop (i + length ys) xs) else None)"

text \<open>The items of a circular array from position \<open>t\<close> on.\<close>

definition ring_items :: "'x list \<Rightarrow> nat \<Rightarrow> nat \<Rightarrow> 'x list" where
  "ring_items xs t n = map (\<lambda>i. xs ! ((t + i) mod length xs)) [0..<n]"

lemma ring_items_len [simp]: "length (ring_items xs t n) = n"
  by (simp add: ring_items_def)

lemma ring_items_0 [simp]: "ring_items xs t 0 = []"
  by (simp add: ring_items_def)

lemma ring_items_nth [simp]: "i < n \<Longrightarrow> ring_items xs t n ! i = xs ! ((t + i) mod length xs)"
  by (simp add: ring_items_def)

lemma ring_items_start: "ring_items xs (t mod length xs) n = ring_items xs t n"
  by (simp add: ring_items_def mod_add_left_eq)

lemma ring_items_drop: "k \<le> n \<Longrightarrow> drop k (ring_items xs t n) = ring_items xs (t + k) (n - k)"
  by (rule nth_equalityI) (auto simp: ac_simps)

lemma ring_items_take: "k \<le> n \<Longrightarrow> take k (ring_items xs t n) = ring_items xs t k"
  by (rule nth_equalityI) auto

lemma mod_once: "L \<le> x \<Longrightarrow> x < L + L \<Longrightarrow> x mod L = x - (L :: nat)"
  by (simp add: le_mod_geq)

lemma ring_items_pieces:
  assumes "t < length xs" "n \<le> length xs"
  shows "ring_items xs t n = take (min (length xs - t) n) (drop t xs) @ take (n - min (length xs - t) n) xs"
proof (rule nth_equalityI)
  fix i assume i: "i < length (ring_items xs t n)"
  show "ring_items xs t n ! i = (take (min (length xs - t) n) (drop t xs) @ take (n - min (length xs - t) n) xs) ! i"
  proof (cases "i < length xs - t")
    case True
    then show ?thesis using i assms by (auto simp: nth_append)
  next
    case False
    then have "(t + i) mod length xs = t + i - length xs" using i assms by (intro mod_once) auto
    then show ?thesis using False i assms by (auto simp: nth_append add.commute)
  qed
qed (use assms in auto)

text \<open>The array after the two pieces have been copied in at position \<open>h\<close>.\<close>

definition ring_put :: "'x list \<Rightarrow> nat \<Rightarrow> 'x list \<Rightarrow> 'x list" where
  "ring_put xs h ys =
     map (\<lambda>j. if (j + (length xs - h)) mod length xs < length ys
              then ys ! ((j + (length xs - h)) mod length xs) else xs ! j) [0..<length xs]"

lemma ring_put_len [simp]: "length (ring_put xs h ys) = length xs"
  by (simp add: ring_put_def)

lemma ring_put_pieces:
  assumes "h < length xs" "length ys \<le> length xs"
  defines "k \<equiv> min (length xs - h) (length ys)"
  shows "ring_put xs h ys = (let zs = take h xs @ take k ys @ drop (h + k) xs
    in drop k ys @ drop (length ys - k) zs)"
proof (rule nth_equalityI)
  show "length (ring_put xs h ys) = length (let zs = take h xs @ take k ys @ drop (h + k) xs in drop k ys @ drop (length ys - k) zs)"
    using assms by (auto simp: Let_def k_def min_def)
  fix j assume "j < length (ring_put xs h ys)"
  then have j: "j < length xs" by simp
  show "ring_put xs h ys ! j = (let zs = take h xs @ take k ys @ drop (h + k) xs in drop k ys @ drop (length ys - k) zs) ! j"
  proof (cases "j < h")
    case True
    then have "(j + (length xs - h)) mod length xs = j + (length xs - h)" using j assms by simp
    then show ?thesis using True j assms by (auto simp: ring_put_def Let_def k_def nth_append min_def add.commute)
  next
    case False
    then have "(j + (length xs - h)) mod length xs = j - h" using j assms by (subst mod_once) auto
    then show ?thesis using False j assms by (auto simp: ring_put_def Let_def k_def nth_append min_def)
  qed
qed

lemma ring_distance:
  assumes "t < L" "n \<le> L" "i < L"
  shows "((t + i) mod L + (L - (t + n) mod L)) mod L = (if i < n then i + L - n else i - (n :: nat))"
proof -
  have ti: "(t + i) mod L = (if t + i < L then t + i else t + i - L)" using assms by (auto intro: mod_once)
  have tn: "(t + n) mod L = (if t + n < L then t + n else t + n - L)" using assms by (auto intro: mod_once)
  show ?thesis
    unfolding ti tn using assms by (auto simp: mod_once split: if_splits) 
qed

lemma ring_put_items:
  assumes "t < length xs" "n + length ys \<le> length xs"
  shows "ring_items (ring_put xs ((t + n) mod length xs) ys) t (n + length ys) = ring_items xs t n @ ys"
proof (rule nth_equalityI)
  let ?L = "length xs" and ?h = "(t + n) mod length xs"
  fix i assume "i < length (ring_items (ring_put xs ?h ys) t (n + length ys))"
  then have i: "i < n + length ys" by simp
  have L: "0 < ?L" using assms(1) by linarith
  have h: "?h < ?L" using L by simp
  have m: "(t + i) mod ?L < ?L" using L by simp
  have "((t + i) mod ?L + (?L - ?h)) mod ?L = (if i < n then i + ?L - n else i - n)"
    by (rule ring_distance) (use assms i in auto)
  then show "ring_items (ring_put xs ?h ys) t (n + length ys) ! i = (ring_items xs t n @ ys) ! i"
    using i assms m L by (auto simp: ring_put_def nth_append)
qed simp

end
