(* ===== verification/Stream_Buffer.thy ===== *)
theory Stream_Buffer
  imports Byte_Ring Heap4
begin

text \<open>
  Stream and message buffers, \<^verbatim>\<open>FreeRTOS/Source/stream_buffer.c\<close>. The storage area is a list of
  bytes of its own, \<open>memcpy\<close> is \<open>copy_out\<close> and \<open>copy_in\<close>. A task handle is an address, 0 for none;
  \<open>sb_woken\<close> records the tasks that were notified, oldest first. A call that would wait either ends
  (\<open>Done\<close>) or stays \<open>Blocked\<close>: what happens while the caller waits is an argument, one \<open>wakeup\<close> per
  return from the wait, with what the other side did to the buffer and whether the time was up.
  \<open>configASSERT\<close> is empty in this configuration, so a failing assertion goes on. Critical sections
  and scheduler suspension are not represented; lengths are \<open>size_t\<close> and wrap around.
\<close>

record stream_buffer =
  sb_tail :: u64
  sb_head :: u64
  sb_length :: u64
  sb_trigger :: u64
  sb_wait_rx :: u64
  sb_wait_tx :: u64
  sb_buffer :: "u8 list"
  sb_flags :: u8
  sb_number :: u64
  sb_woken :: "u64 list"

definition sbBYTES_TO_STORE_MESSAGE_LENGTH :: u64 where "sbBYTES_TO_STORE_MESSAGE_LENGTH = 8"
definition sbFLAGS_IS_MESSAGE_BUFFER :: u8 where "sbFLAGS_IS_MESSAGE_BUFFER = 1"
definition sbFLAGS_IS_STATICALLY_ALLOCATED :: u8 where "sbFLAGS_IS_STATICALLY_ALLOCATED = 2"
definition sizeof_StreamBuffer :: u64 where "sizeof_StreamBuffer = 72"

lemmas sb_consts = sbBYTES_TO_STORE_MESSAGE_LENGTH_def sbFLAGS_IS_MESSAGE_BUFFER_def
  sbFLAGS_IS_STATICALLY_ALLOCATED_def sizeof_StreamBuffer_def

definition is_message_buffer :: "stream_buffer \<Rightarrow> bool" where
  "is_message_buffer s \<longleftrightarrow> sb_flags s AND sbFLAGS_IS_MESSAGE_BUFFER \<noteq> 0"

subsection \<open>Notifications\<close>

definition sbRECEIVE_COMPLETED :: "stream_buffer \<Rightarrow> stream_buffer" where
  "sbRECEIVE_COMPLETED s =
     (if sb_wait_tx s \<noteq> 0 then s\<lparr>sb_woken := sb_woken s @ [sb_wait_tx s], sb_wait_tx := 0\<rparr> else s)"

definition sbSEND_COMPLETED :: "stream_buffer \<Rightarrow> stream_buffer" where
  "sbSEND_COMPLETED s =
     (if sb_wait_rx s \<noteq> 0 then s\<lparr>sb_woken := sb_woken s @ [sb_wait_rx s], sb_wait_rx := 0\<rparr> else s)"

text \<open>The macros for interrupt handlers do the same to the buffer.\<close>

definition sbRECEIVE_COMPLETED_FROM_ISR :: "stream_buffer \<Rightarrow> stream_buffer" where
  "sbRECEIVE_COMPLETED_FROM_ISR s = sbRECEIVE_COMPLETED s"

definition sbSEND_COMPLETE_FROM_ISR :: "stream_buffer \<Rightarrow> stream_buffer" where
  "sbSEND_COMPLETE_FROM_ISR s = sbSEND_COMPLETED s"

definition xStreamBufferSendCompletedFromISR :: "stream_buffer \<Rightarrow> bool \<times> stream_buffer" where
  "xStreamBufferSendCompletedFromISR s =
     (if sb_wait_rx s \<noteq> 0 then (True, s\<lparr>sb_woken := sb_woken s @ [sb_wait_rx s], sb_wait_rx := 0\<rparr>) else (False, s))"

definition xStreamBufferReceiveCompletedFromISR :: "stream_buffer \<Rightarrow> bool \<times> stream_buffer" where
  "xStreamBufferReceiveCompletedFromISR s =
     (if sb_wait_tx s \<noteq> 0 then (True, s\<lparr>sb_woken := sb_woken s @ [sb_wait_tx s], sb_wait_tx := 0\<rparr>) else (False, s))"

subsection \<open>Counting, copying\<close>

definition prvBytesInBuffer :: "stream_buffer \<Rightarrow> u64" where
  "prvBytesInBuffer s =
     (let xCount = sb_length s + sb_head s;
          xCount = xCount - sb_tail s
      in if sb_length s \<le> xCount then xCount - sb_length s else xCount)"

definition xStreamBufferSpacesAvailable :: "stream_buffer \<Rightarrow> u64" where
  "xStreamBufferSpacesAvailable s =
     (let xSpace = sb_length s + sb_tail s;
          xSpace = xSpace - sb_head s;
          xSpace = xSpace - 1
      in if sb_length s \<le> xSpace then xSpace - sb_length s else xSpace)"

definition xStreamBufferBytesAvailable :: "stream_buffer \<Rightarrow> u64" where
  "xStreamBufferBytesAvailable s = prvBytesInBuffer s"

definition xStreamBufferIsEmpty :: "stream_buffer \<Rightarrow> bool" where
  "xStreamBufferIsEmpty s \<longleftrightarrow> sb_head s = sb_tail s"

definition xStreamBufferIsFull :: "stream_buffer \<Rightarrow> bool" where
  "xStreamBufferIsFull s \<longleftrightarrow>
     (let xBytesToStoreMessageLength = (if is_message_buffer s then sbBYTES_TO_STORE_MESSAGE_LENGTH else 0)
      in xStreamBufferSpacesAvailable s \<le> xBytesToStoreMessageLength)"

definition prvWriteBytesToBuffer :: "stream_buffer \<Rightarrow> u8 list \<Rightarrow> u64 \<Rightarrow> (u64 \<times> stream_buffer) option" where
  "prvWriteBytesToBuffer s pucData xCount = do {
     let xNextHead = sb_head s;
     let xFirstLength = min (sb_length s - xNextHead) xCount;
     chunk \<leftarrow> copy_out pucData 0 (unat xFirstLength);
     buf \<leftarrow> copy_in (sb_buffer s) (unat xNextHead) chunk;
     buf \<leftarrow> (if xFirstLength < xCount
             then Option.bind (copy_out pucData (unat xFirstLength) (unat (xCount - xFirstLength))) (copy_in buf 0)
             else Some buf);
     let xNextHead = xNextHead + xCount;
     let xNextHead = (if sb_length s \<le> xNextHead then xNextHead - sb_length s else xNextHead);
     Some (xCount, s\<lparr>sb_buffer := buf, sb_head := xNextHead\<rparr>) }"

text \<open>The second component is what is written to the caller's buffer.\<close>

definition prvReadBytesFromBuffer :: "stream_buffer \<Rightarrow> u64 \<Rightarrow> u64 \<Rightarrow> (u64 \<times> u8 list \<times> stream_buffer) option" where
  "prvReadBytesFromBuffer s xMaxCount xBytesAvailable =
     (let xCount = min xBytesAvailable xMaxCount
      in if 0 < xCount then do {
           let xNextTail = sb_tail s;
           let xFirstLength = min (sb_length s - xNextTail) xCount;
           chunk1 \<leftarrow> copy_out (sb_buffer s) (unat xNextTail) (unat xFirstLength);
           chunk2 \<leftarrow> (if xFirstLength < xCount then copy_out (sb_buffer s) 0 (unat (xCount - xFirstLength)) else Some []);
           let xNextTail = xNextTail + xCount;
           let xNextTail = (if sb_length s \<le> xNextTail then xNextTail - sb_length s else xNextTail);
           Some (xCount, chunk1 @ chunk2, s\<lparr>sb_tail := xNextTail\<rparr>) }
         else Some (xCount, [], s))"

text \<open>A \<open>size_t\<close> as the eight bytes of its representation, lowest first.\<close>

definition size_bytes :: "u64 \<Rightarrow> u8 list" where
  "size_bytes w = map (\<lambda>i. ucast (drop_bit (8 * i) w)) [0, 1, 2, 3, 4, 5, 6, 7]"

definition bytes_size :: "u8 list \<Rightarrow> u64" where
  "bytes_size bs = foldr (\<lambda>b w. ucast b OR push_bit 8 w) bs 0"

definition prvWriteMessageToBuffer ::
  "stream_buffer \<Rightarrow> u8 list \<Rightarrow> u64 \<Rightarrow> u64 \<Rightarrow> u64 \<Rightarrow> (u64 \<times> stream_buffer) option" where
  "prvWriteMessageToBuffer s pvTxData xDataLengthBytes xSpace xRequiredSpace = do {
     (xShouldWrite, xDataLengthBytes, s) \<leftarrow>
       (if xSpace = 0 then Some (False, xDataLengthBytes, s)
        else if \<not> is_message_buffer s then Some (True, min xDataLengthBytes xSpace, s)
        else if xRequiredSpace \<le> xSpace then do {
          (_, s) \<leftarrow> prvWriteBytesToBuffer s (size_bytes xDataLengthBytes) sbBYTES_TO_STORE_MESSAGE_LENGTH;
          Some (True, xDataLengthBytes, s) }
        else Some (False, xDataLengthBytes, s));
     if xShouldWrite then prvWriteBytesToBuffer s pvTxData xDataLengthBytes else Some (0, s) }"

definition prvReadMessageFromBuffer ::
  "stream_buffer \<Rightarrow> u64 \<Rightarrow> u64 \<Rightarrow> u64 \<Rightarrow> (u64 \<times> u8 list \<times> stream_buffer) option" where
  "prvReadMessageFromBuffer s xBufferLengthBytes xBytesAvailable xBytesToStoreMessageLength = do {
     (xNextMessageLength, xBytesAvailable, s) \<leftarrow>
       (if xBytesToStoreMessageLength \<noteq> 0 then do {
          let xOriginalTail = sb_tail s;
          (_, lenbytes, s) \<leftarrow> prvReadBytesFromBuffer s xBytesToStoreMessageLength xBytesAvailable;
          let xNextMessageLength = bytes_size lenbytes;
          let xBytesAvailable = xBytesAvailable - xBytesToStoreMessageLength;
          Some (if xBufferLengthBytes < xNextMessageLength
                then (0, xBytesAvailable, s\<lparr>sb_tail := xOriginalTail\<rparr>)
                else (xNextMessageLength, xBytesAvailable, s)) }
        else Some (xBufferLengthBytes, xBytesAvailable, s));
     prvReadBytesFromBuffer s xNextMessageLength xBytesAvailable }"

subsection \<open>Sending\<close>

record wakeup =
  wk_others :: "stream_buffer \<Rightarrow> stream_buffer"
  wk_timeout :: bool

datatype 'r sb_outcome = Done 'r stream_buffer | Blocked stream_buffer

text \<open>The do-while loop of the sender; it leaves with the space it last saw.\<close>

fun send_wait :: "u64 \<Rightarrow> u64 \<Rightarrow> wakeup list \<Rightarrow> stream_buffer \<Rightarrow> u64 sb_outcome" where
  "send_wait me xRequiredSpace ws s =
     (let xSpace = xStreamBufferSpacesAvailable s
      in if xSpace < xRequiredSpace then
           (let s = s\<lparr>sb_wait_tx := me\<rparr>
            in case ws of
                 [] \<Rightarrow> Blocked s
               | w # ws \<Rightarrow>
                   (let s = (wk_others w s)\<lparr>sb_wait_tx := 0\<rparr>
                    in if wk_timeout w then Done xSpace s else send_wait me xRequiredSpace ws s))
         else Done xSpace s)"

declare send_wait.simps [simp del]

text \<open>What every send does once it has stopped waiting.\<close>

definition send_now :: "(stream_buffer \<Rightarrow> stream_buffer) \<Rightarrow> stream_buffer \<Rightarrow> u8 list \<Rightarrow> u64 \<Rightarrow> u64 \<Rightarrow> u64 \<Rightarrow>
    (u64 \<times> stream_buffer) option" where
  "send_now completed s pvTxData xDataLengthBytes xSpace xRequiredSpace = do {
     (xReturn, s) \<leftarrow> prvWriteMessageToBuffer s pvTxData xDataLengthBytes xSpace xRequiredSpace;
     Some (xReturn, if 0 < xReturn
                    then (if sb_trigger s \<le> prvBytesInBuffer s then completed s else s)
                    else s) }"

definition xStreamBufferSend ::
  "u64 \<Rightarrow> wakeup list \<Rightarrow> stream_buffer \<Rightarrow> u8 list \<Rightarrow> u64 \<Rightarrow> u64 \<Rightarrow> u64 sb_outcome option" where
  "xStreamBufferSend me ws s pvTxData xDataLengthBytes xTicksToWait =
     (let xMaxReportedSpace = sb_length s - 1;
          xRequiredSpace = xDataLengthBytes;
          (xRequiredSpace, xTicksToWait) =
            (if is_message_buffer s
             then let r = xRequiredSpace + sbBYTES_TO_STORE_MESSAGE_LENGTH
                  in (r, if xMaxReportedSpace < r then 0 else xTicksToWait)
             else (if xMaxReportedSpace < xRequiredSpace then xMaxReportedSpace else xRequiredSpace, xTicksToWait))
      in case (if xTicksToWait \<noteq> 0 then send_wait me xRequiredSpace ws s else Done 0 s) of
           Blocked s \<Rightarrow> Some (Blocked s)
         | Done xSpace s \<Rightarrow> do {
             let xSpace = (if xSpace = 0 then xStreamBufferSpacesAvailable s else xSpace);
             (r, s) \<leftarrow> send_now sbSEND_COMPLETED s pvTxData xDataLengthBytes xSpace xRequiredSpace;
             Some (Done r s) })"

definition xStreamBufferSendFromISR :: "stream_buffer \<Rightarrow> u8 list \<Rightarrow> u64 \<Rightarrow> (u64 \<times> stream_buffer) option" where
  "xStreamBufferSendFromISR s pvTxData xDataLengthBytes =
     (let xRequiredSpace = xDataLengthBytes;
          xRequiredSpace = (if is_message_buffer s then xRequiredSpace + sbBYTES_TO_STORE_MESSAGE_LENGTH else xRequiredSpace);
          xSpace = xStreamBufferSpacesAvailable s
      in send_now sbSEND_COMPLETE_FROM_ISR s pvTxData xDataLengthBytes xSpace xRequiredSpace)"

subsection \<open>Receiving\<close>

definition message_header :: "stream_buffer \<Rightarrow> u64" where
  "message_header s = (if is_message_buffer s then sbBYTES_TO_STORE_MESSAGE_LENGTH else 0)"

definition receive_now :: "(stream_buffer \<Rightarrow> stream_buffer) \<Rightarrow> stream_buffer \<Rightarrow> u64 \<Rightarrow> u64 \<Rightarrow> u64 \<Rightarrow>
    (u64 \<times> u8 list \<times> stream_buffer) option" where
  "receive_now completed s xBufferLengthBytes xBytesAvailable hdr =
     (if hdr < xBytesAvailable then do {
        (n, bs, s) \<leftarrow> prvReadMessageFromBuffer s xBufferLengthBytes xBytesAvailable hdr;
        Some (n, bs, if n \<noteq> 0 then completed s else s) }
      else Some (0, [], s))"

text \<open>The receiver waits at most once; the result is the length and the bytes received.\<close>

definition xStreamBufferReceive ::
  "u64 \<Rightarrow> wakeup list \<Rightarrow> stream_buffer \<Rightarrow> u64 \<Rightarrow> u64 \<Rightarrow> (u64 \<times> u8 list) sb_outcome option" where
  "xStreamBufferReceive me ws s xBufferLengthBytes xTicksToWait =
     (let hdr = message_header s;
          xBytesAvailable = prvBytesInBuffer s
      in case (if xTicksToWait \<noteq> 0 then
                 if xBytesAvailable \<le> hdr then
                   (let s = s\<lparr>sb_wait_rx := me\<rparr>
                    in case ws of
                         [] \<Rightarrow> Blocked s
                       | w # ws \<Rightarrow> (let s = (wk_others w s)\<lparr>sb_wait_rx := 0\<rparr> in Done (prvBytesInBuffer s) s))
                 else Done xBytesAvailable s
               else Done xBytesAvailable s) of
           Blocked s \<Rightarrow> Some (Blocked s)
         | Done xBytesAvailable s \<Rightarrow> do {
             (n, bs, s) \<leftarrow> receive_now sbRECEIVE_COMPLETED s xBufferLengthBytes xBytesAvailable hdr;
             Some (Done (n, bs) s) })"

definition xStreamBufferReceiveFromISR :: "stream_buffer \<Rightarrow> u64 \<Rightarrow> (u64 \<times> u8 list \<times> stream_buffer) option" where
  "xStreamBufferReceiveFromISR s xBufferLengthBytes =
     (let hdr = message_header s;
          xBytesAvailable = prvBytesInBuffer s
      in receive_now sbRECEIVE_COMPLETED_FROM_ISR s xBufferLengthBytes xBytesAvailable hdr)"

definition xStreamBufferNextMessageLengthBytes :: "stream_buffer \<Rightarrow> (u64 \<times> stream_buffer) option" where
  "xStreamBufferNextMessageLengthBytes s =
     (if is_message_buffer s then
        let xBytesAvailable = prvBytesInBuffer s
        in if sbBYTES_TO_STORE_MESSAGE_LENGTH < xBytesAvailable then do {
             let xOriginalTail = sb_tail s;
             (_, bs, s) \<leftarrow> prvReadBytesFromBuffer s sbBYTES_TO_STORE_MESSAGE_LENGTH xBytesAvailable;
             Some (bytes_size bs, s\<lparr>sb_tail := xOriginalTail\<rparr>) }
           else Some (0, s)
      else Some (0, s))"

subsection \<open>Set-up and administration\<close>

definition prvInitialiseNewStreamBuffer :: "stream_buffer \<Rightarrow> u8 list \<Rightarrow> u64 \<Rightarrow> u64 \<Rightarrow> u8 \<Rightarrow> stream_buffer" where
  "prvInitialiseNewStreamBuffer s pucBuffer xBufferSizeBytes xTriggerLevelBytes ucFlags =
     s\<lparr>sb_tail := 0, sb_head := 0, sb_length := xBufferSizeBytes, sb_trigger := xTriggerLevelBytes, sb_wait_rx := 0,
       sb_wait_tx := 0, sb_buffer := pucBuffer, sb_flags := ucFlags, sb_number := 0\<rparr>"

definition raw_stream_buffer :: stream_buffer where
  "raw_stream_buffer = \<lparr>sb_tail = 0, sb_head = 0, sb_length = 0, sb_trigger = 0, sb_wait_rx = 0, sb_wait_tx = 0,
     sb_buffer = [], sb_flags = 0, sb_number = 0, sb_woken = []\<rparr>"

text \<open>The control block and the storage area come from one block of the heap; the storage holds what
  was in that memory.\<close>

definition xStreamBufferGenericCreate :: "heap4 \<Rightarrow> u64 \<Rightarrow> u64 \<Rightarrow> bool \<Rightarrow> (u64 \<times> stream_buffer option \<times> heap4) option" where
  "xStreamBufferGenericCreate h xBufferSizeBytes xTriggerLevelBytes xIsMessageBuffer = do {
     let ucFlags = (if xIsMessageBuffer then sbFLAGS_IS_MESSAGE_BUFFER else 0);
     let xTriggerLevelBytes = (if xTriggerLevelBytes = 0 then 1 else xTriggerLevelBytes);
     (pucAllocatedMemory, xBufferSizeBytes, h) \<leftarrow>
       (if xBufferSizeBytes < xBufferSizeBytes + 1 + sizeof_StreamBuffer
        then do { (p, h) \<leftarrow> pvPortMalloc h (xBufferSizeBytes + 1 + sizeof_StreamBuffer); Some (p, xBufferSizeBytes + 1, h) }
        else Some (0, xBufferSizeBytes, h));
     Some (pucAllocatedMemory,
       if pucAllocatedMemory \<noteq> 0
       then Some (prvInitialiseNewStreamBuffer raw_stream_buffer
              (map (\<lambda>i. hp_mem h (pucAllocatedMemory + sizeof_StreamBuffer + of_nat i)) [0..<unat xBufferSizeBytes])
              xBufferSizeBytes xTriggerLevelBytes ucFlags)
       else None, h) }"

text \<open>The storage of a static buffer is the caller's; \<open>None\<close> is a null pointer for it or for the control block.\<close>

definition xStreamBufferGenericCreateStatic ::
  "u64 \<Rightarrow> u64 \<Rightarrow> bool \<Rightarrow> u8 list option \<Rightarrow> u64 \<Rightarrow> u64 \<times> stream_buffer option" where
  "xStreamBufferGenericCreateStatic xBufferSizeBytes xTriggerLevelBytes xIsMessageBuffer storage pxStatic =
     (let xTriggerLevelBytes = (if xTriggerLevelBytes = 0 then 1 else xTriggerLevelBytes);
          ucFlags = (if xIsMessageBuffer then sbFLAGS_IS_MESSAGE_BUFFER OR sbFLAGS_IS_STATICALLY_ALLOCATED
                     else sbFLAGS_IS_STATICALLY_ALLOCATED)
      in case storage of
           Some buf \<Rightarrow>
             if pxStatic \<noteq> 0 then
               (let s = prvInitialiseNewStreamBuffer raw_stream_buffer buf xBufferSizeBytes xTriggerLevelBytes ucFlags
                in (pxStatic, Some (s\<lparr>sb_flags := sb_flags s OR sbFLAGS_IS_STATICALLY_ALLOCATED\<rparr>)))
             else (0, None)
         | None \<Rightarrow> (0, None))"

definition vStreamBufferDelete :: "heap4 \<Rightarrow> u64 \<Rightarrow> stream_buffer \<Rightarrow> (stream_buffer option \<times> heap4) option" where
  "vStreamBufferDelete h xStreamBuffer s =
     (if sb_flags s AND sbFLAGS_IS_STATICALLY_ALLOCATED = 0
      then do { h \<leftarrow> vPortFree h xStreamBuffer; Some (None, h) }
      else Some (Some (raw_stream_buffer\<lparr>sb_woken := sb_woken s\<rparr>), h))"

definition xStreamBufferReset :: "stream_buffer \<Rightarrow> bool \<times> stream_buffer" where
  "xStreamBufferReset s =
     (let uxStreamBufferNumber = sb_number s
      in if sb_wait_rx s = 0 then
           if sb_wait_tx s = 0 then
             (True, (prvInitialiseNewStreamBuffer s (sb_buffer s) (sb_length s) (sb_trigger s) (sb_flags s))
                \<lparr>sb_number := uxStreamBufferNumber\<rparr>)
           else (False, s)
         else (False, s))"

definition xStreamBufferSetTriggerLevel :: "stream_buffer \<Rightarrow> u64 \<Rightarrow> bool \<times> stream_buffer" where
  "xStreamBufferSetTriggerLevel s xTriggerLevel =
     (let xTriggerLevel = (if xTriggerLevel = 0 then 1 else xTriggerLevel)
      in if xTriggerLevel \<le> sb_length s then (True, s\<lparr>sb_trigger := xTriggerLevel\<rparr>) else (False, s))"

definition uxStreamBufferGetStreamBufferNumber :: "stream_buffer \<Rightarrow> u64" where
  "uxStreamBufferGetStreamBufferNumber s = sb_number s"

definition vStreamBufferSetStreamBufferNumber :: "stream_buffer \<Rightarrow> u64 \<Rightarrow> stream_buffer" where
  "vStreamBufferSetStreamBufferNumber s n = s\<lparr>sb_number := n\<rparr>"

definition ucStreamBufferGetStreamBufferType :: "stream_buffer \<Rightarrow> u8" where
  "ucStreamBufferGetStreamBufferType s = sb_flags s AND sbFLAGS_IS_MESSAGE_BUFFER"

end
