(* ===== verification/Stream_Proof.thy ===== *)
theory Stream_Proof
  imports Stream_Buffer
begin

text \<open>
  The stream buffer as a queue of bytes: the state invariant, the abstraction to the bytes held,
  and what writing, reading, sending and receiving do to it.
\<close>

definition sb_ok :: "stream_buffer \<Rightarrow> bool" where
  "sb_ok s \<longleftrightarrow> unat (sb_length s) = length (sb_buffer s) \<and> 0 < length (sb_buffer s) \<and> length (sb_buffer s) < 2 ^ 63 \<and>
     sb_head s < sb_length s \<and> sb_tail s < sb_length s"

definition sb_used :: "stream_buffer \<Rightarrow> nat" where
  "sb_used s = (unat (sb_head s) + length (sb_buffer s) - unat (sb_tail s)) mod length (sb_buffer s)"

definition sb_contents :: "stream_buffer \<Rightarrow> u8 list" where
  "sb_contents s = ring_items (sb_buffer s) (unat (sb_tail s)) (sb_used s)"

definition sb_room :: "stream_buffer \<Rightarrow> nat" where
  "sb_room s = length (sb_buffer s) - 1 - sb_used s"

lemma sb_okD:
  assumes "sb_ok s"
  shows "unat (sb_length s) = length (sb_buffer s)" "length (sb_buffer s) < 2 ^ 63" "0 < length (sb_buffer s)"
    "unat (sb_head s) < length (sb_buffer s)" "unat (sb_tail s) < length (sb_buffer s)" "sb_used s < length (sb_buffer s)"
  using assms by (auto simp: sb_ok_def sb_used_def word_less_nat_alt)

lemma sb_contents_len [simp]: "length (sb_contents s) = sb_used s"
  by (simp add: sb_contents_def)

lemma sb_used_cases:
  assumes "sb_ok s"
  shows "sb_used s = (if unat (sb_tail s) \<le> unat (sb_head s) then unat (sb_head s) - unat (sb_tail s)
    else unat (sb_head s) + length (sb_buffer s) - unat (sb_tail s))"
  using sb_okD [OF assms] by (auto simp: sb_used_def mod_once)

lemma sb_head_used:
  assumes "sb_ok s"
  shows "unat (sb_head s) = (unat (sb_tail s) + sb_used s) mod length (sb_buffer s)"
  using sb_okD [OF assms] by (auto simp: sb_used_cases [OF assms] mod_once)

lemma bytes_in_buffer:
  assumes "sb_ok s"
  shows "unat (prvBytesInBuffer s) = sb_used s"
proof -
  note d = sb_okD [OF assms]
  have a: "unat (sb_length s + sb_head s) = length (sb_buffer s) + unat (sb_head s)"
    using d by (subst unat_add_lt) auto
  then have b: "unat (sb_length s + sb_head s - sb_tail s) = length (sb_buffer s) + unat (sb_head s) - unat (sb_tail s)"
    using d by (subst unat_sub_le) (auto simp: word_le_nat_alt)
  show ?thesis
  proof (cases "unat (sb_tail s) \<le> unat (sb_head s)")
    case True
    then have "sb_length s \<le> sb_length s + sb_head s - sb_tail s" using b d by (simp add: word_le_nat_alt)
    then have "prvBytesInBuffer s = sb_length s + sb_head s - sb_tail s - sb_length s"
      and "unat (sb_length s + sb_head s - sb_tail s - sb_length s) = unat (sb_length s + sb_head s - sb_tail s) - unat (sb_length s)"
      by (simp_all only: prvBytesInBuffer_def Let_def if_True unat_sub_le)
    then show ?thesis using True b d by (simp only: sb_used_cases [OF assms]) simp
  next
    case False
    then have "\<not> sb_length s \<le> sb_length s + sb_head s - sb_tail s" using b d by (simp add: word_le_nat_alt)
    then show ?thesis using False b d by (simp add: prvBytesInBuffer_def Let_def sb_used_cases [OF assms])
  qed
qed

lemma spaces_available:
  assumes "sb_ok s"
  shows "unat (xStreamBufferSpacesAvailable s) = sb_room s"
proof -
  note d = sb_okD [OF assms]
  have a: "unat (sb_length s + sb_tail s) = length (sb_buffer s) + unat (sb_tail s)"
    using d by (subst unat_add_lt) auto
  then have "unat (sb_length s + sb_tail s - sb_head s) = length (sb_buffer s) + unat (sb_tail s) - unat (sb_head s)"
    using d by (subst unat_sub_le) (auto simp: word_le_nat_alt)
  then have b: "unat (sb_length s + sb_tail s - sb_head s - 1) = length (sb_buffer s) + unat (sb_tail s) - unat (sb_head s) - 1"
    using d by (subst unat_sub_le) (auto simp: word_le_nat_alt)
  show ?thesis
  proof (cases "unat (sb_tail s) \<le> unat (sb_head s)")
    case True
    then have "\<not> sb_length s \<le> sb_length s + sb_tail s - sb_head s - 1" using b d by (auto simp: word_le_nat_alt)
    then show ?thesis using True b d by (simp add: xStreamBufferSpacesAvailable_def Let_def sb_room_def sb_used_cases [OF assms])
  next
    case False
    then have "sb_length s \<le> sb_length s + sb_tail s - sb_head s - 1" using b d by (auto simp: word_le_nat_alt)
    then have "xStreamBufferSpacesAvailable s = sb_length s + sb_tail s - sb_head s - 1 - sb_length s"
      and "unat (sb_length s + sb_tail s - sb_head s - 1 - sb_length s) = unat (sb_length s + sb_tail s - sb_head s - 1) - unat (sb_length s)"
      by (simp_all only: xStreamBufferSpacesAvailable_def Let_def if_True unat_sub_le)
    then show ?thesis using False b d by (simp only: sb_room_def sb_used_cases [OF assms]) simp
  qed
qed

lemma sb_used_room: "sb_ok s \<Longrightarrow> sb_used s + sb_room s + 1 = length (sb_buffer s)"
  using sb_okD(6) [of s] by (simp add: sb_room_def)

text \<open>What a component of the state that is neither data nor index leaves alone.\<close>

lemma sb_frame [simp]:
  "sb_ok (s\<lparr>sb_wait_rx := x\<rparr>) = sb_ok s" "sb_contents (s\<lparr>sb_wait_rx := x\<rparr>) = sb_contents s"
  "sb_ok (s\<lparr>sb_wait_tx := x\<rparr>) = sb_ok s" "sb_contents (s\<lparr>sb_wait_tx := x\<rparr>) = sb_contents s"
  "sb_ok (s\<lparr>sb_woken := w\<rparr>) = sb_ok s" "sb_contents (s\<lparr>sb_woken := w\<rparr>) = sb_contents s"
  "sb_ok (s\<lparr>sb_trigger := x\<rparr>) = sb_ok s" "sb_contents (s\<lparr>sb_trigger := x\<rparr>) = sb_contents s"
  "sb_ok (s\<lparr>sb_number := x\<rparr>) = sb_ok s" "sb_contents (s\<lparr>sb_number := x\<rparr>) = sb_contents s"
  "sb_room (s\<lparr>sb_wait_rx := x\<rparr>) = sb_room s" "sb_room (s\<lparr>sb_wait_tx := x\<rparr>) = sb_room s"
  "sb_room (s\<lparr>sb_woken := w\<rparr>) = sb_room s"
  by (simp_all add: sb_ok_def sb_contents_def sb_used_def sb_room_def)

subsection \<open>Writing and reading bytes\<close>

lemma sb_usedI:
  assumes "unat (sb_head s) = (unat (sb_tail s) + u) mod length (sb_buffer s)" "u < length (sb_buffer s)"
    "unat (sb_tail s) < length (sb_buffer s)"
  shows "sb_used s = u"
  using assms by (cases "unat (sb_tail s) + u < length (sb_buffer s)") (auto simp: sb_used_def mod_once)

text \<open>Moving an index on by \<open>n\<close>, with the wrap-around of the code.\<close>

lemma unat_advance:
  assumes "unat h < unat L" "unat n \<le> unat L" "unat L < 2 ^ 63"
  shows "unat (if L \<le> h + n then h + n - L else h + n :: u64) = (unat h + unat n) mod unat L"
proof -
  have s: "unat (h + n) = unat h + unat n" using assms by (subst unat_add_lt) auto
  show ?thesis
  proof (cases "L \<le> h + n")
    case True
    then have "unat (h + n - L) = unat h + unat n - unat L" by (simp only: unat_sub_le s)
    then show ?thesis using True s assms by (simp add: word_le_nat_alt mod_once)
  next
    case False
    then show ?thesis using s by (simp add: word_le_nat_alt)
  qed
qed

lemma unat_first:
  assumes "unat h < unat L"
  shows "unat (min (L - h) n) = min (unat L - unat h) (unat (n :: u64))"
  using assms unat_sub_le [of h L] by (auto simp: min_def word_le_nat_alt)

lemma write_bytes:
  assumes ok: "sb_ok s" and n: "unat n \<le> length xs" "unat n \<le> sb_room s"
  shows "\<exists>s'. prvWriteBytesToBuffer s xs n = Some (n, s') \<and> sb_ok s' \<and> sb_contents s' = sb_contents s @ take (unat n) xs \<and>
    s' = s\<lparr>sb_buffer := sb_buffer s', sb_head := sb_head s'\<rparr>"
proof -
  note d = sb_okD [OF ok]
  define L where "L = length (sb_buffer s)"
  define h where "h = unat (sb_head s)"
  define m where "m = unat n"
  define k where "k = min (L - h) m"
  define ys where "ys = take m xs"
  define h' where "h' = (if sb_length s \<le> sb_head s + n then sb_head s + n - sb_length s else sb_head s + n)"
  define s' where "s' = s\<lparr>sb_buffer := ring_put (sb_buffer s) h ys, sb_head := h'\<rparr>"
  have sz: "length ys = m" "m \<le> L" "k \<le> m" "h < L" "h + k \<le> L" "m - k \<le> L" "sb_used s + m < L"
    using n d sb_used_room [OF ok] by (auto simp: ys_def m_def L_def h_def k_def)
  have first: "unat (min (sb_length s - sb_head s) n) = k" using unat_first [of "sb_head s" "sb_length s" n] d by (simp add: k_def L_def h_def m_def)
  have lt: "min (sb_length s - sb_head s) n < n \<longleftrightarrow> k < m" using first by (simp only: word_less_nat_alt m_def)
  have rest: "unat (n - min (sb_length s - sb_head s) n) = m - k"
    using first by (subst unat_sub_le) (simp_all add: m_def)
  let ?zs = "take h (sb_buffer s) @ take k ys @ drop (h + k) (sb_buffer s)"
  have out1: "copy_out xs 0 k = Some (take k ys)" using n(1) sz by (simp add: copy_out_def ys_def m_def min_def)
  have in1: "copy_in (sb_buffer s) h (take k ys) = Some ?zs" using sz by (simp add: copy_in_def L_def min_def)
  have two: "(if k < m then Option.bind (copy_out xs k (m - k)) (copy_in ?zs 0) else Some ?zs) = Some (ring_put (sb_buffer s) h ys)"
  proof -
    have out2: "copy_out xs k (m - k) = Some (drop k ys)" using n(1) sz by (simp add: copy_out_def ys_def m_def drop_take)
    have in2: "copy_in ?zs 0 (drop k ys) = Some (drop k ys @ drop (m - k) ?zs)" using sz by (simp add: copy_in_def L_def)
    have put: "ring_put (sb_buffer s) h ys = drop k ys @ drop (m - k) ?zs"
      using ring_put_pieces [of h "sb_buffer s" ys] sz by (simp add: Let_def k_def L_def)
    show ?thesis using out2 in2 put sz by (cases "k < m") simp_all
  qed
  have run: "prvWriteBytesToBuffer s xs n = Some (n, s')"
    unfolding prvWriteBytesToBuffer_def Let_def first lt rest h_def [symmetric]
    by (simp only: out1 in1 two Option.bind.simps s'_def h'_def)
  have h'2: "unat h' = (h + m) mod L"
    unfolding h'_def using unat_advance [of "sb_head s" "sb_length s" n] d sz by (simp add: h_def m_def L_def)
  have len: "length (sb_buffer s') = L" by (simp add: s'_def L_def)
  have head: "unat (sb_head s') = (unat (sb_tail s') + (sb_used s + m)) mod length (sb_buffer s')"
    using sb_head_used [OF ok] h'2 unfolding len by (simp add: s'_def h_def L_def mod_add_left_eq add.assoc)
  have used: "sb_used s' = sb_used s + m"
    by (rule sb_usedI [OF head]) (use sz d in \<open>simp_all add: s'_def L_def\<close>)
  have "sb_ok s'"
    using d h'2 sz by (auto simp: sb_ok_def s'_def word_less_nat_alt L_def)
  moreover have "sb_contents s' = sb_contents s @ ys"
    using ring_put_items [of "unat (sb_tail s)" "sb_buffer s" "sb_used s" ys] sz d sb_head_used [OF ok]
    unfolding sb_contents_def used by (simp add: s'_def h_def L_def)
  ultimately show ?thesis using run by (auto simp: s'_def ys_def m_def)
qed

lemma read_bytes:
  assumes ok: "sb_ok s" and n: "unat (min a m) \<le> sb_used s"
  shows "\<exists>s'. prvReadBytesFromBuffer s m a = Some (min a m, take (unat (min a m)) (sb_contents s), s') \<and> sb_ok s' \<and>
    sb_contents s' = drop (unat (min a m)) (sb_contents s) \<and> s' = s\<lparr>sb_tail := sb_tail s'\<rparr>"
proof -
  note d = sb_okD [OF ok]
  define c where "c = min a m"
  define L where "L = length (sb_buffer s)"
  define t where "t = unat (sb_tail s)"
  define t' where "t' = (if sb_length s \<le> sb_tail s + c then sb_tail s + c - sb_length s else sb_tail s + c)"
  define k where "k = min (L - t) (unat c)"
  have sz: "unat c \<le> sb_used s" "sb_used s < L" "t < L" "k \<le> unat c" "t + k \<le> L" "unat c - k \<le> L"
    using n d by (auto simp: c_def L_def t_def k_def)
  have t'2: "unat t' = (t + unat c) mod L"
    unfolding t'_def using unat_advance [of "sb_tail s" "sb_length s" c] d sz by (simp add: t_def L_def)
  have run: "prvReadBytesFromBuffer s m a = Some (c, take (unat c) (sb_contents s), s\<lparr>sb_tail := t'\<rparr>)"
  proof (cases "c = 0")
    case True
    have "t' = sb_tail s" unfolding t'_def using ok by (auto simp: True sb_ok_def)
    then show ?thesis using True by (simp add: prvReadBytesFromBuffer_def c_def [symmetric])
  next
    case False
    have first: "unat (min (sb_length s - sb_tail s) c) = k" using unat_first [of "sb_tail s" "sb_length s" c] d by (simp add: k_def L_def t_def)
    have lt: "min (sb_length s - sb_tail s) c < c \<longleftrightarrow> k < unat c" using first by (simp only: word_less_nat_alt)
    have rest: "unat (c - min (sb_length s - sb_tail s) c) = unat c - k"
      using first by (subst unat_sub_le) simp_all
    have out1: "copy_out (sb_buffer s) t k = Some (take k (drop t (sb_buffer s)))" using sz by (simp add: copy_out_def L_def)
    have out2: "(if k < unat c then copy_out (sb_buffer s) 0 (unat c - k) else Some []) = Some (take (unat c - k) (sb_buffer s))"
      using sz by (simp add: copy_out_def L_def)
    have items: "take (unat c) (sb_contents s) = take k (drop t (sb_buffer s)) @ take (unat c - k) (sb_buffer s)"
      unfolding sb_contents_def ring_items_take [OF sz(1)]
      using ring_items_pieces [of t "sb_buffer s" "unat c"] sz by (simp add: k_def L_def t_def)
    have "0 < c" using False by (simp add: word_gt_0)
    then show ?thesis
      unfolding prvReadBytesFromBuffer_def c_def [symmetric] Let_def first lt rest t_def [symmetric]
      by (simp only: if_True out1 out2 Option.bind.simps items t'_def)
  qed
  define s' where "s' = s\<lparr>sb_tail := t'\<rparr>"
  have len: "length (sb_buffer s') = L" by (simp add: s'_def L_def)
  have head: "unat (sb_head s') = (unat (sb_tail s') + (sb_used s - unat c)) mod length (sb_buffer s')"
  proof -
    have "(unat t' + (sb_used s - unat c)) mod L = (t + unat c + (sb_used s - unat c)) mod L"
      by (simp only: t'2 mod_add_left_eq)
    also have "t + unat c + (sb_used s - unat c) = t + sb_used s" using sz(1) by simp
    finally show ?thesis using sb_head_used [OF ok] unfolding len by (simp add: s'_def t_def L_def)
  qed
  have used: "sb_used s' = sb_used s - unat c"
    by (rule sb_usedI [OF head]) (use sz t'2 d(3) in \<open>simp_all add: s'_def L_def\<close>)
  have "sb_ok s'" using d t'2 sz by (auto simp: sb_ok_def s'_def word_less_nat_alt L_def)
  moreover have "sb_contents s' = drop (unat c) (sb_contents s)"
    unfolding sb_contents_def ring_items_drop [OF sz(1)] used
    using t'2 ring_items_start [of "sb_buffer s" "t + unat c" "sb_used s - unat c"] by (simp add: s'_def L_def t_def)
  ultimately show ?thesis using run by (auto simp: s'_def c_def)
qed

end
