(* ===== verification/Stream_Ops.thy ===== *)
theory Stream_Ops
  imports Stream_Proof Fifo
begin

text \<open>
  Sending and receiving against the bytes and the messages a buffer holds, and the byte queue of a
  stream buffer as an instance of the first-in first-out contract.
\<close>

subsection \<open>Message headers\<close>

lemma size_bytes_len [simp]: "length (size_bytes w) = 8"
  by (simp add: size_bytes_def)

lemma bytes_size_bytes [simp]: "bytes_size (size_bytes w) = w"
proof (rule bit_word_eqI)
  fix n assume "n < LENGTH(64)"
  then have "n < 64" by simp
  then have "n div 8 \<in> {0..<8}" "n = 8 * (n div 8) + n mod 8" "n mod 8 < 8" by auto
  then obtain q r where q: "n = 8 * q + r" "r < 8" "q = 0 \<or> q = 1 \<or> q = 2 \<or> q = 3 \<or> q = 4 \<or> q = 5 \<or> q = 6 \<or> q = 7"
    by fastforce
  then show "bit (bytes_size (size_bytes w)) n = bit w n"
    by (elim disjE) (auto simp: bytes_size_def size_bytes_def bit_simps)
qed

definition message_bytes :: "u8 list \<Rightarrow> u8 list" where
  "message_bytes m = size_bytes (of_nat (length m)) @ m"

definition sb_message :: "u8 list \<Rightarrow> bool" where
  "sb_message m \<longleftrightarrow> m \<noteq> [] \<and> length m < 2 ^ 62"

definition sb_holds :: "stream_buffer \<Rightarrow> u8 list list \<Rightarrow> bool" where
  "sb_holds s ms \<longleftrightarrow> sb_ok s \<and> is_message_buffer s \<and> sb_contents s = concat (map message_bytes ms) \<and>
     (\<forall>m \<in> set ms. sb_message m)"

definition sb_stream :: "stream_buffer \<Rightarrow> bool" where
  "sb_stream s \<longleftrightarrow> sb_ok s \<and> \<not> is_message_buffer s"

text \<open>What a change of data and indices leaves alone.\<close>

definition same_control :: "stream_buffer \<Rightarrow> stream_buffer \<Rightarrow> bool" where
  "same_control s s' \<longleftrightarrow> sb_length s' = sb_length s \<and> sb_flags s' = sb_flags s \<and> sb_trigger s' = sb_trigger s \<and>
     length (sb_buffer s') = length (sb_buffer s) \<and> sb_number s' = sb_number s"

lemma same_control_refl [simp]: "same_control s s"
  by (simp add: same_control_def)

lemma same_control_trans: "same_control r s \<Longrightarrow> same_control s t \<Longrightarrow> same_control r t"
  by (simp add: same_control_def)

lemma same_control_msg: "same_control s s' \<Longrightarrow> is_message_buffer s' = is_message_buffer s"
  by (simp add: same_control_def is_message_buffer_def)

lemma completed_frame [simp]:
  "sb_ok (sbSEND_COMPLETED s) = sb_ok s" "sb_contents (sbSEND_COMPLETED s) = sb_contents s" "same_control r (sbSEND_COMPLETED s) = same_control r s"
  "sb_ok (sbRECEIVE_COMPLETED s) = sb_ok s" "sb_contents (sbRECEIVE_COMPLETED s) = sb_contents s" "same_control r (sbRECEIVE_COMPLETED s) = same_control r s"
  "sb_room (sbSEND_COMPLETED s) = sb_room s" "sb_room (sbRECEIVE_COMPLETED s) = sb_room s"
  by (simp_all add: sbSEND_COMPLETED_def sbRECEIVE_COMPLETED_def same_control_def)

lemma write_control: "sb_ok s \<Longrightarrow> sb_ok s' \<Longrightarrow> s' = s\<lparr>sb_buffer := b, sb_head := h\<rparr> \<Longrightarrow> same_control s s'"
  by (auto simp: same_control_def sb_ok_def)

lemma read_control: "s' = s\<lparr>sb_tail := h\<rparr> \<Longrightarrow> same_control s s'"
  by (simp add: same_control_def)

lemma room_of_contents:
  assumes "sb_ok s" "sb_ok s'" "same_control s s'"
  shows "sb_room s' + length (sb_contents s') = sb_room s + length (sb_contents s)"
  using sb_used_room [OF assms(1)] sb_used_room [OF assms(2)] assms(3) by (simp add: same_control_def)

subsection \<open>Sending\<close>

lemma send_stream:
  assumes s: "sb_stream s" and n: "unat n \<le> length xs" and sp: "unat sp \<le> sb_room s"
  shows "\<exists>s'. send_now sbSEND_COMPLETED s xs n sp rq = Some (min n sp, s') \<and> sb_stream s' \<and>
    sb_contents s' = sb_contents s @ take (unat (min n sp)) xs \<and> same_control s s' \<and> sb_wait_tx s' = sb_wait_tx s"
proof (cases "sp = 0")
  case True
  then show ?thesis using s by (auto simp: send_now_def prvWriteMessageToBuffer_def)
next
  case False
  have ok: "sb_ok s" and k: "\<not> is_message_buffer s" using s by (auto simp: sb_stream_def)
  let ?r = "min n sp"
  have "unat ?r \<le> length xs" "unat ?r \<le> sb_room s" using n sp by (auto simp: min_def word_le_nat_alt)
  from write_bytes [OF ok this]
  obtain s' where s': "prvWriteBytesToBuffer s xs ?r = Some (?r, s')" "sb_ok s'"
    "sb_contents s' = sb_contents s @ take (unat ?r) xs" "s' = s\<lparr>sb_buffer := sb_buffer s', sb_head := sb_head s'\<rparr>"
    by blast
  have c: "same_control s s'" by (rule write_control [OF ok s'(2,4)])
  have w: "sb_wait_tx s' = sb_wait_tx s" by (subst s'(4)) simp
  have msg: "is_message_buffer s' = is_message_buffer s" "is_message_buffer (sbSEND_COMPLETED s') = is_message_buffer s"
    using same_control_msg [OF c] by (auto simp: sbSEND_COMPLETED_def is_message_buffer_def)
  show ?thesis
    using False k s'(1-3) c w msg
    by (auto simp: send_now_def prvWriteMessageToBuffer_def sb_stream_def) (auto simp: sbSEND_COMPLETED_def)
qed

text \<open>A message is written as a whole, behind its length, or not at all.\<close>

lemma send_message:
  assumes h: "sb_holds s ms" and m: "sb_message m" and sp: "unat sp \<le> sb_room s"
  shows "\<exists>s'. send_now sbSEND_COMPLETED s m (of_nat (length m)) sp (of_nat (length m) + sbBYTES_TO_STORE_MESSAGE_LENGTH) =
      Some (if length m + 8 \<le> unat sp then of_nat (length m) else 0, s') \<and>
    sb_holds s' (if length m + 8 \<le> unat sp then ms @ [m] else ms) \<and> same_control s s' \<and> sb_wait_tx s' = sb_wait_tx s"
proof -
  have ok: "sb_ok s" and k: "is_message_buffer s" using h by (auto simp: sb_holds_def)
  have len: "unat (of_nat (length m) :: u64) = length m" using m by (intro unat_of_nat_lt) (simp add: sb_message_def)
  have rq: "unat (of_nat (length m) + sbBYTES_TO_STORE_MESSAGE_LENGTH :: u64) = length m + 8"
    using m len by (subst unat_add_lt) (auto simp: sb_message_def sb_consts)
  have fit: "of_nat (length m) + sbBYTES_TO_STORE_MESSAGE_LENGTH \<le> sp \<longleftrightarrow> length m + 8 \<le> unat sp"
    by (simp only: word_le_nat_alt rq)
  show ?thesis
  proof (cases "length m + 8 \<le> unat sp")
    case False
    then show ?thesis using fit k h by (cases "sp = 0") (auto simp: send_now_def prvWriteMessageToBuffer_def)
  next
    case True
    have sp0: "sp \<noteq> 0" using True by auto
    have n0: "(0::u64) < of_nat (length m)" using m len by (simp add: word_less_nat_alt sb_message_def)
    have h8: "unat sbBYTES_TO_STORE_MESSAGE_LENGTH = 8" by (simp add: sb_consts)
    obtain s1 where s1: "prvWriteBytesToBuffer s (size_bytes (of_nat (length m))) sbBYTES_TO_STORE_MESSAGE_LENGTH =
        Some (sbBYTES_TO_STORE_MESSAGE_LENGTH, s1)" "sb_ok s1" "sb_contents s1 = sb_contents s @ size_bytes (of_nat (length m))"
      "s1 = s\<lparr>sb_buffer := sb_buffer s1, sb_head := sb_head s1\<rparr>"
      using write_bytes [OF ok, of sbBYTES_TO_STORE_MESSAGE_LENGTH "size_bytes (of_nat (length m))"] True sp h8 by auto
    have c1: "same_control s s1" by (rule write_control [OF ok s1(2,4)])
    have "sb_used s1 = sb_used s + 8" using arg_cong [OF s1(3), of length] by simp
    then have room1: "sb_room s1 = sb_room s - 8" using c1 by (simp add: sb_room_def same_control_def)
    obtain s2 where s2: "prvWriteBytesToBuffer s1 m (of_nat (length m)) = Some (of_nat (length m), s2)" "sb_ok s2"
      "sb_contents s2 = sb_contents s1 @ m" "s2 = s1\<lparr>sb_buffer := sb_buffer s2, sb_head := sb_head s2\<rparr>"
    proof -
      have "unat (of_nat (length m) :: u64) \<le> length m" "unat (of_nat (length m) :: u64) \<le> sb_room s1"
        using True sp room1 len by auto
      from write_bytes [OF s1(2) this] show thesis unfolding len take_all [OF order_refl] using that by blast
    qed
    have c2: "same_control s s2" using c1 write_control [OF s1(2) s2(2,4)] by (rule same_control_trans)
    have w: "sb_wait_tx s2 = sb_wait_tx s" by (subst s2(4), subst s1(4)) simp
    have run: "send_now sbSEND_COMPLETED s m (of_nat (length m)) sp (of_nat (length m) + sbBYTES_TO_STORE_MESSAGE_LENGTH) =
        Some (of_nat (length m), if sb_trigger s2 \<le> prvBytesInBuffer s2 then sbSEND_COMPLETED s2 else s2)"
      using sp0 k fit True s1(1) s2(1) n0 by (simp add: send_now_def prvWriteMessageToBuffer_def)
    have "sb_holds s2 (ms @ [m])"
      using h m s1(3) s2(2,3) same_control_msg [OF c2] by (auto simp: sb_holds_def message_bytes_def)
    moreover have "is_message_buffer (sbSEND_COMPLETED s2) = is_message_buffer s2"
      by (auto simp: sbSEND_COMPLETED_def is_message_buffer_def)
    ultimately have "sb_holds (if sb_trigger s2 \<le> prvBytesInBuffer s2 then sbSEND_COMPLETED s2 else s2) (ms @ [m])"
      by (auto simp: sb_holds_def)
    then show ?thesis using run True c2 w by (auto simp: sbSEND_COMPLETED_def same_control_def)
  qed
qed

subsection \<open>Receiving\<close>

lemma receive_stream:
  assumes s: "sb_stream s" and a: "unat a = sb_used s"
  shows "\<exists>s'. receive_now sbRECEIVE_COMPLETED s m a 0 = Some (min a m, take (unat m) (sb_contents s), s') \<and> sb_stream s' \<and>
    sb_contents s' = drop (unat m) (sb_contents s) \<and> same_control s s' \<and> sb_wait_rx s' = sb_wait_rx s"
proof (cases "a = 0")
  case True
  then have "sb_contents s = []" using a by (simp add: sb_contents_def)
  then show ?thesis using s True by (simp add: receive_now_def)
next
  case False
  have ok: "sb_ok s" and k: "\<not> is_message_buffer s" using s by (auto simp: sb_stream_def)
  have mn: "unat (min a m) = min (sb_used s) (unat m)" using a by (auto simp: min_def word_le_nat_alt)
  obtain s' where s': "prvReadBytesFromBuffer s m a = Some (min a m, take (unat (min a m)) (sb_contents s), s')" "sb_ok s'"
    "sb_contents s' = drop (unat (min a m)) (sb_contents s)" "s' = s\<lparr>sb_tail := sb_tail s'\<rparr>"
    using read_bytes [OF ok, of a m] mn by auto
  have td: "take (unat (min a m)) (sb_contents s) = take (unat m) (sb_contents s)"
    "drop (unat (min a m)) (sb_contents s) = drop (unat m) (sb_contents s)" unfolding mn by (simp_all add: min_def)
  have c: "same_control s s'" using s'(4) by (rule read_control)
  have w: "sb_wait_rx s' = sb_wait_rx s" by (subst s'(4)) simp
  have msg: "is_message_buffer s' = is_message_buffer s" "is_message_buffer (sbRECEIVE_COMPLETED s') = is_message_buffer s"
    using same_control_msg [OF c] by (auto simp: sbRECEIVE_COMPLETED_def is_message_buffer_def)
  have "0 < a" using False by (simp add: word_gt_0)
  then show ?thesis
    using s'(1-3) k c w msg td
    by (auto simp: receive_now_def prvReadMessageFromBuffer_def sb_stream_def) (auto simp: sbRECEIVE_COMPLETED_def)
qed

text \<open>The length of the message at the front is read, and the message if the caller's buffer can hold it.\<close>

lemma read_header:
  assumes h: "sb_holds s (m # ms)"
  shows "\<exists>s'. prvReadBytesFromBuffer s sbBYTES_TO_STORE_MESSAGE_LENGTH (prvBytesInBuffer s) =
      Some (sbBYTES_TO_STORE_MESSAGE_LENGTH, size_bytes (of_nat (length m)), s') \<and> sb_ok s' \<and>
    sb_contents s' = m @ concat (map message_bytes ms) \<and> s' = s\<lparr>sb_tail := sb_tail s'\<rparr> \<and>
    sbBYTES_TO_STORE_MESSAGE_LENGTH < prvBytesInBuffer s \<and> unat (prvBytesInBuffer s) = 8 + length m + length (concat (map message_bytes ms))"
proof -
  have ok: "sb_ok s" and m: "sb_message m" and ct: "sb_contents s = size_bytes (of_nat (length m)) @ m @ concat (map message_bytes ms)"
    using h by (auto simp: sb_holds_def message_bytes_def)
  have a: "unat (prvBytesInBuffer s) = 8 + length m + length (concat (map message_bytes ms))"
    using bytes_in_buffer [OF ok] arg_cong [OF ct, of length] by simp
  then have lt: "sbBYTES_TO_STORE_MESSAGE_LENGTH < prvBytesInBuffer s" using m by (auto simp: sb_consts word_less_nat_alt sb_message_def)
  then have mn: "min (prvBytesInBuffer s) sbBYTES_TO_STORE_MESSAGE_LENGTH = sbBYTES_TO_STORE_MESSAGE_LENGTH" by simp
  have h8: "unat sbBYTES_TO_STORE_MESSAGE_LENGTH = 8" by (simp add: sb_consts)
  show ?thesis
    using read_bytes [OF ok, of "prvBytesInBuffer s" sbBYTES_TO_STORE_MESSAGE_LENGTH] a bytes_in_buffer [OF ok] lt
    unfolding mn h8 ct by auto
qed

lemma receive_message:
  assumes h: "sb_holds s ms"
  shows "\<exists>s'. receive_now sbRECEIVE_COMPLETED s n (prvBytesInBuffer s) sbBYTES_TO_STORE_MESSAGE_LENGTH =
      Some (case ms of m # _ \<Rightarrow> if length m \<le> unat n then (of_nat (length m), m, s') else (0, [], s') | [] \<Rightarrow> (0, [], s')) \<and>
    sb_holds s' (case ms of m # ms' \<Rightarrow> if length m \<le> unat n then ms' else ms | [] \<Rightarrow> []) \<and> same_control s s' \<and>
    sb_wait_rx s' = sb_wait_rx s"
proof (cases ms)
  case Nil
  then have "unat (prvBytesInBuffer s) = 0" using h bytes_in_buffer [of s] sb_contents_len [of s] by (simp add: sb_holds_def)
  then have "prvBytesInBuffer s = 0" by (simp add: unat_eq_0)
  then show ?thesis using h Nil by (simp add: receive_now_def)
next
  case (Cons m rest)
  let ?a = "prvBytesInBuffer s" and ?h = "sbBYTES_TO_STORE_MESSAGE_LENGTH"
  have ok: "sb_ok s" and k: "is_message_buffer s" and m: "sb_message m" "\<forall>x \<in> set rest. sb_message x"
    using h Cons by (auto simp: sb_holds_def)
  obtain s1 where s1: "prvReadBytesFromBuffer s ?h ?a = Some (?h, size_bytes (of_nat (length m)), s1)" "sb_ok s1"
    "sb_contents s1 = m @ concat (map message_bytes rest)" "s1 = s\<lparr>sb_tail := sb_tail s1\<rparr>" "?h < ?a"
    "unat ?a = 8 + length m + length (concat (map message_bytes rest))"
    using read_header h Cons by blast
  have len: "unat (of_nat (length m) :: u64) = length m" using m(1) by (intro unat_of_nat_lt) (simp add: sb_message_def)
  have restored: "s1\<lparr>sb_tail := sb_tail s\<rparr> = s" by (subst s1(4)) simp
  have le: "n < of_nat (length m) \<longleftrightarrow> \<not> length m \<le> unat n" by (simp add: word_less_nat_alt len not_le)
  have hnz: "?h \<noteq> 0" by (simp add: sb_consts)
  show ?thesis
  proof (cases "length m \<le> unat n")
    case False
    have "prvReadBytesFromBuffer s 0 (?a - ?h) = Some (0, [], s)" by (simp add: prvReadBytesFromBuffer_def)
    then have "receive_now sbRECEIVE_COMPLETED s n ?a ?h = Some (0, [], s)"
      using s1(1,5) restored hnz False le by (simp add: receive_now_def prvReadMessageFromBuffer_def)
    then show ?thesis using False Cons h by simp
  next
    case True
    have a2: "unat (?a - ?h) = length m + length (concat (map message_bytes rest))"
      using s1(5,6) by (subst unat_sub_le) (auto simp: sb_consts)
    have mn: "min (?a - ?h) (of_nat (length m)) = of_nat (length m)"
      by (rule min_absorb2) (simp only: word_le_nat_alt a2 len le_add1)
    obtain s2 where s2: "prvReadBytesFromBuffer s1 (of_nat (length m)) (?a - ?h) = Some (of_nat (length m), m, s2)" "sb_ok s2"
      "sb_contents s2 = concat (map message_bytes rest)" "s2 = s1\<lparr>sb_tail := sb_tail s2\<rparr>"
    proof -
      have "unat (min (?a - ?h) (of_nat (length m))) \<le> sb_used s1"
        using arg_cong [OF s1(3), of length] unfolding mn len by simp
      from read_bytes [OF s1(2) this]
      have "\<exists>s'. prvReadBytesFromBuffer s1 (of_nat (length m)) (?a - ?h) = Some (of_nat (length m), m, s') \<and> sb_ok s' \<and>
          sb_contents s' = concat (map message_bytes rest) \<and> s' = s1\<lparr>sb_tail := sb_tail s'\<rparr>"
        unfolding mn len s1(3) by simp
      then show thesis using that by blast
    qed
    have c: "same_control s s2" by (rule same_control_trans [OF read_control [OF s1(4)] read_control [OF s2(4)]])
    have w: "sb_wait_rx s2 = sb_wait_rx s" by (subst s2(4), subst s1(4)) simp
    have nz: "of_nat (length m) \<noteq> (0 :: u64)" using len m(1) by (auto simp: sb_message_def unat_eq_0 [symmetric])
    have run: "receive_now sbRECEIVE_COMPLETED s n ?a ?h = Some (of_nat (length m), m, sbRECEIVE_COMPLETED s2)"
      using s1(1,5) s2(1) hnz True le nz by (simp add: receive_now_def prvReadMessageFromBuffer_def)
    have "sb_holds s2 rest" using k m(2) s2(2,3) same_control_msg [OF c] by (simp add: sb_holds_def)
    moreover have "is_message_buffer (sbRECEIVE_COMPLETED s2) = is_message_buffer s2"
      by (auto simp: sbRECEIVE_COMPLETED_def is_message_buffer_def)
    ultimately have "sb_holds (sbRECEIVE_COMPLETED s2) rest" by (simp add: sb_holds_def)
    moreover have "sb_wait_rx (sbRECEIVE_COMPLETED s2) = sb_wait_rx s" using w by (simp add: sbRECEIVE_COMPLETED_def)
    ultimately show ?thesis using run True Cons c by (intro exI [of _ "sbRECEIVE_COMPLETED s2"]) simp
  qed
qed

end
