(* ===== verification/Stream_Props.thy ===== *)
theory Stream_Props
  imports Stream_Ops Heap4_Props
begin

text \<open>
  The properties of stream and message buffers: transport without loss for any sequence of calls,
  whole messages, blocked senders, the life cycle on the heap, and two boundary cases.
\<close>

subsection \<open>The calls for interrupt handlers\<close>

lemma isr_completed: "sbSEND_COMPLETE_FROM_ISR = sbSEND_COMPLETED" "sbRECEIVE_COMPLETED_FROM_ISR = sbRECEIVE_COMPLETED"
  by (simp_all add: fun_eq_iff sbSEND_COMPLETE_FROM_ISR_def sbRECEIVE_COMPLETED_FROM_ISR_def)

lemma isr_send_stream:
  assumes "sb_stream s" "unat n \<le> length xs"
  shows "\<exists>s'. xStreamBufferSendFromISR s xs n = Some (min n (xStreamBufferSpacesAvailable s), s') \<and> sb_stream s' \<and>
    sb_contents s' = sb_contents s @ take (unat (min n (xStreamBufferSpacesAvailable s))) xs \<and> same_control s s'"
  using send_stream [OF assms, of "xStreamBufferSpacesAvailable s" n] assms spaces_available [of s]
  by (auto simp: xStreamBufferSendFromISR_def isr_completed sb_stream_def)

lemma isr_receive_stream:
  assumes "sb_stream s"
  shows "\<exists>s'. xStreamBufferReceiveFromISR s m = Some (min (prvBytesInBuffer s) m, take (unat m) (sb_contents s), s') \<and>
    sb_stream s' \<and> sb_contents s' = drop (unat m) (sb_contents s) \<and> same_control s s'"
  using receive_stream [OF assms, of "prvBytesInBuffer s" m] assms bytes_in_buffer [of s]
  by (auto simp: xStreamBufferReceiveFromISR_def isr_completed sb_stream_def message_header_def)

lemma isr_send_message:
  assumes "sb_holds s ms" "sb_message m"
  shows "\<exists>s'. xStreamBufferSendFromISR s m (of_nat (length m)) = Some (if length m + 8 \<le> sb_room s then of_nat (length m) else 0, s') \<and>
    sb_holds s' (if length m + 8 \<le> sb_room s then ms @ [m] else ms)"
  using send_message [OF assms, of "xStreamBufferSpacesAvailable s"] assms(1) spaces_available [of s]
  by (auto simp: xStreamBufferSendFromISR_def isr_completed sb_holds_def)

lemma isr_receive_message:
  assumes "sb_holds s ms"
  shows "\<exists>s'. xStreamBufferReceiveFromISR s n =
      Some (case ms of m # _ \<Rightarrow> if length m \<le> unat n then (of_nat (length m), m, s') else (0, [], s') | [] \<Rightarrow> (0, [], s')) \<and>
    sb_holds s' (case ms of m # ms' \<Rightarrow> if length m \<le> unat n then ms' else ms | [] \<Rightarrow> [])"
proof -
  have "message_header s = sbBYTES_TO_STORE_MESSAGE_LENGTH" using assms by (simp add: sb_holds_def message_header_def)
  then show ?thesis
    using receive_message [OF assms, of n] by (auto simp: xStreamBufferReceiveFromISR_def isr_completed)
qed

subsection \<open>Transport\<close>

datatype sb_op = SbSend "u8 list" | SbReceive u64

text \<open>A run of calls; it collects the bytes the buffer accepted and the bytes it gave out.\<close>

fun sb_run :: "sb_op list \<Rightarrow> stream_buffer \<Rightarrow> (u8 list \<times> u8 list \<times> stream_buffer) option" where
  "sb_run [] s = Some ([], [], s)"
| "sb_run (SbSend xs # ops) s = do {
     (r, s) \<leftarrow> xStreamBufferSendFromISR s xs (of_nat (length xs));
     (acc, out, s) \<leftarrow> sb_run ops s;
     Some (take (unat r) xs @ acc, out, s) }"
| "sb_run (SbReceive n # ops) s = do {
     (r, bs, s) \<leftarrow> xStreamBufferReceiveFromISR s n;
     (acc, out, s) \<leftarrow> sb_run ops s;
     Some (acc, bs @ out, s) }"

definition ex_stream :: "u8 \<Rightarrow> stream_buffer" where
  "ex_stream f = prvInitialiseNewStreamBuffer raw_stream_buffer (replicate 17 0) 17 1 f"

lemma ex_stream_ok: "sb_stream (ex_stream 0)" "sb_contents (ex_stream 0) = []" "sb_holds (ex_stream 1) []"
  by (simp_all add: ex_stream_def sb_stream_def sb_holds_def sb_ok_def prvInitialiseNewStreamBuffer_def raw_stream_buffer_def
      is_message_buffer_def sbFLAGS_IS_MESSAGE_BUFFER_def sb_contents_def sb_used_def)

text \<open>C5: For any sequence of sends and receives on a stream buffer every call returns, and the bytes it
  held at first followed by the bytes it accepted are the bytes it gave out followed by the bytes it
  holds at the end: nothing is lost, duplicated or reordered, across the wrap-around of the indices.\<close>

theorem stream_transport:
  assumes "sb_stream s" "\<And>xs. SbSend xs \<in> set ops \<Longrightarrow> length xs < 2 ^ 64"
  shows "\<exists>acc out s'. sb_run ops s = Some (acc, out, s') \<and> sb_stream s' \<and> sb_contents s @ acc = out @ sb_contents s'"
  using assms
proof (induction ops arbitrary: s)
  case (Cons op ops)
  show ?case
  proof (cases op)
    case (SbSend xs)
    then have "unat (of_nat (length xs) :: u64) \<le> length xs" using Cons.prems(2) [of xs] by (simp add: unat_of_nat_lt)
    from isr_send_stream [OF Cons.prems(1) this] obtain r s1 where s1: "xStreamBufferSendFromISR s xs (of_nat (length xs)) = Some (r, s1)"
      "sb_stream s1" "sb_contents s1 = sb_contents s @ take (unat r) xs" by blast
    then show ?thesis using Cons.IH [OF s1(2)] Cons.prems(2) SbSend by auto
  next
    case (SbReceive n)
    obtain r s1 where s1: "xStreamBufferReceiveFromISR s n = Some (r, take (unat n) (sb_contents s), s1)"
      "sb_stream s1" "sb_contents s1 = drop (unat n) (sb_contents s)" using isr_receive_stream [OF Cons.prems(1)] by blast
    obtain acc out s' where r: "sb_run ops s1 = Some (acc, out, s')" "sb_stream s'" "sb_contents s1 @ acc = out @ sb_contents s'"
      using Cons.IH [OF s1(2)] Cons.prems(2) by auto
    have "sb_contents s @ acc = take (unat n) (sb_contents s) @ sb_contents s1 @ acc" using s1(3) by simp
    then show ?thesis using SbReceive s1(1) r by simp
  qed
qed simp

definition ex_calls :: "sb_op list" where
  "ex_calls = [SbSend [1, 2, 3], SbReceive 2, SbReceive 8, SbSend [4, 5]]"

theorem stream_transport_witness:
  "\<exists>acc out s'. sb_run ex_calls (ex_stream 0) = Some (acc, out, s') \<and> acc = out @ sb_contents s'"
proof -
  have "length xs < 2 ^ 64" if "SbSend xs \<in> set ex_calls" for xs using that by (auto simp: ex_calls_def)
  from stream_transport [of "ex_stream 0" ex_calls, OF ex_stream_ok(1) this] show ?thesis by (auto simp: ex_stream_ok(2))
qed

text \<open>The same for messages: what a send accepted and what a receive gave out are whole messages.\<close>

fun mb_run :: "sb_op list \<Rightarrow> stream_buffer \<Rightarrow> (u8 list list \<times> u8 list list \<times> stream_buffer) option" where
  "mb_run [] s = Some ([], [], s)"
| "mb_run (SbSend m # ops) s = do {
     (r, s) \<leftarrow> xStreamBufferSendFromISR s m (of_nat (length m));
     (acc, out, s) \<leftarrow> mb_run ops s;
     Some (if r = 0 then acc else m # acc, out, s) }"
| "mb_run (SbReceive n # ops) s = do {
     (r, bs, s) \<leftarrow> xStreamBufferReceiveFromISR s n;
     (acc, out, s) \<leftarrow> mb_run ops s;
     Some (acc, if r = 0 then out else bs # out, s) }"

lemma message_count: "sb_message m \<Longrightarrow> of_nat (length m) \<noteq> (0 :: u64)"
  using unat_of_nat_lt [of "length m", where ?'a = 64] by (auto simp: sb_message_def unat_eq_0 [symmetric])

text \<open>C24: For any sequence of sends and receives on a message buffer every call returns, and the messages
  it held at first followed by those it accepted are those it gave out followed by those it holds: a
  message is taken whole or refused, and one that the caller's buffer cannot hold stays at the front.\<close>

theorem message_transport:
  assumes "sb_holds s ms" "\<And>m. SbSend m \<in> set ops \<Longrightarrow> sb_message m"
  shows "\<exists>acc out s' ms'. mb_run ops s = Some (acc, out, s') \<and> sb_holds s' ms' \<and> ms @ acc = out @ ms'"
  using assms
proof (induction ops arbitrary: s ms)
  case (Cons op ops)
  show ?case
  proof (cases op)
    case (SbSend m)
    then have m: "sb_message m" using Cons.prems(2) by simp
    obtain s1 where s1: "xStreamBufferSendFromISR s m (of_nat (length m)) = Some (if length m + 8 \<le> sb_room s then of_nat (length m) else 0, s1)"
      "sb_holds s1 (if length m + 8 \<le> sb_room s then ms @ [m] else ms)" using isr_send_message [OF Cons.prems(1) m] by blast
    obtain acc out s' ms' where "mb_run ops s1 = Some (acc, out, s')" "sb_holds s' ms'"
      "(if length m + 8 \<le> sb_room s then ms @ [m] else ms) @ acc = out @ ms'"
      using Cons.IH [OF s1(2)] Cons.prems(2) by auto
    then show ?thesis using s1(1) SbSend message_count [OF m] by (auto split: if_splits)
  next
    case (SbReceive n)
    let ?rest = "case ms of m # ms' \<Rightarrow> if length m \<le> unat n then ms' else ms | [] \<Rightarrow> []"
    obtain s1 where s1: "xStreamBufferReceiveFromISR s n =
        Some (case ms of m # _ \<Rightarrow> if length m \<le> unat n then (of_nat (length m), m, s1) else (0, [], s1) | [] \<Rightarrow> (0, [], s1))"
      "sb_holds s1 ?rest" using isr_receive_message [OF Cons.prems(1)] by blast
    obtain acc out s' ms' where r: "mb_run ops s1 = Some (acc, out, s')" "sb_holds s' ms'" "?rest @ acc = out @ ms'"
      using Cons.IH [OF s1(2)] Cons.prems(2) by auto
    have "\<forall>m \<in> set ms. of_nat (length m) \<noteq> (0 :: u64)" using Cons.prems(1) message_count by (auto simp: sb_holds_def)
    then show ?thesis using SbReceive s1(1) r by (auto split: list.splits if_splits)
  qed
qed auto

theorem message_transport_witness:
  "\<exists>acc out s' ms'. mb_run ex_calls (ex_stream 1) = Some (acc, out, s') \<and> acc = out @ ms'"
proof -
  have "sb_message m" if "SbSend m \<in> set ex_calls" for m using that by (auto simp: ex_calls_def sb_message_def)
  from message_transport [of "ex_stream 1" "[]" ex_calls, OF ex_stream_ok(3) this] show ?thesis by auto
qed

subsection \<open>Blocked senders\<close>

text \<open>The reader side, as the sender sees it on return from a wait: bytes were taken from the front.\<close>

definition reader_step :: "(stream_buffer \<Rightarrow> stream_buffer) \<Rightarrow> bool" where
  "reader_step f \<longleftrightarrow> (\<forall>s. sb_ok s \<longrightarrow> sb_ok (f s) \<and> same_control s (f s) \<and> (\<exists>k. sb_contents (f s) = drop k (sb_contents s)))"

lemma sb_outcome_mono:
  "case x of Blocked s \<Rightarrow> B s | Done r s \<Rightarrow> D r s \<Longrightarrow> (\<And>r s. D r s \<Longrightarrow> D' r s) \<Longrightarrow>
     case x of Blocked s \<Rightarrow> B s | Done r s \<Rightarrow> D' r s"
  by (cases x) auto

lemma send_wait_reader:
  "sb_stream s \<Longrightarrow> \<forall>w \<in> set ws. reader_step (wk_others w) \<Longrightarrow>
     (case send_wait me rq ws s of
        Blocked s' \<Rightarrow> sb_stream s' \<and> (\<exists>k. sb_contents s' = drop k (sb_contents s)) \<and> sb_wait_tx s' = me
      | Done sp s' \<Rightarrow> sb_stream s' \<and> (\<exists>k. sb_contents s' = drop k (sb_contents s)) \<and> same_control s s' \<and>
          unat sp \<le> sb_room s' \<and> ((\<forall>w \<in> set ws. \<not> wk_timeout w) \<longrightarrow> rq \<le> sp))"
proof (induction ws arbitrary: s)
  case Nil
  then show ?case
    using spaces_available [of s] by (subst send_wait.simps) (auto simp: Let_def sb_stream_def is_message_buffer_def intro: exI [of _ 0])
next
  case (Cons w ws)
  have ok: "sb_ok s" using Cons.prems(1) by (simp add: sb_stream_def)
  show ?case
  proof (cases "xStreamBufferSpacesAvailable s < rq")
    case False
    then show ?thesis using Cons.prems spaces_available [OF ok] by (subst send_wait.simps) (auto simp: Let_def intro: exI [of _ 0])
  next
    case True
    let ?s0 = "s\<lparr>sb_wait_tx := me\<rparr>" let ?s1 = "(wk_others w ?s0)\<lparr>sb_wait_tx := 0\<rparr>"
    have "sb_ok ?s0" using ok by simp
    moreover have "reader_step (wk_others w)" using Cons.prems(2) by simp
    ultimately have "sb_ok (wk_others w ?s0) \<and> same_control ?s0 (wk_others w ?s0) \<and>
        (\<exists>k. sb_contents (wk_others w ?s0) = drop k (sb_contents ?s0))"
      unfolding reader_step_def by blast
    then obtain k where f: "sb_ok (wk_others w ?s0)" "same_control ?s0 (wk_others w ?s0)"
      "sb_contents (wk_others w ?s0) = drop k (sb_contents s)" by auto
    have c: "same_control s ?s1" using f(2) by (simp add: same_control_def)
    have s1: "sb_stream ?s1" "sb_contents ?s1 = drop k (sb_contents s)"
      using f(1,3) same_control_msg [OF c] Cons.prems(1) by (auto simp: sb_stream_def)
    have room: "sb_room s \<le> sb_room ?s1" 
    proof -
      have "sb_ok ?s1" using s1(1) unfolding sb_stream_def by blast
      moreover have "length (sb_contents ?s1) = length (sb_contents s) - k" by (simp only: s1(2) length_drop)
      ultimately show ?thesis using room_of_contents [OF ok _ c] by linarith
    qed
    show ?thesis
    proof (cases "wk_timeout w")
      case timeout: True
      then show ?thesis using True s1 c room spaces_available [OF ok] by (subst send_wait.simps) (auto simp: Let_def)
    next
      case more: False
      have IH: "case send_wait me rq ws ?s1 of
          Blocked s' \<Rightarrow> sb_stream s' \<and> (\<exists>k. sb_contents s' = drop k (sb_contents ?s1)) \<and> sb_wait_tx s' = me
        | Done sp s' \<Rightarrow> sb_stream s' \<and> (\<exists>k. sb_contents s' = drop k (sb_contents ?s1)) \<and> same_control ?s1 s' \<and>
            unat sp \<le> sb_room s' \<and> ((\<forall>w \<in> set ws. \<not> wk_timeout w) \<longrightarrow> rq \<le> sp)"
        by (rule Cons.IH [OF s1(1)]) (use Cons.prems(2) in simp)
      have run: "send_wait me rq (w # ws) s = send_wait me rq ws ?s1"
        using True more by (subst send_wait.simps) (simp add: Let_def)
      show ?thesis
        using IH same_control_trans [OF c] more unfolding run s1(2)
        by (auto split: sb_outcome.splits simp: drop_drop)
    qed
  qed
qed

text \<open>C25: A blocking send on a stream buffer, with any reading and any time-outs while it waits, either is
  still blocked or returns the number of bytes it appended behind what the reader left; it relies on the
  space it saw before its last wait, which never exceeds the space there is. If it waits without a
  time-out and the data fit into an empty buffer, everything is written.\<close>

theorem blocking_send_correct:
  assumes "sb_stream s" "\<forall>w \<in> set ws. reader_step (wk_others w)" "length xs < 2 ^ 64"
  shows "\<exists>res. xStreamBufferSend me ws s xs (of_nat (length xs)) t = Some res \<and> (case res of
      Blocked s' \<Rightarrow> sb_stream s' \<and> sb_wait_tx s' = me \<and> (\<exists>k. sb_contents s' = drop k (sb_contents s))
    | Done r s' \<Rightarrow> sb_stream s' \<and> (\<exists>k. sb_contents s' = drop k (sb_contents s) @ take (unat r) xs) \<and>
        (t \<noteq> 0 \<and> (\<forall>w \<in> set ws. \<not> wk_timeout w) \<and> length xs < length (sb_buffer s) \<longrightarrow> unat r = length xs))"
proof -
  have ok: "sb_ok s" and nm: "\<not> is_message_buffer s" using assms(1) by (auto simp: sb_stream_def)
  let ?n = "of_nat (length xs) :: u64" and ?max = "sb_length s - 1"
  let ?rq = "if ?max < ?n then ?max else ?n"
  have n: "unat ?n = length xs" using assms(3) by (simp add: unat_of_nat_lt)
  have fits: "length xs < length (sb_buffer s) \<Longrightarrow> ?rq = ?n"
  proof -
    assume "length xs < length (sb_buffer s)"
    moreover have "unat ?max = length (sb_buffer s) - 1"
      using sb_okD [OF ok] by (subst unat_sub_le) (auto simp: word_le_nat_alt)
    ultimately show "?rq = ?n" using n by (auto simp: word_less_nat_alt)
  qed
  let ?w = "if t \<noteq> 0 then send_wait me ?rq ws s else Done 0 s"
  have w: "case ?w of Blocked s' \<Rightarrow> sb_stream s' \<and> (\<exists>k. sb_contents s' = drop k (sb_contents s)) \<and> sb_wait_tx s' = me
      | Done sp s' \<Rightarrow> sb_stream s' \<and> (\<exists>k. sb_contents s' = drop k (sb_contents s)) \<and> unat sp \<le> sb_room s' \<and>
          (t \<noteq> 0 \<longrightarrow> (\<forall>w \<in> set ws. \<not> wk_timeout w) \<longrightarrow> ?rq \<le> sp)"
  proof (cases "t = 0")
    case True
    then show ?thesis using assms(1) by (auto intro: exI [of _ 0])
  next
    case False
    show ?thesis
      using send_wait_reader [OF assms(1,2), where me = me and rq = ?rq] unfolding if_P [OF False]
      by (rule sb_outcome_mono) auto
  qed
  have run: "xStreamBufferSend me ws s xs ?n t = (case ?w of
      Blocked s \<Rightarrow> Some (Blocked s)
    | Done sp s \<Rightarrow> Option.bind (send_now sbSEND_COMPLETED s xs ?n (if sp = 0 then xStreamBufferSpacesAvailable s else sp) ?rq)
        (\<lambda>(r, s). Some (Done r s)))"
    unfolding xStreamBufferSend_def Let_def if_not_P [OF nm] prod.case ..
  show ?thesis
  proof (cases ?w)
    case (Blocked s')
    then show ?thesis using w by (simp only: run sb_outcome.case) auto
  next
    case (Done sp s1)
    let ?sp = "if sp = 0 then xStreamBufferSpacesAvailable s1 else sp"
    have s1: "sb_stream s1" "\<exists>k. sb_contents s1 = drop k (sb_contents s)" "unat sp \<le> sb_room s1"
      "t \<noteq> 0 \<longrightarrow> (\<forall>w \<in> set ws. \<not> wk_timeout w) \<longrightarrow> ?rq \<le> sp"
      using w unfolding Done sb_outcome.case by blast+
    have "unat ?sp \<le> sb_room s1" using s1(1,3) spaces_available [of s1] by (simp add: sb_stream_def)
    with send_stream [OF s1(1), of ?n xs ?sp ?rq] obtain s2 where s2: "send_now sbSEND_COMPLETED s1 xs ?n ?sp ?rq = Some (min ?n ?sp, s2)"
      "sb_stream s2" "sb_contents s2 = sb_contents s1 @ take (unat (min ?n ?sp)) xs" using n by auto
    have "unat (min ?n ?sp) = length xs" if "t \<noteq> 0" "\<forall>w \<in> set ws. \<not> wk_timeout w" "length xs < length (sb_buffer s)"
    proof -
      have "?n \<le> sp" using s1(4) that fits by simp
      then have "?n \<le> ?sp" by (auto simp: word_le_nat_alt)
      then show ?thesis using n by (simp add: min_def)
    qed
    moreover obtain k where "sb_contents s1 = drop k (sb_contents s)" using s1(2) by blast
    then have "sb_contents s2 = drop k (sb_contents s) @ take (unat (min ?n ?sp)) xs" using s2(3) by simp
    moreover have "xStreamBufferSend me ws s xs ?n t = Some (Done (min ?n ?sp) s2)"
      unfolding run Done by (simp only: sb_outcome.case s2(1) Option.bind.simps prod.case)
    ultimately show ?thesis using s2(2) by auto
  qed
qed

definition ex_reader :: "stream_buffer \<Rightarrow> stream_buffer" where
  "ex_reader s = (case xStreamBufferReceiveFromISR s 5 of Some (_, _, s') \<Rightarrow> if is_message_buffer s then s else s' | None \<Rightarrow> s)"

lemma ex_reader: "reader_step ex_reader"
  unfolding reader_step_def
proof (intro allI impI)
  fix s assume ok: "sb_ok s"
  show "sb_ok (ex_reader s) \<and> same_control s (ex_reader s) \<and> (\<exists>k. sb_contents (ex_reader s) = drop k (sb_contents s))"
  proof (cases "is_message_buffer s")
    case True
    then show ?thesis using ok by (auto simp: ex_reader_def split: option.split intro: exI [of _ 0])
  next
    case False
    then show ?thesis using isr_receive_stream [of s 5] ok by (auto simp: ex_reader_def sb_stream_def)
  qed
qed

lemma ex_space: "xStreamBufferSpacesAvailable (ex_stream 0) = 16"
  by code_simp

theorem blocking_send_correct_witness:
  "\<exists>s res. sb_stream s \<and> sb_contents s = replicate 16 7 \<and>
     xStreamBufferSend 9 [\<lparr>wk_others = ex_reader, wk_timeout = False\<rparr>] s [1, 2, 3] 3 5 = Some res"
proof -
  obtain s where s: "sb_stream s" "sb_contents s = replicate 16 7"
    using isr_send_stream [OF ex_stream_ok(1), of 16 "replicate 16 7"] ex_space by (auto simp: ex_stream_ok(2))
  have "\<exists>res. xStreamBufferSend 9 [\<lparr>wk_others = ex_reader, wk_timeout = False\<rparr>] s [1, 2, 3] 3 5 = Some res"
    using blocking_send_correct [OF s(1), of "[\<lparr>wk_others = ex_reader, wk_timeout = False\<rparr>]" "[1, 2, 3]" 9 5] ex_reader
    by auto
  then show ?thesis using s by blast
qed

subsection \<open>Boundary cases\<close>

text \<open>\<open>xStreamBufferSetTriggerLevel\<close> accepts the length of the storage area as the trigger level, but a
  buffer holds at most one byte less: from then on no send ever notifies the waiting reader.\<close>

theorem trigger_level_unreachable:
  assumes "sb_stream s" "length xs < 2 ^ 64" "xStreamBufferSetTriggerLevel s (sb_length s) = (b, s1)"
  shows "b \<and> (\<exists>r s2. xStreamBufferSendFromISR s1 xs (of_nat (length xs)) = Some (r, s2) \<and>
    sb_wait_rx s2 = sb_wait_rx s \<and> sb_woken s2 = sb_woken s)"
proof -
  have ok: "sb_ok s" using assms(1) by (simp add: sb_stream_def)
  have "sb_length s \<noteq> 0" using sb_okD(1,3) [OF ok] by auto
  then have b: "b" "s1 = s\<lparr>sb_trigger := sb_length s\<rparr>"
    using assms(3) by (auto simp: xStreamBufferSetTriggerLevel_def)
  have s1: "sb_stream s1" "sb_ok s1" using assms(1) ok by (simp_all add: b(2) sb_stream_def is_message_buffer_def)
  let ?n = "of_nat (length xs) :: u64" and ?sp = "xStreamBufferSpacesAvailable s1"
  have n: "unat (min ?n ?sp) \<le> length xs" "unat (min ?n ?sp) \<le> sb_room s1"
    using assms(2) spaces_available [OF s1(2)] by (auto simp: min_def word_le_nat_alt unat_of_nat_lt)
  obtain s2 where s2: "prvWriteBytesToBuffer s1 xs (min ?n ?sp) = Some (min ?n ?sp, s2)" "sb_ok s2"
    "s2 = s1\<lparr>sb_buffer := sb_buffer s2, sb_head := sb_head s2\<rparr>"
    using write_bytes [OF s1(2) n] by blast
  have keep: "sb_trigger s2 = sb_length s2" "sb_wait_rx s2 = sb_wait_rx s" "sb_woken s2 = sb_woken s"
    by (subst s2(3), simp add: b(2))+
  have "unat (prvBytesInBuffer s2) < unat (sb_trigger s2)"
    using bytes_in_buffer [OF s2(2)] sb_okD(1,6) [OF s2(2)] keep(1) by simp
  then have no: "\<not> sb_trigger s2 \<le> prvBytesInBuffer s2" by (simp add: word_le_nat_alt)
  have "\<not> is_message_buffer s1" using s1(1) by (simp add: sb_stream_def)
  then show ?thesis
    using b(1) s2(1) no keep(2,3)
    by (cases "?sp = 0") (auto simp: xStreamBufferSendFromISR_def send_now_def prvWriteMessageToBuffer_def b(2))
qed

theorem trigger_level_unreachable_witness:
  "\<exists>s1 r s2. xStreamBufferSetTriggerLevel (ex_stream 0) (sb_length (ex_stream 0)) = (True, s1) \<and>
    xStreamBufferSendFromISR s1 (replicate 16 7) 16 = Some (r, s2) \<and> sb_woken s2 = []"
proof -
  obtain b s1 where s1: "xStreamBufferSetTriggerLevel (ex_stream 0) (sb_length (ex_stream 0)) = (b, s1)" by fastforce
  show ?thesis using trigger_level_unreachable [OF ex_stream_ok(1) _ s1, of "replicate 16 7"] s1
    by (auto simp: ex_stream_def prvInitialiseNewStreamBuffer_def raw_stream_buffer_def)
qed

text \<open>Sending an empty message into a message buffer with room reports failure (0 bytes), but leaves a
  message header of length 0 in the buffer.\<close>

theorem empty_message_leaves_header:
  assumes "sb_ok s" "is_message_buffer s" "8 \<le> sb_room s"
  shows "\<exists>s'. xStreamBufferSendFromISR s [] 0 = Some (0, s') \<and> sb_contents s' = sb_contents s @ replicate 8 0"
proof -
  let ?h = "sbBYTES_TO_STORE_MESSAGE_LENGTH"
  have h8: "unat ?h = 8" by (simp add: sb_consts)
  have sp: "unat (xStreamBufferSpacesAvailable s) = sb_room s" by (rule spaces_available [OF assms(1)])
  then have "xStreamBufferSpacesAvailable s \<noteq> 0" "?h \<le> xStreamBufferSpacesAvailable s"
    using assms(3) h8 by (auto simp: word_le_nat_alt)
  moreover have "unat ?h \<le> length (size_bytes 0)" "unat ?h \<le> sb_room s" using assms(3) h8 by simp_all
  from write_bytes [OF assms(1) this] obtain s1 where s1: "prvWriteBytesToBuffer s (size_bytes 0) ?h = Some (?h, s1)" "sb_ok s1"
    "sb_contents s1 = sb_contents s @ size_bytes 0" unfolding h8 by auto
  moreover obtain s2 where "prvWriteBytesToBuffer s1 [] 0 = Some (0, s2)" "sb_contents s2 = sb_contents s1"
    using write_bytes [OF s1(2), of 0 "[]"] by auto
  moreover have "size_bytes 0 = replicate 8 0" by (simp add: size_bytes_def numeral_eq_Suc)
  ultimately show ?thesis
    using assms(2) by (simp add: xStreamBufferSendFromISR_def send_now_def prvWriteMessageToBuffer_def)
qed

theorem empty_message_leaves_header_witness:
  "\<exists>s'. xStreamBufferSendFromISR (ex_stream 1) [] 0 = Some (0, s') \<and> sb_contents s' = sb_contents (ex_stream 1) @ replicate 8 0"
proof -
  have "sb_ok (ex_stream 1)" "is_message_buffer (ex_stream 1)" using ex_stream_ok(3) by (auto simp: sb_holds_def)
  moreover have "sb_used (ex_stream 1) = 0" "length (sb_buffer (ex_stream 1)) = 17"
    by (simp_all add: ex_stream_def sb_used_def prvInitialiseNewStreamBuffer_def raw_stream_buffer_def)
  then have "8 \<le> sb_room (ex_stream 1)" by (simp add: sb_room_def)
  ultimately show ?thesis by (rule empty_message_leaves_header)
qed

subsection \<open>Life cycle on the heap\<close>

text \<open>A buffer created for \<open>n\<close> bytes on a well-formed heap either fails with a null handle or is empty with
  room for exactly \<open>n\<close> bytes in a block of its own; deleting it gives the heap its blocks back as they were.\<close>

theorem stream_create_delete:
  assumes "heap_inv h lo hi bs" "unat n + 73 < 2 ^ 63"
    and "xStreamBufferGenericCreate h n trig msg = Some (p, sb, h1)" "p \<noteq> 0"
  shows "\<exists>s h2. sb = Some s \<and> sb_ok s \<and> is_message_buffer s = msg \<and> sb_contents s = [] \<and> sb_room s = unat n \<and>
    vStreamBufferDelete h1 p s = Some (None, h2) \<and> heap_inv h2 lo hi bs"
proof -
  have n1: "unat (n + 1) = unat n + 1" using assms(2) by (subst unat_add_lt) auto
  have n73: "unat (n + 1 + sizeof_StreamBuffer) = unat n + 73" using assms(2) n1 by (subst unat_add_lt) (auto simp: sb_consts)
  then have lt: "n < n + 1 + sizeof_StreamBuffer" by (simp add: word_less_nat_alt)
  have sz: "n + 1 + sizeof_StreamBuffer = of_nat (unat n + 73)" using n73 by (rule eq_of_nat_unat)
  let ?store = "map (\<lambda>i. hp_mem h1 (p + sizeof_StreamBuffer + of_nat i)) [0..<unat (n + 1)]"
  let ?s = "prvInitialiseNewStreamBuffer raw_stream_buffer ?store (n + 1) (if trig = 0 then 1 else trig)
      (if msg then sbFLAGS_IS_MESSAGE_BUFFER else 0)"
  have al: "pvPortMalloc h (of_nat (unat n + 73)) = Some (p, h1)" and s: "sb = Some ?s"
    using assms(3,4) lt sz by (auto simp: xStreamBufferGenericCreate_def Let_def bind_eq_Some_conv simp del: of_nat_add)
  obtain h2 where h2: "vPortFree h1 p = Some h2" "heap_inv h2 lo hi bs"
    using malloc_free_row [OF assms(1) _ _ al assms(4)] assms(2) by auto
  have "vStreamBufferDelete h1 p ?s = Some (None, h2)"
    using h2(1) by (simp add: vStreamBufferDelete_def prvInitialiseNewStreamBuffer_def sb_consts)
  moreover have ok: "sb_ok ?s" "sb_used ?s = 0"
    using n1 assms(2) by (auto simp: sb_ok_def sb_used_def prvInitialiseNewStreamBuffer_def word_less_nat_alt)
  moreover have "is_message_buffer ?s = msg" by (simp add: is_message_buffer_def prvInitialiseNewStreamBuffer_def sb_consts)
  moreover have "sb_room ?s = unat n" using ok(2) n1 by (simp add: sb_room_def prvInitialiseNewStreamBuffer_def)
  moreover have "sb_contents ?s = []" using ok(2) by (simp add: sb_contents_def)
  ultimately show ?thesis using s h2(2) by blast
qed

lemma ex_create:
  "case xStreamBufferGenericCreate (prvHeapInit ex_heap) 100 1 False of Some (p, _, _) \<Rightarrow> p = 0x40000020 | None \<Rightarrow> False"
  by code_simp

theorem stream_create_delete_witness:
  "\<exists>s h1 h2. xStreamBufferGenericCreate (prvHeapInit ex_heap) 100 1 False = Some (0x40000020, Some s, h1) \<and>
    sb_room s = 100 \<and> vStreamBufferDelete h1 0x40000020 s = Some (None, h2) \<and>
    heap_inv h2 (heap_lo ex_heap) (heap_hi ex_heap) ex_row"
proof -
  obtain sb h1 where c: "xStreamBufferGenericCreate (prvHeapInit ex_heap) 100 1 False = Some (0x40000020, sb, h1)"
    using ex_create by (auto split: option.splits)
  show ?thesis using stream_create_delete [OF ex_row(1) _ c] c by auto
qed

subsection \<open>The byte queue\<close>

definition put_byte :: "stream_buffer \<Rightarrow> u8 \<Rightarrow> stream_buffer option" where
  "put_byte s b = (case xStreamBufferSendFromISR s [b] 1 of Some (r, s') \<Rightarrow> if r = 1 then Some s' else None | None \<Rightarrow> None)"

definition get_byte :: "stream_buffer \<Rightarrow> (u8 \<times> stream_buffer) option" where
  "get_byte s = (case xStreamBufferReceiveFromISR s 1 of Some (_, b # _, s') \<Rightarrow> Some (b, s') | _ \<Rightarrow> None)"

lemma put_byte_cases:
  assumes "sb_stream s"
  shows "if 0 < sb_room s
    then \<exists>s'. put_byte s b = Some s' \<and> sb_stream s' \<and> sb_contents s' = sb_contents s @ [b] \<and> sb_room s' = sb_room s - 1
    else put_byte s b = None"
proof -
  have ok: "sb_ok s" using assms by (simp add: sb_stream_def)
  let ?sp = "xStreamBufferSpacesAvailable s"
  have sp: "unat ?sp = sb_room s" by (rule spaces_available [OF ok])
  obtain s' where s': "xStreamBufferSendFromISR s [b] 1 = Some (min 1 ?sp, s')" "sb_stream s'"
    "sb_contents s' = sb_contents s @ take (unat (min 1 ?sp)) [b]" "same_control s s'"
    using isr_send_stream [OF assms, of 1 "[b]"] by auto
  show ?thesis
  proof (cases "0 < sb_room s")
    case True
    then have m: "min 1 ?sp = 1" using sp by (auto simp: min_def word_le_nat_alt)
    have "sb_room s' + length (sb_contents s') = sb_room s + length (sb_contents s)"
      using s'(2) by (intro room_of_contents [OF ok _ s'(4)]) (simp add: sb_stream_def)
    then have "sb_room s' = sb_room s - 1" using arg_cong [OF s'(3), of length] True unfolding m by simp
    then show ?thesis using True s' unfolding m by (auto simp: put_byte_def)
  next
    case False
    then have "?sp = 0" using sp by (simp add: unat_eq_0)
    then show ?thesis using False s'(1) by (simp add: put_byte_def)
  qed
qed

lemma get_byte_cases:
  assumes "sb_stream s"
  shows "case sb_contents s of
      [] \<Rightarrow> get_byte s = None
    | b # bs \<Rightarrow> \<exists>s'. get_byte s = Some (b, s') \<and> sb_stream s' \<and> sb_contents s' = bs \<and> sb_room s' = sb_room s + 1"
proof -
  have ok: "sb_ok s" using assms by (simp add: sb_stream_def)
  obtain s' where s': "xStreamBufferReceiveFromISR s 1 = Some (min (prvBytesInBuffer s) 1, take 1 (sb_contents s), s')"
    "sb_stream s'" "sb_contents s' = drop 1 (sb_contents s)" "same_control s s'"
    using isr_receive_stream [OF assms, of 1] by auto
  have r: "sb_room s' + length (sb_contents s') = sb_room s + length (sb_contents s)"
    using s'(2) by (intro room_of_contents [OF ok _ s'(4)]) (simp add: sb_stream_def)
  show ?thesis using s'(1-3) r by (cases "sb_contents s") (auto simp: get_byte_def simp del: sb_contents_len)
qed

interpretation sb: fifo sb_stream sb_contents sb_room "\<lambda>_. True" put_byte get_byte
proof
  fix s x s'
  assume s: "sb_stream s"
  show "put_byte s x = Some s' \<Longrightarrow> sb_stream s' \<and> sb_contents s' = sb_contents s @ [x] \<and> sb_room s' = sb_room s - 1"
    using put_byte_cases [OF s, of x] by (auto split: if_splits)
  show "0 < sb_room s \<Longrightarrow> put_byte s x \<noteq> None" using put_byte_cases [OF s, of x] by auto
  show "get_byte s = None \<longleftrightarrow> sb_contents s = []" using get_byte_cases [OF s] by (auto split: list.splits)
  show "get_byte s = Some (x, s') \<Longrightarrow> sb_stream s' \<and> sb_contents s = x # sb_contents s' \<and> sb_room s' = sb_room s + 1"
    using get_byte_cases [OF s] by (auto split: list.splits)
qed

text \<open>Byte by byte a stream buffer is a bounded queue: a run that puts in no more bytes than there is
  room for at its start is completed, and its outputs are its inputs in order.\<close>

theorem stream_byte_fifo:
  assumes "sb_stream s" "length (fifo_inputs ops) \<le> sb_room s"
  shows "\<exists>out t. fifo_run put_byte get_byte s ops = Some (out, t) \<and> sb_stream t \<and>
    sb_contents s @ fifo_inputs ops = out @ sb_contents t"
proof -
  obtain out t where "fifo_run put_byte get_byte s ops = Some (out, t)" using sb.run_total [of s ops] assms by auto
  then show ?thesis using sb.run_order [of s ops out t] assms(1) by auto
qed

theorem stream_byte_fifo_witness:
  "\<exists>out t. fifo_run put_byte get_byte (ex_stream 0) [Put 1, Get, Get, Put 2, Put 3] = Some (out, t) \<and> [1, 2, 3] = out @ sb_contents t"
proof -
  have "sb_room (ex_stream 0) = 16" using spaces_available [of "ex_stream 0"] ex_stream_ok(1) ex_space by (simp add: sb_stream_def)
  then show ?thesis
    using stream_byte_fifo [OF ex_stream_ok(1), of "[Put 1, Get, Get, Put 2, Put 3]"] by (simp only: ex_stream_ok(2)) auto
qed

end
