(* ===== verification/Tasks.thy ===== *)
theory Tasks
  imports Kernel_List
begin

text \<open>
  The scheduler of the kernel, \<^verbatim>\<open>FreeRTOS/Source/tasks.c\<close>, in the configuration of
  \<^verbatim>\<open>core/FreeRTOSConfig.h\<close>: 32 priorities, preemption and time slicing, the port's bitmap of
  ready priorities, mutexes, notifications, no tickless idle and no delay abortion.

  A task is a number (its \<open>TCB_t *\<close>), \<open>None\<close> is the null handle. The list items of task \<open>t\<close> are
  two nodes of the list store; the kernel's own lists have fixed numbers, all other numbers are
  event lists of queues, event groups and timers. A critical section runs with interrupts off and
  is one step here. \<open>portYIELD\<close> writes the software interrupt register of the core; the
  interrupt is taken once the critical section is left and its handler switches the context.
\<close>

abbreviation xDelayedTaskList1 :: nat where "xDelayedTaskList1 \<equiv> 32"
abbreviation xDelayedTaskList2 :: nat where "xDelayedTaskList2 \<equiv> 33"
abbreviation xPendingReadyList :: nat where "xPendingReadyList \<equiv> 34"
abbreviation xTasksWaitingTermination :: nat where "xTasksWaitingTermination \<equiv> 35"
abbreviation xSuspendedTaskList :: nat where "xSuspendedTaskList \<equiv> 36"

abbreviation configMAX_PRIORITIES :: u64 where "configMAX_PRIORITIES \<equiv> 32"
abbreviation taskEVENT_LIST_ITEM_VALUE_IN_USE :: u64 where
  "taskEVENT_LIST_ITEM_VALUE_IN_USE \<equiv> 0x80000000"

abbreviation taskNOT_WAITING_NOTIFICATION :: u8 where "taskNOT_WAITING_NOTIFICATION \<equiv> 0"
abbreviation taskWAITING_NOTIFICATION :: u8 where "taskWAITING_NOTIFICATION \<equiv> 1"
abbreviation taskNOTIFICATION_RECEIVED :: u8 where "taskNOTIFICATION_RECEIVED \<equiv> 2"

definition xStateListItem :: "nat \<Rightarrow> node" where "xStateListItem t = Item (2 * t)"
definition xEventListItem :: "nat \<Rightarrow> node" where "xEventListItem t = Item (2 * t + 1)"

record TCB_t =
  uxPriority :: u64
  uxBasePriority :: u64
  uxMutexesHeld :: u64
  uxCriticalNesting :: u64
  uxTCBNumber :: u64
  uxTraceTaskNumber :: u64
  pxTaskTag :: "nat option"
  pvThreadLocalStoragePointers :: "nat list"
  ulNotifiedValue :: "u32 list"
  ucNotifyState :: "u8 list"
  ucStaticallyAllocated :: u8
  iTaskErrno :: int
  pcTaskName :: "u8 list"
  pxStack :: nat

record kernel =
  lists :: list_store
  tcb :: "nat \<Rightarrow> TCB_t"
  pxCurrentTCB :: "nat option"
  pxDelayedTaskList :: nat
  pxOverflowDelayedTaskList :: nat
  uxDeletedTasksWaitingCleanUp :: u64
  uxCurrentNumberOfTasks :: u64
  xTickCount :: u64
  uxTopReadyPriority :: u64
  xSchedulerRunning :: bool
  xPendedTicks :: u64
  xYieldPending :: bool
  xNumOfOverflows :: u64
  uxTaskNumber :: u64
  xNextTaskUnblockTime :: u64
  uxSchedulerSuspended :: u64
  FreeRTOS_errno :: int
  msip_reg :: "u32 option"
  pvFreed :: "nat list"

definition set_tcb :: "nat \<Rightarrow> (TCB_t \<Rightarrow> TCB_t) \<Rightarrow> kernel \<Rightarrow> kernel" where
  "set_tcb t f s = s\<lparr>tcb := (tcb s)(t := f (tcb s t))\<rparr>"

definition prvGetTCBFromHandle :: "kernel \<Rightarrow> nat option \<Rightarrow> nat option" where
  "prvGetTCBFromHandle s h = (case h of None \<Rightarrow> pxCurrentTCB s | Some t \<Rightarrow> Some t)"

subsection \<open>The software interrupt\<close>

definition riscv_trigger_soft_interrupt :: "kernel \<Rightarrow> kernel" where
  "riscv_trigger_soft_interrupt s = (if msip_reg s \<noteq> None then s\<lparr>msip_reg := Some 1\<rparr> else s)"

definition rv_trigger_soft_interrupt :: "kernel \<Rightarrow> kernel" where
  "rv_trigger_soft_interrupt s = riscv_trigger_soft_interrupt s"

definition portYIELD :: "kernel \<Rightarrow> kernel" where
  "portYIELD s = rv_trigger_soft_interrupt s"

subsection \<open>Critical sections\<close>

text \<open>The second component is the interrupt enable bit of \<open>mstatus\<close>.\<close>

definition vTaskEnterCritical :: "kernel \<times> bool \<Rightarrow> (kernel \<times> bool) option" where
  "vTaskEnterCritical = (\<lambda>(s, mie).
     if xSchedulerRunning s then do {
       t \<leftarrow> pxCurrentTCB s;
       Some (set_tcb t (\<lambda>c. c\<lparr>uxCriticalNesting := uxCriticalNesting c + 1\<rparr>) s, False) }
     else Some (s, False))"

definition vTaskExitCritical :: "kernel \<times> bool \<Rightarrow> (kernel \<times> bool) option" where
  "vTaskExitCritical = (\<lambda>(s, mie).
     if xSchedulerRunning s then do {
       t \<leftarrow> pxCurrentTCB s;
       if uxCriticalNesting (tcb s t) > 0 then
         (let s = set_tcb t (\<lambda>c. c\<lparr>uxCriticalNesting := uxCriticalNesting c - 1\<rparr>) s
          in Some (s, if uxCriticalNesting (tcb s t) = 0 then True else mie))
       else Some (s, mie) }
     else Some (s, mie))"

subsection \<open>The ready lists and the bitmap of ready priorities\<close>

definition pxReadyTasksLists :: "u64 \<Rightarrow> nat option" where
  "pxReadyTasksLists p = (if p < configMAX_PRIORITIES then Some (unat p) else None)"

definition portRECORD_READY_PRIORITY :: "u64 \<Rightarrow> u64 \<Rightarrow> u64" where
  "portRECORD_READY_PRIORITY p ready = ready OR push_bit (unat p) 1"

definition portRESET_READY_PRIORITY :: "u64 \<Rightarrow> u64 \<Rightarrow> u64" where
  "portRESET_READY_PRIORITY p ready = ready AND NOT (push_bit (unat p) 1)"

text \<open>The builtin counts the leading zeros of an \<open>unsigned int\<close> and is undefined at 0.\<close>

definition builtin_clz :: "u32 \<Rightarrow> nat option" where
  "builtin_clz w = (if w = 0 then None else Some (length (takeWhile (\<lambda>i. \<not> bit w i) (rev [0..<32]))))"

definition portGET_HIGHEST_PRIORITY :: "u64 \<Rightarrow> u64 option" where
  "portGET_HIGHEST_PRIORITY ready = do { z \<leftarrow> builtin_clz (ucast ready); Some (31 - of_nat z) }"

definition taskRESET_READY_PRIORITY :: "u64 \<Rightarrow> kernel \<Rightarrow> kernel option" where
  "taskRESET_READY_PRIORITY p s = do {
     l \<leftarrow> pxReadyTasksLists p;
     Some (if uxNumberOfItems (lists s) l = 0
           then s\<lparr>uxTopReadyPriority := portRESET_READY_PRIORITY p (uxTopReadyPriority s)\<rparr> else s) }"

definition prvAddTaskToReadyList :: "nat \<Rightarrow> kernel \<Rightarrow> kernel option" where
  "prvAddTaskToReadyList t s = do {
     l \<leftarrow> pxReadyTasksLists (uxPriority (tcb s t));
     let s = s\<lparr>uxTopReadyPriority := portRECORD_READY_PRIORITY (uxPriority (tcb s t)) (uxTopReadyPriority s)\<rparr>;
     Some (s\<lparr>lists := vListInsertEnd (lists s) l (xStateListItem t)\<rparr>) }"

text \<open>\<open>uxListRemove\<close> on the kernel's state.\<close>

definition kListRemove :: "node \<Rightarrow> kernel \<Rightarrow> (u64 \<times> kernel) option" where
  "kListRemove x s = do { (n, ls) \<leftarrow> uxListRemove (lists s) x; Some (n, s\<lparr>lists := ls\<rparr>) }"

definition set_item_value :: "node \<Rightarrow> u64 \<Rightarrow> kernel \<Rightarrow> kernel" where
  "set_item_value x v s = s\<lparr>lists := (lists s)\<lparr>xItemValue := (xItemValue (lists s))(x := v)\<rparr>\<rparr>"

text \<open>Taking the event item out of its list, if it is in one.\<close>

definition leave_event_list :: "nat \<Rightarrow> kernel \<Rightarrow> kernel option" where
  "leave_event_list t s =
     (if pxContainer (lists s) (xEventListItem t) \<noteq> None
      then map_option snd (kListRemove (xEventListItem t) s) else Some s)"

definition taskSELECT_HIGHEST_PRIORITY_TASK :: "kernel \<Rightarrow> kernel option" where
  "taskSELECT_HIGHEST_PRIORITY_TASK s = do {
     uxTopPriority \<leftarrow> portGET_HIGHEST_PRIORITY (uxTopReadyPriority s);
     l \<leftarrow> pxReadyTasksLists uxTopPriority;
     let (t, ls) = listGET_OWNER_OF_NEXT_ENTRY (lists s) l;
     Some (s\<lparr>lists := ls, pxCurrentTCB := Some t\<rparr>) }"

definition vTaskSwitchContext :: "kernel \<Rightarrow> kernel option" where
  "vTaskSwitchContext s =
     (if uxSchedulerSuspended s \<noteq> 0 then Some (s\<lparr>xYieldPending := True\<rparr>)
      else do {
        let s = s\<lparr>xYieldPending := False\<rparr>;
        t \<leftarrow> pxCurrentTCB s;
        let s = set_tcb t (\<lambda>c. c\<lparr>iTaskErrno := FreeRTOS_errno s\<rparr>) s;
        s \<leftarrow> taskSELECT_HIGHEST_PRIORITY_TASK s;
        t \<leftarrow> pxCurrentTCB s;
        Some (s\<lparr>FreeRTOS_errno := iTaskErrno (tcb s t)\<rparr>) })"

definition riscv_soft_irq_handler :: "kernel \<Rightarrow> kernel option" where
  "riscv_soft_irq_handler s =
     (let s = (if msip_reg s \<noteq> None then s\<lparr>msip_reg := Some 0\<rparr> else s) in vTaskSwitchContext s)"

subsection \<open>The delayed lists and the tick\<close>

definition prvResetNextTaskUnblockTime :: "kernel \<Rightarrow> kernel" where
  "prvResetNextTaskUnblockTime s =
     (if listLIST_IS_EMPTY (lists s) (pxDelayedTaskList s)
      then s\<lparr>xNextTaskUnblockTime := portMAX_DELAY\<rparr>
      else s\<lparr>xNextTaskUnblockTime := listGET_ITEM_VALUE_OF_HEAD_ENTRY (lists s) (pxDelayedTaskList s)\<rparr>)"

definition taskSWITCH_DELAYED_LISTS :: "kernel \<Rightarrow> kernel" where
  "taskSWITCH_DELAYED_LISTS s =
     (let pxTemp = pxDelayedTaskList s;
          s = s\<lparr>pxDelayedTaskList := pxOverflowDelayedTaskList s\<rparr>;
          s = s\<lparr>pxOverflowDelayedTaskList := pxTemp\<rparr>;
          s = s\<lparr>xNumOfOverflows := xNumOfOverflows s + 1\<rparr>
      in prvResetNextTaskUnblockTime s)"

definition prvAddCurrentTaskToDelayedList :: "u64 \<Rightarrow> bool \<Rightarrow> kernel \<Rightarrow> kernel option" where
  "prvAddCurrentTaskToDelayedList xTicksToWait xCanBlockIndefinitely s = do {
     let xConstTickCount = xTickCount s;
     t \<leftarrow> pxCurrentTCB s;
     (n, s) \<leftarrow> kListRemove (xStateListItem t) s;
     let s = (if n = 0 then s\<lparr>uxTopReadyPriority :=
                portRESET_READY_PRIORITY (uxPriority (tcb s t)) (uxTopReadyPriority s)\<rparr> else s);
     if xTicksToWait = portMAX_DELAY \<and> xCanBlockIndefinitely
     then Some (s\<lparr>lists := vListInsertEnd (lists s) xSuspendedTaskList (xStateListItem t)\<rparr>)
     else do {
       let xTimeToWake = xConstTickCount + xTicksToWait;
       let s = set_item_value (xStateListItem t) xTimeToWake s;
       if xTimeToWake < xConstTickCount
       then do {
         ls \<leftarrow> vListInsert (lists s) (pxOverflowDelayedTaskList s) (xStateListItem t);
         Some (s\<lparr>lists := ls\<rparr>) }
       else do {
         ls \<leftarrow> vListInsert (lists s) (pxDelayedTaskList s) (xStateListItem t);
         let s = s\<lparr>lists := ls\<rparr>;
         Some (if xTimeToWake < xNextTaskUnblockTime s then s\<lparr>xNextTaskUnblockTime := xTimeToWake\<rparr> else s) } } }"

text \<open>
  The loop of \<open>xTaskIncrementTick\<close> over the head of the delayed list; it also returns whether a
  woken task asks for a switch.
\<close>

partial_function (option) unblock_loop :: "u64 \<Rightarrow> bool \<Rightarrow> kernel \<Rightarrow> (bool \<times> kernel) option" where
  "unblock_loop xConstTickCount xSwitchRequired s =
     (if listLIST_IS_EMPTY (lists s) (pxDelayedTaskList s)
      then Some (xSwitchRequired, s\<lparr>xNextTaskUnblockTime := portMAX_DELAY\<rparr>)
      else do {
        let t = listGET_OWNER_OF_HEAD_ENTRY (lists s) (pxDelayedTaskList s);
        let xItemValue = xItemValue (lists s) (xStateListItem t);
        if xConstTickCount < xItemValue
        then Some (xSwitchRequired, s\<lparr>xNextTaskUnblockTime := xItemValue\<rparr>)
        else do {
          (_, s) \<leftarrow> kListRemove (xStateListItem t) s;
          s \<leftarrow> leave_event_list t s;
          s \<leftarrow> prvAddTaskToReadyList t s;
          cur \<leftarrow> pxCurrentTCB s;
          unblock_loop xConstTickCount
            (xSwitchRequired \<or> uxPriority (tcb s t) \<ge> uxPriority (tcb s cur)) s } })"

declare unblock_loop.simps [code]

definition xTaskIncrementTick :: "kernel \<Rightarrow> (bool \<times> kernel) option" where
  "xTaskIncrementTick s =
     (if uxSchedulerSuspended s = 0 then do {
        let xConstTickCount = xTickCount s + 1;
        let s = s\<lparr>xTickCount := xConstTickCount\<rparr>;
        let s = (if xConstTickCount = 0 then taskSWITCH_DELAYED_LISTS s else s);
        (xSwitchRequired, s) \<leftarrow>
          (if xConstTickCount \<ge> xNextTaskUnblockTime s then unblock_loop xConstTickCount False s
           else Some (False, s));
        cur \<leftarrow> pxCurrentTCB s;
        l \<leftarrow> pxReadyTasksLists (uxPriority (tcb s cur));
        let xSwitchRequired = (xSwitchRequired \<or> uxNumberOfItems (lists s) l > 1);
        Some (xSwitchRequired \<or> xYieldPending s, s) }
      else Some (False, s\<lparr>xPendedTicks := xPendedTicks s + 1\<rparr>))"

text \<open>The timer interrupt of \<open>portASM.S\<close>: a tick, and a context switch when it asks for one.\<close>

definition timer_interrupt :: "kernel \<Rightarrow> kernel option" where
  "timer_interrupt s = do {
     (xSwitchRequired, s) \<leftarrow> xTaskIncrementTick s;
     if xSwitchRequired then vTaskSwitchContext s else Some s }"

subsection \<open>Suspending the scheduler\<close>

definition vTaskSuspendAll :: "kernel \<Rightarrow> kernel" where
  "vTaskSuspendAll s = s\<lparr>uxSchedulerSuspended := uxSchedulerSuspended s + 1\<rparr>"

text \<open>The two loops of \<open>xTaskResumeAll\<close>; the first also returns whether a task was moved.\<close>

partial_function (option) pending_loop :: "bool \<Rightarrow> kernel \<Rightarrow> (bool \<times> kernel) option" where
  "pending_loop moved s =
     (if \<not> listLIST_IS_EMPTY (lists s) xPendingReadyList then do {
        let t = listGET_OWNER_OF_HEAD_ENTRY (lists s) xPendingReadyList;
        (_, s) \<leftarrow> kListRemove (xEventListItem t) s;
        (_, s) \<leftarrow> kListRemove (xStateListItem t) s;
        s \<leftarrow> prvAddTaskToReadyList t s;
        cur \<leftarrow> pxCurrentTCB s;
        let s = (if uxPriority (tcb s t) \<ge> uxPriority (tcb s cur) then s\<lparr>xYieldPending := True\<rparr> else s);
        pending_loop True s }
      else Some (moved, s))"

declare pending_loop.simps [code]

partial_function (option) pended_ticks_loop :: "u64 \<Rightarrow> kernel \<Rightarrow> kernel option" where
  "pended_ticks_loop xPendedCounts s = do {
     (xSwitchRequired, s) \<leftarrow> xTaskIncrementTick s;
     let s = (if xSwitchRequired then s\<lparr>xYieldPending := True\<rparr> else s);
     if xPendedCounts - 1 > 0 then pended_ticks_loop (xPendedCounts - 1) s else Some s }"

declare pended_ticks_loop.simps [code]

definition xTaskResumeAll :: "kernel \<Rightarrow> (bool \<times> kernel) option" where
  "xTaskResumeAll s = do {
     let s = s\<lparr>uxSchedulerSuspended := uxSchedulerSuspended s - 1\<rparr>;
     if uxSchedulerSuspended s = 0 \<and> uxCurrentNumberOfTasks s > 0 then do {
       (moved, s) \<leftarrow> pending_loop False s;
       let s = (if moved then prvResetNextTaskUnblockTime s else s);
       s \<leftarrow> (if xPendedTicks s > 0 then do {
                s \<leftarrow> pended_ticks_loop (xPendedTicks s) s;
                Some (s\<lparr>xPendedTicks := 0\<rparr>) }
             else Some s);
       Some (if xYieldPending s then (True, portYIELD s) else (False, s)) }
     else Some (False, s) }"

definition xTaskCatchUpTicks :: "u64 \<Rightarrow> kernel \<Rightarrow> (bool \<times> kernel) option" where
  "xTaskCatchUpTicks xTicksToCatchUp s = do {
     let s = vTaskSuspendAll s;
     let s = s\<lparr>xPendedTicks := xPendedTicks s + xTicksToCatchUp\<rparr>;
     xTaskResumeAll s }"

end
