(* ===== verification/Task_Api.thy ===== *)
theory Task_Api
  imports Tasks
begin

text \<open>
  The task interface of \<^verbatim>\<open>FreeRTOS/Source/tasks.c\<close> over the scheduler of \<open>Tasks\<close>: creation and
  deletion, delays, suspension, priorities, event lists, time-outs, and the priority inheritance
  of mutexes. A function that ends in a yield has requested the software interrupt in the state
  it returns; the interrupt handler is a step of its own.
\<close>

subsection \<open>Creation and deletion\<close>

text \<open>The loop that copies a name, and its last statement.\<close>

fun copy_name :: "nat \<Rightarrow> nat \<Rightarrow> u8 list \<Rightarrow> u8 list \<Rightarrow> u8 list option" where
  "copy_name 0 x name pcName = Some name"
| "copy_name (Suc k) x name pcName = do {
     c \<leftarrow> get_at pcName x;
     name \<leftarrow> set_at name x c;
     if c = 0 then Some name else copy_name k (x + 1) name pcName }"

definition task_name :: "u8 list option \<Rightarrow> u8 list \<Rightarrow> u8 list option" where
  "task_name pcName name = (case pcName of
     None \<Rightarrow> set_at name 0 0
   | Some str \<Rightarrow> do { name \<leftarrow> copy_name 32 0 name str; set_at name 31 0 })"

text \<open>
  The stack is not modelled: its filling and the initial frame built by the port are left out.
\<close>

definition prvInitialiseNewTask :: "u8 list option \<Rightarrow> u64 \<Rightarrow> nat \<Rightarrow> kernel \<Rightarrow> kernel option" where
  "prvInitialiseNewTask pcName prio t s = do {
     name \<leftarrow> task_name pcName (pcTaskName (tcb s t));
     let prio = (if prio \<ge> configMAX_PRIORITIES then configMAX_PRIORITIES - 1 else prio);
     let s = set_tcb t (\<lambda>c. c\<lparr>pcTaskName := name, uxPriority := prio, uxBasePriority := prio, uxMutexesHeld := 0\<rparr>) s;
     let ls = vListInitialiseItem (lists s) (xStateListItem t);
     let ls = vListInitialiseItem ls (xEventListItem t);
     let ls = ls\<lparr>pvOwner := (pvOwner ls)(xStateListItem t := t)\<rparr>;
     let ls = ls\<lparr>xItemValue := (xItemValue ls)(xEventListItem t := configMAX_PRIORITIES - prio)\<rparr>;
     let ls = ls\<lparr>pvOwner := (pvOwner ls)(xEventListItem t := t)\<rparr>;
     Some (set_tcb t (\<lambda>c. c\<lparr>uxCriticalNesting := 0, pxTaskTag := None, pvThreadLocalStoragePointers := [0, 0],
       ulNotifiedValue := [0], ucNotifyState := [0]\<rparr>) (s\<lparr>lists := ls\<rparr>)) }"

text \<open>The loop over the ready lists of \<open>prvInitialiseTaskLists\<close>, then the other lists.\<close>

definition prvInitialiseTaskLists :: "kernel \<Rightarrow> kernel" where
  "prvInitialiseTaskLists s =
     (let ls = fold (\<lambda>p ls. vListInitialise ls p) [0..<32] (lists s);
          ls = vListInitialise ls xDelayedTaskList1;
          ls = vListInitialise ls xDelayedTaskList2;
          ls = vListInitialise ls xPendingReadyList;
          ls = vListInitialise ls xTasksWaitingTermination;
          ls = vListInitialise ls xSuspendedTaskList
      in s\<lparr>lists := ls, pxDelayedTaskList := xDelayedTaskList1, pxOverflowDelayedTaskList := xDelayedTaskList2\<rparr>)"

definition prvAddNewTaskToReadyList :: "nat \<Rightarrow> kernel \<Rightarrow> kernel option" where
  "prvAddNewTaskToReadyList t s = do {
     let s = s\<lparr>uxCurrentNumberOfTasks := uxCurrentNumberOfTasks s + 1\<rparr>;
     let s = (case pxCurrentTCB s of
         None \<Rightarrow>
           (let s = s\<lparr>pxCurrentTCB := Some t\<rparr>
            in if uxCurrentNumberOfTasks s = 1 then prvInitialiseTaskLists s else s)
       | Some cur \<Rightarrow>
           if \<not> xSchedulerRunning s \<and> uxPriority (tcb s cur) \<le> uxPriority (tcb s t)
           then s\<lparr>pxCurrentTCB := Some t\<rparr> else s);
     let s = s\<lparr>uxTaskNumber := uxTaskNumber s + 1\<rparr>;
     let s = set_tcb t (\<lambda>c. c\<lparr>uxTCBNumber := uxTaskNumber s\<rparr>) s;
     s \<leftarrow> prvAddTaskToReadyList t s;
     if xSchedulerRunning s then do {
       cur \<leftarrow> pxCurrentTCB s;
       Some (if uxPriority (tcb s cur) < uxPriority (tcb s t) then portYIELD s else s) }
     else Some s }"

text \<open>The stack and the control block come from the heap: the two results of \<open>pvPortMalloc\<close> are arguments.\<close>

abbreviation tskDYNAMICALLY_ALLOCATED_STACK_AND_TCB :: u8 where "tskDYNAMICALLY_ALLOCATED_STACK_AND_TCB \<equiv> 0"
abbreviation tskSTATICALLY_ALLOCATED_STACK_ONLY :: u8 where "tskSTATICALLY_ALLOCATED_STACK_ONLY \<equiv> 1"
abbreviation tskSTATICALLY_ALLOCATED_STACK_AND_TCB :: u8 where "tskSTATICALLY_ALLOCATED_STACK_AND_TCB \<equiv> 2"

definition xTaskCreate :: "u8 list option \<Rightarrow> u64 \<Rightarrow> nat option \<Rightarrow> nat option \<Rightarrow> kernel \<Rightarrow> (nat option \<times> kernel) option" where
  "xTaskCreate pcName prio stack_mem tcb_mem s =
     (case stack_mem of
        None \<Rightarrow> Some (None, s)
      | Some pxStack' \<Rightarrow>
          (case tcb_mem of
             None \<Rightarrow> Some (None, s\<lparr>pvFreed := pxStack' # pvFreed s\<rparr>)
           | Some t \<Rightarrow> do {
               let s = set_tcb t (\<lambda>c. c\<lparr>pxStack := pxStack'\<rparr>) s;
               let s = set_tcb t (\<lambda>c. c\<lparr>ucStaticallyAllocated := tskDYNAMICALLY_ALLOCATED_STACK_AND_TCB\<rparr>) s;
               s \<leftarrow> prvInitialiseNewTask pcName prio t s;
               s \<leftarrow> prvAddNewTaskToReadyList t s;
               Some (Some t, s) }))"

definition xTaskCreateStatic :: "u8 list option \<Rightarrow> u64 \<Rightarrow> nat option \<Rightarrow> nat option \<Rightarrow> kernel \<Rightarrow> (nat option \<times> kernel) option" where
  "xTaskCreateStatic pcName prio puxStackBuffer pxTaskBuffer s =
     (case (pxTaskBuffer, puxStackBuffer) of
        (Some t, Some stack) \<Rightarrow> do {
          let s = set_tcb t (\<lambda>c. c\<lparr>pxStack := stack\<rparr>) s;
          let s = set_tcb t (\<lambda>c. c\<lparr>ucStaticallyAllocated := tskSTATICALLY_ALLOCATED_STACK_AND_TCB\<rparr>) s;
          s \<leftarrow> prvInitialiseNewTask pcName prio t s;
          s \<leftarrow> prvAddNewTaskToReadyList t s;
          Some (Some t, s) }
      | _ \<Rightarrow> Some (None, s))"

text \<open>The blocks handed to \<open>vPortFree\<close> are logged.\<close>

definition prvDeleteTCB :: "nat \<Rightarrow> kernel \<Rightarrow> kernel" where
  "prvDeleteTCB t s =
     (if ucStaticallyAllocated (tcb s t) = tskDYNAMICALLY_ALLOCATED_STACK_AND_TCB
      then s\<lparr>pvFreed := t # pxStack (tcb s t) # pvFreed s\<rparr>
      else if ucStaticallyAllocated (tcb s t) = tskSTATICALLY_ALLOCATED_STACK_ONLY
      then s\<lparr>pvFreed := t # pvFreed s\<rparr>
      else s)"

definition vTaskDelete :: "nat option \<Rightarrow> kernel \<Rightarrow> kernel option" where
  "vTaskDelete xTaskToDelete s = do {
     t \<leftarrow> prvGetTCBFromHandle s xTaskToDelete;
     (n, s) \<leftarrow> kListRemove (xStateListItem t) s;
     s \<leftarrow> (if n = 0 then taskRESET_READY_PRIORITY (uxPriority (tcb s t)) s else Some s);
     s \<leftarrow> leave_event_list t s;
     let s = s\<lparr>uxTaskNumber := uxTaskNumber s + 1\<rparr>;
     let s = (if Some t = pxCurrentTCB s
        then (let s = s\<lparr>lists := vListInsertEnd (lists s) xTasksWaitingTermination (xStateListItem t)\<rparr>
              in s\<lparr>uxDeletedTasksWaitingCleanUp := uxDeletedTasksWaitingCleanUp s + 1\<rparr>)
        else (let s = s\<lparr>uxCurrentNumberOfTasks := uxCurrentNumberOfTasks s - 1\<rparr>;
                  s = prvDeleteTCB t s
              in prvResetNextTaskUnblockTime s));
     Some (if xSchedulerRunning s \<and> Some t = pxCurrentTCB s then portYIELD s else s) }"

text \<open>The idle task's clean-up loop.\<close>

partial_function (option) prvCheckTasksWaitingTermination :: "kernel \<Rightarrow> kernel option" where
  "prvCheckTasksWaitingTermination s =
     (if uxDeletedTasksWaitingCleanUp s > 0 then do {
        let t = listGET_OWNER_OF_HEAD_ENTRY (lists s) xTasksWaitingTermination;
        (_, s) \<leftarrow> kListRemove (xStateListItem t) s;
        let s = s\<lparr>uxCurrentNumberOfTasks := uxCurrentNumberOfTasks s - 1\<rparr>;
        let s = s\<lparr>uxDeletedTasksWaitingCleanUp := uxDeletedTasksWaitingCleanUp s - 1\<rparr>;
        prvCheckTasksWaitingTermination (prvDeleteTCB t s) }
      else Some s)"

declare prvCheckTasksWaitingTermination.simps [code]

text \<open>One round of the idle task's loop.\<close>

definition prvIdleTask :: "kernel \<Rightarrow> kernel option" where
  "prvIdleTask s = do {
     s \<leftarrow> prvCheckTasksWaitingTermination s;
     Some (if uxNumberOfItems (lists s) 0 > 1 then portYIELD s else s) }"

subsection \<open>Delays\<close>

definition vTaskDelay :: "u64 \<Rightarrow> kernel \<Rightarrow> kernel option" where
  "vTaskDelay xTicksToDelay s = do {
     (xAlreadyYielded, s) \<leftarrow>
       (if xTicksToDelay > 0 then do {
          let s = vTaskSuspendAll s;
          s \<leftarrow> prvAddCurrentTaskToDelayedList xTicksToDelay False s;
          xTaskResumeAll s }
        else Some (False, s));
     Some (if \<not> xAlreadyYielded then portYIELD s else s) }"

text \<open>The decision of \<open>xTaskDelayUntil\<close>: does the task have to sleep until \<open>xTimeToWake\<close>?\<close>

definition should_delay :: "u64 \<Rightarrow> u64 \<Rightarrow> u64 \<Rightarrow> bool" where
  "should_delay xConstTickCount previous xTimeToWake =
     (if xConstTickCount < previous
      then xTimeToWake < previous \<and> xTimeToWake > xConstTickCount
      else xTimeToWake < previous \<or> xTimeToWake > xConstTickCount)"

text \<open>The result is the flag, the new \<open>*pxPreviousWakeTime\<close> and the state.\<close>

definition xTaskDelayUntil :: "u64 \<Rightarrow> u64 \<Rightarrow> kernel \<Rightarrow> (bool \<times> u64 \<times> kernel) option" where
  "xTaskDelayUntil previous xTimeIncrement s = do {
     let s = vTaskSuspendAll s;
     let xConstTickCount = xTickCount s;
     let xTimeToWake = previous + xTimeIncrement;
     let xShouldDelay = should_delay xConstTickCount previous xTimeToWake;
     s \<leftarrow> (if xShouldDelay then prvAddCurrentTaskToDelayedList (xTimeToWake - xConstTickCount) False s else Some s);
     (xAlreadyYielded, s) \<leftarrow> xTaskResumeAll s;
     Some (xShouldDelay, xTimeToWake, if \<not> xAlreadyYielded then portYIELD s else s) }"

subsection \<open>Suspending and resuming tasks\<close>

text \<open>The loop of \<open>vTaskSuspend\<close> over the notification states.\<close>

definition stop_waiting :: "u8 list \<Rightarrow> u8 list" where
  "stop_waiting = map (\<lambda>x. if x = taskWAITING_NOTIFICATION then taskNOT_WAITING_NOTIFICATION else x)"

definition vTaskSuspend :: "nat option \<Rightarrow> kernel \<Rightarrow> kernel option" where
  "vTaskSuspend xTaskToSuspend s = do {
     t \<leftarrow> prvGetTCBFromHandle s xTaskToSuspend;
     (n, s) \<leftarrow> kListRemove (xStateListItem t) s;
     s \<leftarrow> (if n = 0 then taskRESET_READY_PRIORITY (uxPriority (tcb s t)) s else Some s);
     s \<leftarrow> leave_event_list t s;
     let s = s\<lparr>lists := vListInsertEnd (lists s) xSuspendedTaskList (xStateListItem t)\<rparr>;
     let s = set_tcb t (\<lambda>c. c\<lparr>ucNotifyState := stop_waiting (ucNotifyState c)\<rparr>) s;
     let s = (if xSchedulerRunning s then prvResetNextTaskUnblockTime s else s);
     if Some t = pxCurrentTCB s then
       (if xSchedulerRunning s then Some (portYIELD s)
        else if uxNumberOfItems (lists s) xSuspendedTaskList = uxCurrentNumberOfTasks s
        then Some (s\<lparr>pxCurrentTCB := None\<rparr>)
        else vTaskSwitchContext s)
     else Some s }"

definition prvTaskIsTaskSuspended :: "nat \<Rightarrow> kernel \<Rightarrow> bool" where
  "prvTaskIsTaskSuspended t s \<longleftrightarrow>
     listIS_CONTAINED_WITHIN (lists s) xSuspendedTaskList (xStateListItem t) \<and>
     \<not> listIS_CONTAINED_WITHIN (lists s) xPendingReadyList (xEventListItem t) \<and>
     pxContainer (lists s) (xEventListItem t) = None"

definition vTaskResume :: "nat option \<Rightarrow> kernel \<Rightarrow> kernel option" where
  "vTaskResume xTaskToResume s =
     (if xTaskToResume \<noteq> pxCurrentTCB s \<and> xTaskToResume \<noteq> None then do {
        t \<leftarrow> xTaskToResume;
        if prvTaskIsTaskSuspended t s then do {
          (_, s) \<leftarrow> kListRemove (xStateListItem t) s;
          s \<leftarrow> prvAddTaskToReadyList t s;
          cur \<leftarrow> pxCurrentTCB s;
          Some (if uxPriority (tcb s t) \<ge> uxPriority (tcb s cur) then portYIELD s else s) }
        else Some s }
      else Some s)"

definition xTaskResumeFromISR :: "nat \<Rightarrow> kernel \<Rightarrow> (bool \<times> kernel) option" where
  "xTaskResumeFromISR t s =
     (if prvTaskIsTaskSuspended t s then
        (if uxSchedulerSuspended s = 0 then do {
           cur \<leftarrow> pxCurrentTCB s;
           let xYieldRequired = (uxPriority (tcb s t) \<ge> uxPriority (tcb s cur));
           let s = (if xYieldRequired then s\<lparr>xYieldPending := True\<rparr> else s);
           (_, s) \<leftarrow> kListRemove (xStateListItem t) s;
           s \<leftarrow> prvAddTaskToReadyList t s;
           Some (xYieldRequired, s) }
         else Some (False, s\<lparr>lists := vListInsertEnd (lists s) xPendingReadyList (xEventListItem t)\<rparr>))
      else Some (False, s))"

datatype eTaskState = eRunning | eReady | eBlocked | eSuspended | eDeleted | eInvalid

definition eTaskGetState :: "nat \<Rightarrow> kernel \<Rightarrow> eTaskState" where
  "eTaskGetState t s =
     (if Some t = pxCurrentTCB s then eRunning
      else
        let pxStateList = pxContainer (lists s) (xStateListItem t)
        in if pxStateList = Some (pxDelayedTaskList s) \<or> pxStateList = Some (pxOverflowDelayedTaskList s) then eBlocked
           else if pxStateList = Some xSuspendedTaskList then
             (if pxContainer (lists s) (xEventListItem t) = None then
                (if list_ex (\<lambda>x. x = taskWAITING_NOTIFICATION) (ucNotifyState (tcb s t)) then eBlocked else eSuspended)
              else eBlocked)
           else if pxStateList = Some xTasksWaitingTermination \<or> pxStateList = None then eDeleted
           else eReady)"

end
