(* ===== verification/Task_Sync.thy ===== *)
theory Task_Sync
  imports Task_Api
begin

text \<open>
  The part of \<^verbatim>\<open>FreeRTOS/Source/tasks.c\<close> the other kernel objects and the communication of
  tasks are built on: priorities and their inheritance, event lists, time-outs and task
  notifications. A call that blocks has two halves: up to the yield, and after the task runs
  again.
\<close>

subsection \<open>Priorities\<close>

definition uxTaskPriorityGet :: "nat option \<Rightarrow> kernel \<Rightarrow> u64 option" where
  "uxTaskPriorityGet xTask s = do { t \<leftarrow> prvGetTCBFromHandle s xTask; Some (uxPriority (tcb s t)) }"

definition uxTaskPriorityGetFromISR :: "nat option \<Rightarrow> kernel \<Rightarrow> u64 option" where
  "uxTaskPriorityGetFromISR xTask s = do { t \<leftarrow> prvGetTCBFromHandle s xTask; Some (uxPriority (tcb s t)) }"

text \<open>The event item carries the priority, unless an event group uses its value.\<close>

definition set_event_value :: "nat \<Rightarrow> u64 \<Rightarrow> kernel \<Rightarrow> kernel" where
  "set_event_value t prio s =
     (if xItemValue (lists s) (xEventListItem t) AND taskEVENT_LIST_ITEM_VALUE_IN_USE = 0
      then set_item_value (xEventListItem t) (configMAX_PRIORITIES - prio) s else s)"

definition vTaskPrioritySet :: "nat option \<Rightarrow> u64 \<Rightarrow> kernel \<Rightarrow> kernel option" where
  "vTaskPrioritySet xTask uxNewPriority s = do {
     let uxNewPriority = (if uxNewPriority \<ge> configMAX_PRIORITIES then configMAX_PRIORITIES - 1 else uxNewPriority);
     t \<leftarrow> prvGetTCBFromHandle s xTask;
     let uxCurrentBasePriority = uxBasePriority (tcb s t);
     if uxCurrentBasePriority \<noteq> uxNewPriority then do {
       xYieldRequired \<leftarrow>
         (if uxNewPriority > uxCurrentBasePriority then
            (if Some t \<noteq> pxCurrentTCB s then do {
               cur \<leftarrow> pxCurrentTCB s;
               Some (uxNewPriority \<ge> uxPriority (tcb s cur)) }
             else Some False)
          else Some (Some t = pxCurrentTCB s));
       let uxPriorityUsedOnEntry = uxPriority (tcb s t);
       let s = (if uxBasePriority (tcb s t) = uxPriority (tcb s t)
                then set_tcb t (\<lambda>c. c\<lparr>uxPriority := uxNewPriority\<rparr>) s else s);
       let s = set_tcb t (\<lambda>c. c\<lparr>uxBasePriority := uxNewPriority\<rparr>) s;
       let s = set_event_value t uxNewPriority s;
       l \<leftarrow> pxReadyTasksLists uxPriorityUsedOnEntry;
       s \<leftarrow> (if listIS_CONTAINED_WITHIN (lists s) l (xStateListItem t) then do {
                (n, s) \<leftarrow> kListRemove (xStateListItem t) s;
                let s = (if n = 0 then s\<lparr>uxTopReadyPriority :=
                           portRESET_READY_PRIORITY uxPriorityUsedOnEntry (uxTopReadyPriority s)\<rparr> else s);
                prvAddTaskToReadyList t s }
              else Some s);
       Some (if xYieldRequired then portYIELD s else s) }
     else Some s }"

definition pvTaskIncrementMutexHeldCount :: "kernel \<Rightarrow> nat option \<times> kernel" where
  "pvTaskIncrementMutexHeldCount s = (case pxCurrentTCB s of
     None \<Rightarrow> (None, s)
   | Some t \<Rightarrow> (Some t, set_tcb t (\<lambda>c. c\<lparr>uxMutexesHeld := uxMutexesHeld c + 1\<rparr>) s))"

definition xTaskPriorityInherit :: "nat option \<Rightarrow> kernel \<Rightarrow> (bool \<times> kernel) option" where
  "xTaskPriorityInherit pxMutexHolder s = (case pxMutexHolder of
     None \<Rightarrow> Some (False, s)
   | Some t \<Rightarrow> do {
       cur \<leftarrow> pxCurrentTCB s;
       if uxPriority (tcb s t) < uxPriority (tcb s cur) then do {
         let s = set_event_value t (uxPriority (tcb s cur)) s;
         l \<leftarrow> pxReadyTasksLists (uxPriority (tcb s t));
         s \<leftarrow> (if listIS_CONTAINED_WITHIN (lists s) l (xStateListItem t) then do {
                  (n, s) \<leftarrow> kListRemove (xStateListItem t) s;
                  let s = (if n = 0 then s\<lparr>uxTopReadyPriority :=
                             portRESET_READY_PRIORITY (uxPriority (tcb s t)) (uxTopReadyPriority s)\<rparr> else s);
                  let s = set_tcb t (\<lambda>c. c\<lparr>uxPriority := uxPriority (tcb s cur)\<rparr>) s;
                  prvAddTaskToReadyList t s }
                else Some (set_tcb t (\<lambda>c. c\<lparr>uxPriority := uxPriority (tcb s cur)\<rparr>) s));
         Some (True, s) }
       else Some (uxBasePriority (tcb s t) < uxPriority (tcb s cur), s) })"

definition xTaskPriorityDisinherit :: "nat option \<Rightarrow> kernel \<Rightarrow> (bool \<times> kernel) option" where
  "xTaskPriorityDisinherit pxMutexHolder s = (case pxMutexHolder of
     None \<Rightarrow> Some (False, s)
   | Some t \<Rightarrow> do {
       let s = set_tcb t (\<lambda>c. c\<lparr>uxMutexesHeld := uxMutexesHeld c - 1\<rparr>) s;
       if uxPriority (tcb s t) \<noteq> uxBasePriority (tcb s t) \<and> uxMutexesHeld (tcb s t) = 0 then do {
         (n, s) \<leftarrow> kListRemove (xStateListItem t) s;
         let s = (if n = 0 then s\<lparr>uxTopReadyPriority :=
                    portRESET_READY_PRIORITY (uxPriority (tcb s t)) (uxTopReadyPriority s)\<rparr> else s);
         let s = set_tcb t (\<lambda>c. c\<lparr>uxPriority := uxBasePriority c\<rparr>) s;
         let s = set_item_value (xEventListItem t) (configMAX_PRIORITIES - uxPriority (tcb s t)) s;
         s \<leftarrow> prvAddTaskToReadyList t s;
         Some (True, s) }
       else Some (False, s) })"

text \<open>The bit cleared after the removal is the one of the task's new priority, as in the code.\<close>

definition vTaskPriorityDisinheritAfterTimeout :: "nat option \<Rightarrow> u64 \<Rightarrow> kernel \<Rightarrow> kernel option" where
  "vTaskPriorityDisinheritAfterTimeout pxMutexHolder uxHighestPriorityWaitingTask s = (case pxMutexHolder of
     None \<Rightarrow> Some s
   | Some t \<Rightarrow> do {
       let uxPriorityToUse = (if uxBasePriority (tcb s t) < uxHighestPriorityWaitingTask
                              then uxHighestPriorityWaitingTask else uxBasePriority (tcb s t));
       if uxPriority (tcb s t) \<noteq> uxPriorityToUse \<and> uxMutexesHeld (tcb s t) = 1 then do {
         let uxPriorityUsedOnEntry = uxPriority (tcb s t);
         let s = set_tcb t (\<lambda>c. c\<lparr>uxPriority := uxPriorityToUse\<rparr>) s;
         let s = set_event_value t uxPriorityToUse s;
         l \<leftarrow> pxReadyTasksLists uxPriorityUsedOnEntry;
         if listIS_CONTAINED_WITHIN (lists s) l (xStateListItem t) then do {
           (n, s) \<leftarrow> kListRemove (xStateListItem t) s;
           let s = (if n = 0 then s\<lparr>uxTopReadyPriority :=
                      portRESET_READY_PRIORITY (uxPriority (tcb s t)) (uxTopReadyPriority s)\<rparr> else s);
           prvAddTaskToReadyList t s }
         else Some s }
       else Some s })"

subsection \<open>Event lists\<close>

definition uxTaskResetEventItemValue :: "kernel \<Rightarrow> (u64 \<times> kernel) option" where
  "uxTaskResetEventItemValue s = do {
     t \<leftarrow> pxCurrentTCB s;
     let uxReturn = xItemValue (lists s) (xEventListItem t);
     Some (uxReturn, set_item_value (xEventListItem t) (configMAX_PRIORITIES - uxPriority (tcb s t)) s) }"

definition vTaskPlaceOnEventList :: "nat \<Rightarrow> u64 \<Rightarrow> kernel \<Rightarrow> kernel option" where
  "vTaskPlaceOnEventList pxEventList xTicksToWait s = do {
     t \<leftarrow> pxCurrentTCB s;
     ls \<leftarrow> vListInsert (lists s) pxEventList (xEventListItem t);
     prvAddCurrentTaskToDelayedList xTicksToWait True (s\<lparr>lists := ls\<rparr>) }"

definition vTaskPlaceOnUnorderedEventList :: "nat \<Rightarrow> u64 \<Rightarrow> u64 \<Rightarrow> kernel \<Rightarrow> kernel option" where
  "vTaskPlaceOnUnorderedEventList pxEventList value xTicksToWait s = do {
     t \<leftarrow> pxCurrentTCB s;
     let s = set_item_value (xEventListItem t) (value OR taskEVENT_LIST_ITEM_VALUE_IN_USE) s;
     let s = s\<lparr>lists := vListInsertEnd (lists s) pxEventList (xEventListItem t)\<rparr>;
     prvAddCurrentTaskToDelayedList xTicksToWait True s }"

definition vTaskPlaceOnEventListRestricted :: "nat \<Rightarrow> u64 \<Rightarrow> bool \<Rightarrow> kernel \<Rightarrow> kernel option" where
  "vTaskPlaceOnEventListRestricted pxEventList xTicksToWait xWaitIndefinitely s = do {
     t \<leftarrow> pxCurrentTCB s;
     let s = s\<lparr>lists := vListInsertEnd (lists s) pxEventList (xEventListItem t)\<rparr>;
     let xTicksToWait = (if xWaitIndefinitely then portMAX_DELAY else xTicksToWait);
     prvAddCurrentTaskToDelayedList xTicksToWait xWaitIndefinitely s }"

definition xTaskRemoveFromEventList :: "nat \<Rightarrow> kernel \<Rightarrow> (bool \<times> kernel) option" where
  "xTaskRemoveFromEventList pxEventList s = do {
     let t = listGET_OWNER_OF_HEAD_ENTRY (lists s) pxEventList;
     (_, s) \<leftarrow> kListRemove (xEventListItem t) s;
     s \<leftarrow> (if uxSchedulerSuspended s = 0 then do {
              (_, s) \<leftarrow> kListRemove (xStateListItem t) s;
              prvAddTaskToReadyList t s }
            else Some (s\<lparr>lists := vListInsertEnd (lists s) xPendingReadyList (xEventListItem t)\<rparr>));
     cur \<leftarrow> pxCurrentTCB s;
     Some (if uxPriority (tcb s t) > uxPriority (tcb s cur) then (True, s\<lparr>xYieldPending := True\<rparr>)
           else (False, s)) }"

definition vTaskRemoveFromUnorderedEventList :: "node \<Rightarrow> u64 \<Rightarrow> kernel \<Rightarrow> kernel option" where
  "vTaskRemoveFromUnorderedEventList pxEventListItem value s = do {
     let s = set_item_value pxEventListItem (value OR taskEVENT_LIST_ITEM_VALUE_IN_USE) s;
     let t = pvOwner (lists s) pxEventListItem;
     (_, s) \<leftarrow> kListRemove pxEventListItem s;
     (_, s) \<leftarrow> kListRemove (xStateListItem t) s;
     s \<leftarrow> prvAddTaskToReadyList t s;
     cur \<leftarrow> pxCurrentTCB s;
     Some (if uxPriority (tcb s t) > uxPriority (tcb s cur) then s\<lparr>xYieldPending := True\<rparr> else s) }"

definition vTaskMissedYield :: "kernel \<Rightarrow> kernel" where
  "vTaskMissedYield s = s\<lparr>xYieldPending := True\<rparr>"

subsection \<open>Time-outs\<close>

record TimeOut_t =
  xOverflowCount :: u64
  xTimeOnEntering :: u64

definition vTaskInternalSetTimeOutState :: "kernel \<Rightarrow> TimeOut_t" where
  "vTaskInternalSetTimeOutState s = \<lparr>xOverflowCount = xNumOfOverflows s, xTimeOnEntering = xTickCount s\<rparr>"

definition vTaskSetTimeOutState :: "kernel \<Rightarrow> TimeOut_t" where
  "vTaskSetTimeOutState s = \<lparr>xOverflowCount = xNumOfOverflows s, xTimeOnEntering = xTickCount s\<rparr>"

text \<open>The result, \<open>*pxTimeOut\<close> and \<open>*pxTicksToWait\<close>.\<close>

definition xTaskCheckForTimeOut :: "kernel \<Rightarrow> TimeOut_t \<Rightarrow> u64 \<Rightarrow> bool \<times> TimeOut_t \<times> u64" where
  "xTaskCheckForTimeOut s pxTimeOut xTicksToWait =
     (let xConstTickCount = xTickCount s;
          xElapsedTime = xConstTickCount - xTimeOnEntering pxTimeOut
      in if xTicksToWait = portMAX_DELAY then (False, pxTimeOut, xTicksToWait)
         else if xNumOfOverflows s \<noteq> xOverflowCount pxTimeOut \<and> xConstTickCount \<ge> xTimeOnEntering pxTimeOut
         then (True, pxTimeOut, 0)
         else if xElapsedTime < xTicksToWait
         then (False, vTaskInternalSetTimeOutState s, xTicksToWait - xElapsedTime)
         else (True, pxTimeOut, 0))"

subsection \<open>Task notifications\<close>

datatype eNotifyAction = eNoAction | eSetBits | eIncrement | eSetValueWithOverwrite | eSetValueWithoutOverwrite

text \<open>The arrays have one entry, and an index outside them has no result.\<close>

definition notify_value :: "nat \<Rightarrow> nat \<Rightarrow> kernel \<Rightarrow> u32 option" where
  "notify_value t i s = get_at (ulNotifiedValue (tcb s t)) i"

definition notify_state :: "nat \<Rightarrow> nat \<Rightarrow> kernel \<Rightarrow> u8 option" where
  "notify_state t i s = get_at (ucNotifyState (tcb s t)) i"

definition set_notify_value :: "nat \<Rightarrow> nat \<Rightarrow> u32 \<Rightarrow> kernel \<Rightarrow> kernel option" where
  "set_notify_value t i v s = do {
     vs \<leftarrow> set_at (ulNotifiedValue (tcb s t)) i v;
     Some (set_tcb t (\<lambda>c. c\<lparr>ulNotifiedValue := vs\<rparr>) s) }"

definition set_notify_state :: "nat \<Rightarrow> nat \<Rightarrow> u8 \<Rightarrow> kernel \<Rightarrow> kernel option" where
  "set_notify_state t i v s = do {
     vs \<leftarrow> set_at (ucNotifyState (tcb s t)) i v;
     Some (set_tcb t (\<lambda>c. c\<lparr>ucNotifyState := vs\<rparr>) s) }"

text \<open>\<open>ulTaskGenericNotifyTake\<close>: the half that may block, and the half after it.\<close>

definition ulTaskGenericNotifyTake_enter :: "nat \<Rightarrow> u64 \<Rightarrow> kernel \<Rightarrow> kernel option" where
  "ulTaskGenericNotifyTake_enter i xTicksToWait s = do {
     t \<leftarrow> pxCurrentTCB s;
     v \<leftarrow> notify_value t i s;
     if v = 0 then do {
       s \<leftarrow> set_notify_state t i taskWAITING_NOTIFICATION s;
       if xTicksToWait > 0 then do {
         s \<leftarrow> prvAddCurrentTaskToDelayedList xTicksToWait True s;
         Some (portYIELD s) }
       else Some s }
     else Some s }"

definition ulTaskGenericNotifyTake_leave :: "nat \<Rightarrow> bool \<Rightarrow> kernel \<Rightarrow> (u32 \<times> kernel) option" where
  "ulTaskGenericNotifyTake_leave i xClearCountOnExit s = do {
     t \<leftarrow> pxCurrentTCB s;
     ulReturn \<leftarrow> notify_value t i s;
     s \<leftarrow> (if ulReturn \<noteq> 0 then set_notify_value t i (if xClearCountOnExit then 0 else ulReturn - 1) s
            else Some s);
     s \<leftarrow> set_notify_state t i taskNOT_WAITING_NOTIFICATION s;
     Some (ulReturn, s) }"

definition xTaskGenericNotifyWait_enter :: "nat \<Rightarrow> u32 \<Rightarrow> u64 \<Rightarrow> kernel \<Rightarrow> kernel option" where
  "xTaskGenericNotifyWait_enter i ulBitsToClearOnEntry xTicksToWait s = do {
     t \<leftarrow> pxCurrentTCB s;
     st \<leftarrow> notify_state t i s;
     if st \<noteq> taskNOTIFICATION_RECEIVED then do {
       v \<leftarrow> notify_value t i s;
       s \<leftarrow> set_notify_value t i (v AND NOT ulBitsToClearOnEntry) s;
       s \<leftarrow> set_notify_state t i taskWAITING_NOTIFICATION s;
       if xTicksToWait > 0 then do {
         s \<leftarrow> prvAddCurrentTaskToDelayedList xTicksToWait True s;
         Some (portYIELD s) }
       else Some s }
     else Some s }"

text \<open>The result, \<open>*pulNotificationValue\<close> and the state.\<close>

definition xTaskGenericNotifyWait_leave :: "nat \<Rightarrow> u32 \<Rightarrow> kernel \<Rightarrow> (bool \<times> u32 \<times> kernel) option" where
  "xTaskGenericNotifyWait_leave i ulBitsToClearOnExit s = do {
     t \<leftarrow> pxCurrentTCB s;
     v \<leftarrow> notify_value t i s;
     st \<leftarrow> notify_state t i s;
     (r, s) \<leftarrow> (if st \<noteq> taskNOTIFICATION_RECEIVED then Some (False, s)
                else do { s \<leftarrow> set_notify_value t i (v AND NOT ulBitsToClearOnExit) s; Some (True, s) });
     s \<leftarrow> set_notify_state t i taskNOT_WAITING_NOTIFICATION s;
     Some (r, v, s) }"

text \<open>The \<open>switch\<close> over the action: the new value, and whether it was written.\<close>

definition notify_action :: "eNotifyAction \<Rightarrow> u8 \<Rightarrow> u32 \<Rightarrow> u32 \<Rightarrow> u32 \<times> bool" where
  "notify_action eAction ucOriginalNotifyState old ulValue = (case eAction of
     eSetBits \<Rightarrow> (old OR ulValue, True)
   | eIncrement \<Rightarrow> (old + 1, True)
   | eSetValueWithOverwrite \<Rightarrow> (ulValue, True)
   | eSetValueWithoutOverwrite \<Rightarrow>
       (if ucOriginalNotifyState \<noteq> taskNOTIFICATION_RECEIVED then (ulValue, True) else (old, False))
   | eNoAction \<Rightarrow> (old, True))"

text \<open>The result is \<open>xReturn\<close>, the previous value and the state.\<close>

definition xTaskGenericNotify :: "nat \<Rightarrow> nat \<Rightarrow> u32 \<Rightarrow> eNotifyAction \<Rightarrow> kernel \<Rightarrow> (bool \<times> u32 \<times> kernel) option" where
  "xTaskGenericNotify t i ulValue eAction s = do {
     previous \<leftarrow> notify_value t i s;
     ucOriginalNotifyState \<leftarrow> notify_state t i s;
     s \<leftarrow> set_notify_state t i taskNOTIFICATION_RECEIVED s;
     let (v, xReturn) = notify_action eAction ucOriginalNotifyState previous ulValue;
     s \<leftarrow> set_notify_value t i v s;
     s \<leftarrow> (if ucOriginalNotifyState = taskWAITING_NOTIFICATION then do {
              (_, s) \<leftarrow> kListRemove (xStateListItem t) s;
              s \<leftarrow> prvAddTaskToReadyList t s;
              cur \<leftarrow> pxCurrentTCB s;
              Some (if uxPriority (tcb s t) > uxPriority (tcb s cur) then portYIELD s else s) }
            else Some s);
     Some (xReturn, previous, s) }"

text \<open>The part that makes a waiting task ready from an interrupt; the flag is \<open>*pxHigherPriorityTaskWoken\<close>.\<close>

definition notify_wake_from_isr :: "nat \<Rightarrow> kernel \<Rightarrow> (bool \<times> kernel) option" where
  "notify_wake_from_isr t s = do {
     s \<leftarrow> (if uxSchedulerSuspended s = 0 then do {
              (_, s) \<leftarrow> kListRemove (xStateListItem t) s;
              prvAddTaskToReadyList t s }
            else Some (s\<lparr>lists := vListInsertEnd (lists s) xPendingReadyList (xEventListItem t)\<rparr>));
     cur \<leftarrow> pxCurrentTCB s;
     Some (if uxPriority (tcb s t) > uxPriority (tcb s cur) then (True, s\<lparr>xYieldPending := True\<rparr>)
           else (False, s)) }"

definition xTaskGenericNotifyFromISR ::
  "nat \<Rightarrow> nat \<Rightarrow> u32 \<Rightarrow> eNotifyAction \<Rightarrow> kernel \<Rightarrow> (bool \<times> u32 \<times> bool \<times> kernel) option" where
  "xTaskGenericNotifyFromISR t i ulValue eAction s = do {
     previous \<leftarrow> notify_value t i s;
     ucOriginalNotifyState \<leftarrow> notify_state t i s;
     s \<leftarrow> set_notify_state t i taskNOTIFICATION_RECEIVED s;
     let (v, xReturn) = notify_action eAction ucOriginalNotifyState previous ulValue;
     s \<leftarrow> set_notify_value t i v s;
     (woken, s) \<leftarrow> (if ucOriginalNotifyState = taskWAITING_NOTIFICATION then notify_wake_from_isr t s
                    else Some (False, s));
     Some (xReturn, previous, woken, s) }"

definition vTaskGenericNotifyGiveFromISR :: "nat \<Rightarrow> nat \<Rightarrow> kernel \<Rightarrow> (bool \<times> kernel) option" where
  "vTaskGenericNotifyGiveFromISR t i s = do {
     ucOriginalNotifyState \<leftarrow> notify_state t i s;
     s \<leftarrow> set_notify_state t i taskNOTIFICATION_RECEIVED s;
     v \<leftarrow> notify_value t i s;
     s \<leftarrow> set_notify_value t i (v + 1) s;
     if ucOriginalNotifyState = taskWAITING_NOTIFICATION then notify_wake_from_isr t s
     else Some (False, s) }"

definition xTaskGenericNotifyStateClear :: "nat option \<Rightarrow> nat \<Rightarrow> kernel \<Rightarrow> (bool \<times> kernel) option" where
  "xTaskGenericNotifyStateClear xTask i s = do {
     t \<leftarrow> prvGetTCBFromHandle s xTask;
     st \<leftarrow> notify_state t i s;
     if st = taskNOTIFICATION_RECEIVED then do {
       s \<leftarrow> set_notify_state t i taskNOT_WAITING_NOTIFICATION s;
       Some (True, s) }
     else Some (False, s) }"

definition ulTaskGenericNotifyValueClear :: "nat option \<Rightarrow> nat \<Rightarrow> u32 \<Rightarrow> kernel \<Rightarrow> (u32 \<times> kernel) option" where
  "ulTaskGenericNotifyValueClear xTask i ulBitsToClear s = do {
     t \<leftarrow> prvGetTCBFromHandle s xTask;
     v \<leftarrow> notify_value t i s;
     s \<leftarrow> set_notify_value t i (v AND NOT ulBitsToClear) s;
     Some (v, s) }"

end
