(* ===== verification/Kernel_Members.thy ===== *)
theory Kernel_Members
  imports Kernel_List
begin

text \<open>
  All lists of the kernel at once. \<open>members s l\<close> reads a list by following its pointers;
  \<open>list_ok D s\<close> says that every list of \<open>D\<close> is well formed and that items are in no other list. The
  operations of \<open>list.c\<close> are described by what they do to the members and the containers, so
  that the proofs about the scheduler need no pointers.
\<close>

fun list_walk :: "(node \<Rightarrow> node) \<Rightarrow> node \<Rightarrow> nat \<Rightarrow> node list" where
  "list_walk nx x 0 = []"
| "list_walk nx x (Suc n) = x # list_walk nx (nx x) n"

definition members :: "list_store \<Rightarrow> nat \<Rightarrow> node list" where
  "members s l = list_walk (pxNext s) (pxNext s (End l)) (unat (uxNumberOfItems s l))"

lemma list_walk_links: "links nx pv (h # xs @ [e]) \<Longrightarrow> list_walk nx (nx h) (length xs) = xs"
  by (induction xs arbitrary: h) auto

lemma klist_members: "klist s l xs \<Longrightarrow> members s l = xs"
  by (auto simp: klist_def members_def ring_list_def intro: list_walk_links)

definition list_ok :: "nat set \<Rightarrow> list_store \<Rightarrow> bool" where
  "list_ok D s \<longleftrightarrow> (\<forall>l\<in>D. klist s l (members s l)) \<and>
     (\<forall>x l. pxContainer s x = Some l \<longrightarrow> l \<in> D \<and> (\<exists>k. x = Item k \<and> k < 2 ^ 63))"

lemma list_okD: "list_ok D s \<Longrightarrow> l \<in> D \<Longrightarrow> klist s l (members s l)"
  by (simp add: list_ok_def)

lemma list_ok_container: "list_ok D s \<Longrightarrow> pxContainer s x = Some l \<Longrightarrow> l \<in> D \<and> (\<exists>k. x = Item k \<and> k < 2 ^ 63)"
  by (simp add: list_ok_def)

lemma members_container: "list_ok D s \<Longrightarrow> l \<in> D \<Longrightarrow> x \<in> set (members s l) \<longleftrightarrow> pxContainer s x = Some l"
  using klist_container list_okD by metis

lemma members_distinct: "list_ok D s \<Longrightarrow> l \<in> D \<Longrightarrow> distinct (members s l)"
  using klist_distinct list_okD by metis

lemma members_empty: "list_ok D s \<Longrightarrow> l \<in> D \<Longrightarrow> members s l = [] \<longleftrightarrow> (\<forall>x. pxContainer s x \<noteq> Some l)"
  using members_container [of D s l] by (metis last_in_set list.set(1) equals0D)

lemma members_length:
  assumes "list_ok D s" "l \<in> D"
  shows "length (members s l) \<le> 2 ^ 63"
proof -
  have "set (members s l) \<subseteq> Item ` {..<2 ^ 63}"
    using members_container [OF assms] list_ok_container [OF assms(1)] by (metis image_eqI lessThan_iff subsetI)
  then have "card (set (members s l)) \<le> card (Item ` {..<2 ^ 63})" by (intro card_mono) auto
  also have "\<dots> \<le> card {..<2 ^ 63 :: nat}" by (rule card_image_le) simp
  finally show ?thesis using members_distinct [OF assms] by (simp add: distinct_card)
qed

lemma members_count: "list_ok D s \<Longrightarrow> l \<in> D \<Longrightarrow> unat (uxNumberOfItems s l) = length (members s l)"
  using list_okD [of D s l] by (simp add: klist_def)

lemma members_is_empty: "list_ok D s \<Longrightarrow> l \<in> D \<Longrightarrow> listLIST_IS_EMPTY s l \<longleftrightarrow> members s l = []"
  using klist_is_empty list_okD by metis

lemma members_none: "list_ok D s \<Longrightarrow> l \<in> D \<Longrightarrow> uxNumberOfItems s l = 0 \<longleftrightarrow> members s l = []"
  using members_is_empty by (simp add: listLIST_IS_EMPTY_def)

lemma members_head:
  "list_ok D s \<Longrightarrow> l \<in> D \<Longrightarrow> members s l = x # xs \<Longrightarrow>
     listGET_OWNER_OF_HEAD_ENTRY s l = pvOwner s x \<and> listGET_ITEM_VALUE_OF_HEAD_ENTRY s l = xItemValue s x"
  using klist_head [OF list_okD, of D s l]
  by (simp add: listGET_HEAD_ENTRY_def listGET_OWNER_OF_HEAD_ENTRY_def listGET_ITEM_VALUE_OF_HEAD_ENTRY_def)

text \<open>How a step that keeps the well-formedness of the other lists is put together.\<close>

lemma list_ok_step:
  assumes ok: "list_ok D s" and l: "l \<in> D" "klist s' l xs"
    and others: "\<And>m ws. m \<noteq> l \<Longrightarrow> klist s m ws \<Longrightarrow> klist s' m ws"
    and cont: "\<And>x m. pxContainer s' x = Some m \<Longrightarrow> m \<in> D \<and> (\<exists>k. x = Item k \<and> k < 2 ^ 63)"
  shows "list_ok D s'" "members s' l = xs" "\<And>m. m \<in> D \<Longrightarrow> m \<noteq> l \<Longrightarrow> members s' m = members s m"
proof -
  have k: "klist s' m (members s m)" if "m \<in> D" "m \<noteq> l" for m
    using others [OF that(2)] list_okD [OF ok that(1)] .
  show "members s' l = xs" using klist_members [OF l(2)] .
  moreover show "\<And>m. m \<in> D \<Longrightarrow> m \<noteq> l \<Longrightarrow> members s' m = members s m" using klist_members [OF k] .
  ultimately show "list_ok D s'" using k l cont unfolding list_ok_def by metis
qed

lemma vListInsertEnd_fields [simp]:
  "pxContainer (vListInsertEnd s l n) = (pxContainer s)(n := Some l)"
  "xItemValue (vListInsertEnd s l n) = xItemValue s" "pvOwner (vListInsertEnd s l n) = pvOwner s"
  "pxIndex (vListInsertEnd s l n) = pxIndex s"
  by (simp_all add: vListInsertEnd_def Let_def)

lemma klist_insert_end:
  assumes k: "klist s l xs" and n: "pxContainer s n = None" "\<forall>m. n \<noteq> End m" and len: "length xs + 1 < 2 ^ 64"
  shows "\<exists>xs'. klist (vListInsertEnd s l n) l xs' \<and> (pxIndex s l = End l \<longrightarrow> xs' = xs @ [n]) \<and>
    (\<forall>m ws. m \<noteq> l \<longrightarrow> klist s m ws \<longrightarrow> klist (vListInsertEnd s l n) m ws)"
proof -
  obtain xs' where xs': "klist (vListInsertEnd s l n) l xs'"
    "walk_order (vListInsertEnd s l n) l xs' =
      (if pxIndex s l = End l then walk_order s l xs @ [n] else butlast (walk_order s l xs) @ [n, pxIndex s l])"
    "\<forall>m ws. m \<noteq> l \<longrightarrow> klist s m ws \<longrightarrow> klist (vListInsertEnd s l n) m ws"
    using vListInsertEnd_klist [OF assms] by auto
  moreover have "xs' = xs @ [n]" if "pxIndex s l = End l"
    using xs'(2) that by (simp add: walk_order_End)
  ultimately show ?thesis by blast
qed

lemma list_ok_insert_end:
  assumes ok: "list_ok D s" and l: "l \<in> D" and n: "pxContainer s (Item k) = None" "k < 2 ^ 63"
  shows "list_ok D (vListInsertEnd s l (Item k))"
    "\<And>m. m \<in> D \<Longrightarrow> m \<noteq> l \<Longrightarrow> members (vListInsertEnd s l (Item k)) m = members s m"
    "pxIndex s l = End l \<Longrightarrow> members (vListInsertEnd s l (Item k)) l = members s l @ [Item k]"
proof -
  have len: "length (members s l) + 1 < 2 ^ 64" using members_length [OF ok l] by simp
  obtain xs' where xs': "klist (vListInsertEnd s l (Item k)) l xs'" "pxIndex s l = End l \<longrightarrow> xs' = members s l @ [Item k]"
    "\<forall>m ws. m \<noteq> l \<longrightarrow> klist s m ws \<longrightarrow> klist (vListInsertEnd s l (Item k)) m ws"
    using klist_insert_end [OF list_okD [OF ok l] n(1) _ len] by auto
  have cont: "m \<in> D \<and> (\<exists>k. x = Item k \<and> k < 2 ^ 63)"
    if "pxContainer (vListInsertEnd s l (Item k)) x = Some m" for x m
    using that list_ok_container [OF ok, of x m] l n(2) by (auto split: if_splits)
  note step = list_ok_step [OF ok l xs'(1) _ cont]
  show "list_ok D (vListInsertEnd s l (Item k))"
    "\<And>m. m \<in> D \<Longrightarrow> m \<noteq> l \<Longrightarrow> members (vListInsertEnd s l (Item k)) m = members s m"
    "pxIndex s l = End l \<Longrightarrow> members (vListInsertEnd s l (Item k)) l = members s l @ [Item k]"
    using step xs'(2,3) by simp_all
qed

lemma members_insert_end_set:
  assumes "list_ok D s" "l \<in> D" "pxContainer s (Item k) = None" "k < 2 ^ 63"
  shows "set (members (vListInsertEnd s l (Item k)) l) = insert (Item k) (set (members s l))"
  using members_container [OF list_ok_insert_end(1) [OF assms] assms(2)] members_container [OF assms(1,2)]
  by (auto split: if_splits)

lemma members_insert_end_length:
  assumes "list_ok D s" "l \<in> D" "pxContainer s (Item k) = None" "k < 2 ^ 63"
  shows "length (members (vListInsertEnd s l (Item k)) l) = Suc (length (members s l))"
proof -
  have "length (members (vListInsertEnd s l (Item k)) l) = card (insert (Item k) (set (members s l)))"
    using members_insert_end_set [OF assms] members_distinct [OF list_ok_insert_end(1) [OF assms] assms(2)]
    by (metis distinct_card)
  moreover have "Item k \<notin> set (members s l)" using members_container [OF assms(1,2)] assms(3) by simp
  ultimately show ?thesis using members_distinct [OF assms(1,2)] by (simp add: distinct_card)
qed

lemma list_ok_insert:
  assumes ok: "list_ok D s" and l: "l \<in> D" and n: "pxContainer s (Item k) = None" "k < 2 ^ 63"
  obtains s' where "vListInsert s l (Item k) = Some s'" "list_ok D s'"
    "members s' l = insert_pos (xItemValue s) (Item k) (members s l)"
    "\<And>m. m \<in> D \<Longrightarrow> m \<noteq> l \<Longrightarrow> members s' m = members s m"
    "pxContainer s' = (pxContainer s)(Item k := Some l)" "xItemValue s' = xItemValue s" "pvOwner s' = pvOwner s"
    "pxIndex s' = pxIndex s"
proof -
  have len: "length (members s l) + 1 < 2 ^ 64" using members_length [OF ok l] by simp
  obtain s' where s': "vListInsert s l (Item k) = Some s'"
    "klist s' l (insert_pos (xItemValue s) (Item k) (members s l))" "xItemValue s' = xItemValue s" "pvOwner s' = pvOwner s"
    "\<forall>m ws. m \<noteq> l \<longrightarrow> klist s m ws \<longrightarrow> klist s' m ws"
    using vListInsert_klist [OF list_okD [OF ok l] n(1) _ len] by auto
  have c: "pxContainer s' = (pxContainer s)(Item k := Some l)" "pxIndex s' = pxIndex s"
    using s'(1) by (auto simp: vListInsert_def Let_def bind_eq_Some_conv)
  have cont: "m \<in> D \<and> (\<exists>k. x = Item k \<and> k < 2 ^ 63)" if "pxContainer s' x = Some m" for x m
    using that list_ok_container [OF ok, of x m] l n(2) by (auto simp: c split: if_splits)
  note step = list_ok_step [OF ok l s'(2) _ cont]
  show ?thesis by (rule that [OF s'(1) _ _ _ c(1) s'(3,4) c(2)]) (use step s'(5) in auto)
qed

lemma of_nat_64_0: "length xs \<le> 2 ^ 63 \<Longrightarrow> (of_nat (length xs) :: u64) = 0 \<longleftrightarrow> xs = []"
proof -
  assume "length xs \<le> 2 ^ 63"
  then have "unat (of_nat (length xs) :: u64) = length xs" by (intro unat_of_nat_lt) simp
  then show ?thesis by (metis length_0_conv unat_eq_0)
qed

lemma list_ok_remove:
  assumes ok: "list_ok D s" and x: "pxContainer s x = Some l"
  obtains n s' where "uxListRemove s x = Some (n, s')" "list_ok D s'" "n = 0 \<longleftrightarrow> members s' l = []"
    "members s' l = remove1 x (members s l)"
    "\<And>m. m \<in> D \<Longrightarrow> m \<noteq> l \<Longrightarrow> members s' m = members s m"
    "pxContainer s' = (pxContainer s)(x := None)" "xItemValue s' = xItemValue s" "pvOwner s' = pvOwner s"
    "pxIndex s l = End l \<Longrightarrow> pxIndex s' l = End l"
proof -
  have l: "l \<in> D" using list_ok_container [OF ok x] by simp
  obtain ys zs where xs: "members s l = ys @ x # zs" using members_container [OF ok l] x by (metis split_list)
  have dist: "distinct (ys @ x # zs)" using members_distinct [OF ok l] xs by simp
  have k: "klist s l (ys @ x # zs)" using list_okD [OF ok l] xs by simp
  have xe: "x \<noteq> End l" using list_ok_container [OF ok x] by auto
  obtain s' where s': "uxListRemove s x = Some (of_nat (length (ys @ zs)), s')" "klist s' l (ys @ zs)"
    "xItemValue s' = xItemValue s" "pvOwner s' = pvOwner s" "pxIndex s l \<noteq> x \<longrightarrow> pxIndex s' l = pxIndex s l"
    "\<forall>m ws. m \<noteq> l \<longrightarrow> klist s m ws \<longrightarrow> klist s' m ws"
    using uxListRemove_klist [OF k] by auto
  have c: "pxContainer s' = (pxContainer s)(x := None)"
    using s'(1) by (auto simp: uxListRemove_def Let_def bind_eq_Some_conv split: if_splits)
  have cont: "m \<in> D \<and> (\<exists>k. x = Item k \<and> k < 2 ^ 63)" if "pxContainer s' x = Some m" for x m
    using that list_ok_container [OF ok, of x m] by (auto simp: c split: if_splits)
  note step = list_ok_step [OF ok l s'(2) _ cont]
  have "length (ys @ zs) \<le> 2 ^ 63" using members_length [OF ok l] xs by simp
  then have z: "(of_nat (length (ys @ zs)) :: u64) = 0 \<longleftrightarrow> ys @ zs = []" by (rule of_nat_64_0)
  have rm: "remove1 x (members s l) = ys @ zs" using xs dist by (simp add: remove1_append)
  show ?thesis
    by (rule that [OF s'(1) _ _ _ _ c s'(3,4)]) (use step s'(5,6) z xe rm in auto)
qed

lemma list_ok_cong:
  assumes ok: "list_ok D s"
    and same: "pxNext s' = pxNext s" "pxPrevious s' = pxPrevious s" "pxContainer s' = pxContainer s"
      "uxNumberOfItems s' = uxNumberOfItems s"
    and index: "\<And>l. l \<in> D \<Longrightarrow> pxIndex s' l \<in> set (End l # members s l)"
    and ends: "\<And>l. xItemValue s' (End l) = xItemValue s (End l)"
  shows "list_ok D s'" "members s' = members s"
proof -
  show m: "members s' = members s" by (rule ext) (simp add: members_def same)
  show "list_ok D s'" using ok index ends unfolding list_ok_def m by (auto simp: klist_def same)
qed

lemma index_in: "list_ok D s \<Longrightarrow> l \<in> D \<Longrightarrow> pxIndex s l \<in> set (End l # members s l)"
  using list_okD [of D s l] by (simp add: klist_def)

lemma list_ok_value:
  assumes "list_ok D s"
  shows "list_ok D (s\<lparr>xItemValue := (xItemValue s)(Item k := v)\<rparr>)"
    "members (s\<lparr>xItemValue := (xItemValue s)(Item k := v)\<rparr>) = members s"
  using list_ok_cong [OF assms, of "s\<lparr>xItemValue := (xItemValue s)(Item k := v)\<rparr>"] index_in [OF assms] by simp_all

lemma list_ok_owner:
  assumes "list_ok D s"
  shows "list_ok D (s\<lparr>pvOwner := w\<rparr>)" "members (s\<lparr>pvOwner := w\<rparr>) = members s"
  using list_ok_cong [OF assms, of "s\<lparr>pvOwner := w\<rparr>"] index_in [OF assms] by simp_all

lemma list_ok_next_entry:
  assumes ok: "list_ok D s" and l: "l \<in> D" and ne: "members s l \<noteq> []"
  obtains x s' where "listGET_OWNER_OF_NEXT_ENTRY s l = (pvOwner s x, s')" "x \<in> set (members s l)"
    "list_ok D s'" "members s' = members s" "pxContainer s' = pxContainer s" "xItemValue s' = xItemValue s"
    "pvOwner s' = pvOwner s" "\<And>m. m \<noteq> l \<Longrightarrow> pxIndex s' m = pxIndex s m" "x = hd (walk_order s l (members s l))"
proof -
  note k = list_okD [OF ok l]
  obtain x ws where w: "walk_order s l (members s l) = x # ws"
    using mset_walk_order [OF k] ne by (cases "walk_order s l (members s l)") auto
  obtain s' where s': "listGET_OWNER_OF_NEXT_ENTRY s l = (pvOwner s x, s')" "pxIndex s' l = x"
    using next_entry_klist [OF k w] by auto
  have f: "pxNext s' = pxNext s" "pxPrevious s' = pxPrevious s" "pxContainer s' = pxContainer s"
    "uxNumberOfItems s' = uxNumberOfItems s" "xItemValue s' = xItemValue s" "pvOwner s' = pvOwner s"
    "\<And>m. m \<noteq> l \<Longrightarrow> pxIndex s' m = pxIndex s m"
    using s'(1) by (auto simp: listGET_OWNER_OF_NEXT_ENTRY_def Let_def split: if_splits)
  have x: "x \<in> set (members s l)" using mset_walk_order [OF k] w by auto
  have "pxIndex s' m \<in> set (End m # members s m)" if "m \<in> D" for m
    using index_in [OF ok that] f(7) [of m] s'(2) x by (cases "m = l") auto
  note cong = list_ok_cong [OF ok f(1-4) this]
  show ?thesis by (rule that [OF s'(1) x _ _ f(3,5,6,7)]) (use cong f w in simp_all)
qed

end
