(* ===== verification/Task_Inv.thy ===== *)
theory Task_Inv
  imports Task_Sync Kernel_Members
begin

text \<open>
  The invariant of the scheduler, relative to the set \<open>T\<close> of tasks that exist, the set \<open>D\<close> of
  lists that are initialised and, in the middle of an operation, the set \<open>H\<close> of tasks whose state
  item is in no list; and how the building blocks of the operations preserve it.
\<close>

lemma item_simps [simp]:
  "xStateListItem t = xStateListItem u \<longleftrightarrow> t = u" "xEventListItem t = xEventListItem u \<longleftrightarrow> t = u"
  "xStateListItem t \<noteq> xEventListItem u" "xEventListItem u \<noteq> xStateListItem t"
  "xStateListItem t \<noteq> End l" "xEventListItem t \<noteq> End l"
  by (auto simp: xStateListItem_def xEventListItem_def) presburger+

lemma item_cases:
  obtains (state) t where "Item k = xStateListItem t" | (event) t where "Item k = xEventListItem t"
  using oddE [of k] evenE [of k] unfolding xStateListItem_def xEventListItem_def by metis

subsection \<open>The invariant\<close>

text \<open>
  Where the state item of a task is: a ready task is in the list of its priority; otherwise it
  is delayed, suspended or awaits its deletion.
\<close>

definition place_of :: "u64 \<Rightarrow> nat \<Rightarrow> bool" where
  "place_of prio l \<longleftrightarrow> l < 32 \<and> l = unat prio \<or> l \<in> {32, 33, 35, 36}"

definition state_place :: "nat set \<Rightarrow> nat set \<Rightarrow> kernel \<Rightarrow> bool" where
  "state_place T H s \<longleftrightarrow> (\<forall>t\<in>T - H. pxContainer (lists s) (xStateListItem t) \<noteq> None) \<and>
     (\<forall>t l. pxContainer (lists s) (xStateListItem t) = Some l \<longrightarrow> t \<in> T - H \<and> place_of (uxPriority (tcb s t)) l)"

definition event_place :: "nat set \<Rightarrow> kernel \<Rightarrow> bool" where
  "event_place T s \<longleftrightarrow> (\<forall>t l. pxContainer (lists s) (xEventListItem t) = Some l \<longrightarrow>
     t \<in> T \<and> (l = xPendingReadyList \<or> xSuspendedTaskList < l) \<and>
       pxContainer (lists s) (xStateListItem t) \<noteq> Some xTasksWaitingTermination)"

definition ready_bits :: "kernel \<Rightarrow> bool" where
  "ready_bits s \<longleftrightarrow> (\<forall>p. bit (uxTopReadyPriority s) p \<longleftrightarrow> p < 32 \<and> members (lists s) p \<noteq> [])"

definition task_fields :: "nat set \<Rightarrow> kernel \<Rightarrow> bool" where
  "task_fields T s \<longleftrightarrow> (\<forall>t\<in>T. t < 2 ^ 62 \<and> uxPriority (tcb s t) < 32 \<and> uxBasePriority (tcb s t) < 32 \<and>
     pvOwner (lists s) (xStateListItem t) = t \<and> pvOwner (lists s) (xEventListItem t) = t)"

definition delayed_lists :: "kernel \<Rightarrow> bool" where
  "delayed_lists s \<longleftrightarrow> (pxDelayedTaskList s, pxOverflowDelayedTaskList s) \<in>
     {(xDelayedTaskList1, xDelayedTaskList2), (xDelayedTaskList2, xDelayedTaskList1)}"

definition kernel_ok :: "nat set \<Rightarrow> nat set \<Rightarrow> nat set \<Rightarrow> kernel \<Rightarrow> bool" where
  "kernel_ok T D H s \<longleftrightarrow> list_ok D (lists s) \<and> {..36} \<subseteq> D \<and> H \<subseteq> T \<and> task_fields T s \<and>
     state_place T H s \<and> event_place T s \<and> ready_bits s \<and> delayed_lists s"

text \<open>
  The delayed lists are sorted by wake time; a task in the current one wakes strictly after the
  tick count and not before \<open>xNextTaskUnblockTime\<close>, a task in the overflow list wakes at or
  before it, that is, after the counter has wrapped.
\<close>

definition wake_times :: "kernel \<Rightarrow> nat \<Rightarrow> u64 list" where
  "wake_times s l = map (xItemValue (lists s)) (members (lists s) l)"

definition delay_ok :: "kernel \<Rightarrow> bool" where
  "delay_ok s \<longleftrightarrow> sorted (wake_times s (pxDelayedTaskList s)) \<and> sorted (wake_times s (pxOverflowDelayedTaskList s)) \<and>
     (\<forall>v\<in>set (wake_times s (pxDelayedTaskList s)). xTickCount s < v \<and> xNextTaskUnblockTime s \<le> v) \<and>
     (\<forall>v\<in>set (wake_times s (pxOverflowDelayedTaskList s)). v \<le> xTickCount s)"

definition count_ok :: "nat set \<Rightarrow> kernel \<Rightarrow> bool" where
  "count_ok T s \<longleftrightarrow> uxCurrentNumberOfTasks s = of_nat (card T) \<and>
     unat (uxDeletedTasksWaitingCleanUp s) = length (members (lists s) xTasksWaitingTermination)"

definition kernel_inv :: "nat set \<Rightarrow> nat set \<Rightarrow> kernel \<Rightarrow> bool" where
  "kernel_inv T D s \<longleftrightarrow> kernel_ok T D {} s \<and> delay_ok s \<and> count_ok T s \<and> (\<exists>c\<in>T. pxCurrentTCB s = Some c)"

subsection \<open>Reading the invariant\<close>

lemma kernel_lists: "kernel_ok T D H s \<Longrightarrow> list_ok D (lists s)"
  by (simp add: kernel_ok_def)

lemma kernel_dom: "kernel_ok T D H s \<Longrightarrow> l \<le> 36 \<Longrightarrow> l \<in> D"
  by (auto simp: kernel_ok_def)

lemma kernel_task:
  assumes "kernel_ok T D H s" "t \<in> T"
  shows "t < 2 ^ 62" "uxPriority (tcb s t) < 32" "uxBasePriority (tcb s t) < 32"
    "pvOwner (lists s) (xStateListItem t) = t" "pvOwner (lists s) (xEventListItem t) = t"
  using assms by (simp_all add: kernel_ok_def task_fields_def)

lemma prio_nat: "(p :: u64) < 32 \<Longrightarrow> unat p < 32"
  by (simp add: word_less_nat_alt)

lemma kernel_placeD:
  assumes "kernel_ok T D H s" "pxContainer (lists s) (xStateListItem t) = Some l"
  shows "t \<in> T" "t \<notin> H" "l < 32 \<Longrightarrow> l = unat (uxPriority (tcb s t))" "\<not> l < 32 \<Longrightarrow> l \<in> {32, 33, 35, 36}"
proof -
  have "state_place T H s" using assms(1) by (simp add: kernel_ok_def)
  then have *: "t \<in> T - H" "place_of (uxPriority (tcb s t)) l" using assms(2) unfolding state_place_def by blast+
  then show "t \<in> T" "t \<notin> H" by simp_all
  show "l < 32 \<Longrightarrow> l = unat (uxPriority (tcb s t))" using *(2) unfolding place_of_def by auto
  show "\<not> l < 32 \<Longrightarrow> l \<in> {32, 33, 35, 36}" using *(2) unfolding place_of_def by simp
qed

lemma kernel_place:
  assumes "kernel_ok T D H s" "t \<in> T" "t \<notin> H"
  obtains l where "pxContainer (lists s) (xStateListItem t) = Some l"
  using assms unfolding kernel_ok_def state_place_def by blast

lemma kernel_held: "kernel_ok T D H s \<Longrightarrow> t \<in> H \<Longrightarrow> pxContainer (lists s) (xStateListItem t) = None"
  using kernel_placeD(2) by (metis option.exhaust)

lemma kernel_eventD:
  assumes "kernel_ok T D H s" "pxContainer (lists s) (xEventListItem t) = Some l"
  shows "t \<in> T" "l = xPendingReadyList \<or> xSuspendedTaskList < l"
    "pxContainer (lists s) (xStateListItem t) \<noteq> Some xTasksWaitingTermination"
  using assms by (auto simp: kernel_ok_def event_place_def)

text \<open>A member of one of the state lists is the state item of a task.\<close>

lemma kernel_member:
  assumes ok: "kernel_ok T D H s" and l: "l < 34 \<or> l = 35 \<or> l = 36" and x: "x \<in> set (members (lists s) l)"
  obtains t where "x = xStateListItem t" "t \<in> T" "t \<notin> H" "pvOwner (lists s) x = t"
proof -
  have D: "l \<in> D" using kernel_dom [OF ok] l by auto
  have c: "pxContainer (lists s) x = Some l" using members_container [OF kernel_lists [OF ok] D] x by simp
  then obtain k where k: "x = Item k" using list_ok_container [OF kernel_lists [OF ok]] by blast
  show ?thesis
  proof (cases rule: item_cases [of k])
    case (state t)
    then show ?thesis using that [of t] k c kernel_placeD [OF ok, of t l] kernel_task(4) [OF ok] by simp
  next
    case (event t)
    then show ?thesis using kernel_eventD(2) [OF ok, of t l] k c l by auto
  qed
qed

lemma kernel_pending:
  assumes ok: "kernel_ok T D H s" and l: "l = 34 \<or> 36 < l" and x: "x \<in> set (members (lists s) l)" and D: "l \<in> D"
  obtains t where "x = xEventListItem t" "t \<in> T" "pvOwner (lists s) x = t"
proof -
  have c: "pxContainer (lists s) x = Some l" using members_container [OF kernel_lists [OF ok] D] x by simp
  then obtain k where k: "x = Item k" using list_ok_container [OF kernel_lists [OF ok]] by blast
  show ?thesis
  proof (cases rule: item_cases [of k])
    case (event t)
    then show ?thesis using that [of t] k c kernel_eventD [OF ok, of t l] kernel_task(5) [OF ok] by simp
  next
    case (state t)
    then show ?thesis using kernel_placeD [OF ok, of t l] k c l by (cases "l < 32") auto
  qed
qed

subsection \<open>The bitmap of ready priorities\<close>

lemma bit_record: "p < 32 \<Longrightarrow> bit (portRECORD_READY_PRIORITY p w) i \<longleftrightarrow> i = unat p \<or> bit w i"
  using prio_nat [of p] by (auto simp: portRECORD_READY_PRIORITY_def bit_or_iff bit_push_bit_iff bit_exp_iff)

lemma bit_reset: "p < 32 \<Longrightarrow> bit (portRESET_READY_PRIORITY p w) i \<longleftrightarrow> i \<noteq> unat p \<and> bit w i"
  using prio_nat [of p] by (auto simp: portRESET_READY_PRIORITY_def bit_and_iff bit_not_iff bit_exp_iff dest: bit_imp_le_length)

subsection \<open>Frames\<close>

lemma kernel_ok_cong:
  assumes "kernel_ok T D H s"
    and "lists s' = lists s" "uxTopReadyPriority s' = uxTopReadyPriority s"
      "pxDelayedTaskList s' = pxDelayedTaskList s" "pxOverflowDelayedTaskList s' = pxOverflowDelayedTaskList s"
      "\<And>t. uxPriority (tcb s' t) = uxPriority (tcb s t)" "\<And>t. uxBasePriority (tcb s' t) = uxBasePriority (tcb s t)"
  shows "kernel_ok T D H s'"
  using assms(1) unfolding kernel_ok_def task_fields_def state_place_def event_place_def ready_bits_def delayed_lists_def assms(2-)
  .

lemma delay_ok_cong:
  assumes "delay_ok s" "lists s' = lists s" "pxDelayedTaskList s' = pxDelayedTaskList s"
    "pxOverflowDelayedTaskList s' = pxOverflowDelayedTaskList s" "xTickCount s' = xTickCount s"
    "xNextTaskUnblockTime s' = xNextTaskUnblockTime s"
  shows "delay_ok s'"
  using assms by (simp add: delay_ok_def wake_times_def)

end
