(* ===== verification/Task_Steps.thy ===== *)
theory Task_Steps
  imports Task_Inv
begin

text \<open>
  The building blocks of the scheduler's operations: taking the state item of a task out of its
  list, putting it into a ready list, a delayed list or one of the other lists, and moving the
  event item; each with what it does to the invariant.
\<close>

definition ready_map :: "list_store \<Rightarrow> u64 \<Rightarrow> bool" where
  "ready_map ls w \<longleftrightarrow> (\<forall>p. bit w p \<longleftrightarrow> p < 32 \<and> members ls p \<noteq> [])"

lemma kernel_bits: "kernel_ok T D H s \<Longrightarrow> ready_map (lists s) (uxTopReadyPriority s)"
  by (simp add: kernel_ok_def ready_bits_def ready_map_def)

lemma ready_map_other: "ready_map ls w \<Longrightarrow> (\<And>p. p < 32 \<Longrightarrow> members ls' p = members ls p) \<Longrightarrow> ready_map ls' w"
  by (auto simp: ready_map_def)

lemma state_item: "xStateListItem t = Item (2 * t)" by (simp add: xStateListItem_def)
lemma event_item: "xEventListItem t = Item (2 * t + 1)" by (simp add: xEventListItem_def)

lemma state_index: "t < 2 ^ 62 \<Longrightarrow> 2 * t < (2 :: nat) ^ 63" by simp
lemma event_index: "t < 2 ^ 62 \<Longrightarrow> 2 * t + 1 < (2 :: nat) ^ 63" by simp

text \<open>A step that changes the lists and the bitmap, its parts one by one.\<close>

lemma kernel_ok_lists:
  assumes ok: "kernel_ok T D H s" and H: "H' \<subseteq> T"
    and ls: "list_ok D ls" "pvOwner ls = pvOwner (lists s)" "ready_map ls w"
    and place: "state_place T H' (s\<lparr>lists := ls\<rparr>)" "event_place T (s\<lparr>lists := ls\<rparr>)"
  shows "kernel_ok T D H' (s\<lparr>lists := ls, uxTopReadyPriority := w\<rparr>)"
  using assms
  by (simp add: kernel_ok_def task_fields_def state_place_def event_place_def ready_map_def ready_bits_def delayed_lists_def)

lemma kernel_state_place: "kernel_ok T D H s \<Longrightarrow> state_place T H s"
  by (simp add: kernel_ok_def)

lemma kernel_event_place: "kernel_ok T D H s \<Longrightarrow> event_place T s"
  by (simp add: kernel_ok_def)

lemma state_place_take:
  "state_place T H s \<Longrightarrow> pxContainer ls = (pxContainer (lists s))(xStateListItem t := None) \<Longrightarrow>
     state_place T (insert t H) (s\<lparr>lists := ls\<rparr>)"
  by (simp add: state_place_def)

lemma state_place_put:
  "state_place T H s \<Longrightarrow> t \<in> T \<Longrightarrow> pxContainer ls = (pxContainer (lists s))(xStateListItem t := Some l) \<Longrightarrow>
     place_of (uxPriority (tcb s t)) l \<Longrightarrow> state_place T (H - {t}) (s\<lparr>lists := ls\<rparr>)"
  by (simp add: state_place_def) blast

lemma state_place_event:
  "state_place T H s \<Longrightarrow> pxContainer ls = (pxContainer (lists s))(xEventListItem t := c) \<Longrightarrow>
     state_place T H (s\<lparr>lists := ls\<rparr>)"
  by (simp add: state_place_def)

lemma event_place_state:
  "event_place T s \<Longrightarrow> pxContainer ls = (pxContainer (lists s))(xStateListItem t := c) \<Longrightarrow>
     (c = Some xTasksWaitingTermination \<Longrightarrow> pxContainer (lists s) (xEventListItem t) = None) \<Longrightarrow>
     event_place T (s\<lparr>lists := ls\<rparr>)"
  by (simp add: event_place_def) fastforce

lemma event_place_event:
  "event_place T s \<Longrightarrow> pxContainer ls = (pxContainer (lists s))(xEventListItem t := c) \<Longrightarrow>
     (\<And>l. c = Some l \<Longrightarrow> t \<in> T \<and> (l = 34 \<or> 36 < l) \<and> pxContainer (lists s) (xStateListItem t) \<noteq> Some 35) \<Longrightarrow>
     event_place T (s\<lparr>lists := ls\<rparr>)"
  by (simp add: event_place_def)

subsection \<open>Taking the state item out\<close>

lemma take_state:
  assumes ok: "kernel_ok T D H s" and t: "pxContainer (lists s) (xStateListItem t) = Some l"
  obtains n ls where "uxListRemove (lists s) (xStateListItem t) = Some (n, ls)" "list_ok D ls"
    "n = 0 \<longleftrightarrow> members ls l = []" "members ls l = remove1 (xStateListItem t) (members (lists s) l)"
    "\<And>m. m \<in> D \<Longrightarrow> m \<noteq> l \<Longrightarrow> members ls m = members (lists s) m"
    "pxContainer ls = (pxContainer (lists s))(xStateListItem t := None)"
    "xItemValue ls = xItemValue (lists s)" "pvOwner ls = pvOwner (lists s)"
    "\<And>w. ready_map ls w \<Longrightarrow> kernel_ok T D (insert t H) (s\<lparr>lists := ls, uxTopReadyPriority := w\<rparr>)"
proof -
  obtain n ls where r: "uxListRemove (lists s) (xStateListItem t) = Some (n, ls)" "list_ok D ls"
    "n = 0 \<longleftrightarrow> members ls l = []" "members ls l = remove1 (xStateListItem t) (members (lists s) l)"
    "\<And>m. m \<in> D \<Longrightarrow> m \<noteq> l \<Longrightarrow> members ls m = members (lists s) m"
    "pxContainer ls = (pxContainer (lists s))(xStateListItem t := None)"
    "xItemValue ls = xItemValue (lists s)" "pvOwner ls = pvOwner (lists s)"
    by (rule list_ok_remove [OF kernel_lists [OF ok] t]) blast
  have tT: "t \<in> T" using kernel_placeD(1) [OF ok t] .
  have ok': "kernel_ok T D (insert t H) (s\<lparr>lists := ls, uxTopReadyPriority := w\<rparr>)" if "ready_map ls w" for w
    by (rule kernel_ok_lists [OF ok _ r(2,8) that state_place_take [OF kernel_state_place [OF ok] r(6)]
          event_place_state [OF kernel_event_place [OF ok] r(6)]])
      (use tT ok in \<open>auto simp: kernel_ok_def\<close>)
  show ?thesis by (rule that [OF r]) (assumption | rule ok')+
qed

text \<open>Out of a ready list, with the bit of the priority; and out of any other list.\<close>

lemma if_top_update:
  "(if b then s\<lparr>lists := ls, uxTopReadyPriority := w\<rparr> else s\<lparr>lists := ls\<rparr>) =
   s\<lparr>lists := ls, uxTopReadyPriority := (if b then w else uxTopReadyPriority s)\<rparr>"
  by simp

lemma take_ready:
  assumes ok: "kernel_ok T D H s" and t: "pxContainer (lists s) (xStateListItem t) = Some l" and l: "l < 32"
  obtains n ls where "kListRemove (xStateListItem t) s = Some (n, s\<lparr>lists := ls\<rparr>)"
    "n = 0 \<longleftrightarrow> members ls l = []"
    "kernel_ok T D (insert t H) (s\<lparr>lists := ls, uxTopReadyPriority :=
       (if n = 0 then portRESET_READY_PRIORITY (uxPriority (tcb s t)) (uxTopReadyPriority s) else uxTopReadyPriority s)\<rparr>)"
    "\<And>m. m \<in> D \<Longrightarrow> m \<noteq> l \<Longrightarrow> members ls m = members (lists s) m"
    "pxContainer ls = (pxContainer (lists s))(xStateListItem t := None)"
    "xItemValue ls = xItemValue (lists s)" "pvOwner ls = pvOwner (lists s)"
    "members ls l = remove1 (xStateListItem t) (members (lists s) l)"
proof -
  obtain n ls where r: "uxListRemove (lists s) (xStateListItem t) = Some (n, ls)"
    "n = 0 \<longleftrightarrow> members ls l = []"
    "\<And>m. m \<in> D \<Longrightarrow> m \<noteq> l \<Longrightarrow> members ls m = members (lists s) m"
    "pxContainer ls = (pxContainer (lists s))(xStateListItem t := None)"
    "xItemValue ls = xItemValue (lists s)" "pvOwner ls = pvOwner (lists s)"
    "members ls l = remove1 (xStateListItem t) (members (lists s) l)"
    "\<And>w. ready_map ls w \<Longrightarrow> kernel_ok T D (insert t H) (s\<lparr>lists := ls, uxTopReadyPriority := w\<rparr>)"
    by (rule take_state [OF ok t]) blast
  note p = kernel_placeD(1,3) [OF ok t] 
  note pr = kernel_task(2) [OF ok p(1)]
  have mem: "xStateListItem t \<in> set (members (lists s) l)"
    using members_container [OF kernel_lists [OF ok] kernel_dom [OF ok]] t l by simp
  have others: "members ls m = members (lists s) m" if "m < 32" "m \<noteq> l" for m
    using r(3) that kernel_dom [OF ok, of m] by simp
  have "ready_map ls (if n = 0 then portRESET_READY_PRIORITY (uxPriority (tcb s t)) (uxTopReadyPriority s)
      else uxTopReadyPriority s)"
    unfolding ready_map_def
  proof
    fix q
    have old: "bit (uxTopReadyPriority s) q \<longleftrightarrow> q < 32 \<and> members (lists s) q \<noteq> []"
      using kernel_bits [OF ok] by (simp add: ready_map_def)
    show "bit (if n = 0 then portRESET_READY_PRIORITY (uxPriority (tcb s t)) (uxTopReadyPriority s)
      else uxTopReadyPriority s) q \<longleftrightarrow> q < 32 \<and> members ls q \<noteq> []"
      using old others [of q] p(2) [OF l] r(2) mem l
      by (cases "q = l"; cases "n = 0") (auto simp: bit_reset [OF pr])
  qed
  then show ?thesis
    by (intro that [of n ls]) (use r in \<open>simp_all add: kListRemove_def\<close>)
qed

lemma take_other:
  assumes ok: "kernel_ok T D H s" and t: "pxContainer (lists s) (xStateListItem t) = Some l" and l: "\<not> l < 32"
  obtains n ls where "kListRemove (xStateListItem t) s = Some (n, s\<lparr>lists := ls\<rparr>)"
    "kernel_ok T D (insert t H) (s\<lparr>lists := ls\<rparr>)"
    "members ls l = remove1 (xStateListItem t) (members (lists s) l)"
    "\<And>m. m \<in> D \<Longrightarrow> m \<noteq> l \<Longrightarrow> members ls m = members (lists s) m"
    "pxContainer ls = (pxContainer (lists s))(xStateListItem t := None)"
    "xItemValue ls = xItemValue (lists s)" "pvOwner ls = pvOwner (lists s)"
proof -
  obtain n ls where r: "uxListRemove (lists s) (xStateListItem t) = Some (n, ls)"
    "members ls l = remove1 (xStateListItem t) (members (lists s) l)"
    "\<And>m. m \<in> D \<Longrightarrow> m \<noteq> l \<Longrightarrow> members ls m = members (lists s) m"
    "pxContainer ls = (pxContainer (lists s))(xStateListItem t := None)"
    "xItemValue ls = xItemValue (lists s)" "pvOwner ls = pvOwner (lists s)"
    "\<And>w. ready_map ls w \<Longrightarrow> kernel_ok T D (insert t H) (s\<lparr>lists := ls, uxTopReadyPriority := w\<rparr>)"
    by (rule take_state [OF ok t]) blast
  have "ready_map ls (uxTopReadyPriority s)"
    using kernel_bits [OF ok] by (rule ready_map_other) (use r(3) kernel_dom [OF ok] l in auto)
  from r(7) [OF this] have "kernel_ok T D (insert t H) (s\<lparr>lists := ls\<rparr>)"
    by (rule kernel_ok_cong) simp_all
  then show ?thesis
    by (intro that [of n ls]) (use r in \<open>simp_all add: kListRemove_def\<close>)
qed

subsection \<open>Putting the state item into a list\<close>

lemma held_free:
  assumes "kernel_ok T D H s" "t \<in> H"
  shows "pxContainer (lists s) (Item (2 * t)) = None" "2 * t < (2 :: nat) ^ 63" "t \<in> T"
proof -
  show "t \<in> T" using assms by (auto simp: kernel_ok_def)
  then show "2 * t < (2 :: nat) ^ 63" using kernel_task(1) [OF assms(1)] by (intro state_index)
  show "pxContainer (lists s) (Item (2 * t)) = None" using kernel_held [OF assms] by (simp add: state_item)
qed

lemma put_ready:
  assumes ok: "kernel_ok T D H s" and t: "t \<in> H"
  obtains ls w where "prvAddTaskToReadyList t s = Some (s\<lparr>lists := ls, uxTopReadyPriority := w\<rparr>)"
    "kernel_ok T D (H - {t}) (s\<lparr>lists := ls, uxTopReadyPriority := w\<rparr>)"
    "\<And>m. m \<in> D \<Longrightarrow> m \<noteq> unat (uxPriority (tcb s t)) \<Longrightarrow> members ls m = members (lists s) m"
    "pxContainer ls = (pxContainer (lists s))(xStateListItem t := Some (unat (uxPriority (tcb s t))))"
    "xItemValue ls = xItemValue (lists s)" "pvOwner ls = pvOwner (lists s)"
    "length (members ls (unat (uxPriority (tcb s t)))) = Suc (length (members (lists s) (unat (uxPriority (tcb s t)))))"
proof -
  note free = held_free [OF ok t]
  note pr = kernel_task(2) [OF ok free(3)]
  let ?p = "unat (uxPriority (tcb s t))"
  have p: "?p < 32" using pr by (rule prio_nat)
  have pD: "?p \<in> D" using kernel_dom [OF ok, of ?p] p by simp
  define ls where "ls = vListInsertEnd (lists s) ?p (xStateListItem t)"
  define w where "w = portRECORD_READY_PRIORITY (uxPriority (tcb s t)) (uxTopReadyPriority s)"
  note ins = list_ok_insert_end(1,2) [OF kernel_lists [OF ok] pD free(1,2), folded state_item, folded ls_def]
    members_insert_end_length [OF kernel_lists [OF ok] pD free(1,2), folded state_item, folded ls_def]
  have c: "pxContainer ls = (pxContainer (lists s))(xStateListItem t := Some ?p)" "pvOwner ls = pvOwner (lists s)"
    "xItemValue ls = xItemValue (lists s)" by (simp_all add: ls_def)
  have "ready_map ls w"
    unfolding ready_map_def
  proof
    fix q
    have old: "bit (uxTopReadyPriority s) q \<longleftrightarrow> q < 32 \<and> members (lists s) q \<noteq> []"
      using kernel_bits [OF ok] by (simp add: ready_map_def)
    show "bit w q \<longleftrightarrow> q < 32 \<and> members ls q \<noteq> []"
      using old ins(2) [of q] ins(3) kernel_dom [OF ok, of q] p
      by (cases "q = ?p") (auto simp: w_def bit_record [OF pr])
  qed
  then have "kernel_ok T D (H - {t}) (s\<lparr>lists := ls, uxTopReadyPriority := w\<rparr>)"
    by (intro kernel_ok_lists [OF ok _ ins(1) c(2) _ state_place_put [OF kernel_state_place [OF ok] free(3) c(1)]
          event_place_state [OF kernel_event_place [OF ok] c(1)]])
      (use p ok in \<open>auto simp: kernel_ok_def place_of_def\<close>)
  moreover have "prvAddTaskToReadyList t s = Some (s\<lparr>lists := ls, uxTopReadyPriority := w\<rparr>)"
    using pr by (simp add: prvAddTaskToReadyList_def pxReadyTasksLists_def w_def ls_def)
  ultimately show ?thesis using that ins(2,3) c by blast
qed

lemma put_state_ok:
  assumes ok: "kernel_ok T D H s" and t: "t \<in> H" and l: "l \<in> {32, 33, 35, 36}"
    and ls: "list_ok D ls" "\<And>m. m \<in> D \<Longrightarrow> m \<noteq> l \<Longrightarrow> members ls m = members (lists s) m"
      "pxContainer ls = (pxContainer (lists s))(xStateListItem t := Some l)" "pvOwner ls = pvOwner (lists s)"
    and ev: "l = 35 \<Longrightarrow> pxContainer (lists s) (xEventListItem t) = None"
  shows "kernel_ok T D (H - {t}) (s\<lparr>lists := ls\<rparr>)"
proof -
  have "ready_map ls (uxTopReadyPriority s)"
    using kernel_bits [OF ok] by (rule ready_map_other) (use ls(2) kernel_dom [OF ok] l in auto)
  then show ?thesis
    using kernel_ok_lists [OF ok _ ls(1,4) _ state_place_put [OF kernel_state_place [OF ok] held_free(3) [OF ok t] ls(3)]
        event_place_state [OF kernel_event_place [OF ok] ls(3)], of "uxTopReadyPriority s"] l ev ok
    by (auto simp: kernel_ok_def place_of_def)
qed

lemma put_end:
  assumes ok: "kernel_ok T D H s" and t: "t \<in> H" and l: "l \<in> {35, 36}"
    and ev: "l = 35 \<Longrightarrow> pxContainer (lists s) (xEventListItem t) = None"
  shows "kernel_ok T D (H - {t}) (s\<lparr>lists := vListInsertEnd (lists s) l (xStateListItem t)\<rparr>)"
    "\<And>m. m \<in> D \<Longrightarrow> m \<noteq> l \<Longrightarrow> members (vListInsertEnd (lists s) l (xStateListItem t)) m = members (lists s) m"
    "length (members (vListInsertEnd (lists s) l (xStateListItem t)) l) = Suc (length (members (lists s) l))"
proof -
  note free = held_free [OF ok t]
  have lD: "l \<in> D" using kernel_dom [OF ok, of l] l by auto
  note ins = list_ok_insert_end(1,2) [OF kernel_lists [OF ok] lD free(1,2), folded state_item]
  show "kernel_ok T D (H - {t}) (s\<lparr>lists := vListInsertEnd (lists s) l (xStateListItem t)\<rparr>)"
    by (rule put_state_ok [OF ok t _ ins _ _ ev]) (use l in auto)
  show "\<And>m. m \<in> D \<Longrightarrow> m \<noteq> l \<Longrightarrow> members (vListInsertEnd (lists s) l (xStateListItem t)) m = members (lists s) m"
    using ins(2) .
  show "length (members (vListInsertEnd (lists s) l (xStateListItem t)) l) = Suc (length (members (lists s) l))"
    using members_insert_end_length [OF kernel_lists [OF ok] lD free(1,2), folded state_item] .
qed

lemma put_delayed:
  assumes ok: "kernel_ok T D H s" and t: "t \<in> H" and l: "l \<in> {32, 33}"
  obtains ls where "vListInsert (lists s) l (xStateListItem t) = Some ls" "kernel_ok T D (H - {t}) (s\<lparr>lists := ls\<rparr>)"
    "members ls l = insert_pos (xItemValue (lists s)) (xStateListItem t) (members (lists s) l)"
    "\<And>m. m \<in> D \<Longrightarrow> m \<noteq> l \<Longrightarrow> members ls m = members (lists s) m"
    "pxContainer ls = (pxContainer (lists s))(xStateListItem t := Some l)"
    "xItemValue ls = xItemValue (lists s)" "pvOwner ls = pvOwner (lists s)"
proof -
  note free = held_free [OF ok t]
  have lD: "l \<in> D" using kernel_dom [OF ok, of l] l by auto
  obtain ls where ls: "vListInsert (lists s) l (xStateListItem t) = Some ls" "list_ok D ls"
    "members ls l = insert_pos (xItemValue (lists s)) (xStateListItem t) (members (lists s) l)"
    "\<And>m. m \<in> D \<Longrightarrow> m \<noteq> l \<Longrightarrow> members ls m = members (lists s) m"
    "pxContainer ls = (pxContainer (lists s))(xStateListItem t := Some l)"
    "xItemValue ls = xItemValue (lists s)" "pvOwner ls = pvOwner (lists s)"
    by (rule list_ok_insert [OF kernel_lists [OF ok] lD free(1,2), folded state_item]) blast
  have "kernel_ok T D (H - {t}) (s\<lparr>lists := ls\<rparr>)"
    by (rule put_state_ok [OF ok t _ ls(2,4,5,7)]) (use l in auto)
  then show ?thesis using that ls by blast
qed

subsection \<open>The event item\<close>

lemma event_update_ok:
  assumes ok: "kernel_ok T D H s"
    and ls: "list_ok D ls" "\<And>m. m < 32 \<Longrightarrow> members ls m = members (lists s) m" "pvOwner ls = pvOwner (lists s)"
      "pxContainer ls = (pxContainer (lists s))(xEventListItem t := c)"
    and c: "\<And>l. c = Some l \<Longrightarrow> t \<in> T \<and> (l = 34 \<or> 36 < l) \<and> pxContainer (lists s) (xStateListItem t) \<noteq> Some 35"
  shows "kernel_ok T D H (s\<lparr>lists := ls\<rparr>)"
proof -
  have "ready_map ls (uxTopReadyPriority s)"
    using kernel_bits [OF ok] by (rule ready_map_other) (rule ls(2))
  then show ?thesis
    using kernel_ok_lists [OF ok _ ls(1,3) _ state_place_event [OF kernel_state_place [OF ok] ls(4)]
        event_place_event [OF kernel_event_place [OF ok] ls(4) c], of "uxTopReadyPriority s"] ok
    by (simp add: kernel_ok_def)
qed

lemma take_event:
  assumes ok: "kernel_ok T D H s" and t: "pxContainer (lists s) (xEventListItem t) = Some l"
  obtains n ls where "kListRemove (xEventListItem t) s = Some (n, s\<lparr>lists := ls\<rparr>)" "kernel_ok T D H (s\<lparr>lists := ls\<rparr>)"
    "members ls l = remove1 (xEventListItem t) (members (lists s) l)"
    "\<And>m. m \<in> D \<Longrightarrow> m \<noteq> l \<Longrightarrow> members ls m = members (lists s) m"
    "pxContainer ls = (pxContainer (lists s))(xEventListItem t := None)"
    "xItemValue ls = xItemValue (lists s)" "pvOwner ls = pvOwner (lists s)"
proof -
  obtain n ls where r: "uxListRemove (lists s) (xEventListItem t) = Some (n, ls)" "list_ok D ls"
    "members ls l = remove1 (xEventListItem t) (members (lists s) l)"
    "\<And>m. m \<in> D \<Longrightarrow> m \<noteq> l \<Longrightarrow> members ls m = members (lists s) m"
    "pxContainer ls = (pxContainer (lists s))(xEventListItem t := None)"
    "xItemValue ls = xItemValue (lists s)" "pvOwner ls = pvOwner (lists s)"
    by (rule list_ok_remove [OF kernel_lists [OF ok] t]) blast
  have l: "l = 34 \<or> 36 < l" using kernel_eventD(2) [OF ok t] .
  have "kernel_ok T D H (s\<lparr>lists := ls\<rparr>)"
    by (rule event_update_ok [OF ok r(2) _ r(7,5)]) (use r(4) l kernel_dom [OF ok] in auto)
  then show ?thesis by (intro that [of n ls]) (use r in \<open>simp_all add: kListRemove_def\<close>)
qed

lemma leave_event:
  assumes ok: "kernel_ok T D H s"
  obtains ls where "leave_event_list t s = Some (s\<lparr>lists := ls\<rparr>)" "kernel_ok T D H (s\<lparr>lists := ls\<rparr>)"
    "\<And>m. m \<le> 36 \<Longrightarrow> m \<noteq> 34 \<Longrightarrow> members ls m = members (lists s) m"
    "pxContainer ls = (pxContainer (lists s))(xEventListItem t := None)"
    "xItemValue ls = xItemValue (lists s)" "pvOwner ls = pvOwner (lists s)"
proof (cases "pxContainer (lists s) (xEventListItem t)")
  case None
  have s: "s\<lparr>lists := lists s\<rparr> = s" by simp
  show ?thesis by (rule that [of "lists s"]) (use None ok in \<open>auto simp: leave_event_list_def s\<close>)
next
  case (Some l)
  obtain n ls where r: "kListRemove (xEventListItem t) s = Some (n, s\<lparr>lists := ls\<rparr>)" "kernel_ok T D H (s\<lparr>lists := ls\<rparr>)"
    "\<And>m. m \<in> D \<Longrightarrow> m \<noteq> l \<Longrightarrow> members ls m = members (lists s) m"
    "pxContainer ls = (pxContainer (lists s))(xEventListItem t := None)"
    "xItemValue ls = xItemValue (lists s)" "pvOwner ls = pvOwner (lists s)"
    by (rule take_event [OF ok Some]) blast
  show ?thesis
    by (rule that [of ls]) (use r Some kernel_eventD(2) [OF ok Some] kernel_dom [OF ok] in \<open>auto simp: leave_event_list_def\<close>)
qed

lemma put_event_end:
  assumes ok: "kernel_ok T D H s" and t: "t \<in> T" "pxContainer (lists s) (xEventListItem t) = None"
    "pxContainer (lists s) (xStateListItem t) \<noteq> Some 35" and l: "l = 34 \<or> 36 < l" "l \<in> D"
  shows "kernel_ok T D H (s\<lparr>lists := vListInsertEnd (lists s) l (xEventListItem t)\<rparr>)"
    "\<And>m. m \<in> D \<Longrightarrow> m \<noteq> l \<Longrightarrow> members (vListInsertEnd (lists s) l (xEventListItem t)) m = members (lists s) m"
proof -
  have free: "pxContainer (lists s) (Item (2 * t + 1)) = None" using t(2) by (simp add: event_item)
  note ins = list_ok_insert_end(1,2) [OF kernel_lists [OF ok] l(2) free event_index [OF kernel_task(1) [OF ok t(1)]],
      folded event_item]
  show "kernel_ok T D H (s\<lparr>lists := vListInsertEnd (lists s) l (xEventListItem t)\<rparr>)"
    by (rule event_update_ok [OF ok ins(1)]) (use ins(2) l t kernel_dom [OF ok] in auto)
  show "\<And>m. m \<in> D \<Longrightarrow> m \<noteq> l \<Longrightarrow> members (vListInsertEnd (lists s) l (xEventListItem t)) m = members (lists s) m"
    using ins(2) .
qed

lemma put_event:
  assumes ok: "kernel_ok T D H s" and t: "t \<in> T" "pxContainer (lists s) (xEventListItem t) = None"
    "pxContainer (lists s) (xStateListItem t) \<noteq> Some 35" and l: "l = 34 \<or> 36 < l" "l \<in> D"
  obtains ls where "vListInsert (lists s) l (xEventListItem t) = Some ls" "kernel_ok T D H (s\<lparr>lists := ls\<rparr>)"
    "\<And>m. m \<in> D \<Longrightarrow> m \<noteq> l \<Longrightarrow> members ls m = members (lists s) m"
    "members ls l = insert_pos (xItemValue (lists s)) (xEventListItem t) (members (lists s) l)"
    "pxContainer ls = (pxContainer (lists s))(xEventListItem t := Some l)"
    "xItemValue ls = xItemValue (lists s)" "pvOwner ls = pvOwner (lists s)"
proof -
  have free: "pxContainer (lists s) (Item (2 * t + 1)) = None" using t(2) by (simp add: event_item)
  obtain ls where ls: "vListInsert (lists s) l (xEventListItem t) = Some ls" "list_ok D ls"
    "members ls l = insert_pos (xItemValue (lists s)) (xEventListItem t) (members (lists s) l)"
    "\<And>m. m \<in> D \<Longrightarrow> m \<noteq> l \<Longrightarrow> members ls m = members (lists s) m"
    "pxContainer ls = (pxContainer (lists s))(xEventListItem t := Some l)"
    "xItemValue ls = xItemValue (lists s)" "pvOwner ls = pvOwner (lists s)"
    by (rule list_ok_insert [OF kernel_lists [OF ok] l(2) free event_index [OF kernel_task(1) [OF ok t(1)]], folded event_item]) blast
  have "kernel_ok T D H (s\<lparr>lists := ls\<rparr>)"
    by (rule event_update_ok [OF ok ls(2) _ ls(7,5)]) (use ls(4) l t kernel_dom [OF ok] in auto)
  then show ?thesis using that ls by blast
qed

subsection \<open>Item values and priorities\<close>

lemma lists_ok:
  assumes ok: "kernel_ok T D H s"
    and ls: "list_ok D ls" "members ls = members (lists s)" "pvOwner ls = pvOwner (lists s)" "pxContainer ls = pxContainer (lists s)"
  shows "kernel_ok T D H (s\<lparr>lists := ls\<rparr>)"
  using ok ls unfolding kernel_ok_def task_fields_def state_place_def event_place_def ready_bits_def delayed_lists_def
  by simp

lemma value_ok:
  assumes ok: "kernel_ok T D H s" and x: "x = Item k"
  shows "kernel_ok T D H (set_item_value x v s)" "members (lists (set_item_value x v s)) = members (lists s)"
  using lists_ok [OF ok] list_ok_value [OF kernel_lists [OF ok], of k v] by (simp_all add: set_item_value_def x)

lemma set_event_value_ok:
  assumes ok: "kernel_ok T D H s"
  shows "kernel_ok T D H (set_event_value t v s)" "members (lists (set_event_value t v s)) = members (lists s)"
  using value_ok [OF ok event_item] ok by (simp_all add: set_event_value_def)

text \<open>A priority may change while the task is in no ready list.\<close>

lemma priority_ok:
  assumes ok: "kernel_ok T D H s"
    and t: "\<And>l. pxContainer (lists s) (xStateListItem t) = Some l \<Longrightarrow> \<not> l < 32"
    and f: "uxPriority (f (tcb s t)) < 32" "uxBasePriority (f (tcb s t)) < 32"
  shows "kernel_ok T D H (set_tcb t f s)"
proof -
  have "place_of (uxPriority (f (tcb s t))) l" if "pxContainer (lists s) (xStateListItem t) = Some l" for l
    using kernel_placeD(4) [OF ok that] t [OF that] by (simp add: place_of_def)
  then have "state_place T H (set_tcb t f s)"
    using kernel_state_place [OF ok] by (simp add: state_place_def set_tcb_def)
  then show ?thesis
    using ok f by (simp add: kernel_ok_def task_fields_def event_place_def ready_bits_def delayed_lists_def set_tcb_def)
qed

lemma tcb_other_ok:
  assumes ok: "kernel_ok T D H s"
    and f: "uxPriority (f (tcb s t)) = uxPriority (tcb s t)"
      "uxBasePriority (f (tcb s t)) < 32 \<or> uxBasePriority (f (tcb s t)) = uxBasePriority (tcb s t)"
  shows "kernel_ok T D H (set_tcb t f s)"
proof -
  have "state_place T H (set_tcb t f s)"
    using kernel_state_place [OF ok] f(1) by (simp add: state_place_def set_tcb_def)
  moreover have "task_fields T (set_tcb t f s)"
    using ok f by (auto simp: kernel_ok_def task_fields_def set_tcb_def)
  ultimately show ?thesis
    using ok by (simp add: kernel_ok_def event_place_def ready_bits_def delayed_lists_def set_tcb_def)
qed

end
