(* ===== verification/Task_Moves.thy ===== *)
theory Task_Moves
  imports Task_Steps
begin

text \<open>
  The whole invariant, with wake times and counters, under the building blocks: \<open>kinv T D H s\<close> is
  the invariant while the tasks of \<open>H\<close> are between two lists.
\<close>

definition kinv :: "nat set \<Rightarrow> nat set \<Rightarrow> nat set \<Rightarrow> kernel \<Rightarrow> bool" where
  "kinv T D H s \<longleftrightarrow> kernel_ok T D H s \<and> delay_ok s \<and> count_ok T s \<and> (\<exists>c\<in>T. pxCurrentTCB s = Some c)"

lemma kinv_empty: "kinv T D {} s = kernel_inv T D s"
  by (simp add: kinv_def kernel_inv_def)

lemma kinvD:
  assumes "kinv T D H s"
  shows "kernel_ok T D H s" "delay_ok s" "count_ok T s"
  using assms by (simp_all add: kinv_def)

lemma kinv_current:
  assumes "kinv T D H s"
  obtains c where "pxCurrentTCB s = Some c" "c \<in> T"
  using assms by (auto simp: kinv_def)

text \<open>Fields outside the invariant.\<close>

lemma kinv_cong:
  assumes k: "kinv T D H s"
    and e: "lists s' = lists s" "uxTopReadyPriority s' = uxTopReadyPriority s"
      "pxDelayedTaskList s' = pxDelayedTaskList s" "pxOverflowDelayedTaskList s' = pxOverflowDelayedTaskList s"
      "\<And>t. uxPriority (tcb s' t) = uxPriority (tcb s t)" "\<And>t. uxBasePriority (tcb s' t) = uxBasePriority (tcb s t)"
      "xTickCount s' = xTickCount s" "xNextTaskUnblockTime s' = xNextTaskUnblockTime s"
      "uxCurrentNumberOfTasks s' = uxCurrentNumberOfTasks s"
      "uxDeletedTasksWaitingCleanUp s' = uxDeletedTasksWaitingCleanUp s" "pxCurrentTCB s' = pxCurrentTCB s"
  shows "kinv T D H s'"
  using k kernel_ok_cong [OF kinvD(1) [OF k] e(1-6)] delay_ok_cong [OF kinvD(2) [OF k] e(1,3,4,7,8)] e(1,9-11)
  by (simp add: kinv_def count_ok_def)

subsection \<open>Wake times\<close>

lemma delayed_cases:
  assumes "kernel_ok T D H s"
  obtains "pxDelayedTaskList s = 32" "pxOverflowDelayedTaskList s = 33"
  | "pxDelayedTaskList s = 33" "pxOverflowDelayedTaskList s = 32"
  using assms by (auto simp: kernel_ok_def delayed_lists_def)

lemma delay_ok_sub:
  assumes ok: "kernel_ok T D H s" and d: "delay_ok s"
    and m: "\<And>l. l \<in> {32, 33} \<Longrightarrow> \<exists>x. members ls l = remove1 x (members (lists s) l) \<or> members ls l = members (lists s) l"
    and v: "\<And>l x. l \<in> {32, 33} \<Longrightarrow> x \<in> set (members (lists s) l) \<Longrightarrow> xItemValue ls x = xItemValue (lists s) x"
  shows "delay_ok (s\<lparr>lists := ls, uxTopReadyPriority := w\<rparr>)"
proof -
  have sub: "set (wake_times (s\<lparr>lists := ls, uxTopReadyPriority := w\<rparr>) l) \<subseteq> set (wake_times s l)"
    and sorted: "sorted (wake_times s l) \<Longrightarrow> sorted (wake_times (s\<lparr>lists := ls, uxTopReadyPriority := w\<rparr>) l)"
    if l: "l \<in> {32, 33}" for l
  proof -
    obtain x where x: "members ls l = remove1 x (members (lists s) l) \<or> members ls l = members (lists s) l"
      using m [OF l] by blast
    then have inc: "set (members ls l) \<subseteq> set (members (lists s) l)" using set_remove1_subset by fastforce
    then have eq: "wake_times (s\<lparr>lists := ls, uxTopReadyPriority := w\<rparr>) l = map (xItemValue (lists s)) (members ls l)"
      using v [OF l] by (auto simp: wake_times_def)
    show "set (wake_times (s\<lparr>lists := ls, uxTopReadyPriority := w\<rparr>) l) \<subseteq> set (wake_times s l)"
      using inc unfolding eq by (auto simp: wake_times_def)
    show "sorted (wake_times s l) \<Longrightarrow> sorted (wake_times (s\<lparr>lists := ls, uxTopReadyPriority := w\<rparr>) l)"
      using x unfolding eq by (auto simp: wake_times_def intro: sorted_map_remove1)
  qed
  show ?thesis
  proof (cases rule: delayed_cases [OF ok])
    case 1
    then show ?thesis using d sub [of 32] sub [of 33] sorted [of 32] sorted [of 33]
      by (simp add: delay_ok_def subset_iff)
  next
    case 2
    then show ?thesis using d sub [of 32] sub [of 33] sorted [of 32] sorted [of 33]
      by (simp add: delay_ok_def subset_iff)
  qed
qed

lemma kinv_lists:
  assumes k: "kinv T D H s" and ok: "kernel_ok T D H' (s\<lparr>lists := ls, uxTopReadyPriority := w\<rparr>)"
    and m: "\<And>l. l \<in> {32, 33} \<Longrightarrow> \<exists>x. members ls l = remove1 x (members (lists s) l) \<or> members ls l = members (lists s) l"
    and t: "members ls 35 = members (lists s) 35" and v: "xItemValue ls = xItemValue (lists s)"
  shows "kinv T D H' (s\<lparr>lists := ls, uxTopReadyPriority := w\<rparr>)"
  using k ok delay_ok_sub [OF kinvD(1,2) [OF k] m, of w] t v by (simp add: kinv_def count_ok_def)

lemma kinv_lists':
  assumes "kinv T D H s" "kernel_ok T D H' (s\<lparr>lists := ls\<rparr>)"
    "\<And>l. l \<in> {32, 33} \<Longrightarrow> \<exists>x. members ls l = remove1 x (members (lists s) l) \<or> members ls l = members (lists s) l"
    "members ls 35 = members (lists s) 35" "xItemValue ls = xItemValue (lists s)"
  shows "kinv T D H' (s\<lparr>lists := ls\<rparr>)"
  using kinv_lists [where w = "uxTopReadyPriority s", OF assms(1) _ assms(3-5)] assms(2) by simp

subsection \<open>The moves\<close>

lemma kinv_take_ready:
  assumes k: "kinv T D H s" and t: "pxContainer (lists s) (xStateListItem t) = Some l" and l: "l < 32"
  obtains n ls where "kListRemove (xStateListItem t) s = Some (n, s\<lparr>lists := ls\<rparr>)" "n = 0 \<longleftrightarrow> members ls l = []"
    "kinv T D (insert t H) (s\<lparr>lists := ls, uxTopReadyPriority :=
       (if n = 0 then portRESET_READY_PRIORITY (uxPriority (tcb s t)) (uxTopReadyPriority s) else uxTopReadyPriority s)\<rparr>)"
    "\<And>m. m \<in> D \<Longrightarrow> m \<noteq> l \<Longrightarrow> members ls m = members (lists s) m"
    "pxContainer ls = (pxContainer (lists s))(xStateListItem t := None)"
    "xItemValue ls = xItemValue (lists s)" "pvOwner ls = pvOwner (lists s)"
proof -
  obtain n ls where r: "kListRemove (xStateListItem t) s = Some (n, s\<lparr>lists := ls\<rparr>)" "n = 0 \<longleftrightarrow> members ls l = []"
    "kernel_ok T D (insert t H) (s\<lparr>lists := ls, uxTopReadyPriority :=
       (if n = 0 then portRESET_READY_PRIORITY (uxPriority (tcb s t)) (uxTopReadyPriority s) else uxTopReadyPriority s)\<rparr>)"
    "\<And>m. m \<in> D \<Longrightarrow> m \<noteq> l \<Longrightarrow> members ls m = members (lists s) m"
    "pxContainer ls = (pxContainer (lists s))(xStateListItem t := None)"
    "xItemValue ls = xItemValue (lists s)" "pvOwner ls = pvOwner (lists s)"
    by (rule take_ready [OF kinvD(1) [OF k] t l]) blast
  have "members ls m = members (lists s) m" if "m \<in> {32, 33, 35}" for m
    using r(4) [of m] kernel_dom [OF kinvD(1) [OF k], of m] l that by auto
  then show ?thesis by (intro that [OF r(1,2) kinv_lists [OF k r(3)] r(4,5,6,7)]) (use r(6) in auto)
qed

lemma kinv_take_other:
  assumes k: "kinv T D H s" and t: "pxContainer (lists s) (xStateListItem t) = Some l" and l: "\<not> l < 32" "l \<noteq> 35"
  obtains n ls where "kListRemove (xStateListItem t) s = Some (n, s\<lparr>lists := ls\<rparr>)" "kinv T D (insert t H) (s\<lparr>lists := ls\<rparr>)"
    "members ls l = remove1 (xStateListItem t) (members (lists s) l)"
    "\<And>m. m \<in> D \<Longrightarrow> m \<noteq> l \<Longrightarrow> members ls m = members (lists s) m"
    "pxContainer ls = (pxContainer (lists s))(xStateListItem t := None)"
    "xItemValue ls = xItemValue (lists s)" "pvOwner ls = pvOwner (lists s)"
proof -
  obtain n ls where r: "kListRemove (xStateListItem t) s = Some (n, s\<lparr>lists := ls\<rparr>)"
    "kernel_ok T D (insert t H) (s\<lparr>lists := ls\<rparr>)"
    "members ls l = remove1 (xStateListItem t) (members (lists s) l)"
    "\<And>m. m \<in> D \<Longrightarrow> m \<noteq> l \<Longrightarrow> members ls m = members (lists s) m"
    "pxContainer ls = (pxContainer (lists s))(xStateListItem t := None)"
    "xItemValue ls = xItemValue (lists s)" "pvOwner ls = pvOwner (lists s)"
    by (rule take_other [OF kinvD(1) [OF k] t l(1)]) blast
  have "\<exists>x. members ls m = remove1 x (members (lists s) m) \<or> members ls m = members (lists s) m" if "m \<in> {32, 33}" for m
    using r(3) r(4) [of m] kernel_dom [OF kinvD(1) [OF k], of m] that by (cases "m = l") auto
  moreover have "members ls 35 = members (lists s) 35"
    using r(4) [of 35] kernel_dom [OF kinvD(1) [OF k], of 35] l by simp
  ultimately show ?thesis by (intro that [OF r(1) kinv_lists' [OF k r(2)] r(3-7)]) (use r(6) in auto)
qed

text \<open>Out of whatever list, with the conditional reset of the bit.\<close>

lemma kinv_take_any:
  assumes k: "kinv T D H s" and t: "pxContainer (lists s) (xStateListItem t) = Some l" and l: "l \<noteq> 35"
  obtains n ls w where "kListRemove (xStateListItem t) s = Some (n, s\<lparr>lists := ls\<rparr>)"
    "(if n = 0 then taskRESET_READY_PRIORITY (uxPriority (tcb s t)) (s\<lparr>lists := ls\<rparr>) else Some (s\<lparr>lists := ls\<rparr>)) =
       Some (s\<lparr>lists := ls, uxTopReadyPriority := w\<rparr>)"
    "kinv T D (insert t H) (s\<lparr>lists := ls, uxTopReadyPriority := w\<rparr>)"
    "pxContainer ls = (pxContainer (lists s))(xStateListItem t := None)"
    "xItemValue ls = xItemValue (lists s)" "pvOwner ls = pvOwner (lists s)"
proof -
  note ok = kinvD(1) [OF k]
  have pr: "uxPriority (tcb s t) < 32" using kernel_task(2) [OF ok] kernel_placeD(1) [OF ok t] .
  have pD: "unat (uxPriority (tcb s t)) \<in> D" using kernel_dom [OF ok] prio_nat [OF pr] by simp
  show ?thesis
  proof (cases "l < 32")
    case True
    obtain n ls where r: "kListRemove (xStateListItem t) s = Some (n, s\<lparr>lists := ls\<rparr>)" "n = 0 \<longleftrightarrow> members ls l = []"
      "kinv T D (insert t H) (s\<lparr>lists := ls, uxTopReadyPriority :=
         (if n = 0 then portRESET_READY_PRIORITY (uxPriority (tcb s t)) (uxTopReadyPriority s) else uxTopReadyPriority s)\<rparr>)"
      "pxContainer ls = (pxContainer (lists s))(xStateListItem t := None)"
      "xItemValue ls = xItemValue (lists s)" "pvOwner ls = pvOwner (lists s)"
      by (rule kinv_take_ready [OF k t True]) blast
    have "list_ok D ls" using kernel_lists [OF kinvD(1) [OF r(3)]] by simp
    then have "n = 0 \<Longrightarrow> uxNumberOfItems ls (unat (uxPriority (tcb s t))) = 0"
      using members_none [OF _ pD] r(2) kernel_placeD(3) [OF ok t True] by simp
    then show ?thesis
      by (intro that [OF r(1) _ r(3-6)]) (use pr in \<open>auto simp: taskRESET_READY_PRIORITY_def pxReadyTasksLists_def\<close>)
  next
    case False
    obtain n ls where r: "kListRemove (xStateListItem t) s = Some (n, s\<lparr>lists := ls\<rparr>)"
      "kinv T D (insert t H) (s\<lparr>lists := ls\<rparr>)" "\<And>m. m \<in> D \<Longrightarrow> m \<noteq> l \<Longrightarrow> members ls m = members (lists s) m"
      "pxContainer ls = (pxContainer (lists s))(xStateListItem t := None)"
      "xItemValue ls = xItemValue (lists s)" "pvOwner ls = pvOwner (lists s)"
      by (rule kinv_take_other [OF k t False l]) blast
    note ok' = kinvD(1) [OF r(2)]
    have "list_ok D ls" using kernel_lists [OF ok'] by simp
    note none = members_none [OF this pD]
    have w: "portRESET_READY_PRIORITY (uxPriority (tcb s t)) (uxTopReadyPriority s) = uxTopReadyPriority s"
      if "uxNumberOfItems ls (unat (uxPriority (tcb s t))) = 0"
    proof (rule bit_word_eqI)
      fix i
      show "bit (portRESET_READY_PRIORITY (uxPriority (tcb s t)) (uxTopReadyPriority s)) i = bit (uxTopReadyPriority s) i"
        using kernel_bits [OF ok'] that none by (auto simp: bit_reset [OF pr] ready_map_def)
    qed
    then have reset: "(if n = 0 then taskRESET_READY_PRIORITY (uxPriority (tcb s t)) (s\<lparr>lists := ls\<rparr>) else Some (s\<lparr>lists := ls\<rparr>)) =
       Some (s\<lparr>lists := ls, uxTopReadyPriority := uxTopReadyPriority s\<rparr>)"
      using pr by (simp add: taskRESET_READY_PRIORITY_def pxReadyTasksLists_def)
    have "s\<lparr>lists := ls, uxTopReadyPriority := uxTopReadyPriority s\<rparr> = s\<lparr>lists := ls\<rparr>" by simp
    then show ?thesis using that [OF r(1) reset _ r(4-6)] r(2) by simp
  qed
qed

lemma kinv_put_ready:
  assumes k: "kinv T D H s" and t: "t \<in> H"
  obtains ls w where "prvAddTaskToReadyList t s = Some (s\<lparr>lists := ls, uxTopReadyPriority := w\<rparr>)"
    "kinv T D (H - {t}) (s\<lparr>lists := ls, uxTopReadyPriority := w\<rparr>)"
    "\<And>m. m \<in> D \<Longrightarrow> m \<noteq> unat (uxPriority (tcb s t)) \<Longrightarrow> members ls m = members (lists s) m"
    "pxContainer ls = (pxContainer (lists s))(xStateListItem t := Some (unat (uxPriority (tcb s t))))"
    "xItemValue ls = xItemValue (lists s)" "pvOwner ls = pvOwner (lists s)"
    "unat (uxPriority (tcb s t)) < 32"
proof -
  note ok = kinvD(1) [OF k]
  obtain ls w where r: "prvAddTaskToReadyList t s = Some (s\<lparr>lists := ls, uxTopReadyPriority := w\<rparr>)"
    "kernel_ok T D (H - {t}) (s\<lparr>lists := ls, uxTopReadyPriority := w\<rparr>)"
    "\<And>m. m \<in> D \<Longrightarrow> m \<noteq> unat (uxPriority (tcb s t)) \<Longrightarrow> members ls m = members (lists s) m"
    "pxContainer ls = (pxContainer (lists s))(xStateListItem t := Some (unat (uxPriority (tcb s t))))"
    "xItemValue ls = xItemValue (lists s)" "pvOwner ls = pvOwner (lists s)"
    by (rule put_ready [OF ok t]) blast
  have p: "unat (uxPriority (tcb s t)) < 32" using prio_nat kernel_task(2) [OF ok held_free(3) [OF ok t]] .
  have "members ls m = members (lists s) m" if "m \<in> {32, 33, 35}" for m
    using r(3) [of m] kernel_dom [OF ok, of m] p that by auto
  then show ?thesis by (intro that [OF r(1) kinv_lists [OF k r(2)] r(3-6) p]) (use r(5) in auto)
qed

lemma kinv_put_suspended:
  assumes k: "kinv T D H s" and t: "t \<in> H"
  shows "kinv T D (H - {t}) (s\<lparr>lists := vListInsertEnd (lists s) 36 (xStateListItem t)\<rparr>)"
proof -
  note ok = kinvD(1) [OF k]
  note p = put_end(1,2) [OF ok t, of 36]
  have "members (vListInsertEnd (lists s) 36 (xStateListItem t)) m = members (lists s) m" if "m \<in> {32, 33, 35}" for m
    using p(2) [of m] kernel_dom [OF ok, of m] that by auto
  then show ?thesis by (intro kinv_lists' [OF k p(1)]) auto
qed

lemma kinv_leave_event:
  assumes k: "kinv T D H s"
  obtains ls where "leave_event_list t s = Some (s\<lparr>lists := ls\<rparr>)" "kinv T D H (s\<lparr>lists := ls\<rparr>)"
    "\<And>m. m \<le> 36 \<Longrightarrow> m \<noteq> 34 \<Longrightarrow> members ls m = members (lists s) m"
    "pxContainer ls = (pxContainer (lists s))(xEventListItem t := None)"
    "xItemValue ls = xItemValue (lists s)" "pvOwner ls = pvOwner (lists s)"
proof -
  obtain ls where r: "leave_event_list t s = Some (s\<lparr>lists := ls\<rparr>)" "kernel_ok T D H (s\<lparr>lists := ls\<rparr>)"
    "\<And>m. m \<le> 36 \<Longrightarrow> m \<noteq> 34 \<Longrightarrow> members ls m = members (lists s) m"
    "pxContainer ls = (pxContainer (lists s))(xEventListItem t := None)"
    "xItemValue ls = xItemValue (lists s)" "pvOwner ls = pvOwner (lists s)"
    by (rule leave_event [OF kinvD(1) [OF k]]) blast
  show ?thesis by (intro that [OF r(1) kinv_lists' [OF k r(2)] r(3-6)]) (use r(3,5) in auto)
qed

lemma kinv_take_event:
  assumes k: "kinv T D H s" and t: "pxContainer (lists s) (xEventListItem t) = Some l"
  obtains n ls where "kListRemove (xEventListItem t) s = Some (n, s\<lparr>lists := ls\<rparr>)" "kinv T D H (s\<lparr>lists := ls\<rparr>)"
    "members ls l = remove1 (xEventListItem t) (members (lists s) l)"
    "\<And>m. m \<in> D \<Longrightarrow> m \<noteq> l \<Longrightarrow> members ls m = members (lists s) m"
    "pxContainer ls = (pxContainer (lists s))(xEventListItem t := None)"
    "xItemValue ls = xItemValue (lists s)" "pvOwner ls = pvOwner (lists s)"
proof -
  note ok = kinvD(1) [OF k]
  obtain n ls where r: "kListRemove (xEventListItem t) s = Some (n, s\<lparr>lists := ls\<rparr>)" "kernel_ok T D H (s\<lparr>lists := ls\<rparr>)"
    "members ls l = remove1 (xEventListItem t) (members (lists s) l)"
    "\<And>m. m \<in> D \<Longrightarrow> m \<noteq> l \<Longrightarrow> members ls m = members (lists s) m"
    "pxContainer ls = (pxContainer (lists s))(xEventListItem t := None)"
    "xItemValue ls = xItemValue (lists s)" "pvOwner ls = pvOwner (lists s)"
    by (rule take_event [OF ok t]) blast
  have "members ls m = members (lists s) m" if "m \<in> {32, 33, 35}" for m
    using r(4) [of m] kernel_dom [OF ok, of m] kernel_eventD(2) [OF ok t] that by auto
  then show ?thesis by (intro that [OF r(1) kinv_lists' [OF k r(2)] r(3-7)]) (use r(6) in auto)
qed

lemma kinv_put_event_end:
  assumes k: "kinv T D H s" and t: "t \<in> T" "pxContainer (lists s) (xEventListItem t) = None"
    "pxContainer (lists s) (xStateListItem t) \<noteq> Some 35" and l: "l = 34 \<or> 36 < l" "l \<in> D"
  shows "kinv T D H (s\<lparr>lists := vListInsertEnd (lists s) l (xEventListItem t)\<rparr>)"
proof -
  note ok = kinvD(1) [OF k]
  note p = put_event_end [OF ok t l]
  have "members (vListInsertEnd (lists s) l (xEventListItem t)) m = members (lists s) m" if "m \<in> {32, 33, 35}" for m
    using p(2) [of m] kernel_dom [OF ok, of m] l that by auto
  then show ?thesis by (intro kinv_lists' [OF k p(1)]) auto
qed

lemma kinv_put_event:
  assumes k: "kinv T D H s" and t: "t \<in> T" "pxContainer (lists s) (xEventListItem t) = None"
    "pxContainer (lists s) (xStateListItem t) \<noteq> Some 35" and l: "36 < l" "l \<in> D"
  obtains ls where "vListInsert (lists s) l (xEventListItem t) = Some ls" "kinv T D H (s\<lparr>lists := ls\<rparr>)"
    "\<And>m. m \<in> D \<Longrightarrow> m \<noteq> l \<Longrightarrow> members ls m = members (lists s) m"
    "members ls l = insert_pos (xItemValue (lists s)) (xEventListItem t) (members (lists s) l)"
    "pxContainer ls = (pxContainer (lists s))(xEventListItem t := Some l)"
    "xItemValue ls = xItemValue (lists s)" "pvOwner ls = pvOwner (lists s)"
proof -
  note ok = kinvD(1) [OF k]
  obtain ls where r: "vListInsert (lists s) l (xEventListItem t) = Some ls" "kernel_ok T D H (s\<lparr>lists := ls\<rparr>)"
    "\<And>m. m \<in> D \<Longrightarrow> m \<noteq> l \<Longrightarrow> members ls m = members (lists s) m"
    "members ls l = insert_pos (xItemValue (lists s)) (xEventListItem t) (members (lists s) l)"
    "pxContainer ls = (pxContainer (lists s))(xEventListItem t := Some l)"
    "xItemValue ls = xItemValue (lists s)" "pvOwner ls = pvOwner (lists s)"
    by (rule put_event [OF ok t disjI2 [OF l(1)] l(2)]) blast
  have "members ls m = members (lists s) m" if "m \<in> {32, 33, 35}" for m
    using r(3) [of m] kernel_dom [OF ok, of m] l that by auto
  then show ?thesis by (intro that [OF r(1) kinv_lists' [OF k r(2)] r(3-7)]) (use r(6) in auto)
qed

subsection \<open>Values and priorities\<close>

lemma kinv_event_value:
  assumes k: "kinv T D H s"
  shows "kinv T D H (set_item_value (xEventListItem t) v s)"
proof -
  note ok = kinvD(1) [OF k]
  note v = value_ok [OF ok event_item, of t v]
  have out: "xEventListItem t \<notin> set (members (lists s) l)" if "l \<in> {32, 33}" for l
  proof
    assume "xEventListItem t \<in> set (members (lists s) l)"
    then show False using that by (elim kernel_member [OF ok, rotated]) auto
  qed
  have "delay_ok (s\<lparr>lists := lists (set_item_value (xEventListItem t) v s), uxTopReadyPriority := uxTopReadyPriority s\<rparr>)"
  proof (rule delay_ok_sub [OF kinvD(1,2) [OF k]])
    fix l :: nat and x assume l: "l \<in> {32, 33}" "x \<in> set (members (lists s) l)"
    then have "x \<noteq> xEventListItem t" using out by blast
    then show "xItemValue (lists (set_item_value (xEventListItem t) v s)) x = xItemValue (lists s) x"
      by (simp add: set_item_value_def)
  qed (simp add: v(2))
  then have "delay_ok (set_item_value (xEventListItem t) v s)" by (simp add: set_item_value_def)
  then show ?thesis using k v by (simp add: kinv_def count_ok_def) (simp add: set_item_value_def)
qed

lemma kinv_set_event_value: "kinv T D H s \<Longrightarrow> kinv T D H (set_event_value t v s)"
  by (simp add: set_event_value_def kinv_event_value)

lemma kinv_priority:
  assumes k: "kinv T D H s"
    and t: "\<And>l. pxContainer (lists s) (xStateListItem t) = Some l \<Longrightarrow> \<not> l < 32"
    and f: "uxPriority (f (tcb s t)) < 32" "uxBasePriority (f (tcb s t)) < 32"
  shows "kinv T D H (set_tcb t f s)"
proof -
  have "delay_ok (set_tcb t f s)"
    by (rule delay_ok_cong [OF kinvD(2) [OF k]]) (simp_all add: set_tcb_def)
  then show ?thesis using priority_ok [where f = f, OF kinvD(1) [OF k] t f] k by (simp add: kinv_def count_ok_def) (simp add: set_tcb_def)
qed

lemma kinv_tcb_other:
  assumes k: "kinv T D H s"
    and f: "uxPriority (f (tcb s t)) = uxPriority (tcb s t)"
      "uxBasePriority (f (tcb s t)) < 32 \<or> uxBasePriority (f (tcb s t)) = uxBasePriority (tcb s t)"
  shows "kinv T D H (set_tcb t f s)"
proof -
  have "delay_ok (set_tcb t f s)"
    by (rule delay_ok_cong [OF kinvD(2) [OF k]]) (simp_all add: set_tcb_def)
  then show ?thesis using tcb_other_ok [where f = f, OF kinvD(1) [OF k] f] k by (simp add: kinv_def count_ok_def) (simp add: set_tcb_def)
qed

lemma kinv_yield: "kinv T D H s \<Longrightarrow> kinv T D H (portYIELD s)"
  by (rule kinv_cong, assumption)
    (simp_all add: portYIELD_def rv_trigger_soft_interrupt_def riscv_trigger_soft_interrupt_def)

lemma kinv_yield_pending: "kinv T D H s \<Longrightarrow> kinv T D H (s\<lparr>xYieldPending := b\<rparr>)"
  by (rule kinv_cong, assumption) simp_all

lemma kinv_reset_unblock: "kinv T D H s \<Longrightarrow> kinv T D H (prvResetNextTaskUnblockTime s)"
proof -
  assume k: "kinv T D H s"
  note ok = kinvD(1) [OF k]
  have dD: "pxDelayedTaskList s \<in> D" using kernel_dom [OF ok] by (cases rule: delayed_cases [OF ok]) auto
  have "delay_ok (prvResetNextTaskUnblockTime s)"
  proof (cases "members (lists s) (pxDelayedTaskList s)")
    case Nil
    then show ?thesis
      using kinvD(2) [OF k] members_is_empty [OF kernel_lists [OF ok] dD]
      by (simp add: prvResetNextTaskUnblockTime_def delay_ok_def wake_times_def)
  next
    case (Cons x xs)
    then show ?thesis
      using kinvD(2) [OF k] members_is_empty [OF kernel_lists [OF ok] dD] members_head [OF kernel_lists [OF ok] dD Cons]
      by (auto simp: prvResetNextTaskUnblockTime_def delay_ok_def wake_times_def)
  qed
  moreover have "kernel_ok T D H (prvResetNextTaskUnblockTime s)"
    by (rule kernel_ok_cong [OF ok]) (simp_all add: prvResetNextTaskUnblockTime_def)
  ultimately show ?thesis using k by (simp add: kinv_def count_ok_def) (simp add: prvResetNextTaskUnblockTime_def)
qed

end
