(* ===== verification/Task_Switch.thy ===== *)
theory Task_Switch
  imports Task_Moves
begin

text \<open>
  The choice of the next task: the bitmap of ready priorities yields the highest one, and the
  context switch runs the next task of that list. Then two composite moves: making a task ready
  from wherever its state item is, and blocking the running task.
\<close>

subsection \<open>The highest ready priority\<close>

lemma takeWhile_highest:
  assumes p: "p < n" "P p" and above: "\<And>q. p < q \<Longrightarrow> q < n \<Longrightarrow> \<not> P q"
  shows "length (takeWhile (\<lambda>i. \<not> P i) (rev [0..<n])) = n - 1 - p"
proof -
  have "[0..<n] = [0..<p] @ p # [Suc p..<n]"
    using upt_add_eq_append [of 0 p "n - p"] p(1) by (simp add: upt_conv_Cons)
  then have rev: "rev [0..<n] = rev [Suc p..<n] @ p # rev [0..<p]" by simp
  have "takeWhile (\<lambda>i. \<not> P i) (rev [0..<n]) = rev [Suc p..<n]"
    unfolding rev using above p(2) by (subst takeWhile_append2) auto
  then show ?thesis using p(1) by simp
qed

lemma builtin_clz_highest:
  assumes p: "p < 32" "bit w p" and above: "\<And>q. p < q \<Longrightarrow> \<not> bit w q"
  shows "builtin_clz w = Some (31 - p)"
proof -
  have "w \<noteq> 0" using p(2) by auto
  moreover have "length (takeWhile (\<lambda>i. \<not> bit w i) (rev [0..<32])) = 32 - 1 - p"
    by (rule takeWhile_highest [where P = "bit w", OF p above])
  ultimately show ?thesis by (simp add: builtin_clz_def)
qed

lemma highest_priority:
  assumes ready: "ready_map ls w" and p: "p < 32" "members ls p \<noteq> []" and above: "\<And>q. p < q \<Longrightarrow> q < 32 \<Longrightarrow> members ls q = []"
  shows "portGET_HIGHEST_PRIORITY w = Some (of_nat p)"
proof -
  have bits: "bit w q \<longleftrightarrow> q < 32 \<and> members ls q \<noteq> []" for q using ready by (simp add: ready_map_def)
  have "builtin_clz (ucast w :: u32) = Some (31 - p)"
    by (rule builtin_clz_highest) (use p above bits in \<open>auto simp: bit_ucast_iff\<close>)
  moreover have "(31 :: u64) - of_nat (31 - p) = of_nat p"
    using p(1) by (simp add: of_nat_diff)
  ultimately show ?thesis by (simp add: portGET_HIGHEST_PRIORITY_def)
qed

subsection \<open>The context switch\<close>

text \<open>\<open>ready_top s p\<close>: \<open>p\<close> is the highest priority with a ready task.\<close>

definition ready_top :: "kernel \<Rightarrow> nat \<Rightarrow> bool" where
  "ready_top s p \<longleftrightarrow> p < 32 \<and> members (lists s) p \<noteq> [] \<and> (\<forall>q. p < q \<longrightarrow> q < 32 \<longrightarrow> members (lists s) q = [])"

lemma ready_top_ex: "p < 32 \<Longrightarrow> members (lists s) p \<noteq> [] \<Longrightarrow> \<exists>p. ready_top s p"
proof -
  assume p: "p < 32" "members (lists s) p \<noteq> []"
  let ?S = "{q. q < 32 \<and> members (lists s) q \<noteq> []}"
  have fin: "finite ?S" by simp
  have ne: "?S \<noteq> {}" using p by auto
  have "ready_top s (Max ?S)"
    unfolding ready_top_def using Max_in [OF fin ne] Max_ge [OF fin] leD by blast
  then show ?thesis by blast
qed

lemma select_highest:
  assumes k: "kinv T D H s" and top: "ready_top s p"
  obtains t ls where "taskSELECT_HIGHEST_PRIORITY_TASK s = Some (s\<lparr>lists := ls, pxCurrentTCB := Some t\<rparr>)"
    "t \<in> T" "t \<notin> H" "xStateListItem t = hd (walk_order (lists s) p (members (lists s) p))"
    "pxContainer (lists s) (xStateListItem t) = Some p" "unat (uxPriority (tcb s t)) = p"
    "kinv T D H (s\<lparr>lists := ls, pxCurrentTCB := Some t\<rparr>)" "members ls = members (lists s)"
    "pxContainer ls = pxContainer (lists s)" "xItemValue ls = xItemValue (lists s)" "pvOwner ls = pvOwner (lists s)"
proof -
  note ok = kinvD(1) [OF k]
  have p: "p < 32" "members (lists s) p \<noteq> []" using top by (simp_all add: ready_top_def)
  have pD: "p \<in> D" using kernel_dom [OF ok] p by simp
  obtain x ls where x: "listGET_OWNER_OF_NEXT_ENTRY (lists s) p = (pvOwner (lists s) x, ls)" "x \<in> set (members (lists s) p)"
    "list_ok D ls" "members ls = members (lists s)" "pxContainer ls = pxContainer (lists s)" "xItemValue ls = xItemValue (lists s)"
    "pvOwner ls = pvOwner (lists s)" "x = hd (walk_order (lists s) p (members (lists s) p))"
    by (rule list_ok_next_entry [OF kernel_lists [OF ok] pD p(2)]) blast
  obtain t where t: "x = xStateListItem t" "t \<in> T" "t \<notin> H" "pvOwner (lists s) x = t"
    by (rule kernel_member [OF ok _ x(2)]) (use p(1) in simp_all)
  have c: "pxContainer (lists s) (xStateListItem t) = Some p"
    using members_container [OF kernel_lists [OF ok] pD] x(2) t(1) by simp
  have run: "taskSELECT_HIGHEST_PRIORITY_TASK s = Some (s\<lparr>lists := ls, pxCurrentTCB := Some t\<rparr>)"
  proof -
    have pn: "unat (of_nat p :: u64) = p" by (rule unat_of_nat_lt) (use p(1) in simp)
    then have "pxReadyTasksLists (of_nat p) = Some p"
      using p(1) by (simp add: pxReadyTasksLists_def word_less_nat_alt)
    moreover have "portGET_HIGHEST_PRIORITY (uxTopReadyPriority s) = Some (of_nat p)"
      by (rule highest_priority [OF kernel_bits [OF ok] p]) (use top in \<open>simp add: ready_top_def\<close>)
    ultimately show ?thesis using x(1) t(4) by (simp add: taskSELECT_HIGHEST_PRIORITY_TASK_def)
  qed
  have ok': "kernel_ok T D H (s\<lparr>lists := ls, pxCurrentTCB := Some t\<rparr>)"
    by (rule kernel_ok_cong [OF lists_ok [OF ok x(3,4,7,5)]]) simp_all
  have "delay_ok (s\<lparr>lists := ls, pxCurrentTCB := Some t\<rparr>)"
    using kinvD(2) [OF k] x(4,6) by (simp add: delay_ok_def wake_times_def)
  then have k': "kinv T D H (s\<lparr>lists := ls, pxCurrentTCB := Some t\<rparr>)"
    using ok' kinvD(3) [OF k] t(2) x(4) by (simp add: kinv_def count_ok_def)
  show ?thesis
    by (rule that [OF run t(2,3) x(8)[unfolded t(1)] c kernel_placeD(3) [OF ok c p(1), symmetric] k' x(4-7)])
qed

lemma switch_context:
  assumes k: "kinv T D H s" and top: "ready_top s p" and un: "uxSchedulerSuspended s = 0"
  obtains t ls e f where "vTaskSwitchContext s = Some (s\<lparr>xYieldPending := False, tcb := e, lists := ls,
      pxCurrentTCB := Some t, FreeRTOS_errno := f\<rparr>)"
    "t \<in> T" "t \<notin> H" "xStateListItem t = hd (walk_order (lists s) p (members (lists s) p))"
    "pxContainer (lists s) (xStateListItem t) = Some p" "unat (uxPriority (tcb s t)) = p"
    "kinv T D H (s\<lparr>xYieldPending := False, tcb := e, lists := ls, pxCurrentTCB := Some t, FreeRTOS_errno := f\<rparr>)"
    "members ls = members (lists s)" "pxContainer ls = pxContainer (lists s)" "xItemValue ls = xItemValue (lists s)"
    "\<And>u. uxPriority (e u) = uxPriority (tcb s u)" "\<And>u. uxBasePriority (e u) = uxBasePriority (tcb s u)"
proof -
  obtain c where c: "pxCurrentTCB s = Some c" "c \<in> T" using kinv_current [OF k] .
  define e where "e = (tcb s)(c := (tcb s c)\<lparr>iTaskErrno := FreeRTOS_errno s\<rparr>)"
  define s1 where "s1 = s\<lparr>xYieldPending := False, tcb := e\<rparr>"
  have prio: "uxPriority (e u) = uxPriority (tcb s u)" "uxBasePriority (e u) = uxBasePriority (tcb s u)" for u
    by (simp_all add: e_def)
  have k1: "kinv T D H s1" by (rule kinv_cong [OF k]) (simp_all add: s1_def prio)
  have top1: "ready_top s1 p" using top by (simp add: ready_top_def s1_def)
  obtain t ls where t: "taskSELECT_HIGHEST_PRIORITY_TASK s1 = Some (s1\<lparr>lists := ls, pxCurrentTCB := Some t\<rparr>)"
    "t \<in> T" "t \<notin> H" "xStateListItem t = hd (walk_order (lists s1) p (members (lists s1) p))"
    "pxContainer (lists s1) (xStateListItem t) = Some p" "unat (uxPriority (tcb s1 t)) = p"
    "kinv T D H (s1\<lparr>lists := ls, pxCurrentTCB := Some t\<rparr>)" "members ls = members (lists s1)"
    "pxContainer ls = pxContainer (lists s1)" "xItemValue ls = xItemValue (lists s1)"
    by (rule select_highest [OF k1 top1]) blast
  define f where "f = iTaskErrno (e t)"
  define s2 where "s2 = s\<lparr>xYieldPending := False, tcb := e, lists := ls, pxCurrentTCB := Some t, FreeRTOS_errno := f\<rparr>"
  have "vTaskSwitchContext s = Some s2"
    using t(1) un c by (simp add: vTaskSwitchContext_def s1_def s2_def e_def f_def set_tcb_def)
  moreover have "kinv T D H s2" by (rule kinv_cong [OF t(7)]) (simp_all add: s1_def s2_def)
  ultimately show ?thesis using that t(2-6,8-10) prio unfolding s2_def by (simp add: s1_def)
qed

subsection \<open>Making a task ready\<close>

lemma top_lists_swap: "s\<lparr>uxTopReadyPriority := w, lists := ls\<rparr> = s\<lparr>lists := ls, uxTopReadyPriority := w\<rparr>"
  by simp

lemma record_reset: "p < 32 \<Longrightarrow> portRECORD_READY_PRIORITY p (portRESET_READY_PRIORITY p w) = portRECORD_READY_PRIORITY p w"
  by (rule bit_word_eqI) (auto simp: bit_record bit_reset)

text \<open>
  The statements \<open>uxListRemove\<close> of the state item and \<open>prvAddTaskToReadyList\<close> in a row: the bit
  of the priority is set whether or not the task was ready before.
\<close>

lemma make_ready:
  assumes k: "kinv T D H s" and t: "pxContainer (lists s) (xStateListItem t) = Some l" and l: "l \<noteq> 35"
  obtains n ls1 ls w where "kListRemove (xStateListItem t) s = Some (n, s\<lparr>lists := ls1\<rparr>)"
    "prvAddTaskToReadyList t (s\<lparr>lists := ls1\<rparr>) = Some (s\<lparr>lists := ls, uxTopReadyPriority := w\<rparr>)"
    "kinv T D H (s\<lparr>lists := ls, uxTopReadyPriority := w\<rparr>)"
    "pxContainer ls = (pxContainer (lists s))(xStateListItem t := Some (unat (uxPriority (tcb s t))))"
    "xItemValue ls = xItemValue (lists s)" "pvOwner ls = pvOwner (lists s)" "unat (uxPriority (tcb s t)) < 32"
    "pxContainer ls1 = (pxContainer (lists s))(xStateListItem t := None)"
proof -
  have H: "t \<notin> H" using kernel_placeD(2) [OF kinvD(1) [OF k] t] .
  have pr: "uxPriority (tcb s t) < 32"
    using kernel_task(2) [OF kinvD(1) [OF k] kernel_placeD(1) [OF kinvD(1) [OF k] t]] .
  obtain n ls1 w1 where r: "kListRemove (xStateListItem t) s = Some (n, s\<lparr>lists := ls1\<rparr>)"
    "(if n = 0 then taskRESET_READY_PRIORITY (uxPriority (tcb s t)) (s\<lparr>lists := ls1\<rparr>) else Some (s\<lparr>lists := ls1\<rparr>)) =
       Some (s\<lparr>lists := ls1, uxTopReadyPriority := w1\<rparr>)"
    "kinv T D (insert t H) (s\<lparr>lists := ls1, uxTopReadyPriority := w1\<rparr>)"
    "pxContainer ls1 = (pxContainer (lists s))(xStateListItem t := None)"
    "xItemValue ls1 = xItemValue (lists s)" "pvOwner ls1 = pvOwner (lists s)"
    by (rule kinv_take_any [OF k t l]) blast
  have w1: "w1 = uxTopReadyPriority s \<or> w1 = portRESET_READY_PRIORITY (uxPriority (tcb s t)) (uxTopReadyPriority s)"
    using r(2) pr
    by (auto simp: taskRESET_READY_PRIORITY_def pxReadyTasksLists_def split: if_splits dest: arg_cong [where f = uxTopReadyPriority])
  obtain ls w where p: "prvAddTaskToReadyList t (s\<lparr>lists := ls1, uxTopReadyPriority := w1\<rparr>) =
      Some (s\<lparr>lists := ls1, uxTopReadyPriority := w1\<rparr>\<lparr>lists := ls, uxTopReadyPriority := w\<rparr>)"
    "kinv T D (insert t H - {t}) (s\<lparr>lists := ls1, uxTopReadyPriority := w1\<rparr>\<lparr>lists := ls, uxTopReadyPriority := w\<rparr>)"
    "pxContainer ls = (pxContainer ls1)(xStateListItem t := Some (unat (uxPriority (tcb s t))))"
    "xItemValue ls = xItemValue ls1" "pvOwner ls = pvOwner ls1" "unat (uxPriority (tcb s t)) < 32"
    by (rule kinv_put_ready [OF r(3), of t]) simp_all
  have "prvAddTaskToReadyList t (s\<lparr>lists := ls1\<rparr>) = Some (s\<lparr>lists := ls, uxTopReadyPriority := w\<rparr>)"
    using p(1) w1 pr by (auto simp: prvAddTaskToReadyList_def pxReadyTasksLists_def record_reset)
  moreover have "kinv T D H (s\<lparr>lists := ls, uxTopReadyPriority := w\<rparr>)" using p(2) H by simp
  ultimately show ?thesis using that r(1,4-6) p(3-6) by simp
qed

subsection \<open>Blocking the running task\<close>

definition delayed_to :: "kernel \<Rightarrow> u64 \<Rightarrow> bool \<Rightarrow> nat" where
  "delayed_to s ticks indefinitely =
     (if ticks = portMAX_DELAY \<and> indefinitely then xSuspendedTaskList
      else if xTickCount s + ticks < xTickCount s then pxOverflowDelayedTaskList s else pxDelayedTaskList s)"

lemma word_wake_later: "(ticks :: u64) \<noteq> 0 \<Longrightarrow> \<not> t + ticks < t \<Longrightarrow> t < t + ticks"
  by (metis add_cancel_right_right order_le_less not_less)

lemma sorted_map_insert_pos: "sorted (map v xs) \<Longrightarrow> sorted (map v (insert_pos v n xs))"
  using sorted_insert_pos [of v xs n] by (simp add: sorted_by_def)

lemma add_to_delayed:
  assumes k: "kinv T D H s" and c: "pxCurrentTCB s = Some c" and r: "pxContainer (lists s) (xStateListItem c) = Some l" "l < 32"
    and ticks: "ticks \<noteq> 0"
  obtains ls w u where "prvAddCurrentTaskToDelayedList ticks b s =
      Some (s\<lparr>lists := ls, uxTopReadyPriority := w, xNextTaskUnblockTime := u\<rparr>)"
    "kinv T D H (s\<lparr>lists := ls, uxTopReadyPriority := w, xNextTaskUnblockTime := u\<rparr>)"
    "pxContainer ls = (pxContainer (lists s))(xStateListItem c := Some (delayed_to s ticks b))"
    "\<not> (ticks = portMAX_DELAY \<and> b) \<Longrightarrow>
       xItemValue ls = (xItemValue (lists s))(xStateListItem c := xTickCount s + ticks)"
    "pvOwner ls = pvOwner (lists s)"
proof -
  note ok = kinvD(1) [OF k]
  have H: "c \<notin> H" using kernel_placeD(2) [OF ok r(1)] .
  obtain n ls1 where t: "kListRemove (xStateListItem c) s = Some (n, s\<lparr>lists := ls1\<rparr>)"
    "kinv T D (insert c H) (s\<lparr>lists := ls1, uxTopReadyPriority :=
       (if n = 0 then portRESET_READY_PRIORITY (uxPriority (tcb s c)) (uxTopReadyPriority s) else uxTopReadyPriority s)\<rparr>)"
    "pxContainer ls1 = (pxContainer (lists s))(xStateListItem c := None)"
    "xItemValue ls1 = xItemValue (lists s)" "pvOwner ls1 = pvOwner (lists s)"
    by (rule kinv_take_ready [OF k r]) blast
  define w where "w = (if n = 0 then portRESET_READY_PRIORITY (uxPriority (tcb s c)) (uxTopReadyPriority s) else uxTopReadyPriority s)"
  define s1 where "s1 = s\<lparr>lists := ls1, uxTopReadyPriority := w\<rparr>"
  have k1: "kinv T D (insert c H) s1" using t(2) by (simp add: s1_def w_def)
  note ok1 = kinvD(1) [OF k1]
  have run1: "prvAddCurrentTaskToDelayedList ticks b s =
     (if ticks = portMAX_DELAY \<and> b then Some (s1\<lparr>lists := vListInsertEnd (lists s1) xSuspendedTaskList (xStateListItem c)\<rparr>)
      else do {
        let v = xTickCount s + ticks;
        let s = set_item_value (xStateListItem c) v s1;
        if v < xTickCount s1 then do {
          ls \<leftarrow> vListInsert (lists s) (pxOverflowDelayedTaskList s) (xStateListItem c); Some (s\<lparr>lists := ls\<rparr>) }
        else do {
          ls \<leftarrow> vListInsert (lists s) (pxDelayedTaskList s) (xStateListItem c);
          let s = s\<lparr>lists := ls\<rparr>;
          Some (if v < xNextTaskUnblockTime s then s\<lparr>xNextTaskUnblockTime := v\<rparr> else s) } })"
  proof -
    show ?thesis
      using t(1) by (cases "n = 0") (simp_all add: prvAddCurrentTaskToDelayedList_def c Let_def s1_def w_def)
  qed
  show ?thesis
  proof (cases "ticks = portMAX_DELAY \<and> b")
    case True
    let ?ls = "vListInsertEnd ls1 xSuspendedTaskList (xStateListItem c)"
    have k2: "kinv T D H (s\<lparr>lists := ?ls, uxTopReadyPriority := w, xNextTaskUnblockTime := xNextTaskUnblockTime s\<rparr>)"
      using kinv_put_suspended [OF k1, of c] H by (simp add: s1_def top_lists_swap)
    have run: "prvAddCurrentTaskToDelayedList ticks b s = Some (s\<lparr>lists := ?ls, uxTopReadyPriority := w,
        xNextTaskUnblockTime := xNextTaskUnblockTime s\<rparr>)"
      unfolding run1 using True by (simp add: s1_def)
    show ?thesis by (rule that [OF run k2]) (use True t in \<open>simp_all add: delayed_to_def\<close>)
  next
    case False
    define v where "v = xTickCount s + ticks"
    define s2 where "s2 = set_item_value (xStateListItem c) v s1"
    note v2 = value_ok [OF ok1 state_item, of c v, folded s2_def]
    have f2: "xItemValue (lists s2) = (xItemValue (lists s))(xStateListItem c := v)" "pvOwner (lists s2) = pvOwner (lists s)"
      "pxContainer (lists s2) = (pxContainer (lists s))(xStateListItem c := None)"
      "pxDelayedTaskList s2 = pxDelayedTaskList s" "pxOverflowDelayedTaskList s2 = pxOverflowDelayedTaskList s"
      "xTickCount s2 = xTickCount s" "xNextTaskUnblockTime s2 = xNextTaskUnblockTime s"
      "uxCurrentNumberOfTasks s2 = uxCurrentNumberOfTasks s" "uxDeletedTasksWaitingCleanUp s2 = uxDeletedTasksWaitingCleanUp s"
      by (simp_all add: s2_def s1_def set_item_value_def t)
    have out: "xStateListItem c \<notin> set (members (lists s1) m)" if "m \<le> 36" for m
      using members_container [OF kernel_lists [OF ok1] kernel_dom [OF ok1 that]] kernel_held [OF ok1, of c] by simp
    have wake: "map (xItemValue (lists s2)) (members (lists s1) m) = wake_times s1 m" if "m \<le> 36" for m
      using out [OF that] t(4) by (auto simp: wake_times_def f2 s1_def)
    note d1 = kinvD(2) [OF k1]
    have dl: "pxDelayedTaskList s1 = pxDelayedTaskList s" "pxOverflowDelayedTaskList s1 = pxOverflowDelayedTaskList s"
      "xTickCount s1 = xTickCount s" "xNextTaskUnblockTime s1 = xNextTaskUnblockTime s" by (simp_all add: s1_def)
    have dcase: "pxDelayedTaskList s \<in> {32, 33}" "pxOverflowDelayedTaskList s \<in> {32, 33}"
      "pxDelayedTaskList s \<noteq> pxOverflowDelayedTaskList s"
      by (cases rule: delayed_cases [OF ok]; simp)+
    define d where "d = delayed_to s ticks b"
    have d: "d = (if v < xTickCount s then pxOverflowDelayedTaskList s else pxDelayedTaskList s)"
      unfolding d_def delayed_to_def v_def if_not_P [OF False] ..
    have d3: "d \<in> {32, 33}" using dcase d by simp
    obtain ls where ls: "vListInsert (lists s2) d (xStateListItem c) = Some ls" "kernel_ok T D (insert c H - {c}) (s2\<lparr>lists := ls\<rparr>)"
      "members ls d = insert_pos (xItemValue (lists s2)) (xStateListItem c) (members (lists s2) d)"
      "\<And>m. m \<in> D \<Longrightarrow> m \<noteq> d \<Longrightarrow> members ls m = members (lists s2) m"
      "pxContainer ls = (pxContainer (lists s2))(xStateListItem c := Some d)"
      "xItemValue ls = xItemValue (lists s2)" "pvOwner ls = pvOwner (lists s2)"
      by (rule put_delayed [OF v2(1) insertI1 d3]) blast
    define u where "u = (if \<not> v < xTickCount s \<and> v < xNextTaskUnblockTime s then v else xNextTaskUnblockTime s)"
    define s3 where "s3 = s\<lparr>lists := ls, uxTopReadyPriority := w, xNextTaskUnblockTime := u\<rparr>"
    have run: "prvAddCurrentTaskToDelayedList ticks b s = Some s3"
      unfolding run1 if_not_P [OF False] using ls(1) dl
      by (cases "v < xTickCount s")
        (simp_all add: d s3_def u_def Let_def flip: v_def s2_def, simp_all add: s2_def s1_def set_item_value_def)
    have ok3: "kernel_ok T D H s3"
      by (rule kernel_ok_cong [OF ls(2)[unfolded Diff_insert_absorb [OF H] insert_Diff_single]])
        (simp_all add: s3_def s2_def s1_def set_item_value_def)
    note mem = ls(3) ls(4) [OF kernel_dom [OF ok]]
    have wd: "wake_times s3 d = map (xItemValue (lists s2)) (insert_pos (xItemValue (lists s2)) (xStateListItem c) (members (lists s1) d))"
      using mem(1) v2(2) ls(6) by (simp add: wake_times_def s3_def)
    have wo: "wake_times s3 m = wake_times s1 m" if "m \<le> 36" "m \<noteq> d" for m
      using mem(2) [OF that] v2(2) ls(6) wake [OF that(1)] by (simp add: wake_times_def s3_def)
    have set_wd: "set (wake_times s3 d) = insert v (set (wake_times s1 d))"
    proof -
      have "d \<le> 36" using d3 by auto
      then show ?thesis
        using wake [of d] by (simp only: wd list.set_map set_insert_pos image_insert flip: wake) (simp add: f2(1))
    qed
    have sorted_wd: "sorted (wake_times s1 d) \<Longrightarrow> sorted (wake_times s3 d)"
      using wake [of d] d3 unfolding wd by (intro sorted_map_insert_pos) auto
    have f3: "pxDelayedTaskList s3 = pxDelayedTaskList s" "pxOverflowDelayedTaskList s3 = pxOverflowDelayedTaskList s"
      "xTickCount s3 = xTickCount s" "xNextTaskUnblockTime s3 = u" by (simp_all add: s3_def)
    have "delay_ok s3"
    proof (cases "v < xTickCount s")
      case True
      then have d': "d = pxOverflowDelayedTaskList s" using d by simp
      have o: "wake_times s3 (pxDelayedTaskList s) = wake_times s1 (pxDelayedTaskList s)"
        using wo [of "pxDelayedTaskList s"] dcase d' by auto
      have "u = xNextTaskUnblockTime s" using True by (simp add: u_def)
      then show ?thesis using d1 True set_wd sorted_wd o unfolding d' delay_ok_def dl f3 by auto
    next
      case False
      then have d': "d = pxDelayedTaskList s" using d by simp
      have o: "wake_times s3 (pxOverflowDelayedTaskList s) = wake_times s1 (pxOverflowDelayedTaskList s)"
        using wo [of "pxOverflowDelayedTaskList s"] dcase d' by auto
      have later: "xTickCount s < v" using word_wake_later [OF ticks] False by (simp add: v_def)
      have "u \<le> v" "u \<le> xNextTaskUnblockTime s" using False by (auto simp: u_def)
      then show ?thesis using d1 later set_wd sorted_wd o unfolding d' delay_ok_def dl f3 by auto
    qed
    moreover have "members ls 35 = members (lists s1) 35"
      using mem(2) [of 35] v2(2) d3 by auto
    ultimately have "kinv T D H s3" using k1 ok3 by (simp add: kinv_def count_ok_def s3_def s1_def)
    then show ?thesis using that run ls(5-7) f2 unfolding s3_def d_def v_def by simp
  qed
qed

end
