(* ===== verification/Task_Tick.thy ===== *)
theory Task_Tick
  imports Task_Switch
begin

text \<open>
  The tick. The loop of \<open>xTaskIncrementTick\<close> takes exactly the expired tasks off the delayed list,
  whose order makes them its front; around the wrap of the counter the overflow list takes over.
\<close>

text \<open>The delayed list while expired tasks are still in it.\<close>

definition late_ok :: "kernel \<Rightarrow> bool" where
  "late_ok s \<longleftrightarrow> sorted (wake_times s (pxDelayedTaskList s)) \<and> sorted (wake_times s (pxOverflowDelayedTaskList s)) \<and>
     (\<forall>v\<in>set (wake_times s (pxOverflowDelayedTaskList s)). v \<le> xTickCount s)"

definition expired :: "kernel \<Rightarrow> u64 \<Rightarrow> node list" where
  "expired s now = takeWhile (\<lambda>x. xItemValue (lists s) x \<le> now) (members (lists s) (pxDelayedTaskList s))"

definition woken :: "kernel \<Rightarrow> u64 \<Rightarrow> nat \<Rightarrow> bool" where
  "woken s now t \<longleftrightarrow> xStateListItem t \<in> set (expired s now)"

text \<open>One round of the loop: the head of the delayed list becomes ready.\<close>

lemma wake_head:
  assumes ok: "kernel_ok T D {} s" and xs: "members (lists s) (pxDelayedTaskList s) = x # xs"
  obtains t ls ls2 w n where "x = xStateListItem t" "t \<in> T" "listGET_OWNER_OF_HEAD_ENTRY (lists s) (pxDelayedTaskList s) = t"
    "kListRemove (xStateListItem t) s = Some (n, s\<lparr>lists := ls\<rparr>)"
    "leave_event_list t (s\<lparr>lists := ls\<rparr>) = Some (s\<lparr>lists := ls2\<rparr>)"
    "\<exists>ls3. prvAddTaskToReadyList t (s\<lparr>lists := ls2\<rparr>) = Some (s\<lparr>lists := ls3, uxTopReadyPriority := w\<rparr>) \<and>
      kernel_ok T D {} (s\<lparr>lists := ls3, uxTopReadyPriority := w\<rparr>) \<and> members ls3 (pxDelayedTaskList s) = xs \<and>
      (\<forall>m\<in>{32, 33, 35}. m \<noteq> pxDelayedTaskList s \<longrightarrow> members ls3 m = members (lists s) m) \<and>
      pxContainer ls3 = (pxContainer (lists s))(xEventListItem t := None, xStateListItem t := Some (unat (uxPriority (tcb s t)))) \<and>
      xItemValue ls3 = xItemValue (lists s)"
proof -
  define d where "d = pxDelayedTaskList s"
  have d: "d = 32 \<or> d = 33" unfolding d_def by (cases rule: delayed_cases [OF ok]) auto
  have dD: "d \<in> D" using kernel_dom [OF ok, of d] d by auto
  note head = members_head [OF kernel_lists [OF ok] dD xs [folded d_def]]
  obtain t where t: "x = xStateListItem t" "t \<in> T" "pvOwner (lists s) x = t"
    by (rule kernel_member [OF ok, of d x]) (use d xs in \<open>auto simp: d_def\<close>)
  have c: "pxContainer (lists s) (xStateListItem t) = Some d"
    using members_container [OF kernel_lists [OF ok] dD, of x] xs t(1) by (simp add: d_def)
  obtain n ls where r: "kListRemove (xStateListItem t) s = Some (n, s\<lparr>lists := ls\<rparr>)"
    "kernel_ok T D (insert t {}) (s\<lparr>lists := ls\<rparr>)" "members ls d = remove1 (xStateListItem t) (members (lists s) d)"
    "\<And>m. m \<in> D \<Longrightarrow> m \<noteq> d \<Longrightarrow> members ls m = members (lists s) m"
    "pxContainer ls = (pxContainer (lists s))(xStateListItem t := None)" "xItemValue ls = xItemValue (lists s)"
    by (rule take_other [OF ok c]) (use d in auto)
  obtain ls2 where e: "leave_event_list t (s\<lparr>lists := ls\<rparr>) = Some (s\<lparr>lists := ls\<rparr>\<lparr>lists := ls2\<rparr>)"
    "kernel_ok T D (insert t {}) (s\<lparr>lists := ls\<rparr>\<lparr>lists := ls2\<rparr>)"
    "\<And>m. m \<le> 36 \<Longrightarrow> m \<noteq> 34 \<Longrightarrow> members ls2 m = members (lists (s\<lparr>lists := ls\<rparr>)) m"
    "pxContainer ls2 = (pxContainer (lists (s\<lparr>lists := ls\<rparr>)))(xEventListItem t := None)"
    "xItemValue ls2 = xItemValue (lists (s\<lparr>lists := ls\<rparr>))"
    by (rule leave_event [OF r(2)]) blast
  have k2: "kernel_ok T D (insert t {}) (s\<lparr>lists := ls2\<rparr>)" using e(2) by simp
  obtain ls3 w where p: "prvAddTaskToReadyList t (s\<lparr>lists := ls2\<rparr>) = Some (s\<lparr>lists := ls2\<rparr>\<lparr>lists := ls3, uxTopReadyPriority := w\<rparr>)"
    "kernel_ok T D (insert t {} - {t}) (s\<lparr>lists := ls2\<rparr>\<lparr>lists := ls3, uxTopReadyPriority := w\<rparr>)"
    "\<And>m. m \<in> D \<Longrightarrow> m \<noteq> unat (uxPriority (tcb (s\<lparr>lists := ls2\<rparr>) t)) \<Longrightarrow> members ls3 m = members (lists (s\<lparr>lists := ls2\<rparr>)) m"
    "pxContainer ls3 = (pxContainer (lists (s\<lparr>lists := ls2\<rparr>)))(xStateListItem t := Some (unat (uxPriority (tcb (s\<lparr>lists := ls2\<rparr>) t))))"
    "xItemValue ls3 = xItemValue (lists (s\<lparr>lists := ls2\<rparr>))"
    by (rule put_ready [OF k2 insertI1]) blast
  have pr: "unat (uxPriority (tcb s t)) < 32" using prio_nat kernel_task(2) [OF ok t(2)] .
  have m3: "members ls3 m = members ls m" if "m = 32 \<or> m = 33 \<or> m = 35" for m
    using p(3) [of m] e(3) [of m] kernel_dom [OF ok, of m] pr that by auto
  have "members ls3 d = xs" using m3 [of d] d r(3) xs t(1) by (auto simp: d_def)
  moreover have "members ls3 m = members (lists s) m" if "m \<in> {32, 33, 35}" "m \<noteq> d" for m
    using m3 [of m] r(4) [of m] kernel_dom [OF ok, of m] that by auto
  ultimately show ?thesis
    by (intro that [OF t(1,2) _ r(1)] exI [of _ ls3] conjI ballI impI)
      (use head t(3) e p r(5,6) in \<open>simp_all add: d_def fun_upd_twist\<close>)
qed

text \<open>The whole loop.\<close>

lemma unblock_loop_spec:
  assumes "kernel_ok T D {} s" "late_ok s" "pxCurrentTCB s = Some c"
  shows "\<exists>sw ls w u. unblock_loop now sw0 s = Some (sw, s\<lparr>lists := ls, uxTopReadyPriority := w, xNextTaskUnblockTime := u\<rparr>) \<and>
    kernel_ok T D {} (s\<lparr>lists := ls, uxTopReadyPriority := w, xNextTaskUnblockTime := u\<rparr>) \<and>
    members ls (pxDelayedTaskList s) =
      dropWhile (\<lambda>x. xItemValue (lists s) x \<le> now) (members (lists s) (pxDelayedTaskList s)) \<and>
    (\<forall>m\<in>{32, 33, 35}. m \<noteq> pxDelayedTaskList s \<longrightarrow> members ls m = members (lists s) m) \<and>
    xItemValue ls = xItemValue (lists s) \<and>
    (\<forall>v\<in>set (map (xItemValue ls) (members ls (pxDelayedTaskList s))). now < v \<and> u \<le> v) \<and>
    (\<forall>t. pxContainer ls (xStateListItem t) =
       (if woken s now t then Some (unat (uxPriority (tcb s t))) else pxContainer (lists s) (xStateListItem t))) \<and>
    (\<forall>t. pxContainer ls (xEventListItem t) = (if woken s now t then None else pxContainer (lists s) (xEventListItem t))) \<and>
    sw = (sw0 \<or> (\<exists>t. woken s now t \<and> uxPriority (tcb s c) \<le> uxPriority (tcb s t)))"
  using assms
proof (induction "members (lists s) (pxDelayedTaskList s)" arbitrary: s sw0)
  case Nil
  have dD: "pxDelayedTaskList s \<in> D"
    using kernel_dom [OF Nil.prems(1)] by (cases rule: delayed_cases [OF Nil.prems(1)]) auto
  have "listLIST_IS_EMPTY (lists s) (pxDelayedTaskList s)"
    using members_is_empty [OF kernel_lists [OF Nil.prems(1)] dD] Nil.hyps by simp
  then have run: "unblock_loop now sw0 s = Some (sw0, s\<lparr>xNextTaskUnblockTime := portMAX_DELAY\<rparr>)"
    by (simp add: unblock_loop.simps [of now sw0 s])
  have none: "\<not> woken s now t" for t using Nil.hyps by (simp add: woken_def expired_def)
  have "kernel_ok T D {} (s\<lparr>xNextTaskUnblockTime := portMAX_DELAY\<rparr>)"
    by (rule kernel_ok_cong [OF Nil.prems(1)]) simp_all
  then show ?case
    using run Nil.hyps
    by (intro exI [of _ sw0] exI [of _ "lists s"] exI [of _ "uxTopReadyPriority s"] exI [of _ portMAX_DELAY])
      (simp add: none)
next
  case (Cons x xs)
  let ?d = "pxDelayedTaskList s"
  note xs = Cons.hyps(2) [symmetric]
  have dD: "?d \<in> D"
    using kernel_dom [OF Cons.prems(1)] by (cases rule: delayed_cases [OF Cons.prems(1)]) auto
  have ne: "\<not> listLIST_IS_EMPTY (lists s) ?d"
    using members_is_empty [OF kernel_lists [OF Cons.prems(1)] dD] xs by simp
  obtain t ls1 ls2 w1 n where r: "x = xStateListItem t" "t \<in> T" "listGET_OWNER_OF_HEAD_ENTRY (lists s) ?d = t"
    "kListRemove (xStateListItem t) s = Some (n, s\<lparr>lists := ls1\<rparr>)"
    "leave_event_list t (s\<lparr>lists := ls1\<rparr>) = Some (s\<lparr>lists := ls2\<rparr>)"
    and ex: "\<exists>ls3. prvAddTaskToReadyList t (s\<lparr>lists := ls2\<rparr>) = Some (s\<lparr>lists := ls3, uxTopReadyPriority := w1\<rparr>) \<and>
      kernel_ok T D {} (s\<lparr>lists := ls3, uxTopReadyPriority := w1\<rparr>) \<and> members ls3 ?d = xs \<and>
      (\<forall>m\<in>{32, 33, 35}. m \<noteq> ?d \<longrightarrow> members ls3 m = members (lists s) m) \<and>
      pxContainer ls3 = (pxContainer (lists s))(xEventListItem t := None, xStateListItem t := Some (unat (uxPriority (tcb s t)))) \<and>
      xItemValue ls3 = xItemValue (lists s)"
    by (rule wake_head [OF Cons.prems(1) xs]) blast
  show ?case
  proof (cases "now < xItemValue (lists s) x")
    case True
    have run: "unblock_loop now sw0 s = Some (sw0, s\<lparr>xNextTaskUnblockTime := xItemValue (lists s) x\<rparr>)"
      using ne True r(1,3) by (simp add: unblock_loop.simps [of now sw0 s] Let_def)
    have none: "\<not> woken s now u" for u using True by (auto simp: woken_def expired_def xs)
    have sorted: "sorted (map (xItemValue (lists s)) (x # xs))"
      using Cons.prems(2) by (simp add: late_ok_def wake_times_def xs)
    have "kernel_ok T D {} (s\<lparr>xNextTaskUnblockTime := xItemValue (lists s) x\<rparr>)"
      by (rule kernel_ok_cong [OF Cons.prems(1)]) simp_all
    then show ?thesis
      using run sorted True
      by (intro exI [of _ sw0] exI [of _ "lists s"] exI [of _ "uxTopReadyPriority s"] exI [of _ "xItemValue (lists s) x"])
        (auto simp: none xs)
  next
    case False
    obtain ls3 where q: "prvAddTaskToReadyList t (s\<lparr>lists := ls2\<rparr>) = Some (s\<lparr>lists := ls3, uxTopReadyPriority := w1\<rparr>)"
      "kernel_ok T D {} (s\<lparr>lists := ls3, uxTopReadyPriority := w1\<rparr>)" "members ls3 ?d = xs"
      "\<forall>m\<in>{32, 33, 35}. m \<noteq> ?d \<longrightarrow> members ls3 m = members (lists s) m"
      "pxContainer ls3 = (pxContainer (lists s))(xEventListItem t := None, xStateListItem t := Some (unat (uxPriority (tcb s t))))"
      "xItemValue ls3 = xItemValue (lists s)"
      using ex by blast
    define s3 where "s3 = s\<lparr>lists := ls3, uxTopReadyPriority := w1\<rparr>"
    define sw1 where "sw1 = (sw0 \<or> uxPriority (tcb s t) \<ge> uxPriority (tcb s c))"
    have run: "unblock_loop now sw0 s = unblock_loop now sw1 s3"
      using ne False r q(1) Cons.prems(3) by (simp add: unblock_loop.simps [of now sw0 s] Let_def s3_def sw1_def)
    have f3: "lists s3 = ls3" "pxDelayedTaskList s3 = ?d" "pxOverflowDelayedTaskList s3 = pxOverflowDelayedTaskList s"
      "xTickCount s3 = xTickCount s" "tcb s3 = tcb s" "pxCurrentTCB s3 = pxCurrentTCB s" by (simp_all add: s3_def)
    have o: "members ls3 (pxOverflowDelayedTaskList s) = members (lists s) (pxOverflowDelayedTaskList s)"
      using q(4) by (cases rule: delayed_cases [OF Cons.prems(1)]) simp_all
    have late3: "late_ok s3"
      using Cons.prems(2) q(3,6) o by (simp add: late_ok_def wake_times_def f3 xs)
    have ok3: "kernel_ok T D {} s3" using q(2) by (simp add: s3_def)
    have cur3: "pxCurrentTCB s3 = Some c" using Cons.prems(3) by (simp add: f3)
    have w: "woken s now u \<longleftrightarrow> u = t \<or> woken s3 now u" for u
      using False r(1) by (auto simp: woken_def expired_def f3 xs q(3,6))
    have "xs = members (lists s3) (pxDelayedTaskList s3)" using q(3) by (simp add: f3)
    from Cons.hyps(1) [OF this ok3 late3 cur3, of sw1] obtain sw ls w' u where
      IH: "unblock_loop now sw1 s3 = Some (sw, s3\<lparr>lists := ls, uxTopReadyPriority := w', xNextTaskUnblockTime := u\<rparr>)"
      "kernel_ok T D {} (s3\<lparr>lists := ls, uxTopReadyPriority := w', xNextTaskUnblockTime := u\<rparr>)"
      "members ls ?d = dropWhile (\<lambda>x. xItemValue ls3 x \<le> now) (members ls3 ?d)"
      "\<forall>m\<in>{32, 33, 35}. m \<noteq> ?d \<longrightarrow> members ls m = members ls3 m"
      "xItemValue ls = xItemValue ls3"
      "\<forall>v\<in>set (map (xItemValue ls) (members ls ?d)). now < v \<and> u \<le> v"
      "\<forall>t. pxContainer ls (xStateListItem t) =
         (if woken s3 now t then Some (unat (uxPriority (tcb s t))) else pxContainer ls3 (xStateListItem t))"
      "\<forall>t. pxContainer ls (xEventListItem t) = (if woken s3 now t then None else pxContainer ls3 (xEventListItem t))"
      "sw = (sw1 \<or> (\<exists>t. woken s3 now t \<and> uxPriority (tcb s c) \<le> uxPriority (tcb s t)))"
      unfolding f3 by blast
    have s3u: "s3\<lparr>lists := ls, uxTopReadyPriority := w', xNextTaskUnblockTime := u\<rparr> =
      s\<lparr>lists := ls, uxTopReadyPriority := w', xNextTaskUnblockTime := u\<rparr>" by (simp add: s3_def)
    show ?thesis
    proof (rule exI [of _ sw], rule exI [of _ ls], rule exI [of _ w'], rule exI [of _ u], intro conjI)
      show "unblock_loop now sw0 s = Some (sw, s\<lparr>lists := ls, uxTopReadyPriority := w', xNextTaskUnblockTime := u\<rparr>)"
        using run IH(1) s3u by simp
      show "kernel_ok T D {} (s\<lparr>lists := ls, uxTopReadyPriority := w', xNextTaskUnblockTime := u\<rparr>)"
        using IH(2) s3u by simp
      show "members ls ?d = dropWhile (\<lambda>x. xItemValue (lists s) x \<le> now) (members (lists s) ?d)"
        using IH(3) False by (simp add: q xs)
      show "\<forall>m\<in>{32, 33, 35}. m \<noteq> ?d \<longrightarrow> members ls m = members (lists s) m" using IH(4) q(4) by simp
      show "xItemValue ls = xItemValue (lists s)" using IH(5) q(6) by simp
      show "\<forall>v\<in>set (map (xItemValue ls) (members ls ?d)). now < v \<and> u \<le> v" by (fact IH(6))
      show "\<forall>t. pxContainer ls (xStateListItem t) =
         (if woken s now t then Some (unat (uxPriority (tcb s t))) else pxContainer (lists s) (xStateListItem t))"
        using IH(7) by (simp add: w q(5))
      show "\<forall>t. pxContainer ls (xEventListItem t) = (if woken s now t then None else pxContainer (lists s) (xEventListItem t))"
        using IH(8) by (simp add: w q(5))
      show "sw = (sw0 \<or> (\<exists>t. woken s now t \<and> uxPriority (tcb s c) \<le> uxPriority (tcb s t)))"
        using IH(9) by (auto simp: w sw1_def)
    qed
  qed
qed

text \<open>
  The state after the count has been advanced and, at a wrap, the lists have been exchanged. The
  assertion of the code that the delayed list is empty at a wrap holds.
\<close>

definition advance :: "kernel \<Rightarrow> kernel" where
  "advance s = (let s = s\<lparr>xTickCount := xTickCount s + 1\<rparr> in if xTickCount s = 0 then taskSWITCH_DELAYED_LISTS s else s)"

lemma wrap_empty:
  assumes "delay_ok s" "xTickCount s + 1 = 0"
  shows "members (lists s) (pxDelayedTaskList s) = []"
proof (rule ccontr)
  assume "members (lists s) (pxDelayedTaskList s) \<noteq> []"
  then obtain v where "v \<in> set (wake_times s (pxDelayedTaskList s))" by (cases "members (lists s) (pxDelayedTaskList s)") (auto simp: wake_times_def)
  then have "xTickCount s < v" using assms(1) by (auto simp: delay_ok_def)
  moreover have "xTickCount s = - 1" using assms(2) by (simp add: eq_neg_iff_add_eq_0)
  ultimately show False by (metis word_n1_ge leD)
qed

lemma word_le_plus_1: "(t :: u64) < v \<Longrightarrow> t + 1 \<le> v"
  by (simp add: inc_le)

lemma word_le_succ: "(t :: u64) + 1 \<noteq> 0 \<Longrightarrow> t \<le> t + 1"
  using unatSuc [of t] by (simp add: add.commute word_le_nat_alt)

lemma advance_ok:
  assumes k: "kernel_inv T D s"
  shows "kernel_ok T D {} (advance s)" "late_ok (advance s)"
    "\<And>v. v \<in> set (wake_times (advance s) (pxDelayedTaskList (advance s))) \<Longrightarrow>
       xTickCount s + 1 \<le> v \<and> xNextTaskUnblockTime (advance s) \<le> v"
    "lists (advance s) = lists s" "xTickCount (advance s) = xTickCount s + 1" "tcb (advance s) = tcb s"
    "pxCurrentTCB (advance s) = pxCurrentTCB s"
    "\<And>t. pxContainer (lists s) (xStateListItem t) = Some (pxDelayedTaskList (advance s)) \<and>
           xItemValue (lists s) (xStateListItem t) \<le> xTickCount s + 1 \<longleftrightarrow>
         pxContainer (lists s) (xStateListItem t) \<in> {Some 32, Some 33} \<and>
           xItemValue (lists s) (xStateListItem t) = xTickCount s + 1"
proof -
  note k' = k [folded kinv_empty]
  note ok = kinvD(1) [OF k'] and d = kinvD(2) [OF k']
  let ?s1 = "s\<lparr>xTickCount := xTickCount s + 1\<rparr>"
  show l: "lists (advance s) = lists s" "xTickCount (advance s) = xTickCount s + 1" "tcb (advance s) = tcb s"
    "pxCurrentTCB (advance s) = pxCurrentTCB s"
    by (simp_all add: advance_def Let_def taskSWITCH_DELAYED_LISTS_def prvResetNextTaskUnblockTime_def)
  have ok1: "kernel_ok T D {} ?s1" by (rule kernel_ok_cong [OF ok]) simp_all
  show "kernel_ok T D {} (advance s)"
  proof (cases "xTickCount s + 1 = 0")
    case True
    have "delayed_lists (advance s)"
      using True by (cases rule: delayed_cases [OF ok])
        (simp_all add: advance_def Let_def taskSWITCH_DELAYED_LISTS_def prvResetNextTaskUnblockTime_def delayed_lists_def)
    moreover have "uxTopReadyPriority (advance s) = uxTopReadyPriority s"
      by (simp add: advance_def Let_def taskSWITCH_DELAYED_LISTS_def prvResetNextTaskUnblockTime_def)
    ultimately show ?thesis using ok l
      by (simp add: kernel_ok_def task_fields_def state_place_def event_place_def ready_bits_def)
  next
    case False
    then show ?thesis using ok1 by (simp add: advance_def Let_def)
  qed
  have w: "wake_times (advance s) m = wake_times s m" for m by (simp add: wake_times_def l)
  have wrap: "pxDelayedTaskList (advance s) = pxOverflowDelayedTaskList s" "pxOverflowDelayedTaskList (advance s) = pxDelayedTaskList s"
    if "xTickCount s + 1 = 0"
    using that by (simp_all add: advance_def Let_def taskSWITCH_DELAYED_LISTS_def prvResetNextTaskUnblockTime_def)
  have nowrap: "advance s = ?s1" if "xTickCount s + 1 \<noteq> 0" using that by (simp add: advance_def Let_def)
  have oD: "pxOverflowDelayedTaskList s \<in> D" using kernel_dom [OF ok] by (cases rule: delayed_cases [OF ok]) auto
  show "late_ok (advance s)"
  proof (cases "xTickCount s + 1 = 0")
    case True
    then show ?thesis using d wrap_empty [OF d True] wrap [OF True]
      by (simp add: late_ok_def delay_ok_def w l) (simp add: wake_times_def)
  next
    case False
    have "xTickCount s \<le> xTickCount s + 1" using False by (rule word_le_succ)
    then show ?thesis using d by (auto simp: nowrap [OF False] late_ok_def delay_ok_def wake_times_def intro: order_trans)
  qed
  show *: "xTickCount s + 1 \<le> v \<and> xNextTaskUnblockTime (advance s) \<le> v"
    if v: "v \<in> set (wake_times (advance s) (pxDelayedTaskList (advance s)))" for v
  proof (cases "xTickCount s + 1 = 0")
    case True
    have "xNextTaskUnblockTime (advance s) \<le> v"
    proof (cases "members (lists s) (pxOverflowDelayedTaskList s)")
      case (Cons x xs)
      have "xNextTaskUnblockTime (advance s) = xItemValue (lists s) x"
        using members_head [OF kernel_lists [OF ok] oD Cons] members_is_empty [OF kernel_lists [OF ok] oD] True Cons
        by (simp add: advance_def Let_def taskSWITCH_DELAYED_LISTS_def prvResetNextTaskUnblockTime_def)
      then show ?thesis using d v wrap [OF True] by (auto simp: delay_ok_def w) (auto simp: wake_times_def Cons)
    qed (use v wrap [OF True] in \<open>simp add: wake_times_def l\<close>)
    then show ?thesis by (simp add: True)
  next
    case False
    then show ?thesis using d v by (auto simp: nowrap w delay_ok_def wake_times_def intro: word_le_plus_1)
  qed
  show "pxContainer (lists s) (xStateListItem t) = Some (pxDelayedTaskList (advance s)) \<and>
           xItemValue (lists s) (xStateListItem t) \<le> xTickCount s + 1 \<longleftrightarrow>
         pxContainer (lists s) (xStateListItem t) \<in> {Some 32, Some 33} \<and>
           xItemValue (lists s) (xStateListItem t) = xTickCount s + 1" (is "?c = Some ?d \<and> ?v \<le> _ \<longleftrightarrow> _") for t
  proof -
    have dv: "?v \<in> set (wake_times s m)" if "?c = Some m" for m
      using that members_container [OF kernel_lists [OF ok]] list_ok_container [OF kernel_lists [OF ok] that]
      by (simp add: wake_times_def)
    have split: "?c \<in> {Some 32, Some 33} \<longleftrightarrow> ?c = Some ?d \<or> ?c = Some (pxOverflowDelayedTaskList (advance s))"
      by (cases rule: delayed_cases [OF ok]; cases "xTickCount s + 1 = 0") (auto simp: wrap nowrap)
    have ge: "?c = Some ?d \<Longrightarrow> xTickCount s + 1 \<le> ?v" using * [of ?v] dv w by simp
    have ne: "?v \<noteq> xTickCount s + 1" if c: "?c = Some (pxOverflowDelayedTaskList (advance s))"
    proof (cases "xTickCount s + 1 = 0")
      case True
      then show ?thesis using dv [OF c] wrap_empty [OF d True] wrap [OF True] by (simp add: wake_times_def)
    next
      case False
      then have "?v \<le> xTickCount s" using dv [OF c] d by (auto simp: nowrap delay_ok_def)
      then show ?thesis using word_le_succ [OF False] False by auto
    qed
    show ?thesis using split ge ne by auto
  qed
qed

text \<open>The tasks that a tick wakes.\<close>

definition due :: "kernel \<Rightarrow> nat \<Rightarrow> bool" where
  "due s t \<longleftrightarrow> pxContainer (lists s) (xStateListItem t) \<in> {Some xDelayedTaskList1, Some xDelayedTaskList2} \<and>
     xItemValue (lists s) (xStateListItem t) = xTickCount s + 1"

lemma takeWhile_sorted: "sorted (map f xs) \<Longrightarrow> set (takeWhile (\<lambda>x. f x \<le> (v :: u64)) xs) = {x \<in> set xs. f x \<le> v}"
  by (induction xs) (auto dest: order_trans)

lemma sorted_map_dropWhile: "sorted (map f xs) \<Longrightarrow> sorted (map f (dropWhile P xs))"
  by (induction xs) auto

lemma woken_due:
  assumes "kernel_inv T D s"
  shows "woken (advance s) (xTickCount s + 1) t \<longleftrightarrow> due s t"
proof -
  note a = advance_ok [OF assms]
  note ok = a(1)
  let ?d = "pxDelayedTaskList (advance s)"
  have dD: "?d \<in> D" using kernel_dom [OF ok] by (cases rule: delayed_cases [OF ok]) auto
  have "sorted (map (xItemValue (lists s)) (members (lists s) ?d))"
    using a(2) by (simp add: late_ok_def wake_times_def a(4))
  note takeWhile_sorted [OF this]
  then show ?thesis
    using members_container [OF kernel_lists [OF ok] dD] a(4,8) by (simp add: woken_def expired_def due_def)
qed

lemma increment_tick:
  assumes k: "kernel_inv T D s" and un: "uxSchedulerSuspended s = 0" and c: "pxCurrentTCB s = Some c"
  shows "\<exists>sw s'. xTaskIncrementTick s = Some (sw, s') \<and> kernel_inv T D s' \<and> xTickCount s' = xTickCount s + 1 \<and>
    (\<forall>t. pxContainer (lists s') (xStateListItem t) =
       (if due s t then Some (unat (uxPriority (tcb s t))) else pxContainer (lists s) (xStateListItem t))) \<and>
    (\<forall>t. pxContainer (lists s') (xEventListItem t) = (if due s t then None else pxContainer (lists s) (xEventListItem t))) \<and>
    xItemValue (lists s') = xItemValue (lists s) \<and> tcb s' = tcb s \<and> pxCurrentTCB s' = pxCurrentTCB s \<and>
    uxSchedulerSuspended s' = 0 \<and> xYieldPending s' = xYieldPending s \<and> xPendedTicks s' = xPendedTicks s \<and>
    xSchedulerRunning s' = xSchedulerRunning s \<and> msip_reg s' = msip_reg s \<and>
    ((\<exists>t. due s t \<and> uxPriority (tcb s c) \<le> uxPriority (tcb s t)) \<or> xYieldPending s \<longrightarrow> sw)"
proof -
  note a = advance_ok [OF k]
  note k' = k [folded kinv_empty]
  obtain c' where "pxCurrentTCB s = Some c'" "c' \<in> T" using kinv_current [OF k'] .
  then have cT: "c \<in> T" using c by simp
  let ?now = "xTickCount s + 1" and ?s = "advance s"
  have f: "uxSchedulerSuspended ?s = 0" "xYieldPending ?s = xYieldPending s" "xPendedTicks ?s = xPendedTicks s"
    "uxCurrentNumberOfTasks ?s = uxCurrentNumberOfTasks s" "xSchedulerRunning ?s = xSchedulerRunning s" "msip_reg ?s = msip_reg s"
    "uxDeletedTasksWaitingCleanUp ?s = uxDeletedTasksWaitingCleanUp s"
    using un by (simp_all add: advance_def Let_def taskSWITCH_DELAYED_LISTS_def prvResetNextTaskUnblockTime_def)
  have pc: "uxPriority (tcb s c) < 32" using kernel_task(2) [OF kinvD(1) [OF k'] cT] .
  have main: "\<exists>sw1 ls w u. (if ?now \<ge> xNextTaskUnblockTime ?s then unblock_loop ?now False ?s else Some (False, ?s)) =
      Some (sw1, ?s\<lparr>lists := ls, uxTopReadyPriority := w, xNextTaskUnblockTime := u\<rparr>) \<and>
    kinv T D {} (?s\<lparr>lists := ls, uxTopReadyPriority := w, xNextTaskUnblockTime := u\<rparr>) \<and>
    xItemValue ls = xItemValue (lists s) \<and>
    (\<forall>t. pxContainer ls (xStateListItem t) =
       (if due s t then Some (unat (uxPriority (tcb s t))) else pxContainer (lists s) (xStateListItem t))) \<and>
    (\<forall>t. pxContainer ls (xEventListItem t) = (if due s t then None else pxContainer (lists s) (xEventListItem t))) \<and>
    ((\<exists>t. due s t \<and> uxPriority (tcb s c) \<le> uxPriority (tcb s t)) \<longrightarrow> sw1)"
  proof (cases "xNextTaskUnblockTime ?s \<le> ?now")
    case True
    have cur: "pxCurrentTCB ?s = Some c" using c a(7) by simp
    obtain sw1 ls w u where r: "unblock_loop ?now False ?s = Some (sw1, ?s\<lparr>lists := ls, uxTopReadyPriority := w, xNextTaskUnblockTime := u\<rparr>)"
      "kernel_ok T D {} (?s\<lparr>lists := ls, uxTopReadyPriority := w, xNextTaskUnblockTime := u\<rparr>)"
      "members ls (pxDelayedTaskList ?s) = dropWhile (\<lambda>x. xItemValue (lists ?s) x \<le> ?now) (members (lists ?s) (pxDelayedTaskList ?s))"
      "\<forall>m\<in>{32, 33, 35}. m \<noteq> pxDelayedTaskList ?s \<longrightarrow> members ls m = members (lists ?s) m"
      "xItemValue ls = xItemValue (lists ?s)"
      "\<forall>v\<in>set (map (xItemValue ls) (members ls (pxDelayedTaskList ?s))). ?now < v \<and> u \<le> v"
      "\<forall>t. pxContainer ls (xStateListItem t) =
         (if woken ?s ?now t then Some (unat (uxPriority (tcb ?s t))) else pxContainer (lists ?s) (xStateListItem t))"
      "\<forall>t. pxContainer ls (xEventListItem t) = (if woken ?s ?now t then None else pxContainer (lists ?s) (xEventListItem t))"
      "sw1 = (False \<or> (\<exists>t. woken ?s ?now t \<and> uxPriority (tcb ?s c) \<le> uxPriority (tcb ?s t)))"
      using unblock_loop_spec [OF a(1,2) cur, of ?now False] by blast
    define s3 where "s3 = ?s\<lparr>lists := ls, uxTopReadyPriority := w, xNextTaskUnblockTime := u\<rparr>"
    have f3: "pxDelayedTaskList s3 = pxDelayedTaskList ?s" "pxOverflowDelayedTaskList s3 = pxOverflowDelayedTaskList ?s"
      "lists s3 = ls" "xTickCount s3 = ?now" "xNextTaskUnblockTime s3 = u" by (simp_all add: s3_def a(5))
    have wo: "wake_times s3 (pxOverflowDelayedTaskList ?s) = wake_times ?s (pxOverflowDelayedTaskList ?s)"
      using r(4,5) by (cases rule: delayed_cases [OF a(1)]) (simp_all add: wake_times_def f3)
    have "sorted (wake_times ?s (pxDelayedTaskList ?s))" using a(2) by (simp add: late_ok_def)
    then have "sorted (wake_times s3 (pxDelayedTaskList ?s))"
      using r(3,5) by (simp add: wake_times_def f3 sorted_map_dropWhile)
    then have "delay_ok s3" using a(2) r(6) wo by (simp add: delay_ok_def late_ok_def f3 a(5)) (simp add: wake_times_def f3)
    moreover have "members ls 35 = members (lists s) 35"
      using r(4) a(4) by (cases rule: delayed_cases [OF a(1)]) simp_all
    ultimately have "kinv T D {} s3"
      using r(2) k' c cT by (simp add: kinv_def count_ok_def s3_def f a(7))
    then have k3: "kinv T D {} (?s\<lparr>lists := ls, uxTopReadyPriority := w, xNextTaskUnblockTime := u\<rparr>)" by (simp add: s3_def)
    have sw: "(\<exists>t. due s t \<and> uxPriority (tcb s c) \<le> uxPriority (tcb s t)) \<longrightarrow> sw1"
      using r(9) by (simp add: woken_due [OF k] a(6))
    show ?thesis
      by (rule exI [of _ sw1], rule exI [of _ ls], rule exI [of _ w], rule exI [of _ u])
        (use k3 sw r(1,5,7,8) True in \<open>simp add: woken_due [OF k] a(4,6)\<close>)
  next
    case False
    have "\<not> woken ?s ?now t" for t
    proof
      assume "woken ?s ?now t"
      then have t: "xStateListItem t \<in> set (members (lists ?s) (pxDelayedTaskList ?s))" "xItemValue (lists ?s) (xStateListItem t) \<le> ?now"
        unfolding woken_def expired_def by (auto dest: set_takeWhileD)
      then have "xNextTaskUnblockTime ?s \<le> xItemValue (lists ?s) (xStateListItem t)"
        using a(3) by (simp add: wake_times_def)
      then show False using t(2) False by simp
    qed
    then have none: "\<not> due s t" for t using woken_due [OF k] by simp
    have "?now < v \<and> xNextTaskUnblockTime ?s \<le> v" if "v \<in> set (wake_times ?s (pxDelayedTaskList ?s))" for v
      using a(3) [OF that] False by (metis not_le order.strict_trans2)
    then have "delay_ok ?s" using a(2,5) by (simp add: delay_ok_def late_ok_def)
    then have k2: "kinv T D {} ?s" using a(1,4,7) k' f by (simp add: kinv_def count_ok_def)
    have e: "?s\<lparr>lists := lists s\<rparr> = ?s" by (simp flip: a(4))
    show ?thesis
      by (rule exI [of _ False], rule exI [of _ "lists ?s"], rule exI [of _ "uxTopReadyPriority ?s"],
          rule exI [of _ "xNextTaskUnblockTime ?s"]) (use False none k2 in \<open>simp add: e a(4)\<close>)
  qed
  then obtain sw1 ls w u where r: "(if ?now \<ge> xNextTaskUnblockTime ?s then unblock_loop ?now False ?s else Some (False, ?s)) =
      Some (sw1, ?s\<lparr>lists := ls, uxTopReadyPriority := w, xNextTaskUnblockTime := u\<rparr>)"
    "kinv T D {} (?s\<lparr>lists := ls, uxTopReadyPriority := w, xNextTaskUnblockTime := u\<rparr>)"
    "xItemValue ls = xItemValue (lists s)"
    "\<forall>t. pxContainer ls (xStateListItem t) =
       (if due s t then Some (unat (uxPriority (tcb s t))) else pxContainer (lists s) (xStateListItem t))"
    "\<forall>t. pxContainer ls (xEventListItem t) = (if due s t then None else pxContainer (lists s) (xEventListItem t))"
    "(\<exists>t. due s t \<and> uxPriority (tcb s c) \<le> uxPriority (tcb s t)) \<longrightarrow> sw1"
    by blast
  define s3 where "s3 = ?s\<lparr>lists := ls, uxTopReadyPriority := w, xNextTaskUnblockTime := u\<rparr>"
  have "xTaskIncrementTick s = do {
        (xSwitchRequired, s) \<leftarrow>
          (if ?now \<ge> xNextTaskUnblockTime ?s then unblock_loop ?now False ?s else Some (False, ?s));
        cur \<leftarrow> pxCurrentTCB s;
        l \<leftarrow> pxReadyTasksLists (uxPriority (tcb s cur));
        let xSwitchRequired = (xSwitchRequired \<or> uxNumberOfItems (lists s) l > 1);
        Some (xSwitchRequired \<or> xYieldPending s, s) }"
    using un by (simp add: xTaskIncrementTick_def advance_def Let_def)
  also have "\<dots> = Some ((sw1 \<or> uxNumberOfItems ls (unat (uxPriority (tcb s c))) > 1) \<or> xYieldPending s, s3)"
    unfolding r(1) using pc c by (simp add: s3_def pxReadyTasksLists_def a(6,7) f Let_def)
  finally have run: "xTaskIncrementTick s = Some ((sw1 \<or> uxNumberOfItems ls (unat (uxPriority (tcb s c))) > 1) \<or> xYieldPending s, s3)" .
  have "kernel_inv T D s3" using r(2) by (simp add: s3_def kinv_empty)
  moreover have "lists s3 = ls" "xTickCount s3 = ?now" "tcb s3 = tcb s" "pxCurrentTCB s3 = pxCurrentTCB s"
    "uxSchedulerSuspended s3 = 0" "xYieldPending s3 = xYieldPending s" "xPendedTicks s3 = xPendedTicks s"
    "xSchedulerRunning s3 = xSchedulerRunning s" "msip_reg s3 = msip_reg s"
    by (simp_all add: s3_def a f)
  ultimately show ?thesis
    by (intro exI [of _ "(sw1 \<or> uxNumberOfItems ls (unat (uxPriority (tcb s c))) > 1) \<or> xYieldPending s"] exI [of _ s3] conjI)
      (use run r(3-6) in simp_all)
qed

end
