(* ===== verification/Task_Ops.thy ===== *)
theory Task_Ops
  imports Task_Tick
begin

text \<open>
  The operations of the scheduler and the tasks' interface preserve the invariant, and return:
  their loops end and none of their pointers is dangling.
\<close>

lemma inv_step: "kinv T D {} s' \<Longrightarrow> kernel_inv T D s'"
  by (simp add: kinv_empty)

lemma inv_kinv: "kernel_inv T D s \<Longrightarrow> kinv T D {} s"
  by (simp add: kinv_empty)

lemma current_task:
  assumes "kernel_inv T D s"
  obtains c where "pxCurrentTCB s = Some c" "c \<in> T"
  using assms by (auto simp: kernel_inv_def)

lemma inv_place:
  assumes "kernel_inv T D s" "t \<in> T"
  obtains l where "pxContainer (lists s) (xStateListItem t) = Some l" "l < 32 \<or> l \<in> {32, 33, 35, 36}"
proof -
  note ok = kinvD(1) [OF inv_kinv [OF assms(1)]]
  obtain l where "pxContainer (lists s) (xStateListItem t) = Some l" using kernel_place [OF ok assms(2)] by blast
  then show ?thesis using that kernel_placeD(4) [OF ok] by blast
qed

text \<open>
  What a step leaves as it is: the running task, and that every task outside \<open>X\<close> that was ready
  stays ready; the software interrupt may have been requested.
\<close>

definition is_ready :: "kernel \<Rightarrow> nat \<Rightarrow> bool" where
  "is_ready s t \<longleftrightarrow> (\<exists>l<32. pxContainer (lists s) (xStateListItem t) = Some l)"

definition msip_le :: "kernel \<Rightarrow> kernel \<Rightarrow> bool" where
  "msip_le s s' \<longleftrightarrow> msip_reg s' = msip_reg s \<or> msip_reg s \<noteq> None \<and> msip_reg s' = Some 1"

definition frame :: "nat set \<Rightarrow> kernel \<Rightarrow> kernel \<Rightarrow> bool" where
  "frame X s s' \<longleftrightarrow> pxCurrentTCB s' = pxCurrentTCB s \<and> xSchedulerRunning s' = xSchedulerRunning s \<and>
     msip_le s s' \<and> (\<forall>u. u \<notin> X \<longrightarrow> is_ready s u \<longrightarrow> is_ready s' u)"

lemma frame_refl [simp]: "frame X s s"
  by (simp add: frame_def msip_le_def)

lemma msip_le_trans: "msip_le s s1 \<Longrightarrow> msip_le s1 s2 \<Longrightarrow> msip_le s s2"
  unfolding msip_le_def by presburger

lemma frame_trans: "frame X s s1 \<Longrightarrow> frame Y s1 s2 \<Longrightarrow> X \<union> Y \<subseteq> Z \<Longrightarrow> frame Z s s2"
  unfolding frame_def using msip_le_trans [of s s1 s2] by auto

lemma frame_same:
  assumes "pxCurrentTCB s' = pxCurrentTCB s" "xSchedulerRunning s' = xSchedulerRunning s" "msip_reg s' = msip_reg s"
    "\<And>u. u \<notin> X \<Longrightarrow> is_ready s u \<Longrightarrow> is_ready s' u"
  shows "frame X s s'"
  using assms by (simp add: frame_def msip_le_def)

lemma yield_fields [simp]:
  "tcb (portYIELD s) = tcb s" "pxCurrentTCB (portYIELD s) = pxCurrentTCB s" "lists (portYIELD s) = lists s"
  "uxSchedulerSuspended (portYIELD s) = uxSchedulerSuspended s" "xSchedulerRunning (portYIELD s) = xSchedulerRunning s"
  "xTickCount (portYIELD s) = xTickCount s" "xYieldPending (portYIELD s) = xYieldPending s"
  "msip_reg (portYIELD s) = (if msip_reg s = None then None else Some 1)"
  by (simp_all add: portYIELD_def rv_trigger_soft_interrupt_def riscv_trigger_soft_interrupt_def)

lemma frame_yield: "frame X s (portYIELD s)"
  by (auto simp: frame_def msip_le_def is_ready_def portYIELD_def rv_trigger_soft_interrupt_def riscv_trigger_soft_interrupt_def)

lemma frame_yielded: "frame X s s' \<Longrightarrow> frame X s (if b then portYIELD s' else s')"
  using frame_trans [OF _ frame_yield [where X = X]] by auto

text \<open>The head of an event list belongs to a task that does not await its deletion.\<close>

lemma event_head:
  assumes k: "kinv T D H s" and l: "l = 34 \<or> 36 < l" "l \<in> D" and ne: "members (lists s) l \<noteq> []"
  obtains t where "listGET_OWNER_OF_HEAD_ENTRY (lists s) l = t" "t \<in> T"
    "pxContainer (lists s) (xEventListItem t) = Some l" "pxContainer (lists s) (xStateListItem t) \<noteq> Some 35"
    "hd (members (lists s) l) = xEventListItem t"
proof -
  note ok = kinvD(1) [OF k]
  obtain x xs where x: "members (lists s) l = x # xs" using ne by (cases "members (lists s) l") auto
  obtain t where t: "x = xEventListItem t" "t \<in> T" "pvOwner (lists s) x = t"
    by (rule kernel_pending [OF ok l(1) _ l(2)]) (use x in auto)
  have c: "pxContainer (lists s) (xEventListItem t) = Some l"
    using members_container [OF kernel_lists [OF ok] l(2), of x] x t(1) by simp
  show ?thesis
    by (rule that [of t]) (use members_head [OF kernel_lists [OF ok] l(2) x] t c kernel_eventD(3) [OF ok c] x in auto)
qed

lemma members_same_length:
  assumes "list_ok D s" "list_ok D s'" "l \<in> D" "\<And>x. pxContainer s' x = Some l \<longleftrightarrow> pxContainer s x = Some l"
  shows "length (members s' l) = length (members s l)"
proof -
  have "set (members s' l) = set (members s l)"
    using members_container [OF assms(1,3)] members_container [OF assms(2,3)] assms(4) by blast
  then show ?thesis
    using distinct_card [OF members_distinct [OF assms(1,3)]] distinct_card [OF members_distinct [OF assms(2,3)]] by simp
qed

subsection \<open>Resuming the scheduler\<close>

lemma pending_loop_spec:
  assumes "kinv T D {} s"
  shows "\<exists>b ls w y. pending_loop moved s = Some (b, s\<lparr>lists := ls, uxTopReadyPriority := w, xYieldPending := y\<rparr>) \<and>
    kinv T D {} (s\<lparr>lists := ls, uxTopReadyPriority := w, xYieldPending := y\<rparr>) \<and> members ls xPendingReadyList = [] \<and>
    frame {} s (s\<lparr>lists := ls, uxTopReadyPriority := w, xYieldPending := y\<rparr>) \<and>
    (\<forall>t. pxContainer (lists s) (xEventListItem t) = Some xPendingReadyList \<longrightarrow>
       is_ready (s\<lparr>lists := ls, uxTopReadyPriority := w, xYieldPending := y\<rparr>) t)"
  using assms
proof (induction "length (members (lists s) xPendingReadyList)" arbitrary: s moved rule: less_induct)
  case less
  note ok = kinvD(1) [OF less.prems]
  have D: "xPendingReadyList \<in> D" using kernel_dom [OF ok] by simp
  note empty = members_is_empty [OF kernel_lists [OF ok] D]
  show ?case
  proof (cases "members (lists s) xPendingReadyList = []")
    case True
    then have "pending_loop moved s = Some (moved, s)" using empty by (simp add: pending_loop.simps [of moved s])
    moreover have "pxContainer (lists s) (xEventListItem t) \<noteq> Some xPendingReadyList" for t
      using members_container [OF kernel_lists [OF ok] D, of "xEventListItem t"] True by auto
    ultimately show ?thesis using less.prems True
      by - (rule exI [of _ moved], rule exI [of _ "lists s"], rule exI [of _ "uxTopReadyPriority s"],
          rule exI [of _ "xYieldPending s"], simp)
  next
    case False
    obtain t where t: "listGET_OWNER_OF_HEAD_ENTRY (lists s) xPendingReadyList = t" "t \<in> T"
      "pxContainer (lists s) (xEventListItem t) = Some xPendingReadyList" "pxContainer (lists s) (xStateListItem t) \<noteq> Some 35"
      by (rule event_head [OF less.prems _ D False]) auto
    obtain n ls1 where e: "kListRemove (xEventListItem t) s = Some (n, s\<lparr>lists := ls1\<rparr>)" "kinv T D {} (s\<lparr>lists := ls1\<rparr>)"
      "members ls1 xPendingReadyList = remove1 (xEventListItem t) (members (lists s) xPendingReadyList)"
      "pxContainer ls1 = (pxContainer (lists s))(xEventListItem t := None)"
      by (rule kinv_take_event [OF less.prems t(3)]) blast
    obtain l where l: "pxContainer (lists s) (xStateListItem t) = Some l"
      using kernel_place [OF ok t(2)] by blast
    obtain m ls2 ls3 w where r: "kListRemove (xStateListItem t) (s\<lparr>lists := ls1\<rparr>) = Some (m, s\<lparr>lists := ls1\<rparr>\<lparr>lists := ls2\<rparr>)"
      "prvAddTaskToReadyList t (s\<lparr>lists := ls1\<rparr>\<lparr>lists := ls2\<rparr>) = Some (s\<lparr>lists := ls1\<rparr>\<lparr>lists := ls3, uxTopReadyPriority := w\<rparr>)"
      "kinv T D {} (s\<lparr>lists := ls1\<rparr>\<lparr>lists := ls3, uxTopReadyPriority := w\<rparr>)"
      "pxContainer ls3 = (pxContainer ls1)(xStateListItem t := Some (unat (uxPriority (tcb s t))))"
      "unat (uxPriority (tcb s t)) < 32"
      by (rule make_ready [OF e(2), of t l]) (use l t(4) e(4) in auto)
    obtain c where c: "pxCurrentTCB s = Some c" using kinv_current [OF less.prems] .
    define y where "y = (xYieldPending s \<or> uxPriority (tcb s t) \<ge> uxPriority (tcb s c))"
    define s3 where "s3 = s\<lparr>lists := ls3, uxTopReadyPriority := w, xYieldPending := y\<rparr>"
    have "pending_loop moved s = do {
        let s = s\<lparr>lists := ls3, uxTopReadyPriority := w\<rparr>;
        let s = (if uxPriority (tcb s t) \<ge> uxPriority (tcb s c) then s\<lparr>xYieldPending := True\<rparr> else s);
        pending_loop True s }"
      using empty False t(1) e(1) r(1,2) c by (simp add: pending_loop.simps [of moved s])
    moreover have "(let s = s\<lparr>lists := ls3, uxTopReadyPriority := w\<rparr>
        in if uxPriority (tcb s t) \<ge> uxPriority (tcb s c) then s\<lparr>xYieldPending := True\<rparr> else s) = s3"
      by (cases "uxPriority (tcb s c) \<le> uxPriority (tcb s t)") (simp_all add: Let_def s3_def y_def)
    ultimately have run: "pending_loop moved s = pending_loop True s3" unfolding Let_def by simp
    have k3: "kinv T D {} s3" by (rule kinv_cong [OF r(3)]) (simp_all add: s3_def)
    have "length (members ls3 xPendingReadyList) = length (members ls1 xPendingReadyList)"
      by (rule members_same_length) (use kernel_lists [OF kinvD(1) [OF e(2)]] kernel_lists [OF kinvD(1) [OF k3]] D r(4,5) l e(4) t(4) kernel_placeD(4) [OF ok l]
          in \<open>auto simp: s3_def\<close>)
    also have "\<dots> < length (members (lists s) xPendingReadyList)"
      using e(3) members_container [OF kernel_lists [OF ok] D, of "xEventListItem t"] t(3) False
      by (simp add: length_remove1)
    finally have "length (members (lists s3) xPendingReadyList) < length (members (lists s) xPendingReadyList)" by (simp add: s3_def)
    from less.hyps [OF this k3, of True] obtain b ls w' y' where
      "pending_loop True s3 = Some (b, s3\<lparr>lists := ls, uxTopReadyPriority := w', xYieldPending := y'\<rparr>)"
      "kinv T D {} (s3\<lparr>lists := ls, uxTopReadyPriority := w', xYieldPending := y'\<rparr>)" "members ls xPendingReadyList = []"
      "frame {} s3 (s3\<lparr>lists := ls, uxTopReadyPriority := w', xYieldPending := y'\<rparr>)"
      "\<forall>t. pxContainer (lists s3) (xEventListItem t) = Some xPendingReadyList \<longrightarrow>
         is_ready (s3\<lparr>lists := ls, uxTopReadyPriority := w', xYieldPending := y'\<rparr>) t"
      by blast
    note ih = this
    have rt: "is_ready s3 t" using r(4,5) by (simp add: s3_def is_ready_def)
    have rd: "is_ready (s3\<lparr>lists := ls, uxTopReadyPriority := w', xYieldPending := y'\<rparr>) u"
      if "pxContainer (lists s) (xEventListItem u) = Some xPendingReadyList" for u
    proof (cases "u = t")
      case True
      then show ?thesis using rt ih(4) by (simp add: frame_def)
    next
      case False
      then have "pxContainer (lists s3) (xEventListItem u) = Some xPendingReadyList"
        using that e(4) r(4) by (simp add: s3_def)
      then show ?thesis using ih(5) by blast
    qed
    note ih(1-4)
    moreover have "frame {} s s3"
      by (rule frame_same) (use e(4) r(4,5) in \<open>auto simp: s3_def is_ready_def\<close>)
    moreover have "s3\<lparr>lists := ls, uxTopReadyPriority := w', xYieldPending := y'\<rparr> =
      s\<lparr>lists := ls, uxTopReadyPriority := w', xYieldPending := y'\<rparr>" by (simp add: s3_def)
    moreover note rd
    ultimately show ?thesis using run frame_trans [of "{}" s s3 "{}" _ "{}"] by (metis Un_empty subset_refl)
  qed
qed

lemma tick_frame:
  assumes k: "kernel_inv T D s" and un: "uxSchedulerSuspended s = 0" and c: "pxCurrentTCB s = Some c"
  shows "\<exists>sw s'. xTaskIncrementTick s = Some (sw, s') \<and> kernel_inv T D s' \<and> xTickCount s' = xTickCount s + 1 \<and>
    tcb s' = tcb s \<and> pxCurrentTCB s' = pxCurrentTCB s \<and> uxSchedulerSuspended s' = 0 \<and>
    xSchedulerRunning s' = xSchedulerRunning s \<and> frame {} s s'"
proof -
  obtain sw s' where r: "xTaskIncrementTick s = Some (sw, s')" "kernel_inv T D s'" "xTickCount s' = xTickCount s + 1"
    "tcb s' = tcb s" "pxCurrentTCB s' = pxCurrentTCB s" "uxSchedulerSuspended s' = 0"
    "xSchedulerRunning s' = xSchedulerRunning s" "msip_reg s' = msip_reg s"
    "\<And>t. pxContainer (lists s') (xStateListItem t) =
       (if due s t then Some (unat (uxPriority (tcb s t))) else pxContainer (lists s) (xStateListItem t))"
    using increment_tick [OF assms] by blast
  have "frame {} s s'" by (rule frame_same) (use r in \<open>auto simp: is_ready_def due_def\<close>)
  then show ?thesis using r by blast
qed

lemma pended_ticks_spec:
  assumes "kernel_inv T D s" "uxSchedulerSuspended s = 0" "n > 0"
  shows "\<exists>s'. pended_ticks_loop n s = Some s' \<and> kernel_inv T D s' \<and> xTickCount s' = xTickCount s + n \<and> tcb s' = tcb s \<and>
    pxCurrentTCB s' = pxCurrentTCB s \<and> uxSchedulerSuspended s' = 0 \<and> xSchedulerRunning s' = xSchedulerRunning s \<and> frame {} s s'"
  using assms
proof (induction "unat n" arbitrary: n s rule: less_induct)
  case less
  obtain c where c: "pxCurrentTCB s = Some c" by (rule current_task [OF less.prems(1)])
  obtain sw s1 where s1: "xTaskIncrementTick s = Some (sw, s1)" "kernel_inv T D s1" "xTickCount s1 = xTickCount s + 1"
    "tcb s1 = tcb s" "pxCurrentTCB s1 = pxCurrentTCB s" "uxSchedulerSuspended s1 = 0" "xSchedulerRunning s1 = xSchedulerRunning s" "frame {} s s1"
    using tick_frame [OF less.prems(1,2) c] by blast
  define s2 where "s2 = (if sw then s1\<lparr>xYieldPending := True\<rparr> else s1)"
  have k2: "kernel_inv T D s2" using kinv_yield_pending [OF inv_kinv [OF s1(2)], of True] s1(2) by (simp add: s2_def kinv_empty)
  have f2: "xTickCount s2 = xTickCount s + 1" "tcb s2 = tcb s" "pxCurrentTCB s2 = pxCurrentTCB s" "uxSchedulerSuspended s2 = 0"
    "xSchedulerRunning s2 = xSchedulerRunning s"
    using s1 by (simp_all add: s2_def)
  have fr: "frame {} s s2"
    by (rule frame_trans [OF s1(8), where Y = "{}"]) (auto simp: s2_def intro!: frame_same simp: is_ready_def)
  have run: "pended_ticks_loop n s = (if n - 1 > 0 then pended_ticks_loop (n - 1) s2 else Some s2)"
    using s1(1) by (simp add: pended_ticks_loop.simps [of n s] s2_def Let_def)
  show ?case
  proof (cases "n - 1 > 0")
    case True
    have "unat (n - 1) < unat n" using less.prems(3) by (simp add: unat_sub_le word_le_nat_alt word_less_nat_alt)
    from less.hyps [OF this k2 f2(4) True] obtain s' where "pended_ticks_loop (n - 1) s2 = Some s'" "kernel_inv T D s'"
      "xTickCount s' = xTickCount s2 + (n - 1)" "tcb s' = tcb s2" "pxCurrentTCB s' = pxCurrentTCB s2"
      "uxSchedulerSuspended s' = 0" "xSchedulerRunning s' = xSchedulerRunning s2" "frame {} s2 s'" by blast
    then show ?thesis using run True f2 frame_trans [OF fr, of "{}" s' "{}"] by auto
  next
    case False
    then have "n = 1" by (simp add: word_gt_0)
    then show ?thesis using run k2 f2 fr by simp
  qed
qed

lemma tasks_positive:
  assumes k: "kernel_inv T D s"
  shows "uxCurrentNumberOfTasks s > 0"
proof -
  note ok = kinvD(1) [OF inv_kinv [OF k]]
  have T: "T \<subseteq> {..<2 ^ 62}" using kernel_task(1) [OF ok] by auto
  then have fin: "finite T" by (rule finite_subset) simp
  have "card T \<le> 2 ^ 62" using card_mono [OF _ T] by simp
  moreover have "T \<noteq> {}" "uxCurrentNumberOfTasks s = of_nat (card T)" using k by (auto simp: kernel_inv_def count_ok_def)
  ultimately show ?thesis using fin by (simp add: word_gt_0 word_of_nat_eq_0_iff nat_dvd_not_less card_gt_0_iff)
qed

lemma resume_all:
  assumes k: "kernel_inv T D s" and sus: "uxSchedulerSuspended s \<noteq> 0"
  shows "\<exists>y s'. xTaskResumeAll s = Some (y, s') \<and> kernel_inv T D s' \<and> tcb s' = tcb s \<and> pxCurrentTCB s' = pxCurrentTCB s \<and>
    uxSchedulerSuspended s' = uxSchedulerSuspended s - 1 \<and> xSchedulerRunning s' = xSchedulerRunning s \<and>
    xTickCount s' = xTickCount s + (if uxSchedulerSuspended s = 1 \<and> uxCurrentNumberOfTasks s > 0 then xPendedTicks s else 0) \<and>
    frame {} s s' \<and> (y \<and> msip_reg s \<noteq> None \<longrightarrow> msip_reg s' = Some 1) \<and>
    (uxSchedulerSuspended s = 1 \<longrightarrow> (\<forall>t. pxContainer (lists s) (xEventListItem t) = Some xPendingReadyList \<longrightarrow> is_ready s' t))"
proof -
  define s0 where "s0 = s\<lparr>uxSchedulerSuspended := uxSchedulerSuspended s - 1\<rparr>"
  have k0: "kinv T D {} s0" by (rule kinv_cong [OF inv_kinv [OF k]]) (simp_all add: s0_def)
  have f0: "frame {} s s0" by (rule frame_same) (simp_all add: s0_def is_ready_def)
  show ?thesis
  proof (cases "uxSchedulerSuspended s = 1 \<and> uxCurrentNumberOfTasks s > 0")
    case False
    have "uxSchedulerSuspended s - 1 \<noteq> 0 \<or> uxSchedulerSuspended s = 1" by simp
    then have "xTaskResumeAll s = Some (False, s0)"
      using False by (auto simp: xTaskResumeAll_def s0_def Let_def)
    then show ?thesis using k0 False f0 tasks_positive [OF k] by (auto simp: kinv_empty s0_def)
  next
    case True
    obtain b ls w y where p: "pending_loop False s0 = Some (b, s0\<lparr>lists := ls, uxTopReadyPriority := w, xYieldPending := y\<rparr>)"
      "kinv T D {} (s0\<lparr>lists := ls, uxTopReadyPriority := w, xYieldPending := y\<rparr>)"
      "frame {} s0 (s0\<lparr>lists := ls, uxTopReadyPriority := w, xYieldPending := y\<rparr>)"
      "\<forall>t. pxContainer (lists s0) (xEventListItem t) = Some xPendingReadyList \<longrightarrow>
         is_ready (s0\<lparr>lists := ls, uxTopReadyPriority := w, xYieldPending := y\<rparr>) t"
      using pending_loop_spec [OF k0] by blast
    define s1 where "s1 = s0\<lparr>lists := ls, uxTopReadyPriority := w, xYieldPending := y\<rparr>"
    define s2 where "s2 = (if b then prvResetNextTaskUnblockTime s1 else s1)"
    have k2: "kernel_inv T D s2"
      using p(2) kinv_reset_unblock [of T D "{}" s1] by (simp add: s2_def s1_def kinv_empty)
    have f2: "tcb s2 = tcb s" "pxCurrentTCB s2 = pxCurrentTCB s" "uxSchedulerSuspended s2 = 0" "xTickCount s2 = xTickCount s"
      "xPendedTicks s2 = xPendedTicks s" "xSchedulerRunning s2 = xSchedulerRunning s"
      using True by (simp_all add: s2_def s1_def s0_def prvResetNextTaskUnblockTime_def)
    have fr2: "frame {} s s2"
      by (rule frame_trans [OF frame_trans [OF f0 p(3), of "{}"], where Y = "{}"])
        (auto simp: s2_def s1_def is_ready_def prvResetNextTaskUnblockTime_def intro!: frame_same)
    have rd2: "is_ready s2 t" if "pxContainer (lists s) (xEventListItem t) = Some xPendingReadyList" for t
      using p(4) that by (auto simp: s2_def s1_def s0_def is_ready_def prvResetNextTaskUnblockTime_def)
    have "\<exists>s3. (if xPendedTicks s2 > 0 then do { s \<leftarrow> pended_ticks_loop (xPendedTicks s2) s2; Some (s\<lparr>xPendedTicks := 0\<rparr>) } else Some s2) = Some s3 \<and>
      kernel_inv T D s3 \<and> tcb s3 = tcb s \<and> pxCurrentTCB s3 = pxCurrentTCB s \<and> uxSchedulerSuspended s3 = 0 \<and>
      xTickCount s3 = xTickCount s + xPendedTicks s \<and> xSchedulerRunning s3 = xSchedulerRunning s \<and> frame {} s s3 \<and> frame {} s2 s3"
    proof (cases "xPendedTicks s2 > 0")
      case True
      obtain s3 where s3: "pended_ticks_loop (xPendedTicks s2) s2 = Some s3" "kernel_inv T D s3"
        "xTickCount s3 = xTickCount s2 + xPendedTicks s2" "tcb s3 = tcb s2" "pxCurrentTCB s3 = pxCurrentTCB s2"
        "uxSchedulerSuspended s3 = 0" "xSchedulerRunning s3 = xSchedulerRunning s2" "frame {} s2 s3"
        using pended_ticks_spec [OF k2 f2(3) True] by blast
      have "kinv T D {} (s3\<lparr>xPendedTicks := 0\<rparr>)" by (rule kinv_cong [OF inv_kinv [OF s3(2)]]) simp_all
      moreover have "frame {} s (s3\<lparr>xPendedTicks := 0\<rparr>)"
        by (rule frame_trans [OF frame_trans [OF fr2 s3(8)], of "{}" "{}"])
          (auto simp: is_ready_def intro!: frame_same)
      moreover have "frame {} s2 (s3\<lparr>xPendedTicks := 0\<rparr>)"
        by (rule frame_trans [OF s3(8), of "{}"]) (auto simp: is_ready_def intro!: frame_same)
      ultimately show ?thesis using True s3 f2 by (simp add: kinv_empty)
    next
      case False
      then show ?thesis using k2 f2 fr2 by (simp add: word_gt_0)
    qed
    then obtain s3 where s3: "(if xPendedTicks s2 > 0 then do { s \<leftarrow> pended_ticks_loop (xPendedTicks s2) s2; Some (s\<lparr>xPendedTicks := 0\<rparr>) } else Some s2) = Some s3"
      "kernel_inv T D s3" "tcb s3 = tcb s" "pxCurrentTCB s3 = pxCurrentTCB s" "uxSchedulerSuspended s3 = 0"
      "xTickCount s3 = xTickCount s + xPendedTicks s" "xSchedulerRunning s3 = xSchedulerRunning s" "frame {} s s3" "frame {} s2 s3"
      by blast
    have "xTaskResumeAll s = Some (if xYieldPending s3 then (True, portYIELD s3) else (False, s3))"
    proof -
      have c: "uxSchedulerSuspended s0 = 0 \<and> uxCurrentNumberOfTasks s0 > 0" using True by (simp add: s0_def)
      show ?thesis
        unfolding xTaskResumeAll_def Let_def s0_def [symmetric] if_P [OF c] p(1) [folded s1_def]
        by (simp only: Option.bind.simps prod.case s2_def [symmetric] s3(1))
    qed
    moreover have "kernel_inv T D (portYIELD s3)" using kinv_yield [OF inv_kinv [OF s3(2)]] by (simp add: kinv_empty)
    moreover have "frame {} s (portYIELD s3)" using frame_yielded [OF s3(8), of True] by simp
    moreover have "msip_reg s \<noteq> None \<Longrightarrow> msip_reg s3 \<noteq> None" using s3(8) by (auto simp: frame_def msip_le_def)
    moreover have "is_ready (portYIELD s3) t \<and> is_ready s3 t" if "pxContainer (lists s) (xEventListItem t) = Some xPendingReadyList" for t
      using rd2 [OF that] s3(9) frame_yield [of "{}" s3] by (auto simp: frame_def)
    ultimately show ?thesis using s3 True
      by (auto simp: portYIELD_def rv_trigger_soft_interrupt_def riscv_trigger_soft_interrupt_def)
  qed
qed

end
