(* ===== verification/Task_Calls.thy ===== *)
theory Task_Calls
  imports Task_Ops
begin

text \<open>
  The calls of the task interface: each of them returns, and preserves the invariant of the
  scheduler.
\<close>

definition alive :: "kernel \<Rightarrow> nat \<Rightarrow> bool" where
  "alive s t \<longleftrightarrow> pxContainer (lists s) (xStateListItem t) \<noteq> Some xTasksWaitingTermination"

lemma yield_inv: "kernel_inv T D s \<Longrightarrow> kernel_inv T D (portYIELD s)"
  using kinv_yield [of T D "{}" s] by (simp add: kinv_empty)

lemma yield_pending_inv: "kernel_inv T D s \<Longrightarrow> kernel_inv T D (s\<lparr>xYieldPending := b\<rparr>)"
  using kinv_yield_pending [of T D "{}" s] by (simp add: kinv_empty)

lemma reset_unblock_inv: "kernel_inv T D s \<Longrightarrow> kernel_inv T D (prvResetNextTaskUnblockTime s)"
  using kinv_reset_unblock [of T D "{}" s] by (simp add: kinv_empty)

lemma suspend_all_inv: "kernel_inv T D s \<Longrightarrow> kernel_inv T D (vTaskSuspendAll s)"
  unfolding kinv_empty [symmetric] by (rule kinv_cong, assumption) (simp_all add: vTaskSuspendAll_def)

lemma suspend_frame: "frame {} s (vTaskSuspendAll s)"
  by (rule frame_same) (simp_all add: vTaskSuspendAll_def is_ready_def)

lemmas inv_yields = yield_inv yield_pending_inv reset_unblock_inv suspend_all_inv

subsection \<open>Delays\<close>

lemma delay_current:
  assumes k: "kernel_inv T D s" and c: "pxCurrentTCB s = Some c" and r: "is_ready s c" and n: "n \<noteq> 0"
  obtains s1 where "prvAddCurrentTaskToDelayedList n b s = Some s1" "kernel_inv T D s1"
    "pxContainer (lists s1) = (pxContainer (lists s))(xStateListItem c := Some (delayed_to s n b))"
    "\<not> (n = portMAX_DELAY \<and> b) \<Longrightarrow> xItemValue (lists s1) = (xItemValue (lists s))(xStateListItem c := xTickCount s + n)"
    "tcb s1 = tcb s" "pxCurrentTCB s1 = pxCurrentTCB s" "xTickCount s1 = xTickCount s"
    "uxSchedulerSuspended s1 = uxSchedulerSuspended s" "xSchedulerRunning s1 = xSchedulerRunning s"
    "xPendedTicks s1 = xPendedTicks s" "xYieldPending s1 = xYieldPending s" "frame {c} s s1" "msip_reg s1 = msip_reg s"
    "pxContainer (lists s1) (xStateListItem c) \<noteq> Some 35"
proof -
  obtain l where l: "pxContainer (lists s) (xStateListItem c) = Some l" "l < 32" using r by (auto simp: is_ready_def)
  obtain ls w u where a: "prvAddCurrentTaskToDelayedList n b s =
      Some (s\<lparr>lists := ls, uxTopReadyPriority := w, xNextTaskUnblockTime := u\<rparr>)"
    "kinv T D {} (s\<lparr>lists := ls, uxTopReadyPriority := w, xNextTaskUnblockTime := u\<rparr>)"
    "pxContainer ls = (pxContainer (lists s))(xStateListItem c := Some (delayed_to s n b))"
    "\<not> (n = portMAX_DELAY \<and> b) \<Longrightarrow> xItemValue ls = (xItemValue (lists s))(xStateListItem c := xTickCount s + n)"
    by (rule add_to_delayed [OF inv_kinv [OF k] c l n]) blast
  have "frame {c} s (s\<lparr>lists := ls, uxTopReadyPriority := w, xNextTaskUnblockTime := u\<rparr>)"
    by (rule frame_same) (use a(3) in \<open>simp_all add: is_ready_def\<close>)
  moreover have "delayed_to s n b \<noteq> 35"
    by (cases rule: delayed_cases [OF kinvD(1) [OF inv_kinv [OF k]]]) (simp_all add: delayed_to_def)
  ultimately show ?thesis by (intro that [OF a(1)]) (use a in \<open>simp_all add: kinv_empty\<close>)
qed

lemma suspended_plus: "(n :: u64) + 1 - 1 = n" by simp

lemma task_delay:
  assumes k: "kernel_inv T D s" and c: "pxCurrentTCB s = Some c" and r: "is_ready s c"
    and sus: "uxSchedulerSuspended s + 1 \<noteq> 0"
  shows "\<exists>s'. vTaskDelay n s = Some s' \<and> kernel_inv T D s' \<and> pxCurrentTCB s' = pxCurrentTCB s \<and>
    uxSchedulerSuspended s' = uxSchedulerSuspended s \<and> frame {c} s s' \<and>
    (msip_reg s \<noteq> None \<longrightarrow> msip_reg s' = Some 1)"
proof (cases "n > 0")
  case False
  then show ?thesis using yield_inv [OF k] c frame_yield [of "{c}" s]
    by (simp add: vTaskDelay_def portYIELD_def rv_trigger_soft_interrupt_def riscv_trigger_soft_interrupt_def)
next
  case True
  let ?s = "vTaskSuspendAll s"
  have sf: "pxCurrentTCB ?s = Some c" "is_ready ?s c" "n \<noteq> 0"
    using c r True by (simp_all add: vTaskSuspendAll_def is_ready_def)
  obtain s1 where s1: "prvAddCurrentTaskToDelayedList n False ?s = Some s1" "kernel_inv T D s1"
    "pxCurrentTCB s1 = pxCurrentTCB ?s" "uxSchedulerSuspended s1 = uxSchedulerSuspended ?s" "frame {c} ?s s1"
    by (rule delay_current [OF suspend_all_inv [OF k] sf]) blast
  have "uxSchedulerSuspended s1 \<noteq> 0" using s1(4) sus by (simp add: vTaskSuspendAll_def)
  from resume_all [OF s1(2) this] obtain y s2 where s2: "xTaskResumeAll s1 = Some (y, s2)" "kernel_inv T D s2"
    "pxCurrentTCB s2 = pxCurrentTCB s1" "uxSchedulerSuspended s2 = uxSchedulerSuspended s1 - 1" "frame {} s1 s2"
    "y \<and> msip_reg s1 \<noteq> None \<longrightarrow> msip_reg s2 = Some 1" by blast
  have fr: "frame {c} s s2"
    by (rule frame_trans [OF frame_trans [OF suspend_frame s1(5), of "{c}"] s2(5)]) simp_all
  have ms: "msip_reg s \<noteq> None \<longrightarrow> msip_reg s1 \<noteq> None" "msip_reg s2 = None \<longrightarrow> msip_reg s = None"
    using s1(5) fr by (auto simp: frame_def msip_le_def vTaskSuspendAll_def)
  have "vTaskDelay n s = Some (if \<not> y then portYIELD s2 else s2)"
    using True s1(1) s2(1) by (simp add: vTaskDelay_def Let_def)
  moreover have "pxCurrentTCB s2 = Some c" "uxSchedulerSuspended s2 = uxSchedulerSuspended s"
    using s1(3,4) s2(3,4) c by (simp_all add: vTaskSuspendAll_def)
  ultimately show ?thesis using s2(2,6) yield_inv [OF s2(2)] c fr frame_yielded [OF fr, of True] ms
    by (cases y) auto
qed

lemma should_delay_later: "should_delay now previous wake \<Longrightarrow> wake - now \<noteq> 0"
  by (auto simp: should_delay_def split: if_splits)

lemma task_delay_until:
  assumes k: "kernel_inv T D s" and c: "pxCurrentTCB s = Some c" and r: "is_ready s c"
    and sus: "uxSchedulerSuspended s + 1 \<noteq> 0"
  shows "\<exists>s'. xTaskDelayUntil previous inc s =
      Some (should_delay (xTickCount s) previous (previous + inc), previous + inc, s') \<and> kernel_inv T D s' \<and>
    uxSchedulerSuspended s' = uxSchedulerSuspended s \<and> frame {c} s s' \<and>
    (msip_reg s \<noteq> None \<longrightarrow> msip_reg s' = Some 1)"
proof -
  let ?s = "vTaskSuspendAll s" and ?b = "should_delay (xTickCount s) previous (previous + inc)"
  have tick: "xTickCount ?s = xTickCount s" by (simp add: vTaskSuspendAll_def)
  have "\<exists>s1. (if ?b then prvAddCurrentTaskToDelayedList (previous + inc - xTickCount s) False ?s else Some ?s) = Some s1 \<and>
    kernel_inv T D s1 \<and> uxSchedulerSuspended s1 = uxSchedulerSuspended s + 1 \<and> frame {c} ?s s1"
  proof (cases ?b)
    case True
    have sf: "pxCurrentTCB ?s = Some c" "is_ready ?s c" "previous + inc - xTickCount s \<noteq> 0"
      using c r should_delay_later [OF True] by (simp_all add: vTaskSuspendAll_def is_ready_def)
    obtain s1 where "prvAddCurrentTaskToDelayedList (previous + inc - xTickCount s) False ?s = Some s1" "kernel_inv T D s1"
      "uxSchedulerSuspended s1 = uxSchedulerSuspended ?s" "frame {c} ?s s1"
      by (rule delay_current [OF suspend_all_inv [OF k] sf]) blast
    then show ?thesis using True by (simp add: vTaskSuspendAll_def)
  next
    case False
    then show ?thesis using suspend_all_inv [OF k] by (simp add: vTaskSuspendAll_def)
  qed
  then obtain s1 where s1: "(if ?b then prvAddCurrentTaskToDelayedList (previous + inc - xTickCount s) False ?s else Some ?s) = Some s1"
    "kernel_inv T D s1" "uxSchedulerSuspended s1 = uxSchedulerSuspended s + 1" "frame {c} ?s s1" by blast
  have "uxSchedulerSuspended s1 \<noteq> 0" using s1(3) sus by simp
  from resume_all [OF s1(2) this] obtain y s2 where s2: "xTaskResumeAll s1 = Some (y, s2)" "kernel_inv T D s2"
    "uxSchedulerSuspended s2 = uxSchedulerSuspended s1 - 1" "frame {} s1 s2"
    "y \<and> msip_reg s1 \<noteq> None \<longrightarrow> msip_reg s2 = Some 1" by blast
  have fr: "frame {c} s s2"
    by (rule frame_trans [OF frame_trans [OF suspend_frame s1(4), of "{c}"] s2(4)]) simp_all
  have ms: "msip_reg s \<noteq> None \<longrightarrow> msip_reg s1 \<noteq> None" "msip_reg s2 = None \<longrightarrow> msip_reg s = None"
    using s1(4) fr by (auto simp: frame_def msip_le_def vTaskSuspendAll_def)
  have "xTaskDelayUntil previous inc s = Some (?b, previous + inc, if \<not> y then portYIELD s2 else s2)"
    unfolding xTaskDelayUntil_def Let_def tick s1(1) by (simp add: s2(1))
  then show ?thesis using s1(3) s2(2,3,5) yield_inv [OF s2(2)] fr frame_yielded [OF fr, of True] ms by (cases y) auto
qed

subsection \<open>Suspending and resuming\<close>

lemma take_any_inv:
  assumes k: "kernel_inv T D s" and t: "t \<in> T" "alive s t"
  obtains n ls w where "kListRemove (xStateListItem t) s = Some (n, s\<lparr>lists := ls\<rparr>)"
    "(if n = 0 then taskRESET_READY_PRIORITY (uxPriority (tcb s t)) (s\<lparr>lists := ls\<rparr>) else Some (s\<lparr>lists := ls\<rparr>)) =
       Some (s\<lparr>lists := ls, uxTopReadyPriority := w\<rparr>)"
    "kinv T D {t} (s\<lparr>lists := ls, uxTopReadyPriority := w\<rparr>)"
    "pxContainer ls = (pxContainer (lists s))(xStateListItem t := None)"
proof -
  obtain l where l: "pxContainer (lists s) (xStateListItem t) = Some l" by (rule inv_place [OF k t(1)])
  show ?thesis
    by (rule kinv_take_any [OF inv_kinv [OF k] l]) (use t(2) l that in \<open>auto simp: alive_def\<close>)
qed

lemma make_ready_inv:
  assumes k: "kernel_inv T D s" and t: "t \<in> T" "alive s t"
  obtains n ls1 s' where "kListRemove (xStateListItem t) s = Some (n, s\<lparr>lists := ls1\<rparr>)"
    "prvAddTaskToReadyList t (s\<lparr>lists := ls1\<rparr>) = Some s'" "kernel_inv T D s'" "is_ready s' t"
    "tcb s' = tcb s" "pxCurrentTCB s' = pxCurrentTCB s" "uxSchedulerSuspended s' = uxSchedulerSuspended s"
    "xSchedulerRunning s' = xSchedulerRunning s"
    "pxContainer (lists s') = (pxContainer (lists s))(xStateListItem t := Some (unat (uxPriority (tcb s t))))" "frame {} s s'"
proof -
  obtain l where l: "pxContainer (lists s) (xStateListItem t) = Some l" by (rule inv_place [OF k t(1)])
  have l35: "l \<noteq> 35" using t(2) l by (simp add: alive_def)
  obtain n ls1 ls w where r: "kListRemove (xStateListItem t) s = Some (n, s\<lparr>lists := ls1\<rparr>)"
    "prvAddTaskToReadyList t (s\<lparr>lists := ls1\<rparr>) = Some (s\<lparr>lists := ls, uxTopReadyPriority := w\<rparr>)"
    "kinv T D {} (s\<lparr>lists := ls, uxTopReadyPriority := w\<rparr>)"
    "pxContainer ls = (pxContainer (lists s))(xStateListItem t := Some (unat (uxPriority (tcb s t))))"
    "unat (uxPriority (tcb s t)) < 32"
    by (rule make_ready [OF inv_kinv [OF k] l l35]) blast
  have "frame {} s (s\<lparr>lists := ls, uxTopReadyPriority := w\<rparr>)"
    by (rule frame_same) (use r(4,5) in \<open>auto simp: is_ready_def\<close>)
  then show ?thesis by (intro that [OF r(1,2)]) (use r(3-5) in \<open>simp_all add: kinv_empty is_ready_def\<close>)
qed

lemma task_suspend:
  assumes k: "kernel_inv T D s" and h: "prvGetTCBFromHandle s h = Some t" and t: "t \<in> T" "alive s t"
    and run: "xSchedulerRunning s"
  shows "\<exists>s'. vTaskSuspend h s = Some s' \<and> kernel_inv T D s' \<and>
    pxContainer (lists s') = (pxContainer (lists s))(xStateListItem t := Some xSuspendedTaskList, xEventListItem t := None) \<and>
    frame {t} s s' \<and> uxSchedulerSuspended s' = uxSchedulerSuspended s \<and>
    (pxCurrentTCB s = Some t \<longrightarrow> msip_reg s \<noteq> None \<longrightarrow> msip_reg s' = Some 1)"
proof -
  obtain n ls1 w where r: "kListRemove (xStateListItem t) s = Some (n, s\<lparr>lists := ls1\<rparr>)"
    "(if n = 0 then taskRESET_READY_PRIORITY (uxPriority (tcb s t)) (s\<lparr>lists := ls1\<rparr>) else Some (s\<lparr>lists := ls1\<rparr>)) =
       Some (s\<lparr>lists := ls1, uxTopReadyPriority := w\<rparr>)"
    "kinv T D {t} (s\<lparr>lists := ls1, uxTopReadyPriority := w\<rparr>)"
    "pxContainer ls1 = (pxContainer (lists s))(xStateListItem t := None)"
    by (rule take_any_inv [OF k t]) blast
  define s1 where "s1 = s\<lparr>lists := ls1, uxTopReadyPriority := w\<rparr>"
  obtain ls2 where e: "leave_event_list t s1 = Some (s1\<lparr>lists := ls2\<rparr>)" "kinv T D {t} (s1\<lparr>lists := ls2\<rparr>)"
    "pxContainer ls2 = (pxContainer (lists s1))(xEventListItem t := None)"
    by (rule kinv_leave_event [OF r(3)[folded s1_def]]) blast
  define s2 where "s2 = s1\<lparr>lists := vListInsertEnd ls2 xSuspendedTaskList (xStateListItem t)\<rparr>"
  have k2: "kinv T D {} s2" using kinv_put_suspended [OF e(2), of t] by (simp add: s2_def)
  define s3 where "s3 = set_tcb t (\<lambda>c. c\<lparr>ucNotifyState := stop_waiting (ucNotifyState c)\<rparr>) s2"
  have k3: "kernel_inv T D s3" unfolding s3_def kinv_empty [symmetric] by (rule kinv_tcb_other [OF k2]) simp_all
  have f3: "xSchedulerRunning s3" "pxCurrentTCB s3 = pxCurrentTCB s" "lists s3 = vListInsertEnd ls2 xSuspendedTaskList (xStateListItem t)"
    using run by (simp_all add: s3_def s2_def s1_def set_tcb_def)
  define s4 where "s4 = prvResetNextTaskUnblockTime s3"
  have f4: "xSchedulerRunning s4" "pxCurrentTCB s4 = pxCurrentTCB s" "lists s4 = lists s3"
    using f3 by (simp_all add: s4_def prvResetNextTaskUnblockTime_def)
  have "vTaskSuspend h s = Some (if Some t = pxCurrentTCB s then portYIELD s4 else s4)"
  proof -
    have "vTaskSuspend h s = (do {
       s \<leftarrow> leave_event_list t s1;
       let s = s\<lparr>lists := vListInsertEnd (lists s) xSuspendedTaskList (xStateListItem t)\<rparr>;
       let s = set_tcb t (\<lambda>c. c\<lparr>ucNotifyState := stop_waiting (ucNotifyState c)\<rparr>) s;
       let s = (if xSchedulerRunning s then prvResetNextTaskUnblockTime s else s);
       if Some t = pxCurrentTCB s then
         (if xSchedulerRunning s then Some (portYIELD s)
          else if uxNumberOfItems (lists s) xSuspendedTaskList = uxCurrentNumberOfTasks s
          then Some (s\<lparr>pxCurrentTCB := None\<rparr>)
          else vTaskSwitchContext s)
       else Some s })"
    proof -
      have "(if n = 0 then taskRESET_READY_PRIORITY (uxPriority (tcb (s\<lparr>lists := ls1\<rparr>) t)) (s\<lparr>lists := ls1\<rparr>)
          else Some (s\<lparr>lists := ls1\<rparr>)) = Some s1" using r(2) by (cases "n = 0") (simp_all add: s1_def)
      then show ?thesis by (simp only: vTaskSuspend_def h r(1) Option.bind.simps prod.case)
    qed
    also have "\<dots> = Some (if Some t = pxCurrentTCB s then portYIELD s4 else s4)"
      using f3(1,2) f4(1,2) by (simp add: e(1) Let_def flip: s2_def s3_def s4_def)
    finally show ?thesis .
  qed
  moreover have "kernel_inv T D s4" using reset_unblock_inv [OF k3] by (simp add: s4_def)
  moreover have "pxContainer (lists s4) = (pxContainer (lists s))(xStateListItem t := Some xSuspendedTaskList, xEventListItem t := None)"
    using r(4) e(3) by (simp add: f3(3) f4(3) s1_def fun_upd_twist)
  moreover from this have "frame {t} s s4"
    by (intro frame_same) (use f3 f4 in \<open>auto simp: is_ready_def s4_def s3_def s2_def s1_def set_tcb_def prvResetNextTaskUnblockTime_def\<close>)
  moreover have "uxSchedulerSuspended s4 = uxSchedulerSuspended s" "msip_reg s4 = msip_reg s"
    by (simp_all add: s4_def s3_def s2_def s1_def set_tcb_def prvResetNextTaskUnblockTime_def)
  ultimately show ?thesis using yield_inv [of T D s4] frame_yielded [of "{t}" s s4 True]
    by (auto simp: portYIELD_def rv_trigger_soft_interrupt_def riscv_trigger_soft_interrupt_def)
qed

lemma suspended_alive: "prvTaskIsTaskSuspended t s \<Longrightarrow> alive s t \<and> pxContainer (lists s) (xEventListItem t) = None"
  by (simp add: prvTaskIsTaskSuspended_def alive_def listIS_CONTAINED_WITHIN_def)

lemma task_resume:
  assumes k: "kernel_inv T D s" and t: "t \<in> T"
  shows "\<exists>s'. vTaskResume (Some t) s = Some s' \<and> kernel_inv T D s' \<and>
    (Some t \<noteq> pxCurrentTCB s \<longrightarrow> prvTaskIsTaskSuspended t s \<longrightarrow> is_ready s' t) \<and>
    frame {} s s' \<and> uxSchedulerSuspended s' = uxSchedulerSuspended s"
proof (cases "Some t \<noteq> pxCurrentTCB s \<and> prvTaskIsTaskSuspended t s")
  case True
  obtain n ls1 s' where r: "kListRemove (xStateListItem t) s = Some (n, s\<lparr>lists := ls1\<rparr>)"
    "prvAddTaskToReadyList t (s\<lparr>lists := ls1\<rparr>) = Some s'" "kernel_inv T D s'" "is_ready s' t"
    "tcb s' = tcb s" "pxCurrentTCB s' = pxCurrentTCB s" "uxSchedulerSuspended s' = uxSchedulerSuspended s" "frame {} s s'"
    by (rule make_ready_inv [OF k t]) (use True suspended_alive in blast)+
  obtain c where c: "pxCurrentTCB s = Some c" by (rule current_task [OF k])
  have "vTaskResume (Some t) s = Some (if uxPriority (tcb s' t) \<ge> uxPriority (tcb s' c) then portYIELD s' else s')"
    using True r(1,2,6) c by (simp add: vTaskResume_def)
  then show ?thesis using r(3,4,7,8) yield_inv [OF r(3)] frame_yielded [OF r(8), of True]
    by (auto simp: is_ready_def portYIELD_def rv_trigger_soft_interrupt_def riscv_trigger_soft_interrupt_def)
next
  case False
  then have "vTaskResume (Some t) s = Some s" by (auto simp: vTaskResume_def)
  then show ?thesis using k False by auto
qed

lemma task_resume_isr:
  assumes k: "kernel_inv T D s" and t: "t \<in> T"
  shows "\<exists>b s'. xTaskResumeFromISR t s = Some (b, s') \<and> kernel_inv T D s' \<and> frame {} s s' \<and>
    uxSchedulerSuspended s' = uxSchedulerSuspended s"
proof (cases "prvTaskIsTaskSuspended t s")
  case True
  note a = suspended_alive [OF True]
  obtain c where c: "pxCurrentTCB s = Some c" by (rule current_task [OF k])
  show ?thesis
  proof (cases "uxSchedulerSuspended s = 0")
    case True
    define y where "y = (uxPriority (tcb s t) \<ge> uxPriority (tcb s c))"
    define s1 where "s1 = (if y then s\<lparr>xYieldPending := True\<rparr> else s)"
    have k1: "kernel_inv T D s1" using k yield_pending_inv [OF k] by (simp add: s1_def)
    have a1: "alive s1 t" using a by (simp add: s1_def alive_def)
    obtain n ls1 s' where r: "kListRemove (xStateListItem t) s1 = Some (n, s1\<lparr>lists := ls1\<rparr>)"
      "prvAddTaskToReadyList t (s1\<lparr>lists := ls1\<rparr>) = Some s'" "kernel_inv T D s'"
      "uxSchedulerSuspended s' = uxSchedulerSuspended s1" "frame {} s1 s'"
      by (rule make_ready_inv [OF k1 t a1]) blast
    have "frame {} s s'" by (rule frame_trans [OF _ r(5), of "{}"]) (auto simp: s1_def is_ready_def intro!: frame_same)
    have "xTaskResumeFromISR t s = Some (y, s')"
      using \<open>prvTaskIsTaskSuspended t s\<close> True c r(1,2)
      by (simp add: xTaskResumeFromISR_def Let_def flip: y_def s1_def)
    then show ?thesis using r(3,4) \<open>frame {} s s'\<close> by (auto simp: s1_def)
  next
    case False
    have "kinv T D {} (s\<lparr>lists := vListInsertEnd (lists s) xPendingReadyList (xEventListItem t)\<rparr>)"
      by (rule kinv_put_event_end [OF inv_kinv [OF k] t])
        (use a kernel_dom [OF kinvD(1) [OF inv_kinv [OF k]]] in \<open>auto simp: alive_def\<close>)
    moreover have "frame {} s (s\<lparr>lists := vListInsertEnd (lists s) xPendingReadyList (xEventListItem t)\<rparr>)"
      by (rule frame_same) (auto simp: is_ready_def)
    ultimately show ?thesis using \<open>prvTaskIsTaskSuspended t s\<close> False
      by (intro exI [of _ False]) (simp add: xTaskResumeFromISR_def kinv_empty)
  qed
next
  case False
  then show ?thesis using k by (intro exI [of _ False]) (simp add: xTaskResumeFromISR_def)
qed

end
