(* ===== verification/Task_Calls_Sync.thy ===== *)
theory Task_Calls_Sync
  imports Task_Calls
begin

text \<open>
  Priorities and their inheritance, event lists and notifications: each call returns and
  preserves the invariant.
\<close>

subsection \<open>Updates that do not touch the links\<close>

lemma uxListRemove_value:
  "uxListRemove (ls\<lparr>xItemValue := v\<rparr>) x = map_option (\<lambda>(n, ls). (n, ls\<lparr>xItemValue := v\<rparr>)) (uxListRemove ls x)"
  by (cases "pxContainer ls x") (simp_all add: uxListRemove_def Let_def)

lemma lists_inject: "s\<lparr>lists := a\<rparr> = s\<lparr>lists := b\<rparr> \<longleftrightarrow> a = b"
  by (metis kernel.select_convs(1) kernel.surjective kernel.update_convs(1))

lemma remove_set_tcb:
  "kListRemove x s = Some (n, s\<lparr>lists := ls\<rparr>) \<Longrightarrow> kListRemove x (set_tcb t f s) = Some (n, set_tcb t f (s\<lparr>lists := ls\<rparr>))"
  by (auto simp: kListRemove_def set_tcb_def bind_eq_Some_conv lists_inject)

lemma remove_set_value:
  "kListRemove x s = Some (n, s\<lparr>lists := ls\<rparr>) \<Longrightarrow> xItemValue ls = xItemValue (lists s) \<Longrightarrow>
     kListRemove x (set_item_value y v s) = Some (n, set_item_value y v (s\<lparr>lists := ls\<rparr>))"
  by (auto simp: kListRemove_def set_item_value_def bind_eq_Some_conv uxListRemove_value lists_inject)

lemma remove_set_event_value:
  "kListRemove x s = Some (n, s\<lparr>lists := ls\<rparr>) \<Longrightarrow> xItemValue ls = xItemValue (lists s) \<Longrightarrow>
     kListRemove x (set_event_value t v s) = Some (n, set_event_value t v (s\<lparr>lists := ls\<rparr>))"
  by (simp add: set_event_value_def remove_set_value)

lemma set_fields [simp]:
  "(set_tcb t f s)\<lparr>uxTopReadyPriority := w\<rparr> = set_tcb t f (s\<lparr>uxTopReadyPriority := w\<rparr>)"
  "(set_item_value y v s)\<lparr>uxTopReadyPriority := w\<rparr> = set_item_value y v (s\<lparr>uxTopReadyPriority := w\<rparr>)"
  "(set_event_value t v s)\<lparr>uxTopReadyPriority := w\<rparr> = set_event_value t v (s\<lparr>uxTopReadyPriority := w\<rparr>)"
  "lists (set_tcb t f s) = lists s" "uxTopReadyPriority (set_tcb t f s) = uxTopReadyPriority s"
  "uxTopReadyPriority (set_item_value y v s) = uxTopReadyPriority s"
  "uxTopReadyPriority (set_event_value t v s) = uxTopReadyPriority s"
  "tcb (set_item_value y v s) = tcb s" "tcb (set_event_value t v s) = tcb s"
  "tcb (set_tcb t f s) u = (if u = t then f (tcb s t) else tcb s u)"
  "pxCurrentTCB (set_tcb t f s) = pxCurrentTCB s" "pxCurrentTCB (set_item_value y v s) = pxCurrentTCB s"
  "pxCurrentTCB (set_event_value t v s) = pxCurrentTCB s"
  "pxContainer (lists (set_item_value y v s)) = pxContainer (lists s)"
  "pxContainer (lists (set_event_value t v s)) = pxContainer (lists s)"
  "xSchedulerRunning (set_tcb t f s) = xSchedulerRunning s" "xSchedulerRunning (set_item_value y v s) = xSchedulerRunning s"
  "xSchedulerRunning (set_event_value t v s) = xSchedulerRunning s"
  "uxSchedulerSuspended (set_tcb t f s) = uxSchedulerSuspended s"
  "uxSchedulerSuspended (set_item_value y v s) = uxSchedulerSuspended s"
  "uxSchedulerSuspended (set_event_value t v s) = uxSchedulerSuspended s"
  "msip_reg (set_tcb t f s) = msip_reg s" "msip_reg (set_item_value y v s) = msip_reg s"
  "msip_reg (set_event_value t v s) = msip_reg s" "xPendedTicks (set_tcb t f s) = xPendedTicks s"
  by (simp_all add: set_tcb_def set_item_value_def set_event_value_def)

lemma set_tcb_twice: "set_tcb t f (set_tcb t g s) = set_tcb t (\<lambda>c. f (g c)) s"
  by (simp add: set_tcb_def)

subsection \<open>Priorities\<close>

lemma prio_cap: "(if (p :: u64) \<ge> 32 then 31 else p) < 32"
  by (simp add: not_le)

text \<open>
  The statements around a priority change of a ready task: out of its list, the bit reset, the
  new fields, and into the list of the new priority.
\<close>

lemma reprioritise:
  assumes k: "kernel_inv T D s" and t: "pxContainer (lists s) (xStateListItem t) = Some l" "l < 32"
    and f: "uxPriority (f (tcb s t)) < 32" "uxBasePriority (f (tcb s t)) < 32"
  obtains n ls w s' where "kListRemove (xStateListItem t) s = Some (n, s\<lparr>lists := ls\<rparr>)" "xItemValue ls = xItemValue (lists s)"
    "(if n = 0 then s\<lparr>lists := ls, uxTopReadyPriority := portRESET_READY_PRIORITY (uxPriority (tcb s t)) (uxTopReadyPriority s)\<rparr>
      else s\<lparr>lists := ls\<rparr>) = s\<lparr>lists := ls, uxTopReadyPriority := w\<rparr>"
    "kinv T D {t} (set_tcb t f (s\<lparr>lists := ls, uxTopReadyPriority := w\<rparr>))"
    "pxContainer ls = (pxContainer (lists s))(xStateListItem t := None)"
proof -
  obtain n ls where r: "kListRemove (xStateListItem t) s = Some (n, s\<lparr>lists := ls\<rparr>)"
    "kinv T D {t} (s\<lparr>lists := ls, uxTopReadyPriority :=
       (if n = 0 then portRESET_READY_PRIORITY (uxPriority (tcb s t)) (uxTopReadyPriority s) else uxTopReadyPriority s)\<rparr>)"
    "pxContainer ls = (pxContainer (lists s))(xStateListItem t := None)" "xItemValue ls = xItemValue (lists s)"
    by (rule kinv_take_ready [OF inv_kinv [OF k] t]) blast
  let ?w = "if n = 0 then portRESET_READY_PRIORITY (uxPriority (tcb s t)) (uxTopReadyPriority s) else uxTopReadyPriority s"
  have "kinv T D {t} (set_tcb t f (s\<lparr>lists := ls, uxTopReadyPriority := ?w\<rparr>))"
    by (rule kinv_priority [OF r(2)]) (use r(3) f in auto)
  then show ?thesis by (intro that [OF r(1,4), of ?w]) (simp_all add: r(3))
qed

lemma put_ready_inv:
  assumes "kinv T D {t} s"
  obtains s' where "prvAddTaskToReadyList t s = Some s'" "kernel_inv T D s'" "tcb s' = tcb s" "pxCurrentTCB s' = pxCurrentTCB s"
    "pxContainer (lists s') = (pxContainer (lists s))(xStateListItem t := Some (unat (uxPriority (tcb s t))))"
    "is_ready s' t" "xSchedulerRunning s' = xSchedulerRunning s" "uxSchedulerSuspended s' = uxSchedulerSuspended s"
    "msip_reg s' = msip_reg s" "xPendedTicks s' = xPendedTicks s"
proof -
  obtain ls w where r: "prvAddTaskToReadyList t s = Some (s\<lparr>lists := ls, uxTopReadyPriority := w\<rparr>)"
    "kinv T D ({t} - {t}) (s\<lparr>lists := ls, uxTopReadyPriority := w\<rparr>)"
    "pxContainer ls = (pxContainer (lists s))(xStateListItem t := Some (unat (uxPriority (tcb s t))))"
    "unat (uxPriority (tcb s t)) < 32"
    by (rule kinv_put_ready [OF assms, of t]) auto
  then show ?thesis by (intro that [OF r(1)]) (simp_all add: kinv_empty is_ready_def)
qed

text \<open>A task taken out of its ready list and put into another one: nothing else moves.\<close>

lemma frame_moved:
  assumes "pxCurrentTCB s2 = pxCurrentTCB s" "xSchedulerRunning s2 = xSchedulerRunning s" "msip_reg s2 = msip_reg s"
    "is_ready s2 t" "\<And>u. u \<noteq> t \<Longrightarrow> pxContainer (lists s2) (xStateListItem u) = pxContainer (lists s) (xStateListItem u)"
  shows "frame {} s s2"
proof (rule frame_same [OF assms(1-3)])
  show "is_ready s2 u" if "is_ready s u" for u
    using that assms(4,5) by (cases "u = t") (simp_all add: is_ready_def)
qed

lemma ready_list_contains:
  assumes "kernel_ok T D H s" "t \<in> T"
  shows "pxReadyTasksLists (uxPriority (tcb s t)) = Some (unat (uxPriority (tcb s t)))"
    "listIS_CONTAINED_WITHIN (lists s) (unat (uxPriority (tcb s t))) (xStateListItem t) \<longleftrightarrow> is_ready s t"
proof -
  note p = kernel_task(2) [OF assms]
  show "pxReadyTasksLists (uxPriority (tcb s t)) = Some (unat (uxPriority (tcb s t)))"
    using p by (simp add: pxReadyTasksLists_def)
  show "listIS_CONTAINED_WITHIN (lists s) (unat (uxPriority (tcb s t))) (xStateListItem t) \<longleftrightarrow> is_ready s t"
    using kernel_placeD(3) [OF assms(1), of t] prio_nat [OF p] by (auto simp: is_ready_def listIS_CONTAINED_WITHIN_def)
qed

lemma priority_set:
  assumes k: "kernel_inv T D s" and h: "prvGetTCBFromHandle s h = Some t" and t: "t \<in> T"
  shows "\<exists>s'. vTaskPrioritySet h p s = Some s' \<and> kernel_inv T D s' \<and>
    uxBasePriority (tcb s' t) = (if p \<ge> 32 then 31 else p) \<and>
    uxPriority (tcb s' t) = (if uxPriority (tcb s t) = uxBasePriority (tcb s t) then (if p \<ge> 32 then 31 else p)
                             else uxPriority (tcb s t)) \<and> (\<forall>u. u \<noteq> t \<longrightarrow> tcb s' u = tcb s u) \<and>
    frame {} s s' \<and> uxSchedulerSuspended s' = uxSchedulerSuspended s"
proof -
  define q :: u64 where "q = (if p \<ge> 32 then 31 else p)"
  have q: "q < 32" unfolding q_def by (rule prio_cap)
  have q': "(if p \<ge> 32 then 32 - 1 else p) = q" by (simp add: q_def)
  note ok = kinvD(1) [OF inv_kinv [OF k]]
  obtain c where c: "pxCurrentTCB s = Some c" by (rule current_task [OF k])
  have pt: "uxPriority (tcb s t) < 32" "uxBasePriority (tcb s t) < 32" using kernel_task(2,3) [OF ok t] by simp_all
  show ?thesis
  proof (cases "uxBasePriority (tcb s t) = q")
    case True
    then have "vTaskPrioritySet h p s = Some s" unfolding vTaskPrioritySet_def q' by (simp add: h)
    then show ?thesis using k True by (auto simp: q_def)
  next
    case False
    define y where "y = (if q > uxBasePriority (tcb s t) then t \<noteq> c \<and> q \<ge> uxPriority (tcb s c) else t = c)"
    define np where "np = (if uxBasePriority (tcb s t) = uxPriority (tcb s t) then q else uxPriority (tcb s t))"
    define f where "f = (\<lambda>c. c\<lparr>uxPriority := np, uxBasePriority := q\<rparr> :: TCB_t)"
    define s1 where "s1 = set_event_value t q (set_tcb t f s)"
    have np: "np < 32" using q pt by (simp add: np_def)
    have s1: "set_event_value t q (set_tcb t (\<lambda>c. c\<lparr>uxBasePriority := q\<rparr>)
        (if uxBasePriority (tcb s t) = uxPriority (tcb s t) then set_tcb t (\<lambda>c. c\<lparr>uxPriority := q\<rparr>) s else s)) = s1"
      by (simp add: s1_def f_def np_def set_tcb_def)
    have yr: "(if q > uxBasePriority (tcb s t) then
            (if Some t \<noteq> pxCurrentTCB s then do { cur \<leftarrow> pxCurrentTCB s; Some (q \<ge> uxPriority (tcb s cur)) } else Some False)
          else Some (Some t = pxCurrentTCB s)) = Some y"
      using c by (simp add: y_def)
    have head: "vTaskPrioritySet h p s = do {
       s \<leftarrow> (if listIS_CONTAINED_WITHIN (lists s1) (unat (uxPriority (tcb s t))) (xStateListItem t) then do {
                (n, s2) \<leftarrow> kListRemove (xStateListItem t) s1;
                let s2 = (if n = 0 then s2\<lparr>uxTopReadyPriority :=
                           portRESET_READY_PRIORITY (uxPriority (tcb s t)) (uxTopReadyPriority s2)\<rparr> else s2);
                prvAddTaskToReadyList t s2 }
              else Some s1);
       Some (if y then portYIELD s else s) }"
      unfolding vTaskPrioritySet_def q' using False
      by (simp only: Let_def h Option.bind.simps yr s1 ready_list_contains(1) [OF ok t] if_True not_False_eq_True simp_thms)
    have fld: "uxPriority (f (tcb s t)) = np" "uxBasePriority (f (tcb s t)) = q" by (simp_all add: f_def)
    have "\<exists>s2. (if listIS_CONTAINED_WITHIN (lists s1) (unat (uxPriority (tcb s t))) (xStateListItem t) then do {
                (n, s2) \<leftarrow> kListRemove (xStateListItem t) s1;
                let s2 = (if n = 0 then s2\<lparr>uxTopReadyPriority :=
                           portRESET_READY_PRIORITY (uxPriority (tcb s t)) (uxTopReadyPriority s2)\<rparr> else s2);
                prvAddTaskToReadyList t s2 }
              else Some s1) = Some s2 \<and> kernel_inv T D s2 \<and> tcb s2 = (tcb s)(t := f (tcb s t)) \<and> frame {} s s2 \<and>
        uxSchedulerSuspended s2 = uxSchedulerSuspended s"
    proof (cases "is_ready s t")
      case True
      then obtain l where l: "pxContainer (lists s) (xStateListItem t) = Some l" "l < 32" by (auto simp: is_ready_def)
      obtain n ls w where r: "kListRemove (xStateListItem t) s = Some (n, s\<lparr>lists := ls\<rparr>)" "xItemValue ls = xItemValue (lists s)"
        "(if n = 0 then s\<lparr>lists := ls, uxTopReadyPriority := portRESET_READY_PRIORITY (uxPriority (tcb s t)) (uxTopReadyPriority s)\<rparr>
          else s\<lparr>lists := ls\<rparr>) = s\<lparr>lists := ls, uxTopReadyPriority := w\<rparr>"
        "kinv T D {t} (set_tcb t f (s\<lparr>lists := ls, uxTopReadyPriority := w\<rparr>))"
        "pxContainer ls = (pxContainer (lists s))(xStateListItem t := None)"
        by (rule reprioritise [where f = f, OF k l]) (use np q fld in auto)
      note k2 = kinv_set_event_value [OF r(4), of t q]
      obtain s2 where s2: "prvAddTaskToReadyList t (set_event_value t q (set_tcb t f (s\<lparr>lists := ls, uxTopReadyPriority := w\<rparr>))) = Some s2"
        "kernel_inv T D s2" "tcb s2 = tcb (set_event_value t q (set_tcb t f (s\<lparr>lists := ls, uxTopReadyPriority := w\<rparr>)))"
        "frame {} s s2" "uxSchedulerSuspended s2 = uxSchedulerSuspended s"
        by (rule put_ready_inv [OF k2]) (rule that, assumption, assumption, assumption, rule frame_moved [of _ _ t], simp_all add: r(5))
      have rm: "kListRemove (xStateListItem t) s1 = Some (n, set_event_value t q (set_tcb t f (s\<lparr>lists := ls\<rparr>)))"
      proof -
        have "set_tcb t f (s\<lparr>lists := ls\<rparr>) = (set_tcb t f s)\<lparr>lists := ls\<rparr>" by (simp add: set_tcb_def)
        then show ?thesis unfolding s1_def
          using remove_set_event_value [of "xStateListItem t" "set_tcb t f s" n ls t q] remove_set_tcb [OF r(1), of t f] r(2) by simp
      qed
      have upd: "(if n = 0 then (set_event_value t q (set_tcb t f (s\<lparr>lists := ls\<rparr>)))\<lparr>uxTopReadyPriority :=
          portRESET_READY_PRIORITY (uxPriority (tcb s t)) (uxTopReadyPriority (set_event_value t q (set_tcb t f (s\<lparr>lists := ls\<rparr>))))\<rparr>
          else set_event_value t q (set_tcb t f (s\<lparr>lists := ls\<rparr>))) =
        set_event_value t q (set_tcb t f (s\<lparr>lists := ls, uxTopReadyPriority := w\<rparr>))"
        using r(3) by (cases "n = 0") simp_all
      have cont: "listIS_CONTAINED_WITHIN (lists s1) (unat (uxPriority (tcb s t))) (xStateListItem t)"
        using ready_list_contains(2) [OF ok t] True by (simp add: s1_def listIS_CONTAINED_WITHIN_def)
      show ?thesis
        using s2 by (simp only: cont if_True rm Option.bind.simps prod.case Let_def upd) (simp add: set_tcb_def)
    next
      case False
      have "\<not> listIS_CONTAINED_WITHIN (lists s1) (unat (uxPriority (tcb s t))) (xStateListItem t)"
        using ready_list_contains(2) [OF ok t] False by (simp add: s1_def listIS_CONTAINED_WITHIN_def)
      moreover have "kernel_inv T D s1"
        unfolding s1_def kinv_empty [symmetric]
        by (rule kinv_set_event_value, rule kinv_priority [OF inv_kinv [OF k]]) (use False np q fld in \<open>auto simp: is_ready_def\<close>)
      moreover have "frame {} s s1" by (rule frame_same) (simp_all add: s1_def is_ready_def)
      ultimately show ?thesis by (simp add: s1_def) (simp add: set_tcb_def)
    qed
    then obtain s2 where s2: "vTaskPrioritySet h p s = Some (if y then portYIELD s2 else s2)" "kernel_inv T D s2"
      "tcb s2 = (tcb s)(t := f (tcb s t))" "frame {} s s2" "uxSchedulerSuspended s2 = uxSchedulerSuspended s"
      unfolding head by force
    show ?thesis
      using s2 yield_inv [OF s2(2)] frame_yielded [OF s2(4), of y] by (cases y) (auto simp: f_def np_def q_def)
  qed
qed

text \<open>
  Inheritance: the holder gets the priority of the running task if that is higher, whether or not
  it is ready; its base priority stays.
\<close>

lemma priority_inherit:
  assumes k: "kernel_inv T D s" and t: "t \<in> T" and c: "pxCurrentTCB s = Some c"
  shows "\<exists>s'. xTaskPriorityInherit (Some t) s = Some (uxBasePriority (tcb s t) < uxPriority (tcb s c) \<or>
      uxPriority (tcb s t) < uxPriority (tcb s c), s') \<and> kernel_inv T D s' \<and>
    uxPriority (tcb s' t) = max (uxPriority (tcb s t)) (uxPriority (tcb s c)) \<and>
    uxBasePriority (tcb s' t) = uxBasePriority (tcb s t) \<and> (\<forall>u. u \<noteq> t \<longrightarrow> tcb s' u = tcb s u) \<and>
    frame {} s s' \<and> uxSchedulerSuspended s' = uxSchedulerSuspended s"
proof (cases "uxPriority (tcb s t) < uxPriority (tcb s c)")
  case False
  have "xTaskPriorityInherit (Some t) s = Some (uxBasePriority (tcb s t) < uxPriority (tcb s c), s)"
    unfolding xTaskPriorityInherit_def option.case c Option.bind.simps by (rule if_not_P [OF False])
  then show ?thesis using k False by (auto simp: max_def)
next
  case True
  note ok = kinvD(1) [OF inv_kinv [OF k]]
  have cT: "c \<in> T" using k c by (auto simp: kernel_inv_def)
  let ?p = "uxPriority (tcb s c)"
  define f where "f = (\<lambda>c. c\<lparr>uxPriority := ?p\<rparr> :: TCB_t)"
  have f: "uxPriority (f (tcb s t)) < 32" "uxBasePriority (f (tcb s t)) < 32" "uxPriority (f (tcb s t)) = ?p"
    "uxBasePriority (f (tcb s t)) = uxBasePriority (tcb s t)"
    using kernel_task(2,3) [OF ok cT] kernel_task(3) [OF ok t] by (simp_all add: f_def)
  define s1 where "s1 = set_event_value t ?p s"
  have tc: "t \<noteq> c" using True by auto
  have "\<exists>s2. (if listIS_CONTAINED_WITHIN (lists s1) (unat (uxPriority (tcb s t))) (xStateListItem t) then do {
                  (n, s2) \<leftarrow> kListRemove (xStateListItem t) s1;
                  let s2 = (if n = 0 then s2\<lparr>uxTopReadyPriority :=
                             portRESET_READY_PRIORITY (uxPriority (tcb s2 t)) (uxTopReadyPriority s2)\<rparr> else s2);
                  let s2 = set_tcb t (\<lambda>d. d\<lparr>uxPriority := uxPriority (tcb s2 c)\<rparr>) s2;
                  prvAddTaskToReadyList t s2 }
                else Some (set_tcb t (\<lambda>d. d\<lparr>uxPriority := uxPriority (tcb s1 c)\<rparr>) s1)) = Some s2 \<and>
    kernel_inv T D s2 \<and> tcb s2 = (tcb s)(t := f (tcb s t)) \<and> frame {} s s2 \<and>
    uxSchedulerSuspended s2 = uxSchedulerSuspended s"
  proof (cases "is_ready s t")
    case True
    then obtain l where l: "pxContainer (lists s) (xStateListItem t) = Some l" "l < 32" by (auto simp: is_ready_def)
    obtain n ls w where r: "kListRemove (xStateListItem t) s = Some (n, s\<lparr>lists := ls\<rparr>)" "xItemValue ls = xItemValue (lists s)"
      "(if n = 0 then s\<lparr>lists := ls, uxTopReadyPriority := portRESET_READY_PRIORITY (uxPriority (tcb s t)) (uxTopReadyPriority s)\<rparr>
        else s\<lparr>lists := ls\<rparr>) = s\<lparr>lists := ls, uxTopReadyPriority := w\<rparr>"
      "kinv T D {t} (set_tcb t f (s\<lparr>lists := ls, uxTopReadyPriority := w\<rparr>))"
      "pxContainer ls = (pxContainer (lists s))(xStateListItem t := None)"
      by (rule reprioritise [where f = f, OF k l f(1,2)]) blast
    define b where "b = set_event_value t ?p (s\<lparr>lists := ls, uxTopReadyPriority := w\<rparr>)"
    have b: "set_event_value t ?p (set_tcb t f (s\<lparr>lists := ls, uxTopReadyPriority := w\<rparr>)) = set_tcb t f b"
      by (simp add: b_def set_event_value_def set_item_value_def set_tcb_def)
    note k2 = kinv_set_event_value [OF r(4), of t ?p, unfolded b]
    obtain s2 where s2: "prvAddTaskToReadyList t (set_tcb t f b) = Some s2" "kernel_inv T D s2" "tcb s2 = tcb (set_tcb t f b)"
      "frame {} s s2" "uxSchedulerSuspended s2 = uxSchedulerSuspended s"
      by (rule put_ready_inv [OF k2]) (rule that, assumption, assumption, assumption, rule frame_moved [of _ _ t], simp_all add: r(5) b_def)
    have upd: "(if n = 0 then (set_event_value t ?p (s\<lparr>lists := ls\<rparr>))\<lparr>uxTopReadyPriority :=
        portRESET_READY_PRIORITY (uxPriority (tcb s t)) (uxTopReadyPriority s)\<rparr>
        else set_event_value t ?p (s\<lparr>lists := ls\<rparr>)) = b"
      using r(3) by (cases "n = 0") (simp_all add: b_def)
    have cont: "listIS_CONTAINED_WITHIN (lists s1) (unat (uxPriority (tcb s t))) (xStateListItem t)"
      using ready_list_contains(2) [OF ok t] True by (simp add: s1_def listIS_CONTAINED_WITHIN_def)
    have tb: "tcb b = tcb s" by (simp add: b_def)
    have "(do { (n, s2) \<leftarrow> kListRemove (xStateListItem t) s1;
                  let s2 = (if n = 0 then s2\<lparr>uxTopReadyPriority :=
                             portRESET_READY_PRIORITY (uxPriority (tcb s2 t)) (uxTopReadyPriority s2)\<rparr> else s2);
                  let s2 = set_tcb t (\<lambda>d. d\<lparr>uxPriority := uxPriority (tcb s2 c)\<rparr>) s2;
                  prvAddTaskToReadyList t s2 }) = Some s2"
      unfolding s1_def remove_set_event_value [OF r(1,2)] using s2(1) upd tb by (cases "n = 0") (simp_all add: f_def Let_def)
    then show ?thesis using cont s2(2-5) tb by (simp add: set_tcb_def)
  next
    case False
    have "\<not> listIS_CONTAINED_WITHIN (lists s1) (unat (uxPriority (tcb s t))) (xStateListItem t)"
      using ready_list_contains(2) [OF ok t] False by (simp add: s1_def listIS_CONTAINED_WITHIN_def)
    moreover have "kernel_inv T D (set_tcb t f s1)"
      unfolding s1_def kinv_empty [symmetric]
      by (rule kinv_priority [OF kinv_set_event_value [OF inv_kinv [OF k]]]) (use False f in \<open>auto simp: is_ready_def\<close>)
    moreover have "frame {} s (set_tcb t f s1)" by (rule frame_same) (simp_all add: s1_def is_ready_def)
    ultimately show ?thesis by (simp add: s1_def f_def set_tcb_def)
  qed
  then obtain s2 where s2: "(if listIS_CONTAINED_WITHIN (lists s1) (unat (uxPriority (tcb s t))) (xStateListItem t) then do {
                  (n, s2) \<leftarrow> kListRemove (xStateListItem t) s1;
                  let s2 = (if n = 0 then s2\<lparr>uxTopReadyPriority :=
                             portRESET_READY_PRIORITY (uxPriority (tcb s2 t)) (uxTopReadyPriority s2)\<rparr> else s2);
                  let s2 = set_tcb t (\<lambda>d. d\<lparr>uxPriority := uxPriority (tcb s2 c)\<rparr>) s2;
                  prvAddTaskToReadyList t s2 }
                else Some (set_tcb t (\<lambda>d. d\<lparr>uxPriority := uxPriority (tcb s1 c)\<rparr>) s1)) = Some s2"
    "kernel_inv T D s2" "tcb s2 = (tcb s)(t := f (tcb s t))" "frame {} s s2"
    "uxSchedulerSuspended s2 = uxSchedulerSuspended s" by blast
  have "xTaskPriorityInherit (Some t) s = Some (True, s2)"
  proof -
    have "tcb s1 = tcb s" by (simp add: s1_def)
    then show ?thesis
      unfolding xTaskPriorityInherit_def option.case c Option.bind.simps if_P [OF True] Let_def
      using s2(1) [unfolded Let_def]
      by (simp only: s1_def [symmetric] ready_list_contains(1) [OF ok t] Option.bind.simps)
  qed
  then show ?thesis using s2(2-5) True f by (auto simp: max_def)
qed

lemma priority_disinherit:
  assumes k: "kernel_inv T D s" and t: "t \<in> T" and r: "is_ready s t"
  shows "\<exists>b s'. xTaskPriorityDisinherit (Some t) s = Some (b, s') \<and> kernel_inv T D s' \<and>
    b = (uxPriority (tcb s t) \<noteq> uxBasePriority (tcb s t) \<and> uxMutexesHeld (tcb s t) = 1) \<and>
    uxMutexesHeld (tcb s' t) = uxMutexesHeld (tcb s t) - 1 \<and>
    uxPriority (tcb s' t) = (if uxMutexesHeld (tcb s t) = 1 then uxBasePriority (tcb s t) else uxPriority (tcb s t)) \<and>
    frame {} s s' \<and> uxSchedulerSuspended s' = uxSchedulerSuspended s"
proof -
  define s0 where "s0 = set_tcb t (\<lambda>c. c\<lparr>uxMutexesHeld := uxMutexesHeld c - 1\<rparr>) s"
  have k0: "kernel_inv T D s0"
    unfolding s0_def kinv_empty [symmetric] by (rule kinv_tcb_other [OF inv_kinv [OF k]]) simp_all
  have f0: "uxPriority (tcb s0 t) = uxPriority (tcb s t)" "uxBasePriority (tcb s0 t) = uxBasePriority (tcb s t)"
    "uxMutexesHeld (tcb s0 t) = uxMutexesHeld (tcb s t) - 1" by (simp_all add: s0_def)
  note ok = kinvD(1) [OF inv_kinv [OF k0]]
  have fr0: "frame {} s s0" by (rule frame_same) (simp_all add: s0_def is_ready_def)
  show ?thesis
  proof (cases "uxPriority (tcb s t) \<noteq> uxBasePriority (tcb s t) \<and> uxMutexesHeld (tcb s t) = 1")
    case False
    have "uxMutexesHeld (tcb s t) - 1 = 0 \<longleftrightarrow> uxMutexesHeld (tcb s t) = 1" by simp
    then have "xTaskPriorityDisinherit (Some t) s = Some (False, s0)"
      using False by (auto simp: xTaskPriorityDisinherit_def Let_def f0 simp flip: s0_def)
    then show ?thesis using k0 False f0 fr0 by (auto simp: s0_def)
  next
    case True
    define f where "f = (\<lambda>c. c\<lparr>uxPriority := uxBasePriority c\<rparr> :: TCB_t)"
    have f: "uxPriority (f (tcb s0 t)) < 32" "uxBasePriority (f (tcb s0 t)) < 32"
      using kernel_task(3) [OF ok t] by (simp_all add: f_def)
    obtain l where l: "pxContainer (lists s0) (xStateListItem t) = Some l" "l < 32" using r by (auto simp: is_ready_def s0_def)
    obtain n ls w where r: "kListRemove (xStateListItem t) s0 = Some (n, s0\<lparr>lists := ls\<rparr>)" "xItemValue ls = xItemValue (lists s0)"
      "(if n = 0 then s0\<lparr>lists := ls, uxTopReadyPriority := portRESET_READY_PRIORITY (uxPriority (tcb s0 t)) (uxTopReadyPriority s0)\<rparr>
        else s0\<lparr>lists := ls\<rparr>) = s0\<lparr>lists := ls, uxTopReadyPriority := w\<rparr>"
      "kinv T D {t} (set_tcb t f (s0\<lparr>lists := ls, uxTopReadyPriority := w\<rparr>))"
      "pxContainer ls = (pxContainer (lists s0))(xStateListItem t := None)"
      by (rule reprioritise [where f = f, OF k0 l f]) blast
    define s1 where "s1 = set_tcb t f (s0\<lparr>lists := ls, uxTopReadyPriority := w\<rparr>)"
    define s2 where "s2 = set_item_value (xEventListItem t) (32 - uxPriority (tcb s1 t)) s1"
    have k2: "kinv T D {t} s2" unfolding s2_def s1_def by (rule kinv_event_value [OF r(4)])
    obtain s3 where s3: "prvAddTaskToReadyList t s2 = Some s3" "kernel_inv T D s3" "tcb s3 = tcb s2"
      "frame {} s0 s3" "uxSchedulerSuspended s3 = uxSchedulerSuspended s0"
      by (rule put_ready_inv [OF k2]) (rule that, assumption, assumption, assumption, rule frame_moved [of _ _ t], simp_all add: r(5) s2_def s1_def)
    have upd: "(if n = 0 then s0\<lparr>lists := ls, uxTopReadyPriority :=
        portRESET_READY_PRIORITY (uxPriority (tcb (s0\<lparr>lists := ls\<rparr>) t)) (uxTopReadyPriority (s0\<lparr>lists := ls\<rparr>))\<rparr>
        else s0\<lparr>lists := ls\<rparr>) = s0\<lparr>lists := ls, uxTopReadyPriority := w\<rparr>"
      using r(3) by (cases "n = 0") simp_all
    have held: "uxPriority (tcb s0 t) \<noteq> uxBasePriority (tcb s0 t) \<and> uxMutexesHeld (tcb s0 t) = 0" using True f0 by simp
    have "xTaskPriorityDisinherit (Some t) s = Some (True, s3)"
      unfolding xTaskPriorityDisinherit_def option.case Let_def s0_def [symmetric] if_P [OF held] r(1)
      by (simp only: Option.bind.simps prod.case upd f_def [symmetric] s1_def [symmetric] s2_def [symmetric] s3(1))
    moreover have "uxMutexesHeld (tcb s3 t) = 0" "uxPriority (tcb s3 t) = uxBasePriority (tcb s t)"
      using s3(3) True f0 by (simp_all add: s2_def s1_def f_def)
    moreover have "frame {} s s3" by (rule frame_trans [OF fr0 s3(4)]) simp
    ultimately show ?thesis using s3(2,5) True by (auto simp: s0_def)
  qed
qed

text \<open>
  A waiter for the holder's mutex has timed out: the holder falls back to what the remaining waiters
  justify. The code resets the bit of the wrong list, so a ready holder must not be alone in its list.
\<close>

lemma priority_disinherit_timeout:
  assumes k: "kernel_inv T D s" and t: "t \<in> T" and p: "p < 32"
    and q: "q = (if uxBasePriority (tcb s t) < p then p else uxBasePriority (tcb s t))"
    and u: "is_ready s t \<and> uxMutexesHeld (tcb s t) = 1 \<and> uxPriority (tcb s t) \<noteq> q \<longrightarrow>
      (\<exists>u. u \<noteq> t \<and> pxContainer (lists s) (xStateListItem u) = pxContainer (lists s) (xStateListItem t))"
  shows "\<exists>s'. vTaskPriorityDisinheritAfterTimeout (Some t) p s = Some s' \<and> kernel_inv T D s' \<and>
    uxPriority (tcb s' t) = (if uxMutexesHeld (tcb s t) = 1 then q else uxPriority (tcb s t)) \<and>
    frame {} s s' \<and> uxSchedulerSuspended s' = uxSchedulerSuspended s"
proof (cases "uxPriority (tcb s t) \<noteq> q \<and> uxMutexesHeld (tcb s t) = 1")
  case False
  then have "vTaskPriorityDisinheritAfterTimeout (Some t) p s = Some s"
    by (simp only: vTaskPriorityDisinheritAfterTimeout_def option.case Let_def q [symmetric] if_False)
  then show ?thesis using k False by auto
next
  case True
  note ok = kinvD(1) [OF inv_kinv [OF k]]
  define f where "f = (\<lambda>c. c\<lparr>uxPriority := q\<rparr> :: TCB_t)"
  define s1 where "s1 = set_event_value t q (set_tcb t f s)"
  have f: "uxPriority (f (tcb s t)) < 32" "uxBasePriority (f (tcb s t)) < 32" "uxPriority (f (tcb s t)) = q"
    using kernel_task(3) [OF ok t] p q by (simp_all add: f_def)
  have head: "vTaskPriorityDisinheritAfterTimeout (Some t) p s =
    (if listIS_CONTAINED_WITHIN (lists s1) (unat (uxPriority (tcb s t))) (xStateListItem t) then do {
       (n, s) \<leftarrow> kListRemove (xStateListItem t) s1;
       let s = (if n = 0 then s\<lparr>uxTopReadyPriority := portRESET_READY_PRIORITY (uxPriority (tcb s t)) (uxTopReadyPriority s)\<rparr> else s);
       prvAddTaskToReadyList t s }
     else Some s1)"
    using True by (simp only: vTaskPriorityDisinheritAfterTimeout_def option.case Let_def q [symmetric] if_True
        ready_list_contains(1) [OF ok t] Option.bind.simps f_def s1_def simp_thms)
  show ?thesis
  proof (cases "is_ready s t")
    case False
    have "\<not> listIS_CONTAINED_WITHIN (lists s1) (unat (uxPriority (tcb s t))) (xStateListItem t)"
      using ready_list_contains(2) [OF ok t] False by (simp add: s1_def listIS_CONTAINED_WITHIN_def)
    moreover have "kernel_inv T D s1"
      unfolding s1_def kinv_empty [symmetric]
      by (rule kinv_set_event_value, rule kinv_priority [OF inv_kinv [OF k]]) (use False f in \<open>auto simp: is_ready_def\<close>)
    moreover have "frame {} s s1" by (rule frame_same) (simp_all add: s1_def is_ready_def)
    ultimately show ?thesis using True unfolding head by (simp add: s1_def f_def)
  next
    case rd: True
    then obtain l where l: "pxContainer (lists s) (xStateListItem t) = Some l" "l < 32" by (auto simp: is_ready_def)
    obtain v where v: "v \<noteq> t" "pxContainer (lists s) (xStateListItem v) = Some l" using u rd True l(1) by metis
    obtain n ls w where r: "kListRemove (xStateListItem t) s = Some (n, s\<lparr>lists := ls\<rparr>)" "xItemValue ls = xItemValue (lists s)"
      "(if n = 0 then s\<lparr>lists := ls, uxTopReadyPriority := portRESET_READY_PRIORITY (uxPriority (tcb s t)) (uxTopReadyPriority s)\<rparr>
        else s\<lparr>lists := ls\<rparr>) = s\<lparr>lists := ls, uxTopReadyPriority := w\<rparr>"
      "kinv T D {t} (set_tcb t f (s\<lparr>lists := ls, uxTopReadyPriority := w\<rparr>))"
      "pxContainer ls = (pxContainer (lists s))(xStateListItem t := None)"
      by (rule reprioritise [where f = f, OF k l f(1,2)]) blast
    have lp: "l = unat (uxPriority (tcb s t))"
      using ready_list_contains(2) [OF ok t] rd l(1) by (simp add: listIS_CONTAINED_WITHIN_def)
    have n: "n \<noteq> 0"
    proof
      assume "n = 0"
      then have "uxTopReadyPriority (s\<lparr>lists := ls, uxTopReadyPriority := w\<rparr>) = portRESET_READY_PRIORITY (uxPriority (tcb s t)) (uxTopReadyPriority s)"
        using r(3) [symmetric] by simp
      then have "\<not> bit w l" using bit_reset [OF kernel_task(2) [OF ok t]] lp by simp
      moreover note ok2 = kinvD(1) [OF r(4)]
      have "members ls l \<noteq> []"
        using members_container [OF kernel_lists [OF ok2], of l "xStateListItem v"] kernel_dom [OF ok2, of l] l(2) v r(5)
        by (auto simp: xStateListItem_def)
      then have "bit w l" using kernel_bits [OF ok2] l(2) by (simp add: ready_map_def)
      ultimately show False by simp
    qed
    have w: "s\<lparr>lists := ls, uxTopReadyPriority := w\<rparr> = s\<lparr>lists := ls\<rparr>" using r(3) n by simp
    note k2 = kinv_set_event_value [OF r(4) [unfolded w], of t q]
    obtain s2 where s2: "prvAddTaskToReadyList t (set_event_value t q (set_tcb t f (s\<lparr>lists := ls\<rparr>))) = Some s2"
      "kernel_inv T D s2" "tcb s2 = tcb (set_event_value t q (set_tcb t f (s\<lparr>lists := ls\<rparr>)))"
      "frame {} s s2" "uxSchedulerSuspended s2 = uxSchedulerSuspended s"
      by (rule put_ready_inv [OF k2]) (rule that, assumption, assumption, assumption, rule frame_moved [of _ _ t], simp_all add: r(5))
    have rm: "kListRemove (xStateListItem t) s1 = Some (n, set_event_value t q (set_tcb t f (s\<lparr>lists := ls\<rparr>)))"
    proof -
      have "set_tcb t f (s\<lparr>lists := ls\<rparr>) = (set_tcb t f s)\<lparr>lists := ls\<rparr>" by (simp add: set_tcb_def)
      then show ?thesis unfolding s1_def
        using remove_set_event_value [of "xStateListItem t" "set_tcb t f s" n ls t q] remove_set_tcb [OF r(1), of t f] r(2) by simp
    qed
    have cont: "listIS_CONTAINED_WITHIN (lists s1) (unat (uxPriority (tcb s t))) (xStateListItem t)"
      using ready_list_contains(2) [OF ok t] rd by (simp add: s1_def listIS_CONTAINED_WITHIN_def)
    have "vTaskPriorityDisinheritAfterTimeout (Some t) p s = Some s2"
      unfolding head using s2(1) n by (simp only: cont if_True rm Option.bind.simps prod.case Let_def if_False)
    then show ?thesis using s2 True by (simp add: f_def)
  qed
qed

end
