(* ===== verification/Task_Events.thy ===== *)
theory Task_Events
  imports Task_Calls_Sync
begin

text \<open>
  Event lists, notifications, deletion and creation of tasks, and the interrupts: each operation
  returns and preserves the invariant.
\<close>

subsection \<open>Blocking on an event list\<close>

lemma place_on_event_list:
  assumes k: "kernel_inv T D s" and c: "pxCurrentTCB s = Some c" and r: "is_ready s c"
    and e: "pxContainer (lists s) (xEventListItem c) = None" and l: "36 < l" "l \<in> D" and n: "n \<noteq> 0"
  shows "\<exists>s'. vTaskPlaceOnEventList l n s = Some s' \<and> kernel_inv T D s' \<and> frame {c} s s' \<and>
    uxSchedulerSuspended s' = uxSchedulerSuspended s \<and>
    pxContainer (lists s') = (pxContainer (lists s))(xEventListItem c := Some l, xStateListItem c := Some (delayed_to s n True))"
proof -
  have cT: "c \<in> T" using k c by (auto simp: kernel_inv_def)
  obtain ls where i: "vListInsert (lists s) l (xEventListItem c) = Some ls" "kinv T D {} (s\<lparr>lists := ls\<rparr>)"
    "pxContainer ls = (pxContainer (lists s))(xEventListItem c := Some l)"
    by (rule kinv_put_event [OF inv_kinv [OF k] cT e _ l]) (use r in \<open>auto simp: is_ready_def\<close>)
  let ?s = "s\<lparr>lists := ls\<rparr>"
  have r1: "is_ready ?s c" using r by (simp add: is_ready_def i(3))
  obtain s1 where s1: "prvAddCurrentTaskToDelayedList n True ?s = Some s1" "kernel_inv T D s1"
    "pxContainer (lists s1) = (pxContainer (lists ?s))(xStateListItem c := Some (delayed_to ?s n True))"
    "uxSchedulerSuspended s1 = uxSchedulerSuspended ?s" "frame {c} ?s s1"
    by (rule delay_current [OF inv_step [OF i(2)], of c n True]) (use c r1 n in auto)
  have "frame {} s ?s" by (rule frame_same) (simp_all add: is_ready_def i(3))
  then have "frame {c} s s1" by (rule frame_trans [OF _ s1(5)]) simp
  then show ?thesis using c i(1,3) s1 by (simp add: vTaskPlaceOnEventList_def delayed_to_def)
qed

lemma place_at_end:
  assumes k: "kernel_inv T D s" and c: "pxCurrentTCB s = Some c" and r: "is_ready s c"
    and e: "pxContainer (lists s) (xEventListItem c) = None" and l: "36 < l" "l \<in> D" and n: "n \<noteq> 0"
  shows "\<exists>s'. prvAddCurrentTaskToDelayedList n b (s\<lparr>lists := vListInsertEnd (lists s) l (xEventListItem c)\<rparr>) = Some s' \<and>
    kernel_inv T D s' \<and> frame {c} s s' \<and> uxSchedulerSuspended s' = uxSchedulerSuspended s \<and>
    pxContainer (lists s') = (pxContainer (lists s))(xEventListItem c := Some l, xStateListItem c := Some (delayed_to s n b))"
proof -
  have cT: "c \<in> T" using k c by (auto simp: kernel_inv_def)
  let ?s = "s\<lparr>lists := vListInsertEnd (lists s) l (xEventListItem c)\<rparr>"
  have k1: "kinv T D {} ?s"
    by (rule kinv_put_event_end [OF inv_kinv [OF k] cT e]) (use r l in \<open>auto simp: is_ready_def\<close>)
  have r1: "is_ready ?s c" using r by (simp add: is_ready_def)
  obtain s1 where s1: "prvAddCurrentTaskToDelayedList n b ?s = Some s1" "kernel_inv T D s1"
    "pxContainer (lists s1) = (pxContainer (lists ?s))(xStateListItem c := Some (delayed_to ?s n b))"
    "uxSchedulerSuspended s1 = uxSchedulerSuspended ?s" "frame {c} ?s s1"
    by (rule delay_current [OF inv_step [OF k1], of c n b]) (use c r1 n in auto)
  have "frame {} s ?s" by (rule frame_same) (simp_all add: is_ready_def)
  then have "frame {c} s s1" by (rule frame_trans [OF _ s1(5)]) simp
  then show ?thesis using s1 by (simp add: delayed_to_def)
qed

lemma place_on_unordered_event_list:
  assumes k: "kernel_inv T D s" and c: "pxCurrentTCB s = Some c" and r: "is_ready s c"
    and e: "pxContainer (lists s) (xEventListItem c) = None" and l: "36 < l" "l \<in> D" and n: "n \<noteq> 0"
  shows "\<exists>s'. vTaskPlaceOnUnorderedEventList l v n s = Some s' \<and> kernel_inv T D s' \<and> frame {c} s s' \<and>
    uxSchedulerSuspended s' = uxSchedulerSuspended s \<and>
    pxContainer (lists s') = (pxContainer (lists s))(xEventListItem c := Some l, xStateListItem c := Some (delayed_to s n True))"
proof -
  define s0 where "s0 = set_item_value (xEventListItem c) (v OR taskEVENT_LIST_ITEM_VALUE_IN_USE) s"
  have k0: "kernel_inv T D s0" unfolding s0_def by (rule inv_step [OF kinv_event_value [OF inv_kinv [OF k]]])
  have f0: "pxCurrentTCB s0 = Some c" "is_ready s0 c" "pxContainer (lists s0) = pxContainer (lists s)"
    "uxSchedulerSuspended s0 = uxSchedulerSuspended s" "frame {} s s0" "delayed_to s0 n True = delayed_to s n True"
    using c r by (auto simp: s0_def is_ready_def set_item_value_def delayed_to_def intro!: frame_same)
  obtain s' where s': "prvAddCurrentTaskToDelayedList n True (s0\<lparr>lists := vListInsertEnd (lists s0) l (xEventListItem c)\<rparr>) = Some s'"
    "kernel_inv T D s'" "frame {c} s0 s'" "uxSchedulerSuspended s' = uxSchedulerSuspended s0"
    "pxContainer (lists s') = (pxContainer (lists s0))(xEventListItem c := Some l, xStateListItem c := Some (delayed_to s0 n True))"
    using place_at_end [OF k0 f0(1,2) _ l n, of True] e f0(3) by auto
  moreover have "frame {c} s s'" by (rule frame_trans [OF f0(5) s'(3)]) simp
  ultimately show ?thesis using c f0 by (simp add: vTaskPlaceOnUnorderedEventList_def s0_def)
qed

lemma place_on_event_list_restricted:
  assumes k: "kernel_inv T D s" and c: "pxCurrentTCB s = Some c" and r: "is_ready s c"
    and e: "pxContainer (lists s) (xEventListItem c) = None" and l: "36 < l" "l \<in> D" and n: "n \<noteq> 0 \<or> b"
  shows "\<exists>s'. vTaskPlaceOnEventListRestricted l n b s = Some s' \<and> kernel_inv T D s' \<and> frame {c} s s' \<and>
    uxSchedulerSuspended s' = uxSchedulerSuspended s"
proof -
  let ?n = "if b then portMAX_DELAY else n"
  have "?n \<noteq> 0" using n by (cases b) (simp_all add: portMAX_DELAY_def)
  from place_at_end [OF k c r e l this, of b] show ?thesis
    using c by (auto simp: vTaskPlaceOnEventListRestricted_def)
qed

subsection \<open>Leaving an event list\<close>

text \<open>
  The statements shared by the ways a waiting task is released: into the ready list, or into the
  pending list while the scheduler is suspended.
\<close>

lemma release:
  assumes k: "kernel_inv T D s" and t: "t \<in> T" "alive s t" "pxContainer (lists s) (xEventListItem t) = None"
  shows "\<exists>s'. (if uxSchedulerSuspended s = 0 then do {
              (_, s) \<leftarrow> kListRemove (xStateListItem t) s;
              prvAddTaskToReadyList t s }
            else Some (s\<lparr>lists := vListInsertEnd (lists s) xPendingReadyList (xEventListItem t)\<rparr>)) = Some s' \<and>
    kernel_inv T D s' \<and> frame {} s s' \<and> uxSchedulerSuspended s' = uxSchedulerSuspended s \<and> tcb s' = tcb s \<and>
    (if uxSchedulerSuspended s = 0 then is_ready s' t \<and> pxContainer (lists s') (xEventListItem t) = None
     else pxContainer (lists s') (xEventListItem t) = Some xPendingReadyList) \<and>
    (\<forall>u. u \<noteq> t \<longrightarrow> pxContainer (lists s') (xEventListItem u) = pxContainer (lists s) (xEventListItem u))"
proof (cases "uxSchedulerSuspended s = 0")
  case True
  obtain n ls1 s' where r: "kListRemove (xStateListItem t) s = Some (n, s\<lparr>lists := ls1\<rparr>)"
    "prvAddTaskToReadyList t (s\<lparr>lists := ls1\<rparr>) = Some s'" "kernel_inv T D s'" "is_ready s' t"
    "tcb s' = tcb s" "uxSchedulerSuspended s' = uxSchedulerSuspended s" "frame {} s s'"
    "pxContainer (lists s') = (pxContainer (lists s))(xStateListItem t := Some (unat (uxPriority (tcb s t))))"
    by (rule make_ready_inv [OF k t(1,2)]) blast
  then show ?thesis using True t(3) by simp
next
  case False
  let ?s = "s\<lparr>lists := vListInsertEnd (lists s) xPendingReadyList (xEventListItem t)\<rparr>"
  have "kinv T D {} ?s"
    by (rule kinv_put_event_end [OF inv_kinv [OF k] t(1,3)])
      (use t(2) kernel_dom [OF kinvD(1) [OF inv_kinv [OF k]]] in \<open>auto simp: alive_def\<close>)
  moreover have "frame {} s ?s" by (rule frame_same) (auto simp: is_ready_def)
  ultimately show ?thesis using False by (simp add: kinv_empty)
qed

lemma remove_from_event_list:
  assumes k: "kernel_inv T D s" and l: "36 < l" "l \<in> D" and ne: "members (lists s) l \<noteq> []"
  shows "\<exists>b s' t. xTaskRemoveFromEventList l s = Some (b, s') \<and> kernel_inv T D s' \<and> frame {} s s' \<and>
    uxSchedulerSuspended s' = uxSchedulerSuspended s \<and> hd (members (lists s) l) = xEventListItem t \<and> t \<in> T \<and>
    (if uxSchedulerSuspended s = 0 then is_ready s' t \<and> pxContainer (lists s') (xEventListItem t) = None
     else pxContainer (lists s') (xEventListItem t) = Some xPendingReadyList) \<and>
    (\<forall>c. pxCurrentTCB s = Some c \<longrightarrow> b = (uxPriority (tcb s t) > uxPriority (tcb s c))) \<and> (b \<longrightarrow> xYieldPending s') \<and>
    tcb s' = tcb s \<and> (\<forall>u. u \<noteq> t \<longrightarrow> pxContainer (lists s') (xEventListItem u) = pxContainer (lists s) (xEventListItem u))"
proof -
  obtain t where t: "listGET_OWNER_OF_HEAD_ENTRY (lists s) l = t" "t \<in> T"
    "pxContainer (lists s) (xEventListItem t) = Some l" "pxContainer (lists s) (xStateListItem t) \<noteq> Some 35"
    "hd (members (lists s) l) = xEventListItem t"
    by (rule event_head [OF inv_kinv [OF k] disjI2 [OF l(1)] l(2) ne]) blast
  obtain n ls where e: "kListRemove (xEventListItem t) s = Some (n, s\<lparr>lists := ls\<rparr>)" "kinv T D {} (s\<lparr>lists := ls\<rparr>)"
    "pxContainer ls = (pxContainer (lists s))(xEventListItem t := None)"
    by (rule kinv_take_event [OF inv_kinv [OF k] t(3)]) blast
  let ?s = "s\<lparr>lists := ls\<rparr>"
  have a: "alive ?s t" "pxContainer (lists ?s) (xEventListItem t) = None" using t(4) e(3) by (simp_all add: alive_def)
  obtain s1 where s1: "(if uxSchedulerSuspended ?s = 0 then do {
              (_, s) \<leftarrow> kListRemove (xStateListItem t) ?s;
              prvAddTaskToReadyList t s }
            else Some (?s\<lparr>lists := vListInsertEnd (lists ?s) xPendingReadyList (xEventListItem t)\<rparr>)) = Some s1"
    "kernel_inv T D s1" "frame {} ?s s1" "uxSchedulerSuspended s1 = uxSchedulerSuspended ?s" "tcb s1 = tcb ?s"
    "if uxSchedulerSuspended ?s = 0 then is_ready s1 t \<and> pxContainer (lists s1) (xEventListItem t) = None else pxContainer (lists s1) (xEventListItem t) = Some xPendingReadyList"
    "\<forall>u. u \<noteq> t \<longrightarrow> pxContainer (lists s1) (xEventListItem u) = pxContainer (lists ?s) (xEventListItem u)"
    using release [OF inv_step [OF e(2)] t(2) a] by blast
  obtain c where c: "pxCurrentTCB s = Some c" by (rule current_task [OF k])
  have c1: "pxCurrentTCB s1 = Some c" using s1(3) c by (simp add: frame_def)
  define b where "b = (uxPriority (tcb s t) > uxPriority (tcb s c))"
  have run: "xTaskRemoveFromEventList l s = Some (if b then (True, s1\<lparr>xYieldPending := True\<rparr>) else (False, s1))"
    unfolding xTaskRemoveFromEventList_def Let_def t(1) e(1)
    by (simp only: Option.bind.simps prod.case s1(1)) (simp add: c1 s1(5) b_def)
  have "frame {} s ?s" by (rule frame_same) (simp_all add: is_ready_def e(3))
  then have fr: "frame {} s s1" by (rule frame_trans [OF _ s1(3)]) simp
  moreover have "frame {} s (s1\<lparr>xYieldPending := True\<rparr>)"
    by (rule frame_trans [OF fr, of "{}"]) (auto simp: is_ready_def intro!: frame_same)
  ultimately show ?thesis
    using run yield_pending_inv [OF s1(2), of True] s1(2,4-7) t(2,5) c b_def e(3)
    by (cases b) (auto simp: is_ready_def)
qed

lemma remove_from_unordered_event_list:
  assumes k: "kernel_inv T D s" and t: "pxContainer (lists s) (xEventListItem t) = Some l"
  shows "\<exists>s'. vTaskRemoveFromUnorderedEventList (xEventListItem t) v s = Some s' \<and> kernel_inv T D s' \<and> frame {} s s' \<and>
    uxSchedulerSuspended s' = uxSchedulerSuspended s \<and> is_ready s' t"
proof -
  define s0 where "s0 = set_item_value (xEventListItem t) (v OR taskEVENT_LIST_ITEM_VALUE_IN_USE) s"
  have k0: "kinv T D {} s0" unfolding s0_def by (rule kinv_event_value [OF inv_kinv [OF k]])
  note ev = kernel_eventD [OF kinvD(1) [OF inv_kinv [OF k]] t]
  have f0: "pxContainer (lists s0) = pxContainer (lists s)" "uxSchedulerSuspended s0 = uxSchedulerSuspended s"
    "frame {} s s0" "pxCurrentTCB s0 = pxCurrentTCB s" "pvOwner (lists s0) (xEventListItem t) = t"
    using kernel_task(5) [OF kinvD(1) [OF inv_kinv [OF k]] ev(1)]
    by (auto simp: s0_def is_ready_def set_item_value_def intro!: frame_same)
  obtain n ls where e: "kListRemove (xEventListItem t) s0 = Some (n, s0\<lparr>lists := ls\<rparr>)" "kinv T D {} (s0\<lparr>lists := ls\<rparr>)"
    "pxContainer ls = (pxContainer (lists s0))(xEventListItem t := None)"
    by (rule kinv_take_event [OF k0, of t l]) (use t f0(1) in auto)
  have a: "alive (s0\<lparr>lists := ls\<rparr>) t" using ev(3) f0(1) e(3) by (simp add: alive_def)
  obtain m ls1 s1 where r: "kListRemove (xStateListItem t) (s0\<lparr>lists := ls\<rparr>) = Some (m, s0\<lparr>lists := ls\<rparr>\<lparr>lists := ls1\<rparr>)"
    "prvAddTaskToReadyList t (s0\<lparr>lists := ls\<rparr>\<lparr>lists := ls1\<rparr>) = Some s1" "kernel_inv T D s1" "is_ready s1 t"
    "pxCurrentTCB s1 = pxCurrentTCB (s0\<lparr>lists := ls\<rparr>)"
    "uxSchedulerSuspended s1 = uxSchedulerSuspended (s0\<lparr>lists := ls\<rparr>)" "frame {} (s0\<lparr>lists := ls\<rparr>) s1"
    by (rule make_ready_inv [OF inv_step [OF e(2)] ev(1) a]) blast
  obtain c where c: "pxCurrentTCB s1 = Some c" by (rule current_task [OF r(3)])
  define b where "b = (uxPriority (tcb s1 t) > uxPriority (tcb s1 c))"
  have run: "vTaskRemoveFromUnorderedEventList (xEventListItem t) v s = Some (if b then s1\<lparr>xYieldPending := True\<rparr> else s1)"
    unfolding vTaskRemoveFromUnorderedEventList_def Let_def s0_def [symmetric] f0(5) e(1)
    by (simp only: Option.bind.simps prod.case r(1,2) c b_def)
  have "frame {} s0 (s0\<lparr>lists := ls\<rparr>)" by (rule frame_same) (simp_all add: is_ready_def e(3))
  then have "frame {} s (s0\<lparr>lists := ls\<rparr>)" by (rule frame_trans [OF f0(3)]) simp
  then have fr: "frame {} s s1" by (rule frame_trans [OF _ r(7)]) simp
  moreover have "frame {} s (s1\<lparr>xYieldPending := True\<rparr>)"
    by (rule frame_trans [OF fr, of "{}"]) (auto simp: is_ready_def intro!: frame_same)
  ultimately show ?thesis
    using run yield_pending_inv [OF r(3), of True] r(3,4,6) f0(2) by (cases b) (auto simp: is_ready_def)
qed

subsection \<open>Notifications\<close>

text \<open>The notification fields are outside the invariant.\<close>

definition notify_update :: "nat \<Rightarrow> kernel \<Rightarrow> kernel \<Rightarrow> bool" where
  "notify_update t s s' \<longleftrightarrow> (\<exists>f. s' = set_tcb t f s \<and> (\<forall>c. uxPriority (f c) = uxPriority c \<and> uxBasePriority (f c) = uxBasePriority c))"

lemma set_notify:
  "set_notify_state t i st s = Some s' \<Longrightarrow> notify_update t s s'"
  "set_notify_value t i v s = Some s' \<Longrightarrow> notify_update t s s'"
proof -
  assume "set_notify_state t i st s = Some s'"
  then obtain vs where "s' = set_tcb t (\<lambda>c. c\<lparr>ucNotifyState := vs\<rparr>) s"
    by (auto simp: set_notify_state_def bind_eq_Some_conv)
  then show "notify_update t s s'" unfolding notify_update_def
    by (intro exI [of _ "\<lambda>c. c\<lparr>ucNotifyState := vs\<rparr>"]) simp
next
  assume "set_notify_value t i v s = Some s'"
  then obtain vs where "s' = set_tcb t (\<lambda>c. c\<lparr>ulNotifiedValue := vs\<rparr>) s"
    by (auto simp: set_notify_value_def bind_eq_Some_conv)
  then show "notify_update t s s'" unfolding notify_update_def
    by (intro exI [of _ "\<lambda>c. c\<lparr>ulNotifiedValue := vs\<rparr>"]) simp
qed

lemma notify_update:
  assumes "notify_update t s s'"
  shows "kernel_inv T D s \<Longrightarrow> kernel_inv T D s'" "frame {} s s'" "lists s' = lists s" "pxCurrentTCB s' = pxCurrentTCB s"
    "uxSchedulerSuspended s' = uxSchedulerSuspended s" "is_ready s' u = is_ready s u" "alive s' u = alive s u"
    "msip_reg s' = msip_reg s"
proof -
  obtain f where f: "s' = set_tcb t f s" "\<And>c. uxPriority (f c) = uxPriority c \<and> uxBasePriority (f c) = uxBasePriority c"
    using assms by (auto simp: notify_update_def)
  show "kernel_inv T D s'" if k: "kernel_inv T D s"
    unfolding f(1) by (rule inv_step [OF kinv_tcb_other [OF inv_kinv [OF k]]]) (simp_all add: f(2))
  show "frame {} s s'" by (rule frame_same) (simp_all add: f(1) is_ready_def)
  show "lists s' = lists s" "pxCurrentTCB s' = pxCurrentTCB s" "uxSchedulerSuspended s' = uxSchedulerSuspended s"
    "is_ready s' u = is_ready s u" "alive s' u = alive s u" "msip_reg s' = msip_reg s"
    by (simp_all add: f(1) is_ready_def alive_def)
qed

text \<open>What a call that may block the running task leaves behind.\<close>

definition blocked :: "nat \<Rightarrow> kernel \<Rightarrow> kernel \<Rightarrow> bool" where
  "blocked c s s' \<longleftrightarrow> frame {c} s s' \<and> uxSchedulerSuspended s' = uxSchedulerSuspended s \<and>
     (is_ready s' c \<or> (msip_reg s \<noteq> None \<longrightarrow> msip_reg s' = Some 1))"

lemma blocked_ready: "frame {} s s' \<Longrightarrow> uxSchedulerSuspended s' = uxSchedulerSuspended s \<Longrightarrow> is_ready s c \<Longrightarrow> blocked c s s'"
  by (auto simp: blocked_def frame_def)

lemma block_and_yield:
  assumes k: "kernel_inv T D s" and c: "pxCurrentTCB s = Some c" and r: "is_ready s c" and n: "n \<noteq> 0"
  shows "\<exists>s'. prvAddCurrentTaskToDelayedList n True s = Some s' \<and> kernel_inv T D (portYIELD s') \<and> blocked c s (portYIELD s')"
proof -
  obtain s1 where s1: "prvAddCurrentTaskToDelayedList n True s = Some s1" "kernel_inv T D s1" "frame {c} s s1"
    "uxSchedulerSuspended s1 = uxSchedulerSuspended s" "msip_reg s1 = msip_reg s"
    by (rule delay_current [OF k c r n, of True]) blast
  then show ?thesis using yield_inv [OF s1(2)] frame_yielded [OF s1(3), of True] by (auto simp: blocked_def)
qed

lemma notify_take_enter:
  assumes k: "kernel_inv T D s" and c: "pxCurrentTCB s = Some c" and r: "is_ready s c"
    and i: "i < length (ulNotifiedValue (tcb s c))" "i < length (ucNotifyState (tcb s c))"
  shows "\<exists>s'. ulTaskGenericNotifyTake_enter i n s = Some s' \<and> kernel_inv T D s' \<and> blocked c s s'"
proof -
  obtain v where v: "notify_value c i s = Some v" using i(1) by (simp add: notify_value_def get_at_def)
  obtain s1 where s1: "set_notify_state c i taskWAITING_NOTIFICATION s = Some s1"
    using i(2) by (simp add: set_notify_state_def set_at_def)
  note u = notify_update [OF set_notify(1) [OF s1]]
  have k1: "kernel_inv T D s1" and c1: "pxCurrentTCB s1 = Some c" and r1: "is_ready s1 c" using u(1,4,6) k c r by simp_all
  show ?thesis
  proof (cases "v = 0 \<and> n > 0")
    case True
    then obtain s2 where s2: "prvAddCurrentTaskToDelayedList n True s1 = Some s2" "kernel_inv T D (portYIELD s2)"
      "blocked c s1 (portYIELD s2)" using block_and_yield [OF k1 c1 r1, of n] by auto
    moreover have "blocked c s (portYIELD s2)"
      using s2(3) u(5,8) frame_trans [OF u(2), of "{c}" _ "{c}"] by (simp add: blocked_def)
    ultimately show ?thesis using True c v s1 by (simp add: ulTaskGenericNotifyTake_enter_def)
  next
    case False
    then have "ulTaskGenericNotifyTake_enter i n s = Some (if v = 0 then s1 else s)"
      using c v s1 by (auto simp: ulTaskGenericNotifyTake_enter_def)
    then show ?thesis using k k1 blocked_ready [OF u(2,5) r] blocked_ready [OF _ _ r, of s] by (cases "v = 0") simp_all
  qed
qed

lemma notify_wait_enter:
  assumes k: "kernel_inv T D s" and c: "pxCurrentTCB s = Some c" and r: "is_ready s c"
    and i: "i < length (ulNotifiedValue (tcb s c))" "i < length (ucNotifyState (tcb s c))"
  shows "\<exists>s'. xTaskGenericNotifyWait_enter i b n s = Some s' \<and> kernel_inv T D s' \<and> blocked c s s'"
proof -
  obtain v st where v: "notify_value c i s = Some v" "notify_state c i s = Some st"
    using i by (simp add: notify_value_def notify_state_def get_at_def)
  obtain s0 where s0: "set_notify_value c i (v AND NOT b) s = Some s0" "ucNotifyState (tcb s0 c) = ucNotifyState (tcb s c)"
    using i(1) by (simp add: set_notify_value_def set_at_def)
  obtain s1 where s1: "set_notify_state c i taskWAITING_NOTIFICATION s0 = Some s1"
    using i(2) s0(2) by (simp add: set_notify_state_def set_at_def)
  note u0 = notify_update [OF set_notify(2) [OF s0(1)]] and u = notify_update [OF set_notify(1) [OF s1]]
  have k1: "kernel_inv T D s1" and c1: "pxCurrentTCB s1 = Some c" and r1: "is_ready s1 c"
    and f1: "frame {} s s1" "uxSchedulerSuspended s1 = uxSchedulerSuspended s" "msip_reg s1 = msip_reg s"
    using u(1,4,5,6,8) u0(1,4,5,6,8) k c r frame_trans [OF u0(2) u(2), of "{}"] by simp_all
  show ?thesis
  proof (cases "st \<noteq> taskNOTIFICATION_RECEIVED \<and> n > 0")
    case True
    then obtain s2 where s2: "prvAddCurrentTaskToDelayedList n True s1 = Some s2" "kernel_inv T D (portYIELD s2)"
      "blocked c s1 (portYIELD s2)" using block_and_yield [OF k1 c1 r1, of n] by auto
    moreover have "blocked c s (portYIELD s2)"
      using s2(3) f1(2,3) frame_trans [OF f1(1), of "{c}" _ "{c}"] by (simp add: blocked_def)
    ultimately show ?thesis using True c v s0 s1 by (simp add: xTaskGenericNotifyWait_enter_def)
  next
    case False
    then have "xTaskGenericNotifyWait_enter i b n s = Some (if st \<noteq> taskNOTIFICATION_RECEIVED then s1 else s)"
      using c v s0 s1 by (auto simp: xTaskGenericNotifyWait_enter_def)
    then show ?thesis using k k1 blocked_ready [OF f1(1,2) r] blocked_ready [OF _ _ r, of s]
      by (cases "st \<noteq> taskNOTIFICATION_RECEIVED") simp_all
  qed
qed

lemma notify_take_leave:
  assumes k: "kernel_inv T D s" and c: "pxCurrentTCB s = Some c"
    and i: "i < length (ulNotifiedValue (tcb s c))" "i < length (ucNotifyState (tcb s c))"
  shows "\<exists>v s'. ulTaskGenericNotifyTake_leave i b s = Some (v, s') \<and> kernel_inv T D s' \<and> frame {} s s' \<and>
    uxSchedulerSuspended s' = uxSchedulerSuspended s"
proof -
  obtain v where v: "notify_value c i s = Some v" using i(1) by (simp add: notify_value_def get_at_def)
  let ?w = "if b then 0 else v - 1"
  obtain s0 where s0: "set_notify_value c i ?w s = Some s0" "ucNotifyState (tcb s0 c) = ucNotifyState (tcb s c)"
    using i(1) by (simp add: set_notify_value_def set_at_def)
  define s1 where "s1 = (if v \<noteq> 0 then s0 else s)"
  have len: "ucNotifyState (tcb s1 c) = ucNotifyState (tcb s c)" by (simp add: s1_def s0(2))
  obtain s2 where s2: "set_notify_state c i taskNOT_WAITING_NOTIFICATION s1 = Some s2"
    using i(2) len by (auto simp: set_notify_state_def set_at_def)
  note u0 = notify_update [OF set_notify(2) [OF s0(1)]] and u = notify_update [OF set_notify(1) [OF s2]]
  have "ulTaskGenericNotifyTake_leave i b s = Some (v, s2)"
    using c v s0(1) s2 by (simp add: ulTaskGenericNotifyTake_leave_def s1_def split: if_splits)
  moreover have "frame {} s s1" using u0(2) by (simp add: s1_def)
  then have "frame {} s s2" using frame_trans [OF _ u(2), of "{}" s "{}"] by simp
  moreover have "kernel_inv T D s2" "uxSchedulerSuspended s2 = uxSchedulerSuspended s"
    using u(1,5) u0(1,5) k by (simp_all add: s1_def split: if_splits)
  ultimately show ?thesis by blast
qed

lemma notify_wait_leave:
  assumes k: "kernel_inv T D s" and c: "pxCurrentTCB s = Some c"
    and i: "i < length (ulNotifiedValue (tcb s c))" "i < length (ucNotifyState (tcb s c))"
  shows "\<exists>r v s'. xTaskGenericNotifyWait_leave i b s = Some (r, v, s') \<and> kernel_inv T D s' \<and> frame {} s s' \<and>
    uxSchedulerSuspended s' = uxSchedulerSuspended s"
proof -
  obtain v st where v: "notify_value c i s = Some v" "notify_state c i s = Some st"
    using i by (simp add: notify_value_def notify_state_def get_at_def)
  obtain s0 where s0: "set_notify_value c i (v AND NOT b) s = Some s0" "ucNotifyState (tcb s0 c) = ucNotifyState (tcb s c)"
    using i(1) by (simp add: set_notify_value_def set_at_def)
  define s1 where "s1 = (if st \<noteq> taskNOTIFICATION_RECEIVED then s else s0)"
  have len: "ucNotifyState (tcb s1 c) = ucNotifyState (tcb s c)" by (simp add: s1_def s0(2))
  obtain s2 where s2: "set_notify_state c i taskNOT_WAITING_NOTIFICATION s1 = Some s2"
    using i(2) len by (auto simp: set_notify_state_def set_at_def)
  note u0 = notify_update [OF set_notify(2) [OF s0(1)]] and u = notify_update [OF set_notify(1) [OF s2]]
  have "xTaskGenericNotifyWait_leave i b s = Some (st = taskNOTIFICATION_RECEIVED, v, s2)"
    using c v s0(1) s2 by (cases "st = taskNOTIFICATION_RECEIVED") (simp_all add: xTaskGenericNotifyWait_leave_def s1_def)
  moreover have "frame {} s s1" using u0(2) by (simp add: s1_def)
  then have "frame {} s s2" using frame_trans [OF _ u(2), of "{}" s "{}"] by simp
  moreover have "kernel_inv T D s2" "uxSchedulerSuspended s2 = uxSchedulerSuspended s"
    using u(1,5) u0(1,5) k by (simp_all add: s1_def split: if_splits)
  ultimately show ?thesis by blast
qed

text \<open>The sending side: the two writes of a notification, then the release of the waiting task.\<close>

lemma notify_writes:
  assumes i: "i < length (ulNotifiedValue (tcb s t))" "i < length (ucNotifyState (tcb s t))"
  obtains v st s1 where "notify_value t i s = Some v" "notify_state t i s = Some st"
    "set_notify_state t i w s = Some s1" "notify_value t i s1 = Some v" "\<And>x. \<exists>s2. set_notify_value t i x s1 = Some s2"
  using i that by (simp add: notify_value_def notify_state_def set_notify_state_def set_notify_value_def get_at_def set_at_def)

lemma notify_twice:
  assumes "set_notify_state t i w s = Some s1" "set_notify_value t i x s1 = Some s2"
  shows "kernel_inv T D s \<Longrightarrow> kernel_inv T D s2" "frame {} s s2" "lists s2 = lists s" "pxCurrentTCB s2 = pxCurrentTCB s"
    "uxSchedulerSuspended s2 = uxSchedulerSuspended s" "alive s2 u = alive s u" "msip_reg s2 = msip_reg s"
proof -
  note a = notify_update [OF set_notify(1) [OF assms(1)]] and b = notify_update [OF set_notify(2) [OF assms(2)]]
  show "kernel_inv T D s \<Longrightarrow> kernel_inv T D s2" "frame {} s s2" "lists s2 = lists s" "pxCurrentTCB s2 = pxCurrentTCB s"
    "uxSchedulerSuspended s2 = uxSchedulerSuspended s" "alive s2 u = alive s u" "msip_reg s2 = msip_reg s"
    using a(1,3,4,5,7,8) b(1,3,4,5,7,8) frame_trans [OF a(2) b(2), of "{}"] by simp_all
qed

lemma task_notify:
  assumes k: "kernel_inv T D s" and t: "t \<in> T" "alive s t"
    and i: "i < length (ulNotifiedValue (tcb s t))" "i < length (ucNotifyState (tcb s t))"
  shows "\<exists>r p s'. xTaskGenericNotify t i x a s = Some (r, p, s') \<and> kernel_inv T D s' \<and> frame {} s s' \<and>
    uxSchedulerSuspended s' = uxSchedulerSuspended s \<and>
    (notify_state t i s = Some taskWAITING_NOTIFICATION \<longrightarrow> is_ready s' t)"
proof -
  obtain v st s1 where n: "notify_value t i s = Some v" "notify_state t i s = Some st"
    "set_notify_state t i taskNOTIFICATION_RECEIVED s = Some s1" "\<And>x. \<exists>s2. set_notify_value t i x s1 = Some s2"
    by (rule notify_writes [OF i, of taskNOTIFICATION_RECEIVED]) blast
  obtain w r where wr: "notify_action a st v x = (w, r)" by fastforce
  obtain s2 where s2: "set_notify_value t i w s1 = Some s2" using n(4) by blast
  note f = notify_twice [OF n(3) s2]
  show ?thesis
  proof (cases "st = taskWAITING_NOTIFICATION")
    case False
    then have "xTaskGenericNotify t i x a s = Some (r, v, s2)" using n wr s2 by (simp add: xTaskGenericNotify_def)
    then show ?thesis using f(1,2,5) k False n(2) by simp
  next
    case True
    have a2: "alive s2 t" using f(6) t(2) by simp
    obtain m ls1 s3 where s3: "kListRemove (xStateListItem t) s2 = Some (m, s2\<lparr>lists := ls1\<rparr>)"
      "prvAddTaskToReadyList t (s2\<lparr>lists := ls1\<rparr>) = Some s3" "kernel_inv T D s3" "is_ready s3 t"
      "pxCurrentTCB s3 = pxCurrentTCB s2" "uxSchedulerSuspended s3 = uxSchedulerSuspended s2" "frame {} s2 s3"
      by (rule make_ready_inv [OF f(1) [OF k] t(1) a2]) blast
    obtain c where c: "pxCurrentTCB s3 = Some c" by (rule current_task [OF s3(3)])
    define y where "y = (uxPriority (tcb s3 t) > uxPriority (tcb s3 c))"
    have "xTaskGenericNotify t i x a s = Some (r, v, if y then portYIELD s3 else s3)"
      using n wr s2 s3(1,2) c True by (simp add: xTaskGenericNotify_def y_def)
    moreover have fr: "frame {} s s3" by (rule frame_trans [OF f(2) s3(7)]) simp
    ultimately show ?thesis
      using s3(3,4,6) f(5) yield_inv [OF s3(3)] frame_yielded [OF fr, of True] by (cases y) (simp_all add: is_ready_def)
  qed
qed

lemma wake_from_isr:
  assumes k: "kernel_inv T D s" and t: "t \<in> T" "alive s t" "pxContainer (lists s) (xEventListItem t) = None"
  shows "\<exists>b s'. notify_wake_from_isr t s = Some (b, s') \<and> kernel_inv T D s' \<and> frame {} s s' \<and>
    uxSchedulerSuspended s' = uxSchedulerSuspended s"
proof -
  obtain s1 where s1: "(if uxSchedulerSuspended s = 0 then do {
              (_, s) \<leftarrow> kListRemove (xStateListItem t) s;
              prvAddTaskToReadyList t s }
            else Some (s\<lparr>lists := vListInsertEnd (lists s) xPendingReadyList (xEventListItem t)\<rparr>)) = Some s1"
    "kernel_inv T D s1" "frame {} s s1" "uxSchedulerSuspended s1 = uxSchedulerSuspended s"
    using release [OF k t] by blast
  obtain c where c: "pxCurrentTCB s1 = Some c" by (rule current_task [OF s1(2)])
  define b where "b = (uxPriority (tcb s1 t) > uxPriority (tcb s1 c))"
  have run: "notify_wake_from_isr t s = Some (if b then (True, s1\<lparr>xYieldPending := True\<rparr>) else (False, s1))"
    unfolding notify_wake_from_isr_def by (simp only: s1(1) Option.bind.simps c b_def)
  have "frame {} s (s1\<lparr>xYieldPending := True\<rparr>)"
    by (rule frame_trans [OF s1(3), of "{}"]) (auto simp: is_ready_def intro!: frame_same)
  then show ?thesis using run s1 yield_pending_inv [OF s1(2), of True] by (cases b) auto
qed

lemma notify_from_isr:
  assumes k: "kernel_inv T D s" and t: "t \<in> T"
    and w: "notify_state t i s = Some taskWAITING_NOTIFICATION \<Longrightarrow> alive s t \<and> pxContainer (lists s) (xEventListItem t) = None"
    and i: "i < length (ulNotifiedValue (tcb s t))" "i < length (ucNotifyState (tcb s t))"
  shows "\<exists>r p b s'. xTaskGenericNotifyFromISR t i x a s = Some (r, p, b, s') \<and> kernel_inv T D s' \<and> frame {} s s' \<and>
    uxSchedulerSuspended s' = uxSchedulerSuspended s"
proof -
  obtain v st s1 where n: "notify_value t i s = Some v" "notify_state t i s = Some st"
    "set_notify_state t i taskNOTIFICATION_RECEIVED s = Some s1" "\<And>x. \<exists>s2. set_notify_value t i x s1 = Some s2"
    by (rule notify_writes [OF i, of taskNOTIFICATION_RECEIVED]) blast
  obtain w r where wr: "notify_action a st v x = (w, r)" by fastforce
  obtain s2 where s2: "set_notify_value t i w s1 = Some s2" using n(4) by blast
  note f = notify_twice [OF n(3) s2]
  show ?thesis
  proof (cases "st = taskWAITING_NOTIFICATION")
    case True
    have a2: "alive s2 t" "pxContainer (lists s2) (xEventListItem t) = None" using f(3,6) w n by (simp_all add: True)
    obtain b s3 where s3: "notify_wake_from_isr t s2 = Some (b, s3)" "kernel_inv T D s3" "frame {} s2 s3"
      "uxSchedulerSuspended s3 = uxSchedulerSuspended s2"
      using wake_from_isr [OF f(1) [OF k] t a2] by blast
    have "frame {} s s3" by (rule frame_trans [OF f(2) s3(3)]) simp
    moreover have "xTaskGenericNotifyFromISR t i x a s = Some (r, v, b, s3)" using n wr s2 s3(1) True by (simp add: xTaskGenericNotifyFromISR_def)
    ultimately show ?thesis using f(5) s3(2,4) by auto
  next
    case False
    then have "xTaskGenericNotifyFromISR t i x a s = Some (r, v, False, s2)" using n wr s2 by (simp add: xTaskGenericNotifyFromISR_def)
    then show ?thesis using f(1,2,5) k by auto
  qed
qed

lemma notify_give_from_isr:
  assumes k: "kernel_inv T D s" and t: "t \<in> T"
    and w: "notify_state t i s = Some taskWAITING_NOTIFICATION \<Longrightarrow> alive s t \<and> pxContainer (lists s) (xEventListItem t) = None"
    and i: "i < length (ulNotifiedValue (tcb s t))" "i < length (ucNotifyState (tcb s t))"
  shows "\<exists>b s'. vTaskGenericNotifyGiveFromISR t i s = Some (b, s') \<and> kernel_inv T D s' \<and> frame {} s s' \<and>
    uxSchedulerSuspended s' = uxSchedulerSuspended s"
proof -
  obtain v st s1 where n: "notify_state t i s = Some st" "set_notify_state t i taskNOTIFICATION_RECEIVED s = Some s1"
    "notify_value t i s1 = Some v" "\<And>x. \<exists>s2. set_notify_value t i x s1 = Some s2"
    by (rule notify_writes [OF i, of taskNOTIFICATION_RECEIVED]) blast
  obtain s2 where s2: "set_notify_value t i (v + 1) s1 = Some s2" using n(4) by blast
  note f = notify_twice [OF n(2) s2]
  show ?thesis
  proof (cases "st = taskWAITING_NOTIFICATION")
    case True
    have a2: "alive s2 t" "pxContainer (lists s2) (xEventListItem t) = None" using f(3,6) w n by (simp_all add: True)
    obtain b s3 where s3: "notify_wake_from_isr t s2 = Some (b, s3)" "kernel_inv T D s3" "frame {} s2 s3"
      "uxSchedulerSuspended s3 = uxSchedulerSuspended s2"
      using wake_from_isr [OF f(1) [OF k] t a2] by blast
    have "frame {} s s3" by (rule frame_trans [OF f(2) s3(3)]) simp
    moreover have "vTaskGenericNotifyGiveFromISR t i s = Some (b, s3)" using n s2 s3(1) True by (simp add: vTaskGenericNotifyGiveFromISR_def)
    ultimately show ?thesis using f(5) s3(2,4) by auto
  next
    case False
    then have "vTaskGenericNotifyGiveFromISR t i s = Some (False, s2)" using n s2 by (simp add: vTaskGenericNotifyGiveFromISR_def)
    then show ?thesis using f(1,2,5) k by auto
  qed
qed

end
