(* ===== verification/Task_Lifecycle.thy ===== *)
theory Task_Lifecycle
  imports Task_Events
begin

text \<open>
  Creation and deletion of tasks, the clean-up of the idle task, the start of the scheduler and
  the two interrupts.
\<close>

subsection \<open>Deletion\<close>

text \<open>A task that is in no list may leave the set of tasks.\<close>

lemma drop_task:
  assumes ok: "kernel_ok T D {t} s" and t: "t \<in> T" "pxContainer (lists s) (xEventListItem t) = None"
  shows "kernel_ok (T - {t}) D {} s"
proof -
  have "state_place (T - {t}) {} s" using kernel_state_place [OF ok] by (simp add: state_place_def)
  moreover have "event_place (T - {t}) s" using kernel_event_place [OF ok] t(2) by (auto simp: event_place_def)
  ultimately show ?thesis using ok by (simp add: kernel_ok_def task_fields_def)
qed

lemma tasks_finite: "kernel_ok T D H s \<Longrightarrow> finite T"
  by (rule finite_subset [of _ "{..< 2 ^ 62}"]) (auto simp: kernel_ok_def task_fields_def)

lemma delete_tcb_fields [simp]:
  "lists (prvDeleteTCB t s) = lists s" "tcb (prvDeleteTCB t s) = tcb s" "pxCurrentTCB (prvDeleteTCB t s) = pxCurrentTCB s"
  "pxDelayedTaskList (prvDeleteTCB t s) = pxDelayedTaskList s" "uxTopReadyPriority (prvDeleteTCB t s) = uxTopReadyPriority s"
  "pxOverflowDelayedTaskList (prvDeleteTCB t s) = pxOverflowDelayedTaskList s"
  "xTickCount (prvDeleteTCB t s) = xTickCount s" "xNextTaskUnblockTime (prvDeleteTCB t s) = xNextTaskUnblockTime s"
  "uxCurrentNumberOfTasks (prvDeleteTCB t s) = uxCurrentNumberOfTasks s" "msip_reg (prvDeleteTCB t s) = msip_reg s"
  "uxDeletedTasksWaitingCleanUp (prvDeleteTCB t s) = uxDeletedTasksWaitingCleanUp s"
  "xSchedulerRunning (prvDeleteTCB t s) = xSchedulerRunning s" "uxSchedulerSuspended (prvDeleteTCB t s) = uxSchedulerSuspended s"
  by (simp_all add: prvDeleteTCB_def)

lemma reset_unblock_fields [simp]:
  "lists (prvResetNextTaskUnblockTime s) = lists s" "tcb (prvResetNextTaskUnblockTime s) = tcb s"
  "pxCurrentTCB (prvResetNextTaskUnblockTime s) = pxCurrentTCB s" "msip_reg (prvResetNextTaskUnblockTime s) = msip_reg s"
  "xSchedulerRunning (prvResetNextTaskUnblockTime s) = xSchedulerRunning s"
  "uxSchedulerSuspended (prvResetNextTaskUnblockTime s) = uxSchedulerSuspended s"
  by (simp_all add: prvResetNextTaskUnblockTime_def)

text \<open>Out of the state list and the event list: the first statements of \<open>vTaskDelete\<close>.\<close>

lemma delete_unlink:
  assumes k: "kernel_inv T D s" and t: "t \<in> T" "alive s t"
  obtains s2 n ls w ls2 where "kListRemove (xStateListItem t) s = Some (n, s\<lparr>lists := ls\<rparr>)"
    "(if n = 0 then taskRESET_READY_PRIORITY (uxPriority (tcb (s\<lparr>lists := ls\<rparr>) t)) (s\<lparr>lists := ls\<rparr>) else Some (s\<lparr>lists := ls\<rparr>)) =
       Some (s\<lparr>lists := ls, uxTopReadyPriority := w\<rparr>)"
    "leave_event_list t (s\<lparr>lists := ls, uxTopReadyPriority := w\<rparr>) = Some s2" "s2 = s\<lparr>lists := ls2, uxTopReadyPriority := w\<rparr>"
    "kinv T D {t} s2" "pxContainer ls2 = (pxContainer (lists s))(xStateListItem t := None, xEventListItem t := None)"
proof -
  obtain n ls w where r: "kListRemove (xStateListItem t) s = Some (n, s\<lparr>lists := ls\<rparr>)"
    "(if n = 0 then taskRESET_READY_PRIORITY (uxPriority (tcb s t)) (s\<lparr>lists := ls\<rparr>) else Some (s\<lparr>lists := ls\<rparr>)) =
       Some (s\<lparr>lists := ls, uxTopReadyPriority := w\<rparr>)"
    "kinv T D {t} (s\<lparr>lists := ls, uxTopReadyPriority := w\<rparr>)"
    "pxContainer ls = (pxContainer (lists s))(xStateListItem t := None)"
    by (rule take_any_inv [OF k t]) blast
  obtain ls2 where e: "leave_event_list t (s\<lparr>lists := ls, uxTopReadyPriority := w\<rparr>) =
      Some (s\<lparr>lists := ls, uxTopReadyPriority := w\<rparr>\<lparr>lists := ls2\<rparr>)"
    "kinv T D {t} (s\<lparr>lists := ls, uxTopReadyPriority := w\<rparr>\<lparr>lists := ls2\<rparr>)"
    "pxContainer ls2 = (pxContainer (lists (s\<lparr>lists := ls, uxTopReadyPriority := w\<rparr>)))(xEventListItem t := None)"
    by (rule kinv_leave_event [OF r(3), of t]) blast
  have reset: "(if n = 0 then taskRESET_READY_PRIORITY (uxPriority (tcb (s\<lparr>lists := ls\<rparr>) t)) (s\<lparr>lists := ls\<rparr>) else Some (s\<lparr>lists := ls\<rparr>)) =
       Some (s\<lparr>lists := ls, uxTopReadyPriority := w\<rparr>)" using r(2) by (cases "n = 0") simp_all
  show ?thesis by (rule that [OF r(1) reset e(1)]) (use r(4) e(2,3) in simp_all)
qed

lemma task_delete_other:
  assumes k: "kernel_inv T D s" and t: "t \<in> T" "alive s t" "pxCurrentTCB s \<noteq> Some t"
  shows "\<exists>s'. vTaskDelete (Some t) s = Some s' \<and> kernel_inv (T - {t}) D s' \<and> frame {t} s s' \<and>
    uxSchedulerSuspended s' = uxSchedulerSuspended s"
proof -
  obtain s2 n ls w ls2 where r: "kListRemove (xStateListItem t) s = Some (n, s\<lparr>lists := ls\<rparr>)"
    "(if n = 0 then taskRESET_READY_PRIORITY (uxPriority (tcb (s\<lparr>lists := ls\<rparr>) t)) (s\<lparr>lists := ls\<rparr>) else Some (s\<lparr>lists := ls\<rparr>)) =
       Some (s\<lparr>lists := ls, uxTopReadyPriority := w\<rparr>)"
    "leave_event_list t (s\<lparr>lists := ls, uxTopReadyPriority := w\<rparr>) = Some s2" "s2 = s\<lparr>lists := ls2, uxTopReadyPriority := w\<rparr>"
    "kinv T D {t} s2" "pxContainer ls2 = (pxContainer (lists s))(xStateListItem t := None, xEventListItem t := None)"
    by (rule delete_unlink [OF k t(1,2)]) blast
  define s3 where "s3 = prvDeleteTCB t (s2\<lparr>uxTaskNumber := uxTaskNumber s2 + 1\<rparr>\<lparr>uxCurrentNumberOfTasks := uxCurrentNumberOfTasks s2 - 1\<rparr>)"
  obtain c where c: "pxCurrentTCB s = Some c" "c \<in> T" by (rule current_task [OF k])
  have run: "vTaskDelete (Some t) s = Some (prvResetNextTaskUnblockTime s3)"
    unfolding vTaskDelete_def prvGetTCBFromHandle_def using t(3)
    by (simp only: r(1,2,3) Option.bind.simps prod.case option.case Let_def) (simp add: s3_def r(4))
  have f3: "lists s3 = ls2" "pxCurrentTCB s3 = Some c" "uxTopReadyPriority s3 = w" "tcb s3 = tcb s"
    "pxDelayedTaskList s3 = pxDelayedTaskList s" "pxOverflowDelayedTaskList s3 = pxOverflowDelayedTaskList s"
    "xTickCount s3 = xTickCount s" "xNextTaskUnblockTime s3 = xNextTaskUnblockTime s"
    "uxCurrentNumberOfTasks s3 = uxCurrentNumberOfTasks s - 1" "uxDeletedTasksWaitingCleanUp s3 = uxDeletedTasksWaitingCleanUp s"
    "xSchedulerRunning s3 = xSchedulerRunning s" "msip_reg s3 = msip_reg s" "uxSchedulerSuspended s3 = uxSchedulerSuspended s"
    by (simp_all add: s3_def r(4) c(1))
  have "kernel_ok (T - {t}) D {} s2"
    by (rule drop_task [OF kinvD(1) [OF r(5)] t(1)]) (simp add: r(4,6))
  then have "kernel_ok (T - {t}) D {} s3" by (rule kernel_ok_cong) (simp_all add: f3 r(4))
  moreover have "delay_ok s3" by (rule delay_ok_cong [OF kinvD(2) [OF r(5)]]) (simp_all add: f3 r(4))
  moreover have "count_ok (T - {t}) s3"
  proof -
    have fin: "finite T" using tasks_finite [OF kinvD(1) [OF r(5)]] .
    have card: "(of_nat (card (T - {t})) :: u64) = of_nat (card T) - 1"
      unfolding card.remove [OF fin t(1)] by simp
    show ?thesis using kinvD(3) [OF r(5)] unfolding count_ok_def card by (simp add: f3 r(4))
  qed
  ultimately have "kernel_inv (T - {t}) D s3" using c t(3) by (simp add: kernel_inv_def f3)
  moreover have "frame {t} s (prvResetNextTaskUnblockTime s3)"
    by (rule frame_same) (use r(6) c in \<open>simp_all add: f3 is_ready_def\<close>)
  ultimately show ?thesis using run reset_unblock_inv by (simp add: f3)
qed

text \<open>A task that deletes itself is left to the idle task.\<close>

lemma kinv_put_termination:
  assumes k: "kinv T D {t} s" and e: "pxContainer (lists s) (xEventListItem t) = None"
  shows "kernel_inv T D (s\<lparr>lists := vListInsertEnd (lists s) xTasksWaitingTermination (xStateListItem t),
    uxDeletedTasksWaitingCleanUp := uxDeletedTasksWaitingCleanUp s + 1\<rparr>)" (is "kernel_inv T D ?s")
proof -
  note ok = kinvD(1) [OF k]
  note p = put_end(1,2) [OF ok, of t 35]
  let ?ls = "vListInsertEnd (lists s) xTasksWaitingTermination (xStateListItem t)"
  have tT: "t < 2 ^ 62" using kernel_task(1) [OF ok held_free(3) [OF ok]] by simp
  have D35: "35 \<in> D" using kernel_dom [OF ok] by simp
  have none: "pxContainer (lists s) (Item (2 * t)) = None" using kernel_held [OF ok, of t] by (simp add: state_item)
  have "kernel_ok T D {} (s\<lparr>lists := ?ls\<rparr>)" using p(1) e by simp
  then have "kernel_ok T D {} ?s" by (rule kernel_ok_cong) simp_all
  moreover have mem: "members ?ls m = members (lists s) m" if "m \<in> {32, 33}" for m
    using p(2) [of m] e kernel_dom [OF ok, of m] that by auto
  then have "delay_ok ?s" using kinvD(2) [OF k] by (cases rule: delayed_cases [OF ok]) (simp_all add: delay_ok_def wake_times_def)
  moreover have "count_ok T ?s"
  proof -
    have "length (members ?ls 35) = Suc (length (members (lists s) 35))"
      unfolding state_item by (rule members_insert_end_length [OF kernel_lists [OF ok] D35 none state_index [OF tT]])
    moreover have "length (members (lists s) 35) \<le> 2 ^ 63" using members_length [OF kernel_lists [OF ok] D35] .
    ultimately show ?thesis using kinvD(3) [OF k] by (simp add: count_ok_def unat_plus_one)
  qed
  ultimately show ?thesis using k by (auto simp: kernel_inv_def kinv_def)
qed

lemma task_delete_self:
  assumes k: "kernel_inv T D s" and c: "pxCurrentTCB s = Some t" and a: "alive s t"
  shows "\<exists>s'. vTaskDelete None s = Some s' \<and> kernel_inv T D s' \<and> frame {t} s s' \<and>
    uxSchedulerSuspended s' = uxSchedulerSuspended s \<and> (xSchedulerRunning s \<and> msip_reg s \<noteq> None \<longrightarrow> msip_reg s' = Some 1) \<and>
    pxContainer (lists s') (xStateListItem t) = Some xTasksWaitingTermination"
proof -
  have tT: "t \<in> T" using k c by (auto simp: kernel_inv_def)
  obtain s2 n ls w ls2 where r: "kListRemove (xStateListItem t) s = Some (n, s\<lparr>lists := ls\<rparr>)"
    "(if n = 0 then taskRESET_READY_PRIORITY (uxPriority (tcb (s\<lparr>lists := ls\<rparr>) t)) (s\<lparr>lists := ls\<rparr>) else Some (s\<lparr>lists := ls\<rparr>)) =
       Some (s\<lparr>lists := ls, uxTopReadyPriority := w\<rparr>)"
    "leave_event_list t (s\<lparr>lists := ls, uxTopReadyPriority := w\<rparr>) = Some s2" "s2 = s\<lparr>lists := ls2, uxTopReadyPriority := w\<rparr>"
    "kinv T D {t} s2" "pxContainer ls2 = (pxContainer (lists s))(xStateListItem t := None, xEventListItem t := None)"
    by (rule delete_unlink [OF k tT a]) blast
  let ?s2 = "s2\<lparr>uxTaskNumber := uxTaskNumber s2 + 1\<rparr>"
  have k2: "kinv T D {t} ?s2" by (rule kinv_cong [OF r(5)]) simp_all
  define s3 where "s3 = ?s2\<lparr>lists := vListInsertEnd (lists ?s2) xTasksWaitingTermination (xStateListItem t),
    uxDeletedTasksWaitingCleanUp := uxDeletedTasksWaitingCleanUp ?s2 + 1\<rparr>"
  have k3: "kernel_inv T D s3" unfolding s3_def by (rule kinv_put_termination [OF k2]) (simp add: r(4,6))
  have f3: "pxCurrentTCB s3 = Some t" "xSchedulerRunning s3 = xSchedulerRunning s" "msip_reg s3 = msip_reg s"
    "uxSchedulerSuspended s3 = uxSchedulerSuspended s"
    "pxContainer (lists s3) = (pxContainer (lists s))(xEventListItem t := None, xStateListItem t := Some 35)"
    using c r(6) by (simp_all add: s3_def r(4) fun_upd_twist)
  have run: "vTaskDelete None s = Some (if xSchedulerRunning s then portYIELD s3 else s3)"
    unfolding vTaskDelete_def prvGetTCBFromHandle_def c option.case
    by (simp only: r(1,2,3) Option.bind.simps prod.case Let_def) (simp add: s3_def r(4) c)
  have fr: "frame {t} s s3" by (rule frame_same) (use f3 c in \<open>simp_all add: is_ready_def\<close>)
  show ?thesis using run k3 yield_inv [OF k3] fr frame_yielded [OF fr, of True] f3
    by (cases "xSchedulerRunning s") auto
qed

subsection \<open>The clean-up of the idle task\<close>

lemma clean_up_spec:
  assumes "kernel_inv T D s" "pxCurrentTCB s = Some c" "alive s c"
  shows "\<exists>T' s'. prvCheckTasksWaitingTermination s = Some s' \<and> kernel_inv T' D s' \<and> T' = {t \<in> T. alive s t} \<and>
    members (lists s') xTasksWaitingTermination = [] \<and> frame {} s s' \<and> uxSchedulerSuspended s' = uxSchedulerSuspended s \<and>
    uxDeletedTasksWaitingCleanUp s' = 0"
  using assms
proof (induction "length (members (lists s) xTasksWaitingTermination)" arbitrary: s T)
  case 0
  note ok = kinvD(1) [OF inv_kinv [OF 0(2)]]
  have D35: "35 \<in> D" using kernel_dom [OF ok] by simp
  have none: "members (lists s) 35 = []" using 0(1) by simp
  have "uxDeletedTasksWaitingCleanUp s = 0" using kinvD(3) [OF inv_kinv [OF 0(2)]] none by (simp add: count_ok_def unat_eq_0)
  moreover have "T = {t \<in> T. alive s t}"
    using members_container [OF kernel_lists [OF ok] D35] none by (auto simp: alive_def)
  ultimately show ?case using 0(2) none by (intro exI [of _ T] exI [of _ s]) (simp add: prvCheckTasksWaitingTermination.simps)
next
  case (Suc n)
  note k = Suc.prems(1)
  note ok = kinvD(1) [OF inv_kinv [OF k]]
  have D35: "35 \<in> D" using kernel_dom [OF ok] by simp
  obtain x xs where xs: "members (lists s) 35 = x # xs" using Suc.hyps(2) by (cases "members (lists s) 35") auto
  obtain t where t: "x = xStateListItem t" "t \<in> T" "pvOwner (lists s) x = t"
    by (rule kernel_member [OF ok, of 35 x]) (use xs in auto)
  have ct: "pxContainer (lists s) (xStateListItem t) = Some 35"
    using members_container [OF kernel_lists [OF ok] D35, of x] xs t(1) by simp
  have own: "listGET_OWNER_OF_HEAD_ENTRY (lists s) xTasksWaitingTermination = t"
    using members_head [OF kernel_lists [OF ok] D35 xs] t(3) by simp
  obtain m ls where r: "kListRemove (xStateListItem t) s = Some (m, s\<lparr>lists := ls\<rparr>)" "kernel_ok T D {t} (s\<lparr>lists := ls\<rparr>)"
    "members ls 35 = remove1 (xStateListItem t) (members (lists s) 35)"
    "\<And>l. l \<in> D \<Longrightarrow> l \<noteq> 35 \<Longrightarrow> members ls l = members (lists s) l"
    "pxContainer ls = (pxContainer (lists s))(xStateListItem t := None)" "xItemValue ls = xItemValue (lists s)"
    by (rule take_other [OF ok ct]) auto
  define s1 where "s1 = prvDeleteTCB t (s\<lparr>lists := ls\<rparr>\<lparr>uxCurrentNumberOfTasks := uxCurrentNumberOfTasks s - 1\<rparr>
    \<lparr>uxDeletedTasksWaitingCleanUp := uxDeletedTasksWaitingCleanUp s - 1\<rparr>)"
  have cnt: "unat (uxDeletedTasksWaitingCleanUp s) = Suc (length xs)"
    using kinvD(3) [OF inv_kinv [OF k]] xs by (simp add: count_ok_def)
  then have pos: "uxDeletedTasksWaitingCleanUp s > 0" by (simp add: word_less_nat_alt)
  have run: "prvCheckTasksWaitingTermination s = prvCheckTasksWaitingTermination s1"
    using pos r(1) own by (subst prvCheckTasksWaitingTermination.simps) (simp add: Let_def s1_def)
  have f1: "lists s1 = ls" "pxCurrentTCB s1 = Some c" "uxSchedulerSuspended s1 = uxSchedulerSuspended s"
    "uxCurrentNumberOfTasks s1 = uxCurrentNumberOfTasks s - 1" "uxDeletedTasksWaitingCleanUp s1 = uxDeletedTasksWaitingCleanUp s - 1"
    "xSchedulerRunning s1 = xSchedulerRunning s" "msip_reg s1 = msip_reg s"
    using Suc.prems(2) by (simp_all add: s1_def)
  have none: "pxContainer (lists s) (xEventListItem t) = None"
  proof (rule ccontr)
    assume "pxContainer (lists s) (xEventListItem t) \<noteq> None"
    then show False using kernel_eventD(3) [OF ok, of t] ct by auto
  qed
  have "kernel_ok (T - {t}) D {} (s\<lparr>lists := ls\<rparr>)"
    by (rule drop_task [OF r(2) t(2)]) (simp add: r(5) none)
  then have k1a: "kernel_ok (T - {t}) D {} s1" by (rule kernel_ok_cong) (simp_all add: s1_def)
  have tc: "t \<noteq> c" using Suc.prems(3) ct by (auto simp: alive_def)
  have "members ls l = members (lists s) l" if "l \<in> {32, 33}" for l
    using r(4) [of l] kernel_dom [OF ok, of l] that by auto
  then have "delay_ok s1" using kinvD(2) [OF inv_kinv [OF k]]
    by (cases rule: delayed_cases [OF ok]) (simp_all add: s1_def delay_ok_def wake_times_def r(6))
  moreover have "count_ok (T - {t}) s1"
  proof -
    have card: "(of_nat (card (T - {t})) :: u64) = of_nat (card T) - 1"
      unfolding card.remove [OF tasks_finite [OF ok] t(2)] by simp
    have "unat (uxDeletedTasksWaitingCleanUp s - 1) = length xs"
      using cnt by (simp add: unat_sub_le word_le_nat_alt)
    then show ?thesis using kinvD(3) [OF inv_kinv [OF k]] r(3) xs t(1) unfolding count_ok_def card by (simp add: f1)
  qed
  ultimately have k1: "kernel_inv (T - {t}) D s1"
    using k1a tc Suc.prems(1,2) by (auto simp: kernel_inv_def f1)
  have len: "n = length (members (lists s1) 35)" using Suc.hyps(2) r(3) xs t(1) by (simp add: f1)
  have a1: "alive s1 c" using Suc.prems(3) tc by (simp add: alive_def f1 r(5))
  from Suc.hyps(1) [OF len k1 f1(2) a1] obtain T' s' where ih: "prvCheckTasksWaitingTermination s1 = Some s'" "kernel_inv T' D s'"
    "T' = {u \<in> T - {t}. alive s1 u}" "members (lists s') xTasksWaitingTermination = []" "frame {} s1 s'"
    "uxSchedulerSuspended s' = uxSchedulerSuspended s1" "uxDeletedTasksWaitingCleanUp s' = 0" by blast
  have "T' = {u \<in> T. alive s u}" using ih(3) ct by (auto simp: alive_def f1 r(5))
  moreover have "frame {} s s1"
    by (rule frame_same) (use ct in \<open>auto simp: f1 is_ready_def r(5) Suc.prems(2)\<close>)
  then have "frame {} s s'" using frame_trans [OF _ ih(5)] by simp
  ultimately show ?case using run ih f1(3) by auto
qed

lemma idle_round:
  assumes k: "kernel_inv T D s" and c: "pxCurrentTCB s = Some c" "alive s c"
  shows "\<exists>s'. prvIdleTask s = Some s' \<and> kernel_inv {t \<in> T. alive s t} D s' \<and> frame {} s s' \<and>
    uxSchedulerSuspended s' = uxSchedulerSuspended s"
proof -
  obtain T' s' where r: "prvCheckTasksWaitingTermination s = Some s'" "kernel_inv T' D s'" "T' = {t \<in> T. alive s t}"
    "frame {} s s'" "uxSchedulerSuspended s' = uxSchedulerSuspended s"
    using clean_up_spec [OF k c] by blast
  have "prvIdleTask s = Some (if uxNumberOfItems (lists s') 0 > 1 then portYIELD s' else s')"
    by (simp add: prvIdleTask_def r(1))
  then show ?thesis using r yield_inv [OF r(2)] frame_yielded [OF r(4), of True] by auto
qed

lemma catch_up_ticks:
  assumes k: "kernel_inv T D s" and sus: "uxSchedulerSuspended s + 1 \<noteq> 0"
  shows "\<exists>y s'. xTaskCatchUpTicks n s = Some (y, s') \<and> kernel_inv T D s' \<and> frame {} s s' \<and>
    uxSchedulerSuspended s' = uxSchedulerSuspended s \<and>
    (uxSchedulerSuspended s = 0 \<and> uxCurrentNumberOfTasks s > 0 \<longrightarrow> xTickCount s' = xTickCount s + (xPendedTicks s + n))"
proof -
  let ?s = "(vTaskSuspendAll s)\<lparr>xPendedTicks := xPendedTicks s + n\<rparr>"
  have k1: "kernel_inv T D ?s" by (rule inv_step [OF kinv_cong [OF inv_kinv [OF k]]]) (simp_all add: vTaskSuspendAll_def)
  have "uxSchedulerSuspended ?s \<noteq> 0" using sus by (simp add: vTaskSuspendAll_def)
  from resume_all [OF k1 this] obtain y s' where r: "xTaskResumeAll ?s = Some (y, s')" "kernel_inv T D s'"
    "uxSchedulerSuspended s' = uxSchedulerSuspended ?s - 1"
    "xTickCount s' = xTickCount ?s + (if uxSchedulerSuspended ?s = 1 \<and> uxCurrentNumberOfTasks ?s > 0 then xPendedTicks ?s else 0)"
    "frame {} ?s s'" by blast
  have f: "xPendedTicks (vTaskSuspendAll s) = xPendedTicks s" by (simp add: vTaskSuspendAll_def)
  have "xTaskCatchUpTicks n s = Some (y, s')" by (simp add: xTaskCatchUpTicks_def Let_def f r(1))
  moreover have "frame {} s ?s" by (rule frame_same) (simp_all add: vTaskSuspendAll_def is_ready_def)
  then have "frame {} s s'" using frame_trans [OF _ r(5)] by simp
  ultimately show ?thesis using r(2-4) by (simp add: vTaskSuspendAll_def)
qed

end
