(* ===== verification/Task_Start.thy ===== *)
theory Task_Start
  imports Task_Lifecycle
begin

text \<open>
  The life before the scheduler runs: the first task creates the kernel's lists, further tasks
  are added, and \<^verbatim>\<open>vTaskStartScheduler\<close> (tasks.c) creates the idle task and the timer task.
  Every state on this way satisfies the invariant, and no task waits for anything.
\<close>

subsection \<open>Starting the scheduler\<close>

text \<open>The names are the characters of ''IDLE'' and ''Tmr Svc'' with the terminating 0.\<close>

abbreviation configIDLE_TASK_NAME :: "u8 list" where
  "configIDLE_TASK_NAME \<equiv> [73, 68, 76, 69, 0]"

abbreviation configTIMER_SERVICE_TASK_NAME :: "u8 list" where
  "configTIMER_SERVICE_TASK_NAME \<equiv> [84, 109, 114, 32, 83, 118, 99, 0]"

abbreviation configTIMER_TASK_PRIORITY :: u64 where "configTIMER_TASK_PRIORITY \<equiv> 31"

text \<open>
  \<open>xTimerCreateTimerTask\<close>; whether \<open>prvCheckForValidListAndQueue\<close> has got its queue and the
  memory of the task are arguments.
\<close>

definition xTimerCreateTimerTask :: "bool \<Rightarrow> nat option \<Rightarrow> nat option \<Rightarrow> kernel \<Rightarrow> (nat option \<times> kernel) option" where
  "xTimerCreateTimerTask xTimerQueue stack_mem tcb_mem s =
     (if xTimerQueue then xTaskCreate (Some configTIMER_SERVICE_TASK_NAME) configTIMER_TASK_PRIORITY stack_mem tcb_mem s
      else Some (None, s))"

definition vTaskStartScheduler ::
  "nat option \<Rightarrow> nat option \<Rightarrow> bool \<Rightarrow> nat option \<Rightarrow> nat option \<Rightarrow> kernel \<Rightarrow> kernel option" where
  "vTaskStartScheduler idle_stack idle_tcb xTimerQueue timer_stack timer_tcb s = do {
     (xIdleTaskHandle, s) \<leftarrow> xTaskCreate (Some configIDLE_TASK_NAME) 0 idle_stack idle_tcb s;
     (xReturn, s) \<leftarrow> (case xIdleTaskHandle of
         None \<Rightarrow> Some (None, s)
       | Some _ \<Rightarrow> xTimerCreateTimerTask xTimerQueue timer_stack timer_tcb s);
     Some (case xReturn of
         None \<Rightarrow> s
       | Some _ \<Rightarrow> s\<lparr>xNextTaskUnblockTime := portMAX_DELAY, xSchedulerRunning := True, xTickCount := 0\<rparr>) }"

subsection \<open>A new task\<close>

lemma new_item_ok:
  assumes ok: "list_ok D ls" and n: "pxContainer ls (Item a) = None" "pxContainer ls (Item b) = None"
    and e: "pxNext ls' = pxNext ls" "pxPrevious ls' = pxPrevious ls" "uxNumberOfItems ls' = uxNumberOfItems ls"
      "pxIndex ls' = pxIndex ls" "pxContainer ls' = (pxContainer ls)(Item a := None, Item b := None)"
      "\<And>l. xItemValue ls' (End l) = xItemValue ls (End l)"
  shows "list_ok D ls'" "members ls' = members ls" "pxContainer ls' = pxContainer ls"
proof -
  show c: "pxContainer ls' = pxContainer ls" using n by (auto simp: e(5))
  show "list_ok D ls'" "members ls' = members ls"
    using list_ok_cong [OF ok e(1,2) c e(3) _ e(6)] index_in [OF ok] by (simp_all add: e(4))
qed

text \<open>The fields \<open>prvInitialiseNewTask\<close> writes.\<close>

definition initialised :: "nat \<Rightarrow> u64 \<Rightarrow> kernel \<Rightarrow> kernel \<Rightarrow> bool" where
  "initialised t p s s' \<longleftrightarrow> (\<exists>c ls. s' = s\<lparr>tcb := (tcb s)(t := c), lists := ls\<rparr> \<and> uxPriority c = p \<and> uxBasePriority c = p \<and>
     ls = (lists s)\<lparr>pxContainer := (pxContainer (lists s))(xStateListItem t := None, xEventListItem t := None),
       pvOwner := (pvOwner (lists s))(xStateListItem t := t, xEventListItem t := t),
       xItemValue := (xItemValue (lists s))(xEventListItem t := configMAX_PRIORITIES - p)\<rparr> \<and>
     length (ulNotifiedValue c) = 1 \<and> length (ucNotifyState c) = 1)"

lemma initialise_new_task:
  assumes n: "task_name nm (pcTaskName (tcb s t)) = Some name"
  shows "\<exists>s'. prvInitialiseNewTask nm p t s = Some s' \<and> initialised t (if p \<ge> 32 then 31 else p) s s'"
proof -
  define q :: u64 where "q = (if p \<ge> 32 then 31 else p)"
  have q: "(if p \<ge> 32 then 32 - 1 else p) = q" by (simp add: q_def)
  define c where "c = (tcb s t)\<lparr>pcTaskName := name, uxPriority := q, uxBasePriority := q, uxMutexesHeld := 0,
    uxCriticalNesting := 0, pxTaskTag := None, pvThreadLocalStoragePointers := [0, 0], ulNotifiedValue := [0], ucNotifyState := [0]\<rparr>"
  define ls where "ls = (lists s)\<lparr>pxContainer := (pxContainer (lists s))(xStateListItem t := None, xEventListItem t := None),
    pvOwner := (pvOwner (lists s))(xStateListItem t := t, xEventListItem t := t),
    xItemValue := (xItemValue (lists s))(xEventListItem t := configMAX_PRIORITIES - q)\<rparr>"
  have "prvInitialiseNewTask nm p t s = Some (s\<lparr>tcb := (tcb s)(t := c), lists := ls\<rparr>)"
    unfolding prvInitialiseNewTask_def n Option.bind.simps Let_def q
    by (simp add: set_tcb_def vListInitialiseItem_def c_def ls_def)
  moreover have "initialised t q s (s\<lparr>tcb := (tcb s)(t := c), lists := ls\<rparr>)"
    unfolding initialised_def
    by (rule exI [of _ c], rule exI [of _ ls]) (simp add: ls_def, simp add: c_def)
  ultimately show ?thesis by (simp add: q_def)
qed

lemma new_task_ok:
  assumes ok: "kernel_ok T D {} s" and t: "t \<notin> T" "t < 2 ^ 62" and i: "initialised t p s s'" and p: "p < 32"
  shows "kernel_ok (insert t T) D {t} s'" "members (lists s') = members (lists s)"
    "pxContainer (lists s') = pxContainer (lists s)"
    "\<And>x. x \<noteq> xEventListItem t \<Longrightarrow> xItemValue (lists s') x = xItemValue (lists s) x"
proof -
  obtain c ls where i: "s' = s\<lparr>tcb := (tcb s)(t := c), lists := ls\<rparr>" "uxPriority c = p" "uxBasePriority c = p"
    "ls = (lists s)\<lparr>pxContainer := (pxContainer (lists s))(xStateListItem t := None, xEventListItem t := None),
       pvOwner := (pvOwner (lists s))(xStateListItem t := t, xEventListItem t := t),
       xItemValue := (xItemValue (lists s))(xEventListItem t := configMAX_PRIORITIES - p)\<rparr>"
    using i by (auto simp: initialised_def)
  have none: "pxContainer (lists s) (xStateListItem t) = None" "pxContainer (lists s) (xEventListItem t) = None"
    using kernel_placeD(1) [OF ok, of t] kernel_eventD(1) [OF ok, of t] t(1) by fastforce+
  note m = new_item_ok [OF kernel_lists [OF ok] none [unfolded state_item event_item], of ls]
  have l: "list_ok D ls" "members ls = members (lists s)" "pxContainer ls = pxContainer (lists s)"
    by (rule m; simp add: i(4) state_item event_item)+
  show "members (lists s') = members (lists s)" "pxContainer (lists s') = pxContainer (lists s)"
    using l by (simp_all add: i(1))
  show "\<And>x. x \<noteq> xEventListItem t \<Longrightarrow> xItemValue (lists s') x = xItemValue (lists s) x" by (simp add: i(1,4))
  have "state_place (insert t T) {t} s'"
    using kernel_state_place [OF ok] none t(1) by (auto simp: state_place_def i(1) l(3))
  moreover have "event_place (insert t T) s'"
    using kernel_event_place [OF ok] none by (auto simp: event_place_def i(1) l(3))
  moreover have "task_fields (insert t T) s'"
  proof -
    have "pvOwner ls = (pvOwner (lists s))(xStateListItem t := t, xEventListItem t := t)" by (simp add: i(4))
    then show ?thesis using ok t p i(2,3) by (auto simp: kernel_ok_def task_fields_def i(1))
  qed
  ultimately show "kernel_ok (insert t T) D {t} s'"
    using ok l by (simp add: kernel_ok_def ready_bits_def delayed_lists_def i(1))
qed

lemma pended_yield: "xPendedTicks (portYIELD s) = xPendedTicks s"
  by (simp add: portYIELD_def rv_trigger_soft_interrupt_def riscv_trigger_soft_interrupt_def)

lemma same_current: "pxCurrentTCB s = u \<Longrightarrow> s\<lparr>pxCurrentTCB := u\<rparr> = s"
  by (cases s) simp

lemma card_insert_word: "finite T \<Longrightarrow> t \<notin> T \<Longrightarrow> (of_nat (card (insert t T)) :: u64) = of_nat (card T) + 1"
  by simp

text \<open>What \<open>prvAddNewTaskToReadyList\<close> does once the lists exist.\<close>

lemma add_new_task:
  assumes ok: "kernel_ok T D {} s" and d: "delay_ok s" and c: "count_ok T s" "pxCurrentTCB s = Some u" "u \<in> T"
    and t: "t \<notin> T" "t < 2 ^ 62" and i: "initialised t p s s1" and p: "p < 32"
  shows "\<exists>s'. prvAddNewTaskToReadyList t s1 = Some s' \<and> kernel_inv (insert t T) D s' \<and> is_ready s' t \<and>
    pxContainer (lists s') = (pxContainer (lists s))(xStateListItem t := Some (unat p)) \<and>
    pxCurrentTCB s' = (if \<not> xSchedulerRunning s \<and> uxPriority (tcb s u) \<le> p then Some t else Some u) \<and>
    xSchedulerRunning s' = xSchedulerRunning s \<and> uxSchedulerSuspended s' = uxSchedulerSuspended s \<and> msip_le s s' \<and>
    (\<forall>v. v \<noteq> t \<longrightarrow> tcb s' v = tcb s v) \<and> uxPriority (tcb s' t) = p \<and> uxBasePriority (tcb s' t) = p \<and>
    length (ulNotifiedValue (tcb s' t)) = 1 \<and>
    length (ucNotifyState (tcb s' t)) = 1 \<and> xPendedTicks s' = xPendedTicks s \<and>
    (\<not> xSchedulerRunning s \<longrightarrow> msip_reg s' = msip_reg s)"
proof -
  note n = new_task_ok [OF ok t i p]
  obtain cc ls where i: "s1 = s\<lparr>tcb := (tcb s)(t := cc), lists := ls\<rparr>" "uxPriority cc = p"
    "length (ulNotifiedValue cc) = 1" "length (ucNotifyState cc) = 1" "uxBasePriority cc = p"
    using i by (auto simp: initialised_def)
  have tu: "t \<noteq> u" using t(1) c(3) by auto
  define cur where "cur = (if \<not> xSchedulerRunning s \<and> uxPriority (tcb s u) \<le> p then t else u)"
  define s2 where "s2 = set_tcb t (\<lambda>d. d\<lparr>uxTCBNumber := uxTaskNumber s + 1\<rparr>)
    (s1\<lparr>uxCurrentNumberOfTasks := uxCurrentNumberOfTasks s + 1, pxCurrentTCB := Some cur, uxTaskNumber := uxTaskNumber s + 1\<rparr>)"
  have f2: "lists s2 = lists s1" "pxCurrentTCB s2 = Some cur" "xSchedulerRunning s2 = xSchedulerRunning s"
    "uxSchedulerSuspended s2 = uxSchedulerSuspended s" "msip_reg s2 = msip_reg s" "xPendedTicks s2 = xPendedTicks s"
    "uxPriority (tcb s2 v) = (if v = t then p else uxPriority (tcb s v))" for v
    by (simp_all add: s2_def i(1,2))
  have "kernel_ok (insert t T) D {t} s2" by (rule kernel_ok_cong [OF n(1)]) (simp_all add: s2_def set_tcb_def)
  moreover have "delay_ok s2"
  proof -
    have out: "xEventListItem t \<notin> set (members (lists s) l)" if "l \<in> {32, 33}" for l
    proof
      assume "xEventListItem t \<in> set (members (lists s) l)"
      then show False using that by (elim kernel_member [OF ok, rotated]) auto
    qed
    have w: "wake_times s2 l = wake_times s l" if "l \<in> {32, 33}" for l
      unfolding wake_times_def f2(1) n(2) by (rule map_cong [OF refl], rule n(4)) (use out [OF that] in auto)
    have "xTickCount s2 = xTickCount s" "xNextTaskUnblockTime s2 = xNextTaskUnblockTime s"
      "pxDelayedTaskList s2 = pxDelayedTaskList s" "pxOverflowDelayedTaskList s2 = pxOverflowDelayedTaskList s"
      by (simp_all add: s2_def i(1) set_tcb_def)
    then show ?thesis using d w by (cases rule: delayed_cases [OF ok]) (simp_all add: delay_ok_def)
  qed
  moreover have "count_ok (insert t T) s2"
    using c(1) n(2) card_insert_word [OF tasks_finite [OF ok] t(1)] by (simp add: count_ok_def s2_def set_tcb_def i(1))
  ultimately have k2: "kinv (insert t T) D {t} s2" using c(3) by (simp add: kinv_def f2(2)) (simp add: cur_def)
  obtain s3 where s3: "prvAddTaskToReadyList t s2 = Some s3" "kernel_inv (insert t T) D s3" "tcb s3 = tcb s2"
    "pxCurrentTCB s3 = pxCurrentTCB s2"
    "pxContainer (lists s3) = (pxContainer (lists s2))(xStateListItem t := Some (unat (uxPriority (tcb s2 t))))"
    "is_ready s3 t" "xSchedulerRunning s3 = xSchedulerRunning s2" "uxSchedulerSuspended s3 = uxSchedulerSuspended s2"
    "msip_reg s3 = msip_reg s2" "xPendedTicks s3 = xPendedTicks s2"
    by (rule put_ready_inv [OF k2]) blast
  define y where "y = (xSchedulerRunning s \<and> uxPriority (tcb s3 cur) < uxPriority (tcb s3 t))"
  have run: "prvAddNewTaskToReadyList t s1 = Some (if y then portYIELD s3 else s3)"
  proof -
    have "prvAddNewTaskToReadyList t s1 = do {
        s \<leftarrow> prvAddTaskToReadyList t s2;
        if xSchedulerRunning s then do {
          cur \<leftarrow> pxCurrentTCB s;
          Some (if uxPriority (tcb s cur) < uxPriority (tcb s t) then portYIELD s else s) }
        else Some s }"
    proof -
      define x where "x = s1\<lparr>uxCurrentNumberOfTasks := uxCurrentNumberOfTasks s1 + 1\<rparr>"
      have x: "pxCurrentTCB x = Some u" "xSchedulerRunning x = xSchedulerRunning s" "uxPriority (tcb x u) = uxPriority (tcb s u)"
        "uxPriority (tcb x t) = p" "uxTaskNumber x = uxTaskNumber s"
        using tu c(2) by (simp_all add: x_def i(1,2))
      have step: "(if \<not> xSchedulerRunning x \<and> uxPriority (tcb x u) \<le> uxPriority (tcb x t)
          then x\<lparr>pxCurrentTCB := Some t\<rparr> else x) = x\<lparr>pxCurrentTCB := Some cur\<rparr>"
        using same_current [OF x(1)] by (simp add: x cur_def)
      have "s2 = set_tcb t (\<lambda>d. d\<lparr>uxTCBNumber := uxTaskNumber s + 1\<rparr>)
          (x\<lparr>pxCurrentTCB := Some cur\<rparr>\<lparr>uxTaskNumber := uxTaskNumber s + 1\<rparr>)"
        by (simp add: s2_def x_def i(1))
      then show ?thesis unfolding prvAddNewTaskToReadyList_def Let_def x_def [symmetric] x(1) option.case step
        using x(5) by simp
    qed
    then show ?thesis using f2(3) by (simp add: s3(1,4,7) f2(2) y_def)
  qed
  have "pxContainer (lists s3) = (pxContainer (lists s))(xStateListItem t := Some (unat p))"
    using s3(5) n(3) f2 by simp
  moreover have "\<forall>v. v \<noteq> t \<longrightarrow> tcb s3 v = tcb s v" "uxPriority (tcb s3 t) = p" "uxBasePriority (tcb s3 t) = p" "length (ulNotifiedValue (tcb s3 t)) = 1"
    "length (ucNotifyState (tcb s3 t)) = 1"
    by (simp_all add: s3(3) s2_def i)
  ultimately show ?thesis
    using run s3(2,4,6-10) yield_inv [OF s3(2)] f2(2-6)
    by (cases y) (auto simp: is_ready_def msip_le_def cur_def pended_yield y_def)
qed

subsection \<open>The first task\<close>

text \<open>
  The state at reset: no task, no item in a list; the lists of other kernel objects in \<open>D\<close> are
  initialised, those of the kernel need not be.
\<close>

definition blank :: "nat set \<Rightarrow> kernel \<Rightarrow> bool" where
  "blank D s \<longleftrightarrow> pxCurrentTCB s = None \<and> uxCurrentNumberOfTasks s = 0 \<and> uxDeletedTasksWaitingCleanUp s = 0 \<and>
     uxTopReadyPriority s = 0 \<and> \<not> xSchedulerRunning s \<and> uxSchedulerSuspended s = 0 \<and>
     (\<forall>x. pxContainer (lists s) x = None) \<and> {..36} \<subseteq> D \<and> (\<forall>l\<in>D. 36 < l \<longrightarrow> klist (lists s) l [])"

lemma fold_initialise:
  assumes "\<forall>x. pxContainer ls x = None"
  shows "pxContainer (fold (\<lambda>p ls. vListInitialise ls p) ps ls) = pxContainer ls"
    "pvOwner (fold (\<lambda>p ls. vListInitialise ls p) ps ls) = pvOwner ls"
    "l \<in> set ps \<or> klist ls l [] \<Longrightarrow> klist (fold (\<lambda>p ls. vListInitialise ls p) ps ls) l []"
  using assms
proof (induction ps arbitrary: ls)
  case (Cons p ps)
  {
    case 1
    then show ?case using Cons.IH(1) [of "vListInitialise ls p"] by (simp add: vListInitialise_def)
  next
    case 2
    then show ?case using Cons.IH(2) [of "vListInitialise ls p"] by (simp add: vListInitialise_def)
  next
    case 3
    have c: "\<forall>x. pxContainer (vListInitialise ls p) x = None" using 3(2) by (simp add: vListInitialise_def)
    have "l \<in> set ps \<or> klist (vListInitialise ls p) l []"
    proof (cases "l = p")
      case True
      then show ?thesis using vListInitialise_klist [of ls p] 3(2) by simp
    next
      case False
      then show ?thesis using 3(1) by (auto simp: klist_def vListInitialise_def ring_list_empty)
    qed
    then show ?case using Cons.IH(3) [OF _ c] by simp
  }
qed simp_all

lemma initialise_lists:
  assumes c: "\<forall>x. pxContainer (lists s) x = None" and D: "{..36} \<subseteq> D" "\<forall>l\<in>D. 36 < l \<longrightarrow> klist (lists s) l []"
  obtains ls where "prvInitialiseTaskLists s = s\<lparr>lists := ls, pxDelayedTaskList := 32, pxOverflowDelayedTaskList := 33\<rparr>"
    "list_ok D ls" "\<forall>l\<in>D. members ls l = []" "pxContainer ls = pxContainer (lists s)" "pvOwner ls = pvOwner (lists s)"
proof -
  define ls where "ls = fold (\<lambda>p ls. vListInitialise ls p) ([0..<32] @ [32, 33, 34, 35, 36]) (lists s)"
  note f = fold_initialise [OF c, where ps = "[0..<32] @ [32, 33, 34, 35, 36]", folded ls_def]
  have k: "klist ls l []" if "l \<in> D" for l
    by (rule f(3)) (use D(2) that in \<open>cases "36 < l", auto\<close>)
  have "prvInitialiseTaskLists s = s\<lparr>lists := ls, pxDelayedTaskList := 32, pxOverflowDelayedTaskList := 33\<rparr>"
    by (simp add: prvInitialiseTaskLists_def Let_def ls_def)
  moreover have "list_ok D ls" using k klist_members [OF k] f(1) c by (simp add: list_ok_def)
  ultimately show ?thesis using that f(1,2) klist_members [OF k] by simp
qed

lemma first_task:
  assumes b: "blank D s" and t: "t < 2 ^ 62" and i: "initialised t p s s1" and p: "p < 32"
  shows "\<exists>s'. prvAddNewTaskToReadyList t s1 = Some s' \<and> kernel_inv {t} D s' \<and> is_ready s' t \<and>
    pxContainer (lists s') = (\<lambda>_. None)(xStateListItem t := Some (unat p)) \<and>
    pxCurrentTCB s' = Some t \<and> \<not> xSchedulerRunning s' \<and> uxSchedulerSuspended s' = 0 \<and> msip_reg s' = msip_reg s \<and>
    (\<forall>v. v \<noteq> t \<longrightarrow> tcb s' v = tcb s v) \<and> uxPriority (tcb s' t) = p \<and> uxBasePriority (tcb s' t) = p \<and>
    length (ulNotifiedValue (tcb s' t)) = 1 \<and>
    length (ucNotifyState (tcb s' t)) = 1 \<and> xPendedTicks s' = xPendedTicks s"
proof -
  obtain cc ls where i: "s1 = s\<lparr>tcb := (tcb s)(t := cc), lists := ls\<rparr>" "uxPriority cc = p" "uxBasePriority cc = p"
    "length (ulNotifiedValue cc) = 1" "length (ucNotifyState cc) = 1"
    "ls = (lists s)\<lparr>pxContainer := (pxContainer (lists s))(xStateListItem t := None, xEventListItem t := None),
       pvOwner := (pvOwner (lists s))(xStateListItem t := t, xEventListItem t := t),
       xItemValue := (xItemValue (lists s))(xEventListItem t := configMAX_PRIORITIES - p)\<rparr>"
    using i by (auto simp: initialised_def)
  have none: "\<forall>x. pxContainer ls x = None" using b by (simp add: i(6) blank_def)
  have ev: "\<forall>l\<in>D. 36 < l \<longrightarrow> klist ls l []" using b by (auto simp: i(6) blank_def klist_def item_simps(5,6) [symmetric])
  define s2 where "s2 = s1\<lparr>uxCurrentNumberOfTasks := 1, pxCurrentTCB := Some t\<rparr>"
  obtain ls2 where l2: "prvInitialiseTaskLists s2 = s2\<lparr>lists := ls2, pxDelayedTaskList := 32, pxOverflowDelayedTaskList := 33\<rparr>"
    "list_ok D ls2" "\<forall>l\<in>D. members ls2 l = []" "pxContainer ls2 = pxContainer ls" "pvOwner ls2 = pvOwner ls"
    by (rule initialise_lists [of s2 D]) (use none ev b in \<open>simp_all add: s2_def i(1) blank_def\<close>)
  define s3 where "s3 = set_tcb t (\<lambda>c. c\<lparr>uxTCBNumber := uxTaskNumber s + 1\<rparr>)
    ((prvInitialiseTaskLists s2)\<lparr>uxTaskNumber := uxTaskNumber s + 1\<rparr>)"
  have f3: "lists s3 = ls2" "uxTopReadyPriority s3 = 0" "pxCurrentTCB s3 = Some t" "pxDelayedTaskList s3 = 32"
    "pxOverflowDelayedTaskList s3 = 33" "uxCurrentNumberOfTasks s3 = 1" "uxDeletedTasksWaitingCleanUp s3 = 0"
    "xSchedulerRunning s3 = False" "uxSchedulerSuspended s3 = 0" "msip_reg s3 = msip_reg s" "xPendedTicks s3 = xPendedTicks s"
    "tcb s3 t = cc\<lparr>uxTCBNumber := uxTaskNumber s + 1\<rparr>" "\<forall>v. v \<noteq> t \<longrightarrow> tcb s3 v = tcb s v"
    using b unfolding s3_def l2(1) by (simp_all add: s2_def i(1) set_tcb_def blank_def)
  have own: "pvOwner ls2 (xStateListItem t) = t" "pvOwner ls2 (xEventListItem t) = t" by (simp_all add: l2(5) i(6))
  have D: "{..36} \<subseteq> D" using b by (simp add: blank_def)
  have "kernel_ok {t} D {t} s3"
    unfolding kernel_ok_def
  proof (intro conjI)
    show "list_ok D (lists s3)" using l2(2) f3(1) by simp
    show "task_fields {t} s3" using t p own by (simp add: task_fields_def f3(1,12) i(2,3))
    show "state_place {t} {t} s3" "event_place {t} s3"
      using none l2(4) by (simp_all add: state_place_def event_place_def f3(1))
    have "members ls2 q = []" if "q < 32" for q using l2(3) D that by (simp add: subset_iff)
    then show "ready_bits s3" by (auto simp: ready_bits_def f3(1,2))
    show "delayed_lists s3" by (simp add: delayed_lists_def f3(4,5))
  qed (use D in auto)
  moreover have "delay_ok s3" "count_ok {t} s3"
  proof -
    have "members ls2 l = []" if "l \<le> 36" for l using l2(3) D that by auto
    then show "delay_ok s3" "count_ok {t} s3" by (simp_all add: delay_ok_def wake_times_def count_ok_def f3(1,4-7))
  qed
  ultimately have k3: "kinv {t} D {t} s3" by (simp add: kinv_def f3(3))
  obtain s4 where s4: "prvAddTaskToReadyList t s3 = Some s4" "kernel_inv {t} D s4" "tcb s4 = tcb s3"
    "pxCurrentTCB s4 = pxCurrentTCB s3"
    "pxContainer (lists s4) = (pxContainer (lists s3))(xStateListItem t := Some (unat (uxPriority (tcb s3 t))))"
    "is_ready s4 t" "xSchedulerRunning s4 = xSchedulerRunning s3" "uxSchedulerSuspended s4 = uxSchedulerSuspended s3"
    "msip_reg s4 = msip_reg s3" "xPendedTicks s4 = xPendedTicks s3"
    by (rule put_ready_inv [OF k3]) blast
  have "prvAddNewTaskToReadyList t s1 = Some s4"
  proof -
    have "pxCurrentTCB s1 = None" "uxCurrentNumberOfTasks s1 = 0" "uxTaskNumber (prvInitialiseTaskLists s2) = uxTaskNumber s"
      unfolding l2(1) using b by (simp_all add: i(1) blank_def s2_def)
    moreover have "uxCurrentNumberOfTasks s2 = 1" by (simp add: s2_def)
    ultimately show ?thesis using s4(1,7) f3(8)
      by (simp add: prvAddNewTaskToReadyList_def Let_def s3_def flip: s2_def)
  qed
  moreover have "pxContainer (lists s4) = (\<lambda>_. None)(xStateListItem t := Some (unat p))"
    using none l2(4) s4(5) by (simp add: f3(1,12) i(2) fun_eq_iff)
  ultimately show ?thesis using s4(2,4,6-10) f3(3,8-13) by (simp add: s4(3) i)
qed

subsection \<open>Until the scheduler runs\<close>

text \<open>Before the start every task is ready and no event list is in use.\<close>

definition boot_inv :: "nat set \<Rightarrow> nat set \<Rightarrow> kernel \<Rightarrow> bool" where
  "boot_inv T D s \<longleftrightarrow> (if T = {} then blank D s else kernel_inv T D s) \<and> \<not> xSchedulerRunning s \<and> uxSchedulerSuspended s = 0 \<and>
     xPendedTicks s = 0 \<and> (\<forall>t\<in>T. is_ready s t \<and> pxContainer (lists s) (xEventListItem t) = None \<and> length (ulNotifiedValue (tcb s t)) = 1 \<and>
       length (ucNotifyState (tcb s t)) = 1)"

text \<open>
  Creation with all the memory it asks for; the control block is fresh memory with room for a
  name.
\<close>

definition fresh_tcb :: "nat set \<Rightarrow> nat \<Rightarrow> u8 list option \<Rightarrow> kernel \<Rightarrow> bool" where
  "fresh_tcb T t nm s \<longleftrightarrow> t \<notin> T \<and> t < 2 ^ 62 \<and> task_name nm (pcTaskName (tcb s t)) \<noteq> None"

lemma create_prepared:
  assumes "fresh_tcb T t nm s"
  obtains s0 s1 where "s0 = set_tcb t (\<lambda>c. c\<lparr>pxStack := st, ucStaticallyAllocated := tskDYNAMICALLY_ALLOCATED_STACK_AND_TCB\<rparr>) s"
    "initialised t (if p \<ge> 32 then 31 else p) s0 s1"
    "xTaskCreate nm p (Some st) (Some t) s = do { s \<leftarrow> prvAddNewTaskToReadyList t s1; Some (Some t, s) }"
proof -
  define s0 where "s0 = set_tcb t (\<lambda>c. c\<lparr>pxStack := st, ucStaticallyAllocated := tskDYNAMICALLY_ALLOCATED_STACK_AND_TCB\<rparr>) s"
  obtain name where "task_name nm (pcTaskName (tcb s0 t)) = Some name"
    using assms by (auto simp: fresh_tcb_def s0_def)
  from initialise_new_task [OF this, of p] obtain s1 where s1: "prvInitialiseNewTask nm p t s0 = Some s1"
    "initialised t (if p \<ge> 32 then 31 else p) s0 s1" by blast
  have "set_tcb t (\<lambda>c. c\<lparr>ucStaticallyAllocated := 0\<rparr>) (set_tcb t (\<lambda>c. c\<lparr>pxStack := st\<rparr>) s) = s0"
    by (simp add: s0_def set_tcb_def)
  then show ?thesis using that [OF s0_def s1(2)] s1(1) by (simp add: xTaskCreate_def)
qed

lemma create_boot:
  assumes b: "boot_inv T D s" and t: "fresh_tcb T t nm s"
  shows "\<exists>s'. xTaskCreate nm p (Some st) (Some t) s = Some (Some t, s') \<and> boot_inv (insert t T) D s' \<and>
    msip_reg s' = msip_reg s \<and> (\<forall>v. v \<noteq> t \<longrightarrow> tcb s' v = tcb s v) \<and>
    uxPriority (tcb s' t) = (if p \<ge> 32 then 31 else p) \<and> uxBasePriority (tcb s' t) = (if p \<ge> 32 then 31 else p) \<and>
    (p \<ge> 31 \<longrightarrow> pxCurrentTCB s' = Some t)"
proof -
  define q :: u64 where "q = (if p \<ge> 32 then 31 else p)"
  have q: "q < 32" unfolding q_def by (rule prio_cap)
  obtain s0 s1 where c: "s0 = set_tcb t (\<lambda>c. c\<lparr>pxStack := st, ucStaticallyAllocated := 0\<rparr>) s" "initialised t q s0 s1"
    "xTaskCreate nm p (Some st) (Some t) s = do { s \<leftarrow> prvAddNewTaskToReadyList t s1; Some (Some t, s) }"
    by (rule create_prepared [OF t, of st p, folded q_def]) blast
  have tf: "t \<notin> T" "t < 2 ^ 62" using t by (simp_all add: fresh_tcb_def)
  have l0: "lists s0 = lists s" "tcb s0 v = (if v = t then tcb s0 t else tcb s v)" for v by (simp_all add: c(1) set_tcb_def)
  show ?thesis
  proof (cases "T = {}")
    case True
    have "blank D s0" using b True by (simp add: boot_inv_def blank_def c(1) set_tcb_def)
    from first_task [OF this tf(2) c(2) q] obtain s' where s': "prvAddNewTaskToReadyList t s1 = Some s'" "kernel_inv {t} D s'"
      "is_ready s' t" "pxContainer (lists s') = (\<lambda>_. None)(xStateListItem t := Some (unat q))"
      "\<not> xSchedulerRunning s'" "uxSchedulerSuspended s' = 0" "msip_reg s' = msip_reg s0" "pxCurrentTCB s' = Some t"
      "xPendedTicks s' = xPendedTicks s0" "uxPriority (tcb s' t) = q" "uxBasePriority (tcb s' t) = q"
      "\<forall>v. v \<noteq> t \<longrightarrow> tcb s' v = tcb s0 v" "length (ulNotifiedValue (tcb s' t)) = 1" "length (ucNotifyState (tcb s' t)) = 1" by blast
    show ?thesis
      by (rule exI [of _ s']) (use s' True c(1,3) b in \<open>simp add: boot_inv_def flip: q_def\<close>)
  next
    case False
    have k: "kernel_inv T D s" using b False by (simp add: boot_inv_def)
    have k0: "kernel_inv T D s0" unfolding c(1) by (rule inv_step [OF kinv_tcb_other [OF inv_kinv [OF k]]]) simp_all
    obtain u where u: "pxCurrentTCB s0 = Some u" "u \<in> T" by (rule current_task [OF k0])
    note ki = kinvD [OF inv_kinv [OF k0]]
    from add_new_task [OF ki u tf c(2) q] obtain s' where s': "prvAddNewTaskToReadyList t s1 = Some s'"
      "kernel_inv (insert t T) D s'" "is_ready s' t" "pxContainer (lists s') = (pxContainer (lists s0))(xStateListItem t := Some (unat q))"
      "xSchedulerRunning s' = xSchedulerRunning s0" "uxSchedulerSuspended s' = uxSchedulerSuspended s0"
      "pxCurrentTCB s' = (if \<not> xSchedulerRunning s0 \<and> uxPriority (tcb s0 u) \<le> q then Some t else Some u)"
      "xPendedTicks s' = xPendedTicks s0" "\<not> xSchedulerRunning s0 \<longrightarrow> msip_reg s' = msip_reg s0"
      "uxPriority (tcb s' t) = q" "uxBasePriority (tcb s' t) = q"
      "\<forall>v. v \<noteq> t \<longrightarrow> tcb s' v = tcb s0 v" "length (ulNotifiedValue (tcb s' t)) = 1" "length (ucNotifyState (tcb s' t)) = 1" by blast
    have none: "pxContainer (lists s) (xEventListItem t) = None"
      using kernel_eventD(1) [OF kinvD(1) [OF inv_kinv [OF k]], of t] tf(1) by fastforce
    have "boot_inv (insert t T) D s'"
      using b False s' none by (auto simp: boot_inv_def is_ready_def l0 c(1))
    moreover have run: "\<not> xSchedulerRunning s0" using b by (simp add: boot_inv_def c(1))
    moreover have "pxCurrentTCB s' = Some t" if "p \<ge> 31"
    proof -
      have "p = 31 \<or> p \<ge> 32" using that by (auto simp: word_le_nat_alt word_unat_eq_iff)
      then have "q = 31" by (auto simp: q_def)
      moreover have "uxPriority (tcb s0 u) \<le> 31"
        using kernel_task(2) [OF ki(1) u(2)] by (simp add: word_less_nat_alt word_le_nat_alt)
      ultimately show ?thesis using s'(7) run by simp
    qed
    ultimately show ?thesis using s' c(1,3) unfolding q_def [symmetric] by auto
  qed
qed

end
