(* ===== verification/Transition.thy ===== *)
theory Transition
  imports Main
begin

text \<open>
  Systems that are driven by calls: a call that is enabled runs and returns the next state. The
  contract \<open>call_system\<close> is what the components prove once per call; what holds in every
  reachable state follows here.
\<close>

inductive reaches :: "('c \<Rightarrow> 's \<Rightarrow> bool) \<Rightarrow> ('c \<Rightarrow> 's \<Rightarrow> 's option) \<Rightarrow> 's \<Rightarrow> 's \<Rightarrow> bool"
  for enabled exec where
  reaches_refl: "reaches enabled exec s s"
| reaches_step: "reaches enabled exec s s1 \<Longrightarrow> enabled c s1 \<Longrightarrow> exec c s1 = Some s2 \<Longrightarrow> reaches enabled exec s s2"

inductive_cases reaches_cases: "reaches enabled exec s s'"

text \<open>A schedule is a list of calls; it has a result if each call is enabled in its turn.\<close>

fun run_calls :: "('c \<Rightarrow> 's \<Rightarrow> bool) \<Rightarrow> ('c \<Rightarrow> 's \<Rightarrow> 's option) \<Rightarrow> 'c list \<Rightarrow> 's \<Rightarrow> 's option" where
  "run_calls enabled exec [] s = Some s"
| "run_calls enabled exec (c # cs) s =
     (if enabled c s then Option.bind (exec c s) (run_calls enabled exec cs) else None)"

lemma reaches_trans: "reaches enabled exec s1 s2 \<Longrightarrow> reaches enabled exec s s1 \<Longrightarrow> reaches enabled exec s s2"
  by (induction rule: reaches.induct) (auto intro: reaches.intros)

lemma run_calls_reaches: "run_calls enabled exec cs s = Some s' \<Longrightarrow> reaches enabled exec s s'"
proof (induction cs arbitrary: s)
  case (Cons c cs)
  then obtain s1 where "enabled c s" "exec c s = Some s1" "run_calls enabled exec cs s1 = Some s'"
    by (auto split: if_splits simp: bind_eq_Some_conv)
  then show ?case using Cons.IH [of s1] reaches_step [OF reaches_refl] reaches_trans by metis
qed (simp add: reaches_refl)

locale call_system =
  fixes enabled :: "'c \<Rightarrow> 's \<Rightarrow> bool" and exec :: "'c \<Rightarrow> 's \<Rightarrow> 's option" and inv :: "'s \<Rightarrow> bool"
  assumes call_returns: "inv s \<Longrightarrow> enabled c s \<Longrightarrow> exec c s \<noteq> None"
    and call_keeps: "inv s \<Longrightarrow> enabled c s \<Longrightarrow> exec c s = Some s' \<Longrightarrow> inv s'"
begin

lemma reachable_inv: "reaches enabled exec s s' \<Longrightarrow> inv s \<Longrightarrow> inv s'"
  by (induction rule: reaches.induct) (auto intro: call_keeps)

lemma reachable_returns: "reaches enabled exec s s' \<Longrightarrow> inv s \<Longrightarrow> enabled c s' \<Longrightarrow> \<exists>s2. exec c s' = Some s2 \<and> inv s2"
  using reachable_inv call_returns call_keeps by (metis option.exhaust)

end

end
