(* ===== verification/Task_System.thy ===== *)
theory Task_System
  imports Task_Start Transition
begin

text \<open>
  The scheduler as a whole: the running task issues calls, interrupts come between them, and in
  every state that can be reached the invariant holds and whatever is called returns.
\<close>

subsection \<open>The interrupts\<close>

text \<open>What an interrupt leaves as it is, and the task that runs after it.\<close>

definition irq_frame :: "kernel \<Rightarrow> kernel \<Rightarrow> bool" where
  "irq_frame s s' \<longleftrightarrow> xSchedulerRunning s' = xSchedulerRunning s \<and> uxSchedulerSuspended s' = uxSchedulerSuspended s \<and>
     (msip_reg s' = None \<longleftrightarrow> msip_reg s = None) \<and> (\<forall>u. is_ready s u \<longrightarrow> is_ready s' u) \<and>
     ((\<exists>c. pxCurrentTCB s' = Some c \<and> is_ready s' c) \<or>
      pxCurrentTCB s' = pxCurrentTCB s \<and> (uxSchedulerSuspended s = 0 \<longrightarrow> msip_reg s' = msip_reg s))"

lemma switch_irq:
  assumes k: "kernel_inv T D s" and i: "is_ready s i"
  shows "\<exists>s'. vTaskSwitchContext s = Some s' \<and> kernel_inv T D s' \<and> irq_frame s s' \<and>
    (uxSchedulerSuspended s = 0 \<longrightarrow> (\<exists>c. pxCurrentTCB s' = Some c \<and> is_ready s' c))"
proof (cases "uxSchedulerSuspended s = 0")
  case True
  note ok = kinvD(1) [OF inv_kinv [OF k]]
  obtain l where l: "l < 32" "pxContainer (lists s) (xStateListItem i) = Some l" using i by (auto simp: is_ready_def)
  then have "members (lists s) l \<noteq> []"
    using members_container [OF kernel_lists [OF ok], of l "xStateListItem i"] kernel_dom [OF ok, of l] by auto
  then obtain p where p: "ready_top s p" using ready_top_ex [OF l(1)] by blast
  obtain t ls e f where r: "vTaskSwitchContext s = Some (s\<lparr>xYieldPending := False, tcb := e, lists := ls,
      pxCurrentTCB := Some t, FreeRTOS_errno := f\<rparr>)"
    "pxContainer (lists s) (xStateListItem t) = Some p"
    "kinv T D {} (s\<lparr>xYieldPending := False, tcb := e, lists := ls, pxCurrentTCB := Some t, FreeRTOS_errno := f\<rparr>)"
    "pxContainer ls = pxContainer (lists s)"
    by (rule switch_context [OF inv_kinv [OF k] p True]) blast
  have "p < 32" using p by (simp add: ready_top_def)
  then show ?thesis using r by (simp add: kinv_empty irq_frame_def is_ready_def)
next
  case False
  then have "vTaskSwitchContext s = Some (s\<lparr>xYieldPending := True\<rparr>)" by (simp add: vTaskSwitchContext_def)
  then show ?thesis using yield_pending_inv [OF k, of True] False by (simp add: irq_frame_def is_ready_def)
qed

lemma soft_irq:
  assumes k: "kernel_inv T D s" and i: "is_ready s i"
  shows "\<exists>s'. riscv_soft_irq_handler s = Some s' \<and> kernel_inv T D s' \<and> irq_frame s s'"
proof -
  define s0 where "s0 = (if msip_reg s \<noteq> None then s\<lparr>msip_reg := Some 0\<rparr> else s)"
  have k0: "kernel_inv T D s0" by (rule inv_step [OF kinv_cong [OF inv_kinv [OF k]]]) (simp_all add: s0_def)
  have f0: "is_ready s0 u = is_ready s u" "uxSchedulerSuspended s0 = uxSchedulerSuspended s"
    "xSchedulerRunning s0 = xSchedulerRunning s" "msip_reg s0 = None \<longleftrightarrow> msip_reg s = None" "pxCurrentTCB s0 = pxCurrentTCB s" for u
    by (simp_all add: s0_def is_ready_def)
  from switch_irq [OF k0, of i] i f0 obtain s' where s': "vTaskSwitchContext s0 = Some s'" "kernel_inv T D s'" "irq_frame s0 s'"
    "uxSchedulerSuspended s0 = 0 \<longrightarrow> (\<exists>c. pxCurrentTCB s' = Some c \<and> is_ready s' c)" by blast
  have "riscv_soft_irq_handler s = Some s'" unfolding riscv_soft_irq_handler_def Let_def s0_def [symmetric] by (rule s'(1))
  moreover have "irq_frame s s'" using s'(3,4) by (auto simp: irq_frame_def f0)
  ultimately show ?thesis using s'(2) by blast
qed

lemma timer_irq:
  assumes k: "kernel_inv T D s" and i: "is_ready s i"
  shows "\<exists>s'. timer_interrupt s = Some s' \<and> kernel_inv T D s' \<and> irq_frame s s'"
proof (cases "uxSchedulerSuspended s = 0")
  case False
  have "kernel_inv T D (s\<lparr>xPendedTicks := xPendedTicks s + 1\<rparr>)"
    by (rule inv_step [OF kinv_cong [OF inv_kinv [OF k]]]) simp_all
  then show ?thesis using False by (simp add: timer_interrupt_def xTaskIncrementTick_def irq_frame_def is_ready_def)
next
  case True
  obtain c where c: "pxCurrentTCB s = Some c" by (rule current_task [OF k])
  obtain sw s1 where r: "xTaskIncrementTick s = Some (sw, s1)" "kernel_inv T D s1" "pxCurrentTCB s1 = pxCurrentTCB s"
    "uxSchedulerSuspended s1 = 0" "xSchedulerRunning s1 = xSchedulerRunning s" "msip_reg s1 = msip_reg s"
    "\<And>t. pxContainer (lists s1) (xStateListItem t) =
       (if due s t then Some (unat (uxPriority (tcb s t))) else pxContainer (lists s) (xStateListItem t))"
    using increment_tick [OF k True c] by blast
  have rd: "is_ready s u \<Longrightarrow> is_ready s1 u" for u
    using r(7) [of u] by (auto simp: is_ready_def due_def)
  have f1: "irq_frame s s1" using r(3-6) rd True by (simp add: irq_frame_def)
  show ?thesis
  proof (cases sw)
    case False
    then show ?thesis using r(1,2) f1 by (simp add: timer_interrupt_def)
  next
    case sw: True
    obtain s2 where s2: "vTaskSwitchContext s1 = Some s2" "kernel_inv T D s2" "irq_frame s1 s2"
      "uxSchedulerSuspended s1 = 0 \<longrightarrow> (\<exists>c. pxCurrentTCB s2 = Some c \<and> is_ready s2 c)"
      using switch_irq [OF r(2) rd [OF i]] by blast
    have "irq_frame s s2" using s2(3,4) f1 rd r(4) True by (auto simp: irq_frame_def)
    then show ?thesis using s2(1,2) r(1) sw by (simp add: timer_interrupt_def)
  qed
qed

subsection \<open>The calls\<close>

text \<open>
  The calls a task or an interrupt may issue. A task that waits for a kernel object runs with
  the scheduler suspended until it is on the event list; it then resumes the scheduler and, if
  that did not switch, yields: \<open>ResumeAndYield\<close>.
\<close>

datatype call =
    Delay u64 | DelayUntil u64 u64 | Suspend "nat option" | Resume "nat option" | PrioritySet "nat option" u64
  | DeleteTask nat | DeleteSelf | Create "u8 list option" u64 nat nat | CreateStatic "u8 list option" u64 nat nat
  | SuspendAll | ResumeAll | ResumeAndYield | Yield | MissedYield | CatchUp u64 | IdleRound
  | PlaceOnEventList nat u64 | PlaceOnUnordered nat u64 u64 | PlaceRestricted nat u64 bool
  | RemoveFromEventList nat | RemoveFromUnordered nat u64
  | TakeEnter nat u64 | TakeLeave nat bool | WaitEnter nat u32 u64 | WaitLeave nat u32
  | Notify nat nat u32 eNotifyAction | NotifyFromISR nat nat u32 eNotifyAction | GiveFromISR nat nat | ResumeFromISR nat
  | StateClear "nat option" nat | ValueClear "nat option" nat u32 | ResetEventValue
  | IncrementHeld | Inherit nat | Disinherit nat | DisinheritTimeout nat u64 | TimerInterrupt | SoftInterrupt

definition resume_and_yield :: "kernel \<Rightarrow> kernel option" where
  "resume_and_yield s = do { (y, s) \<leftarrow> xTaskResumeAll s; Some (if \<not> y then portYIELD s else s) }"

text \<open>The set of tasks is part of the state: it grows and shrinks with creation and deletion.\<close>

fun exec_call :: "nat \<Rightarrow> call \<Rightarrow> nat set \<times> kernel \<Rightarrow> (nat set \<times> kernel) option" where
  "exec_call idle (Delay n) (T, s) = map_option (Pair T) (vTaskDelay n s)"
| "exec_call idle (DelayUntil p n) (T, s) = map_option (\<lambda>(_, _, s). (T, s)) (xTaskDelayUntil p n s)"
| "exec_call idle (Suspend h) (T, s) = map_option (Pair T) (vTaskSuspend h s)"
| "exec_call idle (Resume h) (T, s) = map_option (Pair T) (vTaskResume h s)"
| "exec_call idle (PrioritySet h p) (T, s) = map_option (Pair T) (vTaskPrioritySet h p s)"
| "exec_call idle (DeleteTask t) (T, s) = map_option (Pair (T - {t})) (vTaskDelete (Some t) s)"
| "exec_call idle DeleteSelf (T, s) = map_option (Pair T) (vTaskDelete None s)"
| "exec_call idle (Create nm p st t) (T, s) = map_option (\<lambda>(_, s). (insert t T, s)) (xTaskCreate nm p (Some st) (Some t) s)"
| "exec_call idle (CreateStatic nm p st t) (T, s) = map_option (\<lambda>(_, s). (insert t T, s)) (xTaskCreateStatic nm p (Some st) (Some t) s)"
| "exec_call idle SuspendAll (T, s) = Some (T, vTaskSuspendAll s)"
| "exec_call idle ResumeAll (T, s) = map_option (\<lambda>(_, s). (T, s)) (xTaskResumeAll s)"
| "exec_call idle ResumeAndYield (T, s) = map_option (Pair T) (resume_and_yield s)"
| "exec_call idle Yield (T, s) = Some (T, portYIELD s)"
| "exec_call idle MissedYield (T, s) = Some (T, vTaskMissedYield s)"
| "exec_call idle (CatchUp n) (T, s) = map_option (\<lambda>(_, s). (T, s)) (xTaskCatchUpTicks n s)"
| "exec_call idle IdleRound (T, s) = map_option (Pair {t \<in> T. alive s t}) (prvIdleTask s)"
| "exec_call idle (PlaceOnEventList l n) (T, s) = map_option (Pair T) (vTaskPlaceOnEventList l n s)"
| "exec_call idle (PlaceOnUnordered l v n) (T, s) = map_option (Pair T) (vTaskPlaceOnUnorderedEventList l v n s)"
| "exec_call idle (PlaceRestricted l n b) (T, s) = map_option (Pair T) (vTaskPlaceOnEventListRestricted l n b s)"
| "exec_call idle (RemoveFromEventList l) (T, s) = map_option (\<lambda>(_, s). (T, s)) (xTaskRemoveFromEventList l s)"
| "exec_call idle (RemoveFromUnordered t v) (T, s) =
     map_option (Pair T) (vTaskRemoveFromUnorderedEventList (xEventListItem t) v s)"
| "exec_call idle (TakeEnter i n) (T, s) = map_option (Pair T) (ulTaskGenericNotifyTake_enter i n s)"
| "exec_call idle (TakeLeave i b) (T, s) = map_option (\<lambda>(_, s). (T, s)) (ulTaskGenericNotifyTake_leave i b s)"
| "exec_call idle (WaitEnter i b n) (T, s) = map_option (Pair T) (xTaskGenericNotifyWait_enter i b n s)"
| "exec_call idle (WaitLeave i b) (T, s) = map_option (\<lambda>(_, _, s). (T, s)) (xTaskGenericNotifyWait_leave i b s)"
| "exec_call idle (Notify t i v a) (T, s) = map_option (\<lambda>(_, _, s). (T, s)) (xTaskGenericNotify t i v a s)"
| "exec_call idle (NotifyFromISR t i v a) (T, s) =
     map_option (\<lambda>(_, _, _, s). (T, s)) (xTaskGenericNotifyFromISR t i v a s)"
| "exec_call idle (GiveFromISR t i) (T, s) = map_option (\<lambda>(_, s). (T, s)) (vTaskGenericNotifyGiveFromISR t i s)"
| "exec_call idle (ResumeFromISR t) (T, s) = map_option (\<lambda>(_, s). (T, s)) (xTaskResumeFromISR t s)"
| "exec_call idle (StateClear h i) (T, s) = map_option (\<lambda>(_, s). (T, s)) (xTaskGenericNotifyStateClear h i s)"
| "exec_call idle (ValueClear h i b) (T, s) = map_option (\<lambda>(_, s). (T, s)) (ulTaskGenericNotifyValueClear h i b s)"
| "exec_call idle ResetEventValue (T, s) = map_option (\<lambda>(_, s). (T, s)) (uxTaskResetEventItemValue s)"
| "exec_call idle IncrementHeld (T, s) = Some (T, snd (pvTaskIncrementMutexHeldCount s))"
| "exec_call idle (Inherit t) (T, s) = map_option (\<lambda>(_, s). (T, s)) (xTaskPriorityInherit (Some t) s)"
| "exec_call idle (Disinherit t) (T, s) = map_option (\<lambda>(_, s). (T, s)) (xTaskPriorityDisinherit (Some t) s)"
| "exec_call idle (DisinheritTimeout t p) (T, s) = map_option (Pair T) (vTaskPriorityDisinheritAfterTimeout (Some t) p s)"
| "exec_call idle TimerInterrupt (T, s) = map_option (Pair T) (timer_interrupt s)"
| "exec_call idle SoftInterrupt (T, s) = map_option (Pair T) (riscv_soft_irq_handler s)"

text \<open>
  When a call may be issued. \<open>active\<close>: the running task is ready and no software interrupt is
  pending, as it would be taken at once. A task may wait, be suspended or delete itself only while
  the scheduler is not suspended; the idle task never does any of these.
\<close>

definition running :: "kernel \<Rightarrow> nat \<Rightarrow> bool" where
  "running s c \<longleftrightarrow> pxCurrentTCB s = Some c \<and> is_ready s c \<and> msip_reg s \<noteq> Some 1"

definition active :: "kernel \<Rightarrow> bool" where
  "active s \<longleftrightarrow> (case pxCurrentTCB s of None \<Rightarrow> False | Some c \<Rightarrow> running s c)"

definition may_block :: "nat \<Rightarrow> kernel \<Rightarrow> bool" where
  "may_block idle s \<longleftrightarrow> active s \<and> pxCurrentTCB s \<noteq> Some idle \<and> uxSchedulerSuspended s = 0"

text \<open>On the way to an event list.\<close>

definition may_place :: "nat \<Rightarrow> nat set \<Rightarrow> nat \<Rightarrow> kernel \<Rightarrow> bool" where
  "may_place idle D l s \<longleftrightarrow> active s \<and> pxCurrentTCB s \<noteq> Some idle \<and> uxSchedulerSuspended s \<noteq> 0 \<and> 36 < l \<and> l \<in> D \<and>
     (\<forall>c. pxCurrentTCB s = Some c \<longrightarrow> pxContainer (lists s) (xEventListItem c) = None)"

definition notify_index :: "nat \<Rightarrow> nat \<Rightarrow> kernel \<Rightarrow> bool" where
  "notify_index t i s \<longleftrightarrow> i < length (ulNotifiedValue (tcb s t)) \<and> i < length (ucNotifyState (tcb s t))"

definition current_index :: "nat \<Rightarrow> kernel \<Rightarrow> bool" where
  "current_index i s \<longleftrightarrow> (case pxCurrentTCB s of None \<Rightarrow> False | Some c \<Rightarrow> notify_index c i s)"

text \<open>
  Two conditions are not of the interface but come with the code. A notification from an interrupt
  puts a task that waits for one on a list by its event item, and relies on that item being in none
  (the code asserts it); a task that does not wait for it may be on any list. And \<open>vTaskPriorityDisinheritAfterTimeout\<close> may not
  change the priority of a task that is alone in its ready list (\<open>Task_Props\<close> shows what
  happens otherwise).
\<close>

definition notifiable :: "nat \<Rightarrow> nat \<Rightarrow> kernel \<Rightarrow> bool" where
  "notifiable t i s \<longleftrightarrow> notify_index t i s \<and>
     (notify_state t i s = Some taskWAITING_NOTIFICATION \<longrightarrow> alive s t \<and> pxContainer (lists s) (xEventListItem t) = None)"

definition timeout_priority :: "nat \<Rightarrow> u64 \<Rightarrow> kernel \<Rightarrow> u64" where
  "timeout_priority t p s = (if uxBasePriority (tcb s t) < p then p else uxBasePriority (tcb s t))"

definition disinherits_cleanly :: "nat \<Rightarrow> u64 \<Rightarrow> kernel \<Rightarrow> bool" where
  "disinherits_cleanly t p s \<longleftrightarrow> p < 32 \<and> (is_ready s t \<and> uxMutexesHeld (tcb s t) = 1 \<and> uxPriority (tcb s t) \<noteq> timeout_priority t p s \<longrightarrow>
     (\<exists>u. u \<noteq> t \<and> pxContainer (lists s) (xStateListItem u) = pxContainer (lists s) (xStateListItem t)))"

fun enabled_call :: "nat \<Rightarrow> nat set \<Rightarrow> call \<Rightarrow> nat set \<times> kernel \<Rightarrow> bool" where
  "enabled_call idle D (Delay n) (T, s) = may_block idle s"
| "enabled_call idle D (DelayUntil p n) (T, s) = may_block idle s"
| "enabled_call idle D (Suspend h) (T, s) = (active s \<and>
     (\<exists>t\<in>T - {idle}. prvGetTCBFromHandle s h = Some t \<and> alive s t \<and> (pxCurrentTCB s = Some t \<longrightarrow> uxSchedulerSuspended s = 0)))"
| "enabled_call idle D (Resume h) (T, s) = (active s \<and> (case h of None \<Rightarrow> True | Some t \<Rightarrow> t \<in> T))"
| "enabled_call idle D (PrioritySet h p) (T, s) = (active s \<and> (case h of None \<Rightarrow> True | Some t \<Rightarrow> t \<in> T))"
| "enabled_call idle D (DeleteTask t) (T, s) = (active s \<and> t \<in> T - {idle} \<and> alive s t \<and> pxCurrentTCB s \<noteq> Some t)"
| "enabled_call idle D DeleteSelf (T, s) = may_block idle s"
| "enabled_call idle D (Create nm p st t) (T, s) = (active s \<and> fresh_tcb T t nm s)"
| "enabled_call idle D (CreateStatic nm p st t) (T, s) = (active s \<and> fresh_tcb T t nm s)"
| "enabled_call idle D SuspendAll (T, s) = (active s \<and> uxSchedulerSuspended s + 1 \<noteq> 0)"
| "enabled_call idle D ResumeAll (T, s) = (active s \<and> uxSchedulerSuspended s \<noteq> 0)"
| "enabled_call idle D ResumeAndYield (T, s) = (uxSchedulerSuspended s \<noteq> 0)"
| "enabled_call idle D Yield (T, s) = active s"
| "enabled_call idle D MissedYield (T, s) = True"
| "enabled_call idle D (CatchUp n) (T, s) = (active s \<and> uxSchedulerSuspended s = 0)"
| "enabled_call idle D IdleRound (T, s) = (active s \<and> pxCurrentTCB s = Some idle)"
| "enabled_call idle D (PlaceOnEventList l n) (T, s) = (may_place idle D l s \<and> n \<noteq> 0)"
| "enabled_call idle D (PlaceOnUnordered l v n) (T, s) = (may_place idle D l s \<and> n \<noteq> 0)"
| "enabled_call idle D (PlaceRestricted l n b) (T, s) = (may_place idle D l s \<and> (n \<noteq> 0 \<or> b))"
| "enabled_call idle D (RemoveFromEventList l) (T, s) = (36 < l \<and> l \<in> D \<and> members (lists s) l \<noteq> [])"
| "enabled_call idle D (RemoveFromUnordered t v) (T, s) = (pxContainer (lists s) (xEventListItem t) \<noteq> None)"
| "enabled_call idle D (TakeEnter i n) (T, s) = (may_block idle s \<and> current_index i s)"
| "enabled_call idle D (TakeLeave i b) (T, s) = (active s \<and> current_index i s)"
| "enabled_call idle D (WaitEnter i b n) (T, s) = (may_block idle s \<and> current_index i s)"
| "enabled_call idle D (WaitLeave i b) (T, s) = (active s \<and> current_index i s)"
| "enabled_call idle D (Notify t i v a) (T, s) = (active s \<and> t \<in> T \<and> alive s t \<and> notify_index t i s)"
| "enabled_call idle D (NotifyFromISR t i v a) (T, s) = (t \<in> T \<and> notifiable t i s)"
| "enabled_call idle D (GiveFromISR t i) (T, s) = (t \<in> T \<and> notifiable t i s)"
| "enabled_call idle D (ResumeFromISR t) (T, s) = (t \<in> T)"
| "enabled_call idle D (StateClear h i) (T, s) = (active s \<and> (\<exists>t\<in>T. prvGetTCBFromHandle s h = Some t \<and> notify_index t i s))"
| "enabled_call idle D (ValueClear h i b) (T, s) = (active s \<and> (\<exists>t\<in>T. prvGetTCBFromHandle s h = Some t \<and> notify_index t i s))"
| "enabled_call idle D ResetEventValue (T, s) = active s"
| "enabled_call idle D IncrementHeld (T, s) = active s"
| "enabled_call idle D (Inherit t) (T, s) = (active s \<and> t \<in> T)"
| "enabled_call idle D (Disinherit t) (T, s) = (active s \<and> t \<in> T \<and> is_ready s t)"
| "enabled_call idle D (DisinheritTimeout t p) (T, s) = (active s \<and> t \<in> T \<and> disinherits_cleanly t p s)"
| "enabled_call idle D TimerInterrupt (T, s) = True"
| "enabled_call idle D SoftInterrupt (T, s) = (msip_reg s = Some 1)"

subsection \<open>The invariant of the system\<close>

text \<open>
  The idle task is always ready, so there is always a task to run; the running task is ready, or
  a switch is pending, or it holds the scheduler.
\<close>

definition system_inv :: "nat \<Rightarrow> nat set \<Rightarrow> nat set \<times> kernel \<Rightarrow> bool" where
  "system_inv idle D = (\<lambda>(T, s). kernel_inv T D s \<and> idle \<in> T \<and> is_ready s idle \<and> xSchedulerRunning s \<and> msip_reg s \<noteq> None \<and>
     ((\<exists>c. pxCurrentTCB s = Some c \<and> is_ready s c) \<or> msip_reg s = Some 1 \<or> uxSchedulerSuspended s \<noteq> 0))"

lemma system_frame:
  assumes i: "system_inv idle D (T, s)" and k: "kernel_inv T' D s'" and f: "frame X s s'" and idle: "idle \<notin> X" "idle \<in> T'"
    and r: "(\<exists>c. pxCurrentTCB s = Some c \<and> is_ready s c \<and> is_ready s' c) \<or> msip_reg s' = Some 1 \<or> uxSchedulerSuspended s' \<noteq> 0"
  shows "system_inv idle D (T', s')"
  using assms by (auto simp: system_inv_def frame_def msip_le_def)

lemma system_keep:
  assumes i: "system_inv idle D (T, s)" and k: "kernel_inv T D s'" and f: "frame {} s s'"
    and u: "uxSchedulerSuspended s' = uxSchedulerSuspended s"
  shows "system_inv idle D (T, s')"
proof -
  have "msip_reg s = Some 1 \<Longrightarrow> msip_reg s' = Some 1" using f by (auto simp: frame_def msip_le_def)
  then show ?thesis using i k f u unfolding system_inv_def frame_def msip_le_def by auto
qed

lemma system_irq:
  assumes i: "system_inv idle D (T, s)" and k: "kernel_inv T D s'" and f: "irq_frame s s'"
  shows "system_inv idle D (T, s')"
  using assms unfolding system_inv_def irq_frame_def by auto

subsection \<open>Every call returns and keeps the invariant\<close>

lemma activeE:
  assumes "active s"
  obtains c where "pxCurrentTCB s = Some c" "is_ready s c"
  using assms by (auto simp: active_def running_def split: option.splits)

lemma ready_alive: "is_ready s t \<Longrightarrow> alive s t"
  by (auto simp: is_ready_def alive_def)

lemma system_kernel: "system_inv idle D (T, s) \<Longrightarrow> kernel_inv T D s"
  by (simp add: system_inv_def)

lemma msip_yielded: "system_inv idle D (T, s) \<Longrightarrow> (msip_reg s \<noteq> None \<longrightarrow> msip_reg s' = Some 1) \<Longrightarrow> msip_reg s' = Some 1"
  by (simp add: system_inv_def)

definition call_ok :: "nat \<Rightarrow> nat set \<Rightarrow> call \<Rightarrow> nat set \<times> kernel \<Rightarrow> bool" where
  "call_ok idle D c x \<longleftrightarrow> (\<exists>x'. exec_call idle c x = Some x' \<and> system_inv idle D x')"

lemma blocking_calls:
  assumes i: "system_inv idle D (T, s)" and m: "may_block idle s"
  shows "call_ok idle D (Delay n) (T, s)" "call_ok idle D (DelayUntil p n) (T, s)" "call_ok idle D DeleteSelf (T, s)"
proof -
  obtain c where c: "pxCurrentTCB s = Some c" "is_ready s c" using activeE m by (auto simp: may_block_def)
  have un: "uxSchedulerSuspended s + 1 \<noteq> 0" and ci: "idle \<notin> {c}" using m c by (auto simp: may_block_def)
  have idle: "idle \<in> T" using i by (simp add: system_inv_def)
  note k = system_kernel [OF i]
  obtain s1 where s1: "vTaskDelay n s = Some s1" "kernel_inv T D s1" "frame {c} s s1" "msip_reg s \<noteq> None \<longrightarrow> msip_reg s1 = Some 1"
    using task_delay [OF k c un] by blast
  have "system_inv idle D (T, s1)"
    by (rule system_frame [OF i s1(2,3) ci idle]) (use msip_yielded [OF i s1(4)] in simp)
  then show "call_ok idle D (Delay n) (T, s)" using s1(1) by (simp add: call_ok_def)
  obtain b w s2 where s2: "xTaskDelayUntil p n s = Some (b, w, s2)" "kernel_inv T D s2" "frame {c} s s2"
    "msip_reg s \<noteq> None \<longrightarrow> msip_reg s2 = Some 1"
    using task_delay_until [OF k c un, of p n] by blast
  have "system_inv idle D (T, s2)"
    by (rule system_frame [OF i s2(2,3) ci idle]) (use msip_yielded [OF i s2(4)] in simp)
  then show "call_ok idle D (DelayUntil p n) (T, s)" using s2(1) by (simp add: call_ok_def)
  obtain s3 where s3: "vTaskDelete None s = Some s3" "kernel_inv T D s3" "frame {c} s s3"
    "xSchedulerRunning s \<and> msip_reg s \<noteq> None \<longrightarrow> msip_reg s3 = Some 1"
    using task_delete_self [OF k c(1) ready_alive [OF c(2)]] by blast
  have "system_inv idle D (T, s3)"
    by (rule system_frame [OF i s3(2,3) ci idle]) (use i s3(4) in \<open>simp add: system_inv_def\<close>)
  then show "call_ok idle D DeleteSelf (T, s)" using s3(1) by (simp add: call_ok_def)
qed

lemma notify_waits:
  assumes i: "system_inv idle D (T, s)" and m: "may_block idle s" and x: "current_index j s"
  shows "call_ok idle D (TakeEnter j n) (T, s)" "call_ok idle D (WaitEnter j b n) (T, s)"
proof -
  obtain c where c: "pxCurrentTCB s = Some c" "is_ready s c" using activeE m by (auto simp: may_block_def)
  have ci: "idle \<notin> {c}" using m c by (auto simp: may_block_def)
  have idle: "idle \<in> T" using i by (simp add: system_inv_def)
  have len: "j < length (ulNotifiedValue (tcb s c))" "j < length (ucNotifyState (tcb s c))"
    using x c(1) by (simp_all add: current_index_def notify_index_def)
  have keep: "system_inv idle D (T, s')" if "kernel_inv T D s'" "blocked c s s'" for s'
    by (rule system_frame [OF i that(1) _ ci idle]) (use that(2) i c in \<open>auto simp: blocked_def system_inv_def\<close>)
  show "call_ok idle D (TakeEnter j n) (T, s)"
    using notify_take_enter [OF system_kernel [OF i] c len, of n] keep by (auto simp: call_ok_def)
  show "call_ok idle D (WaitEnter j b n) (T, s)"
    using notify_wait_enter [OF system_kernel [OF i] c len, of b n] keep by (auto simp: call_ok_def)
qed

lemma notify_leaves:
  assumes i: "system_inv idle D (T, s)" and x: "current_index j s"
  shows "call_ok idle D (TakeLeave j b) (T, s)" "call_ok idle D (WaitLeave j w) (T, s)"
proof -
  obtain c where c: "pxCurrentTCB s = Some c" "j < length (ulNotifiedValue (tcb s c))" "j < length (ucNotifyState (tcb s c))"
    using x by (auto simp: current_index_def notify_index_def split: option.splits)
  show "call_ok idle D (TakeLeave j b) (T, s)"
    using notify_take_leave [OF system_kernel [OF i] c, of b] system_keep [OF i] by (auto simp: call_ok_def)
  show "call_ok idle D (WaitLeave j w) (T, s)"
    using notify_wait_leave [OF system_kernel [OF i] c, of w] system_keep [OF i] by (auto simp: call_ok_def)
qed

lemma placing_calls:
  assumes i: "system_inv idle D (T, s)" and m: "may_place idle D l s"
  shows "n \<noteq> 0 \<Longrightarrow> call_ok idle D (PlaceOnEventList l n) (T, s)" "n \<noteq> 0 \<Longrightarrow> call_ok idle D (PlaceOnUnordered l v n) (T, s)"
    "n \<noteq> 0 \<or> b \<Longrightarrow> call_ok idle D (PlaceRestricted l n b) (T, s)"
proof -
  obtain c where c: "pxCurrentTCB s = Some c" "is_ready s c" using activeE m by (auto simp: may_place_def)
  have p: "pxContainer (lists s) (xEventListItem c) = None" "36 < l" "l \<in> D" "idle \<notin> {c}" "uxSchedulerSuspended s \<noteq> 0"
    using m c by (auto simp: may_place_def)
  have idle: "idle \<in> T" using i by (simp add: system_inv_def)
  have keep: "system_inv idle D (T, s')"
    if "kernel_inv T D s'" "frame {c} s s'" "uxSchedulerSuspended s' = uxSchedulerSuspended s" for s'
    by (rule system_frame [OF i that(1,2) p(4) idle]) (use that(3) p(5) in simp)
  note k = system_kernel [OF i]
  show "call_ok idle D (PlaceOnEventList l n) (T, s)" if "n \<noteq> 0"
    using place_on_event_list [OF k c p(1-3) that] keep by (auto simp: call_ok_def)
  show "call_ok idle D (PlaceOnUnordered l v n) (T, s)" if "n \<noteq> 0"
    using place_on_unordered_event_list [OF k c p(1-3) that, of v] keep by (auto simp: call_ok_def)
  show "call_ok idle D (PlaceRestricted l n b) (T, s)" if "n \<noteq> 0 \<or> b"
    using place_on_event_list_restricted [OF k c p(1-3) that] keep by (auto simp: call_ok_def)
qed

lemma task_calls:
  assumes i: "system_inv idle D (T, s)" and a: "active s"
  shows "(case h of None \<Rightarrow> True | Some t \<Rightarrow> t \<in> T) \<Longrightarrow> call_ok idle D (Resume h) (T, s)"
    "(case h of None \<Rightarrow> True | Some t \<Rightarrow> t \<in> T) \<Longrightarrow> call_ok idle D (PrioritySet h p) (T, s)"
    "t \<in> T \<Longrightarrow> call_ok idle D (Inherit t) (T, s)" "t \<in> T \<Longrightarrow> is_ready s t \<Longrightarrow> call_ok idle D (Disinherit t) (T, s)"
    "t \<in> T \<Longrightarrow> disinherits_cleanly t p s \<Longrightarrow> call_ok idle D (DisinheritTimeout t p) (T, s)"
    "t \<in> T \<Longrightarrow> alive s t \<Longrightarrow> notify_index t j s \<Longrightarrow> call_ok idle D (Notify t j v w) (T, s)"
    "t \<in> T - {idle} \<Longrightarrow> alive s t \<Longrightarrow> pxCurrentTCB s \<noteq> Some t \<Longrightarrow> call_ok idle D (DeleteTask t) (T, s)"
proof -
  obtain c where c: "pxCurrentTCB s = Some c" "is_ready s c" by (rule activeE [OF a])
  note k = system_kernel [OF i]
  have cT: "c \<in> T" using k c by (auto simp: kernel_inv_def)
  have idle: "idle \<in> T" using i by (simp add: system_inv_def)
  show "call_ok idle D (Resume h) (T, s)" if "case h of None \<Rightarrow> True | Some t \<Rightarrow> t \<in> T"
  proof (cases h)
    case None
    then show ?thesis using i by (simp add: call_ok_def vTaskResume_def)
  next
    case (Some t)
    then show ?thesis using task_resume [OF k, of t] that system_keep [OF i] by (auto simp: call_ok_def)
  qed
  show "call_ok idle D (PrioritySet h p) (T, s)" if hT: "case h of None \<Rightarrow> True | Some t \<Rightarrow> t \<in> T"
  proof -
    obtain t where t: "prvGetTCBFromHandle s h = Some t" "t \<in> T"
      using hT c(1) cT by (cases h) (auto simp: prvGetTCBFromHandle_def)
    show ?thesis using priority_set [OF k t, of p] system_keep [OF i] by (auto simp: call_ok_def)
  qed
  show "call_ok idle D (Inherit t) (T, s)" if "t \<in> T"
    using priority_inherit [OF k that c(1)] system_keep [OF i] by (auto simp: call_ok_def)
  show "call_ok idle D (Disinherit t) (T, s)" if "t \<in> T" "is_ready s t"
    using priority_disinherit [OF k that] system_keep [OF i] by (auto simp: call_ok_def)
  show "call_ok idle D (DisinheritTimeout t p) (T, s)" if "t \<in> T" "disinherits_cleanly t p s"
    using priority_disinherit_timeout [OF k that(1) _ timeout_priority_def] that(2) system_keep [OF i]
    by (fastforce simp: call_ok_def disinherits_cleanly_def)
  show "call_ok idle D (Notify t j v w) (T, s)" if "t \<in> T" "alive s t" "notify_index t j s"
  proof -
    have "j < length (ulNotifiedValue (tcb s t))" "j < length (ucNotifyState (tcb s t))"
      using that(3) by (simp_all add: notify_index_def)
    from task_notify [OF k that(1,2) this, of v w] show ?thesis using system_keep [OF i] by (auto simp: call_ok_def)
  qed
  show "call_ok idle D (DeleteTask t) (T, s)" if tT: "t \<in> T - {idle}" "alive s t" "pxCurrentTCB s \<noteq> Some t"
  proof -
    obtain s' where s': "vTaskDelete (Some t) s = Some s'" "kernel_inv (T - {t}) D s'" "frame {t} s s'"
      "uxSchedulerSuspended s' = uxSchedulerSuspended s"
      using task_delete_other [OF k _ tT(2,3)] tT(1) by blast
    have "is_ready s' c" using s'(3) c tT(3) by (auto simp: frame_def)
    then have "system_inv idle D (T - {t}, s')"
      by (intro system_frame [OF i s'(2,3)]) (use tT(1) idle c in auto)
    then show ?thesis using s'(1) by (simp add: call_ok_def)
  qed
qed

lemma suspending:
  assumes i: "system_inv idle D (T, s)" and a: "active s" and t: "t \<in> T - {idle}" "prvGetTCBFromHandle s h = Some t" "alive s t"
    and u: "pxCurrentTCB s = Some t \<longrightarrow> uxSchedulerSuspended s = 0"
  shows "call_ok idle D (Suspend h) (T, s)"
proof -
  obtain c where c: "pxCurrentTCB s = Some c" "is_ready s c" by (rule activeE [OF a])
  have run: "xSchedulerRunning s" and idle: "idle \<in> T" and ms: "msip_reg s \<noteq> None" using i by (simp_all add: system_inv_def)
  obtain s' where s': "vTaskSuspend h s = Some s'" "kernel_inv T D s'" "frame {t} s s'"
    "pxCurrentTCB s = Some t \<longrightarrow> msip_reg s \<noteq> None \<longrightarrow> msip_reg s' = Some 1"
    using task_suspend [OF system_kernel [OF i] t(2) _ t(3) run] t(1) by blast
  have "c \<noteq> t \<Longrightarrow> is_ready s' c" using s'(3) c(2) by (auto simp: frame_def)
  then have "(\<exists>c. pxCurrentTCB s = Some c \<and> is_ready s c \<and> is_ready s' c) \<or> msip_reg s' = Some 1 \<or> uxSchedulerSuspended s' \<noteq> 0"
    using c s'(4) ms by (cases "c = t") auto
  then have "system_inv idle D (T, s')" by (intro system_frame [OF i s'(2,3) _ idle]) (use t(1) in simp_all)
  then show ?thesis using s'(1) by (simp add: call_ok_def)
qed

lemma prepared_task:
  fixes st v
  assumes k: "kernel_inv T D s" and t: "fresh_tcb T t nm s"
  defines "s0 \<equiv> set_tcb t (\<lambda>c. c\<lparr>pxStack := st, ucStaticallyAllocated := v\<rparr>) s"
  shows "\<exists>s1 s'. prvInitialiseNewTask nm p t s0 = Some s1 \<and> prvAddNewTaskToReadyList t s1 = Some s' \<and> kernel_inv (insert t T) D s' \<and>
    uxPriority (tcb s' t) = (if p \<ge> 32 then 31 else p) \<and> is_ready s' t \<and>
    (xSchedulerRunning s \<longrightarrow> frame {} s s' \<and> uxSchedulerSuspended s' = uxSchedulerSuspended s)"
proof -
  define q :: u64 where "q = (if p \<ge> 32 then 31 else p)"
  have q: "q < 32" unfolding q_def by (rule prio_cap)
  obtain name where "task_name nm (pcTaskName (tcb s0 t)) = Some name" using t by (auto simp: fresh_tcb_def s0_def)
  from initialise_new_task [OF this, of p, folded q_def] obtain s1 where c: "prvInitialiseNewTask nm p t s0 = Some s1"
    "initialised t q s0 s1" by blast
  have tf: "t \<notin> T" "t < 2 ^ 62" using t by (simp_all add: fresh_tcb_def)
  have k0: "kernel_inv T D s0" unfolding s0_def by (rule inv_step [OF kinv_tcb_other [OF inv_kinv [OF k]]]) simp_all
  obtain u where u: "pxCurrentTCB s0 = Some u" "u \<in> T" by (rule current_task [OF k0])
  from add_new_task [OF kinvD [OF inv_kinv [OF k0]] u tf c(2) q] obtain s' where s': "prvAddNewTaskToReadyList t s1 = Some s'"
    "kernel_inv (insert t T) D s'" "is_ready s' t" "pxContainer (lists s') = (pxContainer (lists s0))(xStateListItem t := Some (unat q))"
    "pxCurrentTCB s' = (if \<not> xSchedulerRunning s0 \<and> uxPriority (tcb s0 u) \<le> q then Some t else Some u)"
    "xSchedulerRunning s' = xSchedulerRunning s0" "uxSchedulerSuspended s' = uxSchedulerSuspended s0" "msip_le s0 s'"
    "uxPriority (tcb s' t) = q" by blast
  have l0: "lists s0 = lists s" "xSchedulerRunning s0 = xSchedulerRunning s" "uxSchedulerSuspended s0 = uxSchedulerSuspended s"
    "msip_reg s0 = msip_reg s" "pxCurrentTCB s0 = pxCurrentTCB s" by (simp_all add: s0_def)
  have "xSchedulerRunning s \<Longrightarrow> frame {} s s'"
    using s'(3-6,8) u(1) l0 by (auto simp: frame_def msip_le_def is_ready_def)
  then show ?thesis using s' c(1) l0 by (auto simp: q_def)
qed

lemma task_create:
  assumes k: "kernel_inv T D s" and t: "fresh_tcb T t nm s"
  shows "\<exists>s'. xTaskCreate nm p (Some st) (Some t) s = Some (Some t, s') \<and> kernel_inv (insert t T) D s' \<and>
      (xSchedulerRunning s \<longrightarrow> frame {} s s' \<and> uxSchedulerSuspended s' = uxSchedulerSuspended s)"
    "\<exists>s'. xTaskCreateStatic nm p (Some st) (Some t) s = Some (Some t, s') \<and> kernel_inv (insert t T) D s' \<and>
      (xSchedulerRunning s \<longrightarrow> frame {} s s' \<and> uxSchedulerSuspended s' = uxSchedulerSuspended s)"
proof -
  have two: "set_tcb t (\<lambda>c. c\<lparr>ucStaticallyAllocated := v\<rparr>) (set_tcb t (\<lambda>c. c\<lparr>pxStack := st\<rparr>) s) =
      set_tcb t (\<lambda>c. c\<lparr>pxStack := st, ucStaticallyAllocated := v\<rparr>) s" for v
    by (simp add: set_tcb_def)
  show "\<exists>s'. xTaskCreate nm p (Some st) (Some t) s = Some (Some t, s') \<and> kernel_inv (insert t T) D s' \<and>
      (xSchedulerRunning s \<longrightarrow> frame {} s s' \<and> uxSchedulerSuspended s' = uxSchedulerSuspended s)"
    using prepared_task [OF k t, where st = st and v = tskDYNAMICALLY_ALLOCATED_STACK_AND_TCB and p = p] by (auto simp: xTaskCreate_def two)
  show "\<exists>s'. xTaskCreateStatic nm p (Some st) (Some t) s = Some (Some t, s') \<and> kernel_inv (insert t T) D s' \<and>
      (xSchedulerRunning s \<longrightarrow> frame {} s s' \<and> uxSchedulerSuspended s' = uxSchedulerSuspended s)"
    using prepared_task [OF k t, where st = st and v = tskSTATICALLY_ALLOCATED_STACK_AND_TCB and p = p] by (auto simp: xTaskCreateStatic_def two)
qed

text \<open>Calls that change only fields of a task no list depends on.\<close>

lemma field_calls:
  assumes i: "system_inv idle D (T, s)" and a: "active s"
  shows "\<exists>t\<in>T. prvGetTCBFromHandle s h = Some t \<and> notify_index t j s \<Longrightarrow> call_ok idle D (StateClear h j) (T, s)"
    "\<exists>t\<in>T. prvGetTCBFromHandle s h = Some t \<and> notify_index t j s \<Longrightarrow> call_ok idle D (ValueClear h j b) (T, s)"
    "call_ok idle D ResetEventValue (T, s)" "call_ok idle D IncrementHeld (T, s)"
proof -
  obtain c where c: "pxCurrentTCB s = Some c" using activeE [OF a] by blast
  note k = system_kernel [OF i]
  have upd: "system_inv idle D (T, s')" if "notify_update t s s'" for t s'
    using system_keep [OF i notify_update(1) [OF that k] notify_update(2) [OF that]] notify_update(5) [OF that] by simp
  {
    assume "\<exists>t\<in>T. prvGetTCBFromHandle s h = Some t \<and> notify_index t j s"
    then obtain t where t: "prvGetTCBFromHandle s h = Some t" "j < length (ulNotifiedValue (tcb s t))" "j < length (ucNotifyState (tcb s t))"
      by (auto simp: notify_index_def)
    obtain v st s1 where n: "notify_value t j s = Some v" "notify_state t j s = Some st"
      "set_notify_state t j taskNOT_WAITING_NOTIFICATION s = Some s1"
      by (rule notify_writes [OF t(2,3), of taskNOT_WAITING_NOTIFICATION]) blast
    obtain s2 where s2: "set_notify_value t j (v AND NOT b) s = Some s2"
      using t(2) by (auto simp: set_notify_value_def set_at_def)
    show "call_ok idle D (StateClear h j) (T, s)"
      using i upd [OF set_notify(1) [OF n(3)]] n t(1) by (simp add: call_ok_def xTaskGenericNotifyStateClear_def ex_bool_eq)
    show "call_ok idle D (ValueClear h j b) (T, s)"
      using upd [OF set_notify(2) [OF s2]] n t(1) s2 by (simp add: call_ok_def ulTaskGenericNotifyValueClear_def)
  }
  let ?r = "set_item_value (xEventListItem c) (32 - uxPriority (tcb s c)) s"
  have "kernel_inv T D ?r" by (rule inv_step [OF kinv_event_value [OF inv_kinv [OF k]]])
  moreover have "frame {} s ?r" by (rule frame_same) (simp_all add: is_ready_def)
  ultimately show "call_ok idle D ResetEventValue (T, s)"
    using system_keep [OF i, of ?r] by (simp add: call_ok_def uxTaskResetEventItemValue_def c)
  let ?m = "set_tcb c (\<lambda>c. c\<lparr>uxMutexesHeld := uxMutexesHeld c + 1\<rparr>) s"
  have "kernel_inv T D ?m" by (rule inv_step [OF kinv_tcb_other [OF inv_kinv [OF k]]]) simp_all
  moreover have "frame {} s ?m" by (rule frame_same) (simp_all add: is_ready_def)
  ultimately show "call_ok idle D IncrementHeld (T, s)"
    using system_keep [OF i, of ?m] by (simp add: call_ok_def pvTaskIncrementMutexHeldCount_def c)
qed

lemma housekeeping:
  assumes i: "system_inv idle D (T, s)" and a: "active s"
  shows "fresh_tcb T t nm s \<Longrightarrow> call_ok idle D (Create nm p st t) (T, s)"
    "fresh_tcb T t nm s \<Longrightarrow> call_ok idle D (CreateStatic nm p st t) (T, s)"
    "uxSchedulerSuspended s + 1 \<noteq> 0 \<Longrightarrow> call_ok idle D SuspendAll (T, s)"
    "uxSchedulerSuspended s \<noteq> 0 \<Longrightarrow> call_ok idle D ResumeAll (T, s)" "call_ok idle D Yield (T, s)"
    "uxSchedulerSuspended s = 0 \<Longrightarrow> call_ok idle D (CatchUp n) (T, s)"
    "pxCurrentTCB s = Some idle \<Longrightarrow> call_ok idle D IdleRound (T, s)"
proof -
  obtain c where c: "pxCurrentTCB s = Some c" "is_ready s c" by (rule activeE [OF a])
  note k = system_kernel [OF i]
  have idle: "idle \<in> T" using i by (simp add: system_inv_def)
  have rc: "frame {} s s' \<Longrightarrow> is_ready s' c" for s' using c(2) by (simp add: frame_def)
  have keep: "system_inv idle D (T', s')" if "kernel_inv T' D s'" "frame {} s s'" "idle \<in> T'" for s' T'
    by (rule system_frame [OF i that(1,2) _ that(3)]) (use c rc [OF that(2)] in auto)
  show "call_ok idle D (Create nm p st t) (T, s)" if "fresh_tcb T t nm s"
  proof -
    have run: "xSchedulerRunning s" using i by (simp add: system_inv_def)
    obtain s' where s': "xTaskCreate nm p (Some st) (Some t) s = Some (Some t, s')" "kernel_inv (insert t T) D s'" "frame {} s s'"
      using task_create(1) [OF k \<open>fresh_tcb T t nm s\<close>, of p st] run by blast
    show ?thesis using s'(1) keep [OF s'(2,3)] idle by (simp add: call_ok_def)
  qed
  show "call_ok idle D (CreateStatic nm p st t) (T, s)" if "fresh_tcb T t nm s"
  proof -
    have run: "xSchedulerRunning s" using i by (simp add: system_inv_def)
    obtain s' where s': "xTaskCreateStatic nm p (Some st) (Some t) s = Some (Some t, s')" "kernel_inv (insert t T) D s'" "frame {} s s'"
      using task_create(2) [OF k \<open>fresh_tcb T t nm s\<close>, of p st] run by blast
    show ?thesis using s'(1) keep [OF s'(2,3)] idle by (simp add: call_ok_def)
  qed
  show "call_ok idle D SuspendAll (T, s)" if "uxSchedulerSuspended s + 1 \<noteq> 0"
    using keep [OF suspend_all_inv [OF k] suspend_frame idle] by (simp add: call_ok_def)
  show "call_ok idle D ResumeAll (T, s)" if "uxSchedulerSuspended s \<noteq> 0"
    using resume_all [OF k that] keep idle by (auto simp: call_ok_def)
  show "call_ok idle D Yield (T, s)"
    using keep [OF yield_inv [OF k] frame_yield idle] by (simp add: call_ok_def)
  show "call_ok idle D (CatchUp n) (T, s)" if "uxSchedulerSuspended s = 0"
  proof -
    have "uxSchedulerSuspended s + 1 \<noteq> 0" using that by simp
    from catch_up_ticks [OF k this, of n] keep idle show ?thesis by (auto simp: call_ok_def)
  qed
  show "call_ok idle D IdleRound (T, s)" if "pxCurrentTCB s = Some idle"
  proof -
    have ai: "alive s idle" using ready_alive i by (simp add: system_inv_def)
    obtain s' where s': "prvIdleTask s = Some s'" "kernel_inv {t \<in> T. alive s t} D s'" "frame {} s s'"
      using idle_round [OF k \<open>pxCurrentTCB s = Some idle\<close> ai] by blast
    show ?thesis using s'(1) keep [OF s'(2,3)] idle ai by (simp add: call_ok_def)
  qed
qed

lemma resuming:
  assumes i: "system_inv idle D (T, s)" and u: "uxSchedulerSuspended s \<noteq> 0"
  shows "call_ok idle D ResumeAndYield (T, s)"
proof -
  have ms: "msip_reg s \<noteq> None" and idle: "idle \<in> T" using i by (simp_all add: system_inv_def)
  obtain y s1 where r: "xTaskResumeAll s = Some (y, s1)" "kernel_inv T D s1" "frame {} s s1"
    "y \<and> msip_reg s \<noteq> None \<longrightarrow> msip_reg s1 = Some 1"
    using resume_all [OF system_kernel [OF i] u] by blast
  define s2 where "s2 = (if \<not> y then portYIELD s1 else s1)"
  have "msip_reg s1 \<noteq> None" using r(3) ms by (auto simp: frame_def msip_le_def)
  then have "msip_reg s2 = Some 1" using r(4) ms by (cases y) (auto simp: s2_def)
  moreover have "kernel_inv T D s2" "frame {} s s2"
    using r(2) yield_inv [OF r(2)] r(3) frame_yielded [OF r(3), of True] by (simp_all add: s2_def)
  ultimately have "system_inv idle D (T, s2)" by (intro system_frame [OF i, of T s2 "{}"]) (simp_all add: idle)
  moreover have "resume_and_yield s = Some s2" unfolding resume_and_yield_def r(1) s2_def by simp
  ultimately show ?thesis by (simp add: call_ok_def)
qed

lemma event_calls:
  assumes i: "system_inv idle D (T, s)"
  shows "36 < l \<Longrightarrow> l \<in> D \<Longrightarrow> members (lists s) l \<noteq> [] \<Longrightarrow> call_ok idle D (RemoveFromEventList l) (T, s)"
    "pxContainer (lists s) (xEventListItem t) \<noteq> None \<Longrightarrow> call_ok idle D (RemoveFromUnordered t v) (T, s)"
    "call_ok idle D MissedYield (T, s)"
proof -
  note k = system_kernel [OF i]
  show "call_ok idle D (RemoveFromEventList l) (T, s)" if h: "36 < l" "l \<in> D" "members (lists s) l \<noteq> []"
  proof -
    obtain b s' where s': "xTaskRemoveFromEventList l s = Some (b, s')" "kernel_inv T D s'" "frame {} s s'"
      "uxSchedulerSuspended s' = uxSchedulerSuspended s"
      using remove_from_event_list [OF k h] by blast
    then show ?thesis using system_keep [OF i s'(2-4)] by (simp add: call_ok_def)
  qed
  show "call_ok idle D (RemoveFromUnordered t v) (T, s)" if "pxContainer (lists s) (xEventListItem t) \<noteq> None"
    using that remove_from_unordered_event_list [OF k, of t _ v] system_keep [OF i] by (auto simp: call_ok_def)
  have "frame {} s (s\<lparr>xYieldPending := True\<rparr>)" by (rule frame_same) (simp_all add: is_ready_def)
  then show "call_ok idle D MissedYield (T, s)"
    using system_keep [OF i yield_pending_inv [OF k, of True]] by (simp add: call_ok_def vTaskMissedYield_def)
qed

lemma isr_calls:
  assumes i: "system_inv idle D (T, s)" and t: "t \<in> T"
  shows "notifiable t j s \<Longrightarrow> call_ok idle D (NotifyFromISR t j v a) (T, s)"
    "notifiable t j s \<Longrightarrow> call_ok idle D (GiveFromISR t j) (T, s)"
    "call_ok idle D (ResumeFromISR t) (T, s)"
proof -
  note k = system_kernel [OF i]
  {
    assume w: "notifiable t j s"
    have j: "j < length (ulNotifiedValue (tcb s t))" "j < length (ucNotifyState (tcb s t))"
      and n: "notify_state t j s = Some taskWAITING_NOTIFICATION \<Longrightarrow> alive s t \<and> pxContainer (lists s) (xEventListItem t) = None"
      using w by (simp_all add: notifiable_def notify_index_def)
    show "call_ok idle D (NotifyFromISR t j v a) (T, s)"
      using notify_from_isr [OF k t n j, of v a] system_keep [OF i] by (auto simp: call_ok_def)
    show "call_ok idle D (GiveFromISR t j) (T, s)"
      using notify_give_from_isr [OF k t n j] system_keep [OF i] by (auto simp: call_ok_def)
  }
  show "call_ok idle D (ResumeFromISR t) (T, s)"
    using task_resume_isr [OF k t] system_keep [OF i] by (auto simp: call_ok_def)
qed

lemma irq_calls:
  assumes i: "system_inv idle D (T, s)"
  shows "call_ok idle D TimerInterrupt (T, s)" "call_ok idle D SoftInterrupt (T, s)"
proof -
  have r: "is_ready s idle" using i by (simp add: system_inv_def)
  show "call_ok idle D TimerInterrupt (T, s)"
    using timer_irq [OF system_kernel [OF i] r] system_irq [OF i] by (auto simp: call_ok_def)
  show "call_ok idle D SoftInterrupt (T, s)"
    using soft_irq [OF system_kernel [OF i] r] system_irq [OF i] by (auto simp: call_ok_def)
qed

lemma enabled_call_ok:
  assumes i: "system_inv idle D (T, s)" and e: "enabled_call idle D c (T, s)"
  shows "call_ok idle D c (T, s)"
proof (cases c)
  case (Suspend h)
  then obtain t where "t \<in> T - {idle}" "prvGetTCBFromHandle s h = Some t" "alive s t"
    "pxCurrentTCB s = Some t \<longrightarrow> uxSchedulerSuspended s = 0" "active s" using e by auto
  then show ?thesis using suspending [OF i] Suspend by blast
next
  case (StateClear h j)
  then show ?thesis using e field_calls(1) [OF i] by simp
next
  case (ValueClear h j b)
  then show ?thesis using e field_calls(2) [OF i] by simp
next
  case ResetEventValue
  then show ?thesis using e field_calls(3) [OF i] by simp
next
  case IncrementHeld
  then show ?thesis using e field_calls(4) [OF i] by simp
next
  case (Notify t j v a)
  then show ?thesis using e task_calls(6) [OF i] by simp
next
  case (Disinherit t)
  then show ?thesis using e task_calls(4) [OF i] by simp
next
  case (DisinheritTimeout t p)
  then show ?thesis using e task_calls(5) [OF i] by simp
next
  case (Inherit t)
  then show ?thesis using e task_calls(3) [OF i] by simp
next
  case (Create nm p st t)
  then show ?thesis using e housekeeping(1) [OF i] by simp
next
  case (CreateStatic nm p st t)
  then show ?thesis using e housekeeping(2) [OF i] by simp
next
  case (NotifyFromISR t j v a)
  then show ?thesis using e isr_calls(1) [OF i] by simp
next
  case (GiveFromISR t j)
  then show ?thesis using e isr_calls(2) [OF i] by simp
qed (use e blocking_calls [OF i] notify_waits [OF i] notify_leaves [OF i] placing_calls [OF i] task_calls(1,2,7) [OF i]
     housekeeping(3-7) [OF i] resuming [OF i] event_calls [OF i] isr_calls(3) [OF i] irq_calls [OF i] in auto)

interpretation sched: call_system "enabled_call idle D" "exec_call idle" "system_inv idle D" for idle D
proof
  fix x :: "nat set \<times> kernel" and c x'
  assume a: "system_inv idle D x" "enabled_call idle D c x"
  obtain T s where x: "x = (T, s)" by (cases x)
  have ok: "call_ok idle D c x" using enabled_call_ok a unfolding x by blast
  show "exec_call idle c x \<noteq> None" using ok by (auto simp: call_ok_def)
  show "system_inv idle D x'" if "exec_call idle c x = Some x'" using ok that by (auto simp: call_ok_def)
qed

end
