(* ===== verification/Task_Props.thy ===== *)
theory Task_Props
  imports Task_System
begin

text \<open>The properties of the scheduler.\<close>

subsection \<open>A start\<close>

text \<open>\<open>vTaskStartScheduler\<close> with the memory for the idle task and the timer task.\<close>

definition start_ok :: "nat set \<Rightarrow> nat \<Rightarrow> nat \<Rightarrow> kernel \<Rightarrow> bool" where
  "start_ok T idle timer s \<longleftrightarrow> fresh_tcb T idle (Some configIDLE_TASK_NAME) s \<and>
     fresh_tcb (insert idle T) timer (Some configTIMER_SERVICE_TASK_NAME) s \<and> msip_reg s \<noteq> None"

lemma boot_task:
  assumes "boot_inv T D s" "t \<in> T"
  shows "is_ready s t \<and> pxContainer (lists s) (xEventListItem t) = None \<and> length (ulNotifiedValue (tcb s t)) = 1 \<and>
    length (ucNotifyState (tcb s t)) = 1"
  using assms by (simp add: boot_inv_def)

lemma start_scheduler:
  assumes b: "boot_inv T D s" and f: "start_ok T idle timer s"
  shows "\<exists>s'. vTaskStartScheduler (Some st1) (Some idle) True (Some st2) (Some timer) s = Some s' \<and>
    system_inv idle D (insert timer (insert idle T), s') \<and> xTickCount s' = 0 \<and> uxSchedulerSuspended s' = 0 \<and>
    pxCurrentTCB s' = Some timer \<and> msip_reg s' = msip_reg s \<and> xPendedTicks s' = 0 \<and>
    members (lists s') xPendingReadyList = [] \<and> (\<forall>t\<in>insert timer (insert idle T). is_ready s' t) \<and>
    (\<forall>t\<in>insert timer (insert idle T). pxContainer (lists s') (xEventListItem t) = None \<and>
       length (ulNotifiedValue (tcb s' t)) = 1 \<and> length (ucNotifyState (tcb s' t)) = 1) \<and>
    uxPriority (tcb s' idle) = 0 \<and> uxBasePriority (tcb s' idle) = 0 \<and> uxPriority (tcb s' timer) = 31 \<and>
    uxBasePriority (tcb s' timer) = 31"
proof -
  obtain s1 where s1: "xTaskCreate (Some configIDLE_TASK_NAME) 0 (Some st1) (Some idle) s = Some (Some idle, s1)"
    "boot_inv (insert idle T) D s1" "msip_reg s1 = msip_reg s" "\<forall>v. v \<noteq> idle \<longrightarrow> tcb s1 v = tcb s v"
    "uxPriority (tcb s1 idle) = 0" "uxBasePriority (tcb s1 idle) = 0"
    using create_boot [OF b, of idle "Some configIDLE_TASK_NAME" 0 st1] f by (auto simp: start_ok_def)
  have ti: "timer \<noteq> idle" using f by (auto simp: start_ok_def fresh_tcb_def)
  have f1: "fresh_tcb (insert idle T) timer (Some configTIMER_SERVICE_TASK_NAME) s1"
    using f s1(4) ti by (simp add: start_ok_def fresh_tcb_def)
  obtain s2 where s2: "xTaskCreate (Some configTIMER_SERVICE_TASK_NAME) configTIMER_TASK_PRIORITY (Some st2) (Some timer) s1 =
      Some (Some timer, s2)" "boot_inv (insert timer (insert idle T)) D s2" "msip_reg s2 = msip_reg s1"
    "pxCurrentTCB s2 = Some timer" "\<forall>v. v \<noteq> timer \<longrightarrow> tcb s2 v = tcb s1 v" "uxPriority (tcb s2 timer) = 31"
    "uxBasePriority (tcb s2 timer) = 31"
    using create_boot [OF s1(2) f1, of configTIMER_TASK_PRIORITY st2] by auto
  define s3 where "s3 = s2\<lparr>xNextTaskUnblockTime := portMAX_DELAY, xSchedulerRunning := True, xTickCount := 0\<rparr>"
  have run: "vTaskStartScheduler (Some st1) (Some idle) True (Some st2) (Some timer) s = Some s3"
    unfolding vTaskStartScheduler_def s1(1) by (simp add: xTimerCreateTimerTask_def s2(1) s3_def)
  let ?T = "insert timer (insert idle T)"
  have k2: "kernel_inv ?T D s2" "uxSchedulerSuspended s2 = 0" "\<And>t. t \<in> ?T \<Longrightarrow> is_ready s2 t"
    using s2(2) unfolding boot_inv_def by (simp, blast+)
  note ok = kinvD(1) [OF inv_kinv [OF k2(1)]]
  have ok3: "kernel_ok ?T D {} s3" by (rule kernel_ok_cong [OF ok]) (simp_all add: s3_def)
  have none: "members (lists s2) l = []" if l: "l \<in> {32, 33}" for l
  proof (rule ccontr)
    assume "members (lists s2) l \<noteq> []"
    then obtain x where x: "x \<in> set (members (lists s2) l)" by (cases "members (lists s2) l") auto
    obtain t where t: "x = xStateListItem t" "t \<in> ?T" by (rule kernel_member [OF ok _ x]) (use l in auto)
    have "pxContainer (lists s2) (xStateListItem t) = Some l"
      using members_container [OF kernel_lists [OF ok], of l x] kernel_dom [OF ok, of l] x t(1) l by auto
    then show False using k2(3) [OF t(2)] l by (auto simp: is_ready_def)
  qed
  have "delay_ok s3" using none by (cases rule: delayed_cases [OF ok]) (simp_all add: s3_def delay_ok_def wake_times_def)
  moreover have "count_ok ?T s3" "\<exists>c\<in>?T. pxCurrentTCB s3 = Some c"
    using k2(1) by (auto simp: kernel_inv_def s3_def count_ok_def)
  ultimately have k3: "kernel_inv ?T D s3" using ok3 by (simp add: kernel_inv_def)
  moreover have ms: "msip_reg s3 = msip_reg s" "msip_reg s \<noteq> None" using f s1(3) s2(3) by (simp_all add: start_ok_def s3_def)
  moreover have rd: "is_ready s3 t" if "t \<in> ?T" for t using k2(3) [OF that] by (simp add: s3_def is_ready_def)
  ultimately have si: "system_inv idle D (?T, s3)" by (auto simp: system_inv_def kernel_inv_def s3_def)
  have m34: "members (lists s3) 34 = []"
  proof (rule ccontr)
    assume "members (lists s3) 34 \<noteq> []"
    then have "members (lists s2) 34 \<noteq> []" by (simp add: s3_def)
    moreover have D34: "34 \<in> D" using kernel_dom [OF ok] by simp
    ultimately obtain t where "t \<in> ?T" "pxContainer (lists s2) (xEventListItem t) = Some 34"
      using event_head [OF inv_kinv [OF k2(1)] disjI1 [OF refl] D34] by blast
    then show False using boot_task [OF s2(2)] by (metis option.distinct(1))
  qed
  have bt: "\<forall>t\<in>?T. pxContainer (lists s3) (xEventListItem t) = None \<and>
      length (ulNotifiedValue (tcb s3 t)) = 1 \<and> length (ucNotifyState (tcb s3 t)) = 1"
  proof
    fix t assume "t \<in> ?T"
    from boot_task [OF s2(2) this] show "pxContainer (lists s3) (xEventListItem t) = None \<and>
      length (ulNotifiedValue (tcb s3 t)) = 1 \<and> length (ucNotifyState (tcb s3 t)) = 1"
      unfolding s3_def by simp
  qed
  have p0: "xPendedTicks s3 = 0" using s2(2) by (simp add: boot_inv_def s3_def)
  have rd': "\<forall>t\<in>?T. is_ready s3 t" using rd by blast
  have ids: "tcb s3 idle = tcb s1 idle" "tcb s3 timer = tcb s2 timer" using s2(5) ti by (simp_all add: s3_def)
  have pr: "uxPriority (tcb s3 idle) = 0" "uxBasePriority (tcb s3 idle) = 0" "uxPriority (tcb s3 timer) = 31"
    "uxBasePriority (tcb s3 timer) = 31"
    unfolding ids by (rule s1(5) s1(6) s2(6) s2(7))+
  have rest: "xTickCount s3 = 0" "uxSchedulerSuspended s3 = 0" "pxCurrentTCB s3 = Some timer"
    using k2(2) s2(4) by (simp_all add: s3_def)
  show ?thesis
    by (intro exI [of _ s3] conjI run si rest ms(1) p0 m34 rd' bt pr)
qed

text \<open>A kernel at reset, and the system it becomes.\<close>

definition ex_tcb :: TCB_t where
  "ex_tcb = \<lparr>uxPriority = 0, uxBasePriority = 0, uxMutexesHeld = 0, uxCriticalNesting = 0, uxTCBNumber = 0,
     uxTraceTaskNumber = 0, pxTaskTag = None, pvThreadLocalStoragePointers = [0, 0], ulNotifiedValue = [0],
     ucNotifyState = [0], ucStaticallyAllocated = 0, iTaskErrno = 0, pcTaskName = replicate 32 0, pxStack = 0\<rparr>"

definition ex_reset :: kernel where
  "ex_reset = \<lparr>lists = \<lparr>xItemValue = (\<lambda>_. portMAX_DELAY), pxNext = (\<lambda>x. x), pxPrevious = (\<lambda>x. x),
       pvOwner = (\<lambda>_. 0), pxContainer = (\<lambda>_. None), uxNumberOfItems = (\<lambda>_. 0), pxIndex = End\<rparr>, tcb = (\<lambda>_. ex_tcb), pxCurrentTCB = None,
     pxDelayedTaskList = 0, pxOverflowDelayedTaskList = 0, uxDeletedTasksWaitingCleanUp = 0, uxCurrentNumberOfTasks = 0,
     xTickCount = 0, uxTopReadyPriority = 0, xSchedulerRunning = False, xPendedTicks = 0, xYieldPending = False,
     xNumOfOverflows = 0, uxTaskNumber = 0, xNextTaskUnblockTime = 0, uxSchedulerSuspended = 0, FreeRTOS_errno = 0,
     msip_reg = Some 0, pvFreed = []\<rparr>"

lemma ex_reset_boot: "boot_inv {} {..40} ex_reset"
  by (auto simp: boot_inv_def blank_def ex_reset_def klist_def ring_list_empty)

lemma ex_start_ok: "start_ok {} 0 1 ex_reset"
proof -
  have "task_name (Some configIDLE_TASK_NAME) (replicate 32 0) \<noteq> None"
    "task_name (Some configTIMER_SERVICE_TASK_NAME) (replicate 32 0) \<noteq> None"
    by (simp_all add: task_name_def eval_nat_numeral get_at_def set_at_def)
  then show ?thesis by (simp add: start_ok_def fresh_tcb_def ex_reset_def ex_tcb_def)
qed

lemma ex_started:
  obtains s0 where "vTaskStartScheduler (Some 7) (Some 0) True (Some 8) (Some 1) ex_reset = Some s0"
    "system_inv 0 {..40} ({1, 0}, s0)" "uxSchedulerSuspended s0 = 0" "pxCurrentTCB s0 = Some 1" "xPendedTicks s0 = 0"
    "members (lists s0) xPendingReadyList = []" "may_block 0 s0" "xTickCount s0 = 0" "is_ready s0 1" "msip_reg s0 = Some 0"
    "uxPriority (tcb s0 0) = 0" "uxBasePriority (tcb s0 0) = 0" "uxPriority (tcb s0 1) = 31" "uxBasePriority (tcb s0 1) = 31"
    "pxContainer (lists s0) (xEventListItem 1) = None" "length (ulNotifiedValue (tcb s0 1)) = 1" "length (ucNotifyState (tcb s0 1)) = 1"
proof -
  obtain s0 where s0: "vTaskStartScheduler (Some 7) (Some 0) True (Some 8) (Some 1) ex_reset = Some s0"
    "system_inv 0 {..40} ({1, 0}, s0)" "uxSchedulerSuspended s0 = 0" "pxCurrentTCB s0 = Some 1" "xPendedTicks s0 = 0"
    "members (lists s0) xPendingReadyList = []" "xTickCount s0 = 0" "is_ready s0 1" "msip_reg s0 = msip_reg ex_reset"
    "uxPriority (tcb s0 0) = 0" "uxBasePriority (tcb s0 0) = 0" "uxPriority (tcb s0 1) = 31" "uxBasePriority (tcb s0 1) = 31"
    "pxContainer (lists s0) (xEventListItem 1) = None" "length (ulNotifiedValue (tcb s0 1)) = 1" "length (ucNotifyState (tcb s0 1)) = 1"
    using start_scheduler [OF ex_reset_boot ex_start_ok, of 7 8] by auto
  have ms: "msip_reg s0 = Some 0" using s0(9) by (simp add: ex_reset_def)
  then have "may_block 0 s0" using s0 by (simp add: may_block_def active_def running_def)
  then show ?thesis using that s0 ms by blast
qed

subsection \<open>Every schedule\<close>

text \<open>C29: the start of the scheduler succeeds when the memory for the idle task and the timer task
  is there, and gives a well-formed system: all lists and their counters agree with the state of
  the tasks, every task is ready, the clock is at 0, and the timer task is the one to run first.\<close>

theorem scheduler_starts:
  assumes "boot_inv T D s" "start_ok T idle timer s"
  shows "\<exists>s'. vTaskStartScheduler (Some st1) (Some idle) True (Some st2) (Some timer) s = Some s' \<and>
    system_inv idle D (insert timer (insert idle T), s') \<and> xTickCount s' = 0 \<and> uxSchedulerSuspended s' = 0 \<and>
    pxCurrentTCB s' = Some timer \<and> (\<forall>t\<in>insert timer (insert idle T). is_ready s' t)"
  using start_scheduler [OF assms, of st1 st2] by blast

theorem scheduler_starts_witness:
  "\<exists>s'. vTaskStartScheduler (Some 7) (Some 0) True (Some 8) (Some 1) ex_reset = Some s' \<and> system_inv 0 {..40} ({0, 1}, s')"
  using scheduler_starts [OF ex_reset_boot ex_start_ok, of 7 8] by (auto simp: insert_commute)

text \<open>C1: the scheduler is safe under every interleaving of the calls of its tasks and interrupts.
  The calls are all of \<open>call\<close>: the operations of tasks.c that change its lists, its counters or a task (ending
  the scheduler is not modelled), the tick and the software interrupt. A call may be issued (\<open>enabled_call\<close>) under the rules of the interface: a
  task that is running and ready issues it; it blocks, suspends or deletes itself only while the scheduler is
  not suspended, and the idle task never does; the running task goes to an event list only with the scheduler
  suspended; handles are of existing tasks, resuming follows suspending; and under two rules of the
  code itself: \<open>vTaskPriorityDisinheritAfterTimeout\<close> must not move a ready holder that is
  alone in its list (\<open>disinherits_cleanly\<close>; the stale bit that is left otherwise is a property of
  its own below), and a notification from an interrupt may reach any
  task, also one that is blocked on a queue, but a task that waits for this very notification has to
  have its event item in no list (\<open>notifiable\<close>, the code's own assertion). In every state reached after
  the start by such calls in any order, the invariant holds, the idle task is ready, and every
  call that may be issued next returns - no null or dangling pointer is followed, no loop is
  endless - into such a state.\<close>

theorem scheduler_safe:
  assumes "boot_inv T D s" "start_ok T idle timer s"
    and "vTaskStartScheduler (Some st1) (Some idle) True (Some st2) (Some timer) s = Some s0"
    and "reaches (enabled_call idle D) (exec_call idle) (insert timer (insert idle T), s0) (T', s')"
  shows "kernel_inv T' D s' \<and> idle \<in> T' \<and> is_ready s' idle \<and>
    (\<forall>c. enabled_call idle D c (T', s') \<longrightarrow> (\<exists>x. exec_call idle c (T', s') = Some x \<and> system_inv idle D x))"
proof -
  have i: "system_inv idle D (insert timer (insert idle T), s0)" using start_scheduler [OF assms(1,2), of st1 st2] assms(3) by auto
  show ?thesis
    using sched.reachable_inv [OF assms(4) i] sched.reachable_returns [OF assms(4) i] by (simp add: system_inv_def)
qed

theorem scheduler_safe_witness:
  "\<exists>s0 T' s'. vTaskStartScheduler (Some 7) (Some 0) True (Some 8) (Some 1) ex_reset = Some s0 \<and>
     run_calls (enabled_call 0 {..40}) (exec_call 0) [TimerInterrupt, TimerInterrupt] ({0, 1}, s0) = Some (T', s') \<and>
     kernel_inv T' {..40} s' \<and> 0 \<in> T'"
proof -
  obtain s0 where s0: "vTaskStartScheduler (Some 7) (Some 0) True (Some 8) (Some 1) ex_reset = Some s0"
    "system_inv 0 {..40} ({1, 0}, s0)"
    using start_scheduler [OF ex_reset_boot ex_start_ok, of 7 8] by auto
  obtain x1 where x1: "exec_call 0 TimerInterrupt ({1, 0}, s0) = Some x1" "system_inv 0 {..40} x1"
    using sched.reachable_returns [OF reaches_refl s0(2), of TimerInterrupt] by auto
  have e1: "enabled_call 0 {..40} TimerInterrupt x1" by (cases x1) simp
  obtain T' s' where x2: "exec_call 0 TimerInterrupt x1 = Some (T', s')"
    using sched.reachable_returns [OF reaches_refl x1(2) e1] by force
  have run: "run_calls (enabled_call 0 {..40}) (exec_call 0) [TimerInterrupt, TimerInterrupt] ({1, 0}, s0) = Some (T', s')"
    by (simp add: x1(1) x2 e1 del: exec_call.simps One_nat_def)
  have "kernel_inv T' {..40} s' \<and> 0 \<in> T'"
    using scheduler_safe [OF ex_reset_boot ex_start_ok s0(1) run_calls_reaches [OF run]] by simp
  then show ?thesis using s0(1) run by (simp add: insert_commute)
qed

subsection \<open>The choice of the next task\<close>

fun switches :: "nat \<Rightarrow> kernel \<Rightarrow> (nat list \<times> kernel) option" where
  "switches 0 s = Some ([], s)"
| "switches (Suc n) s = do {
     s \<leftarrow> vTaskSwitchContext s;
     t \<leftarrow> pxCurrentTCB s;
     (ts, s) \<leftarrow> switches n s;
     Some (t # ts, s) }"

text \<open>The ready tasks of the highest priority of any ready task.\<close>

definition top_tasks :: "nat set \<Rightarrow> kernel \<Rightarrow> nat set" where
  "top_tasks T s = {t \<in> T. is_ready s t \<and> (\<forall>u\<in>T. is_ready s u \<longrightarrow> uxPriority (tcb s u) \<le> uxPriority (tcb s t))}"

lemma top_tasks_list:
  assumes k: "kernel_inv T D s" and p: "ready_top s p"
  shows "xStateListItem ` top_tasks T s = set (members (lists s) p)" "\<And>t. t \<in> top_tasks T s \<Longrightarrow> unat (uxPriority (tcb s t)) = p"
proof -
  note ok = kinvD(1) [OF inv_kinv [OF k]]
  have p32: "p < 32" and ne: "members (lists s) p \<noteq> []" using p by (simp_all add: ready_top_def)
  note mem = members_container [OF kernel_lists [OF ok] kernel_dom [OF ok, of p]]
  have at: "unat (uxPriority (tcb s t)) = l" if "pxContainer (lists s) (xStateListItem t) = Some l" "l < 32" for t l
    using kernel_placeD(3) [OF ok that] by simp
  have le: "l \<le> p" if "pxContainer (lists s) (xStateListItem t) = Some l" "l < 32" for t l
  proof (rule ccontr)
    assume "\<not> l \<le> p"
    moreover have "members (lists s) l \<noteq> []"
      using members_container [OF kernel_lists [OF ok] kernel_dom [OF ok, of l], of "xStateListItem t"] that by auto
    ultimately show False using p that(2) by (auto simp: ready_top_def)
  qed
  obtain u0 where u0: "xStateListItem u0 \<in> set (members (lists s) p)" "u0 \<in> T"
  proof -
    have x: "hd (members (lists s) p) \<in> set (members (lists s) p)" using ne by simp
    obtain t where "hd (members (lists s) p) = xStateListItem t" "t \<in> T"
      by (rule kernel_member [OF ok _ x]) (use p32 in auto)
    then show ?thesis using that x by simp
  qed
  have c0: "pxContainer (lists s) (xStateListItem u0) = Some p" using mem u0(1) p32 by simp
  have top: "t \<in> top_tasks T s \<longleftrightarrow> pxContainer (lists s) (xStateListItem t) = Some p" for t
  proof
    assume t: "t \<in> top_tasks T s"
    then obtain l where l: "l < 32" "pxContainer (lists s) (xStateListItem t) = Some l" by (auto simp: top_tasks_def is_ready_def)
    have "is_ready s u0" using c0 p32 by (auto simp: is_ready_def)
    then have "uxPriority (tcb s u0) \<le> uxPriority (tcb s t)" using t u0(2) by (simp add: top_tasks_def)
    then have "p \<le> l" using at [OF c0 p32] at [OF l(2,1)] by (simp add: word_le_nat_alt)
    then show "pxContainer (lists s) (xStateListItem t) = Some p" using le [OF l(2,1)] l(2) by simp
  next
    assume c: "pxContainer (lists s) (xStateListItem t) = Some p"
    have "uxPriority (tcb s u) \<le> uxPriority (tcb s t)" if "is_ready s u" for u
      using that at [OF c p32] at le by (auto simp: is_ready_def word_le_nat_alt)
    then show "t \<in> top_tasks T s" using kernel_placeD(1) [OF ok c] c p32 by (auto simp: top_tasks_def is_ready_def)
  qed
  show "\<And>t. t \<in> top_tasks T s \<Longrightarrow> unat (uxPriority (tcb s t)) = p" using top at p32 by blast
  show "xStateListItem ` top_tasks T s = set (members (lists s) p)"
  proof (intro set_eqI iffI)
    fix x assume "x \<in> xStateListItem ` top_tasks T s"
    then show "x \<in> set (members (lists s) p)" using top mem p32 by auto
  next
    fix x assume x: "x \<in> set (members (lists s) p)"
    obtain t where "x = xStateListItem t" by (rule kernel_member [OF ok _ x]) (use p32 in auto)
    then show "x \<in> xStateListItem ` top_tasks T s" using top mem x p32 by auto
  qed
qed

lemma switch_lists:
  assumes k: "kernel_inv T D s" and p: "ready_top s p" and un: "uxSchedulerSuspended s = 0"
    and r: "vTaskSwitchContext s = Some s'" "pxCurrentTCB s' = Some t"
  shows "listGET_OWNER_OF_NEXT_ENTRY (lists s) p = (t, lists s')"
proof -
  note ok = kinvD(1) [OF inv_kinv [OF k]]
  obtain c where c: "pxCurrentTCB s = Some c" by (rule current_task [OF k])
  have p32: "p < 32" "members (lists s) p \<noteq> []" using p by (simp_all add: ready_top_def)
  have pn: "unat (of_nat p :: u64) = p" by (rule unat_of_nat_lt) (use p32 in simp)
  then have "pxReadyTasksLists (of_nat p) = Some p" using p32 by (simp add: pxReadyTasksLists_def word_less_nat_alt)
  moreover have "portGET_HIGHEST_PRIORITY (uxTopReadyPriority s) = Some (of_nat p)"
    by (rule highest_priority [OF kernel_bits [OF ok] p32]) (use p in \<open>simp add: ready_top_def\<close>)
  ultimately show ?thesis
    using r un c by (auto simp: vTaskSwitchContext_def taskSELECT_HIGHEST_PRIORITY_TASK_def set_tcb_def Let_def split: prod.splits)
qed

text \<open>One switch: the next task in the ring of the highest ready priority, which moves on by one.\<close>

lemma switch_step:
  assumes k: "kernel_inv T D s" and p: "ready_top s p" and un: "uxSchedulerSuspended s = 0"
    and w: "walk_order (lists s) p (members (lists s) p) = xStateListItem t # ws"
  shows "\<exists>s'. vTaskSwitchContext s = Some s' \<and> pxCurrentTCB s' = Some t \<and> kernel_inv T D s' \<and> ready_top s' p \<and>
    uxSchedulerSuspended s' = 0 \<and> members (lists s') = members (lists s) \<and>
    walk_order (lists s') p (members (lists s) p) = ws @ [xStateListItem t]"
proof -
  obtain u ls e f where r: "vTaskSwitchContext s = Some (s\<lparr>xYieldPending := False, tcb := e, lists := ls,
      pxCurrentTCB := Some u, FreeRTOS_errno := f\<rparr>)"
    "xStateListItem u = hd (walk_order (lists s) p (members (lists s) p))"
    "kinv T D {} (s\<lparr>xYieldPending := False, tcb := e, lists := ls, pxCurrentTCB := Some u, FreeRTOS_errno := f\<rparr>)"
    "members ls = members (lists s)"
    by (rule switch_context [OF inv_kinv [OF k] p un]) blast
  define s' where "s' = s\<lparr>xYieldPending := False, tcb := e, lists := ls, pxCurrentTCB := Some u, FreeRTOS_errno := f\<rparr>"
  have tu: "u = t" using r(2) w by simp
  have "listGET_OWNER_OF_NEXT_ENTRY (lists s) p = (t, ls)"
    using switch_lists [OF k p un r(1)] tu by simp
  moreover have pD: "p \<in> D" using kernel_dom [OF kinvD(1) [OF inv_kinv [OF k]], of p] p by (simp add: ready_top_def)
  note next_entry_klist [OF list_okD [OF kernel_lists [OF kinvD(1) [OF inv_kinv [OF k]]] pD] w]
  ultimately have "walk_order ls p (members (lists s) p) = ws @ [xStateListItem t]" by auto
  then show ?thesis using r(1,3,4) p un tu
    by (simp add: kinv_empty ready_top_def)
qed

lemma switches_walk:
  assumes "kernel_inv T D s" "ready_top s p" "uxSchedulerSuspended s = 0"
    and "walk_order (lists s) p (members (lists s) p) = map xStateListItem ts @ ws"
  shows "\<exists>s'. switches (length ts) s = Some (ts, s') \<and> kernel_inv T D s' \<and>
    walk_order (lists s') p (members (lists s) p) = ws @ map xStateListItem ts \<and> members (lists s') = members (lists s)"
  using assms
proof (induction ts arbitrary: s ws)
  case (Cons t ts)
  obtain s1 where s1: "vTaskSwitchContext s = Some s1" "pxCurrentTCB s1 = Some t" "kernel_inv T D s1" "ready_top s1 p"
    "uxSchedulerSuspended s1 = 0" "members (lists s1) = members (lists s)"
    "walk_order (lists s1) p (members (lists s) p) = (map xStateListItem ts @ ws) @ [xStateListItem t]"
    using switch_step [OF Cons.prems(1-3), of t "map xStateListItem ts @ ws"] Cons.prems(4) by auto
  obtain s2 where "switches (length ts) s1 = Some (ts, s2)" "kernel_inv T D s2"
    "walk_order (lists s2) p (members (lists s1) p) = (ws @ [xStateListItem t]) @ map xStateListItem ts"
    "members (lists s2) = members (lists s1)"
    using Cons.IH [OF s1(3-5), of "ws @ [xStateListItem t]"] s1(6,7) by auto
  then show ?case using s1 by simp
qed auto

lemma switches_unsuspended: "switches n s = Some (ts, s') \<Longrightarrow> uxSchedulerSuspended s = 0 \<Longrightarrow> uxSchedulerSuspended s' = 0"
proof (induction n arbitrary: s ts)
  case (Suc n)
  then obtain s1 us where s1: "vTaskSwitchContext s = Some s1" "switches n s1 = Some (us, s')"
    by (auto simp: bind_eq_Some_conv)
  then have "uxSchedulerSuspended s1 = 0" using Suc.prems(2)
    by (auto simp: vTaskSwitchContext_def taskSELECT_HIGHEST_PRIORITY_TASK_def set_tcb_def bind_eq_Some_conv case_prod_unfold Let_def)
  then show ?case using Suc.IH [OF s1(2)] by simp
qed simp

text \<open>C8: \<open>vTaskSwitchContext\<close> always picks a ready task of the highest ready priority, and shares the
  processor fairly among them: over as many switches as there are such tasks, each of them runs
  exactly once, and the next round repeats the order.\<close>

theorem switch_highest_fair:
  assumes "kernel_inv T D s" "uxSchedulerSuspended s = 0" "is_ready s i"
  shows "\<exists>ts s'. switches (card (top_tasks T s)) s = Some (ts, s') \<and> set ts = top_tasks T s \<and> distinct ts \<and>
    ts \<noteq> [] \<and> kernel_inv T D s' \<and> (\<exists>s2. switches (card (top_tasks T s)) s' = Some (ts, s2))"
proof -
  note ok = kinvD(1) [OF inv_kinv [OF assms(1)]]
  obtain l where l: "l < 32" "pxContainer (lists s) (xStateListItem i) = Some l" using assms(3) by (auto simp: is_ready_def)
  then have "members (lists s) l \<noteq> []"
    using members_container [OF kernel_lists [OF ok], of l "xStateListItem i"] kernel_dom [OF ok, of l] by auto
  then obtain p where p: "ready_top s p" using ready_top_ex [OF l(1)] by blast
  have pD: "p \<in> D" using kernel_dom [OF ok, of p] p by (simp add: ready_top_def)
  note kl = list_okD [OF kernel_lists [OF ok] pD]
  let ?w = "walk_order (lists s) p (members (lists s) p)"
  note w = mset_walk_order [OF kl]
  have dw: "distinct ?w" using w members_distinct [OF kernel_lists [OF ok] pD] by (metis card_distinct distinct_card)
  note top = top_tasks_list(1) [OF assms(1) p]
  have "\<forall>x\<in>set ?w. \<exists>t. x = xStateListItem t" using w top by blast
  then obtain ts where ts: "?w = map xStateListItem ts" by (metis ex_map_conv)
  have "xStateListItem ` set ts = xStateListItem ` top_tasks T s" using ts w top by (metis set_map)
  then have set: "set ts = top_tasks T s" by (simp add: inj_image_eq_iff inj_def)
  have d: "distinct ts" using dw ts by (simp add: distinct_map)
  have len: "card (top_tasks T s) = length ts" using set d by (metis distinct_card)
  obtain s' where s': "switches (length ts) s = Some (ts, s')" "kernel_inv T D s'"
    "walk_order (lists s') p (members (lists s) p) = map xStateListItem ts" "members (lists s') = members (lists s)"
    "uxSchedulerSuspended s' = 0"
    using switches_walk [OF assms(1) p assms(2), of ts "[]"] ts switches_unsuspended assms(2) by auto
  have "ready_top s' p" using p s'(4) by (simp add: ready_top_def)
  from switches_walk [OF s'(2) this s'(5), of ts "[]"] have "\<exists>s2. switches (length ts) s' = Some (ts, s2)"
    using s'(3,4) by auto
  moreover have "ts \<noteq> []" using ts w p by (auto simp: ready_top_def)
  ultimately show ?thesis using s'(1,2) set d len by auto
qed

theorem switch_highest_fair_witness:
  "\<exists>s0 ts s'. vTaskStartScheduler (Some 7) (Some 0) True (Some 8) (Some 1) ex_reset = Some s0 \<and>
     switches (card (top_tasks {0, 1} s0)) s0 = Some (ts, s') \<and> set ts = top_tasks {0, 1} s0 \<and> ts \<noteq> []"
proof -
  obtain s0 where s0: "vTaskStartScheduler (Some 7) (Some 0) True (Some 8) (Some 1) ex_reset = Some s0"
    "system_inv 0 {..40} ({1, 0}, s0)" "uxSchedulerSuspended s0 = 0"
    using start_scheduler [OF ex_reset_boot ex_start_ok, of 7 8] by auto
  then have "kernel_inv {1, 0} {..40} s0" "is_ready s0 0" by (simp_all add: system_inv_def)
  from switch_highest_fair [OF this(1) s0(3) this(2)] s0(1) show ?thesis by (auto simp: insert_commute)
qed

subsection \<open>Time\<close>

text \<open>C10: one tick of the clock, also the one at which the 64-bit counter wraps and the two delayed lists
  are exchanged: exactly the tasks whose wake time is the new count become ready, all others
  stay where they are, and a switch is asked for if one of them has at least the priority of the
  running task.\<close>

theorem tick_wakes_due:
  assumes "kernel_inv T D s" "uxSchedulerSuspended s = 0" "pxCurrentTCB s = Some c"
  shows "\<exists>sw s'. xTaskIncrementTick s = Some (sw, s') \<and> kernel_inv T D s' \<and> xTickCount s' = xTickCount s + 1 \<and>
    (\<forall>t. is_ready s' t \<longleftrightarrow> is_ready s t \<or> t \<in> T \<and> due s t) \<and>
    (\<forall>t. \<not> due s t \<longrightarrow> pxContainer (lists s') (xStateListItem t) = pxContainer (lists s) (xStateListItem t)) \<and>
    ((\<exists>t. due s t \<and> uxPriority (tcb s c) \<le> uxPriority (tcb s t)) \<longrightarrow> sw)"
proof -
  note ok = kinvD(1) [OF inv_kinv [OF assms(1)]]
  have due: "t \<in> T \<and> unat (uxPriority (tcb s t)) < 32" if "due s t" for t
    using that kernel_placeD(1) [OF ok, of t] kernel_task(2) [OF ok, of t] by (auto simp: due_def intro!: prio_nat)
  obtain sw s' where r: "xTaskIncrementTick s = Some (sw, s')" "kernel_inv T D s'" "xTickCount s' = xTickCount s + 1"
    "\<And>t. pxContainer (lists s') (xStateListItem t) =
       (if due s t then Some (unat (uxPriority (tcb s t))) else pxContainer (lists s) (xStateListItem t))"
    "(\<exists>t. due s t \<and> uxPriority (tcb s c) \<le> uxPriority (tcb s t)) \<longrightarrow> sw"
    using increment_tick [OF assms] by blast
  have "is_ready s' t \<longleftrightarrow> is_ready s t \<or> t \<in> T \<and> due s t" for t
    using due [of t] by (cases "due s t") (simp_all add: is_ready_def r(4))
  then show ?thesis using r by auto
qed

theorem tick_wakes_due_witness:
  "\<exists>s0 sw s'. vTaskStartScheduler (Some 7) (Some 0) True (Some 8) (Some 1) ex_reset = Some s0 \<and>
     xTaskIncrementTick s0 = Some (sw, s') \<and> xTickCount s' = 1 \<and> is_ready s' 1"
proof -
  obtain s0 where s0: "vTaskStartScheduler (Some 7) (Some 0) True (Some 8) (Some 1) ex_reset = Some s0"
    "system_inv 0 {..40} ({1, 0}, s0)" "uxSchedulerSuspended s0 = 0" "pxCurrentTCB s0 = Some 1" "xTickCount s0 = 0" "is_ready s0 1"
    by (rule ex_started)
  from tick_wakes_due [OF system_kernel [OF s0(2)] s0(3,4)] show ?thesis using s0(1,5,6) by auto
qed

text \<open>Ticks in a row, with the context switches they cause.\<close>

fun timer_ticks :: "nat \<Rightarrow> kernel \<Rightarrow> kernel option" where
  "timer_ticks 0 s = Some s"
| "timer_ticks (Suc n) s = do { s \<leftarrow> timer_ticks n s; timer_interrupt s }"

lemma timer_step:
  assumes k: "kernel_inv T D s" and un: "uxSchedulerSuspended s = 0" and i: "is_ready s i"
  shows "\<exists>s'. timer_interrupt s = Some s' \<and> kernel_inv T D s' \<and> uxSchedulerSuspended s' = 0 \<and> is_ready s' i \<and>
    xTickCount s' = xTickCount s + 1 \<and> xItemValue (lists s') = xItemValue (lists s) \<and>
    (\<forall>t. pxContainer (lists s') (xStateListItem t) =
       (if due s t then Some (unat (uxPriority (tcb s t))) else pxContainer (lists s) (xStateListItem t)))"
proof -
  obtain c where c: "pxCurrentTCB s = Some c" by (rule current_task [OF k])
  obtain sw s1 where r: "xTaskIncrementTick s = Some (sw, s1)" "kernel_inv T D s1" "xTickCount s1 = xTickCount s + 1"
    "uxSchedulerSuspended s1 = 0" "xItemValue (lists s1) = xItemValue (lists s)"
    "\<forall>t. pxContainer (lists s1) (xStateListItem t) =
       (if due s t then Some (unat (uxPriority (tcb s t))) else pxContainer (lists s) (xStateListItem t))"
    using increment_tick [OF k un c] by blast
  have i1: "is_ready s1 i" using i r(6) by (auto simp: is_ready_def due_def)
  show ?thesis
  proof (cases sw)
    case False
    then show ?thesis using r i1 by (simp add: timer_interrupt_def)
  next
    case True
    note ok = kinvD(1) [OF inv_kinv [OF r(2)]]
    obtain l where l: "l < 32" "pxContainer (lists s1) (xStateListItem i) = Some l" using i1 by (auto simp: is_ready_def)
    then have "members (lists s1) l \<noteq> []"
      using members_container [OF kernel_lists [OF ok], of l "xStateListItem i"] kernel_dom [OF ok, of l] by auto
    then obtain p where p: "ready_top s1 p" using ready_top_ex [OF l(1)] by blast
    obtain t ls e f where w: "vTaskSwitchContext s1 = Some (s1\<lparr>xYieldPending := False, tcb := e, lists := ls,
        pxCurrentTCB := Some t, FreeRTOS_errno := f\<rparr>)"
      "kinv T D {} (s1\<lparr>xYieldPending := False, tcb := e, lists := ls, pxCurrentTCB := Some t, FreeRTOS_errno := f\<rparr>)"
      "pxContainer ls = pxContainer (lists s1)" "xItemValue ls = xItemValue (lists s1)"
      by (rule switch_context [OF inv_kinv [OF r(2)] p r(4)]) blast
    then show ?thesis using True r i1 by (simp add: timer_interrupt_def kinv_empty is_ready_def)
  qed
qed

lemma wait_ticks:
  assumes k: "kernel_inv T D s" and un: "uxSchedulerSuspended s = 0" and i: "is_ready s i"
    and c: "pxContainer (lists s) (xStateListItem c) \<in> {Some 32, Some 33}"
    and v: "xItemValue (lists s) (xStateListItem c) = xTickCount s + n" and j: "j \<le> unat n"
  shows "\<exists>s'. timer_ticks j s = Some s' \<and> kernel_inv T D s' \<and> uxSchedulerSuspended s' = 0 \<and> is_ready s' i \<and>
    xTickCount s' = xTickCount s + of_nat j \<and> xItemValue (lists s') = xItemValue (lists s) \<and>
    (if j < unat n \<or> n = 0 then pxContainer (lists s') (xStateListItem c) \<in> {Some 32, Some 33} else is_ready s' c)"
  using j
proof (induction j)
  case 0
  then show ?case using k un i c by (auto simp: unat_eq_0 unat_gt_0)
next
  case (Suc j)
  then obtain s1 where s1: "timer_ticks j s = Some s1" "kernel_inv T D s1" "uxSchedulerSuspended s1 = 0" "is_ready s1 i"
    "xTickCount s1 = xTickCount s + of_nat j" "xItemValue (lists s1) = xItemValue (lists s)"
    "pxContainer (lists s1) (xStateListItem c) \<in> {Some 32, Some 33}"
    by (auto simp: Suc_le_eq)
  obtain s2 where s2: "timer_interrupt s1 = Some s2" "kernel_inv T D s2" "uxSchedulerSuspended s2 = 0" "is_ready s2 i"
    "xTickCount s2 = xTickCount s1 + 1" "xItemValue (lists s2) = xItemValue (lists s1)"
    "\<forall>t. pxContainer (lists s2) (xStateListItem t) =
       (if due s1 t then Some (unat (uxPriority (tcb s1 t))) else pxContainer (lists s1) (xStateListItem t))"
    using timer_step [OF s1(2-4)] by blast
  have "n = of_nat (Suc j) \<longleftrightarrow> unat n = Suc j"
  proof -
    have "unat (of_nat (Suc j) :: u64) = Suc j"
      using Suc.prems unsigned_less [of n, where 'a = nat] by (intro unat_of_nat_lt) (simp add: Suc_le_eq)
    then show ?thesis by (metis word_unat_eq_iff)
  qed
  moreover have "due s1 c \<longleftrightarrow> n = of_nat (Suc j)"
    using s1(5-7) v by (auto simp: due_def algebra_simps)
  ultimately have due: "due s1 c \<longleftrightarrow> unat n = Suc j" by simp
  have pr: "unat (uxPriority (tcb s1 c)) < 32" if "c \<in> T"
    using prio_nat kernel_task(2) [OF kinvD(1) [OF inv_kinv [OF s1(2)]] that] .
  have "c \<in> T" using kernel_placeD(1) [OF kinvD(1) [OF inv_kinv [OF s1(2)]], of c] s1(7) by auto
  then show ?case using s1 s2 due pr Suc.prems by (auto simp: is_ready_def)
qed

lemma resume_quiet:
  assumes u: "uxSchedulerSuspended s = 1" and q: "listLIST_IS_EMPTY (lists s) xPendingReadyList" "xPendedTicks s = 0"
  shows "\<exists>y. xTaskResumeAll s = Some (y, (if y then portYIELD (s\<lparr>uxSchedulerSuspended := 0\<rparr>) else s\<lparr>uxSchedulerSuspended := 0\<rparr>))"
proof -
  let ?s = "s\<lparr>uxSchedulerSuspended := 0\<rparr>"
  have "pending_loop False ?s = Some (False, ?s)" using q(1) by (simp add: pending_loop.simps [of False ?s])
  then show ?thesis using u q(2) by (auto simp: xTaskResumeAll_def Let_def)
qed

text \<open>The running task on the delayed list: what follows up to the tick that wakes it.\<close>

lemma delayed_until_due:
  assumes "system_inv idle D (T, s)" "may_block idle s" "pxCurrentTCB s = Some c" "n > 0"
    and "members (lists s) xPendingReadyList = []" "xPendedTicks s = 0"
  obtains s1 y s0 where "prvAddCurrentTaskToDelayedList n False (vTaskSuspendAll s) = Some s1"
    "xTaskResumeAll s1 = Some (y, if y then portYIELD s0 else s0)"
    "\<And>j. j \<le> unat n \<Longrightarrow> \<exists>s'. timer_ticks j (portYIELD s0) = Some s' \<and> kernel_inv T D s' \<and> (is_ready s' c \<longleftrightarrow> j = unat n)"
proof -
  note k = system_kernel [OF assms(1)]
  have r: "is_ready s c" and un: "uxSchedulerSuspended s = 0" and ci: "c \<noteq> idle"
    using assms(2,3) by (auto simp: may_block_def active_def running_def)
  have i: "is_ready s idle" using assms(1) by (simp add: system_inv_def)
  let ?s = "vTaskSuspendAll s"
  have f: "pxCurrentTCB ?s = Some c" "is_ready ?s c" "n \<noteq> 0" using assms(3,4) r by (simp_all add: vTaskSuspendAll_def is_ready_def)
  obtain s1 where s1: "prvAddCurrentTaskToDelayedList n False ?s = Some s1" "kernel_inv T D s1"
    "pxContainer (lists s1) = (pxContainer (lists ?s))(xStateListItem c := Some (delayed_to ?s n False))"
    "xItemValue (lists s1) = (xItemValue (lists ?s))(xStateListItem c := xTickCount ?s + n)"
    "xTickCount s1 = xTickCount ?s" "uxSchedulerSuspended s1 = uxSchedulerSuspended ?s" "xPendedTicks s1 = xPendedTicks ?s"
    by (rule delay_current [OF suspend_all_inv [OF k] f, of False]) auto
  note ok1 = kinvD(1) [OF inv_kinv [OF s1(2)]] and ok = kinvD(1) [OF inv_kinv [OF k]]
  have D34: "34 \<in> D" using kernel_dom [OF ok] by simp
  have to: "delayed_to ?s n False \<in> {32, 33}"
    by (cases rule: delayed_cases [OF ok]) (simp_all add: delayed_to_def vTaskSuspendAll_def)
  have "pxContainer (lists s) x \<noteq> Some 34" for x
    using members_container [OF kernel_lists [OF ok] D34] assms(5) by simp
  then have "members (lists s1) 34 = []"
    unfolding members_empty [OF kernel_lists [OF ok1] D34] using s1(3) to by (auto simp: vTaskSuspendAll_def)
  then have q: "listLIST_IS_EMPTY (lists s1) xPendingReadyList" "xPendedTicks s1 = 0" "uxSchedulerSuspended s1 = 1"
    using members_is_empty [OF kernel_lists [OF ok1] D34] s1(6,7) un assms(6) by (simp_all add: vTaskSuspendAll_def)
  define s0 where "s0 = s1\<lparr>uxSchedulerSuspended := 0\<rparr>"
  obtain y where y: "xTaskResumeAll s1 = Some (y, if y then portYIELD s0 else s0)"
    using resume_quiet [OF q(3,1,2)] s0_def by blast
  have k1: "kernel_inv T D s0" unfolding s0_def by (rule inv_step [OF kinv_cong [OF inv_kinv [OF s1(2)]]]) simp_all
  have i0: "is_ready (portYIELD s0) idle" using i s1(3) ci by (simp add: s0_def is_ready_def vTaskSuspendAll_def)
  have wait: "\<exists>s'. timer_ticks j (portYIELD s0) = Some s' \<and> kernel_inv T D s' \<and> (is_ready s' c \<longleftrightarrow> j = unat n)"
    if j: "j \<le> unat n" for j
  proof -
    obtain s' where s': "timer_ticks j (portYIELD s0) = Some s'" "kernel_inv T D s'"
      "if j < unat n \<or> n = 0 then pxContainer (lists s') (xStateListItem c) \<in> {Some 32, Some 33} else is_ready s' c"
      using wait_ticks [OF yield_inv [OF k1] _ i0, of c n j] j s1(3-5) to by (auto simp: s0_def)
    have "is_ready s' c \<longleftrightarrow> j = unat n" using s'(3) assms(4) j by (auto simp: is_ready_def split: if_splits)
    then show ?thesis using s'(1,2) by blast
  qed
  show ?thesis by (rule that [OF s1(1) y wait])
qed

text \<open>C16: a delay is exact. A task that calls \<open>vTaskDelay (n)\<close> with \<open>n > 0\<close> is not ready during the next
  \<open>n - 1\<close> ticks and is ready after the \<open>n\<close>th one, whatever is woken and switched in between, and
  whether or not the tick counter wraps.\<close>

theorem delay_exact:
  assumes "system_inv idle D (T, s)" "may_block idle s" "pxCurrentTCB s = Some c" "n > 0"
    and "members (lists s) xPendingReadyList = []" "xPendedTicks s = 0" "j \<le> unat n"
  shows "\<exists>s0 s'. vTaskDelay n s = Some s0 \<and> timer_ticks j s0 = Some s' \<and> kernel_inv T D s' \<and>
    (is_ready s' c \<longleftrightarrow> j = unat n)"
proof -
  obtain s1 y s0 where r: "prvAddCurrentTaskToDelayedList n False (vTaskSuspendAll s) = Some s1"
    "xTaskResumeAll s1 = Some (y, if y then portYIELD s0 else s0)"
    "\<And>j. j \<le> unat n \<Longrightarrow> \<exists>s'. timer_ticks j (portYIELD s0) = Some s' \<and> kernel_inv T D s' \<and> (is_ready s' c \<longleftrightarrow> j = unat n)"
    by (rule delayed_until_due [OF assms(1-6)]) blast
  have "vTaskDelay n s = Some (portYIELD s0)" using assms(4) by (simp add: vTaskDelay_def Let_def r(1,2))
  then show ?thesis using r(3) [OF assms(7)] by blast
qed

theorem delay_exact_witness:
  "\<exists>s s0 s1 s2. vTaskStartScheduler (Some 7) (Some 0) True (Some 8) (Some 1) ex_reset = Some s \<and> vTaskDelay 3 s = Some s0 \<and>
     timer_ticks 2 s0 = Some s1 \<and> \<not> is_ready s1 1 \<and> timer_ticks 3 s0 = Some s2 \<and> is_ready s2 1"
proof -
  obtain s where s: "vTaskStartScheduler (Some 7) (Some 0) True (Some 8) (Some 1) ex_reset = Some s"
    "system_inv 0 {..40} ({1, 0}, s)" "pxCurrentTCB s = Some 1" "xPendedTicks s = 0"
    "members (lists s) xPendingReadyList = []" "may_block 0 s"
    by (rule ex_started)
  note d = delay_exact [OF s(2,6,3) _ s(5,4), of 3]
  obtain s0 s1 where a: "vTaskDelay 3 s = Some s0" "timer_ticks 2 s0 = Some s1" "\<not> is_ready s1 1" using d [of 2] by auto
  obtain s2 where "timer_ticks 3 s0 = Some s2" "is_ready s2 1" using d [of 3] a(1) by auto
  then show ?thesis using s(1) a by blast
qed

text \<open>The decision of \<open>xTaskDelayUntil\<close> in exact time: \<open>P\<close> and \<open>N\<close> are the last wake time and now.\<close>

lemma nat_word_parts:
  fixes N :: nat
  shows "unat (of_nat N :: u64) = N mod 2 ^ 64"
  by (simp add: unat_of_nat take_bit_eq_mod)

lemma should_delay_exact:
  assumes "P \<le> N" "N < P + 2 ^ 64"
  shows "should_delay (of_nat N) (of_nat P) (of_nat P + inc) \<longleftrightarrow> N < P + unat inc"
proof -
  have W: "of_nat P + inc = (of_nat (P + unat inc) :: u64)" by simp
  have inc: "unat inc < 2 ^ 64" using unsigned_less [of inc, where 'a = nat] by simp
  define p n w where "p = P mod 2 ^ 64" and "n = N mod 2 ^ 64" and "w = (P + unat inc) mod 2 ^ 64"
  define q where "q = P div 2 ^ 64 * 2 ^ 64"
  have P: "P = q + p" "p < 2 ^ 64" by (simp_all add: q_def p_def)
  have step: "x mod 2 ^ 64 = (if x < q + 2 ^ 64 then x - q else x - q - 2 ^ 64)" if x: "q \<le> x" "x < q + 2 * 2 ^ 64" for x :: nat
  proof -
    obtain y where y: "x = q + y" "y < 2 * 2 ^ 64" using x by (metis add_less_cancel_left le_add_diff_inverse)
    have "x mod 2 ^ 64 = y mod 2 ^ 64" unfolding y(1) q_def by simp
    also have "\<dots> = (if y < 2 ^ 64 then y else y - 2 ^ 64)" using y(2) by (simp add: mod_if)
    finally show ?thesis using y(1) by simp
  qed
  have n: "n = (if N < q + 2 ^ 64 then N - q else N - q - 2 ^ 64)" unfolding n_def by (rule step) (use assms P in auto)
  have w: "w = (if P + unat inc < q + 2 ^ 64 then P + unat inc - q else P + unat inc - q - 2 ^ 64)"
    unfolding w_def by (rule step) (use inc P in auto)
  have "should_delay (of_nat N) (of_nat P) (of_nat P + inc) \<longleftrightarrow> (if n < p then w < p \<and> w > n else w < p \<or> w > n)"
    unfolding W should_delay_def word_less_nat_alt nat_word_parts p_def n_def w_def ..
  also have "\<dots> \<longleftrightarrow> N < P + unat inc" using n w P assms inc by (auto split: if_splits)
  finally show ?thesis .
qed

text \<open>C26: \<open>xTaskDelayUntil\<close> gives a fixed period without drift. Let the last wake time \<open>P\<close> and the present
  time \<open>N\<close> be counted without wrapping, at most one turn of the 64-bit counter apart. The new wake
  time is \<open>P + inc\<close>; the task sleeps exactly if that lies in the future, and then it is ready after
  precisely the missing number of ticks.\<close>

theorem delay_until_exact:
  assumes "system_inv idle D (T, s)" "may_block idle s" "pxCurrentTCB s = Some c"
    and "members (lists s) xPendingReadyList = []" "xPendedTicks s = 0"
    and "xTickCount s = of_nat N" "P \<le> N" "N < P + 2 ^ 64"
  shows "\<exists>s0. xTaskDelayUntil (of_nat P) inc s = Some (N < P + unat inc, of_nat (P + unat inc), s0) \<and>
    (N < P + unat inc \<longrightarrow> (\<forall>j \<le> P + unat inc - N. \<exists>s'. timer_ticks j s0 = Some s' \<and> kernel_inv T D s' \<and>
       (is_ready s' c \<longleftrightarrow> j = P + unat inc - N)))"
proof -
  have k: "kernel_inv T D s" "is_ready s c" "uxSchedulerSuspended s + 1 \<noteq> 0"
    using assms(1-3) by (auto simp: system_inv_def may_block_def active_def running_def)
  note sd = should_delay_exact [OF assms(7,8), of inc]
  have W: "of_nat P + inc = (of_nat (P + unat inc) :: u64)" by simp
  obtain s0 where run: "xTaskDelayUntil (of_nat P) inc s = Some (N < P + unat inc, of_nat (P + unat inc), s0)"
    using task_delay_until [OF k(1) assms(3) k(2,3), of "of_nat P" inc] unfolding assms(6) sd unfolding W by blast
  have "\<exists>s'. timer_ticks j s0 = Some s' \<and> kernel_inv T D s' \<and> (is_ready s' c \<longleftrightarrow> j = P + unat inc - N)"
    if late: "N < P + unat inc" and j: "j \<le> P + unat inc - N" for j
  proof -
    let ?n = "of_nat P + inc - of_nat N :: u64"
    have inc: "unat inc < 2 ^ 64" using unsigned_less [of inc, where 'a = nat] by simp
    have "?n = of_nat (P + unat inc - N)" using late by simp
    moreover have "unat (of_nat (P + unat inc - N) :: u64) = P + unat inc - N"
      by (rule unat_of_nat_lt) (use inc assms(7) in simp)
    ultimately have n: "unat ?n = P + unat inc - N" by simp
    then have pos: "?n > 0" using late by (simp add: word_less_nat_alt)
    obtain s1 y s2 where r: "prvAddCurrentTaskToDelayedList ?n False (vTaskSuspendAll s) = Some s1"
      "xTaskResumeAll s1 = Some (y, if y then portYIELD s2 else s2)"
      "\<And>j. j \<le> unat ?n \<Longrightarrow> \<exists>s'. timer_ticks j (portYIELD s2) = Some s' \<and> kernel_inv T D s' \<and> (is_ready s' c \<longleftrightarrow> j = unat ?n)"
      by (rule delayed_until_due [OF assms(1-3) pos assms(4,5)]) blast
    have tick: "xTickCount (vTaskSuspendAll s) = of_nat N" by (simp add: vTaskSuspendAll_def assms(6))
    have "xTaskDelayUntil (of_nat P) inc s = Some (True, of_nat P + inc, portYIELD s2)"
      unfolding xTaskDelayUntil_def Let_def tick sd using late by (simp add: r(1,2))
    then show ?thesis using r(3) j n run by simp
  qed
  then show ?thesis using run by blast
qed

theorem delay_until_exact_witness:
  "\<exists>s s0 s1 s2. vTaskStartScheduler (Some 7) (Some 0) True (Some 8) (Some 1) ex_reset = Some s \<and>
     xTaskDelayUntil (- 2) 5 s = Some (True, 3, s0) \<and> timer_ticks 2 s0 = Some s1 \<and> \<not> is_ready s1 1 \<and>
     timer_ticks 3 s0 = Some s2 \<and> is_ready s2 1"
proof -
  obtain s where s: "vTaskStartScheduler (Some 7) (Some 0) True (Some 8) (Some 1) ex_reset = Some s"
    "system_inv 0 {..40} ({1, 0}, s)" "pxCurrentTCB s = Some 1" "xPendedTicks s = 0"
    "members (lists s) xPendingReadyList = []" "may_block 0 s" "xTickCount s = 0"
    by (rule ex_started)
  have now: "xTickCount s = of_nat (2 ^ 64)" using s(7) by simp
  have P: "of_nat (2 ^ 64 - 2) = (- 2 :: u64)" by simp
  have W: "of_nat (2 ^ 64 - 2 + unat (5 :: u64)) = (3 :: u64)" by simp
  from delay_until_exact [OF s(2,6,3,5,4) now, of "2 ^ 64 - 2" 5]
  obtain s0 where r: "xTaskDelayUntil (- 2) 5 s = Some (True, 3, s0)"
    "\<forall>j \<le> 3. \<exists>s'. timer_ticks j s0 = Some s' \<and> kernel_inv {1, 0} {..40} s' \<and> (is_ready s' 1 \<longleftrightarrow> j = 3)"
    unfolding P W by auto
  obtain s1 where "timer_ticks 2 s0 = Some s1" "\<not> is_ready s1 1" using r(2) [rule_format, of 2] by auto
  moreover obtain s2 where "timer_ticks 3 s0 = Some s2" "is_ready s2 1" using r(2) [rule_format, of 3] by auto
  ultimately show ?thesis using s(1) r(1) by blast
qed

text \<open>The time a kernel has been running, from the two counters.\<close>

definition run_time :: "kernel \<Rightarrow> nat" where
  "run_time s = unat (xNumOfOverflows s) * 2 ^ 64 + unat (xTickCount s)"

text \<open>C27: a time-out is exact. \<open>xTaskCheckForTimeOut\<close>, given the state saved at \<open>s0\<close> and at most one wrap of the tick
  counter later, reports a time-out exactly if at least the allowed number of ticks has passed;
  otherwise it leaves the remaining number and restarts the measurement.\<close>

theorem timeout_exact:
  assumes "run_time s0 \<le> run_time s" "unat (xNumOfOverflows s) \<le> unat (xNumOfOverflows s0) + 1" "w \<noteq> portMAX_DELAY"
  shows "xTaskCheckForTimeOut s (vTaskSetTimeOutState s0) w =
    (if unat w \<le> run_time s - run_time s0 then (True, vTaskSetTimeOutState s0, 0)
     else (False, vTaskSetTimeOutState s, w - of_nat (run_time s - run_time s0)))"
proof -
  let ?t = "unat (xTickCount s)" and ?u = "unat (xTickCount s0)" and ?e = "xTickCount s - xTickCount s0"
  have lt: "?t < 2 ^ 64" "?u < 2 ^ 64" "unat w < 2 ^ 64"
    using unsigned_less [of "xTickCount s", where 'a = nat] unsigned_less [of "xTickCount s0", where 'a = nat]
      unsigned_less [of w, where 'a = nat] by simp_all
  have e: "?e = of_nat (run_time s - run_time s0)"
  proof -
    have "(of_nat (run_time s - run_time s0) :: u64) = of_nat (run_time s) - of_nat (run_time s0)"
      using assms(1) by (simp add: of_nat_diff)
    moreover have "of_nat (run_time x) = xTickCount x" for x
    proof -
      have z: "(2 ^ 64 :: u64) = 0" by simp
      show ?thesis unfolding run_time_def of_nat_add of_nat_mult of_nat_power of_nat_numeral z by simp
    qed
    ultimately show ?thesis by simp
  qed
  have ov: "unat (xNumOfOverflows s) = unat (xNumOfOverflows s0) \<or> unat (xNumOfOverflows s) = unat (xNumOfOverflows s0) + 1"
  proof -
    have "unat (xNumOfOverflows s0) \<le> unat (xNumOfOverflows s)"
      using div_le_mono [OF assms(1) [unfolded run_time_def], of "2 ^ 64"] lt by simp
    then show ?thesis using assms(2) by linarith
  qed
  show ?thesis
  proof (cases "xNumOfOverflows s \<noteq> xNumOfOverflows s0 \<and> xTickCount s \<ge> xTickCount s0")
    case True
    then have "unat (xNumOfOverflows s) = unat (xNumOfOverflows s0) + 1" "?u \<le> ?t"
      using ov by (simp_all add: word_unat_eq_iff word_le_nat_alt)
    then have "unat w \<le> run_time s - run_time s0" using lt by (simp add: run_time_def)
    then show ?thesis using True assms(3) by (simp add: xTaskCheckForTimeOut_def vTaskSetTimeOutState_def)
  next
    case False
    have "run_time s - run_time s0 < 2 ^ 64"
      using False ov lt assms(1) by (auto simp: run_time_def word_unat_eq_iff word_le_nat_alt)
    then have "unat ?e = run_time s - run_time s0" unfolding e by (intro unat_of_nat_lt) simp
    then have "?e < w \<longleftrightarrow> \<not> unat w \<le> run_time s - run_time s0" by (simp add: word_less_nat_alt not_le)
    then show ?thesis using False assms(3) e
      by (auto simp: xTaskCheckForTimeOut_def vTaskSetTimeOutState_def vTaskInternalSetTimeOutState_def Let_def)
  qed
qed

theorem timeout_exact_witness:
  "xTaskCheckForTimeOut (ex_reset\<lparr>xTickCount := 1, xNumOfOverflows := 1\<rparr>) (vTaskSetTimeOutState (ex_reset\<lparr>xTickCount := - 2\<rparr>)) 5 =
     (False, vTaskSetTimeOutState (ex_reset\<lparr>xTickCount := 1, xNumOfOverflows := 1\<rparr>), 2)"
proof -
  have t: "run_time (ex_reset\<lparr>xTickCount := 1, xNumOfOverflows := 1\<rparr>) = 2 ^ 64 + 1"
    "run_time (ex_reset\<lparr>xTickCount := - 2\<rparr>) = 2 ^ 64 - 2"
    by (simp_all add: run_time_def ex_reset_def)
  show ?thesis
    by (subst timeout_exact) (unfold t, simp_all add: portMAX_DELAY_def ex_reset_def)
qed

subsection \<open>Priority inheritance\<close>

text \<open>C28: the holder of a mutex runs with the highest priority of itself and the task that asks for the
  mutex, no other task changes; when it later gives back its only mutex it is at its base priority
  again.\<close>

theorem priority_inheritance:
  assumes "kernel_inv T D s" "t \<in> T" "pxCurrentTCB s = Some c"
  shows "\<exists>b s'. xTaskPriorityInherit (Some t) s = Some (b, s') \<and> kernel_inv T D s' \<and>
    uxPriority (tcb s' t) = max (uxPriority (tcb s t)) (uxPriority (tcb s c)) \<and>
    uxBasePriority (tcb s' t) = uxBasePriority (tcb s t) \<and> (\<forall>u. u \<noteq> t \<longrightarrow> tcb s' u = tcb s u) \<and>
    (is_ready s' t \<and> uxMutexesHeld (tcb s' t) = 1 \<longrightarrow>
      (\<exists>s2. xTaskPriorityDisinherit (Some t) s' = Some (uxPriority (tcb s' t) \<noteq> uxBasePriority (tcb s t), s2) \<and>
        kernel_inv T D s2 \<and> uxPriority (tcb s2 t) = uxBasePriority (tcb s t) \<and> uxMutexesHeld (tcb s2 t) = 0))"
proof -
  obtain b s' where s': "xTaskPriorityInherit (Some t) s = Some (b, s')" "kernel_inv T D s'"
    "uxPriority (tcb s' t) = max (uxPriority (tcb s t)) (uxPriority (tcb s c))"
    "uxBasePriority (tcb s' t) = uxBasePriority (tcb s t)" "\<forall>u. u \<noteq> t \<longrightarrow> tcb s' u = tcb s u"
    using priority_inherit [OF assms] by blast
  show ?thesis
    using s' priority_disinherit [OF s'(2) assms(2)] by (intro exI [of _ b] exI [of _ s']) auto
qed

theorem priority_inheritance_witness:
  "\<exists>s0 b s'. vTaskStartScheduler (Some 7) (Some 0) True (Some 8) (Some 1) ex_reset = Some s0 \<and>
     xTaskPriorityInherit (Some 0) s0 = Some (b, s') \<and> uxPriority (tcb s' 0) = max (uxPriority (tcb s0 0)) (uxPriority (tcb s0 1))"
proof -
  obtain s0 where s0: "vTaskStartScheduler (Some 7) (Some 0) True (Some 8) (Some 1) ex_reset = Some s0"
    "system_inv 0 {..40} ({1, 0}, s0)" "pxCurrentTCB s0 = Some 1"
    by (rule ex_started)
  show ?thesis using priority_inheritance [OF system_kernel [OF s0(2)] _ s0(3), of 0] s0(1) by blast
qed

subsection \<open>Two defects\<close>

text \<open>A switch with a bit set for an empty list.\<close>

lemma highest_bit:
  assumes "p < 32" "bit w p" "\<And>q. p < q \<Longrightarrow> \<not> bit w q"
  shows "portGET_HIGHEST_PRIORITY w = Some (of_nat p)"
proof -
  have "builtin_clz (ucast w :: u32) = Some (31 - p)"
    by (rule builtin_clz_highest) (use assms in \<open>auto simp: bit_ucast_iff\<close>)
  then show ?thesis using assms(1) by (simp add: portGET_HIGHEST_PRIORITY_def of_nat_diff)
qed

lemma switch_empty_list:
  assumes p: "p < 32" "bit (uxTopReadyPriority x) p" "\<And>q. p < q \<Longrightarrow> \<not> bit (uxTopReadyPriority x) q"
    and e: "klist (lists x) p []" and u: "uxSchedulerSuspended x = 0" "pxCurrentTCB x \<noteq> None"
  shows "\<exists>x'. vTaskSwitchContext x = Some x' \<and> pxCurrentTCB x' = Some (pvOwner (lists x) (End p))"
proof -
  have "unat (of_nat p :: u64) = p" by (rule unat_of_nat_lt) (use p(1) in simp)
  then have "pxReadyTasksLists (of_nat p) = Some p" using p(1) by (simp add: pxReadyTasksLists_def word_less_nat_alt)
  moreover note highest_bit [OF p]
  moreover have "pxNext (lists x) (End p) = End p" "pxIndex (lists x) p = End p"
    using e by (auto simp: klist_def ring_list_empty)
  ultimately show ?thesis using u
    by (auto simp: vTaskSwitchContext_def taskSELECT_HIGHEST_PRIORITY_TASK_def listGET_OWNER_OF_NEXT_ENTRY_def Let_def set_tcb_def)
qed

text \<open>C30: \<open>vTaskPriorityDisinheritAfterTimeout\<close> resets the wrong bit. Let the holder of one mutex be the
  only ready task at an inherited priority \<open>p\<close>, below that of the running task whose wait timed out.
  After the call the list of \<open>p\<close> is empty but the bit of \<open>p\<close> is still set; and from any state
  with such a bit, once no higher bit is left, the next context switch makes the owner field of the
  list's end marker - which has none - the running task.\<close>

theorem disinherit_timeout_stale_bit:
  assumes "kernel_inv T D s" "t \<in> T" "members (lists s) p = [xStateListItem t]" "p = unat (uxPriority (tcb s t))"
    and "uxMutexesHeld (tcb s t) = 1" "uxBasePriority (tcb s t) < uxPriority (tcb s t)" "hp \<le> uxBasePriority (tcb s t)"
    and "pxCurrentTCB s = Some c" "uxPriority (tcb s t) < uxPriority (tcb s c)"
  shows "\<exists>s'. vTaskPriorityDisinheritAfterTimeout (Some t) hp s = Some s' \<and>
    members (lists s') p = [] \<and> bit (uxTopReadyPriority s') p \<and>
    (\<forall>x. klist (lists x) p [] \<and> bit (uxTopReadyPriority x) p \<and> (\<forall>q>p. \<not> bit (uxTopReadyPriority x) q) \<and>
       uxSchedulerSuspended x = 0 \<and> pxCurrentTCB x \<noteq> None \<longrightarrow>
       (\<exists>x'. vTaskSwitchContext x = Some x' \<and> pxCurrentTCB x' = Some (pvOwner (lists x) (End p))))"
proof -
  note ok = kinvD(1) [OF inv_kinv [OF assms(1)]]
  let ?b = "uxBasePriority (tcb s t)" and ?S = "xStateListItem t"
  have pr: "uxPriority (tcb s t) < 32" "?b < 32" "t < 2 ^ 62" using kernel_task(1,2,3) [OF ok assms(2)] by simp_all
  have p32: "p < 32" and pD: "p \<in> D" using prio_nat [OF pr(1)] kernel_dom [OF ok, of p] by (simp_all add: assms(4))
  have b32: "unat ?b < 32" and bp: "unat ?b \<noteq> p" and bD: "unat ?b \<in> D"
    using prio_nat [OF pr(2)] assms(4,6) kernel_dom [OF ok, of "unat ?b"] by (auto simp: word_less_nat_alt)
  have ct: "pxContainer (lists s) ?S = Some p" using members_container [OF kernel_lists [OF ok] pD, of ?S] assms(3) by simp
  obtain n ls where r: "kListRemove ?S s = Some (n, s\<lparr>lists := ls\<rparr>)" "n = 0 \<longleftrightarrow> members ls p = []"
    "kinv T D (insert t {}) (s\<lparr>lists := ls, uxTopReadyPriority :=
       (if n = 0 then portRESET_READY_PRIORITY (uxPriority (tcb s t)) (uxTopReadyPriority s) else uxTopReadyPriority s)\<rparr>)"
    "pxContainer ls = (pxContainer (lists s))(?S := None)" "xItemValue ls = xItemValue (lists s)"
    by (rule kinv_take_ready [OF inv_kinv [OF assms(1)] ct p32]) blast
  have lok: "list_ok D ls" using kernel_lists [OF kinvD(1) [OF r(3)]] by simp
  have "x \<notin> set (members ls p)" for x
    using members_container [OF lok pD, of x] members_container [OF kernel_lists [OF ok] pD, of x] r(4) assms(3)
    by (cases "x = ?S") (simp_all del: fun_upd_apply, simp_all)
  then have empty: "members ls p = []" by (cases "members ls p") auto
  then have n0: "n = 0" using r(2) by simp
  let ?f = "\<lambda>c. c\<lparr>uxPriority := ?b\<rparr>"
  define s1 where "s1 = set_event_value t ?b (set_tcb t ?f s)"
  define s2 where "s2 = set_event_value t ?b (set_tcb t ?f (s\<lparr>lists := ls\<rparr>))"
  have rm: "kListRemove ?S s1 = Some (n, s2)"
  proof -
    have "set_tcb t ?f (s\<lparr>lists := ls\<rparr>) = (set_tcb t ?f s)\<lparr>lists := ls\<rparr>" by (simp add: set_tcb_def)
    then show ?thesis unfolding s1_def s2_def
      using remove_set_event_value [of ?S "set_tcb t ?f s" n ls t ?b] remove_set_tcb [OF r(1), of t ?f] r(5) by simp
  qed
  define s3 where "s3 = s2\<lparr>uxTopReadyPriority := portRESET_READY_PRIORITY ?b (uxTopReadyPriority s)\<rparr>"
  have f2: "tcb s2 t = ?f (tcb s t)" "uxTopReadyPriority s2 = uxTopReadyPriority s"
    "lists s2 = ls \<or> lists s2 = ls\<lparr>xItemValue := (xItemValue ls)(Item (2 * t + 1) := 32 - ?b)\<rparr>"
    by (auto simp: s2_def set_event_value_def set_item_value_def event_item)
  have l2: "list_ok D (lists s2)" "members (lists s2) = members ls" "pxContainer (lists s2) = pxContainer ls"
    using f2(3) lok list_ok_value [OF lok] by auto
  define s4 where "s4 = s3\<lparr>uxTopReadyPriority := portRECORD_READY_PRIORITY ?b (uxTopReadyPriority s3),
    lists := vListInsertEnd (lists s3) (unat ?b) ?S\<rparr>"
  have add: "prvAddTaskToReadyList t s3 = Some s4"
    using pr(2) f2(1) by (simp add: prvAddTaskToReadyList_def pxReadyTasksLists_def s3_def s4_def)
  have none: "pxContainer (lists s2) (Item (2 * t)) = None" using l2(3) r(4) by (simp add: state_item)
  have "members (lists s4) p = []"
    using list_ok_insert_end(2) [OF l2(1) bD none state_index [OF pr(3)] pD] bp empty l2(2)
    by (simp add: s4_def s3_def state_item)
  moreover have "bit (uxTopReadyPriority s4) p"
  proof -
    have "bit (uxTopReadyPriority s) p" using kernel_bits [OF ok] assms(3) p32 by (simp add: ready_map_def)
    then show ?thesis using bp by (simp add: s4_def s3_def bit_record [OF pr(2)] bit_reset [OF pr(2)])
  qed
  moreover have "vTaskPriorityDisinheritAfterTimeout (Some t) hp s = Some s4"
  proof -
    have use: "(if ?b < hp then hp else ?b) = ?b" using assms(7) by auto
    have go: "uxPriority (tcb s t) \<noteq> ?b \<and> uxMutexesHeld (tcb s t) = 1" using assms(5,6) by auto
    have cont: "listIS_CONTAINED_WITHIN (lists s1) p ?S" using ct by (simp add: listIS_CONTAINED_WITHIN_def s1_def)
    have top: "(if n = 0 then s2\<lparr>uxTopReadyPriority := portRESET_READY_PRIORITY (uxPriority (tcb s2 t)) (uxTopReadyPriority s2)\<rparr>
        else s2) = s3" using n0 f2(1,2) by (simp add: s3_def)
    show ?thesis
      unfolding vTaskPriorityDisinheritAfterTimeout_def option.case Let_def use if_P [OF go] s1_def [symmetric]
        ready_list_contains(1) [OF ok assms(2)] Option.bind.simps assms(4) [symmetric] if_P [OF cont] rm prod.case top add ..
  qed
  moreover have "\<forall>x. klist (lists x) p [] \<and> bit (uxTopReadyPriority x) p \<and> (\<forall>q>p. \<not> bit (uxTopReadyPriority x) q) \<and>
       uxSchedulerSuspended x = 0 \<and> pxCurrentTCB x \<noteq> None \<longrightarrow>
       (\<exists>x'. vTaskSwitchContext x = Some x' \<and> pxCurrentTCB x' = Some (pvOwner (lists x) (End p)))"
    using switch_empty_list [OF p32] by blast
  ultimately show ?thesis by blast
qed

text \<open>
  The situation arises: the running task is lowered to 5, blocks on a mutex of the idle task, which
  inherits 5, and is raised to 7 before its wait ends.
\<close>

theorem disinherit_timeout_stale_bit_witness:
  "\<exists>s s'. kernel_inv {1, 0} {..40} s \<and> vTaskPriorityDisinheritAfterTimeout (Some 0) 0 s = Some s' \<and>
     members (lists s') 5 = [] \<and> bit (uxTopReadyPriority s') 5"
proof -
  obtain s0 where s0: "system_inv 0 {..40} ({1, 0}, s0)" "pxCurrentTCB s0 = Some 1" "is_ready s0 1"
    "uxPriority (tcb s0 0) = 0" "uxBasePriority (tcb s0 0) = 0" "uxPriority (tcb s0 1) = 31" "uxBasePriority (tcb s0 1) = 31"
    by (rule ex_started)
  have r0: "is_ready s0 0" using s0(1) by (simp add: system_inv_def)
  have h: "prvGetTCBFromHandle x (Some 1) = Some 1" for x by (simp add: prvGetTCBFromHandle_def)
  have T: "1 \<in> {1, 0 :: nat}" "0 \<in> {1, 0 :: nat}" by simp_all
  obtain s1 where s1: "kernel_inv {1, 0} {..40} s1" "uxPriority (tcb s1 1) = 5" "uxBasePriority (tcb s1 1) = 5"
    "\<forall>u. u \<noteq> 1 \<longrightarrow> tcb s1 u = tcb s0 u" "frame {} s0 s1"
    using priority_set [OF system_kernel [OF s0(1)] h T(1), of 5] s0(6,7) by auto
  obtain s2 where s2: "kernel_inv {1, 0} {..40} s2" "uxPriority (tcb s2 0) = 5" "uxBasePriority (tcb s2 0) = 0"
    "\<forall>u. u \<noteq> 0 \<longrightarrow> tcb s2 u = tcb s1 u" "frame {} s1 s2"
    using priority_inherit [OF s1(1) T(2), of 1] s1(2-5) s0(2,4,5) by (auto simp: frame_def max_def)
  obtain s3 where s3: "kernel_inv {1, 0} {..40} s3" "uxPriority (tcb s3 1) = 7" "\<forall>u. u \<noteq> 1 \<longrightarrow> tcb s3 u = tcb s2 u" "frame {} s2 s3"
    using priority_set [OF s2(1) h T(1), of 7] s2(4) s1(2,3) by auto
  define s where "s = set_tcb 0 (\<lambda>c. c\<lparr>uxMutexesHeld := 1\<rparr>) s3"
  have k: "kernel_inv {1, 0} {..40} s" unfolding s_def by (rule inv_step [OF kinv_tcb_other [OF inv_kinv [OF s3(1)]]]) simp_all
  note ok = kinvD(1) [OF inv_kinv [OF k]]
  have c: "pxCurrentTCB s = Some 1" and r: "is_ready s 0"
    using s1(5) s2(5) s3(4) s0(2) r0 by (simp_all add: s_def frame_def is_ready_def)
  have p: "uxPriority (tcb s 0) = 5" "uxBasePriority (tcb s 0) = 0" "uxPriority (tcb s 1) = 7" "uxMutexesHeld (tcb s 0) = 1"
    using s2(2,3) s3(2,3) by (simp_all add: s_def)
  have D: "5 \<in> {..40 :: nat}" by simp
  have at: "pxContainer (lists s) (xStateListItem u) = Some 5 \<longleftrightarrow> u = 0" for u
  proof
    assume *: "pxContainer (lists s) (xStateListItem u) = Some 5"
    then show "u = 0" using kernel_placeD(1,3) [OF ok *] p(3) by auto
  next
    assume "u = 0"
    then show "pxContainer (lists s) (xStateListItem u) = Some 5"
      using r kernel_placeD(3) [OF ok, of 0] p(1) by (auto simp: is_ready_def)
  qed
  have "set (members (lists s) 5) = {xStateListItem 0}"
  proof (intro set_eqI iffI)
    fix x assume x: "x \<in> set (members (lists s) 5)"
    obtain u where u: "x = xStateListItem u" by (rule kernel_member [OF ok _ x]) simp_all
    then show "x \<in> {xStateListItem 0}" using members_container [OF kernel_lists [OF ok] D] x at by simp
  qed (use members_container [OF kernel_lists [OF ok] D] at in simp)
  then have m: "members (lists s) 5 = [xStateListItem 0]"
    using members_distinct [OF kernel_lists [OF ok] D] by (cases "members (lists s) 5") (auto simp: subset_singleton_iff)
  from disinherit_timeout_stale_bit [OF k T(2) m _ p(4) _ _ c, of 0] show ?thesis using k p by auto
qed

text \<open>An item that is put at the end of the same empty list twice.\<close>

lemma inserted_twice:
  assumes "klist ls l []" "x \<noteq> End l"
  defines "ls2 \<equiv> vListInsertEnd (vListInsertEnd ls l x) l x"
  shows "pxNext ls2 (End l) = x" "pxNext ls2 x = x" "uxNumberOfItems ls2 l = 2" "pxContainer ls2 x = Some l"
    "pxIndex ls2 l = End l" "pxPrevious ls2 x = x"
proof -
  have e: "pxNext ls (End l) = End l" "pxPrevious ls (End l) = End l" "pxIndex ls l = End l" "uxNumberOfItems ls l = 0"
    using assms(1) by (auto simp: klist_def ring_list_empty unat_eq_0)
  show "pxNext ls2 (End l) = x" "pxNext ls2 x = x" "uxNumberOfItems ls2 l = 2" "pxContainer ls2 x = Some l"
    "pxIndex ls2 l = End l" "pxPrevious ls2 x = x"
    using assms(2) by (simp_all add: ls2_def vListInsertEnd_def Let_def e)
qed

text \<open>\<open>prvTaskIsTaskSuspended\<close> takes a task that waits for a notification without a time limit for a
  suspended one. While the scheduler is suspended, \<open>xTaskResumeFromISR\<close> and then a notification from
  an interrupt put its event item on the pending list twice: the list counts two items, its walk
  never gets back to the end marker, and after the first removal the head is an item whose
  container is the null pointer, which the second removal of \<open>xTaskResumeAll\<close> follows.\<close>

theorem pending_twice_fault:
  assumes "kernel_inv T D s" "t \<in> T" "prvTaskIsTaskSuspended t s" "notify_state t 0 s = Some taskWAITING_NOTIFICATION"
    and "ulNotifiedValue (tcb s t) \<noteq> []" "uxSchedulerSuspended s \<noteq> 0" "members (lists s) xPendingReadyList = []"
  shows "\<exists>s1 r p b s2 n s3. xTaskResumeFromISR t s = Some (False, s1) \<and>
    xTaskGenericNotifyFromISR t 0 v eIncrement s1 = Some (r, p, b, s2) \<and>
    uxNumberOfItems (lists s2) xPendingReadyList = 2 \<and> (\<forall>xs. \<not> klist (lists s2) xPendingReadyList xs) \<and>
    kListRemove (xEventListItem t) s2 = Some (n, s3) \<and> \<not> listLIST_IS_EMPTY (lists s3) xPendingReadyList \<and>
    listGET_OWNER_OF_HEAD_ENTRY (lists s3) xPendingReadyList = t \<and> kListRemove (xEventListItem t) s3 = None"
proof -
  note ok = kinvD(1) [OF inv_kinv [OF assms(1)]]
  let ?x = "xEventListItem t"
  have D34: "34 \<in> D" using kernel_dom [OF ok] by simp
  have k: "klist (lists s) 34 []" using list_okD [OF kernel_lists [OF ok] D34] assms(7) by simp
  define s1 where "s1 = s\<lparr>lists := vListInsertEnd (lists s) 34 ?x\<rparr>"
  have r1: "xTaskResumeFromISR t s = Some (False, s1)"
    using assms(3,6) by (simp add: xTaskResumeFromISR_def s1_def)
  have st1: "notify_state t 0 s1 = Some taskWAITING_NOTIFICATION" using assms(4) by (simp add: s1_def notify_state_def)
  have i: "0 < length (ulNotifiedValue (tcb s1 t))" "0 < length (ucNotifyState (tcb s1 t))"
    using assms(4,5) by (auto simp: s1_def notify_state_def get_at_def split: if_splits)
  obtain w st sa where n: "notify_value t 0 s1 = Some w" "notify_state t 0 s1 = Some st"
    "set_notify_state t 0 taskNOTIFICATION_RECEIVED s1 = Some sa" "\<And>x. \<exists>s2. set_notify_value t 0 x sa = Some s2"
    by (rule notify_writes [OF i, of taskNOTIFICATION_RECEIVED]) blast
  obtain sb where sb: "set_notify_value t 0 (w + 1) sa = Some sb" using n(4) by blast
  note f = notify_twice(3-5) [OF n(3) sb]
  obtain c where c: "pxCurrentTCB s = Some c" by (rule current_task [OF assms(1)])
  define y where "y = (uxPriority (tcb sb t) > uxPriority (tcb sb c))"
  define s2 where "s2 = (if y then (\<lambda>s. s\<lparr>xYieldPending := True\<rparr>) else (\<lambda>s. s)) (sb\<lparr>lists := vListInsertEnd (lists sb) 34 ?x\<rparr>)"
  have r2: "xTaskGenericNotifyFromISR t 0 v eIncrement s1 = Some (True, w, y, s2)"
    using n(1-3) sb st1 f c assms(6)
    by (simp add: xTaskGenericNotifyFromISR_def notify_action_def notify_wake_from_isr_def s1_def s2_def y_def)
  have l2: "lists s2 = vListInsertEnd (vListInsertEnd (lists s) 34 ?x) 34 ?x" using f(1) by (simp add: s2_def s1_def)
  note tw = inserted_twice [OF k, of ?x, folded l2, simplified]
  have bad: "\<not> klist (lists s2) 34 xs" for xs
  proof
    assume kl: "klist (lists s2) 34 xs"
    then have "length xs = 2" using tw(3) by (simp add: klist_def)
    then obtain a b where "xs = [a, b]" by (cases xs; cases "tl xs") auto
    then show False using kl tw(1,2) by (auto simp: klist_def ring_list_def)
  qed
  define s3 where "s3 = s2\<lparr>lists := snd (the (uxListRemove (lists s2) ?x))\<rparr>"
  have rm: "kListRemove ?x s2 = Some (1, s3)"
    using tw by (simp add: kListRemove_def uxListRemove_def Let_def s3_def)
  have own: "pvOwner (lists s2) ?x = t" using kernel_task(5) [OF ok assms(2)] by (simp add: l2)
  have l3: "pxContainer (lists s3) ?x = None" "pxNext (lists s3) (End 34) = ?x" "uxNumberOfItems (lists s3) 34 = 1"
    "pvOwner (lists s3) ?x = t"
    using tw own by (simp_all add: s3_def uxListRemove_def Let_def)
  then have "\<not> listLIST_IS_EMPTY (lists s3) 34" "listGET_OWNER_OF_HEAD_ENTRY (lists s3) 34 = t" "kListRemove ?x s3 = None"
    by (simp_all add: listLIST_IS_EMPTY_def listGET_OWNER_OF_HEAD_ENTRY_def kListRemove_def uxListRemove_def)
  then show ?thesis using r1 r2 tw(3) bad rm by blast
qed

theorem pending_twice_fault_witness:
  "\<exists>s s1 s2 n s3 r p b. kernel_inv {1, 0} {..40} s \<and> xTaskResumeFromISR 1 s = Some (False, s1) \<and>
     xTaskGenericNotifyFromISR 1 0 0 eIncrement s1 = Some (r, p, b, s2) \<and>
     kListRemove (xEventListItem 1) s2 = Some (n, s3) \<and> kListRemove (xEventListItem 1) s3 = None"
proof -
  obtain s0 where s0: "system_inv 0 {..40} ({1, 0}, s0)" "uxSchedulerSuspended s0 = 0" "pxCurrentTCB s0 = Some 1" "is_ready s0 1"
    "members (lists s0) xPendingReadyList = []" "pxContainer (lists s0) (xEventListItem 1) = None"
    "length (ulNotifiedValue (tcb s0 1)) = 1" "length (ucNotifyState (tcb s0 1)) = 1"
    by (rule ex_started)
  define s1 where "s1 = set_tcb 1 (\<lambda>c. c\<lparr>ucNotifyState := (ucNotifyState (tcb s0 1))[0 := taskWAITING_NOTIFICATION]\<rparr>) s0"
  have "set_notify_state 1 0 taskWAITING_NOTIFICATION s0 = Some s1"
    using s0(8) by (simp add: set_notify_state_def set_at_def s1_def)
  note u = notify_update [OF set_notify(1) [OF this]]
  have k1: "kernel_inv {1, 0} {..40} s1" using u(1) system_kernel [OF s0(1)] by blast
  have c1: "pxCurrentTCB s1 = Some 1" "is_ready s1 1" "portMAX_DELAY \<noteq> 0" using u(4,6) s0(3,4) by (simp_all add: portMAX_DELAY_def)
  obtain s2 where s2: "kernel_inv {1, 0} {..40} s2"
    "pxContainer (lists s2) = (pxContainer (lists s1))(xStateListItem 1 := Some 36)" "tcb s2 = tcb s1"
    "uxSchedulerSuspended s2 = uxSchedulerSuspended s1"
    by (rule delay_current [OF k1 c1, of True]) (auto simp: delayed_to_def)
  define s where "s = vTaskSuspendAll s2"
  have k: "kernel_inv {1, 0} {..40} s" unfolding s_def by (rule suspend_all_inv [OF s2(1)])
  have l: "lists s = lists s2" "tcb s = tcb s1" "uxSchedulerSuspended s = 1"
    using s2(3,4) u(5) s0(2) by (simp_all add: s_def vTaskSuspendAll_def)
  have D: "34 \<in> {..40 :: nat}" by simp
  have "pxContainer (lists s0) x \<noteq> Some 34" for x
    using members_container [OF kernel_lists [OF kinvD(1) [OF inv_kinv [OF system_kernel [OF s0(1)]]]] D] s0(5) by simp
  then have "members (lists s) 34 = []"
    unfolding members_empty [OF kernel_lists [OF kinvD(1) [OF inv_kinv [OF k]]] D] using u(3) s2(2) by (simp add: l(1))
  moreover have "prvTaskIsTaskSuspended 1 s"
    using s0(6) u(3) s2(2) by (simp add: prvTaskIsTaskSuspended_def listIS_CONTAINED_WITHIN_def l(1))
  moreover have "notify_state 1 0 s = Some taskWAITING_NOTIFICATION" "ulNotifiedValue (tcb s 1) \<noteq> []"
    using s0(7,8) by (auto simp: notify_state_def get_at_def l(2) s1_def)
  ultimately show ?thesis using pending_twice_fault [OF k, of 1 0] k l(3) by fastforce
qed

subsection \<open>The state of a task\<close>

text \<open>\<open>eTaskGetState\<close> classifies every task of the system by where it is: the running task is
  \<open>eRunning\<close>; of the others exactly the ready ones are \<open>eReady\<close> and exactly those that wait for
  their clean-up are \<open>eDeleted\<close>; \<open>eSuspended\<close> is only a task in the suspended list that waits for
  nothing; \<open>eInvalid\<close> is never returned.\<close>

theorem eTaskGetState_correct:
  assumes "kernel_inv T D s" "t \<in> T"
  shows "(eTaskGetState t s = eRunning \<longleftrightarrow> pxCurrentTCB s = Some t) \<and>
    (eTaskGetState t s = eReady \<longleftrightarrow> pxCurrentTCB s \<noteq> Some t \<and> is_ready s t) \<and>
    (eTaskGetState t s = eDeleted \<longleftrightarrow> pxCurrentTCB s \<noteq> Some t \<and> \<not> alive s t) \<and>
    (eTaskGetState t s = eSuspended \<longrightarrow> prvTaskIsTaskSuspended t s \<and> taskWAITING_NOTIFICATION \<notin> set (ucNotifyState (tcb s t))) \<and>
    eTaskGetState t s \<noteq> eInvalid"
proof -
  note ok = kinvD(1) [OF inv_kinv [OF assms(1)]]
  obtain l where l: "pxContainer (lists s) (xStateListItem t) = Some l" "l < 32 \<or> l \<in> {32, 33, 35, 36}"
    by (rule inv_place [OF assms])
  have d: "l = pxDelayedTaskList s \<or> l = pxOverflowDelayedTaskList s \<longleftrightarrow> l = 32 \<or> l = 33"
    by (cases rule: delayed_cases [OF ok]) auto
  have st: "eTaskGetState t s = (if pxCurrentTCB s = Some t then eRunning else if l = 32 \<or> l = 33 then eBlocked
      else if l = 36 then (if pxContainer (lists s) (xEventListItem t) = None then
        (if list_ex (\<lambda>x. x = taskWAITING_NOTIFICATION) (ucNotifyState (tcb s t)) then eBlocked else eSuspended) else eBlocked)
      else if l = 35 then eDeleted else eReady)"
    unfolding eTaskGetState_def Let_def l(1) option.inject d by auto
  have "is_ready s t \<longleftrightarrow> l < 32" "alive s t \<longleftrightarrow> l \<noteq> 35"
    "prvTaskIsTaskSuspended t s \<longleftrightarrow> l = 36 \<and> pxContainer (lists s) (xEventListItem t) = None"
    using l(1) by (auto simp: is_ready_def alive_def prvTaskIsTaskSuspended_def listIS_CONTAINED_WITHIN_def)
  then show ?thesis using l(2) by (auto simp: st list_ex_iff)
qed

theorem eTaskGetState_correct_witness:
  "\<exists>s0. vTaskStartScheduler (Some 7) (Some 0) True (Some 8) (Some 1) ex_reset = Some s0 \<and>
     eTaskGetState 0 s0 = eReady \<and> eTaskGetState 1 s0 = eRunning"
proof -
  obtain s0 where s0: "vTaskStartScheduler (Some 7) (Some 0) True (Some 8) (Some 1) ex_reset = Some s0"
    "system_inv 0 {..40} ({1, 0}, s0)" "pxCurrentTCB s0 = Some 1"
    by (rule ex_started)
  then show ?thesis
    using eTaskGetState_correct [OF system_kernel [OF s0(2)], of 0] eTaskGetState_correct [OF system_kernel [OF s0(2)], of 1]
    by (auto simp: system_inv_def)
qed

end
