(* ===== verification/Queue.thy ===== *)
theory Queue
  imports Byte_Ring Heap4 Task_Sync
begin

text \<open>
  Queues, semaphores and mutexes, \<^verbatim>\<open>FreeRTOS/Source/queue.c\<close>, in a configuration without queue
  sets, registry and co-routines. A queue is worked on together with the kernel that holds its two
  lists of waiting tasks. The storage area is a list of bytes at address \<open>qStorageAt\<close>; the
  pointers into it are addresses, and a \<open>memcpy\<close> that leaves the area has no result.
  \<open>configASSERT\<close> is empty in this configuration, so a failing assertion goes on.

  The union \<open>u\<close> has two words. The first is \<open>xQueue.pcTail\<close> or \<open>xSemaphore.xMutexHolder\<close>: an address or
  the handle of a task; the null pointer can be read as both. The second is \<open>xQueue.pcReadFrom\<close> or
  \<open>xSemaphore.uxRecursiveCallCount\<close>, a word in both cases.

  A call that has to wait is a loop: it tries, then waits on the event list with the scheduler
  suspended and the queue locked, and tries again. What happens at the points where it can be
  interrupted is an argument, one \<open>wait_env\<close> for each round.
\<close>

type_synonym i8 = "8 word"

definition queueUNLOCKED :: i8 where "queueUNLOCKED = - 1"
definition queueLOCKED_UNMODIFIED :: i8 where "queueLOCKED_UNMODIFIED = 0"

datatype union_word = Address u64 | Holder "nat option"

datatype position = queueSEND_TO_BACK | queueSEND_TO_FRONT | queueOVERWRITE

record Queue_t =
  pcHead :: u64
  pcWriteTo :: u64
  pcTail :: union_word
  pcReadFrom :: u64
  xTasksWaitingToSend :: nat
  xTasksWaitingToReceive :: nat
  uxMessagesWaiting :: u64
  uxLength :: u64
  uxItemSize :: u64
  cRxLock :: i8
  cTxLock :: i8
  qStaticallyAllocated :: bool
  uxQueueNumber :: u64
  ucQueueType :: u8
  qStorageAt :: u64
  qStorage :: "u8 list"

definition sizeof_Queue :: u64 where "sizeof_Queue = 160"

type_synonym queue_state = "Queue_t \<times> kernel"

definition queue_is_mutex :: "Queue_t \<Rightarrow> bool" where
  "queue_is_mutex q \<longleftrightarrow> pcHead q = 0"

text \<open>The two readings of the first word of the union.\<close>

definition queue_tail :: "Queue_t \<Rightarrow> u64 option" where
  "queue_tail q = (case pcTail q of Address a \<Rightarrow> Some a | Holder None \<Rightarrow> Some 0 | Holder (Some t) \<Rightarrow> None)"

definition queue_holder :: "Queue_t \<Rightarrow> nat option option" where
  "queue_holder q = (case pcTail q of Address a \<Rightarrow> if a = 0 then Some None else None | Holder h \<Rightarrow> Some h)"

subsection \<open>Locking\<close>

definition prvLockQueue :: "Queue_t \<Rightarrow> Queue_t" where
  "prvLockQueue q =
     (let q = (if cRxLock q = queueUNLOCKED then q\<lparr>cRxLock := queueLOCKED_UNMODIFIED\<rparr> else q)
      in if cTxLock q = queueUNLOCKED then q\<lparr>cTxLock := queueLOCKED_UNMODIFIED\<rparr> else q)"

text \<open>
  The two loops of \<open>prvUnlockQueue\<close>: the counter is signed, and as many tasks are released as it
  says, or all that wait.
\<close>

fun unlock_loop :: "nat \<Rightarrow> nat \<Rightarrow> kernel \<Rightarrow> kernel option" where
  "unlock_loop l 0 s = Some s"
| "unlock_loop l (Suc n) s =
     (if \<not> listLIST_IS_EMPTY (lists s) l then do {
        (w, s) \<leftarrow> xTaskRemoveFromEventList l s;
        unlock_loop l n (if w then vTaskMissedYield s else s) }
      else Some s)"

definition unlock_tx :: "queue_state \<Rightarrow> queue_state option" where
  "unlock_tx = (\<lambda>(q, s). do {
     s \<leftarrow> unlock_loop (xTasksWaitingToReceive q) (nat (sint (cTxLock q))) s;
     Some (q\<lparr>cTxLock := queueUNLOCKED\<rparr>, s) })"

definition unlock_rx :: "queue_state \<Rightarrow> queue_state option" where
  "unlock_rx = (\<lambda>(q, s). do {
     s \<leftarrow> unlock_loop (xTasksWaitingToSend q) (nat (sint (cRxLock q))) s;
     Some (q\<lparr>cRxLock := queueUNLOCKED\<rparr>, s) })"

text \<open>An interrupt can come between the two critical sections.\<close>

definition prvUnlockQueue :: "(queue_state \<Rightarrow> queue_state option) \<Rightarrow> queue_state \<Rightarrow> queue_state option" where
  "prvUnlockQueue isr x = do { x \<leftarrow> unlock_tx x; x \<leftarrow> isr x; unlock_rx x }"

subsection \<open>Creation\<close>

text \<open>Releasing one task that waits on a list, if there is one; the caller yields if it is to run.\<close>

definition wake_one :: "nat \<Rightarrow> kernel \<Rightarrow> (bool \<times> kernel) option" where
  "wake_one l s = (if \<not> listLIST_IS_EMPTY (lists s) l then xTaskRemoveFromEventList l s else Some (False, s))"

definition wake_and_yield :: "nat \<Rightarrow> kernel \<Rightarrow> kernel option" where
  "wake_and_yield l s = do { (w, s) \<leftarrow> wake_one l s; Some (if w then portYIELD s else s) }"

definition xQueueGenericReset :: "bool \<Rightarrow> queue_state \<Rightarrow> (bool \<times> queue_state) option" where
  "xQueueGenericReset xNewQueue = (\<lambda>(q, s). do {
     let q = q\<lparr>pcTail := Address (pcHead q + uxLength q * uxItemSize q)\<rparr>;
     let q = q\<lparr>uxMessagesWaiting := 0\<rparr>;
     let q = q\<lparr>pcWriteTo := pcHead q\<rparr>;
     let q = q\<lparr>pcReadFrom := pcHead q + (uxLength q - 1) * uxItemSize q\<rparr>;
     let q = q\<lparr>cRxLock := queueUNLOCKED\<rparr>;
     let q = q\<lparr>cTxLock := queueUNLOCKED\<rparr>;
     if \<not> xNewQueue then do {
       s \<leftarrow> wake_and_yield (xTasksWaitingToSend q) s;
       Some (True, q, s) }
     else do {
       let s = s\<lparr>lists := vListInitialise (lists s) (xTasksWaitingToSend q)\<rparr>;
       let s = s\<lparr>lists := vListInitialise (lists s) (xTasksWaitingToReceive q)\<rparr>;
       Some (True, q, s) } })"

text \<open>\<open>self\<close> is the address of the queue itself, the other fields are what the memory held.\<close>

definition prvInitialiseNewQueue :: "u64 \<Rightarrow> u64 \<Rightarrow> u64 \<Rightarrow> u64 \<Rightarrow> u8 \<Rightarrow> queue_state \<Rightarrow> queue_state option" where
  "prvInitialiseNewQueue self uxQueueLength uxQueueItemSize pucQueueStorage queueType = (\<lambda>(q, s). do {
     let q = (if uxQueueItemSize = 0 then q\<lparr>pcHead := self\<rparr> else q\<lparr>pcHead := pucQueueStorage\<rparr>);
     let q = q\<lparr>uxLength := uxQueueLength\<rparr>;
     let q = q\<lparr>uxItemSize := uxQueueItemSize\<rparr>;
     (_, q, s) \<leftarrow> xQueueGenericReset True (q, s);
     Some (q\<lparr>ucQueueType := queueType\<rparr>, s) })"

text \<open>
  \<open>waitS\<close> and \<open>waitR\<close> are the numbers of the two lists inside the queue. The rest of the structure is
  what \<open>pvPortMalloc\<close> found there: an arbitrary \<open>Queue_t\<close>. The multiplication is of \<open>size_t\<close>.
\<close>

definition xQueueGenericCreate ::
  "heap4 \<Rightarrow> nat \<Rightarrow> nat \<Rightarrow> Queue_t \<Rightarrow> u64 \<Rightarrow> u64 \<Rightarrow> u8 \<Rightarrow> kernel \<Rightarrow> (u64 \<times> Queue_t option \<times> heap4 \<times> kernel) option" where
  "xQueueGenericCreate h waitS waitR memory uxQueueLength uxQueueItemSize queueType s = do {
     let xQueueSizeInBytes = uxQueueLength * uxQueueItemSize;
     (pxNewQueue, h) \<leftarrow> pvPortMalloc h (sizeof_Queue + xQueueSizeInBytes);
     if pxNewQueue \<noteq> 0 then do {
       let pucQueueStorage = pxNewQueue + sizeof_Queue;
       let q = memory\<lparr>xTasksWaitingToSend := waitS, xTasksWaitingToReceive := waitR, qStorageAt := pucQueueStorage,
         qStorage := map (\<lambda>i. hp_mem h (pucQueueStorage + of_nat i)) [0..<unat xQueueSizeInBytes]\<rparr>;
       let q = q\<lparr>qStaticallyAllocated := False\<rparr>;
       (q, s) \<leftarrow> prvInitialiseNewQueue pxNewQueue uxQueueLength uxQueueItemSize pucQueueStorage queueType (q, s);
       Some (pxNewQueue, Some q, h, s) }
     else Some (0, None, h, s) }"

definition xQueueGenericCreateStatic ::
  "nat \<Rightarrow> nat \<Rightarrow> Queue_t \<Rightarrow> u64 \<Rightarrow> u64 \<Rightarrow> u64 \<Rightarrow> u8 list \<Rightarrow> u64 \<Rightarrow> u8 \<Rightarrow> kernel \<Rightarrow> (u64 \<times> Queue_t option \<times> kernel) option" where
  "xQueueGenericCreateStatic waitS waitR memory uxQueueLength uxQueueItemSize pucQueueStorage storage pxStaticQueue queueType s =
     (let pxNewQueue = pxStaticQueue in
      if pxNewQueue \<noteq> 0 then do {
        let q = memory\<lparr>xTasksWaitingToSend := waitS, xTasksWaitingToReceive := waitR,
          qStorageAt := pucQueueStorage, qStorage := storage\<rparr>;
        let q = q\<lparr>qStaticallyAllocated := True\<rparr>;
        (q, s) \<leftarrow> prvInitialiseNewQueue pxNewQueue uxQueueLength uxQueueItemSize pucQueueStorage queueType (q, s);
        Some (pxNewQueue, Some q, s) }
      else Some (pxNewQueue, None, s))"

definition vQueueDelete :: "heap4 \<Rightarrow> u64 \<Rightarrow> Queue_t \<Rightarrow> heap4 option" where
  "vQueueDelete h pxQueue q = (if \<not> qStaticallyAllocated q then vPortFree h pxQueue else Some h)"

subsection \<open>Copying items\<close>

text \<open>The two uses of \<open>memcpy\<close>: \<open>uxItemSize\<close> bytes into the storage area and out of it.\<close>

definition copy_item_in :: "Queue_t \<Rightarrow> u64 \<Rightarrow> u8 list \<Rightarrow> Queue_t option" where
  "copy_item_in q p pvItemToQueue = do {
     item \<leftarrow> copy_out pvItemToQueue 0 (unat (uxItemSize q));
     bs \<leftarrow> copy_in (qStorage q) (unat (p - qStorageAt q)) item;
     Some (q\<lparr>qStorage := bs\<rparr>) }"

definition copy_item_out :: "Queue_t \<Rightarrow> u64 \<Rightarrow> u8 list option" where
  "copy_item_out q p = copy_out (qStorage q) (unat (p - qStorageAt q)) (unat (uxItemSize q))"

definition prvCopyDataToQueue :: "u8 list \<Rightarrow> position \<Rightarrow> queue_state \<Rightarrow> (bool \<times> queue_state) option" where
  "prvCopyDataToQueue pvItemToQueue xPosition = (\<lambda>(q, s).
     (let messages = uxMessagesWaiting q in
      if uxItemSize q = 0 then
        if queue_is_mutex q then do {
          holder \<leftarrow> queue_holder q;
          (xReturn, s) \<leftarrow> xTaskPriorityDisinherit holder s;
          let q = q\<lparr>pcTail := Holder None\<rparr>;
          Some (xReturn, q\<lparr>uxMessagesWaiting := messages + 1\<rparr>, s) }
        else Some (False, q\<lparr>uxMessagesWaiting := messages + 1\<rparr>, s)
      else if xPosition = queueSEND_TO_BACK then do {
        q \<leftarrow> copy_item_in q (pcWriteTo q) pvItemToQueue;
        let q = q\<lparr>pcWriteTo := pcWriteTo q + uxItemSize q\<rparr>;
        tl \<leftarrow> queue_tail q;
        let q = (if tl \<le> pcWriteTo q then q\<lparr>pcWriteTo := pcHead q\<rparr> else q);
        Some (False, q\<lparr>uxMessagesWaiting := messages + 1\<rparr>, s) }
      else do {
        q \<leftarrow> copy_item_in q (pcReadFrom q) pvItemToQueue;
        let q = q\<lparr>pcReadFrom := pcReadFrom q - uxItemSize q\<rparr>;
        tl \<leftarrow> queue_tail q;
        let q = (if pcReadFrom q < pcHead q then q\<lparr>pcReadFrom := tl - uxItemSize q\<rparr> else q);
        let messages = (if xPosition = queueOVERWRITE then if messages > 0 then messages - 1 else messages else messages);
        Some (False, q\<lparr>uxMessagesWaiting := messages + 1\<rparr>, s) }))"

text \<open>Semaphores have no data: nothing is copied.\<close>

definition prvCopyDataFromQueue :: "Queue_t \<Rightarrow> (u8 list \<times> Queue_t) option" where
  "prvCopyDataFromQueue q =
     (if uxItemSize q \<noteq> 0 then do {
        let q = q\<lparr>pcReadFrom := pcReadFrom q + uxItemSize q\<rparr>;
        tl \<leftarrow> queue_tail q;
        let q = (if tl \<le> pcReadFrom q then q\<lparr>pcReadFrom := pcHead q\<rparr> else q);
        item \<leftarrow> copy_item_out q (pcReadFrom q);
        Some (item, q) }
      else Some ([], q))"

definition prvIsQueueEmpty :: "Queue_t \<Rightarrow> bool" where
  "prvIsQueueEmpty q \<longleftrightarrow> uxMessagesWaiting q = 0"

definition prvIsQueueFull :: "Queue_t \<Rightarrow> bool" where
  "prvIsQueueFull q \<longleftrightarrow> uxMessagesWaiting q = uxLength q"

definition xQueueIsQueueEmptyFromISR :: "Queue_t \<Rightarrow> bool" where
  "xQueueIsQueueEmptyFromISR q \<longleftrightarrow> uxMessagesWaiting q = 0"

definition xQueueIsQueueFullFromISR :: "Queue_t \<Rightarrow> bool" where
  "xQueueIsQueueFullFromISR q \<longleftrightarrow> uxMessagesWaiting q = uxLength q"

definition uxQueueMessagesWaiting :: "Queue_t \<Rightarrow> u64" where
  "uxQueueMessagesWaiting q = uxMessagesWaiting q"

definition uxQueueSpacesAvailable :: "Queue_t \<Rightarrow> u64" where
  "uxQueueSpacesAvailable q = uxLength q - uxMessagesWaiting q"

subsection \<open>Waiting\<close>

text \<open>
  What comes between: before the scheduler is suspended and after it has run again anything may
  happen; while it is suspended only interrupt handlers run, at the points 0 to 4.
\<close>

record wait_env =
  env_before :: "queue_state \<Rightarrow> queue_state option"
  env_isr :: "nat \<Rightarrow> queue_state \<Rightarrow> queue_state option"
  env_after :: "queue_state \<Rightarrow> queue_state option"

text \<open>The result is the return value or, after a wait, the time-out state and the time left.\<close>

definition send_block ::
  "wait_env \<Rightarrow> TimeOut_t \<Rightarrow> u64 \<Rightarrow> queue_state \<Rightarrow>
   ((bool + TimeOut_t \<times> u64) \<times> queue_state) option" where
  "send_block e xTimeOut xTicksToWait = (\<lambda>(q, s). do {
     (q, s) \<leftarrow> env_isr e 0 (prvLockQueue q, vTaskSuspendAll s);
     let (expired, xTimeOut, xTicksToWait) = xTaskCheckForTimeOut s xTimeOut xTicksToWait;
     if \<not> expired then
       if prvIsQueueFull q then do {
         (q, s) \<leftarrow> env_isr e 1 (q, s);
         s \<leftarrow> vTaskPlaceOnEventList (xTasksWaitingToSend q) xTicksToWait s;
         (q, s) \<leftarrow> env_isr e 2 (q, s);
         (q, s) \<leftarrow> prvUnlockQueue (env_isr e 3) (q, s);
         (q, s) \<leftarrow> env_isr e 4 (q, s);
         (y, s) \<leftarrow> xTaskResumeAll s;
         (q, s) \<leftarrow> env_after e (q, if \<not> y then portYIELD s else s);
         Some (Inr (xTimeOut, xTicksToWait), q, s) }
       else do {
         (q, s) \<leftarrow> prvUnlockQueue (env_isr e 3) (q, s);
         (q, s) \<leftarrow> env_isr e 4 (q, s);
         (_, s) \<leftarrow> xTaskResumeAll s;
         (q, s) \<leftarrow> env_after e (q, s);
         Some (Inr (xTimeOut, xTicksToWait), q, s) }
     else do {
       (q, s) \<leftarrow> prvUnlockQueue (env_isr e 3) (q, s);
       (q, s) \<leftarrow> env_isr e 4 (q, s);
       (_, s) \<leftarrow> xTaskResumeAll s;
       Some (Inl False, q, s) } })"

text \<open>The same for a receiver. A time-out is final only if the queue is still empty.\<close>

definition receive_block ::
  "wait_env \<Rightarrow> TimeOut_t \<Rightarrow> u64 \<Rightarrow> queue_state \<Rightarrow>
   ((unit + TimeOut_t \<times> u64) \<times> queue_state) option" where
  "receive_block e xTimeOut xTicksToWait = (\<lambda>(q, s). do {
     (q, s) \<leftarrow> env_isr e 0 (prvLockQueue q, vTaskSuspendAll s);
     let (expired, xTimeOut, xTicksToWait) = xTaskCheckForTimeOut s xTimeOut xTicksToWait;
     if \<not> expired then
       if prvIsQueueEmpty q then do {
         (q, s) \<leftarrow> env_isr e 1 (q, s);
         s \<leftarrow> vTaskPlaceOnEventList (xTasksWaitingToReceive q) xTicksToWait s;
         (q, s) \<leftarrow> env_isr e 2 (q, s);
         (q, s) \<leftarrow> prvUnlockQueue (env_isr e 3) (q, s);
         (q, s) \<leftarrow> env_isr e 4 (q, s);
         (y, s) \<leftarrow> xTaskResumeAll s;
         (q, s) \<leftarrow> env_after e (q, if \<not> y then portYIELD s else s);
         Some (Inr (xTimeOut, xTicksToWait), q, s) }
       else do {
         (q, s) \<leftarrow> prvUnlockQueue (env_isr e 3) (q, s);
         (q, s) \<leftarrow> env_isr e 4 (q, s);
         (_, s) \<leftarrow> xTaskResumeAll s;
         (q, s) \<leftarrow> env_after e (q, s);
         Some (Inr (xTimeOut, xTicksToWait), q, s) }
     else do {
       (q, s) \<leftarrow> prvUnlockQueue (env_isr e 3) (q, s);
       (q, s) \<leftarrow> env_isr e 4 (q, s);
       (_, s) \<leftarrow> xTaskResumeAll s;
       (q, s) \<leftarrow> env_after e (q, s);
       Some (if prvIsQueueEmpty q then Inl () else Inr (xTimeOut, xTicksToWait), q, s) } })"

text \<open>
  For a semaphore, with priority inheritance when it is a mutex. \<open>inherited\<close> is
  \<open>xInheritanceOccurred\<close>, which the caller keeps.
\<close>

definition prvGetDisinheritPriorityAfterTimeout :: "queue_state \<Rightarrow> u64" where
  "prvGetDisinheritPriorityAfterTimeout = (\<lambda>(q, s).
     if uxNumberOfItems (lists s) (xTasksWaitingToReceive q) > 0
     then configMAX_PRIORITIES - listGET_ITEM_VALUE_OF_HEAD_ENTRY (lists s) (xTasksWaitingToReceive q)
     else 0)"

definition take_block ::
  "wait_env \<Rightarrow> bool \<Rightarrow> TimeOut_t \<Rightarrow> u64 \<Rightarrow> queue_state \<Rightarrow>
   ((unit + TimeOut_t \<times> u64) \<times> bool \<times> queue_state) option" where
  "take_block e inherited xTimeOut xTicksToWait = (\<lambda>(q, s). do {
     (q, s) \<leftarrow> env_isr e 0 (prvLockQueue q, vTaskSuspendAll s);
     let (expired, xTimeOut, xTicksToWait) = xTaskCheckForTimeOut s xTimeOut xTicksToWait;
     if \<not> expired then
       if prvIsQueueEmpty q then do {
         (q, s) \<leftarrow> env_isr e 1 (q, s);
         (inherited, s) \<leftarrow> (if queue_is_mutex q then do { holder \<leftarrow> queue_holder q; xTaskPriorityInherit holder s }
                         else Some (inherited, s));
         s \<leftarrow> vTaskPlaceOnEventList (xTasksWaitingToReceive q) xTicksToWait s;
         (q, s) \<leftarrow> env_isr e 2 (q, s);
         (q, s) \<leftarrow> prvUnlockQueue (env_isr e 3) (q, s);
         (q, s) \<leftarrow> env_isr e 4 (q, s);
         (y, s) \<leftarrow> xTaskResumeAll s;
         (q, s) \<leftarrow> env_after e (q, if \<not> y then portYIELD s else s);
         Some (Inr (xTimeOut, xTicksToWait), inherited, q, s) }
       else do {
         (q, s) \<leftarrow> prvUnlockQueue (env_isr e 3) (q, s);
         (q, s) \<leftarrow> env_isr e 4 (q, s);
         (_, s) \<leftarrow> xTaskResumeAll s;
         (q, s) \<leftarrow> env_after e (q, s);
         Some (Inr (xTimeOut, xTicksToWait), inherited, q, s) }
     else do {
       (q, s) \<leftarrow> prvUnlockQueue (env_isr e 3) (q, s);
       (q, s) \<leftarrow> env_isr e 4 (q, s);
       (_, s) \<leftarrow> xTaskResumeAll s;
       (q, s) \<leftarrow> env_after e (q, s);
       if prvIsQueueEmpty q then do {
         s \<leftarrow> (if inherited then do {
                  holder \<leftarrow> queue_holder q;
                  vTaskPriorityDisinheritAfterTimeout holder (prvGetDisinheritPriorityAfterTimeout (q, s)) s }
               else Some s);
         Some (Inl (), inherited, q, s) }
       else Some (Inr (xTimeOut, xTicksToWait), inherited, q, s) } })"

subsection \<open>Sending\<close>

text \<open>The critical section at the head of the loop.\<close>

definition send_enter ::
  "u8 list \<Rightarrow> position \<Rightarrow> u64 \<Rightarrow> TimeOut_t option \<Rightarrow> queue_state \<Rightarrow> ((bool + TimeOut_t) \<times> queue_state) option" where
  "send_enter pvItemToQueue xCopyPosition xTicksToWait xEntryTime = (\<lambda>(q, s).
     if uxMessagesWaiting q < uxLength q \<or> xCopyPosition = queueOVERWRITE then do {
       (xYieldRequired, q, s) \<leftarrow> prvCopyDataToQueue pvItemToQueue xCopyPosition (q, s);
       s \<leftarrow> (if \<not> listLIST_IS_EMPTY (lists s) (xTasksWaitingToReceive q)
             then wake_and_yield (xTasksWaitingToReceive q) s
             else Some (if xYieldRequired then portYIELD s else s));
       Some (Inl True, q, s) }
     else if xTicksToWait = 0 then Some (Inl False, q, s)
     else Some (Inr (case xEntryTime of None \<Rightarrow> vTaskInternalSetTimeOutState s | Some xTimeOut \<Rightarrow> xTimeOut), q, s))"

text \<open>\<open>None\<close> as the first component: the caller still waits when the environment ends.\<close>

fun send_loop ::
  "wait_env list \<Rightarrow> u8 list \<Rightarrow> position \<Rightarrow> u64 \<Rightarrow> TimeOut_t option \<Rightarrow> queue_state \<Rightarrow> (bool option \<times> queue_state) option" where
  "send_loop envs pvItemToQueue xCopyPosition xTicksToWait xEntryTime x = do {
     (r, x) \<leftarrow> send_enter pvItemToQueue xCopyPosition xTicksToWait xEntryTime x;
     case r of Inl b \<Rightarrow> Some (Some b, x)
     | Inr xTimeOut \<Rightarrow> (case envs of [] \<Rightarrow> Some (None, x)
       | e # es \<Rightarrow> do {
           x \<leftarrow> env_before e x;
           (r, x) \<leftarrow> send_block e xTimeOut xTicksToWait x;
           case r of Inl b \<Rightarrow> Some (Some b, x)
           | Inr (xTimeOut, xTicksToWait) \<Rightarrow> send_loop es pvItemToQueue xCopyPosition xTicksToWait (Some xTimeOut) x }) }"

declare send_loop.simps [simp del]

definition xQueueGenericSend ::
  "wait_env list \<Rightarrow> u8 list \<Rightarrow> u64 \<Rightarrow> position \<Rightarrow> queue_state \<Rightarrow> (bool option \<times> queue_state) option" where
  "xQueueGenericSend envs pvItemToQueue xTicksToWait xCopyPosition x =
     send_loop envs pvItemToQueue xCopyPosition xTicksToWait None x"

text \<open>The results of the calls for interrupts: success, and whether a more urgent task was woken.\<close>

definition xQueueGenericSendFromISR :: "u8 list \<Rightarrow> position \<Rightarrow> queue_state \<Rightarrow> (bool \<times> bool \<times> queue_state) option" where
  "xQueueGenericSendFromISR pvItemToQueue xCopyPosition = (\<lambda>(q, s).
     if uxMessagesWaiting q < uxLength q \<or> xCopyPosition = queueOVERWRITE then do {
       let txLock = cTxLock q;
       (_, q, s) \<leftarrow> prvCopyDataToQueue pvItemToQueue xCopyPosition (q, s);
       if txLock = queueUNLOCKED then do {
         (w, s) \<leftarrow> wake_one (xTasksWaitingToReceive q) s;
         Some (True, w, q, s) }
       else Some (True, False, q\<lparr>cTxLock := txLock + 1\<rparr>, s) }
     else Some (False, False, q, s))"

definition xQueueGiveFromISR :: "queue_state \<Rightarrow> (bool \<times> bool \<times> queue_state) option" where
  "xQueueGiveFromISR = (\<lambda>(q, s).
     (let messages = uxMessagesWaiting q in
      if messages < uxLength q then do {
        let txLock = cTxLock q;
        let q = q\<lparr>uxMessagesWaiting := messages + 1\<rparr>;
        if txLock = queueUNLOCKED then do {
          (w, s) \<leftarrow> wake_one (xTasksWaitingToReceive q) s;
          Some (True, w, q, s) }
        else Some (True, False, q\<lparr>cTxLock := txLock + 1\<rparr>, s) }
      else Some (False, False, q, s)))"

subsection \<open>Receiving\<close>

definition receive_enter ::
  "u64 \<Rightarrow> TimeOut_t option \<Rightarrow> queue_state \<Rightarrow> ((u8 list option + TimeOut_t) \<times> queue_state) option" where
  "receive_enter xTicksToWait xEntryTime = (\<lambda>(q, s).
     (let messages = uxMessagesWaiting q in
      if messages > 0 then do {
        (item, q) \<leftarrow> prvCopyDataFromQueue q;
        let q = q\<lparr>uxMessagesWaiting := messages - 1\<rparr>;
        s \<leftarrow> wake_and_yield (xTasksWaitingToSend q) s;
        Some (Inl (Some item), q, s) }
      else if xTicksToWait = 0 then Some (Inl None, q, s)
      else Some (Inr (case xEntryTime of None \<Rightarrow> vTaskInternalSetTimeOutState s | Some xTimeOut \<Rightarrow> xTimeOut), q, s)))"

text \<open>Peeking leaves the item, so the next reader is woken, not a writer.\<close>

definition peek_enter ::
  "u64 \<Rightarrow> TimeOut_t option \<Rightarrow> queue_state \<Rightarrow> ((u8 list option + TimeOut_t) \<times> queue_state) option" where
  "peek_enter xTicksToWait xEntryTime = (\<lambda>(q, s).
     if uxMessagesWaiting q > 0 then do {
       let pcOriginalReadPosition = pcReadFrom q;
       (item, q) \<leftarrow> prvCopyDataFromQueue q;
       let q = q\<lparr>pcReadFrom := pcOriginalReadPosition\<rparr>;
       s \<leftarrow> wake_and_yield (xTasksWaitingToReceive q) s;
       Some (Inl (Some item), q, s) }
     else if xTicksToWait = 0 then Some (Inl None, q, s)
     else Some (Inr (case xEntryTime of None \<Rightarrow> vTaskInternalSetTimeOutState s | Some xTimeOut \<Rightarrow> xTimeOut), q, s))"

text \<open>The loop of both; the item is \<open>None\<close> for \<open>errQUEUE_EMPTY\<close>.\<close>

fun receive_loop ::
  "(u64 \<Rightarrow> TimeOut_t option \<Rightarrow> queue_state \<Rightarrow> ((u8 list option + TimeOut_t) \<times> queue_state) option) \<Rightarrow>
   wait_env list \<Rightarrow> u64 \<Rightarrow> TimeOut_t option \<Rightarrow> queue_state \<Rightarrow> (u8 list option option \<times> queue_state) option" where
  "receive_loop enter envs xTicksToWait xEntryTime x = do {
     (r, x) \<leftarrow> enter xTicksToWait xEntryTime x;
     case r of Inl v \<Rightarrow> Some (Some v, x)
     | Inr xTimeOut \<Rightarrow> (case envs of [] \<Rightarrow> Some (None, x)
       | e # es \<Rightarrow> do {
           x \<leftarrow> env_before e x;
           (r, x) \<leftarrow> receive_block e xTimeOut xTicksToWait x;
           case r of Inl _ \<Rightarrow> Some (Some None, x)
           | Inr (xTimeOut, xTicksToWait) \<Rightarrow> receive_loop enter es xTicksToWait (Some xTimeOut) x }) }"

declare receive_loop.simps [simp del]

definition xQueueReceive :: "wait_env list \<Rightarrow> u64 \<Rightarrow> queue_state \<Rightarrow> (u8 list option option \<times> queue_state) option" where
  "xQueueReceive envs xTicksToWait x = receive_loop receive_enter envs xTicksToWait None x"

definition xQueuePeek :: "wait_env list \<Rightarrow> u64 \<Rightarrow> queue_state \<Rightarrow> (u8 list option option \<times> queue_state) option" where
  "xQueuePeek envs xTicksToWait x = receive_loop peek_enter envs xTicksToWait None x"

definition xQueueReceiveFromISR :: "queue_state \<Rightarrow> (u8 list option \<times> bool \<times> queue_state) option" where
  "xQueueReceiveFromISR = (\<lambda>(q, s).
     (let messages = uxMessagesWaiting q in
      if messages > 0 then do {
        let rxLock = cRxLock q;
        (item, q) \<leftarrow> prvCopyDataFromQueue q;
        let q = q\<lparr>uxMessagesWaiting := messages - 1\<rparr>;
        if rxLock = queueUNLOCKED then do {
          (w, s) \<leftarrow> wake_one (xTasksWaitingToSend q) s;
          Some (Some item, w, q, s) }
        else Some (Some item, False, q\<lparr>cRxLock := rxLock + 1\<rparr>, s) }
      else Some (None, False, q, s)))"

definition xQueuePeekFromISR :: "Queue_t \<Rightarrow> (u8 list option \<times> Queue_t) option" where
  "xQueuePeekFromISR q =
     (if uxMessagesWaiting q > 0 then do {
        let pcOriginalReadPosition = pcReadFrom q;
        (item, q) \<leftarrow> prvCopyDataFromQueue q;
        Some (Some item, q\<lparr>pcReadFrom := pcOriginalReadPosition\<rparr>) }
      else Some (None, q))"

text \<open>The timer task waits with the scheduler suspended by its caller.\<close>

definition vQueueWaitForMessageRestricted :: "(nat \<Rightarrow> queue_state \<Rightarrow> queue_state option) \<Rightarrow> u64 \<Rightarrow> bool \<Rightarrow> queue_state \<Rightarrow> queue_state option" where
  "vQueueWaitForMessageRestricted isr xTicksToWait xWaitIndefinitely = (\<lambda>(q, s). do {
     (q, s) \<leftarrow> isr 0 (prvLockQueue q, s);
     s \<leftarrow> (if uxMessagesWaiting q = 0
           then vTaskPlaceOnEventListRestricted (xTasksWaitingToReceive q) xTicksToWait xWaitIndefinitely s else Some s);
     (q, s) \<leftarrow> isr 1 (q, s);
     prvUnlockQueue (isr 2) (q, s) })"

subsection \<open>Semaphores and mutexes\<close>

definition take_enter :: "u64 \<Rightarrow> TimeOut_t option \<Rightarrow> queue_state \<Rightarrow> ((bool + TimeOut_t) \<times> queue_state) option" where
  "take_enter xTicksToWait xEntryTime = (\<lambda>(q, s).
     (let count = uxMessagesWaiting q in
      if count > 0 then do {
        let q = q\<lparr>uxMessagesWaiting := count - 1\<rparr>;
        (q, s) \<leftarrow> (if queue_is_mutex q then
                     (let (t, s) = pvTaskIncrementMutexHeldCount s in Some (q\<lparr>pcTail := Holder t\<rparr>, s))
                   else Some (q, s));
        s \<leftarrow> wake_and_yield (xTasksWaitingToSend q) s;
        Some (Inl True, q, s) }
      else if xTicksToWait = 0 then Some (Inl False, q, s)
      else Some (Inr (case xEntryTime of None \<Rightarrow> vTaskInternalSetTimeOutState s | Some xTimeOut \<Rightarrow> xTimeOut), q, s)))"

fun take_loop ::
  "wait_env list \<Rightarrow> bool \<Rightarrow> u64 \<Rightarrow> TimeOut_t option \<Rightarrow> queue_state \<Rightarrow> (bool option \<times> queue_state) option" where
  "take_loop envs inherited xTicksToWait xEntryTime x = do {
     (r, x) \<leftarrow> take_enter xTicksToWait xEntryTime x;
     case r of Inl b \<Rightarrow> Some (Some b, x)
     | Inr xTimeOut \<Rightarrow> (case envs of [] \<Rightarrow> Some (None, x)
       | e # es \<Rightarrow> do {
           x \<leftarrow> env_before e x;
           (r, inherited, x) \<leftarrow> take_block e inherited xTimeOut xTicksToWait x;
           case r of Inl _ \<Rightarrow> Some (Some False, x)
           | Inr (xTimeOut, xTicksToWait) \<Rightarrow> take_loop es inherited xTicksToWait (Some xTimeOut) x }) }"

declare take_loop.simps [simp del]

definition xQueueSemaphoreTake :: "wait_env list \<Rightarrow> u64 \<Rightarrow> queue_state \<Rightarrow> (bool option \<times> queue_state) option" where
  "xQueueSemaphoreTake envs xTicksToWait x = take_loop envs False xTicksToWait None x"

definition prvInitialiseMutex :: "queue_state \<Rightarrow> queue_state option" where
  "prvInitialiseMutex = (\<lambda>(q, s). do {
     let q = q\<lparr>pcTail := Holder None\<rparr>;
     let q = q\<lparr>pcHead := 0\<rparr>;
     let q = q\<lparr>pcReadFrom := 0\<rparr>;
     (_, x) \<leftarrow> xQueueGenericSend [] [] 0 queueSEND_TO_BACK (q, s);
     Some x })"

definition xQueueCreateMutex ::
  "heap4 \<Rightarrow> nat \<Rightarrow> nat \<Rightarrow> Queue_t \<Rightarrow> u8 \<Rightarrow> kernel \<Rightarrow> (u64 \<times> Queue_t option \<times> heap4 \<times> kernel) option" where
  "xQueueCreateMutex h waitS waitR memory queueType s = do {
     (p, q, h, s) \<leftarrow> xQueueGenericCreate h waitS waitR memory 1 0 queueType s;
     case q of None \<Rightarrow> Some (p, None, h, s)
     | Some q \<Rightarrow> do { (q, s) \<leftarrow> prvInitialiseMutex (q, s); Some (p, Some q, h, s) } }"

definition xQueueCreateMutexStatic ::
  "nat \<Rightarrow> nat \<Rightarrow> Queue_t \<Rightarrow> u8 \<Rightarrow> u64 \<Rightarrow> kernel \<Rightarrow> (u64 \<times> Queue_t option \<times> kernel) option" where
  "xQueueCreateMutexStatic waitS waitR memory queueType pxStaticQueue s = do {
     (p, q, s) \<leftarrow> xQueueGenericCreateStatic waitS waitR memory 1 0 0 [] pxStaticQueue queueType s;
     case q of None \<Rightarrow> Some (p, None, s)
     | Some q \<Rightarrow> do { (q, s) \<leftarrow> prvInitialiseMutex (q, s); Some (p, Some q, s) } }"

definition xQueueCreateCountingSemaphore ::
  "heap4 \<Rightarrow> nat \<Rightarrow> nat \<Rightarrow> Queue_t \<Rightarrow> u64 \<Rightarrow> u64 \<Rightarrow> kernel \<Rightarrow> (u64 \<times> Queue_t option \<times> heap4 \<times> kernel) option" where
  "xQueueCreateCountingSemaphore h waitS waitR memory uxMaxCount uxInitialCount s = do {
     (p, q, h, s) \<leftarrow> xQueueGenericCreate h waitS waitR memory uxMaxCount 0 2 s;
     Some (p, map_option (\<lambda>q. q\<lparr>uxMessagesWaiting := uxInitialCount\<rparr>) q, h, s) }"

definition xQueueCreateCountingSemaphoreStatic ::
  "nat \<Rightarrow> nat \<Rightarrow> Queue_t \<Rightarrow> u64 \<Rightarrow> u64 \<Rightarrow> u64 \<Rightarrow> kernel \<Rightarrow> (u64 \<times> Queue_t option \<times> kernel) option" where
  "xQueueCreateCountingSemaphoreStatic waitS waitR memory uxMaxCount uxInitialCount pxStaticQueue s = do {
     (p, q, s) \<leftarrow> xQueueGenericCreateStatic waitS waitR memory uxMaxCount 0 0 [] pxStaticQueue 2 s;
     Some (p, map_option (\<lambda>q. q\<lparr>uxMessagesWaiting := uxInitialCount\<rparr>) q, s) }"

definition xQueueGetMutexHolder :: "Queue_t \<Rightarrow> nat option option" where
  "xQueueGetMutexHolder q = (if queue_is_mutex q then queue_holder q else Some None)"

text \<open>
  The comparison with the running task does not look at the kind of the queue: the end of a
  storage area is no task.
\<close>

definition held_by_current :: "queue_state \<Rightarrow> bool" where
  "held_by_current = (\<lambda>(q, s). case pcTail q of Holder h \<Rightarrow> h = pxCurrentTCB s | Address a \<Rightarrow> a = 0 \<and> pxCurrentTCB s = None)"

definition xQueueGiveMutexRecursive :: "queue_state \<Rightarrow> (bool \<times> queue_state) option" where
  "xQueueGiveMutexRecursive = (\<lambda>(q, s).
     if held_by_current (q, s) then do {
       let q = q\<lparr>pcReadFrom := pcReadFrom q - 1\<rparr>;
       (q, s) \<leftarrow> (if pcReadFrom q = 0 then map_option snd (xQueueGenericSend [] [] 0 queueSEND_TO_BACK (q, s)) else Some (q, s));
       Some (True, q, s) }
     else Some (False, q, s))"

definition xQueueTakeMutexRecursive :: "wait_env list \<Rightarrow> u64 \<Rightarrow> queue_state \<Rightarrow> (bool option \<times> queue_state) option" where
  "xQueueTakeMutexRecursive envs xTicksToWait = (\<lambda>(q, s).
     if held_by_current (q, s) then Some (Some True, q\<lparr>pcReadFrom := pcReadFrom q + 1\<rparr>, s)
     else do {
       (r, q, s) \<leftarrow> xQueueSemaphoreTake envs xTicksToWait (q, s);
       Some (r, if r = Some True then q\<lparr>pcReadFrom := pcReadFrom q + 1\<rparr> else q, s) })"

definition vQueueSetQueueNumber :: "u64 \<Rightarrow> Queue_t \<Rightarrow> Queue_t" where
  "vQueueSetQueueNumber n q = q\<lparr>uxQueueNumber := n\<rparr>"

end
