(* ===== verification/Queue_Data.thy ===== *)
theory Queue_Data
  imports Queue
begin

text \<open>
  The data of a queue: the storage area is a circular row of slots, and read from the slot after
  \<open>pcReadFrom\<close> it is a list of items.
\<close>

text \<open>Slot \<open>k\<close> of a row of slots of \<open>z\<close> bytes.\<close>

definition slot :: "'x list \<Rightarrow> nat \<Rightarrow> nat \<Rightarrow> 'x list" where
  "slot xs z k = take z (drop (k * z) xs)"

lemma slot_le: "k < L \<Longrightarrow> k * z + z \<le> L * (z :: nat)"
  using mult_le_mono1 [of "Suc k" L z] by simp

lemma slot_write:
  assumes w: "w < L" and k: "k < L" and len: "length xs = L * z" and it: "length it = z"
  shows "slot (take (w * z) xs @ it @ drop (w * z + z) xs) z k = (if k = w then it else slot xs z k)"
proof (cases k w rule: linorder_cases)
  case less
  then have "k * z + z \<le> w * z" by (rule slot_le)
  moreover have "w * z \<le> length xs" using slot_le [OF w, of z] by (simp only: len)
  ultimately show ?thesis using less by (simp add: slot_def drop_take min_def le_diff_conv2)
next
  case equal
  moreover have "w * z \<le> length xs" using slot_le [OF w, of z] by (simp only: len)
  ultimately show ?thesis using it by (simp add: slot_def)
next
  case greater
  then have g: "w * z + z \<le> k * z" by (rule slot_le)
  have "w * z \<le> length xs" using slot_le [OF w, of z] by (simp only: len)
  moreover obtain d where "k * z = w * z + z + d" using g by (auto simp: le_iff_add)
  ultimately have "drop (k * z) (take (w * z) xs @ it @ drop (w * z + z) xs) = drop (k * z) xs"
    using it by (simp add: min_def add.commute)
  then show ?thesis using greater by (simp add: slot_def)
qed

text \<open>The next and the previous slot, and the distance around the row.\<close>

lemma mod_next: "w < L \<Longrightarrow> Suc w mod L = (if Suc w = L then 0 else Suc w)"
  by auto

lemma mod_apart:
  assumes "i < m" "m < L"
  shows "(r + Suc i) mod L \<noteq> (r + Suc m) mod (L :: nat)"
proof
  assume "(r + Suc i) mod L = (r + Suc m) mod L"
  then have "L dvd (r + Suc m) - (r + Suc i)" by (metis mod_eq_dvd_iff_nat assms(1) nat_add_left_cancel_le Suc_le_mono less_imp_le)
  moreover have "(r + Suc m) - (r + Suc i) = m - i" using assms(1) by simp
  ultimately show False using assms by (auto dest: dvd_imp_le)
qed

lemma mod_back: "r < L \<Longrightarrow> (((r + L - 1) mod L) + Suc i) mod L = (r + i) mod (L :: nat)"
proof -
  assume "r < L"
  have "((r + L - 1) mod L + Suc i) mod L = (r + L - 1 + Suc i) mod L" by (rule mod_add_left_eq)
  also have "r + L - 1 + Suc i = r + i + L" using \<open>r < L\<close> by simp
  finally show ?thesis by simp
qed

subsection \<open>The invariant and the abstraction\<close>

text \<open>\<open>r\<close> is the slot of \<open>pcReadFrom\<close>.\<close>

definition data_queue_at :: "nat \<Rightarrow> Queue_t \<Rightarrow> bool" where
  "data_queue_at r q \<longleftrightarrow> (let z = unat (uxItemSize q); L = unat (uxLength q); B = unat (qStorageAt q); m = unat (uxMessagesWaiting q) in
     0 < z \<and> z \<le> B \<and> B + L * z < 2 ^ 64 \<and> length (qStorage q) = L * z \<and> pcHead q = qStorageAt q \<and>
     pcTail q = Address (qStorageAt q + of_nat (L * z)) \<and> r < L \<and> m \<le> L \<and>
     pcReadFrom q = qStorageAt q + of_nat (r * z) \<and>
     pcWriteTo q = qStorageAt q + of_nat ((r + Suc m) mod L * z))"

definition data_queue :: "Queue_t \<Rightarrow> bool" where
  "data_queue q \<longleftrightarrow> (\<exists>r. data_queue_at r q)"

definition items_at :: "nat \<Rightarrow> Queue_t \<Rightarrow> u8 list list" where
  "items_at r q = map (\<lambda>i. slot (qStorage q) (unat (uxItemSize q)) ((r + Suc i) mod unat (uxLength q)))
     [0..<unat (uxMessagesWaiting q)]"

definition read_slot :: "Queue_t \<Rightarrow> nat" where
  "read_slot q = unat (pcReadFrom q - qStorageAt q) div unat (uxItemSize q)"

definition queue_items :: "Queue_t \<Rightarrow> u8 list list" where
  "queue_items q = items_at (read_slot q) q"

text \<open>Addresses into the area.\<close>

lemma area_address:
  fixes b :: u64
  assumes "unat b + N < 2 ^ 64" "n \<le> N"
  shows "unat (b + of_nat n) = unat b + n" "unat (b + of_nat n - b) = n" "unat (of_nat n :: u64) = n"
proof -
  have n: "unat (of_nat n :: u64) = n" using assms by (intro unat_of_nat_lt) simp
  then show "unat (of_nat n :: u64) = n" "unat (b + of_nat n - b) = n" by simp_all
  show "unat (b + of_nat n) = unat b + n"
    using assms n by (subst unat_add_lt) simp_all
qed

text \<open>What the invariant says in one place.\<close>

lemma data_queue_atD:
  assumes "data_queue_at r q"
  defines "z \<equiv> unat (uxItemSize q)" and "L \<equiv> unat (uxLength q)" and "B \<equiv> unat (qStorageAt q)" and "m \<equiv> unat (uxMessagesWaiting q)"
  shows "0 < z" "z \<le> B" "B + L * z < 2 ^ 64" "length (qStorage q) = L * z" "pcHead q = qStorageAt q"
    "queue_tail q = Some (qStorageAt q + of_nat (L * z))" "r < L" "m \<le> L" "pcReadFrom q = qStorageAt q + of_nat (r * z)"
    "pcWriteTo q = qStorageAt q + of_nat ((r + Suc m) mod L * z)" "(r + Suc m) mod L < L" "uxItemSize q \<noteq> 0"
    "pcTail q = Address (qStorageAt q + of_nat (L * z))"
  using assms by (auto simp: data_queue_at_def Let_def queue_tail_def)

lemma read_slot_at:
  assumes "data_queue_at r q"
  shows "read_slot q = r" "queue_items q = items_at r q"
proof -
  note d = data_queue_atD [OF assms]
  show "read_slot q = r"
    using area_address(2) [OF d(3), of "r * unat (uxItemSize q)"] d(1,7,9) by (simp add: read_slot_def)
  then show "queue_items q = items_at r q" by (simp add: queue_items_def)
qed

text \<open>Writing at a slot, and stepping an address on or back by one slot.\<close>

lemma copy_item_in_slot:
  assumes d: "data_queue_at r q" and w: "w < unat (uxLength q)" and it: "length item = unat (uxItemSize q)"
  obtains bs where "copy_item_in q (qStorageAt q + of_nat (w * unat (uxItemSize q))) item = Some (q\<lparr>qStorage := bs\<rparr>)"
    "length bs = length (qStorage q)"
    "\<And>k. k < unat (uxLength q) \<Longrightarrow> slot bs (unat (uxItemSize q)) k = (if k = w then item else slot (qStorage q) (unat (uxItemSize q)) k)"
proof -
  let ?z = "unat (uxItemSize q)" and ?L = "unat (uxLength q)"
  note d = data_queue_atD [OF d]
  define bs where "bs = take (w * ?z) (qStorage q) @ item @ drop (w * ?z + ?z) (qStorage q)"
  have le: "w * ?z + ?z \<le> ?L * ?z" by (rule slot_le [OF w])
  have u: "unat (qStorageAt q + of_nat (w * ?z) - qStorageAt q) = w * ?z"
    by (rule area_address(2) [OF d(3)]) (use le in linarith)
  have "copy_item_in q (qStorageAt q + of_nat (w * ?z)) item = Some (q\<lparr>qStorage := bs\<rparr>)"
    unfolding copy_item_in_def u using le it d(4) by (simp add: copy_out_def copy_in_def bs_def)
  moreover have "length bs = length (qStorage q)" using le it d(4) by (simp add: bs_def)
  moreover have "slot bs ?z k = (if k = w then item else slot (qStorage q) ?z k)" if "k < ?L" for k
    unfolding bs_def by (rule slot_write [OF w that d(4) it])
  ultimately show thesis by (rule that)
qed

lemma slot_step:
  assumes d: "data_queue_at r q" and w: "w < unat (uxLength q)"
  shows "(let p = qStorageAt q + of_nat (w * unat (uxItemSize q)) + uxItemSize q
     in if qStorageAt q + of_nat (unat (uxLength q) * unat (uxItemSize q)) \<le> p then qStorageAt q else p) =
    qStorageAt q + of_nat (Suc w mod unat (uxLength q) * unat (uxItemSize q))"
proof -
  let ?z = "unat (uxItemSize q)" and ?L = "unat (uxLength q)"
  note d = data_queue_atD [OF d]
  have le: "w * ?z + ?z \<le> ?L * ?z" by (rule slot_le [OF w])
  have p: "qStorageAt q + of_nat (w * ?z) + uxItemSize q = qStorageAt q + of_nat (w * ?z + ?z)" by (simp add: add.assoc)
  have u: "unat (qStorageAt q + of_nat (w * ?z + ?z)) = unat (qStorageAt q) + (w * ?z + ?z)"
    "unat (qStorageAt q + of_nat (?L * ?z)) = unat (qStorageAt q) + ?L * ?z"
    by (rule area_address(1) [OF d(3) le], rule area_address(1) [OF d(3) order_refl])
  have "qStorageAt q + of_nat (?L * ?z) \<le> qStorageAt q + of_nat (w * ?z + ?z) \<longleftrightarrow> Suc w = ?L"
  proof -
    have "qStorageAt q + of_nat (?L * ?z) \<le> qStorageAt q + of_nat (w * ?z + ?z) \<longleftrightarrow> ?L * ?z \<le> w * ?z + ?z"
      unfolding word_le_nat_alt u by simp
    also have "\<dots> \<longleftrightarrow> ?L * ?z \<le> Suc w * ?z" by (simp add: add.commute)
    also have "\<dots> \<longleftrightarrow> ?L \<le> Suc w" using d(1) by (simp only: mult_le_cancel2) simp
    finally show ?thesis using w by auto
  qed
  then show ?thesis unfolding p Let_def using w by (auto simp: mod_next algebra_simps)
qed

lemma slot_back:
  assumes d: "data_queue_at r q"
  shows "(let p = pcReadFrom q - uxItemSize q
     in if p < pcHead q then qStorageAt q + of_nat (unat (uxLength q) * unat (uxItemSize q)) - uxItemSize q else p) =
    qStorageAt q + of_nat ((r + unat (uxLength q) - 1) mod unat (uxLength q) * unat (uxItemSize q))"
proof -
  let ?z = "unat (uxItemSize q)" and ?L = "unat (uxLength q)"
  note d = data_queue_atD [OF d]
  have step: "qStorageAt q + of_nat (Suc k * ?z) - uxItemSize q = qStorageAt q + of_nat (k * ?z)" for k
    by (simp add: algebra_simps)
  show ?thesis
  proof (cases r)
    case 0
    have "unat (qStorageAt q - uxItemSize q) = unat (qStorageAt q) - ?z"
      by (rule unat_sub_le) (use d(2) in \<open>simp add: word_le_nat_alt\<close>)
    then have "qStorageAt q - uxItemSize q < qStorageAt q" using d(1,2) by (simp add: word_less_nat_alt)
    moreover obtain k where k: "?L = Suc k" using d(7) by (cases "?L") auto
    ultimately show ?thesis using 0 d(5,9) step [of k] unfolding k by (simp add: Let_def)
  next
    case (Suc k)
    have "k * ?z \<le> ?L * ?z" using d(7) Suc by (intro mult_le_mono1) simp
    then have "\<not> qStorageAt q + of_nat (k * ?z) < qStorageAt q"
      using area_address(1) [OF d(3), of "k * ?z"] by (simp add: word_less_nat_alt)
    moreover have "(r + ?L - 1) mod ?L = k" using d(7) Suc by simp
    ultimately show ?thesis unfolding d(5,9) Suc step Let_def by simp
  qed
qed

subsection \<open>The operations on the list of items\<close>

lemma items_at_cong:
  assumes "\<And>i. i < unat (uxMessagesWaiting q) \<Longrightarrow> slot (qStorage q') (unat (uxItemSize q)) ((r + Suc i) mod unat (uxLength q)) =
      slot (qStorage q) (unat (uxItemSize q)) ((r + Suc i) mod unat (uxLength q))"
    "uxItemSize q' = uxItemSize q" "uxLength q' = uxLength q"
  shows "map (\<lambda>i. slot (qStorage q') (unat (uxItemSize q')) ((r + Suc i) mod unat (uxLength q'))) [0..<unat (uxMessagesWaiting q)] = items_at r q"
  using assms by (auto simp: items_at_def)

text \<open>A queue of items of some size, as opposed to a semaphore.\<close>

lemma enqueue_back:
  assumes d: "data_queue q" and it: "length item = unat (uxItemSize q)" and room: "uxMessagesWaiting q < uxLength q"
  obtains q' where "prvCopyDataToQueue item queueSEND_TO_BACK (q, s) = Some (False, q', s)" "data_queue q'"
    "queue_items q' = queue_items q @ [item]" "q' = q\<lparr>qStorage := qStorage q', pcWriteTo := pcWriteTo q', uxMessagesWaiting := uxMessagesWaiting q + 1\<rparr>"
proof -
  obtain r where r: "data_queue_at r q" using d by (auto simp: data_queue_def)
  note f = data_queue_atD [OF r]
  let ?z = "unat (uxItemSize q)" and ?L = "unat (uxLength q)" and ?m = "unat (uxMessagesWaiting q)"
  let ?w = "(r + Suc ?m) mod ?L"
  have m: "?m < ?L" using room by (simp add: word_less_nat_alt)
  have m1: "unat (uxMessagesWaiting q + 1) = Suc ?m"
    using m unsigned_less [of "uxLength q", where ?'a = nat] by (subst unat_plus_one) auto
  obtain bs where bs: "copy_item_in q (qStorageAt q + of_nat (?w * ?z)) item = Some (q\<lparr>qStorage := bs\<rparr>)"
    "length bs = length (qStorage q)"
    "\<And>k. k < ?L \<Longrightarrow> slot bs ?z k = (if k = ?w then item else slot (qStorage q) ?z k)"
    by (rule copy_item_in_slot [OF r f(11) it]) blast
  define q' where "q' = q\<lparr>qStorage := bs, pcWriteTo := qStorageAt q + of_nat (Suc ?w mod ?L * ?z), uxMessagesWaiting := uxMessagesWaiting q + 1\<rparr>"
  define wa where "wa = qStorageAt q + of_nat (?w * ?z)"
  define ta where "ta = qStorageAt q + of_nat (?L * ?z)"
  have step: "(if ta \<le> wa + uxItemSize q then qStorageAt q else wa + uxItemSize q) = pcWriteTo q'"
    using slot_step [OF r f(11)] unfolding Let_def ta_def [symmetric] wa_def [symmetric] by (simp add: q'_def)
  have "prvCopyDataToQueue item queueSEND_TO_BACK (q, s) =
      Some (False, q\<lparr>qStorage := bs, pcWriteTo := (if ta \<le> wa + uxItemSize q then qStorageAt q else wa + uxItemSize q),
        uxMessagesWaiting := uxMessagesWaiting q + 1\<rparr>, s)"
    using bs(1) f(5,12) unfolding wa_def [symmetric] f(10) [folded wa_def, symmetric]
    by (simp add: prvCopyDataToQueue_def Let_def queue_tail_def f(13) [folded ta_def])
  then have "prvCopyDataToQueue item queueSEND_TO_BACK (q, s) = Some (False, q', s)"
    unfolding step by (simp add: q'_def)
  moreover have at: "data_queue_at r q'"
  proof -
    have "Suc ?w mod ?L = (r + Suc (Suc ?m)) mod ?L" by (simp add: mod_Suc_eq)
    then show ?thesis using f m m1 bs(2) by (simp add: data_queue_at_def Let_def q'_def)
  qed
  moreover have "items_at r q' = items_at r q @ [item]"
  proof -
    have "(r + Suc i) mod ?L < ?L" "(r + Suc i) mod ?L \<noteq> ?w" if "i < ?m" for i
      using f(7) mod_apart [OF that m] by simp_all
    then show ?thesis using bs(3) f(11) by (auto simp: items_at_def q'_def m1)
  qed
  ultimately show thesis
    using that [of q'] read_slot_at [OF r] read_slot_at [OF at] by (auto simp: data_queue_def q'_def)
qed

text \<open>Both ways of writing at the reading end.\<close>

lemma enqueue_at_reader:
  assumes r: "data_queue_at r q" and it: "length item = unat (uxItemSize q)" and pos: "pos \<noteq> queueSEND_TO_BACK"
  defines "L \<equiv> unat (uxLength q)" and "z \<equiv> unat (uxItemSize q)"
    and "n \<equiv> (if pos = queueOVERWRITE then if uxMessagesWaiting q > 0 then uxMessagesWaiting q - 1 else uxMessagesWaiting q
               else uxMessagesWaiting q) + 1"
  obtains bs where "prvCopyDataToQueue item pos (q, s) = Some (False, q\<lparr>qStorage := bs,
      pcReadFrom := qStorageAt q + of_nat ((r + L - 1) mod L * z), uxMessagesWaiting := n\<rparr>, s)" "length bs = length (qStorage q)"
    "\<And>k. k < L \<Longrightarrow> slot bs z k = (if k = r then item else slot (qStorage q) z k)"
proof -
  note f = data_queue_atD [OF r, folded L_def z_def]
  obtain bs where bs: "copy_item_in q (qStorageAt q + of_nat (r * z)) item = Some (q\<lparr>qStorage := bs\<rparr>)"
    "length bs = length (qStorage q)" "\<And>k. k < L \<Longrightarrow> slot bs z k = (if k = r then item else slot (qStorage q) z k)"
    by (rule copy_item_in_slot [OF r f(7) [unfolded L_def] it, folded L_def z_def]) blast
  define ta where "ta = qStorageAt q + of_nat (L * z)"
  define ra where "ra = qStorageAt q + of_nat ((r + L - 1) mod L * z)"
  have step: "(if pcReadFrom q - uxItemSize q < pcHead q then ta - uxItemSize q else pcReadFrom q - uxItemSize q) = ra"
    using slot_back [OF r] unfolding Let_def L_def [symmetric] z_def [symmetric] ta_def [symmetric] ra_def [symmetric] by simp
  have "prvCopyDataToQueue item pos (q, s) = Some (False, q\<lparr>qStorage := bs, pcReadFrom :=
      (if pcReadFrom q - uxItemSize q < pcHead q then ta - uxItemSize q else pcReadFrom q - uxItemSize q), uxMessagesWaiting := n\<rparr>, s)"
    using bs(1) f(12) pos unfolding f(9) [symmetric] n_def
    by (simp add: prvCopyDataToQueue_def Let_def queue_tail_def f(13) [folded ta_def])
  then show thesis unfolding step ra_def by (rule that [OF _ bs(2,3)])
qed

lemma enqueue_front:
  assumes d: "data_queue q" and it: "length item = unat (uxItemSize q)" and pos: "pos \<noteq> queueSEND_TO_BACK"
    and room: "uxMessagesWaiting q < uxLength q \<and> pos = queueSEND_TO_FRONT \<or> uxLength q = 1 \<and> pos = queueOVERWRITE"
  obtains q' where "prvCopyDataToQueue item pos (q, s) = Some (False, q', s)" "data_queue q'"
    "queue_items q' = item # (if pos = queueOVERWRITE then [] else queue_items q)"
    "q' = q\<lparr>qStorage := qStorage q', pcReadFrom := pcReadFrom q', uxMessagesWaiting := uxMessagesWaiting q'\<rparr>"
proof -
  obtain r where r: "data_queue_at r q" using d by (auto simp: data_queue_def)
  note f = data_queue_atD [OF r]
  define L where "L = unat (uxLength q)"
  define z where "z = unat (uxItemSize q)"
  define n where "n = (if pos = queueOVERWRITE then if uxMessagesWaiting q > 0 then uxMessagesWaiting q - 1 else uxMessagesWaiting q
               else uxMessagesWaiting q) + 1"
  note f = f [folded L_def z_def]
  let ?m = "unat (uxMessagesWaiting q)" and ?r = "(r + L - 1) mod L"
  obtain bs where bs: "prvCopyDataToQueue item pos (q, s) = Some (False, q\<lparr>qStorage := bs,
      pcReadFrom := qStorageAt q + of_nat (?r * z), uxMessagesWaiting := n\<rparr>, s)" "length bs = length (qStorage q)"
    "\<And>k. k < L \<Longrightarrow> slot bs z k = (if k = r then item else slot (qStorage q) z k)"
    by (rule enqueue_at_reader [OF r it pos, folded L_def z_def n_def]) blast
  define q' where "q' = q\<lparr>qStorage := bs, pcReadFrom := qStorageAt q + of_nat (?r * z), uxMessagesWaiting := n\<rparr>"
  have L0: "0 < L" using f(7) by simp
  have n: "0 < unat n" "unat n \<le> L" "(r + Suc ?m) mod L = (?r + Suc (unat n)) mod L"
    "unat n = (if pos = queueOVERWRITE then 1 else Suc ?m)"
  proof -
    consider "pos = queueSEND_TO_FRONT" "?m < L" | "pos = queueOVERWRITE" "L = 1"
      using room by (auto simp: word_less_nat_alt L_def)
    then have "unat n = (if pos = queueOVERWRITE then 1 else Suc ?m) \<and> unat n \<le> L \<and> (r + Suc ?m) mod L = (r + unat n) mod L"
    proof cases
      case 1
      then have "unat n = Suc ?m"
        using f(3) unsigned_less [of "uxLength q", where ?'a = nat] by (subst n_def) (simp add: unat_plus_one L_def)
      then show ?thesis using 1 by simp
    next
      case 2
      then have "uxMessagesWaiting q = 0 \<or> uxMessagesWaiting q = 1" using f(8) by (auto simp: le_Suc_eq dest!: eq_of_nat_unat)
      then have "n = 1" using 2 by (auto simp: n_def)
      then show ?thesis using 2 by simp
    qed
    then show "0 < unat n" "unat n \<le> L" "(r + Suc ?m) mod L = (?r + Suc (unat n)) mod L"
      "unat n = (if pos = queueOVERWRITE then 1 else Suc ?m)"
      using mod_back [OF f(7), of "unat n"] by (simp_all split: if_splits)
  qed
  have at: "data_queue_at ?r q'"
    using f n(2,3) L0 bs(2) by (simp add: data_queue_at_def Let_def q'_def L_def z_def)
  have sl: "slot bs z ((?r + Suc i) mod L) = (if i = 0 then item else slot (qStorage q) z ((r + i) mod L))" if "i < L" for i
  proof -
    have "(r + i) mod L \<noteq> r" if "i \<noteq> 0"
    proof -
      have "(r + Suc (i - 1)) mod L \<noteq> (r + Suc (L - 1)) mod L" by (rule mod_apart) (use \<open>i < L\<close> that in auto)
      then show ?thesis using that L0 f(7) by simp
    qed
    then show ?thesis using bs(3) [of "(r + i) mod L"] mod_back [OF f(7), of i] L0 f(7) by auto
  qed
  have "items_at ?r q' = map (\<lambda>i. slot bs z ((?r + Suc i) mod L)) (0 # map Suc [0..<unat n - 1])"
    using n(1) by (auto simp: items_at_def q'_def L_def z_def map_Suc_upt upt_conv_Cons)
  also have "\<dots> = item # map (\<lambda>i. slot (qStorage q) z ((r + Suc i) mod L)) [0..<unat n - 1]"
  proof -
    have "slot bs z ((?r + Suc 0) mod L) = item" using sl [of 0] L0 by simp
    moreover have "slot bs z ((?r + Suc (Suc i)) mod L) = slot (qStorage q) z ((r + Suc i) mod L)" if "i < unat n - 1" for i
      using sl [of "Suc i"] that n(2) by simp
    ultimately show ?thesis by (auto simp del: add_Suc_right)
  qed
  also have "\<dots> = item # (if pos = queueOVERWRITE then [] else items_at r q)"
    using n(4) by (auto simp: items_at_def L_def z_def)
  finally have "queue_items q' = item # (if pos = queueOVERWRITE then [] else queue_items q)"
    unfolding read_slot_at(2) [OF r] read_slot_at(2) [OF at] .
  moreover have "data_queue q'" using at unfolding data_queue_def by (rule exI)
  ultimately show thesis by (intro that [OF bs(1) [folded q'_def]]) (simp_all only: q'_def, simp)
qed

lemma dequeue:
  assumes d: "data_queue q" and ne: "uxMessagesWaiting q > 0"
  obtains p where "prvCopyDataFromQueue q = Some (hd (queue_items q), q\<lparr>pcReadFrom := p\<rparr>)"
    "data_queue (q\<lparr>pcReadFrom := p, uxMessagesWaiting := uxMessagesWaiting q - 1\<rparr>)"
    "queue_items (q\<lparr>pcReadFrom := p, uxMessagesWaiting := uxMessagesWaiting q - 1\<rparr>) = tl (queue_items q)"
    "queue_items q \<noteq> []"
proof -
  obtain r where r: "data_queue_at r q" using d by (auto simp: data_queue_def)
  define L where "L = unat (uxLength q)"
  define z where "z = unat (uxItemSize q)"
  note f = data_queue_atD [OF r, folded L_def z_def]
  let ?m = "unat (uxMessagesWaiting q)" and ?r = "Suc r mod L"
  define p where "p = qStorageAt q + of_nat (?r * z)"
  have m: "0 < ?m" using ne by (simp add: word_less_nat_alt)
  have r': "?r < L" using f(7) by simp
  define ta where "ta = qStorageAt q + of_nat (L * z)"
  have step: "(if ta \<le> pcReadFrom q + uxItemSize q then qStorageAt q else pcReadFrom q + uxItemSize q) = p"
    using slot_step [OF r f(7) [unfolded L_def]] unfolding Let_def L_def [symmetric] z_def [symmetric] ta_def [symmetric]
      f(9) [symmetric] p_def by simp
  have "?r * z + z \<le> L * z" by (rule slot_le [OF r'])
  moreover have "unat (p - qStorageAt q) = ?r * z"
    unfolding p_def by (rule area_address(2) [OF f(3)]) (use calculation in linarith)
  ultimately have out: "copy_item_out (q\<lparr>pcReadFrom := p\<rparr>) p = Some (slot (qStorage q) z ?r)"
    using f(4) by (simp add: copy_item_out_def copy_out_def slot_def z_def)
  have sp: "(let q = q\<lparr>pcReadFrom := pcReadFrom q + uxItemSize q\<rparr> in if ta \<le> pcReadFrom q then q\<lparr>pcReadFrom := pcHead q\<rparr> else q) =
      q\<lparr>pcReadFrom := p\<rparr>" using step f(5) by (auto simp: Let_def split: if_splits)
  have run: "prvCopyDataFromQueue q = Some (slot (qStorage q) z ?r, q\<lparr>pcReadFrom := p\<rparr>)"
    using f(12) sp out by (simp add: prvCopyDataFromQueue_def Let_def queue_tail_def f(13) [folded ta_def])
  define q' where "q' = q\<lparr>pcReadFrom := p, uxMessagesWaiting := uxMessagesWaiting q - 1\<rparr>"
  have m1: "unat (uxMessagesWaiting q - 1) = ?m - 1" using m by (simp add: unat_sub_le word_le_nat_alt)
  have nx: "(?r + i) mod L = (r + Suc i) mod L" for i by (metis add_Suc_shift mod_add_left_eq)
  have at: "data_queue_at ?r q'"
    using f m m1 r' nx [of ?m] by (simp add: data_queue_at_def Let_def q'_def L_def z_def p_def)
  have "items_at ?r q' = map (\<lambda>i. slot (qStorage q) z ((r + Suc (Suc i)) mod L)) [0..<?m - 1]"
  proof -
    have "(?r + Suc i) mod L = (r + Suc (Suc i)) mod L" for i using nx [of "Suc i"] .
    then show ?thesis unfolding items_at_def by (simp add: q'_def m1 L_def [symmetric] z_def [symmetric] del: add_Suc_right)
  qed
  moreover have "items_at r q = map (\<lambda>i. slot (qStorage q) z ((r + Suc i) mod L)) (0 # map Suc [0..<?m - 1])"
    using m by (auto simp: items_at_def L_def z_def map_Suc_upt upt_conv_Cons)
  ultimately have "items_at ?r q' = tl (items_at r q)" "hd (items_at r q) = slot (qStorage q) z ?r" "items_at r q \<noteq> []" by simp_all
  then show thesis
    using that [of p] run read_slot_at [OF r] read_slot_at [OF at] at by (auto simp: data_queue_def q'_def)
qed

end
