(* ===== verification/Queue_Kernel.thy ===== *)
theory Queue_Kernel
  imports Queue_Data Task_System
begin

text \<open>
  Queues at work in the scheduler: every operation returns, keeps the invariant of the kernel, and
  does to the items what it should.
\<close>

subsection \<open>Waking\<close>

text \<open>
  What a queue operation does to the kernel: nobody stops being ready, the running task stays, and
  an event item at most leaves a list of waiting tasks, for none (\<open>un\<close>: the scheduler is not suspended)
  or for the pending list.
\<close>

definition event_moved :: "bool \<Rightarrow> nat option \<Rightarrow> nat option \<Rightarrow> bool" where
  "event_moved un a b \<longleftrightarrow> b = a \<or> (\<exists>l>36. a = Some l \<and> b = (if un then None else Some xPendingReadyList))"

lemma event_moved_trans: "event_moved un a b \<Longrightarrow> event_moved un b c \<Longrightarrow> event_moved un a c"
  by (auto simp: event_moved_def split: if_splits)

lemma event_moved_simps [simp]: "event_moved un a a" "event_moved un None b \<longleftrightarrow> b = None"
  "event_moved un (Some xPendingReadyList) b \<longleftrightarrow> b = Some xPendingReadyList"
  by (auto simp: event_moved_def)

definition wakes :: "kernel \<Rightarrow> kernel \<Rightarrow> bool" where
  "wakes s s' \<longleftrightarrow> frame {} s s' \<and> uxSchedulerSuspended s' = uxSchedulerSuspended s \<and> tcb s' = tcb s \<and>
     (\<forall>u. event_moved (uxSchedulerSuspended s = 0) (pxContainer (lists s) (xEventListItem u)) (pxContainer (lists s') (xEventListItem u)))"

lemma wakesD:
  assumes "wakes s s'"
  shows "frame {} s s'" "uxSchedulerSuspended s' = uxSchedulerSuspended s" "tcb s' = tcb s"
    "event_moved (uxSchedulerSuspended s = 0) (pxContainer (lists s) (xEventListItem u)) (pxContainer (lists s') (xEventListItem u))"
    "pxCurrentTCB s' = pxCurrentTCB s" "xSchedulerRunning s' = xSchedulerRunning s" "is_ready s u \<Longrightarrow> is_ready s' u"
  using assms by (simp_all add: wakes_def frame_def)

lemma wakes_refl [simp]: "wakes s s" by (simp add: wakes_def)

lemma wakes_trans:
  assumes "wakes s s1" "wakes s1 s2"
  shows "wakes s s2"
  unfolding wakes_def
  using frame_trans [OF wakesD(1) [OF assms(1)] wakesD(1) [OF assms(2)], of "{}"] wakesD(2,3) [OF assms(1)] wakesD(2,3) [OF assms(2)]
    event_moved_trans [OF wakesD(4) [OF assms(1)] wakesD(4) [OF assms(2), unfolded wakesD(2) [OF assms(1)]]] by simp

lemma wakes_yield: "wakes s s' \<Longrightarrow> wakes s (if b then portYIELD s' else s')"
  unfolding wakes_def using frame_yielded [of "{}" s s' b] by (cases b) simp_all

lemma wakes_same:
  assumes "pxCurrentTCB s' = pxCurrentTCB s" "xSchedulerRunning s' = xSchedulerRunning s" "msip_reg s' = msip_reg s"
    "pxContainer (lists s') = pxContainer (lists s)" "tcb s' = tcb s" "uxSchedulerSuspended s' = uxSchedulerSuspended s"
  shows "wakes s s'"
proof -
  have "frame {} s s'" by (rule frame_same) (simp_all add: assms is_ready_def)
  then show ?thesis by (simp add: wakes_def assms)
qed

text \<open>The head of the list is released: made ready, or noted for the resumption of the scheduler.\<close>

definition released :: "kernel \<Rightarrow> nat \<Rightarrow> bool" where
  "released s t \<longleftrightarrow> (if uxSchedulerSuspended s = 0 then is_ready s t
     else pxContainer (lists s) (xEventListItem t) = Some xPendingReadyList)"

definition wait_list :: "nat set \<Rightarrow> nat \<Rightarrow> bool" where
  "wait_list D l \<longleftrightarrow> 36 < l \<and> l \<in> D"

lemma list_empty:
  assumes "kernel_inv T D s" "wait_list D l"
  shows "listLIST_IS_EMPTY (lists s) l \<longleftrightarrow> members (lists s) l = []"
  using members_is_empty [OF kernel_lists [OF kinvD(1) [OF inv_kinv [OF assms(1)]]]] assms(2) by (simp add: wait_list_def)

lemma release_head:
  assumes k: "kernel_inv T D s" and l: "wait_list D l" and ne: "members (lists s) l \<noteq> []"
  obtains w s' t where "xTaskRemoveFromEventList l s = Some (w, s')" "kernel_inv T D s'" "wakes s s'"
    "hd (members (lists s) l) = xEventListItem t" "t \<in> T" "released s' t"
proof -
  have l': "36 < l" "l \<in> D" using l by (simp_all add: wait_list_def)
  obtain w s' t where r: "xTaskRemoveFromEventList l s = Some (w, s')" "kernel_inv T D s'" "frame {} s s'"
    "uxSchedulerSuspended s' = uxSchedulerSuspended s" "hd (members (lists s) l) = xEventListItem t" "t \<in> T"
    "if uxSchedulerSuspended s = 0 then is_ready s' t \<and> pxContainer (lists s') (xEventListItem t) = None
     else pxContainer (lists s') (xEventListItem t) = Some xPendingReadyList"
    "tcb s' = tcb s" "\<forall>u. u \<noteq> t \<longrightarrow> pxContainer (lists s') (xEventListItem u) = pxContainer (lists s) (xEventListItem u)"
    using remove_from_event_list [OF k l' ne] by blast
  have "pxContainer (lists s) (xEventListItem t) = Some l"
    using members_container [OF kernel_lists [OF kinvD(1) [OF inv_kinv [OF k]]] l'(2), of "xEventListItem t"] r(5) ne hd_in_set [OF ne] by simp
  then have "event_moved (uxSchedulerSuspended s = 0) (pxContainer (lists s) (xEventListItem u)) (pxContainer (lists s') (xEventListItem u))" for u
    using r(7,9) l'(1) by (cases "u = t") (auto simp: event_moved_def split: if_splits)
  then have "wakes s s'" using r(3,4,8) by (simp add: wakes_def)
  moreover have "released s' t" using r(4,7) by (simp add: released_def split: if_splits)
  ultimately show ?thesis using that r(1,2,5,6) by blast
qed

lemma wake_one_ok:
  assumes k: "kernel_inv T D s" and l: "wait_list D l"
  obtains w s' where "wake_one l s = Some (w, s')" "kernel_inv T D s'" "wakes s s'"
    "members (lists s) l = [] \<Longrightarrow> \<not> w \<and> s' = s"
    "members (lists s) l \<noteq> [] \<Longrightarrow> \<exists>t\<in>T. hd (members (lists s) l) = xEventListItem t \<and> released s' t"
proof (cases "members (lists s) l = []")
  case True
  then have "wake_one l s = Some (False, s)" using list_empty [OF k l] by (simp add: wake_one_def)
  then show ?thesis using that [of False s] k True by simp
next
  case False
  then have e: "wake_one l s = xTaskRemoveFromEventList l s" using list_empty [OF k l] by (simp add: wake_one_def)
  obtain w s' t where "xTaskRemoveFromEventList l s = Some (w, s')" "kernel_inv T D s'" "wakes s s'"
    "hd (members (lists s) l) = xEventListItem t" "t \<in> T" "released s' t" by (rule release_head [OF k l False]) blast
  then show ?thesis using that [of w s'] e False by auto
qed

lemma wake_and_yield_ok:
  assumes k: "kernel_inv T D s" and l: "wait_list D l"
  obtains s' where "wake_and_yield l s = Some s'" "kernel_inv T D s'" "wakes s s'"
    "members (lists s) l = [] \<Longrightarrow> s' = s"
    "members (lists s) l \<noteq> [] \<Longrightarrow> \<exists>t\<in>T. hd (members (lists s) l) = xEventListItem t \<and> released s' t"
proof -
  obtain w s1 where s1: "wake_one l s = Some (w, s1)" "kernel_inv T D s1" "wakes s s1"
    "members (lists s) l = [] \<Longrightarrow> \<not> w \<and> s1 = s"
    "members (lists s) l \<noteq> [] \<Longrightarrow> \<exists>t\<in>T. hd (members (lists s) l) = xEventListItem t \<and> released s1 t"
    by (rule wake_one_ok [OF k l]) blast
  define s2 where "s2 = (if w then portYIELD s1 else s1)"
  have "released s2 t = released s1 t" for t by (simp add: s2_def released_def is_ready_def)
  moreover have "kernel_inv T D s2" using yield_inv [OF s1(2)] s1(2) by (simp add: s2_def)
  moreover have "wakes s s2" unfolding s2_def by (rule wakes_yield [OF s1(3)])
  moreover have "wake_and_yield l s = Some s2" by (simp add: wake_and_yield_def s1(1) s2_def)
  ultimately show ?thesis using that [of s2] s1(4,5) by (auto simp: s2_def)
qed

text \<open>The head of a list was released, if there was one.\<close>

definition first_released :: "nat set \<Rightarrow> nat \<Rightarrow> kernel \<Rightarrow> kernel \<Rightarrow> bool" where
  "first_released T l s s' \<longleftrightarrow>
     (members (lists s) l \<noteq> [] \<longrightarrow> (\<exists>t\<in>T. hd (members (lists s) l) = xEventListItem t \<and> released s' t))"

text \<open>Unlocking releases as many tasks as the counter says.\<close>

lemma unlock_loop_ok:
  assumes "kernel_inv T D s" "wait_list D l"
  shows "\<exists>s'. unlock_loop l n s = Some s' \<and> kernel_inv T D s' \<and> wakes s s' \<and>
    (0 < n \<longrightarrow> first_released T l s s')"
  using assms(1)
proof (induction n arbitrary: s)
  case (Suc n)
  show ?case
  proof (cases "members (lists s) l = []")
    case True
    then show ?thesis using Suc.prems list_empty [OF Suc.prems assms(2)] by (simp add: first_released_def)
  next
    case False
    obtain w s1 t where s1: "xTaskRemoveFromEventList l s = Some (w, s1)" "kernel_inv T D s1" "wakes s s1"
      "hd (members (lists s) l) = xEventListItem t" "t \<in> T" "released s1 t"
      by (rule release_head [OF Suc.prems assms(2) False]) blast
    define s2 where "s2 = (if w then vTaskMissedYield s1 else s1)"
    have "wakes s1 s2" by (rule wakes_same) (simp_all add: s2_def vTaskMissedYield_def)
    then have w2: "wakes s s2" "released s2 t" "kernel_inv T D s2"
      using wakes_trans [OF s1(3)] s1(6) yield_pending_inv [OF s1(2), of True] s1(2)
      by (simp_all add: s2_def vTaskMissedYield_def released_def is_ready_def cong: if_cong)
    obtain s3 where s3: "unlock_loop l n s2 = Some s3" "kernel_inv T D s3" "wakes s2 s3" using Suc.IH [OF w2(3)] by blast
    have "released s3 t" using w2(2) wakesD(2,7) [OF s3(3)] wakesD(4) [OF s3(3), of t] by (auto simp: released_def split: if_splits)
    moreover have "unlock_loop l (Suc n) s = Some s3"
      using False list_empty [OF Suc.prems assms(2)] s1(1) s3(1) by (simp add: s2_def)
    ultimately show ?thesis using s3(2) wakes_trans [OF w2(1) s3(3)] s1(4,5) unfolding first_released_def by blast
  qed
qed simp

subsection \<open>The operations\<close>

definition queue_inv :: "nat set \<Rightarrow> nat set \<Rightarrow> queue_state \<Rightarrow> bool" where
  "queue_inv T D = (\<lambda>(q, s). kernel_inv T D s \<and> data_queue q \<and> wait_list D (xTasksWaitingToSend q) \<and>
     wait_list D (xTasksWaitingToReceive q))"

lemma queue_invD:
  assumes "queue_inv T D (q, s)"
  shows "kernel_inv T D s" "data_queue q" "wait_list D (xTasksWaitingToSend q)" "wait_list D (xTasksWaitingToReceive q)"
  using assms by (simp_all add: queue_inv_def)

text \<open>The assertions on the arguments of a send.\<close>

definition send_fits :: "u8 list \<Rightarrow> position \<Rightarrow> Queue_t \<Rightarrow> bool" where
  "send_fits item pos q \<longleftrightarrow> length item = unat (uxItemSize q) \<and> (pos = queueOVERWRITE \<longrightarrow> uxLength q = 1)"

text \<open>The abstract operation.\<close>

definition enq :: "position \<Rightarrow> 'a \<Rightarrow> 'a list \<Rightarrow> 'a list" where
  "enq pos x xs = (case pos of queueSEND_TO_BACK \<Rightarrow> xs @ [x] | queueSEND_TO_FRONT \<Rightarrow> x # xs | queueOVERWRITE \<Rightarrow> [x])"

definition has_room :: "position \<Rightarrow> Queue_t \<Rightarrow> bool" where
  "has_room pos q \<longleftrightarrow> length (queue_items q) < unat (uxLength q) \<or> pos = queueOVERWRITE"

text \<open>What stays of a queue: its size, its lists and, if not said otherwise, its locks.\<close>

definition same_shape :: "Queue_t \<Rightarrow> Queue_t \<Rightarrow> bool" where
  "same_shape q q' \<longleftrightarrow> uxLength q' = uxLength q \<and> uxItemSize q' = uxItemSize q \<and>
     xTasksWaitingToSend q' = xTasksWaitingToSend q \<and> xTasksWaitingToReceive q' = xTasksWaitingToReceive q"

definition same_locks :: "Queue_t \<Rightarrow> Queue_t \<Rightarrow> bool" where
  "same_locks q q' \<longleftrightarrow> cTxLock q' = cTxLock q \<and> cRxLock q' = cRxLock q"

lemma same_shape_refl [simp]: "same_shape q q" "same_locks q q"
  by (simp_all add: same_shape_def same_locks_def)

lemma same_shape_trans: "same_shape q q1 \<Longrightarrow> same_shape q1 q2 \<Longrightarrow> same_shape q q2"
  by (simp add: same_shape_def)

lemma same_shape_fits: "same_shape q q' \<Longrightarrow> send_fits item pos q' = send_fits item pos q"
  by (simp add: same_shape_def send_fits_def)

lemma items_length [simp]: "length (queue_items q) = unat (uxMessagesWaiting q)"
  by (simp add: queue_items_def items_at_def)

lemma has_room_iff: "has_room pos q \<longleftrightarrow> uxMessagesWaiting q < uxLength q \<or> pos = queueOVERWRITE"
  by (simp add: has_room_def word_less_nat_alt)

lemma no_items: "queue_items q = [] \<longleftrightarrow> uxMessagesWaiting q = 0"
  by (metis items_length length_0_conv unat_eq_0)

text \<open>Locks and lists do not concern the data.\<close>

lemma data_queue_locks [simp]:
  "data_queue (q\<lparr>cTxLock := a\<rparr>) = data_queue q" "data_queue (q\<lparr>cRxLock := a\<rparr>) = data_queue q"
  "queue_items (q\<lparr>cTxLock := a\<rparr>) = queue_items q" "queue_items (q\<lparr>cRxLock := a\<rparr>) = queue_items q"
  by (simp_all add: data_queue_def data_queue_at_def queue_items_def items_at_def read_slot_def)

lemma enqueue:
  assumes d: "data_queue q" and f: "send_fits item pos q" and r: "has_room pos q"
  obtains q' where "prvCopyDataToQueue item pos (q, s) = Some (False, q', s)" "data_queue q'"
    "queue_items q' = enq pos item (queue_items q)" "same_shape q q'" "same_locks q q'"
proof (cases "pos = queueSEND_TO_BACK")
  case True
  obtain q' where q': "prvCopyDataToQueue item queueSEND_TO_BACK (q, s) = Some (False, q', s)" "data_queue q'"
    "queue_items q' = queue_items q @ [item]"
    "q' = q\<lparr>qStorage := qStorage q', pcWriteTo := pcWriteTo q', uxMessagesWaiting := uxMessagesWaiting q + 1\<rparr>"
    by (rule enqueue_back [OF d, of item s]) (use f r True in \<open>auto simp: send_fits_def has_room_iff\<close>)
  have "same_shape q q'" "same_locks q q'" by (subst q'(4), simp add: same_shape_def same_locks_def)+
  then show ?thesis using that [of q'] q'(1-3) True by (simp add: enq_def)
next
  case False
  obtain q' where q': "prvCopyDataToQueue item pos (q, s) = Some (False, q', s)" "data_queue q'"
    "queue_items q' = item # (if pos = queueOVERWRITE then [] else queue_items q)"
    "q' = q\<lparr>qStorage := qStorage q', pcReadFrom := pcReadFrom q', uxMessagesWaiting := uxMessagesWaiting q'\<rparr>"
    by (rule enqueue_front [OF d, of item pos s])
      (use f r False in \<open>cases pos; auto simp: send_fits_def has_room_iff\<close>)+
  have "same_shape q q'" "same_locks q q'" by (subst q'(4), simp add: same_shape_def same_locks_def)+
  then show ?thesis using that [of q'] q'(1-3) False by (cases pos) (simp_all add: enq_def)
qed

text \<open>Taking the first item.\<close>

lemma dequeue_first:
  assumes d: "data_queue q" and ne: "queue_items q \<noteq> []"
  obtains p where "prvCopyDataFromQueue q = Some (hd (queue_items q), q\<lparr>pcReadFrom := p\<rparr>)"
    "data_queue (q\<lparr>pcReadFrom := p, uxMessagesWaiting := uxMessagesWaiting q - 1\<rparr>)"
    "queue_items (q\<lparr>pcReadFrom := p, uxMessagesWaiting := uxMessagesWaiting q - 1\<rparr>) = tl (queue_items q)"
    "same_shape q (q\<lparr>pcReadFrom := p, uxMessagesWaiting := uxMessagesWaiting q - 1\<rparr>)"
    "same_locks q (q\<lparr>pcReadFrom := p, uxMessagesWaiting := uxMessagesWaiting q - 1\<rparr>)"
proof -
  have "uxMessagesWaiting q > 0" using ne by (simp add: no_items word_gt_0)
  from dequeue [OF d this] obtain p where p: "prvCopyDataFromQueue q = Some (hd (queue_items q), q\<lparr>pcReadFrom := p\<rparr>)"
    "data_queue (q\<lparr>pcReadFrom := p, uxMessagesWaiting := uxMessagesWaiting q - 1\<rparr>)"
    "queue_items (q\<lparr>pcReadFrom := p, uxMessagesWaiting := uxMessagesWaiting q - 1\<rparr>) = tl (queue_items q)" by blast
  show ?thesis by (rule that [OF p]) (simp_all add: same_shape_def same_locks_def)
qed

lemma queue_invI:
  "queue_inv T D (q, s) \<Longrightarrow> same_shape q q' \<Longrightarrow> data_queue q' \<Longrightarrow> kernel_inv T D s' \<Longrightarrow> queue_inv T D (q', s')"
  by (simp add: queue_inv_def same_shape_def)

text \<open>Sending.\<close>

lemma send_enter_ok:
  assumes i: "queue_inv T D (q, s)" and f: "send_fits item pos q"
  obtains r q' s' where "send_enter item pos n ent (q, s) = Some (r, q', s')" "queue_inv T D (q', s')" "wakes s s'"
    "same_shape q q'" "same_locks q q'"
    "has_room pos q \<Longrightarrow> r = Inl True \<and> queue_items q' = enq pos item (queue_items q) \<and>
       first_released T (xTasksWaitingToReceive q) s s'"
    "\<not> has_room pos q \<Longrightarrow> q' = q \<and> s' = s \<and>
       r = (if n = 0 then Inl False else Inr (case ent of None \<Rightarrow> vTaskInternalSetTimeOutState s | Some to \<Rightarrow> to))"
proof (cases "has_room pos q")
  case True
  note inv = queue_invD [OF i]
  obtain q' where q': "prvCopyDataToQueue item pos (q, s) = Some (False, q', s)" "data_queue q'"
    "queue_items q' = enq pos item (queue_items q)" "same_shape q q'" "same_locks q q'"
    by (rule enqueue [OF inv(2) f True]) blast
  have l: "xTasksWaitingToReceive q' = xTasksWaitingToReceive q" using q'(4) by (simp add: same_shape_def)
  obtain s' where s': "wake_and_yield (xTasksWaitingToReceive q) s = Some s'" "kernel_inv T D s'" "wakes s s'"
    "members (lists s) (xTasksWaitingToReceive q) = [] \<Longrightarrow> s' = s"
    "members (lists s) (xTasksWaitingToReceive q) \<noteq> [] \<Longrightarrow>
       \<exists>t\<in>T. hd (members (lists s) (xTasksWaitingToReceive q)) = xEventListItem t \<and> released s' t"
    by (rule wake_and_yield_ok [OF inv(1,4)]) blast
  have "send_enter item pos n ent (q, s) = Some (Inl True, q', s')"
    using True q'(1) l s'(1,4) list_empty [OF inv(1,4)] by (auto simp: send_enter_def has_room_iff)
  then show ?thesis using that queue_invI [OF i q'(4,2) s'(2)] s'(3,5) q'(3-5) True by (simp add: first_released_def)
next
  case False
  then have "send_enter item pos n ent (q, s) = Some (if n = 0 then Inl False
      else Inr (case ent of None \<Rightarrow> vTaskInternalSetTimeOutState s | Some to \<Rightarrow> to), q, s)"
    by (auto simp: send_enter_def has_room_iff)
  then show ?thesis using that i False by auto
qed

text \<open>From an interrupt: while the queue is locked the release is put off, and counted.\<close>

lemma send_isr_ok:
  assumes i: "queue_inv T D (q, s)" and f: "send_fits item pos q"
  obtains w q' s' where "xQueueGenericSendFromISR item pos (q, s) = Some (has_room pos q, w, q', s')" "queue_inv T D (q', s')"
    "wakes s s'" "same_shape q q'" "cRxLock q' = cRxLock q"
    "queue_items q' = (if has_room pos q then enq pos item (queue_items q) else queue_items q)"
    "cTxLock q' = (if has_room pos q \<and> cTxLock q \<noteq> queueUNLOCKED then cTxLock q + 1 else cTxLock q)"
    "has_room pos q \<Longrightarrow> cTxLock q = queueUNLOCKED \<Longrightarrow> first_released T (xTasksWaitingToReceive q) s s'"
    "cTxLock q \<noteq> queueUNLOCKED \<or> \<not> has_room pos q \<Longrightarrow> s' = s"
proof (cases "has_room pos q")
  case True
  note inv = queue_invD [OF i]
  obtain q' where q': "prvCopyDataToQueue item pos (q, s) = Some (False, q', s)" "data_queue q'"
    "queue_items q' = enq pos item (queue_items q)" "same_shape q q'" "same_locks q q'"
    by (rule enqueue [OF inv(2) f True]) blast
  have l: "xTasksWaitingToReceive q' = xTasksWaitingToReceive q" using q'(4) by (simp add: same_shape_def)
  show ?thesis
  proof (cases "cTxLock q = queueUNLOCKED")
    case un: True
    obtain w s' where s': "wake_one (xTasksWaitingToReceive q) s = Some (w, s')" "kernel_inv T D s'" "wakes s s'"
      "members (lists s) (xTasksWaitingToReceive q) \<noteq> [] \<Longrightarrow>
         \<exists>t\<in>T. hd (members (lists s) (xTasksWaitingToReceive q)) = xEventListItem t \<and> released s' t"
      by (rule wake_one_ok [OF inv(1,4)]) blast
    have "xQueueGenericSendFromISR item pos (q, s) = Some (has_room pos q, w, q', s')"
      using True q'(1) l s'(1) un by (simp add: xQueueGenericSendFromISR_def has_room_iff)
    then show ?thesis using that queue_invI [OF i q'(4,2) s'(2)] s'(3,4) q'(3-5) True un
      by (simp add: first_released_def same_locks_def)
  next
    case lk: False
    let ?q = "q'\<lparr>cTxLock := cTxLock q + 1\<rparr>"
    have run: "xQueueGenericSendFromISR item pos (q, s) = Some (has_room pos q, False, ?q, s)"
      using True q'(1) lk by (simp add: xQueueGenericSendFromISR_def has_room_iff)
    have sh: "same_shape q ?q" using q'(4) by (simp add: same_shape_def)
    have "queue_inv T D (?q, s)" by (rule queue_invI [OF i sh _ inv(1)]) (simp add: q'(2))
    then show ?thesis
      by (rule that [OF run _ wakes_refl sh]) (use q'(3,5) True lk in \<open>simp_all add: same_locks_def\<close>)
  qed
next
  case False
  then have "xQueueGenericSendFromISR item pos (q, s) = Some (has_room pos q, False, q, s)"
    by (simp add: xQueueGenericSendFromISR_def has_room_iff)
  then show ?thesis by (rule that [OF _ i wakes_refl same_shape_refl(1)]) (use False in simp_all)
qed

lemma receive_enter_ok:
  assumes i: "queue_inv T D (q, s)"
  obtains r q' s' where "receive_enter n ent (q, s) = Some (r, q', s')" "queue_inv T D (q', s')" "wakes s s'"
    "same_shape q q'" "same_locks q q'"
    "queue_items q \<noteq> [] \<Longrightarrow> r = Inl (Some (hd (queue_items q))) \<and> queue_items q' = tl (queue_items q) \<and>
       first_released T (xTasksWaitingToSend q) s s'"
    "queue_items q = [] \<Longrightarrow> q' = q \<and> s' = s \<and>
       r = (if n = 0 then Inl None else Inr (case ent of None \<Rightarrow> vTaskInternalSetTimeOutState s | Some to \<Rightarrow> to))"
proof (cases "queue_items q = []")
  case False
  note inv = queue_invD [OF i]
  obtain p where p: "prvCopyDataFromQueue q = Some (hd (queue_items q), q\<lparr>pcReadFrom := p\<rparr>)"
    "data_queue (q\<lparr>pcReadFrom := p, uxMessagesWaiting := uxMessagesWaiting q - 1\<rparr>)"
    "queue_items (q\<lparr>pcReadFrom := p, uxMessagesWaiting := uxMessagesWaiting q - 1\<rparr>) = tl (queue_items q)"
    "same_shape q (q\<lparr>pcReadFrom := p, uxMessagesWaiting := uxMessagesWaiting q - 1\<rparr>)"
    "same_locks q (q\<lparr>pcReadFrom := p, uxMessagesWaiting := uxMessagesWaiting q - 1\<rparr>)"
    by (rule dequeue_first [OF inv(2) False]) blast
  obtain s' where s': "wake_and_yield (xTasksWaitingToSend q) s = Some s'" "kernel_inv T D s'" "wakes s s'"
    "members (lists s) (xTasksWaitingToSend q) \<noteq> [] \<Longrightarrow>
       \<exists>t\<in>T. hd (members (lists s) (xTasksWaitingToSend q)) = xEventListItem t \<and> released s' t"
    by (rule wake_and_yield_ok [OF inv(1,3)]) blast
  have "uxMessagesWaiting q > 0" using False by (simp add: no_items word_gt_0)
  then have "receive_enter n ent (q, s) = Some (Inl (Some (hd (queue_items q))),
      q\<lparr>pcReadFrom := p, uxMessagesWaiting := uxMessagesWaiting q - 1\<rparr>, s')"
    using p(1) s'(1) by (simp add: receive_enter_def)
  then show ?thesis using that queue_invI [OF i p(4,2) s'(2)] s'(3,4) p(3-5) False by (simp add: first_released_def)
next
  case True
  then have "receive_enter n ent (q, s) = Some (if n = 0 then Inl None
      else Inr (case ent of None \<Rightarrow> vTaskInternalSetTimeOutState s | Some to \<Rightarrow> to), q, s)"
    by (auto simp: receive_enter_def no_items)
  then show ?thesis using that i True by auto
qed

lemma receive_isr_ok:
  assumes i: "queue_inv T D (q, s)"
  obtains w q' s' where "xQueueReceiveFromISR (q, s) =
      Some (if queue_items q = [] then None else Some (hd (queue_items q)), w, q', s')" "queue_inv T D (q', s')"
    "wakes s s'" "same_shape q q'" "cTxLock q' = cTxLock q" "queue_items q' = tl (queue_items q)"
    "cRxLock q' = (if queue_items q \<noteq> [] \<and> cRxLock q \<noteq> queueUNLOCKED then cRxLock q + 1 else cRxLock q)"
    "queue_items q \<noteq> [] \<Longrightarrow> cRxLock q = queueUNLOCKED \<Longrightarrow> first_released T (xTasksWaitingToSend q) s s'"
proof (cases "queue_items q = []")
  case False
  note inv = queue_invD [OF i]
  define q1 where "q1 p = q\<lparr>pcReadFrom := p, uxMessagesWaiting := uxMessagesWaiting q - 1\<rparr>" for p
  obtain p where p: "prvCopyDataFromQueue q = Some (hd (queue_items q), q\<lparr>pcReadFrom := p\<rparr>)"
    "data_queue (q1 p)" "queue_items (q1 p) = tl (queue_items q)" "same_shape q (q1 p)" "same_locks q (q1 p)"
    by (rule dequeue_first [OF inv(2) False, folded q1_def]) blast
  have gt: "uxMessagesWaiting q > 0" using False by (simp add: no_items word_gt_0)
  have lk: "cRxLock (q1 p) = cRxLock q" "cTxLock (q1 p) = cTxLock q" using p(5) by (simp_all add: same_locks_def)
  show ?thesis
  proof (cases "cRxLock q = queueUNLOCKED")
    case True
    obtain w s' where s': "wake_one (xTasksWaitingToSend q) s = Some (w, s')" "kernel_inv T D s'" "wakes s s'"
      "members (lists s) (xTasksWaitingToSend q) \<noteq> [] \<Longrightarrow>
         \<exists>t\<in>T. hd (members (lists s) (xTasksWaitingToSend q)) = xEventListItem t \<and> released s' t"
      by (rule wake_one_ok [OF inv(1,3)]) blast
    have "xQueueReceiveFromISR (q, s) = Some (if queue_items q = [] then None else Some (hd (queue_items q)), w, q1 p, s')"
      using gt p(1) s'(1) True False by (simp add: xQueueReceiveFromISR_def q1_def)
    then show ?thesis
      by (rule that [OF _ queue_invI [OF i p(4,2) s'(2)] s'(3) p(4) lk(2) p(3)])
        (use s'(4) True lk in \<open>simp_all add: first_released_def\<close>)
  next
    case lock: False
    let ?q = "(q1 p)\<lparr>cRxLock := cRxLock q + 1\<rparr>"
    have run: "xQueueReceiveFromISR (q, s) = Some (if queue_items q = [] then None else Some (hd (queue_items q)), False, ?q, s)"
      using gt p(1) lock False by (simp add: xQueueReceiveFromISR_def q1_def)
    have sh: "same_shape q ?q" using p(4) by (simp add: same_shape_def)
    have "queue_inv T D (?q, s)" by (rule queue_invI [OF i sh _ inv(1)]) (simp add: p(2))
    then show ?thesis by (rule that [OF run _ wakes_refl sh]) (use p(3) lk lock False in simp_all)
  qed
next
  case True
  then have "xQueueReceiveFromISR (q, s) = Some (if queue_items q = [] then None else Some (hd (queue_items q)), False, q, s)"
    by (simp add: xQueueReceiveFromISR_def no_items)
  then show ?thesis by (rule that [OF _ i wakes_refl same_shape_refl(1)]) (use True in simp_all)
qed

text \<open>Peeking changes nothing in the queue.\<close>

lemma peek_enter_ok:
  assumes i: "queue_inv T D (q, s)"
  obtains r s' where "peek_enter n ent (q, s) = Some (r, q, s')" "queue_inv T D (q, s')" "wakes s s'"
    "queue_items q \<noteq> [] \<Longrightarrow> r = Inl (Some (hd (queue_items q)))"
    "queue_items q = [] \<Longrightarrow> s' = s \<and>
       r = (if n = 0 then Inl None else Inr (case ent of None \<Rightarrow> vTaskInternalSetTimeOutState s | Some to \<Rightarrow> to))"
proof (cases "queue_items q = []")
  case False
  note inv = queue_invD [OF i]
  obtain p where p: "prvCopyDataFromQueue q = Some (hd (queue_items q), q\<lparr>pcReadFrom := p\<rparr>)"
    by (rule dequeue_first [OF inv(2) False]) blast
  obtain s' where s': "wake_and_yield (xTasksWaitingToReceive q) s = Some s'" "kernel_inv T D s'" "wakes s s'"
    by (rule wake_and_yield_ok [OF inv(1,4)]) blast
  have "peek_enter n ent (q, s) = Some (Inl (Some (hd (queue_items q))), q, s')"
    using p s'(1) False by (simp add: peek_enter_def no_items word_gt_0)
  then show ?thesis by (rule that [OF _ queue_invI [OF i same_shape_refl(1) inv(2) s'(2)] s'(3)]) (use False in simp_all)
next
  case True
  then have "peek_enter n ent (q, s) = Some (if n = 0 then Inl None
      else Inr (case ent of None \<Rightarrow> vTaskInternalSetTimeOutState s | Some to \<Rightarrow> to), q, s)"
    by (auto simp: peek_enter_def no_items)
  then show ?thesis by (rule that [OF _ i wakes_refl]) (use True in simp_all)
qed

lemma peek_isr_ok:
  assumes "data_queue q"
  shows "xQueuePeekFromISR q = Some (if queue_items q = [] then None else Some (hd (queue_items q)), q)"
proof (cases "queue_items q = []")
  case False
  obtain p where "prvCopyDataFromQueue q = Some (hd (queue_items q), q\<lparr>pcReadFrom := p\<rparr>)"
    by (rule dequeue_first [OF assms False]) blast
  then show ?thesis using False by (simp add: xQueuePeekFromISR_def no_items word_gt_0)
next
  case True
  then show ?thesis by (simp add: xQueuePeekFromISR_def no_items)
qed

subsection \<open>Interrupts while the scheduler is suspended\<close>

text \<open>
  An interrupt sends or receives, counts a tick, asks for a switch, or releases a task that waits
  for another object. A call whose arguments its assertions refuse does not happen.
\<close>

datatype icall = ISend "u8 list" position | IReceive | ITick | ISwitch | IWake nat

fun exec_icall :: "nat set \<Rightarrow> icall \<Rightarrow> queue_state \<Rightarrow> queue_state option" where
  "exec_icall D (ISend item pos) (q, s) =
     (if send_fits item pos q then map_option (\<lambda>(_, _, x). x) (xQueueGenericSendFromISR item pos (q, s)) else Some (q, s))"
| "exec_icall D IReceive (q, s) = map_option (\<lambda>(_, _, x). x) (xQueueReceiveFromISR (q, s))"
| "exec_icall D ITick (q, s) = map_option (Pair q) (timer_interrupt s)"
| "exec_icall D ISwitch (q, s) = (if msip_reg s = Some 1 then map_option (Pair q) (riscv_soft_irq_handler s) else Some (q, s))"
| "exec_icall D (IWake l) (q, s) =
     (if wait_list D l then map_option (\<lambda>(_, s). (q, s)) (wake_one l s) else Some (q, s))"

fun run_isr :: "nat set \<Rightarrow> icall list \<Rightarrow> queue_state \<Rightarrow> queue_state option" where
  "run_isr D [] x = Some x"
| "run_isr D (i # is) x = Option.bind (exec_icall D i x) (run_isr D is)"

text \<open>What the task that holds the scheduler can rely on.\<close>

definition quiet :: "kernel \<Rightarrow> kernel \<Rightarrow> bool" where
  "quiet s s' \<longleftrightarrow> pxCurrentTCB s' = pxCurrentTCB s \<and> xSchedulerRunning s' = xSchedulerRunning s \<and>
     uxSchedulerSuspended s' = uxSchedulerSuspended s \<and> (msip_reg s' = None \<longleftrightarrow> msip_reg s = None) \<and>
     (\<forall>u. is_ready s u \<longrightarrow> is_ready s' u) \<and>
     (\<forall>u. event_moved (uxSchedulerSuspended s = 0) (pxContainer (lists s) (xEventListItem u)) (pxContainer (lists s') (xEventListItem u)))"

lemma quietD:
  assumes "quiet s s'"
  shows "pxCurrentTCB s' = pxCurrentTCB s" "xSchedulerRunning s' = xSchedulerRunning s"
    "uxSchedulerSuspended s' = uxSchedulerSuspended s" "msip_reg s' = None \<longleftrightarrow> msip_reg s = None"
    "is_ready s u \<Longrightarrow> is_ready s' u"
    "event_moved (uxSchedulerSuspended s = 0) (pxContainer (lists s) (xEventListItem u)) (pxContainer (lists s') (xEventListItem u))"
  using assms by (simp_all add: quiet_def)

lemma quiet_refl [simp]: "quiet s s" by (simp add: quiet_def)

lemma quiet_trans: "quiet s s1 \<Longrightarrow> quiet s1 s2 \<Longrightarrow> quiet s s2"
  unfolding quiet_def by (auto intro: event_moved_trans)

lemma wakes_quiet: "wakes s s' \<Longrightarrow> quiet s s'"
  by (auto simp: wakes_def quiet_def frame_def msip_le_def)

end
