(* ===== verification/Queue_Wait.thy ===== *)
theory Queue_Wait
  imports Queue_Kernel
begin

text \<open>
  The part of a blocking call that runs with the scheduler suspended and the queue locked: it
  returns and keeps the invariant whatever the interrupts do, and no wake-up is lost.
\<close>

subsection \<open>One interrupt\<close>

definition is_send :: "icall \<Rightarrow> bool" where
  "is_send i \<longleftrightarrow> (case i of ISend item pos \<Rightarrow> True | _ \<Rightarrow> False)"

lemma is_send_simps [simp]:
  "is_send (ISend item pos)" "\<not> is_send IReceive" "\<not> is_send ITick" "\<not> is_send ISwitch" "\<not> is_send (IWake l)"
  by (simp_all add: is_send_def)

lemma enq_length: "length (enq pos x xs) \<le> Suc (length xs)" "enq pos x xs \<noteq> []"
  by (cases pos; simp add: enq_def)+

text \<open>
  A locked queue counts the sends; of an unlocked one, a send into the empty queue releases the
  first waiting receiver.
\<close>

definition icall_effect :: "nat set \<Rightarrow> icall \<Rightarrow> queue_state \<Rightarrow> queue_state \<Rightarrow> bool" where
  "icall_effect T i = (\<lambda>(q, s) (q', s').
     (cTxLock q \<noteq> queueUNLOCKED \<longrightarrow>
        cTxLock q' = cTxLock q \<and> length (queue_items q') \<le> length (queue_items q) \<or>
        is_send i \<and> cTxLock q' = cTxLock q + 1 \<and> length (queue_items q') \<le> Suc (length (queue_items q))) \<and>
     (cTxLock q = queueUNLOCKED \<longrightarrow> cTxLock q' = queueUNLOCKED \<and>
        (queue_items q' \<noteq> [] \<longrightarrow> queue_items q \<noteq> [] \<or> first_released T (xTasksWaitingToReceive q) s s')))"

lemma icall_effect_same: "cTxLock q' = cTxLock q \<Longrightarrow> queue_items q' = queue_items q \<Longrightarrow> icall_effect T i (q, s) (q', s')"
  by (simp add: icall_effect_def del: items_length)

lemma exec_icall_ok:
  assumes i: "queue_inv T D (q, s)" and u: "uxSchedulerSuspended s \<noteq> 0"
  obtains q' s' where "exec_icall D c (q, s) = Some (q', s')" "queue_inv T D (q', s')" "quiet s s'" "same_shape q q'"
    "icall_effect T c (q, s) (q', s')"
proof (cases c)
  case (ISend item pos)
  show ?thesis
  proof (cases "send_fits item pos q")
    case True
    obtain w q' s' where r: "xQueueGenericSendFromISR item pos (q, s) = Some (has_room pos q, w, q', s')" "queue_inv T D (q', s')"
      "wakes s s'" "same_shape q q'" "cRxLock q' = cRxLock q"
      "queue_items q' = (if has_room pos q then enq pos item (queue_items q) else queue_items q)"
      "cTxLock q' = (if has_room pos q \<and> cTxLock q \<noteq> queueUNLOCKED then cTxLock q + 1 else cTxLock q)"
      "has_room pos q \<Longrightarrow> cTxLock q = queueUNLOCKED \<Longrightarrow> first_released T (xTasksWaitingToReceive q) s s'"
      by (rule send_isr_ok [OF i True]) blast
    have "icall_effect T c (q, s) (q', s')"
      unfolding icall_effect_def prod.case using r(6-8) enq_length [of pos item "queue_items q"]
      by (cases "has_room pos q"; cases "cTxLock q = queueUNLOCKED") (simp_all add: ISend)
    then show ?thesis using that [of q' s'] r(1,2,4) wakes_quiet [OF r(3)] True ISend by simp
  next
    case False
    then show ?thesis by (intro that [of q s]) (simp_all add: ISend i icall_effect_same)
  qed
next
  case IReceive
  obtain w q' s' where r: "xQueueReceiveFromISR (q, s) =
      Some (if queue_items q = [] then None else Some (hd (queue_items q)), w, q', s')" "queue_inv T D (q', s')"
    "wakes s s'" "same_shape q q'" "cTxLock q' = cTxLock q" "queue_items q' = tl (queue_items q)"
    by (rule receive_isr_ok [OF i]) blast
  have "icall_effect T c (q, s) (q', s')" using r(5,6) by (auto simp: icall_effect_def simp del: items_length)
  then show ?thesis using that [of q' s'] r(1,2,4) wakes_quiet [OF r(3)] IReceive by simp
next
  case ITick
  note k = queue_invD(1) [OF i]
  let ?s = "s\<lparr>xPendedTicks := xPendedTicks s + 1\<rparr>"
  have "timer_interrupt s = Some ?s" using u by (simp add: timer_interrupt_def xTaskIncrementTick_def)
  moreover have "kernel_inv T D ?s" by (rule inv_step [OF kinv_cong [OF inv_kinv [OF k]]]) simp_all
  moreover have "quiet s ?s" by (simp add: quiet_def is_ready_def)
  ultimately show ?thesis
    by (intro that [of q ?s]) (use i in \<open>simp_all add: ITick icall_effect_same queue_inv_def\<close>)
next
  case ISwitch
  note k = queue_invD(1) [OF i]
  show ?thesis
  proof (cases "msip_reg s = Some 1")
    case True
    let ?s = "s\<lparr>msip_reg := Some 0, xYieldPending := True\<rparr>"
    have "riscv_soft_irq_handler s = Some ?s" using u True by (simp add: riscv_soft_irq_handler_def vTaskSwitchContext_def)
    moreover have "kernel_inv T D ?s" by (rule inv_step [OF kinv_cong [OF inv_kinv [OF k]]]) simp_all
    moreover have "quiet s ?s" using True by (simp add: quiet_def is_ready_def)
    ultimately show ?thesis
      by (intro that [of q ?s]) (use i True in \<open>simp_all add: ISwitch icall_effect_same queue_inv_def\<close>)
  next
    case False
    then show ?thesis by (intro that [of q s]) (simp_all add: ISwitch i icall_effect_same)
  qed
next
  case (IWake l)
  show ?thesis
  proof (cases "wait_list D l")
    case True
    obtain w s' where r: "wake_one l s = Some (w, s')" "kernel_inv T D s'" "wakes s s'"
      by (rule wake_one_ok [OF queue_invD(1) [OF i] True]) blast
    then show ?thesis using wakes_quiet [OF r(3)] True i
      by (intro that [of q s']) (simp_all add: IWake icall_effect_same queue_inv_def)
  next
    case False
    then show ?thesis by (intro that [of q s]) (simp_all add: IWake i icall_effect_same)
  qed
qed

lemma run_isr_ok:
  assumes "queue_inv T D (q, s)" "uxSchedulerSuspended s \<noteq> 0"
  obtains q' s' where "run_isr D is (q, s) = Some (q', s')" "queue_inv T D (q', s')" "quiet s s'" "same_shape q q'"
  using assms
proof (induction "is" arbitrary: q s thesis)
  case Nil
  then show ?case by simp
next
  case (Cons c cs)
  obtain q1 s1 where c1: "exec_icall D c (q, s) = Some (q1, s1)" "queue_inv T D (q1, s1)" "quiet s s1" "same_shape q q1"
    by (rule exec_icall_ok [OF Cons.prems(2,3)]) blast
  have "uxSchedulerSuspended s1 \<noteq> 0" using quietD(3) [OF c1(3)] Cons.prems(3) by simp
  with Cons.IH [OF _ c1(2)] obtain q' s' where "run_isr D cs (q1, s1) = Some (q', s')" "queue_inv T D (q', s')"
    "quiet s1 s'" "same_shape q1 q'" by blast
  then show ?case using c1(1) quiet_trans [OF c1(3)] same_shape_trans [OF c1(4)]
    by (intro Cons.prems(1) [of q' s']) simp_all
qed

text \<open>An invariant of single interrupts holds after any number of them.\<close>

lemma run_isr_induct:
  assumes i: "queue_inv T D (q, s)" "uxSchedulerSuspended s \<noteq> 0" and p: "P (length (filter is_send is)) (q, s)"
    and r: "run_isr D is (q, s) = Some (q', s')"
    and step: "\<And>c n q s q1 s1. queue_inv T D (q, s) \<Longrightarrow> uxSchedulerSuspended s \<noteq> 0 \<Longrightarrow>
       P ((if is_send c then 1 else 0) + n) (q, s) \<Longrightarrow> queue_inv T D (q1, s1) \<Longrightarrow> quiet s s1 \<Longrightarrow> same_shape q q1 \<Longrightarrow>
       icall_effect T c (q, s) (q1, s1) \<Longrightarrow> P n (q1, s1)"
  shows "P 0 (q', s')"
  using i p r
proof (induction "is" arbitrary: q s)
  case (Cons c cs)
  obtain q1 s1 where c1: "exec_icall D c (q, s) = Some (q1, s1)" "queue_inv T D (q1, s1)" "quiet s s1" "same_shape q q1"
    "icall_effect T c (q, s) (q1, s1)"
    by (rule exec_icall_ok [OF Cons.prems(1,2)]) blast
  have u: "uxSchedulerSuspended s1 \<noteq> 0" using quietD(3) [OF c1(3)] Cons.prems(2) by simp
  have "P (length (filter is_send cs)) (q1, s1)"
    by (rule step [OF Cons.prems(1,2) _ c1(2-5)]) (use Cons.prems(3) in \<open>cases "is_send c"; simp\<close>)
  then show ?case using Cons.IH [OF c1(2) u] Cons.prems(4) c1(1) by simp
qed simp

subsection \<open>Who waits\<close>

text \<open>\<open>c\<close> is the only task that waits to receive, or has been released already.\<close>

definition waits_alone :: "nat \<Rightarrow> queue_state \<Rightarrow> bool" where
  "waits_alone c = (\<lambda>(q, s).
     pxContainer (lists s) (xEventListItem c) \<in> {Some (xTasksWaitingToReceive q), Some xPendingReadyList} \<and>
     (\<forall>u. u \<noteq> c \<longrightarrow> pxContainer (lists s) (xEventListItem u) \<noteq> Some (xTasksWaitingToReceive q)))"

lemma waits_alone_quiet:
  assumes w: "waits_alone c (q, s)" and l: "wait_list D (xTasksWaitingToReceive q)" and q: "quiet s s'" and u: "uxSchedulerSuspended s \<noteq> 0"
    and sh: "same_shape q q'"
  shows "waits_alone c (q', s')"
proof -
  have l': "36 < xTasksWaitingToReceive q" "xTasksWaitingToReceive q' = xTasksWaitingToReceive q"
    using l sh by (simp_all add: wait_list_def same_shape_def)
  have "pxContainer (lists s') (xEventListItem c) \<in> {Some (xTasksWaitingToReceive q), Some xPendingReadyList}"
    using w quietD(6) [OF q, of c] u by (auto simp: waits_alone_def event_moved_def)
  moreover have "pxContainer (lists s') (xEventListItem v) \<noteq> Some (xTasksWaitingToReceive q)" if "v \<noteq> c" for v
    using w quietD(6) [OF q, of v] u that l'(1) by (auto simp: waits_alone_def event_moved_def)
  ultimately show ?thesis unfolding waits_alone_def prod.case l'(2) by blast
qed

text \<open>Then a release at the head of the list is a release of \<open>c\<close>.\<close>

lemma released_alone:
  assumes k: "kernel_inv T D s" and l: "wait_list D (xTasksWaitingToReceive q)" and w: "waits_alone c (q, s)"
    and q: "quiet s s'" and u: "uxSchedulerSuspended s \<noteq> 0" and f: "first_released T (xTasksWaitingToReceive q) s s'"
  shows "pxContainer (lists s') (xEventListItem c) = Some xPendingReadyList"
proof (cases "members (lists s) (xTasksWaitingToReceive q) = []")
  case True
  note m = members_container [OF kernel_lists [OF kinvD(1) [OF inv_kinv [OF k]]], of "xTasksWaitingToReceive q" "xEventListItem c"]
  have "pxContainer (lists s) (xEventListItem c) \<noteq> Some (xTasksWaitingToReceive q)" using m True l by (simp add: wait_list_def)
  then have "pxContainer (lists s) (xEventListItem c) = Some xPendingReadyList" using w by (auto simp: waits_alone_def)
  then show ?thesis using quietD(6) [OF q, of c] by simp
next
  case False
  then obtain t where t: "hd (members (lists s) (xTasksWaitingToReceive q)) = xEventListItem t" "released s' t"
    using f by (auto simp: first_released_def)
  have "pxContainer (lists s) (xEventListItem t) = Some (xTasksWaitingToReceive q)"
    using members_container [OF kernel_lists [OF kinvD(1) [OF inv_kinv [OF k]]], of "xTasksWaitingToReceive q" "xEventListItem t"]
      hd_in_set [OF False] t(1) l by (simp add: wait_list_def)
  then have "t = c" using w by (auto simp: waits_alone_def)
  then show ?thesis using t(2) quietD(3) [OF q] u by (simp add: released_def)
qed

text \<open>
  While the queue is locked the counter covers the items: \<open>m\<close> more sends fit into its seven bits.
\<close>

definition counted :: "nat \<Rightarrow> queue_state \<Rightarrow> bool" where
  "counted m = (\<lambda>(q, s). 0 \<le> sint (cTxLock q) \<and> sint (cTxLock q) + int m \<le> 127 \<and> length (queue_items q) \<le> nat (sint (cTxLock q)))"

lemma sint_lock_Suc: "0 \<le> sint (x :: i8) \<Longrightarrow> sint x < 127 \<Longrightarrow> sint (x + 1) = sint x + 1"
  by (simp add: sint_word_ariths signed_take_bit_int_eq_self)

lemma counted_locked: "counted m (q, s) \<Longrightarrow> cTxLock q \<noteq> queueUNLOCKED"
  by (auto simp: counted_def queueUNLOCKED_def)

lemma counted_step:
  assumes c: "counted ((if is_send i then 1 else 0) + m) (q, s)" and e: "icall_effect T i (q, s) (q', s')"
  shows "counted m (q', s')"
proof -
  note lk = counted_locked [OF c]
  have b: "0 \<le> sint (cTxLock q)" "sint (cTxLock q) + (if is_send i then 1 else 0) + int m \<le> 127"
    "length (queue_items q) \<le> nat (sint (cTxLock q))"
    using c by (auto simp: counted_def simp del: items_length split: if_splits)
  consider "cTxLock q' = cTxLock q" "length (queue_items q') \<le> length (queue_items q)" |
    "is_send i" "cTxLock q' = cTxLock q + 1" "length (queue_items q') \<le> Suc (length (queue_items q))"
    using e lk unfolding icall_effect_def prod.case by blast
  then show ?thesis
  proof cases
    case 1
    then show ?thesis using b by (simp add: counted_def del: items_length split: if_splits)
  next
    case 2
    then have "sint (cTxLock q') = sint (cTxLock q) + 1" using b sint_lock_Suc [of "cTxLock q"] by simp
    then show ?thesis using b 2 by (simp add: counted_def del: items_length)
  qed
qed

lemma counted_run:
  assumes "queue_inv T D (q, s)" "uxSchedulerSuspended s \<noteq> 0" "counted (length (filter is_send is) + m) (q, s)"
    "run_isr D is (q, s) = Some (q', s')"
  shows "counted m (q', s')"
  using run_isr_induct [OF assms(1,2), of "\<lambda>n. counted (n + m)" "is" q' s'] assms(3,4) counted_step
  by (metis (no_types, lifting) add.assoc add_0)

text \<open>Once unlocked: when there is an item, \<open>c\<close> is released.\<close>

definition awake :: "nat \<Rightarrow> queue_state \<Rightarrow> bool" where
  "awake c = (\<lambda>(q, s). cTxLock q = queueUNLOCKED \<and> waits_alone c (q, s) \<and>
     (queue_items q \<noteq> [] \<longrightarrow> pxContainer (lists s) (xEventListItem c) = Some xPendingReadyList))"

lemma awake_step:
  assumes i: "queue_inv T D (q, s)" and u: "uxSchedulerSuspended s \<noteq> 0" and a: "awake c (q, s)" and q: "quiet s s'"
    and sh: "same_shape q q'" and e: "icall_effect T x (q, s) (q', s')"
  shows "awake c (q', s')"
proof -
  note inv = queue_invD [OF i]
  have un: "cTxLock q = queueUNLOCKED" and w: "waits_alone c (q, s)" using a by (simp_all add: awake_def)
  have e': "cTxLock q' = queueUNLOCKED" "queue_items q' \<noteq> [] \<Longrightarrow> queue_items q \<noteq> [] \<or> first_released T (xTasksWaitingToReceive q) s s'"
    using e un unfolding icall_effect_def prod.case by blast+
  have "pxContainer (lists s') (xEventListItem c) = Some xPendingReadyList" if "queue_items q' \<noteq> []"
  proof (cases "queue_items q = []")
    case True
    then show ?thesis using released_alone [OF inv(1,4) w q u] e'(2) that by blast
  next
    case False
    then have "pxContainer (lists s) (xEventListItem c) = Some xPendingReadyList" using a by (simp add: awake_def)
    then show ?thesis using quietD(6) [OF q, of c] by simp
  qed
  then show ?thesis using e'(1) waits_alone_quiet [OF w inv(4) q u sh] by (simp add: awake_def)
qed

lemma awake_run:
  assumes "queue_inv T D (q, s)" "uxSchedulerSuspended s \<noteq> 0" "awake c (q, s)" "run_isr D is (q, s) = Some (q', s')"
  shows "awake c (q', s')"
  by (rule run_isr_induct [OF assms(1,2) _ assms(4), of "\<lambda>_. awake c"]) (use assms(3) awake_step in blast)+

subsection \<open>Unlocking and resuming\<close>

lemma shape_locks [simp]:
  "same_shape q (q\<lparr>cTxLock := a\<rparr>)" "same_shape q (q\<lparr>cRxLock := a\<rparr>)" "same_shape q (prvLockQueue q)"
  "data_queue (prvLockQueue q) = data_queue q" "queue_items (prvLockQueue q) = queue_items q"
  by (simp_all add: same_shape_def prvLockQueue_def Let_def)

lemma unlock_ok:
  assumes i: "queue_inv T D (q, s)" and u: "uxSchedulerSuspended s \<noteq> 0"
  obtains q' s' where "prvUnlockQueue (run_isr D is) (q, s) = Some (q', s')" "queue_inv T D (q', s')" "quiet s s'" "same_shape q q'"
    "\<And>c. counted 0 (q, s) \<Longrightarrow> waits_alone c (q, s) \<Longrightarrow> awake c (q', s')"
proof -
  note inv = queue_invD [OF i]
  obtain s1 where s1: "unlock_loop (xTasksWaitingToReceive q) (nat (sint (cTxLock q))) s = Some s1" "kernel_inv T D s1" "wakes s s1"
    "0 < nat (sint (cTxLock q)) \<longrightarrow> first_released T (xTasksWaitingToReceive q) s s1"
    using unlock_loop_ok [OF inv(1,4), of "nat (sint (cTxLock q))"] by (elim exE conjE) (rule that; assumption)
  let ?q1 = "q\<lparr>cTxLock := queueUNLOCKED\<rparr>"
  have i1: "queue_inv T D (?q1, s1)" by (rule queue_invI [OF i _ _ s1(2)]) (simp_all add: inv(2))
  have q1: "quiet s s1" by (rule wakes_quiet [OF s1(3)])
  have u1: "uxSchedulerSuspended s1 \<noteq> 0" using u quietD(3) [OF q1] by simp
  have a1: "awake c (?q1, s1)" if c: "counted 0 (q, s)" "waits_alone c (q, s)" for c
  proof -
    have "pxContainer (lists s1) (xEventListItem c) = Some xPendingReadyList" if "queue_items q \<noteq> []"
    proof -
      have "0 < length (queue_items q)" using that by (simp del: items_length)
      then have "0 < nat (sint (cTxLock q))" using c(1) unfolding counted_def prod.case by linarith
      then show ?thesis using released_alone [OF inv(1,4) c(2) q1 u] s1(4) by blast
    qed
    then show ?thesis using waits_alone_quiet [OF c(2) inv(4) q1 u, of ?q1] by (simp add: awake_def)
  qed
  obtain q2 s2 where r2: "run_isr D is (?q1, s1) = Some (q2, s2)" "queue_inv T D (q2, s2)" "quiet s1 s2" "same_shape ?q1 q2"
    by (rule run_isr_ok [OF i1 u1]) blast
  have u2: "uxSchedulerSuspended s2 \<noteq> 0" using u1 quietD(3) [OF r2(3)] by simp
  note inv2 = queue_invD [OF r2(2)]
  obtain s3 where s3: "unlock_loop (xTasksWaitingToSend q2) (nat (sint (cRxLock q2))) s2 = Some s3" "kernel_inv T D s3" "wakes s2 s3"
    using unlock_loop_ok [OF inv2(1,3), of "nat (sint (cRxLock q2))"] by blast
  let ?q3 = "q2\<lparr>cRxLock := queueUNLOCKED\<rparr>"
  have q3: "quiet s2 s3" by (rule wakes_quiet [OF s3(3)])
  have a3: "awake c (?q3, s3)" if "counted 0 (q, s)" "waits_alone c (q, s)" for c
  proof -
    have a2: "awake c (q2, s2)" by (rule awake_run [OF i1 u1 a1 [OF that] r2(1)])
    then have "waits_alone c (q2, s2)" by (simp add: awake_def)
    from waits_alone_quiet [OF this inv2(4) q3 u2, of ?q3] show ?thesis
      using a2 quietD(6) [OF q3, of c] by (auto simp: awake_def)
  qed
  have sh: "same_shape q ?q3" using same_shape_trans [OF same_shape_trans [OF _ r2(4)], of q ?q3] by simp
  have "prvUnlockQueue (run_isr D is) (q, s) = Some (?q3, s3)"
    by (simp add: prvUnlockQueue_def unlock_tx_def unlock_rx_def s1(1) r2(1) s3(1))
  then show ?thesis
    by (rule that [OF _ queue_invI [OF r2(2) _ _ s3(2)] quiet_trans [OF quiet_trans [OF q1 r2(3)] q3] sh a3])
      (simp_all add: inv2(2))
qed

text \<open>What a call that may block leaves: only the tasks in \<open>X\<close> may have stopped being ready.\<close>

definition undisturbed :: "nat set \<Rightarrow> kernel \<Rightarrow> kernel \<Rightarrow> bool" where
  "undisturbed X s s' \<longleftrightarrow> pxCurrentTCB s' = pxCurrentTCB s \<and> xSchedulerRunning s' = xSchedulerRunning s \<and>
     (msip_reg s' = None \<longleftrightarrow> msip_reg s = None) \<and> (\<forall>u. u \<notin> X \<longrightarrow> is_ready s u \<longrightarrow> is_ready s' u)"

lemma undisturbed_trans: "undisturbed X s s1 \<Longrightarrow> undisturbed Y s1 s2 \<Longrightarrow> X \<union> Y \<subseteq> Z \<Longrightarrow> undisturbed Z s s2"
  unfolding undisturbed_def by auto

lemma undisturbedI:
  "quiet s s' \<Longrightarrow> undisturbed {} s s'" "frame X s s' \<Longrightarrow> undisturbed X s s'"
  by (auto simp: quiet_def frame_def undisturbed_def msip_le_def)

text \<open>The end of every round: unlock, resume.\<close>

lemma round_end:
  assumes i: "queue_inv T D (q, s)" and u: "uxSchedulerSuspended s \<noteq> 0"
  obtains q1 s1 q2 s2 y s3 where "prvUnlockQueue (run_isr D i3) (q, s) = Some (q1, s1)" "run_isr D i4 (q1, s1) = Some (q2, s2)"
    "xTaskResumeAll s2 = Some (y, s3)" "queue_inv T D (q2, s3)" "same_shape q q2" "undisturbed {} s s3"
    "uxSchedulerSuspended s3 = uxSchedulerSuspended s - 1" "y \<Longrightarrow> msip_reg s \<noteq> None \<Longrightarrow> msip_reg s3 = Some 1"
    "\<And>c. counted 0 (q, s) \<Longrightarrow> waits_alone c (q, s) \<Longrightarrow> uxSchedulerSuspended s = 1 \<Longrightarrow> queue_items q2 \<noteq> [] \<Longrightarrow> is_ready s3 c"
proof -
  obtain q1 s1 where r1: "prvUnlockQueue (run_isr D i3) (q, s) = Some (q1, s1)" "queue_inv T D (q1, s1)" "quiet s s1" "same_shape q q1"
    "\<And>c. counted 0 (q, s) \<Longrightarrow> waits_alone c (q, s) \<Longrightarrow> awake c (q1, s1)"
    by (rule unlock_ok [OF i u]) blast
  have u1: "uxSchedulerSuspended s1 \<noteq> 0" using u quietD(3) [OF r1(3)] by simp
  obtain q2 s2 where r2: "run_isr D i4 (q1, s1) = Some (q2, s2)" "queue_inv T D (q2, s2)" "quiet s1 s2" "same_shape q1 q2"
    by (rule run_isr_ok [OF r1(2) u1]) blast
  note q02 = quiet_trans [OF r1(3) r2(3)]
  have u2: "uxSchedulerSuspended s2 \<noteq> 0" using u quietD(3) [OF q02] by simp
  note inv2 = queue_invD [OF r2(2)]
  obtain y s3 where r3: "xTaskResumeAll s2 = Some (y, s3)" "kernel_inv T D s3" "pxCurrentTCB s3 = pxCurrentTCB s2"
    "uxSchedulerSuspended s3 = uxSchedulerSuspended s2 - 1" "xSchedulerRunning s3 = xSchedulerRunning s2" "frame {} s2 s3"
    "y \<and> msip_reg s2 \<noteq> None \<longrightarrow> msip_reg s3 = Some 1"
    "uxSchedulerSuspended s2 = 1 \<longrightarrow> (\<forall>t. pxContainer (lists s2) (xEventListItem t) = Some xPendingReadyList \<longrightarrow> is_ready s3 t)"
    using resume_all [OF inv2(1) u2] by blast
  have "undisturbed {} s s3" by (rule undisturbed_trans [OF undisturbedI(1) [OF q02] undisturbedI(2) [OF r3(6)]]) simp
  moreover have "uxSchedulerSuspended s3 = uxSchedulerSuspended s - 1" using r3(4) quietD(3) [OF q02] by simp
  moreover have "msip_reg s3 = Some 1" if "y" "msip_reg s \<noteq> None" using r3(7) that quietD(4) [OF q02] by simp
  moreover have "is_ready s3 c" if c: "counted 0 (q, s)" "waits_alone c (q, s)" "uxSchedulerSuspended s = 1" "queue_items q2 \<noteq> []" for c
  proof -
    have "awake c (q2, s2)" by (rule awake_run [OF r1(2) u1 r1(5) [OF c(1,2)] r2(1)])
    then show ?thesis using c(3,4) r3(8) quietD(3) [OF q02] by (simp add: awake_def)
  qed
  moreover have "queue_inv T D (q2, s3)" by (rule queue_invI [OF r2(2) same_shape_refl(1) inv2(2) r3(2)])
  ultimately show ?thesis
    using that [OF r1(1) r2(1) r3(1) _ same_shape_trans [OF r1(4) r2(4)]] by blast
qed

subsection \<open>A round\<close>

definition isr_env :: "nat set \<Rightarrow> (nat \<Rightarrow> icall list) \<Rightarrow> wait_env" where
  "isr_env D is = \<lparr>env_before = Some, env_isr = (\<lambda>j. run_isr D (is j)), env_after = Some\<rparr>"

text \<open>The number of sends by interrupts at the points 0 to 2, while the queue is locked.\<close>

definition locked_sends :: "(nat \<Rightarrow> icall list) \<Rightarrow> nat" where
  "locked_sends is = length (filter is_send (is 0)) + (length (filter is_send (is 1)) + length (filter is_send (is 2)))"

text \<open>Nobody waits to receive, and the queue is empty and not locked.\<close>

definition no_reader :: "queue_state \<Rightarrow> bool" where
  "no_reader = (\<lambda>(q, s). cTxLock q = queueUNLOCKED \<and> queue_items q = [] \<and>
     (\<forall>u. pxContainer (lists s) (xEventListItem u) \<noteq> Some (xTasksWaitingToReceive q)))"

lemma time_left:
  "xTaskCheckForTimeOut s to n = (False, to', n') \<Longrightarrow> n' \<noteq> 0"
  by (auto simp: xTaskCheckForTimeOut_def Let_def portMAX_DELAY_def split: if_splits)

lemma locked_counted: "cTxLock q = queueUNLOCKED \<Longrightarrow> queue_items q = [] \<Longrightarrow> m \<le> 127 \<Longrightarrow> counted m (prvLockQueue q, s)"
  by (simp add: counted_def prvLockQueue_def Let_def queueLOCKED_UNMODIFIED_def no_items)

text \<open>The start of a round: the scheduler suspended, the queue locked, the first interrupts.\<close>

lemma round_start:
  assumes i: "queue_inv T D (q, s)" and c: "pxCurrentTCB s = Some c" "is_ready s c" "pxContainer (lists s) (xEventListItem c) = None"
    and u: "uxSchedulerSuspended s + 1 \<noteq> 0"
  obtains q1 s1 where "run_isr D (is 0) (prvLockQueue q, vTaskSuspendAll s) = Some (q1, s1)" "queue_inv T D (q1, s1)"
    "uxSchedulerSuspended s1 = uxSchedulerSuspended s + 1" "pxCurrentTCB s1 = Some c" "is_ready s1 c"
    "pxContainer (lists s1) (xEventListItem c) = None" "same_shape q q1" "undisturbed {} s s1"
    "no_reader (q, s) \<Longrightarrow> locked_sends is \<le> 127 \<Longrightarrow>
       counted (length (filter is_send (is 1)) + length (filter is_send (is 2))) (q1, s1) \<and>
       (\<forall>u. pxContainer (lists s1) (xEventListItem u) \<noteq> Some (xTasksWaitingToReceive q))"
proof -
  note inv = queue_invD [OF i]
  let ?q = "prvLockQueue q" and ?s = "vTaskSuspendAll s"
  have i0: "queue_inv T D (?q, ?s)" by (rule queue_invI [OF i _ _ suspend_all_inv [OF inv(1)]]) (simp_all add: inv(2))
  have u0: "uxSchedulerSuspended ?s = uxSchedulerSuspended s + 1" "lists ?s = lists s" by (simp_all add: vTaskSuspendAll_def)
  have un0: "uxSchedulerSuspended ?s \<noteq> 0" using u u0(1) by simp
  obtain q1 s1 where r: "run_isr D (is 0) (?q, ?s) = Some (q1, s1)" "queue_inv T D (q1, s1)" "quiet ?s s1" "same_shape ?q q1"
    by (rule run_isr_ok [OF i0 un0]) blast
  have un: "undisturbed {} s s1"
    by (rule undisturbed_trans [OF undisturbedI(2) [OF suspend_frame] undisturbedI(1) [OF r(3)]]) simp
  have ev: "pxContainer (lists s1) (xEventListItem v) \<noteq> Some (xTasksWaitingToReceive q)"
    if "pxContainer (lists s) (xEventListItem v) \<noteq> Some (xTasksWaitingToReceive q)" for v
    using that quietD(6) [OF r(3), of v] un0 inv(4) unfolding u0(2) by (auto simp: event_moved_def wait_list_def)
  have cnt: "counted (length (filter is_send (is 1)) + length (filter is_send (is 2))) (q1, s1)"
    if "no_reader (q, s)" "locked_sends is \<le> 127"
    by (rule counted_run [OF i0 un0 locked_counted r(1)]) (use that in \<open>simp_all add: no_reader_def locked_sends_def\<close>)
  have c1: "pxCurrentTCB s1 = Some c" "is_ready s1 c" using un c by (simp_all add: undisturbed_def)
  have e1: "pxContainer (lists s1) (xEventListItem c) = None" using quietD(6) [OF r(3), of c] c(3) u0(2) by simp
  have n1: "\<forall>u. pxContainer (lists s1) (xEventListItem u) \<noteq> Some (xTasksWaitingToReceive q)" if "no_reader (q, s)"
    using ev that by (simp add: no_reader_def)
  have s1: "uxSchedulerSuspended s1 = uxSchedulerSuspended s + 1" using quietD(3) [OF r(3)] u0(1) by simp
  show ?thesis
    by (rule that [OF r(1,2) s1 c1 e1 same_shape_trans [OF _ r(4)] un]) (use cnt n1 in simp_all)
qed

text \<open>The result of a round for its caller: it is ready, or a switch to another task is on its way.\<close>

definition round_result :: "nat set \<Rightarrow> nat set \<Rightarrow> nat \<Rightarrow> queue_state \<Rightarrow> queue_state \<Rightarrow> bool" where
  "round_result T D c = (\<lambda>(q, s) (q', s'). queue_inv T D (q', s') \<and> same_shape q q' \<and> undisturbed {c} s s' \<and>
     uxSchedulerSuspended s' = uxSchedulerSuspended s \<and> (is_ready s' c \<or> (msip_reg s \<noteq> None \<longrightarrow> msip_reg s' = Some 1)))"

text \<open>A round in which the caller does not wait.\<close>

lemma round_pass:
  assumes i: "queue_inv T D (q1, s1)" and c: "is_ready s1 c" and u: "uxSchedulerSuspended s1 = uxSchedulerSuspended s + 1"
    and u1: "uxSchedulerSuspended s + 1 \<noteq> 0" and sh: "same_shape q q1" and un: "undisturbed {} s s1"
  obtains q2 s2 q3 s3 y s4 where "prvUnlockQueue (run_isr D i3) (q1, s1) = Some (q2, s2)" "run_isr D i4 (q2, s2) = Some (q3, s3)"
    "xTaskResumeAll s3 = Some (y, s4)" "round_result T D c (q, s) (q3, s4)" "is_ready s4 c"
proof -
  have un1: "uxSchedulerSuspended s1 \<noteq> 0" using u u1 by simp
  obtain q2 s2 q3 s3 y s4 where r: "prvUnlockQueue (run_isr D i3) (q1, s1) = Some (q2, s2)"
    "run_isr D i4 (q2, s2) = Some (q3, s3)" "xTaskResumeAll s3 = Some (y, s4)" "queue_inv T D (q3, s4)" "same_shape q1 q3"
    "undisturbed {} s1 s4" "uxSchedulerSuspended s4 = uxSchedulerSuspended s1 - 1"
    by (rule round_end [OF i un1, of i3 i4]) blast
  have c4: "is_ready s4 c" using r(6) c by (simp add: undisturbed_def)
  have "round_result T D c (q, s) (q3, s4)"
    unfolding round_result_def prod.case
    using r(4,7) same_shape_trans [OF sh r(5)] undisturbed_trans [OF un r(6), of "{c}"] u c4 by simp
  then show ?thesis by (rule that [OF r(1-3) _ c4])
qed

text \<open>A round in which it goes on the list \<open>l\<close> of the queue.\<close>

lemma round_wait:
  assumes i: "queue_inv T D (q2, s2)" and c: "pxCurrentTCB s2 = Some c" "is_ready s2 c" "pxContainer (lists s2) (xEventListItem c) = None"
    and u: "uxSchedulerSuspended s2 = uxSchedulerSuspended s + 1"
    and u1: "uxSchedulerSuspended s + 1 \<noteq> 0" and sh: "same_shape q q2" and un: "undisturbed {} s s2" and n: "n \<noteq> 0"
    and l: "l \<in> {xTasksWaitingToSend q2, xTasksWaitingToReceive q2}"
  obtains s3 q4 s4 q5 s5 q6 s6 y s7 where "vTaskPlaceOnEventList l n s2 = Some s3" "run_isr D i2 (q2, s3) = Some (q4, s4)"
    "prvUnlockQueue (run_isr D i3) (q4, s4) = Some (q5, s5)" "run_isr D i4 (q5, s5) = Some (q6, s6)"
    "xTaskResumeAll s6 = Some (y, s7)" "round_result T D c (q, s) (q6, if \<not> y then portYIELD s7 else s7)"
    "l = xTasksWaitingToReceive q2 \<Longrightarrow> counted (length (filter is_send i2)) (q2, s2) \<Longrightarrow> uxSchedulerSuspended s = 0 \<Longrightarrow>
       (\<forall>v. pxContainer (lists s2) (xEventListItem v) \<noteq> Some (xTasksWaitingToReceive q2)) \<Longrightarrow>
       queue_items q6 \<noteq> [] \<Longrightarrow> is_ready (if \<not> y then portYIELD s7 else s7) c"
proof -
  note inv = queue_invD [OF i]
  have l': "36 < l" "l \<in> D" using l inv(3,4) by (auto simp: wait_list_def)
  obtain s3 where s3: "vTaskPlaceOnEventList l n s2 = Some s3" "kernel_inv T D s3" "frame {c} s2 s3"
    "uxSchedulerSuspended s3 = uxSchedulerSuspended s2"
    "pxContainer (lists s3) = (pxContainer (lists s2))(xEventListItem c := Some l, xStateListItem c := Some (delayed_to s2 n True))"
    using place_on_event_list [OF inv(1) c l' n] by blast
  have i3: "queue_inv T D (q2, s3)" by (rule queue_invI [OF i same_shape_refl(1) inv(2) s3(2)])
  have u3: "uxSchedulerSuspended s3 \<noteq> 0" using s3(4) u u1 by simp
  obtain q4 s4 where r4: "run_isr D i2 (q2, s3) = Some (q4, s4)" "queue_inv T D (q4, s4)" "quiet s3 s4" "same_shape q2 q4"
    by (rule run_isr_ok [OF i3 u3]) blast
  have u4: "uxSchedulerSuspended s4 \<noteq> 0" using u3 quietD(3) [OF r4(3)] by simp
  obtain q5 s5 q6 s6 y s7 where r: "prvUnlockQueue (run_isr D i3) (q4, s4) = Some (q5, s5)" "run_isr D i4 (q5, s5) = Some (q6, s6)"
    "xTaskResumeAll s6 = Some (y, s7)" "queue_inv T D (q6, s7)" "same_shape q4 q6" "undisturbed {} s4 s7"
    "uxSchedulerSuspended s7 = uxSchedulerSuspended s4 - 1" "y \<Longrightarrow> msip_reg s4 \<noteq> None \<Longrightarrow> msip_reg s7 = Some 1"
    "\<And>c. counted 0 (q4, s4) \<Longrightarrow> waits_alone c (q4, s4) \<Longrightarrow> uxSchedulerSuspended s4 = 1 \<Longrightarrow> queue_items q6 \<noteq> [] \<Longrightarrow> is_ready s7 c"
    by (rule round_end [OF r4(2) u4, of i3 i4]) blast
  define s8 where "s8 = (if \<not> y then portYIELD s7 else s7)"
  have un4: "undisturbed {c} s s4"
    by (rule undisturbed_trans [OF undisturbed_trans [OF un undisturbedI(2) [OF s3(3)]] undisturbedI(1) [OF r4(3)]]) auto
  have un7: "undisturbed {c} s s7" by (rule undisturbed_trans [OF un4 r(6)]) simp
  then have un8: "undisturbed {c} s s8" by (auto simp: s8_def undisturbed_def portYIELD_def rv_trigger_soft_interrupt_def
        riscv_trigger_soft_interrupt_def is_ready_def)
  have m: "msip_reg s8 = Some 1" if "msip_reg s \<noteq> None"
  proof -
    have "msip_reg s4 \<noteq> None" "msip_reg s7 \<noteq> None" using that un4 un7 by (simp_all add: undisturbed_def)
    then show ?thesis using r(8) by (auto simp: s8_def portYIELD_def rv_trigger_soft_interrupt_def riscv_trigger_soft_interrupt_def)
  qed
  have k8: "kernel_inv T D s8" using yield_inv queue_invD(1) [OF r(4)] by (simp add: s8_def)
  have "round_result T D c (q, s) (q6, s8)"
    unfolding round_result_def prod.case
  proof (intro conjI disjI2 impI)
    show "queue_inv T D (q6, s8)" by (rule queue_invI [OF r(4) same_shape_refl(1) queue_invD(2) [OF r(4)] k8])
    show "same_shape q q6" by (rule same_shape_trans [OF sh same_shape_trans [OF r4(4) r(5)]])
    show "uxSchedulerSuspended s8 = uxSchedulerSuspended s" using r(7) quietD(3) [OF r4(3)] s3(4) u by (simp add: s8_def)
  qed (rule un8, rule m)
  moreover have "is_ready s8 c" if w: "l = xTasksWaitingToReceive q2" "counted (length (filter is_send i2)) (q2, s2)"
    "uxSchedulerSuspended s = 0" "\<forall>v. pxContainer (lists s2) (xEventListItem v) \<noteq> Some (xTasksWaitingToReceive q2)" "queue_items q6 \<noteq> []"
  proof -
    have "counted 0 (q4, s4)" by (rule counted_run [OF i3 u3 _ r4(1)]) (use w(2) in \<open>simp add: counted_def\<close>)
    moreover have "waits_alone c (q2, s3)" using w(1,4) s3(5) by (simp add: waits_alone_def)
    then have "waits_alone c (q4, s4)" by (rule waits_alone_quiet [OF _ inv(4) r4(3) u3 r4(4)])
    moreover have "uxSchedulerSuspended s4 = 1" using quietD(3) [OF r4(3)] s3(4) u w(3) by simp
    ultimately have "is_ready s7 c" using r(9) w(5) by blast
    then show ?thesis by (simp add: s8_def is_ready_def)
  qed
  ultimately show ?thesis using that [OF s3(1) r4(1) r(1-3)] unfolding s8_def by blast
qed

subsection \<open>The blocking parts\<close>

text \<open>The interrupts between the test and the entry into the list.\<close>

lemma round_before:
  assumes i: "queue_inv T D (q1, s1)" and u: "uxSchedulerSuspended s1 = uxSchedulerSuspended s + 1" "uxSchedulerSuspended s + 1 \<noteq> 0"
    and c: "pxCurrentTCB s1 = Some c" "is_ready s1 c" "pxContainer (lists s1) (xEventListItem c) = None"
    and sh: "same_shape q q1" and un: "undisturbed {} s s1"
  obtains q2 s2 where "run_isr D i1 (q1, s1) = Some (q2, s2)" "queue_inv T D (q2, s2)"
    "uxSchedulerSuspended s2 = uxSchedulerSuspended s + 1" "pxCurrentTCB s2 = Some c" "is_ready s2 c"
    "pxContainer (lists s2) (xEventListItem c) = None" "same_shape q q2" "undisturbed {} s s2"
    "\<And>m. counted (length (filter is_send i1) + m) (q1, s1) \<Longrightarrow> counted m (q2, s2)"
    "(\<forall>v. pxContainer (lists s1) (xEventListItem v) \<noteq> Some (xTasksWaitingToReceive q)) \<Longrightarrow>
      \<forall>v. pxContainer (lists s2) (xEventListItem v) \<noteq> Some (xTasksWaitingToReceive q2)"
proof -
  have un1: "uxSchedulerSuspended s1 \<noteq> 0" using u by simp
  obtain q2 s2 where r: "run_isr D i1 (q1, s1) = Some (q2, s2)" "queue_inv T D (q2, s2)" "quiet s1 s2" "same_shape q1 q2"
    by (rule run_isr_ok [OF i un1]) blast
  note sh2 = same_shape_trans [OF sh r(4)]
  have l: "xTasksWaitingToReceive q2 = xTasksWaitingToReceive q" "36 < xTasksWaitingToReceive q"
    using sh2 queue_invD(4) [OF r(2)] by (simp_all add: same_shape_def wait_list_def)
  have ev: "\<forall>v. pxContainer (lists s2) (xEventListItem v) \<noteq> Some (xTasksWaitingToReceive q2)"
    if "\<forall>v. pxContainer (lists s1) (xEventListItem v) \<noteq> Some (xTasksWaitingToReceive q)"
  proof
    fix v
    show "pxContainer (lists s2) (xEventListItem v) \<noteq> Some (xTasksWaitingToReceive q2)"
      using that quietD(6) [OF r(3), of v] un1 l by (auto simp: event_moved_def)
  qed
  have "uxSchedulerSuspended s2 = uxSchedulerSuspended s + 1" "pxCurrentTCB s2 = Some c" "is_ready s2 c"
    "pxContainer (lists s2) (xEventListItem c) = None"
    using quietD(1,3,5) [OF r(3)] quietD(6) [OF r(3), of c] u c by simp_all
  moreover have "undisturbed {} s s2" by (rule undisturbed_trans [OF un undisturbedI(1) [OF r(3)]]) simp
  ultimately show ?thesis
    by (intro that [OF r(1,2) _ _ _ _ sh2 _ counted_run [OF i un1 _ r(1)] ev]) simp_all
qed

lemma prod3_cases: obtains a b c where "x = (a, b, c)" by (cases x)

lemma receive_block_ok:
  assumes i: "queue_inv T D (q, s)" and c: "pxCurrentTCB s = Some c" "is_ready s c" "pxContainer (lists s) (xEventListItem c) = None"
    and u: "uxSchedulerSuspended s + 1 \<noteq> 0"
  obtains r x' where "receive_block (isr_env D is) to n (q, s) = Some (r, x')" "round_result T D c (q, s) x'"
    "no_reader (q, s) \<Longrightarrow> locked_sends is \<le> 127 \<Longrightarrow> uxSchedulerSuspended s = 0 \<Longrightarrow> queue_items (fst x') \<noteq> [] \<Longrightarrow> is_ready (snd x') c"
proof -
  obtain q1 s1 where r1: "run_isr D (is 0) (prvLockQueue q, vTaskSuspendAll s) = Some (q1, s1)" "queue_inv T D (q1, s1)"
    "uxSchedulerSuspended s1 = uxSchedulerSuspended s + 1" "pxCurrentTCB s1 = Some c" "is_ready s1 c"
    "pxContainer (lists s1) (xEventListItem c) = None" "same_shape q q1" "undisturbed {} s s1"
    "no_reader (q, s) \<Longrightarrow> locked_sends is \<le> 127 \<Longrightarrow>
       counted (length (filter is_send (is 1)) + length (filter is_send (is 2))) (q1, s1) \<and>
       (\<forall>u. pxContainer (lists s1) (xEventListItem u) \<noteq> Some (xTasksWaitingToReceive q))"
    by (rule round_start [OF i c u, of "is"]) blast
  obtain ex to' n' where t: "xTaskCheckForTimeOut s1 to n = (ex, to', n')" by (rule prod3_cases)
  show ?thesis
  proof (cases "ex \<or> \<not> prvIsQueueEmpty q1")
    case True
    obtain q2 s2 q3 s3 y s4 where r2: "prvUnlockQueue (run_isr D (is 3)) (q1, s1) = Some (q2, s2)"
      "run_isr D (is 4) (q2, s2) = Some (q3, s3)" "xTaskResumeAll s3 = Some (y, s4)" "round_result T D c (q, s) (q3, s4)" "is_ready s4 c"
      by (rule round_pass [OF r1(2,5,3) u r1(7,8)]) blast
    have "receive_block (isr_env D is) to n (q, s) =
        Some (if ex \<and> prvIsQueueEmpty q3 then Inl () else Inr (to', n'), q3, s4)"
      using True r1(1) r2(1-3) t by (auto simp: receive_block_def isr_env_def Let_def)
    then show ?thesis by (rule that [OF _ r2(4)]) (simp add: r2(5))
  next
    case False
    then have n': "n' \<noteq> 0" using time_left [of s1 to n to' n'] t by simp
    obtain q2 s2 where r2: "run_isr D (is 1) (q1, s1) = Some (q2, s2)" "queue_inv T D (q2, s2)"
      "uxSchedulerSuspended s2 = uxSchedulerSuspended s + 1" "pxCurrentTCB s2 = Some c" "is_ready s2 c"
      "pxContainer (lists s2) (xEventListItem c) = None" "same_shape q q2" "undisturbed {} s s2"
      "\<And>m. counted (length (filter is_send (is 1)) + m) (q1, s1) \<Longrightarrow> counted m (q2, s2)"
      "(\<forall>v. pxContainer (lists s1) (xEventListItem v) \<noteq> Some (xTasksWaitingToReceive q)) \<Longrightarrow>
        \<forall>v. pxContainer (lists s2) (xEventListItem v) \<noteq> Some (xTasksWaitingToReceive q2)"
      by (rule round_before [OF r1(2,3) u r1(4-8), of "is 1"]) blast
    obtain s3 q4 s4 q5 s5 q6 s6 y s7 where r3: "vTaskPlaceOnEventList (xTasksWaitingToReceive q2) n' s2 = Some s3"
      "run_isr D (is 2) (q2, s3) = Some (q4, s4)" "prvUnlockQueue (run_isr D (is 3)) (q4, s4) = Some (q5, s5)"
      "run_isr D (is 4) (q5, s5) = Some (q6, s6)" "xTaskResumeAll s6 = Some (y, s7)"
      "round_result T D c (q, s) (q6, if \<not> y then portYIELD s7 else s7)"
      "xTasksWaitingToReceive q2 = xTasksWaitingToReceive q2 \<Longrightarrow> counted (length (filter is_send (is 2))) (q2, s2) \<Longrightarrow>
         uxSchedulerSuspended s = 0 \<Longrightarrow>
         (\<forall>v. pxContainer (lists s2) (xEventListItem v) \<noteq> Some (xTasksWaitingToReceive q2)) \<Longrightarrow>
         queue_items q6 \<noteq> [] \<Longrightarrow> is_ready (if \<not> y then portYIELD s7 else s7) c"
      by (rule round_wait [OF r2(2,4-6,3) u r2(7,8) n', of "xTasksWaitingToReceive q2" "is 2" "is 3" "is 4"]) simp_all
    have "receive_block (isr_env D is) to n (q, s) = Some (Inr (to', n'), q6, if \<not> y then portYIELD s7 else s7)"
      using False r1(1) r2(1) r3(1-5) t by (auto simp: receive_block_def isr_env_def Let_def)
    then show ?thesis
    proof (rule that [OF _ r3(6)])
      assume a: "no_reader (q, s)" "locked_sends is \<le> 127" "uxSchedulerSuspended s = 0"
        "queue_items (fst (q6, if \<not> y then portYIELD s7 else s7)) \<noteq> []"
      note w = r1(9) [OF a(1,2)]
      have "is_ready (if \<not> y then portYIELD s7 else s7) c"
        by (rule r3(7)) (use w r2(9,10) a(3,4) in auto)
      then show "is_ready (snd (q6, if \<not> y then portYIELD s7 else s7)) c" by simp
    qed
  qed
qed

lemma send_block_ok:
  assumes i: "queue_inv T D (q, s)" and c: "pxCurrentTCB s = Some c" "is_ready s c" "pxContainer (lists s) (xEventListItem c) = None"
    and u: "uxSchedulerSuspended s + 1 \<noteq> 0"
  obtains r x' where "send_block (isr_env D is) to n (q, s) = Some (r, x')" "round_result T D c (q, s) x'"
proof -
  obtain q1 s1 where r1: "run_isr D (is 0) (prvLockQueue q, vTaskSuspendAll s) = Some (q1, s1)" "queue_inv T D (q1, s1)"
    "uxSchedulerSuspended s1 = uxSchedulerSuspended s + 1" "pxCurrentTCB s1 = Some c" "is_ready s1 c"
    "pxContainer (lists s1) (xEventListItem c) = None" "same_shape q q1" "undisturbed {} s s1"
    by (rule round_start [OF i c u, of "is"]) blast
  obtain ex to' n' where t: "xTaskCheckForTimeOut s1 to n = (ex, to', n')" by (rule prod3_cases)
  show ?thesis
  proof (cases "ex \<or> \<not> prvIsQueueFull q1")
    case True
    obtain q2 s2 q3 s3 y s4 where r2: "prvUnlockQueue (run_isr D (is 3)) (q1, s1) = Some (q2, s2)"
      "run_isr D (is 4) (q2, s2) = Some (q3, s3)" "xTaskResumeAll s3 = Some (y, s4)" "round_result T D c (q, s) (q3, s4)" "is_ready s4 c"
      by (rule round_pass [OF r1(2,5,3) u r1(7,8)]) blast
    have "send_block (isr_env D is) to n (q, s) = Some (if ex then Inl False else Inr (to', n'), q3, s4)"
      using True r1(1) r2(1-3) t by (auto simp: send_block_def isr_env_def Let_def)
    then show ?thesis by (rule that [OF _ r2(4)])
  next
    case False
    then have n': "n' \<noteq> 0" using time_left [of s1 to n to' n'] t by simp
    obtain q2 s2 where r2: "run_isr D (is 1) (q1, s1) = Some (q2, s2)" "queue_inv T D (q2, s2)"
      "uxSchedulerSuspended s2 = uxSchedulerSuspended s + 1" "pxCurrentTCB s2 = Some c" "is_ready s2 c"
      "pxContainer (lists s2) (xEventListItem c) = None" "same_shape q q2" "undisturbed {} s s2"
      by (rule round_before [OF r1(2,3) u r1(4-8), of "is 1"]) blast
    obtain s3 q4 s4 q5 s5 q6 s6 y s7 where r3: "vTaskPlaceOnEventList (xTasksWaitingToSend q2) n' s2 = Some s3"
      "run_isr D (is 2) (q2, s3) = Some (q4, s4)" "prvUnlockQueue (run_isr D (is 3)) (q4, s4) = Some (q5, s5)"
      "run_isr D (is 4) (q5, s5) = Some (q6, s6)" "xTaskResumeAll s6 = Some (y, s7)"
      "round_result T D c (q, s) (q6, if \<not> y then portYIELD s7 else s7)"
      by (rule round_wait [OF r2(2,4-6,3) u r2(7,8) n', of "xTasksWaitingToSend q2" "is 2" "is 3" "is 4"]) simp_all
    have "send_block (isr_env D is) to n (q, s) = Some (Inr (to', n'), q6, if \<not> y then portYIELD s7 else s7)"
      using False r1(1) r2(1) r3(1-5) t by (auto simp: send_block_def isr_env_def Let_def)
    then show ?thesis by (rule that [OF _ r3(6)])
  qed
qed

end
