(* ===== verification/Queue_System.thy ===== *)
theory Queue_System
  imports Queue_Wait
begin

text \<open>
  The scheduler with a queue, and with a recursive mutex: the operations of the queue run between
  the calls and interrupts of the scheduler, in any order.
\<close>

subsection \<open>A queue among the calls of the kernel\<close>

text \<open>
  A blocking call is the sequence of its steps: the attempt, the suspension of the scheduler and the
  lock, the entry into the event list, unlocking, resumption. They are single calls here, so that
  everything may come between them.
\<close>

datatype qcall =
    Kernel call
  | Send "u8 list" position u64 "TimeOut_t option" | Receive u64 "TimeOut_t option" | Peek u64 "TimeOut_t option"
  | SendFromISR "u8 list" position | ReceiveFromISR | PeekFromISR
  | Lock | UnlockTx | UnlockRx | Reset

datatype qresult = Done | Sent bool | Got "u8 list option" | Waits

type_synonym qsystem = "(nat set \<times> kernel) \<times> Queue_t"

definition sent :: "bool + TimeOut_t \<Rightarrow> qresult" where
  "sent r = (case r of Inl b \<Rightarrow> Sent b | Inr _ \<Rightarrow> Waits)"

definition got :: "u8 list option + TimeOut_t \<Rightarrow> qresult" where
  "got r = (case r of Inl v \<Rightarrow> Got v | Inr _ \<Rightarrow> Waits)"

fun exec_qcall :: "nat \<Rightarrow> qcall \<Rightarrow> qsystem \<Rightarrow> (qresult \<times> qsystem) option" where
  "exec_qcall idle (Kernel c) (x, q) = map_option (\<lambda>x. (Done, x, q)) (exec_call idle c x)"
| "exec_qcall idle (Send item pos n ent) ((T, s), q) =
     map_option (\<lambda>(r, q, s). (sent r, (T, s), q)) (send_enter item pos n ent (q, s))"
| "exec_qcall idle (Receive n ent) ((T, s), q) =
     map_option (\<lambda>(r, q, s). (got r, (T, s), q)) (receive_enter n ent (q, s))"
| "exec_qcall idle (Peek n ent) ((T, s), q) =
     map_option (\<lambda>(r, q, s). (got r, (T, s), q)) (peek_enter n ent (q, s))"
| "exec_qcall idle (SendFromISR item pos) ((T, s), q) =
     map_option (\<lambda>(b, _, q, s). (Sent b, (T, s), q)) (xQueueGenericSendFromISR item pos (q, s))"
| "exec_qcall idle ReceiveFromISR ((T, s), q) =
     map_option (\<lambda>(v, _, q, s). (Got v, (T, s), q)) (xQueueReceiveFromISR (q, s))"
| "exec_qcall idle PeekFromISR (x, q) = map_option (\<lambda>(v, q). (Got v, x, q)) (xQueuePeekFromISR q)"
| "exec_qcall idle Lock (x, q) = Some (Done, x, prvLockQueue q)"
| "exec_qcall idle UnlockTx ((T, s), q) = map_option (\<lambda>(q, s). (Done, (T, s), q)) (unlock_tx (q, s))"
| "exec_qcall idle UnlockRx ((T, s), q) = map_option (\<lambda>(q, s). (Done, (T, s), q)) (unlock_rx (q, s))"
| "exec_qcall idle Reset ((T, s), q) = map_option (\<lambda>(_, q, s). (Done, (T, s), q)) (xQueueGenericReset False (q, s))"

fun enabled_qcall :: "nat \<Rightarrow> nat set \<Rightarrow> qcall \<Rightarrow> qsystem \<Rightarrow> bool" where
  "enabled_qcall idle D (Kernel c) (x, q) = enabled_call idle D c x"
| "enabled_qcall idle D (Send item pos n ent) ((T, s), q) = (active s \<and> send_fits item pos q)"
| "enabled_qcall idle D (Receive n ent) ((T, s), q) = active s"
| "enabled_qcall idle D (Peek n ent) ((T, s), q) = active s"
| "enabled_qcall idle D (SendFromISR item pos) ((T, s), q) = send_fits item pos q"
| "enabled_qcall idle D ReceiveFromISR (x, q) = True"
| "enabled_qcall idle D PeekFromISR (x, q) = True"
| "enabled_qcall idle D Lock ((T, s), q) = (uxSchedulerSuspended s \<noteq> 0)"
| "enabled_qcall idle D UnlockTx ((T, s), q) = (uxSchedulerSuspended s \<noteq> 0)"
| "enabled_qcall idle D UnlockRx ((T, s), q) = (uxSchedulerSuspended s \<noteq> 0)"
| "enabled_qcall idle D Reset ((T, s), q) = active s"

text \<open>The contract of a queue: a list of at most \<open>cap\<close> items with two ends.\<close>

fun deque_call :: "nat \<Rightarrow> qcall \<Rightarrow> u8 list list \<Rightarrow> qresult \<times> u8 list list" where
  "deque_call cap (Send item pos n ent) xs =
     (if length xs < cap \<or> pos = queueOVERWRITE then (Sent True, enq pos item xs) else (if n = 0 then Sent False else Waits, xs))"
| "deque_call cap (SendFromISR item pos) xs =
     (if length xs < cap \<or> pos = queueOVERWRITE then (Sent True, enq pos item xs) else (Sent False, xs))"
| "deque_call cap (Receive n ent) xs =
     (case xs of [] \<Rightarrow> (if n = 0 then Got None else Waits, []) | x # xs \<Rightarrow> (Got (Some x), xs))"
| "deque_call cap ReceiveFromISR xs = (case xs of [] \<Rightarrow> (Got None, []) | x # xs \<Rightarrow> (Got (Some x), xs))"
| "deque_call cap (Peek n ent) xs =
     (case xs of [] \<Rightarrow> (if n = 0 then Got None else Waits, []) | x # _ \<Rightarrow> (Got (Some x), xs))"
| "deque_call cap PeekFromISR xs = (case xs of [] \<Rightarrow> (Got None, []) | x # _ \<Rightarrow> (Got (Some x), xs))"
| "deque_call cap Reset xs = (Done, [])"
| "deque_call cap _ xs = (Done, xs)"

definition qsystem_inv :: "nat \<Rightarrow> nat set \<Rightarrow> qsystem \<Rightarrow> bool" where
  "qsystem_inv idle D = (\<lambda>(x, q). system_inv idle D x \<and> data_queue q \<and> wait_list D (xTasksWaitingToSend q) \<and>
     wait_list D (xTasksWaitingToReceive q))"

text \<open>A call returns, keeps the invariant and does what the contract says.\<close>

definition qcall_ok :: "nat \<Rightarrow> nat set \<Rightarrow> qcall \<Rightarrow> qsystem \<Rightarrow> bool" where
  "qcall_ok idle D c y \<longleftrightarrow> (\<exists>r y'. exec_qcall idle c y = Some (r, y') \<and> qsystem_inv idle D y' \<and> same_shape (snd y) (snd y') \<and>
     deque_call (unat (uxLength (snd y))) c (queue_items (snd y)) = (r, queue_items (snd y')))"

lemma qsystem_wakes:
  assumes i: "qsystem_inv idle D ((T, s), q)" and k: "queue_inv T D (q', s')" and w: "wakes s s'"
  shows "qsystem_inv idle D ((T, s'), q')"
proof -
  have "system_inv idle D (T, s')"
    by (rule system_keep [OF _ queue_invD(1) [OF k] wakesD(1,2) [OF w]]) (use i in \<open>simp add: qsystem_inv_def\<close>)
  then show ?thesis using queue_invD(2-4) [OF k] by (simp add: qsystem_inv_def)
qed

lemma qsystem_queue: "qsystem_inv idle D ((T, s), q) \<Longrightarrow> queue_inv T D (q, s)"
  using system_kernel by (auto simp: qsystem_inv_def queue_inv_def)

lemma reset_data:
  assumes "data_queue q"
  shows "data_queue (q\<lparr>pcTail := Address (pcHead q + uxLength q * uxItemSize q), uxMessagesWaiting := 0, pcWriteTo := pcHead q,
      pcReadFrom := pcHead q + (uxLength q - 1) * uxItemSize q, cRxLock := a, cTxLock := b\<rparr>)" (is "data_queue ?q")
    "queue_items (q\<lparr>pcTail := Address (pcHead q + uxLength q * uxItemSize q), uxMessagesWaiting := 0, pcWriteTo := pcHead q,
      pcReadFrom := pcHead q + (uxLength q - 1) * uxItemSize q, cRxLock := a, cTxLock := b\<rparr>) = []"
proof -
  obtain r where r: "data_queue_at r q" using assms by (auto simp: data_queue_def)
  note f = data_queue_atD [OF r]
  have "1 \<le> uxLength q" using f(7) by (simp add: word_le_nat_alt)
  then have L: "unat (uxLength q) - 1 < unat (uxLength q)" "of_nat (unat (uxLength q) - 1) = uxLength q - 1"
    using f(7) by (simp_all add: of_nat_diff)
  have "data_queue_at (unat (uxLength q) - 1) ?q"
    using f L by (simp add: data_queue_at_def Let_def)
  then show "data_queue ?q" by (auto simp: data_queue_def)
  show "queue_items ?q = []" by (simp add: queue_items_def items_at_def)
qed

lemma qcall_returns:
  assumes i: "qsystem_inv idle D y" and e: "enabled_qcall idle D c y"
  shows "qcall_ok idle D c y"
proof -
  obtain T s q where y: "y = ((T, s), q)" by (metis prod.collapse)
  note i = i [unfolded y] and e = e [unfolded y]
  note qi = qsystem_queue [OF i]
  note inv = queue_invD [OF qi]
  have sys: "system_inv idle D (T, s)" using i by (simp add: qsystem_inv_def)
  show ?thesis
  proof (cases c)
    case (Kernel k)
    then show ?thesis using enabled_call_ok [OF sys, of k] e i y by (auto simp: qcall_ok_def call_ok_def qsystem_inv_def)
  next
    case (Send item pos n ent)
    obtain r q' s' where r: "send_enter item pos n ent (q, s) = Some (r, q', s')" "queue_inv T D (q', s')" "wakes s s'"
      "same_shape q q'"
      "has_room pos q \<Longrightarrow> r = Inl True \<and> queue_items q' = enq pos item (queue_items q) \<and>
         first_released T (xTasksWaitingToReceive q) s s'"
      "\<not> has_room pos q \<Longrightarrow> q' = q \<and> s' = s \<and>
         r = (if n = 0 then Inl False else Inr (case ent of None \<Rightarrow> vTaskInternalSetTimeOutState s | Some to \<Rightarrow> to))"
      by (rule send_enter_ok [OF qi, of item pos n ent]) (use e Send in simp, blast)
    have "deque_call (unat (uxLength q)) c (queue_items q) = (sent r, queue_items q')"
      using r(5,6) Send by (cases "has_room pos q") (simp_all add: has_room_def sent_def del: items_length)
    then show ?thesis using r(1,4) qsystem_wakes [OF i r(2,3)] by (simp add: qcall_ok_def y Send)
  next
    case (SendFromISR item pos)
    obtain w q' s' where r: "xQueueGenericSendFromISR item pos (q, s) = Some (has_room pos q, w, q', s')" "queue_inv T D (q', s')"
      "wakes s s'" "same_shape q q'"
      "queue_items q' = (if has_room pos q then enq pos item (queue_items q) else queue_items q)"
      by (rule send_isr_ok [OF qi, of item pos]) (use e SendFromISR in simp, blast)
    have "deque_call (unat (uxLength q)) c (queue_items q) = (Sent (has_room pos q), queue_items q')"
      using r(5) SendFromISR by (simp add: has_room_def del: items_length)
    then show ?thesis using r(1,4) qsystem_wakes [OF i r(2,3)] by (simp add: qcall_ok_def y SendFromISR)
  next
    case (Receive n ent)
    obtain r q' s' where r: "receive_enter n ent (q, s) = Some (r, q', s')" "queue_inv T D (q', s')" "wakes s s'" "same_shape q q'"
      "queue_items q \<noteq> [] \<Longrightarrow> r = Inl (Some (hd (queue_items q))) \<and> queue_items q' = tl (queue_items q) \<and>
         first_released T (xTasksWaitingToSend q) s s'"
      "queue_items q = [] \<Longrightarrow> q' = q \<and> s' = s \<and>
         r = (if n = 0 then Inl None else Inr (case ent of None \<Rightarrow> vTaskInternalSetTimeOutState s | Some to \<Rightarrow> to))"
      by (rule receive_enter_ok [OF qi, of n ent]) blast
    have "deque_call (unat (uxLength q)) c (queue_items q) = (got r, queue_items q')"
      using r(5,6) Receive by (cases "queue_items q") (simp_all add: got_def)
    then show ?thesis using r(1,4) qsystem_wakes [OF i r(2,3)] by (simp add: qcall_ok_def y Receive)
  next
    case ReceiveFromISR
    obtain w q' s' where r: "xQueueReceiveFromISR (q, s) =
        Some (if queue_items q = [] then None else Some (hd (queue_items q)), w, q', s')" "queue_inv T D (q', s')"
      "wakes s s'" "same_shape q q'" "queue_items q' = tl (queue_items q)"
      by (rule receive_isr_ok [OF qi]) blast
    have "deque_call (unat (uxLength q)) c (queue_items q) =
        (Got (if queue_items q = [] then None else Some (hd (queue_items q))), queue_items q')"
      using r(5) ReceiveFromISR by (cases "queue_items q") simp_all
    then show ?thesis using r(1,4) qsystem_wakes [OF i r(2,3)] by (simp add: qcall_ok_def y ReceiveFromISR)
  next
    case (Peek n ent)
    obtain r s' where r: "peek_enter n ent (q, s) = Some (r, q, s')" "queue_inv T D (q, s')" "wakes s s'"
      "queue_items q \<noteq> [] \<Longrightarrow> r = Inl (Some (hd (queue_items q)))"
      "queue_items q = [] \<Longrightarrow> s' = s \<and>
         r = (if n = 0 then Inl None else Inr (case ent of None \<Rightarrow> vTaskInternalSetTimeOutState s | Some to \<Rightarrow> to))"
      by (rule peek_enter_ok [OF qi, of n ent]) blast
    have "deque_call (unat (uxLength q)) c (queue_items q) = (got r, queue_items q)"
      using r(4,5) Peek by (cases "queue_items q") (simp_all add: got_def)
    then show ?thesis using r(1) qsystem_wakes [OF i r(2,3)] by (simp add: qcall_ok_def y Peek)
  next
    case PeekFromISR
    have "deque_call (unat (uxLength q)) c (queue_items q) =
        (Got (if queue_items q = [] then None else Some (hd (queue_items q))), queue_items q)"
      using PeekFromISR by (cases "queue_items q") simp_all
    then show ?thesis using i peek_isr_ok [OF inv(2)] by (simp add: qcall_ok_def y PeekFromISR)
  next
    case Lock
    have "qsystem_inv idle D ((T, s), prvLockQueue q)"
      using i by (simp add: qsystem_inv_def prvLockQueue_def Let_def)
    then show ?thesis by (simp add: qcall_ok_def y Lock)
  next
    case UnlockTx
    obtain s1 where s1: "unlock_loop (xTasksWaitingToReceive q) (nat (sint (cTxLock q))) s = Some s1" "kernel_inv T D s1" "wakes s s1"
      using unlock_loop_ok [OF inv(1,4), of "nat (sint (cTxLock q))"] by blast
    have "queue_inv T D (q\<lparr>cTxLock := queueUNLOCKED\<rparr>, s1)" by (rule queue_invI [OF qi _ _ s1(2)]) (simp_all add: inv(2))
    then show ?thesis using s1(1) qsystem_wakes [OF i _ s1(3)] by (simp add: qcall_ok_def y UnlockTx unlock_tx_def)
  next
    case UnlockRx
    obtain s1 where s1: "unlock_loop (xTasksWaitingToSend q) (nat (sint (cRxLock q))) s = Some s1" "kernel_inv T D s1" "wakes s s1"
      using unlock_loop_ok [OF inv(1,3), of "nat (sint (cRxLock q))"] by blast
    have "queue_inv T D (q\<lparr>cRxLock := queueUNLOCKED\<rparr>, s1)" by (rule queue_invI [OF qi _ _ s1(2)]) (simp_all add: inv(2))
    then show ?thesis using s1(1) qsystem_wakes [OF i _ s1(3)] by (simp add: qcall_ok_def y UnlockRx unlock_rx_def)
  next
    case Reset
    define q' where "q' = q\<lparr>pcTail := Address (pcHead q + uxLength q * uxItemSize q), uxMessagesWaiting := 0, pcWriteTo := pcHead q,
      pcReadFrom := pcHead q + (uxLength q - 1) * uxItemSize q, cRxLock := queueUNLOCKED, cTxLock := queueUNLOCKED\<rparr>"
    have q': "data_queue q'" "queue_items q' = []" unfolding q'_def by (rule reset_data [OF inv(2)])+
    have sh: "same_shape q q'" by (simp add: same_shape_def q'_def)
    obtain s' where s': "wake_and_yield (xTasksWaitingToSend q) s = Some s'" "kernel_inv T D s'" "wakes s s'"
      by (rule wake_and_yield_ok [OF inv(1,3)]) blast
    have "xQueueGenericReset False (q, s) = Some (True, q', s')" using s'(1) by (simp add: xQueueGenericReset_def Let_def q'_def)
    then show ?thesis using qsystem_wakes [OF i queue_invI [OF qi sh q'(1) s'(2)] s'(3)] sh q'(2) by (simp add: qcall_ok_def y Reset)
  qed
qed

interpretation qsched: call_system "enabled_qcall idle D" "\<lambda>c y. map_option snd (exec_qcall idle c y)" "qsystem_inv idle D" for idle D
proof
  fix y y' c
  assume a: "qsystem_inv idle D y" "enabled_qcall idle D c y"
  note ok = qcall_returns [OF a, unfolded qcall_ok_def]
  show "map_option snd (exec_qcall idle c y) \<noteq> None" using ok by auto
  show "qsystem_inv idle D y'" if "map_option snd (exec_qcall idle c y) = Some y'" using ok that by auto
qed

text \<open>A run with its results.\<close>

fun run_qcalls :: "nat \<Rightarrow> nat set \<Rightarrow> qcall list \<Rightarrow> qsystem \<Rightarrow> (qresult list \<times> qsystem) option" where
  "run_qcalls idle D [] y = Some ([], y)"
| "run_qcalls idle D (c # cs) y =
     (if enabled_qcall idle D c y then do {
        (r, y) \<leftarrow> exec_qcall idle c y;
        (rs, y) \<leftarrow> run_qcalls idle D cs y;
        Some (r # rs, y) }
      else None)"

fun run_deque :: "nat \<Rightarrow> qcall list \<Rightarrow> u8 list list \<Rightarrow> qresult list \<times> u8 list list" where
  "run_deque cap [] xs = ([], xs)"
| "run_deque cap (c # cs) xs = (let (r, xs) = deque_call cap c xs; (rs, xs) = run_deque cap cs xs in (r # rs, xs))"

lemma run_qcalls_ok:
  "qsystem_inv idle D y \<Longrightarrow> run_qcalls idle D cs y = Some (rs, y') \<Longrightarrow>
    qsystem_inv idle D y' \<and> run_deque (unat (uxLength (snd y))) cs (queue_items (snd y)) = (rs, queue_items (snd y'))"
proof (induction cs arbitrary: y rs)
  case (Cons c cs)
  have e: "enabled_qcall idle D c y" using Cons.prems(2) by (simp split: if_splits)
  obtain r y1 where r: "exec_qcall idle c y = Some (r, y1)" "qsystem_inv idle D y1" "same_shape (snd y) (snd y1)"
    "deque_call (unat (uxLength (snd y))) c (queue_items (snd y)) = (r, queue_items (snd y1))"
    using qcall_returns [OF Cons.prems(1) e] unfolding qcall_ok_def by blast
  obtain rs1 where rs: "run_qcalls idle D cs y1 = Some (rs1, y')" "rs = r # rs1"
    using Cons.prems(2) r(1) e by (auto simp: bind_eq_Some_conv)
  show ?case using Cons.IH [OF r(2) rs(1)] r(3,4) rs(2) by (simp add: same_shape_def)
qed simp

end
