(* ===== verification/Queue_Mutex.thy ===== *)
theory Queue_Mutex
  imports Queue_Kernel
begin

text \<open>
  A recursive mutex among the calls of the scheduler: it refines an owner and a depth, and at most
  one task owns it.
\<close>

datatype mcall = MKernel call | MTake u64 | MGive

datatype mresult = MDone | MOk bool | MWaits

type_synonym msystem = "(nat set \<times> kernel) \<times> Queue_t"

definition taken :: "bool option \<Rightarrow> mresult" where
  "taken r = (case r of None \<Rightarrow> MWaits | Some b \<Rightarrow> MOk b)"

fun exec_mcall :: "nat \<Rightarrow> mcall \<Rightarrow> msystem \<Rightarrow> (mresult \<times> msystem) option" where
  "exec_mcall idle (MKernel c) (x, q) = map_option (\<lambda>x. (MDone, x, q)) (exec_call idle c x)"
| "exec_mcall idle (MTake n) ((T, s), q) =
     map_option (\<lambda>(r, q, s). (taken r, (T, s), q)) (xQueueTakeMutexRecursive [] n (q, s))"
| "exec_mcall idle MGive ((T, s), q) =
     map_option (\<lambda>(b, q, s). (MOk b, (T, s), q)) (xQueueGiveMutexRecursive (q, s))"

fun enabled_mcall :: "nat \<Rightarrow> nat set \<Rightarrow> mcall \<Rightarrow> msystem \<Rightarrow> bool" where
  "enabled_mcall idle D (MKernel c) (x, q) = enabled_call idle D c x"
| "enabled_mcall idle D (MTake n) ((T, s), q) = active s"
| "enabled_mcall idle D MGive ((T, s), q) = active s"

text \<open>The contract: an owner with the number of its takes. \<open>cur\<close> is the task that calls.\<close>

type_synonym owner = "(nat \<times> u64) option"

fun owner_call :: "nat option \<Rightarrow> mcall \<Rightarrow> owner \<Rightarrow> mresult \<times> owner" where
  "owner_call cur (MKernel c) w = (MDone, w)"
| "owner_call cur (MTake n) w = (case w of
     None \<Rightarrow> (MOk True, map_option (\<lambda>c. (c, 1)) cur)
   | Some (t, d) \<Rightarrow> if cur = Some t then (MOk True, Some (t, d + 1)) else (if n = 0 then MOk False else MWaits, w))"
| "owner_call cur MGive w = (case w of
     None \<Rightarrow> (MOk False, w)
   | Some (t, d) \<Rightarrow> if cur = Some t then (MOk True, if d = 1 then None else Some (t, d - 1)) else (MOk False, w))"

definition mutex_of :: "owner \<Rightarrow> Queue_t \<Rightarrow> bool" where
  "mutex_of w q \<longleftrightarrow> uxItemSize q = 0 \<and> pcHead q = 0 \<and> uxLength q = 1 \<and>
     (case w of None \<Rightarrow> pcTail q = Holder None \<and> uxMessagesWaiting q = 1 \<and> pcReadFrom q = 0
      | Some (t, d) \<Rightarrow> pcTail q = Holder (Some t) \<and> uxMessagesWaiting q = 0 \<and> pcReadFrom q = d)"

definition msystem_inv :: "nat \<Rightarrow> nat set \<Rightarrow> owner \<Rightarrow> msystem \<Rightarrow> bool" where
  "msystem_inv idle D w = (\<lambda>(x, q). system_inv idle D x \<and> mutex_of w q \<and> wait_list D (xTasksWaitingToSend q) \<and>
     wait_list D (xTasksWaitingToReceive q))"

definition current_of :: "msystem \<Rightarrow> nat option" where
  "current_of = (\<lambda>((T, s), q). pxCurrentTCB s)"

definition mcall_ok :: "nat \<Rightarrow> nat set \<Rightarrow> mcall \<Rightarrow> owner \<Rightarrow> msystem \<Rightarrow> bool" where
  "mcall_ok idle D c w y \<longleftrightarrow> (\<exists>r y'. exec_mcall idle c y = Some (r, y') \<and>
     (let (r', w') = owner_call (current_of y) c w in r = r' \<and> msystem_inv idle D w' y'))"

lemma held_by_current_iff:
  "mutex_of w q \<Longrightarrow> held_by_current (q, s) \<longleftrightarrow> (case w of None \<Rightarrow> pxCurrentTCB s = None | Some (t, d) \<Rightarrow> pxCurrentTCB s = Some t)"
  by (auto simp: mutex_of_def held_by_current_def split: option.splits)

text \<open>Taking the free mutex.\<close>

lemma take_free:
  assumes k: "kernel_inv T D s" and c: "pxCurrentTCB s = Some c" and m: "mutex_of None q"
    and l: "wait_list D (xTasksWaitingToSend q)"
  obtains s' where "take_enter n ent (q, s) = Some (Inl True, q\<lparr>uxMessagesWaiting := 0, pcTail := Holder (Some c)\<rparr>, s')"
    "kernel_inv T D s'" "frame {} s s'" "uxSchedulerSuspended s' = uxSchedulerSuspended s"
proof -
  define s1 where "s1 = set_tcb c (\<lambda>c. c\<lparr>uxMutexesHeld := uxMutexesHeld c + 1\<rparr>) s"
  have k1: "kernel_inv T D s1" unfolding s1_def by (rule inv_step [OF kinv_tcb_other [OF inv_kinv [OF k]]]) simp_all
  have f1: "frame {} s s1" "uxSchedulerSuspended s1 = uxSchedulerSuspended s"
    by (auto simp: s1_def is_ready_def intro!: frame_same)
  obtain s' where s': "wake_and_yield (xTasksWaitingToSend q) s1 = Some s'" "kernel_inv T D s'" "wakes s1 s'"
    by (rule wake_and_yield_ok [OF k1 l]) blast
  have "take_enter n ent (q, s) = Some (Inl True, q\<lparr>uxMessagesWaiting := 0, pcTail := Holder (Some c)\<rparr>, s')"
    using m c s'(1) by (simp add: take_enter_def mutex_of_def queue_is_mutex_def pvTaskIncrementMutexHeldCount_def s1_def)
  then show ?thesis
    by (rule that [OF _ s'(2) frame_trans [OF f1(1) wakesD(1) [OF s'(3)]]]) (use f1(2) wakesD(2) [OF s'(3)] in simp_all)
qed

text \<open>Giving it back: the holder is the running task.\<close>

lemma give_held:
  assumes k: "kernel_inv T D s" and c: "pxCurrentTCB s = Some c" "is_ready s c"
    and m: "uxItemSize q = 0" "pcHead q = 0" "uxLength q = 1" "pcTail q = Holder (Some c)" "uxMessagesWaiting q = 0"
    and l: "wait_list D (xTasksWaitingToReceive q)"
  obtains s' where "xQueueGenericSend [] [] 0 queueSEND_TO_BACK (q, s) =
      Some (Some True, q\<lparr>pcTail := Holder None, uxMessagesWaiting := 1\<rparr>, s')"
    "kernel_inv T D s'" "frame {} s s'" "uxSchedulerSuspended s' = uxSchedulerSuspended s"
proof -
  have cT: "c \<in> T" using k c(1) by (auto simp: kernel_inv_def)
  obtain b s1 where s1: "xTaskPriorityDisinherit (Some c) s = Some (b, s1)" "kernel_inv T D s1" "frame {} s s1"
    "uxSchedulerSuspended s1 = uxSchedulerSuspended s"
    using priority_disinherit [OF k cT c(2)] by blast
  let ?q = "q\<lparr>pcTail := Holder None, uxMessagesWaiting := 1\<rparr>"
  have copy: "prvCopyDataToQueue [] queueSEND_TO_BACK (q, s) = Some (b, ?q, s1)"
    using m s1(1) by (simp add: prvCopyDataToQueue_def queue_is_mutex_def queue_holder_def)
  obtain s2 where s2: "wake_and_yield (xTasksWaitingToReceive q) s1 = Some s2" "kernel_inv T D s2" "wakes s1 s2"
    by (rule wake_and_yield_ok [OF s1(2) l]) blast
  define s3 where "s3 = (if \<not> listLIST_IS_EMPTY (lists s1) (xTasksWaitingToReceive q) then s2 else if b then portYIELD s1 else s1)"
  have "send_enter [] queueSEND_TO_BACK 0 None (q, s) = Some (Inl True, ?q, s3)"
    using m copy s2(1) by (simp add: send_enter_def s3_def)
  then have run: "xQueueGenericSend [] [] 0 queueSEND_TO_BACK (q, s) = Some (Some True, ?q, s3)"
    by (simp add: xQueueGenericSend_def send_loop.simps)
  have "kernel_inv T D s3" using s1(2) s2(2) yield_inv [OF s1(2)] by (simp add: s3_def)
  moreover have "frame {} s1 s3" using wakesD(1) [OF s2(3)] frame_yield [of "{}" s1] by (simp add: s3_def)
  moreover have "uxSchedulerSuspended s3 = uxSchedulerSuspended s" using s1(4) wakesD(2) [OF s2(3)] by (simp add: s3_def)
  ultimately show ?thesis using that [OF run] frame_trans [OF s1(3), of "{}" s3 "{}"] by simp
qed

lemma mcall_returns:
  assumes i: "msystem_inv idle D w y" and e: "enabled_mcall idle D c y"
  shows "mcall_ok idle D c w y"
proof -
  obtain T s q where y: "y = ((T, s), q)" by (metis prod.collapse)
  note i = i [unfolded y] and e = e [unfolded y]
  have sys: "system_inv idle D (T, s)" and m: "mutex_of w q" and l: "wait_list D (xTasksWaitingToSend q)"
    "wait_list D (xTasksWaitingToReceive q)" using i by (simp_all add: msystem_inv_def)
  note k = system_kernel [OF sys]
  have keep: "msystem_inv idle D w' ((T, s'), q')"
    if "kernel_inv T D s'" "frame {} s s'" "uxSchedulerSuspended s' = uxSchedulerSuspended s" "mutex_of w' q'"
      "xTasksWaitingToSend q' = xTasksWaitingToSend q" "xTasksWaitingToReceive q' = xTasksWaitingToReceive q" for w' s' q'
    using system_keep [OF sys that(1-3)] that(4-6) l by (simp add: msystem_inv_def)
  note same = keep [OF k frame_refl refl]
  show ?thesis
  proof (cases c)
    case (MKernel x)
    then show ?thesis using enabled_call_ok [OF sys, of x] e i y by (auto simp: mcall_ok_def call_ok_def msystem_inv_def)
  next
    case (MTake n)
    obtain cur where cur: "pxCurrentTCB s = Some cur" "is_ready s cur" by (rule activeE) (use e MTake in simp)
    show ?thesis
    proof (cases w)
      case None
      obtain s' where s': "take_enter n None (q, s) = Some (Inl True, q\<lparr>uxMessagesWaiting := 0, pcTail := Holder (Some cur)\<rparr>, s')"
        "kernel_inv T D s'" "frame {} s s'" "uxSchedulerSuspended s' = uxSchedulerSuspended s"
        by (rule take_free [OF k cur(1) m [unfolded None] l(1)]) blast
      define q' where "q' = q\<lparr>uxMessagesWaiting := 0, pcTail := Holder (Some cur), pcReadFrom := 1\<rparr>"
      have "xQueueTakeMutexRecursive [] n (q, s) = Some (Some True, q', s')"
        using m None s'(1) cur(1) held_by_current_iff [OF m, of s]
        by (simp add: xQueueTakeMutexRecursive_def xQueueSemaphoreTake_def take_loop.simps q'_def mutex_of_def)
      moreover have "msystem_inv idle D (Some (cur, 1)) ((T, s'), q')"
        by (rule keep [OF s'(2-4)]) (use m None in \<open>simp_all add: mutex_of_def q'_def\<close>)
      ultimately show ?thesis using None cur(1) by (simp add: mcall_ok_def y MTake current_of_def taken_def)
    next
      case (Some td)
      obtain t d where td: "td = (t, d)" by (cases td)
      show ?thesis
      proof (cases "cur = t")
        case True
        define q' where "q' = q\<lparr>pcReadFrom := d + 1\<rparr>"
        have "xQueueTakeMutexRecursive [] n (q, s) = Some (Some True, q', s)"
          using m Some td True cur(1) held_by_current_iff [OF m, of s] by (simp add: xQueueTakeMutexRecursive_def q'_def mutex_of_def)
        moreover have "msystem_inv idle D (Some (t, d + 1)) ((T, s), q')"
          by (rule same) (use m Some td in \<open>simp_all add: mutex_of_def q'_def\<close>)
        ultimately show ?thesis using Some td True cur(1) by (simp add: mcall_ok_def y MTake current_of_def taken_def)
      next
        case False
        have "take_enter n None (q, s) = Some (if n = 0 then Inl False else Inr (vTaskInternalSetTimeOutState s), q, s)"
          using m Some td by (simp add: take_enter_def mutex_of_def)
        then have "xQueueTakeMutexRecursive [] n (q, s) = Some (if n = 0 then Some False else None, q, s)"
          using m Some td False cur(1) held_by_current_iff [OF m, of s]
          by (simp add: xQueueTakeMutexRecursive_def xQueueSemaphoreTake_def take_loop.simps)
        then show ?thesis using i Some td False cur(1) by (simp add: mcall_ok_def y MTake current_of_def taken_def)
      qed
    qed
  next
    case MGive
    obtain cur where cur: "pxCurrentTCB s = Some cur" "is_ready s cur" by (rule activeE) (use e MGive in simp)
    show ?thesis
    proof (cases "\<exists>d. w = Some (cur, d)")
      case False
      then have "\<not> held_by_current (q, s)" using held_by_current_iff [OF m, of s] cur(1) by (auto split: option.splits)
      then have "xQueueGiveMutexRecursive (q, s) = Some (False, q, s)" by (simp add: xQueueGiveMutexRecursive_def)
      then show ?thesis using i False cur(1) by (auto simp: mcall_ok_def y MGive current_of_def split: option.splits)
    next
      case True
      then obtain d where w: "w = Some (cur, d)" by blast
      have f: "uxItemSize q = 0" "pcHead q = 0" "uxLength q = 1" "pcTail q = Holder (Some cur)" "uxMessagesWaiting q = 0" "pcReadFrom q = d"
        using m w by (simp_all add: mutex_of_def)
      have h: "held_by_current (q, s)" using held_by_current_iff [OF m, of s] w cur(1) by simp
      show ?thesis
      proof (cases "d = 1")
        case False
        define q' where "q' = q\<lparr>pcReadFrom := d - 1\<rparr>"
        have "xQueueGiveMutexRecursive (q, s) = Some (True, q', s)"
          using h f False by (simp add: xQueueGiveMutexRecursive_def q'_def)
        moreover have "msystem_inv idle D (Some (cur, d - 1)) ((T, s), q')"
          by (rule same) (use f in \<open>simp_all add: mutex_of_def q'_def\<close>)
        ultimately show ?thesis using w False cur(1) by (simp add: mcall_ok_def y MGive current_of_def)
      next
        case True
        let ?q = "q\<lparr>pcReadFrom := 0\<rparr>"
        have g: "uxItemSize ?q = 0" "pcHead ?q = 0" "uxLength ?q = 1" "pcTail ?q = Holder (Some cur)" "uxMessagesWaiting ?q = 0"
          "wait_list D (xTasksWaitingToReceive ?q)" using f l by simp_all
        obtain s' where s': "xQueueGenericSend [] [] 0 queueSEND_TO_BACK (?q, s) =
            Some (Some True, ?q\<lparr>pcTail := Holder None, uxMessagesWaiting := 1\<rparr>, s')"
          "kernel_inv T D s'" "frame {} s s'" "uxSchedulerSuspended s' = uxSchedulerSuspended s"
          by (rule give_held [OF k cur g]) blast
        define q' where "q' = ?q\<lparr>pcTail := Holder None, uxMessagesWaiting := 1\<rparr>"
        have "xQueueGiveMutexRecursive (q, s) = Some (True, q', s')"
          using h f True s'(1) by (simp add: xQueueGiveMutexRecursive_def q'_def)
        moreover have "msystem_inv idle D None ((T, s'), q')"
          by (rule keep [OF s'(2-4)]) (use f in \<open>simp_all add: mutex_of_def q'_def\<close>)
        ultimately show ?thesis using w True cur(1) by (simp add: mcall_ok_def y MGive current_of_def)
      qed
    qed
  qed
qed

text \<open>A run with its results, and the run of the contract beside it.\<close>

fun run_mcalls :: "nat \<Rightarrow> nat set \<Rightarrow> mcall list \<Rightarrow> msystem \<Rightarrow> (mresult list \<times> msystem) option" where
  "run_mcalls idle D [] y = Some ([], y)"
| "run_mcalls idle D (c # cs) y =
     (if enabled_mcall idle D c y then do {
        (r, y) \<leftarrow> exec_mcall idle c y;
        (rs, y) \<leftarrow> run_mcalls idle D cs y;
        Some (r # rs, y) }
      else None)"

inductive owner_run :: "nat \<Rightarrow> nat set \<Rightarrow> msystem \<Rightarrow> owner \<Rightarrow> mcall list \<Rightarrow> mresult list \<Rightarrow> owner \<Rightarrow> bool" for idle D where
  owner_nil: "owner_run idle D y w [] [] w"
| owner_cons: "enabled_mcall idle D c y \<Longrightarrow> exec_mcall idle c y = Some (r, y') \<Longrightarrow>
    owner_call (current_of y) c w = (r, w1) \<Longrightarrow> owner_run idle D y' w1 cs rs w' \<Longrightarrow> owner_run idle D y w (c # cs) (r # rs) w'"

lemma run_mcalls_ok:
  "msystem_inv idle D w y \<Longrightarrow> run_mcalls idle D cs y = Some (rs, y') \<Longrightarrow>
    \<exists>w'. owner_run idle D y w cs rs w' \<and> msystem_inv idle D w' y'"
proof (induction cs arbitrary: y rs w)
  case Nil
  then show ?case by (auto intro: owner_nil)
next
  case (Cons c cs)
  have e: "enabled_mcall idle D c y" using Cons.prems(2) by (simp split: if_splits)
  obtain r y1 where r: "exec_mcall idle c y = Some (r, y1)"
    "let (r', w') = owner_call (current_of y) c w in r = r' \<and> msystem_inv idle D w' y1"
    using mcall_returns [OF Cons.prems(1) e] unfolding mcall_ok_def by blast
  obtain w1 where w1: "owner_call (current_of y) c w = (r, w1)" "msystem_inv idle D w1 y1"
    using r(2) by (cases "owner_call (current_of y) c w") simp
  obtain rs1 where rs: "run_mcalls idle D cs y1 = Some (rs1, y')" "rs = r # rs1"
    using Cons.prems(2) r(1) e by (auto simp: bind_eq_Some_conv)
  obtain w' where "owner_run idle D y1 w1 cs rs1 w'" "msystem_inv idle D w' y'" using Cons.IH [OF w1(2) rs(1)] by blast
  then show ?case using owner_cons [OF e r(1) w1(1)] rs(2) by blast
qed

end
