(* ===== verification/Queue_Create.thy ===== *)
theory Queue_Create
  imports Queue_System Queue_Mutex
begin

text \<open>
  Creating a queue on the heap: its two lists become lists of the kernel, the queue is empty and
  well-formed.
\<close>

subsection \<open>Two more lists for the kernel\<close>

lemma klist_initialise_other:
  assumes k: "klist s m ws" and l: "m \<noteq> l"
  shows "klist (vListInitialise s l) m ws"
proof -
  have "End l \<notin> set (End m # ws)" using klist_no_end [OF k] l by simp
  then have "ring_list ((pxNext s)(End l := End l)) ((pxPrevious s)(End l := End l)) (End m) ws"
    using klist_ring [OF k] by (subst ring_list_cong) auto
  then show ?thesis using k l by (simp add: klist_def vListInitialise_def)
qed

lemma vListInitialise_fields [simp]:
  "pxContainer (vListInitialise s l) = pxContainer s" "pvOwner (vListInitialise s l) = pvOwner s"
  "xItemValue (vListInitialise s l) (Item k) = xItemValue s (Item k)"
  by (simp_all add: vListInitialise_def)

lemma list_ok_initialise:
  assumes ok: "list_ok D s" and l: "l \<notin> D"
  shows "list_ok (insert l D) (vListInitialise s l)" "m \<in> D \<Longrightarrow> members (vListInitialise s l) m = members s m"
    "members (vListInitialise s l) l = []"
proof -
  have "\<forall>x. pxContainer s x \<noteq> Some l" "\<forall>m. pxContainer s (End m) = None"
    using list_ok_container [OF ok] l by (metis, metis node.distinct(1) option.exhaust)
  then have new: "klist (vListInitialise s l) l []" by (rule vListInitialise_klist)
  show "members (vListInitialise s l) l = []" by (rule klist_members [OF new])
  have old: "klist (vListInitialise s l) m (members s m)" if "m \<in> D" for m
    by (rule klist_initialise_other [OF list_okD [OF ok that]]) (use that l in auto)
  show m: "members (vListInitialise s l) m = members s m" if "m \<in> D" for m
    by (rule klist_members [OF old [OF that]])
  show "list_ok (insert l D) (vListInitialise s l)"
    unfolding list_ok_def
  proof (intro conjI ballI)
    fix x assume "x \<in> insert l D"
    then show "klist (vListInitialise s l) x (members (vListInitialise s l) x)"
      using new old [of x] m [of x] klist_members [OF new] by auto
  next
    show "\<forall>x la. pxContainer (vListInitialise s l) x = Some la \<longrightarrow> la \<in> insert l D \<and> (\<exists>k. x = Item k \<and> k < 2 ^ 63)"
      using list_ok_container [OF ok] by auto
  qed
qed

lemma kernel_initialise_list:
  assumes k: "kernel_inv T D s" and l: "l \<notin> D"
  shows "kernel_inv T (insert l D) (s\<lparr>lists := vListInitialise (lists s) l\<rparr>)"
proof -
  note ok = kinvD(1) [OF inv_kinv [OF k]]
  note L = list_ok_initialise [OF kernel_lists [OF ok] l]
  have D: "n \<in> D" if "n \<le> 36" for n using kernel_dom [OF ok that] .
  have m: "members (vListInitialise (lists s) l) n = members (lists s) n" if "n \<le> 36" for n
    by (rule L(2) [OF D [OF that]])
  have item: "\<exists>k. x = Item k" if "x \<in> set (members (lists s) n)" "n \<le> 36" for x n
    using members_container [OF kernel_lists [OF ok] D [OF that(2)], of x] that(1) list_ok_container [OF kernel_lists [OF ok], of x n] by auto
  have w: "map (xItemValue (vListInitialise (lists s) l)) (members (lists s) n) = map (xItemValue (lists s)) (members (lists s) n)"
    if "n \<le> 36" for n by (intro map_cong refl) (use item [OF _ that] in fastforce)
  let ?s = "s\<lparr>lists := vListInitialise (lists s) l\<rparr>"
  have dl: "pxDelayedTaskList s \<le> 36" "pxOverflowDelayedTaskList s \<le> 36"
    using ok by (auto simp: kernel_ok_def delayed_lists_def)
  have "kernel_ok T (insert l D) {} ?s"
    using ok L(1) m unfolding kernel_ok_def task_fields_def state_place_def event_place_def ready_bits_def delayed_lists_def
    by auto
  moreover have "delay_ok ?s" using kinvD(2) [OF inv_kinv [OF k]] by (simp add: delay_ok_def wake_times_def m w dl)
  moreover have "count_ok T ?s" using k m by (simp add: kernel_inv_def count_ok_def)
  ultimately show ?thesis using k by (simp add: kernel_inv_def)
qed

subsection \<open>A new queue\<close>

lemma new_queue_data:
  assumes "0 < unat len" "0 < unat z" "unat z \<le> unat a" "unat a + unat len * unat z < 2 ^ 64" "length bs = unat len * unat z"
    "pcHead q = a" "uxLength q = len" "uxItemSize q = z" "qStorageAt q = a" "qStorage q = bs"
    "pcTail q = Address (a + len * z)" "uxMessagesWaiting q = 0" "pcWriteTo q = a" "pcReadFrom q = a + (len - 1) * z"
  shows "data_queue q" "queue_items q = []"
proof -
  have "1 \<le> len" using assms(1) by (simp add: word_le_nat_alt)
  then have L: "unat len - 1 < unat len" "of_nat (unat len - 1) = len - 1" using assms(1) by (simp_all add: of_nat_diff)
  have "data_queue_at (unat len - 1) q" using assms L by (simp add: data_queue_at_def Let_def)
  then show "data_queue q" by (auto simp: data_queue_def)
  show "queue_items q = []" by (simp add: queue_items_def items_at_def assms(12))
qed

lemma initialise_new_queue:
  assumes k: "kernel_inv T D s" and l: "waitS \<notin> D" "waitR \<notin> D" "waitS \<noteq> waitR"
    and z: "0 < unat len" "0 < unat z" "unat z \<le> unat a" "unat a + unat len * unat z < 2 ^ 64" "length (qStorage q) = unat len * unat z"
    and q: "qStorageAt q = a" "xTasksWaitingToSend q = waitS" "xTasksWaitingToReceive q = waitR"
  obtains q' s' where "prvInitialiseNewQueue self len z a qt (q, s) = Some (q', s')"
    "queue_inv T (insert waitR (insert waitS D)) (q', s')" "queue_items q' = []" "uxLength q' = len" "uxItemSize q' = z"
    "qStaticallyAllocated q' = qStaticallyAllocated q" "cTxLock q' = queueUNLOCKED" "cRxLock q' = queueUNLOCKED"
    "tcb s' = tcb s" "pxCurrentTCB s' = pxCurrentTCB s" "pxContainer (lists s') = pxContainer (lists s)"
    "uxSchedulerSuspended s' = uxSchedulerSuspended s" "xSchedulerRunning s' = xSchedulerRunning s" "msip_reg s' = msip_reg s"
    "xTasksWaitingToSend q' = waitS" "xTasksWaitingToReceive q' = waitR"
    "qStorageAt q' = qStorageAt q" "length (qStorage q') = length (qStorage q)"
proof -
  have z0: "z \<noteq> 0" using z(2) by auto
  define q' where "q' = q\<lparr>pcHead := a, uxLength := len, uxItemSize := z, pcTail := Address (a + len * z), uxMessagesWaiting := 0,
     pcWriteTo := a, pcReadFrom := a + (len - 1) * z, cRxLock := queueUNLOCKED, cTxLock := queueUNLOCKED, ucQueueType := qt\<rparr>"
  define s' where "s' = s\<lparr>lists := vListInitialise (vListInitialise (lists s) waitS) waitR\<rparr>"
  have run: "prvInitialiseNewQueue self len z a qt (q, s) = Some (q', s')"
    using z0 q by (simp add: prvInitialiseNewQueue_def xQueueGenericReset_def Let_def q'_def s'_def)
  have k1: "kernel_inv T (insert waitS D) (s\<lparr>lists := vListInitialise (lists s) waitS\<rparr>)" by (rule kernel_initialise_list [OF k l(1)])
  have k2: "kernel_inv T (insert waitR (insert waitS D)) s'"
    using kernel_initialise_list [OF k1, of waitR] l by (simp add: s'_def)
  have "{..36} \<subseteq> D" using kinvD(1) [OF inv_kinv [OF k]] by (simp add: kernel_ok_def)
  then have g: "36 < waitS" "36 < waitR" using l(1,2) by (meson atMost_iff linorder_not_le subsetD)+
  have d: "data_queue q'" "queue_items q' = []"
    by (rule new_queue_data [OF z], simp_all add: q'_def q)+
  have "queue_inv T (insert waitR (insert waitS D)) (q', s')"
    using k2 d(1) g by (simp add: queue_inv_def wait_list_def q'_def q)
  then show ?thesis by (rule that [OF run _ d(2)]) (simp_all add: q'_def s'_def q)
qed

end
