(* ===== verification/Queue_Props.thy ===== *)
theory Queue_Props
  imports Queue_Create Heap4_Props Task_Props
begin

text \<open>The properties of queues, semaphores and mutexes.\<close>

subsection \<open>A queue in a started system\<close>

text \<open>A queue of two single bytes, and one of a single byte.\<close>

definition ex_queue :: Queue_t where
  "ex_queue = \<lparr>pcHead = 1000, pcWriteTo = 1000, pcTail = Address 1002, pcReadFrom = 1001, xTasksWaitingToSend = 37,
     xTasksWaitingToReceive = 38, uxMessagesWaiting = 0, uxLength = 2, uxItemSize = 1, cRxLock = queueUNLOCKED,
     cTxLock = queueUNLOCKED, qStaticallyAllocated = True, uxQueueNumber = 0, ucQueueType = 0, qStorageAt = 1000,
     qStorage = [0, 0]\<rparr>"

definition ex_mailbox :: Queue_t where
  "ex_mailbox = ex_queue\<lparr>pcTail := Address 1001, pcReadFrom := 1000, uxLength := 1, qStorage := [0]\<rparr>"

lemma ex_queue: "data_queue ex_queue" "queue_items ex_queue = []"
  by (rule new_queue_data [of 2 1 1000 "[0, 0]"]; simp add: ex_queue_def)+

lemma ex_mailbox: "data_queue ex_mailbox" "queue_items ex_mailbox = []"
  by (rule new_queue_data [of 1 1 1000 "[0]"]; simp add: ex_mailbox_def ex_queue_def)+

lemma ex_queue_fields:
  "xTasksWaitingToSend ex_queue = 37" "xTasksWaitingToReceive ex_queue = 38" "uxLength ex_queue = 2" "uxItemSize ex_queue = 1"
  "cTxLock ex_queue = queueUNLOCKED" "xTasksWaitingToSend ex_mailbox = 37" "xTasksWaitingToReceive ex_mailbox = 38"
  "uxLength ex_mailbox = 1" "uxItemSize ex_mailbox = 1"
  by (simp_all add: ex_queue_def ex_mailbox_def)

lemma ex_wait_lists: "wait_list {..40} 37" "wait_list {..40} 38"
  by (simp_all add: wait_list_def)

lemma ex_qsystem: "system_inv 0 {..40} x \<Longrightarrow> qsystem_inv 0 {..40} (x, ex_queue)"
  by (simp add: qsystem_inv_def ex_queue ex_queue_fields ex_wait_lists split_beta)

lemma ex_queue_inv: "kernel_inv T {..40} s \<Longrightarrow> queue_inv T {..40} (ex_queue, s)" "kernel_inv T {..40} s \<Longrightarrow> queue_inv T {..40} (ex_mailbox, s)"
  by (simp_all add: queue_inv_def ex_queue ex_mailbox ex_queue_fields ex_wait_lists)

subsection \<open>Every schedule\<close>

text \<open>C6: a queue used by any number of tasks and interrupt handlers is safe under every interleaving with
  the calls of the scheduler. In every state reached after the start the kernel and the queue are
  well-formed, the queue holds at most as many items as its length, and every step that may come
  next returns - no byte is written or read outside the storage area - into such a state.\<close>

theorem queue_system_safe:
  assumes "boot_inv T D s" "start_ok T idle timer s"
    and "vTaskStartScheduler (Some st1) (Some idle) True (Some st2) (Some timer) s = Some s0"
    and "data_queue q" "wait_list D (xTasksWaitingToSend q)" "wait_list D (xTasksWaitingToReceive q)"
    and "reaches (enabled_qcall idle D) (\<lambda>c y. map_option snd (exec_qcall idle c y)) ((insert timer (insert idle T), s0), q) ((T', s'), q')"
  shows "kernel_inv T' D s' \<and> data_queue q' \<and> length (queue_items q') \<le> unat (uxLength q') \<and>
    (\<forall>c. enabled_qcall idle D c ((T', s'), q') \<longrightarrow>
       (\<exists>r y. exec_qcall idle c ((T', s'), q') = Some (r, y) \<and> qsystem_inv idle D y))"
proof -
  have "system_inv idle D (insert timer (insert idle T), s0)" using start_scheduler [OF assms(1,2), of st1 st2] assms(3) by auto
  then have i: "qsystem_inv idle D ((insert timer (insert idle T), s0), q)" using assms(4-6) by (simp add: qsystem_inv_def)
  have i': "qsystem_inv idle D ((T', s'), q')" by (rule qsched.reachable_inv [OF assms(7) i])
  note k = queue_invD(1,2) [OF qsystem_queue [OF i']]
  obtain r where "data_queue_at r q'" using k(2) by (auto simp: data_queue_def)
  then have "length (queue_items q') \<le> unat (uxLength q')" using data_queue_atD(8) by simp
  moreover have "\<exists>r y. exec_qcall idle c ((T', s'), q') = Some (r, y) \<and> qsystem_inv idle D y"
    if "enabled_qcall idle D c ((T', s'), q')" for c
    using qcall_returns [OF i' that] unfolding qcall_ok_def by blast
  ultimately show ?thesis using k by blast
qed

text \<open>The steps of a run are enabled in the started system.\<close>

lemma ex_qcall:
  assumes i: "qsystem_inv 0 {..40} y" and e: "enabled_qcall 0 {..40} c y"
  obtains r y' where "exec_qcall 0 c y = Some (r, y')" "qsystem_inv 0 {..40} y'" "same_shape (snd y) (snd y')"
  using qcall_returns [OF i e] unfolding qcall_ok_def by blast

lemma ex_isr_enabled:
  "enabled_qcall 0 {..40} ReceiveFromISR y" "same_shape ex_queue (snd y) \<Longrightarrow> pos \<noteq> queueOVERWRITE \<Longrightarrow> enabled_qcall 0 {..40} (SendFromISR [b] pos) y"
  by (cases y; cases "fst y"; simp add: same_shape_def send_fits_def ex_queue_fields)+

lemma ex_queue_run:
  assumes "system_inv 0 {..40} x"
  obtains rs x' q' where "run_qcalls 0 {..40} [SendFromISR [5] queueSEND_TO_BACK, SendFromISR [6] queueSEND_TO_FRONT,
      SendFromISR [7] queueSEND_TO_BACK, ReceiveFromISR] (x, ex_queue) = Some (rs, x', q')"
    "run_calls (enabled_qcall 0 {..40}) (\<lambda>c y. map_option snd (exec_qcall 0 c y)) [SendFromISR [5] queueSEND_TO_BACK,
      SendFromISR [6] queueSEND_TO_FRONT, SendFromISR [7] queueSEND_TO_BACK, ReceiveFromISR] (x, ex_queue) = Some (x', q')"
proof -
  note i0 = ex_qsystem [OF assms]
  have e0: "enabled_qcall 0 {..40} (SendFromISR [5] queueSEND_TO_BACK) (x, ex_queue)" by (rule ex_isr_enabled(2)) simp_all
  obtain r1 y1 where y1: "exec_qcall 0 (SendFromISR [5] queueSEND_TO_BACK) (x, ex_queue) = Some (r1, y1)" "qsystem_inv 0 {..40} y1"
    "same_shape ex_queue (snd y1)" by (rule ex_qcall [OF i0 e0]) simp
  have e1: "enabled_qcall 0 {..40} (SendFromISR [6] queueSEND_TO_FRONT) y1" by (rule ex_isr_enabled(2) [OF y1(3)]) simp
  obtain r2 y2 where y2: "exec_qcall 0 (SendFromISR [6] queueSEND_TO_FRONT) y1 = Some (r2, y2)" "qsystem_inv 0 {..40} y2"
    "same_shape (snd y1) (snd y2)" by (rule ex_qcall [OF y1(2) e1])
  have e2: "enabled_qcall 0 {..40} (SendFromISR [7] queueSEND_TO_BACK) y2"
    by (rule ex_isr_enabled(2) [OF same_shape_trans [OF y1(3) y2(3)]]) simp
  obtain r3 y3 where y3: "exec_qcall 0 (SendFromISR [7] queueSEND_TO_BACK) y2 = Some (r3, y3)" "qsystem_inv 0 {..40} y3"
    by (rule ex_qcall [OF y2(2) e2])
  obtain r4 y4 where y4: "exec_qcall 0 ReceiveFromISR y3 = Some (r4, y4)" by (rule ex_qcall [OF y3(2) ex_isr_enabled(1)])
  obtain x' q' where "y4 = (x', q')" by (cases y4)
  then show ?thesis
    using e0 e1 e2 ex_isr_enabled(1) [of y3] y1(1) y2(1) y3(1) y4 by (intro that [of "[r1, r2, r3, r4]" x' q']) simp_all
qed

theorem queue_system_safe_witness:
  "\<exists>s0 T' s' q'. vTaskStartScheduler (Some 7) (Some 0) True (Some 8) (Some 1) ex_reset = Some s0 \<and>
     run_calls (enabled_qcall 0 {..40}) (\<lambda>c y. map_option snd (exec_qcall 0 c y)) [SendFromISR [5] queueSEND_TO_BACK,
       SendFromISR [6] queueSEND_TO_FRONT, SendFromISR [7] queueSEND_TO_BACK, ReceiveFromISR] (({1, 0}, s0), ex_queue) =
       Some ((T', s'), q') \<and> kernel_inv T' {..40} s' \<and> data_queue q'"
proof -
  obtain s0 where s0: "vTaskStartScheduler (Some 7) (Some 0) True (Some 8) (Some 1) ex_reset = Some s0" "system_inv 0 {..40} ({1, 0}, s0)"
    by (rule ex_started)
  obtain rs x' q' where r: "run_calls (enabled_qcall 0 {..40}) (\<lambda>c y. map_option snd (exec_qcall 0 c y)) [SendFromISR [5] queueSEND_TO_BACK,
      SendFromISR [6] queueSEND_TO_FRONT, SendFromISR [7] queueSEND_TO_BACK, ReceiveFromISR] (({1, 0}, s0), ex_queue) = Some (x', q')"
    by (rule ex_queue_run [OF s0(2)])
  obtain T' s' where x: "x' = (T', s')" by (cases x')
  have "kernel_inv T' {..40} s' \<and> data_queue q'"
    using queue_system_safe [OF ex_reset_boot ex_start_ok s0(1) ex_queue(1) _ _ run_calls_reaches [OF r [unfolded x]]]
    by (simp add: ex_queue_fields ex_wait_lists)
  then show ?thesis using s0(1) r x by blast
qed

text \<open>C2: the results of a queue are those of a list with two ends. Whatever runs in between, the
  results of the sends, receives and peeks of a schedule, from tasks and from interrupts, are the
  ones the bounded list gives, in the same order, and the queue ends with the items of the list.\<close>

theorem queue_refines_deque:
  assumes "qsystem_inv idle D (x, q)" "run_qcalls idle D cs (x, q) = Some (rs, x', q')"
  shows "run_deque (unat (uxLength q)) cs (queue_items q) = (rs, queue_items q') \<and> qsystem_inv idle D (x', q')"
  using run_qcalls_ok [OF assms] by simp

theorem queue_refines_deque_witness:
  "\<exists>s0 x' q'. vTaskStartScheduler (Some 7) (Some 0) True (Some 8) (Some 1) ex_reset = Some s0 \<and>
     run_qcalls 0 {..40} [SendFromISR [5] queueSEND_TO_BACK, SendFromISR [6] queueSEND_TO_FRONT,
       SendFromISR [7] queueSEND_TO_BACK, ReceiveFromISR] (({1, 0}, s0), ex_queue) =
       Some ([Sent True, Sent True, Sent False, Got (Some [6])], x', q') \<and> queue_items q' = [[5]]"
proof -
  obtain s0 where s0: "vTaskStartScheduler (Some 7) (Some 0) True (Some 8) (Some 1) ex_reset = Some s0" "system_inv 0 {..40} ({1, 0}, s0)"
    by (rule ex_started)
  obtain rs x' q' where r: "run_qcalls 0 {..40} [SendFromISR [5] queueSEND_TO_BACK, SendFromISR [6] queueSEND_TO_FRONT,
      SendFromISR [7] queueSEND_TO_BACK, ReceiveFromISR] (({1, 0}, s0), ex_queue) = Some (rs, x', q')"
    by (rule ex_queue_run [OF s0(2)])
  have "rs = [Sent True, Sent True, Sent False, Got (Some [6])] \<and> queue_items q' = [[5]]"
    using queue_refines_deque [OF ex_qsystem [OF s0(2)] r] by (simp add: ex_queue ex_queue_fields enq_def)
  then show ?thesis using s0(1) r by blast
qed

subsection \<open>Waiting\<close>

text \<open>C7: no wake-up is lost between the check and the wait. A receiver found the queue empty and goes
  to wait: the queue is locked, it enters the event list, the queue is unlocked, the scheduler
  resumes. If interrupts send in between - up to 127 sends while the queue is locked, any number
  after it - and an item is in the queue at the end, the receiver is ready to run, not waiting.\<close>

theorem receive_no_lost_wakeup:
  assumes "queue_inv T D (q, s)" "pxCurrentTCB s = Some c" "is_ready s c" "pxContainer (lists s) (xEventListItem c) = None"
    and "uxSchedulerSuspended s = 0" "cTxLock q = queueUNLOCKED" "queue_items q = []"
    and "\<forall>u. pxContainer (lists s) (xEventListItem u) \<noteq> Some (xTasksWaitingToReceive q)"
    and "locked_sends is \<le> 127"
  shows "\<exists>r q' s'. receive_block (isr_env D is) to n (q, s) = Some (r, q', s') \<and> queue_inv T D (q', s') \<and>
    uxSchedulerSuspended s' = 0 \<and> (queue_items q' \<noteq> [] \<longrightarrow> is_ready s' c)"
proof -
  have "uxSchedulerSuspended s + 1 \<noteq> 0" using assms(5) by simp
  then obtain r x' where r: "receive_block (isr_env D is) to n (q, s) = Some (r, x')" "round_result T D c (q, s) x'"
    "no_reader (q, s) \<Longrightarrow> locked_sends is \<le> 127 \<Longrightarrow> uxSchedulerSuspended s = 0 \<Longrightarrow> queue_items (fst x') \<noteq> [] \<Longrightarrow> is_ready (snd x') c"
    by (rule receive_block_ok [OF assms(1-4), of "is" to n]) blast
  obtain q' s' where x: "x' = (q', s')" by (cases x')
  have "no_reader (q, s)" using assms(6-8) by (simp add: no_reader_def)
  then show ?thesis using r assms(5,9) unfolding x by (auto simp: round_result_def)
qed

text \<open>In the started system nobody waits.\<close>

lemma ex_nobody_waits:
  obtains s0 where "vTaskStartScheduler (Some 7) (Some 0) True (Some 8) (Some 1) ex_reset = Some s0"
    "system_inv 0 {..40} ({1, 0}, s0)" "uxSchedulerSuspended s0 = 0" "pxCurrentTCB s0 = Some 1" "is_ready s0 1" "active s0"
    "\<forall>u. pxContainer (lists s0) (xEventListItem u) = None" "\<forall>l. wait_list {..40} l \<longrightarrow> listLIST_IS_EMPTY (lists s0) l"
proof -
  obtain s0 where s0: "vTaskStartScheduler (Some 7) (Some 0) True (Some 8) (Some 1) ex_reset = Some s0"
    "system_inv 0 {..40} ({1, 0}, s0)" "uxSchedulerSuspended s0 = 0" "pxCurrentTCB s0 = Some 1" "is_ready s0 1" "msip_reg s0 = msip_reg ex_reset"
    "pxContainer (lists s0) (xEventListItem 1) = None" "pxContainer (lists s0) (xEventListItem 0) = None"
    using start_scheduler [OF ex_reset_boot ex_start_ok, of 7 8] by auto
  note k = system_kernel [OF s0(2)]
  have none: "pxContainer (lists s0) (xEventListItem u) = None" for u
  proof (rule ccontr)
    assume a: "pxContainer (lists s0) (xEventListItem u) \<noteq> None"
    then have "u = 1 \<or> u = 0" using kernel_event_place [OF kinvD(1) [OF inv_kinv [OF k]]] by (auto simp: event_place_def)
    then show False using a s0(7,8) by auto
  qed
  have empty: "listLIST_IS_EMPTY (lists s0) l" if "wait_list {..40} l" for l
  proof -
    have "members (lists s0) l = []"
      using event_head [OF inv_kinv [OF k], of l] that none by (auto simp: wait_list_def)
    then show ?thesis using list_empty [OF k that] by simp
  qed
  have "active s0" using s0(4-6) by (simp add: active_def running_def ex_reset_def)
  then show ?thesis by (rule that [OF s0(1-5)]) (use none empty in blast)+
qed

theorem receive_no_lost_wakeup_witness:
  "\<exists>s0 r q' s'. vTaskStartScheduler (Some 7) (Some 0) True (Some 8) (Some 1) ex_reset = Some s0 \<and>
     receive_block (isr_env {..40} (\<lambda>j. if j = 2 then [ISend [5] queueSEND_TO_BACK] else [])) (vTaskInternalSetTimeOutState s0) 10 (ex_queue, s0) =
       Some (r, q', s') \<and> (queue_items q' \<noteq> [] \<longrightarrow> is_ready s' 1)"
proof -
  obtain s0 where s0: "vTaskStartScheduler (Some 7) (Some 0) True (Some 8) (Some 1) ex_reset = Some s0"
    "system_inv 0 {..40} ({1, 0}, s0)" "uxSchedulerSuspended s0 = 0" "pxCurrentTCB s0 = Some 1" "is_ready s0 1" "active s0"
    "\<forall>u. pxContainer (lists s0) (xEventListItem u) = None" "\<forall>l. wait_list {..40} l \<longrightarrow> listLIST_IS_EMPTY (lists s0) l"
    by (rule ex_nobody_waits)
  have "locked_sends (\<lambda>j. if j = 2 then [ISend [5] queueSEND_TO_BACK] else []) \<le> 127" by (simp add: locked_sends_def)
  from receive_no_lost_wakeup [OF ex_queue_inv(1) [OF system_kernel [OF s0(2)]] s0(4,5) s0(7) [rule_format] s0(3) ex_queue_fields(5) ex_queue(2) _ this]
  show ?thesis using s0(1,7) by fastforce
qed

subsection \<open>The counter of the lock\<close>

text \<open>C31: the counters of a locked queue are signed bytes, and nothing stops them at 127. After 128 sends
  from interrupts to a locked queue the counter is negative, and unlocking wakes nobody: the kernel
  is as it was, whoever waits to receive, though the queue holds an item.\<close>

theorem tx_lock_overflow:
  assumes "queue_inv T D (q, s)" "uxLength q = 1" "length item = unat (uxItemSize q)" "cTxLock q = queueLOCKED_UNMODIFIED"
  shows "\<exists>q' q''. run_isr D (replicate 128 (ISend item queueOVERWRITE)) (q, s) = Some (q', s) \<and> queue_items q' = [item] \<and>
    sint (cTxLock q') = - 128 \<and> unlock_tx (q', s) = Some (q'', s) \<and> queue_items q'' = [item]"
proof -
  have f: "send_fits item queueOVERWRITE q" using assms(2,3) by (simp add: send_fits_def)
  have "\<exists>q'. run_isr D (replicate n (ISend item queueOVERWRITE)) (q0, s) = Some (q', s) \<and> queue_inv T D (q', s) \<and>
      cTxLock q' = cTxLock q0 + of_nat n \<and> (0 < n \<longrightarrow> queue_items q' = [item])"
    if "queue_inv T D (q0, s)" "same_shape q q0" "unat (cTxLock q0) + n \<le> 128" for n q0
    using that
  proof (induction n arbitrary: q0)
    case (Suc n)
    have f0: "send_fits item queueOVERWRITE q0" using f same_shape_fits [OF Suc.prems(2)] by simp
    have lock: "cTxLock q0 \<noteq> queueUNLOCKED" using Suc.prems(3) by (auto simp: queueUNLOCKED_def unsigned_minus_1_eq_mask mask_eq_exp_minus_1)
    obtain w q1 s1 where q1: "xQueueGenericSendFromISR item queueOVERWRITE (q0, s) = Some (has_room queueOVERWRITE q0, w, q1, s1)"
      "queue_inv T D (q1, s1)" "same_shape q0 q1"
      "queue_items q1 = (if has_room queueOVERWRITE q0 then enq queueOVERWRITE item (queue_items q0) else queue_items q0)"
      "cTxLock q1 = (if has_room queueOVERWRITE q0 \<and> cTxLock q0 \<noteq> queueUNLOCKED then cTxLock q0 + 1 else cTxLock q0)"
      "cTxLock q0 \<noteq> queueUNLOCKED \<or> \<not> has_room queueOVERWRITE q0 \<Longrightarrow> s1 = s"
      by (rule send_isr_ok [OF Suc.prems(1) f0]) blast
    have s1: "s1 = s" using q1(6) lock by simp
    have c: "cTxLock q1 = cTxLock q0 + 1" "queue_items q1 = [item]" using q1(4,5) lock by (simp_all add: has_room_def enq_def)
    have "unat (cTxLock q1) = unat (cTxLock q0) + 1" using Suc.prems(3) c(1) by (simp add: unat_add_lt)
    then have "\<exists>q'. run_isr D (replicate n (ISend item queueOVERWRITE)) (q1, s) = Some (q', s) \<and> queue_inv T D (q', s) \<and>
      cTxLock q' = cTxLock q1 + of_nat n \<and> (0 < n \<longrightarrow> queue_items q' = [item])"
      using Suc.prems(3) q1(2) s1 by (intro Suc.IH [OF _ same_shape_trans [OF Suc.prems(2) q1(3)]]) simp_all
    moreover have "exec_icall D (ISend item queueOVERWRITE) (q0, s) = Some (q1, s)" using f0 q1(1) s1 by simp
    ultimately show ?case using c by (cases n) (auto simp: algebra_simps simp del: exec_icall.simps)
  qed simp
  from this [of q 128] obtain q' where q': "run_isr D (replicate 128 (ISend item queueOVERWRITE)) (q, s) = Some (q', s)"
    "cTxLock q' = 128" "queue_items q' = [item]"
    using assms(1,4) by (auto simp: queueLOCKED_UNMODIFIED_def)
  then have "sint (cTxLock q') = - 128" by simp
  then show ?thesis using q' by (intro exI [of _ q'] exI [of _ "q'\<lparr>cTxLock := queueUNLOCKED\<rparr>"]) (simp add: unlock_tx_def)
qed

theorem tx_lock_overflow_witness:
  "\<exists>s0 q' q''. vTaskStartScheduler (Some 7) (Some 0) True (Some 8) (Some 1) ex_reset = Some s0 \<and>
    run_isr {..40} (replicate 128 (ISend [9] queueOVERWRITE)) (prvLockQueue ex_mailbox, s0) = Some (q', s0) \<and>
    unlock_tx (q', s0) = Some (q'', s0) \<and> queue_items q'' = [[9]]"
proof -
  obtain s0 where s0: "vTaskStartScheduler (Some 7) (Some 0) True (Some 8) (Some 1) ex_reset = Some s0" "system_inv 0 {..40} ({1, 0}, s0)"
    by (rule ex_started)
  have "cTxLock ex_mailbox = queueUNLOCKED" by (simp add: ex_mailbox_def ex_queue_def)
  then have "queue_inv {1, 0} {..40} (prvLockQueue ex_mailbox, s0)" "cTxLock (prvLockQueue ex_mailbox) = queueLOCKED_UNMODIFIED"
    "uxLength (prvLockQueue ex_mailbox) = 1" "uxItemSize (prvLockQueue ex_mailbox) = 1"
    using ex_queue_inv(2) [OF system_kernel [OF s0(2)]] ex_queue_fields
    by (simp_all add: prvLockQueue_def Let_def queue_inv_def)
  from tx_lock_overflow [OF this(1,3) _ this(2), of "[9]"] this(4) s0(1) show ?thesis by auto
qed

subsection \<open>Recursive mutexes\<close>

text \<open>C32: a recursive mutex among the calls of the scheduler has one owner and a depth. In every run from a
  well-formed state each take and give returns what the contract says - the owner takes again, it
  alone can give, the mutex is free again after as many gives as takes - and the holder that
  \<open>xQueueGetMutexHolder\<close> reports is the owner.\<close>

theorem recursive_mutex_refines:
  assumes "msystem_inv idle D w y" "run_mcalls idle D cs y = Some (rs, y')"
  shows "\<exists>w'. owner_run idle D y w cs rs w' \<and> msystem_inv idle D w' y' \<and>
    xQueueGetMutexHolder (snd y') = Some (map_option fst w')"
proof -
  obtain w' where w': "owner_run idle D y w cs rs w'" "msystem_inv idle D w' y'" using run_mcalls_ok [OF assms] by blast
  then have "xQueueGetMutexHolder (snd y') = Some (map_option fst w')"
    by (auto simp: msystem_inv_def split_beta mutex_of_def xQueueGetMutexHolder_def queue_is_mutex_def queue_holder_def
        split: option.splits)
  then show ?thesis using w' by blast
qed

text \<open>A free mutex, as \<open>prvInitialiseMutex\<close> leaves it.\<close>

definition ex_mutex :: Queue_t where
  "ex_mutex = ex_queue\<lparr>pcTail := Holder None, pcHead := 0, pcReadFrom := 0, uxLength := 1, uxItemSize := 0, uxMessagesWaiting := 1, qStorage := []\<rparr>"

lemma ex_msystem: "system_inv 0 {..40} x \<Longrightarrow> msystem_inv 0 {..40} None (x, ex_mutex)"
  by (simp add: msystem_inv_def mutex_of_def ex_mutex_def ex_queue_fields ex_wait_lists split_beta)

theorem recursive_mutex_refines_witness:
  "\<exists>s0 y. vTaskStartScheduler (Some 7) (Some 0) True (Some 8) (Some 1) ex_reset = Some s0 \<and>
     run_mcalls 0 {..40} [MTake 0, MTake 0, MGive] (({1, 0}, s0), ex_mutex) = Some ([MOk True, MOk True, MOk True], y) \<and>
     xQueueGetMutexHolder (snd y) = Some (Some 1)"
proof -
  obtain s0 where s0: "vTaskStartScheduler (Some 7) (Some 0) True (Some 8) (Some 1) ex_reset = Some s0"
    "system_inv 0 {..40} ({1, 0}, s0)" "uxSchedulerSuspended s0 = 0" "pxCurrentTCB s0 = Some 1" "is_ready s0 1" "active s0"
    "\<forall>u. pxContainer (lists s0) (xEventListItem u) = None" "\<forall>l. wait_list {..40} l \<longrightarrow> listLIST_IS_EMPTY (lists s0) l"
    by (rule ex_nobody_waits)
  define s1 where "s1 = set_tcb 1 (\<lambda>c. c\<lparr>uxMutexesHeld := uxMutexesHeld c + 1\<rparr>) s0"
  have e: "listLIST_IS_EMPTY (lists s1) 37" using s0(8) ex_wait_lists(1) by (simp add: s1_def)
  have a1: "active s1" using s0(6) by (simp add: active_def running_def is_ready_def s1_def split: option.splits)
  define q1 where "q1 = ex_mutex\<lparr>uxMessagesWaiting := 0, pcTail := Holder (Some 1), pcReadFrom := 1\<rparr>"
  have t1: "exec_mcall 0 (MTake 0) (({1, 0}, s0), ex_mutex) = Some (MOk True, ({1, 0}, s1), q1)"
    using s0(4) e by (simp add: xQueueTakeMutexRecursive_def held_by_current_def xQueueSemaphoreTake_def take_loop.simps take_enter_def
        queue_is_mutex_def pvTaskIncrementMutexHeldCount_def wake_and_yield_def wake_one_def taken_def q1_def ex_mutex_def ex_queue_def s1_def)
  have h: "held_by_current (q1, s1)" "held_by_current (q1\<lparr>pcReadFrom := 2\<rparr>, s1)"
    using s0(4) by (simp_all add: held_by_current_def q1_def s1_def)
  have t2: "exec_mcall 0 (MTake 0) (({1, 0}, s1), q1) = Some (MOk True, ({1, 0}, s1), q1\<lparr>pcReadFrom := 2\<rparr>)"
    using h by (simp add: xQueueTakeMutexRecursive_def taken_def q1_def)
  have t3: "exec_mcall 0 MGive (({1, 0}, s1), q1\<lparr>pcReadFrom := 2\<rparr>) = Some (MOk True, ({1, 0}, s1), q1)"
    using h by (simp add: xQueueGiveMutexRecursive_def q1_def)
  have run: "run_mcalls 0 {..40} [MTake 0, MTake 0, MGive] (({1, 0}, s0), ex_mutex) = Some ([MOk True, MOk True, MOk True], ({1, 0}, s1), q1)"
    using s0(6) a1 t1 t2 t3 by (simp del: exec_mcall.simps)
  obtain w where "owner_run 0 {..40} (({1, 0}, s0), ex_mutex) None [MTake 0, MTake 0, MGive] [MOk True, MOk True, MOk True] w"
    "xQueueGetMutexHolder (snd (({1 :: nat, 0 :: nat}, s1), q1)) = Some (map_option fst w)"
    using recursive_mutex_refines [OF ex_msystem [OF s0(2)] run] by blast
  moreover have "xQueueGetMutexHolder q1 = Some (Some 1)"
    by (simp add: xQueueGetMutexHolder_def q1_def ex_mutex_def queue_is_mutex_def queue_holder_def)
  ultimately show ?thesis using s0(1) run by auto
qed

subsection \<open>Sending and creating\<close>

text \<open>C33: a send that has room, or does not wait, returns at once: it puts the item at the back, at the front
  or in the place of the only item, and makes the first of the waiting receivers ready - or
  ready as soon as the scheduler resumes; without room it fails and changes nothing.\<close>

theorem queue_send_correct:
  assumes "queue_inv T D (q, s)" "send_fits item pos q" "has_room pos q \<or> ticks = 0"
  shows "\<exists>q' s'. xQueueGenericSend envs item ticks pos (q, s) = Some (Some (has_room pos q), q', s') \<and> queue_inv T D (q', s') \<and>
    (if has_room pos q then queue_items q' = enq pos item (queue_items q) \<and> first_released T (xTasksWaitingToReceive q) s s'
     else q' = q \<and> s' = s)"
proof -
  obtain r q' s' where r: "send_enter item pos ticks None (q, s) = Some (r, q', s')" "queue_inv T D (q', s')"
    "has_room pos q \<Longrightarrow> r = Inl True \<and> queue_items q' = enq pos item (queue_items q) \<and> first_released T (xTasksWaitingToReceive q) s s'"
    "\<not> has_room pos q \<Longrightarrow> q' = q \<and> s' = s \<and>
       r = (if ticks = 0 then Inl False else Inr (case None of None \<Rightarrow> vTaskInternalSetTimeOutState s | Some to \<Rightarrow> to))"
    by (rule send_enter_ok [OF assms(1,2), of ticks None]) blast
  show ?thesis
  proof (cases "has_room pos q")
    case True
    then show ?thesis using r(1,2) r(3) by (intro exI [of _ q'] exI [of _ s']) (simp add: xQueueGenericSend_def send_loop.simps)
  next
    case False
    then show ?thesis using r(1,2) r(4) assms(3) by (intro exI [of _ q'] exI [of _ s']) (simp add: xQueueGenericSend_def send_loop.simps)
  qed
qed

theorem queue_send_correct_witness:
  "\<exists>s0 q' s'. vTaskStartScheduler (Some 7) (Some 0) True (Some 8) (Some 1) ex_reset = Some s0 \<and>
     xQueueGenericSend [] [5] 10 queueSEND_TO_BACK (ex_queue, s0) = Some (Some True, q', s') \<and> queue_items q' = [[5]]"
proof -
  obtain s0 where s0: "vTaskStartScheduler (Some 7) (Some 0) True (Some 8) (Some 1) ex_reset = Some s0" "system_inv 0 {..40} ({1, 0}, s0)"
    by (rule ex_started)
  have "send_fits [5] queueSEND_TO_BACK ex_queue" "has_room queueSEND_TO_BACK ex_queue"
    by (simp_all add: send_fits_def has_room_def ex_queue ex_queue_fields del: items_length)
  then show ?thesis
    using queue_send_correct [OF ex_queue_inv(1) [OF system_kernel [OF s0(2)]], of "[5]" queueSEND_TO_BACK 10 "[]"] s0(1)
    by (auto simp: ex_queue enq_def)
qed

text \<open>
  A block that is handed out: used only from now on, large enough from the address returned, apart from all
  other blocks; and the blocks in use before are still there.
\<close>

definition own_block :: "blk list \<Rightarrow> blk list \<Rightarrow> blk \<Rightarrow> bool" where
  "own_block bs bs' b \<longleftrightarrow> b \<in> set bs' \<and> b_used b \<and>
     (\<forall>c\<in>set bs'. c \<noteq> b \<longrightarrow> b_addr c + b_len c \<le> b_addr b \<or> b_addr b + b_len b \<le> b_addr c) \<and>
     (\<forall>c\<in>set bs. b_used c \<longrightarrow> c \<in> set bs' \<and> c \<noteq> b)"

lemma malloc_block:
  assumes h: "heap_inv h lo hi bs" and m: "0 < m" "m < 2 ^ 63" and al: "pvPortMalloc h (of_nat m) = Some (p, h1)"
  shows "p = 0 \<Longrightarrow> h1 = h"
    "p \<noteq> 0 \<Longrightarrow> \<exists>bs' b. heap_inv h1 lo hi bs' \<and> own_block bs bs' b \<and> unat p = b_addr b + 16 \<and> unat p + m \<le> b_addr b + b_len b \<and>
       lo \<le> unat p \<and> unat p + m < 2 ^ 63"
proof -
  have found: "p \<noteq> 0 \<and> (\<exists>bs' b. heap_inv h1 lo hi bs' \<and> own_block bs bs' b \<and> unat p = b_addr b + 16 \<and> unat p + m \<le> b_addr b + b_len b \<and>
       lo \<le> unat p \<and> unat p + m < 2 ^ 63)" if a: "alloc_first (want m) bs = Some (a, bs')" for a bs'
  proof -
    have p: "p = of_nat (a + 16)" "heap_inv h1 lo hi bs'"
      using malloc_found [OF h m a] al by (auto simp: pvPortMalloc_def simp del: of_nat_add)
    obtain l n r where row: "bs = l @ Blk a n False # r" "want m \<le> n"
      "bs' = l @ (if 32 < n - want m then Blk a (want m) True # Blk (a + want m) (n - want m) False # r else Blk a n True # r)"
      using alloc_first_split [OF a] by blast
    define b where "b = Blk a (if 32 < n - want m then want m else n) True"
    have b: "b \<in> set bs'" "b_addr b = a" "b_used b" "want m \<le> b_len b" using row(2,3) by (simp_all add: b_def)
    note t = heap_invD(1,2) [OF p(2)]
    note pb = place_bounds [OF t b(1), unfolded b(2)]
    have w: "a + 16 + m \<le> a + b_len b" using b(4) want_bounds(1) [of m] by simp
    then have ua: "unat p = a + 16" using pb(4) unfolding p(1) by (intro unat_of_nat_lt) simp
    have dis: "\<forall>c\<in>set bs'. c \<noteq> b \<longrightarrow> b_addr c + b_len c \<le> b_addr b \<or> b_addr b + b_len b \<le> b_addr c"
      using tiles_disjoint [OF t(2) _ b(1)] by (metis b(2))
    note tb = place_bounds [OF heap_invD(1,2) [OF h]] and tl = heap_invD(2) [OF h]
    have old: "\<forall>c\<in>set bs. b_used c \<longrightarrow> c \<in> set bs' \<and> c \<noteq> b"
    proof (intro ballI impI)
      fix c assume c: "c \<in> set bs" "b_used c"
      then have n: "c \<noteq> Blk a n False" by auto
      have "c \<in> set l \<union> set r" using c n row(1) by auto
      moreover have "b_addr c \<noteq> a" using tiles_disjoint [OF tl c(1), of "Blk a n False"] n tb(5) [OF c(1)] tb(5) [of "Blk a n False"] row(1) by auto
      ultimately show "c \<in> set bs' \<and> c \<noteq> b" using row(3) b(2) by auto
    qed
    have "p \<noteq> 0" using ua by auto
    then show ?thesis using p(2) b dis old ua w pb(2,4) by (intro conjI exI [of _ bs'] exI [of _ b]) (simp_all add: own_block_def)
  qed
  show "p = 0 \<Longrightarrow> h1 = h"
    using malloc_full [OF h m] al found by (cases "alloc_first (want m) bs") (auto simp: pvPortMalloc_def)
  show "p \<noteq> 0 \<Longrightarrow> \<exists>bs' b. heap_inv h1 lo hi bs' \<and> own_block bs bs' b \<and> unat p = b_addr b + 16 \<and> unat p + m \<le> b_addr b + b_len b \<and>
       lo \<le> unat p \<and> unat p + m < 2 ^ 63"
    using malloc_full [OF h m] al found by (cases "alloc_first (want m) bs") (auto simp: pvPortMalloc_def)
qed

text \<open>C34: creating a queue of a non-zero length and item size on a well-formed heap returns, for sizes whose sum does
  not overflow (and an item no larger than the heap's own address, which every real item is). If there is no room the handle is null and nothing
  has changed. Otherwise one block of the heap, not in use before and apart from all others, holds both
  the \<open>Queue_t\<close> at the handle and right behind it the whole storage of length times item size bytes; the queue
  is empty, of the length and item size asked for, and its two lists are among those of the kernel;
  deleting it gives the heap its blocks back as they were.\<close>

theorem queue_create_delete:
  assumes "heap_inv h lo hi bs" "kernel_inv T D s" "waitS \<notin> D" "waitR \<notin> D" "waitS \<noteq> waitR"
    and "0 < unat len" "0 < unat z" "unat z \<le> lo" "unat len * unat z + 160 < 2 ^ 63"
  shows "\<exists>p oq h1 s1. xQueueGenericCreate h waitS waitR memory len z qt s = Some (p, oq, h1, s1) \<and>
    (if p = 0 then oq = None \<and> h1 = h \<and> s1 = s
     else \<exists>q h2 bs1 b. oq = Some q \<and> heap_inv h1 lo hi bs1 \<and> own_block bs bs1 b \<and> unat p = b_addr b + 16 \<and>
       unat (qStorageAt q) = unat p + 160 \<and> length (qStorage q) = unat len * unat z \<and>
       unat (qStorageAt q) + unat len * unat z \<le> b_addr b + b_len b \<and>
       queue_inv T (insert waitR (insert waitS D)) (q, s1) \<and> queue_items q = [] \<and> uxLength q = len \<and>
       uxItemSize q = z \<and> vQueueDelete h1 p q = Some h2 \<and> heap_inv h2 lo hi bs)"
proof -
  let ?N = "unat len * unat z"
  have N: "unat (len * z) = ?N" using assms(9) by (subst unat_mult_lem [THEN iffD1]) simp_all
  have "unat (sizeof_Queue + len * z) = 160 + ?N" using N assms(9) by (subst unat_add_lt) (simp_all add: sizeof_Queue_def)
  then have sz: "sizeof_Queue + len * z = of_nat (160 + ?N)" by (rule eq_of_nat_unat)
  have N0: "0 < 160 + ?N" "160 + ?N < 2 ^ 63" using assms(9) by simp_all
  obtain p h1 where al: "pvPortMalloc h (of_nat (160 + ?N)) = Some (p, h1)"
    using malloc_full [OF assms(1) N0] malloc_found [OF assms(1) N0]
    by (cases "alloc_first (want (160 + ?N)) bs") (auto simp: pvPortMalloc_def simp del: of_nat_add)
  show ?thesis
  proof (cases "p = 0")
    case True
    then show ?thesis using al malloc_block(1) [OF assms(1) N0 al] unfolding xQueueGenericCreate_def Let_def sz by (simp del: of_nat_add)
  next
    case False
    obtain bs1 b where b: "heap_inv h1 lo hi bs1" "own_block bs bs1 b" "unat p = b_addr b + 16" "unat p + (160 + ?N) \<le> b_addr b + b_len b"
      "lo \<le> unat p" "unat p + (160 + ?N) < 2 ^ 63"
      using malloc_block(2) [OF assms(1) N0 al False] by blast
    have a: "unat (p + sizeof_Queue) = unat p + 160" using b(6) by (subst unat_add_lt) (simp_all add: sizeof_Queue_def)
    define q0 where "q0 = memory\<lparr>xTasksWaitingToSend := waitS, xTasksWaitingToReceive := waitR, qStorageAt := p + sizeof_Queue,
      qStorage := map (\<lambda>i. hp_mem h1 (p + sizeof_Queue + of_nat i)) [0..<unat (len * z)], qStaticallyAllocated := False\<rparr>"
    have z: "unat z \<le> unat (p + sizeof_Queue)" "unat (p + sizeof_Queue) + ?N < 2 ^ 64" "length (qStorage q0) = ?N"
      "qStorageAt q0 = p + sizeof_Queue" "xTasksWaitingToSend q0 = waitS" "xTasksWaitingToReceive q0 = waitR"
      using a b(5,6) assms(8) N by (simp_all add: q0_def)
    obtain q s' where q: "prvInitialiseNewQueue p len z (p + sizeof_Queue) qt (q0, s) = Some (q, s')"
      "queue_inv T (insert waitR (insert waitS D)) (q, s')" "queue_items q = []" "uxLength q = len" "uxItemSize q = z"
      "qStaticallyAllocated q = qStaticallyAllocated q0" "qStorageAt q = qStorageAt q0" "length (qStorage q) = length (qStorage q0)"
      by (rule initialise_new_queue [OF assms(2-7) z]) blast
    have run: "xQueueGenericCreate h waitS waitR memory len z qt s = Some (p, Some q, h1, s')"
      using False al q(1) unfolding xQueueGenericCreate_def Let_def sz q0_def by (simp del: of_nat_add)
    obtain h2 where h2: "vPortFree h1 p = Some h2" "heap_inv h2 lo hi bs" using malloc_free_row [OF assms(1) N0 al False] by blast
    have del: "vQueueDelete h1 p q = Some h2" using q(6) h2(1) by (simp add: vQueueDelete_def q0_def)
    have st: "unat (qStorageAt q) = unat p + 160" "length (qStorage q) = ?N" "unat (qStorageAt q) + ?N \<le> b_addr b + b_len b"
      using q(7,8) z(3,4) a b(4) by simp_all
    show ?thesis
      by (intro exI [of _ p] exI [of _ "Some q"] exI [of _ h1] exI [of _ s'] conjI run, subst if_not_P [OF False])
        (intro exI [of _ q] exI [of _ h2] exI [of _ bs1] exI [of _ b] conjI refl b(1-3) st q(2-5) del h2(2))
  qed
qed

lemma create_succeeds:
  assumes "pvPortMalloc h (sizeof_Queue + len * z) = Some (p, h1)" "p \<noteq> 0"
  shows "\<exists>oq s1. xQueueGenericCreate h waitS waitR memory len z qt s = Some (p, oq, h1, s1)"
  using assms by (simp add: xQueueGenericCreate_def prvInitialiseNewQueue_def xQueueGenericReset_def Let_def)

theorem queue_create_delete_witness:
  "\<exists>s0 q h1 s1 h2. vTaskStartScheduler (Some 7) (Some 0) True (Some 8) (Some 1) ex_reset = Some s0 \<and>
     xQueueGenericCreate (prvHeapInit ex_heap) 41 42 ex_queue 10 4 0 s0 = Some (0x40000020, Some q, h1, s1) \<and>
     queue_items q = [] \<and> vQueueDelete h1 0x40000020 q = Some h2 \<and> heap_inv h2 (heap_lo ex_heap) (heap_hi ex_heap) ex_row"
proof -
  obtain s0 where s0: "vTaskStartScheduler (Some 7) (Some 0) True (Some 8) (Some 1) ex_reset = Some s0" "system_inv 0 {..40} ({1, 0}, s0)"
    by (rule ex_started)
  have "alloc_first (want 200) ex_row = Some (0x40000010, [Blk 0x40000010 224 True, Blk 0x400000F0 0x3FF00 False])"
    by (simp add: ex_row_def ex_heap_def heap_lo_def heap_hi_def want_def)
  then obtain h1 where "pvPortMalloc (prvHeapInit ex_heap) (sizeof_Queue + 10 * 4) = Some (0x40000020, h1)"
    using malloc_found [OF ex_row(1), of 200] by (auto simp: pvPortMalloc_def sizeof_Queue_def)
  then obtain oq s1 where c: "xQueueGenericCreate (prvHeapInit ex_heap) 41 42 ex_queue 10 4 0 s0 = Some (0x40000020, oq, h1, s1)"
    using create_succeeds [where h = "prvHeapInit ex_heap" and len = 10 and z = 4 and p = "0x40000020"] by fastforce
  have "unat (4 :: u64) \<le> heap_lo ex_heap" by (simp add: ex_heap_def heap_lo_def)
  from queue_create_delete [OF ex_row(1) system_kernel [OF s0(2)] _ _ _ _ _ this, of 41 42 10 ex_queue 0] s0(1) c show ?thesis by auto
qed

text \<open>C35: the size of the storage is a product that nothing checks (the assertion is empty). When it wraps to
  zero the queue is created, with no storage at all, and the first send writes outside its block.\<close>

theorem queue_create_wraps:
  assumes "len * z = 0" "len \<noteq> 0" "z \<noteq> 0" "length item = unat z"
    and "xQueueGenericCreate h waitS waitR memory len z qt s = Some (p, oq, h1, s1)" "p \<noteq> 0"
  shows "pvPortMalloc h sizeof_Queue = Some (p, h1) \<and> (\<exists>q. oq = Some q \<and> uxLength q = len \<and> uxItemSize q = z \<and>
    xQueueGenericSend envs item ticks queueSEND_TO_BACK (q, s1) = None)"
proof -
  have al: "pvPortMalloc h sizeof_Queue = Some (p, h1)"
    using assms(1,5,6) by (auto simp: xQueueGenericCreate_def Let_def bind_eq_Some_conv split: if_splits)
  define q where "q = memory\<lparr>xTasksWaitingToSend := waitS, xTasksWaitingToReceive := waitR, qStorageAt := p + sizeof_Queue,
    qStorage := [], qStaticallyAllocated := False, pcHead := p + sizeof_Queue, uxLength := len, uxItemSize := z,
    pcTail := Address (p + sizeof_Queue), uxMessagesWaiting := 0, pcWriteTo := p + sizeof_Queue,
    pcReadFrom := p + sizeof_Queue + (len - 1) * z, cRxLock := queueUNLOCKED, cTxLock := queueUNLOCKED, ucQueueType := qt\<rparr>"
  have q: "oq = Some q"
    using assms(1,3,5,6) al by (auto simp: xQueueGenericCreate_def prvInitialiseNewQueue_def xQueueGenericReset_def Let_def q_def)
  have "0 < unat z" "0 < len" using assms(2,3) by (simp_all add: unat_gt_0 word_neq_0_conv)
  moreover from this have "item \<noteq> []" using assms(4) by auto
  ultimately have "copy_item_in q (pcWriteTo q) item = None"
    using assms(4) by (simp add: copy_item_in_def copy_out_def copy_in_def q_def)
  then have "prvCopyDataToQueue item queueSEND_TO_BACK (q, s1) = None"
    using assms(3) by (simp add: prvCopyDataToQueue_def q_def)
  then have "send_enter item queueSEND_TO_BACK ticks None (q, s1) = None"
    using \<open>0 < len\<close> by (simp add: send_enter_def q_def)
  then show ?thesis using al q by (simp add: xQueueGenericSend_def send_loop.simps q_def)
qed

theorem queue_create_wraps_witness:
  "\<exists>h1 q s1. xQueueGenericCreate (prvHeapInit ex_heap) 41 42 ex_queue (2 ^ 63) 2 0 ex_reset = Some (0x40000020, Some q, h1, s1) \<and>
     xQueueGenericSend [] [5, 6] 0 queueSEND_TO_BACK (q, s1) = None"
proof -
  have "alloc_first (want 160) ex_row = Some (0x40000010, [Blk 0x40000010 176 True, Blk 0x400000C0 0x3FF30 False])"
    by (simp add: ex_row_def ex_heap_def heap_lo_def heap_hi_def want_def)
  then obtain h1 where "pvPortMalloc (prvHeapInit ex_heap) sizeof_Queue = Some (0x40000020, h1)"
    using malloc_found [OF ex_row(1), of 160] by (auto simp: pvPortMalloc_def sizeof_Queue_def)
  moreover have z: "2 ^ 63 * 2 = (0 :: u64)" "2 ^ 63 \<noteq> (0 :: u64)"
    unfolding power_Suc2 [symmetric] exp_eq_zero_iff by simp_all
  ultimately have "pvPortMalloc (prvHeapInit ex_heap) (sizeof_Queue + 2 ^ 63 * 2) = Some (0x40000020, h1)" by (simp only: z add_0_right)
  then obtain oq s1 where c: "xQueueGenericCreate (prvHeapInit ex_heap) 41 42 ex_queue (2 ^ 63) 2 0 ex_reset = Some (0x40000020, oq, h1, s1)"
    using create_succeeds [where h = "prvHeapInit ex_heap" and len = "2 ^ 63" and z = 2 and p = "0x40000020"] by fastforce
  have "length [5, 6 :: u8] = unat (2 :: u64)" by simp
  from queue_create_wraps [OF z _ this c, of "[]" 0] c show ?thesis by auto
qed

end
