(* ===== verification/Event_Group.thy ===== *)
theory Event_Group
  imports Heap4 Task_Sync
begin

unbundle bit_operations_syntax

text \<open>
  Event groups, \<^verbatim>\<open>FreeRTOS/Source/event_groups.c\<close>: a word of event bits and the list of the tasks
  that wait for bits. What a task waits for is the value of its event item: the bits and, in the
  control byte, whether it waits for all of them and whether they are cleared for it. Ticks are 64
  bits wide here, so an event word has 56 event bits: the control byte is in its middle.

  \<open>ev_isr\<close> stands for the interrupts that come while a call holds the scheduler, \<open>ev_after\<close> for all
  that happens between the moment the scheduler runs again and the moment the caller does.
\<close>

definition eventCLEAR_EVENTS_ON_EXIT_BIT :: u64 where "eventCLEAR_EVENTS_ON_EXIT_BIT = 0x01000000"
definition eventUNBLOCKED_DUE_TO_BIT_SET :: u64 where "eventUNBLOCKED_DUE_TO_BIT_SET = 0x02000000"
definition eventWAIT_FOR_ALL_BITS :: u64 where "eventWAIT_FOR_ALL_BITS = 0x04000000"
definition eventEVENT_BITS_CONTROL_BYTES :: u64 where "eventEVENT_BITS_CONTROL_BYTES = 0xff000000"

record EventGroup_t =
  uxEventBits :: u64
  xTasksWaitingForBits :: nat
  uxEventGroupNumber :: u64
  egStaticallyAllocated :: bool

definition sizeof_EventGroup :: u64 where "sizeof_EventGroup = 64"

type_synonym event_state = "EventGroup_t \<times> kernel"

record event_env =
  ev_isr :: "kernel \<Rightarrow> kernel option"
  ev_after :: "event_state \<Rightarrow> event_state option"

subsection \<open>Creation\<close>

definition xEventGroupCreateStatic :: "nat \<Rightarrow> EventGroup_t \<Rightarrow> u64 \<Rightarrow> kernel \<Rightarrow> u64 \<times> event_state" where
  "xEventGroupCreateStatic l memory pxEventGroupBuffer s =
     (let g = memory\<lparr>xTasksWaitingForBits := l\<rparr> in
      if pxEventGroupBuffer \<noteq> 0 then
        (let g = g\<lparr>uxEventBits := 0\<rparr>;
             s = s\<lparr>lists := vListInitialise (lists s) l\<rparr>
         in (pxEventGroupBuffer, g\<lparr>egStaticallyAllocated := True\<rparr>, s))
      else (pxEventGroupBuffer, g, s))"

definition xEventGroupCreate :: "heap4 \<Rightarrow> nat \<Rightarrow> EventGroup_t \<Rightarrow> kernel \<Rightarrow> (u64 \<times> EventGroup_t option \<times> heap4 \<times> kernel) option" where
  "xEventGroupCreate h l memory s = do {
     (pxEventBits, h) \<leftarrow> pvPortMalloc h sizeof_EventGroup;
     if pxEventBits \<noteq> 0 then do {
       let g = memory\<lparr>xTasksWaitingForBits := l\<rparr>;
       let g = g\<lparr>uxEventBits := 0\<rparr>;
       let s = s\<lparr>lists := vListInitialise (lists s) l\<rparr>;
       Some (pxEventBits, Some (g\<lparr>egStaticallyAllocated := False\<rparr>), h, s) }
     else Some (pxEventBits, None, h, s) }"

subsection \<open>Setting and clearing bits\<close>

definition listGET_END_MARKER :: "nat \<Rightarrow> node" where
  "listGET_END_MARKER pxList = End pxList"

definition listGET_NEXT :: "list_store \<Rightarrow> node \<Rightarrow> node" where
  "listGET_NEXT s pxListItem = pxNext s pxListItem"

definition listGET_LIST_ITEM_VALUE :: "list_store \<Rightarrow> node \<Rightarrow> u64" where
  "listGET_LIST_ITEM_VALUE s pxListItem = xItemValue s pxListItem"

definition prvTestWaitCondition :: "u64 \<Rightarrow> u64 \<Rightarrow> bool \<Rightarrow> bool" where
  "prvTestWaitCondition uxCurrentEventBits uxBitsToWaitFor xWaitForAllBits =
     (if \<not> xWaitForAllBits then (uxCurrentEventBits AND uxBitsToWaitFor) \<noteq> 0
      else (uxCurrentEventBits AND uxBitsToWaitFor) = uxBitsToWaitFor)"

text \<open>
  The walk over the waiting tasks. The next item is read before the current one may leave the list.
  \<open>bits\<close> is \<open>uxEventBits\<close>, which does not change on the way; the result has the bits to clear.
\<close>

partial_function (option) set_bits_loop :: "nat \<Rightarrow> u64 \<Rightarrow> node \<Rightarrow> u64 \<Rightarrow> kernel \<Rightarrow> (u64 \<times> kernel) option" where
  "set_bits_loop l bits pxListItem uxBitsToClear s =
     (if pxListItem \<noteq> listGET_END_MARKER l then do {
        let pxNext' = listGET_NEXT (lists s) pxListItem;
        let v = listGET_LIST_ITEM_VALUE (lists s) pxListItem;
        let uxControlBits = v AND eventEVENT_BITS_CONTROL_BYTES;
        let uxBitsWaitedFor = v AND NOT eventEVENT_BITS_CONTROL_BYTES;
        let xMatchFound = (if uxControlBits AND eventWAIT_FOR_ALL_BITS = 0 then (uxBitsWaitedFor AND bits) \<noteq> 0
                           else (uxBitsWaitedFor AND bits) = uxBitsWaitedFor);
        (uxBitsToClear, s) \<leftarrow> (if xMatchFound then do {
            let uxBitsToClear = (if uxControlBits AND eventCLEAR_EVENTS_ON_EXIT_BIT \<noteq> 0 then uxBitsToClear OR uxBitsWaitedFor
                                 else uxBitsToClear);
            s \<leftarrow> vTaskRemoveFromUnorderedEventList pxListItem (bits OR eventUNBLOCKED_DUE_TO_BIT_SET) s;
            Some (uxBitsToClear, s) }
          else Some (uxBitsToClear, s));
        set_bits_loop l bits pxNext' uxBitsToClear s }
      else Some (uxBitsToClear, s))"

text \<open>The part with the scheduler suspended.\<close>

definition set_bits_suspended :: "u64 \<Rightarrow> event_state \<Rightarrow> event_state option" where
  "set_bits_suspended uxBitsToSet = (\<lambda>(g, s). do {
     let pxListItem = listGET_HEAD_ENTRY (lists s) (xTasksWaitingForBits g);
     let g = g\<lparr>uxEventBits := uxEventBits g OR uxBitsToSet\<rparr>;
     (uxBitsToClear, s) \<leftarrow> set_bits_loop (xTasksWaitingForBits g) (uxEventBits g) pxListItem 0 s;
     Some (g\<lparr>uxEventBits := uxEventBits g AND NOT uxBitsToClear\<rparr>, s) })"

definition xEventGroupSetBits :: "event_env \<Rightarrow> u64 \<Rightarrow> event_state \<Rightarrow> (u64 \<times> event_state) option" where
  "xEventGroupSetBits e uxBitsToSet = (\<lambda>(g, s). do {
     (g, s) \<leftarrow> set_bits_suspended uxBitsToSet (g, vTaskSuspendAll s);
     s \<leftarrow> ev_isr e s;
     (_, s) \<leftarrow> xTaskResumeAll s;
     (g, s) \<leftarrow> ev_after e (g, s);
     Some (uxEventBits g, g, s) })"

definition xEventGroupClearBits :: "u64 \<Rightarrow> EventGroup_t \<Rightarrow> u64 \<times> EventGroup_t" where
  "xEventGroupClearBits uxBitsToClear g =
     (let uxReturn = uxEventBits g in (uxReturn, g\<lparr>uxEventBits := uxEventBits g AND NOT uxBitsToClear\<rparr>))"

definition xEventGroupGetBitsFromISR :: "EventGroup_t \<Rightarrow> u64" where
  "xEventGroupGetBitsFromISR g = uxEventBits g"

text \<open>The call-backs that the timer task runs for the calls from interrupts; the bits are 32 bits wide there.\<close>

definition vEventGroupSetBitsCallback :: "event_env \<Rightarrow> u32 \<Rightarrow> event_state \<Rightarrow> event_state option" where
  "vEventGroupSetBitsCallback e ulBitsToSet x = map_option snd (xEventGroupSetBits e (ucast ulBitsToSet) x)"

definition vEventGroupClearBitsCallback :: "u32 \<Rightarrow> EventGroup_t \<Rightarrow> EventGroup_t" where
  "vEventGroupClearBitsCallback ulBitsToClear g = snd (xEventGroupClearBits (ucast ulBitsToClear) g)"

subsection \<open>Waiting\<close>

text \<open>
  The part of a wait with the scheduler suspended: the result, and the ticks left, which are 0 if
  the call does not wait. \<open>ctrl\<close> are the control bits.
\<close>

definition wait_bits_suspended :: "u64 \<Rightarrow> bool \<Rightarrow> bool \<Rightarrow> u64 \<Rightarrow> event_state \<Rightarrow> (u64 \<times> u64 \<times> event_state) option" where
  "wait_bits_suspended uxBitsToWaitFor xClearOnExit xWaitForAllBits xTicksToWait = (\<lambda>(g, s).
     (let uxCurrentEventBits = uxEventBits g in
      if prvTestWaitCondition uxCurrentEventBits uxBitsToWaitFor xWaitForAllBits then
        Some (uxCurrentEventBits, 0,
          if xClearOnExit then g\<lparr>uxEventBits := uxEventBits g AND NOT uxBitsToWaitFor\<rparr> else g, s)
      else if xTicksToWait = 0 then Some (uxCurrentEventBits, xTicksToWait, g, s)
      else do {
        let uxControlBits = 0;
        let uxControlBits = (if xClearOnExit then uxControlBits OR eventCLEAR_EVENTS_ON_EXIT_BIT else uxControlBits);
        let uxControlBits = (if xWaitForAllBits then uxControlBits OR eventWAIT_FOR_ALL_BITS else uxControlBits);
        s \<leftarrow> vTaskPlaceOnUnorderedEventList (xTasksWaitingForBits g) (uxBitsToWaitFor OR uxControlBits) xTicksToWait s;
        Some (0, xTicksToWait, g, s) }))"

text \<open>After the wait: the event item has the bits at the time they were set, or there was a time-out.\<close>

definition wait_bits_leave :: "u64 \<Rightarrow> bool \<Rightarrow> bool \<Rightarrow> event_state \<Rightarrow> (u64 \<times> event_state) option" where
  "wait_bits_leave uxBitsToWaitFor xClearOnExit xWaitForAllBits = (\<lambda>(g, s). do {
     (uxReturn, s) \<leftarrow> uxTaskResetEventItemValue s;
     let (uxReturn, g) = (if uxReturn AND eventUNBLOCKED_DUE_TO_BIT_SET = 0 then
         (uxEventBits g,
          if prvTestWaitCondition (uxEventBits g) uxBitsToWaitFor xWaitForAllBits then
            if xClearOnExit then g\<lparr>uxEventBits := uxEventBits g AND NOT uxBitsToWaitFor\<rparr> else g
          else g)
       else (uxReturn, g));
     Some (uxReturn AND NOT eventEVENT_BITS_CONTROL_BYTES, g, s) })"

definition xEventGroupWaitBits :: "event_env \<Rightarrow> u64 \<Rightarrow> bool \<Rightarrow> bool \<Rightarrow> u64 \<Rightarrow> event_state \<Rightarrow> (u64 \<times> event_state) option" where
  "xEventGroupWaitBits e uxBitsToWaitFor xClearOnExit xWaitForAllBits xTicksToWait = (\<lambda>(g, s). do {
     (uxReturn, xTicksToWait, g, s) \<leftarrow>
       wait_bits_suspended uxBitsToWaitFor xClearOnExit xWaitForAllBits xTicksToWait (g, vTaskSuspendAll s);
     s \<leftarrow> ev_isr e s;
     (xAlreadyYielded, s) \<leftarrow> xTaskResumeAll s;
     if xTicksToWait \<noteq> 0 then do {
       let s = (if \<not> xAlreadyYielded then portYIELD s else s);
       (g, s) \<leftarrow> ev_after e (g, s);
       wait_bits_leave uxBitsToWaitFor xClearOnExit xWaitForAllBits (g, s) }
     else Some (uxReturn, g, s) })"

text \<open>
  A rendezvous: set the caller's bits, then wait for the bits of all. The call of
  \<open>xEventGroupSetBits\<close> is inside the caller's own suspension, so nobody else runs after it.
\<close>

definition sync_suspended :: "event_env \<Rightarrow> u64 \<Rightarrow> u64 \<Rightarrow> u64 \<Rightarrow> event_state \<Rightarrow> (u64 \<times> u64 \<times> event_state) option" where
  "sync_suspended e uxBitsToSet uxBitsToWaitFor xTicksToWait = (\<lambda>(g, s). do {
     let uxOriginalBitValue = uxEventBits g;
     (_, g, s) \<leftarrow> xEventGroupSetBits (e\<lparr>ev_after := Some\<rparr>) uxBitsToSet (g, s);
     if ((uxOriginalBitValue OR uxBitsToSet) AND uxBitsToWaitFor) = uxBitsToWaitFor then
       Some (uxOriginalBitValue OR uxBitsToSet, 0, g\<lparr>uxEventBits := uxEventBits g AND NOT uxBitsToWaitFor\<rparr>, s)
     else if xTicksToWait \<noteq> 0 then do {
       s \<leftarrow> vTaskPlaceOnUnorderedEventList (xTasksWaitingForBits g)
         (uxBitsToWaitFor OR eventCLEAR_EVENTS_ON_EXIT_BIT OR eventWAIT_FOR_ALL_BITS) xTicksToWait s;
       Some (0, xTicksToWait, g, s) }
     else Some (uxEventBits g, xTicksToWait, g, s) })"

definition sync_leave :: "u64 \<Rightarrow> event_state \<Rightarrow> (u64 \<times> event_state) option" where
  "sync_leave uxBitsToWaitFor = (\<lambda>(g, s). do {
     (uxReturn, s) \<leftarrow> uxTaskResetEventItemValue s;
     let (uxReturn, g) = (if uxReturn AND eventUNBLOCKED_DUE_TO_BIT_SET = 0 then
         (uxEventBits g,
          if (uxEventBits g AND uxBitsToWaitFor) = uxBitsToWaitFor
          then g\<lparr>uxEventBits := uxEventBits g AND NOT uxBitsToWaitFor\<rparr> else g)
       else (uxReturn, g));
     Some (uxReturn AND NOT eventEVENT_BITS_CONTROL_BYTES, g, s) })"

definition xEventGroupSync :: "event_env \<Rightarrow> u64 \<Rightarrow> u64 \<Rightarrow> u64 \<Rightarrow> event_state \<Rightarrow> (u64 \<times> event_state) option" where
  "xEventGroupSync e uxBitsToSet uxBitsToWaitFor xTicksToWait = (\<lambda>(g, s). do {
     (uxReturn, xTicksToWait, g, s) \<leftarrow> sync_suspended e uxBitsToSet uxBitsToWaitFor xTicksToWait (g, vTaskSuspendAll s);
     s \<leftarrow> ev_isr e s;
     (xAlreadyYielded, s) \<leftarrow> xTaskResumeAll s;
     if xTicksToWait \<noteq> 0 then do {
       let s = (if \<not> xAlreadyYielded then portYIELD s else s);
       (g, s) \<leftarrow> ev_after e (g, s);
       sync_leave uxBitsToWaitFor (g, s) }
     else Some (uxReturn, g, s) })"

subsection \<open>Deletion\<close>

text \<open>All tasks that wait are released, as if a bit had been set: their wait returns 0.\<close>

partial_function (option) delete_loop :: "nat \<Rightarrow> kernel \<Rightarrow> kernel option" where
  "delete_loop l s =
     (if uxNumberOfItems (lists s) l > 0 then do {
        s \<leftarrow> vTaskRemoveFromUnorderedEventList (listGET_HEAD_ENTRY (lists s) l) eventUNBLOCKED_DUE_TO_BIT_SET s;
        delete_loop l s }
      else Some s)"

definition vEventGroupDelete :: "event_env \<Rightarrow> heap4 \<Rightarrow> u64 \<Rightarrow> event_state \<Rightarrow> (heap4 \<times> kernel) option" where
  "vEventGroupDelete e h xEventGroup = (\<lambda>(g, s). do {
     s \<leftarrow> delete_loop (xTasksWaitingForBits g) (vTaskSuspendAll s);
     h \<leftarrow> (if \<not> egStaticallyAllocated g then vPortFree h xEventGroup else Some h);
     s \<leftarrow> ev_isr e s;
     (_, s) \<leftarrow> xTaskResumeAll s;
     Some (h, s) })"

definition uxEventGroupGetNumber :: "EventGroup_t option \<Rightarrow> u64" where
  "uxEventGroupGetNumber xEventGroup = (case xEventGroup of None \<Rightarrow> 0 | Some g \<Rightarrow> uxEventGroupNumber g)"

definition vEventGroupSetNumber :: "u64 \<Rightarrow> EventGroup_t \<Rightarrow> EventGroup_t" where
  "vEventGroupSetNumber n g = g\<lparr>uxEventGroupNumber := n\<rparr>"

end
