(* ===== verification/Event_Kept.thy ===== *)
theory Event_Kept
  imports Event_Group Task_System
begin

text \<open>
  What the kernel does to the event items of tasks: the calls that resume the scheduler and the tick take
  them out of their lists, and never change their values.
\<close>

definition events_kept :: "kernel \<Rightarrow> kernel \<Rightarrow> bool" where
  "events_kept s s' \<longleftrightarrow> (\<forall>u. xItemValue (lists s') (xEventListItem u) = xItemValue (lists s) (xEventListItem u) \<and>
     (pxContainer (lists s') (xEventListItem u) = pxContainer (lists s) (xEventListItem u) \<or>
      pxContainer (lists s') (xEventListItem u) = None))"

lemma events_kept_refl [simp]: "events_kept s s" by (simp add: events_kept_def)

lemma events_kept_trans: "events_kept s s1 \<Longrightarrow> events_kept s1 s2 \<Longrightarrow> events_kept s s2"
  unfolding events_kept_def by metis

lemma events_kept_lists: "lists s' = lists s \<Longrightarrow> events_kept s s'" by (simp add: events_kept_def)

lemma kept_after_lists: "lists s1 = lists s \<Longrightarrow> events_kept s1 s' \<Longrightarrow> events_kept s s'" by (simp add: events_kept_def)

lemma event_state_item [simp]: "xEventListItem u \<noteq> xStateListItem t" "xStateListItem t \<noteq> xEventListItem u"
  "xEventListItem u = xEventListItem t \<longleftrightarrow> u = t" "xStateListItem u = xStateListItem t \<longleftrightarrow> u = t"
  by (auto simp: xEventListItem_def xStateListItem_def) presburger+

lemma remove_parts:
  assumes "kListRemove x s = Some (n, s')"
  shows "pxContainer (lists s') = (pxContainer (lists s))(x := None)" "xItemValue (lists s') = xItemValue (lists s)"
    "tcb s' = tcb s" "pxCurrentTCB s' = pxCurrentTCB s" "pxContainer (lists s) x \<noteq> None"
  using assms by (auto simp: kListRemove_def uxListRemove_def Let_def bind_eq_Some_conv split: if_splits)

lemma kept_remove: "kListRemove x s = Some (n, s') \<Longrightarrow> events_kept s s'"
  using remove_parts(1,2) [of x s n s'] by (simp add: events_kept_def)

lemma kept_leave: "leave_event_list t s = Some s' \<Longrightarrow> events_kept s s'"
  by (auto simp: leave_event_list_def split: if_splits dest: kept_remove)

lemma ready_parts:
  assumes "prvAddTaskToReadyList t s = Some s'"
  obtains p where "p < 32" "lists s' = vListInsertEnd (lists s) p (xStateListItem t)" "tcb s' = tcb s" "pxCurrentTCB s' = pxCurrentTCB s"
  using assms by (auto simp: prvAddTaskToReadyList_def pxReadyTasksLists_def bind_eq_Some_conv Let_def word_less_nat_alt split: if_splits)

lemma kept_ready: "prvAddTaskToReadyList t s = Some s' \<Longrightarrow> events_kept s s'"
  by (erule ready_parts) (simp add: events_kept_def)

lemma kept_unblock_loop:
  assumes "unblock_loop n b s = Some x"
  shows "events_kept s (snd x)"
proof (rule unblock_loop.raw_induct [where P = "\<lambda>n b s x. events_kept s (snd x)", OF _ assms])
  fix f n b s and x :: "bool \<times> kernel"
  assume ih: "\<And>n b s x. f n b s = Some x \<Longrightarrow> events_kept s (snd x)"
    and run: "(if listLIST_IS_EMPTY (lists s) (pxDelayedTaskList s)
      then Some (b, s\<lparr>xNextTaskUnblockTime := portMAX_DELAY\<rparr>)
      else do {
        let t = listGET_OWNER_OF_HEAD_ENTRY (lists s) (pxDelayedTaskList s);
        let xItemValue = xItemValue (lists s) (xStateListItem t);
        if n < xItemValue then Some (b, s\<lparr>xNextTaskUnblockTime := xItemValue\<rparr>)
        else do {
          (_, s) \<leftarrow> kListRemove (xStateListItem t) s;
          s \<leftarrow> leave_event_list t s;
          s \<leftarrow> prvAddTaskToReadyList t s;
          cur \<leftarrow> pxCurrentTCB s;
          f n (b \<or> uxPriority (tcb s t) \<ge> uxPriority (tcb s cur)) s } }) = Some x"
  show "events_kept s (snd x)"
  proof (cases "listLIST_IS_EMPTY (lists s) (pxDelayedTaskList s) \<or>
      n < xItemValue (lists s) (xStateListItem (listGET_OWNER_OF_HEAD_ENTRY (lists s) (pxDelayedTaskList s)))")
    case True
    then show ?thesis using run by (auto simp: Let_def intro: events_kept_lists split: if_splits)
  next
    case False
    let ?t = "listGET_OWNER_OF_HEAD_ENTRY (lists s) (pxDelayedTaskList s)"
    obtain m s1 s2 s3 c where r: "kListRemove (xStateListItem ?t) s = Some (m, s1)" "leave_event_list ?t s1 = Some s2"
      "prvAddTaskToReadyList ?t s2 = Some s3" "f n (b \<or> uxPriority (tcb s3 ?t) \<ge> uxPriority (tcb s3 c)) s3 = Some x"
      using run False by (auto simp: Let_def bind_eq_Some_conv)
    show ?thesis
      using kept_remove [OF r(1)] kept_leave [OF r(2)] kept_ready [OF r(3)] ih [OF r(4)] by (blast intro: events_kept_trans)
  qed
qed

lemma kept_switch_delayed: "events_kept s (taskSWITCH_DELAYED_LISTS s)"
  by (rule events_kept_lists) (simp add: taskSWITCH_DELAYED_LISTS_def prvResetNextTaskUnblockTime_def Let_def)

lemma kept_tick:
  assumes "xTaskIncrementTick s = Some (r, s')"
  shows "events_kept s s'"
proof (cases "uxSchedulerSuspended s = 0")
  case True
  define s0 where "s0 = (if xTickCount s + 1 = 0 then taskSWITCH_DELAYED_LISTS (s\<lparr>xTickCount := xTickCount s + 1\<rparr>) else s\<lparr>xTickCount := xTickCount s + 1\<rparr>)"
  have "events_kept s s0"
    by (rule events_kept_lists) (simp add: s0_def taskSWITCH_DELAYED_LISTS_def prvResetNextTaskUnblockTime_def Let_def)
  moreover have "events_kept s0 s'"
    using assms True unfolding xTaskIncrementTick_def Let_def s0_def [symmetric]
    by (auto simp: bind_eq_Some_conv split: if_splits dest!: kept_unblock_loop)
  ultimately show ?thesis by (rule events_kept_trans)
next
  case False
  then show ?thesis using assms by (auto simp: xTaskIncrementTick_def intro: events_kept_lists)
qed

lemma kept_pending_loop:
  assumes "pending_loop b s = Some x"
  shows "events_kept s (snd x)"
proof (rule pending_loop.raw_induct [where P = "\<lambda>b s x. events_kept s (snd x)", OF _ assms])
  fix f b s and x :: "bool \<times> kernel"
  assume ih: "\<And>b s x. f b s = Some x \<Longrightarrow> events_kept s (snd x)"
    and run: "(if \<not> listLIST_IS_EMPTY (lists s) xPendingReadyList then do {
        let t = listGET_OWNER_OF_HEAD_ENTRY (lists s) xPendingReadyList;
        (_, s) \<leftarrow> kListRemove (xEventListItem t) s;
        (_, s) \<leftarrow> kListRemove (xStateListItem t) s;
        s \<leftarrow> prvAddTaskToReadyList t s;
        cur \<leftarrow> pxCurrentTCB s;
        let s = (if uxPriority (tcb s t) \<ge> uxPriority (tcb s cur) then s\<lparr>xYieldPending := True\<rparr> else s);
        f True s }
      else Some (b, s)) = Some x"
  show "events_kept s (snd x)"
  proof (cases "listLIST_IS_EMPTY (lists s) xPendingReadyList")
    case True
    then show ?thesis using run by auto
  next
    case False
    let ?t = "listGET_OWNER_OF_HEAD_ENTRY (lists s) xPendingReadyList"
    obtain m s1 m' s2 s3 c where r: "kListRemove (xEventListItem ?t) s = Some (m, s1)" "kListRemove (xStateListItem ?t) s1 = Some (m', s2)"
      "prvAddTaskToReadyList ?t s2 = Some s3"
      "f True (if uxPriority (tcb s3 ?t) \<ge> uxPriority (tcb s3 c) then s3\<lparr>xYieldPending := True\<rparr> else s3) = Some x"
      using run False by (auto simp: Let_def bind_eq_Some_conv)
    have "events_kept s3 (snd x)" using ih [OF r(4)] by (rule kept_after_lists [rotated]) simp
    then show ?thesis
      using kept_remove [OF r(1)] kept_remove [OF r(2)] kept_ready [OF r(3)] by (blast intro: events_kept_trans)
  qed
qed

lemma kept_pended_ticks:
  assumes "pended_ticks_loop n s = Some s'"
  shows "events_kept s s'"
proof (rule pended_ticks_loop.raw_induct [where P = "\<lambda>n s x. events_kept s x", OF _ assms])
  fix f n s s'
  assume ih: "\<And>n s x. f n s = Some x \<Longrightarrow> events_kept s x"
    and run: "(do {
     (xSwitchRequired, s) \<leftarrow> xTaskIncrementTick s;
     let s = (if xSwitchRequired then s\<lparr>xYieldPending := True\<rparr> else s);
     if n - 1 > 0 then f (n - 1) s else Some s }) = Some s'"
  obtain b s1 where t: "xTaskIncrementTick s = Some (b, s1)" using run by (cases "xTaskIncrementTick s") auto
  define s2 where "s2 = (if b then s1\<lparr>xYieldPending := True\<rparr> else s1)"
  have "lists s2 = lists s1" by (simp add: s2_def)
  moreover have "events_kept s2 s'"
    using run ih unfolding t by (auto simp: Let_def s2_def split: if_splits)
  ultimately show "events_kept s s'" using kept_tick [OF t] kept_after_lists events_kept_trans by blast
qed

lemma kept_resume:
  assumes "xTaskResumeAll s = Some (y, s')"
  shows "events_kept s s'"
proof -
  define s0 where "s0 = s\<lparr>uxSchedulerSuspended := uxSchedulerSuspended s - 1\<rparr>"
  have l0: "lists s0 = lists s" by (simp add: s0_def)
  show ?thesis
  proof (cases "uxSchedulerSuspended s0 = 0 \<and> uxCurrentNumberOfTasks s0 > 0")
    case False
    then show ?thesis using assms l0 unfolding xTaskResumeAll_def Let_def s0_def [symmetric] by (auto intro: events_kept_lists)
  next
    case True
    then obtain m s1 where p: "pending_loop False s0 = Some (m, s1)"
      using assms unfolding xTaskResumeAll_def Let_def s0_def [symmetric] by (cases "pending_loop False s0") auto
    define s2 where "s2 = (if m then prvResetNextTaskUnblockTime s1 else s1)"
    have l2: "lists s2 = lists s1" by (simp add: s2_def prvResetNextTaskUnblockTime_def)
    obtain s3 where s3: "(if xPendedTicks s2 > 0 then do { s \<leftarrow> pended_ticks_loop (xPendedTicks s2) s2; Some (s\<lparr>xPendedTicks := 0\<rparr>) } else Some s2) = Some s3"
      "lists s' = lists s3"
      using assms True unfolding xTaskResumeAll_def Let_def s0_def [symmetric]
      by (auto simp: p s2_def [symmetric] bind_eq_Some_conv split: if_splits)
    have k3: "events_kept s2 s3"
    proof (cases "xPendedTicks s2 > 0")
      case True
      then obtain s' where s': "pended_ticks_loop (xPendedTicks s2) s2 = Some s'" "s3 = s'\<lparr>xPendedTicks := 0\<rparr>"
        using s3(1) by (auto simp: bind_eq_Some_conv)
      show ?thesis by (rule events_kept_trans [OF kept_pended_ticks [OF s'(1)] events_kept_lists]) (simp add: s'(2))
    qed (use s3(1) in simp)
    have "events_kept s0 s1" using kept_pending_loop [OF p] by simp
    then have "events_kept s s1" by (rule kept_after_lists [OF l0])
    moreover have "events_kept s1 s3" by (rule kept_after_lists [OF l2 k3])
    ultimately show ?thesis using events_kept_lists [OF s3(2)] by (blast intro: events_kept_trans)
  qed
qed

end
