(* ===== verification/Event_Proof.thy ===== *)
theory Event_Proof
  imports Event_Kept
begin

text \<open>Setting event bits against the list of the waiting tasks and what each of them waits for.\<close>

subsection \<open>Waiting tasks\<close>

definition event_waited :: "u64 \<Rightarrow> u64" where "event_waited v = v AND NOT eventEVENT_BITS_CONTROL_BYTES"
definition event_all :: "u64 \<Rightarrow> bool" where "event_all v \<longleftrightarrow> (v AND eventEVENT_BITS_CONTROL_BYTES) AND eventWAIT_FOR_ALL_BITS \<noteq> 0"
definition event_clears :: "u64 \<Rightarrow> bool" where
  "event_clears v \<longleftrightarrow> (v AND eventEVENT_BITS_CONTROL_BYTES) AND eventCLEAR_EVENTS_ON_EXIT_BIT \<noteq> 0"

text \<open>Whether the bits release a task whose event item has value \<open>v\<close>, and the bits cleared for the released.\<close>

definition event_met :: "u64 \<Rightarrow> u64 \<Rightarrow> bool" where
  "event_met bits v \<longleftrightarrow> prvTestWaitCondition bits (event_waited v) (event_all v)"

definition clear_step :: "u64 \<Rightarrow> u64 \<Rightarrow> u64 \<Rightarrow> u64" where
  "clear_step bits v c = (if event_met bits v \<and> event_clears v then c OR event_waited v else c)"

definition event_mask :: "u64 \<Rightarrow> u64 list \<Rightarrow> u64" where
  "event_mask bits vs = fold (clear_step bits) vs 0"

text \<open>The tasks on a list, in order, with the values of their event items.\<close>

definition waiting :: "nat \<Rightarrow> kernel \<Rightarrow> (nat \<times> u64) list" where
  "waiting l s = map (\<lambda>x. (pvOwner (lists s) x, xItemValue (lists s) x)) (members (lists s) l)"

lemma event_members:
  assumes k: "kernel_inv T D s" and l: "36 < l" "l \<in> D"
  obtains ts where "members (lists s) l = map xEventListItem ts" "set ts \<subseteq> T" "distinct ts"
    "waiting l s = map (\<lambda>t. (t, xItemValue (lists s) (xEventListItem t))) ts"
proof -
  note ok = kinvD(1) [OF inv_kinv [OF k]]
  have own: "\<exists>t. x = xEventListItem t \<and> t \<in> T \<and> pvOwner (lists s) x = t" if "x \<in> set (members (lists s) l)" for x
    by (rule kernel_pending [OF ok _ that l(2)]) (use l(1) in auto)
  define ts where "ts = map (pvOwner (lists s)) (members (lists s) l)"
  have m: "members (lists s) l = map xEventListItem ts"
    unfolding ts_def map_map by (rule sym, rule map_idI) (use own in force)
  have "set ts \<subseteq> T" using own by (force simp: ts_def)
  moreover have "distinct ts" using members_distinct [OF kernel_lists [OF ok] l(2)] unfolding m by (simp add: distinct_map)
  moreover have "waiting l s = map (\<lambda>t. (t, xItemValue (lists s) (xEventListItem t))) ts"
    using \<open>set ts \<subseteq> T\<close> kernel_task(5) [OF ok] unfolding waiting_def m by auto
  ultimately show ?thesis using that m by blast
qed

subsection \<open>Releasing one task\<close>

lemma xEventListItem_Item: "xEventListItem t = Item (2 * t + 1)" "xStateListItem t = Item (2 * t)"
  by (simp_all add: xEventListItem_def xStateListItem_def)

lemma remove_unordered_lists:
  assumes k: "kernel_inv T D s" and t: "pxContainer (lists s) (xEventListItem t) = Some l" and l: "36 < l"
    and r: "vTaskRemoveFromUnorderedEventList (xEventListItem t) v s = Some s'"
  shows "members (lists s') l = remove1 (xEventListItem t) (members (lists s) l)" (is ?members)
    "xItemValue (lists s') = (xItemValue (lists s))(xEventListItem t := v OR taskEVENT_LIST_ITEM_VALUE_IN_USE)" (is ?itemval)
    "pvOwner (lists s') = pvOwner (lists s)" (is ?owner)
    "u \<noteq> t \<Longrightarrow> pxContainer (lists s') (xEventListItem u) = pxContainer (lists s) (xEventListItem u)"
    "pxContainer (lists s') (xEventListItem t) = None"
proof -
  note ok = kinvD(1) [OF inv_kinv [OF k]]
  define ls0 where "ls0 = (lists s)\<lparr>xItemValue := (xItemValue (lists s))(xEventListItem t := v OR taskEVENT_LIST_ITEM_VALUE_IN_USE)\<rparr>"
  have ok0: "list_ok D ls0" and m0: "members ls0 = members (lists s)"
    using list_ok_value [OF kernel_lists [OF ok]] by (simp_all add: ls0_def xEventListItem_Item members_def)
  have own: "pvOwner ls0 (xEventListItem t) = t"
    using kernel_task(5) [OF ok kernel_eventD(1) [OF ok t]] by (simp add: ls0_def)
  have c0: "pxContainer ls0 (xEventListItem t) = Some l" using t by (simp add: ls0_def)
  obtain n1 ls1 where r1: "uxListRemove ls0 (xEventListItem t) = Some (n1, ls1)" "list_ok D ls1"
    "members ls1 l = remove1 (xEventListItem t) (members ls0 l)" "pxContainer ls1 = (pxContainer ls0)(xEventListItem t := None)"
    "xItemValue ls1 = xItemValue ls0" "pvOwner ls1 = pvOwner ls0"
    by (rule list_ok_remove [OF ok0 c0]) blast
  obtain p where p: "pxContainer (lists s) (xStateListItem t) = Some p" "p < 32 \<or> p \<in> {32, 33, 35, 36}"
    by (rule inv_place [OF k kernel_eventD(1) [OF ok t]])
  have c1: "pxContainer ls1 (xStateListItem t) = Some p" using p(1) r1(4) by (simp add: ls0_def)
  obtain n2 ls2 where r2: "uxListRemove ls1 (xStateListItem t) = Some (n2, ls2)" "list_ok D ls2"
    "\<And>m. m \<in> D \<Longrightarrow> m \<noteq> p \<Longrightarrow> members ls2 m = members ls1 m" "pxContainer ls2 = (pxContainer ls1)(xStateListItem t := None)"
    "xItemValue ls2 = xItemValue ls1" "pvOwner ls2 = pvOwner ls1"
    by (rule list_ok_remove [OF r1(2) c1]) blast
  obtain s3 where s3: "prvAddTaskToReadyList t (s\<lparr>lists := ls2\<rparr>) = Some s3" "lists s' = lists s3"
    using r r1(1) r2(1) own
    by (auto simp: vTaskRemoveFromUnorderedEventList_def set_item_value_def kListRemove_def ls0_def [symmetric] Let_def bind_eq_Some_conv split: if_splits)
  obtain q where q: "q < 32" "lists s3 = vListInsertEnd ls2 q (xStateListItem t)" using ready_parts [OF s3(1)] by auto
  have lD: "l \<in> D" "l \<noteq> p" "l \<noteq> q" "q \<in> D" using list_ok_container [OF kernel_lists [OF ok] t] l p(2) q(1) kernel_dom [OF ok] by auto
  have t62: "2 * t < 2 ^ 63" using kernel_task(1) [OF ok kernel_eventD(1) [OF ok t]] by simp
  have "members (lists s3) l = members ls2 l"
    using list_ok_insert_end(2) [OF r2(2) lD(4) _ t62 lD(1,3)] r2(4) q(2) by (simp add: xEventListItem_Item)
  then show ?members using r1(3) r2(3) [OF lD(1,2)] s3(2) m0 by simp
  show ?itemval ?owner using s3(2) q(2) r1(5,6) r2(5,6) by (simp_all add: ls0_def)
  show "u \<noteq> t \<Longrightarrow> pxContainer (lists s') (xEventListItem u) = pxContainer (lists s) (xEventListItem u)"
    "pxContainer (lists s') (xEventListItem t) = None"
    using s3(2) q(2) r1(4) r2(4) by (simp_all add: ls0_def)
qed

subsection \<open>The walk over the list\<close>

lemma event_next:
  assumes k: "kernel_inv T D s" and l: "l \<in> D" and m: "members (lists s) l = ps @ x # xs"
  shows "pxNext (lists s) x = (if xs = [] then End l else hd xs)"
proof -
  have "klist (lists s) l (ps @ x # xs)" using list_okD [OF kernel_lists [OF kinvD(1) [OF inv_kinv [OF k]]] l] unfolding m .
  then show ?thesis using ring_list_next(1) [OF klist_ring] by blast
qed

declare set_bits_loop.simps [code]

lemma match_met:
  "(if (v AND eventEVENT_BITS_CONTROL_BYTES) AND eventWAIT_FOR_ALL_BITS = 0 then (v AND NOT eventEVENT_BITS_CONTROL_BYTES) AND bits \<noteq> 0
    else (v AND NOT eventEVENT_BITS_CONTROL_BYTES) AND bits = v AND NOT eventEVENT_BITS_CONTROL_BYTES) \<longleftrightarrow> event_met bits v"
  by (simp add: event_met_def prvTestWaitCondition_def event_all_def event_waited_def and.commute)

text \<open>What the walk over the tasks \<open>ts\<close> does.\<close>

definition walked :: "nat \<Rightarrow> u64 \<Rightarrow> nat list \<Rightarrow> kernel \<Rightarrow> kernel \<Rightarrow> bool" where
  "walked l bits ts s s' \<longleftrightarrow> frame {} s s' \<and> uxSchedulerSuspended s' = uxSchedulerSuspended s \<and>
     pvOwner (lists s') = pvOwner (lists s) \<and>
     (\<forall>u. if u \<in> set ts \<and> event_met bits (xItemValue (lists s) (xEventListItem u))
          then is_ready s' u \<and> pxContainer (lists s') (xEventListItem u) = None \<and>
            xItemValue (lists s') (xEventListItem u) = bits OR eventUNBLOCKED_DUE_TO_BIT_SET OR taskEVENT_LIST_ITEM_VALUE_IN_USE
          else pxContainer (lists s') (xEventListItem u) = pxContainer (lists s) (xEventListItem u) \<and>
            xItemValue (lists s') (xEventListItem u) = xItemValue (lists s) (xEventListItem u))"

lemma set_bits_walk:
  assumes "kernel_inv T D s" "36 < l" "l \<in> D" "members (lists s) l = ps @ map xEventListItem ts" "distinct ts"
  shows "\<exists>s'. set_bits_loop l bits (if ts = [] then End l else xEventListItem (hd ts)) c s =
      Some (fold (clear_step bits) (map (\<lambda>t. xItemValue (lists s) (xEventListItem t)) ts) c, s') \<and>
    kernel_inv T D s' \<and> walked l bits ts s s' \<and>
    members (lists s') l = ps @ map xEventListItem (filter (\<lambda>t. \<not> event_met bits (xItemValue (lists s) (xEventListItem t))) ts)"
  using assms
proof (induction ts arbitrary: s ps c)
  case Nil
  then show ?case
    by (subst set_bits_loop.simps) (auto simp: listGET_END_MARKER_def walked_def)
next
  case (Cons t ts)
  let ?v = "xItemValue (lists s) (xEventListItem t)"
  note lo = kernel_lists [OF kinvD(1) [OF inv_kinv [OF Cons.prems(1)]]]
  have nxt: "listGET_NEXT (lists s) (xEventListItem t) = (if ts = [] then End l else xEventListItem (hd ts))"
    using event_next [OF Cons.prems(1,3), of ps "xEventListItem t" "map xEventListItem ts"] Cons.prems(4)
    by (cases ts) (simp_all add: listGET_NEXT_def)
  have t: "pxContainer (lists s) (xEventListItem t) = Some l"
    using members_container [OF lo Cons.prems(3), of "xEventListItem t"] Cons.prems(4) by simp
  have ne: "xEventListItem t \<noteq> listGET_END_MARKER l" by (simp add: xEventListItem_Item listGET_END_MARKER_def)
  show ?case
  proof (cases "event_met bits ?v")
    case False
    then have step: "set_bits_loop l bits (xEventListItem t) c s = set_bits_loop l bits (if ts = [] then End l else xEventListItem (hd ts)) c s"
      by (subst set_bits_loop.simps) (simp only: Let_def listGET_LIST_ITEM_VALUE_def match_met nxt ne, simp)
    obtain s' where s': "set_bits_loop l bits (if ts = [] then End l else xEventListItem (hd ts)) c s =
        Some (fold (clear_step bits) (map (\<lambda>t. xItemValue (lists s) (xEventListItem t)) ts) c, s')"
      "kernel_inv T D s'" "walked l bits ts s s'"
      "members (lists s') l = (ps @ [xEventListItem t]) @
         map xEventListItem (filter (\<lambda>t. \<not> event_met bits (xItemValue (lists s) (xEventListItem t))) ts)"
      using Cons.IH [of s "ps @ [xEventListItem t]" c] Cons.prems by auto
    have "walked l bits (t # ts) s s'" using s'(3) False by (auto simp: walked_def)
    moreover have "clear_step bits ?v c = c" using False by (simp add: clear_step_def)
    ultimately show ?thesis using s' step False by (intro exI [of _ s']) simp
  next
    case True
    let ?b = "bits OR eventUNBLOCKED_DUE_TO_BIT_SET"
    obtain s1 where s1: "vTaskRemoveFromUnorderedEventList (xEventListItem t) ?b s = Some s1" "kernel_inv T D s1" "frame {} s s1"
      "uxSchedulerSuspended s1 = uxSchedulerSuspended s" "is_ready s1 t"
      using remove_from_unordered_event_list [OF Cons.prems(1) t, of ?b] by blast
    note rl = remove_unordered_lists [OF Cons.prems(1) t Cons.prems(2) s1(1)]
    have m1: "members (lists s1) l = ps @ map xEventListItem ts"
      using rl(1) Cons.prems(4) members_distinct [OF lo Cons.prems(3)] by (simp add: remove1_append)
    have same: "xItemValue (lists s1) (xEventListItem u) = xItemValue (lists s) (xEventListItem u)" if "u \<in> set ts" for u
      using rl(2) that Cons.prems(5) by auto
    have vals: "map (\<lambda>t. xItemValue (lists s1) (xEventListItem t)) ts = map (\<lambda>t. xItemValue (lists s) (xEventListItem t)) ts"
      "filter (\<lambda>t. \<not> event_met bits (xItemValue (lists s1) (xEventListItem t))) ts =
       filter (\<lambda>t. \<not> event_met bits (xItemValue (lists s) (xEventListItem t))) ts"
      using same by (auto intro: filter_cong)
    have step: "set_bits_loop l bits (xEventListItem t) c s = set_bits_loop l bits (if ts = [] then End l else xEventListItem (hd ts)) (clear_step bits ?v c) s1"
      using True by (subst set_bits_loop.simps) (simp only: Let_def listGET_LIST_ITEM_VALUE_def match_met nxt ne s1(1), simp add: clear_step_def event_clears_def event_waited_def)
    obtain s' where s': "set_bits_loop l bits (if ts = [] then End l else xEventListItem (hd ts)) (clear_step bits ?v c) s1 =
        Some (fold (clear_step bits) (map (\<lambda>t. xItemValue (lists s) (xEventListItem t)) ts) (clear_step bits ?v c), s')"
      "kernel_inv T D s'" "walked l bits ts s1 s'"
      "members (lists s') l = ps @ map xEventListItem (filter (\<lambda>t. \<not> event_met bits (xItemValue (lists s) (xEventListItem t))) ts)"
      using Cons.IH [OF s1(2) Cons.prems(2,3) m1, of "clear_step bits ?v c"] Cons.prems(5) unfolding vals by auto
    have "walked l bits (t # ts) s s'"
      unfolding walked_def
    proof (intro conjI allI)
      show "frame {} s s'" using s'(3) frame_trans [OF s1(3), of "{}" s' "{}"] by (simp add: walked_def)
      show "uxSchedulerSuspended s' = uxSchedulerSuspended s" "pvOwner (lists s') = pvOwner (lists s)"
        using s'(3) s1(4) rl(3) by (simp_all add: walked_def)
      fix u
      have w: "if u \<in> set ts \<and> event_met bits (xItemValue (lists s1) (xEventListItem u))
          then is_ready s' u \<and> pxContainer (lists s') (xEventListItem u) = None \<and>
            xItemValue (lists s') (xEventListItem u) = bits OR eventUNBLOCKED_DUE_TO_BIT_SET OR taskEVENT_LIST_ITEM_VALUE_IN_USE
          else pxContainer (lists s') (xEventListItem u) = pxContainer (lists s1) (xEventListItem u) \<and>
            xItemValue (lists s') (xEventListItem u) = xItemValue (lists s1) (xEventListItem u)"
        using s'(3) unfolding walked_def by blast
      have rd: "is_ready s' t" using s'(3) s1(5) by (simp add: walked_def frame_def)
      show "if u \<in> set (t # ts) \<and> event_met bits (xItemValue (lists s) (xEventListItem u))
          then is_ready s' u \<and> pxContainer (lists s') (xEventListItem u) = None \<and>
            xItemValue (lists s') (xEventListItem u) = bits OR eventUNBLOCKED_DUE_TO_BIT_SET OR taskEVENT_LIST_ITEM_VALUE_IN_USE
          else pxContainer (lists s') (xEventListItem u) = pxContainer (lists s) (xEventListItem u) \<and>
            xItemValue (lists s') (xEventListItem u) = xItemValue (lists s) (xEventListItem u)"
      proof (cases "u = t")
        case u: True
        then show ?thesis using w rd True Cons.prems(5) rl(2,5) by (auto simp: or.assoc)
      next
        case False
        then show ?thesis using w rl(2) rl(4) [OF False] by simp
      qed
    qed
    then show ?thesis using s' step True by (intro exI [of _ s']) simp
  qed
qed

end
