(* ===== verification/Event_Ops.thy ===== *)
theory Event_Ops
  imports Event_Proof Queue_Kernel
begin

text \<open>The operations of an event group on a kernel whose waiting tasks all wait for something.\<close>

subsection \<open>Bits\<close>

lemma met_mono: "event_met (x AND NOT y) v \<Longrightarrow> event_met x v"
proof (cases "event_all v")
  case False
  assume "event_met (x AND NOT y) v"
  then have "(x AND NOT y) AND event_waited v \<noteq> 0" using False by (simp add: event_met_def prvTestWaitCondition_def)
  then have "x AND event_waited v \<noteq> 0" by (metis (no_types, lifting) and.assoc and.commute and_zero_eq)
  then show ?thesis using False by (simp add: event_met_def prvTestWaitCondition_def)
next
  case True
  assume "event_met (x AND NOT y) v"
  then have a: "(x AND NOT y) AND event_waited v = event_waited v" using True by (simp add: event_met_def prvTestWaitCondition_def)
  have "x AND event_waited v = x AND ((x AND NOT y) AND event_waited v)" by (simp add: a)
  also have "\<dots> = (x AND NOT y) AND event_waited v" by (simp add: and.assoc [symmetric])
  finally show ?thesis using True a by (simp add: event_met_def prvTestWaitCondition_def)
qed

text \<open>What a task that waits puts in its event item.\<close>

definition wait_value :: "u64 \<Rightarrow> bool \<Rightarrow> bool \<Rightarrow> u64" where
  "wait_value w clr all = (w OR ((if clr then eventCLEAR_EVENTS_ON_EXIT_BIT else 0) OR (if all then eventWAIT_FOR_ALL_BITS else 0)))
     OR taskEVENT_LIST_ITEM_VALUE_IN_USE"

lemma no_control: "(w :: u64) AND c = 0 \<Longrightarrow> w AND NOT c = w"
proof -
  assume c: "w AND c = 0"
  have "w = w AND (c OR NOT c)" by simp
  also have "\<dots> = (w AND c) OR (w AND NOT c)" by (simp only: bit.conj_disj_distrib)
  finally show ?thesis by (simp add: c)
qed

lemma wait_value_parts:
  assumes "w AND eventEVENT_BITS_CONTROL_BYTES = 0"
  shows "event_waited (wait_value w clr all) = w" "event_all (wait_value w clr all) = all" "event_clears (wait_value w clr all) = clr"
proof -
  define c where "c = ((if clr then eventCLEAR_EVENTS_ON_EXIT_BIT else 0) OR (if all then eventWAIT_FOR_ALL_BITS else 0)) OR taskEVENT_LIST_ITEM_VALUE_IN_USE"
  have v: "wait_value w clr all = w OR c" by (simp add: wait_value_def c_def or.assoc)
  have c0: "c AND NOT eventEVENT_BITS_CONTROL_BYTES = 0"
    by (cases clr; cases all) (simp_all add: c_def eventCLEAR_EVENTS_ON_EXIT_BIT_def eventWAIT_FOR_ALL_BITS_def eventEVENT_BITS_CONTROL_BYTES_def)
  show "event_waited (wait_value w clr all) = w"
    using c0 no_control [OF assms] by (simp add: event_waited_def v bit.conj_disj_distrib2)
  have vc: "wait_value w clr all AND eventEVENT_BITS_CONTROL_BYTES = c AND eventEVENT_BITS_CONTROL_BYTES"
    using assms by (simp add: v bit.conj_disj_distrib2)
  show "event_all (wait_value w clr all) = all" "event_clears (wait_value w clr all) = clr"
    unfolding event_all_def event_clears_def vc
    by (cases clr; cases all; simp add: c_def eventCLEAR_EVENTS_ON_EXIT_BIT_def eventWAIT_FOR_ALL_BITS_def eventEVENT_BITS_CONTROL_BYTES_def)+
qed

lemma wait_value_met: "w AND eventEVENT_BITS_CONTROL_BYTES = 0 \<Longrightarrow> event_met b (wait_value w clr all) = prvTestWaitCondition b w all"
  by (simp add: event_met_def wait_value_parts)

subsection \<open>The invariant\<close>

text \<open>No task waits for what has already happened.\<close>

definition event_inv :: "nat set \<Rightarrow> nat set \<Rightarrow> event_state \<Rightarrow> bool" where
  "event_inv T D = (\<lambda>(g, s). kernel_inv T D s \<and> wait_list D (xTasksWaitingForBits g) \<and>
     (\<forall>u. pxContainer (lists s) (xEventListItem u) = Some (xTasksWaitingForBits g) \<longrightarrow>
        \<not> event_met (uxEventBits g) (xItemValue (lists s) (xEventListItem u))))"

lemma event_invD:
  assumes "event_inv T D (g, s)"
  shows "kernel_inv T D s" "wait_list D (xTasksWaitingForBits g)" "36 < xTasksWaitingForBits g" "xTasksWaitingForBits g \<in> D"
    "pxContainer (lists s) (xEventListItem u) = Some (xTasksWaitingForBits g) \<Longrightarrow>
       \<not> event_met (uxEventBits g) (xItemValue (lists s) (xEventListItem u))"
  using assms by (simp_all add: event_inv_def wait_list_def)

lemma waiting_member:
  assumes k: "kernel_inv T D s" and l: "36 < l" "l \<in> D"
  shows "(t, v) \<in> set (waiting l s) \<longleftrightarrow> pxContainer (lists s) (xEventListItem t) = Some l \<and> v = xItemValue (lists s) (xEventListItem t)"
proof -
  obtain ts where ts: "members (lists s) l = map xEventListItem ts" "waiting l s = map (\<lambda>t. (t, xItemValue (lists s) (xEventListItem t))) ts"
    by (rule event_members [OF k l]) blast
  have "t \<in> set ts \<longleftrightarrow> pxContainer (lists s) (xEventListItem t) = Some l"
    using members_container [OF kernel_lists [OF kinvD(1) [OF inv_kinv [OF k]]] l(2), of "xEventListItem t"] unfolding ts(1) by auto
  then show ?thesis unfolding ts(2) by auto
qed

text \<open>The result of setting bits.\<close>

definition bits_after :: "u64 \<Rightarrow> u64 \<Rightarrow> (nat \<times> u64) list \<Rightarrow> u64" where
  "bits_after b m ws = (b OR m) AND NOT (event_mask (b OR m) (map snd ws))"

definition unmet :: "u64 \<Rightarrow> nat \<times> u64 \<Rightarrow> bool" where "unmet b = (\<lambda>(t, v). \<not> event_met b v)"

lemma set_suspended:
  assumes k: "kernel_inv T D s" and l: "36 < xTasksWaitingForBits g" "xTasksWaitingForBits g \<in> D"
  defines "ws \<equiv> waiting (xTasksWaitingForBits g) s"
  obtains s' where "set_bits_suspended m (g, s) = Some (g\<lparr>uxEventBits := bits_after (uxEventBits g) m ws\<rparr>, s')" "kernel_inv T D s'"
    "walked (xTasksWaitingForBits g) (uxEventBits g OR m) (map fst ws) s s'"
    "waiting (xTasksWaitingForBits g) s' = filter (unmet (uxEventBits g OR m)) ws"
    "event_inv T D (g\<lparr>uxEventBits := bits_after (uxEventBits g) m ws\<rparr>, s')"
proof -
  let ?l = "xTasksWaitingForBits g" and ?b = "uxEventBits g OR m"
  obtain ts where ts: "members (lists s) ?l = map xEventListItem ts" "set ts \<subseteq> T" "distinct ts"
    "waiting ?l s = map (\<lambda>t. (t, xItemValue (lists s) (xEventListItem t))) ts"
    by (rule event_members [OF k l]) blast
  have ws: "map fst ws = ts" "map snd ws = map (\<lambda>t. xItemValue (lists s) (xEventListItem t)) ts"
    unfolding ws_def ts(4) by (simp_all add: comp_def)
  have hd: "listGET_HEAD_ENTRY (lists s) ?l = (if ts = [] then End ?l else xEventListItem (hd ts))"
    using klist_head [OF list_okD [OF kernel_lists [OF kinvD(1) [OF inv_kinv [OF k]]] l(2)]] unfolding ts(1) by (cases ts) simp_all
  obtain s' where s': "set_bits_loop ?l ?b (if ts = [] then End ?l else xEventListItem (hd ts)) 0 s =
      Some (fold (clear_step ?b) (map (\<lambda>t. xItemValue (lists s) (xEventListItem t)) ts) 0, s')"
    "kernel_inv T D s'" "walked ?l ?b ts s s'"
    "members (lists s') ?l = [] @ map xEventListItem (filter (\<lambda>t. \<not> event_met ?b (xItemValue (lists s) (xEventListItem t))) ts)"
    using set_bits_walk [OF k l, of "[]" ts ?b 0] ts(1,3) by auto
  have run: "set_bits_suspended m (g, s) = Some (g\<lparr>uxEventBits := bits_after (uxEventBits g) m ws\<rparr>, s')"
    using s'(1) hd by (simp add: set_bits_suspended_def bits_after_def event_mask_def ws(2))
  have w: "if u \<in> set ts \<and> event_met ?b (xItemValue (lists s) (xEventListItem u))
          then is_ready s' u \<and> pxContainer (lists s') (xEventListItem u) = None \<and>
            xItemValue (lists s') (xEventListItem u) = ?b OR eventUNBLOCKED_DUE_TO_BIT_SET OR taskEVENT_LIST_ITEM_VALUE_IN_USE
          else pxContainer (lists s') (xEventListItem u) = pxContainer (lists s) (xEventListItem u) \<and>
            xItemValue (lists s') (xEventListItem u) = xItemValue (lists s) (xEventListItem u)" for u
    using s'(3) unfolding walked_def by blast
  have own: "pvOwner (lists s') = pvOwner (lists s)" using s'(3) by (simp add: walked_def)
  have own': "pvOwner (lists s) (xEventListItem t) = t" if "t \<in> set ts" for t
    using kernel_task(5) [OF kinvD(1) [OF inv_kinv [OF k]]] that ts(2) by auto
  have rest: "waiting ?l s' = filter (unmet ?b) ws"
  proof -
    have "waiting ?l s' = map (\<lambda>t. (pvOwner (lists s) (xEventListItem t), xItemValue (lists s') (xEventListItem t)))
        (filter (\<lambda>t. \<not> event_met ?b (xItemValue (lists s) (xEventListItem t))) ts)"
      by (simp add: waiting_def s'(4) own comp_def)
    also have "\<dots> = map (\<lambda>t. (t, xItemValue (lists s) (xEventListItem t)))
        (filter (\<lambda>t. \<not> event_met ?b (xItemValue (lists s) (xEventListItem t))) ts)"
      by (rule map_cong [OF refl]) (use w own' in auto)
    also have "\<dots> = filter (unmet ?b) ws" by (simp add: ws_def ts(4) filter_map comp_def unmet_def)
    finally show ?thesis .
  qed
  have ms: "u \<in> set ts \<longleftrightarrow> pxContainer (lists s) (xEventListItem u) = Some ?l" for u
    using members_container [OF kernel_lists [OF kinvD(1) [OF inv_kinv [OF k]]] l(2), of "xEventListItem u"] unfolding ts(1) by auto
  have "\<not> event_met (bits_after (uxEventBits g) m ws) (xItemValue (lists s') (xEventListItem u))"
    if c: "pxContainer (lists s') (xEventListItem u) = Some ?l" for u
  proof
    assume "event_met (bits_after (uxEventBits g) m ws) (xItemValue (lists s') (xEventListItem u))"
    then have "event_met ?b (xItemValue (lists s') (xEventListItem u))" using met_mono by (auto simp: bits_after_def)
    then show False using w [of u] c ms [of u] by (metis option.distinct(1))
  qed
  then have "event_inv T D (g\<lparr>uxEventBits := bits_after (uxEventBits g) m ws\<rparr>, s')"
    using s'(2) l by (simp add: event_inv_def wait_list_def)
  then show ?thesis using that [OF run s'(2)] s'(3) rest ws(1) by simp
qed

subsection \<open>Ticks while the scheduler is suspended\<close>

fun suspended_ticks :: "nat \<Rightarrow> kernel \<Rightarrow> kernel option" where
  "suspended_ticks 0 s = Some s"
| "suspended_ticks (Suc n) s = Option.bind (timer_interrupt s) (suspended_ticks n)"

definition tick_env :: "nat \<Rightarrow> event_env" where
  "tick_env n = \<lparr>ev_isr = suspended_ticks n, ev_after = Some\<rparr>"

lemma suspended_ticks_ok:
  assumes "kernel_inv T D s" "uxSchedulerSuspended s \<noteq> 0"
  shows "\<exists>s'. suspended_ticks n s = Some s' \<and> kernel_inv T D s' \<and> lists s' = lists s \<and> frame {} s s' \<and>
    uxSchedulerSuspended s' = uxSchedulerSuspended s"
  using assms
proof (induction n arbitrary: s)
  case (Suc n)
  let ?s = "s\<lparr>xPendedTicks := xPendedTicks s + 1\<rparr>"
  have t: "timer_interrupt s = Some ?s" using Suc.prems(2) by (simp add: timer_interrupt_def xTaskIncrementTick_def)
  have k: "kernel_inv T D ?s" by (rule inv_step [OF kinv_cong [OF inv_kinv [OF Suc.prems(1)]]]) simp_all
  have "frame {} s ?s" by (rule frame_same) (simp_all add: is_ready_def)
  then show ?case using Suc.IH [OF k] Suc.prems(2) t frame_trans [of "{}" s ?s "{}" _ "{}"] by auto
qed simp

lemma resume_events:
  assumes k: "kernel_inv T D s" and sus: "uxSchedulerSuspended s \<noteq> 0"
  obtains s1 y s' where "suspended_ticks n s = Some s1" "xTaskResumeAll s1 = Some (y, s')" "kernel_inv T D s'" "frame {} s s'"
    "events_kept s s'" "uxSchedulerSuspended s' = uxSchedulerSuspended s - 1" "pxCurrentTCB s' = pxCurrentTCB s"
proof -
  obtain s1 where s1: "suspended_ticks n s = Some s1" "kernel_inv T D s1" "lists s1 = lists s" "frame {} s s1"
    "uxSchedulerSuspended s1 = uxSchedulerSuspended s" using suspended_ticks_ok [OF assms] by blast
  obtain y s' where s': "xTaskResumeAll s1 = Some (y, s')" "kernel_inv T D s'" "frame {} s1 s'"
    "uxSchedulerSuspended s' = uxSchedulerSuspended s1 - 1" using resume_all [OF s1(2)] sus s1(5) by auto
  have "frame {} s s'" by (rule frame_trans [OF s1(4) s'(3)]) simp
  then show ?thesis
    using that [OF s1(1) s'(1,2)] s'(4) s1(5) kept_after_lists [OF s1(3) kept_resume [OF s'(1)]] by (simp add: frame_def)
qed

lemma event_inv_kept:
  assumes "event_inv T D (g, s)" "events_kept s s'" "kernel_inv T D s'"
  shows "event_inv T D (g, s')"
  using assms by (auto simp: event_inv_def events_kept_def) (metis option.distinct(1))

lemma event_inv_suspend: "event_inv T D (g, vTaskSuspendAll s) = event_inv T D (g, s)"
proof -
  have "kernel_inv T D (vTaskSuspendAll s) = kernel_inv T D s"
    using inv_step [OF kinv_cong [OF inv_kinv, of T D "vTaskSuspendAll s" s]] suspend_all_inv by (auto simp: vTaskSuspendAll_def)
  then show ?thesis by (simp add: event_inv_def vTaskSuspendAll_def)
qed

lemma event_inv_clear: "event_inv T D (g, s) \<Longrightarrow> event_inv T D (g\<lparr>uxEventBits := uxEventBits g AND NOT c\<rparr>, s)"
  using met_mono by (fastforce simp: event_inv_def)

subsection \<open>Setting bits\<close>

text \<open>What a call that sets bits \<open>m\<close> does: the released and the others.\<close>

definition released_by :: "nat \<Rightarrow> u64 \<Rightarrow> kernel \<Rightarrow> kernel \<Rightarrow> bool" where
  "released_by l b s s' \<longleftrightarrow> (\<forall>(t, v)\<in>set (waiting l s).
     if event_met b v then is_ready s' t \<and> pxContainer (lists s') (xEventListItem t) = None \<and>
       xItemValue (lists s') (xEventListItem t) = b OR eventUNBLOCKED_DUE_TO_BIT_SET OR taskEVENT_LIST_ITEM_VALUE_IN_USE
     else xItemValue (lists s') (xEventListItem t) = v \<and>
       pxContainer (lists s') (xEventListItem t) \<in> {Some l, None})"

lemma released_by_walk:
  assumes k: "kernel_inv T D s" and l: "36 < l" "l \<in> D"
    and w: "walked l b (map fst (waiting l s)) s s1" and f: "frame {} s1 s'" "events_kept s1 s'"
  shows "released_by l b s s'"
  unfolding released_by_def
proof clarify
  fix t v
  assume m: "(t, v) \<in> set (waiting l s)"
  then have t: "t \<in> set (map fst (waiting l s))" by force
  have c: "pxContainer (lists s) (xEventListItem t) = Some l" "v = xItemValue (lists s) (xEventListItem t)"
    using waiting_member [OF k l] m by simp_all
  have w: "if t \<in> set (map fst (waiting l s)) \<and> event_met b (xItemValue (lists s) (xEventListItem t))
          then is_ready s1 t \<and> pxContainer (lists s1) (xEventListItem t) = None \<and>
            xItemValue (lists s1) (xEventListItem t) = b OR eventUNBLOCKED_DUE_TO_BIT_SET OR taskEVENT_LIST_ITEM_VALUE_IN_USE
          else pxContainer (lists s1) (xEventListItem t) = pxContainer (lists s) (xEventListItem t) \<and>
            xItemValue (lists s1) (xEventListItem t) = xItemValue (lists s) (xEventListItem t)"
    using w unfolding walked_def by blast
  have e: "xItemValue (lists s') (xEventListItem t) = xItemValue (lists s1) (xEventListItem t)"
    "pxContainer (lists s') (xEventListItem t) \<in> {pxContainer (lists s1) (xEventListItem t), None}"
    using f(2) unfolding events_kept_def by (blast, blast)
  have "is_ready s1 t \<Longrightarrow> is_ready s' t" using f(1) by (simp add: frame_def)
  then show "if event_met b v then is_ready s' t \<and> pxContainer (lists s') (xEventListItem t) = None \<and>
       xItemValue (lists s') (xEventListItem t) = b OR eventUNBLOCKED_DUE_TO_BIT_SET OR taskEVENT_LIST_ITEM_VALUE_IN_USE
     else xItemValue (lists s') (xEventListItem t) = v \<and> pxContainer (lists s') (xEventListItem t) \<in> {Some l, None}"
    using w t c e by auto
qed

lemma set_bits_ok:
  fixes m :: u64
  assumes k: "kernel_inv T D s" and l: "wait_list D (xTasksWaitingForBits g)" and u: "uxSchedulerSuspended s + 1 \<noteq> 0"
  defines "b \<equiv> bits_after (uxEventBits g) m (waiting (xTasksWaitingForBits g) s)"
  obtains s' where "xEventGroupSetBits (tick_env n) m (g, s) = Some (b, g\<lparr>uxEventBits := b\<rparr>, s')"
    "event_inv T D (g\<lparr>uxEventBits := b\<rparr>, s')" "released_by (xTasksWaitingForBits g) (uxEventBits g OR m) s s'"
    "frame {} s s'" "uxSchedulerSuspended s' = uxSchedulerSuspended s" "pxCurrentTCB s' = pxCurrentTCB s"
    "\<And>u. pxContainer (lists s) (xEventListItem u) = None \<Longrightarrow> pxContainer (lists s') (xEventListItem u) = None"
proof -
  let ?l = "xTasksWaitingForBits g" and ?s = "vTaskSuspendAll s"
  have l': "36 < ?l" "?l \<in> D" using l by (simp_all add: wait_list_def)
  have ks: "kernel_inv T D ?s" by (rule suspend_all_inv [OF k])
  have ws: "waiting ?l ?s = waiting ?l s" by (simp add: waiting_def vTaskSuspendAll_def)
  obtain s1 where s1: "set_bits_suspended m (g, ?s) = Some (g\<lparr>uxEventBits := b\<rparr>, s1)" "kernel_inv T D s1"
    "walked ?l (uxEventBits g OR m) (map fst (waiting ?l ?s)) ?s s1" "event_inv T D (g\<lparr>uxEventBits := b\<rparr>, s1)"
    unfolding b_def ws [symmetric] by (rule set_suspended [OF ks l', of m]) (use that in blast)
  have sus: "uxSchedulerSuspended s1 = uxSchedulerSuspended s + 1" "frame {} ?s s1" using s1(3) by (simp_all add: walked_def vTaskSuspendAll_def)
  obtain s2 y s' where r: "suspended_ticks n s1 = Some s2" "xTaskResumeAll s2 = Some (y, s')" "kernel_inv T D s'" "frame {} s1 s'"
    "events_kept s1 s'" "uxSchedulerSuspended s' = uxSchedulerSuspended s1 - 1" "pxCurrentTCB s' = pxCurrentTCB s1"
    by (rule resume_events [OF s1(2)]) (use sus u in auto)
  have run: "xEventGroupSetBits (tick_env n) m (g, s) = Some (b, g\<lparr>uxEventBits := b\<rparr>, s')"
    using s1(1) r(1,2) by (simp add: xEventGroupSetBits_def tick_env_def)
  have rel: "released_by ?l (uxEventBits g OR m) s s'"
    using released_by_walk [OF ks l' s1(3) r(4,5)] by (simp add: released_by_def ws)
  have f: "frame {} s s'" by (rule frame_trans [OF frame_trans [OF suspend_frame sus(2), of "{}"] r(4)]) simp_all
  have none: "pxContainer (lists s') (xEventListItem u) = None" if "pxContainer (lists s) (xEventListItem u) = None" for u
  proof -
    have "pxContainer (lists ?s) (xEventListItem u) = None" using that by (simp add: vTaskSuspendAll_def)
    then have "pxContainer (lists s1) (xEventListItem u) = None" using s1(3) unfolding walked_def by metis
    then show ?thesis using r(5) unfolding events_kept_def by metis
  qed
  show ?thesis
    by (rule that [OF run event_inv_kept [OF s1(4) r(5,3)] rel f _ _ none]) (use r(6) sus f in \<open>simp_all add: frame_def\<close>)
qed

lemma clear_step_bits: "bit (clear_step b v c) i \<longleftrightarrow> bit c i \<or> event_met b v \<and> event_clears v \<and> bit (event_waited v) i"
  by (auto simp: clear_step_def bit_simps)

lemma event_mask_bits: "bit (event_mask b vs) i \<longleftrightarrow> (\<exists>v\<in>set vs. event_met b v \<and> event_clears v \<and> bit (event_waited v) i)"
proof -
  have "bit (fold (clear_step b) vs c) i \<longleftrightarrow> bit c i \<or> (\<exists>v\<in>set vs. event_met b v \<and> event_clears v \<and> bit (event_waited v) i)" for c
    by (induction vs arbitrary: c) (auto simp: clear_step_bits)
  then show ?thesis by (simp add: event_mask_def)
qed

text \<open>The bits that were waited for with the request to clear them are gone.\<close>

lemma mask_clears:
  assumes "v \<in> set vs" "event_met b v" "event_clears v"
  shows "(b AND NOT (event_mask b vs)) AND event_waited v = 0"
  by (rule bit_eqI) (use assms in \<open>auto simp: bit_simps event_mask_bits\<close>)

end
