(* ===== verification/Event_Wait.thy ===== *)
theory Event_Wait
  imports Event_Ops Heap4_Props
begin

text \<open>Waiting for event bits, the rendezvous, and deletion.\<close>

subsection \<open>Entering the list\<close>

lemma delay_events:
  assumes "prvAddCurrentTaskToDelayedList n b s = Some s'"
  shows "pxContainer (lists s') (xEventListItem u) = pxContainer (lists s) (xEventListItem u)"
    "xItemValue (lists s') (xEventListItem u) = xItemValue (lists s) (xEventListItem u)"
proof -
  obtain t m s1 where t: "pxCurrentTCB s = Some t" "kListRemove (xStateListItem t) s = Some (m, s1)"
    using assms by (auto simp: prvAddCurrentTaskToDelayedList_def Let_def bind_eq_Some_conv)
  note r = remove_parts(1,2) [OF t(2)]
  have ins: "pxContainer ls' (xEventListItem u) = pxContainer ls (xEventListItem u) \<and> xItemValue ls' = xItemValue ls"
    if "vListInsert ls l (xStateListItem t) = Some ls'" for ls l ls'
    using that by (auto simp: vListInsert_def Let_def bind_eq_Some_conv)
  define s2 where "s2 = (if m = 0 then s1\<lparr>uxTopReadyPriority := portRESET_READY_PRIORITY (uxPriority (tcb s1 t)) (uxTopReadyPriority s1)\<rparr> else s1)"
  have l2: "lists s2 = lists s1" by (simp add: s2_def)
  have "lists s' = vListInsertEnd (lists s1) xSuspendedTaskList (xStateListItem t) \<or>
    (\<exists>l v. vListInsert ((lists s1)\<lparr>xItemValue := (xItemValue (lists s1))(xStateListItem t := v)\<rparr>) l (xStateListItem t) = Some (lists s'))"
  proof (cases "n = portMAX_DELAY \<and> b")
    case True
    then show ?thesis
      using assms unfolding prvAddCurrentTaskToDelayedList_def Let_def by (simp add: t s2_def [symmetric] l2) (auto simp: l2)
  next
    case False
    let ?wake = "xTickCount s + n" and ?s = "set_item_value (xStateListItem t) (xTickCount s + n) s2"
    have run: "(if ?wake < xTickCount s then do { ls \<leftarrow> vListInsert (lists ?s) (pxOverflowDelayedTaskList ?s) (xStateListItem t); Some (?s\<lparr>lists := ls\<rparr>) }
       else do {
         ls \<leftarrow> vListInsert (lists ?s) (pxDelayedTaskList ?s) (xStateListItem t);
         let s = ?s\<lparr>lists := ls\<rparr>;
         Some (if ?wake < xNextTaskUnblockTime s then s\<lparr>xNextTaskUnblockTime := ?wake\<rparr> else s) }) = Some s'"
      using assms False unfolding prvAddCurrentTaskToDelayedList_def by (simp only: Let_def t Option.bind.simps prod.case s2_def [symmetric] if_False)
    have "\<exists>l. vListInsert (lists ?s) l (xStateListItem t) = Some (lists s')"
    proof (cases "?wake < xTickCount s")
      case True
      then show ?thesis using run by (auto simp: bind_eq_Some_conv)
    next
      case False
      then obtain ls where ls: "vListInsert (lists ?s) (pxDelayedTaskList ?s) (xStateListItem t) = Some ls"
        "s' = (if ?wake < xNextTaskUnblockTime (?s\<lparr>lists := ls\<rparr>) then ?s\<lparr>lists := ls, xNextTaskUnblockTime := ?wake\<rparr> else ?s\<lparr>lists := ls\<rparr>)"
        using run by (auto simp: bind_eq_Some_conv Let_def)
      have "lists s' = ls" unfolding ls(2) by simp
      then show ?thesis using ls(1) by blast
    qed
    then show ?thesis by (auto simp: set_item_value_def l2)
  qed
  then show "pxContainer (lists s') (xEventListItem u) = pxContainer (lists s) (xEventListItem u)"
    "xItemValue (lists s') (xEventListItem u) = xItemValue (lists s) (xEventListItem u)"
    using r by (auto dest!: ins)
qed

lemma place_unordered_events:
  assumes k: "kernel_inv T D s" and c: "pxCurrentTCB s = Some c" and r: "is_ready s c"
    and e: "pxContainer (lists s) (xEventListItem c) = None" and l: "wait_list D l" and n: "n \<noteq> 0"
  obtains s' where "vTaskPlaceOnUnorderedEventList l v n s = Some s'" "kernel_inv T D s'" "frame {c} s s'"
    "uxSchedulerSuspended s' = uxSchedulerSuspended s"
    "\<And>u. pxContainer (lists s') (xEventListItem u) = (if u = c then Some l else pxContainer (lists s) (xEventListItem u))"
    "\<And>u. xItemValue (lists s') (xEventListItem u) = (if u = c then v OR taskEVENT_LIST_ITEM_VALUE_IN_USE else xItemValue (lists s) (xEventListItem u))"
proof -
  have l': "36 < l" "l \<in> D" using l by (simp_all add: wait_list_def)
  obtain s' where s': "vTaskPlaceOnUnorderedEventList l v n s = Some s'" "kernel_inv T D s'" "frame {c} s s'"
    "uxSchedulerSuspended s' = uxSchedulerSuspended s"
    "pxContainer (lists s') = (pxContainer (lists s))(xEventListItem c := Some l, xStateListItem c := Some (delayed_to s n True))"
    using place_on_unordered_event_list [OF k c r e l' n, of v] by blast
  define s1 where "s1 = set_item_value (xEventListItem c) (v OR taskEVENT_LIST_ITEM_VALUE_IN_USE) s"
  have "prvAddCurrentTaskToDelayedList n True (s1\<lparr>lists := vListInsertEnd (lists s1) l (xEventListItem c)\<rparr>) = Some s'"
    using s'(1) c by (simp add: vTaskPlaceOnUnorderedEventList_def Let_def s1_def)
  from delay_events(2) [OF this] have "xItemValue (lists s') (xEventListItem u) =
      (if u = c then v OR taskEVENT_LIST_ITEM_VALUE_IN_USE else xItemValue (lists s) (xEventListItem u))" for u
    by (simp add: s1_def set_item_value_def)
  then show ?thesis by (intro that [OF s'(1-4)]) (simp_all add: s'(5))
qed

lemma wait_enter:
  assumes i: "event_inv T D (g, s)" and c: "pxCurrentTCB s = Some c" "is_ready s c" "pxContainer (lists s) (xEventListItem c) = None"
    and w: "w AND eventEVENT_BITS_CONTROL_BYTES = 0"
  obtains r n' g' s' where "wait_bits_suspended w clr all n (g, s) = Some (r, n', g', s')" "event_inv T D (g', s')"
    "uxSchedulerSuspended s' = uxSchedulerSuspended s" "frame {c} s s'"
    "prvTestWaitCondition (uxEventBits g) w all \<Longrightarrow> r = uxEventBits g \<and> n' = 0 \<and> s' = s \<and>
       g' = (if clr then g\<lparr>uxEventBits := uxEventBits g AND NOT w\<rparr> else g)"
    "\<not> prvTestWaitCondition (uxEventBits g) w all \<Longrightarrow> g' = g \<and> n' = n \<and> (if n = 0 then r = uxEventBits g \<and> s' = s
       else pxContainer (lists s') (xEventListItem c) = Some (xTasksWaitingForBits g) \<and>
         xItemValue (lists s') (xEventListItem c) = wait_value w clr all)"
proof (cases "prvTestWaitCondition (uxEventBits g) w all")
  case True
  let ?g = "if clr then g\<lparr>uxEventBits := uxEventBits g AND NOT w\<rparr> else g"
  have "event_inv T D (?g, s)" using i event_inv_clear [OF i, of w] by simp
  then show ?thesis by (intro that [of "uxEventBits g" 0 ?g s]) (use True in \<open>simp_all add: wait_bits_suspended_def Let_def\<close>)
next
  case F: False
  show ?thesis
  proof (cases "n = 0")
    case True
    then show ?thesis by (intro that [of "uxEventBits g" 0 g s]) (use F i in \<open>simp_all add: wait_bits_suspended_def Let_def\<close>)
  next
    case False
    note inv = event_invD [OF i]
    define ctrl where "ctrl = (if clr then eventCLEAR_EVENTS_ON_EXIT_BIT else 0) OR (if all then eventWAIT_FOR_ALL_BITS else 0)"
    obtain s' where s': "vTaskPlaceOnUnorderedEventList (xTasksWaitingForBits g) (w OR ctrl) n s = Some s'" "kernel_inv T D s'"
      "frame {c} s s'" "uxSchedulerSuspended s' = uxSchedulerSuspended s"
      "\<And>u. pxContainer (lists s') (xEventListItem u) = (if u = c then Some (xTasksWaitingForBits g) else pxContainer (lists s) (xEventListItem u))"
      "\<And>u. xItemValue (lists s') (xEventListItem u) = (if u = c then (w OR ctrl) OR taskEVENT_LIST_ITEM_VALUE_IN_USE else xItemValue (lists s) (xEventListItem u))"
      by (rule place_unordered_events [OF inv(1) c inv(2) False, of "w OR ctrl"]) blast
    have v: "(w OR ctrl) OR taskEVENT_LIST_ITEM_VALUE_IN_USE = wait_value w clr all" by (simp add: wait_value_def ctrl_def)
    have run: "wait_bits_suspended w clr all n (g, s) = Some (0, n, g, s')"
      using F False s'(1) by (cases clr; cases all) (simp_all add: wait_bits_suspended_def Let_def ctrl_def)
    have "event_inv T D (g, s')"
      using inv(2) s'(2) i F wait_value_met [OF w] by (auto simp: event_inv_def s'(5,6) v)
    then show ?thesis by (intro that [OF run]) (use s'(3-6) F False v in simp_all)
  qed
qed

subsection \<open>Leaving\<close>

lemma released_value:
  assumes "b AND eventEVENT_BITS_CONTROL_BYTES = 0"
  shows "(b OR eventUNBLOCKED_DUE_TO_BIT_SET OR taskEVENT_LIST_ITEM_VALUE_IN_USE) AND eventUNBLOCKED_DUE_TO_BIT_SET \<noteq> 0"
    "(b OR eventUNBLOCKED_DUE_TO_BIT_SET OR taskEVENT_LIST_ITEM_VALUE_IN_USE) AND NOT eventEVENT_BITS_CONTROL_BYTES = b"
proof -
  have "(b OR eventUNBLOCKED_DUE_TO_BIT_SET OR taskEVENT_LIST_ITEM_VALUE_IN_USE) AND eventUNBLOCKED_DUE_TO_BIT_SET =
      eventUNBLOCKED_DUE_TO_BIT_SET"
    by (rule bit_eqI) (auto simp: bit_simps)
  then show "(b OR eventUNBLOCKED_DUE_TO_BIT_SET OR taskEVENT_LIST_ITEM_VALUE_IN_USE) AND eventUNBLOCKED_DUE_TO_BIT_SET \<noteq> 0"
    by (simp add: eventUNBLOCKED_DUE_TO_BIT_SET_def)
  have "(eventUNBLOCKED_DUE_TO_BIT_SET OR taskEVENT_LIST_ITEM_VALUE_IN_USE) AND NOT eventEVENT_BITS_CONTROL_BYTES = 0"
    by (simp add: eventUNBLOCKED_DUE_TO_BIT_SET_def eventEVENT_BITS_CONTROL_BYTES_def)
  then show "(b OR eventUNBLOCKED_DUE_TO_BIT_SET OR taskEVENT_LIST_ITEM_VALUE_IN_USE) AND NOT eventEVENT_BITS_CONTROL_BYTES = b"
    using no_control [OF assms] by (simp add: bit.conj_disj_distrib2)
qed

lemma leave_released:
  assumes "pxCurrentTCB s = Some t" "b AND eventEVENT_BITS_CONTROL_BYTES = 0"
    and "xItemValue (lists s) (xEventListItem t) = b OR eventUNBLOCKED_DUE_TO_BIT_SET OR taskEVENT_LIST_ITEM_VALUE_IN_USE"
  shows "\<exists>s'. wait_bits_leave w clr all (g, s) = Some (b, g, s')" "\<exists>s'. sync_leave w (g, s) = Some (b, g, s')"
  using assms(1) released_value [OF assms(2)]
  by (simp_all add: wait_bits_leave_def sync_leave_def uxTaskResetEventItemValue_def assms(3) Let_def)

subsection \<open>Releasing everyone\<close>

declare delete_loop.simps [code]

lemma delete_walk:
  assumes "kernel_inv T D s" "36 < l" "l \<in> D" "members (lists s) l = map xEventListItem ts" "distinct ts"
  shows "\<exists>s'. delete_loop l s = Some s' \<and> kernel_inv T D s' \<and> frame {} s s' \<and> uxSchedulerSuspended s' = uxSchedulerSuspended s \<and>
    members (lists s') l = [] \<and> (\<forall>t\<in>set ts. is_ready s' t \<and> pxContainer (lists s') (xEventListItem t) = None \<and>
      xItemValue (lists s') (xEventListItem t) = eventUNBLOCKED_DUE_TO_BIT_SET OR taskEVENT_LIST_ITEM_VALUE_IN_USE) \<and>
    (\<forall>u. u \<notin> set ts \<longrightarrow> pxContainer (lists s') (xEventListItem u) = pxContainer (lists s) (xEventListItem u) \<and>
      xItemValue (lists s') (xEventListItem u) = xItemValue (lists s) (xEventListItem u))"
  using assms
proof (induction ts arbitrary: s)
  case Nil
  note lo = kernel_lists [OF kinvD(1) [OF inv_kinv [OF Nil.prems(1)]]]
  have "uxNumberOfItems (lists s) l = 0" using members_none [OF lo Nil.prems(3)] Nil.prems(4) by simp
  then show ?case using Nil.prems by (subst delete_loop.simps) simp
next
  case (Cons t ts)
  let ?b = eventUNBLOCKED_DUE_TO_BIT_SET
  note lo = kernel_lists [OF kinvD(1) [OF inv_kinv [OF Cons.prems(1)]]]
  have n: "uxNumberOfItems (lists s) l > 0"
    using members_none [OF lo Cons.prems(3)] Cons.prems(4) word_neq_0_conv by fastforce
  have hd: "listGET_HEAD_ENTRY (lists s) l = xEventListItem t"
    using klist_head [OF list_okD [OF lo Cons.prems(3)]] Cons.prems(4) by simp
  have t: "pxContainer (lists s) (xEventListItem t) = Some l"
    using members_container [OF lo Cons.prems(3), of "xEventListItem t"] Cons.prems(4) by simp
  obtain s1 where s1: "vTaskRemoveFromUnorderedEventList (xEventListItem t) ?b s = Some s1" "kernel_inv T D s1" "frame {} s s1"
    "uxSchedulerSuspended s1 = uxSchedulerSuspended s" "is_ready s1 t"
    using remove_from_unordered_event_list [OF Cons.prems(1) t, of ?b] by blast
  note rl = remove_unordered_lists [OF Cons.prems(1) t Cons.prems(2) s1(1)]
  have m1: "members (lists s1) l = map xEventListItem ts" using rl(1) Cons.prems(4) by simp
  obtain s' where s': "delete_loop l s1 = Some s'" "kernel_inv T D s'" "frame {} s1 s'" "uxSchedulerSuspended s' = uxSchedulerSuspended s1"
    "members (lists s') l = []" "\<forall>t\<in>set ts. is_ready s' t \<and> pxContainer (lists s') (xEventListItem t) = None \<and>
      xItemValue (lists s') (xEventListItem t) = ?b OR taskEVENT_LIST_ITEM_VALUE_IN_USE"
    "\<forall>u. u \<notin> set ts \<longrightarrow> pxContainer (lists s') (xEventListItem u) = pxContainer (lists s1) (xEventListItem u) \<and>
      xItemValue (lists s') (xEventListItem u) = xItemValue (lists s1) (xEventListItem u)"
    using Cons.IH [OF s1(2) Cons.prems(2,3) m1] Cons.prems(5) by auto
  have "is_ready s' t" using s'(3) s1(5) by (simp add: frame_def)
  moreover have "delete_loop l s = Some s'" using n hd s1(1) s'(1) by (subst delete_loop.simps) simp
  moreover have "frame {} s s'" by (rule frame_trans [OF s1(3) s'(3)]) simp
  ultimately show ?case using s' s1(4) rl(2,4,5) Cons.prems(5) by (intro exI [of _ s']) auto
qed

subsection \<open>The rendezvous\<close>

lemma sync_start:
  fixes m :: u64
  assumes i: "event_inv T D (g, s)" and c: "pxCurrentTCB s = Some c" "is_ready s c" "pxContainer (lists s) (xEventListItem c) = None"
    and w: "w AND eventEVENT_BITS_CONTROL_BYTES = 0" and u: "uxSchedulerSuspended s + 1 \<noteq> 0"
  defines "b \<equiv> bits_after (uxEventBits g) m (waiting (xTasksWaitingForBits g) s)"
  obtains r n' g' s' where "sync_suspended (tick_env k) m w n (g, s) = Some (r, n', g', s')" "event_inv T D (g', s')"
    "uxSchedulerSuspended s' = uxSchedulerSuspended s" "frame {c} s s'" "n' = 0 \<Longrightarrow> frame {} s s'"
    "((uxEventBits g OR m) AND w) = w \<Longrightarrow> r = uxEventBits g OR m \<and> n' = 0 \<and> g' = g\<lparr>uxEventBits := b AND NOT w\<rparr> \<and>
       released_by (xTasksWaitingForBits g) (uxEventBits g OR m) s s'"
    "((uxEventBits g OR m) AND w) \<noteq> w \<Longrightarrow> n' = n \<and> g' = g\<lparr>uxEventBits := b\<rparr> \<and>
       (n \<noteq> 0 \<longrightarrow> pxContainer (lists s') (xEventListItem c) = Some (xTasksWaitingForBits g) \<and>
          xItemValue (lists s') (xEventListItem c) = wait_value w True True)"
proof -
  note inv = event_invD [OF i]
  obtain s1 where s1: "xEventGroupSetBits (tick_env k) m (g, s) = Some (b, g\<lparr>uxEventBits := b\<rparr>, s1)"
    "event_inv T D (g\<lparr>uxEventBits := b\<rparr>, s1)" "released_by (xTasksWaitingForBits g) (uxEventBits g OR m) s s1"
    "frame {} s s1" "uxSchedulerSuspended s1 = uxSchedulerSuspended s" "pxCurrentTCB s1 = pxCurrentTCB s"
    "pxContainer (lists s) (xEventListItem c) = None \<Longrightarrow> pxContainer (lists s1) (xEventListItem c) = None"
    unfolding b_def by (rule set_bits_ok [OF inv(1,2) u, of k m]) (use that in blast)
  have e: "(tick_env k)\<lparr>ev_after := Some\<rparr> = tick_env k" by (simp add: tick_env_def)
  let ?g = "g\<lparr>uxEventBits := b\<rparr>"
  have f1: "frame {c} s s1" by (rule frame_trans [OF s1(4) frame_refl [of "{}"]]) simp
  consider (all) "((uxEventBits g OR m) AND w) = w" | (wait) "((uxEventBits g OR m) AND w) \<noteq> w" "n \<noteq> 0"
    | (time) "((uxEventBits g OR m) AND w) \<noteq> w" "n = 0" by blast
  then show ?thesis
  proof cases
    case all
    have "event_inv T D (g\<lparr>uxEventBits := b AND NOT w\<rparr>, s1)" using event_inv_clear [OF s1(2), of w] by simp
    then show ?thesis
      by (intro that [of "uxEventBits g OR m" 0 "g\<lparr>uxEventBits := b AND NOT w\<rparr>" s1]) (use all e s1 f1 in \<open>simp_all add: sync_suspended_def\<close>)
  next
    case time
    then show ?thesis by (intro that [of b 0 ?g s1]) (use e s1 f1 in \<open>simp_all add: sync_suspended_def\<close>)
  next
    case wait
    let ?v = "w OR eventCLEAR_EVENTS_ON_EXIT_BIT OR eventWAIT_FOR_ALL_BITS"
    have c1: "pxCurrentTCB s1 = Some c" "is_ready s1 c" "pxContainer (lists s1) (xEventListItem c) = None"
      using c s1(4,6,7) by (simp_all add: frame_def)
    obtain s' where s': "vTaskPlaceOnUnorderedEventList (xTasksWaitingForBits g) ?v n s1 = Some s'" "kernel_inv T D s'"
      "frame {c} s1 s'" "uxSchedulerSuspended s' = uxSchedulerSuspended s1"
      "\<And>u. pxContainer (lists s') (xEventListItem u) = (if u = c then Some (xTasksWaitingForBits g) else pxContainer (lists s1) (xEventListItem u))"
      "\<And>u. xItemValue (lists s') (xEventListItem u) = (if u = c then ?v OR taskEVENT_LIST_ITEM_VALUE_IN_USE else xItemValue (lists s1) (xEventListItem u))"
      by (rule place_unordered_events [OF event_invD(1) [OF s1(2)] c1 inv(2) wait(2), of ?v]) blast
    have v: "?v OR taskEVENT_LIST_ITEM_VALUE_IN_USE = wait_value w True True" by (simp add: wait_value_def or.assoc)
    have "\<not> event_met b (wait_value w True True)"
    proof
      assume "event_met b (wait_value w True True)"
      then have "event_met (uxEventBits g OR m) (wait_value w True True)" using met_mono by (auto simp: b_def bits_after_def)
      then show False using wait(1) wait_value_met [OF w] by (simp add: prvTestWaitCondition_def)
    qed
    then have ev: "event_inv T D (?g, s')" using inv(2) s'(2) s1(2) by (auto simp: event_inv_def s'(5,6) v)
    have run: "sync_suspended (tick_env k) m w n (g, s) = Some (0, n, ?g, s')"
      using wait e s1(1) s'(1) by (simp add: sync_suspended_def)
    have f: "frame {c} s s'" by (rule frame_trans [OF f1 s'(3)]) simp
    show ?thesis by (rule that [OF run ev _ f]) (use wait s1(5) s'(4-6) v in simp_all)
  qed
qed

end
