(* ===== verification/Event_System.thy ===== *)
theory Event_System
  imports Event_Wait Task_Props
begin

text \<open>
  An event group among calls of the scheduler: tasks set, clear and wait for bits, ticks and
  context switches come in between. A wait is two calls, its two halves.
\<close>

subsection \<open>Kernel calls that leave the group alone\<close>

lemma kept_switch:
  assumes "vTaskSwitchContext s = Some s'"
  shows "events_kept s s'" "uxSchedulerSuspended s' = uxSchedulerSuspended s"
  using assms by (auto simp: vTaskSwitchContext_def taskSELECT_HIGHEST_PRIORITY_TASK_def listGET_OWNER_OF_NEXT_ENTRY_def Let_def
      set_tcb_def bind_eq_Some_conv events_kept_def split: if_splits)

lemma kept_timer: "timer_interrupt s = Some s' \<Longrightarrow> events_kept s s'"
  by (auto simp: timer_interrupt_def bind_eq_Some_conv split: if_splits intro: events_kept_trans dest: kept_tick kept_switch(1))

lemma kept_soft:
  assumes "riscv_soft_irq_handler s = Some s'"
  shows "events_kept s s'" "uxSchedulerSuspended s' = uxSchedulerSuspended s"
proof -
  let ?s = "if msip_reg s \<noteq> None then s\<lparr>msip_reg := Some 0\<rparr> else s"
  have r: "vTaskSwitchContext ?s = Some s'" using assms by (simp add: riscv_soft_irq_handler_def Let_def)
  show "events_kept s s'" by (rule kept_after_lists [OF _ kept_switch(1) [OF r]]) simp
  show "uxSchedulerSuspended s' = uxSchedulerSuspended s" using kept_switch(2) [OF r] by simp
qed

fun background :: "call \<Rightarrow> bool" where
  "background TimerInterrupt = True" | "background SoftInterrupt = True" | "background Yield = True" | "background _ = False"

lemma background_kept:
  assumes i: "system_inv idle D (T, s)" and b: "background c" and e: "enabled_call idle D c (T, s)" and un: "uxSchedulerSuspended s = 0"
  obtains s' where "exec_call idle c (T, s) = Some (T, s')" "system_inv idle D (T, s')" "events_kept s s'" "uxSchedulerSuspended s' = 0"
proof -
  obtain T' s' where r: "exec_call idle c (T, s) = Some (T', s')" "system_inv idle D (T', s')"
    using enabled_call_ok [OF i e] by (auto simp: call_ok_def)
  have "T' = T \<and> events_kept s s' \<and> uxSchedulerSuspended s' = 0"
  proof (cases c)
    case TimerInterrupt
    have rd: "is_ready s idle" using i by (simp add: system_inv_def)
    have t: "T' = T" "timer_interrupt s = Some s'" using r(1) TimerInterrupt by auto
    then show ?thesis using timer_step [OF system_kernel [OF i] un rd] kept_timer [OF t(2)] by auto
  next
    case SoftInterrupt
    then show ?thesis using r(1) kept_soft un by auto
  next
    case Yield
    then show ?thesis using r(1) un by (auto intro: events_kept_lists)
  qed (use b in simp_all)
  then show ?thesis using that r by blast
qed

subsection \<open>The system\<close>

datatype ecall = EKernel call | ESet u64 nat | EClear u64 | EWait u64 bool bool u64 nat | ELeave u64 bool bool
  | ESync u64 u64 u64 nat | ESyncLeave u64

type_synonym esystem = "(nat set \<times> kernel) \<times> EventGroup_t"

text \<open>The first half of a wait, up to the switch to another task.\<close>

definition wait_bits_enter :: "nat \<Rightarrow> u64 \<Rightarrow> bool \<Rightarrow> bool \<Rightarrow> u64 \<Rightarrow> event_state \<Rightarrow> (u64 \<times> event_state) option" where
  "wait_bits_enter k w clr all n = (\<lambda>(g, s). do {
     (r, n, g, s) \<leftarrow> wait_bits_suspended w clr all n (g, vTaskSuspendAll s);
     s \<leftarrow> suspended_ticks k s;
     (y, s) \<leftarrow> xTaskResumeAll s;
     Some (r, g, if n \<noteq> 0 \<and> \<not> y then portYIELD s else s) })"

definition sync_enter :: "nat \<Rightarrow> u64 \<Rightarrow> u64 \<Rightarrow> u64 \<Rightarrow> event_state \<Rightarrow> (u64 \<times> event_state) option" where
  "sync_enter k m w n = (\<lambda>(g, s). do {
     (r, n, g, s) \<leftarrow> sync_suspended (tick_env k) m w n (g, vTaskSuspendAll s);
     s \<leftarrow> suspended_ticks k s;
     (y, s) \<leftarrow> xTaskResumeAll s;
     Some (r, g, if n \<noteq> 0 \<and> \<not> y then portYIELD s else s) })"

text \<open>The halves make the whole.\<close>

lemma wait_bits_halves:
  assumes "ev_isr e = suspended_ticks k" "wait_bits_suspended w clr all n (g, vTaskSuspendAll s) = Some (r, n', x)"
  shows "xEventGroupWaitBits e w clr all n (g, s) =
    (if n' = 0 then wait_bits_enter k w clr all n (g, s)
     else do { (r, x) \<leftarrow> wait_bits_enter k w clr all n (g, s); x \<leftarrow> ev_after e x; wait_bits_leave w clr all x })"
  using assms by (cases x) (auto simp: xEventGroupWaitBits_def wait_bits_enter_def split: bind_splits)

fun exec_ecall :: "nat \<Rightarrow> ecall \<Rightarrow> esystem \<Rightarrow> (u64 \<times> esystem) option" where
  "exec_ecall idle (EKernel c) (x, g) = map_option (\<lambda>x. (0, x, g)) (exec_call idle c x)"
| "exec_ecall idle (ESet m k) ((T, s), g) = map_option (\<lambda>(r, g, s). (r, (T, s), g)) (xEventGroupSetBits (tick_env k) m (g, s))"
| "exec_ecall idle (EClear c) (x, g) = (let (r, g) = xEventGroupClearBits c g in Some (r, x, g))"
| "exec_ecall idle (EWait w clr all n k) ((T, s), g) = map_option (\<lambda>(r, g, s). (r, (T, s), g)) (wait_bits_enter k w clr all n (g, s))"
| "exec_ecall idle (ELeave w clr all) ((T, s), g) = map_option (\<lambda>(r, g, s). (r, (T, s), g)) (wait_bits_leave w clr all (g, s))"
| "exec_ecall idle (ESync m w n k) ((T, s), g) = map_option (\<lambda>(r, g, s). (r, (T, s), g)) (sync_enter k m w n (g, s))"
| "exec_ecall idle (ESyncLeave w) ((T, s), g) = map_option (\<lambda>(r, g, s). (r, (T, s), g)) (sync_leave w (g, s))"

definition off_event_lists :: "kernel \<Rightarrow> bool" where
  "off_event_lists s \<longleftrightarrow> (\<forall>c. pxCurrentTCB s = Some c \<longrightarrow> pxContainer (lists s) (xEventListItem c) = None)"

text \<open>The bits in the arguments must not be in the control byte: that is what the assertions say.\<close>

fun enabled_ecall :: "nat \<Rightarrow> nat set \<Rightarrow> ecall \<Rightarrow> esystem \<Rightarrow> bool" where
  "enabled_ecall idle D (EKernel c) (x, g) = (background c \<and> enabled_call idle D c x)"
| "enabled_ecall idle D (ESet m k) ((T, s), g) = (active s \<and> m AND eventEVENT_BITS_CONTROL_BYTES = 0)"
| "enabled_ecall idle D (EClear c) ((T, s), g) = (active s \<and> c AND eventEVENT_BITS_CONTROL_BYTES = 0)"
| "enabled_ecall idle D (EWait w clr all n k) ((T, s), g) =
     (may_block idle s \<and> off_event_lists s \<and> w AND eventEVENT_BITS_CONTROL_BYTES = 0)"
| "enabled_ecall idle D (ELeave w clr all) ((T, s), g) = (active s \<and> off_event_lists s)"
| "enabled_ecall idle D (ESync m w n k) ((T, s), g) = (may_block idle s \<and> off_event_lists s \<and>
     m AND eventEVENT_BITS_CONTROL_BYTES = 0 \<and> w AND eventEVENT_BITS_CONTROL_BYTES = 0)"
| "enabled_ecall idle D (ESyncLeave w) ((T, s), g) = (active s \<and> off_event_lists s)"

definition esystem_inv :: "nat \<Rightarrow> nat set \<Rightarrow> esystem \<Rightarrow> bool" where
  "esystem_inv idle D = (\<lambda>((T, s), g). system_inv idle D (T, s) \<and> event_inv T D (g, s) \<and> uxSchedulerSuspended s = 0)"

definition ecall_ok :: "nat \<Rightarrow> nat set \<Rightarrow> ecall \<Rightarrow> esystem \<Rightarrow> bool" where
  "ecall_ok idle D c y \<longleftrightarrow> (\<exists>r y'. exec_ecall idle c y = Some (r, y') \<and> esystem_inv idle D y')"

lemma esystem_keep:
  assumes i: "esystem_inv idle D ((T, s), g)" and e: "event_inv T D (g', s')" and f: "frame {} s s'" and u: "uxSchedulerSuspended s' = 0"
  shows "esystem_inv idle D ((T, s'), g')"
proof -
  have "system_inv idle D (T, s')"
    by (rule system_keep [OF _ event_invD(1) [OF e] f]) (use i u in \<open>simp_all add: esystem_inv_def\<close>)
  then show ?thesis using e u by (simp add: esystem_inv_def)
qed

text \<open>A first half that may have put the caller on the list: its last steps.\<close>

lemma enter_resume:
  assumes i: "esystem_inv idle D ((T, s), g0)" and c: "pxCurrentTCB s = Some c" "is_ready s c" "c \<noteq> idle"
    and e: "event_inv T D (g, s1)" and u: "uxSchedulerSuspended s1 = 1" and f: "frame {c} s s1"
    and r: "n = 0 \<Longrightarrow> is_ready s1 c"
  obtains s2 y s3 where "suspended_ticks k s1 = Some s2" "xTaskResumeAll s2 = Some (y, s3)"
    "esystem_inv idle D ((T, if n \<noteq> (0 :: u64) \<and> \<not> y then portYIELD s3 else s3), g)"
proof -
  obtain s2 where s2: "suspended_ticks k s1 = Some s2" "kernel_inv T D s2" "lists s2 = lists s1" "frame {} s1 s2"
    "uxSchedulerSuspended s2 = uxSchedulerSuspended s1" using suspended_ticks_ok [OF event_invD(1) [OF e]] u by auto
  obtain y s3 where s3: "xTaskResumeAll s2 = Some (y, s3)" "kernel_inv T D s3" "frame {} s2 s3" "uxSchedulerSuspended s3 = 0"
    "y \<and> msip_reg s2 \<noteq> None \<longrightarrow> msip_reg s3 = Some 1" using resume_all [OF s2(2)] s2(5) u by auto
  have ek: "events_kept s1 s3" by (rule kept_after_lists [OF s2(3) kept_resume [OF s3(1)]])
  let ?s = "if n \<noteq> 0 \<and> \<not> y then portYIELD s3 else s3"
  have f3: "frame {c} s s3" by (rule frame_trans [OF frame_trans [OF f s2(4), of "{c}"] s3(3)]) simp_all
  have fs: "frame {c} s ?s" using f3 frame_yielded [OF f3, of True] by simp
  have ks: "kernel_inv T D ?s" using s3(2) yield_inv [OF s3(2)] by simp
  have es: "event_inv T D (g, ?s)"
    by (rule event_inv_kept [OF e _ ks], rule events_kept_trans [OF ek]) (simp add: events_kept_lists)
  have sys: "system_inv idle D (T, s)" using i by (simp add: esystem_inv_def)
  have ms: "msip_reg s \<noteq> None" using sys by (simp add: system_inv_def)
  have m2: "msip_reg s2 \<noteq> None" "msip_reg s3 \<noteq> None"
    using ms f f3 s2(4) by (auto simp: frame_def msip_le_def)
  have "is_ready s3 c" if "n = 0" using r [OF that] s2(4) s3(3) by (simp add: frame_def)
  then have run: "(\<exists>c. pxCurrentTCB s = Some c \<and> is_ready s c \<and> is_ready ?s c) \<or> msip_reg ?s = Some 1 \<or> uxSchedulerSuspended ?s \<noteq> 0"
    using c(1,2) s3(5) m2 by (cases "n = 0"; cases y) auto
  have "system_inv idle D (T, ?s)"
    by (rule system_frame [OF sys ks fs _ _ run]) (use c(3) sys in \<open>simp_all add: system_inv_def\<close>)
  then show ?thesis using that [OF s2(1) s3(1)] es s3(4) by (simp add: esystem_inv_def)
qed

lemma leave_inv:
  assumes i: "esystem_inv idle D ((T, s), g)" and c: "pxCurrentTCB s = Some c" and o: "off_event_lists s"
  shows "ecall_ok idle D (ELeave w clr all) ((T, s), g)" "ecall_ok idle D (ESyncLeave w) ((T, s), g)"
proof -
  have e: "event_inv T D (g, s)" using i by (simp add: esystem_inv_def)
  define s1 where "s1 = set_item_value (xEventListItem c) (configMAX_PRIORITIES - uxPriority (tcb s c)) s"
  have k1: "kernel_inv T D s1" unfolding s1_def by (rule inv_step [OF kinv_event_value [OF inv_kinv [OF event_invD(1) [OF e]]]])
  have "event_inv T D (g, s1)"
    using e k1 o c by (auto simp: event_inv_def s1_def set_item_value_def off_event_lists_def)
  moreover have "frame {} s s1" by (rule frame_same) (simp_all add: s1_def set_item_value_def is_ready_def)
  ultimately have s1: "esystem_inv idle D ((T, s1), g')" if "event_inv T D (g', s1)" for g'
    using esystem_keep [OF i that] i by (simp add: s1_def set_item_value_def esystem_inv_def)
  have g: "event_inv T D (g, s1)" "event_inv T D (g\<lparr>uxEventBits := uxEventBits g AND NOT w\<rparr>, s1)"
    using \<open>event_inv T D (g, s1)\<close> event_inv_clear by blast+
  have r: "uxTaskResetEventItemValue s = Some (xItemValue (lists s) (xEventListItem c), s1)"
    using c by (simp add: uxTaskResetEventItemValue_def s1_def)
  show "ecall_ok idle D (ELeave w clr all) ((T, s), g)" "ecall_ok idle D (ESyncLeave w) ((T, s), g)"
    using s1 [OF g(1)] s1 [OF g(2)]
    by (auto simp: ecall_ok_def wait_bits_leave_def sync_leave_def r Let_def split: prod.splits)
qed

lemma ecall_returns:
  assumes i: "esystem_inv idle D y" and e: "enabled_ecall idle D c y"
  shows "ecall_ok idle D c y"
proof -
  obtain T s g where y: "y = ((T, s), g)" by (metis prod.collapse)
  note i = i [unfolded y] and e = e [unfolded y]
  have sys: "system_inv idle D (T, s)" "event_inv T D (g, s)" "uxSchedulerSuspended s = 0" using i by (simp_all add: esystem_inv_def)
  have u1: "uxSchedulerSuspended s + 1 \<noteq> 0" "uxSchedulerSuspended (vTaskSuspendAll s) = 1" using sys(3) by (simp_all add: vTaskSuspendAll_def)
  have si: "event_inv T D (g, vTaskSuspendAll s)" using sys(2) event_inv_suspend by blast
  have cur: "\<exists>c. pxCurrentTCB s = Some c \<and> is_ready s c" if "active s"
    using that by (rule activeE) blast
  have blk: "\<exists>c. pxCurrentTCB s = Some c \<and> is_ready s c \<and> c \<noteq> idle" if "may_block idle s"
    using that cur by (auto simp: may_block_def)
  show ?thesis
  proof (cases c)
    case (EKernel k)
    obtain s' where "exec_call idle k (T, s) = Some (T, s')" "system_inv idle D (T, s')" "events_kept s s'" "uxSchedulerSuspended s' = 0"
      by (rule background_kept [OF sys(1) _ _ sys(3), of k]) (use e EKernel in simp_all)
    then show ?thesis using event_inv_kept [OF sys(2)] system_kernel by (auto simp: ecall_ok_def y EKernel esystem_inv_def)
  next
    case (ESet m k)
    obtain b s' where "xEventGroupSetBits (tick_env k) m (g, s) = Some (b, g\<lparr>uxEventBits := b\<rparr>, s')"
      "event_inv T D (g\<lparr>uxEventBits := b\<rparr>, s')" "frame {} s s'" "uxSchedulerSuspended s' = uxSchedulerSuspended s"
      by (rule set_bits_ok [OF event_invD(1,2) [OF sys(2)] u1(1), where n = k and m = m]) blast
    then show ?thesis using esystem_keep [OF i] sys(3) by (auto simp: ecall_ok_def y ESet)
  next
    case (EClear m)
    show ?thesis using esystem_keep [OF i event_inv_clear [OF sys(2), of m] frame_refl sys(3)]
      by (simp add: ecall_ok_def y EClear xEventGroupClearBits_def)
  next
    case (ELeave w clr all)
    then obtain c where "pxCurrentTCB s = Some c" using e cur by auto
    then show ?thesis using leave_inv(1) [OF i] e ELeave by (simp add: y)
  next
    case (ESyncLeave w)
    then obtain c where "pxCurrentTCB s = Some c" using e cur by auto
    then show ?thesis using leave_inv(2) [OF i] e ESyncLeave by (simp add: y)
  next
    case (EWait w clr all n k)
    obtain c where c: "pxCurrentTCB s = Some c" "is_ready s c" "c \<noteq> idle" using e EWait blk by auto
    have cs: "pxCurrentTCB (vTaskSuspendAll s) = Some c" "is_ready (vTaskSuspendAll s) c"
      "pxContainer (lists (vTaskSuspendAll s)) (xEventListItem c) = None"
      using c e EWait by (simp_all add: vTaskSuspendAll_def is_ready_def off_event_lists_def)
    have w: "w AND eventEVENT_BITS_CONTROL_BYTES = 0" using e EWait by simp
    obtain r n' g' s' where r: "wait_bits_suspended w clr all n (g, vTaskSuspendAll s) = Some (r, n', g', s')" "event_inv T D (g', s')"
      "uxSchedulerSuspended s' = uxSchedulerSuspended (vTaskSuspendAll s)" "frame {c} (vTaskSuspendAll s) s'"
      "prvTestWaitCondition (uxEventBits g) w all \<Longrightarrow> n' = 0 \<and> s' = vTaskSuspendAll s"
      "\<not> prvTestWaitCondition (uxEventBits g) w all \<Longrightarrow> n' = n \<and> (n = 0 \<longrightarrow> s' = vTaskSuspendAll s)"
      by (rule wait_enter [OF si cs w, of clr all n]) (use that in presburger)
    have rd: "is_ready s' c" if "n' = 0" using r(5,6) that cs(2) by (cases "prvTestWaitCondition (uxEventBits g) w all") auto
    have f: "frame {c} s s'" by (rule frame_trans [OF suspend_frame r(4)]) simp
    obtain s2 y' s3 where s3: "suspended_ticks k s' = Some s2" "xTaskResumeAll s2 = Some (y', s3)"
      "esystem_inv idle D ((T, if n' \<noteq> 0 \<and> \<not> y' then portYIELD s3 else s3), g')"
      by (rule enter_resume [OF i c r(2) _ f rd, where k = k and n = n']) (use r(3) u1(2) in auto)
    have "wait_bits_enter k w clr all n (g, s) = Some (r, g', if n' \<noteq> 0 \<and> \<not> y' then portYIELD s3 else s3)"
      using r(1) s3(1,2) by (simp add: wait_bits_enter_def)
    then show ?thesis using s3(3) by (simp add: ecall_ok_def y EWait)
  next
    case (ESync m w n k)
    obtain c where c: "pxCurrentTCB s = Some c" "is_ready s c" "c \<noteq> idle" using e ESync blk by auto
    have cs: "pxCurrentTCB (vTaskSuspendAll s) = Some c" "is_ready (vTaskSuspendAll s) c"
      "pxContainer (lists (vTaskSuspendAll s)) (xEventListItem c) = None"
      using c e ESync by (simp_all add: vTaskSuspendAll_def is_ready_def off_event_lists_def)
    have w: "w AND eventEVENT_BITS_CONTROL_BYTES = 0" "uxSchedulerSuspended (vTaskSuspendAll s) + 1 \<noteq> 0" using e ESync u1 by simp_all
    obtain r n' g' s' where r: "sync_suspended (tick_env k) m w n (g, vTaskSuspendAll s) = Some (r, n', g', s')" "event_inv T D (g', s')"
      "uxSchedulerSuspended s' = uxSchedulerSuspended (vTaskSuspendAll s)" "frame {c} (vTaskSuspendAll s) s'"
      "n' = 0 \<Longrightarrow> frame {} (vTaskSuspendAll s) s'"
      by (rule sync_start [OF si cs w, where k = k and m = m and n = n]) (use that in presburger)
    have rd: "is_ready s' c" if "n' = 0" using r(5) [OF that] cs(2) by (simp add: frame_def)
    have f: "frame {c} s s'" by (rule frame_trans [OF suspend_frame r(4)]) simp
    obtain s2 y' s3 where s3: "suspended_ticks k s' = Some s2" "xTaskResumeAll s2 = Some (y', s3)"
      "esystem_inv idle D ((T, if n' \<noteq> 0 \<and> \<not> y' then portYIELD s3 else s3), g')"
      by (rule enter_resume [OF i c r(2) _ f rd, where k = k and n = n']) (use r(3) u1(2) in auto)
    have "sync_enter k m w n (g, s) = Some (r, g', if n' \<noteq> 0 \<and> \<not> y' then portYIELD s3 else s3)"
      using r(1) s3(1,2) by (simp add: sync_enter_def)
    then show ?thesis using s3(3) by (simp add: ecall_ok_def y ESync)
  qed
qed

interpretation esched: call_system "enabled_ecall idle D" "\<lambda>c y. map_option snd (exec_ecall idle c y)" "esystem_inv idle D" for idle D
proof
  fix y y' c
  assume a: "esystem_inv idle D y" "enabled_ecall idle D c y"
  note ok = ecall_returns [OF a, unfolded ecall_ok_def]
  show "map_option snd (exec_ecall idle c y) \<noteq> None" using ok by auto
  show "esystem_inv idle D y'" if "map_option snd (exec_ecall idle c y) = Some y'" using ok that by auto
qed

end
