(* ===== verification/Event_Props.thy ===== *)
theory Event_Props
  imports Event_System Queue_Props
begin

text \<open>The properties of event groups.\<close>

definition ex_event :: EventGroup_t where
  "ex_event = \<lparr>uxEventBits = 0, xTasksWaitingForBits = 37, uxEventGroupNumber = 0, egStaticallyAllocated = True\<rparr>"

text \<open>In the started system nobody waits for the group; then task 1 waits for two bits of it.\<close>

lemma ex_event_inv:
  assumes "kernel_inv T {..40} s" "\<forall>u. pxContainer (lists s) (xEventListItem u) = None"
  shows "event_inv T {..40} (ex_event, s)"
  using assms ex_wait_lists(1) by (simp add: event_inv_def ex_event_def)

lemma ex_event_system:
  obtains s0 where "vTaskStartScheduler (Some 7) (Some 0) True (Some 8) (Some 1) ex_reset = Some s0" "esystem_inv 0 {..40} (({1, 0}, s0), ex_event)"
    "pxCurrentTCB s0 = Some 1" "is_ready s0 1" "active s0" "pxContainer (lists s0) (xEventListItem 1) = None" "uxSchedulerSuspended s0 = 0"
proof -
  obtain s0 where s0: "vTaskStartScheduler (Some 7) (Some 0) True (Some 8) (Some 1) ex_reset = Some s0"
    "system_inv 0 {..40} ({1, 0}, s0)" "uxSchedulerSuspended s0 = 0" "pxCurrentTCB s0 = Some 1" "is_ready s0 1" "active s0"
    "\<forall>u. pxContainer (lists s0) (xEventListItem u) = None" "\<forall>l. wait_list {..40} l \<longrightarrow> listLIST_IS_EMPTY (lists s0) l"
    by (rule ex_nobody_waits)
  have "esystem_inv 0 {..40} (({1, 0}, s0), ex_event)"
    using s0(2,3) ex_event_inv [OF system_kernel [OF s0(2)] s0(7)] by (simp add: esystem_inv_def)
  then show ?thesis using that s0 by blast
qed

lemma ex_waits:
  obtains s0 s1 where "vTaskStartScheduler (Some 7) (Some 0) True (Some 8) (Some 1) ex_reset = Some s0"
    "wait_bits_suspended 6 True True 10 (ex_event, vTaskSuspendAll s0) = Some (0, 10, ex_event, s1)" "event_inv {1, 0} {..40} (ex_event, s1)"
    "uxSchedulerSuspended s1 = 1" "pxContainer (lists s1) (xEventListItem 1) = Some 37" "xItemValue (lists s1) (xEventListItem 1) = wait_value 6 True True"
proof -
  obtain s0 where s0: "vTaskStartScheduler (Some 7) (Some 0) True (Some 8) (Some 1) ex_reset = Some s0"
    "esystem_inv 0 {..40} (({1, 0}, s0), ex_event)" "pxCurrentTCB s0 = Some 1" "is_ready s0 1" "active s0"
    "pxContainer (lists s0) (xEventListItem 1) = None" "uxSchedulerSuspended s0 = 0"
    by (rule ex_event_system)
  have e: "event_inv {1, 0} {..40} (ex_event, vTaskSuspendAll s0)" using s0(2) event_inv_suspend by (simp add: esystem_inv_def)
  have c: "pxCurrentTCB (vTaskSuspendAll s0) = Some 1" "is_ready (vTaskSuspendAll s0) 1" "pxContainer (lists (vTaskSuspendAll s0)) (xEventListItem 1) = None"
    using s0(3,4,6) by (simp_all add: vTaskSuspendAll_def is_ready_def)
  have w: "6 AND eventEVENT_BITS_CONTROL_BYTES = 0" by (simp add: eventEVENT_BITS_CONTROL_BYTES_def)
  have nt: "\<not> prvTestWaitCondition (uxEventBits ex_event) 6 True" by (simp add: prvTestWaitCondition_def ex_event_def)
  obtain r n' g' s1 where s1: "wait_bits_suspended 6 True True 10 (ex_event, vTaskSuspendAll s0) = Some (r, n', g', s1)" "event_inv {1, 0} {..40} (g', s1)"
    "uxSchedulerSuspended s1 = uxSchedulerSuspended (vTaskSuspendAll s0)"
    "\<not> prvTestWaitCondition (uxEventBits ex_event) 6 True \<Longrightarrow> g' = ex_event \<and> n' = 10 \<and> (if (10 :: u64) = 0 then r = uxEventBits ex_event \<and> s1 = vTaskSuspendAll s0
       else pxContainer (lists s1) (xEventListItem 1) = Some (xTasksWaitingForBits ex_event) \<and>
         xItemValue (lists s1) (xEventListItem 1) = wait_value 6 True True)"
    by (rule wait_enter [OF e c w, where clr = True and all = True and n = 10]) (use that in presburger)
  have f: "g' = ex_event" "n' = 10" "pxContainer (lists s1) (xEventListItem 1) = Some 37" "xItemValue (lists s1) (xEventListItem 1) = wait_value 6 True True"
    using s1(4) [OF nt] by (simp_all add: ex_event_def)
  have "r = 0" using s1(1) nt by (auto simp: wait_bits_suspended_def Let_def bind_eq_Some_conv)
  then show ?thesis using that [OF s0(1)] s1 f s0(7) by (simp add: vTaskSuspendAll_def)
qed

subsection \<open>Every schedule\<close>

text \<open>C13: an event group is safe under every interleaving of the tasks that set, clear and wait for its bits
  with ticks and context switches, and no event is lost: in every state reached after the start
  no task waits for bits that are already set, and every call that may come next returns.\<close>

theorem event_system_safe:
  assumes "boot_inv T D s" "start_ok T idle timer s"
    and "vTaskStartScheduler (Some st1) (Some idle) True (Some st2) (Some timer) s = Some s0"
    and "wait_list D (xTasksWaitingForBits g)"
    and "reaches (enabled_ecall idle D) (\<lambda>c y. map_option snd (exec_ecall idle c y)) ((insert timer (insert idle T), s0), g) ((T', s'), g')"
    and "\<forall>u. pxContainer (lists s0) (xEventListItem u) \<noteq> Some (xTasksWaitingForBits g)"
  shows "kernel_inv T' D s' \<and> (\<forall>(t, v)\<in>set (waiting (xTasksWaitingForBits g') s'). \<not> event_met (uxEventBits g') v) \<and>
    (\<forall>c. enabled_ecall idle D c ((T', s'), g') \<longrightarrow>
       (\<exists>r y. exec_ecall idle c ((T', s'), g') = Some (r, y) \<and> esystem_inv idle D y))"
proof -
  have "system_inv idle D (insert timer (insert idle T), s0)" "uxSchedulerSuspended s0 = 0"
    using start_scheduler [OF assms(1,2), of st1 st2] assms(3) by auto
  then have i: "esystem_inv idle D ((insert timer (insert idle T), s0), g)"
    using assms(4,6) system_kernel by (auto simp: esystem_inv_def event_inv_def)
  have i': "esystem_inv idle D ((T', s'), g')" by (rule esched.reachable_inv [OF assms(5) i])
  then have e: "event_inv T' D (g', s')" by (simp add: esystem_inv_def)
  have "\<not> event_met (uxEventBits g') v" if "(t, v) \<in> set (waiting (xTasksWaitingForBits g') s')" for t v
  proof -
    note m = iffD1 [OF waiting_member [OF event_invD(1,3,4) [OF e]] that]
    show ?thesis using event_invD(5) [OF e conjunct1 [OF m]] conjunct2 [OF m] by simp
  qed
  moreover have "\<exists>r y. exec_ecall idle c ((T', s'), g') = Some (r, y) \<and> esystem_inv idle D y"
    if "enabled_ecall idle D c ((T', s'), g')" for c
    using ecall_returns [OF i' that] unfolding ecall_ok_def by blast
  ultimately show ?thesis using event_invD(1) [OF e] by blast
qed

theorem event_system_safe_witness:
  "\<exists>s0 T' s' g'. vTaskStartScheduler (Some 7) (Some 0) True (Some 8) (Some 1) ex_reset = Some s0 \<and>
     run_calls (enabled_ecall 0 {..40}) (\<lambda>c y. map_option snd (exec_ecall 0 c y)) [EWait 6 True True 10 0]
       (({1, 0}, s0), ex_event) = Some ((T', s'), g') \<and> kernel_inv T' {..40} s'"
proof -
  obtain s0 where s0: "vTaskStartScheduler (Some 7) (Some 0) True (Some 8) (Some 1) ex_reset = Some s0"
    "esystem_inv 0 {..40} (({1, 0}, s0), ex_event)" "pxCurrentTCB s0 = Some 1" "is_ready s0 1" "active s0"
    "pxContainer (lists s0) (xEventListItem 1) = None" "uxSchedulerSuspended s0 = 0"
    by (rule ex_event_system)
  have e: "enabled_ecall 0 {..40} (EWait 6 True True 10 0) (({1, 0}, s0), ex_event)"
    using s0(3,5-7) by (simp add: may_block_def off_event_lists_def eventEVENT_BITS_CONTROL_BYTES_def)
  obtain r T' s' g' where r: "exec_ecall 0 (EWait 6 True True 10 0) (({1, 0}, s0), ex_event) = Some (r, (T', s'), g')"
    using ecall_returns [OF s0(2) e] by (auto simp: ecall_ok_def)
  have run: "run_calls (enabled_ecall 0 {..40}) (\<lambda>c y. map_option snd (exec_ecall 0 c y)) [EWait 6 True True 10 0]
       (({1, 0}, s0), ex_event) = Some ((T', s'), g')"
    using e r by (simp del: exec_ecall.simps enabled_ecall.simps)
  have free: "\<forall>u. pxContainer (lists s0) (xEventListItem u) \<noteq> Some (xTasksWaitingForBits ex_event)"
  proof
    fix u
    have ev: "event_place {1, 0} s0" using s0(2) kernel_event_place [OF kinvD(1) [OF inv_kinv]] by (auto simp: esystem_inv_def event_inv_def)
    obtain x where "vTaskStartScheduler (Some 7) (Some 0) True (Some 8) (Some 1) ex_reset = Some x" "\<forall>u. pxContainer (lists x) (xEventListItem u) = None"
      by (rule ex_nobody_waits)
    then show "pxContainer (lists s0) (xEventListItem u) \<noteq> Some (xTasksWaitingForBits ex_event)" using s0(1) by simp
  qed
  have "kernel_inv T' {..40} s'"
    using event_system_safe [OF ex_reset_boot ex_start_ok s0(1) _ run_calls_reaches [OF run] free] ex_wait_lists(1)
    by (simp add: ex_event_def)
  then show ?thesis using s0(1) run by blast
qed

subsection \<open>Setting bits\<close>

text \<open>C15: \<open>xEventGroupSetBits\<close> treats the waiting tasks all alike, whatever their order: with the bits that are
  set then, exactly the tasks whose condition holds become ready, each with these bits as its
  result; the bits that released tasks asked to clear are cleared after that; the others wait on,
  unless their time ran out in between.\<close>

theorem event_set_correct:
  assumes "event_inv T D (g, s)" "uxSchedulerSuspended s + 1 \<noteq> 0"
  shows "\<exists>s'. xEventGroupSetBits (tick_env n) m (g, s) =
      Some (bits_after (uxEventBits g) m (waiting (xTasksWaitingForBits g) s),
        g\<lparr>uxEventBits := bits_after (uxEventBits g) m (waiting (xTasksWaitingForBits g) s)\<rparr>, s') \<and>
    event_inv T D (g\<lparr>uxEventBits := bits_after (uxEventBits g) m (waiting (xTasksWaitingForBits g) s)\<rparr>, s') \<and>
    released_by (xTasksWaitingForBits g) (uxEventBits g OR m) s s'"
  by (rule set_bits_ok [OF event_invD(1,2) [OF assms(1)] assms(2), where m = m and n = n]) blast

lemma ex_wait_met: "6 AND eventEVENT_BITS_CONTROL_BYTES = 0" "(uxEventBits ex_event OR 7) AND eventEVENT_BITS_CONTROL_BYTES = 0"
  "prvTestWaitCondition (uxEventBits ex_event OR 7) 6 True" "xTasksWaitingForBits ex_event = 37"
  by (simp_all add: eventEVENT_BITS_CONTROL_BYTES_def ex_event_def prvTestWaitCondition_def)

theorem event_set_correct_witness:
  "\<exists>s0 s1 r s2. vTaskStartScheduler (Some 7) (Some 0) True (Some 8) (Some 1) ex_reset = Some s0 \<and>
     wait_bits_suspended 6 True True 10 (ex_event, vTaskSuspendAll s0) = Some (0, 10, ex_event, s1) \<and>
     xEventGroupSetBits (tick_env 2) 7 (ex_event, s1) = Some (r, ex_event\<lparr>uxEventBits := r\<rparr>, s2) \<and> is_ready s2 1"
proof -
  obtain s0 s1 where s: "vTaskStartScheduler (Some 7) (Some 0) True (Some 8) (Some 1) ex_reset = Some s0"
    "wait_bits_suspended 6 True True 10 (ex_event, vTaskSuspendAll s0) = Some (0, 10, ex_event, s1)" "event_inv {1, 0} {..40} (ex_event, s1)"
    "uxSchedulerSuspended s1 = 1" "pxContainer (lists s1) (xEventListItem 1) = Some 37" "xItemValue (lists s1) (xEventListItem 1) = wait_value 6 True True"
    by (rule ex_waits)
  have mem: "(1, wait_value 6 True True) \<in> set (waiting 37 s1)"
    using waiting_member [OF event_invD(1,3,4) [OF s(3)]] s(5,6) ex_wait_met(4) by simp
  have u: "uxSchedulerSuspended s1 + 1 \<noteq> 0" using s(4) by simp
  obtain s2 where s2: "xEventGroupSetBits (tick_env 2) 7 (ex_event, s1) = Some (bits_after (uxEventBits ex_event) 7 (waiting 37 s1),
      ex_event\<lparr>uxEventBits := bits_after (uxEventBits ex_event) 7 (waiting 37 s1)\<rparr>, s2)" "released_by 37 (uxEventBits ex_event OR 7) s1 s2"
    using event_set_correct [OF s(3) u, of 2 7] ex_wait_met(4) by auto
  have "is_ready s2 1"
    using s2(2) mem wait_value_met [OF ex_wait_met(1)] ex_wait_met(3) unfolding released_by_def by (auto split: prod.splits if_splits)
  then show ?thesis using s(1,2) s2(1) by blast
qed

subsection \<open>Waiting and meeting\<close>

text \<open>C36: a task that waits for bits is released by the call that completes them, and its own call returns
  exactly the bits at that moment, whatever happens to the group before it runs; if it asked for
  that, the bits it waited for are cleared for everyone.\<close>

theorem event_handshake:
  assumes "event_inv T D (g, s)" "uxSchedulerSuspended s + 1 \<noteq> 0" "w AND eventEVENT_BITS_CONTROL_BYTES = 0"
    and "pxContainer (lists s) (xEventListItem t) = Some (xTasksWaitingForBits g)" "xItemValue (lists s) (xEventListItem t) = wait_value w clr all"
    and "prvTestWaitCondition (uxEventBits g OR m) w all" "(uxEventBits g OR m) AND eventEVENT_BITS_CONTROL_BYTES = 0"
  shows "\<exists>r g1 s1. xEventGroupSetBits (tick_env n) m (g, s) = Some (r, g1, s1) \<and> is_ready s1 t \<and>
    pxContainer (lists s1) (xEventListItem t) = None \<and> (clr \<longrightarrow> uxEventBits g1 AND w = 0) \<and>
    (\<forall>g2 s2. pxCurrentTCB s2 = Some t \<longrightarrow> xItemValue (lists s2) (xEventListItem t) = xItemValue (lists s1) (xEventListItem t) \<longrightarrow>
       (\<exists>s3. wait_bits_leave w clr all (g2, s2) = Some (uxEventBits g OR m, g2, s3)))"
proof -
  let ?l = "xTasksWaitingForBits g" and ?b = "uxEventBits g OR m" and ?v = "wait_value w clr all"
  note inv = event_invD [OF assms(1)]
  have mem: "(t, ?v) \<in> set (waiting ?l s)" using waiting_member [OF inv(1,3,4)] assms(4,5) by simp
  have met: "event_met ?b ?v" using assms(6) wait_value_met [OF assms(3)] by simp
  obtain s1 where s1: "xEventGroupSetBits (tick_env n) m (g, s) =
      Some (bits_after (uxEventBits g) m (waiting ?l s), g\<lparr>uxEventBits := bits_after (uxEventBits g) m (waiting ?l s)\<rparr>, s1)"
    "released_by ?l ?b s s1"
    by (rule set_bits_ok [OF inv(1,2) assms(2), where m = m and n = n]) blast
  have rel: "is_ready s1 t" "pxContainer (lists s1) (xEventListItem t) = None"
    "xItemValue (lists s1) (xEventListItem t) = ?b OR eventUNBLOCKED_DUE_TO_BIT_SET OR taskEVENT_LIST_ITEM_VALUE_IN_USE"
    using s1(2) mem met unfolding released_by_def by (auto split: prod.splits if_splits)
  have "bits_after (uxEventBits g) m (waiting ?l s) AND w = 0" if clr
  proof -
    have "?v \<in> set (map snd (waiting ?l s))" using mem by force
    then show ?thesis using mask_clears [OF _ met] that wait_value_parts [OF assms(3)] by (simp add: bits_after_def)
  qed
  moreover have "\<exists>s3. wait_bits_leave w clr all (g2, s2) = Some (?b, g2, s3)"
    if "pxCurrentTCB s2 = Some t" "xItemValue (lists s2) (xEventListItem t) = xItemValue (lists s1) (xEventListItem t)" for g2 s2
    using leave_released(1) [OF that(1) assms(7)] that(2) rel(3) by simp
  ultimately show ?thesis using s1(1) rel(1,2) by auto
qed

theorem event_handshake_witness:
  "\<exists>s0 s1 r g1 s2. vTaskStartScheduler (Some 7) (Some 0) True (Some 8) (Some 1) ex_reset = Some s0 \<and>
     wait_bits_suspended 6 True True 10 (ex_event, vTaskSuspendAll s0) = Some (0, 10, ex_event, s1) \<and>
     xEventGroupSetBits (tick_env 2) 7 (ex_event, s1) = Some (r, g1, s2) \<and> is_ready s2 1 \<and> uxEventBits g1 AND 6 = 0"
proof -
  obtain s0 s1 where s: "vTaskStartScheduler (Some 7) (Some 0) True (Some 8) (Some 1) ex_reset = Some s0"
    "wait_bits_suspended 6 True True 10 (ex_event, vTaskSuspendAll s0) = Some (0, 10, ex_event, s1)" "event_inv {1, 0} {..40} (ex_event, s1)"
    "uxSchedulerSuspended s1 = 1" "pxContainer (lists s1) (xEventListItem 1) = Some 37" "xItemValue (lists s1) (xEventListItem 1) = wait_value 6 True True"
    by (rule ex_waits)
  have u: "uxSchedulerSuspended s1 + 1 \<noteq> 0" using s(4) by simp
  show ?thesis
    using event_handshake [OF s(3) u ex_wait_met(1) _ s(6) ex_wait_met(3,2), of 2] s(1,2,5) ex_wait_met(4) by auto
qed

text \<open>C37: the last task to arrive at a rendezvous does not wait: it gets the bits of all, clears those of the
  meeting, and every task that was waiting for the same bits is ready to run.\<close>

theorem event_rendezvous:
  assumes "event_inv T D (g, s)" "uxSchedulerSuspended s = 0" "w AND eventEVENT_BITS_CONTROL_BYTES = 0"
    and "pxCurrentTCB s = Some c" "is_ready s c" "pxContainer (lists s) (xEventListItem c) = None"
    and "((uxEventBits g OR m) AND w) = w"
  shows "\<exists>g' s'. sync_enter k m w n (g, s) = Some (uxEventBits g OR m, g', s') \<and> event_inv T D (g', s') \<and> is_ready s' c \<and>
    uxEventBits g' AND w = 0 \<and>
    (\<forall>t. (t, wait_value w True True) \<in> set (waiting (xTasksWaitingForBits g) s) \<longrightarrow> is_ready s' t)"
proof -
  let ?l = "xTasksWaitingForBits g" and ?b = "uxEventBits g OR m" and ?v = "wait_value w True True" and ?s = "vTaskSuspendAll s"
  have i: "event_inv T D (g, ?s)" using assms(1) event_inv_suspend by blast
  have c: "pxCurrentTCB ?s = Some c" "is_ready ?s c" "pxContainer (lists ?s) (xEventListItem c) = None" "uxSchedulerSuspended ?s + 1 \<noteq> 0"
    using assms(2,4-6) by (simp_all add: vTaskSuspendAll_def is_ready_def)
  obtain r n' g' s1 where s1: "sync_suspended (tick_env k) m w n (g, ?s) = Some (r, n', g', s1)" "event_inv T D (g', s1)"
    "uxSchedulerSuspended s1 = uxSchedulerSuspended ?s" "n' = 0 \<Longrightarrow> frame {} ?s s1"
    "((uxEventBits g OR m) AND w) = w \<Longrightarrow> r = uxEventBits g OR m \<and> n' = 0 \<and>
       g' = g\<lparr>uxEventBits := bits_after (uxEventBits g) m (waiting ?l ?s) AND NOT w\<rparr> \<and> released_by ?l ?b ?s s1"
    by (rule sync_start [OF i c(1-3) assms(3) c(4), where k = k and m = m and n = n]) (use that in presburger)
  note all = s1(5) [OF assms(7)]
  have u: "uxSchedulerSuspended s1 \<noteq> 0" using s1(3) assms(2) by (simp add: vTaskSuspendAll_def)
  obtain s2 y s3 where s3: "suspended_ticks k s1 = Some s2" "xTaskResumeAll s2 = Some (y, s3)" "kernel_inv T D s3" "frame {} s1 s3" "events_kept s1 s3"
    by (rule resume_events [OF event_invD(1) [OF s1(2)] u]) blast
  have run: "sync_enter k m w n (g, s) = Some (?b, g', s3)" using s1(1) s3(1,2) all by (simp add: sync_enter_def)
  have f: "frame {} ?s s3" by (rule frame_trans [OF s1(4) s3(4)]) (use all in simp_all)
  have "is_ready s3 t" if "(t, ?v) \<in> set (waiting ?l s)" for t
  proof -
    have "(t, ?v) \<in> set (waiting ?l ?s)" using that by (simp add: waiting_def vTaskSuspendAll_def)
    moreover have "event_met ?b ?v" using assms(7) wait_value_met [OF assms(3)] by (simp add: prvTestWaitCondition_def)
    ultimately have "is_ready s1 t" using all unfolding released_by_def by (auto split: prod.splits if_splits)
    then show ?thesis using s3(4) by (simp add: frame_def)
  qed
  moreover have "uxEventBits g' AND w = 0" using all by (simp add: and.assoc)
  moreover have "is_ready s3 c" using f c(2) by (simp add: frame_def)
  ultimately show ?thesis using run event_inv_kept [OF s1(2) s3(5,3)] by blast
qed

theorem event_rendezvous_witness:
  "\<exists>s0 g' s'. vTaskStartScheduler (Some 7) (Some 0) True (Some 8) (Some 1) ex_reset = Some s0 \<and>
     sync_enter 3 6 6 10 (ex_event, s0) = Some (6, g', s') \<and> is_ready s' 1 \<and> uxEventBits g' AND 6 = 0"
proof -
  obtain s0 where s0: "vTaskStartScheduler (Some 7) (Some 0) True (Some 8) (Some 1) ex_reset = Some s0"
    "esystem_inv 0 {..40} (({1, 0}, s0), ex_event)" "pxCurrentTCB s0 = Some 1" "is_ready s0 1" "active s0"
    "pxContainer (lists s0) (xEventListItem 1) = None" "uxSchedulerSuspended s0 = 0"
    by (rule ex_event_system)
  have e: "event_inv {1, 0} {..40} (ex_event, s0)" using s0(2) by (simp add: esystem_inv_def)
  have b: "((uxEventBits ex_event OR 6) AND 6) = 6" "uxEventBits ex_event OR 6 = 6" by (simp_all add: ex_event_def)
  show ?thesis using event_rendezvous [OF e s0(7) ex_wait_met(1) s0(3,4,6) b(1), of 3 10] s0(1) unfolding b(2) by blast
qed

text \<open>C38: deleting a group ends, however many tasks wait, and leaves none behind: all become ready, and their
  waits return 0.\<close>

theorem event_delete_releases:
  assumes "event_inv T D (g, s)" "uxSchedulerSuspended s + 1 \<noteq> 0"
    and "if egStaticallyAllocated g then h' = h else vPortFree h p = Some h'"
  shows "\<exists>s'. vEventGroupDelete (tick_env n) h p (g, s) = Some (h', s') \<and> kernel_inv T D s' \<and>
    (\<forall>u. pxContainer (lists s') (xEventListItem u) \<noteq> Some (xTasksWaitingForBits g)) \<and>
    (\<forall>(t, v)\<in>set (waiting (xTasksWaitingForBits g) s). is_ready s' t \<and>
       (\<forall>w clr all g2 s2. pxCurrentTCB s2 = Some t \<longrightarrow> xItemValue (lists s2) (xEventListItem t) = xItemValue (lists s') (xEventListItem t) \<longrightarrow>
          (\<exists>s3. wait_bits_leave w clr all (g2, s2) = Some (0, g2, s3))))"
proof -
  let ?l = "xTasksWaitingForBits g" and ?s = "vTaskSuspendAll s"
  note inv = event_invD [OF assms(1)]
  have k: "kernel_inv T D ?s" by (rule suspend_all_inv [OF inv(1)])
  obtain ts where ts: "members (lists ?s) ?l = map xEventListItem ts" "distinct ts" "waiting ?l ?s = map (\<lambda>t. (t, xItemValue (lists ?s) (xEventListItem t))) ts"
    by (rule event_members [OF k inv(3,4)]) blast
  obtain s1 where s1: "delete_loop ?l ?s = Some s1" "kernel_inv T D s1" "frame {} ?s s1" "uxSchedulerSuspended s1 = uxSchedulerSuspended ?s"
    "members (lists s1) ?l = []" "\<forall>t\<in>set ts. is_ready s1 t \<and> pxContainer (lists s1) (xEventListItem t) = None \<and>
      xItemValue (lists s1) (xEventListItem t) = eventUNBLOCKED_DUE_TO_BIT_SET OR taskEVENT_LIST_ITEM_VALUE_IN_USE"
    using delete_walk [OF k inv(3,4) ts(1,2)] by blast
  have u: "uxSchedulerSuspended s1 \<noteq> 0" using s1(4) assms(2) by (simp add: vTaskSuspendAll_def)
  obtain s2 y s' where s': "suspended_ticks n s1 = Some s2" "xTaskResumeAll s2 = Some (y, s')" "kernel_inv T D s'" "frame {} s1 s'" "events_kept s1 s'"
    by (rule resume_events [OF s1(2) u]) blast
  have run: "vEventGroupDelete (tick_env n) h p (g, s) = Some (h', s')"
    using s1(1) s'(1,2) assms(3) by (simp add: vEventGroupDelete_def tick_env_def split: if_splits)
  have none: "pxContainer (lists s') (xEventListItem u) \<noteq> Some ?l" for u
  proof -
    have "pxContainer (lists s1) (xEventListItem u) \<noteq> Some ?l"
      using members_container [OF kernel_lists [OF kinvD(1) [OF inv_kinv [OF s1(2)]]] inv(4)] s1(5) by (metis empty_iff list.set(1))
    then show ?thesis using s'(5) unfolding events_kept_def by (metis option.distinct(1))
  qed
  have each: "is_ready s' t \<and> (\<forall>w clr all g2 s2. pxCurrentTCB s2 = Some t \<longrightarrow> xItemValue (lists s2) (xEventListItem t) = xItemValue (lists s') (xEventListItem t) \<longrightarrow>
      (\<exists>s3. wait_bits_leave w clr all (g2, s2) = Some (0, g2, s3)))" if "(t, v) \<in> set (waiting ?l s)" for t v
  proof -
    have "waiting ?l ?s = waiting ?l s" by (simp add: waiting_def vTaskSuspendAll_def)
    then have "(t, v) \<in> set (waiting ?l ?s)" using that by simp
    then have "t \<in> set ts" unfolding ts(3) by auto
    then have t: "is_ready s1 t" "xItemValue (lists s1) (xEventListItem t) = 0 OR eventUNBLOCKED_DUE_TO_BIT_SET OR taskEVENT_LIST_ITEM_VALUE_IN_USE"
      using s1(6) by auto
    have "xItemValue (lists s') (xEventListItem t) = xItemValue (lists s1) (xEventListItem t)" using s'(5) by (simp add: events_kept_def)
    then show ?thesis using t s'(4) leave_released(1) [of _ t 0] by (simp add: frame_def)
  qed
  show ?thesis using run s'(3) none each by blast
qed

theorem event_delete_releases_witness:
  "\<exists>s0 s1 s2. vTaskStartScheduler (Some 7) (Some 0) True (Some 8) (Some 1) ex_reset = Some s0 \<and>
     wait_bits_suspended 6 True True 10 (ex_event, vTaskSuspendAll s0) = Some (0, 10, ex_event, s1) \<and>
     vEventGroupDelete (tick_env 1) ex_heap 0 (ex_event, s1) = Some (ex_heap, s2) \<and> is_ready s2 1"
proof -
  obtain s0 s1 where s: "vTaskStartScheduler (Some 7) (Some 0) True (Some 8) (Some 1) ex_reset = Some s0"
    "wait_bits_suspended 6 True True 10 (ex_event, vTaskSuspendAll s0) = Some (0, 10, ex_event, s1)" "event_inv {1, 0} {..40} (ex_event, s1)"
    "uxSchedulerSuspended s1 = 1" "pxContainer (lists s1) (xEventListItem 1) = Some 37" "xItemValue (lists s1) (xEventListItem 1) = wait_value 6 True True"
    by (rule ex_waits)
  have u: "uxSchedulerSuspended s1 + 1 \<noteq> 0" using s(4) by simp
  have st: "if egStaticallyAllocated ex_event then ex_heap = ex_heap else vPortFree ex_heap 0 = Some ex_heap" by (simp add: ex_event_def)
  have mem: "(1, wait_value 6 True True) \<in> set (waiting (xTasksWaitingForBits ex_event) s1)"
    using waiting_member [OF event_invD(1,3,4) [OF s(3)]] s(5,6) ex_wait_met(4) by simp
  obtain s2 where s2: "vEventGroupDelete (tick_env 1) ex_heap 0 (ex_event, s1) = Some (ex_heap, s2)"
    "\<forall>(t, v)\<in>set (waiting (xTasksWaitingForBits ex_event) s1). is_ready s2 t"
    using event_delete_releases [OF s(3) u st, of 1] by fast
  show ?thesis using s(1,2) s2(1) bspec [OF s2(2) mem] by auto
qed

end
