(* ===== verification/Timers.thy ===== *)
theory Timers
  imports Queue Stream_Ops
begin

text \<open>
  Software timers, \<^verbatim>\<open>FreeRTOS/Source/timers.c\<close>: the two lists of active timers, sorted by expiry
  time, the command queue of the timer task, and the loop of that task. A timer is its number, which
  is the address of its structure; its list item has the same number in a store of its own, because
  items of timers are only in the two timer lists. A message is the 32 bytes of
  \<open>DaemonTaskMessage_t\<close>: the bytes of the union that a message does not use are 0 here and never read.

  Call-backs, pended functions and whatever runs between the steps of the timer task are arguments,
  the record \<open>timer_env\<close>; they act on the state of the timers, the command queue, the kernel and
  a component \<open>'w\<close> for the rest of the program.
\<close>

abbreviation configTIMER_QUEUE_LENGTH :: u64 where "configTIMER_QUEUE_LENGTH \<equiv> 5"

definition tmrNO_DELAY :: u64 where "tmrNO_DELAY = 0"
definition tmrSTATUS_IS_ACTIVE :: u8 where "tmrSTATUS_IS_ACTIVE = 0x01"
definition tmrSTATUS_IS_STATICALLY_ALLOCATED :: u8 where "tmrSTATUS_IS_STATICALLY_ALLOCATED = 0x02"
definition tmrSTATUS_IS_AUTORELOAD :: u8 where "tmrSTATUS_IS_AUTORELOAD = 0x04"

definition tmrCOMMAND_EXECUTE_CALLBACK_FROM_ISR :: u64 where "tmrCOMMAND_EXECUTE_CALLBACK_FROM_ISR = - 2"
definition tmrCOMMAND_EXECUTE_CALLBACK :: u64 where "tmrCOMMAND_EXECUTE_CALLBACK = - 1"
definition tmrCOMMAND_START_DONT_TRACE :: u64 where "tmrCOMMAND_START_DONT_TRACE = 0"
definition tmrCOMMAND_START :: u64 where "tmrCOMMAND_START = 1"
definition tmrCOMMAND_RESET :: u64 where "tmrCOMMAND_RESET = 2"
definition tmrCOMMAND_STOP :: u64 where "tmrCOMMAND_STOP = 3"
definition tmrCOMMAND_CHANGE_PERIOD :: u64 where "tmrCOMMAND_CHANGE_PERIOD = 4"
definition tmrCOMMAND_DELETE :: u64 where "tmrCOMMAND_DELETE = 5"
definition tmrFIRST_FROM_ISR_COMMAND :: u64 where "tmrFIRST_FROM_ISR_COMMAND = 6"
definition tmrCOMMAND_START_FROM_ISR :: u64 where "tmrCOMMAND_START_FROM_ISR = 6"
definition tmrCOMMAND_RESET_FROM_ISR :: u64 where "tmrCOMMAND_RESET_FROM_ISR = 7"
definition tmrCOMMAND_STOP_FROM_ISR :: u64 where "tmrCOMMAND_STOP_FROM_ISR = 8"
definition tmrCOMMAND_CHANGE_PERIOD_FROM_ISR :: u64 where "tmrCOMMAND_CHANGE_PERIOD_FROM_ISR = 9"

lemmas timer_constants = tmrNO_DELAY_def tmrSTATUS_IS_ACTIVE_def tmrSTATUS_IS_STATICALLY_ALLOCATED_def
  tmrSTATUS_IS_AUTORELOAD_def tmrCOMMAND_EXECUTE_CALLBACK_FROM_ISR_def tmrCOMMAND_EXECUTE_CALLBACK_def
  tmrCOMMAND_START_DONT_TRACE_def tmrCOMMAND_START_def tmrCOMMAND_RESET_def tmrCOMMAND_STOP_def
  tmrCOMMAND_CHANGE_PERIOD_def tmrCOMMAND_DELETE_def tmrFIRST_FROM_ISR_COMMAND_def tmrCOMMAND_START_FROM_ISR_def
  tmrCOMMAND_RESET_FROM_ISR_def tmrCOMMAND_STOP_FROM_ISR_def tmrCOMMAND_CHANGE_PERIOD_FROM_ISR_def

record Timer_t =
  pcTimerName :: u64
  xTimerPeriodInTicks :: u64
  pvTimerID :: u64
  pxCallbackFunction :: u64
  uxTimerNumber :: u64
  ucStatus :: u8

definition sizeof_Timer :: u64 where "sizeof_Timer = 88"

text \<open>The variables of the file; \<open>xLastTime\<close> is the static variable of \<open>prvSampleTimeNow\<close>.\<close>

record timers =
  timer :: "nat \<Rightarrow> Timer_t"
  timer_lists :: list_store
  pxCurrentTimerList :: nat
  pxOverflowTimerList :: nat
  xTimerQueue :: u64
  xStaticTimerQueue :: u64
  xLastTime :: u64

abbreviation (input) xActiveTimerList1 :: nat where "xActiveTimerList1 \<equiv> 0"
abbreviation (input) xActiveTimerList2 :: nat where "xActiveTimerList2 \<equiv> 1"

definition xTimerListItem :: "nat \<Rightarrow> node" where "xTimerListItem t = Item t"

definition set_timer :: "nat \<Rightarrow> (Timer_t \<Rightarrow> Timer_t) \<Rightarrow> timers \<Rightarrow> timers" where
  "set_timer t f m = m\<lparr>timer := (timer m)(t := f (timer m t))\<rparr>"

type_synonym 'w timer_state = "timers \<times> queue_state \<times> 'w"

record 'w timer_env =
  te_callback :: "u64 \<Rightarrow> nat \<Rightarrow> 'w timer_state \<Rightarrow> 'w timer_state option"
  te_pended :: "u64 \<Rightarrow> u64 \<Rightarrow> u32 \<Rightarrow> 'w timer_state \<Rightarrow> 'w timer_state option"
  te_run :: "'w timer_state \<Rightarrow> 'w timer_state option"
  te_isr :: "nat \<Rightarrow> queue_state \<Rightarrow> queue_state option"

subsection \<open>Messages\<close>

record TimerParameter_t =
  xMessageValue :: u64
  pxTimer :: nat

record CallbackParameters_t =
  pxPendedFunction :: u64
  pvParameter1 :: u64
  ulParameter2 :: u32

definition sizeof_DaemonTaskMessage :: u64 where "sizeof_DaemonTaskMessage = 32"

definition timer_message :: "u64 \<Rightarrow> TimerParameter_t \<Rightarrow> u8 list" where
  "timer_message xMessageID u = size_bytes xMessageID @ size_bytes (xMessageValue u) @ size_bytes (of_nat (pxTimer u)) @ size_bytes 0"

definition callback_message :: "u64 \<Rightarrow> CallbackParameters_t \<Rightarrow> u8 list" where
  "callback_message xMessageID u =
     size_bytes xMessageID @ size_bytes (pxPendedFunction u) @ size_bytes (pvParameter1 u) @ size_bytes (ucast (ulParameter2 u))"

definition xMessageID :: "u8 list \<Rightarrow> u64" where
  "xMessageID item = bytes_size (take 8 item)"

definition xTimerParameters :: "u8 list \<Rightarrow> TimerParameter_t" where
  "xTimerParameters item = \<lparr>xMessageValue = bytes_size (take 8 (drop 8 item)), pxTimer = unat (bytes_size (take 8 (drop 16 item)))\<rparr>"

definition xCallbackParameters :: "u8 list \<Rightarrow> CallbackParameters_t" where
  "xCallbackParameters item = \<lparr>pxPendedFunction = bytes_size (take 8 (drop 8 item)),
     pvParameter1 = bytes_size (take 8 (drop 16 item)), ulParameter2 = ucast (bytes_size (take 8 (drop 24 item)))\<rparr>"

subsection \<open>Creation\<close>

text \<open>The storage area and the lists of the static queue are those its memory has.\<close>

definition prvCheckForValidListAndQueue :: "timers \<times> queue_state \<Rightarrow> (timers \<times> queue_state) option" where
  "prvCheckForValidListAndQueue = (\<lambda>(m, q, s).
     if xTimerQueue m = 0 then do {
       let m = m\<lparr>timer_lists := vListInitialise (timer_lists m) xActiveTimerList1\<rparr>;
       let m = m\<lparr>timer_lists := vListInitialise (timer_lists m) xActiveTimerList2\<rparr>;
       let m = m\<lparr>pxCurrentTimerList := xActiveTimerList1, pxOverflowTimerList := xActiveTimerList2\<rparr>;
       (handle, q', s) \<leftarrow> xQueueGenericCreateStatic (xTasksWaitingToSend q) (xTasksWaitingToReceive q) q
         configTIMER_QUEUE_LENGTH sizeof_DaemonTaskMessage (qStorageAt q) (qStorage q) (xStaticTimerQueue m) 0 s;
       Some (m\<lparr>xTimerQueue := handle\<rparr>, case q' of None \<Rightarrow> q | Some q \<Rightarrow> q, s) }
     else Some (m, q, s))"

definition prvInitialiseNewTimer :: "u64 \<Rightarrow> u64 \<Rightarrow> u64 \<Rightarrow> u64 \<Rightarrow> u64 \<Rightarrow> nat \<Rightarrow> timers \<times> queue_state \<Rightarrow> (timers \<times> queue_state) option" where
  "prvInitialiseNewTimer name period uxAutoReload pvID callback t x = do {
     (m, q, s) \<leftarrow> prvCheckForValidListAndQueue x;
     let m = set_timer t (\<lambda>c. c\<lparr>pcTimerName := name, xTimerPeriodInTicks := period, pvTimerID := pvID, pxCallbackFunction := callback\<rparr>) m;
     let m = m\<lparr>timer_lists := vListInitialiseItem (timer_lists m) (xTimerListItem t)\<rparr>;
     Some (if uxAutoReload \<noteq> 0 then set_timer t (\<lambda>c. c\<lparr>ucStatus := ucStatus c OR tmrSTATUS_IS_AUTORELOAD\<rparr>) m else m, q, s) }"

definition xTimerCreate :: "heap4 \<Rightarrow> u64 \<Rightarrow> u64 \<Rightarrow> u64 \<Rightarrow> u64 \<Rightarrow> u64 \<Rightarrow> timers \<times> queue_state \<Rightarrow> (u64 \<times> heap4 \<times> timers \<times> queue_state) option" where
  "xTimerCreate h name period uxAutoReload pvID callback = (\<lambda>(m, x). do {
     (pxNewTimer, h) \<leftarrow> pvPortMalloc h sizeof_Timer;
     if pxNewTimer \<noteq> 0 then do {
       let m = set_timer (unat pxNewTimer) (\<lambda>c. c\<lparr>ucStatus := 0\<rparr>) m;
       (m, x) \<leftarrow> prvInitialiseNewTimer name period uxAutoReload pvID callback (unat pxNewTimer) (m, x);
       Some (pxNewTimer, h, m, x) }
     else Some (pxNewTimer, h, m, x) })"

definition xTimerCreateStatic :: "u64 \<Rightarrow> u64 \<Rightarrow> u64 \<Rightarrow> u64 \<Rightarrow> u64 \<Rightarrow> u64 \<Rightarrow> timers \<times> queue_state \<Rightarrow> (u64 \<times> timers \<times> queue_state) option" where
  "xTimerCreateStatic name period uxAutoReload pvID callback pxTimerBuffer = (\<lambda>(m, x).
     if pxTimerBuffer \<noteq> 0 then do {
       let m = set_timer (unat pxTimerBuffer) (\<lambda>c. c\<lparr>ucStatus := tmrSTATUS_IS_STATICALLY_ALLOCATED\<rparr>) m;
       (m, x) \<leftarrow> prvInitialiseNewTimer name period uxAutoReload pvID callback (unat pxTimerBuffer) (m, x);
       Some (pxTimerBuffer, m, x) }
     else Some (pxTimerBuffer, m, x))"

subsection \<open>Commands\<close>

definition taskSCHEDULER_SUSPENDED :: u64 where "taskSCHEDULER_SUSPENDED = 0"
definition taskSCHEDULER_NOT_STARTED :: u64 where "taskSCHEDULER_NOT_STARTED = 1"
definition taskSCHEDULER_RUNNING :: u64 where "taskSCHEDULER_RUNNING = 2"

definition xTaskGetSchedulerState :: "kernel \<Rightarrow> u64" where
  "xTaskGetSchedulerState s =
     (if \<not> xSchedulerRunning s then taskSCHEDULER_NOT_STARTED
      else if uxSchedulerSuspended s = 0 then taskSCHEDULER_RUNNING
      else taskSCHEDULER_SUSPENDED)"

definition xTaskGetTickCount :: "kernel \<Rightarrow> u64" where "xTaskGetTickCount s = xTickCount s"
definition xTaskGetTickCountFromISR :: "kernel \<Rightarrow> u64" where "xTaskGetTickCountFromISR s = xTickCount s"

text \<open>
  The result is \<open>pdFAIL\<close> or \<open>pdPASS\<close>, or \<open>None\<close> while the sender still waits, and whether a more urgent
  task was woken from an interrupt. \<open>envs\<close> are the rounds of a sender that has to wait.
\<close>

definition xTimerGenericCommand ::
  "wait_env list \<Rightarrow> nat \<Rightarrow> u64 \<Rightarrow> u64 \<Rightarrow> u64 \<Rightarrow> timers \<Rightarrow> queue_state \<Rightarrow> (bool option \<times> bool \<times> queue_state) option" where
  "xTimerGenericCommand envs xTimer xCommandID xOptionalValue xTicksToWait m x =
     (if xTimerQueue m \<noteq> 0 then
        (let xMessage = timer_message xCommandID \<lparr>xMessageValue = xOptionalValue, pxTimer = xTimer\<rparr> in
         if xCommandID <s tmrFIRST_FROM_ISR_COMMAND then
           if xTaskGetSchedulerState (snd x) = taskSCHEDULER_RUNNING then do {
             (r, x) \<leftarrow> xQueueGenericSend envs xMessage xTicksToWait queueSEND_TO_BACK x;
             Some (r, False, x) }
           else do {
             (r, x) \<leftarrow> xQueueGenericSend envs xMessage tmrNO_DELAY queueSEND_TO_BACK x;
             Some (r, False, x) }
         else do {
           (r, w, x) \<leftarrow> xQueueGenericSendFromISR xMessage queueSEND_TO_BACK x;
           Some (Some r, w, x) })
      else Some (Some False, False, x))"

definition xTimerStart where
  "xTimerStart envs t xTicksToWait m x =
     xTimerGenericCommand envs t tmrCOMMAND_START (xTaskGetTickCount (snd x)) xTicksToWait m x"
definition xTimerStop where
  "xTimerStop envs t xTicksToWait m x = xTimerGenericCommand envs t tmrCOMMAND_STOP 0 xTicksToWait m x"
definition xTimerChangePeriod where
  "xTimerChangePeriod envs t xNewPeriod xTicksToWait m x =
     xTimerGenericCommand envs t tmrCOMMAND_CHANGE_PERIOD xNewPeriod xTicksToWait m x"
definition xTimerDelete where
  "xTimerDelete envs t xTicksToWait m x = xTimerGenericCommand envs t tmrCOMMAND_DELETE 0 xTicksToWait m x"
definition xTimerReset where
  "xTimerReset envs t xTicksToWait m x =
     xTimerGenericCommand envs t tmrCOMMAND_RESET (xTaskGetTickCount (snd x)) xTicksToWait m x"
definition xTimerStartFromISR where
  "xTimerStartFromISR t m x = xTimerGenericCommand [] t tmrCOMMAND_START_FROM_ISR (xTaskGetTickCountFromISR (snd x)) 0 m x"
definition xTimerStopFromISR where
  "xTimerStopFromISR t m x = xTimerGenericCommand [] t tmrCOMMAND_STOP_FROM_ISR 0 0 m x"
definition xTimerChangePeriodFromISR where
  "xTimerChangePeriodFromISR t xNewPeriod m x = xTimerGenericCommand [] t tmrCOMMAND_CHANGE_PERIOD_FROM_ISR xNewPeriod 0 m x"
definition xTimerResetFromISR where
  "xTimerResetFromISR t m x = xTimerGenericCommand [] t tmrCOMMAND_RESET_FROM_ISR (xTaskGetTickCountFromISR (snd x)) 0 m x"

definition xTimerPendFunctionCallFromISR :: "u64 \<Rightarrow> u64 \<Rightarrow> u32 \<Rightarrow> queue_state \<Rightarrow> (bool \<times> bool \<times> queue_state) option" where
  "xTimerPendFunctionCallFromISR f p1 p2 x =
     xQueueGenericSendFromISR (callback_message tmrCOMMAND_EXECUTE_CALLBACK_FROM_ISR
       \<lparr>pxPendedFunction = f, pvParameter1 = p1, ulParameter2 = p2\<rparr>) queueSEND_TO_BACK x"

definition xTimerPendFunctionCall :: "wait_env list \<Rightarrow> u64 \<Rightarrow> u64 \<Rightarrow> u32 \<Rightarrow> u64 \<Rightarrow> queue_state \<Rightarrow> (bool option \<times> queue_state) option" where
  "xTimerPendFunctionCall envs f p1 p2 xTicksToWait x =
     xQueueGenericSend envs (callback_message tmrCOMMAND_EXECUTE_CALLBACK
       \<lparr>pxPendedFunction = f, pvParameter1 = p1, ulParameter2 = p2\<rparr>) xTicksToWait queueSEND_TO_BACK x"

subsection \<open>The fields of a timer\<close>

definition xTimerGetPeriod :: "nat \<Rightarrow> timers \<Rightarrow> u64" where
  "xTimerGetPeriod t m = xTimerPeriodInTicks (timer m t)"

definition vTimerSetReloadMode :: "nat \<Rightarrow> u64 \<Rightarrow> timers \<Rightarrow> timers" where
  "vTimerSetReloadMode t uxAutoReload m =
     (if uxAutoReload \<noteq> 0 then set_timer t (\<lambda>c. c\<lparr>ucStatus := ucStatus c OR tmrSTATUS_IS_AUTORELOAD\<rparr>) m
      else set_timer t (\<lambda>c. c\<lparr>ucStatus := ucStatus c AND NOT tmrSTATUS_IS_AUTORELOAD\<rparr>) m)"

definition uxTimerGetReloadMode :: "nat \<Rightarrow> timers \<Rightarrow> bool" where
  "uxTimerGetReloadMode t m \<longleftrightarrow> \<not> (ucStatus (timer m t) AND tmrSTATUS_IS_AUTORELOAD = 0)"

definition xTimerGetExpiryTime :: "nat \<Rightarrow> timers \<Rightarrow> u64" where
  "xTimerGetExpiryTime t m = xItemValue (timer_lists m) (xTimerListItem t)"

definition pcTimerGetName :: "nat \<Rightarrow> timers \<Rightarrow> u64" where
  "pcTimerGetName t m = pcTimerName (timer m t)"

definition xTimerIsTimerActive :: "nat \<Rightarrow> timers \<Rightarrow> bool" where
  "xTimerIsTimerActive t m \<longleftrightarrow> \<not> (ucStatus (timer m t) AND tmrSTATUS_IS_ACTIVE = 0)"

definition xTimerIsTimerActiveFromISR :: "nat \<Rightarrow> timers \<Rightarrow> bool" where
  "xTimerIsTimerActiveFromISR t m \<longleftrightarrow> \<not> (ucStatus (timer m t) AND tmrSTATUS_IS_ACTIVE = 0)"

definition pvTimerGetTimerID :: "nat \<Rightarrow> timers \<Rightarrow> u64" where
  "pvTimerGetTimerID t m = pvTimerID (timer m t)"

definition vTimerSetTimerID :: "nat \<Rightarrow> u64 \<Rightarrow> timers \<Rightarrow> timers" where
  "vTimerSetTimerID t pvNewID m = set_timer t (\<lambda>c. c\<lparr>pvTimerID := pvNewID\<rparr>) m"

definition uxTimerGetTimerNumber :: "nat \<Rightarrow> timers \<Rightarrow> u64" where
  "uxTimerGetTimerNumber t m = uxTimerNumber (timer m t)"

definition vTimerSetTimerNumber :: "nat \<Rightarrow> u64 \<Rightarrow> timers \<Rightarrow> timers" where
  "vTimerSetTimerNumber t n m = set_timer t (\<lambda>c. c\<lparr>uxTimerNumber := n\<rparr>) m"

subsection \<open>The timer task\<close>

definition prvInsertTimerInActiveList :: "nat \<Rightarrow> u64 \<Rightarrow> u64 \<Rightarrow> u64 \<Rightarrow> timers \<Rightarrow> (bool \<times> timers) option" where
  "prvInsertTimerInActiveList t xNextExpiryTime xTimeNow xCommandTime m =
     (let item = xTimerListItem t;
          ls = timer_lists m;
          ls = ls\<lparr>xItemValue := (xItemValue ls)(item := xNextExpiryTime)\<rparr>;
          ls = ls\<lparr>pvOwner := (pvOwner ls)(item := t)\<rparr>;
          m = m\<lparr>timer_lists := ls\<rparr>
      in if xNextExpiryTime \<le> xTimeNow then
           if xTimeNow - xCommandTime \<ge> xTimerPeriodInTicks (timer m t) then Some (True, m)
           else do {
             ls \<leftarrow> vListInsert ls (pxOverflowTimerList m) item;
             Some (False, m\<lparr>timer_lists := ls\<rparr>) }
         else
           if xTimeNow < xCommandTime \<and> xNextExpiryTime \<ge> xCommandTime then Some (True, m)
           else do {
             ls \<leftarrow> vListInsert ls (pxCurrentTimerList m) item;
             Some (False, m\<lparr>timer_lists := ls\<rparr>) })"

text \<open>Taking the item of a timer out of its list, and calling the timer's function.\<close>

definition timer_unlink :: "nat \<Rightarrow> timers \<Rightarrow> timers option" where
  "timer_unlink t m = do {
     (_, ls) \<leftarrow> uxListRemove (timer_lists m) (xTimerListItem t);
     Some (m\<lparr>timer_lists := ls\<rparr>) }"

definition timer_call :: "'w timer_env \<Rightarrow> nat \<Rightarrow> 'w timer_state \<Rightarrow> 'w timer_state option" where
  "timer_call e t = (\<lambda>(m, x, w). te_callback e (pxCallbackFunction (timer m t)) t (m, x, w))"

text \<open>A command that the timer task sends to itself; the result is only looked at by an assertion.\<close>

definition timer_resend :: "nat \<Rightarrow> u64 \<Rightarrow> 'w timer_state \<Rightarrow> 'w timer_state option" where
  "timer_resend t v = (\<lambda>(m, x, w). do {
     (_, _, x) \<leftarrow> xTimerGenericCommand [] t tmrCOMMAND_START_DONT_TRACE v tmrNO_DELAY m x;
     Some (m, x, w) })"

definition prvProcessExpiredTimer :: "'w timer_env \<Rightarrow> u64 \<Rightarrow> u64 \<Rightarrow> 'w timer_state \<Rightarrow> 'w timer_state option" where
  "prvProcessExpiredTimer e xNextExpireTime xTimeNow = (\<lambda>(m, x, w). do {
     let t = listGET_OWNER_OF_HEAD_ENTRY (timer_lists m) (pxCurrentTimerList m);
     m \<leftarrow> timer_unlink t m;
     (m, x, w) \<leftarrow> (if ucStatus (timer m t) AND tmrSTATUS_IS_AUTORELOAD \<noteq> 0 then do {
         (xResult, m) \<leftarrow> prvInsertTimerInActiveList t (xNextExpireTime + xTimerPeriodInTicks (timer m t)) xTimeNow xNextExpireTime m;
         if xResult then timer_resend t xNextExpireTime (m, x, w) else Some (m, x, w) }
       else Some (set_timer t (\<lambda>c. c\<lparr>ucStatus := ucStatus c AND NOT tmrSTATUS_IS_ACTIVE\<rparr>) m, x, w));
     timer_call e t (m, x, w) })"

text \<open>The loop of \<open>prvSwitchTimerLists\<close>: the timers of the current list have all expired.\<close>

partial_function (option) switch_loop :: "'w timer_env \<Rightarrow> 'w timer_state \<Rightarrow> 'w timer_state option" where
  "switch_loop e y = (case y of (m, x, w) \<Rightarrow>
     if \<not> listLIST_IS_EMPTY (timer_lists m) (pxCurrentTimerList m) then do {
       let xNextExpireTime = listGET_ITEM_VALUE_OF_HEAD_ENTRY (timer_lists m) (pxCurrentTimerList m);
       let t = listGET_OWNER_OF_HEAD_ENTRY (timer_lists m) (pxCurrentTimerList m);
       m \<leftarrow> timer_unlink t m;
       (m, x, w) \<leftarrow> timer_call e t (m, x, w);
       (m, x, w) \<leftarrow> (if ucStatus (timer m t) AND tmrSTATUS_IS_AUTORELOAD \<noteq> 0 then do {
           let xReloadTime = xNextExpireTime + xTimerPeriodInTicks (timer m t);
           if xReloadTime > xNextExpireTime then do {
             let ls = timer_lists m;
             let ls = ls\<lparr>xItemValue := (xItemValue ls)(xTimerListItem t := xReloadTime)\<rparr>;
             let ls = ls\<lparr>pvOwner := (pvOwner ls)(xTimerListItem t := t)\<rparr>;
             ls \<leftarrow> vListInsert ls (pxCurrentTimerList m) (xTimerListItem t);
             Some (m\<lparr>timer_lists := ls\<rparr>, x, w) }
           else timer_resend t xNextExpireTime (m, x, w) }
         else Some (m, x, w));
       switch_loop e (m, x, w) }
     else Some (m, x, w))"

declare switch_loop.simps [code]

definition prvSwitchTimerLists :: "'w timer_env \<Rightarrow> 'w timer_state \<Rightarrow> 'w timer_state option" where
  "prvSwitchTimerLists e y = do {
     (m, x, w) \<leftarrow> switch_loop e y;
     Some (m\<lparr>pxCurrentTimerList := pxOverflowTimerList m, pxOverflowTimerList := pxCurrentTimerList m\<rparr>, x, w) }"

definition prvSampleTimeNow :: "'w timer_env \<Rightarrow> 'w timer_state \<Rightarrow> (u64 \<times> bool \<times> 'w timer_state) option" where
  "prvSampleTimeNow e = (\<lambda>(m, x, w). do {
     let xTimeNow = xTaskGetTickCount (snd x);
     (switched, m, x, w) \<leftarrow> (if xTimeNow < xLastTime m then do {
         y \<leftarrow> prvSwitchTimerLists e (m, x, w);
         Some (True, y) }
       else Some (False, m, x, w));
     Some (xTimeNow, switched, m\<lparr>xLastTime := xTimeNow\<rparr>, x, w) })"

definition prvGetNextExpireTime :: "timers \<Rightarrow> u64 \<times> bool" where
  "prvGetNextExpireTime m =
     (let xListWasEmpty = listLIST_IS_EMPTY (timer_lists m) (pxCurrentTimerList m)
      in (if \<not> xListWasEmpty then listGET_ITEM_VALUE_OF_HEAD_ENTRY (timer_lists m) (pxCurrentTimerList m) else 0, xListWasEmpty))"

definition prvProcessTimerOrBlockTask :: "'w timer_env \<Rightarrow> u64 \<Rightarrow> bool \<Rightarrow> 'w timer_state \<Rightarrow> 'w timer_state option" where
  "prvProcessTimerOrBlockTask e xNextExpireTime xListWasEmpty = (\<lambda>(m, (q, s), w). do {
     (xTimeNow, switched, m, (q, s), w) \<leftarrow> prvSampleTimeNow e (m, (q, vTaskSuspendAll s), w);
     if \<not> switched then
       if \<not> xListWasEmpty \<and> xNextExpireTime \<le> xTimeNow then do {
         (_, s) \<leftarrow> xTaskResumeAll s;
         prvProcessExpiredTimer e xNextExpireTime xTimeNow (m, (q, s), w) }
       else do {
         let xListWasEmpty = (if xListWasEmpty then listLIST_IS_EMPTY (timer_lists m) (pxOverflowTimerList m) else xListWasEmpty);
         (q, s) \<leftarrow> vQueueWaitForMessageRestricted (te_isr e) (xNextExpireTime - xTimeNow) xListWasEmpty (q, s);
         (y, s) \<leftarrow> xTaskResumeAll s;
         Some (m, (q, if \<not> y then portYIELD s else s), w) }
     else do {
       (_, s) \<leftarrow> xTaskResumeAll s;
       Some (m, (q, s), w) } })"

text \<open>The cases of the switch over the command.\<close>

definition command_start :: "'w timer_env \<Rightarrow> nat \<Rightarrow> u64 \<Rightarrow> u64 \<Rightarrow> 'w timer_state \<Rightarrow> 'w timer_state option" where
  "command_start e t v xTimeNow = (\<lambda>(m, x, w). do {
     let m = set_timer t (\<lambda>c. c\<lparr>ucStatus := ucStatus c OR tmrSTATUS_IS_ACTIVE\<rparr>) m;
     (now, m) \<leftarrow> prvInsertTimerInActiveList t (v + xTimerPeriodInTicks (timer m t)) xTimeNow v m;
     if now then do {
       (m, x, w) \<leftarrow> timer_call e t (m, x, w);
       if ucStatus (timer m t) AND tmrSTATUS_IS_AUTORELOAD \<noteq> 0
       then timer_resend t (v + xTimerPeriodInTicks (timer m t)) (m, x, w)
       else Some (m, x, w) }
     else Some (m, x, w) })"

definition command_stop :: "nat \<Rightarrow> timers \<Rightarrow> timers" where
  "command_stop t m = set_timer t (\<lambda>c. c\<lparr>ucStatus := ucStatus c AND NOT tmrSTATUS_IS_ACTIVE\<rparr>) m"

definition command_change_period :: "nat \<Rightarrow> u64 \<Rightarrow> u64 \<Rightarrow> timers \<Rightarrow> timers option" where
  "command_change_period t v xTimeNow m = do {
     let m = set_timer t (\<lambda>c. c\<lparr>ucStatus := ucStatus c OR tmrSTATUS_IS_ACTIVE\<rparr>) m;
     let m = set_timer t (\<lambda>c. c\<lparr>xTimerPeriodInTicks := v\<rparr>) m;
     (_, m) \<leftarrow> prvInsertTimerInActiveList t (xTimeNow + xTimerPeriodInTicks (timer m t)) xTimeNow xTimeNow m;
     Some m }"

text \<open>The blocks handed to \<open>vPortFree\<close> are logged in the kernel, as for tasks.\<close>

definition command_delete :: "nat \<Rightarrow> timers \<times> queue_state \<Rightarrow> timers \<times> queue_state" where
  "command_delete t = (\<lambda>(m, q, s).
     if ucStatus (timer m t) AND tmrSTATUS_IS_STATICALLY_ALLOCATED = 0 then (m, q, s\<lparr>pvFreed := t # pvFreed s\<rparr>)
     else (set_timer t (\<lambda>c. c\<lparr>ucStatus := ucStatus c AND NOT tmrSTATUS_IS_ACTIVE\<rparr>) m, q, s))"

definition is_start :: "u64 \<Rightarrow> bool" where
  "is_start cmd \<longleftrightarrow> cmd = tmrCOMMAND_START \<or> cmd = tmrCOMMAND_START_FROM_ISR \<or> cmd = tmrCOMMAND_RESET \<or>
     cmd = tmrCOMMAND_RESET_FROM_ISR \<or> cmd = tmrCOMMAND_START_DONT_TRACE"

definition timer_command :: "'w timer_env \<Rightarrow> u64 \<Rightarrow> TimerParameter_t \<Rightarrow> 'w timer_state \<Rightarrow> 'w timer_state option" where
  "timer_command e cmd u = (\<lambda>(m, x, w). do {
     let t = pxTimer u;
     m \<leftarrow> (if pxContainer (timer_lists m) (xTimerListItem t) \<noteq> None then timer_unlink t m else Some m);
     y \<leftarrow> te_run e (m, x, w);
     (xTimeNow, _, m, x, w) \<leftarrow> prvSampleTimeNow e y;
     if is_start cmd then command_start e t (xMessageValue u) xTimeNow (m, x, w)
     else if cmd = tmrCOMMAND_STOP \<or> cmd = tmrCOMMAND_STOP_FROM_ISR then Some (command_stop t m, x, w)
     else if cmd = tmrCOMMAND_CHANGE_PERIOD \<or> cmd = tmrCOMMAND_CHANGE_PERIOD_FROM_ISR then do {
       m \<leftarrow> command_change_period t (xMessageValue u) xTimeNow m;
       Some (m, x, w) }
     else if cmd = tmrCOMMAND_DELETE then
       (let (m, x) = command_delete t (m, x) in Some (m, x, w))
     else Some (m, x, w) })"

definition process_message :: "'w timer_env \<Rightarrow> u8 list \<Rightarrow> 'w timer_state \<Rightarrow> 'w timer_state option" where
  "process_message e xMessage y = do {
     let cmd = xMessageID xMessage;
     y \<leftarrow> (if cmd <s 0 then
             (let c = xCallbackParameters xMessage in te_pended e (pxPendedFunction c) (pvParameter1 c) (ulParameter2 c) y)
           else Some y);
     if 0 \<le>s cmd then timer_command e cmd (xTimerParameters xMessage) y else Some y }"

partial_function (option) prvProcessReceivedCommands :: "'w timer_env \<Rightarrow> 'w timer_state \<Rightarrow> 'w timer_state option" where
  "prvProcessReceivedCommands e y = (case y of (m, x, w) \<Rightarrow> do {
     (r, x) \<leftarrow> xQueueReceive [] tmrNO_DELAY x;
     case r of Some (Some xMessage) \<Rightarrow> do {
         y \<leftarrow> process_message e xMessage (m, x, w);
         prvProcessReceivedCommands e y }
     | _ \<Rightarrow> Some (m, x, w) })"

declare prvProcessReceivedCommands.simps [code]

text \<open>One round of the loop of \<open>prvTimerTask\<close>; other tasks run before the commands are looked at.\<close>

definition prvTimerTask :: "'w timer_env \<Rightarrow> 'w timer_state \<Rightarrow> 'w timer_state option" where
  "prvTimerTask e = (\<lambda>(m, x, w). do {
     let (xNextExpireTime, xListWasEmpty) = prvGetNextExpireTime m;
     y \<leftarrow> prvProcessTimerOrBlockTask e xNextExpireTime xListWasEmpty (m, x, w);
     y \<leftarrow> te_run e y;
     prvProcessReceivedCommands e y })"

end
