(* ===== verification/Timer_Proof.thy ===== *)
theory Timer_Proof
  imports Timers Queue_Kernel
begin

text \<open>
  The timer lists against exact time. Ticks are counted without a bound here; the tick count of the
  kernel is that number modulo \<open>2 ^ 64\<close>. \<open>expiries L m\<close> maps each active timer to the exact tick of
  its next expiry: timers of the current list expire in the period of the counter in which \<open>L\<close> lies,
  timers of the overflow list in the one after it.
\<close>

subsection \<open>Exact time\<close>

text \<open>The number of values of the tick count.\<close>

definition tick_range :: nat where "tick_range = 2 ^ 64"

lemma tick_range_pos [simp]: "0 < tick_range" by (simp add: tick_range_def)

lemma unat_tick: "unat (of_nat N :: u64) = N mod tick_range"
  by (simp add: tick_range_def unsigned_of_nat take_bit_nat_def)

lemma unat_tick_lt [simp]: "unat (v :: u64) < tick_range"
  unfolding tick_range_def by (rule order_less_le_trans [OF unsigned_less]) simp

lemma of_tick_range: "(of_nat (k * tick_range) :: u64) = 0"
proof -
  have "(2 ^ 64 :: u64) = 0" by simp
  then show ?thesis unfolding tick_range_def by (simp only: of_nat_mult of_nat_power of_nat_numeral mult_zero_right)
qed

lemma next_period:
  assumes "a \<le> b" "b < a + tick_range"
  shows "b div tick_range = a div tick_range \<and> a mod tick_range \<le> b mod tick_range \<or>
    b div tick_range = Suc (a div tick_range) \<and> b mod tick_range < a mod tick_range"
proof -
  define d where "d = b - a"
  have b: "b = a + d" and d: "d < tick_range" using assms by (auto simp: d_def)
  have dv: "b div tick_range = a div tick_range + (a mod tick_range + d) div tick_range"
    using div_add1_eq [of a d tick_range] d by (simp add: b)
  have md: "b mod tick_range = (a mod tick_range + d) mod tick_range" by (simp add: b mod_add_left_eq)
  have ra: "a mod tick_range < tick_range" by simp
  show ?thesis
  proof (cases "a mod tick_range + d < tick_range")
    case True
    then show ?thesis using dv md by simp
  next
    case False
    then have small: "a mod tick_range + d - tick_range < tick_range" using ra d by linarith
    have "(a mod tick_range + d) div tick_range = 1" "(a mod tick_range + d) mod tick_range = a mod tick_range + d - tick_range"
      using False by (simp add: le_div_geq div_less [OF small], simp add: le_mod_geq mod_less [OF small])
    then show ?thesis using dv md d False by simp
  qed
qed

lemma period_order: "x \<le> y \<longleftrightarrow> x div tick_range < y div tick_range \<or>
    x div tick_range = y div tick_range \<and> x mod tick_range \<le> y mod tick_range"
proof (cases "x div tick_range" "y div tick_range" rule: linorder_cases)
  case less
  then have "x \<le> y" using div_le_mono [of y x tick_range] by linarith
  then show ?thesis using less by simp
next
  case equal
  then show ?thesis using div_mult_mod_eq [of x tick_range] div_mult_mod_eq [of y tick_range]
    by (metis nat_add_left_cancel_le order_less_irrefl)
next
  case greater
  then have "\<not> x \<le> y" using div_le_mono [of x y tick_range] by linarith
  then show ?thesis using greater by simp
qed

text \<open>What the code's comparisons of wrapped times say of the exact times.\<close>

lemma wrapped_expiry:
  assumes P: "0 < P" "P < tick_range" and CN: "C \<le> N" "N < C + tick_range"
  defines "e \<equiv> of_nat (C + P) :: u64" and "n \<equiv> of_nat N :: u64" and "c \<equiv> of_nat C :: u64"
  shows "e \<le> n \<Longrightarrow> n - c \<ge> of_nat P \<longleftrightarrow> C + P \<le> N"
    "e \<le> n \<Longrightarrow> N < C + P \<Longrightarrow> (C + P) div tick_range = Suc (N div tick_range)"
    "\<not> e \<le> n \<Longrightarrow> n < c \<and> e \<ge> c \<longleftrightarrow> C + P \<le> N"
    "\<not> e \<le> n \<Longrightarrow> N < C + P \<Longrightarrow> (C + P) div tick_range = N div tick_range"
proof -
  have "n - c = of_nat (N - C)" using CN(1) by (simp add: n_def c_def of_nat_diff)
  then have d: "unat (n - c) = N - C" using unat_tick [of "N - C"] CN by simp
  show "e \<le> n \<Longrightarrow> n - c \<ge> of_nat P \<longleftrightarrow> C + P \<le> N"
    using P CN unfolding word_le_nat_alt d by (auto simp: unat_tick)
  note w = word_le_nat_alt word_less_nat_alt e_def n_def c_def unat_tick
  have ce: "C \<le> C + P" "C + P < C + tick_range" using P by simp_all
  have ne: "N < C + P \<Longrightarrow> C + P < N + tick_range" using CN P by simp
  show "(C + P) div tick_range = Suc (N div tick_range)" if "e \<le> n" "N < C + P"
    using that period_order [of "C + P" N] next_period [of N "C + P"] ne unfolding w by auto
  show "(C + P) div tick_range = N div tick_range" if "\<not> e \<le> n" "N < C + P"
    using that next_period [of N "C + P"] ne unfolding w by auto
  show "n < c \<and> e \<ge> c \<longleftrightarrow> C + P \<le> N" if "\<not> e \<le> n"
    using that next_period [OF CN] next_period [OF ce] unfolding w period_order [of "C + P" N] by linarith
qed

subsection \<open>The invariant and the expiry times\<close>

definition period :: "timers \<Rightarrow> nat \<Rightarrow> nat" where
  "period m t = unat (xTimerPeriodInTicks (timer m t))"

definition expires_at :: "nat \<Rightarrow> timers \<Rightarrow> nat \<Rightarrow> nat" where
  "expires_at L m t = (if pxContainer (timer_lists m) (xTimerListItem t) = Some (pxCurrentTimerList m) then L div tick_range else Suc (L div tick_range)) * tick_range +
     unat (xItemValue (timer_lists m) (xTimerListItem t))"

definition expiries :: "nat \<Rightarrow> timers \<Rightarrow> nat \<Rightarrow> nat option" where
  "expiries L m t = (if pxContainer (timer_lists m) (xTimerListItem t) = None then None else Some (expires_at L m t))"

text \<open>\<open>A\<close> is the set of the timers that exist.\<close>

definition timers_inv :: "nat set \<Rightarrow> nat \<Rightarrow> timers \<Rightarrow> bool" where
  "timers_inv A L m \<longleftrightarrow> list_ok {xActiveTimerList1, xActiveTimerList2} (timer_lists m) \<and>
     (pxCurrentTimerList m, pxOverflowTimerList m) \<in> {(xActiveTimerList1, xActiveTimerList2), (xActiveTimerList2, xActiveTimerList1)} \<and>
     (\<forall>l. l \<in> {xActiveTimerList1, xActiveTimerList2} \<longrightarrow> sorted_by (xItemValue (timer_lists m)) (members (timer_lists m) l)) \<and>
     (\<forall>t l. pxContainer (timer_lists m) (xTimerListItem t) = Some l \<longrightarrow>
        t \<in> A \<and> pvOwner (timer_lists m) (xTimerListItem t) = t \<and> expires_at L m t < L + tick_range) \<and>
     (\<forall>t\<in>A. t < 2 ^ 63 \<and> 0 < period m t) \<and> xTimerQueue m \<noteq> 0 \<and> xLastTime m = of_nat L"

lemma timers_invD:
  assumes "timers_inv A L m"
  shows "list_ok {xActiveTimerList1, xActiveTimerList2} (timer_lists m)"
    "pxCurrentTimerList m \<in> {xActiveTimerList1, xActiveTimerList2}" "pxOverflowTimerList m \<in> {xActiveTimerList1, xActiveTimerList2}"
    "pxOverflowTimerList m \<noteq> pxCurrentTimerList m" "{xActiveTimerList1, xActiveTimerList2} = {pxCurrentTimerList m, pxOverflowTimerList m}"
    "l \<in> {xActiveTimerList1, xActiveTimerList2} \<Longrightarrow> sorted_by (xItemValue (timer_lists m)) (members (timer_lists m) l)"
    "pxContainer (timer_lists m) (xTimerListItem t) = Some l \<Longrightarrow> t \<in> A \<and> pvOwner (timer_lists m) (xTimerListItem t) = t \<and> expires_at L m t < L + tick_range"
    "t \<in> A \<Longrightarrow> t < 2 ^ 63" "t \<in> A \<Longrightarrow> 0 < period m t" "xTimerQueue m \<noteq> 0" "xLastTime m = of_nat L"
  using assms by (auto simp: timers_inv_def)

lemma period_lt: "period m t < tick_range"
  by (simp add: period_def)

lemma of_period [simp]: "of_nat (period m t) = xTimerPeriodInTicks (timer m t)"
  by (simp add: period_def)

lemma expires_value: "of_nat (expires_at L m t) = xItemValue (timer_lists m) (xTimerListItem t)"
  by (simp add: expires_at_def of_nat_add of_tick_range del: of_nat_mult)

lemma expires_div: "expires_at L m t div tick_range =
    (if pxContainer (timer_lists m) (xTimerListItem t) = Some (pxCurrentTimerList m) then L div tick_range else Suc (L div tick_range))"
  by (simp add: expires_at_def)

text \<open>An active timer is in one of the two lists.\<close>

lemma expiry_list:
  assumes i: "timers_inv A L m" and e: "expiries L m t = Some E"
  shows "t \<in> A" "E = expires_at L m t" "E < L + tick_range"
    "xTimerListItem t \<in> set (members (timer_lists m) (if E div tick_range = L div tick_range then pxCurrentTimerList m else pxOverflowTimerList m))"
proof -
  note d = timers_invD [OF i]
  obtain l where l: "pxContainer (timer_lists m) (xTimerListItem t) = Some l" "E = expires_at L m t"
    using e by (auto simp: expiries_def split: if_splits)
  show "t \<in> A" "E = expires_at L m t" "E < L + tick_range" using d(7) [OF l(1)] l(2) by simp_all
  have "l \<in> {pxCurrentTimerList m, pxOverflowTimerList m}" using list_ok_container [OF d(1) l(1)] unfolding d(5) by blast
  then have "l = (if E div tick_range = L div tick_range then pxCurrentTimerList m else pxOverflowTimerList m)"
    using l d(4) by (auto simp: expires_div)
  then show "xTimerListItem t \<in> set (members (timer_lists m) (if E div tick_range = L div tick_range then pxCurrentTimerList m else pxOverflowTimerList m))"
    using members_container [OF d(1), of l "xTimerListItem t"] l(1) d(2,3) by auto
qed

subsection \<open>The list operations\<close>

text \<open>Writing the value and the owner of an item that is in no list.\<close>

definition rekey :: "nat \<Rightarrow> u64 \<Rightarrow> timers \<Rightarrow> timers" where
  "rekey t v m = m\<lparr>timer_lists := (timer_lists m)\<lparr>xItemValue := (xItemValue (timer_lists m))(xTimerListItem t := v),
     pvOwner := (pvOwner (timer_lists m))(xTimerListItem t := t)\<rparr>\<rparr>"

lemma rekey_fields [simp]:
  "timer (rekey t v m) = timer m" "pxCurrentTimerList (rekey t v m) = pxCurrentTimerList m"
  "pxOverflowTimerList (rekey t v m) = pxOverflowTimerList m" "xTimerQueue (rekey t v m) = xTimerQueue m"
  "xLastTime (rekey t v m) = xLastTime m" "pxContainer (timer_lists (rekey t v m)) = pxContainer (timer_lists m)"
  "xItemValue (timer_lists (rekey t v m)) = (xItemValue (timer_lists m))(xTimerListItem t := v)"
  "pvOwner (timer_lists (rekey t v m)) = (pvOwner (timer_lists m))(xTimerListItem t := t)"
  "period (rekey t v m) u = period m u"
  by (simp_all add: rekey_def period_def)

lemma xTimerListItem_eq [simp]: "xTimerListItem t = xTimerListItem u \<longleftrightarrow> t = u"
  by (simp add: xTimerListItem_def)

lemma rekey_inv:
  assumes i: "timers_inv A L m" and out: "pxContainer (timer_lists m) (xTimerListItem t) = None"
  shows "timers_inv A L (rekey t v m)" "expiries L (rekey t v m) = expiries L m"
    "members (timer_lists (rekey t v m)) = members (timer_lists m)"
proof -
  note d = timers_invD [OF i]
  note ok1 = list_ok_value [OF d(1), of t v]
  note ok2 = list_ok_owner [OF ok1(1), of "(pvOwner (timer_lists m))(xTimerListItem t := t)"]
  have e: "timer_lists (rekey t v m) = timer_lists m\<lparr>xItemValue := (xItemValue (timer_lists m))(Item t := v),
      pvOwner := (pvOwner (timer_lists m))(xTimerListItem t := t)\<rparr>"
    by (simp add: rekey_def xTimerListItem_def)
  have ok: "list_ok {xActiveTimerList1, xActiveTimerList2} (timer_lists (rekey t v m))"
    using ok2(1) by (simp add: e)
  show m: "members (timer_lists (rekey t v m)) = members (timer_lists m)" using ok2(2) ok1(2) by (simp add: e)
  have x: "expires_at L (rekey t v m) u = expires_at L m u" if "u \<noteq> t" for u using that by (simp add: expires_at_def)
  have "sorted_by (xItemValue (timer_lists (rekey t v m))) (members (timer_lists m) l)" if "l \<in> {xActiveTimerList1, xActiveTimerList2}" for l
  proof -
    have "xTimerListItem t \<notin> set (members (timer_lists m) l)" using members_container [OF d(1) that] out by simp
    then have "map (xItemValue (timer_lists (rekey t v m))) (members (timer_lists m) l) = map (xItemValue (timer_lists m)) (members (timer_lists m) l)"
      by (intro map_cong) auto
    then show ?thesis using d(6) [OF that] by (simp only: sorted_by_def)
  qed
  then show "timers_inv A L (rekey t v m)"
    using i ok m x out unfolding timers_inv_def by auto
  show "expiries L (rekey t v m) = expiries L m" 
  proof
    fix u show "expiries L (rekey t v m) u = expiries L m u" using x [of u] out by (cases "u = t") (simp_all add: expiries_def)
  qed
qed

text \<open>Linking an item into one of the lists.\<close>

lemma link_inv:
  assumes i: "timers_inv A L m" and t: "t \<in> A" and out: "pxContainer (timer_lists m) (xTimerListItem t) = None"
    and own: "pvOwner (timer_lists m) (xTimerListItem t) = t" and v: "xItemValue (timer_lists m) (xTimerListItem t) = of_nat E"
    and l: "l = (if E div tick_range = L div tick_range then pxCurrentTimerList m else pxOverflowTimerList m)"
    and E: "E div tick_range \<in> {L div tick_range, Suc (L div tick_range)}" "E < L + tick_range"
  obtains ls where "vListInsert (timer_lists m) l (xTimerListItem t) = Some ls" "timers_inv A L (m\<lparr>timer_lists := ls\<rparr>)"
    "expiries L (m\<lparr>timer_lists := ls\<rparr>) = (expiries L m)(t \<mapsto> E)" "pxContainer ls = (pxContainer (timer_lists m))(xTimerListItem t := Some l)"
    "xItemValue ls = xItemValue (timer_lists m)"
    "members ls l = insert_pos (xItemValue (timer_lists m)) (xTimerListItem t) (members (timer_lists m) l)"
proof -
  note d = timers_invD [OF i]
  have l2: "l \<in> {xActiveTimerList1, xActiveTimerList2}" using d(2,3) l by auto
  obtain ls where ls: "vListInsert (timer_lists m) l (xTimerListItem t) = Some ls" "list_ok {xActiveTimerList1, xActiveTimerList2} ls"
    "members ls l = insert_pos (xItemValue (timer_lists m)) (xTimerListItem t) (members (timer_lists m) l)"
    "\<And>k. k \<in> {xActiveTimerList1, xActiveTimerList2} \<Longrightarrow> k \<noteq> l \<Longrightarrow> members ls k = members (timer_lists m) k"
    "pxContainer ls = (pxContainer (timer_lists m))(xTimerListItem t := Some l)" "xItemValue ls = xItemValue (timer_lists m)"
    "pvOwner ls = pvOwner (timer_lists m)" "pxIndex ls = pxIndex (timer_lists m)"
    using list_ok_insert [OF d(1) l2, of t] out d(8) [OF t] unfolding xTimerListItem_def by metis
  let ?m = "m\<lparr>timer_lists := ls\<rparr>"
  have same: "expires_at L ?m u = expires_at L m u" if "u \<noteq> t" for u using that by (simp add: expires_at_def ls)
  have "expires_at L ?m t = (if E div tick_range = L div tick_range then L div tick_range else Suc (L div tick_range)) * tick_range + E mod tick_range"
    using l d(4) by (auto simp: expires_at_def ls v unat_tick)
  also have "(if E div tick_range = L div tick_range then L div tick_range else Suc (L div tick_range)) = E div tick_range" using E(1) by auto
  finally have at: "expires_at L ?m t = E" by (simp only: div_mult_mod_eq)
  have sorted: "sorted_by (xItemValue ls) (members ls k)" if "k \<in> {xActiveTimerList1, xActiveTimerList2}" for k
    using ls(3,4,6) d(6) [OF that] sorted_insert_pos that by (cases "k = l") auto
  have "timers_inv A L ?m"
    unfolding timers_inv_def
  proof (intro conjI allI impI)
    fix u k assume "pxContainer (timer_lists ?m) (xTimerListItem u) = Some k"
    then show "u \<in> A" "pvOwner (timer_lists ?m) (xTimerListItem u) = u" "expires_at L ?m u < L + tick_range"
      using d(7) [of u k] t own at E(2) same [of u] by (auto simp: ls split: if_splits)
  qed (use i ls(2) sorted in \<open>auto simp: timers_inv_def period_def\<close>)
  moreover have "expiries L ?m = (expiries L m)(t \<mapsto> E)" using same at by (auto simp: expiries_def ls)
  ultimately show ?thesis using that ls(1,3,5,6) by blast
qed

lemma unlink_inv:
  assumes i: "timers_inv A L m" and c: "pxContainer (timer_lists m) (xTimerListItem t) = Some l"
  obtains ls where "timer_unlink t m = Some (m\<lparr>timer_lists := ls\<rparr>)" "timers_inv A L (m\<lparr>timer_lists := ls\<rparr>)"
    "expiries L (m\<lparr>timer_lists := ls\<rparr>) = (expiries L m)(t := None)"
    "pxContainer ls = (pxContainer (timer_lists m))(xTimerListItem t := None)" "xItemValue ls = xItemValue (timer_lists m)"
    "members ls l = remove1 (xTimerListItem t) (members (timer_lists m) l)"
proof -
  note d = timers_invD [OF i]
  obtain n ls where ls: "uxListRemove (timer_lists m) (xTimerListItem t) = Some (n, ls)" "list_ok {xActiveTimerList1, xActiveTimerList2} ls"
    "members ls l = remove1 (xTimerListItem t) (members (timer_lists m) l)"
    "\<And>k. k \<in> {xActiveTimerList1, xActiveTimerList2} \<Longrightarrow> k \<noteq> l \<Longrightarrow> members ls k = members (timer_lists m) k"
    "pxContainer ls = (pxContainer (timer_lists m))(xTimerListItem t := None)" "xItemValue ls = xItemValue (timer_lists m)"
    "pvOwner ls = pvOwner (timer_lists m)"
    using list_ok_remove [OF d(1) c] by metis
  let ?m = "m\<lparr>timer_lists := ls\<rparr>"
  have same: "expires_at L ?m u = expires_at L m u" if "u \<noteq> t" for u using that by (simp add: expires_at_def ls)
  have sorted: "sorted_by (xItemValue ls) (members ls k)" if "k \<in> {xActiveTimerList1, xActiveTimerList2}" for k
    using ls(3,4,6) d(6) [OF that] that by (cases "k = l") (auto simp: sorted_by_def sorted_map_remove1)
  have "timers_inv A L ?m"
    unfolding timers_inv_def
  proof (intro conjI allI impI)
    fix u k assume "pxContainer (timer_lists ?m) (xTimerListItem u) = Some k"
    then show "u \<in> A" "pvOwner (timer_lists ?m) (xTimerListItem u) = u" "expires_at L ?m u < L + tick_range"
      using d(7) [of u k] same [of u] by (auto simp: ls split: if_splits)
  qed (use i ls(2) sorted in \<open>auto simp: timers_inv_def period_def\<close>)
  moreover have "expiries L ?m = (expiries L m)(t := None)" using same by (auto simp: expiries_def ls)
  moreover have "timer_unlink t m = Some ?m" using ls(1) by (simp add: timer_unlink_def)
  ultimately show ?thesis using that ls(3,5,6) by blast
qed

subsection \<open>Inserting, and the first timer\<close>

lemma insert_exact:
  assumes i: "timers_inv A N m" and t: "t \<in> A" and out: "pxContainer (timer_lists m) (xTimerListItem t) = None"
    and C: "C \<le> N" "N < C + tick_range"
  defines "E \<equiv> C + period m t"
  obtains ls where "prvInsertTimerInActiveList t (of_nat C + xTimerPeriodInTicks (timer m t)) (of_nat N) (of_nat C) m =
      Some (E \<le> N, m\<lparr>timer_lists := ls\<rparr>)" "timers_inv A N (m\<lparr>timer_lists := ls\<rparr>)"
    "expiries N (m\<lparr>timer_lists := ls\<rparr>) = (if E \<le> N then expiries N m else (expiries N m)(t \<mapsto> E))"
    "E \<le> N \<Longrightarrow> pxContainer ls = pxContainer (timer_lists m)"
proof -
  have P: "0 < period m t" "period m t < tick_range" using timers_invD(9) [OF i t] period_lt by simp_all
  have v: "of_nat C + xTimerPeriodInTicks (timer m t) = of_nat E" by (simp add: E_def)
  note w = wrapped_expiry [OF P C, folded E_def, unfolded of_period]
  let ?m = "rekey t (of_nat E) m"
  have out': "pxContainer (timer_lists ?m) (xTimerListItem t) = None" using out by simp
  note r = rekey_inv [OF i out, of "of_nat E"]
  have ins: "prvInsertTimerInActiveList t (of_nat E) (of_nat N) (of_nat C) m =
      (if E \<le> N then Some (True, ?m)
       else do {
         ls \<leftarrow> vListInsert (timer_lists ?m) (if E div tick_range = N div tick_range then pxCurrentTimerList m else pxOverflowTimerList m) (xTimerListItem t);
         Some (False, ?m\<lparr>timer_lists := ls\<rparr>) })"
    unfolding prvInsertTimerInActiveList_def Let_def using w
    by (cases "(of_nat E :: u64) \<le> of_nat N"; cases "E \<le> N") (auto simp: rekey_def)
  show ?thesis
  proof (cases "E \<le> N")
    case True
    have "?m = m\<lparr>timer_lists := timer_lists ?m\<rparr>" by (simp add: rekey_def)
    then show ?thesis using that [of "timer_lists ?m"] ins True r v by simp
  next
    case False
    have E: "E div tick_range \<in> {N div tick_range, Suc (N div tick_range)}" "E < N + tick_range"
      using w(2,4) False C P by (auto simp: E_def)
    obtain ls where ls: "vListInsert (timer_lists ?m) (if E div tick_range = N div tick_range then pxCurrentTimerList ?m else pxOverflowTimerList ?m)
        (xTimerListItem t) = Some ls" "timers_inv A N (?m\<lparr>timer_lists := ls\<rparr>)"
      "expiries N (?m\<lparr>timer_lists := ls\<rparr>) = (expiries N ?m)(t \<mapsto> E)"
      using link_inv [OF r(1) t out' _ _ refl E] by auto
    have "?m\<lparr>timer_lists := ls\<rparr> = m\<lparr>timer_lists := ls\<rparr>" by (simp add: rekey_def)
    then show ?thesis using that [of ls] ins False ls(2,3) ls(1) [unfolded rekey_fields] r v by simp
  qed
qed

text \<open>The head of the current list expires first.\<close>

lemma current_head:
  assumes i: "timers_inv A L m" and ne: "members (timer_lists m) (pxCurrentTimerList m) \<noteq> []"
  obtains t where "listGET_OWNER_OF_HEAD_ENTRY (timer_lists m) (pxCurrentTimerList m) = t"
    "pxContainer (timer_lists m) (xTimerListItem t) = Some (pxCurrentTimerList m)"
    "expiries L m t = Some (expires_at L m t)" "t \<in> A" "expires_at L m t div tick_range = L div tick_range"
    "listGET_ITEM_VALUE_OF_HEAD_ENTRY (timer_lists m) (pxCurrentTimerList m) = of_nat (expires_at L m t)"
    "\<And>u E. expiries L m u = Some E \<Longrightarrow> expires_at L m t \<le> E"
proof -
  note d = timers_invD [OF i]
  let ?c = "pxCurrentTimerList m"
  obtain x xs where x: "members (timer_lists m) ?c = x # xs" using ne by (cases "members (timer_lists m) ?c") auto
  have c: "pxContainer (timer_lists m) x = Some ?c" using members_container [OF d(1,2), of x] x by simp
  then obtain t where t: "x = xTimerListItem t" using list_ok_container [OF d(1) c] by (auto simp: xTimerListItem_def)
  note a = d(7) [OF c [unfolded t]]
  have h: "listGET_OWNER_OF_HEAD_ENTRY (timer_lists m) ?c = t"
    "listGET_ITEM_VALUE_OF_HEAD_ENTRY (timer_lists m) ?c = of_nat (expires_at L m t)"
    using members_head [OF d(1,2) x] a by (simp_all add: t expires_value)
  have div: "expires_at L m t div tick_range = L div tick_range" using c t by (simp add: expires_div)
  have "expires_at L m t \<le> E" if u: "expiries L m u = Some E" for u E
  proof -
    note e = expiry_list [OF i u]
    show ?thesis
    proof (cases "E div tick_range = L div tick_range")
      case True
      then have "xTimerListItem u \<in> set (x # xs)" using e(4) x by simp
      then have "xItemValue (timer_lists m) x \<le> xItemValue (timer_lists m) (xTimerListItem u)"
        using d(6) [OF d(2)] x by (auto simp: sorted_by_def)
      moreover have "pxContainer (timer_lists m) (xTimerListItem u) = Some ?c"
        using \<open>xTimerListItem u \<in> set (x # xs)\<close> members_container [OF d(1,2), of "xTimerListItem u"] x by simp
      ultimately show ?thesis using c t e(2) by (simp add: expires_at_def word_le_nat_alt)
    next
      case False
      then have "E div tick_range = Suc (L div tick_range)" using e(2) by (auto simp: expires_div split: if_splits)
      then have "expires_at L m t div tick_range < E div tick_range" using div by simp
      then show ?thesis using div_le_mono [of E "expires_at L m t" tick_range] by linarith
    qed
  qed
  then show ?thesis using that [of t] h c t a div by (simp add: expiries_def)
qed

lemma current_empty:
  assumes i: "timers_inv A L m" and e: "members (timer_lists m) (pxCurrentTimerList m) = []" and u: "expiries L m u = Some E"
  shows "E div tick_range = Suc (L div tick_range)"
proof -
  note x = expiry_list [OF i u]
  have "E div tick_range \<noteq> L div tick_range" using x(4) e by auto
  then show ?thesis using x(2) by (auto simp: expires_div split: if_splits)
qed

end
