(* ===== verification/Timer_Ops.thy ===== *)
theory Timer_Ops
  imports Timer_Proof
begin

text \<open>
  The steps of the timer task: its messages, the end of a period of the tick counter, and sampling
  the time. Call-backs may do what they like to the queue and the kernel as long as both stay well
  formed, and leave the lists, the periods and the status of the timers alone.
\<close>

subsection \<open>Messages\<close>

lemma message_len [simp]: "length (timer_message c u) = 32" "length (callback_message c v) = 32"
  by (simp_all add: timer_message_def callback_message_def)

lemma timer_message_read:
  assumes "pxTimer u < 2 ^ 64"
  shows "xMessageID (timer_message c u) = c" "xTimerParameters (timer_message c u) = u"
  using assms unfolding timer_message_def
  by (simp_all add: xMessageID_def xTimerParameters_def unat_of_nat_lt)

lemma ucast_32_64_32 [simp]: "ucast (ucast (w :: u32) :: u64) = w"
  by (rule bit_word_eqI) (simp add: bit_ucast_iff)

lemma callback_message_read:
  "xMessageID (callback_message c v) = c" "xCallbackParameters (callback_message c v) = v"
  unfolding callback_message_def
  by (simp_all add: xMessageID_def xCallbackParameters_def)

text \<open>The command queue, and how deep the scheduler is suspended.\<close>

definition command_queue :: "u64 \<Rightarrow> nat set \<Rightarrow> nat set \<Rightarrow> queue_state \<Rightarrow> bool" where
  "command_queue n T D x \<longleftrightarrow> queue_inv T D x \<and> uxItemSize (fst x) = sizeof_DaemonTaskMessage \<and>
     uxSchedulerSuspended (snd x) = n"

text \<open>Neither a send nor a receive without waiting lets time pass, nor leaves ticks to be counted later.\<close>

definition clock :: "kernel \<Rightarrow> u64 \<times> u64" where
  "clock s = (xTickCount s, xPendedTicks s)"

lemma list_remove_tick: "kListRemove x s = Some (n, s') \<Longrightarrow> clock s' = clock s"
  by (auto simp: kListRemove_def bind_eq_Some_conv clock_def)

lemma add_ready_tick: "prvAddTaskToReadyList t s = Some s' \<Longrightarrow> clock s' = clock s"
  by (auto simp: prvAddTaskToReadyList_def Let_def bind_eq_Some_conv clock_def)

lemma remove_event_tick:
  assumes "xTaskRemoveFromEventList l s = Some (w, s')"
  shows "clock s' = clock s"
proof -
  let ?t = "listGET_OWNER_OF_HEAD_ENTRY (lists s) l"
  obtain n s1 s2 where a: "kListRemove (xEventListItem ?t) s = Some (n, s1)"
    "(if uxSchedulerSuspended s1 = 0 then do { (_, s) \<leftarrow> kListRemove (xStateListItem ?t) s1; prvAddTaskToReadyList ?t s }
      else Some (s1\<lparr>lists := vListInsertEnd (lists s1) xPendingReadyList (xEventListItem ?t)\<rparr>)) = Some s2"
    "s' = s2 \<or> s' = s2\<lparr>xYieldPending := True\<rparr>"
    using assms unfolding xTaskRemoveFromEventList_def Let_def by (force simp: bind_eq_Some_conv split: if_splits)
  have "clock s2 = clock s1"
    using a(2) list_remove_tick add_ready_tick by (fastforce simp: bind_eq_Some_conv clock_def split: if_splits)
  then show ?thesis using a(3) list_remove_tick [OF a(1)] by (auto simp: clock_def)
qed

lemma wake_tick: "wake_and_yield l s = Some s' \<Longrightarrow> clock s' = clock s"
  using remove_event_tick
  by (auto simp: wake_and_yield_def wake_one_def bind_eq_Some_conv portYIELD_def rv_trigger_soft_interrupt_def riscv_trigger_soft_interrupt_def clock_def
      split: if_splits)

lemma send_enter_tick:
  assumes d: "data_queue q" and f: "send_fits item pos q" and r: "send_enter item pos n ent (q, s) = Some (r, q', s')"
  shows "clock s' = clock s"
proof (cases "has_room pos q")
  case True
  obtain q1 where "prvCopyDataToQueue item pos (q, s) = Some (False, q1, s)" by (rule enqueue [OF d f True]) blast
  then show ?thesis using r True wake_tick by (auto simp: send_enter_def has_room_iff bind_eq_Some_conv split: if_splits)
next
  case False
  then show ?thesis using r by (auto simp: send_enter_def has_room_iff split: if_splits)
qed

lemma receive_enter_tick: "receive_enter n ent (q, s) = Some (r, q', s') \<Longrightarrow> clock s' = clock s"
  using wake_tick by (auto simp: receive_enter_def Let_def bind_eq_Some_conv split: if_splits)

text \<open>What of a queue and a kernel a send or a receive without waiting keeps.\<close>

definition add_message :: "Queue_t \<Rightarrow> u8 list \<Rightarrow> u8 list list" where
  "add_message q msg = take (unat (uxLength q)) (queue_items q @ [msg])"

lemma items_le: "data_queue q \<Longrightarrow> length (queue_items q) \<le> unat (uxLength q)"
  using data_queue_atD(8) by (auto simp: data_queue_def)

lemma generic_command:
  assumes c: "command_queue n T D (q, s)" and m: "xTimerQueue m \<noteq> 0" and id: "cmd <s tmrFIRST_FROM_ISR_COMMAND"
  obtains q' s' where "xTimerGenericCommand [] t cmd v tmrNO_DELAY m (q, s) =
      Some (Some (length (queue_items q) < unat (uxLength q)), False, q', s')"
    "command_queue n T D (q', s')" "uxLength q' = uxLength q"
    "queue_items q' = add_message q (timer_message cmd \<lparr>xMessageValue = v, pxTimer = t\<rparr>)" "clock s' = clock s"
proof -
  let ?msg = "timer_message cmd \<lparr>xMessageValue = v, pxTimer = t\<rparr>"
  have i: "queue_inv T D (q, s)" and z: "uxItemSize q = sizeof_DaemonTaskMessage" and n: "uxSchedulerSuspended s = n" using c by (simp_all add: command_queue_def)
  have f: "send_fits ?msg queueSEND_TO_BACK q" by (simp add: send_fits_def z sizeof_DaemonTaskMessage_def)
  note le = items_le [OF queue_invD(2) [OF i]]
  have room: "has_room queueSEND_TO_BACK q \<longleftrightarrow> length (queue_items q) < unat (uxLength q)" by (simp add: has_room_def del: items_length)
  obtain r q' s' where e: "send_enter ?msg queueSEND_TO_BACK 0 None (q, s) = Some (r, q', s')" "queue_inv T D (q', s')" "wakes s s'"
    "same_shape q q'" "has_room queueSEND_TO_BACK q \<Longrightarrow> r = Inl True \<and> queue_items q' = enq queueSEND_TO_BACK ?msg (queue_items q)"
    "\<not> has_room queueSEND_TO_BACK q \<Longrightarrow> q' = q \<and> s' = s \<and> r = Inl False"
    using send_enter_ok [OF i f, of 0 None] by (metis (full_types))
  have r: "r = Inl (length (queue_items q) < unat (uxLength q))" using e(5,6) room by blast
  have items: "queue_items q' = add_message q ?msg"
    using e(5,6) room le by (cases "has_room queueSEND_TO_BACK q") (auto simp: add_message_def enq_def simp del: items_length)
  have send: "xQueueGenericSend [] ?msg 0 queueSEND_TO_BACK (q, s) = Some (Some (length (queue_items q) < unat (uxLength q)), q', s')"
    unfolding xQueueGenericSend_def by (subst send_loop.simps) (simp add: e(1) r del: items_length)
  have "xTimerGenericCommand [] t cmd v tmrNO_DELAY m (q, s) =
      Some (Some (length (queue_items q) < unat (uxLength q)), False, q', s')"
    using send m id by (simp add: xTimerGenericCommand_def tmrNO_DELAY_def Let_def del: items_length)
  moreover have "command_queue n T D (q', s')" "uxLength q' = uxLength q"
    using e(2,4) z n wakesD(2) [OF e(3)] by (simp_all add: command_queue_def same_shape_def)
  ultimately show ?thesis using that items send_enter_tick [OF queue_invD(2) [OF i] f e(1)] by blast
qed

lemma resend_ok:
  assumes c: "command_queue n T D (q, s)" and m: "xTimerQueue m \<noteq> 0"
  obtains q' s' where "timer_resend t v (m, (q, s), w) = Some (m, (q', s'), w)" "command_queue n T D (q', s')" "uxLength q' = uxLength q"
    "queue_items q' = add_message q (timer_message tmrCOMMAND_START_DONT_TRACE \<lparr>xMessageValue = v, pxTimer = t\<rparr>)" "clock s' = clock s"
proof -
  have id: "tmrCOMMAND_START_DONT_TRACE <s tmrFIRST_FROM_ISR_COMMAND" by (simp add: timer_constants word_sless_alt)
  obtain q' s' where "xTimerGenericCommand [] t tmrCOMMAND_START_DONT_TRACE v tmrNO_DELAY m (q, s) =
      Some (Some (length (queue_items q) < unat (uxLength q)), False, q', s')"
    "command_queue n T D (q', s')" "uxLength q' = uxLength q"
    "queue_items q' = add_message q (timer_message tmrCOMMAND_START_DONT_TRACE \<lparr>xMessageValue = v, pxTimer = t\<rparr>)" "clock s' = clock s"
    by (rule generic_command [OF c m id]) blast
  then show ?thesis using that [of q' s'] by (simp add: timer_resend_def)
qed

subsection \<open>Call-backs\<close>

definition same_timers :: "nat set \<Rightarrow> timers \<Rightarrow> timers \<Rightarrow> bool" where
  "same_timers A m m' \<longleftrightarrow> timer_lists m' = timer_lists m \<and> pxCurrentTimerList m' = pxCurrentTimerList m \<and>
     pxOverflowTimerList m' = pxOverflowTimerList m \<and> xTimerQueue m' = xTimerQueue m \<and> xLastTime m' = xLastTime m \<and>
     (\<forall>u\<in>A. xTimerPeriodInTicks (timer m' u) = xTimerPeriodInTicks (timer m u) \<and> ucStatus (timer m' u) = ucStatus (timer m u))"

lemma same_timersD:
  assumes "same_timers A m m'"
  shows "timer_lists m' = timer_lists m" "pxCurrentTimerList m' = pxCurrentTimerList m"
    "pxOverflowTimerList m' = pxOverflowTimerList m" "xTimerQueue m' = xTimerQueue m" "xLastTime m' = xLastTime m"
    "u \<in> A \<Longrightarrow> xTimerPeriodInTicks (timer m' u) = xTimerPeriodInTicks (timer m u)" "u \<in> A \<Longrightarrow> ucStatus (timer m' u) = ucStatus (timer m u)"
    "u \<in> A \<Longrightarrow> period m' u = period m u"
  using assms by (simp_all add: same_timers_def period_def)

lemma same_timers_inv: "same_timers A m m' \<Longrightarrow> timers_inv A L m' = timers_inv A L m \<and> expiries L m' = expiries L m"
  by (auto simp: timers_inv_def expiries_def expires_at_def same_timersD fun_eq_iff)

text \<open>
  The contract of the call-backs: they return, keep the command queue and the timers, and \<open>fired\<close>
  records them.
\<close>

definition calls_ok :: "'w timer_env \<Rightarrow> nat set \<Rightarrow> nat set \<Rightarrow> nat set \<Rightarrow> ('w \<Rightarrow> nat list) \<Rightarrow> bool" where
  "calls_ok e A T D fired \<longleftrightarrow> (\<forall>f t m x w n. t \<in> A \<longrightarrow> command_queue n T D x \<longrightarrow>
     (\<exists>m' x' w'. te_callback e f t (m, x, w) = Some (m', x', w') \<and> same_timers A m m' \<and> command_queue n T D x' \<and>
       fired w' = fired w @ [t]))"

text \<open>Call-backs that send no commands.\<close>

definition silent :: "'w timer_env \<Rightarrow> bool" where
  "silent e \<longleftrightarrow> (\<forall>f t m x w m' x' w'. te_callback e f t (m, x, w) = Some (m', x', w') \<longrightarrow>
     queue_items (fst x') = queue_items (fst x) \<and> uxLength (fst x') = uxLength (fst x))"

text \<open>Call-backs in which no time passes.\<close>

definition timeless :: "'w timer_env \<Rightarrow> bool" where
  "timeless e \<longleftrightarrow> (\<forall>f t m x w m' x' w'. te_callback e f t (m, x, w) = Some (m', x', w') \<longrightarrow> clock (snd x') = clock (snd x))"

lemma call_timeless: "timeless e \<Longrightarrow> timer_call e t (m, x, w) = Some (m', x', w') \<Longrightarrow> clock (snd x') = clock (snd x)"
  unfolding timeless_def timer_call_def prod.case by blast

lemma call_ok:
  assumes "calls_ok e A T D fired" "t \<in> A" "command_queue n T D x"
  obtains m' x' w' where "timer_call e t (m, x, w) = Some (m', x', w')" "same_timers A m m'" "command_queue n T D x'"
    "fired w' = fired w @ [t]"
    "silent e \<Longrightarrow> queue_items (fst x') = queue_items (fst x) \<and> uxLength (fst x') = uxLength (fst x)"
proof -
  obtain m' x' w' where "te_callback e (pxCallbackFunction (timer m t)) t (m, x, w) = Some (m', x', w')" "same_timers A m m'"
    "command_queue n T D x'" "fired w' = fired w @ [t]"
    using assms unfolding calls_ok_def by blast
  moreover from this(1) have "silent e \<Longrightarrow> queue_items (fst x') = queue_items (fst x) \<and> uxLength (fst x') = uxLength (fst x)"
    unfolding silent_def by blast
  ultimately show ?thesis using that [of m' x' w'] by (simp add: timer_call_def del: items_length)
qed

definition reloads :: "timers \<Rightarrow> nat \<Rightarrow> bool" where
  "reloads m t \<longleftrightarrow> ucStatus (timer m t) AND tmrSTATUS_IS_AUTORELOAD \<noteq> 0"

subsection \<open>The end of a period of the counter\<close>

text \<open>
  When the counter has wrapped, every timer of the current list has expired: a timer that expires
  at \<open>v\<close> (a tick of the period that ended) and reloads with period \<open>p\<close> expires at \<open>v\<close>, \<open>v + p\<close> and
  so on up to the end of the period.
\<close>

definition fires :: "timers \<Rightarrow> nat \<Rightarrow> nat" where
  "fires m u = (if pxContainer (timer_lists m) (xTimerListItem u) = Some (pxCurrentTimerList m)
     then if reloads m u then Suc ((tick_range - 1 - unat (xItemValue (timer_lists m) (xTimerListItem u))) div period m u) else 1
     else 0)"

definition last_expiry :: "timers \<Rightarrow> nat \<Rightarrow> nat" where
  "last_expiry m u = unat (xItemValue (timer_lists m) (xTimerListItem u)) + (fires m u - 1) * period m u"

lemma reload_wraps:
  fixes v p :: u64
  shows "v + p > v \<longleftrightarrow> p \<noteq> 0 \<and> unat v + unat p < tick_range"
proof (cases "unat v + unat p < tick_range")
  case True
  then have "unat (v + p) = unat v + unat p" unfolding tick_range_def by (intro unat_add_lt) simp
  then show ?thesis using True by (simp add: word_less_nat_alt unat_gt_0)
next
  case False
  have "unat (v + p) = (unat v + unat p) mod tick_range" by (simp add: unat_word_ariths tick_range_def)
  also have "\<dots> = unat v + unat p - tick_range"
  proof -
    have "unat v + unat p - tick_range < tick_range" using unat_tick_lt [of v] unat_tick_lt [of p] by linarith
    then show ?thesis using False by (simp add: le_mod_geq)
  qed
  finally have "unat (v + p) \<le> unat v" using unat_tick_lt [of p] by linarith
  then show ?thesis using False by (simp add: word_less_nat_alt)
qed

text \<open>One more expiry before the end of the period, or none.\<close>

lemma fires_step:
  fixes v p R :: nat
  assumes p: "0 < p" and v: "v < R"
  shows "v + p < R \<Longrightarrow> (R - 1 - v) div p = Suc ((R - 1 - (v + p)) div p)" "\<not> v + p < R \<Longrightarrow> (R - 1 - v) div p = 0"
proof -
  assume "v + p < R"
  then have "R - 1 - v = p + (R - 1 - (v + p))" by linarith
  then have "(R - 1 - v) div p = (p + (R - 1 - (v + p))) div p" by (rule arg_cong)
  also have "\<dots> = (R - 1 - (v + p)) div p + 1" using p by (intro div_add_self1) simp
  also have "\<dots> = Suc ((R - 1 - (v + p)) div p)" by (rule Suc_eq_plus1 [symmetric])
  finally show "(R - 1 - v) div p = Suc ((R - 1 - (v + p)) div p)" .
next
  assume "\<not> v + p < R"
  then show "(R - 1 - v) div p = 0" using v by (intro div_less) linarith
qed

text \<open>What the loop leaves of the timers besides the lists.\<close>

definition keeps_timers :: "nat set \<Rightarrow> timers \<Rightarrow> timers \<Rightarrow> bool" where
  "keeps_timers A m m' \<longleftrightarrow> pxCurrentTimerList m' = pxCurrentTimerList m \<and>
     pxOverflowTimerList m' = pxOverflowTimerList m \<and> xTimerQueue m' = xTimerQueue m \<and>
     (\<forall>u\<in>A. xTimerPeriodInTicks (timer m' u) = xTimerPeriodInTicks (timer m u) \<and> ucStatus (timer m' u) = ucStatus (timer m u))"

lemma keeps_timersD:
  assumes "keeps_timers A m m'"
  shows "pxCurrentTimerList m' = pxCurrentTimerList m" "pxOverflowTimerList m' = pxOverflowTimerList m" "xTimerQueue m' = xTimerQueue m"
    "u \<in> A \<Longrightarrow> period m' u = period m u" "u \<in> A \<Longrightarrow> reloads m' u = reloads m u"
    "u \<in> A \<Longrightarrow> xTimerPeriodInTicks (timer m' u) = xTimerPeriodInTicks (timer m u)"
    "u \<in> A \<Longrightarrow> ucStatus (timer m' u) = ucStatus (timer m u)"
  using assms by (simp_all add: keeps_timers_def period_def reloads_def)

lemma keeps_timers_refl [simp]: "keeps_timers A m m" "keeps_timers A m (m\<lparr>timer_lists := ls\<rparr>)"
  by (simp_all add: keeps_timers_def)

lemma keeps_timers_trans: "keeps_timers A m m1 \<Longrightarrow> keeps_timers A m1 m2 \<Longrightarrow> keeps_timers A m m2"
  by (simp add: keeps_timers_def)

lemma same_keeps: "same_timers A m m' \<Longrightarrow> keeps_timers A m m'"
  by (simp add: same_timers_def keeps_timers_def)

text \<open>The messages that reloading timers get, in the order \<open>ts\<close>.\<close>

definition reload_messages :: "timers \<Rightarrow> nat list \<Rightarrow> u8 list list" where
  "reload_messages m ts = map (\<lambda>u. timer_message tmrCOMMAND_START_DONT_TRACE \<lparr>xMessageValue = of_nat (last_expiry m u), pxTimer = u\<rparr>) ts"

text \<open>One turn of the loop.\<close>

definition current :: "timers \<Rightarrow> nat list" where
  "current m = map (pvOwner (timer_lists m)) (members (timer_lists m) (pxCurrentTimerList m))"

definition remaining :: "timers \<Rightarrow> nat" where
  "remaining m = sum_list (map (\<lambda>x. tick_range - unat (xItemValue (timer_lists m) x)) (members (timer_lists m) (pxCurrentTimerList m)))"

lemma remaining_remove:
  assumes "xTimerListItem t \<in> set xs"
  shows "sum_list (map f xs) = f (xTimerListItem t) + sum_list (map f (remove1 (xTimerListItem t) xs) :: nat list)"
  using assms by (rule sum_list_map_remove1)

lemma sum_list_insert_pos: "sum_list (map f (insert_pos v x xs)) = f x + sum_list (map f xs :: nat list)"
  by (induction xs) auto

definition turn_done :: "nat set \<Rightarrow> nat \<Rightarrow> nat \<Rightarrow> timers \<Rightarrow> timers \<Rightarrow> bool" where
  "turn_done A L t m m2 \<longleftrightarrow> timers_inv A L m2 \<and> keeps_timers A m m2 \<and> remaining m2 < remaining m \<and>
     (\<forall>u. fires m u = fires m2 u + (if u = t then 1 else 0)) \<and>
     (\<forall>u. pxContainer (timer_lists m2) (xTimerListItem u) = Some (pxCurrentTimerList m) \<longrightarrow> last_expiry m2 u = last_expiry m u) \<and>
     (\<forall>u. pxContainer (timer_lists m) (xTimerListItem u) \<noteq> Some (pxCurrentTimerList m) \<longrightarrow> expiries L m2 u = expiries L m u) \<and>
     (\<forall>u. pxContainer (timer_lists m) (xTimerListItem u) = Some (pxCurrentTimerList m) \<longrightarrow>
        pxContainer (timer_lists m2) (xTimerListItem u) = (if fires m2 u = 0 then None else Some (pxCurrentTimerList m)))"

text \<open>The timer is taken out for good, or put back for its next expiry in the same period.\<close>

lemma turn_last:
  assumes i: "timers_inv A L m" and c: "pxContainer (timer_lists m) (xTimerListItem t) = Some (pxCurrentTimerList m)"
    and u: "timer_unlink t m = Some m1" and s: "same_timers A m1 m2"
    and last: "reloads m t \<Longrightarrow> \<not> unat (xItemValue (timer_lists m) (xTimerListItem t)) + period m t < tick_range"
  shows "turn_done A L t m m2" "fires m t = 1"
proof -
  note d = timers_invD [OF i]
  have t: "t \<in> A" "0 < period m t" using d(7) [OF c] d(9) by simp_all
  show f: "fires m t = 1"
    using c fires_step(2) [OF t(2) unat_tick_lt, of "xItemValue (timer_lists m) (xTimerListItem t)"] last by (auto simp: fires_def)
  obtain ls where ls: "timer_unlink t m = Some (m\<lparr>timer_lists := ls\<rparr>)" "timers_inv A L (m\<lparr>timer_lists := ls\<rparr>)"
    "expiries L (m\<lparr>timer_lists := ls\<rparr>) = (expiries L m)(t := None)"
    "pxContainer ls = (pxContainer (timer_lists m))(xTimerListItem t := None)" "xItemValue ls = xItemValue (timer_lists m)"
    "members ls (pxCurrentTimerList m) = remove1 (xTimerListItem t) (members (timer_lists m) (pxCurrentTimerList m))"
    by (rule unlink_inv [OF i c]) blast
  have m1: "m1 = m\<lparr>timer_lists := ls\<rparr>" using u ls(1) by simp
  note s = same_timersD [OF s] same_timers_inv [OF s] same_keeps [OF s]
  have k: "keeps_timers A m m2" using keeps_timers_trans [OF _ s(10)] m1 by simp
  have mem: "xTimerListItem t \<in> set (members (timer_lists m) (pxCurrentTimerList m))" using members_container [OF d(1,2)] c by simp
  have rem: "remaining m2 < remaining m"
    unfolding remaining_def using remaining_remove [OF mem] by (simp add: s(1,2) m1 ls(5,6))
  have fr: "fires m2 v = (if v = t then 0 else fires m v)" for v
    using d(7) [of v "pxCurrentTimerList m"] keeps_timersD(4,5) [OF k, of v] by (auto simp: fires_def s(1,2) m1 ls)
  have "timers_inv A L m2" "expiries L m2 = (expiries L m)(t := None)" using s(9) ls(2,3) m1 by simp_all
  moreover have "last_expiry m2 v = last_expiry m v" if "pxContainer (timer_lists m2) (xTimerListItem v) = Some (pxCurrentTimerList m)" for v
  proof -
    have "v \<noteq> t" "pxContainer (timer_lists m) (xTimerListItem v) = Some (pxCurrentTimerList m)"
      using that by (auto simp: s(1) m1 ls split: if_splits)
    then show ?thesis using fr [of v] d(7) keeps_timersD(4) [OF k, of v] by (simp add: last_expiry_def s(1) m1 ls)
  qed
  moreover have "pxContainer (timer_lists m2) (xTimerListItem v) = (if fires m2 v = 0 then None else Some (pxCurrentTimerList m))"
    if "pxContainer (timer_lists m) (xTimerListItem v) = Some (pxCurrentTimerList m)" for v
    using that fr [of v] by (auto simp: s(1) m1 ls fires_def)
  ultimately show "turn_done A L t m m2" using k rem fr f c by (auto simp: turn_done_def)
qed

lemma turn_again:
  assumes i: "timers_inv A L m" and c: "pxContainer (timer_lists m) (xTimerListItem t) = Some (pxCurrentTimerList m)"
    and u: "timer_unlink t m = Some m1" and s: "same_timers A m1 m2" and r: "reloads m t"
    and more: "unat (xItemValue (timer_lists m) (xTimerListItem t)) + period m t < tick_range"
  defines "m3 \<equiv> rekey t (xItemValue (timer_lists m) (xTimerListItem t) + xTimerPeriodInTicks (timer m2 t)) m2"
  obtains ls where "vListInsert (timer_lists m3) (pxCurrentTimerList m2) (xTimerListItem t) = Some ls"
    "turn_done A L t m (m3\<lparr>timer_lists := ls\<rparr>)"
proof -
  note d = timers_invD [OF i]
  let ?v = "xItemValue (timer_lists m) (xTimerListItem t)" and ?c = "pxCurrentTimerList m"
  have t: "t \<in> A" "0 < period m t" using d(7) [OF c] d(9) by simp_all
  obtain ls where ls: "timer_unlink t m = Some (m\<lparr>timer_lists := ls\<rparr>)" "timers_inv A L (m\<lparr>timer_lists := ls\<rparr>)"
    "expiries L (m\<lparr>timer_lists := ls\<rparr>) = (expiries L m)(t := None)"
    "pxContainer ls = (pxContainer (timer_lists m))(xTimerListItem t := None)" "xItemValue ls = xItemValue (timer_lists m)"
    "members ls ?c = remove1 (xTimerListItem t) (members (timer_lists m) ?c)"
    by (rule unlink_inv [OF i c]) blast
  have m1: "m1 = m\<lparr>timer_lists := ls\<rparr>" using u ls(1) by simp
  have k12: "keeps_timers A m m2" using keeps_timers_trans [OF _ same_keeps [OF s]] m1 by simp
  note s = same_timersD [OF s] same_timers_inv [OF s]
  have i2: "timers_inv A L m2" "expiries L m2 = (expiries L m)(t := None)" using s(9) ls(2,3) m1 by simp_all
  have out: "pxContainer (timer_lists m2) (xTimerListItem t) = None" by (simp add: s(1) m1 ls)
  note r3 = rekey_inv [OF i2(1) out, of "?v + xTimerPeriodInTicks (timer m2 t)", folded m3_def]
  have out3: "pxContainer (timer_lists m3) (xTimerListItem t) = None" using out by (simp add: m3_def)
  have c3: "pxCurrentTimerList m3 = ?c" by (simp add: m3_def s(2) m1)
  let ?E = "expires_at L m t + period m t"
  have at: "expires_at L m t = L div tick_range * tick_range + unat ?v" using c by (simp add: expires_at_def)
  have Ediv: "?E div tick_range = L div tick_range"
  proof -
    have "?E = (unat ?v + period m t) + L div tick_range * tick_range" using at by simp
    then show ?thesis using more by (simp only: div_mult_self1 tick_range_pos [THEN not_sym [OF less_imp_neq]]) simp
  qed
  have Elt: "?E < L + tick_range"
  proof -
    have "?E < L div tick_range * tick_range + tick_range" using at more by simp
    also have "\<dots> \<le> L + tick_range" by (simp add: div_times_less_eq_dividend)
    finally show ?thesis .
  qed
  have val: "xItemValue (timer_lists m3) (xTimerListItem t) = of_nat ?E"
    using keeps_timersD(6) [OF k12 t(1)] by (simp add: m3_def expires_value)
  obtain ls3 where l3: "vListInsert (timer_lists m3) ?c (xTimerListItem t) = Some ls3" "timers_inv A L (m3\<lparr>timer_lists := ls3\<rparr>)"
    "expiries L (m3\<lparr>timer_lists := ls3\<rparr>) = (expiries L m3)(t \<mapsto> ?E)"
    "pxContainer ls3 = (pxContainer (timer_lists m3))(xTimerListItem t := Some ?c)"
    "xItemValue ls3 = xItemValue (timer_lists m3)"
    "members ls3 ?c = insert_pos (xItemValue (timer_lists m3)) (xTimerListItem t) (members (timer_lists m3) ?c)"
    using link_inv [OF r3(1) t(1) out3 _ val refl _ Elt] Ediv c3 by (auto simp: m3_def)
  let ?m4 = "m3\<lparr>timer_lists := ls3\<rparr>"
  have k: "keeps_timers A m ?m4" using k12 by (simp add: keeps_timers_def m3_def)
  have cont: "pxContainer ls3 = pxContainer (timer_lists m)" using c by (auto simp: l3(4) m3_def s(1) m1 ls(4))
  have vals: "xItemValue ls3 = (xItemValue (timer_lists m))(xTimerListItem t := of_nat ?E)"
    using val by (simp add: l3(5) m3_def s(1) m1 ls(5))
  have v': "unat (of_nat ?E :: u64) = unat ?v + period m t"
  proof -
    have "?E mod tick_range = (unat ?v + period m t) mod tick_range" using at by (simp add: add.assoc mod_mult_self3)
    then show ?thesis using more by (simp add: unat_tick del: of_nat_add)
  qed
  have mem: "xTimerListItem t \<in> set (members (timer_lists m) ?c)" using members_container [OF d(1,2)] c by simp
  have memb3: "members (timer_lists m3) ?c = remove1 (xTimerListItem t) (members (timer_lists m) ?c)"
    using r3(3) by (simp add: s(1) m1 ls(6))
  have nin: "xTimerListItem t \<notin> set (remove1 (xTimerListItem t) (members (timer_lists m) ?c))"
    using members_distinct [OF d(1,2)] by simp
  have rem: "remaining ?m4 < remaining m"
  proof -
    have "remaining ?m4 = (tick_range - (unat ?v + period m t)) +
        sum_list (map (\<lambda>x. tick_range - unat (xItemValue ls3 x)) (remove1 (xTimerListItem t) (members (timer_lists m) ?c)))"
      by (simp add: remaining_def c3 l3(6) sum_list_insert_pos memb3 vals v' del: of_nat_add)
    also have "map (\<lambda>x. tick_range - unat (xItemValue ls3 x)) (remove1 (xTimerListItem t) (members (timer_lists m) ?c)) =
        map (\<lambda>x. tick_range - unat (xItemValue (timer_lists m) x)) (remove1 (xTimerListItem t) (members (timer_lists m) ?c))"
      using nin by (intro map_cong) (auto simp: vals)
    finally show ?thesis
      using remaining_remove [OF mem, of "\<lambda>x. tick_range - unat (xItemValue (timer_lists m) x)"] t(2) more unat_tick_lt [of ?v]
      unfolding remaining_def [of m] by linarith
  qed
  have fr: "fires m v = fires ?m4 v + (if v = t then 1 else 0)" for v
  proof (cases "v = t")
    case True
    have "reloads ?m4 t" "period ?m4 t = period m t" using keeps_timersD(4,5) [OF k t(1)] r by simp_all
    then show ?thesis
      using True c r fires_step(1) [OF t(2) unat_tick_lt, of ?v] more by (simp add: fires_def cont c3 vals v' del: of_nat_add)
  next
    case False
    then show ?thesis using d(7) [of v ?c] keeps_timersD(4,5) [OF k, of v] by (auto simp: fires_def cont c3 vals)
  qed
  have last: "last_expiry ?m4 v = last_expiry m v" if "pxContainer (timer_lists ?m4) (xTimerListItem v) = Some ?c" for v
  proof (cases "v = t")
    case True
    have "fires ?m4 t \<noteq> 0" using that True by (simp add: fires_def c3)
    then show ?thesis using True fr [of t] keeps_timersD(4) [OF k t(1)] by (cases "fires ?m4 t") (simp_all add: last_expiry_def vals v' del: of_nat_add)
  next
    case False
    have "v \<in> A" using that d(7) [of v ?c] cont by simp
    then show ?thesis using False fr [of v] keeps_timersD(4) [OF k] by (simp add: last_expiry_def vals)
  qed
  have "turn_done A L t m ?m4"
    unfolding turn_done_def
    by (intro conjI allI impI l3(2) k rem fr)
      (use last c in \<open>auto simp: l3(3) r3(2) i2(2) cont fires_def c3\<close>)
  then show ?thesis using that [of ls3] l3(1) by (simp add: s(2) m1)
qed

lemma take_take_append: "take n (take n xs @ ys) = take n (xs @ ys)"
  by (simp add: min_def)

lemma turn_doneD:
  assumes "turn_done A L t m m2"
  shows "timers_inv A L m2" "keeps_timers A m m2" "remaining m2 < remaining m" "fires m u = fires m2 u + (if u = t then 1 else 0)"
    "pxContainer (timer_lists m2) (xTimerListItem u) = Some (pxCurrentTimerList m) \<Longrightarrow> last_expiry m2 u = last_expiry m u"
    "pxContainer (timer_lists m) (xTimerListItem u) \<noteq> Some (pxCurrentTimerList m) \<Longrightarrow> expiries L m2 u = expiries L m u"
    "pxContainer (timer_lists m) (xTimerListItem u) = Some (pxCurrentTimerList m) \<Longrightarrow>
        pxContainer (timer_lists m2) (xTimerListItem u) = (if fires m2 u = 0 then None else Some (pxCurrentTimerList m))"
    "pxCurrentTimerList m2 = pxCurrentTimerList m"
  using assms keeps_timersD(1) [of A m m2] by (simp_all add: turn_done_def)

text \<open>One turn of the loop; \<open>msgs\<close> is the message it sends, if it does.\<close>

lemma switch_turn:
  assumes e: "calls_ok e A T D fired" and i: "timers_inv A L m" and q: "command_queue n T D x"
    and ne: "\<not> listLIST_IS_EMPTY (timer_lists m) (pxCurrentTimerList m)"
  obtains t m2 x2 w2 where "switch_loop e (m, x, w) = switch_loop e (m2, x2, w2)" "turn_done A L t m m2" "command_queue n T D x2"
    "fired w2 = fired w @ [t]" "pxContainer (timer_lists m) (xTimerListItem t) = Some (pxCurrentTimerList m)"
    "silent e \<Longrightarrow> uxLength (fst x2) = uxLength (fst x) \<and> queue_items (fst x2) =
       (if reloads m t \<and> fires m2 t = 0 then add_message (fst x) (timer_message tmrCOMMAND_START_DONT_TRACE \<lparr>xMessageValue = of_nat (last_expiry m t), pxTimer = t\<rparr>)
        else queue_items (fst x))"
    "timeless e \<Longrightarrow> clock (snd x2) = clock (snd x)"
proof -
  note d = timers_invD [OF i]
  let ?c = "pxCurrentTimerList m"
  have "members (timer_lists m) ?c \<noteq> []" using ne members_is_empty [OF d(1,2)] by simp
  from current_head [OF i this] obtain t where t: "listGET_OWNER_OF_HEAD_ENTRY (timer_lists m) ?c = t"
    "pxContainer (timer_lists m) (xTimerListItem t) = Some ?c" "t \<in> A"
    "listGET_ITEM_VALUE_OF_HEAD_ENTRY (timer_lists m) ?c = xItemValue (timer_lists m) (xTimerListItem t)"
    by (auto simp: expires_value)
  let ?v = "xItemValue (timer_lists m) (xTimerListItem t)"
  obtain m1 where u: "timer_unlink t m = Some m1" "keeps_timers A m m1" "xTimerQueue m1 \<noteq> 0"
    using unlink_inv [OF i t(2)] d(10) by (metis keeps_timers_refl(2) keeps_timersD(3))
  obtain m2 x2 w2 where call: "timer_call e t (m1, x, w) = Some (m2, x2, w2)" "same_timers A m1 m2" "command_queue n T D x2"
    "fired w2 = fired w @ [t]" "silent e \<Longrightarrow> queue_items (fst x2) = queue_items (fst x) \<and> uxLength (fst x2) = uxLength (fst x)"
    by (rule call_ok [OF e t(3) q, of m1 w]) blast
  note tick = call_timeless [OF _ call(1)]
  have k: "keeps_timers A m m2" by (rule keeps_timers_trans [OF u(2) same_keeps [OF call(2)]])
  have rl: "ucStatus (timer m2 t) AND tmrSTATUS_IS_AUTORELOAD \<noteq> 0 \<longleftrightarrow> reloads m t"
    using keeps_timersD(5) [OF k t(3)] by (simp add: reloads_def)
  have p: "xTimerPeriodInTicks (timer m2 t) = xTimerPeriodInTicks (timer m t)" by (rule keeps_timersD(6) [OF k t(3)])
  have pos: "xTimerPeriodInTicks (timer m t) \<noteq> 0" using d(9) [OF t(3)] by (auto simp: period_def)
  have more: "?v + xTimerPeriodInTicks (timer m2 t) > ?v \<longleftrightarrow> unat ?v + period m t < tick_range"
    using reload_wraps [of ?v "xTimerPeriodInTicks (timer m t)"] pos by (simp add: p period_def)
  note unfold = switch_loop.simps [of e "(m, x, w)"]
  consider (again) "reloads m t" "unat ?v + period m t < tick_range" | (send) "reloads m t" "\<not> unat ?v + period m t < tick_range"
    | (out) "\<not> reloads m t" by blast
  then show ?thesis
  proof cases
    case again
    obtain ls where ls: "vListInsert (timer_lists (rekey t (?v + xTimerPeriodInTicks (timer m2 t)) m2)) (pxCurrentTimerList m2) (xTimerListItem t) = Some ls"
      "turn_done A L t m ((rekey t (?v + xTimerPeriodInTicks (timer m2 t)) m2)\<lparr>timer_lists := ls\<rparr>)"
      by (rule turn_again [OF i t(2) u(1) call(2) again]) blast
    have rk: "(rekey t z m2)\<lparr>timer_lists := ls\<rparr> = m2\<lparr>timer_lists := ls\<rparr>" for z by (simp add: rekey_def)
    have "switch_loop e (m, x, w) = switch_loop e (m2\<lparr>timer_lists := ls\<rparr>, x2, w2)"
      using ne t(1,4) u(1) call(1) rl again more ls(1) by (subst unfold) (simp add: Let_def rekey_def)
    moreover have "fires (m2\<lparr>timer_lists := ls\<rparr>) t \<noteq> 0"
      using turn_doneD(4) [OF ls(2), of t] fires_step(1) [OF d(9) [OF t(3)] unat_tick_lt, of ?v] again t(2) by (simp add: fires_def [of m] rk)
    ultimately show ?thesis using that [of "m2\<lparr>timer_lists := ls\<rparr>" x2 w2 t] ls(2) call(3-5) t(2) tick by (simp add: rk del: items_length)
  next
    case out
    have "switch_loop e (m, x, w) = switch_loop e (m2, x2, w2)"
      using ne t(1,4) u(1) call(1) rl out by (subst unfold) (simp add: Let_def)
    then show ?thesis using that [of m2 x2 w2 t] turn_last(1) [OF i t(2) u(1) call(2)] out call(3-5) t(2) tick by (simp del: items_length)
  next
    case send
    note fin = turn_last [OF i t(2) u(1) call(2) send(2)]
    have mq: "xTimerQueue m2 \<noteq> 0" using k d(10) by (simp add: keeps_timersD(3))
    obtain q2 s2 where x2: "x2 = (q2, s2)" by (cases x2)
    obtain q3 s3 where r: "timer_resend t ?v (m2, (q2, s2), w2) = Some (m2, (q3, s3), w2)" "command_queue n T D (q3, s3)" "uxLength q3 = uxLength q2"
      "queue_items q3 = add_message q2 (timer_message tmrCOMMAND_START_DONT_TRACE \<lparr>xMessageValue = ?v, pxTimer = t\<rparr>)"
      "clock s3 = clock s2"
      by (rule resend_ok [OF call(3) [unfolded x2] mq]) blast
    have "switch_loop e (m, x, w) = switch_loop e (m2, (q3, s3), w2)"
      using ne t(1,4) u(1) call(1) rl send more r(1) by (subst unfold) (simp add: Let_def x2)
    moreover have "fires m2 t = 0" "of_nat (last_expiry m t) = ?v"
      using fin(2) turn_doneD(4) [OF fin(1), of t] by (simp_all add: last_expiry_def)
    ultimately show ?thesis
      using that [of m2 "(q3, s3)" w2 t] fin(1) r call(4,5) send(1) t(2) x2 tick by (simp add: add_message_def del: items_length)
  qed
qed

definition period_over :: "nat set \<Rightarrow> nat \<Rightarrow> timers \<Rightarrow> timers \<Rightarrow> bool" where
  "period_over A L m m' \<longleftrightarrow> timers_inv A L m' \<and> keeps_timers A m m' \<and>
     (\<forall>u. expiries L m' u =
       (if pxContainer (timer_lists m) (xTimerListItem u) = Some (pxCurrentTimerList m) then None else expiries L m u))"

definition reload_list :: "timers \<Rightarrow> nat list \<Rightarrow> bool" where
  "reload_list m ts \<longleftrightarrow> distinct ts \<and>
     set ts = {u. pxContainer (timer_lists m) (xTimerListItem u) = Some (pxCurrentTimerList m) \<and> reloads m u}"

lemma switch_loop_ok:
  assumes e: "calls_ok e A T D fired"
  shows "timers_inv A L m \<Longrightarrow> command_queue n T D x \<Longrightarrow>
    \<exists>m' x' w' ts. switch_loop e (m, x, w) = Some (m', x', w') \<and> period_over A L m m' \<and> command_queue n T D x' \<and>
      (\<forall>u. count_list (fired w') u = count_list (fired w) u + fires m u) \<and> reload_list m ts \<and>
      (silent e \<longrightarrow> queue_items (fst x') = take (unat (uxLength (fst x))) (queue_items (fst x) @ reload_messages m ts) \<and>
        uxLength (fst x') = uxLength (fst x)) \<and> (timeless e \<longrightarrow> clock (snd x') = clock (snd x))"
proof (induction "remaining m" arbitrary: m x w rule: less_induct)
  case less
  note d = timers_invD [OF less.prems(1)]
  let ?c = "pxCurrentTimerList m"
  show ?case
  proof (cases "listLIST_IS_EMPTY (timer_lists m) ?c")
    case True
    then have none: "pxContainer (timer_lists m) (xTimerListItem u) \<noteq> Some ?c" for u
      using members_is_empty [OF d(1,2)] members_container [OF d(1,2), of "xTimerListItem u"] by simp
    have le: "length (queue_items (fst x)) \<le> unat (uxLength (fst x))"
      using items_le queue_invD(2) less.prems(2) unfolding command_queue_def by (metis prod.collapse)
    have "switch_loop e (m, x, w) = Some (m, x, w)" using True by (subst switch_loop.simps) simp
    then show ?thesis
      using less.prems none le by (intro exI [of _ m] exI [of _ x] exI [of _ w] exI [of _ "[]"])
        (auto simp: period_over_def fires_def reload_list_def reload_messages_def simp del: items_length)
  next
    case False
    obtain t m2 x2 w2 where s2: "switch_loop e (m, x, w) = switch_loop e (m2, x2, w2)" "turn_done A L t m m2" "command_queue n T D x2"
      "fired w2 = fired w @ [t]" "pxContainer (timer_lists m) (xTimerListItem t) = Some ?c"
      "silent e \<Longrightarrow> uxLength (fst x2) = uxLength (fst x) \<and> queue_items (fst x2) =
         (if reloads m t \<and> fires m2 t = 0 then add_message (fst x) (timer_message tmrCOMMAND_START_DONT_TRACE \<lparr>xMessageValue = of_nat (last_expiry m t), pxTimer = t\<rparr>)
          else queue_items (fst x))"
      "timeless e \<Longrightarrow> clock (snd x2) = clock (snd x)"
      by (rule switch_turn [OF e less.prems False, of w]) blast
    note t = turn_doneD [OF s2(2)]
    from less.hyps [OF t(3,1) s2(3), of w2] obtain m' x' w' ts where
      s': "switch_loop e (m2, x2, w2) = Some (m', x', w')" "period_over A L m2 m'" "command_queue n T D x'"
      "\<And>u. count_list (fired w') u = count_list (fired w2) u + fires m2 u" "reload_list m2 ts"
      "silent e \<Longrightarrow> queue_items (fst x') = take (unat (uxLength (fst x2))) (queue_items (fst x2) @ reload_messages m2 ts)"
      "silent e \<Longrightarrow> uxLength (fst x') = uxLength (fst x2)" "timeless e \<Longrightarrow> clock (snd x') = clock (snd x2)"
      by blast
    have cont: "pxContainer (timer_lists m2) (xTimerListItem u) = Some ?c \<longleftrightarrow>
        pxContainer (timer_lists m) (xTimerListItem u) = Some ?c \<and> (u = t \<longrightarrow> fires m2 t \<noteq> 0)" for u
    proof (cases "pxContainer (timer_lists m) (xTimerListItem u) = Some ?c")
      case True
      then have "0 < fires m u" by (simp add: fires_def)
      then show ?thesis using t(7) [OF True] t(4) [of u] True by (cases "u = t") auto
    next
      case False
      then have "fires m u = 0" by (simp add: fires_def)
      then have "fires m2 u = 0" using t(4) [of u] by simp
      then show ?thesis using False by (auto simp: fires_def t(8) split: if_splits)
    qed
    have rl: "reloads m2 u = reloads m u" if "pxContainer (timer_lists m) (xTimerListItem u) = Some ?c" for u
      using keeps_timersD(5) [OF t(2)] d(7) [OF that] by simp
    define ts' where "ts' = (if reloads m t \<and> fires m2 t = 0 then t # ts else ts)"
    have set: "set ts = {u. pxContainer (timer_lists m) (xTimerListItem u) = Some ?c \<and> (u = t \<longrightarrow> fires m2 t \<noteq> 0) \<and> reloads m u}"
      using s'(5) cont rl by (auto simp: reload_list_def t(8))
    have ts': "reload_list m ts'"
    proof (cases "reloads m t \<and> fires m2 t = 0")
      case True
      then have "t \<notin> set ts" "set ts' = {u. pxContainer (timer_lists m) (xTimerListItem u) = Some ?c \<and> reloads m u}"
        using set s2(5) by (auto simp: ts'_def)
      then show ?thesis using True s'(5) by (simp add: reload_list_def ts'_def)
    next
      case False
      then have "set ts' = {u. pxContainer (timer_lists m) (xTimerListItem u) = Some ?c \<and> reloads m u}"
        unfolding ts'_def if_not_P [OF False] set by auto
      moreover have "distinct ts'" using s'(5) unfolding ts'_def if_not_P [OF False] by (simp add: reload_list_def)
      ultimately show ?thesis unfolding reload_list_def by blast
    qed
    have "last_expiry m2 u = last_expiry m u" if "u \<in> set ts" for u
      using that cont [of u] t(5) [of u] unfolding set by blast
    then have msgs: "reload_messages m2 ts = reload_messages m ts" by (simp add: reload_messages_def)
    have over: "period_over A L m m'"
      unfolding period_over_def
    proof (intro conjI allI)
      show "timers_inv A L m'" using s'(2) by (simp add: period_over_def)
      show "keeps_timers A m m'" using s'(2) keeps_timers_trans [OF t(2)] by (simp add: period_over_def)
      fix u
      have a: "expiries L m' u = (if pxContainer (timer_lists m2) (xTimerListItem u) = Some ?c then None else expiries L m2 u)"
        using s'(2) by (simp add: period_over_def t(8))
      show "expiries L m' u = (if pxContainer (timer_lists m) (xTimerListItem u) = Some ?c then None else expiries L m u)"
      proof (cases "pxContainer (timer_lists m) (xTimerListItem u) = Some ?c")
        case True
        then show ?thesis using a t(7) [OF True] by (auto simp: expiries_def)
      next
        case False
        then show ?thesis using a t(6) [OF False] cont [of u] by simp
      qed
    qed
    have rest: "silent e \<Longrightarrow> uxLength (fst x') = uxLength (fst x)" "timeless e \<Longrightarrow> clock (snd x') = clock (snd x)"
      using s'(7,8) s2(6,7) by simp_all
    have items: "queue_items (fst x') = take (unat (uxLength (fst x))) (queue_items (fst x) @ reload_messages m ts')" if "silent e"
    proof (cases "reloads m t \<and> fires m2 t = 0")
      case True
      then show ?thesis using s'(6) [OF that] s2(6) [OF that] unfolding msgs ts'_def
        by (simp add: add_message_def take_take_append reload_messages_def del: items_length take_append)
    next
      case False
      then show ?thesis using s'(6) [OF that] s2(6) [OF that] unfolding msgs ts'_def if_not_P [OF False] by (simp only:)
    qed
    have "switch_loop e (m, x, w) = Some (m', x', w')" using s2(1) s'(1) by simp
    moreover have "count_list (fired w') u = count_list (fired w) u + fires m u" for u
      using s'(4) [of u] t(4) [of u] by (simp add: s2(4))
    ultimately show ?thesis using over s'(3) ts' items rest by blast
  qed
qed

subsection \<open>Sampling the time\<close>

text \<open>The timers at the later time \<open>N\<close> of the same period, and after the lists have been exchanged.\<close>

lemma later_inv:
  assumes i: "timers_inv A L m" and N: "L \<le> N" "N div tick_range = L div tick_range"
  shows "timers_inv A N (m\<lparr>xLastTime := of_nat N\<rparr>)" "expiries N (m\<lparr>xLastTime := of_nat N\<rparr>) = expiries L m"
proof -
  have x: "expires_at N (m\<lparr>xLastTime := of_nat N\<rparr>) u = expires_at L m u" for u by (simp add: expires_at_def N(2))
  then show "expiries N (m\<lparr>xLastTime := of_nat N\<rparr>) = expiries L m" by (simp add: expiries_def fun_eq_iff)
  have "expires_at L m u < N + tick_range" if "pxContainer (timer_lists m) (xTimerListItem u) = Some l" for u l
    using timers_invD(7) [OF i that] N(1) by simp
  then show "timers_inv A N (m\<lparr>xLastTime := of_nat N\<rparr>)"
    using i x unfolding timers_inv_def by (auto simp: period_def)
qed

lemma exchange_inv:
  assumes i: "timers_inv A L m" and N: "L \<le> N" "N div tick_range = Suc (L div tick_range)"
    and none: "\<And>u. pxContainer (timer_lists m) (xTimerListItem u) \<noteq> Some (pxCurrentTimerList m)"
  defines "m' \<equiv> m\<lparr>pxCurrentTimerList := pxOverflowTimerList m, pxOverflowTimerList := pxCurrentTimerList m, xLastTime := of_nat N\<rparr>"
  shows "timers_inv A N m'" "expiries N m' = expiries L m"
proof -
  note d = timers_invD [OF i]
  have c: "l = pxOverflowTimerList m" if "pxContainer (timer_lists m) (xTimerListItem u) = Some l" for u l
    using list_ok_container [OF d(1) that] d(5) none [of u] that by auto
  have x: "expires_at N m' u = expires_at L m u" if "pxContainer (timer_lists m) (xTimerListItem u) \<noteq> None" for u
    using that c [of u] none [of u] by (auto simp: expires_at_def N(2) m'_def)
  then show "expiries N m' = expiries L m" by (auto simp: expiries_def fun_eq_iff m'_def)
  have "expires_at N m' u < N + tick_range" if "pxContainer (timer_lists m) (xTimerListItem u) = Some l" for u l
    using d(7) [OF that] N(1) x [of u] that by simp
  then show "timers_inv A N m'"
    using i unfolding timers_inv_def by (auto simp: period_def m'_def)
qed

text \<open>
  Within a period nothing changes. When a period has ended, the timers that expired in it have been
  called, once for each expiry, and the others keep their expiry time.
\<close>

definition sampled :: "nat \<Rightarrow> nat \<Rightarrow> (nat \<Rightarrow> nat option) \<Rightarrow> nat \<Rightarrow> nat option" where
  "sampled L N f u = (case f u of None \<Rightarrow> None
     | Some E \<Rightarrow> if E div tick_range < N div tick_range then None else Some E)"

definition same_status :: "nat set \<Rightarrow> timers \<Rightarrow> timers \<Rightarrow> bool" where
  "same_status A m m' \<longleftrightarrow> xTimerQueue m' = xTimerQueue m \<and>
     (\<forall>u\<in>A. xTimerPeriodInTicks (timer m' u) = xTimerPeriodInTicks (timer m u) \<and> ucStatus (timer m' u) = ucStatus (timer m u))"

lemma sample_time:
  assumes e: "calls_ok e A T D fired" and i: "timers_inv A L m" and q: "command_queue n T D x"
    and N: "xTickCount (snd x) = of_nat N" "L \<le> N" "N < L + tick_range"
  obtains m' x' w' where "prvSampleTimeNow e (m, x, w) = Some (of_nat N, N div tick_range \<noteq> L div tick_range, m', x', w')"
    "timers_inv A N m'" "expiries N m' = sampled L N (expiries L m)" "same_status A m m'" "command_queue n T D x'"
    "N div tick_range = L div tick_range \<Longrightarrow> m' = m\<lparr>xLastTime := of_nat N\<rparr> \<and> x' = x \<and> w' = w"
    "N div tick_range \<noteq> L div tick_range \<Longrightarrow> (\<forall>u. count_list (fired w') u = count_list (fired w) u + fires m u) \<and>
       (\<exists>ts. reload_list m ts \<and> (silent e \<longrightarrow>
          queue_items (fst x') = take (unat (uxLength (fst x))) (queue_items (fst x) @ reload_messages m ts) \<and> uxLength (fst x') = uxLength (fst x)))"
    "timeless e \<Longrightarrow> clock (snd x') = clock (snd x)"
proof -
  note d = timers_invD [OF i]
  have lt: "(of_nat N :: u64) < of_nat L \<longleftrightarrow> N div tick_range \<noteq> L div tick_range"
    using next_period [OF N(2,3)] by (auto simp: word_less_nat_alt unat_tick)
  have per: "N div tick_range = (if N div tick_range = L div tick_range then L div tick_range else Suc (L div tick_range))"
    using next_period [OF N(2,3)] by auto
  have smp: "sampled L N (expiries L m) = (\<lambda>u. if N div tick_range \<noteq> L div tick_range \<and>
      pxContainer (timer_lists m) (xTimerListItem u) = Some (pxCurrentTimerList m) then None else expiries L m u)"
    using next_period [OF N(2,3)] by (auto simp: sampled_def expiries_def expires_div fun_eq_iff)
  show ?thesis
  proof (cases "N div tick_range = L div tick_range")
    case True
    have "prvSampleTimeNow e (m, x, w) = Some (of_nat N, False, m\<lparr>xLastTime := of_nat N\<rparr>, x, w)"
      using lt True by (simp add: prvSampleTimeNow_def Let_def xTaskGetTickCount_def N(1) d(11))
    then show ?thesis
      using that [of "m\<lparr>xLastTime := of_nat N\<rparr>" x w] later_inv [OF i N(2) True] True q smp by (simp add: same_status_def)
  next
    case False
    then have suc: "N div tick_range = Suc (L div tick_range)" using per by simp
    obtain m1 x1 w1 ts where s1: "switch_loop e (m, x, w) = Some (m1, x1, w1)" "period_over A L m m1" "command_queue n T D x1"
      "\<forall>u. count_list (fired w1) u = count_list (fired w) u + fires m u" "reload_list m ts"
      "silent e \<longrightarrow> queue_items (fst x1) = take (unat (uxLength (fst x))) (queue_items (fst x) @ reload_messages m ts) \<and> uxLength (fst x1) = uxLength (fst x)"
      "timeless e \<longrightarrow> clock (snd x1) = clock (snd x)"
      using switch_loop_ok [OF e i q, of w] by blast
    have k: "keeps_timers A m m1" and i1: "timers_inv A L m1" using s1(2) by (simp_all add: period_over_def)
    have x1: "expiries L m1 = sampled L N (expiries L m)" using s1(2) False by (simp add: period_over_def smp fun_eq_iff)
    have none: "pxContainer (timer_lists m1) (xTimerListItem u) \<noteq> Some (pxCurrentTimerList m1)" for u
    proof
      assume c: "pxContainer (timer_lists m1) (xTimerListItem u) = Some (pxCurrentTimerList m1)"
      then have "expiries L m1 u = Some (expires_at L m1 u)" by (simp add: expiries_def)
      then have "\<not> expires_at L m1 u div tick_range < N div tick_range" unfolding x1 by (auto simp: sampled_def split: option.splits if_splits)
      then show False using c suc by (simp add: expires_div)
    qed
    let ?m = "m1\<lparr>pxCurrentTimerList := pxOverflowTimerList m1, pxOverflowTimerList := pxCurrentTimerList m1, xLastTime := of_nat N\<rparr>"
    have "prvSampleTimeNow e (m, x, w) = Some (of_nat N, True, ?m, x1, w1)"
      using lt False s1(1) by (simp add: prvSampleTimeNow_def Let_def prvSwitchTimerLists_def xTaskGetTickCount_def N(1) d(11))
    then have run: "prvSampleTimeNow e (m, x, w) = Some (of_nat N, N div tick_range \<noteq> L div tick_range, ?m, x1, w1)"
      using False by simp
    have st: "same_status A m ?m" using k by (simp add: same_status_def keeps_timers_def)
    note ex = exchange_inv [OF i1 N(2) suc none]
    show ?thesis
      by (rule that [OF run ex(1) trans [OF ex(2) x1] st s1(3)]) (use False s1(4-7) in blast)+
  qed
qed

end
