(* ===== verification/Timer_Task.thy ===== *)
theory Timer_Task
  imports Timer_Ops Queue_Wait
begin

text \<open>
  The loop of the timer task: one round calls the timers that have expired or waits for exactly as
  long as no timer expires, and a command changes the expiry time of its timer as it should.
\<close>

subsection \<open>The status of a timer\<close>

lemma status_bits:
  "(x AND NOT tmrSTATUS_IS_ACTIVE) AND tmrSTATUS_IS_ACTIVE = 0" "(x OR tmrSTATUS_IS_ACTIVE) AND tmrSTATUS_IS_ACTIVE \<noteq> 0"
  "(x AND NOT tmrSTATUS_IS_ACTIVE) AND tmrSTATUS_IS_AUTORELOAD = x AND tmrSTATUS_IS_AUTORELOAD"
  "(x OR tmrSTATUS_IS_ACTIVE) AND tmrSTATUS_IS_AUTORELOAD = x AND tmrSTATUS_IS_AUTORELOAD"
proof -
  show "(x AND NOT tmrSTATUS_IS_ACTIVE) AND tmrSTATUS_IS_ACTIVE = 0" by (simp add: and.assoc)
  show "(x OR tmrSTATUS_IS_ACTIVE) AND tmrSTATUS_IS_ACTIVE \<noteq> 0" by (simp add: bit.conj_disj_distrib2 tmrSTATUS_IS_ACTIVE_def)
  show "(x AND NOT tmrSTATUS_IS_ACTIVE) AND tmrSTATUS_IS_AUTORELOAD = x AND tmrSTATUS_IS_AUTORELOAD"
    by (simp add: and.assoc tmrSTATUS_IS_ACTIVE_def tmrSTATUS_IS_AUTORELOAD_def)
  show "(x OR tmrSTATUS_IS_ACTIVE) AND tmrSTATUS_IS_AUTORELOAD = x AND tmrSTATUS_IS_AUTORELOAD"
    by (simp add: bit.conj_disj_distrib2 tmrSTATUS_IS_ACTIVE_def tmrSTATUS_IS_AUTORELOAD_def)
qed

lemma active_bit [simp]: "tmrSTATUS_IS_ACTIVE \<noteq> 0" by (simp add: tmrSTATUS_IS_ACTIVE_def)

definition set_active :: "nat \<Rightarrow> bool \<Rightarrow> timers \<Rightarrow> timers" where
  "set_active t b m = set_timer t (\<lambda>c. c\<lparr>ucStatus := (if b then ucStatus c OR tmrSTATUS_IS_ACTIVE else ucStatus c AND NOT tmrSTATUS_IS_ACTIVE)\<rparr>) m"

lemma set_timer_fields [simp]:
  "timer_lists (set_timer t f m) = timer_lists m" "pxCurrentTimerList (set_timer t f m) = pxCurrentTimerList m"
  "pxOverflowTimerList (set_timer t f m) = pxOverflowTimerList m" "xTimerQueue (set_timer t f m) = xTimerQueue m"
  "xLastTime (set_timer t f m) = xLastTime m" "timer (set_timer t f m) u = (if u = t then f (timer m t) else timer m u)"
  by (simp_all add: set_timer_def)

lemma set_active_fields [simp]:
  "timer_lists (set_active t b m) = timer_lists m" "xTimerPeriodInTicks (timer (set_active t b m) u) = xTimerPeriodInTicks (timer m u)"
  "period (set_active t b m) u = period m u" "reloads (set_active t b m) u = reloads m u" "xTimerQueue (set_active t b m) = xTimerQueue m"
  "xTimerIsTimerActive u (set_active t b m) = (if u = t then b else xTimerIsTimerActive u m)"
  by (simp_all add: set_active_def period_def reloads_def xTimerIsTimerActive_def status_bits)

lemma set_active_inv: "timers_inv A L (set_active t b m) = timers_inv A L m" "expiries L (set_active t b m) = expiries L m"
proof -
  have x: "expires_at L (set_active t b m) u = expires_at L m u" for u by (simp add: expires_at_def) (simp add: set_active_def)
  show "expiries L (set_active t b m) = expiries L m" by (simp add: expiries_def x fun_eq_iff)
  show "timers_inv A L (set_active t b m) = timers_inv A L m"
    by (simp add: timers_inv_def x) (simp add: set_active_def)
qed

lemma same_active:
  "(u \<in> A \<Longrightarrow> ucStatus (timer m' u) = ucStatus (timer m u)) \<Longrightarrow> u \<in> A \<Longrightarrow> xTimerIsTimerActive u m' = xTimerIsTimerActive u m"
  "(u \<in> A \<Longrightarrow> ucStatus (timer m' u) = ucStatus (timer m u)) \<Longrightarrow> u \<in> A \<Longrightarrow> reloads m' u = reloads m u"
  by (simp_all add: xTimerIsTimerActive_def reloads_def)

subsection \<open>A timer that has expired\<close>

lemma process_expired:
  assumes e: "calls_ok e A T D fired" and i: "timers_inv A N m" and q: "command_queue n T D (q, s)"
    and ne: "members (timer_lists m) (pxCurrentTimerList m) \<noteq> []"
    and h: "listGET_ITEM_VALUE_OF_HEAD_ENTRY (timer_lists m) (pxCurrentTimerList m) \<le> of_nat N"
  obtains t E m' q' s' w' where "prvProcessExpiredTimer e (listGET_ITEM_VALUE_OF_HEAD_ENTRY (timer_lists m) (pxCurrentTimerList m)) (of_nat N) (m, (q, s), w) =
      Some (m', (q', s'), w')" "timers_inv A N m'" "command_queue n T D (q', s')" "fired w' = fired w @ [t]"
    "expiries N m t = Some E" "E \<le> N" "\<And>u F. expiries N m u = Some F \<Longrightarrow> E \<le> F"
    "expiries N m' = (expiries N m)(t := if reloads m t \<and> N < E + period m t then Some (E + period m t) else None)"
    "\<And>u. u \<in> A \<Longrightarrow> xTimerIsTimerActive u m' \<longleftrightarrow> xTimerIsTimerActive u m \<and> (u = t \<longrightarrow> reloads m t)"
    "silent e \<Longrightarrow> queue_items q' = (if reloads m t \<and> E + period m t \<le> N
       then add_message q (timer_message tmrCOMMAND_START_DONT_TRACE \<lparr>xMessageValue = of_nat E, pxTimer = t\<rparr>) else queue_items q)"
    "\<And>u. u \<in> A \<Longrightarrow> reloads m' u = reloads m u \<and> period m' u = period m u" "timeless e \<Longrightarrow> clock s' = clock s"
proof -
  let ?c = "pxCurrentTimerList m"
  obtain t where t: "listGET_OWNER_OF_HEAD_ENTRY (timer_lists m) ?c = t"
    "pxContainer (timer_lists m) (xTimerListItem t) = Some ?c" "expiries N m t = Some (expires_at N m t)" "t \<in> A"
    "expires_at N m t div tick_range = N div tick_range"
    "listGET_ITEM_VALUE_OF_HEAD_ENTRY (timer_lists m) ?c = of_nat (expires_at N m t)"
    "\<And>u F. expiries N m u = Some F \<Longrightarrow> expires_at N m t \<le> F"
    by (rule current_head [OF i ne]) blast
  define E where "E = expires_at N m t"
  have EN: "E \<le> N"
    using h t(5,6) period_order [of E N] by (simp add: E_def word_le_nat_alt unat_tick)
  have NE: "N < E + tick_range"
  proof -
    have "N < N div tick_range * tick_range + tick_range" by (metis div_mult_mod_eq mod_less_divisor nat_add_left_cancel_less tick_range_pos)
    also have "\<dots> \<le> E + tick_range" using t(5) by (metis E_def add_le_mono1 div_times_less_eq_dividend)
    finally show ?thesis .
  qed
  obtain ls where ls: "timer_unlink t m = Some (m\<lparr>timer_lists := ls\<rparr>)" "timers_inv A N (m\<lparr>timer_lists := ls\<rparr>)"
    "expiries N (m\<lparr>timer_lists := ls\<rparr>) = (expiries N m)(t := None)"
    "pxContainer ls = (pxContainer (timer_lists m))(xTimerListItem t := None)"
    by (rule unlink_inv [OF i t(2)]) blast
  let ?m1 = "m\<lparr>timer_lists := ls\<rparr>"
  have out: "pxContainer (timer_lists ?m1) (xTimerListItem t) = None" by (simp add: ls(4))
  have P: "period ?m1 t = period m t" by (simp add: period_def)
  define msg where "msg = timer_message tmrCOMMAND_START_DONT_TRACE \<lparr>xMessageValue = of_nat E, pxTimer = t\<rparr>"
  \<comment> \<open>The state in which the timer's function is called.\<close>
  obtain m2 q2 s2 where b: "(if ucStatus (timer ?m1 t) AND tmrSTATUS_IS_AUTORELOAD \<noteq> 0 then do {
         (xResult, m) \<leftarrow> prvInsertTimerInActiveList t (of_nat E + xTimerPeriodInTicks (timer ?m1 t)) (of_nat N) (of_nat E) ?m1;
         if xResult then timer_resend t (of_nat E) (m, (q, s), w) else Some (m, (q, s), w) }
       else Some (set_timer t (\<lambda>c. c\<lparr>ucStatus := ucStatus c AND NOT tmrSTATUS_IS_ACTIVE\<rparr>) ?m1, (q, s), w)) = Some (m2, (q2, s2), w)"
    "timers_inv A N m2" "command_queue n T D (q2, s2)"
    "expiries N m2 = (expiries N m)(t := if reloads m t \<and> N < E + period m t then Some (E + period m t) else None)"
    "\<And>u. xTimerIsTimerActive u m2 \<longleftrightarrow> xTimerIsTimerActive u m \<and> (u = t \<longrightarrow> reloads m t)"
    "queue_items q2 = (if reloads m t \<and> E + period m t \<le> N then add_message q msg else queue_items q)"
    "\<And>u. reloads m2 u = reloads m u \<and> period m2 u = period m u" "clock s2 = clock s"
  proof (cases "reloads m t")
    case False
    have run: "(if ucStatus (timer ?m1 t) AND tmrSTATUS_IS_AUTORELOAD \<noteq> 0 then do {
         (xResult, m) \<leftarrow> prvInsertTimerInActiveList t (of_nat E + xTimerPeriodInTicks (timer ?m1 t)) (of_nat N) (of_nat E) ?m1;
         if xResult then timer_resend t (of_nat E) (m, (q, s), w) else Some (m, (q, s), w) }
       else Some (set_timer t (\<lambda>c. c\<lparr>ucStatus := ucStatus c AND NOT tmrSTATUS_IS_ACTIVE\<rparr>) ?m1, (q, s), w)) =
      Some (set_active t False ?m1, (q, s), w)"
      using False by (simp add: set_active_def reloads_def)
    have act: "xTimerIsTimerActive u ?m1 = xTimerIsTimerActive u m" "reloads ?m1 u = reloads m u" "period ?m1 u = period m u" for u
      by (simp_all add: xTimerIsTimerActive_def reloads_def period_def)
    show ?thesis
      by (rule that [OF run]) (use False ls(2,3) q act in \<open>simp_all add: set_active_inv del: items_length\<close>)
  next
    case True
    obtain ls2 where l2: "prvInsertTimerInActiveList t (of_nat E + xTimerPeriodInTicks (timer ?m1 t)) (of_nat N) (of_nat E) ?m1 =
        Some (E + period m t \<le> N, ?m1\<lparr>timer_lists := ls2\<rparr>)" "timers_inv A N (?m1\<lparr>timer_lists := ls2\<rparr>)"
      "expiries N (?m1\<lparr>timer_lists := ls2\<rparr>) = (if E + period m t \<le> N then expiries N ?m1 else (expiries N ?m1)(t \<mapsto> E + period m t))"
      by (rule insert_exact [OF ls(2) t(4) out EN NE, unfolded P]) blast
    have x: "expiries N (?m1\<lparr>timer_lists := ls2\<rparr>) = (expiries N m)(t := if reloads m t \<and> N < E + period m t then Some (E + period m t) else None)"
      using l2(3) ls(3) True by (auto simp: not_le)
    have a: "xTimerIsTimerActive u (?m1\<lparr>timer_lists := ls2\<rparr>) \<longleftrightarrow> xTimerIsTimerActive u m \<and> (u = t \<longrightarrow> reloads m t)" for u
      using True by (simp add: xTimerIsTimerActive_def)
    have k: "reloads (?m1\<lparr>timer_lists := ls2\<rparr>) u = reloads m u \<and> period (?m1\<lparr>timer_lists := ls2\<rparr>) u = period m u" for u
      by (simp add: reloads_def period_def)
    have r: "ucStatus (timer ?m1 t) AND tmrSTATUS_IS_AUTORELOAD \<noteq> 0" using True by (simp add: reloads_def)
    have mq: "xTimerQueue (?m1\<lparr>timer_lists := ls2\<rparr>) \<noteq> 0" using timers_invD(10) [OF i] by simp
    obtain q2 s2 where r2: "timer_resend t (of_nat E) (?m1\<lparr>timer_lists := ls2\<rparr>, (q, s), w) = Some (?m1\<lparr>timer_lists := ls2\<rparr>, (q2, s2), w)"
      "command_queue n T D (q2, s2)" "queue_items q2 = add_message q msg"
      "clock s2 = clock s"
      by (rule resend_ok [OF q mq, of t "of_nat E" w, folded msg_def]) blast
    show ?thesis
    proof (cases "E + period m t \<le> N")
      case True
      show ?thesis
        by (rule that [of "?m1\<lparr>timer_lists := ls2\<rparr>" q2 s2, OF _ l2(2) r2(2) x a _ k r2(4)])
          (use l2(1) r r2(1,3) True \<open>reloads m t\<close> in \<open>simp_all del: items_length\<close>)
    next
      case False
      show ?thesis
        by (rule that [of "?m1\<lparr>timer_lists := ls2\<rparr>" q s, OF _ l2(2) q x a _ k])
          (use l2(1) r False in \<open>simp_all del: items_length\<close>)
    qed
  qed
  obtain m' x' w' where c: "timer_call e t (m2, (q2, s2), w) = Some (m', x', w')" "same_timers A m2 m'" "command_queue n T D x'"
    "fired w' = fired w @ [t]" "silent e \<Longrightarrow> queue_items (fst x') = queue_items q2 \<and> uxLength (fst x') = uxLength q2"
    by (rule call_ok [OF e t(4) b(3), of m2 w]) (simp del: items_length)
  obtain q' s' where x': "x' = (q', s')" by (cases x')
  have act: "xTimerIsTimerActive u m' \<longleftrightarrow> xTimerIsTimerActive u m \<and> (u = t \<longrightarrow> reloads m t)" if "u \<in> A" for u
    using same_active(1) [OF same_timersD(7) [OF c(2)] that] b(5) by blast
  have keep: "reloads m' u = reloads m u \<and> period m' u = period m u" if "u \<in> A" for u
    using same_active(2) [OF same_timersD(7) [OF c(2)] that] same_timersD(8) [OF c(2) that] b(7) by simp
  have tick: "timeless e \<Longrightarrow> clock s' = clock s" using call_timeless [OF _ c(1)] b(8) x' by simp
  have run: "prvProcessExpiredTimer e (of_nat E) (of_nat N) (m, (q, s), w) = Some (m', (q', s'), w')"
    unfolding prvProcessExpiredTimer_def prod.case t(1) Let_def by (simp only: ls(1) Option.bind.simps b(1) prod.case c(1) x')
  show ?thesis
    by (rule that [OF run [folded t(6) [folded E_def]] _ c(3) [unfolded x'] c(4) t(3) [folded E_def] EN t(7) [folded E_def] _ act _ keep tick])
      (use b(2,4,6) c(5) same_timers_inv [OF c(2)] in \<open>simp_all add: x' msg_def del: items_length\<close>)
qed

subsection \<open>Waiting for a command\<close>

lemma wait_message:
  assumes i: "queue_inv T D (q, s)" and u: "uxSchedulerSuspended s \<noteq> 0"
    and c: "pxCurrentTCB s = Some c" "is_ready s c" "pxContainer (lists s) (xEventListItem c) = None" and n: "n \<noteq> 0 \<or> b"
  obtains q' s' where "vQueueWaitForMessageRestricted (\<lambda>j. run_isr D (is j)) n b (q, s) = Some (q', s')" "queue_inv T D (q', s')"
    "same_shape q q'" "uxSchedulerSuspended s' = uxSchedulerSuspended s"
proof -
  have i0: "queue_inv T D (prvLockQueue q, s)" by (rule queue_invI [OF i _ _ queue_invD(1) [OF i]]) (simp_all add: queue_invD(2) [OF i])
  obtain q1 s1 where r1: "run_isr D (is 0) (prvLockQueue q, s) = Some (q1, s1)" "queue_inv T D (q1, s1)" "quiet s s1" "same_shape (prvLockQueue q) q1"
    by (rule run_isr_ok [OF i0 u]) blast
  note k1 = quietD [OF r1(3)]
  have sh1: "same_shape q q1" by (rule same_shape_trans [OF _ r1(4)]) simp
  note inv1 = queue_invD [OF r1(2)]
  have e1: "pxContainer (lists s1) (xEventListItem c) = None" using k1(6) [of c] c(3) by simp
  obtain s2 where r2: "(if uxMessagesWaiting q1 = 0 then vTaskPlaceOnEventListRestricted (xTasksWaitingToReceive q1) n b s1 else Some s1) = Some s2"
    "kernel_inv T D s2" "uxSchedulerSuspended s2 = uxSchedulerSuspended s1"
    using place_on_event_list_restricted [OF inv1(1) _ k1(5) [OF c(2)] e1 _ _ n, of "xTasksWaitingToReceive q1"] inv1(1,4) k1(1) c(1)
    by (cases "uxMessagesWaiting q1 = 0") (auto simp: wait_list_def)
  have i2: "queue_inv T D (q1, s2)" by (rule queue_invI [OF r1(2) same_shape_refl(1) inv1(2) r2(2)])
  have u2: "uxSchedulerSuspended s2 \<noteq> 0" using u k1(3) r2(3) by simp
  obtain q3 s3 where r3: "run_isr D (is 1) (q1, s2) = Some (q3, s3)" "queue_inv T D (q3, s3)" "quiet s2 s3" "same_shape q1 q3"
    by (rule run_isr_ok [OF i2 u2]) blast
  have u3: "uxSchedulerSuspended s3 \<noteq> 0" using u2 quietD(3) [OF r3(3)] by simp
  obtain q4 s4 where r4: "prvUnlockQueue (run_isr D (is 2)) (q3, s3) = Some (q4, s4)" "queue_inv T D (q4, s4)" "quiet s3 s4" "same_shape q3 q4"
    by (rule unlock_ok [OF r3(2) u3]) blast
  have "vQueueWaitForMessageRestricted (\<lambda>j. run_isr D (is j)) n b (q, s) = Some (q4, s4)"
    unfolding vQueueWaitForMessageRestricted_def by (simp add: r1(1) r2(1) r3(1) [unfolded One_nat_def] r4(1))
  moreover have "uxSchedulerSuspended s4 = uxSchedulerSuspended s"
    using quietD(3) [OF r4(3)] quietD(3) [OF r3(3)] r2(3) k1(3) by simp
  ultimately show ?thesis using that r4(2) same_shape_trans [OF sh1 same_shape_trans [OF r3(4) r4(4)]] by blast
qed

subsection \<open>A round of the timer task\<close>

text \<open>How long the task waits when no timer has expired at \<open>N\<close>: to the next expiry, or to the end of the period of the counter.\<close>

definition waits_for :: "nat \<Rightarrow> (nat \<Rightarrow> nat option) \<Rightarrow> nat \<Rightarrow> bool" where
  "waits_for N f d \<longleftrightarrow> 0 < d \<and> d < tick_range \<and> (\<forall>u E. f u = Some E \<longrightarrow> N + d \<le> E) \<and>
     ((\<exists>u. f u = Some (N + d)) \<or> (N + d) mod tick_range = 0)"

lemma next_expiry:
  assumes i: "timers_inv A N m" and none: "\<forall>u E. expiries N m u = Some E \<longrightarrow> N < E"
  defines "g \<equiv> prvGetNextExpireTime m"
  shows "snd g = (members (timer_lists m) (pxCurrentTimerList m) = [])" "\<not> snd g \<Longrightarrow> \<not> fst g \<le> of_nat N"
    "\<exists>d. fst g - of_nat N = of_nat d \<and> (expiries N m \<noteq> Map.empty \<longrightarrow> waits_for N (expiries N m) d)"
    "snd g \<and> listLIST_IS_EMPTY (timer_lists m) (pxOverflowTimerList m) \<longleftrightarrow> expiries N m = Map.empty"
proof -
  note d = timers_invD [OF i]
  let ?c = "pxCurrentTimerList m" and ?o = "pxOverflowTimerList m"
  show e: "snd g = (members (timer_lists m) ?c = [])"
    by (simp add: g_def prvGetNextExpireTime_def Let_def members_is_empty [OF d(1,2)])
  have ne: "expiries N m \<noteq> Map.empty \<longleftrightarrow> members (timer_lists m) ?c \<noteq> [] \<or> members (timer_lists m) ?o \<noteq> []"
  proof
    assume "expiries N m \<noteq> Map.empty"
    then obtain u E where "expiries N m u = Some E" by (meson option.exhaust ext)
    from expiry_list(4) [OF i this] show "members (timer_lists m) ?c \<noteq> [] \<or> members (timer_lists m) ?o \<noteq> []" by (auto split: if_splits)
  next
    assume a: "members (timer_lists m) ?c \<noteq> [] \<or> members (timer_lists m) ?o \<noteq> []"
    then obtain l x where l: "l \<in> {xActiveTimerList1, xActiveTimerList2}" "x \<in> set (members (timer_lists m) l)"
      using d(2,3) by (metis last_in_set)
    have c: "pxContainer (timer_lists m) x = Some l" using members_container [OF d(1) l(1)] l(2) by simp
    then obtain t where "x = xTimerListItem t" using list_ok_container [OF d(1) c] by (auto simp: xTimerListItem_def)
    then have "expiries N m t \<noteq> None" using c by (simp add: expiries_def)
    then show "expiries N m \<noteq> Map.empty" by auto
  qed
  show "snd g \<and> listLIST_IS_EMPTY (timer_lists m) ?o \<longleftrightarrow> expiries N m = Map.empty"
    using ne e members_is_empty [OF d(1,3)] by blast
  consider (head) "members (timer_lists m) ?c \<noteq> []" | (empty) "members (timer_lists m) ?c = []" by blast
  then have "(\<not> snd g \<longrightarrow> \<not> fst g \<le> of_nat N) \<and> (\<exists>d. fst g - of_nat N = of_nat d \<and> (expiries N m \<noteq> Map.empty \<longrightarrow> waits_for N (expiries N m) d))"
  proof cases
    case head
    obtain t where t: "expiries N m t = Some (expires_at N m t)" "expires_at N m t div tick_range = N div tick_range"
      "listGET_ITEM_VALUE_OF_HEAD_ENTRY (timer_lists m) ?c = of_nat (expires_at N m t)"
      "\<And>u F. expiries N m u = Some F \<Longrightarrow> expires_at N m t \<le> F"
      by (rule current_head [OF i head]) blast
    let ?E = "expires_at N m t"
    have g: "fst g = of_nat ?E" using head members_is_empty [OF d(1,2)] t(3) by (simp add: g_def prvGetNextExpireTime_def Let_def)
    have lt: "N < ?E" using none t(1) by blast
    have "\<not> fst g \<le> of_nat N" using lt t(2) period_order [of ?E N] by (auto simp: g word_le_nat_alt unat_tick)
    moreover have "fst g - of_nat N = of_nat (?E - N)" using lt by (simp add: g of_nat_diff)
    moreover have "waits_for N (expiries N m) (?E - N)"
      using lt t(1,4) expiry_list(3) [OF i t(1)] by (auto simp: waits_for_def)
    ultimately show ?thesis by blast
  next
    case empty
    define B where "B = Suc (N div tick_range) * tick_range"
    have lt: "N < B" "B \<le> N + tick_range"
      using div_mult_mod_eq [of N tick_range] mod_less_divisor [OF tick_range_pos, of N] unfolding B_def mult_Suc by linarith+
    have g: "fst g = 0" "snd g" using empty members_is_empty [OF d(1,2)] by (simp_all add: g_def prvGetNextExpireTime_def Let_def)
    have "(of_nat B :: u64) = 0" unfolding B_def by (rule of_tick_range)
    then have "fst g - of_nat N = of_nat (B - N)" using lt by (simp add: g of_nat_diff)
    moreover have "waits_for N (expiries N m) (B - N)" if some: "expiries N m \<noteq> Map.empty"
    proof -
      have ge: "B \<le> E" if "expiries N m u = Some E" for u E
        using current_empty [OF i empty that] by (metis B_def div_times_less_eq_dividend)
      obtain u E where "expiries N m u = Some E" using some by (meson option.exhaust ext)
      then have "B < N + tick_range" using ge [of u E] expiry_list(3) [OF i] by (meson order.strict_trans1)
      moreover have "(N + (B - N)) mod tick_range = 0" using lt by (simp add: B_def)
      ultimately show ?thesis using lt ge by (auto simp: waits_for_def)
    qed
    ultimately show ?thesis using g(2) by blast
  qed
  then show "\<not> snd g \<Longrightarrow> \<not> fst g \<le> of_nat N" "\<exists>d. fst g - of_nat N = of_nat d \<and> (expiries N m \<noteq> Map.empty \<longrightarrow> waits_for N (expiries N m) d)"
    by blast+
qed

text \<open>
  The three outcomes of a round at tick \<open>N\<close>: a period of the counter has ended, a timer has expired,
  or the task waits.
\<close>

definition round_ended :: "('w \<Rightarrow> nat list) \<Rightarrow> nat \<Rightarrow> nat \<Rightarrow> timers \<Rightarrow> 'w \<Rightarrow> timers \<Rightarrow> 'w \<Rightarrow> bool" where
  "round_ended fired L N m w m' w' \<longleftrightarrow> expiries N m' = sampled L N (expiries L m) \<and>
     (\<forall>u. count_list (fired w') u = count_list (fired w) u + fires m u)"

definition round_fired :: "('w \<Rightarrow> nat list) \<Rightarrow> nat \<Rightarrow> timers \<Rightarrow> (nat \<Rightarrow> nat option) \<Rightarrow> 'w \<Rightarrow> timers \<Rightarrow> 'w \<Rightarrow> bool" where
  "round_fired fired N m f w m' w' \<longleftrightarrow> (\<exists>t E. f t = Some E \<and> E \<le> N \<and> (\<forall>u F. f u = Some F \<longrightarrow> E \<le> F) \<and> fired w' = fired w @ [t] \<and>
     expiries N m' = f(t := if reloads m t \<and> N < E + period m t then Some (E + period m t) else None))"

definition round_waits :: "'w timer_env \<Rightarrow> nat \<Rightarrow> timers \<Rightarrow> (nat \<Rightarrow> nat option) \<Rightarrow> 'w timer_state \<Rightarrow> 'w timer_state option \<Rightarrow> bool" where
  "round_waits e N m f = (\<lambda>(_, (q, s), w) r.
     (\<exists>d. (f \<noteq> Map.empty \<longrightarrow> waits_for N f d) \<and>
        r = do {
          (q, s) \<leftarrow> vQueueWaitForMessageRestricted (te_isr e) (of_nat d) (f = Map.empty) (q, vTaskSuspendAll s);
          (y, s) \<leftarrow> xTaskResumeAll s;
          Some (m\<lparr>xLastTime := of_nat N\<rparr>, (q, if \<not> y then portYIELD s else s), w) }))"

lemma suspend_command_queue:
  assumes "command_queue 0 T D (q, s)"
  shows "command_queue 1 T D (q, vTaskSuspendAll s)"
proof -
  have i: "queue_inv T D (q, s)" using assms by (simp add: command_queue_def)
  have "queue_inv T D (q, vTaskSuspendAll s)"
    by (rule queue_invI [OF i same_shape_refl(1) queue_invD(2) [OF i] suspend_all_inv [OF queue_invD(1) [OF i]]])
  then show ?thesis using assms by (simp add: command_queue_def vTaskSuspendAll_def)
qed

lemma resume_command_queue:
  assumes "queue_inv T D (q, s)" "uxItemSize q = sizeof_DaemonTaskMessage" "uxSchedulerSuspended s = 1"
  obtains y s' where "xTaskResumeAll s = Some (y, s')" "command_queue 0 T D (q, s')"
proof -
  note i = queue_invD [OF assms(1)]
  obtain y s' where r: "xTaskResumeAll s = Some (y, s')" "kernel_inv T D s'" "uxSchedulerSuspended s' = uxSchedulerSuspended s - 1"
    using resume_all [OF i(1)] assms(3) by auto
  have "queue_inv T D (q, s')" by (rule queue_invI [OF assms(1) same_shape_refl(1) i(2) r(2)])
  then show ?thesis using that r assms(2,3) by (simp add: command_queue_def)
qed

lemma yield_queue_inv: "queue_inv T D (q, s) \<Longrightarrow> queue_inv T D (q, if b then portYIELD s else s)"
  using yield_inv by (simp add: queue_inv_def)

lemma timer_round:
  assumes e: "calls_ok e A T D fired" "te_isr e = (\<lambda>j. run_isr D (is j))"
    and i: "timers_inv A L m" and q: "command_queue 0 T D (q, s)"
    and c: "pxCurrentTCB s = Some c" "is_ready s c" "pxContainer (lists s) (xEventListItem c) = None"
    and N: "xTickCount s = of_nat N" "L \<le> N" "N < L + tick_range"
  defines "g \<equiv> prvGetNextExpireTime m"
  obtains m' q' s' w' where "prvProcessTimerOrBlockTask e (fst g) (snd g) (m, (q, s), w) = Some (m', (q', s'), w')"
    "timers_inv A N m'" "queue_inv T D (q', s')" "uxItemSize q' = sizeof_DaemonTaskMessage"
    "N div tick_range \<noteq> L div tick_range \<Longrightarrow> round_ended fired L N m w m' w'"
    "N div tick_range = L div tick_range \<Longrightarrow> \<exists>u E. expiries L m u = Some E \<and> E \<le> N \<Longrightarrow> round_fired fired N m (expiries L m) w m' w'"
    "N div tick_range = L div tick_range \<Longrightarrow> \<not> (\<exists>u E. expiries L m u = Some E \<and> E \<le> N) \<Longrightarrow>
       round_waits e N m (expiries L m) (m, (q, s), w) (Some (m', (q', s'), w'))"
proof -
  let ?s = "vTaskSuspendAll s"
  have f0: "xTickCount ?s = of_nat N" "lists ?s = lists s" "pxCurrentTCB ?s = Some c" "is_ready ?s c" "uxSchedulerSuspended ?s = uxSchedulerSuspended s + 1"
    using N(1) c(1,2) by (simp_all add: vTaskSuspendAll_def is_ready_def)
  note q1 = suspend_command_queue [OF q]
  note sample = sample_time [OF e(1) i q1, unfolded snd_conv, OF f0(1) N(2,3)]
  show ?thesis
  proof (cases "N div tick_range = L div tick_range")
    case False
    obtain m1 x1 w1 where s0: "prvSampleTimeNow e (m, (q, ?s), w) = Some (of_nat N, N div tick_range \<noteq> L div tick_range, m1, x1, w1)"
      "timers_inv A N m1" "expiries N m1 = sampled L N (expiries L m)" "command_queue 1 T D x1"
      "N div tick_range \<noteq> L div tick_range \<Longrightarrow> \<forall>u. count_list (fired w1) u = count_list (fired w) u + fires m u"
      by (rule sample [of w]) blast
    obtain q1 s1 where x1: "x1 = (q1, s1)" by (cases x1)
    have s1: "prvSampleTimeNow e (m, (q, ?s), w) = Some (of_nat N, True, m1, (q1, s1), w1)" "timers_inv A N m1"
      "expiries N m1 = sampled L N (expiries L m)" "command_queue 1 T D (q1, s1)"
      "\<forall>u. count_list (fired w1) u = count_list (fired w) u + fires m u"
      using s0 False x1 by simp_all
    obtain y s2 where s2: "xTaskResumeAll s1 = Some (y, s2)" "command_queue 0 T D (q1, s2)"
      by (rule resume_command_queue [of T D q1 s1]) (use s1(4) in \<open>simp_all add: command_queue_def\<close>)
    have "prvProcessTimerOrBlockTask e (fst g) (snd g) (m, (q, s), w) = Some (m1, (q1, s2), w1)"
      unfolding prvProcessTimerOrBlockTask_def by (simp add: s1(1) s2(1))
    then show ?thesis
      using that [of m1 q1 s2 w1] s1(2,3,5) s2(2) False by (simp add: round_ended_def command_queue_def)
  next
    case True
    let ?m = "m\<lparr>xLastTime := of_nat N\<rparr>"
    have s1: "prvSampleTimeNow e (m, (q, ?s), w) = Some (of_nat N, False, ?m, (q, ?s), w)" "timers_inv A N ?m"
      by (rule sample [of w], use True in simp)+
    have x1: "expiries N ?m = expiries L m" by (rule later_inv(2) [OF i N(2) True])
    have g: "prvGetNextExpireTime ?m = g" by (simp add: g_def prvGetNextExpireTime_def Let_def)
    note d1 = timers_invD [OF s1(2)]
    show ?thesis
    proof (cases "\<exists>u E. expiries L m u = Some E \<and> E \<le> N")
      case expired: True
      then obtain u E where u: "expiries N ?m u = Some E" "E \<le> N" unfolding x1 by blast
      have "E div tick_range = N div tick_range"
        using div_le_mono [OF u(2), of tick_range] expiry_list(2) [OF s1(2) u(1)] by (auto simp: expires_div split: if_splits)
      then have ne: "members (timer_lists ?m) (pxCurrentTimerList ?m) \<noteq> []" using expiry_list(4) [OF s1(2) u(1)] by auto
      obtain t where t: "expires_at N ?m t div tick_range = N div tick_range"
        "listGET_ITEM_VALUE_OF_HEAD_ENTRY (timer_lists ?m) (pxCurrentTimerList ?m) = of_nat (expires_at N ?m t)"
        "\<And>v F. expiries N ?m v = Some F \<Longrightarrow> expires_at N ?m t \<le> F"
        by (rule current_head [OF s1(2) ne]) blast
      have "expires_at N ?m t \<le> N" using t(3) [OF u(1)] u(2) by simp
      then have h: "listGET_ITEM_VALUE_OF_HEAD_ENTRY (timer_lists ?m) (pxCurrentTimerList ?m) \<le> of_nat N"
        using t(1) period_order [of "expires_at N ?m t" N] unfolding t(2) by (simp add: word_le_nat_alt unat_tick)
      have g2: "fst g = listGET_ITEM_VALUE_OF_HEAD_ENTRY (timer_lists ?m) (pxCurrentTimerList ?m)" "\<not> snd g"
        using ne members_is_empty [OF d1(1,2)] by (simp_all add: g_def prvGetNextExpireTime_def Let_def)
      obtain y s2 where s2: "xTaskResumeAll ?s = Some (y, s2)" "command_queue 0 T D (q, s2)"
        by (rule resume_command_queue [of T D q ?s]) (use q1 in \<open>simp_all add: command_queue_def\<close>)
      obtain t E m' q' s' w' where r: "prvProcessExpiredTimer e (fst g) (of_nat N) (?m, (q, s2), w) = Some (m', (q', s'), w')"
        "timers_inv A N m'" "command_queue 0 T D (q', s')" "fired w' = fired w @ [t]" "expiries N ?m t = Some E" "E \<le> N"
        "\<And>u F. expiries N ?m u = Some F \<Longrightarrow> E \<le> F"
        "expiries N m' = (expiries N ?m)(t := if reloads ?m t \<and> N < E + period ?m t then Some (E + period ?m t) else None)"
        by (rule process_expired [OF e(1) s1(2) s2(2) ne h, of w, folded g2(1)]) blast
      have "prvProcessTimerOrBlockTask e (fst g) (snd g) (m, (q, s), w) = Some (m', (q', s'), w')"
      proof -
        have "fst g \<le> of_nat N" using h by (simp only: g2(1))
        then show ?thesis unfolding prvProcessTimerOrBlockTask_def by (simp add: g2(2) s1(1) s2(1) r(1))
      qed
      moreover have "round_fired fired N m (expiries L m) w m' w'"
        using r(4-8) unfolding round_fired_def x1 by (auto simp: reloads_def period_def)
      ultimately show ?thesis
        using that [of m' q' s' w'] r(2,3) True expired by (simp add: command_queue_def)
    next
      case none: False
      then have none': "\<forall>u E. expiries N ?m u = Some E \<longrightarrow> N < E" unfolding x1 by (meson not_le)
      note nx = next_expiry [OF s1(2) none', unfolded g x1]
      obtain d where d: "fst g - of_nat N = of_nat d" "expiries L m \<noteq> Map.empty \<longrightarrow> waits_for N (expiries L m) d" using nx(3) by blast
      have indef: "(if snd g then listLIST_IS_EMPTY (timer_lists ?m) (pxOverflowTimerList ?m) else snd g) = (expiries L m = Map.empty)"
        using nx(4) by auto
      have n: "(of_nat d :: u64) \<noteq> 0 \<or> expiries L m = Map.empty"
      proof (cases "expiries L m = Map.empty")
        case False
        then have "0 < d" "d < tick_range" using d(2) by (simp_all add: waits_for_def)
        then have "unat (of_nat d :: u64) \<noteq> 0" by (simp add: unat_tick)
        then show ?thesis by auto
      qed simp
      have qi: "queue_inv T D (q, ?s)" "uxSchedulerSuspended ?s = 1" "uxItemSize q = sizeof_DaemonTaskMessage" using q1 by (simp_all add: command_queue_def)
      have u: "uxSchedulerSuspended ?s \<noteq> 0" using qi(2) by simp
      obtain q2 s2 where w: "vQueueWaitForMessageRestricted (\<lambda>j. run_isr D (is j)) (of_nat d) (expiries L m = Map.empty) (q, ?s) = Some (q2, s2)"
        "queue_inv T D (q2, s2)" "same_shape q q2" "uxSchedulerSuspended s2 = uxSchedulerSuspended ?s"
        by (rule wait_message [OF qi(1) u f0(3,4) _ n]) (use c(3) f0(2) in auto)
      have z: "uxItemSize q2 = sizeof_DaemonTaskMessage" using w(3) qi(3) by (simp add: same_shape_def)
      obtain y s3 where s3: "xTaskResumeAll s2 = Some (y, s3)" "command_queue 0 T D (q2, s3)"
        by (rule resume_command_queue [OF w(2) z]) (use w(4) qi(2) in auto)
      have run: "prvProcessTimerOrBlockTask e (fst g) (snd g) (m, (q, s), w) = do {
          (q, s) \<leftarrow> vQueueWaitForMessageRestricted (te_isr e) (of_nat d) (expiries L m = Map.empty) (q, vTaskSuspendAll s);
          (y, s) \<leftarrow> xTaskResumeAll s;
          Some (?m, (q, if \<not> y then portYIELD s else s), w) }"
      proof -
        have "(\<not> snd g \<and> fst g \<le> of_nat N) = False" using nx(2) by blast
        then show ?thesis
          unfolding prvProcessTimerOrBlockTask_def
          by (simp only: prod.case s1(1) Option.bind.simps not_False_eq_True if_True if_False Let_def indef d(1))
      qed
      have st: "(do {
          (q, s) \<leftarrow> vQueueWaitForMessageRestricted (te_isr e) (of_nat d) (expiries L m = Map.empty) (q, vTaskSuspendAll s);
          (y, s) \<leftarrow> xTaskResumeAll s;
          Some (?m, (q, if \<not> y then portYIELD s else s), w) }) = Some (?m, (q2, if \<not> y then portYIELD s3 else s3), w)"
        by (simp add: e(2) w(1) s3(1))
      have waits: "round_waits e N m (expiries L m) (m, (q, s), w) (Some (?m, (q2, if \<not> y then portYIELD s3 else s3), w))"
        unfolding round_waits_def prod.case by (rule exI [of _ d], rule conjI [OF d(2) st [symmetric]])
      have "queue_inv T D (q2, if \<not> y then portYIELD s3 else s3)"
        by (rule yield_queue_inv) (use s3(2) in \<open>simp add: command_queue_def\<close>)
      from that [OF trans [OF run st] s1(2) this z] True none waits show ?thesis by blast
    qed
  qed
qed

subsection \<open>Commands\<close>

text \<open>What runs before a command is looked at: it takes the time from tick \<open>M\<close> to tick \<open>N\<close>.\<close>

definition runs_until :: "'w timer_env \<Rightarrow> nat set \<Rightarrow> nat set \<Rightarrow> nat set \<Rightarrow> ('w \<Rightarrow> nat list) \<Rightarrow> nat \<Rightarrow> nat \<Rightarrow> bool" where
  "runs_until e A T D fired M N \<longleftrightarrow> (\<forall>m x w n. command_queue n T D x \<longrightarrow> xTickCount (snd x) = of_nat M \<longrightarrow>
     (\<exists>m' x' w'. te_run e (m, x, w) = Some (m', x', w') \<and> same_timers A m m' \<and> command_queue n T D x' \<and>
       fired w' = fired w \<and> xTickCount (snd x') = of_nat N))"

definition is_stop :: "u64 \<Rightarrow> bool" where
  "is_stop cmd \<longleftrightarrow> cmd = tmrCOMMAND_STOP \<or> cmd = tmrCOMMAND_STOP_FROM_ISR"

definition is_change :: "u64 \<Rightarrow> bool" where
  "is_change cmd \<longleftrightarrow> cmd = tmrCOMMAND_CHANGE_PERIOD \<or> cmd = tmrCOMMAND_CHANGE_PERIOD_FROM_ISR"

lemma commands_differ:
  "is_start cmd \<Longrightarrow> \<not> is_stop cmd \<and> \<not> is_change cmd \<and> cmd \<noteq> tmrCOMMAND_DELETE"
  "is_stop cmd \<Longrightarrow> \<not> is_change cmd \<and> cmd \<noteq> tmrCOMMAND_DELETE" "is_change cmd \<Longrightarrow> cmd \<noteq> tmrCOMMAND_DELETE"
  by (auto simp: is_start_def is_stop_def is_change_def timer_constants)

text \<open>Starting at tick \<open>C\<close>, seen at tick \<open>N\<close>.\<close>

lemma start_exact:
  assumes e: "calls_ok e A T D fired" and i: "timers_inv A N m" and q: "command_queue n T D (q, s)" and t: "t \<in> A"
    and out: "pxContainer (timer_lists m) (xTimerListItem t) = None" and C: "C \<le> N" "N < C + tick_range"
  defines "E \<equiv> C + period m t"
  obtains m' q' s' w' where "command_start e t (of_nat C) (of_nat N) (m, (q, s), w) = Some (m', (q', s'), w')"
    "timers_inv A N m'" "command_queue n T D (q', s')" "xTimerIsTimerActive t m'"
    "\<And>u. u \<in> A \<Longrightarrow> u \<noteq> t \<Longrightarrow> xTimerIsTimerActive u m' = xTimerIsTimerActive u m"
    "\<And>u. u \<in> A \<Longrightarrow> reloads m' u = reloads m u \<and> period m' u = period m u"
    "expiries N m' = (expiries N m)(t := if N < E then Some E else None)"
    "fired w' = fired w @ (if N < E then [] else [t])"
    "silent e \<or> N < E \<Longrightarrow> queue_items q' = (if E \<le> N \<and> reloads m t
       then add_message q (timer_message tmrCOMMAND_START_DONT_TRACE \<lparr>xMessageValue = of_nat E, pxTimer = t\<rparr>) else queue_items q)"
    "silent e \<Longrightarrow> uxLength q' = uxLength q" "timeless e \<Longrightarrow> clock s' = clock s"
proof -
  let ?m1 = "set_active t True m"
  note i1 = i [folded set_active_inv(1) [of A N t True m]]
  have out1: "pxContainer (timer_lists ?m1) (xTimerListItem t) = None" using out by simp
  have x0: "(expiries N m)(t := None) = expiries N m" using out by (auto simp: expiries_def fun_eq_iff)
  obtain ls where ls: "prvInsertTimerInActiveList t (of_nat C + xTimerPeriodInTicks (timer ?m1 t)) (of_nat N) (of_nat C) ?m1 =
      Some (E \<le> N, ?m1\<lparr>timer_lists := ls\<rparr>)" "timers_inv A N (?m1\<lparr>timer_lists := ls\<rparr>)"
    "expiries N (?m1\<lparr>timer_lists := ls\<rparr>) = (if E \<le> N then expiries N ?m1 else (expiries N ?m1)(t \<mapsto> E))"
    by (rule insert_exact [OF i1 t out1 C, unfolded set_active_fields(3), folded E_def]) blast
  let ?m2 = "?m1\<lparr>timer_lists := ls\<rparr>"
  have act: "xTimerIsTimerActive u ?m2 \<longleftrightarrow> (if u = t then True else xTimerIsTimerActive u m)" "reloads ?m2 u = reloads m u"
    "period ?m2 u = period m u" for u
    using set_active_fields(6) [of u t True m] set_active_fields(4) [of t True m u] set_active_fields(3) [of t True m u]
    by (simp_all add: xTimerIsTimerActive_def reloads_def period_def)
  have x2: "expiries N ?m2 = (expiries N m)(t := if N < E then Some E else None)"
    using ls(3) x0 by (auto simp: set_active_inv(2))
  have start: "command_start e t (of_nat C) (of_nat N) (m, (q, s), w) = (if E \<le> N then do {
      (m, x, w) \<leftarrow> timer_call e t (?m2, (q, s), w);
      if ucStatus (timer m t) AND tmrSTATUS_IS_AUTORELOAD \<noteq> 0 then timer_resend t (of_nat C + xTimerPeriodInTicks (timer m t)) (m, x, w)
      else Some (m, x, w) } else Some (?m2, (q, s), w))"
    unfolding command_start_def prod.case Let_def using ls(1) by (simp add: set_active_def)
  show ?thesis
  proof (cases "E \<le> N")
    case False
    show ?thesis
      by (rule that [of ?m2 "(q)" s w]) (use start False ls(2) q act x2 in \<open>simp_all del: items_length\<close>)
  next
    case True
    obtain m3 q3 s3 w3 where c: "timer_call e t (?m2, (q, s), w) = Some (m3, (q3, s3), w3)" "same_timers A ?m2 m3" "command_queue n T D (q3, s3)"
      "fired w3 = fired w @ [t]" "silent e \<Longrightarrow> queue_items q3 = queue_items q \<and> uxLength q3 = uxLength q"
    proof (rule call_ok [OF e t q, of ?m2 w])
      fix m' x' w' assume a: "timer_call e t (?m2, (q, s), w) = Some (m', x', w')" "same_timers A ?m2 m'" "command_queue n T D x'"
        "fired w' = fired w @ [t]" "silent e \<Longrightarrow> queue_items (fst x') = queue_items (fst (q, s)) \<and> uxLength (fst x') = uxLength (fst (q, s))"
      obtain q3 s3 where x: "x' = (q3, s3)" by (cases x')
      show thesis by (rule that [of m' q3 s3 w']) (use a in \<open>simp_all add: x del: items_length\<close>)
    qed
    have tick: "timeless e \<Longrightarrow> clock s3 = clock s" using call_timeless [OF _ c(1)] by simp
    have st: "u \<in> A \<Longrightarrow> ucStatus (timer m3 u) = ucStatus (timer ?m2 u)" for u using same_timersD(7) [OF c(2)] .
    have k: "xTimerIsTimerActive u m3 \<longleftrightarrow> (if u = t then True else xTimerIsTimerActive u m)" "reloads m3 u = reloads m u" "period m3 u = period m u"
      if "u \<in> A" for u
      using same_active [OF st [of u] that] act [of u] same_timersD(8) [OF c(2) that] by simp_all
    note i3 = same_timers_inv [OF c(2), of N]
    have p3: "of_nat C + xTimerPeriodInTicks (timer m3 t) = of_nat E" using k(3) [OF t] by (simp add: E_def flip: of_period)
    show ?thesis
    proof (cases "reloads m t")
      case False
      have "command_start e t (of_nat C) (of_nat N) (m, (q, s), w) = Some (m3, (q3, s3), w3)"
        using start True c(1) k(2) [OF t] False by (simp add: reloads_def)
      then show ?thesis
        by (rule that) (use True False i3 ls(2) x2 c(3-5) k t tick in \<open>simp_all del: items_length\<close>)
    next
      case rl: True
      have mq: "xTimerQueue m3 \<noteq> 0" using timers_invD(10) [of A N m3] i3 ls(2) by simp
      obtain q4 s4 where r: "timer_resend t (of_nat E) (m3, (q3, s3), w3) = Some (m3, (q4, s4), w3)" "command_queue n T D (q4, s4)"
        "queue_items q4 = add_message q3 (timer_message tmrCOMMAND_START_DONT_TRACE \<lparr>xMessageValue = of_nat E, pxTimer = t\<rparr>)"
        "uxLength q4 = uxLength q3" "clock s4 = clock s3"
        by (rule resend_ok [OF c(3) mq]) blast
      have "command_start e t (of_nat C) (of_nat N) (m, (q, s), w) = Some (m3, (q4, s4), w3)"
        using start True c(1) k(2) [OF t] rl r(1) p3 by (simp add: reloads_def)
      then show ?thesis
        by (rule that) (use True rl i3 ls(2) x2 c(4,5) r(2-5) k t tick in \<open>simp_all add: add_message_def del: items_length\<close>)
    qed
  qed
qed

end
