(* ===== verification/Timer_Commands.thy ===== *)
theory Timer_Commands
  imports Timer_Task
begin

text \<open>
  Commands of the timer task: each of them does to the expiry times what it should, and a timer that
  was started late catches up, one call for each expiry.
\<close>

definition commanded :: "u64 \<Rightarrow> nat \<Rightarrow> u64 \<Rightarrow> nat \<Rightarrow> nat \<Rightarrow> nat \<Rightarrow> (nat \<Rightarrow> nat option) \<Rightarrow> nat \<Rightarrow> nat option" where
  "commanded cmd t v C P N f = f(t :=
     if is_start cmd then (if N < C + P then Some (C + P) else None)
     else if is_change cmd then Some (N + unat v)
     else None)"

definition status_after :: "u64 \<Rightarrow> bool \<Rightarrow> bool \<Rightarrow> bool" where
  "status_after cmd static a = (if is_start cmd \<or> is_change cmd then True
     else if is_stop cmd \<or> cmd = tmrCOMMAND_DELETE \<and> static then False else a)"

definition is_static :: "timers \<Rightarrow> nat \<Rightarrow> bool" where
  "is_static m t \<longleftrightarrow> ucStatus (timer m t) AND tmrSTATUS_IS_STATICALLY_ALLOCATED \<noteq> 0"

text \<open>Taking the timer out of its list, if it is in one.\<close>

lemma command_unlink:
  assumes i: "timers_inv A L m"
  obtains ls where "(if pxContainer (timer_lists m) (xTimerListItem t) \<noteq> None then timer_unlink t m else Some m) = Some (m\<lparr>timer_lists := ls\<rparr>)"
    "timers_inv A L (m\<lparr>timer_lists := ls\<rparr>)" "expiries L (m\<lparr>timer_lists := ls\<rparr>) = (expiries L m)(t := None)"
    "pxContainer ls (xTimerListItem t) = None"
proof (cases "pxContainer (timer_lists m) (xTimerListItem t)")
  case None
  then have "(expiries L m)(t := None) = expiries L m" by (auto simp: expiries_def fun_eq_iff)
  then show ?thesis using that [of "timer_lists m"] None i by simp
next
  case (Some l)
  obtain ls where "timer_unlink t m = Some (m\<lparr>timer_lists := ls\<rparr>)" "timers_inv A L (m\<lparr>timer_lists := ls\<rparr>)"
    "expiries L (m\<lparr>timer_lists := ls\<rparr>) = (expiries L m)(t := None)"
    "pxContainer ls = (pxContainer (timer_lists m))(xTimerListItem t := None)"
    by (rule unlink_inv [OF i Some]) blast
  then show ?thesis using that [of ls] Some by simp
qed

lemma sampled_unlinked: "sampled L N (f(t := None)) = (sampled L N f)(t := None)"
  by (auto simp: sampled_def)

lemma none_container: "expiries N m t = None \<longleftrightarrow> pxContainer (timer_lists m) (xTimerListItem t) = None"
  by (simp add: expiries_def)

text \<open>A new period starts at the tick at which the command is seen.\<close>

lemma change_exact:
  assumes i: "timers_inv A N m" and t: "t \<in> A" and out: "pxContainer (timer_lists m) (xTimerListItem t) = None" and v: "v \<noteq> 0"
  obtains m' where "command_change_period t v (of_nat N) m = Some m'" "timers_inv A N m'"
    "expiries N m' = (expiries N m)(t \<mapsto> N + unat v)" "period m' t = unat v" "xTimerIsTimerActive t m'"
    "\<And>u. u \<noteq> t \<Longrightarrow> period m' u = period m u \<and> xTimerIsTimerActive u m' = xTimerIsTimerActive u m"
    "\<And>u. reloads m' u = reloads m u"
proof -
  define m1 where "m1 = set_timer t (\<lambda>c. c\<lparr>xTimerPeriodInTicks := v\<rparr>) (set_active t True m)"
  have p1: "period m1 u = (if u = t then unat v else period m u)" for u by (simp add: m1_def period_def set_active_def)
  have f1: "timer_lists m1 = timer_lists m" by (simp add: m1_def)
  have x1: "expires_at N m1 u = expires_at N m u" for u by (simp add: expires_at_def f1) (simp add: m1_def set_active_def)
  have i1: "timers_inv A N m1"
    using i v unfolding timers_inv_def f1 x1 by (auto simp: p1 unat_gt_0) (simp_all add: m1_def set_active_def)
  have e1: "expiries N m1 = expiries N m" by (simp add: fun_eq_iff expiries_def f1 x1)
  have out1: "pxContainer (timer_lists m1) (xTimerListItem t) = None" using out by (simp add: f1)
  have lt: "unat v < tick_range" "0 < unat v" using v by (simp_all add: unat_gt_0)
  obtain ls where ls: "prvInsertTimerInActiveList t (of_nat N + xTimerPeriodInTicks (timer m1 t)) (of_nat N) (of_nat N) m1 =
      Some (N + unat v \<le> N, m1\<lparr>timer_lists := ls\<rparr>)" "timers_inv A N (m1\<lparr>timer_lists := ls\<rparr>)"
    "expiries N (m1\<lparr>timer_lists := ls\<rparr>) = (if N + unat v \<le> N then expiries N m1 else (expiries N m1)(t \<mapsto> N + unat v))"
    by (rule insert_exact [OF i1 t out1, of N]) (use p1 [of t] in auto)
  have run: "command_change_period t v (of_nat N) m = Some (m1\<lparr>timer_lists := ls\<rparr>)"
    unfolding command_change_period_def Let_def using ls(1) by (simp add: m1_def set_active_def)
  have a: "xTimerIsTimerActive u m1 = (if u = t then True else xTimerIsTimerActive u m)" "reloads m1 u = reloads m u" for u
  proof -
    have st: "ucStatus (timer m1 u) = ucStatus (timer (set_active t True m) u)" by (simp add: m1_def)
    have "xTimerIsTimerActive u m1 = xTimerIsTimerActive u (set_active t True m)" "reloads m1 u = reloads (set_active t True m) u"
      by (simp_all only: xTimerIsTimerActive_def reloads_def st)
    then show "xTimerIsTimerActive u m1 = (if u = t then True else xTimerIsTimerActive u m)" "reloads m1 u = reloads m u" by simp_all
  qed
  have a2: "xTimerIsTimerActive u (m1\<lparr>timer_lists := ls\<rparr>) = xTimerIsTimerActive u m1" "reloads (m1\<lparr>timer_lists := ls\<rparr>) u = reloads m1 u"
    "period (m1\<lparr>timer_lists := ls\<rparr>) u = period m1 u" for u
    by (simp_all add: xTimerIsTimerActive_def reloads_def period_def)
  show ?thesis
    by (rule that [OF run ls(2)]) (use ls(3) lt e1 in \<open>simp_all add: a2 p1 a\<close>)
qed

lemma stop_inv:
  "timers_inv A N (command_stop t m) = timers_inv A N m" "expiries N (command_stop t m) = expiries N m"
  "xTimerIsTimerActive u (command_stop t m) = (if u = t then False else xTimerIsTimerActive u m)"
  "reloads (command_stop t m) u = reloads m u" "period (command_stop t m) u = period m u"
proof -
  have s: "command_stop t m = set_active t False m" by (simp add: command_stop_def set_active_def)
  show "timers_inv A N (command_stop t m) = timers_inv A N m" "expiries N (command_stop t m) = expiries N m"
    "xTimerIsTimerActive u (command_stop t m) = (if u = t then False else xTimerIsTimerActive u m)"
    "reloads (command_stop t m) u = reloads m u" "period (command_stop t m) u = period m u"
    by (simp_all add: s set_active_inv)
qed

lemma freed_queue:
  assumes "command_queue n T D (q, s)"
  shows "command_queue n T D (q, s\<lparr>pvFreed := fs\<rparr>)"
proof -
  have i: "queue_inv T D (q, s)" using assms by (simp add: command_queue_def)
  have "kernel_inv T D (s\<lparr>pvFreed := fs\<rparr>)"
    using queue_invD(1) [OF i] unfolding kinv_empty [symmetric] by (rule kinv_cong) simp_all
  then have "queue_inv T D (q, s\<lparr>pvFreed := fs\<rparr>)" by (rule queue_invI [OF i same_shape_refl(1) queue_invD(2) [OF i]])
  then show ?thesis using assms by (simp add: command_queue_def)
qed

lemma delete_inv:
  assumes i: "timers_inv A N m" and q: "command_queue n T D (q, s)"
  obtains m' q' s' where "command_delete t (m, q, s) = (m', q', s')" "timers_inv A N m'" "expiries N m' = expiries N m"
    "command_queue n T D (q', s')" "\<And>u. xTimerIsTimerActive u m' = (if u = t \<and> is_static m t then False else xTimerIsTimerActive u m)"
    "\<And>u. reloads m' u = reloads m u \<and> period m' u = period m u"
proof (cases "is_static m t")
  case True
  then have "command_delete t (m, q, s) = (command_stop t m, q, s)" by (simp add: command_delete_def is_static_def command_stop_def)
  then show ?thesis by (rule that) (use True i q in \<open>simp_all add: stop_inv\<close>)
next
  case False
  then have "command_delete t (m, q, s) = (m, q, s\<lparr>pvFreed := t # pvFreed s\<rparr>)" by (simp add: command_delete_def is_static_def)
  then show ?thesis by (rule that) (use False i freed_queue [OF q] in simp_all)
qed

text \<open>The timers when a command is looked at.\<close>

lemma command_seen:
  assumes e: "calls_ok e A T D fired" "runs_until e A T D fired M N" and i: "timers_inv A L m" and q: "command_queue n T D x" "xTickCount (snd x) = of_nat M"
    and N: "L \<le> N" "N < L + tick_range"
  obtains m1 y m' q' s' w' where "(if pxContainer (timer_lists m) (xTimerListItem t) \<noteq> None then timer_unlink t m else Some m) = Some m1"
    "te_run e (m1, x, w) = Some y" "prvSampleTimeNow e y = Some (of_nat N, N div tick_range \<noteq> L div tick_range, m', (q', s'), w')"
    "timers_inv A N m'" "command_queue n T D (q', s')" "expiries N m' = (sampled L N (expiries L m))(t := None)"
    "pxContainer (timer_lists m') (xTimerListItem t) = None"
    "\<And>u. u \<in> A \<Longrightarrow> ucStatus (timer m' u) = ucStatus (timer m u) \<and> period m' u = period m u"
    "\<And>u. count_list (fired w') u = count_list (fired w) u + (if N div tick_range \<noteq> L div tick_range \<and> u \<noteq> t then fires m u else 0)"
proof -
  obtain ls where ls: "(if pxContainer (timer_lists m) (xTimerListItem t) \<noteq> None then timer_unlink t m else Some m) = Some (m\<lparr>timer_lists := ls\<rparr>)"
    "timers_inv A L (m\<lparr>timer_lists := ls\<rparr>)" "expiries L (m\<lparr>timer_lists := ls\<rparr>) = (expiries L m)(t := None)"
    "pxContainer ls (xTimerListItem t) = None"
    by (rule command_unlink [OF i]) blast
  let ?m1 = "m\<lparr>timer_lists := ls\<rparr>"
  obtain m2 x2 w2 where r: "te_run e (?m1, x, w) = Some (m2, x2, w2)" "same_timers A ?m1 m2" "command_queue n T D x2" "fired w2 = fired w"
    "xTickCount (snd x2) = of_nat N"
    using e(2) q unfolding runs_until_def by blast
  note st = same_timersD [OF r(2)] and i2 = same_timers_inv [OF r(2), of L]
  have inv2: "timers_inv A L m2" using i2 ls(2) by simp
  obtain m' x' w' where s: "prvSampleTimeNow e (m2, x2, w2) = Some (of_nat N, N div tick_range \<noteq> L div tick_range, m', x', w')"
    "timers_inv A N m'" "expiries N m' = sampled L N (expiries L m2)" "same_status A m2 m'" "command_queue n T D x'"
    "N div tick_range = L div tick_range \<Longrightarrow> m' = m2\<lparr>xLastTime := of_nat N\<rparr> \<and> x' = x2 \<and> w' = w2"
    "N div tick_range \<noteq> L div tick_range \<Longrightarrow> \<forall>u. count_list (fired w') u = count_list (fired w2) u + fires m2 u"
    by (rule sample_time [OF e(1) inv2 r(3,5) N, of w2]) blast
  obtain q' s' where x': "x' = (q', s')" by (cases x')
  have x: "expiries N m' = (sampled L N (expiries L m))(t := None)" using s(3) i2 ls(3) by (simp add: sampled_unlinked)
  then have out: "pxContainer (timer_lists m') (xTimerListItem t) = None" using none_container [of N m' t] by simp
  have status: "ucStatus (timer m' u) = ucStatus (timer m u) \<and> period m' u = period m u" if "u \<in> A" for u
    using s(4) st(6,7) that by (simp add: same_status_def period_def)
  have f2: "fires m2 u = (if u = t then 0 else fires m u)" for u
  proof (cases "u = t")
    case True
    then show ?thesis by (simp add: fires_def st(1) ls(4))
  next
    case False
    have c: "expiries L m2 u = expiries L m u" using i2 ls(3) False by simp
    show ?thesis
    proof (cases "expiries L m u")
      case None
      then have "pxContainer (timer_lists m) (xTimerListItem u) = None" "pxContainer (timer_lists m2) (xTimerListItem u) = None"
        using c none_container [of L m u] none_container [of L m2 u] by simp_all
      then show ?thesis by (simp add: fires_def False)
    next
      case (Some E)
      note a = expiry_list(1,2) [OF i Some] and b = expiry_list(2) [OF inv2, of u E]
      have E: "expires_at L m2 u = expires_at L m u" using a(2) b c Some by simp
      have cont: "pxContainer (timer_lists m2) (xTimerListItem u) = Some (pxCurrentTimerList m2) \<longleftrightarrow>
          pxContainer (timer_lists m) (xTimerListItem u) = Some (pxCurrentTimerList m)"
        using expires_div [of L m2 u] expires_div [of L m u] unfolding E by (auto split: if_splits)
      have val: "xItemValue (timer_lists m2) (xTimerListItem u) = xItemValue (timer_lists m) (xTimerListItem u)"
        using expires_value [of L m2 u] expires_value [of L m u] unfolding E by simp
      have "reloads m2 u = reloads m u" "period m2 u = period m u" using st(6,7) [OF a(1)] by (simp_all add: reloads_def period_def)
      then show ?thesis using False by (simp add: fires_def cont val)
    qed
  qed
  have cnt: "count_list (fired w') u = count_list (fired w) u + (if N div tick_range \<noteq> L div tick_range \<and> u \<noteq> t then fires m u else 0)" for u
    using s(6,7) f2 [of u] r(4) by (cases "N div tick_range = L div tick_range") auto
  show ?thesis by (rule that [OF ls(1) r(1) s(1) [unfolded x'] s(2) s(5) [unfolded x'] x out status cnt])
qed

lemma command_exact:
  assumes e: "calls_ok e A T D fired" "runs_until e A T D fired M N" and i: "timers_inv A L m" and q: "command_queue n T D x" "xTickCount (snd x) = of_nat M"
    and N: "L \<le> N" "N < L + tick_range" and t: "t \<in> A"
    and hs: "is_start cmd \<Longrightarrow> v = of_nat C \<and> C \<le> N \<and> N < C + tick_range" and hc: "is_change cmd \<Longrightarrow> v \<noteq> 0"
  obtains m' x' w' where "timer_command e cmd \<lparr>xMessageValue = v, pxTimer = t\<rparr> (m, x, w) = Some (m', x', w')"
    "timers_inv A N m'" "command_queue n T D x'"
    "expiries N m' = commanded cmd t v C (period m t) N (sampled L N (expiries L m))"
    "\<And>u. u \<in> A \<Longrightarrow> xTimerIsTimerActive u m' =
       (if u = t then status_after cmd (is_static m t) (xTimerIsTimerActive t m) else xTimerIsTimerActive u m)"
    "\<And>u. u \<in> A \<Longrightarrow> period m' u = (if u = t \<and> is_change cmd then unat v else period m u) \<and> reloads m' u = reloads m u"
    "\<And>u. count_list (fired w') u = count_list (fired w) u + (if N div tick_range \<noteq> L div tick_range \<and> u \<noteq> t then fires m u else 0) +
       (if u = t \<and> is_start cmd \<and> C + period m t \<le> N then 1 else 0)"
proof -
  obtain m1 y m2 q2 s2 w2 where s: "(if pxContainer (timer_lists m) (xTimerListItem t) \<noteq> None then timer_unlink t m else Some m) = Some m1"
    "te_run e (m1, x, w) = Some y" "prvSampleTimeNow e y = Some (of_nat N, N div tick_range \<noteq> L div tick_range, m2, (q2, s2), w2)"
    "timers_inv A N m2" "command_queue n T D (q2, s2)" "expiries N m2 = (sampled L N (expiries L m))(t := None)"
    "pxContainer (timer_lists m2) (xTimerListItem t) = None"
    "\<And>u. u \<in> A \<Longrightarrow> ucStatus (timer m2 u) = ucStatus (timer m u) \<and> period m2 u = period m u"
    "\<And>u. count_list (fired w2) u = count_list (fired w) u + (if N div tick_range \<noteq> L div tick_range \<and> u \<noteq> t then fires m u else 0)"
    by (rule command_seen [OF e i q N, of t w]) blast
  have st: "xTimerIsTimerActive u m2 = xTimerIsTimerActive u m" "reloads m2 u = reloads m u" "is_static m2 u = is_static m u" "period m2 u = period m u"
    if "u \<in> A" for u
    using s(8) [OF that] by (simp_all add: xTimerIsTimerActive_def reloads_def is_static_def)
  have run: "timer_command e cmd \<lparr>xMessageValue = v, pxTimer = t\<rparr> (m, x, w) =
      (if is_start cmd then command_start e t v (of_nat N) (m2, (q2, s2), w2)
       else if is_stop cmd then Some (command_stop t m2, (q2, s2), w2)
       else if is_change cmd then do { m \<leftarrow> command_change_period t v (of_nat N) m2; Some (m, (q2, s2), w2) }
       else if cmd = tmrCOMMAND_DELETE then (let (m, x) = command_delete t (m2, q2, s2) in Some (m, x, w2))
       else Some (m2, (q2, s2), w2))"
    unfolding timer_command_def prod.case Let_def TimerParameter_t.simps is_stop_def [symmetric] is_change_def [symmetric]
    by (simp only: s(1-3) Option.bind.simps prod.case)
  consider (start) "is_start cmd" | (stop) "is_stop cmd" "\<not> is_start cmd" "\<not> is_change cmd" "cmd \<noteq> tmrCOMMAND_DELETE"
    | (change) "is_change cmd" "\<not> is_start cmd" "\<not> is_stop cmd" "cmd \<noteq> tmrCOMMAND_DELETE"
    | (delete) "cmd = tmrCOMMAND_DELETE" "\<not> is_start cmd" "\<not> is_stop cmd" "\<not> is_change cmd"
    | (other) "\<not> is_start cmd" "\<not> is_stop cmd" "\<not> is_change cmd" "cmd \<noteq> tmrCOMMAND_DELETE"
    using commands_differ by blast
  then show ?thesis
  proof cases
    case start: start
    note c = hs [OF start]
    obtain m' q' s' w' where r: "command_start e t (of_nat C) (of_nat N) (m2, (q2, s2), w2) = Some (m', (q', s'), w')"
      "timers_inv A N m'" "command_queue n T D (q', s')" "xTimerIsTimerActive t m'"
      "\<And>u. u \<in> A \<Longrightarrow> u \<noteq> t \<Longrightarrow> xTimerIsTimerActive u m' = xTimerIsTimerActive u m2"
      "\<And>u. u \<in> A \<Longrightarrow> reloads m' u = reloads m2 u \<and> period m' u = period m2 u"
      "expiries N m' = (expiries N m2)(t := if N < C + period m2 t then Some (C + period m2 t) else None)"
      "fired w' = fired w2 @ (if N < C + period m2 t then [] else [t])"
      by (rule start_exact [OF e(1) s(4,5) t s(7)]) (use c in auto)
    have "timer_command e cmd \<lparr>xMessageValue = v, pxTimer = t\<rparr> (m, x, w) = Some (m', (q', s'), w')"
      unfolding run using start c r(1) by simp
    then show ?thesis
      by (rule that) (use start r(2-8) s(6,9) st t commands_differ(1) [OF start] in \<open>auto simp: commanded_def status_after_def\<close>)
  next
    case stop
    have "timer_command e cmd \<lparr>xMessageValue = v, pxTimer = t\<rparr> (m, x, w) = Some (command_stop t m2, (q2, s2), w2)"
      unfolding run using stop by simp
    then show ?thesis
      by (rule that) (use stop s(4-6,9) st t in \<open>simp_all add: commanded_def status_after_def stop_inv\<close>)
  next
    case change: change
    obtain m' where r: "command_change_period t v (of_nat N) m2 = Some m'" "timers_inv A N m'"
      "expiries N m' = (expiries N m2)(t \<mapsto> N + unat v)" "period m' t = unat v" "xTimerIsTimerActive t m'"
      "\<And>u. u \<noteq> t \<Longrightarrow> period m' u = period m2 u \<and> xTimerIsTimerActive u m' = xTimerIsTimerActive u m2"
      "\<And>u. reloads m' u = reloads m2 u"
      by (rule change_exact [OF s(4) t s(7) hc [OF change(1)]]) blast
    have "timer_command e cmd \<lparr>xMessageValue = v, pxTimer = t\<rparr> (m, x, w) = Some (m', (q2, s2), w2)"
      unfolding run using change r(1) by simp
    then show ?thesis
      by (rule that) (use change r(2-7) s(5,6,9) st t in \<open>simp_all add: commanded_def status_after_def\<close>)
  next
    case delete
    obtain m' q' s' where r: "command_delete t (m2, q2, s2) = (m', q', s')" "timers_inv A N m'" "expiries N m' = expiries N m2"
      "command_queue n T D (q', s')" "\<And>u. xTimerIsTimerActive u m' = (if u = t \<and> is_static m2 t then False else xTimerIsTimerActive u m2)"
      "\<And>u. reloads m' u = reloads m2 u \<and> period m' u = period m2 u"
      by (rule delete_inv [OF s(4,5), of t]) blast
    have "timer_command e cmd \<lparr>xMessageValue = v, pxTimer = t\<rparr> (m, x, w) = Some (m', (q', s'), w2)"
      unfolding run using delete r(1) by simp
    then show ?thesis
      by (rule that) (use delete r(2-6) s(6,9) st t in \<open>simp_all add: commanded_def status_after_def\<close>)
  next
    case other
    have "timer_command e cmd \<lparr>xMessageValue = v, pxTimer = t\<rparr> (m, x, w) = Some (m2, (q2, s2), w2)"
      unfolding run using other by simp
    then show ?thesis
      by (rule that) (use other s(4-6,9) st t in \<open>simp_all add: commanded_def status_after_def\<close>)
  qed
qed

subsection \<open>Catching up\<close>

lemma receive_command:
  assumes c: "command_queue n T D (q, s)"
  shows "queue_items q = [] \<Longrightarrow> xQueueReceive [] tmrNO_DELAY (q, s) = Some (Some None, q, s)"
    "queue_items q = it # its \<Longrightarrow> \<exists>q' s'. xQueueReceive [] tmrNO_DELAY (q, s) = Some (Some (Some it), q', s') \<and>
       command_queue n T D (q', s') \<and> queue_items q' = its \<and> uxLength q' = uxLength q \<and> clock s' = clock s"
proof -
  have i: "queue_inv T D (q, s)" and z: "uxItemSize q = sizeof_DaemonTaskMessage" "uxSchedulerSuspended s = n"
    using c by (simp_all add: command_queue_def)
  obtain r q' s' where e: "receive_enter 0 None (q, s) = Some (r, q', s')" "queue_inv T D (q', s')" "wakes s s'" "same_shape q q'"
    "queue_items q \<noteq> [] \<Longrightarrow> r = Inl (Some (hd (queue_items q))) \<and> queue_items q' = tl (queue_items q)"
    "queue_items q = [] \<Longrightarrow> q' = q \<and> s' = s \<and> r = Inl None"
    using receive_enter_ok [OF i, of 0 None] by (metis (full_types))
  have run: "xQueueReceive [] tmrNO_DELAY (q, s) = (case r of Inl v \<Rightarrow> Some (Some v, q', s') | Inr _ \<Rightarrow> Some (None, q', s'))"
    unfolding xQueueReceive_def tmrNO_DELAY_def by (subst receive_loop.simps) (simp add: e(1) split: sum.split)
  show "queue_items q = [] \<Longrightarrow> xQueueReceive [] tmrNO_DELAY (q, s) = Some (Some None, q, s)" using run e(6) by simp
  show "queue_items q = it # its \<Longrightarrow> \<exists>q' s'. xQueueReceive [] tmrNO_DELAY (q, s) = Some (Some (Some it), q', s') \<and>
       command_queue n T D (q', s') \<and> queue_items q' = its \<and> uxLength q' = uxLength q \<and> clock s' = clock s"
    using run e(2-5) z wakesD(2) [OF e(3)] receive_enter_tick [OF e(1)]
    by (intro exI [of _ q'] exI [of _ s']) (simp add: command_queue_def same_shape_def)
qed

lemma start_is_command: "is_start cmd \<Longrightarrow> \<not> cmd <s 0 \<and> 0 \<le>s cmd"
  by (auto simp: is_start_def timer_constants word_sless_alt word_sle_eq)

text \<open>A start command, when nothing runs in between.\<close>

lemma start_alone:
  assumes r: "te_run e = Some" and i: "timers_inv A N m" and tick: "xTickCount (snd x) = of_nat N" and st: "is_start cmd"
  obtains ls where "timer_command e cmd \<lparr>xMessageValue = v, pxTimer = t\<rparr> (m, x, w) =
      command_start e t v (of_nat N) (m\<lparr>timer_lists := ls\<rparr>, x, w)"
    "timers_inv A N (m\<lparr>timer_lists := ls\<rparr>)" "expiries N (m\<lparr>timer_lists := ls\<rparr>) = (expiries N m)(t := None)"
    "pxContainer ls (xTimerListItem t) = None"
proof -
  obtain ls where ls: "(if pxContainer (timer_lists m) (xTimerListItem t) \<noteq> None then timer_unlink t m else Some m) = Some (m\<lparr>timer_lists := ls\<rparr>)"
    "timers_inv A N (m\<lparr>timer_lists := ls\<rparr>)" "expiries N (m\<lparr>timer_lists := ls\<rparr>) = (expiries N m)(t := None)"
    "pxContainer ls (xTimerListItem t) = None"
    by (rule command_unlink [OF i]) blast
  have last: "xLastTime (m\<lparr>timer_lists := ls\<rparr>) = of_nat N" by (rule timers_invD(11) [OF ls(2)])
  then have "m\<lparr>timer_lists := ls, xLastTime := of_nat N\<rparr> = m\<lparr>timer_lists := ls\<rparr>" by (metis timers.surjective timers.update_convs(7))
  then have "prvSampleTimeNow e (m\<lparr>timer_lists := ls\<rparr>, x, w) = Some (of_nat N, False, m\<lparr>timer_lists := ls\<rparr>, x, w)"
    using last by (simp add: prvSampleTimeNow_def Let_def xTaskGetTickCount_def tick)
  then have "timer_command e cmd \<lparr>xMessageValue = v, pxTimer = t\<rparr> (m, x, w) = command_start e t v (of_nat N) (m\<lparr>timer_lists := ls\<rparr>, x, w)"
    unfolding timer_command_def prod.case Let_def TimerParameter_t.simps
    by (simp only: ls(1) r Option.bind.simps prod.case st if_True)
  then show ?thesis using that ls(2-4) by blast
qed

end
