(* ===== verification/Timer_Turns.thy ===== *)
theory Timer_Turns
  imports Timer_Commands
begin

text \<open>
  The timer task from the moment it gets to run until it has nothing left to do: late timers that
  reload catch up through messages to themselves, one timer after the other is served, and a wrap
  of the counter is dealt with on the way.
\<close>

subsection \<open>Catching up\<close>

text \<open>\<open>pend\<close> are the timers that have a message under way, with the exact time in it.\<close>

definition start_message :: "nat \<Rightarrow> nat \<Rightarrow> u8 list" where
  "start_message t C = timer_message tmrCOMMAND_START_DONT_TRACE \<lparr>xMessageValue = of_nat C, pxTimer = t\<rparr>"

definition start_messages :: "(nat \<times> nat) list \<Rightarrow> u8 list list" where
  "start_messages pend = map (\<lambda>(t, C). start_message t C) pend"

definition pend_ok :: "nat set \<Rightarrow> nat \<Rightarrow> timers \<Rightarrow> (nat \<times> nat) list \<Rightarrow> bool" where
  "pend_ok A N m pend \<longleftrightarrow> distinct (map fst pend) \<and>
     (\<forall>(t, C)\<in>set pend. t \<in> A \<and> reloads m t \<and> C \<le> N \<and> N < C + tick_range)"

lemma start_messages_simps [simp]:
  "start_messages [] = []" "start_messages ((t, C) # pend) = start_message t C # start_messages pend"
  "start_messages (p @ pend) = start_messages p @ start_messages pend" "length (start_messages pend) = length pend"
  by (simp_all add: start_messages_def)

text \<open>What the timers keep through all of this.\<close>

definition same_modes :: "nat set \<Rightarrow> timers \<Rightarrow> timers \<Rightarrow> bool" where
  "same_modes A m m' \<longleftrightarrow> (\<forall>u\<in>A. reloads m' u = reloads m u \<and> period m' u = period m u)"

lemma same_modes_refl [simp]: "same_modes A m m"
  by (simp add: same_modes_def)

lemma same_modes_trans: "same_modes A m m1 \<Longrightarrow> same_modes A m1 m2 \<Longrightarrow> same_modes A m m2"
  by (simp add: same_modes_def)

lemma same_modesD: "same_modes A m m' \<Longrightarrow> u \<in> A \<Longrightarrow> reloads m' u = reloads m u" "same_modes A m m' \<Longrightarrow> u \<in> A \<Longrightarrow> period m' u = period m u"
  by (simp_all add: same_modes_def)

lemma div_step:
  assumes "0 < P" "C + P \<le> (N :: nat)"
  shows "(N - C) div P = Suc ((N - (C + P)) div P)"
proof -
  have "N - C = P + (N - (C + P))" using assms(2) by simp
  then have "(N - C) div P = (P + (N - (C + P))) div P" by (rule arg_cong)
  also have "\<dots> = (N - (C + P)) div P + 1" using assms(1) by (intro div_add_self1) simp
  finally show ?thesis by simp
qed

text \<open>The first message is dealt with.\<close>

lemma take_start:
  assumes e: "calls_ok e A T D fired" "te_run e = Some" "silent e" "timeless e"
    and i: "timers_inv A N m" and cq: "command_queue n T D (q, s)" and N: "xTickCount s = of_nat N"
    and t: "t \<in> A" "reloads m t" and C: "C \<le> N" "N < C + tick_range" and items: "queue_items q = start_message t C # its"
  obtains m2 q2 s2 w2 where "prvProcessReceivedCommands e (m, (q, s), w) = prvProcessReceivedCommands e (m2, (q2, s2), w2)"
    "timers_inv A N m2" "command_queue n T D (q2, s2)" "same_modes A m m2"
    "expiries N m2 = (expiries N m)(t := if N < C + period m t then Some (C + period m t) else None)"
    "fired w2 = fired w @ (if N < C + period m t then [] else [t])"
    "queue_items q2 = its @ (if N < C + period m t then [] else [start_message t (C + period m t)])" "uxLength q2 = uxLength q"
    "clock s2 = clock s"
proof -
  let ?P = "period m t"
  have t64: "t < 2 ^ 64" using timers_invD(8) [OF i t(1)] by simp
  obtain q1 s1 where r1: "xQueueReceive [] tmrNO_DELAY (q, s) = Some (Some (Some (start_message t C)), q1, s1)"
    "command_queue n T D (q1, s1)" "queue_items q1 = its" "uxLength q1 = uxLength q" "clock s1 = clock s"
    using receive_command(2) [OF cq items] by blast
  have len: "length its < unat (uxLength q)"
    using items_le [OF queue_invD(2) [of T D q s]] items cq by (simp add: command_queue_def del: items_length)
  have st: "is_start tmrCOMMAND_START_DONT_TRACE" by (simp add: is_start_def)
  have tick: "xTickCount (snd (q1, s1)) = of_nat N" using r1(5) N by (simp add: clock_def)
  obtain ls where l: "timer_command e tmrCOMMAND_START_DONT_TRACE \<lparr>xMessageValue = of_nat C, pxTimer = t\<rparr> (m, (q1, s1), w) =
      command_start e t (of_nat C) (of_nat N) (m\<lparr>timer_lists := ls\<rparr>, (q1, s1), w)"
    "timers_inv A N (m\<lparr>timer_lists := ls\<rparr>)" "expiries N (m\<lparr>timer_lists := ls\<rparr>) = (expiries N m)(t := None)"
    "pxContainer ls (xTimerListItem t) = None"
    by (rule start_alone [OF e(2) i tick st]) blast
  let ?m = "m\<lparr>timer_lists := ls\<rparr>"
  have pm: "period ?m u = period m u" "reloads ?m u = reloads m u" for u by (simp_all add: period_def reloads_def)
  have out: "pxContainer (timer_lists ?m) (xTimerListItem t) = None" using l(4) by simp
  obtain m2 q2 s2 w2 where c: "command_start e t (of_nat C) (of_nat N) (?m, (q1, s1), w) = Some (m2, (q2, s2), w2)"
    "timers_inv A N m2" "command_queue n T D (q2, s2)" "same_modes A m m2"
    "expiries N m2 = (expiries N m)(t := if N < C + ?P then Some (C + ?P) else None)"
    "fired w2 = fired w @ (if N < C + ?P then [] else [t])"
    "queue_items q2 = (if N < C + ?P then its else add_message q1 (start_message t (C + ?P)))" "uxLength q2 = uxLength q1" "clock s2 = clock s1"
  proof (rule start_exact [OF e(1) l(2) r1(2) t(1) out C, unfolded pm(1), of w])
    fix m' q' s' w'
    assume a: "command_start e t (of_nat C) (of_nat N) (?m, (q1, s1), w) = Some (m', (q', s'), w')" "timers_inv A N m'" "command_queue n T D (q', s')"
      "\<And>u. u \<in> A \<Longrightarrow> reloads m' u = reloads ?m u \<and> period m' u = period m u"
      "expiries N m' = (expiries N ?m)(t := if N < C + ?P then Some (C + ?P) else None)"
      "fired w' = fired w @ (if N < C + ?P then [] else [t])"
      "silent e \<or> N < C + ?P \<Longrightarrow> queue_items q' = (if C + ?P \<le> N \<and> reloads ?m t
         then add_message q1 (timer_message tmrCOMMAND_START_DONT_TRACE \<lparr>xMessageValue = of_nat (C + ?P), pxTimer = t\<rparr>) else queue_items q1)"
      "silent e \<Longrightarrow> uxLength q' = uxLength q1" "timeless e \<Longrightarrow> clock s' = clock s1"
    show thesis
      by (rule that [OF a(1-3)]) (use a(4-9) e(3,4) pm l(3) r1(3) t(2) in \<open>simp_all add: same_modes_def start_message_def not_less del: items_length\<close>)
  qed
  have "process_message e (start_message t C) (m, (q1, s1), w) = Some (m2, (q2, s2), w2)"
    unfolding process_message_def Let_def start_message_def using start_is_command [OF st] l(1) c(1) t64 by (simp add: timer_message_read)
  then have turn: "prvProcessReceivedCommands e (m, (q, s), w) = prvProcessReceivedCommands e (m2, (q2, s2), w2)"
    by (subst prvProcessReceivedCommands.simps) (simp add: r1(1))
  have "queue_items q2 = its @ (if N < C + ?P then [] else [start_message t (C + ?P)])"
    using c(7) len r1(3,4) by (simp add: add_message_def del: items_length)
  then show ?thesis using that turn c(2-6,8,9) r1(4,5) by simp
qed

lemma map_of_last: "u \<notin> fst ` set xs \<Longrightarrow> map_of (xs @ [(u, c)]) v = (if v = u then Some c else map_of xs v)"
  by (induction xs) auto

text \<open>
  All messages are dealt with, those that are sent meanwhile too: a timer is called for each of its
  expiries up to now that is still open, and is back in a list.
\<close>

lemma catch_up_all:
  assumes e: "calls_ok e A T D fired" "te_run e = Some" "silent e" "timeless e"
  shows "timers_inv A N m \<Longrightarrow> command_queue n T D (q, s) \<Longrightarrow> xTickCount s = of_nat N \<Longrightarrow>
    queue_items q = start_messages pend \<Longrightarrow> pend_ok A N m pend \<Longrightarrow>
    \<exists>m' q' s' w'. prvProcessReceivedCommands e (m, (q, s), w) = Some (m', (q', s'), w') \<and> timers_inv A N m' \<and> command_queue n T D (q', s') \<and>
      queue_items q' = [] \<and> uxLength q' = uxLength q \<and> clock s' = clock s \<and> same_modes A m m' \<and>
      (\<forall>u. count_list (fired w') u = count_list (fired w) u + (case map_of pend u of None \<Rightarrow> 0 | Some C \<Rightarrow> (N - C) div period m u)) \<and>
      (\<forall>u. expiries N m' u = (case map_of pend u of None \<Rightarrow> expiries N m u | Some C \<Rightarrow> Some (C + Suc ((N - C) div period m u) * period m u)))"
proof (induction "sum_list (map (\<lambda>(u, C). Suc (N - C)) pend)" arbitrary: m q s w pend rule: less_induct)
  case less
  note i = less.prems(1) and cq = less.prems(2)
  show ?case
  proof (cases pend)
    case Nil
    from receive_command(1) [OF cq] have "prvProcessReceivedCommands e (m, (q, s), w) = Some (m, (q, s), w)"
      using less.prems(4) Nil by (subst prvProcessReceivedCommands.simps) simp
    then show ?thesis using less.prems Nil by (simp del: items_length)
  next
    case (Cons p rest)
    obtain t C where p: "p = (t, C)" by (cases p)
    have pk: "t \<in> A" "reloads m t" "C \<le> N" "N < C + tick_range" "t \<notin> fst ` set rest" "pend_ok A N m rest"
      using less.prems(5) unfolding Cons p pend_ok_def by auto
    define P where "P = period m t"
    have P: "0 < P" using timers_invD(9) [OF i pk(1)] by (simp add: P_def)
    have items: "queue_items q = start_message t C # start_messages rest" using less.prems(4) by (simp add: Cons p)
    obtain m2 q2 s2 w2 where c: "prvProcessReceivedCommands e (m, (q, s), w) = prvProcessReceivedCommands e (m2, (q2, s2), w2)"
      "timers_inv A N m2" "command_queue n T D (q2, s2)" "same_modes A m m2"
      "expiries N m2 = (expiries N m)(t := if N < C + P then Some (C + P) else None)"
      "fired w2 = fired w @ (if N < C + P then [] else [t])"
      "queue_items q2 = start_messages rest @ (if N < C + P then [] else [start_message t (C + P)])" "uxLength q2 = uxLength q"
      "clock s2 = clock s"
      by (rule take_start [OF e i cq less.prems(3) pk(1-4) items, of w, folded P_def])
    define pend2 where "pend2 = rest @ (if N < C + P then [] else [(t, C + P)])"
    have items2: "queue_items q2 = start_messages pend2" using c(7) by (simp add: pend2_def)
    have ok2: "pend_ok A N m2 pend2"
      using pk P same_modesD(1) [OF c(4)] unfolding pend_ok_def pend2_def by auto
    have tick: "xTickCount s2 = of_nat N" using c(9) less.prems(3) by (simp add: clock_def)
    have less2: "sum_list (map (\<lambda>(u, C). Suc (N - C)) pend2) < sum_list (map (\<lambda>(u, C). Suc (N - C)) pend)"
      using P by (auto simp: pend2_def Cons p)
    obtain m' q' s' w' where ih: "prvProcessReceivedCommands e (m2, (q2, s2), w2) = Some (m', (q', s'), w')" "timers_inv A N m'"
      "command_queue n T D (q', s')" "queue_items q' = []" "uxLength q' = uxLength q2" "clock s' = clock s2" "same_modes A m2 m'"
      "\<And>u. count_list (fired w') u = count_list (fired w2) u + (case map_of pend2 u of None \<Rightarrow> 0 | Some C \<Rightarrow> (N - C) div period m2 u)"
      "\<And>u. expiries N m' u = (case map_of pend2 u of None \<Rightarrow> expiries N m2 u | Some C \<Rightarrow> Some (C + Suc ((N - C) div period m2 u) * period m2 u))"
      using less.hyps [OF less2 c(2,3) tick items2 ok2, of w2] by blast
    have per: "period m2 u = period m u" if "map_of pend2 u = Some C'" for u C'
    proof -
      have "(u, C') \<in> set pend2" using that by (rule map_of_SomeD)
      then show ?thesis using ok2 same_modesD(2) [OF c(4)] by (auto simp: pend_ok_def)
    qed
    have none: "map_of rest t = None" using pk(5) by (simp add: map_of_eq_None_iff)
    have other: "map_of pend2 u = map_of pend u" if "u \<noteq> t" for u
      using that map_of_last [OF pk(5)] by (simp add: pend2_def Cons p)
    have self: "map_of pend t = Some C" "map_of pend2 t = (if N < C + P then None else Some (C + P))"
      using none map_of_last [OF pk(5)] by (simp_all add: pend2_def Cons p)
    have cnt: "count_list (fired w') u = count_list (fired w) u + (case map_of pend u of None \<Rightarrow> 0 | Some C \<Rightarrow> (N - C) div period m u)" for u
    proof (cases "u = t")
      case True
      have "(N - C) div P = 0" if "N < C + P" using that pk(3) by (intro div_less) linarith
      then show ?thesis using ih(8) [of t] c(6) self per [of t] div_step [OF P, of C N] True by (auto simp: P_def [symmetric] not_less)
    next
      case False
      then show ?thesis using ih(8) [of u] c(6) other [OF False] per [of u] by (auto split: option.split)
    qed
    have ex: "expiries N m' u = (case map_of pend u of None \<Rightarrow> expiries N m u | Some C \<Rightarrow> Some (C + Suc ((N - C) div period m u) * period m u))" for u
    proof (cases "u = t")
      case True
      have "(N - C) div P = 0" if "N < C + P" using that pk(3) by (intro div_less) linarith
      then show ?thesis using ih(9) [of t] c(5) self per [of t] div_step [OF P, of C N] True by (auto simp: P_def [symmetric] not_less)
    next
      case False
      then show ?thesis using ih(9) [of u] c(5) other [OF False] per [of u] by (auto split: option.split)
    qed
    show ?thesis using c(1,8,9) ih(1-7) same_modes_trans [OF c(4)] cnt ex by auto
  qed
qed

subsection \<open>One turn\<close>

text \<open>At tick \<open>N\<close>: how often a timer with the schedule \<open>f\<close> is due, and when it expires next.\<close>

definition due_calls :: "nat \<Rightarrow> (nat \<Rightarrow> nat option) \<Rightarrow> timers \<Rightarrow> nat \<Rightarrow> nat" where
  "due_calls N f m u = (case f u of None \<Rightarrow> 0
     | Some E \<Rightarrow> if N < E then 0 else if reloads m u then Suc ((N - E) div period m u) else 1)"

definition next_due :: "nat \<Rightarrow> (nat \<Rightarrow> nat option) \<Rightarrow> timers \<Rightarrow> nat \<Rightarrow> nat option" where
  "next_due N f m u = (case f u of None \<Rightarrow> None
     | Some E \<Rightarrow> if N < E then Some E else if reloads m u then Some (E + Suc ((N - E) div period m u) * period m u) else None)"

text \<open>The timers of \<open>S\<close> have been called as often as they were due, the others not at all.\<close>

definition serves :: "('w \<Rightarrow> nat list) \<Rightarrow> nat \<Rightarrow> (nat \<Rightarrow> nat option) \<Rightarrow> timers \<Rightarrow> nat set \<Rightarrow> 'w \<Rightarrow> timers \<Rightarrow> 'w \<Rightarrow> bool" where
  "serves fired N f m S w m' w' \<longleftrightarrow>
     (\<forall>u. count_list (fired w') u = count_list (fired w) u + (if u \<in> S then due_calls N f m u else 0)) \<and>
     (\<forall>u. expiries N m' u = (if u \<in> S then next_due N f m u else f u))"

definition turn_ok :: "nat set \<Rightarrow> nat set \<Rightarrow> nat set \<Rightarrow> nat \<Rightarrow> timers \<Rightarrow> timers \<times> queue_state \<Rightarrow> bool" where
  "turn_ok A T D N m = (\<lambda>(m', q', s'). timers_inv A N m' \<and> command_queue 0 T D (q', s') \<and> queue_items q' = [] \<and>
     clock s' = (of_nat N, 0) \<and> same_modes A m m')"

lemma resume_commands:
  assumes q: "command_queue 1 T D (q, s)" and c: "clock s = (v, 0)"
  obtains y s' where "xTaskResumeAll s = Some (y, s')" "command_queue 0 T D (q, s')" "clock s' = (v, 0)"
proof -
  have i: "queue_inv T D (q, s)" and u: "uxSchedulerSuspended s = 1" using q by (simp_all add: command_queue_def)
  note k = queue_invD(1) [OF i]
  obtain y s' where r: "xTaskResumeAll s = Some (y, s')" "kernel_inv T D s'" "uxSchedulerSuspended s' = uxSchedulerSuspended s - 1"
    "xTickCount s' = xTickCount s + (if uxSchedulerSuspended s = 1 \<and> uxCurrentNumberOfTasks s > 0 then xPendedTicks s else 0)"
    using resume_all [OF k] u by auto
  have "xPendedTicks s' = 0"
    using r(1) u tasks_positive [OF k] by (auto simp: xTaskResumeAll_def Let_def bind_eq_Some_conv pended_yield word_gt_0 split: if_splits)
  then have "clock s' = (v, 0)" using r(4) c by (simp add: clock_def)
  moreover have "command_queue 0 T D (q, s')"
    using queue_invI [OF i same_shape_refl(1) queue_invD(2) [OF i] r(2)] r(3) q u by (simp add: command_queue_def)
  ultimately show ?thesis using that r(1) by blast
qed

text \<open>No wrap since the last turn: the timer that expires first is served.\<close>

lemma turn_expired:
  assumes e: "calls_ok e A T D fired" "te_run e = Some" "silent e" "timeless e"
    and i: "timers_inv A L m" and q: "command_queue 0 T D (q, s)" "queue_items q = []"
    and N: "clock s = (of_nat N, 0)" "L \<le> N" "N div tick_range = L div tick_range"
    and due: "expiries L m t0 = Some E0" "E0 \<le> N"
  obtains m' q' s' w' t E where "prvTimerTask e (m, (q, s), w) = Some (m', (q', s'), w')" "turn_ok A T D N m (m', q', s')"
    "expiries L m t = Some E" "E \<le> N" "serves fired N (expiries L m) m {t} w m' w'"
proof -
  define g where "g = prvGetNextExpireTime m"
  let ?m = "m\<lparr>xLastTime := of_nat N\<rparr>" and ?s = "vTaskSuspendAll s"
  have i1: "timers_inv A N ?m" and x1: "expiries N ?m = expiries L m" using later_inv [OF i N(2,3)] by simp_all
  have k1: "reloads ?m u = reloads m u" "period ?m u = period m u" for u by (simp_all add: reloads_def period_def)
  note q1 = suspend_command_queue [OF q(1)]
  have c1: "clock ?s = (of_nat N, 0)" using N(1) by (simp add: clock_def vTaskSuspendAll_def)
  have "N div tick_range * tick_range \<le> L" by (simp only: N(3) div_times_less_eq_dividend)
  then have NL: "N < L + tick_range"
    using div_mult_mod_eq [of N tick_range] mod_less_divisor [OF tick_range_pos, of N] by linarith
  have tick: "xTickCount (snd (q, ?s)) = of_nat N" using c1 by (simp add: clock_def)
  have smp: "prvSampleTimeNow e (m, (q, ?s), w) = Some (of_nat N, False, ?m, (q, ?s), w)"
    by (rule sample_time [OF e(1) i q1 tick N(2) NL, of w]) (use N(3) in simp)
  have "E0 div tick_range = N div tick_range"
    using div_le_mono [OF due(2), of tick_range] expiry_list(2) [OF i due(1)] N(3) by (auto simp: expires_div split: if_splits)
  then have ne: "members (timer_lists ?m) (pxCurrentTimerList ?m) \<noteq> []" using expiry_list(4) [OF i1, of t0 E0] due(1) x1 by auto
  obtain v where v: "expires_at N ?m v div tick_range = N div tick_range"
    "listGET_ITEM_VALUE_OF_HEAD_ENTRY (timer_lists ?m) (pxCurrentTimerList ?m) = of_nat (expires_at N ?m v)"
    "\<And>u F. expiries N ?m u = Some F \<Longrightarrow> expires_at N ?m v \<le> F"
    by (rule current_head [OF i1 ne]) blast
  have "expires_at N ?m v \<le> N" using v(3) [of t0 E0] due x1 by simp
  then have h: "listGET_ITEM_VALUE_OF_HEAD_ENTRY (timer_lists ?m) (pxCurrentTimerList ?m) \<le> of_nat N"
    using v(1) period_order [of "expires_at N ?m v" N] unfolding v(2) by (simp add: word_le_nat_alt unat_tick)
  have g: "fst g = listGET_ITEM_VALUE_OF_HEAD_ENTRY (timer_lists ?m) (pxCurrentTimerList ?m)" "\<not> snd g"
    using ne members_is_empty [OF timers_invD(1,2) [OF i1]] by (simp_all add: g_def prvGetNextExpireTime_def Let_def)
  obtain y s2 where s2: "xTaskResumeAll ?s = Some (y, s2)" "command_queue 0 T D (q, s2)" "clock s2 = (of_nat N, 0)"
    by (rule resume_commands [OF q1 c1])
  obtain t E m3 q3 s3 w3 where r: "prvProcessExpiredTimer e (fst g) (of_nat N) (?m, (q, s2), w) = Some (m3, (q3, s3), w3)"
    "timers_inv A N m3" "command_queue 0 T D (q3, s3)" "fired w3 = fired w @ [t]" "expiries N ?m t = Some E" "E \<le> N"
    "expiries N m3 = (expiries N ?m)(t := if reloads ?m t \<and> N < E + period ?m t then Some (E + period ?m t) else None)"
    "silent e \<Longrightarrow> queue_items q3 = (if reloads ?m t \<and> E + period ?m t \<le> N
       then add_message q (timer_message tmrCOMMAND_START_DONT_TRACE \<lparr>xMessageValue = of_nat E, pxTimer = t\<rparr>) else queue_items q)"
    "\<And>u. u \<in> A \<Longrightarrow> reloads m3 u = reloads ?m u \<and> period m3 u = period ?m u" "timeless e \<Longrightarrow> clock s3 = clock s2"
    by (rule process_expired [OF e(1) i1 s2(2) ne h, of w, folded g(1)]) blast
  define P where "P = period m t"
  have tE: "expiries L m t = Some E" using r(5) x1 by simp
  note ex = expiry_list [OF i tE]
  have P: "0 < P" using timers_invD(9) [OF i ex(1)] by (simp add: P_def)
  have len: "0 < unat (uxLength q)"
    using data_queue_atD(7) queue_invD(2) q(1) by (fastforce simp: data_queue_def command_queue_def)
  define pend where "pend = (if reloads m t \<and> E + P \<le> N then [(t, E)] else [])"
  have items: "queue_items q3 = start_messages pend"
    using r(8) [OF e(3)] q(2) len
    by (cases "unat (uxLength q)") (simp_all add: k1 pend_def P_def add_message_def start_message_def del: items_length)
  have modes: "same_modes A m m3" using r(9) by (simp add: same_modes_def k1)
  have "E div tick_range = N div tick_range" using div_le_mono [OF r(6), of tick_range] ex(2) N(3) by (auto simp: expires_div split: if_splits)
  then have "N div tick_range * tick_range \<le> E" using div_times_less_eq_dividend [of E tick_range] by simp
  then have "N < E + tick_range"
    using div_mult_mod_eq [of N tick_range] mod_less_divisor [OF tick_range_pos, of N] by linarith
  then have pk: "pend_ok A N m3 pend" using ex(1) r(6) same_modesD(1) [OF modes] by (simp add: pend_ok_def pend_def)
  have tk: "clock s3 = (of_nat N, 0)" using r(10) [OF e(4)] s2(3) by simp
  then have tk1: "xTickCount s3 = of_nat N" by (simp add: clock_def)
  obtain m' q' s' w' where c: "prvProcessReceivedCommands e (m3, (q3, s3), w3) = Some (m', (q', s'), w')" "timers_inv A N m'"
    "command_queue 0 T D (q', s')" "queue_items q' = []" "clock s' = clock s3" "same_modes A m3 m'"
    "\<And>u. count_list (fired w') u = count_list (fired w3) u + (case map_of pend u of None \<Rightarrow> 0 | Some C \<Rightarrow> (N - C) div period m3 u)"
    "\<And>u. expiries N m' u = (case map_of pend u of None \<Rightarrow> expiries N m3 u | Some C \<Rightarrow> Some (C + Suc ((N - C) div period m3 u) * period m3 u))"
    using catch_up_all [OF e r(2,3) tk1 items pk, of w3] by blast
  have "prvProcessTimerOrBlockTask e (fst g) (snd g) (m, (q, s), w) = Some (m3, (q3, s3), w3)"
  proof -
    have "fst g \<le> of_nat N" using h by (simp only: g(1))
    then show ?thesis unfolding prvProcessTimerOrBlockTask_def by (simp add: g(2) smp s2(1) r(1))
  qed
  then have turn: "prvTimerTask e (m, (q, s), w) = Some (m', (q', s'), w')"
    unfolding prvTimerTask_def by (simp add: Let_def split_beta e(2) c(1) flip: g_def)
  have p3: "period m3 t = P" using same_modesD(2) [OF modes ex(1)] by (simp add: P_def)
  have div0: "(N - E) div P = 0" if "\<not> E + P \<le> N" using that r(6) by (intro div_less) linarith
  have "count_list (fired w') u = count_list (fired w) u + (if u \<in> {t} then due_calls N (expiries L m) m u else 0)" for u
    using c(7) [of u] r(4,6) tE p3 div0 by (auto simp: due_calls_def pend_def P_def [symmetric])
  moreover have "expiries N m' u = (if u \<in> {t} then next_due N (expiries L m) m u else expiries L m u)" for u
    using c(8) [of u] r(6,7) x1 tE p3 div0 by (auto simp: next_due_def pend_def P_def [symmetric] k1)
  ultimately have "serves fired N (expiries L m) m {t} w m' w'" by (simp add: serves_def)
  moreover have "turn_ok A T D N m (m', q', s')"
    using c(2-6) tk same_modes_trans [OF modes] by (simp add: turn_ok_def)
  ultimately show ?thesis using that turn tE r(6) by blast
qed

text \<open>The expiries of a timer that reloads, up to the end of the period and from there up to now.\<close>

lemma fires_calls:
  assumes i: "timers_inv A L m" and c: "pxContainer (timer_lists m) (xTimerListItem u) = Some (pxCurrentTimerList m)" and r: "reloads m u"
    and N: "N div tick_range = Suc (L div tick_range)"
  defines "E \<equiv> expires_at L m u" and "P \<equiv> period m u" and "C \<equiv> L div tick_range * tick_range + last_expiry m u"
  shows "E \<le> C" "C \<le> N" "(of_nat C :: u64) = of_nat (last_expiry m u)" "fires m u + (N - C) div P = Suc ((N - E) div P)"
    "C + Suc ((N - C) div P) * P = E + Suc ((N - E) div P) * P"
proof -
  let ?v = "unat (xItemValue (timer_lists m) (xTimerListItem u))" and ?B = "L div tick_range * tick_range"
  have P: "0 < P" using timers_invD(9) [OF i] timers_invD(7) [OF i c] by (simp add: P_def)
  define k where "k = (tick_range - 1 - ?v) div P"
  have f: "fires m u = Suc k" using c r by (simp add: fires_def k_def P_def)
  have E: "E = ?B + ?v" using c by (simp add: E_def expires_at_def)
  have C: "C = E + k * P" using f by (simp add: C_def E last_expiry_def P_def)
  have "k * P \<le> tick_range - 1 - ?v" unfolding k_def by (rule div_times_less_eq_dividend)
  then have "?v + k * P < tick_range" using unat_tick_lt [of "xItemValue (timer_lists m) (xTimerListItem u)"] by linarith
  moreover have "?B + tick_range \<le> N" using div_times_less_eq_dividend [of N tick_range] N by simp
  ultimately show CN: "C \<le> N" unfolding C E by linarith
  show EC: "E \<le> C" by (simp add: C)
  show "(of_nat C :: u64) = of_nat (last_expiry m u)" by (simp add: C_def of_nat_add of_tick_range del: of_nat_mult)
  have "N - E = (N - C) + k * P" using CN C by linarith
  then have d: "(N - E) div P = k + (N - C) div P" using P by simp
  show "fires m u + (N - C) div P = Suc ((N - E) div P)" by (simp add: f d)
  show "C + Suc ((N - C) div P) * P = E + Suc ((N - E) div P) * P" by (simp add: d C algebra_simps)
qed

text \<open>
  The counter has wrapped: all timers of the period that ended are served, if the command queue has
  room for those that reload and no expiry is a whole range of the counter ago.
\<close>

definition of_period_ended :: "nat \<Rightarrow> timers \<Rightarrow> nat set" where
  "of_period_ended L m = {u. \<exists>E. expiries L m u = Some E \<and> E div tick_range = L div tick_range}"

lemma turn_wrapped:
  assumes e: "calls_ok e A T D fired" "te_run e = Some" "silent e" "timeless e"
    and i: "timers_inv A L m" and q: "command_queue 0 T D (q, s)" "queue_items q = []"
    and N: "clock s = (of_nat N, 0)" "L \<le> N" "N < L + tick_range" "N div tick_range \<noteq> L div tick_range"
    and room: "card {u \<in> of_period_ended L m. reloads m u} \<le> unat (uxLength q)"
    and late: "\<And>u E. expiries L m u = Some E \<Longrightarrow> N < E + tick_range"
  obtains m' q' s' w' where "prvTimerTask e (m, (q, s), w) = Some (m', (q', s'), w')" "turn_ok A T D N m (m', q', s')"
    "serves fired N (expiries L m) m (of_period_ended L m) w m' w'"
proof -
  define g where "g = prvGetNextExpireTime m"
  let ?s = "vTaskSuspendAll s" and ?old = "of_period_ended L m"
  note d = timers_invD [OF i]
  have suc: "N div tick_range = Suc (L div tick_range)" using next_period [OF N(2,3)] N(4) by auto
  note q1 = suspend_command_queue [OF q(1)]
  have c1: "clock ?s = (of_nat N, 0)" using N(1) by (simp add: clock_def vTaskSuspendAll_def)
  have tick: "xTickCount (snd (q, ?s)) = of_nat N" using c1 by (simp add: clock_def)
  obtain m1 q2 s1 w1 ts where a: "prvSampleTimeNow e (m, (q, ?s), w) = Some (of_nat N, True, m1, (q2, s1), w1)"
    "timers_inv A N m1" "expiries N m1 = sampled L N (expiries L m)" "same_status A m m1" "command_queue 1 T D (q2, s1)"
    "\<And>u. count_list (fired w1) u = count_list (fired w) u + fires m u" "reload_list m ts"
    "queue_items q2 = take (unat (uxLength q)) (queue_items q @ reload_messages m ts)" "clock s1 = clock ?s"
  proof (rule sample_time [OF e(1) i q1 tick N(2,3), of w])
    fix m' x' w'
    assume b: "prvSampleTimeNow e (m, (q, ?s), w) = Some (of_nat N, N div tick_range \<noteq> L div tick_range, m', x', w')"
      "timers_inv A N m'" "expiries N m' = sampled L N (expiries L m)" "same_status A m m'" "command_queue 1 T D x'"
      "N div tick_range \<noteq> L div tick_range \<Longrightarrow> (\<forall>u. count_list (fired w') u = count_list (fired w) u + fires m u) \<and>
       (\<exists>ts. reload_list m ts \<and> (silent e \<longrightarrow>
          queue_items (fst x') = take (unat (uxLength (fst (q, ?s)))) (queue_items (fst (q, ?s)) @ reload_messages m ts) \<and> uxLength (fst x') = uxLength (fst (q, ?s))))"
      "timeless e \<Longrightarrow> clock (snd x') = clock (snd (q, ?s))"
    obtain q2 s1 where x: "x' = (q2, s1)" by (cases x')
    show thesis using that b(1-5) b(6) [OF N(4)] b(7) e(3,4) N(4) unfolding x by auto
  qed
  have old: "u \<in> ?old \<longleftrightarrow> pxContainer (timer_lists m) (xTimerListItem u) = Some (pxCurrentTimerList m)" for u
    by (auto simp: of_period_ended_def expiries_def expires_div)
  have at: "expiries L m u = Some (expires_at L m u)" "u \<in> A" if "u \<in> ?old" for u
    using that old [of u] d(7) [of u "pxCurrentTimerList m"] by (auto simp: expiries_def)
  define C where "C u = L div tick_range * tick_range + last_expiry m u" for u
  define pend where "pend = map (\<lambda>u. (u, C u)) ts"
  have ts: "distinct ts" "set ts = {u \<in> ?old. reloads m u}" using a(7) old by (auto simp: reload_list_def)
  have len: "length (reload_messages m ts) \<le> unat (uxLength q)"
    using room distinct_card [OF ts(1)] by (simp add: reload_messages_def ts(2))
  have fc: "expires_at L m u \<le> C u" "C u \<le> N" "(of_nat (C u) :: u64) = of_nat (last_expiry m u)"
    "fires m u + (N - C u) div period m u = Suc ((N - expires_at L m u) div period m u)"
    "C u + Suc ((N - C u) div period m u) * period m u = expires_at L m u + Suc ((N - expires_at L m u) div period m u) * period m u"
    if "u \<in> set ts" for u
    using fires_calls [OF i _ _ suc, of u] that old [of u] unfolding ts(2) C_def by simp_all
  have "reload_messages m ts = start_messages pend"
    using fc(3) by (simp add: reload_messages_def start_messages_def start_message_def pend_def)
  then have items: "queue_items q2 = start_messages pend" using a(8) q(2) len by simp
  have modes: "same_modes A m m1" using a(4) by (simp add: same_modes_def same_status_def reloads_def period_def)
  have pk: "pend_ok A N m1 pend"
  proof -
    have "N < C u + tick_range" if "u \<in> set ts" for u
      using late [OF at(1), of u] fc(1) [OF that] that unfolding ts(2) by simp
    then show ?thesis
      using fc(2) at(2) same_modesD(1) [OF modes] ts by (auto simp: pend_ok_def pend_def comp_def)
  qed
  obtain y s2 where s2: "xTaskResumeAll s1 = Some (y, s2)" "command_queue 0 T D (q2, s2)" "clock s2 = (of_nat N, 0)"
    by (rule resume_commands [OF a(5)]) (use a(9) c1 in auto)
  then have tk: "xTickCount s2 = of_nat N" by (simp add: clock_def)
  obtain m' q' s' w' where c: "prvProcessReceivedCommands e (m1, (q2, s2), w1) = Some (m', (q', s'), w')" "timers_inv A N m'"
    "command_queue 0 T D (q', s')" "queue_items q' = []" "clock s' = clock s2" "same_modes A m1 m'"
    "\<And>u. count_list (fired w') u = count_list (fired w1) u + (case map_of pend u of None \<Rightarrow> 0 | Some C \<Rightarrow> (N - C) div period m1 u)"
    "\<And>u. expiries N m' u = (case map_of pend u of None \<Rightarrow> expiries N m1 u | Some C \<Rightarrow> Some (C + Suc ((N - C) div period m1 u) * period m1 u))"
    using catch_up_all [OF e a(2) s2(2) tk items pk, of w1] by blast
  have "prvProcessTimerOrBlockTask e (fst g) (snd g) (m, (q, s), w) = Some (m1, (q2, s2), w1)"
    unfolding prvProcessTimerOrBlockTask_def by (simp add: a(1) s2(1))
  then have turn: "prvTimerTask e (m, (q, s), w) = Some (m', (q', s'), w')"
    unfolding prvTimerTask_def by (simp add: Let_def split_beta e(2) c(1) flip: g_def)
  have mp: "map_of pend u = (if u \<in> set ts then Some (C u) else None)" for u
    unfolding pend_def by (induction ts) auto
  have EN: "\<not> N < expires_at L m u" if "u \<in> ?old" for u
  proof -
    have "expires_at L m u div tick_range < N div tick_range" using that old [of u] suc by (simp add: expires_div)
    then show ?thesis using div_le_mono [of N "expires_at L m u" tick_range] by linarith
  qed
  have p1: "period m1 u = period m u" if "u \<in> ?old" for u using same_modesD(2) [OF modes at(2) [OF that]] .
  have cnt: "count_list (fired w') u = count_list (fired w) u + (if u \<in> ?old then due_calls N (expiries L m) m u else 0)" for u
  proof (cases "u \<in> ?old")
    case False
    then have "fires m u = 0" "map_of pend u = None" using old [of u] mp [of u] ts(2) by (simp_all add: fires_def)
    then show ?thesis using c(7) [of u] a(6) [of u] False by simp
  next
    case o: True
    show ?thesis
    proof (cases "reloads m u")
      case True
      then have "u \<in> set ts" using o ts(2) by simp
      then show ?thesis using c(7) [of u] a(6) [of u] mp [of u] fc(4) [of u] at(1) [OF o] EN [OF o] p1 [OF o] o True by (simp add: due_calls_def)
    next
      case False
      then have "fires m u = 1" "u \<notin> set ts" using o old [of u] ts(2) by (simp_all add: fires_def)
      then show ?thesis using c(7) [of u] a(6) [of u] mp [of u] at(1) [OF o] EN [OF o] o False by (simp add: due_calls_def)
    qed
  qed
  have ex: "expiries N m' u = (if u \<in> ?old then next_due N (expiries L m) m u else expiries L m u)" for u
  proof (cases "u \<in> ?old")
    case False
    then have "map_of pend u = None" using mp [of u] ts(2) by simp
    moreover have "sampled L N (expiries L m) u = expiries L m u"
      using False old [of u] suc by (auto simp: sampled_def expiries_def expires_div)
    ultimately show ?thesis using c(8) [of u] a(3) False by simp
  next
    case o: True
    have "sampled L N (expiries L m) u = None" using at(1) [OF o] o old [of u] suc by (simp add: sampled_def expires_div)
    then show ?thesis
      using c(8) [of u] a(3) mp [of u] fc(5) [of u] at(1) [OF o] EN [OF o] p1 [OF o] o ts(2) by (auto simp: next_due_def)
  qed
  have "serves fired N (expiries L m) m ?old w m' w'" unfolding serves_def using cnt ex by blast
  moreover have "turn_ok A T D N m (m', q', s')"
    using c(2-6) s2(3) same_modes_trans [OF modes] by (simp add: turn_ok_def)
  ultimately show ?thesis using that turn by blast
qed

subsection \<open>All the turns\<close>

text \<open>The timer task goes round its loop \<open>k\<close> times.\<close>

primrec timer_turns :: "'w timer_env \<Rightarrow> nat \<Rightarrow> 'w timer_state \<Rightarrow> 'w timer_state option" where
  "timer_turns e 0 y = Some y"
| "timer_turns e (Suc k) y = do { y \<leftarrow> prvTimerTask e y; timer_turns e k y }"

definition due_timers :: "nat \<Rightarrow> (nat \<Rightarrow> nat option) \<Rightarrow> nat set" where
  "due_timers N f = {u. \<exists>E. f u = Some E \<and> E \<le> N}"

lemma due_finite:
  assumes i: "timers_inv A L m"
  shows "finite (due_timers N (expiries L m))"
proof -
  let ?X = "set (members (timer_lists m) (pxCurrentTimerList m)) \<union> set (members (timer_lists m) (pxOverflowTimerList m))"
  have "xTimerListItem ` due_timers N (expiries L m) \<subseteq> ?X"
    using expiry_list(4) [OF i] by (fastforce simp: due_timers_def split: if_splits)
  then have "finite (xTimerListItem ` due_timers N (expiries L m))" by (rule finite_subset) simp
  then show ?thesis by (rule finite_imageD) (simp add: inj_on_def)
qed

lemma next_due_later:
  assumes "next_due N f m u = Some E" "\<And>F. f u = Some F \<Longrightarrow> 0 < period m u"
  shows "N < E"
proof -
  obtain F where F: "f u = Some F" using assms(1) by (auto simp: next_due_def split: option.splits)
  have "N - F < period m u + period m u * ((N - F) div period m u)" by (rule dividend_less_times_div [OF assms(2) [OF F]])
  then show ?thesis using assms(1) F by (auto simp: next_due_def algebra_simps split: if_splits)
qed

lemma serves_then:
  assumes i: "timers_inv A L m" and i1: "timers_inv A N m1" and k: "same_modes A m m1"
    and a: "serves fired N (expiries L m) m S w m1 w1" and b: "serves fired N (expiries N m1) m1 UNIV w1 m2 w2"
  shows "serves fired N (expiries L m) m UNIV w m2 w2"
proof -
  have P: "0 < period m u" if "expiries L m u = Some E" for u E using timers_invD(9) [OF i expiry_list(1) [OF i that]] .
  have same: "due_calls N (expiries N m1) m1 u = (if u \<in> S then 0 else due_calls N (expiries L m) m u) \<and>
      next_due N (expiries N m1) m1 u = next_due N (expiries L m) m u" for u
  proof (cases "u \<in> S")
    case True
    then have x: "expiries N m1 u = next_due N (expiries L m) m u" using a by (simp add: serves_def)
    show ?thesis
      using next_due_later [of N "expiries L m" m u] P [of u] True x
      by (cases "next_due N (expiries L m) m u") (auto simp: due_calls_def next_due_def [of N "expiries N m1"])
  next
    case False
    then have x: "expiries N m1 u = expiries L m u" using a by (simp add: serves_def)
    have "reloads m1 u = reloads m u" "period m1 u = period m u" if "expiries L m u = Some E" for E
      using same_modesD [OF k expiry_list(1) [OF i that]] by simp_all
    then show ?thesis using False x by (auto simp: due_calls_def next_due_def split: option.split)
  qed
  then show ?thesis using a b by (simp add: serves_def)
qed

text \<open>Once the task has seen that the counter wrapped, each turn serves one of the timers that are due.\<close>

lemma turns_rest:
  assumes e: "calls_ok e A T D fired" "te_run e = Some" "silent e" "timeless e"
  shows "timers_inv A N m \<Longrightarrow> command_queue 0 T D (q, s) \<Longrightarrow> queue_items q = [] \<Longrightarrow> clock s = (of_nat N, 0) \<Longrightarrow>
    \<exists>k m' q' s' w'. k \<le> card (due_timers N (expiries N m)) \<and> timer_turns e k (m, (q, s), w) = Some (m', (q', s'), w') \<and>
      turn_ok A T D N m (m', q', s') \<and> serves fired N (expiries N m) m UNIV w m' w'"
proof (induction "card (due_timers N (expiries N m))" arbitrary: m q s w rule: less_induct)
  case less
  note i = less.prems(1)
  show ?case
  proof (cases "due_timers N (expiries N m) = {}")
    case True
    then have "N < E" if "expiries N m u = Some E" for u E using that by (force simp: due_timers_def)
    then have "serves fired N (expiries N m) m UNIV w m w"
      by (auto simp: serves_def due_calls_def next_due_def split: option.split)
    then show ?thesis using less.prems by (intro exI [of _ 0] exI [of _ m] exI [of _ q] exI [of _ s] exI [of _ w]) (simp add: turn_ok_def del: items_length)
  next
    case False
    then obtain t0 E0 where due: "expiries N m t0 = Some E0" "E0 \<le> N" by (auto simp: due_timers_def)
    obtain m1 q1 s1 w1 t E where r: "prvTimerTask e (m, (q, s), w) = Some (m1, (q1, s1), w1)" "turn_ok A T D N m (m1, q1, s1)"
      "expiries N m t = Some E" "E \<le> N" "serves fired N (expiries N m) m {t} w m1 w1"
      by (rule turn_expired [OF e less.prems order_refl refl due, of w])
    have o: "timers_inv A N m1" "command_queue 0 T D (q1, s1)" "queue_items q1 = []" "clock s1 = (of_nat N, 0)" "same_modes A m m1"
      using r(2) by (simp_all add: turn_ok_def)
    have P: "0 < period m t" using timers_invD(9) [OF i expiry_list(1) [OF i r(3)]] .
    have x1: "expiries N m1 u = (if u = t then next_due N (expiries N m) m t else expiries N m u)" for u using r(5) by (simp add: serves_def)
    then have "due_timers N (expiries N m1) = due_timers N (expiries N m) - {t}"
      using next_due_later [of N "expiries N m" m t] P by (force simp: due_timers_def split: if_splits)
    moreover have "t \<in> due_timers N (expiries N m)" using r(3,4) by (auto simp: due_timers_def)
    ultimately have c: "card (due_timers N (expiries N m1)) < card (due_timers N (expiries N m))"
      using card_Diff1_less [OF due_finite [OF i]] by simp
    obtain k m' q' s' w' where h: "k \<le> card (due_timers N (expiries N m1))" "timer_turns e k (m1, (q1, s1), w1) = Some (m', (q', s'), w')"
      "turn_ok A T D N m1 (m', q', s')" "serves fired N (expiries N m1) m1 UNIV w1 m' w'"
      using less.hyps [OF c o(1-4), of w1] by blast
    have "serves fired N (expiries N m) m UNIV w m' w'" by (rule serves_then [OF i o(1,5) r(5) h(4)])
    moreover have "turn_ok A T D N m (m', q', s')" using h(3) same_modes_trans [OF o(5)] by (simp add: turn_ok_def)
    moreover have "timer_turns e (Suc k) (m, (q, s), w) = Some (m', (q', s'), w')" using r(1) h(2) by simp
    moreover have "Suc k \<le> card (due_timers N (expiries N m))" using c h(1) by simp
    ultimately show ?thesis by blast
  qed
qed

lemma all_turns:
  assumes e: "calls_ok e A T D fired" "te_run e = Some" "silent e" "timeless e"
    and i: "timers_inv A L m" and q: "command_queue 0 T D (q, s)" "queue_items q = []"
    and N: "clock s = (of_nat N, 0)" "L \<le> N" "N < L + tick_range"
    and room: "N div tick_range \<noteq> L div tick_range \<Longrightarrow> card {u \<in> of_period_ended L m. reloads m u} \<le> unat (uxLength q)"
    and late: "\<And>u E. expiries L m u = Some E \<Longrightarrow> N < E + tick_range"
    and due: "expiries L m t = Some E" "E \<le> N"
  obtains k m' q' s' w' where "k \<le> Suc (card (due_timers N (expiries L m)))" "timer_turns e k (m, (q, s), w) = Some (m', (q', s'), w')"
    "turn_ok A T D N m (m', q', s')" "serves fired N (expiries L m) m UNIV w m' w'"
proof -
  obtain m1 q1 s1 w1 S where r: "prvTimerTask e (m, (q, s), w) = Some (m1, (q1, s1), w1)" "turn_ok A T D N m (m1, q1, s1)"
    "serves fired N (expiries L m) m S w m1 w1"
  proof (cases "N div tick_range = L div tick_range")
    case True
    show thesis by (rule turn_expired [OF e i q N(1,2) True due, of w]) (rule that)
  next
    case False
    show thesis by (rule turn_wrapped [where w = w, OF e i q N False room [OF False] late]) (assumption, rule that)
  qed
  have o: "timers_inv A N m1" "command_queue 0 T D (q1, s1)" "queue_items q1 = []" "clock s1 = (of_nat N, 0)" "same_modes A m m1"
    using r(2) by (simp_all add: turn_ok_def)
  have P: "0 < period m u" if "expiries L m u = Some F" for u F using timers_invD(9) [OF i expiry_list(1) [OF i that]] .
  have "due_timers N (expiries N m1) \<subseteq> due_timers N (expiries L m)"
  proof
    fix u assume "u \<in> due_timers N (expiries N m1)"
    then obtain F where F: "expiries N m1 u = Some F" "F \<le> N" by (auto simp: due_timers_def)
    then have "u \<notin> S" using next_due_later [of N "expiries L m" m u F] P [of u] r(3) by (auto simp: serves_def)
    then show "u \<in> due_timers N (expiries L m)" using F r(3) by (auto simp: serves_def due_timers_def)
  qed
  then have c: "card (due_timers N (expiries N m1)) \<le> card (due_timers N (expiries L m))" by (rule card_mono [OF due_finite [OF i]])
  obtain k m' q' s' w' where h: "k \<le> card (due_timers N (expiries N m1))" "timer_turns e k (m1, (q1, s1), w1) = Some (m', (q', s'), w')"
    "turn_ok A T D N m1 (m', q', s')" "serves fired N (expiries N m1) m1 UNIV w1 m' w'"
    using turns_rest [OF e o(1-4), of w1] by blast
  have "timer_turns e (Suc k) (m, (q, s), w) = Some (m', (q', s'), w')" using r(1) h(2) by simp
  moreover have "turn_ok A T D N m (m', q', s')" using h(3) same_modes_trans [OF o(5)] by (simp add: turn_ok_def)
  moreover have "Suc k \<le> Suc (card (due_timers N (expiries L m)))" using h(1) c by simp
  ultimately show ?thesis using that serves_then [OF i o(1,5) r(3) h(4)] by blast
qed

end
