(* ===== verification/Timer_Props.thy ===== *)
theory Timer_Props
  imports Timer_Turns Queue_Props
begin

text \<open>The properties of software timers.\<close>

subsection \<open>A command queue and two timers\<close>

text \<open>
  The program around the timers is the log of the calls. Timer 5 reloads itself every 10 ticks,
  timer 6 expires once, after 3 ticks.
\<close>

definition ex_env :: "nat list timer_env" where
  "ex_env = \<lparr>te_callback = (\<lambda>f t (m, x, w). Some (m, x, w @ [t])), te_pended = (\<lambda>f a b y. Some y), te_run = Some,
     te_isr = (\<lambda>j. run_isr {..40} [])\<rparr>"

definition ex_commands :: Queue_t where
  "ex_commands = \<lparr>pcHead = 1000, pcWriteTo = 1000, pcTail = Address 1160, pcReadFrom = 1128, xTasksWaitingToSend = 37,
     xTasksWaitingToReceive = 38, uxMessagesWaiting = 0, uxLength = configTIMER_QUEUE_LENGTH, uxItemSize = sizeof_DaemonTaskMessage,
     cRxLock = queueUNLOCKED, cTxLock = queueUNLOCKED, qStaticallyAllocated = True, uxQueueNumber = 0, ucQueueType = 0,
     qStorageAt = 1000, qStorage = replicate 160 0\<rparr>"

definition ex_timer :: "u64 \<Rightarrow> u8 \<Rightarrow> Timer_t" where
  "ex_timer p st = \<lparr>pcTimerName = 0, xTimerPeriodInTicks = p, pvTimerID = 0, pxCallbackFunction = 0, uxTimerNumber = 0, ucStatus = st\<rparr>"

definition ex_timers :: "nat \<Rightarrow> timers" where
  "ex_timers L = \<lparr>timer = (\<lambda>t. if t = 5 then ex_timer 10 tmrSTATUS_IS_AUTORELOAD else ex_timer 3 0), timer_lists = lists ex_reset,
     pxCurrentTimerList = xActiveTimerList1, pxOverflowTimerList = xActiveTimerList2, xTimerQueue = 77, xStaticTimerQueue = 77,
     xLastTime = of_nat L\<rparr>"

lemma ex_env: "calls_ok ex_env A T D id" "te_run ex_env = Some" "silent ex_env" "timeless ex_env" "te_isr ex_env = (\<lambda>j. run_isr {..40} [])"
  by (auto simp: calls_ok_def silent_def timeless_def ex_env_def same_timers_def)

lemma ex_runs: "runs_until ex_env A T D id N N"
  by (auto simp: runs_until_def ex_env_def same_timers_def)

lemma ex_commands: "data_queue ex_commands" "queue_items ex_commands = []"
  by (rule new_queue_data [of configTIMER_QUEUE_LENGTH sizeof_DaemonTaskMessage 1000 "replicate 160 0"];
      simp add: ex_commands_def sizeof_DaemonTaskMessage_def)+

lemma ex_timers_inv: "timers_inv {5, 6} L (ex_timers L)" "expiries L (ex_timers L) = Map.empty" "reloads (ex_timers L) 5" "\<not> reloads (ex_timers L) 6"
  "period (ex_timers L) 5 = 10" "period (ex_timers L) 6 = 3"
proof -
  have "klist (timer_lists (ex_timers L)) l []" for l by (simp add: klist_def ring_list_empty ex_timers_def ex_reset_def)
  moreover from this have m: "members (timer_lists (ex_timers L)) l = []" for l by (rule klist_members)
  ultimately have "list_ok {xActiveTimerList1, xActiveTimerList2} (timer_lists (ex_timers L))"
    by (simp add: list_ok_def) (simp add: ex_timers_def ex_reset_def)
  then show "timers_inv {5, 6} L (ex_timers L)"
    using m by (auto simp: timers_inv_def period_def sorted_by_def) (simp_all add: ex_timers_def ex_reset_def ex_timer_def)
  show "expiries L (ex_timers L) = Map.empty" "reloads (ex_timers L) 5" "\<not> reloads (ex_timers L) 6" "period (ex_timers L) 5 = 10" "period (ex_timers L) 6 = 3"
    by (simp_all add: expiries_def fun_eq_iff ex_timers_def ex_reset_def reloads_def period_def ex_timer_def timer_constants)
qed

text \<open>The tick count of the started system is arbitrary, as no task is delayed.\<close>

abbreviation ex_tick :: "nat \<Rightarrow> kernel \<Rightarrow> kernel" where
  "ex_tick n s \<equiv> s\<lparr>xTickCount := of_nat n\<rparr>"

lemma ex_tick_inv:
  assumes k: "kernel_inv T D s" and r: "\<forall>t\<in>T. is_ready s t"
  shows "kernel_inv T D (ex_tick n s)"
proof -
  have ok: "kernel_ok T D {} s" using k by (simp add: kernel_inv_def)
  have "members (lists s) l = []" if l: "l = 32 \<or> l = 33" for l
  proof (rule ccontr)
    assume "members (lists s) l \<noteq> []"
    then obtain x where x: "x \<in> set (members (lists s) l)" by (meson last_in_set)
    obtain t where t: "x = xStateListItem t" "t \<in> T" by (rule kernel_member [OF ok _ x]) (use l in auto)
    have "l \<in> D" using kernel_dom [OF ok] l by auto
    then have "pxContainer (lists s) x = Some l" using members_container [OF kernel_lists [OF ok]] x by simp
    then show False using r t l by (auto simp: is_ready_def)
  qed
  then have "wake_times s (pxDelayedTaskList s) = []" "wake_times s (pxOverflowDelayedTaskList s) = []"
    using ok by (auto simp: wake_times_def kernel_ok_def delayed_lists_def)
  moreover have "kernel_ok T D {} (ex_tick n s)" by (rule kernel_ok_cong [OF ok]) simp_all
  ultimately show ?thesis using k by (simp add: kernel_inv_def delay_ok_def count_ok_def wake_times_def)
qed

lemma ex_command_queue:
  obtains s0 where "vTaskStartScheduler (Some 7) (Some 0) True (Some 8) (Some 1) ex_reset = Some s0"
    "\<And>n. command_queue 0 {1, 0} {..40} (ex_commands, ex_tick n s0)" "pxCurrentTCB s0 = Some 1" "is_ready s0 1"
    "pxContainer (lists s0) (xEventListItem 1) = None" "xPendedTicks s0 = 0"
proof -
  obtain s0 where s0: "vTaskStartScheduler (Some 7) (Some 0) True (Some 8) (Some 1) ex_reset = Some s0"
    "system_inv 0 {..40} ({1, 0}, s0)" "uxSchedulerSuspended s0 = 0" "pxCurrentTCB s0 = Some 1" "is_ready s0 1"
    "pxContainer (lists s0) (xEventListItem 1) = None" "xPendedTicks s0 = 0"
    by (rule ex_started)
  have "kernel_inv {1, 0} {..40} (ex_tick n s0)" for n
    by (rule ex_tick_inv [OF system_kernel [OF s0(2)]]) (use s0(2,5) in \<open>auto simp: system_inv_def\<close>)
  then have "queue_inv {1, 0} {..40} (ex_commands, ex_tick n s0)" for n
    using ex_commands(1) ex_wait_lists by (simp add: queue_inv_def) (simp add: ex_commands_def)
  then have "command_queue 0 {1, 0} {..40} (ex_commands, ex_tick n s0)" for n
    using s0(3) by (simp add: command_queue_def) (simp add: ex_commands_def)
  then show ?thesis using that s0 by blast
qed

text \<open>A timer started at tick \<open>L\<close>.\<close>

lemma ex_started_timer:
  assumes t: "t \<in> {5, 6}" and q: "command_queue 0 {1, 0} {..40} (ex_commands, ex_tick L s)"
  obtains m1 x1 w1 where
    "timer_command ex_env tmrCOMMAND_START \<lparr>xMessageValue = of_nat L, pxTimer = t\<rparr> (ex_timers L, (ex_commands, ex_tick L s), []) = Some (m1, x1, w1)"
    "timers_inv {5, 6} L m1" "expiries L m1 = [t \<mapsto> L + period (ex_timers L) t]" "reloads m1 t = reloads (ex_timers L) t"
    "period m1 t = period (ex_timers L) t" "xTimerIsTimerActive t m1"
proof -
  have st: "is_start tmrCOMMAND_START" by (simp add: is_start_def)
  note df = commands_differ(1) [OF st]
  have p: "0 < period (ex_timers L) t" using t ex_timers_inv(5,6) by auto
  have tick: "xTickCount (snd (ex_commands, ex_tick L s)) = of_nat L" by simp
  have v: "is_start tmrCOMMAND_START \<Longrightarrow> of_nat L = (of_nat L :: u64) \<and> L \<le> L \<and> L < L + tick_range" by simp
  have c: "is_change tmrCOMMAND_START \<Longrightarrow> (of_nat L :: u64) \<noteq> 0" using df by blast
  obtain m1 x1 w1 where m1:
    "timer_command ex_env tmrCOMMAND_START \<lparr>xMessageValue = of_nat L, pxTimer = t\<rparr> (ex_timers L, (ex_commands, ex_tick L s), []) = Some (m1, x1, w1)"
    "timers_inv {5, 6} L m1" "expiries L m1 = commanded tmrCOMMAND_START t (of_nat L) L (period (ex_timers L) t) L (sampled L L (expiries L (ex_timers L)))"
    "\<And>u. u \<in> {5, 6} \<Longrightarrow> xTimerIsTimerActive u m1 =
       (if u = t then status_after tmrCOMMAND_START (is_static (ex_timers L) t) (xTimerIsTimerActive t (ex_timers L)) else xTimerIsTimerActive u (ex_timers L))"
    "\<And>u. u \<in> {5, 6} \<Longrightarrow> period m1 u = (if u = t \<and> is_change tmrCOMMAND_START then unat (of_nat L :: u64) else period (ex_timers L) u) \<and>
       reloads m1 u = reloads (ex_timers L) u"
  proof (rule command_exact [OF ex_env(1) ex_runs ex_timers_inv(1) q tick _ _ t v c, where w = "[]"])
    fix m1 x1 w1
    assume a: "timer_command ex_env tmrCOMMAND_START \<lparr>xMessageValue = of_nat L, pxTimer = t\<rparr> (ex_timers L, (ex_commands, ex_tick L s), []) = Some (m1, x1, w1)"
      "timers_inv {5, 6} L m1" "expiries L m1 = commanded tmrCOMMAND_START t (of_nat L) L (period (ex_timers L) t) L (sampled L L (expiries L (ex_timers L)))"
      "\<And>u. u \<in> {5, 6} \<Longrightarrow> xTimerIsTimerActive u m1 =
         (if u = t then status_after tmrCOMMAND_START (is_static (ex_timers L) t) (xTimerIsTimerActive t (ex_timers L)) else xTimerIsTimerActive u (ex_timers L))"
      "\<And>u. u \<in> {5, 6} \<Longrightarrow> period m1 u = (if u = t \<and> is_change tmrCOMMAND_START then unat (of_nat L :: u64) else period (ex_timers L) u) \<and>
         reloads m1 u = reloads (ex_timers L) u"
    show thesis by (rule that [OF a])
  qed simp_all
  have x: "expiries L m1 = [t \<mapsto> L + period (ex_timers L) t]"
    using m1(3) p st by (simp add: commanded_def ex_timers_inv(2) sampled_def fun_eq_iff)
  show ?thesis
    by (rule that [OF m1(1,2) x]) (use m1(4,5) [OF t] st df in \<open>simp_all add: status_after_def\<close>)
qed

subsection \<open>From one wait of the timer task to the next\<close>

text \<open>C14: the timer task gets to run at tick \<open>N\<close>, after having run at tick \<open>L\<close>, and goes round its loop until
  no timer is due, at most once more than there are timers due: then every timer has been called exactly once for each
  of its expiries up to \<open>N\<close> - several times if it reloads and is late by more than its period - and is scheduled for
  the next one, in step with its first; a timer that is not due is not called. However many timers are due, however late
  they are and whether or not the counter wrapped since \<open>L\<close>, no expiry is lost and none is repeated. This rests on
  conditions: at the start the command queue is empty and no ticks are pending; while the task is at it nothing else runs
  (\<open>te_run e = Some\<close>) and the call-backs return, send no commands (\<open>silent\<close>: a command would change the
  schedule itself) and let no tick pass (\<open>timeless\<close>); no expiry is
  a whole range of the counter ago; and if the counter wrapped, the command queue has room for the reloading timers of the
  period that ended. What commands do, and what a full queue does, are properties of their own below.\<close>

theorem timer_periodic_exact:
  assumes e: "calls_ok e A T D fired" "te_run e = Some" "silent e" "timeless e"
    and i: "timers_inv A L m" and q: "command_queue 0 T D (q, s)" "queue_items q = []"
    and N: "clock s = (of_nat N, 0)" "L \<le> N" "N < L + tick_range"
    and room: "N div tick_range \<noteq> L div tick_range \<Longrightarrow> card {u \<in> of_period_ended L m. reloads m u} \<le> unat (uxLength q)"
    and late: "\<And>u E. expiries L m u = Some E \<Longrightarrow> N < E + tick_range"
    and due: "expiries L m t = Some E" "E \<le> N"
  shows "\<exists>k m' q' s' w'. k \<le> Suc (card (due_timers N (expiries L m))) \<and> timer_turns e k (m, (q, s), w) = Some (m', (q', s'), w') \<and>
    timers_inv A N m' \<and> command_queue 0 T D (q', s') \<and> queue_items q' = [] \<and> clock s' = (of_nat N, 0) \<and>
    (\<forall>u. count_list (fired w') u = count_list (fired w) u + due_calls N (expiries L m) m u) \<and>
    (\<forall>u. expiries N m' u = next_due N (expiries L m) m u)"
proof (rule all_turns [where w = w, OF e i q N room late due])
  fix k m' q' s' w'
  assume a: "k \<le> Suc (card (due_timers N (expiries L m)))" "timer_turns e k (m, (q, s), w) = Some (m', (q', s'), w')"
    "turn_ok A T D N m (m', q', s')" "serves fired N (expiries L m) m UNIV w m' w'"
  show ?thesis
    by (intro exI conjI, rule a(1), rule a(2)) (use a(3,4) in \<open>simp_all add: turn_ok_def serves_def\<close>)
qed

text \<open>Timer 5 was started at tick 0 and is looked at again at tick 25: it is called for ticks 10 and 20.\<close>

theorem timer_periodic_exact_witness:
  "\<exists>s0 m1 x1 w1 k m2 x2 w2. vTaskStartScheduler (Some 7) (Some 0) True (Some 8) (Some 1) ex_reset = Some s0 \<and>
     timer_command ex_env tmrCOMMAND_START \<lparr>xMessageValue = 0, pxTimer = 5\<rparr> (ex_timers 0, (ex_commands, ex_tick 0 s0), []) = Some (m1, x1, w1) \<and>
     timer_turns ex_env k (m1, (ex_commands, ex_tick 25 s0), []) = Some (m2, x2, w2) \<and> count_list w2 5 = 2 \<and> expiries 25 m2 5 = Some 30"
proof -
  obtain s0 where s0: "vTaskStartScheduler (Some 7) (Some 0) True (Some 8) (Some 1) ex_reset = Some s0"
    "\<And>n. command_queue 0 {1, 0} {..40} (ex_commands, ex_tick n s0)" "xPendedTicks s0 = 0"
    by (rule ex_command_queue) blast
  obtain m1 x1 w1 where m1:
    "timer_command ex_env tmrCOMMAND_START \<lparr>xMessageValue = of_nat 0, pxTimer = 5\<rparr> (ex_timers 0, (ex_commands, ex_tick 0 s0), []) = Some (m1, x1, w1)"
    "timers_inv {5, 6} 0 m1" "expiries 0 m1 = [5 \<mapsto> 0 + period (ex_timers 0) 5]" "reloads m1 5 = reloads (ex_timers 0) 5"
    "period m1 5 = period (ex_timers 0) 5"
    by (rule ex_started_timer [OF _ s0(2), of 5 0]) auto
  have f: "clock (ex_tick 25 s0) = (of_nat 25, 0)" "(0 :: nat) \<le> 25" "(25 :: nat) < 0 + tick_range"
    "(25 :: nat) div tick_range = 0 div tick_range" "period m1 5 = 10" "reloads m1 5" "expiries 0 m1 5 = Some 10" "(10 :: nat) \<le> 25"
    using m1(3-5) s0(3) by (simp_all add: clock_def ex_timers_inv tick_range_def)
  have late: "25 < E + tick_range" for E by (simp add: tick_range_def)
  have "{u \<in> of_period_ended 0 m1. reloads m1 u} \<subseteq> {5}" using m1(3) by (auto simp: of_period_ended_def split: if_splits)
  then have "card {u \<in> of_period_ended 0 m1. reloads m1 u} \<le> card {5 :: nat}" by (intro card_mono) auto
  then have room: "card {u \<in> of_period_ended 0 m1. reloads m1 u} \<le> unat (uxLength ex_commands)" by (simp add: ex_commands_def)
  from timer_periodic_exact [OF ex_env(1-4) m1(2) s0(2) ex_commands(2) f(1-3) room late f(7,8), where w = "[]"]
  obtain k m2 q2 s2 w2 where r: "timer_turns ex_env k (m1, (ex_commands, ex_tick 25 s0), []) = Some (m2, (q2, s2), w2)"
    "\<forall>u. count_list (id w2) u = count_list (id []) u + due_calls 25 (expiries 0 m1) m1 u" "\<forall>u. expiries 25 m2 u = next_due 25 (expiries 0 m1) m1 u"
    by (elim exE conjE) (rule that)
  have "count_list w2 5 = 2" "expiries 25 m2 5 = Some 30" using r(2,3) f by (simp_all add: due_calls_def next_due_def)
  moreover have "timer_command ex_env tmrCOMMAND_START \<lparr>xMessageValue = 0, pxTimer = 5\<rparr> (ex_timers 0, (ex_commands, ex_tick 0 s0), []) = Some (m1, x1, w1)"
    using m1(1) by simp
  ultimately show ?thesis using s0(1) r(1) by blast
qed

text \<open>C17: one round of the loop of the timer task at tick \<open>N\<close>, the last one having been at tick \<open>L\<close>, whether the
  counter wrapped in between or not. If it did, every timer of the period that ended is called as
  often as it expired in it, and none of them stays in the list; otherwise the timer that expires
  first is called if its time has come, and scheduled again if it reloads and is not late; otherwise
  the task blocks for exactly the time to the next expiry, or to the end of the period if there is
  none in it, and for ever if no timer is active.\<close>

theorem timer_round_exact:
  assumes "calls_ok e A T D fired" "te_isr e = (\<lambda>j. run_isr D (is j))" "timers_inv A L m" "command_queue 0 T D (q, s)"
    and "pxCurrentTCB s = Some c" "is_ready s c" "pxContainer (lists s) (xEventListItem c) = None"
    and "xTickCount s = of_nat N" "L \<le> N" "N < L + tick_range"
  shows "\<exists>m' q' s' w'. prvProcessTimerOrBlockTask e (fst (prvGetNextExpireTime m)) (snd (prvGetNextExpireTime m)) (m, (q, s), w) = Some (m', (q', s'), w') \<and>
    timers_inv A N m' \<and> queue_inv T D (q', s') \<and>
    (if N div tick_range \<noteq> L div tick_range then round_ended fired L N m w m' w'
     else if \<exists>u E. expiries L m u = Some E \<and> E \<le> N then round_fired fired N m (expiries L m) w m' w'
     else round_waits e N m (expiries L m) (m, (q, s), w) (Some (m', (q', s'), w')))"
  by (rule timer_round [OF assms, of w]) (intro exI conjI, assumption+, simp)

theorem timer_round_exact_witness:
  "\<exists>s0 m1 x1 w1 m2 x2 w2. vTaskStartScheduler (Some 7) (Some 0) True (Some 8) (Some 1) ex_reset = Some s0 \<and>
     timer_command ex_env tmrCOMMAND_START \<lparr>xMessageValue = 0, pxTimer = 6\<rparr> (ex_timers 0, (ex_commands, ex_tick 0 s0), []) = Some (m1, x1, w1) \<and>
     prvProcessTimerOrBlockTask ex_env (fst (prvGetNextExpireTime m1)) (snd (prvGetNextExpireTime m1)) (m1, (ex_commands, ex_tick 25 s0), []) = Some (m2, x2, w2) \<and>
     w2 = [6] \<and> expiries 25 m2 6 = None"
proof -
  obtain s0 where s0: "vTaskStartScheduler (Some 7) (Some 0) True (Some 8) (Some 1) ex_reset = Some s0"
    "\<And>n. command_queue 0 {1, 0} {..40} (ex_commands, ex_tick n s0)" "pxCurrentTCB s0 = Some 1" "is_ready s0 1"
    "pxContainer (lists s0) (xEventListItem 1) = None"
    by (rule ex_command_queue) blast
  obtain m1 x1 w1 where m1:
    "timer_command ex_env tmrCOMMAND_START \<lparr>xMessageValue = of_nat 0, pxTimer = 6\<rparr> (ex_timers 0, (ex_commands, ex_tick 0 s0), []) = Some (m1, x1, w1)"
    "timers_inv {5, 6} 0 m1" "expiries 0 m1 = [6 \<mapsto> 0 + period (ex_timers 0) 6]" "reloads m1 6 = reloads (ex_timers 0) 6"
    by (rule ex_started_timer [OF _ s0(2), of 6 0]) auto
  have f: "pxCurrentTCB (ex_tick 25 s0) = Some 1" "is_ready (ex_tick 25 s0) 1" "pxContainer (lists (ex_tick 25 s0)) (xEventListItem 1) = None"
    "xTickCount (ex_tick 25 s0) = of_nat 25" "(0 :: nat) \<le> 25" "(25 :: nat) < 0 + tick_range" "(25 :: nat) div tick_range = 0 div tick_range"
    using s0(3-5) by (simp_all add: is_ready_def tick_range_def)
  have x: "expiries 0 m1 = [6 \<mapsto> 3]" "\<not> reloads m1 6" using m1(3,4) by (simp_all add: ex_timers_inv)
  from timer_round_exact [OF ex_env(1,5) m1(2) s0(2) f(1-6), where w = "[]"]
  obtain m2 q2 s2 w2 where r: "prvProcessTimerOrBlockTask ex_env (fst (prvGetNextExpireTime m1)) (snd (prvGetNextExpireTime m1))
      (m1, (ex_commands, ex_tick 25 s0), []) = Some (m2, (q2, s2), w2)"
    "if 25 div tick_range \<noteq> 0 div tick_range then round_ended id 0 25 m1 [] m2 w2
     else if \<exists>u E. expiries 0 m1 u = Some E \<and> E \<le> 25 then round_fired id 25 m1 (expiries 0 m1) [] m2 w2
     else round_waits ex_env 25 m1 (expiries 0 m1) (m1, (ex_commands, ex_tick 25 s0), []) (Some (m2, (q2, s2), w2))"
    by (elim exE conjE) (rule that)
  have "\<exists>u E. expiries 0 m1 u = Some E \<and> E \<le> 25" by (rule exI [of _ 6], rule exI [of _ 3]) (simp add: x)
  then have "round_fired id 25 m1 (expiries 0 m1) [] m2 w2" using r(2) f(7) by simp
  then have "w2 = [6] \<and> expiries 25 m2 6 = None" using x by (auto simp: round_fired_def split: if_splits)
  moreover have "timer_command ex_env tmrCOMMAND_START \<lparr>xMessageValue = 0, pxTimer = 6\<rparr> (ex_timers 0, (ex_commands, ex_tick 0 s0), []) = Some (m1, x1, w1)"
    using m1(1) by simp
  ultimately show ?thesis using s0(1) r(1) by blast
qed

subsection \<open>Commands\<close>

text \<open>C11: a command does to the schedule what it should, whatever its delay in the queue and wherever the
  counter wrapped: a timer started at tick \<open>C\<close> expires at \<open>C\<close> plus its period, or is called at once if that
  time has passed; a new period counts from the time the command is seen; a stopped or deleted timer
  does not expire. No other timer is affected, but for those whose time ran out when the counter wrapped.\<close>

theorem timer_command_exact:
  assumes "calls_ok e A T D fired" "runs_until e A T D fired M N" "timers_inv A L m" "command_queue n T D x" "xTickCount (snd x) = of_nat M"
    and "L \<le> N" "N < L + tick_range" "t \<in> A"
    and "is_start cmd \<Longrightarrow> v = of_nat C \<and> C \<le> N \<and> N < C + tick_range" "is_change cmd \<Longrightarrow> v \<noteq> 0"
  shows "\<exists>m' x' w'. timer_command e cmd \<lparr>xMessageValue = v, pxTimer = t\<rparr> (m, x, w) = Some (m', x', w') \<and>
    timers_inv A N m' \<and> command_queue n T D x' \<and>
    expiries N m' = commanded cmd t v C (period m t) N (sampled L N (expiries L m)) \<and>
    (\<forall>u\<in>A. xTimerIsTimerActive u m' =
       (if u = t then status_after cmd (is_static m t) (xTimerIsTimerActive t m) else xTimerIsTimerActive u m)) \<and>
    (\<forall>u\<in>A. period m' u = (if u = t \<and> is_change cmd then unat v else period m u) \<and> reloads m' u = reloads m u) \<and>
    (\<forall>u. count_list (fired w') u = count_list (fired w) u +
       (if N div tick_range \<noteq> L div tick_range \<and> u \<noteq> t then fires m u else 0) + (if u = t \<and> is_start cmd \<and> C + period m t \<le> N then 1 else 0))"
  proof (rule command_exact [where cmd = cmd and v = v and C = C and w = w, OF assms(1-8)])
  show "is_start cmd \<Longrightarrow> v = of_nat C \<and> C \<le> N \<and> N < C + tick_range" "is_change cmd \<Longrightarrow> v \<noteq> 0" by (rule assms(9), assumption, rule assms(10))
qed (intro exI conjI, assumption, assumption, assumption, assumption, simp_all)

theorem timer_command_exact_witness:
  "\<exists>s0 m1 x1 w1. vTaskStartScheduler (Some 7) (Some 0) True (Some 8) (Some 1) ex_reset = Some s0 \<and>
     timer_command ex_env tmrCOMMAND_START \<lparr>xMessageValue = 1, pxTimer = 6\<rparr> (ex_timers 0, (ex_commands, ex_tick 2 s0), []) = Some (m1, x1, w1) \<and>
     expiries 2 m1 6 = Some 4"
proof -
  obtain s0 where s0: "vTaskStartScheduler (Some 7) (Some 0) True (Some 8) (Some 1) ex_reset = Some s0"
    "\<And>n. command_queue 0 {1, 0} {..40} (ex_commands, ex_tick n s0)"
    by (rule ex_command_queue) blast
  have st: "is_start tmrCOMMAND_START" by (simp add: is_start_def)
  have f: "xTickCount (snd (ex_commands, ex_tick 2 s0)) = of_nat 2" "(0 :: nat) \<le> 2" "(2 :: nat) < 0 + tick_range" "(6 :: nat) \<in> {5, 6}"
    "1 = (of_nat 1 :: u64) \<and> (1 :: nat) \<le> 2 \<and> 2 < 1 + tick_range" "(1 :: u64) \<noteq> 0"
    by (simp_all add: tick_range_def)
  from timer_command_exact [where cmd = tmrCOMMAND_START and w = "[]", OF ex_env(1) ex_runs ex_timers_inv(1) s0(2) f]
  obtain m1 x1 w1 where r: "timer_command ex_env tmrCOMMAND_START \<lparr>xMessageValue = 1, pxTimer = 6\<rparr> (ex_timers 0, (ex_commands, ex_tick 2 s0), []) = Some (m1, x1, w1)"
    "expiries 2 m1 = commanded tmrCOMMAND_START 6 1 1 (period (ex_timers 0) 6) 2 (sampled 0 2 (expiries 0 (ex_timers 0)))"
    by (elim exE conjE) (rule that)
  have "expiries 2 m1 6 = Some 4" using r(2) st by (simp add: commanded_def ex_timers_inv)
  then show ?thesis using s0(1) r(1) by blast
qed

subsection \<open>The end of a period of the counter\<close>

text \<open>C39: when the counter has wrapped, the walk over the timers of the period that ended returns, although
  timers that reload go back into the list it walks over: each timer is called once for each of its
  expiries in that period, a timer that does not reload once. Afterwards no timer of that period
  is left, the others are as before, and a timer that reloads has sent itself the time of its last
  expiry, as long as the command queue has room. The code does not clear the mark of a timer that
  was called for the last time.\<close>

theorem timer_wrap_exact:
  assumes "calls_ok e A T D fired" "timers_inv A L m" "command_queue n T D x" "xTickCount (snd x) = of_nat N" "L \<le> N" "N < L + tick_range"
    and "N div tick_range \<noteq> L div tick_range"
  shows "\<exists>m' x' w' ts. prvSampleTimeNow e (m, x, w) = Some (of_nat N, True, m', x', w') \<and> timers_inv A N m' \<and> command_queue n T D x' \<and>
    expiries N m' = sampled L N (expiries L m) \<and> (\<forall>u. count_list (fired w') u = count_list (fired w) u + fires m u) \<and>
    reload_list m ts \<and> (silent e \<longrightarrow> queue_items (fst x') = take (unat (uxLength (fst x))) (queue_items (fst x) @ reload_messages m ts)) \<and>
    (\<forall>u\<in>A. xTimerIsTimerActive u m' = xTimerIsTimerActive u m)"
proof -
  obtain m' x' w' where r: "prvSampleTimeNow e (m, x, w) = Some (of_nat N, N div tick_range \<noteq> L div tick_range, m', x', w')"
    "timers_inv A N m'" "expiries N m' = sampled L N (expiries L m)" "same_status A m m'" "command_queue n T D x'"
    "N div tick_range \<noteq> L div tick_range \<Longrightarrow> (\<forall>u. count_list (fired w') u = count_list (fired w) u + fires m u) \<and>
       (\<exists>ts. reload_list m ts \<and> (silent e \<longrightarrow>
          queue_items (fst x') = take (unat (uxLength (fst x))) (queue_items (fst x) @ reload_messages m ts) \<and> uxLength (fst x') = uxLength (fst x)))"
    by (rule sample_time [OF assms(1-6), of w]) (rule that)
  have "prvSampleTimeNow e (m, x, w) = Some (of_nat N, True, m', x', w')" using r(1) assms(7) by simp
  moreover have "\<forall>u\<in>A. xTimerIsTimerActive u m' = xTimerIsTimerActive u m" using r(4) by (simp add: same_status_def xTimerIsTimerActive_def)
  ultimately show ?thesis using r(2,3,5) r(6) [OF assms(7)] by blast
qed

text \<open>Timer 6, started 8 ticks before the end of the period of the counter, sees it end.\<close>

theorem timer_wrap_exact_witness:
  "\<exists>s0 m1 x1 w1 m2 x2 w2. vTaskStartScheduler (Some 7) (Some 0) True (Some 8) (Some 1) ex_reset = Some s0 \<and>
     timer_command ex_env tmrCOMMAND_START \<lparr>xMessageValue = of_nat (tick_range - 8), pxTimer = 6\<rparr>
       (ex_timers (tick_range - 8), (ex_commands, ex_tick (tick_range - 8) s0), []) = Some (m1, x1, w1) \<and>
     prvSampleTimeNow ex_env (m1, (ex_commands, ex_tick (tick_range + 7) s0), []) = Some (of_nat (tick_range + 7), True, m2, x2, w2) \<and>
     expiries (tick_range + 7) m2 6 = None \<and> xTimerIsTimerActive 6 m2"
proof -
  let ?L = "tick_range - 8" and ?N = "tick_range + 7"
  have R: "8 \<le> tick_range" "15 < tick_range" by (simp_all add: tick_range_def)
  obtain s0 where s0: "vTaskStartScheduler (Some 7) (Some 0) True (Some 8) (Some 1) ex_reset = Some s0"
    "\<And>n. command_queue 0 {1, 0} {..40} (ex_commands, ex_tick n s0)"
    by (rule ex_command_queue) blast
  obtain m1 x1 w1 where m1:
    "timer_command ex_env tmrCOMMAND_START \<lparr>xMessageValue = of_nat ?L, pxTimer = 6\<rparr> (ex_timers ?L, (ex_commands, ex_tick ?L s0), []) = Some (m1, x1, w1)"
    "timers_inv {5, 6} ?L m1" "expiries ?L m1 = [6 \<mapsto> ?L + period (ex_timers ?L) 6]" "xTimerIsTimerActive 6 m1"
    by (rule ex_started_timer [OF _ s0(2), of 6 ?L]) auto
  have d: "?L div tick_range = 0" "?N div tick_range = 1" "(?L + 3) div tick_range = 0"
    using R div_add_self1 [of tick_range 7] by (simp_all add: div_less)
  have f: "xTickCount (snd (ex_commands, ex_tick ?N s0)) = of_nat ?N" "?L \<le> ?N" "?N < ?L + tick_range" "?N div tick_range \<noteq> ?L div tick_range"
    using R d by simp_all
  from timer_wrap_exact [OF ex_env(1) m1(2) s0(2) f, where w = "[]"]
  obtain m2 x2 w2 where r: "prvSampleTimeNow ex_env (m1, (ex_commands, ex_tick ?N s0), []) = Some (of_nat ?N, True, m2, x2, w2)"
    "expiries ?N m2 = sampled ?L ?N (expiries ?L m1)" "\<forall>u\<in>{5, 6}. xTimerIsTimerActive u m2 = xTimerIsTimerActive u m1"
    by (elim exE conjE) (rule that)
  have "expiries ?N m2 6 = None" unfolding r(2) sampled_def m1(3) ex_timers_inv using d by simp
  moreover have "xTimerIsTimerActive 6 m2" using r(3) m1(4) by simp
  ultimately show ?thesis using s0(1) m1(1) r(1) by blast
qed

subsection \<open>A full command queue\<close>

text \<open>C40: a periodic timer that is late by a period or more tells itself to start again through the command
  queue, and does not wait for room. If the queue is full, the message is lost: the timer is called,
  but is then in no list and in no message, and still counts as active.\<close>

theorem timer_lost:
  assumes e: "calls_ok e A T D fired" "silent e" and i: "timers_inv A N m" and q: "command_queue n T D (q, s)"
    and full: "length (queue_items q) = unat (uxLength q)"
    and t: "expiries N m t = Some E" "E + period m t \<le> N" "reloads m t" "xTimerIsTimerActive t m"
    and others: "\<forall>u F. u \<noteq> t \<longrightarrow> expiries N m u = Some F \<longrightarrow> N < F"
  shows "\<exists>m' q' s' w'. prvProcessExpiredTimer e (fst (prvGetNextExpireTime m)) (of_nat N) (m, (q, s), w) = Some (m', (q', s'), w') \<and>
    fired w' = fired w @ [t] \<and> expiries N m' = (expiries N m)(t := None) \<and> queue_items q' = queue_items q \<and> xTimerIsTimerActive t m'"
proof -
  have tA: "t \<in> A" using expiry_list(1) [OF i t(1)] by simp
  have EN: "E \<le> N" using t(2) by simp
  have eq: "E div tick_range = N div tick_range"
    using div_le_mono [OF EN, of tick_range] expiry_list(2) [OF i t(1)] by (auto simp: expires_div split: if_splits)
  then have ne: "members (timer_lists m) (pxCurrentTimerList m) \<noteq> []" using expiry_list(4) [OF i, of t E] t(1) by auto
  obtain v where v: "expires_at N m v div tick_range = N div tick_range"
    "listGET_ITEM_VALUE_OF_HEAD_ENTRY (timer_lists m) (pxCurrentTimerList m) = of_nat (expires_at N m v)"
    "\<And>u F. expiries N m u = Some F \<Longrightarrow> expires_at N m v \<le> F"
    by (rule current_head [OF i ne]) blast
  have h: "listGET_ITEM_VALUE_OF_HEAD_ENTRY (timer_lists m) (pxCurrentTimerList m) \<le> of_nat N"
    using v(1) v(3) [OF t(1)] EN period_order [of "expires_at N m v" N] unfolding v(2) by (simp add: word_le_nat_alt unat_tick)
  have g: "fst (prvGetNextExpireTime m) = listGET_ITEM_VALUE_OF_HEAD_ENTRY (timer_lists m) (pxCurrentTimerList m)"
    using ne members_is_empty [OF timers_invD(1,2) [OF i]] by (simp add: prvGetNextExpireTime_def Let_def)
  obtain t' E' m' q' s' w' where r: "prvProcessExpiredTimer e (fst (prvGetNextExpireTime m)) (of_nat N) (m, (q, s), w) = Some (m', (q', s'), w')"
    "fired w' = fired w @ [t']" "expiries N m t' = Some E'" "E' \<le> N"
    "expiries N m' = (expiries N m)(t' := if reloads m t' \<and> N < E' + period m t' then Some (E' + period m t') else None)"
    "\<And>u. u \<in> A \<Longrightarrow> xTimerIsTimerActive u m' \<longleftrightarrow> xTimerIsTimerActive u m \<and> (u = t' \<longrightarrow> reloads m t')"
    "silent e \<Longrightarrow> queue_items q' = (if reloads m t' \<and> E' + period m t' \<le> N
       then add_message q (timer_message tmrCOMMAND_START_DONT_TRACE \<lparr>xMessageValue = of_nat E', pxTimer = t'\<rparr>) else queue_items q)"
    by (rule process_expired [OF e(1) i q ne h, of w, folded g]) blast
  have t': "t' = t" "E' = E" using r(3,4) others t(1) by (cases "t' = t"; force)+
  have "queue_items q' = queue_items q" using r(7) [OF e(2)] full by (simp add: add_message_def del: items_length)
  moreover have "expiries N m' = (expiries N m)(t := None)" using r(5) t(2) by (simp add: t')
  moreover have "xTimerIsTimerActive t m'" using r(6) [OF tA] t(3,4) by (simp add: t')
  ultimately show ?thesis using r(1,2) unfolding t' by blast
qed

definition ex_full :: Queue_t where
  "ex_full = ex_commands\<lparr>uxMessagesWaiting := 5\<rparr>"

lemma ex_full: "data_queue ex_full" "length (queue_items ex_full) = unat (uxLength ex_full)"
proof -
  have "data_queue_at 4 ex_full"
    by (simp add: data_queue_at_def Let_def ex_full_def ex_commands_def sizeof_DaemonTaskMessage_def)
  then show "data_queue ex_full" by (auto simp: data_queue_def)
  show "length (queue_items ex_full) = unat (uxLength ex_full)" by (simp add: ex_full_def ex_commands_def)
qed

theorem timer_lost_witness:
  "\<exists>s0 m1 x1 w1 m2 x2. vTaskStartScheduler (Some 7) (Some 0) True (Some 8) (Some 1) ex_reset = Some s0 \<and>
     timer_command ex_env tmrCOMMAND_START \<lparr>xMessageValue = 0, pxTimer = 5\<rparr> (ex_timers 0, (ex_commands, ex_tick 0 s0), []) = Some (m1, x1, w1) \<and>
     prvProcessExpiredTimer ex_env (fst (prvGetNextExpireTime (m1\<lparr>xLastTime := of_nat 25\<rparr>))) (of_nat 25)
       (m1\<lparr>xLastTime := of_nat 25\<rparr>, (ex_full, ex_tick 25 s0), []) = Some (m2, x2, [5]) \<and>
     expiries 25 m2 5 = None \<and> xTimerIsTimerActive 5 m2"
proof -
  obtain s0 where s0: "vTaskStartScheduler (Some 7) (Some 0) True (Some 8) (Some 1) ex_reset = Some s0"
    "\<And>n. command_queue 0 {1, 0} {..40} (ex_commands, ex_tick n s0)"
    by (rule ex_command_queue) blast
  obtain m1 x1 w1 where m1:
    "timer_command ex_env tmrCOMMAND_START \<lparr>xMessageValue = of_nat 0, pxTimer = 5\<rparr> (ex_timers 0, (ex_commands, ex_tick 0 s0), []) = Some (m1, x1, w1)"
    "timers_inv {5, 6} 0 m1" "expiries 0 m1 = [5 \<mapsto> 0 + period (ex_timers 0) 5]" "reloads m1 5 = reloads (ex_timers 0) 5"
    "period m1 5 = period (ex_timers 0) 5" "xTimerIsTimerActive 5 m1"
    by (rule ex_started_timer [OF _ s0(2), of 5 0]) auto
  let ?m = "m1\<lparr>xLastTime := of_nat 25\<rparr>"
  have d: "(0 :: nat) \<le> 25" "(25 :: nat) div tick_range = 0 div tick_range" by (simp_all add: tick_range_def)
  note l = later_inv [OF m1(2) d]
  have same: "period ?m 5 = period m1 5" "reloads ?m 5 = reloads m1 5" "xTimerIsTimerActive 5 ?m = xTimerIsTimerActive 5 m1"
    by (simp_all add: reloads_def period_def xTimerIsTimerActive_def)
  have f: "expiries 25 ?m 5 = Some 10" "10 + period ?m 5 \<le> 25" "reloads ?m 5" "xTimerIsTimerActive 5 ?m"
    "\<forall>u F. u \<noteq> 5 \<longrightarrow> expiries 25 ?m u = Some F \<longrightarrow> 25 < F"
    unfolding l(2) same using m1(3-6) by (simp_all add: ex_timers_inv)
  have q: "command_queue 0 {1, 0} {..40} (ex_full, ex_tick 25 s0)"
    using s0(2) [of 25] ex_full(1) by (simp add: command_queue_def queue_inv_def) (simp add: ex_full_def)
  from timer_lost [OF ex_env(1,3) l(1) q ex_full(2) f, where w = "[]"]
  obtain m2 q2 s2 w2 where r: "prvProcessExpiredTimer ex_env (fst (prvGetNextExpireTime ?m)) (of_nat 25) (?m, (ex_full, ex_tick 25 s0), []) = Some (m2, (q2, s2), w2)"
    "id w2 = id [] @ [5]" "expiries 25 m2 = (expiries 25 ?m)(5 := None)" "xTimerIsTimerActive 5 m2"
    by (elim exE conjE) (rule that)
  have "w2 = [5]" "expiries 25 m2 5 = None" using r(2,3) by simp_all
  moreover have "timer_command ex_env tmrCOMMAND_START \<lparr>xMessageValue = 0, pxTimer = 5\<rparr> (ex_timers 0, (ex_commands, ex_tick 0 s0), []) = Some (m1, x1, w1)"
    using m1(1) by simp
  ultimately show ?thesis using s0(1) r(1,4) by blast
qed

end
