(* ===== verification/Spec2Isabelle.thy ===== *)
theory Spec2Isabelle
  imports Virtqueue_Props Libmetal_Props Kernel_List Heap4_Props Stream_Props Task_Props Queue_Props Event_Props Timer_Props
begin

text \<open>
  A verification library for the firmware of a RISC-V core that runs FreeRTOS and talks to another
  processor through OpenAMP. Paths below are relative to \<^verbatim>\<open>src/\<close>.

  \<^bold>\<open>The program.\<close> \<^verbatim>\<open>FreeRTOS/Source\<close> is the kernel. Everything it does goes through intrusive doubly linked
  lists (\<^verbatim>\<open>list.c\<close>): the scheduler (\<^verbatim>\<open>tasks.c\<close>) keeps each task in one list by its state item and in at most one more
  by its event item; queues, semaphores and mutexes (\<^verbatim>\<open>queue.c\<close>) and event groups (\<^verbatim>\<open>event_groups.c\<close>) own lists of waiting
  tasks and call the scheduler to block and wake; software timers (\<^verbatim>\<open>timers.c\<close>) are a task with two lists of its own and a
  command queue; stream and message buffers (\<^verbatim>\<open>stream_buffer.c\<close>) use task notifications; \<^verbatim>\<open>heap_4.c\<close> gives out the memory
  of them all. \<^verbatim>\<open>openamp/\<close> is the communication: the split virtqueue (\<^verbatim>\<open>open-amp/virtio/virtqueue.c\<close>) on shared memory
  that is reached through libmetal regions (\<^verbatim>\<open>libmetal/io.c\<close>, \<^verbatim>\<open>include/metal/\<close>). The build is LP64: pointers, \<open>size_t\<close>, ticks and
  \<open>UBaseType_t\<close> are 64-bit words. \<open>configASSERT\<close> is empty, so the model goes on where an assertion of the kernel fails;
  \<open>VQASSERT\<close> stops the firmware.

  \<^bold>\<open>Conventions.\<close> A struct is a record, the state of a file is a record passed through its functions, each of which
  has the name it has in C. An operation that may fault (a null or dangling pointer, an access outside an array, a
  failed \<open>VQASSERT\<close>) or may not return has an \<open>option\<close> result, and \<open>None\<close> is that outcome; error codes are values.
  Loops over linked structures are \<open>partial_function (option)\<close>, without fuel: the theorems show that the result is
  \<open>Some\<close>, so the loops end. The only counters are those of the properties themselves (\<open>switches n\<close>, \<open>timer_turns e k\<close>).
  Words keep their width and wrap. A function that waits is split where the running task changes: into an \<open>_enter\<close> and a \<open>_leave\<close>
  part for notifications, and otherwise into rounds whose interruptions are arguments (\<open>wait_env\<close>, \<open>wakeup\<close>, \<open>ev_isr\<close>, \<open>timer_env\<close>).

  \<^bold>\<open>Theories.\<close>
  \<^item> \<open>Prelude\<close>: word types, collections of simplification rules, generic lemmas. \<open>Ring_List\<close>, \<open>Byte_Ring\<close>: circular lists and
    circular arrays as such. \<open>Fifo\<close>, \<open>Transition\<close>: the contracts \<open>fifo\<close> (a bounded first-in first-out buffer) and \<open>call_system\<close> (a system
    driven by calls that return and keep an invariant).
  \<^item> \<open>Bitmap\<close>, \<open>Metal_Io\<close>, \<open>Metal_Block\<close>, \<open>Libmetal_Props\<close>: \<^verbatim>\<open>include/metal/utilities.h\<close> and \<^verbatim>\<open>io.h\<close>, \<^verbatim>\<open>libmetal/io.c\<close>, \<^verbatim>\<open>platform/shmem_ops.c\<close>. Address
    translation is a round trip, the block operations with their byte and word loops are \<open>memset\<close> and \<open>memcpy\<close>.
  \<^item> \<open>Virtqueue\<close> (the code), \<open>Virtqueue_Driver\<close> (free and busy descriptor chains), \<open>Virtqueue_Protocol\<close> (the two sides on one
    ring, the queue they implement and the simulation between them), \<open>Virtqueue_Props\<close>.
  \<^item> \<open>Node_List\<close> (\<^verbatim>\<open>metal/list.h\<close>), \<open>Kernel_List\<close> (\<^verbatim>\<open>list.c\<close> at pointer level), \<open>Kernel_Members\<close> (all lists of the kernel at once).
  \<^item> \<open>Heap4\<close> (the code), \<open>Heap4_Blocks\<close> (the specification: a row of blocks that tiles the heap), \<open>Heap4_Proof\<close>, \<open>Heap4_Alloc\<close>,
    \<open>Heap4_Spec\<close> (the code implements it), \<open>Heap4_Run\<close> (any sequence of calls), \<open>Heap4_Props\<close>.
  \<^item> \<open>Stream_Buffer\<close> (the code), \<open>Stream_Proof\<close>, \<open>Stream_Ops\<close>, \<open>Stream_Props\<close>.
  \<^item> \<open>Tasks\<close> (scheduler and port), \<open>Task_Api\<close> (tasks), \<open>Task_Sync\<close> (priorities, event lists, notifications): \<^verbatim>\<open>tasks.c\<close>,
    \<^verbatim>\<open>portmacro.h\<close>, \<^verbatim>\<open>arch/riscv/softirq.c\<close>. \<open>Task_Inv\<close> is the invariant \<open>kernel_inv T D s\<close>: every list is well linked, each task of \<open>T\<close> is in one
    list that fits its state, the ready bitmap, the sorted delayed lists, \<open>xNextTaskUnblockTime\<close> and the counters agree with them;
    \<open>Task_Steps\<close>, \<open>Task_Moves\<close>, \<open>Task_Switch\<close>, \<open>Task_Tick\<close> have the building blocks, \<open>Task_Ops\<close>, \<open>Task_Calls\<close>, \<open>Task_Calls_Sync\<close>,
    \<open>Task_Events\<close>, \<open>Task_Lifecycle\<close>, \<open>Task_Start\<close> one lemma per operation (it returns, keeps the invariant, and what it changes),
    \<open>Task_System\<close> puts calls and interrupts together, \<open>Task_Props\<close> has the properties.
  \<^item> \<open>Queue\<close> (the code), \<open>Queue_Data\<close> (the storage as a list of items), \<open>Queue_Kernel\<close>, \<open>Queue_Wait\<close> (blocking), \<open>Queue_Mutex\<close>,
    \<open>Queue_System\<close>, \<open>Queue_Create\<close>, \<open>Queue_Props\<close>.
  \<^item> \<open>Event_Group\<close> (the code), \<open>Event_Kept\<close>, \<open>Event_Proof\<close>, \<open>Event_Ops\<close>, \<open>Event_Wait\<close>, \<open>Event_System\<close>, \<open>Event_Props\<close>.
  \<^item> \<open>Timers\<close> (the code), \<open>Timer_Proof\<close> (the lists against exact, unbounded time), \<open>Timer_Ops\<close> (messages, the wrap of the
    counter), \<open>Timer_Task\<close> (one round), \<open>Timer_Commands\<close>, \<open>Timer_Turns\<close> (until nothing is due), \<open>Timer_Props\<close>.

  \<^bold>\<open>Interfaces.\<close> Four locales, each interpreted on the model: \<open>node_list\<close> by \<open>metal_list\<close> (\<open>ml\<close>) and by the lists of
  the kernel (\<open>kl\<close>); \<open>id_pool\<close> by the bitmap (\<open>bm\<close>); \<open>fifo\<close> by the available ring (\<open>avail\<close>) and the stream buffer (\<open>sb\<close>);
  \<open>call_system\<close> by the scheduler (\<open>sched\<close>), the scheduler with a queue (\<open>qsched\<close>) and with an event group (\<open>esched\<close>), which
  gives each of them its reachable states.

  \<^bold>\<open>What the interleaving theorems assume.\<close> \<open>exec_call\<close> has the operations of \<^verbatim>\<open>tasks.c\<close> that change its lists, its counters or a task (all that are
  modelled), and the tick and software interrupts; \<open>enabled_call\<close> says when one may be issued: by a running task that is ready, blocking only
  with the scheduler not suspended and never by the idle task, going to an event list only with the scheduler suspended, with
  handles of tasks that exist. Two rules are the code's own. \<open>vTaskPriorityDisinheritAfterTimeout\<close> must not move a ready holder
  that is alone in its ready list, because it then resets the wrong bit: \<open>Task_Props\<close> proves what follows. And a
  notification from an interrupt to a task that waits for it needs that task's event item to be in no list, as the code
  asserts; a task that is blocked for another reason may be notified. \<open>enabled_qcall\<close> and \<open>enabled_ecall\<close> add
  the operations of the object and inherit these rules.

  \<^bold>\<open>Granularity.\<close> A critical section is one step. With the scheduler suspended, interrupts come at the
  points the environment arguments have, not at every instruction: in \<open>take_block\<close> none comes between
  \<open>xTaskPriorityInherit\<close> (a critical section of its own in C) and \<open>vTaskPlaceOnEventList\<close>, and in the blocking calls of a queue none
  between \<open>vTaskSuspendAll\<close> and \<open>prvLockQueue\<close>; such an interrupt is moved to the next point, where it sees the queue locked.
  In \<^verbatim>\<open>heap_4.c\<close> and \<^verbatim>\<open>stream_buffer.c\<close> masking and suspension are not represented. For the start of the scheduler,
  \<open>xTimerCreateTimerTask\<close> takes the presence of the command queue as a boolean; its creation, \<open>prvCheckForValidListAndQueue\<close>, is in \<open>Timers\<close>.

  \<^bold>\<open>Not modelled.\<close> Stacks, stack frames and the saving of registers (\<^verbatim>\<open>portASM.S\<close>, \<^verbatim>\<open>port.c\<close>); the status and
  formatting functions of \<^verbatim>\<open>tasks.c\<close>; trace, registry, queue sets, co-routines and memory protection, which the build leaves out; the
  other heaps and ports; hardware drivers, traps and board start-up, which are register access; cache maintenance and
  fences, which have no effect on a sequential store; and of OpenAMP the layers above the virtqueue (endpoints and name
  service, remoteproc with its resource table and ELF loader) and libmetal's device and interrupt registries.
\<close>

end
